(* ===== verification/Prelude.thy ===== *)
theory Prelude
  imports Main "HOL-Library.Word"
begin

text \<open>
  Shared vocabulary of the development: the machine types of the C sources, the error
  numbers they return, the way a crash is represented, and generic lemmas on lists and on
  unsigned 32-bit arithmetic that several components need.

  \<^item> \<open>u8\<close>, \<open>u16\<close>, \<open>u32\<close>, \<open>u64\<close> are the C types of the same name, with wrap-around.
  \<^item> A value of type \<open>'a option\<close> returned by an operation is \<open>None\<close> when the C code
    would not return: a \<open>BUG_ON\<close> or \<open>ASSERT\<close> fires, or a null pointer is dereferenced.
    Theorems that an operation works therefore state that the result is \<open>Some\<close>.
  \<^item> A C function returning an \<open>int\<close> that is zero or a negated error number returns an
    \<open>int\<close> here as well, with the constants below.
\<close>

type_synonym u8 = "8 word"
type_synonym u16 = "16 word"
type_synonym u32 = "32 word"
type_synonym u64 = "64 word"

named_theorems crash_simps \<open>equations that decide when an operation crashes\<close>

section \<open>Error numbers\<close>

abbreviation (input) ENOENT :: int where "ENOENT \<equiv> 2"
abbreviation (input) EIO :: int where "EIO \<equiv> 5"
abbreviation (input) ENOMEM :: int where "ENOMEM \<equiv> 12"
abbreviation (input) EEXIST :: int where "EEXIST \<equiv> 17"
abbreviation (input) EINVAL :: int where "EINVAL \<equiv> 22"
abbreviation (input) ENOSPC :: int where "ENOSPC \<equiv> 28"
abbreviation (input) ENODATA :: int where "ENODATA \<equiv> 61"
abbreviation (input) EOVERFLOW :: int where "EOVERFLOW \<equiv> 75"

section \<open>Conversions between \<open>int\<close> and \<open>u64\<close>\<close>

definition int_of_u64 :: "u64 \<Rightarrow> int" where
  "int_of_u64 x = sint (ucast x :: 32 word)"

definition u64_of_int :: "int \<Rightarrow> u64" where
  "u64_of_int i = word_of_int i"

section \<open>Sorted lists with respect to a strict relation\<close>

lemma sorted_wrt_append_Cons:
  "sorted_wrt R (xs @ y # ys) \<longleftrightarrow>
     sorted_wrt R xs \<and> sorted_wrt R ys \<and> (\<forall>x\<in>set xs. R x y) \<and> (\<forall>z\<in>set ys. R y z) \<and>
     (\<forall>x\<in>set xs. \<forall>z\<in>set ys. R x z)"
  by (auto simp: sorted_wrt_append)

lemma sorted_wrt_mono_set:
  assumes "sorted_wrt R xs" and "\<And>x y. x \<in> set xs \<Longrightarrow> y \<in> set xs \<Longrightarrow> R x y \<Longrightarrow> Q x y"
  shows "sorted_wrt Q xs"
  using assms by (induction xs) auto

lemma sorted_wrt_pair:
  "sorted_wrt R xs \<Longrightarrow> x \<in> set xs \<Longrightarrow> y \<in> set xs \<Longrightarrow> x \<noteq> y \<Longrightarrow> R x y \<or> R y x"
  by (induction xs) auto

lemma sorted_wrt_distinct: "sorted_wrt R xs \<Longrightarrow> \<forall>x\<in>set xs. \<not> R x x \<Longrightarrow> distinct xs"
  by (induction xs) auto

lemma adjacent_sorted:
  fixes f :: "nat \<Rightarrow> 'a::linorder"
  shows "sorted_wrt (<) (map f [0..<n]) \<longleftrightarrow> (\<forall>i. Suc i < n \<longrightarrow> f i < f (Suc i))"
  by (subst sorted_wrt_iff_nth_Suc_transp) (auto intro: transpI)

lemma in_set_takeE:
  assumes "x \<in> set (take n xs)"
  obtains i where "x = xs ! i" and "i < n" and "i < length xs"
  using assms by (auto simp: in_set_conv_nth)

lemma in_set_dropE:
  assumes "x \<in> set (drop n xs)"
  obtains i where "x = xs ! i" and "n \<le> i" and "i < length xs"
proof -
  from assms obtain j where "j < length xs - n" "x = drop n xs ! j" by (auto simp: in_set_conv_nth)
  then show thesis using that [of "n + j"] by simp
qed

lemma takeWhile_split:
  assumes "xs @ ys = zs" and "\<forall>x\<in>set xs. P x" and "\<forall>y\<in>set ys. \<not> P y"
  shows "takeWhile P zs = xs" "dropWhile P zs = ys"
proof -
  have "takeWhile P ys = []" "dropWhile P ys = ys" using assms(3) by (cases ys; simp)+
  then show "takeWhile P zs = xs" "dropWhile P zs = ys" using assms(1,2) by auto
qed

end
