(* ===== verification/RbTree.thy ===== *)
theory RbTree
  imports Prelude
begin

text \<open>
  The red-black tree of \<open>kernel-lib/rbtree.c\<close>, \<open>kernel-lib/rbtree.h\<close>,
  \<open>kernel-lib/rbtree_augmented.h\<close> and the helpers of \<open>rbtree-utils.c\<close>.

  A subtree is a value of \<open>'a rb_node\<close>, where \<open>'a\<close> is the structure that embeds the
  \<open>struct rb_node\<close> (what \<open>rb_entry\<close> recovers). The C nodes have parent pointers, and a
  pointer to a node gives access to the whole tree around it. Here a pointer is a cursor:
  the subtree at the node and the list of frames from its parent up to the root. Going to the
  parent pops a frame, and \<open>plug\<close> rebuilds the tree. The loops of the C code that climb
  from a node to the root recurse on the list of frames.

  Dereferencing a null pointer is \<open>None\<close>. The lemmas show that the four rules of the
  comment at the head of \<open>rbtree.c\<close> (collected in \<open>is_rbt\<close>) are kept by insertion
  and erasure, that both always return, and what they do to the in-order sequence of entries.
\<close>

section \<open>Nodes, cursors\<close>

datatype rb_color = RB_RED | RB_BLACK

datatype 'a rb_node =
    Null
  | RbNode (rb_col: rb_color) (rb_left: "'a rb_node") (rb_entry: 'a) (rb_right: "'a rb_node")

datatype 'a rb_frame =
    LeftOf rb_color 'a "'a rb_node"
  | RightOf "'a rb_node" rb_color 'a

type_synonym 'a rb_cursor = "'a rb_node \<times> 'a rb_frame list"

fun rb_up :: "'a rb_node \<Rightarrow> 'a rb_frame \<Rightarrow> 'a rb_node" where
  "rb_up t (LeftOf c p s) = RbNode c t p s"
| "rb_up t (RightOf s c p) = RbNode c s p t"

fun plug :: "'a rb_node \<Rightarrow> 'a rb_frame list \<Rightarrow> 'a rb_node" where
  "plug t [] = t"
| "plug t (f # ctx) = plug (rb_up t f) ctx"

fun frame_color :: "'a rb_frame \<Rightarrow> rb_color" where
  "frame_color (LeftOf c p s) = c"
| "frame_color (RightOf s c p) = c"

fun is_red :: "'a rb_node \<Rightarrow> bool" where
  "is_red Null = False"
| "is_red (RbNode c l x r) = (c = RB_RED)"

fun set_color :: "rb_color \<Rightarrow> 'a rb_node \<Rightarrow> 'a rb_node" where
  "set_color c Null = Null"
| "set_color c (RbNode _ l x r) = RbNode c l x r"

section \<open>Insertion\<close>

text \<open>
  \<open>__rb_insert\<close>: \<open>node\<close> is the red node just linked below the frames \<open>ctx\<close>.
  The two halves of the body are the cases where the parent is the left and the right child
  of the grandparent; \<open>tmp && rb_is_red (tmp)\<close> is \<open>is_red\<close> on the uncle.
\<close>

fun rb_insert_loop :: "'a rb_node \<Rightarrow> 'a rb_frame list \<Rightarrow> 'a rb_node option" where
  "rb_insert_loop node ctx =
     (case ctx of
        [] \<Rightarrow> Some (set_color RB_BLACK node)
      | parent # ctx1 \<Rightarrow>
        if frame_color parent = RB_BLACK then Some (plug node ctx)
        else
          (case ctx1 of
             [] \<Rightarrow> None
           | LeftOf gc g uncle # ctx2 \<Rightarrow>
             if is_red uncle then
               rb_insert_loop
                 (RbNode RB_RED (set_color RB_BLACK (rb_up node parent)) g (set_color RB_BLACK uncle)) ctx2
             else
               (case parent of
                  RightOf pl _ p \<Rightarrow>
                    (case node of
                       Null \<Rightarrow> None
                     | RbNode _ nl x nr \<Rightarrow>
                         Some (plug (RbNode gc (RbNode RB_RED pl p (set_color RB_BLACK nl)) x
                                       (RbNode RB_RED (set_color RB_BLACK nr) g uncle)) ctx2))
                | LeftOf _ p pr \<Rightarrow>
                    Some (plug (RbNode gc node p (RbNode RB_RED (set_color RB_BLACK pr) g uncle)) ctx2))
           | RightOf uncle gc g # ctx2 \<Rightarrow>
             if is_red uncle then
               rb_insert_loop
                 (RbNode RB_RED (set_color RB_BLACK uncle) g (set_color RB_BLACK (rb_up node parent))) ctx2
             else
               (case parent of
                  LeftOf _ p pr \<Rightarrow>
                    (case node of
                       Null \<Rightarrow> None
                     | RbNode _ nl x nr \<Rightarrow>
                         Some (plug (RbNode gc (RbNode RB_RED uncle g (set_color RB_BLACK nl)) x
                                       (RbNode RB_RED (set_color RB_BLACK nr) p pr)) ctx2))
                | RightOf pl _ p \<Rightarrow>
                    Some (plug (RbNode gc (RbNode RB_RED uncle g (set_color RB_BLACK pl)) p node) ctx2))))"

declare rb_insert_loop.simps [simp del]

text \<open>\<open>rb_link_node\<close> makes a node with no children and a parent word without the black bit.\<close>

definition rb_link_node :: "'a \<Rightarrow> 'a rb_node" where
  "rb_link_node x = RbNode RB_RED Null x Null"

definition rb_insert_color :: "'a rb_node \<Rightarrow> 'a rb_frame list \<Rightarrow> 'a rb_node option" where
  "rb_insert_color node ctx = rb_insert_loop node ctx"

text \<open>The descent of \<open>rb_insert\<close>: the link where the node goes, or \<open>None\<close> for -EEXIST.\<close>

fun rb_insert_pos :: "('a \<Rightarrow> 'a \<Rightarrow> int) \<Rightarrow> 'a \<Rightarrow> 'a rb_node \<Rightarrow> 'a rb_frame list \<Rightarrow> 'a rb_frame list option" where
  "rb_insert_pos cmp x Null ctx = Some ctx"
| "rb_insert_pos cmp x (RbNode c l y r) ctx =
     (let ret = cmp y x in
      if ret < 0 then rb_insert_pos cmp x l (LeftOf c y r # ctx)
      else if ret > 0 then rb_insert_pos cmp x r (RightOf l c y # ctx)
      else None)"

definition rb_insert :: "('a \<Rightarrow> 'a \<Rightarrow> int) \<Rightarrow> 'a rb_node \<Rightarrow> 'a \<Rightarrow> (int \<times> 'a rb_node) option" where
  "rb_insert cmp root x =
     (case rb_insert_pos cmp x root [] of
        None \<Rightarrow> Some (- EEXIST, root)
      | Some ctx \<Rightarrow> map_option (Pair 0) (rb_insert_color (rb_link_node x) ctx))"

section \<open>Erasure\<close>

text \<open>
  \<open>____rb_erase_color\<close>: \<open>node\<close> hangs below the first frame and its paths are one
  black node short. The first step of an iteration turns a red sibling into a black one
  (case 1); \<open>rb_erase_step\<close> is the rest of the iteration (cases 2, 3 and 4), whose
  \<open>Inr\<close> is the \<open>continue\<close> at the parent.
\<close>

fun rb_erase_case1 :: "'a rb_frame list \<Rightarrow> 'a rb_frame list option" where
  "rb_erase_case1 (LeftOf pc p (RbNode RB_RED sl s sr) # ctx) =
     (if sl = Null then None
      else Some (LeftOf RB_RED p (set_color RB_BLACK sl) # LeftOf pc s sr # ctx))"
| "rb_erase_case1 (RightOf (RbNode RB_RED sl s sr) pc p # ctx) =
     (if sr = Null then None
      else Some (RightOf (set_color RB_BLACK sr) RB_RED p # RightOf sl pc s # ctx))"
| "rb_erase_case1 ctx = Some ctx"

fun rb_erase_step ::
  "'a rb_node \<Rightarrow> 'a rb_frame list \<Rightarrow> ('a rb_node + 'a rb_node \<times> 'a rb_frame list) option" where
  "rb_erase_step node (LeftOf pc p (RbNode sc sl s sr) # ctx) =
     (if \<not> is_red sr then
        (case sl of
           RbNode RB_RED a t b \<Rightarrow>
             Some (Inl (plug (RbNode pc (RbNode RB_BLACK node p a) t
                               (RbNode RB_BLACK (set_color RB_BLACK b) s sr)) ctx))
         | _ \<Rightarrow>
             (if pc = RB_RED then Some (Inl (plug (RbNode RB_BLACK node p (RbNode RB_RED sl s sr)) ctx))
              else if ctx \<noteq> [] then Some (Inr (RbNode pc node p (RbNode RB_RED sl s sr), ctx))
              else Some (Inl (RbNode pc node p (RbNode RB_RED sl s sr)))))
      else Some (Inl (plug (RbNode pc (RbNode RB_BLACK node p sl) s (set_color RB_BLACK sr)) ctx)))"
| "rb_erase_step node (RightOf (RbNode sc sl s sr) pc p # ctx) =
     (if \<not> is_red sl then
        (case sr of
           RbNode RB_RED a t b \<Rightarrow>
             Some (Inl (plug (RbNode pc (RbNode RB_BLACK sl s (set_color RB_BLACK a)) t
                               (RbNode RB_BLACK b p node)) ctx))
         | _ \<Rightarrow>
             (if pc = RB_RED then Some (Inl (plug (RbNode RB_BLACK (RbNode RB_RED sl s sr) p node) ctx))
              else if ctx \<noteq> [] then Some (Inr (RbNode pc (RbNode RB_RED sl s sr) p node, ctx))
              else Some (Inl (RbNode pc (RbNode RB_RED sl s sr) p node))))
      else Some (Inl (plug (RbNode pc (set_color RB_BLACK sl) s (RbNode RB_BLACK sr p node)) ctx)))"
| "rb_erase_step node _ = None"

lemma rb_erase_case1_length:
  "rb_erase_case1 ctx = Some ctx' \<Longrightarrow> rb_erase_step node ctx' = Some (Inr (node', ctx'')) \<Longrightarrow>
     length ctx'' < length ctx"
  by (induction ctx rule: rb_erase_case1.induct)
    (auto split: if_splits rb_node.splits rb_color.splits elim!: rb_erase_step.elims)

function rb_erase_color :: "'a rb_node \<Rightarrow> 'a rb_frame list \<Rightarrow> 'a rb_node option" where
  "rb_erase_color node ctx =
     (case rb_erase_case1 ctx of
        None \<Rightarrow> None
      | Some ctx1 \<Rightarrow>
        (case rb_erase_step node ctx1 of
           None \<Rightarrow> None
         | Some (Inl t) \<Rightarrow> Some t
         | Some (Inr (node', ctx')) \<Rightarrow> rb_erase_color node' ctx'))"
  by pat_completeness auto
termination
  by (relation "measure (\<lambda>(node, ctx). length ctx)") (auto dest: rb_erase_case1_length)

declare rb_erase_color.simps [simp del]

text \<open>
  The search for the successor in \<open>__rb_erase_augmented\<close>: down the left links of the right
  child. The result is the colour, entry and right child of the leftmost node, and the frames
  above it.
\<close>

fun rb_leftmost ::
  "rb_color \<Rightarrow> 'a rb_node \<Rightarrow> 'a \<Rightarrow> 'a rb_node \<Rightarrow> 'a rb_frame list \<Rightarrow>
     rb_color \<times> 'a \<times> 'a rb_node \<times> 'a rb_frame list" where
  "rb_leftmost c Null x r ctx = (c, x, r, ctx)"
| "rb_leftmost c (RbNode lc ll lx lr) x r ctx = rb_leftmost lc ll lx lr (LeftOf c x r # ctx)"

text \<open>
  \<open>__rb_erase_augmented\<close> on the node \<open>RbNode c l x r\<close> below \<open>ctx\<close>. The
  successor takes the place and the colour of the node; \<open>rebalance\<close> is null when the hole
  that is left is filled by a child, was red, or has no parent.
\<close>

definition rb_erase_hole :: "rb_color \<Rightarrow> 'a rb_frame list \<Rightarrow> 'a rb_node option" where
  "rb_erase_hole c ctx =
     (if c = RB_BLACK \<and> ctx \<noteq> [] then rb_erase_color Null ctx else Some (plug Null ctx))"

fun rb_erase :: "'a rb_cursor \<Rightarrow> 'a rb_node option" where
  "rb_erase (Null, ctx) = None"
| "rb_erase (RbNode c Null x r, ctx) =
     (if r \<noteq> Null then Some (plug (set_color c r) ctx) else rb_erase_hole c ctx)"
| "rb_erase (RbNode c (RbNode lc ll lx lr) x Null, ctx) =
     Some (plug (set_color c (RbNode lc ll lx lr)) ctx)"
| "rb_erase (RbNode c (RbNode lc ll lx lr) x (RbNode rc rl rx rr), ctx) =
     (let (sc, s, child2, spine) = rb_leftmost rc rl rx rr [];
          ctx' = spine @ RightOf (RbNode lc ll lx lr) c s # ctx
      in if child2 \<noteq> Null then Some (plug (set_color RB_BLACK child2) ctx')
         else rb_erase_hole sc ctx')"

section \<open>Navigation and search\<close>

fun rb_go_left :: "'a rb_node \<Rightarrow> 'a rb_frame list \<Rightarrow> 'a rb_cursor" where
  "rb_go_left (RbNode c (RbNode lc ll lx lr) x r) ctx =
     rb_go_left (RbNode lc ll lx lr) (LeftOf c x r # ctx)"
| "rb_go_left t ctx = (t, ctx)"

fun rb_go_right :: "'a rb_node \<Rightarrow> 'a rb_frame list \<Rightarrow> 'a rb_cursor" where
  "rb_go_right (RbNode c l x (RbNode rc rl rx rr)) ctx =
     rb_go_right (RbNode rc rl rx rr) (RightOf l c x # ctx)"
| "rb_go_right t ctx = (t, ctx)"

text \<open>Up while the node is the right (left) child of its parent.\<close>

fun rb_climb_right :: "'a rb_node \<Rightarrow> 'a rb_frame list \<Rightarrow> 'a rb_cursor option" where
  "rb_climb_right t [] = None"
| "rb_climb_right t (RightOf s c p # ctx) = rb_climb_right (RbNode c s p t) ctx"
| "rb_climb_right t (LeftOf c p s # ctx) = Some (RbNode c t p s, ctx)"

fun rb_climb_left :: "'a rb_node \<Rightarrow> 'a rb_frame list \<Rightarrow> 'a rb_cursor option" where
  "rb_climb_left t [] = None"
| "rb_climb_left t (LeftOf c p s # ctx) = rb_climb_left (RbNode c t p s) ctx"
| "rb_climb_left t (RightOf s c p # ctx) = Some (RbNode c s p t, ctx)"

definition rb_first :: "'a rb_node \<Rightarrow> 'a rb_cursor option" where
  "rb_first root = (if root = Null then None else Some (rb_go_left root []))"

definition rb_last :: "'a rb_node \<Rightarrow> 'a rb_cursor option" where
  "rb_last root = (if root = Null then None else Some (rb_go_right root []))"

fun rb_next :: "'a rb_cursor \<Rightarrow> 'a rb_cursor option" where
  "rb_next (Null, ctx) = None"
| "rb_next (RbNode c l x r, ctx) =
     (if r \<noteq> Null then Some (rb_go_left r (RightOf l c x # ctx))
      else rb_climb_right (RbNode c l x r) ctx)"

fun rb_prev :: "'a rb_cursor \<Rightarrow> 'a rb_cursor option" where
  "rb_prev (Null, ctx) = None"
| "rb_prev (RbNode c l x r, ctx) =
     (if l \<noteq> Null then Some (rb_go_right l (LeftOf c x r # ctx))
      else rb_climb_left (RbNode c l x r) ctx)"

text \<open>
  The descent of \<open>rb_search\<close>: the node that compares equal, or the last node visited with
  the outcome of its comparison.
\<close>

fun rb_search_loop ::
  "('a \<Rightarrow> 'k \<Rightarrow> int) \<Rightarrow> 'k \<Rightarrow> 'a rb_node \<Rightarrow> 'a rb_frame list \<Rightarrow> 'a rb_cursor option \<Rightarrow> int \<Rightarrow>
     'a rb_cursor + 'a rb_cursor option \<times> int" where
  "rb_search_loop cmp key Null ctx parent ret = Inr (parent, ret)"
| "rb_search_loop cmp key (RbNode c l y r) ctx parent ret =
     (let ret' = cmp y key; here = (RbNode c l y r, ctx) in
      if ret' < 0 then rb_search_loop cmp key l (LeftOf c y r # ctx) (Some here) ret'
      else if ret' > 0 then rb_search_loop cmp key r (RightOf l c y # ctx) (Some here) ret'
      else Inl here)"

text \<open>
  \<open>rb_search\<close> returns the node found and what it stores in \<open>*next_ret\<close> when none is
  (callers that pass a null \<open>next_ret\<close> do not look at the second component).
\<close>

definition rb_search ::
  "('a \<Rightarrow> 'k \<Rightarrow> int) \<Rightarrow> 'a rb_node \<Rightarrow> 'k \<Rightarrow> 'a rb_cursor option \<times> 'a rb_cursor option" where
  "rb_search cmp root key =
     (case rb_search_loop cmp key root [] None 0 of
        Inl cur \<Rightarrow> (Some cur, None)
      | Inr (parent, ret) \<Rightarrow>
          (None, case parent of
                   None \<Rightarrow> None
                 | Some cur \<Rightarrow> if ret > 0 then rb_next cur else Some cur))"

text \<open>\<open>rb_replace_node\<close>: the new structure takes the place and the links of the victim.\<close>

fun rb_replace_node :: "'a rb_cursor \<Rightarrow> 'a \<Rightarrow> 'a rb_cursor" where
  "rb_replace_node (Null, ctx) new = (Null, ctx)"
| "rb_replace_node (RbNode c l x r, ctx) new = (RbNode c l new r, ctx)"

section \<open>The in-order sequence\<close>

fun inorder :: "'a rb_node \<Rightarrow> 'a list" where
  "inorder Null = []"
| "inorder (RbNode c l x r) = inorder l @ x # inorder r"

fun ctx_before :: "'a rb_frame list \<Rightarrow> 'a list" where
  "ctx_before [] = []"
| "ctx_before (LeftOf c p s # ctx) = ctx_before ctx"
| "ctx_before (RightOf s c p # ctx) = ctx_before ctx @ inorder s @ [p]"

fun ctx_after :: "'a rb_frame list \<Rightarrow> 'a list" where
  "ctx_after [] = []"
| "ctx_after (LeftOf c p s # ctx) = p # inorder s @ ctx_after ctx"
| "ctx_after (RightOf s c p # ctx) = ctx_after ctx"

definition cur_before :: "'a rb_cursor \<Rightarrow> 'a list" where
  "cur_before cur = ctx_before (snd cur) @ inorder (rb_left (fst cur))"

definition cur_after :: "'a rb_cursor \<Rightarrow> 'a list" where
  "cur_after cur = inorder (rb_right (fst cur)) @ ctx_after (snd cur)"

abbreviation cur_entry :: "'a rb_cursor \<Rightarrow> 'a" where
  "cur_entry cur \<equiv> rb_entry (fst cur)"

abbreviation cur_tree :: "'a rb_cursor \<Rightarrow> 'a rb_node" where
  "cur_tree cur \<equiv> plug (fst cur) (snd cur)"

lemma inorder_plug: "inorder (plug t ctx) = ctx_before ctx @ inorder t @ ctx_after ctx"
  by (induction t ctx rule: plug.induct; simp; rename_tac f ctx; case_tac f; simp)

lemma inorder_set_color [simp]: "inorder (set_color c t) = inorder t"
  by (cases t) auto

lemma ctx_before_append: "ctx_before (ctx @ ctx') = ctx_before ctx' @ ctx_before ctx"
  by (induction ctx rule: ctx_before.induct) auto

lemma ctx_after_append: "ctx_after (ctx @ ctx') = ctx_after ctx @ ctx_after ctx'"
  by (induction ctx rule: ctx_after.induct) auto

lemma inorder_cur:
  "fst cur \<noteq> Null \<Longrightarrow> inorder (cur_tree cur) = cur_before cur @ cur_entry cur # cur_after cur"
  by (cases "fst cur") (auto simp: inorder_plug cur_before_def cur_after_def)

section \<open>The red-black rules\<close>

fun bheight :: "'a rb_node \<Rightarrow> nat" where
  "bheight Null = 0"
| "bheight (RbNode c l x r) = (if c = RB_BLACK then Suc (bheight l) else bheight l)"

fun invc :: "'a rb_node \<Rightarrow> bool" where
  "invc Null \<longleftrightarrow> True"
| "invc (RbNode c l x r) \<longleftrightarrow> (c = RB_RED \<longrightarrow> \<not> is_red l \<and> \<not> is_red r) \<and> invc l \<and> invc r"

fun invh :: "'a rb_node \<Rightarrow> bool" where
  "invh Null \<longleftrightarrow> True"
| "invh (RbNode c l x r) \<longleftrightarrow> bheight l = bheight r \<and> invh l \<and> invh r"

definition is_rbt :: "'a rb_node \<Rightarrow> bool" where
  "is_rbt t \<longleftrightarrow> invc t \<and> invh t \<and> \<not> is_red t"

text \<open>
  The same rules for the frames around a hole: \<open>hole_black ctx\<close> says that a red node may be
  put into the hole (there is a parent and it is black), \<open>ctx_inv h ctx\<close> that the tree is
  well formed when the hole is filled by a subtree of black height \<open>h\<close>.
\<close>

fun hole_black :: "'a rb_frame list \<Rightarrow> bool" where
  "hole_black [] = False"
| "hole_black (f # ctx) = (frame_color f = RB_BLACK)"

fun ctx_inv :: "nat \<Rightarrow> 'a rb_frame list \<Rightarrow> bool" where
  "ctx_inv h [] \<longleftrightarrow> True"
| "ctx_inv h (LeftOf c p s # ctx) \<longleftrightarrow>
     invc s \<and> invh s \<and> bheight s = h \<and> (c = RB_RED \<longrightarrow> \<not> is_red s \<and> hole_black ctx) \<and>
     ctx_inv (if c = RB_BLACK then Suc h else h) ctx"
| "ctx_inv h (RightOf s c p # ctx) \<longleftrightarrow>
     invc s \<and> invh s \<and> bheight s = h \<and> (c = RB_RED \<longrightarrow> \<not> is_red s \<and> hole_black ctx) \<and>
     ctx_inv (if c = RB_BLACK then Suc h else h) ctx"

lemma not_black_iff [simp]: "c \<noteq> RB_BLACK \<longleftrightarrow> c = RB_RED"
  by (cases c) auto

lemma not_red_iff [simp]: "c \<noteq> RB_RED \<longleftrightarrow> c = RB_BLACK"
  by (cases c) auto

lemma set_color_simps [simp]:
  "is_red (set_color c t) \<longleftrightarrow> t \<noteq> Null \<and> c = RB_RED"
  "invh (set_color c t) = invh t"
  "invc t \<Longrightarrow> invc (set_color RB_BLACK t)"
  "set_color c t = Null \<longleftrightarrow> t = Null"
  by (cases t; auto)+

lemma set_color_black_id [simp]: "\<not> is_red t \<Longrightarrow> set_color RB_BLACK t = t"
  by (cases t) auto

lemma bheight_set_black [simp]:
  "bheight (set_color RB_BLACK t) = (if is_red t then Suc (bheight t) else bheight t)"
  by (cases t) auto

lemma is_rbt_plug:
  assumes "ctx_inv (bheight t) ctx" and "invc t" and "invh t" and "is_red t \<Longrightarrow> hole_black ctx"
  shows "is_rbt (plug t ctx)"
  using assms
proof (induction t ctx rule: plug.induct)
  case (1 t)
  then show ?case by (auto simp: is_rbt_def)
next
  case (2 t f ctx)
  show ?case
    unfolding plug.simps
    by (rule "2.IH"; use "2.prems" in \<open>cases f; auto split: if_splits\<close>)
qed

text \<open>A cursor obtained by descending into a well-formed tree has well-formed frames.\<close>

lemma ctx_inv_of_plug:
  assumes "is_rbt (plug t ctx)"
  shows "ctx_inv (bheight t) ctx \<and> invc t \<and> invh t \<and> (is_red t \<longrightarrow> hole_black ctx)"
  using assms
proof (induction t ctx rule: plug.induct)
  case (1 t)
  then show ?case by (auto simp: is_rbt_def)
next
  case (2 t f ctx)
  then have "ctx_inv (bheight (rb_up t f)) ctx \<and> invc (rb_up t f) \<and> invh (rb_up t f) \<and>
      (is_red (rb_up t f) \<longrightarrow> hole_black ctx)"
    by simp
  then show ?case by (cases f) (auto split: if_splits)
qed

section \<open>Insertion keeps the rules\<close>

fun uncle_node :: "'a rb_node \<Rightarrow> 'a rb_frame \<Rightarrow> 'a rb_node" where
  "uncle_node parent (LeftOf gc g u) = RbNode RB_RED (set_color RB_BLACK parent) g (set_color RB_BLACK u)"
| "uncle_node parent (RightOf u gc g) = RbNode RB_RED (set_color RB_BLACK u) g (set_color RB_BLACK parent)"

fun frame_sibling :: "'a rb_frame \<Rightarrow> 'a rb_node" where
  "frame_sibling (LeftOf c p s) = s"
| "frame_sibling (RightOf s c p) = s"

lemma rb_insert_loop_flip:
  assumes "frame_color par = RB_RED" and "is_red (frame_sibling gp)"
  shows "rb_insert_loop node (par # gp # ctx) = rb_insert_loop (uncle_node (rb_up node par) gp) ctx"
  using assms by (subst rb_insert_loop.simps) (cases gp; simp)

lemma uncle_node_inv:
  assumes "invc node" and "invh node" and "is_red node" and "ctx_inv (bheight node) (par # gp # ctx)"
    and "frame_color par = RB_RED" and "is_red (frame_sibling gp)"
  defines "n \<equiv> uncle_node (rb_up node par) gp"
  shows "invc n" and "invh n" and "is_red n" and "ctx_inv (bheight n) ctx"
    and "inorder (plug n ctx) = inorder (plug node (par # gp # ctx))"
  using assms by (cases par; cases gp; auto simp: inorder_plug split: if_splits)+

lemma rb_insert_loop_rotate:
  assumes "invc node" and "invh node" and "is_red node" and "ctx_inv (bheight node) (par # gp # ctx)"
    and "frame_color par = RB_RED" and "\<not> is_red (frame_sibling gp)"
  shows "\<exists>t. rb_insert_loop node (par # gp # ctx) = Some t \<and> is_rbt t \<and>
     inorder t = inorder (plug node (par # gp # ctx))"
  using assms
  by (cases node; cases par; cases gp)
    (auto simp: rb_insert_loop.simps inorder_plug split: if_splits intro!: is_rbt_plug)

lemma rb_insert_loop_ok:
  assumes "invc node" and "invh node" and "is_red node" and "ctx_inv (bheight node) ctx"
  shows "\<exists>t. rb_insert_loop node ctx = Some t \<and> is_rbt t \<and> inorder t = inorder (plug node ctx)"
  using assms
proof (induction "length ctx" arbitrary: node ctx rule: less_induct)
  case less
  consider (root) "ctx = []"
    | (black) par ctx1 where "ctx = par # ctx1" "frame_color par = RB_BLACK"
    | (red) par gp ctx2 where "ctx = par # gp # ctx2" "frame_color par = RB_RED"
  proof (cases ctx)
    case (Cons par ctx1)
    with less.prems(4) that show ?thesis
      by (cases "frame_color par"; cases ctx1; cases par) auto
  qed (use that in auto)
  then show ?case
  proof cases
    case root
    with less.prems show ?thesis
      by (cases node) (auto simp: rb_insert_loop.simps is_rbt_def)
  next
    case black
    with less.prems show ?thesis
      by (auto simp: rb_insert_loop.simps intro!: is_rbt_plug simp del: plug.simps)
  next
    case red
    show ?thesis
    proof (cases "is_red (frame_sibling gp)")
      case True
      note n = uncle_node_inv [OF less.prems(1-3) less.prems(4) [unfolded red] red(2) True]
      have "length ctx2 < length ctx"
        by (simp add: red)
      from less.hyps [OF this n(1-4)] show ?thesis
        by (simp only: red rb_insert_loop_flip [OF red(2) True] n(5))
    qed (use less.prems red rb_insert_loop_rotate in blast)
  qed
qed

lemma rb_insert_color_ok:
  assumes "is_rbt (plug Null ctx)"
  shows "\<exists>t. rb_insert_color (rb_link_node x) ctx = Some t \<and> is_rbt t \<and>
     inorder t = ctx_before ctx @ x # ctx_after ctx"
proof -
  have "ctx_inv 0 ctx"
    using ctx_inv_of_plug [OF assms] by simp
  then show ?thesis
    using rb_insert_loop_ok [of "rb_link_node x" ctx]
    by (simp add: rb_insert_color_def rb_link_node_def inorder_plug)
qed

section \<open>Erasure keeps the rules\<close>

lemma is_rbt_node [simp]:
  "is_rbt (RbNode c l x r) \<longleftrightarrow>
     c = RB_BLACK \<and> invc l \<and> invc r \<and> invh l \<and> invh r \<and> bheight l = bheight r"
  by (auto simp: is_rbt_def)

lemma rb_erase_case1_ok:
  assumes "ctx_inv (Suc h) ctx" and "ctx \<noteq> []"
  obtains ctx' where "rb_erase_case1 ctx = Some ctx'" and "ctx_inv (Suc h) ctx'" and "ctx' \<noteq> []"
    and "\<not> is_red (frame_sibling (hd ctx'))"
    and "\<And>t. inorder (plug t ctx') = inorder (plug t ctx)"
proof -
  have "\<exists>ctx'. rb_erase_case1 ctx = Some ctx' \<and> ctx_inv (Suc h) ctx' \<and> ctx' \<noteq> [] \<and>
      \<not> is_red (frame_sibling (hd ctx')) \<and> (\<forall>t. inorder (plug t ctx') = inorder (plug t ctx))"
    using assms
    by (induction ctx rule: rb_erase_case1.induct)
      (auto simp: inorder_plug split: if_splits)
  with that show thesis by blast
qed

lemma rb_erase_step_ok:
  assumes "invc node" and "invh node" and "\<not> is_red node" and "bheight node = h"
    and "ctx_inv (Suc h) ctx" and "ctx \<noteq> []" and "\<not> is_red (frame_sibling (hd ctx))"
  shows "(\<exists>t. rb_erase_step node ctx = Some (Inl t) \<and> is_rbt t \<and> inorder t = inorder (plug node ctx)) \<or>
     (\<exists>node' ctx'. rb_erase_step node ctx = Some (Inr (node', ctx')) \<and> ctx' \<noteq> [] \<and> invc node' \<and> invh node' \<and>
        \<not> is_red node' \<and> ctx_inv (Suc (bheight node')) ctx' \<and>
        inorder (plug node' ctx') = inorder (plug node ctx))"
proof (cases ctx)
  case (Cons f ctx1)
  then show ?thesis
    using assms
    by (cases f; cases "frame_sibling f"; simp)
      (auto simp: inorder_plug split: if_splits rb_node.splits rb_color.splits intro!: is_rbt_plug)
qed (use assms in simp)

lemma rb_erase_color_ok:
  assumes "invc node" and "invh node" and "\<not> is_red node" and "ctx \<noteq> []"
    and "ctx_inv (Suc (bheight node)) ctx"
  shows "\<exists>t. rb_erase_color node ctx = Some t \<and> is_rbt t \<and> inorder t = inorder (plug node ctx)"
  using assms
proof (induction node ctx rule: rb_erase_color.induct)
  case (1 node ctx)
  obtain ctx1 where c1: "rb_erase_case1 ctx = Some ctx1" "ctx_inv (Suc (bheight node)) ctx1" "ctx1 \<noteq> []"
      "\<not> is_red (frame_sibling (hd ctx1))" "\<And>t. inorder (plug t ctx1) = inorder (plug t ctx)"
    using rb_erase_case1_ok [OF "1.prems"(5,4)] by metis
  from rb_erase_step_ok [OF "1.prems"(1-3) refl c1(2,3,4)] show ?case
  proof (elim disjE exE conjE)
    fix t assume "rb_erase_step node ctx1 = Some (Inl t)" "is_rbt t" "inorder t = inorder (plug node ctx1)"
    then show ?thesis
      using c1(1,5) by (simp add: rb_erase_color.simps)
  next
    fix node' ctx'
    assume step: "rb_erase_step node ctx1 = Some (Inr (node', ctx'))" "ctx' \<noteq> []" "invc node'" "invh node'"
        "\<not> is_red node'" "ctx_inv (Suc (bheight node')) ctx'"
        "inorder (plug node' ctx') = inorder (plug node ctx1)"
    have "\<exists>t. rb_erase_color node' ctx' = Some t \<and> is_rbt t \<and> inorder t = inorder (plug node' ctx')"
      by (rule "1.IH" [OF c1(1) step(1) refl refl]) (use step in auto)
    then show ?thesis
      using c1(1,5) step by (simp add: rb_erase_color.simps [of node])
  qed
qed

lemma rb_erase_hole_ok:
  assumes "ctx_inv (if c = RB_BLACK then Suc 0 else 0) ctx"
  shows "\<exists>t. rb_erase_hole c ctx = Some t \<and> is_rbt t \<and> inorder t = ctx_before ctx @ ctx_after ctx"
proof (cases "c = RB_BLACK \<and> ctx \<noteq> []")
  case True
  with assms rb_erase_color_ok [of Null ctx] show ?thesis
    by (simp add: rb_erase_hole_def inorder_plug)
next
  case False
  then have "ctx_inv (bheight (Null :: 'a rb_node)) ctx"
    using assms by (auto split: if_splits)
  with False show ?thesis
    by (auto simp: rb_erase_hole_def inorder_plug intro!: is_rbt_plug)
qed

lemma plug_append: "plug t (ctx @ ctx') = plug (plug t ctx) ctx'"
  by (induction t ctx rule: plug.induct) auto

lemma rb_leftmost_plug:
  "rb_leftmost c l x r ctx = (sc, s, child, spine) \<Longrightarrow>
     plug (RbNode sc Null s child) spine = plug (RbNode c l x r) ctx \<and> ctx_before spine = ctx_before ctx"
  by (induction c l x r ctx rule: rb_leftmost.induct) auto

lemma hole_black_entry: "hole_black (ctx @ RightOf s c x # ctx') = hole_black (ctx @ RightOf s c y # ctx')"
  by (cases ctx) auto

lemma ctx_inv_entry: "ctx_inv h (ctx @ RightOf s c x # ctx') = ctx_inv h (ctx @ RightOf s c y # ctx')"
  by (induction h ctx rule: ctx_inv.induct) (auto simp: hole_black_entry [of _ s c x ctx' y])

lemma rb_erase_two_children_ok:
  assumes "is_rbt (cur_tree cur)" and cur: "cur = (RbNode c l x r, ctx)" and "l \<noteq> Null" and "r \<noteq> Null"
  shows "\<exists>t. rb_erase cur = Some t \<and> is_rbt t \<and> inorder t = cur_before cur @ cur_after cur"
proof -
  obtain lc ll lx lr rc rl rx rr where lr: "l = RbNode lc ll lx lr" "r = RbNode rc rl rx rr"
    using assms(3,4) by (cases l; cases r) auto
  obtain sc s child spine where lm: "rb_leftmost rc rl rx rr [] = (sc, s, child, spine)"
    by (metis prod_cases4)
  have pl: "plug (RbNode sc Null s child) spine = r" "ctx_before spine = []"
    using rb_leftmost_plug [OF lm] lr by simp_all
  let ?c = "spine @ RightOf l c s # ctx"
  have "is_rbt (plug (RbNode sc Null s child) (spine @ RightOf l c x # ctx))"
    using pl assms(1) cur by (simp add: plug_append)
  from ctx_inv_of_plug [OF this]
  have sub: "ctx_inv (bheight (RbNode sc Null s child)) ?c" "invc (RbNode sc Null s child)"
      "invh (RbNode sc Null s child)"
    by (simp_all add: ctx_inv_entry [of _ spine l c x ctx s])
  have "inorder r = s # inorder child @ ctx_after spine"
    using inorder_plug [of "RbNode sc Null s child" spine] pl by simp
  then have io: "ctx_before ?c @ inorder child @ ctx_after ?c = cur_before cur @ cur_after cur"
    using cur pl(2) by (simp add: ctx_before_append ctx_after_append cur_before_def cur_after_def)
  have er: "rb_erase cur =
      (if child \<noteq> Null then Some (plug (set_color RB_BLACK child) ?c) else rb_erase_hole sc ?c)"
    using lm cur lr by simp
  show ?thesis
  proof (cases "child = Null")
    case True
    then have "\<exists>t. rb_erase_hole sc ?c = Some t \<and> is_rbt t \<and> inorder t = ctx_before ?c @ ctx_after ?c"
      using sub(1) by (intro rb_erase_hole_ok) (auto split: if_splits)
    with True io er show ?thesis by simp
  next
    case False
    with sub have "is_red child" "sc = RB_BLACK"
      by (cases child; auto split: if_splits)+
    with sub have "is_rbt (plug (set_color RB_BLACK child) ?c)"
      by (intro is_rbt_plug) auto
    with er False io show ?thesis by (simp add: inorder_plug)
  qed
qed

lemma rb_erase_ok:
  assumes "is_rbt (cur_tree cur)" and "fst cur \<noteq> Null"
  shows "\<exists>t. rb_erase cur = Some t \<and> is_rbt t \<and> inorder t = cur_before cur @ cur_after cur"
proof -
  obtain c l x r ctx where cur: "cur = (RbNode c l x r, ctx)"
    using assms(2) by (cases cur; cases "fst cur") auto
  show ?thesis
  proof (cases "l = Null \<or> r = Null")
    case True
    moreover have "ctx_inv (bheight (RbNode c l x r)) ctx" "invc (RbNode c l x r)"
        "invh (RbNode c l x r)" "c = RB_RED \<longrightarrow> hole_black ctx"
      using ctx_inv_of_plug [of "RbNode c l x r" ctx] assms cur by auto
    ultimately show ?thesis
      using cur rb_erase_hole_ok [of c ctx]
      by (cases l; cases r)
        (auto simp: cur_before_def cur_after_def inorder_plug split: if_splits intro!: is_rbt_plug)
  qed (use rb_erase_two_children_ok [OF assms(1) cur] in simp)
qed

section \<open>Navigation: the cursors move along the in-order sequence\<close>

definition cur_at :: "'a rb_node \<Rightarrow> 'a list \<Rightarrow> 'a rb_cursor option \<Rightarrow> bool" where
  "cur_at t xs cur \<longleftrightarrow>
     (case cur of
        None \<Rightarrow> inorder t = xs
      | Some cur \<Rightarrow> fst cur \<noteq> Null \<and> cur_tree cur = t \<and> cur_before cur = xs)"

lemma rb_go_left_at: "t \<noteq> Null \<Longrightarrow> cur_at (plug t ctx) (ctx_before ctx) (Some (rb_go_left t ctx))"
  by (induction t ctx rule: rb_go_left.induct) (auto simp: cur_at_def cur_before_def)

lemma rb_go_right_at:
  "t \<noteq> Null \<Longrightarrow> fst (rb_go_right t ctx) \<noteq> Null \<and> cur_tree (rb_go_right t ctx) = plug t ctx \<and>
     cur_after (rb_go_right t ctx) = ctx_after ctx"
  by (induction t ctx rule: rb_go_right.induct) (auto simp: cur_after_def)

lemma rb_climb_right_at: "cur_at (plug t ctx) (ctx_before ctx @ inorder t) (rb_climb_right t ctx)"
  by (induction t ctx rule: rb_climb_right.induct) (auto simp: cur_at_def cur_before_def)

lemma rb_climb_left_after:
  "case rb_climb_left t ctx of
     None \<Rightarrow> ctx_before ctx = []
   | Some cur \<Rightarrow> fst cur \<noteq> Null \<and> cur_tree cur = plug t ctx \<and> cur_after cur = inorder t @ ctx_after ctx"
  by (induction t ctx rule: rb_climb_left.induct) (auto simp: cur_after_def split: option.splits)

lemma rb_first_at: "cur_at t [] (rb_first t)"
  using rb_go_left_at [of t "[]"] by (auto simp: rb_first_def cur_at_def)

lemma rb_next_at:
  assumes "fst cur \<noteq> Null"
  shows "cur_at (cur_tree cur) (cur_before cur @ [cur_entry cur]) (rb_next cur)"
proof -
  obtain c l x r ctx where cur: "cur = (RbNode c l x r, ctx)"
    using assms by (cases cur; cases "fst cur") auto
  show ?thesis
    using rb_go_left_at [of r "RightOf l c x # ctx"] rb_climb_right_at [of "RbNode c l x r" ctx]
    by (cases "r = Null") (simp_all add: cur cur_before_def)
qed

lemma rb_prev_after:
  assumes "fst cur \<noteq> Null"
  shows "case rb_prev cur of
     None \<Rightarrow> cur_before cur = []
   | Some p \<Rightarrow> fst p \<noteq> Null \<and> cur_tree p = cur_tree cur \<and> cur_after p = cur_entry cur # cur_after cur"
proof -
  obtain c l x r ctx where cur: "cur = (RbNode c l x r, ctx)"
    using assms by (cases cur; cases "fst cur") auto
  show ?thesis
    using rb_go_right_at [of l "LeftOf c x r # ctx"] rb_climb_left_after [where t = "RbNode c l x r" and ctx = ctx]
    by (cases "l = Null") (auto simp: cur cur_before_def cur_after_def split: option.splits)
qed

lemma rb_last_after:
  "case rb_last t of
     None \<Rightarrow> inorder t = []
   | Some p \<Rightarrow> fst p \<noteq> Null \<and> cur_tree p = t \<and> cur_after p = []"
  using rb_go_right_at [of t "[]"] by (auto simp: rb_last_def)

section \<open>Search and insertion positions\<close>

definition cmp_down :: "('a \<Rightarrow> 'k \<Rightarrow> int) \<Rightarrow> 'k \<Rightarrow> 'a list \<Rightarrow> bool" where
  "cmp_down cmp key xs \<longleftrightarrow> sorted_wrt (\<lambda>a b. sgn (cmp b key) \<le> sgn (cmp a key)) xs"

lemma cmp_down_split:
  assumes "cmp_down cmp key (xs @ y # ys)"
  shows "cmp y key < 0 \<Longrightarrow> z \<in> set ys \<Longrightarrow> cmp z key < 0"
    and "cmp y key > 0 \<Longrightarrow> z \<in> set xs \<Longrightarrow> cmp z key > 0"
proof -
  have "z \<in> set ys \<Longrightarrow> sgn (cmp z key) \<le> sgn (cmp y key)"
      "z \<in> set xs \<Longrightarrow> sgn (cmp y key) \<le> sgn (cmp z key)"
    using assms by (auto simp: cmp_down_def sorted_wrt_append)
  then show "cmp y key < 0 \<Longrightarrow> z \<in> set ys \<Longrightarrow> cmp z key < 0"
      "cmp y key > 0 \<Longrightarrow> z \<in> set xs \<Longrightarrow> cmp z key > 0"
    by (auto simp: sgn_if split: if_splits)
qed

lemma rb_insert_pos_ok:
  assumes "cmp_down cmp x (inorder (plug t ctx))"
    and "\<forall>y\<in>set (ctx_before ctx). cmp y x > 0" and "\<forall>y\<in>set (ctx_after ctx). cmp y x < 0"
  shows "case rb_insert_pos cmp x t ctx of
     None \<Rightarrow> \<exists>y\<in>set (inorder t). cmp y x = 0
   | Some ctx' \<Rightarrow> plug Null ctx' = plug t ctx \<and> (\<forall>y\<in>set (ctx_before ctx'). cmp y x > 0) \<and>
       (\<forall>y\<in>set (ctx_after ctx'). cmp y x < 0)"
  using assms
proof (induction cmp x t ctx rule: rb_insert_pos.induct)
  case (2 cmp x c l y r ctx)
  have d: "cmp_down cmp x ((ctx_before ctx @ inorder l) @ y # inorder r @ ctx_after ctx)"
    using "2.prems"(1) by (simp add: inorder_plug)
  consider "cmp y x < 0" | "cmp y x > 0" | "cmp y x = 0" by linarith
  then show ?case
  proof cases
    case 1
    with cmp_down_split(1) [OF d 1] have "\<forall>z\<in>set (ctx_after (LeftOf c y r # ctx)). cmp z x < 0"
      by auto
    then show ?thesis
      using "2.IH"(1) [OF refl 1] "2.prems" 1 by (auto split: option.splits)
  next
    case 2
    with cmp_down_split(2) [OF d 2] have "\<forall>z\<in>set (ctx_before (RightOf l c y # ctx)). cmp z x > 0"
      by auto
    then show ?thesis
      using "2.IH"(2) [OF refl _ 2] "2.prems" 2 by (auto split: option.splits)
  qed simp
qed simp

fun parent_of :: "'a rb_node \<Rightarrow> 'a rb_frame list \<Rightarrow> 'a rb_cursor option \<Rightarrow> int \<Rightarrow> bool" where
  "parent_of t [] par ret \<longleftrightarrow> par = None"
| "parent_of t (LeftOf c p s # ctx) par ret \<longleftrightarrow> par = Some (RbNode c t p s, ctx) \<and> ret < 0"
| "parent_of t (RightOf s c p # ctx) par ret \<longleftrightarrow> par = Some (RbNode c s p t, ctx) \<and> ret > 0"

lemma rb_search_loop_ok:
  assumes "cmp_down cmp key (inorder (plug t ctx))" and "parent_of t ctx par ret"
    and "\<forall>y\<in>set (ctx_before ctx). cmp y key > 0" and "\<forall>y\<in>set (ctx_after ctx). cmp y key < 0"
  shows "case rb_search_loop cmp key t ctx par ret of
     Inl cur \<Rightarrow> fst cur \<noteq> Null \<and> cur_tree cur = plug t ctx \<and> cmp (cur_entry cur) key = 0
   | Inr (par', ret') \<Rightarrow> \<exists>ctx'. plug Null ctx' = plug t ctx \<and> parent_of Null ctx' par' ret' \<and>
       (\<forall>y\<in>set (ctx_before ctx'). cmp y key > 0) \<and> (\<forall>y\<in>set (ctx_after ctx'). cmp y key < 0)"
  using assms
proof (induction cmp key t ctx par ret rule: rb_search_loop.induct)
  case (2 cmp key c l y r ctx par ret)
  have d: "cmp_down cmp key ((ctx_before ctx @ inorder l) @ y # inorder r @ ctx_after ctx)"
    using "2.prems"(1) by (simp add: inorder_plug)
  consider "cmp y key < 0" | "cmp y key > 0" | "cmp y key = 0" by linarith
  then show ?case
  proof cases
    case 1
    with cmp_down_split(1) [OF d 1] have "\<forall>z\<in>set (ctx_after (LeftOf c y r # ctx)). cmp z key < 0"
      by auto
    then show ?thesis
      using "2.IH"(1) [OF refl refl 1] "2.prems" 1 by (auto simp: Let_def split: sum.splits)
  next
    case 2
    with cmp_down_split(2) [OF d 2] have "\<forall>z\<in>set (ctx_before (RightOf l c y # ctx)). cmp z key > 0"
      by auto
    then show ?thesis
      using "2.IH"(2) [OF refl refl _ 2] "2.prems" 2 by (auto simp: Let_def split: sum.splits)
  qed simp
qed auto

lemma parent_of_next:
  assumes "parent_of Null ctx par ret"
  shows "cur_at (plug Null ctx) (ctx_before ctx)
    (case par of None \<Rightarrow> None | Some cur \<Rightarrow> if ret > 0 then rb_next cur else Some cur)"
proof (cases "(Null :: 'a rb_node, ctx, par, ret)" rule: parent_of.cases)
  case (3 t s c p ctx' par ret)
  then show ?thesis
    using assms rb_next_at [of "(RbNode c s p Null, ctx')"] by (simp add: cur_before_def)
qed (use assms in \<open>auto simp: cur_at_def cur_before_def\<close>)

lemma rb_search_ok:
  assumes "cmp_down cmp key (inorder t)"
  shows "(\<exists>cur. rb_search cmp t key = (Some cur, None) \<and> fst cur \<noteq> Null \<and> cur_tree cur = t \<and>
           cmp (cur_entry cur) key = 0) \<or>
    (\<exists>nxt xs ys. rb_search cmp t key = (None, nxt) \<and> inorder t = xs @ ys \<and> cur_at t xs nxt \<and>
       (\<forall>x\<in>set xs. cmp x key > 0) \<and> (\<forall>y\<in>set ys. cmp y key < 0))"
proof -
  note loop = rb_search_loop_ok [of cmp key t "[]" None 0]
  show ?thesis
  proof (cases "rb_search_loop cmp key t [] None 0")
    case (Inl cur)
    with loop assms show ?thesis by (simp add: rb_search_def)
  next
    case (Inr pr)
    obtain par ret where pr: "pr = (par, ret)" by force
    with loop assms Inr obtain ctx where ctx: "plug Null ctx = t" "parent_of Null ctx par ret"
      "\<forall>y\<in>set (ctx_before ctx). cmp y key > 0" "\<forall>y\<in>set (ctx_after ctx). cmp y key < 0"
      by auto
    then have "inorder t = ctx_before ctx @ ctx_after ctx"
      using inorder_plug [of Null ctx] by simp
    with ctx Inr pr parent_of_next [OF ctx(2)] show ?thesis
      by (auto simp: rb_search_def)
  qed
qed

section \<open>The contract of a comparison function\<close>

text \<open>
  \<open>index_inv lt ok t\<close>: the tree is well formed, every entry satisfies \<open>ok\<close>, and
  the entries are in the strict order \<open>lt\<close>. A comparison function that agrees with \<open>lt\<close>
  on entries satisfying \<open>ok\<close> makes \<open>rb_insert\<close>, \<open>rb_erase\<close> and \<open>rb_search\<close>
  operations on a sorted sequence; this is what the users of the tree rely on.
\<close>

definition index_inv :: "('a \<Rightarrow> 'a \<Rightarrow> bool) \<Rightarrow> ('a \<Rightarrow> bool) \<Rightarrow> 'a rb_node \<Rightarrow> bool" where
  "index_inv lt ok t \<longleftrightarrow> is_rbt t \<and> sorted_wrt lt (inorder t) \<and> (\<forall>x\<in>set (inorder t). ok x)"

lemma index_inv_Null [simp]: "index_inv lt ok Null"
  by (simp add: index_inv_def is_rbt_def)

lemma index_inv_erase:
  assumes "index_inv lt ok (cur_tree cur)" and "fst cur \<noteq> Null"
  shows "\<exists>t. rb_erase cur = Some t \<and> index_inv lt ok t \<and> inorder t = cur_before cur @ cur_after cur"
  using rb_erase_ok [of cur] assms inorder_cur [OF assms(2)]
  by (auto simp: index_inv_def sorted_wrt_append)

locale rb_index =
  fixes cmp :: "'a \<Rightarrow> 'a \<Rightarrow> int" and lt :: "'a \<Rightarrow> 'a \<Rightarrow> bool" and ok :: "'a \<Rightarrow> bool"
  assumes cmp_pos: "ok a \<Longrightarrow> ok b \<Longrightarrow> cmp a b > 0 \<longleftrightarrow> lt a b"
    and cmp_neg: "ok a \<Longrightarrow> ok b \<Longrightarrow> cmp a b < 0 \<longleftrightarrow> lt b a"
    and lt_trans: "ok a \<Longrightarrow> ok b \<Longrightarrow> ok c \<Longrightarrow> lt a b \<Longrightarrow> lt b c \<Longrightarrow> lt a c"
begin

lemma cmp_mono:
  assumes "ok a" and "ok b" and "ok x" and "lt a b"
  shows "sgn (cmp b x) \<le> sgn (cmp a x)"
proof -
  have "cmp b x > 0 \<Longrightarrow> cmp a x > 0" "cmp a x < 0 \<Longrightarrow> cmp b x < 0"
    using assms lt_trans [of a b x] lt_trans [of x a b] by (auto simp: cmp_pos cmp_neg)
  then show ?thesis
    by (cases "cmp a x" "0 :: int" rule: linorder_cases) (auto simp: sgn_if)
qed

lemma index_cmp_down: "index_inv lt ok t \<Longrightarrow> ok x \<Longrightarrow> cmp_down cmp x (inorder t)"
  unfolding index_inv_def cmp_down_def by (rule sorted_wrt_mono_set [of lt]) (auto intro: cmp_mono)

lemma insert_spec:
  assumes inv: "index_inv lt ok t" and x: "ok x"
  shows "rb_insert cmp t x = Some (- EEXIST, t) \<and> (\<exists>y\<in>set (inorder t). \<not> lt x y \<and> \<not> lt y x) \<or>
    (\<exists>t' xs ys. rb_insert cmp t x = Some (0, t') \<and> index_inv lt ok t' \<and> inorder t = xs @ ys \<and>
       inorder t' = xs @ x # ys)"
proof (cases "rb_insert_pos cmp x t []")
  case None
  with rb_insert_pos_ok [of cmp x t "[]"] index_cmp_down [OF assms]
  obtain y where "y \<in> set (inorder t)" "cmp y x = 0" by auto
  then show ?thesis
    using None inv x cmp_pos [of y x] cmp_neg [of y x] by (auto simp: rb_insert_def index_inv_def)
next
  case (Some ctx)
  with rb_insert_pos_ok [of cmp x t "[]"] index_cmp_down [OF assms]
  have ctx: "plug Null ctx = t" "\<forall>y\<in>set (ctx_before ctx). cmp y x > 0" "\<forall>y\<in>set (ctx_after ctx). cmp y x < 0"
    by auto
  then have io: "inorder t = ctx_before ctx @ ctx_after ctx"
    using inorder_plug [of Null ctx] by simp
  from rb_insert_color_ok [of ctx x] ctx(1) inv obtain t' where t':
    "rb_insert_color (rb_link_node x) ctx = Some t'" "is_rbt t'" "inorder t' = ctx_before ctx @ x # ctx_after ctx"
    by (auto simp: index_inv_def)
  moreover have "sorted_wrt lt (inorder t')"
    using inv x ctx(2,3) t'(3) io by (auto simp: index_inv_def sorted_wrt_append cmp_pos cmp_neg)
  ultimately show ?thesis
    using inv x Some io by (auto simp: index_inv_def rb_insert_def)
qed

lemma insert_fresh:
  assumes "index_inv lt ok t" and "ok x" and "\<forall>y\<in>set (inorder t). lt x y \<or> lt y x"
  shows "\<exists>t' xs ys. rb_insert cmp t x = Some (0, t') \<and> index_inv lt ok t' \<and> inorder t = xs @ ys \<and>
       inorder t' = xs @ x # ys"
  using insert_spec [OF assms(1,2)] assms(3) by blast

lemma insert_clash:
  assumes "index_inv lt ok t" and "ok x" and "y \<in> set (inorder t)" and "\<not> lt x y" and "\<not> lt y x"
  shows "rb_insert cmp t x = Some (- EEXIST, t)"
proof -
  from insert_spec [OF assms(1,2)] show ?thesis
  proof (elim disjE exE conjE)
    fix t' xs ys
    assume t': "index_inv lt ok t'" "inorder t = xs @ ys" "inorder t' = xs @ x # ys"
    then have "lt x y \<or> lt y x"
      using assms(3) by (auto simp: index_inv_def sorted_wrt_append)
    with assms(4,5) show ?thesis by blast
  qed
qed

end

text \<open>The same for searches with keys of another type.\<close>

locale rb_keyed = rb_index cmp lt ok
  for cmp :: "'a \<Rightarrow> 'a \<Rightarrow> int" and lt :: "'a \<Rightarrow> 'a \<Rightarrow> bool" and ok :: "'a \<Rightarrow> bool" +
  fixes kcmp :: "'a \<Rightarrow> 'k \<Rightarrow> int" and kok :: "'k \<Rightarrow> bool"
  assumes kcmp_mono: "ok a \<Longrightarrow> ok b \<Longrightarrow> kok k \<Longrightarrow> lt a b \<Longrightarrow> sgn (kcmp b k) \<le> sgn (kcmp a k)"
begin

lemma search_spec:
  assumes "index_inv lt ok t" and "kok k"
  shows "(\<exists>cur. rb_search kcmp t k = (Some cur, None) \<and> fst cur \<noteq> Null \<and> cur_tree cur = t \<and>
           kcmp (cur_entry cur) k = 0) \<or>
    (\<exists>nxt xs ys. rb_search kcmp t k = (None, nxt) \<and> inorder t = xs @ ys \<and> cur_at t xs nxt \<and>
       (\<forall>x\<in>set xs. kcmp x k > 0) \<and> (\<forall>y\<in>set ys. kcmp y k < 0))"
proof (rule rb_search_ok)
  show "cmp_down kcmp k (inorder t)"
    using assms unfolding index_inv_def cmp_down_def
    by (auto intro: sorted_wrt_mono_set [of lt] kcmp_mono)
qed

end

end
