(* ===== verification/ExtentCache.thy ===== *)
theory ExtentCache
  imports RbTree
begin

text \<open>
  The cache tree of \<open>extent-cache.c\<close> and \<open>extent-cache.h\<close>: a red-black tree of
  byte ranges. A \<open>struct cache_extent *\<close> is a cursor into the tree. Addresses and sizes
  are 64-bit words and the comparisons add them with wrap-around, as in the C code.
  The argument \<open>mem\<close> of the functions that allocate says whether \<open>malloc\<close> succeeds.
\<close>

section \<open>The data and the comparison functions\<close>

record cache_extent =
  ce_objectid :: u64
  ce_start :: u64
  ce_size :: u64

record cache_extent_search_range =
  sr_objectid :: u64
  sr_start :: u64
  sr_size :: u64

type_synonym cache_tree = "cache_extent rb_node"
type_synonym cache_ptr = "cache_extent rb_cursor"

definition cache_tree_comp_range :: "cache_extent \<Rightarrow> cache_extent_search_range \<Rightarrow> int" where
  "cache_tree_comp_range entry rng =
     (if ce_start entry + ce_size entry \<le> sr_start rng then 1
      else if sr_start rng + sr_size rng \<le> ce_start entry then -1
      else 0)"

text \<open>
  \<open>cache_tree_comp_nodes\<close> leaves \<open>range.objectid\<close> uninitialised; \<open>cache_tree_comp_range\<close>
  does not read it.
\<close>

definition cache_tree_comp_nodes :: "cache_extent \<Rightarrow> cache_extent \<Rightarrow> int" where
  "cache_tree_comp_nodes node1 entry =
     cache_tree_comp_range node1
       \<lparr>sr_objectid = 0, sr_start = ce_start entry, sr_size = ce_size entry\<rparr>"

definition cache_tree_comp_range2 :: "cache_extent \<Rightarrow> cache_extent_search_range \<Rightarrow> int" where
  "cache_tree_comp_range2 entry rng =
     (if ce_objectid entry < sr_objectid rng then 1
      else if ce_objectid entry > sr_objectid rng then -1
      else if ce_start entry + ce_size entry \<le> sr_start rng then 1
      else if sr_start rng + sr_size rng \<le> ce_start entry then -1
      else 0)"

definition cache_tree_comp_nodes2 :: "cache_extent \<Rightarrow> cache_extent \<Rightarrow> int" where
  "cache_tree_comp_nodes2 node1 entry =
     cache_tree_comp_range2 node1
       \<lparr>sr_objectid = ce_objectid entry, sr_start = ce_start entry, sr_size = ce_size entry\<rparr>"

section \<open>Operations\<close>

definition cache_tree_init :: cache_tree where
  "cache_tree_init = Null"

definition cache_tree_empty :: "cache_tree \<Rightarrow> bool" where
  "cache_tree_empty tree \<longleftrightarrow> tree = Null"

definition alloc_cache_extent :: "bool \<Rightarrow> u64 \<Rightarrow> u64 \<Rightarrow> u64 \<Rightarrow> cache_extent option" where
  "alloc_cache_extent mem objectid start sz =
     (if mem then Some \<lparr>ce_objectid = objectid, ce_start = start, ce_size = sz\<rparr> else None)"

definition insert_cache_extent :: "cache_tree \<Rightarrow> cache_extent \<Rightarrow> (int \<times> cache_tree) option" where
  "insert_cache_extent tree pe = rb_insert cache_tree_comp_nodes tree pe"

definition insert_cache_extent2 :: "cache_tree \<Rightarrow> cache_extent \<Rightarrow> (int \<times> cache_tree) option" where
  "insert_cache_extent2 tree pe = rb_insert cache_tree_comp_nodes2 tree pe"

text \<open>\<open>__add_cache_extent\<close>; it exits the process when the allocation fails.\<close>

definition add_cache_extent' :: "bool \<Rightarrow> cache_tree \<Rightarrow> u64 \<Rightarrow> u64 \<Rightarrow> u64 \<Rightarrow> (int \<times> cache_tree) option" where
  "add_cache_extent' mem tree objectid start sz =
     (case alloc_cache_extent mem objectid start sz of
        None \<Rightarrow> None
      | Some pe \<Rightarrow> insert_cache_extent tree pe)"

definition add_cache_extent :: "bool \<Rightarrow> cache_tree \<Rightarrow> u64 \<Rightarrow> u64 \<Rightarrow> (int \<times> cache_tree) option" where
  "add_cache_extent mem tree start sz = add_cache_extent' mem tree 0 start sz"

definition add_cache_extent2 :: "bool \<Rightarrow> cache_tree \<Rightarrow> u64 \<Rightarrow> u64 \<Rightarrow> u64 \<Rightarrow> (int \<times> cache_tree) option" where
  "add_cache_extent2 mem tree objectid start sz = add_cache_extent' mem tree objectid start sz"

definition lookup_cache_extent :: "cache_tree \<Rightarrow> u64 \<Rightarrow> u64 \<Rightarrow> cache_ptr option" where
  "lookup_cache_extent tree start sz =
     fst (rb_search cache_tree_comp_range tree \<lparr>sr_objectid = 0, sr_start = start, sr_size = sz\<rparr>)"

definition lookup_cache_extent2 :: "cache_tree \<Rightarrow> u64 \<Rightarrow> u64 \<Rightarrow> u64 \<Rightarrow> cache_ptr option" where
  "lookup_cache_extent2 tree objectid start sz =
     fst (rb_search cache_tree_comp_range2 tree
            \<lparr>sr_objectid = objectid, sr_start = start, sr_size = sz\<rparr>)"

definition search_cache_extent :: "cache_tree \<Rightarrow> u64 \<Rightarrow> cache_ptr option" where
  "search_cache_extent tree start =
     (let (node, nxt) = rb_search cache_tree_comp_range tree
                          \<lparr>sr_objectid = 0, sr_start = start, sr_size = 1\<rparr>
      in if node = None then nxt else node)"

definition search_cache_extent2 :: "cache_tree \<Rightarrow> u64 \<Rightarrow> u64 \<Rightarrow> cache_ptr option" where
  "search_cache_extent2 tree objectid start =
     (let (node, nxt) = rb_search cache_tree_comp_range2 tree
                          \<lparr>sr_objectid = objectid, sr_start = start, sr_size = 1\<rparr>
      in if node = None then nxt else node)"

definition first_cache_extent :: "cache_tree \<Rightarrow> cache_ptr option" where
  "first_cache_extent tree = rb_first tree"

definition last_cache_extent :: "cache_tree \<Rightarrow> cache_ptr option" where
  "last_cache_extent tree = rb_last tree"

definition prev_cache_extent :: "cache_ptr \<Rightarrow> cache_ptr option" where
  "prev_cache_extent pe = rb_prev pe"

definition next_cache_extent :: "cache_ptr \<Rightarrow> cache_ptr option" where
  "next_cache_extent pe = rb_next pe"

definition remove_cache_extent :: "cache_ptr \<Rightarrow> cache_tree option" where
  "remove_cache_extent pe = rb_erase pe"

text \<open>
  \<open>cache_tree_free_extents\<close> with the callback \<open>free_func\<close> represented by the sequence
  of entries it is applied to. \<open>None\<close> also stands for a loop that does not end.
\<close>

partial_function (option) cache_tree_free_extents ::
  "cache_tree \<Rightarrow> cache_extent list \<Rightarrow> (cache_extent list \<times> cache_tree) option" where
  "cache_tree_free_extents tree freed =
     (case first_cache_extent tree of
        None \<Rightarrow> Some (freed, tree)
      | Some ce \<Rightarrow>
          Option.bind (remove_cache_extent ce)
            (\<lambda>tree'. cache_tree_free_extents tree' (freed @ [cur_entry ce])))"

text \<open>
  \<open>add_merge_cache_extent\<close>. The C code updates \<open>next\<close> in place and then removes
  \<open>prev\<close>; \<open>prev\<close> is the predecessor of \<open>next\<close>, so its pointer in the updated
  tree is \<open>rb_prev\<close> of the updated \<open>next\<close>.
\<close>

definition merge_neighbours :: "cache_tree \<Rightarrow> u64 \<Rightarrow> cache_ptr option \<times> cache_ptr option" where
  "merge_neighbours tree start =
     (case search_cache_extent tree start of
        None \<Rightarrow> (None, last_cache_extent tree)
      | Some cache \<Rightarrow>
          if start \<le> ce_start (cur_entry cache) then (Some cache, prev_cache_extent cache)
          else (next_cache_extent cache, Some cache))"

definition add_merge_cache_extent :: "bool \<Rightarrow> cache_tree \<Rightarrow> u64 \<Rightarrow> u64 \<Rightarrow> (int \<times> cache_tree) option" where
  "add_merge_cache_extent mem tree start sz =
     (if cache_tree_empty tree then add_cache_extent mem tree start sz
      else
        (case merge_neighbours tree start of
           (nxt, prv) \<Rightarrow>
             if (case nxt of None \<Rightarrow> False | Some n \<Rightarrow> start + sz > ce_start (cur_entry n)) then None
             else if (case prv of None \<Rightarrow> False
                      | Some p \<Rightarrow> ce_start (cur_entry p) + ce_size (cur_entry p) > start) then None
             else
               let next_merged = (case nxt of None \<Rightarrow> False | Some n \<Rightarrow> start + sz = ce_start (cur_entry n));
                   prev_merged = (case prv of None \<Rightarrow> False
                      | Some p \<Rightarrow> ce_start (cur_entry p) + ce_size (cur_entry p) = start)
               in (case (nxt, prv) of
                     (Some n, Some p) \<Rightarrow>
                       if next_merged then
                         let e = cur_entry n;
                             e1 = e\<lparr>ce_size := ce_start e + ce_size e - start, ce_start := start\<rparr>
                         in if prev_merged then
                              let e2 = e1\<lparr>ce_size := ce_start e1 + ce_size e1 - ce_start (cur_entry p),
                                          ce_start := ce_start (cur_entry p)\<rparr>
                              in (case prev_cache_extent (rb_replace_node n e2) of
                                    None \<Rightarrow> None
                                  | Some p' \<Rightarrow> map_option (Pair 0) (remove_cache_extent p'))
                            else Some (0, cur_tree (rb_replace_node n e1))
                       else if prev_merged then
                         let e = cur_entry p
                         in Some (0, cur_tree (rb_replace_node p (e\<lparr>ce_size := start + sz - ce_start e\<rparr>)))
                       else add_cache_extent mem tree start sz
                   | (Some n, None) \<Rightarrow>
                       if next_merged then
                         let e = cur_entry n
                         in Some (0, cur_tree (rb_replace_node n
                              (e\<lparr>ce_size := ce_start e + ce_size e - start, ce_start := start\<rparr>)))
                       else add_cache_extent mem tree start sz
                   | (None, Some p) \<Rightarrow>
                       if prev_merged then
                         let e = cur_entry p
                         in Some (0, cur_tree (rb_replace_node p (e\<lparr>ce_size := start + sz - ce_start e\<rparr>)))
                       else add_cache_extent mem tree start sz
                   | (None, None) \<Rightarrow> add_cache_extent mem tree start sz)))"

section \<open>The invariant and the bytes a tree covers\<close>

definition ce_ok :: "cache_extent \<Rightarrow> bool" where
  "ce_ok e \<longleftrightarrow> 0 < unat (ce_size e) \<and> unat (ce_start e) + unat (ce_size e) < 2 ^ 64"

definition ce_lt :: "cache_extent \<Rightarrow> cache_extent \<Rightarrow> bool" where
  "ce_lt a b \<longleftrightarrow> unat (ce_start a) + unat (ce_size a) \<le> unat (ce_start b)"

definition ce_lt2 :: "cache_extent \<Rightarrow> cache_extent \<Rightarrow> bool" where
  "ce_lt2 a b \<longleftrightarrow> ce_objectid a < ce_objectid b \<or> ce_objectid a = ce_objectid b \<and> ce_lt a b"

definition sr_ok :: "cache_extent_search_range \<Rightarrow> bool" where
  "sr_ok r \<longleftrightarrow> 0 < unat (sr_size r) \<and> unat (sr_start r) + unat (sr_size r) < 2 ^ 64"

abbreviation cache_inv :: "cache_tree \<Rightarrow> bool" where
  "cache_inv \<equiv> index_inv ce_lt ce_ok"

abbreviation cache_inv2 :: "cache_tree \<Rightarrow> bool" where
  "cache_inv2 \<equiv> index_inv ce_lt2 ce_ok"

definition ce_bytes :: "cache_extent \<Rightarrow> nat set" where
  "ce_bytes e = {unat (ce_start e) ..< unat (ce_start e) + unat (ce_size e)}"

definition range_bytes :: "u64 \<Rightarrow> u64 \<Rightarrow> nat set" where
  "range_bytes start sz = {unat start ..< unat start + unat sz}"

definition cache_bytes :: "cache_tree \<Rightarrow> nat set" where
  "cache_bytes t = (\<Union>e\<in>set (inorder t). ce_bytes e)"

lemma u64_add_le_iff:
  fixes a b c :: u64
  assumes "unat a + unat b < 2 ^ 64"
  shows "a + b \<le> c \<longleftrightarrow> unat a + unat b \<le> unat c"
    and "a + b < c \<longleftrightarrow> unat a + unat b < unat c"
    and "c < a + b \<longleftrightarrow> unat c < unat a + unat b"
    and "a + b = c \<longleftrightarrow> unat a + unat b = unat c"
  using assms by (auto simp: word_le_nat_alt word_less_nat_alt unat_add_lem [THEN iffD1] word_unat_eq_iff)

lemma comp_range_iff:
  assumes "ce_ok e" and "sr_ok r"
  shows "cache_tree_comp_range e r > 0 \<longleftrightarrow> unat (ce_start e) + unat (ce_size e) \<le> unat (sr_start r)"
    and "cache_tree_comp_range e r < 0 \<longleftrightarrow> unat (sr_start r) + unat (sr_size r) \<le> unat (ce_start e)"
  using assms
  by (auto simp: cache_tree_comp_range_def ce_ok_def sr_ok_def u64_add_le_iff)

interpretation ct: rb_keyed cache_tree_comp_nodes ce_lt ce_ok cache_tree_comp_range sr_ok
proof unfold_locales
  fix a b c :: cache_extent and k :: cache_extent_search_range
  assume ok: "ce_ok a" "ce_ok b"
  then have s: "sr_ok \<lparr>sr_objectid = 0, sr_start = ce_start b, sr_size = ce_size b\<rparr>"
    by (simp add: ce_ok_def sr_ok_def)
  show "0 < cache_tree_comp_nodes a b \<longleftrightarrow> ce_lt a b"
    using comp_range_iff(1) [OF ok(1) s] by (simp add: cache_tree_comp_nodes_def ce_lt_def)
  show "cache_tree_comp_nodes a b < 0 \<longleftrightarrow> ce_lt b a"
    using comp_range_iff(2) [OF ok(1) s] by (simp add: cache_tree_comp_nodes_def ce_lt_def)
  show "ce_lt a b \<Longrightarrow> ce_lt b c \<Longrightarrow> ce_lt a c"
    by (auto simp: ce_lt_def)
  assume "sr_ok k" "ce_lt a b"
  then have "cache_tree_comp_range b k > 0 \<Longrightarrow> cache_tree_comp_range a k > 0"
      "cache_tree_comp_range a k < 0 \<Longrightarrow> cache_tree_comp_range b k < 0"
    using ok by (auto simp: comp_range_iff ce_lt_def)
  then show "sgn (cache_tree_comp_range b k) \<le> sgn (cache_tree_comp_range a k)"
    by (cases "cache_tree_comp_range a k" "0 :: int" rule: linorder_cases) (auto simp: sgn_if)
qed

interpretation ct2: rb_keyed cache_tree_comp_nodes2 ce_lt2 ce_ok cache_tree_comp_range2 sr_ok
proof unfold_locales
  fix a b c :: cache_extent and k :: cache_extent_search_range
  assume ok: "ce_ok a" "ce_ok b"
  show "0 < cache_tree_comp_nodes2 a b \<longleftrightarrow> ce_lt2 a b" and "cache_tree_comp_nodes2 a b < 0 \<longleftrightarrow> ce_lt2 b a"
    using ok by (cases "ce_objectid a" "ce_objectid b" rule: linorder_cases;
        auto simp: cache_tree_comp_nodes2_def cache_tree_comp_range2_def ce_lt2_def ce_lt_def
        ce_ok_def u64_add_le_iff)+
  show "ce_lt2 a b \<Longrightarrow> ce_lt2 b c \<Longrightarrow> ce_lt2 a c"
    by (auto simp: ce_lt2_def ce_lt_def)
  assume "sr_ok k" "ce_lt2 a b"
  then show "sgn (cache_tree_comp_range2 b k) \<le> sgn (cache_tree_comp_range2 a k)"
    using ok by (auto simp: cache_tree_comp_range2_def ce_lt2_def ce_lt_def ce_ok_def sr_ok_def u64_add_le_iff)
qed

section \<open>Insertion, lookup, search, removal\<close>

lemma ce_disjoint_iff:
  assumes "ce_ok a" and "ce_ok b"
  shows "ce_bytes a \<inter> ce_bytes b = {} \<longleftrightarrow> ce_lt a b \<or> ce_lt b a"
  using assms by (auto simp: ce_bytes_def ce_lt_def ce_ok_def disjoint_iff)

lemma range_bytes_ce [simp]: "ce_bytes \<lparr>ce_objectid = objectid, ce_start = start, ce_size = sz\<rparr> = range_bytes start sz"
  by (simp add: ce_bytes_def range_bytes_def)

lemma insert_cache_extent_spec:
  assumes "cache_inv t" and "ce_ok e"
  shows "if ce_bytes e \<inter> cache_bytes t = {}
    then \<exists>t' xs ys. insert_cache_extent t e = Some (0, t') \<and> cache_inv t' \<and> inorder t = xs @ ys \<and>
      inorder t' = xs @ e # ys
    else insert_cache_extent t e = Some (- EEXIST, t)"
proof (cases "ce_bytes e \<inter> cache_bytes t = {}")
  case True
  with assms have "\<forall>y\<in>set (inorder t). ce_lt e y \<or> ce_lt y e"
    by (auto simp: cache_bytes_def index_inv_def simp flip: ce_disjoint_iff)
  with True ct.insert_fresh [OF assms] show ?thesis
    by (simp add: insert_cache_extent_def)
next
  case False
  then obtain y where y: "y \<in> set (inorder t)" "ce_bytes e \<inter> ce_bytes y \<noteq> {}"
    by (auto simp: cache_bytes_def)
  with assms have "\<not> ce_lt e y" "\<not> ce_lt y e"
    using ce_disjoint_iff [of e y] by (auto simp: index_inv_def)
  with False ct.insert_clash [OF assms y(1)] show ?thesis
    by (simp add: insert_cache_extent_def)
qed

lemma comp_range_zero_iff:
  assumes "ce_ok e" and "sr_ok r"
  shows "cache_tree_comp_range e r = 0 \<longleftrightarrow> ce_bytes e \<inter> range_bytes (sr_start r) (sr_size r) \<noteq> {}"
proof -
  let ?e = "\<lparr>ce_objectid = 0, ce_start = sr_start r, ce_size = sr_size r\<rparr>"
  have "ce_ok ?e" using assms(2) by (simp add: ce_ok_def sr_ok_def)
  from ce_disjoint_iff [OF assms(1) this] comp_range_iff [OF assms]
  have "ce_bytes e \<inter> range_bytes (sr_start r) (sr_size r) = {} \<longleftrightarrow>
      cache_tree_comp_range e r > 0 \<or> cache_tree_comp_range e r < 0"
    by (simp add: ce_lt_def)
  then show ?thesis by linarith
qed

lemma search_cache_extent_spec:
  assumes "cache_inv t" and "unat start + 1 < 2 ^ 64"
  shows "\<exists>xs ys. inorder t = xs @ ys \<and> cur_at t xs (search_cache_extent t start) \<and>
    (\<forall>x\<in>set xs. unat (ce_start x) + unat (ce_size x) \<le> unat start) \<and>
    (\<forall>y\<in>set ys. unat start < unat (ce_start y) + unat (ce_size y))"
proof -
  let ?r = "\<lparr>sr_objectid = 0, sr_start = start, sr_size = 1\<rparr> :: cache_extent_search_range"
  have r: "sr_ok ?r" using assms(2) by (simp add: sr_ok_def)
  have ok: "\<forall>e\<in>set (inorder t). ce_ok e" and srt: "sorted_wrt ce_lt (inorder t)"
    using assms(1) by (auto simp: index_inv_def)
  from ct.search_spec [OF assms(1) r] show ?thesis
  proof (elim disjE exE conjE)
    fix cur assume cur: "rb_search cache_tree_comp_range t ?r = (Some cur, None)" "fst cur \<noteq> Null"
      "cur_tree cur = t" "cache_tree_comp_range (cur_entry cur) ?r = 0"
    have io: "inorder t = cur_before cur @ cur_entry cur # cur_after cur"
      using inorder_cur [OF cur(2)] cur(3) by simp
    with ok cur(4) comp_range_iff [of "cur_entry cur" ?r] r
    have b: "unat start < unat (ce_start (cur_entry cur)) + unat (ce_size (cur_entry cur))"
        "unat (ce_start (cur_entry cur)) \<le> unat start"
      by auto
    with srt io have "\<forall>x\<in>set (cur_before cur). unat (ce_start x) + unat (ce_size x) \<le> unat start"
      by (fastforce simp: sorted_wrt_append ce_lt_def)
    moreover from b srt io have "\<forall>y\<in>set (cur_entry cur # cur_after cur). unat start < unat (ce_start y) + unat (ce_size y)"
      by (fastforce simp: sorted_wrt_append ce_lt_def)
    ultimately show ?thesis
      using cur io by (intro exI [of _ "cur_before cur"] exI [of _ "cur_entry cur # cur_after cur"])
        (simp add: search_cache_extent_def cur_at_def)
  next
    fix nxt xs ys assume n: "rb_search cache_tree_comp_range t ?r = (None, nxt)" "inorder t = xs @ ys"
      "cur_at t xs nxt" "\<forall>x\<in>set xs. 0 < cache_tree_comp_range x ?r" "\<forall>y\<in>set ys. cache_tree_comp_range y ?r < 0"
    have "unat (ce_start x) + unat (ce_size x) \<le> unat start" if "x \<in> set xs" for x
      using comp_range_iff(1) [OF _ r, of x] n ok that by simp
    moreover have "unat start < unat (ce_start y) + unat (ce_size y)" if "y \<in> set ys" for y
      using comp_range_iff(2) [OF _ r, of y] n ok that by simp
    ultimately show ?thesis
      using n by (intro exI [of _ xs] exI [of _ ys]) (simp add: search_cache_extent_def)
  qed
qed

lemma lookup_cache_extent_spec:
  assumes inv: "cache_inv t" and r: "sr_ok \<lparr>sr_objectid = 0, sr_start = start, sr_size = sz\<rparr>"
  shows "case lookup_cache_extent t start sz of
     None \<Rightarrow> range_bytes start sz \<inter> cache_bytes t = {}
   | Some p \<Rightarrow> fst p \<noteq> Null \<and> cur_tree p = t \<and> ce_bytes (cur_entry p) \<inter> range_bytes start sz \<noteq> {}"
proof -
  have ok: "\<forall>e\<in>set (inorder t). ce_ok e" using inv by (simp add: index_inv_def)
  from ct.search_spec [OF inv r] show ?thesis
  proof (elim disjE exE conjE)
    fix cur assume cur: "rb_search cache_tree_comp_range t \<lparr>sr_objectid = 0, sr_start = start, sr_size = sz\<rparr>
        = (Some cur, None)" "fst cur \<noteq> Null" "cur_tree cur = t"
      "cache_tree_comp_range (cur_entry cur) \<lparr>sr_objectid = 0, sr_start = start, sr_size = sz\<rparr> = 0"
    have "ce_ok (cur_entry cur)"
      using ok inorder_cur [OF cur(2)] cur(3) by simp
    with comp_range_zero_iff [OF this r] cur show ?thesis
      by (simp add: lookup_cache_extent_def)
  next
    fix nxt xs ys
    assume n: "rb_search cache_tree_comp_range t \<lparr>sr_objectid = 0, sr_start = start, sr_size = sz\<rparr> = (None, nxt)"
      "inorder t = xs @ ys"
      "\<forall>x\<in>set xs. 0 < cache_tree_comp_range x \<lparr>sr_objectid = 0, sr_start = start, sr_size = sz\<rparr>"
      "\<forall>y\<in>set ys. cache_tree_comp_range y \<lparr>sr_objectid = 0, sr_start = start, sr_size = sz\<rparr> < 0"
    have "range_bytes start sz \<inter> ce_bytes e = {}" if "e \<in> set (inorder t)" for e
      using comp_range_zero_iff [OF _ r, of e] n ok that by fastforce
    with n(1) show ?thesis by (auto simp: lookup_cache_extent_def cache_bytes_def)
  qed
qed

lemma remove_cache_extent_spec:
  assumes "cache_inv (cur_tree p)" and "fst p \<noteq> Null"
  shows "\<exists>t. remove_cache_extent p = Some t \<and> cache_inv t \<and> inorder t = cur_before p @ cur_after p \<and>
    cache_bytes t = cache_bytes (cur_tree p) - ce_bytes (cur_entry p)"
proof -
  from index_inv_erase [OF assms] obtain t where
    t: "rb_erase p = Some t" "cache_inv t" "inorder t = cur_before p @ cur_after p" by auto
  have "ce_bytes e \<inter> ce_bytes (cur_entry p) = {}" if "e \<in> set (inorder t)" for e
    using assms(1) that t(3) inorder_cur [OF assms(2)] ce_disjoint_iff [of e "cur_entry p"]
    by (auto simp: index_inv_def sorted_wrt_append)
  then have "cache_bytes t = cache_bytes (cur_tree p) - ce_bytes (cur_entry p)"
    using inorder_cur [OF assms(2)] t(3) by (auto simp: cache_bytes_def)
  with t show ?thesis by (simp add: remove_cache_extent_def)
qed

lemma cache_tree_free_extents_all:
  assumes "cache_inv t"
  shows "cache_tree_free_extents t freed = Some (freed @ inorder t, Null)"
  using assms
proof (induction "length (inorder t)" arbitrary: t freed rule: less_induct)
  case less
  show ?case
  proof (cases "rb_first t")
    case None
    then have "t = Null" by (simp add: rb_first_def split: if_splits)
    then show ?thesis
      by (subst cache_tree_free_extents.simps) (simp add: first_cache_extent_def rb_first_def)
  next
    case (Some p)
    with rb_first_at [of t] have p: "fst p \<noteq> Null" "cur_tree p = t" "cur_before p = []"
      by (auto simp: cur_at_def)
    with remove_cache_extent_spec [of p] less.prems obtain t' where
      t': "remove_cache_extent p = Some t'" "cache_inv t'" "inorder t' = cur_after p" by auto
    have "inorder t = cur_entry p # inorder t'"
      using inorder_cur [OF p(1)] p t' by simp
    with less.hyps [of t' "freed @ [cur_entry p]"] t' show ?thesis
      by (subst cache_tree_free_extents.simps) (simp add: first_cache_extent_def Some)
  qed
qed

section \<open>Merging insertion\<close>

lemma rb_replace_node_ok:
  assumes "fst cur \<noteq> Null"
  shows "inorder (cur_tree (rb_replace_node cur e)) = cur_before cur @ e # cur_after cur"
    and "is_rbt (cur_tree (rb_replace_node cur e)) = is_rbt (cur_tree cur)"
    and "fst (rb_replace_node cur e) \<noteq> Null"
    and "cur_entry (rb_replace_node cur e) = e"
    and "cur_before (rb_replace_node cur e) = cur_before cur"
    and "cur_after (rb_replace_node cur e) = cur_after cur"
proof -
  obtain c l x r ctx where cur: "cur = (RbNode c l x r, ctx)"
    using assms by (cases cur; cases "fst cur") auto
  have "is_rbt (plug (RbNode c l y r) ctx)" if "is_rbt (plug (RbNode c l z r) ctx)" for y z
    using ctx_inv_of_plug [OF that] by (intro is_rbt_plug) auto
  then show "is_rbt (cur_tree (rb_replace_node cur e)) = is_rbt (cur_tree cur)"
    using cur by auto
qed (use assms in \<open>cases cur; cases "fst cur"; auto simp: inorder_plug cur_before_def cur_after_def\<close>)+

text \<open>
  The gap at \<open>start\<close>: the extents that end at or before \<open>start\<close>, and those that lie
  at or after the end of the range to be inserted.
\<close>

definition free_gap :: "cache_tree \<Rightarrow> u64 \<Rightarrow> u64 \<Rightarrow> cache_extent list \<Rightarrow> cache_extent list \<Rightarrow> bool" where
  "free_gap t start sz xs ys \<longleftrightarrow> inorder t = xs @ ys \<and>
     (\<forall>x\<in>set xs. unat (ce_start x) + unat (ce_size x) \<le> unat start) \<and>
     (\<forall>y\<in>set ys. unat start + unat sz \<le> unat (ce_start y))"

definition neighbours_at ::
  "cache_tree \<Rightarrow> cache_extent list \<Rightarrow> cache_extent list \<Rightarrow> cache_ptr option \<times> cache_ptr option \<Rightarrow> bool" where
  "neighbours_at t xs ys np \<longleftrightarrow>
     (case fst np of None \<Rightarrow> ys = []
      | Some n \<Rightarrow> fst n \<noteq> Null \<and> cur_tree n = t \<and> cur_before n = xs \<and> ys = cur_entry n # cur_after n) \<and>
     (case snd np of None \<Rightarrow> xs = []
      | Some p \<Rightarrow> fst p \<noteq> Null \<and> cur_tree p = t \<and> cur_after p = ys \<and> xs = cur_before p @ [cur_entry p])"

lemma prev_neighbour:
  assumes "inorder t = xs @ ys"
    and "case prv of None \<Rightarrow> xs = [] | Some p \<Rightarrow> fst p \<noteq> Null \<and> cur_tree p = t \<and> cur_after p = ys"
  shows "case prv of None \<Rightarrow> xs = []
      | Some p \<Rightarrow> fst p \<noteq> Null \<and> cur_tree p = t \<and> cur_after p = ys \<and> xs = cur_before p @ [cur_entry p]"
  using assms inorder_cur by (fastforce split: option.splits)

lemma merge_neighbours_gap:
  assumes inv: "cache_inv t" and st: "unat start + 1 < 2 ^ 64"
    and nov: "range_bytes start sz \<inter> cache_bytes t = {}" and sz: "0 < unat sz"
  shows "\<exists>xs ys. free_gap t start sz xs ys \<and> neighbours_at t xs ys (merge_neighbours t start)"
proof -
  obtain xs ys where s: "inorder t = xs @ ys" "cur_at t xs (search_cache_extent t start)"
      "\<forall>x\<in>set xs. unat (ce_start x) + unat (ce_size x) \<le> unat start"
      "\<forall>y\<in>set ys. unat start < unat (ce_start y) + unat (ce_size y)"
    using search_cache_extent_spec [OF inv st] by auto
  have "unat start + unat sz \<le> unat (ce_start y)" if "y \<in> set ys" for y
  proof -
    have y: "range_bytes start sz \<inter> ce_bytes y = {}" "0 < unat (ce_size y)"
      using nov inv that s(1) by (auto simp: cache_bytes_def index_inv_def ce_ok_def)
    show ?thesis
    proof (rule ccontr)
      assume "\<not> ?thesis"
      then have "max (unat start) (unat (ce_start y)) \<in> range_bytes start sz \<inter> ce_bytes y"
        using s(4) that sz y(2) by (auto simp: range_bytes_def ce_bytes_def max_def)
      with y(1) show False by simp
    qed
  qed
  with s have gap: "free_gap t start sz xs ys" by (simp add: free_gap_def)
  have "neighbours_at t xs ys (merge_neighbours t start)"
  proof (cases "search_cache_extent t start")
    case None
    with s have "ys = []" by (simp add: cur_at_def)
    moreover have "merge_neighbours t start = (None, last_cache_extent t)"
      by (simp add: merge_neighbours_def None)
    ultimately show ?thesis
      using prev_neighbour [of t xs "[]" "last_cache_extent t"] rb_last_after [of t] s(1)
      by (auto simp: neighbours_at_def last_cache_extent_def split: option.splits)
  next
    case (Some n)
    with s(2) have n: "fst n \<noteq> Null" "cur_tree n = t" "cur_before n = xs" by (auto simp: cur_at_def)
    then have ys: "ys = cur_entry n # cur_after n"
      using inorder_cur [OF n(1)] s(1) by simp
    with gap have "start \<le> ce_start (cur_entry n)"
      by (auto simp: free_gap_def word_le_nat_alt)
    then have "merge_neighbours t start = (Some n, prev_cache_extent n)"
      by (simp add: merge_neighbours_def Some)
    then show ?thesis
      using prev_neighbour [of t xs ys "prev_cache_extent n"] rb_prev_after [OF n(1)] s(1) n ys
      by (auto simp: neighbours_at_def prev_cache_extent_def split: option.splits)
  qed
  with gap show ?thesis by blast
qed

lemma split_unique:
  assumes "xs @ ys = xs' @ ys'" and "\<forall>x\<in>set xs. P x" and "\<forall>y\<in>set ys. \<not> P y"
    and "\<forall>x\<in>set xs'. P x" and "\<forall>y\<in>set ys'. \<not> P y"
  shows "xs = xs'"
proof -
  have "takeWhile P (as @ bs) = as" if "\<forall>x\<in>set as. P x" "\<forall>y\<in>set bs. \<not> P y" for as bs :: "'a list"
    using that by (cases bs) auto
  from this [of xs ys] this [of xs' ys'] show ?thesis using assms by simp
qed

abbreviation ce_end :: "cache_extent \<Rightarrow> nat" where
  "ce_end e \<equiv> unat (ce_start e) + unat (ce_size e)"

definition ce_gap :: "cache_extent \<Rightarrow> cache_extent \<Rightarrow> bool" where
  "ce_gap a b \<longleftrightarrow> ce_end a < unat (ce_start b)"

text \<open>
  \<open>merged start sz xs ys zs\<close>: the sequence \<open>zs\<close> is \<open>xs @ ys\<close> with the range put
  in between, joined with the extent before it when that one ends at \<open>start\<close> and with the
  extent after it when that one begins at the end of the range.
\<close>

definition merged_left :: "u64 \<Rightarrow> cache_extent list \<Rightarrow> cache_extent list \<Rightarrow> cache_extent \<Rightarrow> bool" where
  "merged_left start xs pre m \<longleftrightarrow>
     pre = xs \<and> unat (ce_start m) = unat start \<and> (xs \<noteq> [] \<longrightarrow> ce_end (last xs) \<noteq> unat start) \<or>
     (\<exists>p. xs = pre @ [p] \<and> ce_end p = unat start \<and> unat (ce_start m) = unat (ce_start p))"

definition merged_right :: "u64 \<Rightarrow> u64 \<Rightarrow> cache_extent list \<Rightarrow> cache_extent list \<Rightarrow> cache_extent \<Rightarrow> bool" where
  "merged_right start sz ys post m \<longleftrightarrow>
     post = ys \<and> ce_end m = unat start + unat sz \<and> (ys \<noteq> [] \<longrightarrow> unat (ce_start (hd ys)) \<noteq> unat start + unat sz) \<or>
     (\<exists>n. ys = n # post \<and> unat (ce_start n) = unat start + unat sz \<and> ce_end m = ce_end n)"

definition merged :: "u64 \<Rightarrow> u64 \<Rightarrow> cache_extent list \<Rightarrow> cache_extent list \<Rightarrow> cache_extent list \<Rightarrow> bool" where
  "merged start sz xs ys zs \<longleftrightarrow>
     (\<exists>pre m post. zs = pre @ m # post \<and> merged_left start xs pre m \<and> merged_right start sz ys post m)"

lemma merged_left_facts:
  assumes "merged_left start xs pre m" and "sorted_wrt ce_lt xs" and "\<forall>x\<in>set xs. ce_end x \<le> unat start"
    and "\<forall>x\<in>set xs. ce_ok x"
  shows "unat (ce_start m) \<le> unat start" and "set pre \<subseteq> set xs" and "sorted_wrt ce_lt pre"
    and "\<forall>x\<in>set pre. ce_lt x m"
    and "(\<Union>x\<in>set xs. ce_bytes x) = (\<Union>x\<in>set pre. ce_bytes x) \<union> {unat (ce_start m) ..< unat start}"
    and "sorted_wrt ce_gap xs \<Longrightarrow> sorted_wrt ce_gap pre \<and> (\<forall>x\<in>set pre. ce_gap x m)"
proof -
  have last: "ce_gap x m" if "sorted_wrt ce_gap xs" "pre = xs" "unat (ce_start m) = unat start"
      "ce_end (last xs) \<noteq> unat start" "x \<in> set xs" for x
  proof -
    have "xs = butlast xs @ [last xs]" using that(5) by (metis append_butlast_last_id empty_iff empty_set)
    then have "x = last xs \<or> ce_gap x (last xs)" "ce_end (last xs) \<le> unat start"
      using that(1,5) assms(3) by (metis Un_iff empty_iff insert_iff list.set set_append sorted_wrt_append
          list.set_intros(1))+
    with that(3,4) show ?thesis by (auto simp: ce_gap_def)
  qed
  show "sorted_wrt ce_gap xs \<Longrightarrow> sorted_wrt ce_gap pre \<and> (\<forall>x\<in>set pre. ce_gap x m)"
    using assms last by (fastforce simp: merged_left_def sorted_wrt_append ce_gap_def)
qed (use assms in \<open>auto simp: merged_left_def ce_lt_def ce_ok_def ce_bytes_def sorted_wrt_append\<close>)

lemma merged_right_facts:
  assumes "merged_right start sz ys post m" and "sorted_wrt ce_lt ys"
    and "\<forall>y\<in>set ys. unat start + unat sz \<le> unat (ce_start y)" and "\<forall>y\<in>set ys. ce_ok y"
    and "unat start + unat sz < 2 ^ 64"
  shows "unat start + unat sz \<le> ce_end m" and "ce_end m < 2 ^ 64" and "set post \<subseteq> set ys"
    and "sorted_wrt ce_lt post" and "\<forall>y\<in>set post. ce_lt m y"
    and "(\<Union>y\<in>set ys. ce_bytes y) = (\<Union>y\<in>set post. ce_bytes y) \<union> {unat start + unat sz ..< ce_end m}"
    and "sorted_wrt ce_gap ys \<Longrightarrow> sorted_wrt ce_gap post \<and> (\<forall>y\<in>set post. ce_gap m y)"
proof -
  have "ce_gap m y" if "sorted_wrt ce_gap ys" "ce_end m = unat start + unat sz"
      "unat (ce_start (hd ys)) \<noteq> unat start + unat sz" "y \<in> set ys" for y
    using that assms(3) by (cases ys) (auto simp: ce_gap_def)
  then show "sorted_wrt ce_gap ys \<Longrightarrow> sorted_wrt ce_gap post \<and> (\<forall>y\<in>set post. ce_gap m y)"
    using assms by (fastforce simp: merged_right_def ce_gap_def)
qed (use assms in \<open>auto simp: merged_right_def ce_lt_def ce_ok_def ce_bytes_def\<close>)

lemma ce_lt_trans: "ce_lt a b \<Longrightarrow> ce_lt b c \<Longrightarrow> ce_lt a c"
  by (simp add: ce_lt_def)

lemma ce_gap_trans: "ce_gap a b \<Longrightarrow> ce_gap b c \<Longrightarrow> ce_gap a c"
  by (simp add: ce_gap_def)

lemma merged_ok:
  assumes inv: "cache_inv t" and gap: "free_gap t start sz xs ys" and m: "merged start sz xs ys (inorder t')"
    and rbt: "is_rbt t'" and sz: "0 < unat sz" "unat start + unat sz < 2 ^ 64"
  shows "cache_inv t'" and "cache_bytes t' = cache_bytes t \<union> range_bytes start sz"
    and "sorted_wrt ce_gap (inorder t) \<Longrightarrow> sorted_wrt ce_gap (inorder t')"
proof -
  obtain pre m post where z: "inorder t' = pre @ m # post" "merged_left start xs pre m"
      "merged_right start sz ys post m"
    using m by (auto simp: merged_def)
  have xy: "inorder t = xs @ ys" "\<forall>x\<in>set xs. ce_end x \<le> unat start"
      "\<forall>y\<in>set ys. unat start + unat sz \<le> unat (ce_start y)"
    using gap by (auto simp: free_gap_def)
  have sx: "sorted_wrt ce_lt xs" "sorted_wrt ce_lt ys" "\<forall>x\<in>set xs. ce_ok x" "\<forall>y\<in>set ys. ce_ok y"
    using inv xy(1) by (auto simp: index_inv_def sorted_wrt_append)
  note L = merged_left_facts [OF z(2) sx(1) xy(2) sx(3)]
  note R = merged_right_facts [OF z(3) sx(2) xy(3) sx(4) sz(2)]
  have "ce_ok m" using L(1) R(1,2) sz(1) by (auto simp: ce_ok_def)
  moreover have "sorted_wrt ce_lt (inorder t')"
    using L(3,4) R(4,5) z(1) by (auto simp: sorted_wrt_append intro: ce_lt_trans)
  ultimately show "cache_inv t'"
    using rbt z(1) L(2) R(3) sx by (auto simp: index_inv_def)
  have "ce_bytes m = {unat (ce_start m) ..< unat start} \<union> range_bytes start sz \<union>
      {unat start + unat sz ..< ce_end m}"
    using L(1) R(1) by (auto simp: ce_bytes_def range_bytes_def)
  moreover have "cache_bytes t' = (\<Union>x\<in>set pre. ce_bytes x) \<union> ce_bytes m \<union> (\<Union>y\<in>set post. ce_bytes y)"
      "cache_bytes t = (\<Union>x\<in>set xs. ce_bytes x) \<union> (\<Union>y\<in>set ys. ce_bytes y)"
    using z(1) xy(1) by (auto simp: cache_bytes_def)
  ultimately show "cache_bytes t' = cache_bytes t \<union> range_bytes start sz"
    by (simp only: L(5) R(6) Un_ac)
  assume "sorted_wrt ce_gap (inorder t)"
  then have "sorted_wrt ce_gap xs" "sorted_wrt ce_gap ys"
    using xy(1) by (auto simp: sorted_wrt_append)
  with L(6) R(7) z(1) show "sorted_wrt ce_gap (inorder t')"
    by (auto simp: sorted_wrt_append intro: ce_gap_trans)
qed

text \<open>Each branch of the function yields such a sequence.\<close>

lemma add_cache_extent_gap:
  assumes "cache_inv t" and "free_gap t start sz xs ys" and sz: "0 < unat sz" "unat start + unat sz < 2 ^ 64"
    and "xs \<noteq> [] \<longrightarrow> ce_end (last xs) \<noteq> unat start" and "ys \<noteq> [] \<longrightarrow> unat (ce_start (hd ys)) \<noteq> unat start + unat sz"
  shows "\<exists>t'. add_cache_extent True t start sz = Some (0, t') \<and> is_rbt t' \<and> merged start sz xs ys (inorder t')"
proof -
  let ?e = "\<lparr>ce_objectid = 0, ce_start = start, ce_size = sz\<rparr>"
  have ok: "ce_ok ?e" using sz by (simp add: ce_ok_def)
  have g: "inorder t = xs @ ys" "\<forall>x\<in>set xs. ce_lt x ?e" "\<forall>y\<in>set ys. ce_lt ?e y"
    using assms(2) by (auto simp: free_gap_def ce_lt_def)
  then obtain t' xs' ys' where t': "insert_cache_extent t ?e = Some (0, t')" "cache_inv t'"
      "inorder t = xs' @ ys'" "inorder t' = xs' @ ?e # ys'"
    using ct.insert_fresh [OF assms(1) ok] unfolding insert_cache_extent_def by (metis Un_iff set_append)
  have "\<not> (ce_lt a ?e \<and> ce_lt ?e a)" for a
    using sz(1) by (auto simp: ce_lt_def)
  then have "xs = xs'"
    using g t' by (intro split_unique [of xs ys xs' ys' "\<lambda>x. ce_lt x ?e"])
      (auto simp: index_inv_def sorted_wrt_append)
  with t' g(1) have "inorder t' = xs @ ?e # ys" by simp
  moreover have "merged_left start xs xs ?e" "merged_right start sz ys ys ?e"
    using assms(5,6) by (simp_all add: merged_left_def merged_right_def)
  ultimately have "merged start sz xs ys (inorder t')"
    unfolding merged_def by blast
  with t' show ?thesis
    by (simp add: add_cache_extent_def add_cache_extent'_def alloc_cache_extent_def index_inv_def)
qed

lemma u64_sub_unat:
  fixes a b c :: u64
  assumes "unat a + unat b < 2 ^ 64" and "unat c \<le> unat a + unat b"
  shows "unat (a + b - c) = unat a + unat b - unat c"
  using assms by (simp add: unat_sub word_le_nat_alt unat_add_lem [THEN iffD1])

lemma replaced_merged:
  assumes "fst cur \<noteq> Null" and "is_rbt (cur_tree cur)"
    and "merged_left start xs (cur_before cur) e" and "merged_right start sz ys (cur_after cur) e"
  shows "is_rbt (cur_tree (rb_replace_node cur e))"
    and "merged start sz xs ys (inorder (cur_tree (rb_replace_node cur e)))"
  using assms by (auto simp: rb_replace_node_ok merged_def)

lemma remove_prev_of_replaced:
  assumes n: "fst n \<noteq> Null" "is_rbt (cur_tree n)" "cur_before n = xs @ [p]"
  shows "\<exists>p' t'. prev_cache_extent (rb_replace_node n e) = Some p' \<and> remove_cache_extent p' = Some t' \<and>
    is_rbt t' \<and> inorder t' = xs @ e # cur_after n"
proof -
  let ?n = "rb_replace_node n e"
  note r = rb_replace_node_ok [OF n(1), of e]
  from rb_prev_after [OF r(3)] n r obtain p' where p': "rb_prev ?n = Some p'" "fst p' \<noteq> Null"
      "cur_tree p' = cur_tree ?n" "cur_after p' = e # cur_after n"
    by (auto split: option.splits)
  then have "cur_before p' @ [cur_entry p'] = xs @ [p]"
    using inorder_cur [OF p'(2)] n(3) r(1) by simp
  moreover obtain t' where "rb_erase p' = Some t'" "is_rbt t'" "inorder t' = cur_before p' @ cur_after p'"
    using rb_erase_ok [of p'] p' r(2) n(2) by auto
  ultimately show ?thesis
    using p' by (simp add: prev_cache_extent_def remove_cache_extent_def)
qed

lemma add_merge_two_neighbours:
  assumes ne: "t \<noteq> Null" and np: "merge_neighbours t start = (Some n, Some p)"
    and "\<forall>y\<in>set ys. unat start + unat sz \<le> unat (ce_start y)"
    and "\<forall>x\<in>set xs. ce_end x \<le> unat start" and "\<forall>e\<in>set (xs @ ys). ce_ok e"
    and sz: "0 < unat sz" "unat start + unat sz < 2 ^ 64" and rbt: "is_rbt t"
    and n: "fst n \<noteq> Null \<and> cur_tree n = t \<and> cur_before n = xs \<and> ys = cur_entry n # cur_after n"
    and p: "fst p \<noteq> Null \<and> cur_tree p = t \<and> cur_after p = ys \<and> xs = cur_before p @ [cur_entry p]"
    and add: "xs \<noteq> [] \<longrightarrow> ce_end (last xs) \<noteq> unat start \<Longrightarrow>
      ys \<noteq> [] \<longrightarrow> unat (ce_start (hd ys)) \<noteq> unat start + unat sz \<Longrightarrow>
      \<exists>t'. add_cache_extent True t start sz = Some (0, t') \<and> is_rbt t' \<and> merged start sz xs ys (inorder t')"
  shows "\<exists>t'. add_merge_cache_extent True t start sz = Some (0, t') \<and> is_rbt t' \<and>
    merged start sz xs ys (inorder t')"
proof -
  let ?e = "(cur_entry n)\<lparr>ce_size := ce_start (cur_entry n) + ce_size (cur_entry n) - start, ce_start := start\<rparr>"
  let ?e2 = "?e\<lparr>ce_size := start + (ce_start (cur_entry n) + ce_size (cur_entry n) - start) - ce_start (cur_entry p),
      ce_start := ce_start (cur_entry p)\<rparr>"
  let ?p = "(cur_entry p)\<lparr>ce_size := start + sz - ce_start (cur_entry p)\<rparr>"
  have b: "unat start + unat sz \<le> unat (ce_start (cur_entry n))" "ce_ok (cur_entry n)"
      "ce_end (cur_entry p) \<le> unat start" "ce_ok (cur_entry p)"
    using assms by auto
  note facts = b n p sz rbt
  consider (both) "start + sz = ce_start (cur_entry n)" "ce_start (cur_entry p) + ce_size (cur_entry p) = start"
    | (nxt) "start + sz = ce_start (cur_entry n)" "ce_start (cur_entry p) + ce_size (cur_entry p) \<noteq> start"
    | (prv) "start + sz \<noteq> ce_start (cur_entry n)" "ce_start (cur_entry p) + ce_size (cur_entry p) = start"
    | (none) "start + sz \<noteq> ce_start (cur_entry n)" "ce_start (cur_entry p) + ce_size (cur_entry p) \<noteq> start"
    by blast
  then show ?thesis
  proof cases
    case both
    have m: "merged_left start xs (cur_before p) ?e2" "merged_right start sz ys (cur_after n) ?e2"
      using both facts by (auto simp: merged_left_def merged_right_def ce_ok_def u64_add_le_iff u64_sub_unat)
    then have "merged start sz xs ys (cur_before p @ ?e2 # cur_after n)"
      unfolding merged_def by blast
    with remove_prev_of_replaced [of n "cur_before p" "cur_entry p" ?e2] facts both show ?thesis
      by (auto simp: add_merge_cache_extent_def cache_tree_empty_def ne np Let_def ce_ok_def u64_add_le_iff)
  next
    case nxt
    with facts show ?thesis
      using replaced_merged [of n start xs ?e sz ys]
      by (auto simp: add_merge_cache_extent_def cache_tree_empty_def ne np Let_def ce_ok_def u64_add_le_iff
          merged_left_def merged_right_def u64_sub_unat)
  next
    case prv
    with facts show ?thesis
      using replaced_merged [of p start xs ?p sz ys]
      by (auto simp: add_merge_cache_extent_def cache_tree_empty_def ne np Let_def ce_ok_def u64_add_le_iff
          merged_left_def merged_right_def u64_sub_unat)
  next
    case none
    with facts add show ?thesis
      by (auto simp: add_merge_cache_extent_def cache_tree_empty_def ne np Let_def ce_ok_def u64_add_le_iff)
  qed
qed

lemma add_merge_branches:
  assumes inv: "cache_inv t" and gap: "free_gap t start sz xs ys" and ne: "t \<noteq> Null"
    and nb: "neighbours_at t xs ys (merge_neighbours t start)"
    and sz: "0 < unat sz" "unat start + unat sz < 2 ^ 64"
  shows "\<exists>t'. add_merge_cache_extent True t start sz = Some (0, t') \<and> is_rbt t' \<and>
    merged start sz xs ys (inorder t')"
proof -
  obtain nxt prv where np: "merge_neighbours t start = (nxt, prv)" by force
  note nb = nb [unfolded np neighbours_at_def fst_conv snd_conv]
  note add = add_cache_extent_gap [OF inv gap sz]
  have g: "inorder t = xs @ ys" "\<forall>x\<in>set xs. ce_end x \<le> unat start"
      "\<forall>y\<in>set ys. unat start + unat sz \<le> unat (ce_start y)" and ok: "\<forall>e\<in>set (xs @ ys). ce_ok e"
    and rbt: "is_rbt t"
    using gap inv by (auto simp: free_gap_def index_inv_def)
  show ?thesis
  proof (cases nxt; cases prv)
    assume "nxt = None" "prv = None"
    with nb g ne show ?thesis by (cases t) auto
  next
    fix p assume n: "nxt = None" and p: "prv = Some p"
    let ?e = "(cur_entry p)\<lparr>ce_size := start + sz - ce_start (cur_entry p)\<rparr>"
    have "ce_end (cur_entry p) \<le> unat start" "ce_ok (cur_entry p)" using nb g ok n p by auto
    with nb g n p sz add rbt show ?thesis
      using replaced_merged [of p start xs ?e sz ys]
      by (auto simp: add_merge_cache_extent_def cache_tree_empty_def ne np Let_def ce_ok_def u64_add_le_iff
          merged_left_def merged_right_def u64_sub_unat)
  next
    fix n assume n: "nxt = Some n" and p: "prv = None"
    let ?e = "(cur_entry n)\<lparr>ce_size := ce_start (cur_entry n) + ce_size (cur_entry n) - start, ce_start := start\<rparr>"
    have "unat start + unat sz \<le> unat (ce_start (cur_entry n))" "ce_ok (cur_entry n)" using nb g ok n p by auto
    with nb g n p sz add rbt show ?thesis
      using replaced_merged [of n start xs ?e sz ys]
      by (auto simp: add_merge_cache_extent_def cache_tree_empty_def ne np Let_def ce_ok_def u64_add_le_iff
          merged_left_def merged_right_def u64_sub_unat)
  next
    fix n p assume n: "nxt = Some n" and p: "prv = Some p"
    with add_merge_two_neighbours [OF ne _ g(3,2) _ sz rbt _ _ add] np nb ok show ?thesis by simp
  qed
qed


lemma add_merge_cache_extent_spec:
  assumes inv: "cache_inv t" and sz: "0 < unat sz" "unat start + unat sz < 2 ^ 64"
    and nov: "range_bytes start sz \<inter> cache_bytes t = {}"
  shows "\<exists>t'. add_merge_cache_extent True t start sz = Some (0, t') \<and> cache_inv t' \<and>
    cache_bytes t' = cache_bytes t \<union> range_bytes start sz \<and>
    (sorted_wrt ce_gap (inorder t) \<longrightarrow> sorted_wrt ce_gap (inorder t'))"
proof (cases "t = Null")
  case True
  have gap: "free_gap t start sz [] []" by (simp add: free_gap_def True)
  from add_cache_extent_gap [OF inv gap sz] merged_ok [OF inv gap _ _ sz] show ?thesis
    by (auto simp: add_merge_cache_extent_def cache_tree_empty_def True)
next
  case False
  have "unat start + 1 < 2 ^ 64" using sz by linarith
  from merge_neighbours_gap [OF inv this nov sz(1)] obtain xs ys where
    gap: "free_gap t start sz xs ys" "neighbours_at t xs ys (merge_neighbours t start)" by auto
  from add_merge_branches [OF inv gap(1) False gap(2) sz] merged_ok [OF inv gap(1) _ _ sz] show ?thesis
    by blast
qed

lemma add_merge_cache_extent_bug:
  assumes inv: "cache_inv t" and sz: "0 < unat sz" "unat start + unat sz < 2 ^ 64"
    and ov: "range_bytes start sz \<inter> cache_bytes t \<noteq> {}"
  shows "add_merge_cache_extent mem t start sz = None"
proof -
  have ne: "t \<noteq> Null" using ov by (auto simp: cache_bytes_def)
  have "unat start + 1 < 2 ^ 64" using sz by linarith
  from search_cache_extent_spec [OF inv this] obtain xs ys where s: "inorder t = xs @ ys"
      "cur_at t xs (search_cache_extent t start)" "\<forall>x\<in>set xs. ce_end x \<le> unat start"
      "\<forall>y\<in>set ys. unat start < ce_end y"
    by auto
  obtain e where e: "e \<in> set ys" "range_bytes start sz \<inter> ce_bytes e \<noteq> {}"
    using ov s(1,3) by (fastforce simp: cache_bytes_def range_bytes_def ce_bytes_def)
  then obtain c where c: "search_cache_extent t start = Some c" "fst c \<noteq> Null" "cur_tree c = t" "cur_before c = xs"
    using s(1,2) by (cases "search_cache_extent t start") (auto simp: cur_at_def)
  have ys: "ys = cur_entry c # cur_after c"
    using inorder_cur [OF c(2)] c s(1) by simp
  have ok: "ce_ok (cur_entry c)" and "e = cur_entry c \<or> ce_lt (cur_entry c) e"
    using inv s(1) ys e(1) by (auto simp: index_inv_def sorted_wrt_append)
  then have "unat (ce_start (cur_entry c)) < unat start + unat sz"
    using e(2) by (auto simp: ce_lt_def range_bytes_def ce_bytes_def)
  with ok s(4) ys sz ne c(1) show ?thesis
    by (auto simp: add_merge_cache_extent_def merge_neighbours_def cache_tree_empty_def ce_ok_def u64_add_le_iff
        split: option.splits)
qed

end
