(* ===== verification/Ulist.thy ===== *)
theory Ulist
  imports RbTree "HOL-Library.Multiset"
begin

text \<open>
  The unique list of \<open>kernel-shared/ulist.c\<close> and \<open>kernel-shared/ulist.h\<close>: a
  collection of 64-bit values, each with an auxiliary value, that is enumerated in the order of
  addition. Every node is linked both into a list and into a red-black tree; here the list and
  the tree hold copies of the node, and the invariant says that they hold the same nodes.
  The argument \<open>mem\<close> says whether \<open>kmalloc\<close> succeeds.
\<close>

section \<open>Data and operations\<close>

record ulist_node =
  ul_val :: u64
  ul_aux :: u64

record ulist =
  nnodes :: nat
  nodes :: "ulist_node list"
  ul_root :: "ulist_node rb_node"

definition ulist_init :: "ulist \<Rightarrow> ulist" where
  "ulist_init u = u\<lparr>nodes := [], ul_root := Null, nnodes := 0\<rparr>"

definition ulist_fini :: "ulist \<Rightarrow> ulist" where
  "ulist_fini u = u\<lparr>ul_root := Null, nodes := []\<rparr>"

definition ulist_reinit :: "ulist \<Rightarrow> ulist" where
  "ulist_reinit u = ulist_init (ulist_fini u)"

text \<open>\<open>ulist_alloc\<close>: the argument \<open>u\<close> is the content of the memory \<open>kmalloc\<close> returns.\<close>

definition ulist_alloc :: "bool \<Rightarrow> ulist \<Rightarrow> ulist option" where
  "ulist_alloc mem u = (if mem then Some (ulist_init u) else None)"

fun ulist_search_loop :: "u64 \<Rightarrow> ulist_node rb_node \<Rightarrow> ulist_node rb_frame list \<Rightarrow> ulist_node rb_cursor option" where
  "ulist_search_loop v Null ctx = None"
| "ulist_search_loop v (RbNode c l u r) ctx =
     (if ul_val u < v then ulist_search_loop v r (RightOf l c u # ctx)
      else if ul_val u > v then ulist_search_loop v l (LeftOf c u r # ctx)
      else Some (RbNode c l u r, ctx))"

definition ulist_rbtree_search :: "ulist \<Rightarrow> u64 \<Rightarrow> ulist_node rb_cursor option" where
  "ulist_rbtree_search u v = ulist_search_loop v (ul_root u) []"

text \<open>
  \<open>ulist_rbtree_erase\<close>. \<open>list_del\<close> unlinks the node that the tree pointer designates;
  values are unique, so it is the first node of the list equal to it.
\<close>

definition ulist_rbtree_erase :: "ulist \<Rightarrow> ulist_node rb_cursor \<Rightarrow> ulist option" where
  "ulist_rbtree_erase u node =
     (case rb_erase node of
        None \<Rightarrow> None
      | Some t \<Rightarrow>
        let u' = u\<lparr>ul_root := t, nodes := remove1 (cur_entry node) (nodes u)\<rparr>
        in if nnodes u' = 0 then None else Some (u'\<lparr>nnodes := nnodes u' - 1\<rparr>))"

fun ulist_insert_pos ::
  "ulist_node \<Rightarrow> ulist_node rb_node \<Rightarrow> ulist_node rb_frame list \<Rightarrow> ulist_node rb_frame list option" where
  "ulist_insert_pos ins Null ctx = Some ctx"
| "ulist_insert_pos ins (RbNode c l cur r) ctx =
     (if ul_val cur < ul_val ins then ulist_insert_pos ins r (RightOf l c cur # ctx)
      else if ul_val cur > ul_val ins then ulist_insert_pos ins l (LeftOf c cur r # ctx)
      else None)"

definition ulist_rbtree_insert :: "ulist \<Rightarrow> ulist_node \<Rightarrow> (int \<times> ulist) option" where
  "ulist_rbtree_insert u ins =
     (case ulist_insert_pos ins (ul_root u) [] of
        None \<Rightarrow> Some (- EEXIST, u)
      | Some ctx \<Rightarrow>
          map_option (\<lambda>t. (0, u\<lparr>ul_root := t\<rparr>)) (rb_insert_color (rb_link_node ins) ctx))"

text \<open>
  \<open>ulist_add_merge\<close>: the return value, what is stored in \<open>*old_aux\<close> (\<open>None\<close> when
  it is left alone) and the list afterwards.
\<close>

definition ulist_add_merge :: "bool \<Rightarrow> ulist \<Rightarrow> u64 \<Rightarrow> u64 \<Rightarrow> (int \<times> u64 option \<times> ulist) option" where
  "ulist_add_merge mem u v aux =
     (case ulist_rbtree_search u v of
        Some node \<Rightarrow> Some (0, Some (ul_aux (cur_entry node)), u)
      | None \<Rightarrow>
        if \<not> mem then Some (- ENOMEM, None, u)
        else
          let node = \<lparr>ul_val = v, ul_aux = aux\<rparr>
          in (case ulist_rbtree_insert u node of
                None \<Rightarrow> None
              | Some (ret, u') \<Rightarrow>
                  if ret \<noteq> 0 then None
                  else Some (1, None, u'\<lparr>nodes := nodes u' @ [node], nnodes := nnodes u' + 1\<rparr>)))"

definition ulist_add :: "bool \<Rightarrow> ulist \<Rightarrow> u64 \<Rightarrow> u64 \<Rightarrow> (int \<times> ulist) option" where
  "ulist_add mem u v aux = map_option (\<lambda>(ret, _, u'). (ret, u')) (ulist_add_merge mem u v aux)"

definition ulist_del :: "ulist \<Rightarrow> u64 \<Rightarrow> u64 \<Rightarrow> (int \<times> ulist) option" where
  "ulist_del u v aux =
     (case ulist_rbtree_search u v of
        None \<Rightarrow> Some (1, u)
      | Some node \<Rightarrow>
        if ul_aux (cur_entry node) \<noteq> aux then Some (1, u)
        else map_option (Pair 0) (ulist_rbtree_erase u node))"

text \<open>
  \<open>ulist_next\<close>: \<open>uiter->cur_list\<close> is the position of a node in the list, or \<open>None\<close>
  for the null pointer of a fresh iterator. The result is the node and the new position.
\<close>

definition ulist_next :: "ulist \<Rightarrow> nat option \<Rightarrow> ulist_node option \<times> nat option" where
  "ulist_next u cur =
     (if nodes u = [] then (None, cur)
      else
        (case cur of
           Some i \<Rightarrow>
             if Suc i = length (nodes u) then (None, cur)
             else (Some (nodes u ! Suc i), Some (Suc i))
         | None \<Rightarrow> (Some (nodes u ! 0), Some 0)))"

section \<open>The invariant\<close>

definition ul_lt :: "ulist_node \<Rightarrow> ulist_node \<Rightarrow> bool" where
  "ul_lt a b \<longleftrightarrow> ul_val a < ul_val b"

definition ulist_inv :: "ulist \<Rightarrow> bool" where
  "ulist_inv u \<longleftrightarrow> index_inv ul_lt (\<lambda>_. True) (ul_root u) \<and> mset (nodes u) = mset (inorder (ul_root u)) \<and>
     nnodes u = length (nodes u)"

text \<open>The descents are those of \<open>rb_search\<close> and \<open>rb_insert\<close> for these comparisons.\<close>

definition ul_cmp :: "ulist_node \<Rightarrow> ulist_node \<Rightarrow> int" where
  "ul_cmp a b = (if ul_val a < ul_val b then 1 else if ul_val a > ul_val b then -1 else 0)"

definition ul_kcmp :: "ulist_node \<Rightarrow> u64 \<Rightarrow> int" where
  "ul_kcmp a v = (if ul_val a < v then 1 else if ul_val a > v then -1 else 0)"

interpretation ul: rb_keyed ul_cmp ul_lt "\<lambda>_. True" ul_kcmp "\<lambda>_. True"
  by unfold_locales (auto simp: ul_cmp_def ul_kcmp_def ul_lt_def)

lemma ulist_insert_pos_rb: "ulist_insert_pos ins t ctx = rb_insert_pos ul_cmp ins t ctx"
  by (induction ins t ctx rule: ulist_insert_pos.induct) (auto simp: ul_cmp_def Let_def)

lemma ulist_search_loop_rb:
  "ulist_search_loop v t ctx = (case rb_search_loop ul_kcmp v t ctx par ret of Inl cur \<Rightarrow> Some cur | Inr _ \<Rightarrow> None)"
  by (induction v t ctx arbitrary: par ret rule: ulist_search_loop.induct) (auto simp: ul_kcmp_def Let_def)

lemma ulist_rbtree_search_rb: "ulist_rbtree_search u v = fst (rb_search ul_kcmp (ul_root u) v)"
  by (auto simp: ulist_rbtree_search_def rb_search_def ulist_search_loop_rb [of _ _ _ None 0]
      split: sum.splits)

lemma ulist_search_cases [consumes 1, case_names found absent]:
  assumes "ulist_inv u"
  obtains (found) cur where "ulist_rbtree_search u v = Some cur" "fst cur \<noteq> Null" "cur_tree cur = ul_root u"
      "ul_val (cur_entry cur) = v"
    | (absent) "ulist_rbtree_search u v = None" "v \<notin> ul_val ` set (nodes u)"
proof -
  have "index_inv ul_lt (\<lambda>_. True) (ul_root u)" and s: "set (nodes u) = set (inorder (ul_root u))"
    using assms mset_eq_setD by (auto simp: ulist_inv_def)
  from ul.search_spec [OF this(1) TrueI, of v] show thesis
  proof (elim disjE exE conjE)
    fix cur assume "rb_search ul_kcmp (ul_root u) v = (Some cur, None)" "fst cur \<noteq> Null"
      "cur_tree cur = ul_root u" "ul_kcmp (cur_entry cur) v = 0"
    then show thesis
      by (intro found) (auto simp: ulist_rbtree_search_rb ul_kcmp_def split: if_splits)
  next
    fix nxt xs ys assume "rb_search ul_kcmp (ul_root u) v = (None, nxt)" "inorder (ul_root u) = xs @ ys"
      "\<forall>x\<in>set xs. 0 < ul_kcmp x v" "\<forall>y\<in>set ys. ul_kcmp y v < 0"
    with s show thesis
      by (intro absent) (auto simp: ulist_rbtree_search_rb ul_kcmp_def split: if_splits)
  qed
qed

lemma ulist_inv_vals:
  assumes "ulist_inv u"
  shows "distinct (map ul_val (nodes u))" and "set (nodes u) = set (inorder (ul_root u))"
proof -
  have "sorted_wrt (<) (map ul_val (inorder (ul_root u)))"
    using assms by (simp add: ulist_inv_def index_inv_def sorted_wrt_map ul_lt_def [abs_def])
  then have "distinct (map ul_val (inorder (ul_root u)))"
    by (simp add: strict_sorted_iff)
  moreover have "mset (map ul_val (nodes u)) = mset (map ul_val (inorder (ul_root u)))"
    using assms by (simp add: ulist_inv_def)
  ultimately show "distinct (map ul_val (nodes u))"
    using mset_eq_imp_distinct_iff by blast
  show "set (nodes u) = set (inorder (ul_root u))"
    using assms mset_eq_setD by (auto simp: ulist_inv_def)
qed

section \<open>Every operation keeps the invariant\<close>

lemma ulist_init_inv: "ulist_inv (ulist_init u)" "ulist_inv (ulist_reinit u)"
  by (simp_all add: ulist_reinit_def ulist_init_def ulist_inv_def)

lemma ulist_add_merge_old:
  assumes "ulist_inv u" and "n \<in> set (nodes u)" and "ul_val n = v"
  shows "ulist_add_merge mem u v aux = Some (0, Some (ul_aux n), u)"
  using assms(1)
proof (cases rule: ulist_search_cases [where v = v])
  case (found cur)
  have "cur_entry cur \<in> set (nodes u)"
    using inorder_cur [OF found(2)] found(3) ulist_inv_vals(2) [OF assms(1)] by simp
  with assms found(4) ulist_inv_vals(1) [OF assms(1)] have "cur_entry cur = n"
    by (auto simp: distinct_map inj_on_def)
  with found show ?thesis by (simp add: ulist_add_merge_def)
next
  case absent
  with assms show ?thesis by force
qed

lemma ulist_add_merge_new:
  assumes inv: "ulist_inv u" and new: "v \<notin> ul_val ` set (nodes u)"
  shows "\<exists>u'. ulist_add_merge True u v aux = Some (1, None, u') \<and> ulist_inv u' \<and>
    nodes u' = nodes u @ [\<lparr>ul_val = v, ul_aux = aux\<rparr>] \<and> nnodes u' = nnodes u + 1"
  using inv
proof (cases rule: ulist_search_cases [where v = v])
  case (found cur)
  have "cur_entry cur \<in> set (nodes u)"
    using inorder_cur [OF found(2)] found(3) ulist_inv_vals(2) [OF inv] by simp
  with found(4) new show ?thesis by auto
next
  case absent
  let ?n = "\<lparr>ul_val = v, ul_aux = aux\<rparr>"
  have "\<forall>y\<in>set (inorder (ul_root u)). ul_lt ?n y \<or> ul_lt y ?n"
    using new ulist_inv_vals(2) [OF inv] by (force simp: ul_lt_def)
  with ul.insert_fresh [of "ul_root u" ?n] inv obtain t' xs ys where
    t': "rb_insert ul_cmp (ul_root u) ?n = Some (0, t')" "index_inv ul_lt (\<lambda>_. True) t'"
      "inorder (ul_root u) = xs @ ys" "inorder t' = xs @ ?n # ys"
    unfolding ulist_inv_def by blast
  then have "ulist_rbtree_insert u ?n = Some (0, u\<lparr>ul_root := t'\<rparr>)"
    by (auto simp: rb_insert_def ulist_rbtree_insert_def ulist_insert_pos_rb split: option.splits)
  with absent(1) t' inv show ?thesis
    by (simp add: ulist_add_merge_def ulist_inv_def)
qed

lemma ulist_add_merge_nomem:
  assumes "ulist_inv u" and "v \<notin> ul_val ` set (nodes u)"
  shows "ulist_add_merge False u v aux = Some (- ENOMEM, None, u)"
  using assms(1)
proof (cases rule: ulist_search_cases [where v = v])
  case (found cur)
  have "cur_entry cur \<in> set (nodes u)"
    using inorder_cur [OF found(2)] found(3) ulist_inv_vals(2) [OF assms(1)] by simp
  with found(4) assms(2) show ?thesis by auto
qed (simp add: ulist_add_merge_def)

lemma ulist_del_spec:
  assumes inv: "ulist_inv u"
  shows "if \<lparr>ul_val = v, ul_aux = aux\<rparr> \<in> set (nodes u)
    then \<exists>u'. ulist_del u v aux = Some (0, u') \<and> ulist_inv u' \<and>
      nodes u' = remove1 \<lparr>ul_val = v, ul_aux = aux\<rparr> (nodes u) \<and> nnodes u' + 1 = nnodes u
    else ulist_del u v aux = Some (1, u)"
  using inv
proof (cases rule: ulist_search_cases [where v = v])
  case (found cur)
  let ?n = "cur_entry cur"
  have io: "inorder (ul_root u) = cur_before cur @ ?n # cur_after cur"
    using inorder_cur [OF found(2)] found(3) by simp
  then have mem: "?n \<in> set (nodes u)"
    using ulist_inv_vals(2) [OF inv] by simp
  have uniq: "m = ?n" if "m \<in> set (nodes u)" "ul_val m = v" for m
    using ulist_inv_vals(1) [OF inv] mem that found(4) by (auto simp: distinct_map inj_on_def)
  show ?thesis
  proof (cases "ul_aux ?n = aux")
    case True
    then have n: "?n = \<lparr>ul_val = v, ul_aux = aux\<rparr>" using found(4) by simp
    from index_inv_erase [of ul_lt "\<lambda>_. True" cur] inv found obtain t where
      t: "rb_erase cur = Some t" "index_inv ul_lt (\<lambda>_. True) t" "inorder t = cur_before cur @ cur_after cur"
      by (auto simp: ulist_inv_def)
    have "length (nodes u) \<noteq> 0" using mem by auto
    with True found t inv io mem n show ?thesis
      by (auto simp: ulist_del_def ulist_rbtree_erase_def Let_def ulist_inv_def length_remove1)
  next
    case False
    then have "\<lparr>ul_val = v, ul_aux = aux\<rparr> \<notin> set (nodes u)"
      using uniq by (metis ulist_node.select_convs)
    with False found show ?thesis by (simp add: ulist_del_def)
  qed
next
  case absent
  then show ?thesis by (force simp: ulist_del_def)
qed

end
