(* ===== verification/IndexProps.thy ===== *)
theory IndexProps
  imports ExtentCache Ulist
begin

text \<open>
  The properties of the red-black tree and of the two containers built on it, the cache tree of
  extents and the list of unique values. The contract \<open>range_store\<close> is what users of a cache tree
  (the record of corrupt blocks, the buffers, the mapping tree) rely on.
\<close>

section \<open>A store of disjoint ranges\<close>

locale range_store =
  fixes inv :: "'s \<Rightarrow> bool" and elems :: "'s \<Rightarrow> 'e set" and rng :: "'e \<Rightarrow> nat set" and ok :: "'e \<Rightarrow> bool"
    and ins :: "'s \<Rightarrow> 'e \<Rightarrow> (int \<times> 's) option" and find :: "'s \<Rightarrow> 'e \<Rightarrow> 'p option"
    and entry :: "'p \<Rightarrow> 'e" and del :: "'p \<Rightarrow> 's option"
  assumes disjoint: "inv s \<Longrightarrow> x \<in> elems s \<Longrightarrow> y \<in> elems s \<Longrightarrow> x \<noteq> y \<Longrightarrow> rng x \<inter> rng y = {}"
    and range_ok: "ok e \<Longrightarrow> rng e \<noteq> {}"
    and ins_law: "inv s \<Longrightarrow> ok e \<Longrightarrow>
      if rng e \<inter> \<Union>(rng ` elems s) = {} then \<exists>s'. ins s e = Some (0, s') \<and> inv s' \<and> elems s' = insert e (elems s)
      else ins s e = Some (- EEXIST, s)"
    and find_none: "inv s \<Longrightarrow> ok e \<Longrightarrow> find s e = None \<Longrightarrow> rng e \<inter> \<Union>(rng ` elems s) = {}"
    and find_some: "inv s \<Longrightarrow> ok e \<Longrightarrow> find s e = Some p \<Longrightarrow> entry p \<in> elems s \<and> rng (entry p) \<inter> rng e \<noteq> {}"
    and del_law: "inv s \<Longrightarrow> ok e \<Longrightarrow> find s e = Some p \<Longrightarrow>
      \<exists>s'. del p = Some s' \<and> inv s' \<and> elems s' = elems s - {entry p}"
begin

text \<open>What was inserted is found, and removing it gives back what was there before.\<close>

lemma insert_find:
  assumes "inv s" and e: "ok e" and "rng e \<inter> \<Union>(rng ` elems s) = {}"
  shows "\<exists>s' p s''. ins s e = Some (0, s') \<and> inv s' \<and> elems s' = insert e (elems s) \<and>
    find s' e = Some p \<and> entry p = e \<and> del p = Some s'' \<and> inv s'' \<and> elems s'' = elems s"
proof -
  obtain s' where s': "ins s e = Some (0, s')" "inv s'" "elems s' = insert e (elems s)"
    using ins_law [OF assms(1,2)] assms(3) by auto
  obtain p where p: "find s' e = Some p"
    using find_none [OF s'(2) e] s'(3) range_ok [OF e] by (cases "find s' e") auto
  from find_some [OF s'(2) e p] s'(3) have en: "entry p = e"
    using disjoint [OF s'(2), of "entry p" e] by auto
  have new: "e \<notin> elems s" using assms(3) range_ok [OF e] by auto
  obtain s'' where "del p = Some s''" "inv s''" "elems s'' = elems s' - {entry p}" using del_law [OF s'(2) e p] by blast
  with s' p en new show ?thesis by auto
qed

lemma insert_twice:
  assumes "inv s" and "ok e" and "ins s e = Some (0, s')" and "inv s'" and "elems s' = insert e (elems s)"
  shows "ins s' e = Some (- EEXIST, s')"
  using ins_law [OF assms(4,2)] range_ok [OF assms(2)] assms(5) by auto

end

definition ce_find :: "cache_tree \<Rightarrow> cache_extent \<Rightarrow> cache_ptr option" where
  "ce_find t e = lookup_cache_extent t (ce_start e) (ce_size e)"

lemma ce_range: "range_bytes (ce_start e) (ce_size e) = ce_bytes e"
  by (simp add: range_bytes_def ce_bytes_def)

interpretation cache_store: range_store cache_inv "\<lambda>t. set (inorder t)" ce_bytes ce_ok insert_cache_extent ce_find
  cur_entry remove_cache_extent
proof unfold_locales
  fix t x y assume t: "cache_inv t" and xy: "x \<in> set (inorder t)" "y \<in> set (inorder t)" "x \<noteq> y"
  have "ce_lt x y \<or> ce_lt y x"
    using t xy unfolding index_inv_def by (metis sorted_wrt_pair)
  with t xy show "ce_bytes x \<inter> ce_bytes y = {}" by (simp add: ce_disjoint_iff index_inv_def)
next
  fix e assume "ce_ok e" then show "ce_bytes e \<noteq> {}" by (auto simp: ce_ok_def ce_bytes_def)
next
  fix t e assume t: "cache_inv t" "ce_ok e"
  show "if ce_bytes e \<inter> \<Union>(ce_bytes ` set (inorder t)) = {}
      then \<exists>t'. insert_cache_extent t e = Some (0, t') \<and> cache_inv t' \<and> set (inorder t') = insert e (set (inorder t))
      else insert_cache_extent t e = Some (- EEXIST, t)"
    using insert_cache_extent_spec [OF t] by (auto simp: cache_bytes_def split: if_splits)
next
  fix t e assume t: "cache_inv t" "ce_ok e"
  then have sr: "sr_ok \<lparr>sr_objectid = 0, sr_start = ce_start e, sr_size = ce_size e\<rparr>" by (simp add: ce_ok_def sr_ok_def)
  note lk = lookup_cache_extent_spec [OF t(1) sr, folded ce_find_def, unfolded ce_range]
  show "ce_find t e = None \<Longrightarrow> ce_bytes e \<inter> \<Union>(ce_bytes ` set (inorder t)) = {}"
    using lk by (simp add: cache_bytes_def)
  fix p assume "ce_find t e = Some p"
  with lk have p: "fst p \<noteq> Null" "cur_tree p = t" "ce_bytes (cur_entry p) \<inter> ce_bytes e \<noteq> {}" by auto
  show "cur_entry p \<in> set (inorder t) \<and> ce_bytes (cur_entry p) \<inter> ce_bytes e \<noteq> {}"
    using p inorder_cur [OF p(1)] by auto
  have "distinct (inorder t)" using t(1) by (auto simp: index_inv_def ce_lt_def ce_ok_def intro!: sorted_wrt_distinct [of ce_lt])
  with remove_cache_extent_spec [of p] p t(1) inorder_cur [OF p(1)]
  show "\<exists>t'. remove_cache_extent p = Some t' \<and> cache_inv t' \<and> set (inorder t') = set (inorder t) - {cur_entry p}"
    by auto
qed

section \<open>Properties of the red-black tree\<close>

text \<open>
  C25. Linking a new node at any free place of a red-black tree and calling \<open>rb_insert_color\<close> returns a
  red-black tree (black root, no red node with a red child, the same number of black nodes on all
  paths) with the entry added at exactly that place of the in-order sequence.
\<close>
theorem rb_insert_color_correct:
  assumes "is_rbt (plug Null ctx)"
  shows "\<exists>t. rb_insert_color (rb_link_node x) ctx = Some t \<and> is_rbt t \<and>
    inorder t = ctx_before ctx @ x # ctx_after ctx \<and> inorder (plug Null ctx) = ctx_before ctx @ ctx_after ctx"
  using rb_insert_color_ok [OF assms, of x] by (simp add: inorder_plug)

definition ex_ctx :: "nat rb_frame list" where
  "ex_ctx = [RightOf Null RB_RED 7, RightOf (RbNode RB_RED Null 1 Null) RB_BLACK 5]"

theorem rb_insert_color_correct_witness:
  "\<exists>t. rb_insert_color (rb_link_node 9) ex_ctx = Some t \<and> is_rbt t \<and> inorder t = [1, 5, 7, 9]"
proof -
  have "is_rbt (plug Null ex_ctx)" by (simp add: ex_ctx_def is_rbt_def)
  from rb_insert_color_correct [OF this, of 9] show ?thesis by (simp add: ex_ctx_def)
qed

text \<open>
  C24. Erasing any node of a red-black tree returns a red-black tree with exactly that entry taken out of
  the in-order sequence; no null pointer is followed on the way.
\<close>
theorem rb_erase_correct:
  assumes "is_rbt (cur_tree cur)" and "fst cur \<noteq> Null"
  shows "\<exists>t. rb_erase cur = Some t \<and> is_rbt t \<and> inorder t = cur_before cur @ cur_after cur \<and>
    inorder (cur_tree cur) = cur_before cur @ cur_entry cur # cur_after cur"
  using rb_erase_ok [OF assms] inorder_cur [OF assms(2)] by simp

theorem rb_erase_correct_witness:
  "\<exists>t. rb_erase (RbNode RB_BLACK (RbNode RB_RED Null 1 Null) 5 (RbNode RB_RED Null 7 Null), []) = Some t \<and>
    is_rbt t \<and> inorder t = [1, 7 :: nat]"
  using rb_erase_correct [of "(RbNode RB_BLACK (RbNode RB_RED Null 1 Null) 5 (RbNode RB_RED Null (7 :: nat) Null), [])"]
  by (simp add: is_rbt_def cur_before_def cur_after_def)

section \<open>Properties of the cache tree\<close>

definition ce :: "u64 \<Rightarrow> u64 \<Rightarrow> cache_extent" where
  "ce start sz = \<lparr>ce_objectid = 0, ce_start = start, ce_size = sz\<rparr>"

definition ex_tree :: cache_tree where
  "ex_tree = RbNode RB_BLACK Null (ce 10 5) Null"

lemma ex_tree_inv: "cache_inv ex_tree" "cache_bytes ex_tree = {10..<15}"
  by (simp_all add: ex_tree_def index_inv_def is_rbt_def ce_def ce_ok_def cache_bytes_def ce_bytes_def)

text \<open>
  Inserting an extent whose range is free succeeds and adds exactly it; a lookup of its range then
  finds it, and removing what the lookup found restores the set of extents. Every tree on the way is
  a red-black tree of disjoint ranges in order.
\<close>
theorem cache_extent_roundtrip:
  assumes "cache_inv t" and "ce_ok e" and "ce_bytes e \<inter> cache_bytes t = {}"
  shows "\<exists>t' p t''. insert_cache_extent t e = Some (0, t') \<and> cache_inv t' \<and>
    set (inorder t') = insert e (set (inorder t)) \<and>
    lookup_cache_extent t' (ce_start e) (ce_size e) = Some p \<and> cur_entry p = e \<and>
    remove_cache_extent p = Some t'' \<and> cache_inv t'' \<and> set (inorder t'') = set (inorder t)"
  using cache_store.insert_find [OF assms(1,2)] assms(3) unfolding cache_bytes_def ce_find_def by simp

theorem cache_extent_roundtrip_witness:
  "\<exists>t'. insert_cache_extent ex_tree (ce 20 4) = Some (0, t') \<and> set (inorder t') = {ce 10 5, ce 20 4}"
proof -
  have "ce_ok (ce 20 4)" "ce_bytes (ce 20 4) \<inter> cache_bytes ex_tree = {}"
    by (auto simp: ce_def ce_ok_def ce_bytes_def ex_tree_inv)
  from cache_extent_roundtrip [OF ex_tree_inv(1) this] show ?thesis by (auto simp: ex_tree_def)
qed

text \<open>
  An insertion (with any objectid, also by \<open>add_cache_extent2\<close>) of a range that overlaps an extent of the
  tree returns -EEXIST and leaves the tree alone, even if the objectids differ.
\<close>
theorem add_cache_extent2_overlap:
  assumes "cache_inv t" and "0 < unat sz" and "unat start + unat sz < 2 ^ 64"
    and "range_bytes start sz \<inter> cache_bytes t \<noteq> {}"
  shows "add_cache_extent2 True t objectid start sz = Some (- EEXIST, t)"
  using insert_cache_extent_spec [OF assms(1), of "\<lparr>ce_objectid = objectid, ce_start = start, ce_size = sz\<rparr>"] assms(2-4)
  by (simp add: add_cache_extent2_def add_cache_extent'_def alloc_cache_extent_def ce_ok_def)

theorem add_cache_extent2_overlap_witness:
  "add_cache_extent2 True ex_tree 77 12 1 = Some (- EEXIST, ex_tree)"
  by (rule add_cache_extent2_overlap) (simp_all add: ex_tree_inv range_bytes_def)

text \<open>
  A search for an address finds the first extent that ends behind it, the one that covers the address
  or else the next one.
\<close>
theorem search_cache_extent_correct:
  assumes "cache_inv t" and "unat start + 1 < 2 ^ 64"
  shows "\<exists>xs ys. inorder t = xs @ ys \<and> (\<forall>x\<in>set xs. unat (ce_start x) + unat (ce_size x) \<le> unat start) \<and>
    (\<forall>y\<in>set ys. unat start < unat (ce_start y) + unat (ce_size y)) \<and>
    (case search_cache_extent t start of None \<Rightarrow> ys = [] | Some p \<Rightarrow> cur_tree p = t \<and> cur_entry p = hd ys \<and> ys \<noteq> [])"
proof -
  obtain xs ys where s: "inorder t = xs @ ys" "cur_at t xs (search_cache_extent t start)"
    "\<forall>x\<in>set xs. unat (ce_start x) + unat (ce_size x) \<le> unat start" "\<forall>y\<in>set ys. unat start < unat (ce_start y) + unat (ce_size y)"
    using search_cache_extent_spec [OF assms] by blast
  have "case search_cache_extent t start of None \<Rightarrow> ys = [] | Some p \<Rightarrow> cur_tree p = t \<and> cur_entry p = hd ys \<and> ys \<noteq> []"
    using s(1,2) inorder_cur by (fastforce simp: cur_at_def split: option.splits)
  with s show ?thesis by blast
qed

theorem search_cache_extent_correct_witness:
  "\<exists>p. search_cache_extent ex_tree 3 = Some p \<and> cur_entry p = ce 10 5"
proof -
  have "inorder ex_tree = [ce 10 5]" by (simp add: ex_tree_def)
  moreover have "unat (ce_start (ce 10 5)) + unat (ce_size (ce 10 5)) = 15" by (simp add: ce_def)
  ultimately show ?thesis
    using search_cache_extent_correct [OF ex_tree_inv(1), of 3] by (auto simp: Cons_eq_append_conv split: option.splits)
qed

text \<open>
  C28. Adding a range that overlaps nothing with \<open>add_merge_cache_extent\<close> succeeds, the tree then covers
  exactly the old bytes and the new ones, and if no two extents of the tree touched, none touch
  afterwards: the new range is merged with the neighbours on both sides. A range that overlaps an
  extent of the tree hits a \<open>BUG_ON\<close>.
\<close>
theorem add_merge_correct:
  assumes "cache_inv t" and "0 < unat sz" and "unat start + unat sz < 2 ^ 64"
  shows "if range_bytes start sz \<inter> cache_bytes t = {}
    then \<exists>t'. add_merge_cache_extent True t start sz = Some (0, t') \<and> cache_inv t' \<and>
      cache_bytes t' = cache_bytes t \<union> range_bytes start sz \<and>
      (sorted_wrt ce_gap (inorder t) \<longrightarrow> sorted_wrt ce_gap (inorder t'))
    else add_merge_cache_extent True t start sz = None"
  using add_merge_cache_extent_spec [OF assms] add_merge_cache_extent_bug [OF assms] by simp

theorem add_merge_correct_witness:
  "(\<exists>t'. add_merge_cache_extent True ex_tree 15 5 = Some (0, t') \<and> cache_bytes t' = {10..<20}) \<and>
    add_merge_cache_extent True ex_tree 12 1 = None"
proof -
  have "range_bytes 15 5 \<inter> cache_bytes ex_tree = {}" by (auto simp: range_bytes_def ex_tree_inv)
  then obtain t' where "add_merge_cache_extent True ex_tree 15 5 = Some (0, t')" "cache_bytes t' = cache_bytes ex_tree \<union> range_bytes 15 5"
    using add_merge_correct [OF ex_tree_inv(1), of 5 15] by auto
  moreover have "{10..<15} \<union> {15..<20} = {10..<20 :: nat}" by auto
  moreover have "add_merge_cache_extent True ex_tree 12 1 = None"
    using add_merge_correct [OF ex_tree_inv(1), of 1 12] by (simp add: range_bytes_def ex_tree_inv)
  ultimately show ?thesis by (simp add: ex_tree_inv range_bytes_def)
qed

section \<open>Properties of the list of unique values\<close>

text \<open>
  Adding a value that is not in the list appends it and counts it; adding one that is there returns
  0 with the stored auxiliary value and changes nothing; without memory a new value gives -ENOMEM and
  no change. The values stay distinct and the tree and the list stay in step.
\<close>
theorem ulist_add_merge_correct:
  assumes "ulist_inv u"
  shows "distinct (map ul_val (nodes u)) \<and>
    (if v \<in> ul_val ` set (nodes u)
     then \<exists>n\<in>set (nodes u). ul_val n = v \<and> ulist_add_merge mem u v aux = Some (0, Some (ul_aux n), u)
     else if mem then \<exists>u'. ulist_add_merge mem u v aux = Some (1, None, u') \<and> ulist_inv u' \<and>
       nodes u' = nodes u @ [\<lparr>ul_val = v, ul_aux = aux\<rparr>] \<and> nnodes u' = nnodes u + 1
     else ulist_add_merge mem u v aux = Some (- ENOMEM, None, u))"
  using ulist_inv_vals(1) [OF assms] ulist_add_merge_old [OF assms] ulist_add_merge_new [OF assms] ulist_add_merge_nomem [OF assms]
  by (cases mem) (fastforce, fastforce)

definition ex_ulist :: ulist where
  "ex_ulist = ulist_init \<lparr>nnodes = 0, nodes = [], ul_root = Null\<rparr>"

lemma ex_ulist_inv: "ulist_inv ex_ulist" "nodes ex_ulist = []"
  by (simp_all only: ex_ulist_def ulist_init_inv) (simp add: ulist_init_def)

theorem ulist_add_merge_correct_witness:
  "\<exists>u'. ulist_add_merge True ex_ulist 5 6 = Some (1, None, u') \<and> nodes u' = [\<lparr>ul_val = 5, ul_aux = 6\<rparr>]"
  using ulist_add_merge_correct [OF ex_ulist_inv(1), of 5 True 6] by (auto simp: ex_ulist_inv)

text \<open>
  Deleting a pair takes exactly it out of the list and the tree and returns 0; if the value is absent
  or has another auxiliary value it returns 1 and changes nothing.
\<close>
theorem ulist_del_correct:
  assumes "ulist_inv u"
  shows "if \<lparr>ul_val = v, ul_aux = aux\<rparr> \<in> set (nodes u)
    then \<exists>u'. ulist_del u v aux = Some (0, u') \<and> ulist_inv u' \<and>
      nodes u' = remove1 \<lparr>ul_val = v, ul_aux = aux\<rparr> (nodes u) \<and> nnodes u' + 1 = nnodes u
    else ulist_del u v aux = Some (1, u)"
  using assms by (rule ulist_del_spec)

theorem ulist_del_correct_witness: "ulist_del ex_ulist 5 6 = Some (1, ex_ulist)"
  using ulist_del_correct [OF ex_ulist_inv(1), of 5 6] by (simp add: ex_ulist_inv)

end
