(* ===== verification/Keys.thy ===== *)
theory Keys
  imports Prelude
begin

text \<open>
  Tree keys (\<open>struct btrfs_key\<close> and \<open>struct btrfs_disk_key\<close> of \<open>ctree.h\<close>) and
  their comparison in \<open>ctree.c\<close>. The two structures hold the same three numbers, the disk
  key in little-endian byte order; \<open>btrfs_disk_key_to_cpu\<close> and \<open>btrfs_cpu_key_to_disk\<close>
  convert one into the other without loss, so one type stands for both. The type is made an
  instance of \<open>linorder\<close>, and \<open>btrfs_comp_cpu_keys\<close> is shown to compute that order.
\<close>

datatype btrfs_key = Key (objectid: u64) (key_type: u8) (offset: u64)

definition btrfs_comp_cpu_keys :: "btrfs_key \<Rightarrow> btrfs_key \<Rightarrow> int" where
  "btrfs_comp_cpu_keys k1 k2 =
     (if objectid k1 > objectid k2 then 1
      else if objectid k1 < objectid k2 then -1
      else if key_type k1 > key_type k2 then 1
      else if key_type k1 < key_type k2 then -1
      else if offset k1 > offset k2 then 1
      else if offset k1 < offset k2 then -1
      else 0)"

definition btrfs_comp_keys :: "btrfs_key \<Rightarrow> btrfs_key \<Rightarrow> int" where
  "btrfs_comp_keys disk k2 = btrfs_comp_cpu_keys disk k2"

instantiation btrfs_key :: linorder
begin

definition less_eq_btrfs_key :: "btrfs_key \<Rightarrow> btrfs_key \<Rightarrow> bool" where
  "k1 \<le> k2 \<longleftrightarrow> objectid k1 < objectid k2 \<or>
     objectid k1 = objectid k2 \<and> (key_type k1 < key_type k2 \<or>
       key_type k1 = key_type k2 \<and> offset k1 \<le> offset k2)"

definition less_btrfs_key :: "btrfs_key \<Rightarrow> btrfs_key \<Rightarrow> bool" where
  "k1 < k2 \<longleftrightarrow> objectid k1 < objectid k2 \<or>
     objectid k1 = objectid k2 \<and> (key_type k1 < key_type k2 \<or>
       key_type k1 = key_type k2 \<and> offset k1 < offset k2)"

instance
proof
  fix x y z :: btrfs_key
  show "x < y \<longleftrightarrow> x \<le> y \<and> \<not> y \<le> x"
    by (auto simp: less_eq_btrfs_key_def less_btrfs_key_def)
  show "x \<le> x"
    by (simp add: less_eq_btrfs_key_def)
  show "x \<le> y \<Longrightarrow> y \<le> z \<Longrightarrow> x \<le> z"
    by (auto simp: less_eq_btrfs_key_def)
  show "x \<le> y \<Longrightarrow> y \<le> x \<Longrightarrow> x = y"
    by (auto simp: less_eq_btrfs_key_def intro: btrfs_key.expand)
  show "x \<le> y \<or> y \<le> x"
    by (auto simp: less_eq_btrfs_key_def)
qed

end

lemma comp_keys_sign:
  "btrfs_comp_cpu_keys k1 k2 < 0 \<longleftrightarrow> k1 < k2"
  "btrfs_comp_cpu_keys k1 k2 > 0 \<longleftrightarrow> k2 < k1"
  "btrfs_comp_cpu_keys k1 k2 = 0 \<longleftrightarrow> k1 = k2"
  by (auto simp: btrfs_comp_cpu_keys_def less_btrfs_key_def intro: btrfs_key.expand)

lemma comp_keys_simps [simp]:
  "btrfs_comp_keys k1 k2 < 0 \<longleftrightarrow> k1 < k2"
  "0 < btrfs_comp_keys k1 k2 \<longleftrightarrow> k2 < k1"
  "btrfs_comp_keys k1 k2 = 0 \<longleftrightarrow> k1 = k2"
  "0 \<le> btrfs_comp_keys k1 k2 \<longleftrightarrow> k2 \<le> k1"
  "btrfs_comp_keys k1 k2 \<le> 0 \<longleftrightarrow> k1 \<le> k2"
  using comp_keys_sign [of k1 k2] by (auto simp: btrfs_comp_keys_def simp flip: not_less)

end
