(* ===== verification/ExtentBuffer.thy ===== *)
theory ExtentBuffer
  imports Keys
begin

text \<open>
  Tree blocks: \<open>struct extent_buffer\<close> (\<open>extent_io.h\<close>), the header, item and key-pointer
  structures and their accessors (\<open>ctree.h\<close>), and the copy functions of \<open>extent_io.c\<close>.

  A block is a header followed by an array of items and a data area that grows downwards (a
  leaf), or by an array of key pointers (a node). The arrays and the data area are functions
  from an index, as an array in C has no length of its own; a data index counts from
  \<open>btrfs_leaf_data\<close>. In memory the item array and the data area share the block, and a move
  of one never reaches the other as long as the free space between them is not negative; the
  invariant of a leaf states that, and every operation is shown to keep it.

  Numbers of type \<open>u32\<close> in a block are natural numbers below \<open>2 ^ 32\<close>; their sums and
  differences wrap (\<open>u32_add\<close>, \<open>u32_sub\<close>). \<open>s32\<close> is the conversion to a C \<open>int\<close>.
\<close>

section \<open>32-bit arithmetic\<close>

definition u32_add :: "nat \<Rightarrow> nat \<Rightarrow> nat" where
  "u32_add a b = (a + b) mod 2 ^ 32"

definition u32_sub :: "nat \<Rightarrow> nat \<Rightarrow> nat" where
  "u32_sub a b = nat ((int a - int b) mod 2 ^ 32)"

definition s32 :: "int \<Rightarrow> int" where
  "s32 z = (z + 2 ^ 31) mod 2 ^ 32 - 2 ^ 31"

text \<open>The conversion of an \<open>int\<close> to an unsigned, as in a comparison of the two types.\<close>

definition u32_of :: "int \<Rightarrow> nat" where
  "u32_of z = nat (z mod 2 ^ 32)"

lemma u32_of_small [simp]: "0 \<le> z \<Longrightarrow> z < 2 ^ 32 \<Longrightarrow> u32_of z = nat z"
  by (simp add: u32_of_def)

lemma u32_add_small [simp]: "a + b < 2 ^ 32 \<Longrightarrow> u32_add a b = a + b"
  by (simp add: u32_add_def)

lemma u32_sub_small [simp]: "b \<le> a \<Longrightarrow> a < 2 ^ 32 \<Longrightarrow> u32_sub a b = a - b"
  by (simp add: u32_sub_def nat_diff_distrib')

lemma s32_small [simp]: "- (2 ^ 31) \<le> z \<Longrightarrow> z < 2 ^ 31 \<Longrightarrow> s32 z = z"
  by (simp add: s32_def)

section \<open>Blocks and their parts\<close>

record btrfs_item =
  it_key :: btrfs_key
  it_offset :: nat
  it_size :: nat

record btrfs_key_ptr =
  kp_key :: btrfs_key
  kp_blockptr :: u64
  kp_generation :: u64

record extent_buffer =
  eb_start :: u64
  eb_len :: nat
  hdr_nritems :: nat
  hdr_level :: nat
  hdr_generation :: u64
  hdr_owner :: u64
  hdr_flags :: u64
  eb_items :: "nat \<Rightarrow> btrfs_item"
  eb_data :: "nat \<Rightarrow> u8"
  eb_ptrs :: "nat \<Rightarrow> btrfs_key_ptr"

record btrfs_fs_info =
  nodesize :: nat

abbreviation sizeof_header :: nat where "sizeof_header \<equiv> 101"
abbreviation sizeof_item :: nat where "sizeof_item \<equiv> 25"
abbreviation sizeof_key_ptr :: nat where "sizeof_key_ptr \<equiv> 33"

definition BTRFS_LEAF_DATA_SIZE :: "btrfs_fs_info \<Rightarrow> nat" where
  "BTRFS_LEAF_DATA_SIZE fs = u32_sub (nodesize fs) sizeof_header"

definition BTRFS_NODEPTRS_PER_BLOCK :: "btrfs_fs_info \<Rightarrow> nat" where
  "BTRFS_NODEPTRS_PER_BLOCK fs = BTRFS_LEAF_DATA_SIZE fs div sizeof_key_ptr"

definition btrfs_item_key :: "extent_buffer \<Rightarrow> nat \<Rightarrow> btrfs_key" where
  "btrfs_item_key eb nr = it_key (eb_items eb nr)"

definition btrfs_item_offset_nr :: "extent_buffer \<Rightarrow> nat \<Rightarrow> nat" where
  "btrfs_item_offset_nr eb nr = it_offset (eb_items eb nr)"

definition btrfs_item_size_nr :: "extent_buffer \<Rightarrow> nat \<Rightarrow> nat" where
  "btrfs_item_size_nr eb nr = it_size (eb_items eb nr)"

definition btrfs_item_end_nr :: "extent_buffer \<Rightarrow> nat \<Rightarrow> nat" where
  "btrfs_item_end_nr eb nr = u32_add (btrfs_item_offset_nr eb nr) (btrfs_item_size_nr eb nr)"

definition btrfs_set_item_key :: "extent_buffer \<Rightarrow> btrfs_key \<Rightarrow> nat \<Rightarrow> extent_buffer" where
  "btrfs_set_item_key eb key nr =
     eb\<lparr>eb_items := (eb_items eb)(nr := (eb_items eb nr)\<lparr>it_key := key\<rparr>)\<rparr>"

definition btrfs_set_item_offset :: "extent_buffer \<Rightarrow> nat \<Rightarrow> nat \<Rightarrow> extent_buffer" where
  "btrfs_set_item_offset eb nr v =
     eb\<lparr>eb_items := (eb_items eb)(nr := (eb_items eb nr)\<lparr>it_offset := v\<rparr>)\<rparr>"

definition btrfs_set_item_size :: "extent_buffer \<Rightarrow> nat \<Rightarrow> nat \<Rightarrow> extent_buffer" where
  "btrfs_set_item_size eb nr v =
     eb\<lparr>eb_items := (eb_items eb)(nr := (eb_items eb nr)\<lparr>it_size := v\<rparr>)\<rparr>"

definition btrfs_node_key :: "extent_buffer \<Rightarrow> nat \<Rightarrow> btrfs_key" where
  "btrfs_node_key eb nr = kp_key (eb_ptrs eb nr)"

definition btrfs_node_blockptr :: "extent_buffer \<Rightarrow> nat \<Rightarrow> u64" where
  "btrfs_node_blockptr eb nr = kp_blockptr (eb_ptrs eb nr)"

definition btrfs_node_ptr_generation :: "extent_buffer \<Rightarrow> nat \<Rightarrow> u64" where
  "btrfs_node_ptr_generation eb nr = kp_generation (eb_ptrs eb nr)"

definition btrfs_set_node_key :: "extent_buffer \<Rightarrow> btrfs_key \<Rightarrow> nat \<Rightarrow> extent_buffer" where
  "btrfs_set_node_key eb key nr =
     eb\<lparr>eb_ptrs := (eb_ptrs eb)(nr := (eb_ptrs eb nr)\<lparr>kp_key := key\<rparr>)\<rparr>"

definition btrfs_set_node_blockptr :: "extent_buffer \<Rightarrow> nat \<Rightarrow> u64 \<Rightarrow> extent_buffer" where
  "btrfs_set_node_blockptr eb nr v =
     eb\<lparr>eb_ptrs := (eb_ptrs eb)(nr := (eb_ptrs eb nr)\<lparr>kp_blockptr := v\<rparr>)\<rparr>"

definition btrfs_set_node_ptr_generation :: "extent_buffer \<Rightarrow> nat \<Rightarrow> u64 \<Rightarrow> extent_buffer" where
  "btrfs_set_node_ptr_generation eb nr v =
     eb\<lparr>eb_ptrs := (eb_ptrs eb)(nr := (eb_ptrs eb nr)\<lparr>kp_generation := v\<rparr>)\<rparr>"

section \<open>Copies\<close>

text \<open>
  \<open>memmove\<close> within an array and \<open>memcpy\<close> between two arrays, on \<open>n\<close> elements. The
  copies of \<open>extent_io.c\<close> are used by the tree code with byte offsets and lengths that are
  multiples of the element size of the array they address.
\<close>

definition mem_copy :: "(nat \<Rightarrow> 'a) \<Rightarrow> (nat \<Rightarrow> 'a) \<Rightarrow> nat \<Rightarrow> nat \<Rightarrow> nat \<Rightarrow> nat \<Rightarrow> 'a" where
  "mem_copy to from dst src n = (\<lambda>i. if dst \<le> i \<and> i < dst + n then from (src + (i - dst)) else to i)"

definition memmove_items :: "extent_buffer \<Rightarrow> nat \<Rightarrow> nat \<Rightarrow> nat \<Rightarrow> extent_buffer" where
  "memmove_items eb dst src n = eb\<lparr>eb_items := mem_copy (eb_items eb) (eb_items eb) dst src n\<rparr>"

definition memmove_data :: "extent_buffer \<Rightarrow> nat \<Rightarrow> nat \<Rightarrow> nat \<Rightarrow> extent_buffer" where
  "memmove_data eb dst src n = eb\<lparr>eb_data := mem_copy (eb_data eb) (eb_data eb) dst src n\<rparr>"

definition memmove_ptrs :: "extent_buffer \<Rightarrow> nat \<Rightarrow> nat \<Rightarrow> nat \<Rightarrow> extent_buffer" where
  "memmove_ptrs eb dst src n = eb\<lparr>eb_ptrs := mem_copy (eb_ptrs eb) (eb_ptrs eb) dst src n\<rparr>"

definition copy_items :: "extent_buffer \<Rightarrow> extent_buffer \<Rightarrow> nat \<Rightarrow> nat \<Rightarrow> nat \<Rightarrow> extent_buffer" where
  "copy_items dst_eb src_eb dst src n =
     dst_eb\<lparr>eb_items := mem_copy (eb_items dst_eb) (eb_items src_eb) dst src n\<rparr>"

definition copy_data :: "extent_buffer \<Rightarrow> extent_buffer \<Rightarrow> nat \<Rightarrow> nat \<Rightarrow> nat \<Rightarrow> extent_buffer" where
  "copy_data dst_eb src_eb dst src n =
     dst_eb\<lparr>eb_data := mem_copy (eb_data dst_eb) (eb_data src_eb) dst src n\<rparr>"

definition copy_ptrs :: "extent_buffer \<Rightarrow> extent_buffer \<Rightarrow> nat \<Rightarrow> nat \<Rightarrow> nat \<Rightarrow> extent_buffer" where
  "copy_ptrs dst_eb src_eb dst src n =
     dst_eb\<lparr>eb_ptrs := mem_copy (eb_ptrs dst_eb) (eb_ptrs src_eb) dst src n\<rparr>"

text \<open>\<open>write_extent_buffer\<close> and \<open>read_extent_buffer\<close> on the data area of a leaf.\<close>

definition write_data :: "extent_buffer \<Rightarrow> u8 list \<Rightarrow> nat \<Rightarrow> extent_buffer" where
  "write_data eb bs dst = eb\<lparr>eb_data := mem_copy (eb_data eb) (\<lambda>i. bs ! i) dst 0 (length bs)\<rparr>"

definition read_data :: "extent_buffer \<Rightarrow> nat \<Rightarrow> nat \<Rightarrow> u8 list" where
  "read_data eb src n = map (\<lambda>i. eb_data eb (src + i)) [0..<n]"

named_theorems eb_simps \<open>field equations of the accessors and copies\<close>

lemmas eb_defs [eb_simps] =
  btrfs_item_key_def btrfs_item_offset_nr_def btrfs_item_size_nr_def btrfs_item_end_nr_def
  btrfs_set_item_key_def btrfs_set_item_offset_def btrfs_set_item_size_def
  memmove_items_def memmove_data_def copy_items_def copy_data_def write_data_def read_data_def

lemmas node_defs =
  btrfs_node_key_def btrfs_node_blockptr_def btrfs_node_ptr_generation_def btrfs_set_node_key_def
  btrfs_set_node_blockptr_def btrfs_set_node_ptr_generation_def memmove_ptrs_def copy_ptrs_def

lemma mem_copy_in: "k < n \<Longrightarrow> mem_copy to from dst src n (dst + k) = from (src + k)"
  by (simp add: mem_copy_def)

lemma mem_copy_out: "i < dst \<or> dst + n \<le> i \<Longrightarrow> mem_copy to from dst src n i = to i"
  by (auto simp: mem_copy_def)

text \<open>The loops that add a constant to the data offsets of the items \<open>a\<close>, ..., \<open>b - 1\<close>.\<close>

definition shift_offsets :: "extent_buffer \<Rightarrow> nat \<Rightarrow> nat \<Rightarrow> (nat \<Rightarrow> nat) \<Rightarrow> extent_buffer" where
  "shift_offsets eb a b f =
     fold (\<lambda>i eb. btrfs_set_item_offset eb i (f (btrfs_item_offset_nr eb i))) [a..<b] eb"

lemma shift_offsets_items:
  "shift_offsets eb a b f =
     eb\<lparr>eb_items := (\<lambda>i. if a \<le> i \<and> i < b
                       then (eb_items eb i)\<lparr>it_offset := f (it_offset (eb_items eb i))\<rparr> else eb_items eb i)\<rparr>"
proof (induction b)
  case 0
  show ?case by (simp add: shift_offsets_def)
next
  case (Suc b)
  show ?case
  proof (cases "a \<le> b")
    case True
    then have "shift_offsets eb a (Suc b) f =
        btrfs_set_item_offset (shift_offsets eb a b f) b (f (btrfs_item_offset_nr (shift_offsets eb a b f) b))"
      by (simp add: shift_offsets_def)
    with True show ?thesis
      by (auto simp: Suc eb_simps fun_eq_iff less_Suc_eq intro!: extent_buffer.equality)
  next
    case False
    then show ?thesis
      by (auto simp: shift_offsets_def intro!: extent_buffer.equality)
  qed
qed

end
