(* ===== verification/Leaf.thy ===== *)
theory Leaf
  imports ExtentBuffer
begin

text \<open>
  Leaves of the B-tree (\<open>ctree.c\<close>): the space accounting and the operations
  that insert, delete, grow, shrink and split items inside one leaf and that move items between
  two leaves. The functions take the leaf and the slot that the C code reads from
  \<open>path->nodes[0]\<close> and \<open>path->slots[0]\<close>; a \<open>BUG\<close> is \<open>None\<close>.

  The theory \<open>LeafItems\<close> says what a leaf stores and proves the operations against it.
\<close>

section \<open>Space accounting\<close>

definition leaf_data_end :: "btrfs_fs_info \<Rightarrow> extent_buffer \<Rightarrow> nat" where
  "leaf_data_end fs leaf =
     (if hdr_nritems leaf = 0 then BTRFS_LEAF_DATA_SIZE fs
      else btrfs_item_offset_nr leaf (hdr_nritems leaf - 1))"

definition leaf_space_used :: "extent_buffer \<Rightarrow> nat \<Rightarrow> nat \<Rightarrow> int" where
  "leaf_space_used l start nr =
     (let nritems = hdr_nritems l;
          last = min nritems (start + nr) - 1
      in if nr = 0 then 0
         else s32 (s32 (int (btrfs_item_end_nr l start) - int (btrfs_item_offset_nr l last))
                   + int (sizeof_item * nr)))"

definition btrfs_leaf_free_space :: "btrfs_fs_info \<Rightarrow> extent_buffer \<Rightarrow> int" where
  "btrfs_leaf_free_space fs leaf =
     s32 (int (BTRFS_LEAF_DATA_SIZE fs) - leaf_space_used leaf 0 (hdr_nritems leaf))"

section \<open>Operations on the items of a leaf\<close>

text \<open>
  \<open>btrfs_insert_empty_items\<close> once the search has found the slot and made room: the loop
  bodies set up the items \<open>slot\<close>, ..., \<open>slot + nr - 1\<close>.
\<close>

fun setup_new_items :: "extent_buffer \<Rightarrow> nat \<Rightarrow> (btrfs_key \<times> nat) list \<Rightarrow> nat \<Rightarrow> extent_buffer" where
  "setup_new_items leaf slot [] data_end = leaf"
| "setup_new_items leaf slot ((key, data_size) # new) data_end =
     (let leaf1 = btrfs_set_item_key leaf key slot;
          leaf2 = btrfs_set_item_offset leaf1 slot (u32_sub data_end data_size);
          leaf3 = btrfs_set_item_size leaf2 slot data_size
      in setup_new_items leaf3 (Suc slot) new (u32_sub data_end data_size))"

definition insert_empty_items :: "btrfs_fs_info \<Rightarrow> extent_buffer \<Rightarrow> nat \<Rightarrow> (btrfs_key \<times> nat) list \<Rightarrow> extent_buffer option" where
  "insert_empty_items fs leaf slot new =
     (let nr = length new;
          total_data = fold (\<lambda>(_, sz) t. u32_add t sz) new 0;
          total_size = u32_add total_data (nr * sizeof_item);
          nritems = hdr_nritems leaf;
          data_end = leaf_data_end fs leaf
      in if u32_of (btrfs_leaf_free_space fs leaf) < total_size then None
         else
           (let old_data = btrfs_item_end_nr leaf slot in
            if slot < nritems \<and> old_data < data_end then None
            else
              let (leaf1, data_end1) =
                    (if slot < nritems then
                       (let l1 = shift_offsets leaf slot nritems (\<lambda>ioff. u32_sub ioff total_data);
                            l2 = memmove_items l1 (slot + nr) slot (nritems - slot);
                            l3 = memmove_data l2 (u32_sub data_end total_data) data_end (u32_sub old_data data_end)
                        in (l3, old_data))
                     else (leaf, data_end));
                  leaf2 = setup_new_items leaf1 slot new data_end1;
                  leaf3 = leaf2\<lparr>hdr_nritems := nritems + nr\<rparr>
              in if btrfs_leaf_free_space fs leaf3 < 0 then None else Some leaf3))"

text \<open>\<open>btrfs_insert_item\<close> on the leaf: one new item, then its data is written.\<close>

definition insert_item :: "btrfs_fs_info \<Rightarrow> extent_buffer \<Rightarrow> nat \<Rightarrow> btrfs_key \<Rightarrow> u8 list \<Rightarrow> extent_buffer option" where
  "insert_item fs leaf slot key bytes =
     map_option (\<lambda>leaf'. write_data leaf' bytes (btrfs_item_offset_nr leaf' slot))
       (insert_empty_items fs leaf slot [(key, length bytes)])"

text \<open>
  \<open>btrfs_del_items\<close> up to the point where the leaf may be removed or merged. A \<open>memmove\<close>
  whose length is negative is a crash.
\<close>

definition del_items :: "btrfs_fs_info \<Rightarrow> extent_buffer \<Rightarrow> nat \<Rightarrow> nat \<Rightarrow> extent_buffer option" where
  "del_items fs leaf slot nr =
     (let last_off = btrfs_item_offset_nr leaf (slot + nr - 1);
          dsize = fold (\<lambda>i d. d + btrfs_item_size_nr leaf (slot + i)) [0..<nr] 0;
          nritems = hdr_nritems leaf
      in if slot + nr \<noteq> nritems then
           let data_end = leaf_data_end fs leaf in
           if last_off < data_end \<or> nritems < slot + nr then None
           else
             let l1 = memmove_data leaf (data_end + dsize) data_end (last_off - data_end);
                 l2 = shift_offsets l1 (slot + nr) nritems (\<lambda>ioff. u32_add ioff dsize);
                 l3 = memmove_items l2 slot (slot + nr) (nritems - slot - nr)
             in Some (l3\<lparr>hdr_nritems := nritems - nr\<rparr>)
         else Some (leaf\<lparr>hdr_nritems := nritems - nr\<rparr>))"

definition btrfs_extend_item :: "btrfs_fs_info \<Rightarrow> extent_buffer \<Rightarrow> nat \<Rightarrow> nat \<Rightarrow> extent_buffer option" where
  "btrfs_extend_item fs leaf slot data_size =
     (let nritems = hdr_nritems leaf;
          data_end = leaf_data_end fs leaf
      in if u32_of (btrfs_leaf_free_space fs leaf) < data_size then None
         else
           let old_data = btrfs_item_end_nr leaf slot in
           if slot \<ge> nritems then None
           else
             let l1 = shift_offsets leaf slot nritems (\<lambda>ioff. u32_sub ioff data_size);
                 l2 = memmove_data l1 (u32_sub data_end data_size) data_end (u32_sub old_data data_end);
                 old_size = btrfs_item_size_nr l2 slot;
                 l3 = btrfs_set_item_size l2 slot (u32_add old_size data_size)
             in if btrfs_leaf_free_space fs l3 < 0 then None else Some l3)"

abbreviation BTRFS_EXTENT_DATA_KEY :: u8 where "BTRFS_EXTENT_DATA_KEY \<equiv> 108"
abbreviation BTRFS_FILE_EXTENT_INLINE :: u8 where "BTRFS_FILE_EXTENT_INLINE \<equiv> 0"

text \<open>
  \<open>btrfs_truncate_item\<close>. In \<open>struct btrfs_file_extent_item\<close> the type is the byte at
  offset 20 and \<open>disk_bytenr\<close> starts at offset 21. The fixup of the low keys of the parents
  belongs to the path and is not part of this function.
\<close>

definition btrfs_truncate_item :: "btrfs_fs_info \<Rightarrow> extent_buffer \<Rightarrow> nat \<Rightarrow> nat \<Rightarrow> bool \<Rightarrow> extent_buffer option" where
  "btrfs_truncate_item fs leaf slot new_size from_end =
     (let old_size = btrfs_item_size_nr leaf slot in
      if old_size = new_size then Some leaf
      else
        let nritems = hdr_nritems leaf;
            data_end = leaf_data_end fs leaf;
            old_data_start = btrfs_item_offset_nr leaf slot;
            size_diff = u32_sub old_size new_size
        in if slot \<ge> nritems then None
           else
             let l1 = shift_offsets leaf slot nritems (\<lambda>ioff. u32_add ioff size_diff);
                 l2 =
                   (if from_end then
                      memmove_data l1 (u32_add data_end size_diff) data_end
                        (u32_sub (u32_add old_data_start new_size) data_end)
                    else
                      let key = btrfs_item_key l1 slot;
                          ptr = btrfs_item_offset_nr l1 slot;
                          fi = u32_sub ptr size_diff;
                          m1 = (if key_type key = BTRFS_EXTENT_DATA_KEY \<and>
                                   eb_data l1 (fi + 20) = BTRFS_FILE_EXTENT_INLINE
                                then memmove_data l1 ptr fi 21 else l1);
                          m2 = memmove_data m1 (u32_add data_end size_diff) data_end
                                 (u32_sub old_data_start data_end)
                      in btrfs_set_item_key m2
                           (Key (objectid key) (key_type key) (offset key + of_nat size_diff)) slot);
                 l3 = btrfs_set_item_size l2 slot new_size
             in if btrfs_leaf_free_space fs l3 < 0 then None else Some l3)"

text \<open>\<open>btrfs_split_item\<close> from the label \<open>split\<close> on.\<close>

definition split_item :: "btrfs_fs_info \<Rightarrow> extent_buffer \<Rightarrow> nat \<Rightarrow> btrfs_key \<Rightarrow> nat \<Rightarrow> extent_buffer option" where
  "split_item fs leaf old_slot new_key split_offset =
     (let orig_offset = btrfs_item_offset_nr leaf old_slot;
          item_size = btrfs_item_size_nr leaf old_slot;
          buf = read_data leaf orig_offset item_size;
          slot = old_slot + 1;
          nritems = hdr_nritems leaf;
          l1 = (if slot < nritems then memmove_items leaf (slot + 1) slot (nritems - slot) else leaf);
          l2 = btrfs_set_item_key l1 new_key slot;
          l3 = btrfs_set_item_offset l2 slot orig_offset;
          l4 = btrfs_set_item_size l3 slot (u32_sub item_size split_offset);
          l5 = btrfs_set_item_offset l4 old_slot (u32_sub (u32_add orig_offset item_size) split_offset);
          l6 = btrfs_set_item_size l5 old_slot split_offset;
          l7 = l6\<lparr>hdr_nritems := nritems + 1\<rparr>;
          l8 = write_data l7 (take split_offset buf) (btrfs_item_offset_nr l7 old_slot);
          l9 = write_data l8 (drop split_offset buf) (btrfs_item_offset_nr l8 slot)
      in if btrfs_leaf_free_space fs l9 < 0 then None else Some l9)"

section \<open>Moving items between leaves\<close>

text \<open>
  The loops that recompute the offsets of all items of a leaf from their sizes
  (\<open>push_leaf_right\<close>, \<open>push_leaf_left\<close>).
\<close>

fun reset_offsets :: "extent_buffer \<Rightarrow> nat \<Rightarrow> nat \<Rightarrow> nat \<Rightarrow> extent_buffer" where
  "reset_offsets eb i 0 push_space = eb"
| "reset_offsets eb i (Suc n) push_space =
     (let ps = u32_sub push_space (btrfs_item_size_nr eb i)
      in reset_offsets (btrfs_set_item_offset eb i ps) (Suc i) n ps)"

text \<open>
  The part of \<open>push_leaf_right\<close> that moves the last \<open>push_items\<close> items of \<open>left\<close>
  to the front of \<open>right\<close>, after the loop that counts them.
\<close>

definition push_right_items :: "btrfs_fs_info \<Rightarrow> extent_buffer \<Rightarrow> extent_buffer \<Rightarrow> nat \<Rightarrow> extent_buffer \<times> extent_buffer" where
  "push_right_items fs left right push_items =
     (let left_nritems = hdr_nritems left;
          right_nritems = hdr_nritems right;
          L = BTRFS_LEAF_DATA_SIZE fs;
          push_space = u32_sub (btrfs_item_end_nr left (left_nritems - push_items)) (leaf_data_end fs left);
          data_end = leaf_data_end fs right;
          r1 = memmove_data right (u32_sub data_end push_space) data_end (u32_sub L data_end);
          r2 = copy_data r1 left (u32_sub L push_space) (leaf_data_end fs left) push_space;
          r3 = memmove_items r2 push_items 0 right_nritems;
          r4 = copy_items r3 left 0 (left_nritems - push_items) push_items;
          r5 = r4\<lparr>hdr_nritems := right_nritems + push_items\<rparr>;
          r6 = reset_offsets r5 0 (right_nritems + push_items) L
      in (left\<lparr>hdr_nritems := left_nritems - push_items\<rparr>, r6))"

text \<open>The part of \<open>push_leaf_left\<close> that moves the first \<open>push_items\<close> items of \<open>right\<close>.\<close>

definition push_left_items :: "btrfs_fs_info \<Rightarrow> extent_buffer \<Rightarrow> extent_buffer \<Rightarrow> nat \<Rightarrow> (extent_buffer \<times> extent_buffer) option" where
  "push_left_items fs left right push_items =
     (let L = BTRFS_LEAF_DATA_SIZE fs;
          right_nritems = hdr_nritems right;
          l1 = copy_items left right (hdr_nritems left) 0 push_items;
          push_space = u32_sub L (btrfs_item_offset_nr right (push_items - 1));
          l2 = copy_data l1 right (u32_sub (leaf_data_end fs l1) push_space)
                 (btrfs_item_offset_nr right (push_items - 1)) push_space;
          old_left_nritems = hdr_nritems l2
      in if old_left_nritems = 0 then None
         else
           let old_left_item_size = btrfs_item_offset_nr l2 (old_left_nritems - 1);
               l3 = shift_offsets l2 old_left_nritems (old_left_nritems + push_items)
                      (\<lambda>ioff. u32_sub ioff (u32_sub L old_left_item_size));
               l4 = l3\<lparr>hdr_nritems := old_left_nritems + push_items\<rparr>;
               r1 = (if push_items < right_nritems then
                       (let ps = u32_sub (btrfs_item_offset_nr right (push_items - 1)) (leaf_data_end fs right);
                            s1 = memmove_data right (u32_sub L ps) (leaf_data_end fs right) ps
                        in memmove_items s1 0 push_items (hdr_nritems s1 - push_items))
                     else right);
               r2 = r1\<lparr>hdr_nritems := right_nritems - push_items\<rparr>;
               r3 = reset_offsets r2 0 (right_nritems - push_items) L
           in Some (l4, r3))"

text \<open>\<open>copy_for_split\<close> up to the insertion of the pointer to the new leaf.\<close>

definition copy_for_split_items :: "btrfs_fs_info \<Rightarrow> extent_buffer \<Rightarrow> extent_buffer \<Rightarrow> nat \<Rightarrow> nat \<Rightarrow> extent_buffer \<times> extent_buffer" where
  "copy_for_split_items fs l right mid nritems =
     (let n = nritems - mid;
          L = BTRFS_LEAF_DATA_SIZE fs;
          r1 = right\<lparr>hdr_nritems := n\<rparr>;
          data_copy_size = u32_sub (btrfs_item_end_nr l mid) (leaf_data_end fs l);
          r2 = copy_items r1 l 0 mid n;
          r3 = copy_data r2 l (u32_sub L data_copy_size) (leaf_data_end fs l) data_copy_size;
          rt_data_off = u32_sub L (btrfs_item_end_nr l mid);
          r4 = shift_offsets r3 0 n (\<lambda>ioff. u32_add ioff rt_data_off)
      in (l\<lparr>hdr_nritems := mid\<rparr>, r4))"

end
