(* ===== verification/LeafItems.thy ===== *)
theory LeafItems
  imports Leaf
begin

text \<open>
  What a leaf stores: \<open>leaf_items\<close> is the sequence of its keys with their bytes. The layout
  invariant \<open>leaf_layout\<close> is kept by every operation of \<open>Leaf\<close>, and each operation acts
  on \<open>leaf_items\<close> as a list operation. The proofs go through \<open>items_at\<close>, the statement
  that a stretch of the item array and the data below an offset hold a given list: a leaf after an
  operation is a sequence of stretches, each of which is a stretch of an old leaf moved elsewhere
  (\<open>items_at_transfer\<close>).
\<close>

section \<open>Contents and layout\<close>

definition item_bytes :: "extent_buffer \<Rightarrow> nat \<Rightarrow> u8 list" where
  "item_bytes leaf i = read_data leaf (it_offset (eb_items leaf i)) (it_size (eb_items leaf i))"

definition leaf_items :: "extent_buffer \<Rightarrow> (btrfs_key \<times> u8 list) list" where
  "leaf_items leaf = map (\<lambda>i. (it_key (eb_items leaf i), item_bytes leaf i)) [0..<hdr_nritems leaf]"

text \<open>
  The layout: the data of the items are adjacent, the first ending at the end of the data area,
  and the item array and the data do not overlap (a byte index of the data area is also a byte
  index relative to the start of the item array). Node sizes are at most 64 KiB.
\<close>

definition fs_ok :: "btrfs_fs_info \<Rightarrow> bool" where
  "fs_ok fs \<longleftrightarrow> sizeof_header \<le> nodesize fs \<and> nodesize fs \<le> 65536"

definition data_limit :: "btrfs_fs_info \<Rightarrow> extent_buffer \<Rightarrow> nat \<Rightarrow> nat" where
  "data_limit fs leaf i = (if i = 0 then BTRFS_LEAF_DATA_SIZE fs else it_offset (eb_items leaf (i - 1)))"

definition leaf_layout :: "btrfs_fs_info \<Rightarrow> extent_buffer \<Rightarrow> bool" where
  "leaf_layout fs leaf \<longleftrightarrow>
     (\<forall>i<hdr_nritems leaf. it_offset (eb_items leaf i) + it_size (eb_items leaf i) = data_limit fs leaf i) \<and>
     sizeof_item * hdr_nritems leaf \<le> data_limit fs leaf (hdr_nritems leaf)"

definition leaf_inv :: "btrfs_fs_info \<Rightarrow> extent_buffer \<Rightarrow> bool" where
  "leaf_inv fs leaf \<longleftrightarrow> hdr_level leaf = 0 \<and> leaf_layout fs leaf \<and> sorted_wrt (<) (map fst (leaf_items leaf))"

section \<open>Stretches of items\<close>

definition data_len :: "(btrfs_key \<times> u8 list) list \<Rightarrow> nat" where
  "data_len xs = sum_list (map (length \<circ> snd) xs)"

lemma data_len_simps [simp]:
  "data_len [] = 0" "data_len (x # xs) = length (snd x) + data_len xs"
  "data_len (xs @ ys) = data_len xs + data_len ys"
  by (simp_all add: data_len_def)

fun items_at :: "(nat \<Rightarrow> btrfs_item) \<Rightarrow> (nat \<Rightarrow> u8) \<Rightarrow> nat \<Rightarrow> nat \<Rightarrow> (btrfs_key \<times> u8 list) list \<Rightarrow> bool" where
  "items_at it d i tp [] \<longleftrightarrow> True"
| "items_at it d i tp ((k, b) # xs) \<longleftrightarrow>
     length b \<le> tp \<and> it i = \<lparr>it_key = k, it_offset = tp - length b, it_size = length b\<rparr> \<and>
     (\<forall>j<length b. d (tp - length b + j) = b ! j) \<and> items_at it d (Suc i) (tp - length b) xs"

lemma items_at_append [simp]:
  "items_at it d i tp (xs @ ys) \<longleftrightarrow>
     items_at it d i tp xs \<and> items_at it d (i + length xs) (tp - data_len xs) ys"
  by (induction xs arbitrary: i tp) (auto simp: add.commute)

lemma items_at_len: "items_at it d i tp xs \<Longrightarrow> data_len xs \<le> tp"
proof (induction xs arbitrary: i tp)
  case (Cons x xs)
  from Cons.IH [of "Suc i" "tp - length (snd x)"] Cons.prems show ?case
    by (cases x) auto
qed simp

lemma items_at_transfer:
  assumes "items_at it d i tp xs" and "data_len xs \<le> tp'"
    and "\<And>j. j < length xs \<Longrightarrow> it_key (it' (i' + j)) = it_key (it (i + j)) \<and>
           it_size (it' (i' + j)) = it_size (it (i + j)) \<and>
           it_offset (it' (i' + j)) + tp = it_offset (it (i + j)) + tp'"
    and "\<And>k. k < data_len xs \<Longrightarrow> d' (tp' - data_len xs + k) = d (tp - data_len xs + k)"
  shows "items_at it' d' i' tp' xs"
  using assms
proof (induction xs arbitrary: i i' tp tp')
  case (Cons x xs)
  obtain k b where x: "x = (k, b)" by (cases x)
  note p = Cons.prems [unfolded x]
  have le: "length b \<le> tp" "length b \<le> tp'" "data_len xs \<le> tp - length b" "data_len xs \<le> tp' - length b"
    using p items_at_len [of it d "Suc i" "tp - length b" xs] by auto
  have hd: "it' i' = \<lparr>it_key = k, it_offset = tp' - length b, it_size = length b\<rparr>"
    using p(1) p(3) [of 0] le by (intro btrfs_item.equality) auto
  have bytes: "d' (tp' - length b + j) = b ! j" if "j < length b" for j
    using p(4) [of "data_len xs + j"] p(1) that le by (auto simp: algebra_simps)
  have "items_at it' d' (Suc i') (tp' - length b) xs"
  proof (rule Cons.IH)
    show "items_at it d (Suc i) (tp - length b) xs" using p(1) by simp
    show "data_len xs \<le> tp' - length b" by (rule le)
    show "it_key (it' (Suc i' + j)) = it_key (it (Suc i + j)) \<and>
           it_size (it' (Suc i' + j)) = it_size (it (Suc i + j)) \<and>
           it_offset (it' (Suc i' + j)) + (tp - length b) = it_offset (it (Suc i + j)) + (tp' - length b)"
      if "j < length xs" for j
      using p(3) [of "Suc j"] that le by auto
    show "d' (tp' - length b - data_len xs + k) = d (tp - length b - data_len xs + k)"
      if "k < data_len xs" for k
      using p(4) [of k] that by simp
  qed
  with hd bytes le show ?case by (simp add: x)
qed simp

lemma items_at_nth:
  assumes "items_at it d i tp xs" and "j < length xs"
  shows "it_offset (it (i + j)) = tp - data_len (take (Suc j) xs)"
    and "it_size (it (i + j)) = length (snd (xs ! j))"
    and "it_key (it (i + j)) = fst (xs ! j)"
  using assms
proof (induction xs arbitrary: i j tp)
  case (Cons x xs)
  {
    case 1
    with Cons.IH(1) [of "Suc i" "tp - length (snd x)" "j - 1"] show ?case
      by (cases x; cases j) auto
  next
    case 2
    with Cons.IH(2) [of "Suc i" "tp - length (snd x)" "j - 1"] show ?case
      by (cases x; cases j) auto
  next
    case 3
    with Cons.IH(3) [of "Suc i" "tp - length (snd x)" "j - 1"] show ?case
      by (cases x; cases j) auto
  }
qed simp_all

text \<open>A leaf holds a list when its item array and data hold it from the first item on.\<close>

definition leaf_repr :: "btrfs_fs_info \<Rightarrow> extent_buffer \<Rightarrow> (btrfs_key \<times> u8 list) list \<Rightarrow> bool" where
  "leaf_repr fs leaf xs \<longleftrightarrow>
     hdr_nritems leaf = length xs \<and>
     items_at (eb_items leaf) (eb_data leaf) 0 (BTRFS_LEAF_DATA_SIZE fs) xs \<and>
     sizeof_item * length xs + data_len xs \<le> BTRFS_LEAF_DATA_SIZE fs"

definition stretch :: "extent_buffer \<Rightarrow> nat \<Rightarrow> nat \<Rightarrow> (btrfs_key \<times> u8 list) list" where
  "stretch leaf i n = map (\<lambda>j. (it_key (eb_items leaf j), item_bytes leaf j)) [i..<i + n]"

lemma length_stretch [simp]: "length (stretch leaf i n) = n"
  by (simp add: stretch_def)

lemma stretch_items_at:
  assumes "\<And>j. j < n \<Longrightarrow> it_offset (eb_items leaf (i + j)) + it_size (eb_items leaf (i + j)) =
             (if j = 0 then tp else it_offset (eb_items leaf (i + j - 1)))"
  shows "items_at (eb_items leaf) (eb_data leaf) i tp (stretch leaf i n) \<and>
         (n > 0 \<longrightarrow> it_offset (eb_items leaf (i + n - 1)) = tp - data_len (stretch leaf i n))"
  using assms
proof (induction n)
  case (Suc n)
  let ?it = "eb_items leaf (i + n)"
  have sz: "stretch leaf i (Suc n) = stretch leaf i n @ [(it_key ?it, item_bytes leaf (i + n))]"
    by (simp add: stretch_def)
  have IH: "items_at (eb_items leaf) (eb_data leaf) i tp (stretch leaf i n)"
    "n > 0 \<Longrightarrow> it_offset (eb_items leaf (i + n - 1)) = tp - data_len (stretch leaf i n)"
    using Suc by auto
  have lim: "it_offset ?it + it_size ?it = tp - data_len (stretch leaf i n)"
    using Suc.prems [of n] IH(2) by (cases n) (auto simp: stretch_def)
  have "?it = \<lparr>it_key = it_key ?it, it_offset = it_offset ?it, it_size = it_size ?it\<rparr>"
    by simp
  moreover have "it_offset ?it = tp - (data_len (stretch leaf i n) + it_size ?it)"
    using lim by simp
  ultimately show ?case
    using IH(1) unfolding sz by (auto simp: item_bytes_def read_data_def simp flip: lim)
qed (simp add: stretch_def)

lemma items_at_unique:
  "items_at it d i tp xs \<Longrightarrow> items_at it d i tp ys \<Longrightarrow> length xs = length ys \<Longrightarrow> xs = ys"
proof (induction xs arbitrary: i tp ys)
  case (Cons x xs)
  from Cons.prems obtain y ys' where ys: "ys = y # ys'" by (cases ys) auto
  with Cons.prems have "snd x = snd y" by (cases x; cases y) (auto simp: list_eq_iff_nth_eq)
  moreover have "fst x = fst y" using Cons.prems ys by (cases x; cases y) auto
  ultimately show ?case
    using Cons.IH [of "Suc i" "tp - length (snd y)" ys'] Cons.prems
    by (cases x; cases y) (auto simp: ys)
qed simp

lemma leaf_layout_repr: "leaf_layout fs leaf \<Longrightarrow> leaf_repr fs leaf (leaf_items leaf)"
proof -
  assume lay: "leaf_layout fs leaf"
  let ?n = "hdr_nritems leaf" and ?L = "BTRFS_LEAF_DATA_SIZE fs"
  have st: "stretch leaf 0 ?n = leaf_items leaf" by (simp add: stretch_def leaf_items_def)
  have at: "items_at (eb_items leaf) (eb_data leaf) 0 ?L (stretch leaf 0 ?n) \<and>
         (?n > 0 \<longrightarrow> it_offset (eb_items leaf (0 + ?n - 1)) = ?L - data_len (stretch leaf 0 ?n))"
    by (rule stretch_items_at) (use lay in \<open>simp add: leaf_layout_def data_limit_def\<close>)
  moreover have "data_len (stretch leaf 0 ?n) \<le> ?L" using at by (blast dest: items_at_len)
  ultimately show ?thesis
    using lay by (cases "?n = 0") (auto simp: leaf_repr_def leaf_layout_def data_limit_def st leaf_items_def)
qed

lemma leaf_reprD:
  assumes "leaf_repr fs leaf xs"
  shows "leaf_layout fs leaf" and "leaf_items leaf = xs"
proof -
  let ?L = "BTRFS_LEAF_DATA_SIZE fs"
  from assms have n: "hdr_nritems leaf = length xs"
    and at: "items_at (eb_items leaf) (eb_data leaf) 0 ?L xs"
    and le: "sizeof_item * length xs + data_len xs \<le> ?L"
    by (auto simp: leaf_repr_def)
  have off: "it_offset (eb_items leaf j) = ?L - data_len (take (Suc j) xs)"
    "it_size (eb_items leaf j) = length (snd (xs ! j))" if "j < length xs" for j
    using items_at_nth [OF at that] by auto
  have lim: "data_limit fs leaf j = ?L - data_len (take j xs)" if "j \<le> length xs" for j
    using that off [of "j - 1"] by (cases j) (auto simp: data_limit_def)
  have tk: "data_len (take (Suc j) xs) = data_len (take j xs) + length (snd (xs ! j))" if "j < length xs" for j
    using that by (simp add: take_Suc_conv_app_nth)
  have bnd: "data_len (take j xs) \<le> ?L" for j
    using at le by (metis append_take_drop_id data_len_simps(3) le_add1 le_trans items_at_len)
  show lay: "leaf_layout fs leaf"
    unfolding leaf_layout_def n
  proof (intro conjI allI impI)
    fix i assume "i < length xs"
    then show "it_offset (eb_items leaf i) + it_size (eb_items leaf i) = data_limit fs leaf i"
      using bnd [of "Suc i"] by (simp add: off lim tk)
  qed (use le lim [of "length xs"] in simp)
  have "leaf_repr fs leaf (leaf_items leaf)" by (rule leaf_layout_repr [OF lay])
  with n at show "leaf_items leaf = xs"
    by (auto simp: leaf_repr_def intro: items_at_unique)
qed

section \<open>Space\<close>

lemma leaf_data_size: "fs_ok fs \<Longrightarrow> BTRFS_LEAF_DATA_SIZE fs = nodesize fs - sizeof_header"
  by (simp add: fs_ok_def BTRFS_LEAF_DATA_SIZE_def)

lemma leaf_data_size_small: "fs_ok fs \<Longrightarrow> BTRFS_LEAF_DATA_SIZE fs < 65536"
  by (auto simp: leaf_data_size fs_ok_def)

definition leaf_ctx :: "btrfs_fs_info \<Rightarrow> extent_buffer \<Rightarrow> (btrfs_key \<times> u8 list) list \<Rightarrow> bool" where
  "leaf_ctx fs leaf xs \<longleftrightarrow> fs_ok fs \<and> leaf_repr fs leaf xs"

lemma leaf_ctxI: "fs_ok fs \<Longrightarrow> leaf_layout fs leaf \<Longrightarrow> leaf_ctx fs leaf (leaf_items leaf)"
  by (simp add: leaf_ctx_def leaf_layout_repr)

lemma data_len_take: "data_len (take j xs) + data_len (drop j xs) = data_len xs"
  by (simp flip: data_len_simps(3))

lemma data_len_take_Suc:
  "j < length xs \<Longrightarrow> data_len (take (Suc j) xs) = data_len (take j xs) + length (snd (xs ! j))"
  by (simp add: take_Suc_conv_app_nth)

lemma leaf_basic:
  assumes h: "leaf_ctx fs leaf xs"
  shows "hdr_nritems leaf = length xs"
    and "sizeof_item * length xs + data_len xs \<le> BTRFS_LEAF_DATA_SIZE fs"
    and "BTRFS_LEAF_DATA_SIZE fs < 65536"
    and "items_at (eb_items leaf) (eb_data leaf) 0 (BTRFS_LEAF_DATA_SIZE fs) xs"
  using h leaf_data_size_small [of fs] by (simp_all add: leaf_ctx_def leaf_repr_def)

lemma leaf_items_nr:
  assumes h: "leaf_ctx fs leaf xs"
  shows "j < length xs \<Longrightarrow> btrfs_item_offset_nr leaf j = BTRFS_LEAF_DATA_SIZE fs - data_len (take (Suc j) xs)"
    and "j < length xs \<Longrightarrow> btrfs_item_size_nr leaf j = length (snd (xs ! j))"
    and "j < length xs \<Longrightarrow> btrfs_item_key leaf j = fst (xs ! j)"
    and "j < length xs \<Longrightarrow> btrfs_item_end_nr leaf j = BTRFS_LEAF_DATA_SIZE fs - data_len (take j xs)"
proof -
  note b = leaf_basic [OF h] and nth = items_at_nth [OF leaf_basic(4) [OF h]]
  assume j: "j < length xs"
  show off: "btrfs_item_offset_nr leaf j = BTRFS_LEAF_DATA_SIZE fs - data_len (take (Suc j) xs)"
    and sz: "btrfs_item_size_nr leaf j = length (snd (xs ! j))"
    and "btrfs_item_key leaf j = fst (xs ! j)"
    using nth [OF j] by (simp_all add: eb_simps)
  show "btrfs_item_end_nr leaf j = BTRFS_LEAF_DATA_SIZE fs - data_len (take j xs)"
    using b(2,3) data_len_take [of "Suc j" xs] data_len_take_Suc [OF j]
    by (simp add: btrfs_item_end_nr_def off sz)
qed

lemma leaf_space:
  assumes h: "leaf_ctx fs leaf xs"
  shows "leaf_data_end fs leaf = BTRFS_LEAF_DATA_SIZE fs - data_len xs"
    and "leaf_space_used leaf 0 (length xs) = int (sizeof_item * length xs + data_len xs)"
    and "btrfs_leaf_free_space fs leaf = int (BTRFS_LEAF_DATA_SIZE fs - data_len xs - sizeof_item * length xs)"
proof -
  note b = leaf_basic [OF h] and nr = leaf_items_nr [OF h]
  show "leaf_data_end fs leaf = BTRFS_LEAF_DATA_SIZE fs - data_len xs"
    by (cases xs rule: rev_cases) (simp_all add: leaf_data_end_def b(1) nr(1))
  show used: "leaf_space_used leaf 0 (length xs) = int (sizeof_item * length xs + data_len xs)"
    using b(2,3) by (cases "xs = []") (simp_all add: leaf_space_used_def b(1) nr of_nat_diff)
  show "btrfs_leaf_free_space fs leaf = int (BTRFS_LEAF_DATA_SIZE fs - data_len xs - sizeof_item * length xs)"
    using b(2,3) by (simp add: btrfs_leaf_free_space_def b(1) used of_nat_diff)
qed

lemma leaf_parts:
  assumes h: "leaf_ctx fs leaf xs" and j: "j \<le> length xs"
  shows "items_at (eb_items leaf) (eb_data leaf) 0 (BTRFS_LEAF_DATA_SIZE fs) (take j xs)"
    and "items_at (eb_items leaf) (eb_data leaf) j (BTRFS_LEAF_DATA_SIZE fs - data_len (take j xs)) (drop j xs)"
proof -
  have "items_at (eb_items leaf) (eb_data leaf) 0 (BTRFS_LEAF_DATA_SIZE fs) (take j xs @ drop j xs)"
    using leaf_basic(4) [OF h] by simp
  then show "items_at (eb_items leaf) (eb_data leaf) 0 (BTRFS_LEAF_DATA_SIZE fs) (take j xs)"
    and "items_at (eb_items leaf) (eb_data leaf) j (BTRFS_LEAF_DATA_SIZE fs - data_len (take j xs)) (drop j xs)"
    using j unfolding items_at_append by (simp_all add: min_absorb2)
qed

lemma leaf_reprI:
  assumes "hdr_nritems leaf = length xs"
    and "items_at (eb_items leaf) (eb_data leaf) 0 (BTRFS_LEAF_DATA_SIZE fs) xs"
    and "sizeof_item * length xs + data_len xs \<le> BTRFS_LEAF_DATA_SIZE fs"
  shows "leaf_repr fs leaf xs"
  using assms by (simp add: leaf_repr_def)

section \<open>Insertion\<close>

lemma setup_new_items_frame:
  "eb_data (setup_new_items leaf slot new e) = eb_data leaf"
  "j < slot \<or> slot + length new \<le> j \<Longrightarrow> eb_items (setup_new_items leaf slot new e) j = eb_items leaf j"
  "hdr_nritems (setup_new_items leaf slot new e) = hdr_nritems leaf"
  "hdr_level (setup_new_items leaf slot new e) = hdr_level leaf"
  by (induction leaf slot new e rule: setup_new_items.induct) (auto simp: eb_simps Let_def)

fun new_items :: "(nat \<Rightarrow> u8) \<Rightarrow> nat \<Rightarrow> (btrfs_key \<times> nat) list \<Rightarrow> (btrfs_key \<times> u8 list) list" where
  "new_items d e [] = []"
| "new_items d e ((k, n) # new) = (k, map (\<lambda>i. d (e - n + i)) [0..<n]) # new_items d (e - n) new"

lemma new_items_shape [simp]:
  "length (new_items d e new) = length new"
  "map fst (new_items d e new) = map fst new"
  "map (length \<circ> snd) (new_items d e new) = map snd new"
  "data_len (new_items d e new) = sum_list (map snd new)"
  by (induction d e new rule: new_items.induct) simp_all

lemma setup_new_items_at:
  assumes "sum_list (map snd new) \<le> e" "e < 2 ^ 32"
  shows "items_at (eb_items (setup_new_items leaf slot new e)) d slot e (new_items d e new)"
  using assms
proof (induction new arbitrary: leaf slot e)
  case (Cons x new)
  obtain k n where x: "x = (k, n)" by (cases x)
  with Cons.prems have e: "n \<le> e" "u32_sub e n = e - n" by simp_all
  show ?case
    using Cons.IH [of "e - n" _ "Suc slot"] Cons.prems e
    by (auto simp: x Let_def setup_new_items_frame eb_simps)
qed simp

lemma total_data: "fold (\<lambda>(_, sz) t. u32_add t sz) new a = a + sum_list (map snd new)"
  if "a + sum_list (map snd new) < 2 ^ 32"
  using that by (induction new arbitrary: a) auto

text \<open>An operation on a leaf changes the items, the data and the item count only.\<close>

definition leaf_frame :: "extent_buffer \<Rightarrow> extent_buffer \<Rightarrow> bool" where
  "leaf_frame leaf leaf' \<longleftrightarrow>
     leaf'\<lparr>hdr_nritems := hdr_nritems leaf, eb_items := eb_items leaf, eb_data := eb_data leaf\<rparr> = leaf"

lemma setup_new_items_leaf_frame: "leaf_frame leaf leaf' \<Longrightarrow> leaf_frame leaf (setup_new_items leaf' slot new e)"
  by (induction leaf' slot new e rule: setup_new_items.induct)
    (auto simp: Let_def leaf_frame_def eb_simps)

lemma mem_copy_0 [simp]: "mem_copy f g a c 0 = f"
  by (auto simp: mem_copy_def fun_eq_iff)

lemma shift_offsets_empty [simp]: "b \<le> a \<Longrightarrow> shift_offsets eb a b f = eb"
  by (simp add: shift_offsets_def)

lemma items_at_cong:
  assumes "items_at it d i e xs" and "\<And>j. j < length xs \<Longrightarrow> it' (i + j) = it (i + j)"
    and "\<And>k. e - data_len xs \<le> k \<Longrightarrow> k < e \<Longrightarrow> d' k = d k"
  shows "items_at it' d' i e xs"
  using assms(1) by (rule items_at_transfer) (use assms items_at_len [OF assms(1)] in auto)

text \<open>
  Making room: the items from \<open>slot\<close> on move \<open>m\<close> places up in the item array and their data
  \<open>T\<close> bytes down.
\<close>

definition tail_moved :: "btrfs_fs_info \<Rightarrow> extent_buffer \<Rightarrow> (btrfs_key \<times> u8 list) list \<Rightarrow> nat \<Rightarrow> nat \<Rightarrow> nat \<Rightarrow> extent_buffer" where
  "tail_moved fs leaf xs slot m T =
     memmove_data (memmove_items (shift_offsets leaf slot (length xs) (\<lambda>ioff. u32_sub ioff T))
       (slot + m) slot (length xs - slot))
       (u32_sub (leaf_data_end fs leaf) T) (leaf_data_end fs leaf)
       (u32_sub (BTRFS_LEAF_DATA_SIZE fs - data_len (take slot xs)) (leaf_data_end fs leaf))"

lemma tail_moved_ok:
  fixes fs leaf slot xs
  defines "e \<equiv> BTRFS_LEAF_DATA_SIZE fs - data_len (take slot xs)"
  assumes h: "leaf_ctx fs leaf xs" and slot: "slot \<le> length xs"
    and T: "T + data_len xs \<le> BTRFS_LEAF_DATA_SIZE fs"
  shows "items_at (eb_items (tail_moved fs leaf xs slot m T)) (eb_data (tail_moved fs leaf xs slot m T))
           0 (BTRFS_LEAF_DATA_SIZE fs) (take slot xs)" (is ?A)
    and "items_at (eb_items (tail_moved fs leaf xs slot m T)) (eb_data (tail_moved fs leaf xs slot m T))
           (slot + m) (e - T) (drop slot xs)" (is ?B)
    and "leaf_frame leaf (tail_moved fs leaf xs slot m T)" (is ?C)
    and "hdr_nritems (tail_moved fs leaf xs slot m T) = length xs" (is ?D)
proof -
  note b = leaf_basic [OF h] and sp = leaf_space [OF h] and parts = leaf_parts [OF h slot]
  let ?l = "tail_moved fs leaf xs slot m T" and ?R = "drop slot xs"
  have AB: "data_len xs = data_len (take slot xs) + data_len ?R" by (simp add: data_len_take)
  have e: "T + data_len ?R \<le> e" "e \<le> BTRFS_LEAF_DATA_SIZE fs" using T AB by (auto simp: e_def)
  have low: "u32_sub (leaf_data_end fs leaf) T = e - (T + data_len ?R)"
    "u32_sub e (leaf_data_end fs leaf) = data_len ?R" "leaf_data_end fs leaf = e - data_len ?R"
    using T AB b(3) by (auto simp: e_def sp(1))
  note l = tail_moved_def [of fs leaf xs slot m T, folded e_def, unfolded low(1,2), unfolded low(3)]
  have of2: "T \<le> it_offset (eb_items leaf (slot + j))"
      "it_offset (eb_items leaf (slot + j)) < 2 ^ 32" if "j < length ?R" for j
    using items_at_nth(1) [OF parts(2) that] data_len_take [of "Suc j" ?R] e b(3)
    by (auto simp flip: e_def)
  show ?A
    using parts(1) by (rule items_at_cong)
      (use e in \<open>auto simp: l e_def eb_simps shift_offsets_items mem_copy_def\<close>)
  have it: "eb_items ?l (slot + m + j) = (eb_items leaf (slot + j))
      \<lparr>it_offset := it_offset (eb_items leaf (slot + j)) - T\<rparr>" if "j < length ?R" for j
    using that of2 [OF that] by (auto simp: l eb_simps shift_offsets_items mem_copy_in)
  have dat: "eb_data ?l (e - (T + data_len ?R) + k) = eb_data leaf (e - data_len ?R + k)"
    if "k < data_len ?R" for k
    using that by (simp add: l eb_simps mem_copy_in shift_offsets_items)
  show ?B
    using parts(2) [folded e_def] by (rule items_at_transfer) (use e of2 it dat in auto)
  show ?C ?D
    using b(1) by (auto simp: leaf_frame_def l eb_simps shift_offsets_items)
qed

lemma insert_empty_items_eq:
  assumes h: "leaf_ctx fs leaf xs" and slot: "slot \<le> length xs"
    and fits: "sizeof_item * (length xs + length new) + data_len xs + sum_list (map snd new)
                 \<le> BTRFS_LEAF_DATA_SIZE fs"
  defines "leaf' \<equiv> (setup_new_items (tail_moved fs leaf xs slot (length new) (sum_list (map snd new)))
      slot new (BTRFS_LEAF_DATA_SIZE fs - data_len (take slot xs)))\<lparr>hdr_nritems := length xs + length new\<rparr>"
  shows "insert_empty_items fs leaf slot new = (if btrfs_leaf_free_space fs leaf' < 0 then None else Some leaf')"
proof -
  note b = leaf_basic [OF h] and nr = leaf_items_nr [OF h] and sp = leaf_space [OF h]
  let ?T = "sum_list (map snd new)"
  have tot: "fold (\<lambda>(_, sz) t. u32_add t sz) new 0 = ?T" "u32_add ?T (length new * 25) = ?T + 25 * length new"
    using fits b(3) total_data [of 0 new] by auto
  have nobug: "\<not> u32_of (btrfs_leaf_free_space fs leaf) < ?T + 25 * length new"
    using fits b(3) by (simp add: sp(3))
  show ?thesis
  proof (cases "slot < length xs")
    case True
    have "\<not> BTRFS_LEAF_DATA_SIZE fs - data_len (take slot xs) < leaf_data_end fs leaf"
      using data_len_take [of slot xs] by (simp add: sp(1))
    with True nobug show ?thesis
      unfolding insert_empty_items_def Let_def tot b(1) nr(4) [OF True] leaf'_def tail_moved_def by simp
  next
    case False
    with slot have end_slot: "slot = length xs" by simp
    have "tail_moved fs leaf xs slot (length new) ?T = leaf"
      using b(3) by (simp add: tail_moved_def end_slot sp(1) eb_simps)
    with False nobug show ?thesis
      unfolding insert_empty_items_def Let_def tot b(1) sp(1) leaf'_def by (simp add: end_slot)
  qed
qed

lemma insert_empty_items_ok:
  assumes h: "leaf_ctx fs leaf xs" and slot: "slot \<le> length xs"
    and fits: "sizeof_item * (length xs + length new) + data_len xs + sum_list (map snd new)
                 \<le> BTRFS_LEAF_DATA_SIZE fs"
  obtains leaf' N where "insert_empty_items fs leaf slot new = Some leaf'"
    and "leaf_ctx fs leaf' (take slot xs @ N @ drop slot xs)"
    and "map fst N = map fst new" and "map (length \<circ> snd) N = map snd new"
    and "leaf_frame leaf leaf'"
proof -
  let ?L = "BTRFS_LEAF_DATA_SIZE fs" and ?T = "sum_list (map snd new)"
  let ?e = "?L - data_len (take slot xs)"
  define l1 where "l1 = tail_moved fs leaf xs slot (length new) ?T"
  define l2 where "l2 = (setup_new_items l1 slot new ?e)\<lparr>hdr_nritems := length xs + length new\<rparr>"
  define N where "N = new_items (eb_data l1) ?e new"
  have T: "?T + data_len xs \<le> ?L" using fits by simp
  note moved = tail_moved_ok [OF h slot T, of "length new", folded l1_def]
  have len: "data_len xs = data_len (take slot xs) + data_len (drop slot xs)" by (simp add: data_len_take)
  have at: "items_at (eb_items l2) (eb_data l2) 0 ?L (take slot xs)"
    "items_at (eb_items l2) (eb_data l2) (slot + length new) (?e - ?T) (drop slot xs)"
    using moved(1,2) by (auto simp: l2_def setup_new_items_frame elim!: items_at_cong)
  moreover have "items_at (eb_items l2) (eb_data l2) slot ?e N"
    using setup_new_items_at [of new ?e l1 slot "eb_data l1"] T len leaf_basic(3) [OF h]
    by (simp add: l2_def N_def setup_new_items_frame)
  ultimately have "leaf_ctx fs l2 (take slot xs @ N @ drop slot xs)"
    using h slot fits len unfolding leaf_ctx_def
    by (auto simp: l2_def N_def min_absorb2 intro!: leaf_reprI)
  moreover from this have "insert_empty_items fs leaf slot new = Some l2"
    using insert_empty_items_eq [OF h slot fits] leaf_space(3) [of fs l2] by (simp add: l2_def l1_def)
  moreover have "leaf_frame leaf l2"
    using setup_new_items_leaf_frame [OF moved(3)] by (simp add: l2_def leaf_frame_def)
  ultimately show thesis using that [of l2 N] by (simp add: N_def)
qed

lemma write_item_ok:
  assumes h: "leaf_ctx fs leaf (A @ (k, b) # C)" and len: "length bs = length b"
  shows "leaf_ctx fs (write_data leaf bs (btrfs_item_offset_nr leaf (length A))) (A @ (k, bs) # C)"
    (is "leaf_ctx fs ?l _")
proof -
  let ?L = "BTRFS_LEAF_DATA_SIZE fs"
  note at = leaf_basic(4) [OF h, unfolded items_at_append]
  let ?e = "?L - data_len A"
  have off: "btrfs_item_offset_nr leaf (length A) = ?e - length b" and le: "length b \<le> ?e" "data_len A \<le> ?L"
    using at items_at_len [of _ _ 0 ?L A] by (auto simp: eb_simps)
  have "items_at (eb_items ?l) (eb_data ?l) 0 ?L A"
    by (rule items_at_cong [of "eb_items leaf" "eb_data leaf"])
      (use at le len in \<open>auto simp: off eb_simps mem_copy_def\<close>)
  moreover have "items_at (eb_items ?l) (eb_data ?l) (Suc (length A)) (?e - length b) C"
    by (rule items_at_cong [of "eb_items leaf" "eb_data leaf"])
      (use at le len in \<open>auto simp: off eb_simps mem_copy_def\<close>)
  moreover have "eb_items ?l (length A) = eb_items leaf (length A)" by (simp add: eb_simps)
  moreover have "eb_data ?l (?e - length b + j) = bs ! j" if "j < length b" for j
    using that len by (simp add: write_data_def off mem_copy_in)
  ultimately show ?thesis
    using h at len by (auto simp: leaf_ctx_def leaf_repr_def write_data_def)
qed

lemma insert_item_ok:
  assumes h: "leaf_ctx fs leaf xs" and slot: "slot \<le> length xs"
    and fits: "sizeof_item * Suc (length xs) + data_len xs + length bytes \<le> BTRFS_LEAF_DATA_SIZE fs"
  obtains leaf' where "insert_item fs leaf slot key bytes = Some leaf'"
    and "leaf_ctx fs leaf' (take slot xs @ (key, bytes) # drop slot xs)" and "leaf_frame leaf leaf'"
proof -
  obtain l1 N where ins: "insert_empty_items fs leaf slot [(key, length bytes)] = Some l1"
    and ctx: "leaf_ctx fs l1 (take slot xs @ N @ drop slot xs)" and fr: "leaf_frame leaf l1"
    and N: "map fst N = [key]" "map (length \<circ> snd) N = [length bytes]"
    by (rule insert_empty_items_ok [OF h slot, of "[(key, length bytes)]"]) (use fits in simp_all)
  from N obtain b where "N = [(key, b)]" "length b = length bytes" by auto
  with ctx have "leaf_ctx fs l1 (take slot xs @ (key, b) # drop slot xs)" by simp
  from write_item_ok [OF this, of bytes] \<open>length b = length bytes\<close> slot
  have "leaf_ctx fs (write_data l1 bytes (btrfs_item_offset_nr l1 slot)) (take slot xs @ (key, bytes) # drop slot xs)"
    by (simp add: min_absorb2)
  with fr ins that show thesis by (simp add: insert_item_def leaf_frame_def write_data_def)
qed

lemma mem_copy_same [simp]: "mem_copy f f a a n = f"
  by (auto simp: mem_copy_def fun_eq_iff)

lemma extend_item_ok:
  assumes h: "leaf_ctx fs leaf (A @ (k, b) # C)"
    and fits: "sizeof_item * (length A + Suc (length C)) + data_len (A @ (k, b) # C) + T \<le> BTRFS_LEAF_DATA_SIZE fs"
  obtains leaf' g where "btrfs_extend_item fs leaf (length A) T = Some leaf'"
    and "leaf_ctx fs leaf' (A @ (k, b @ g) # C)" and "length g = T" and "leaf_frame leaf leaf'"
proof -
  let ?xs = "A @ (k, b) # C" and ?L = "BTRFS_LEAF_DATA_SIZE fs"
  note bs = leaf_basic [OF h] and nr = leaf_items_nr [OF h, of "length A"] and sp = leaf_space [OF h]
  define l1 where "l1 = tail_moved fs leaf ?xs (length A) 0 T"
  define l2 where "l2 = btrfs_set_item_size l1 (length A) (length b + T)"
  have le: "T + data_len ?xs \<le> ?L" using fits by simp
  then have f: "?L - data_len A = (?L - data_len A - length b - T) + length b + T" by simp
  then obtain f where f: "?L - data_len A = f + length b + T" by blast
  define g where "g = map (\<lambda>i. eb_data l1 (f + length b + i)) [0..<T]"
  have tk: "length A \<le> length ?xs" "take (length A) ?xs = A" "drop (length A) ?xs = (k, b) # C" by simp_all
  note moved = tail_moved_ok [OF h tk(1) le, of 0, folded l1_def, unfolded tk(2,3) f, simplified]
  have l1: "l1 = memmove_data (shift_offsets leaf (length A) (Suc (length A + length C)) (\<lambda>ioff. u32_sub ioff T))
       (u32_sub (leaf_data_end fs leaf) T) (leaf_data_end fs leaf) (u32_sub (?L - data_len A) (leaf_data_end fs leaf))"
    by (simp add: l1_def tail_moved_def memmove_items_def)
  have at: "items_at (eb_items l2) (eb_data l2) 0 ?L A"
    "items_at (eb_items l2) (eb_data l2) (Suc (length A)) f C"
    using moved(1,2) by (auto simp: l2_def eb_simps elim!: items_at_cong)
  have "(b @ g) ! j = eb_data l2 (f + j)" if "j < length b + T" for j
    using moved(2) that by (cases "j < length b") (auto simp: nth_append g_def l2_def eb_simps)
  then have ctx: "leaf_ctx fs l2 (A @ (k, b @ g) # C)"
    using h at moved(2,4) f fits
    by (auto simp: leaf_ctx_def l2_def g_def eb_simps intro!: leaf_reprI)
  have "btrfs_extend_item fs leaf (length A) T = Some l2"
  proof -
    have "\<not> u32_of (btrfs_leaf_free_space fs leaf) < T" using fits bs(3) by (simp add: sp(3))
    moreover have "btrfs_item_end_nr leaf (length A) = ?L - data_len A" using nr(4) by simp
    moreover have "u32_add (btrfs_item_size_nr l1 (length A)) T = length b + T"
      using moved(2) fits bs(3) by (simp add: eb_simps)
    ultimately show ?thesis
      using leaf_space(3) [OF ctx]
      unfolding btrfs_extend_item_def Let_def bs(1) by (simp add: l2_def flip: l1)
  qed
  moreover have "leaf_frame leaf l2" using moved(3) by (simp add: l2_def leaf_frame_def eb_simps)
  ultimately show thesis using that [of l2 g] ctx by (simp add: g_def)
qed

section \<open>Deletion\<close>

lemma deleted_size:
  assumes h: "leaf_ctx fs leaf (A @ D @ C)"
  shows "fold (\<lambda>i d. d + btrfs_item_size_nr leaf (length A + i)) [0..<length D] 0 = data_len D"
proof -
  have "fold (\<lambda>i d. d + f (a + i)) [0..<n] (0::nat) = sum_list (map (\<lambda>i. f (a + i)) [0..<n])" for f a n
    by (induction n) simp_all
  moreover have "map (\<lambda>i. btrfs_item_size_nr leaf (length A + i)) [0..<length D] = map (length \<circ> snd) D"
    by (rule nth_equalityI) (simp_all add: leaf_items_nr(2) [OF h] nth_append)
  ultimately show ?thesis by (simp add: data_len_def)
qed

lemma del_items_ok:
  assumes h: "leaf_ctx fs leaf (A @ D @ C)" and D: "D \<noteq> []"
  obtains leaf' where "del_items fs leaf (length A) (length D) = Some leaf'"
    and "leaf_ctx fs leaf' (A @ C)" and "leaf_frame leaf leaf'"
proof (cases "C = []")
  case True
  have "leaf_ctx fs (leaf\<lparr>hdr_nritems := length A\<rparr>) (A @ C)"
    using h True by (auto simp: leaf_ctx_def leaf_repr_def)
  with True leaf_basic(1) [OF h] show thesis
    by (intro that) (auto simp: del_items_def leaf_frame_def)
next
  case False
  let ?L = "BTRFS_LEAF_DATA_SIZE fs" and ?a = "length A" and ?d = "length D" and ?c = "length C"
  note bs = leaf_basic [OF h] and sp = leaf_space [OF h]
  have "?L - data_len A = (?L - data_len A - data_len D - data_len C) + data_len C + data_len D"
    using bs(2) by simp
  then obtain f where f: "?L - data_len A = f + data_len C + data_len D" by blast
  have end_f: "leaf_data_end fs leaf = f" using f bs(2) by (simp add: sp(1))
  have last: "btrfs_item_offset_nr leaf (?a + ?d - 1) = f + data_len C"
    using leaf_items_nr(1) [OF h, of "?a + ?d - 1"] f bs(2) D by (cases D) simp_all
  have C: "items_at (eb_items leaf) (eb_data leaf) (?a + ?d) (f + data_len C) C"
    using leaf_parts(2) [OF h, of "?a + ?d"] f by (simp add: diff_diff_left [symmetric] del: diff_diff_left)
  have A: "items_at (eb_items leaf) (eb_data leaf) 0 ?L A"
    using leaf_parts(1) [OF h, of "?a"] by simp
  define l1 where "l1 = memmove_data leaf (f + data_len D) f (data_len C)"
  define l2 where "l2 = shift_offsets l1 (?a + ?d) (?a + ?d + ?c) (\<lambda>ioff. u32_add ioff (data_len D))"
  define l3 where "l3 = (memmove_items l2 ?a (?a + ?d) ?c)\<lparr>hdr_nritems := ?a + ?c\<rparr>"
  note defs = l1_def l2_def l3_def eb_simps shift_offsets_items
  have small: "it_offset (eb_items leaf (?a + ?d + j)) + data_len D < 2 ^ 32" if "j < ?c" for j
    using items_at_nth(1) [OF C that] f bs(3) by simp
  have "items_at (eb_items l3) (eb_data l3) 0 ?L A"
    using A by (rule items_at_cong) (use f in \<open>auto simp: defs mem_copy_def\<close>)
  moreover have "items_at (eb_items l3) (eb_data l3) ?a (?L - data_len A) C"
    using C
  proof (rule items_at_transfer)
    show "data_len C \<le> ?L - data_len A" using f by simp
    show "eb_data l3 (?L - data_len A - data_len C + k) = eb_data leaf (f + data_len C - data_len C + k)"
      if "k < data_len C" for k
      using that f mem_copy_in [of k "data_len C" "eb_data leaf" "eb_data leaf" "f + data_len D" f]
      by (simp add: defs)
    show "it_key (eb_items l3 (?a + j)) = it_key (eb_items leaf (?a + ?d + j)) \<and>
        it_size (eb_items l3 (?a + j)) = it_size (eb_items leaf (?a + ?d + j)) \<and>
        it_offset (eb_items l3 (?a + j)) + (f + data_len C) =
        it_offset (eb_items leaf (?a + ?d + j)) + (?L - data_len A)" if "j < ?c" for j
      using that small [OF that] f by (simp add: defs mem_copy_in)
  qed
  ultimately have "leaf_ctx fs l3 (A @ C)"
    using h bs(2) by (auto simp: leaf_ctx_def l3_def intro!: leaf_reprI)
  moreover have "del_items fs leaf ?a ?d = Some l3"
    using False by (simp add: del_items_def bs(1) deleted_size [OF h] last [simplified] end_f l1_def l2_def l3_def Let_def add.assoc)
  moreover have "leaf_frame leaf l3" by (simp add: leaf_frame_def defs)
  ultimately show thesis using that by blast
qed

section \<open>Truncation\<close>

text \<open>
  After the offsets of the items from \<open>length A\<close> on and the data of the items behind it have
  moved up by \<open>T\<close> bytes, the item at \<open>length A\<close> keeps \<open>b'\<close>, which is what its remaining
  bytes read.
\<close>

lemma shrunk_item_ok:
  assumes h: "leaf_ctx fs leaf (A @ (k, b) # C)" and len: "length b = length b' + T"
    and f: "BTRFS_LEAF_DATA_SIZE fs - data_len A = f + data_len C + length b"
    and items: "eb_items leaf' = (eb_items (shift_offsets leaf (length A) (length A + Suc (length C)) (\<lambda>ioff. u32_add ioff T)))
          (length A := \<lparr>it_key = k', it_offset = f + data_len C + T, it_size = length b'\<rparr>)"
    and above: "\<And>i. f + data_len C + length b \<le> i \<Longrightarrow> eb_data leaf' i = eb_data leaf i"
    and bytes: "\<And>j. j < length b' \<Longrightarrow> eb_data leaf' (f + data_len C + T + j) = b' ! j"
    and below: "\<And>i. i < data_len C \<Longrightarrow> eb_data leaf' (f + T + i) = eb_data leaf (f + i)"
    and nr: "hdr_nritems leaf' = hdr_nritems leaf"
  shows "leaf_ctx fs leaf' (A @ (k', b') # C)"
proof -
  let ?L = "BTRFS_LEAF_DATA_SIZE fs" and ?a = "length A"
  note bs = leaf_basic [OF h]
  have A: "items_at (eb_items leaf) (eb_data leaf) 0 ?L A"
    using leaf_parts(1) [OF h, of "?a"] by simp
  have C: "items_at (eb_items leaf) (eb_data leaf) (Suc ?a) (f + data_len C) C"
    using leaf_parts(2) [OF h, of "?a"] f by simp
  have small: "it_offset (eb_items leaf (Suc ?a + j)) + T < 2 ^ 32" if "j < length C" for j
    using items_at_nth(1) [OF C that] f bs(3) len by simp
  have "items_at (eb_items leaf') (eb_data leaf') 0 ?L A"
    using A by (rule items_at_cong) (use f above in \<open>auto simp: items shift_offsets_items\<close>)
  moreover have "items_at (eb_items leaf') (eb_data leaf') (Suc ?a) (f + data_len C + T) C"
    using C
  proof (rule items_at_transfer)
    show "eb_data leaf' (f + data_len C + T - data_len C + i) = eb_data leaf (f + data_len C - data_len C + i)"
      if "i < data_len C" for i
      using below [OF that] by simp
    show "it_key (eb_items leaf' (Suc ?a + j)) = it_key (eb_items leaf (Suc ?a + j)) \<and>
        it_size (eb_items leaf' (Suc ?a + j)) = it_size (eb_items leaf (Suc ?a + j)) \<and>
        it_offset (eb_items leaf' (Suc ?a + j)) + (f + data_len C) =
        it_offset (eb_items leaf (Suc ?a + j)) + (f + data_len C + T)" if "j < length C" for j
      using that small [OF that] by (simp add: items shift_offsets_items)
  qed simp
  moreover have "eb_items leaf' ?a = \<lparr>it_key = k', it_offset = f + data_len C + T, it_size = length b'\<rparr>"
    by (simp add: items)
  moreover have "?L - data_len A = f + data_len C + T + length b'" using f len by simp
  ultimately have "items_at (eb_items leaf') (eb_data leaf') 0 ?L (A @ (k', b') # C)"
    using bytes by simp
  then show ?thesis
    using h bs(1,2) len nr by (auto simp: leaf_ctx_def intro!: leaf_reprI)
qed

lemma truncate_end_ok:
  assumes h: "leaf_ctx fs leaf (A @ (k, b) # C)" and n: "n \<le> length b"
  obtains leaf' where "btrfs_truncate_item fs leaf (length A) n True = Some leaf'"
    and "leaf_ctx fs leaf' (A @ (k, take n b) # C)" and "leaf_frame leaf leaf'"
proof (cases "n = length b")
  case True
  with h leaf_items_nr(2) [OF h, of "length A"] show thesis
    by (intro that [of leaf]) (simp_all add: btrfs_truncate_item_def leaf_frame_def)
next
  case False
  let ?L = "BTRFS_LEAF_DATA_SIZE fs" and ?a = "length A" and ?T = "length b - n"
  note bs = leaf_basic [OF h] and sp = leaf_space [OF h] and nr = leaf_items_nr [OF h, of "?a"]
  have "?L - data_len A = (?L - data_len A - data_len C - length b) + data_len C + length b"
    using bs(2) by simp
  then obtain f where f: "?L - data_len A = f + data_len C + length b" by blast
  have end_f: "leaf_data_end fs leaf = f" using f bs(2) by (simp add: sp(1))
  have start: "btrfs_item_offset_nr leaf ?a = f + data_len C" and sz: "btrfs_item_size_nr leaf ?a = length b"
    and key: "it_key (eb_items leaf ?a) = k"
    using nr(1-3) f by (simp_all add: btrfs_item_key_def)
  define l1 where "l1 = shift_offsets leaf ?a (?a + Suc (length C)) (\<lambda>ioff. u32_add ioff ?T)"
  define l2 where "l2 = memmove_data l1 (f + ?T) f (data_len C + n)"
  define l3 where "l3 = btrfs_set_item_size l2 ?a n"
  have b: "eb_data leaf (f + data_len C + j) = b ! j" if "j < length b" for j
    using leaf_parts(2) [OF h, of "?a"] f that by simp
  have ctx: "leaf_ctx fs l3 (A @ (k, take n b) # C)"
  proof (rule shrunk_item_ok [OF h _ f, of _ ?T])
    show "eb_items l3 = (eb_items (shift_offsets leaf ?a (?a + Suc (length C)) (\<lambda>ioff. u32_add ioff ?T)))
        (?a := \<lparr>it_key = k, it_offset = f + data_len C + ?T, it_size = length (take n b)\<rparr>)"
      using start key f bs(3) n
      by (auto simp: fun_eq_iff l3_def l2_def l1_def eb_simps shift_offsets_items intro!: btrfs_item.equality)
    show "eb_data l3 (f + data_len C + ?T + j) = take n b ! j" if "j < length (take n b)" for j
      using that n b [of j] mem_copy_in [of "data_len C + j" "data_len C + n" "eb_data leaf" "eb_data leaf" "f + ?T" f]
      by (simp add: l3_def l2_def l1_def eb_simps shift_offsets_items ac_simps)
    show "eb_data l3 (f + ?T + i) = eb_data leaf (f + i)" if "i < data_len C" for i
      using that by (simp add: l3_def l2_def l1_def eb_simps shift_offsets_items mem_copy_in)
    show "eb_data l3 i = eb_data leaf i" if "f + data_len C + length b \<le> i" for i
      using that n by (auto simp: l3_def l2_def l1_def eb_simps shift_offsets_items mem_copy_def)
  qed (use n in \<open>simp_all add: l3_def l2_def l1_def eb_simps shift_offsets_items\<close>)
  have "btrfs_truncate_item fs leaf ?a n True = Some l3"
  proof -
    have "u32_sub (length b) n = ?T" "u32_add f ?T = f + ?T"
      "u32_sub (u32_add (f + data_len C) n) f = data_len C + n"
      using f bs(3) n by simp_all
    then show ?thesis
      using False leaf_space(3) [OF ctx]
      unfolding btrfs_truncate_item_def Let_def sz bs(1) start end_f
      by (simp add: l3_def l2_def l1_def)
  qed
  moreover have "leaf_frame leaf l3" by (simp add: leaf_frame_def l3_def l2_def l1_def eb_simps shift_offsets_items)
  ultimately show thesis using ctx that by blast
qed

text \<open>
  Truncation from the front: the key offset grows by what is cut off. An inline file extent keeps
  the 21 bytes of its header and loses the bytes that follow it.
\<close>

definition is_inline :: "btrfs_key \<Rightarrow> u8 list \<Rightarrow> bool" where
  "is_inline k b \<longleftrightarrow> key_type k = BTRFS_EXTENT_DATA_KEY \<and> b ! 20 = BTRFS_FILE_EXTENT_INLINE"

definition front_cut :: "btrfs_key \<Rightarrow> u8 list \<Rightarrow> nat \<Rightarrow> u8 list" where
  "front_cut k b T = (if is_inline k b then take 21 b @ drop (T + 21) b else drop T b)"

definition key_advance :: "btrfs_key \<Rightarrow> nat \<Rightarrow> btrfs_key" where
  "key_advance k T = Key (objectid k) (key_type k) (offset k + of_nat T)"

lemma truncate_front_ok:
  assumes h: "leaf_ctx fs leaf (A @ (k, b) # C)" and n: "length b = n + T" "0 < T"
    and hdr: "key_type k = BTRFS_EXTENT_DATA_KEY \<Longrightarrow> 21 \<le> n"
  obtains leaf' where "btrfs_truncate_item fs leaf (length A) n False = Some leaf'"
    and "leaf_ctx fs leaf' (A @ (key_advance k T, front_cut k b T) # C)"
    and "leaf_frame leaf leaf'"
proof -
  let ?L = "BTRFS_LEAF_DATA_SIZE fs" and ?a = "length A"
  note bs = leaf_basic [OF h] and sp = leaf_space [OF h] and nr = leaf_items_nr [OF h, of "?a"]
  have "?L - data_len A = (?L - data_len A - data_len C - length b) + data_len C + length b"
    using bs(2) by simp
  then obtain f where f: "?L - data_len A = f + data_len C + length b" by blast
  have end_f: "leaf_data_end fs leaf = f" using f bs(2) by (simp add: sp(1))
  have start: "btrfs_item_offset_nr leaf ?a = f + data_len C" and sz: "btrfs_item_size_nr leaf ?a = length b"
    and key: "it_key (eb_items leaf ?a) = k"
    using nr(1-3) f by (simp_all add: btrfs_item_key_def)
  have small: "f + data_len C + length b < 65536" using f bs(3) by simp
  define l1 where "l1 = shift_offsets leaf ?a (?a + Suc (length C)) (\<lambda>ioff. u32_add ioff T)"
  define m1 where "m1 = (if is_inline k b then memmove_data l1 (f + data_len C + T) (f + data_len C) 21 else l1)"
  define m2 where "m2 = memmove_data m1 (f + T) f (data_len C)"
  define l3 where "l3 = btrfs_set_item_size (btrfs_set_item_key m2 (key_advance k T) ?a) ?a n"
  note defs = l1_def m1_def m2_def l3_def eb_simps shift_offsets_items
  have b: "eb_data leaf (f + data_len C + j) = b ! j" if "j < length b" for j
    using leaf_parts(2) [OF h, of "?a"] f that by simp
  have inl: "is_inline k b \<Longrightarrow> 21 \<le> n" using hdr by (simp add: is_inline_def)
  have len: "length (front_cut k b T) = n" using inl n by (auto simp: front_cut_def)
  have ctx: "leaf_ctx fs l3 (A @ (key_advance k T, front_cut k b T) # C)"
  proof (rule shrunk_item_ok [OF h _ f, of _ T])
    show "eb_items l3 = (eb_items (shift_offsets leaf ?a (?a + Suc (length C)) (\<lambda>ioff. u32_add ioff T)))
        (?a := \<lparr>it_key = key_advance k T, it_offset = f + data_len C + T, it_size = length (front_cut k b T)\<rparr>)"
      using start small n
      by (auto simp: len fun_eq_iff defs intro!: btrfs_item.equality)
    show "eb_data l3 (f + data_len C + T + j) = front_cut k b T ! j" if "j < length (front_cut k b T)" for j
    proof -
      have *: "eb_data leaf (f + data_len C + T + j) = b ! (T + j)"
        using b [of "T + j"] that n len by (simp add: add.assoc)
      show ?thesis
        using that n inl len * b [of j]
        by (cases "is_inline k b"; cases "j < 21") (auto simp: defs mem_copy_def front_cut_def nth_append)
    qed
    show "eb_data l3 (f + T + i) = eb_data leaf (f + i)" if "i < data_len C" for i
      using that by (auto simp: defs mem_copy_def)
    show "eb_data l3 i = eb_data leaf i" if "f + data_len C + length b \<le> i" for i
      using that n inl by (auto simp: defs mem_copy_def)
  qed (use n in \<open>simp_all add: defs len\<close>)
  have "btrfs_truncate_item fs leaf ?a n False = Some l3"
  proof -
    have T: "u32_sub (length b) n = T" "u32_add f T = f + T" "u32_sub (f + data_len C) f = data_len C"
      using small n by simp_all
    have off1: "btrfs_item_offset_nr l1 ?a = f + data_len C + T" and key1: "btrfs_item_key l1 ?a = k"
      using start key small n by (simp_all add: l1_def eb_simps shift_offsets_items)
    have fi: "u32_sub (f + data_len C + T) T = f + data_len C" using small n by simp
    have inl': "(key_type k = BTRFS_EXTENT_DATA_KEY \<and> eb_data l1 (f + data_len C + 20) = BTRFS_FILE_EXTENT_INLINE) = is_inline k b"
      using b [of 20] hdr n by (auto simp: is_inline_def l1_def shift_offsets_items)
    have sh: "shift_offsets leaf ?a (length (A @ (k, b) # C)) (\<lambda>ioff. u32_add ioff T) = l1" by (simp add: l1_def)
    have ne: "length b \<noteq> n" "\<not> length (A @ (k, b) # C) \<le> ?a" using n by simp_all
    show ?thesis
      using leaf_space(3) [OF ctx] ne
      unfolding btrfs_truncate_item_def Let_def sz bs(1) start end_f T sh off1 key1 fi inl'
      by (simp add: l3_def m2_def m1_def key_advance_def split del: if_split)
  qed
  moreover have "leaf_frame leaf l3" by (simp add: leaf_frame_def defs)
  ultimately show thesis using ctx that by blast
qed

section \<open>Splitting an item\<close>

lemma read_item:
  assumes h: "leaf_ctx fs leaf (A @ (k, b) # C)"
  shows "read_data leaf (btrfs_item_offset_nr leaf (length A)) (length b) = b"
  by (rule nth_equalityI) (use leaf_basic(4) [OF h] in \<open>simp_all add: eb_simps\<close>)

lemma split_item_ok:
  assumes h: "leaf_ctx fs leaf (A @ (k, b) # C)" and s: "s \<le> length b"
    and fits: "sizeof_item * (length A + length C + 2) + data_len (A @ (k, b) # C) \<le> BTRFS_LEAF_DATA_SIZE fs"
  obtains leaf' where "split_item fs leaf (length A) new_key s = Some leaf'"
    and "leaf_ctx fs leaf' (A @ (k, take s b) # (new_key, drop s b) # C)" and "leaf_frame leaf leaf'"
proof -
  let ?L = "BTRFS_LEAF_DATA_SIZE fs" and ?a = "length A"
  note bs = leaf_basic [OF h] and nr = leaf_items_nr [OF h, of "?a"]
  have "?L - data_len A = (?L - data_len A - length b) + length b" using bs(2) by simp
  then obtain f where f: "?L - data_len A = f + length b" by blast
  have start: "btrfs_item_offset_nr leaf ?a = f" and sz: "btrfs_item_size_nr leaf ?a = length b"
    and key: "it_key (eb_items leaf ?a) = k"
    using nr(1-3) f by (simp_all add: btrfs_item_key_def)
  have small: "f + length b < 65536" using f bs(3) by simp
  have A: "items_at (eb_items leaf) (eb_data leaf) 0 ?L A"
    using leaf_parts(1) [OF h, of "?a"] by simp
  have C: "items_at (eb_items leaf) (eb_data leaf) (Suc ?a) f C"
    using leaf_parts(2) [OF h, of "?a"] f by simp
  define m where "m = memmove_items leaf (Suc (Suc ?a)) (Suc ?a) (length C)"
  define l7 where "l7 = m\<lparr>eb_items := (eb_items m)
     (Suc ?a := \<lparr>it_key = new_key, it_offset = f, it_size = length b - s\<rparr>,
      ?a := \<lparr>it_key = k, it_offset = f + length b - s, it_size = s\<rparr>), hdr_nritems := Suc (Suc (?a + length C))\<rparr>"
  define l9 where "l9 = write_data (write_data l7 (take s b) (f + length b - s)) (drop s b) f"
  note defs = m_def l7_def l9_def eb_simps
  have "items_at (eb_items l9) (eb_data l9) 0 ?L A"
    using A by (rule items_at_cong) (use f s in \<open>auto simp: defs mem_copy_def\<close>)
  moreover have "items_at (eb_items l9) (eb_data l9) (Suc (Suc ?a)) f C"
    using C by (rule items_at_transfer)
      (use s items_at_len [OF C] in \<open>auto simp: defs mem_copy_def\<close>)
  moreover have "eb_data l9 (f + length b - s + j) = take s b ! j" if "j < s" for j
    using that s by (auto simp: defs mem_copy_def)
  moreover have "eb_data l9 (f + j) = drop s b ! j" if "j < length b - s" for j
    using that s by (auto simp: defs mem_copy_def)
  ultimately have ctx: "leaf_ctx fs l9 (A @ (k, take s b) # (new_key, drop s b) # C)"
    using h f s fits unfolding leaf_ctx_def
    by (intro conjI leaf_reprI) (auto simp: l9_def l7_def write_data_def)
  have "split_item fs leaf ?a new_key s = Some l9"
  proof -
    let ?m = "if ?a + 1 < length (A @ (k, b) # C)
      then memmove_items leaf (?a + 1 + 1) (?a + 1) (length (A @ (k, b) # C) - (?a + 1)) else leaf"
    have m: "?m = m" by (simp add: m_def memmove_items_def)
    have l7: "(btrfs_set_item_size (btrfs_set_item_offset (btrfs_set_item_size (btrfs_set_item_offset
        (btrfs_set_item_key m new_key (?a + 1)) (?a + 1) f) (?a + 1) (u32_sub (length b) s))
        ?a (u32_sub (u32_add f (length b)) s)) ?a s)\<lparr>hdr_nritems := length (A @ (k, b) # C) + 1\<rparr> = l7"
      using small s key
      by (auto simp: l7_def m_def eb_simps mem_copy_def fun_eq_iff intro!: extent_buffer.equality btrfs_item.equality)
    have "btrfs_item_offset_nr l7 ?a = f + length b - s"
      "btrfs_item_offset_nr (write_data l7 (take s b) (f + length b - s)) (?a + 1) = f"
      by (simp_all add: l7_def eb_simps)
    then show ?thesis
      using leaf_space(3) [OF ctx]
      unfolding split_item_def Let_def start sz bs(1) m l7 read_item [OF h, unfolded start] by (simp add: l9_def)
  qed
  moreover have "leaf_frame leaf l9" by (simp add: leaf_frame_def defs)
  ultimately show thesis using ctx that by blast
qed

section \<open>Moving items between leaves\<close>

fun data_at :: "(nat \<Rightarrow> u8) \<Rightarrow> nat \<Rightarrow> (btrfs_key \<times> u8 list) list \<Rightarrow> bool" where
  "data_at d e [] \<longleftrightarrow> True"
| "data_at d e ((k, b) # xs) \<longleftrightarrow>
     (\<forall>j<length b. d (e - length b + j) = b ! j) \<and> data_at d (e - length b) xs"

definition named_at :: "(nat \<Rightarrow> btrfs_item) \<Rightarrow> nat \<Rightarrow> (btrfs_key \<times> u8 list) list \<Rightarrow> bool" where
  "named_at it i xs \<longleftrightarrow>
     (\<forall>j<length xs. it_key (it (i + j)) = fst (xs ! j) \<and> it_size (it (i + j)) = length (snd (xs ! j)))"

lemma data_at_append [simp]: "data_at d e (xs @ ys) \<longleftrightarrow> data_at d e xs \<and> data_at d (e - data_len xs) ys"
  by (induction xs arbitrary: e) auto

lemma named_at_simps [simp]:
  "named_at it i []"
  "named_at it i (x # xs) \<longleftrightarrow> it_key (it i) = fst x \<and> it_size (it i) = length (snd x) \<and> named_at it (Suc i) xs"
  by (auto simp: named_at_def less_Suc_eq_0_disj)

lemma named_at_append [simp]: "named_at it i (xs @ ys) \<longleftrightarrow> named_at it i xs \<and> named_at it (i + length xs) ys"
  by (induction xs arbitrary: i) (auto simp: add.commute)

lemma items_at_named: "items_at it d i e xs \<Longrightarrow> named_at it i xs"
  and items_at_data: "items_at it d i e xs \<Longrightarrow> data_at d e xs"
  by (induction xs arbitrary: i e) auto

lemma named_at_cong:
  "named_at it i xs \<Longrightarrow> (\<And>j. j < length xs \<Longrightarrow> it' (i' + j) = it (i + j)) \<Longrightarrow> named_at it' i' xs"
  by (simp add: named_at_def)

lemma data_at_transfer:
  assumes "data_at d e xs" and "data_len xs \<le> e" and "data_len xs \<le> e'"
    and "\<And>k. k < data_len xs \<Longrightarrow> d' (e' - data_len xs + k) = d (e - data_len xs + k)"
  shows "data_at d' e' xs"
  using assms
proof (induction xs arbitrary: e e')
  case (Cons x xs)
  obtain k b where x: "x = (k, b)" by (cases x)
  note p = Cons.prems [unfolded x, simplified]
  have "d' (e' - length b + j) = b ! j" if "j < length b" for j
    using p(4) [of "data_len xs + j"] p(1,2,3) that by (auto simp: algebra_simps)
  moreover have "data_at d' (e' - length b) xs"
    by (rule Cons.IH [of "e - length b"]) (use p in auto)
  ultimately show ?case by (simp add: x)
qed simp

lemma reset_offsets_frame:
  "eb_data (reset_offsets eb i n e) = eb_data eb"
  "hdr_nritems (reset_offsets eb i n e) = hdr_nritems eb"
  "j < i \<Longrightarrow> eb_items (reset_offsets eb i n e) j = eb_items eb j"
  by (induction eb i n e rule: reset_offsets.induct) (auto simp: eb_simps Let_def)

lemma reset_offsets_leaf_frame: "leaf_frame leaf eb \<Longrightarrow> leaf_frame leaf (reset_offsets eb i n e)"
  by (induction eb i n e rule: reset_offsets.induct) (auto simp: eb_simps Let_def leaf_frame_def)

lemma reset_offsets_at:
  assumes "named_at (eb_items eb) i xs" and "data_at (eb_data eb) e xs" and "data_len xs \<le> e" and "e < 2 ^ 32"
  shows "items_at (eb_items (reset_offsets eb i (length xs) e)) (eb_data eb) i e xs"
  using assms
proof (induction xs arbitrary: eb i e)
  case (Cons x xs)
  obtain k b where x: "x = (k, b)" by (cases x)
  note p = Cons.prems [unfolded x, simplified]
  define eb' where "eb' = btrfs_set_item_offset eb i (e - length b)"
  have sz: "btrfs_item_size_nr eb i = length b" "u32_sub e (length b) = e - length b"
    using p by (simp_all add: btrfs_item_size_nr_def)
  have "named_at (eb_items eb') (Suc i) xs" "eb_data eb' = eb_data eb"
    using p(1) by (auto simp: eb'_def eb_simps elim!: named_at_cong)
  then have "items_at (eb_items (reset_offsets eb' (Suc i) (length xs) (e - length b))) (eb_data eb) (Suc i) (e - length b) xs"
    using Cons.IH [of eb' "Suc i" "e - length b"] p by simp
  moreover have "eb_items eb' i = \<lparr>it_key = k, it_offset = e - length b, it_size = length b\<rparr>"
    using p(1) by (simp add: eb'_def eb_simps)
  ultimately show ?case
    using p by (simp add: x sz Let_def reset_offsets_frame flip: eb'_def)
qed simp

lemma reset_offsets_ctx:
  assumes "fs_ok fs" and "named_at (eb_items eb) 0 xs" and "data_at (eb_data eb) (BTRFS_LEAF_DATA_SIZE fs) xs"
    and "sizeof_item * length xs + data_len xs \<le> BTRFS_LEAF_DATA_SIZE fs" and "hdr_nritems eb = length xs"
  shows "leaf_ctx fs (reset_offsets eb 0 (length xs) (BTRFS_LEAF_DATA_SIZE fs)) xs"
  using assms reset_offsets_at [of eb 0 xs "BTRFS_LEAF_DATA_SIZE fs"] leaf_data_size_small [of fs]
  by (auto simp: leaf_ctx_def leaf_repr_def reset_offsets_frame)

lemma leaf_prefix:
  "leaf_ctx fs leaf (X @ Y) \<Longrightarrow> leaf_ctx fs (leaf\<lparr>hdr_nritems := length X\<rparr>) X"
  by (auto simp: leaf_ctx_def leaf_repr_def)

lemma push_right_items_ok:
  assumes hl: "leaf_ctx fs left (X @ P)" and hr: "leaf_ctx fs right ys" and P: "P \<noteq> []"
    and fits: "sizeof_item * (length P + length ys) + data_len P + data_len ys \<le> BTRFS_LEAF_DATA_SIZE fs"
  obtains left' right' where "push_right_items fs left right (length P) = (left', right')"
    and "leaf_ctx fs left' X" and "leaf_ctx fs right' (P @ ys)"
    and "leaf_frame left left'" and "leaf_frame right right'"
proof -
  let ?L = "BTRFS_LEAF_DATA_SIZE fs"
  note l = leaf_basic [OF hl] leaf_space [OF hl] and r = leaf_basic [OF hr] leaf_space [OF hr]
  have PL: "items_at (eb_items left) (eb_data left) (length X) (?L - data_len X) P"
    using leaf_parts(2) [OF hl, of "length X"] by simp
  have room: "data_len X + data_len P \<le> ?L" "data_len P + data_len ys \<le> ?L" using l(2) fits by simp_all
  have n: "hdr_nritems left - length P = length X" using l(1) by simp
  have push: "u32_sub (btrfs_item_end_nr left (length X)) (leaf_data_end fs left) = data_len P"
    using leaf_items_nr(4) [OF hl, of "length X"] P l(3) room by (simp add: l(5))
  have de: "u32_sub (leaf_data_end fs right) (data_len P) = ?L - (data_len ys + data_len P)"
    "u32_sub ?L (leaf_data_end fs right) = data_len ys" "u32_sub ?L (data_len P) = ?L - data_len P"
    using room r(3) by (simp_all add: r(5))
  define r2 where "r2 = copy_data (memmove_data right (?L - (data_len ys + data_len P)) (?L - data_len ys) (data_len ys))
      left (?L - data_len P) (?L - (data_len X + data_len P)) (data_len P)"
  define r5 where "r5 = (copy_items (memmove_items r2 (length P) 0 (length ys)) left 0 (length X) (length P))
      \<lparr>hdr_nritems := length ys + length P\<rparr>"
  have low: "eb_data r5 i = mem_copy (eb_data right) (eb_data right) (?L - (data_len ys + data_len P))
      (?L - data_len ys) (data_len ys) i" if "i < ?L - data_len P" for i
    using that by (simp add: r5_def r2_def eb_simps mem_copy_out)
  have "data_at (eb_data r5) ?L P"
    using items_at_data [OF PL]
  proof (rule data_at_transfer)
    show "eb_data r5 (?L - data_len P + k) = eb_data left (?L - data_len X - data_len P + k)"
      if "k < data_len P" for k
      using that by (simp add: r5_def r2_def eb_simps mem_copy_in)
  qed (use room in simp_all)
  moreover have "data_at (eb_data r5) (?L - data_len P) ys"
    using items_at_data [OF r(4)]
  proof (rule data_at_transfer)
    show "eb_data r5 (?L - data_len P - data_len ys + k) = eb_data right (?L - data_len ys + k)"
      if "k < data_len ys" for k
    proof -
      have "?L - data_len P - data_len ys + k < ?L - data_len P" using that room by linarith
      from low [OF this] that show ?thesis
        by (simp add: mem_copy_in diff_diff_left add.commute [of "data_len P"] del: Nat.add_diff_assoc2)
    qed
  qed (use room in simp_all)
  moreover have "named_at (eb_items r5) 0 P"
    using items_at_named [OF PL] by (rule named_at_cong) (simp add: r5_def r2_def eb_simps mem_copy_def)
  moreover have "named_at (eb_items r5) (length P) ys"
    using items_at_named [OF r(4)] by (rule named_at_cong) (simp add: r5_def r2_def eb_simps mem_copy_def)
  ultimately have ctx: "leaf_ctx fs (reset_offsets r5 0 (length (P @ ys)) ?L) (P @ ys)"
    using hl fits by (intro reset_offsets_ctx) (simp_all add: leaf_ctx_def r5_def)
  have "push_right_items fs left right (length P) =
      (left\<lparr>hdr_nritems := length X\<rparr>, reset_offsets r5 0 (length (P @ ys)) ?L)"
    unfolding push_right_items_def Let_def n push de r(1)
    by (simp add: r5_def r2_def l(5) r(5) add.commute)
  moreover have "leaf_frame right (reset_offsets r5 0 (length (P @ ys)) ?L)"
    by (rule reset_offsets_leaf_frame) (simp add: r5_def r2_def leaf_frame_def eb_simps)
  ultimately show thesis
    using leaf_prefix [OF hl] ctx that by (simp add: leaf_frame_def)
qed

text \<open>What \<open>push_leaf_left\<close> leaves in the right leaf: its items but the first \<open>length P\<close>.\<close>

lemma drop_front_ok:
  assumes h: "leaf_ctx fs right (P @ Y)"
  defines "r \<equiv> (if Y = [] then right else
      memmove_items (memmove_data right (BTRFS_LEAF_DATA_SIZE fs - data_len Y)
        (BTRFS_LEAF_DATA_SIZE fs - (data_len P + data_len Y)) (data_len Y)) 0 (length P) (length Y))"
  shows "leaf_ctx fs (reset_offsets (r\<lparr>hdr_nritems := length Y\<rparr>) 0 (length Y) (BTRFS_LEAF_DATA_SIZE fs)) Y"
proof -
  let ?L = "BTRFS_LEAF_DATA_SIZE fs"
  note b = leaf_basic [OF h]
  have YL: "items_at (eb_items right) (eb_data right) (length P) (?L - data_len P) Y"
    using leaf_parts(2) [OF h, of "length P"] by simp
  have "data_at (eb_data r) ?L Y"
    using items_at_data [OF YL]
  proof (rule data_at_transfer)
    show "eb_data r (?L - data_len Y + k) = eb_data right (?L - data_len P - data_len Y + k)"
      if "k < data_len Y" for k
      using that by (auto simp: r_def eb_simps mem_copy_in)
  qed (use b(2) in simp_all)
  moreover have "named_at (eb_items r) 0 Y"
    using items_at_named [OF YL] by (rule named_at_cong) (auto simp: r_def eb_simps mem_copy_def)
  ultimately show ?thesis
    using h b(2) by (intro reset_offsets_ctx) (simp_all add: leaf_ctx_def)
qed

text \<open>What it makes of the left leaf: its items followed by the first ones of the right leaf.\<close>

lemma append_items_ok:
  assumes hl: "leaf_ctx fs left xs" and P: "items_at (eb_items right) (eb_data right) 0 (BTRFS_LEAF_DATA_SIZE fs) P"
    and fits: "sizeof_item * (length xs + length P) + data_len xs + data_len P \<le> BTRFS_LEAF_DATA_SIZE fs"
  defines "l \<equiv> shift_offsets (copy_data (copy_items left right (length xs) 0 (length P)) right
      (BTRFS_LEAF_DATA_SIZE fs - (data_len xs + data_len P)) (BTRFS_LEAF_DATA_SIZE fs - data_len P) (data_len P))
      (length xs) (length xs + length P) (\<lambda>ioff. u32_sub ioff (data_len xs))"
  shows "leaf_ctx fs (l\<lparr>hdr_nritems := length xs + length P\<rparr>) (xs @ P)"
proof -
  let ?L = "BTRFS_LEAF_DATA_SIZE fs"
  note b = leaf_basic [OF hl]
  have "items_at (eb_items l) (eb_data l) 0 ?L xs"
    using b(4) by (rule items_at_cong) (use fits in \<open>auto simp: l_def eb_simps shift_offsets_items mem_copy_def\<close>)
  moreover have "items_at (eb_items l) (eb_data l) (length xs) (?L - data_len xs) P"
    using P
  proof (rule items_at_transfer)
    show "eb_data l (?L - data_len xs - data_len P + k) = eb_data right (?L - data_len P + k)"
      if "k < data_len P" for k
      using that by (simp add: l_def eb_simps shift_offsets_items mem_copy_in)
    fix j assume j: "j < length P"
    have "it_offset (eb_items right j) \<ge> data_len xs" "it_offset (eb_items right j) < 2 ^ 32"
      using items_at_nth(1) [OF P j] data_len_take [of "Suc j" P] fits b(3) by auto
    with j b(2) show "it_key (eb_items l (length xs + j)) = it_key (eb_items right (0 + j)) \<and>
         it_size (eb_items l (length xs + j)) = it_size (eb_items right (0 + j)) \<and>
         it_offset (eb_items l (length xs + j)) + ?L = it_offset (eb_items right (0 + j)) + (?L - data_len xs)"
      by (auto simp: l_def eb_simps shift_offsets_items mem_copy_def)
  qed (use fits in simp)
  ultimately show ?thesis
    using hl fits by (auto simp: leaf_ctx_def intro!: leaf_reprI)
qed

lemma push_left_items_ok:
  assumes hl: "leaf_ctx fs left xs" and hr: "leaf_ctx fs right (P @ Y)" and ne: "xs \<noteq> []" "P \<noteq> []"
    and fits: "sizeof_item * (length xs + length P) + data_len xs + data_len P \<le> BTRFS_LEAF_DATA_SIZE fs"
  obtains left' right' where "push_left_items fs left right (length P) = Some (left', right')"
    and "leaf_ctx fs left' (xs @ P)" and "leaf_ctx fs right' Y"
    and "leaf_frame left left'" and "leaf_frame right right'"
proof -
  let ?L = "BTRFS_LEAF_DATA_SIZE fs"
  note l = leaf_basic [OF hl] leaf_space [OF hl] and r = leaf_basic [OF hr] leaf_space [OF hr]
  have P: "items_at (eb_items right) (eb_data right) 0 ?L P"
    using leaf_parts(1) [OF hr, of "length P"] by simp
  have offP: "btrfs_item_offset_nr right (length P - 1) = ?L - data_len P"
    using leaf_items_nr(1) [OF hr, of "length P - 1"] ne by (cases P) simp_all
  define c where "c = copy_items left right (length xs) 0 (length P)"
  have c: "leaf_data_end fs c = ?L - data_len xs" "hdr_nritems c = length xs"
    using l(1,5) ne by (cases xs; simp add: c_def leaf_data_end_def eb_simps mem_copy_out)+
  define d where "d = copy_data c right (?L - (data_len xs + data_len P)) (?L - data_len P) (data_len P)"
  have d: "btrfs_item_offset_nr d (length xs - 1) = ?L - data_len xs" "hdr_nritems d = length xs"
    using c l(5) ne by (simp_all add: d_def leaf_data_end_def eb_simps)
  define rr where "rr = (if Y = [] then right else
      memmove_items (memmove_data right (?L - data_len Y) (?L - (data_len P + data_len Y)) (data_len Y)) 0 (length P) (length Y))"
  have u: "u32_sub ?L (?L - data_len P) = data_len P" "u32_sub (?L - data_len xs) (data_len P) = ?L - (data_len xs + data_len P)"
    "u32_sub ?L (?L - data_len xs) = data_len xs" "u32_sub (?L - data_len P) (?L - (data_len P + data_len Y)) = data_len Y"
    "u32_sub ?L (data_len Y) = ?L - data_len Y"
    using fits r(2) l(3) by simp_all
  have "push_left_items fs left right (length P) =
      Some ((shift_offsets d (length xs) (length xs + length P) (\<lambda>ioff. u32_sub ioff (data_len xs)))\<lparr>hdr_nritems := length xs + length P\<rparr>,
        reset_offsets (rr\<lparr>hdr_nritems := length Y\<rparr>) 0 (length Y) ?L)"
    unfolding push_left_items_def Let_def offP l(1) c_def [symmetric] c u d_def [symmetric] d r(1,5)
    using ne by (simp add: rr_def u memmove_data_def r(1))
  moreover have "leaf_frame right (reset_offsets (rr\<lparr>hdr_nritems := length Y\<rparr>) 0 (length Y) ?L)"
    by (rule reset_offsets_leaf_frame) (simp add: rr_def leaf_frame_def eb_simps)
  moreover have "leaf_frame left ((shift_offsets d (length xs) (length xs + length P)
      (\<lambda>ioff. u32_sub ioff (data_len xs)))\<lparr>hdr_nritems := length xs + length P\<rparr>)"
    by (simp add: leaf_frame_def d_def c_def eb_simps shift_offsets_items)
  ultimately show thesis
    using append_items_ok [OF hl P fits] drop_front_ok [OF hr] that by (simp add: rr_def d_def c_def)
qed

lemma copy_for_split_items_ok:
  assumes h: "leaf_ctx fs l (X @ Y)" and Y: "Y \<noteq> []"
  obtains l' right' where "copy_for_split_items fs l right (length X) (length (X @ Y)) = (l', right')"
    and "leaf_ctx fs l' X" and "leaf_ctx fs right' Y" and "leaf_frame l l'" and "leaf_frame right right'"
proof -
  let ?L = "BTRFS_LEAF_DATA_SIZE fs"
  note b = leaf_basic [OF h] leaf_space [OF h]
  have YL: "items_at (eb_items l) (eb_data l) (length X) (?L - data_len X) Y"
    using leaf_parts(2) [OF h, of "length X"] by simp
  have e: "btrfs_item_end_nr l (length X) = ?L - data_len X"
    using leaf_items_nr(4) [OF h, of "length X"] Y by simp
  have u: "u32_sub (?L - data_len X) (?L - data_len (X @ Y)) = data_len Y" "u32_sub ?L (data_len Y) = ?L - data_len Y"
    "u32_sub ?L (?L - data_len X) = data_len X" "length (X @ Y) - length X = length Y"
    using b(2,3) by simp_all
  define r where "r = shift_offsets (copy_data (copy_items (right\<lparr>hdr_nritems := length Y\<rparr>) l 0 (length X) (length Y)) l
      (?L - data_len Y) (?L - data_len (X @ Y)) (data_len Y)) 0 (length Y) (\<lambda>ioff. u32_add ioff (data_len X))"
  have "items_at (eb_items r) (eb_data r) 0 ?L Y"
    using YL
  proof (rule items_at_transfer)
    show "eb_data r (?L - data_len Y + k) = eb_data l (?L - data_len X - data_len Y + k)"
      if "k < data_len Y" for k
      using that by (simp add: r_def eb_simps shift_offsets_items mem_copy_in)
    fix j assume j: "j < length Y"
    have "it_offset (eb_items l (length X + j)) + data_len X < 2 ^ 32"
      using items_at_nth(1) [OF YL j] b(2,3) by simp
    with j b(2) show "it_key (eb_items r (0 + j)) = it_key (eb_items l (length X + j)) \<and>
         it_size (eb_items r (0 + j)) = it_size (eb_items l (length X + j)) \<and>
         it_offset (eb_items r (0 + j)) + (?L - data_len X) = it_offset (eb_items l (length X + j)) + ?L"
      by (simp add: r_def eb_simps shift_offsets_items mem_copy_def)
  qed (use b(2) in simp)
  then have "leaf_ctx fs r Y"
    using h b(2) by (auto simp: leaf_ctx_def r_def eb_simps shift_offsets_items intro!: leaf_reprI)
  moreover have "copy_for_split_items fs l right (length X) (length (X @ Y)) = (l\<lparr>hdr_nritems := length X\<rparr>, r)"
    unfolding copy_for_split_items_def Let_def e b(5) u r_def by simp
  moreover have "leaf_frame right r" by (simp add: leaf_frame_def r_def eb_simps shift_offsets_items)
  ultimately show thesis
    using leaf_prefix [OF h] that by (simp add: leaf_frame_def)
qed

end
