(* ===== verification/BlockCheck.thy ===== *)
theory BlockCheck
  imports LeafItems ExtentCache
begin

text \<open>
  The checks of a tree block (\<open>btrfs_check_node\<close>, \<open>btrfs_check_leaf\<close> in \<open>ctree.c\<close>) and
  the record of corrupt blocks they keep for a repair (\<open>repair.c\<close>). The record is a cache tree
  whose nodes carry a key and a level; the payload of the node that starts at an address is kept in
  a map from that address.

  The lemmas show that a block that passes is well-formed, as far as the checks go: for a leaf when
  no item wraps around \<open>2 ^ 32\<close> and there is not exactly one item, for a node except for its last
  pair of keys; and that a well-formed block passes.
\<close>

section \<open>The record of corrupt blocks\<close>

record corrupt_blocks =
  cb_tree :: cache_tree
  cb_payload :: "u64 \<rightharpoonup> btrfs_key \<times> nat"

text \<open>
  The first argument says whether \<open>malloc\<close> succeeds, the second is the \<open>objectid\<close> that the
  code leaves uninitialised.
\<close>

definition btrfs_add_corrupt_extent_record ::
    "bool \<Rightarrow> u64 \<Rightarrow> corrupt_blocks option \<Rightarrow> btrfs_key \<Rightarrow> u64 \<Rightarrow> u64 \<Rightarrow> nat \<Rightarrow> (int \<times> corrupt_blocks option) option" where
  "btrfs_add_corrupt_extent_record mem garbage info first_key start len level =
     (case info of
        None \<Rightarrow> Some (0, None)
      | Some cb \<Rightarrow>
          if \<not> mem then Some (-ENOMEM, Some cb)
          else
            (case insert_cache_extent (cb_tree cb)
                    \<lparr>ce_objectid = garbage, ce_start = start, ce_size = len\<rparr> of
               None \<Rightarrow> None
             | Some (ret, tree) \<Rightarrow>
                 if ret \<noteq> 0 then
                   (if ret \<noteq> -EEXIST then None else Some (ret, Some cb))
                 else Some (0, Some \<lparr>cb_tree = tree, cb_payload = (cb_payload cb)(start \<mapsto> (first_key, level))\<rparr>)))"

section \<open>The checks\<close>

datatype btrfs_tree_block_status =
    BTRFS_TREE_BLOCK_CLEAN
  | BTRFS_TREE_BLOCK_INVALID_NRITEMS
  | BTRFS_TREE_BLOCK_INVALID_PARENT_KEY
  | BTRFS_TREE_BLOCK_BAD_KEY_ORDER
  | BTRFS_TREE_BLOCK_INVALID_LEVEL
  | BTRFS_TREE_BLOCK_INVALID_FREE_SPACE
  | BTRFS_TREE_BLOCK_INVALID_OFFSETS

abbreviation BTRFS_EXTENT_TREE_OBJECTID :: u64 where "BTRFS_EXTENT_TREE_OBJECTID \<equiv> 2"

text \<open>\<open>parent_key && parent_key->type && memcmp(parent_key, &key, sizeof(key))\<close>\<close>

definition parent_key_bad :: "btrfs_key option \<Rightarrow> btrfs_key \<Rightarrow> bool" where
  "parent_key_bad parent_key key \<longleftrightarrow>
     (case parent_key of None \<Rightarrow> False | Some k \<Rightarrow> key_type k \<noteq> 0 \<and> k \<noteq> key)"

fun check_node_loop :: "extent_buffer \<Rightarrow> nat \<Rightarrow> nat \<Rightarrow> bool" where
  "check_node_loop buf i 0 = True"
| "check_node_loop buf i (Suc n) =
     (if btrfs_comp_keys (btrfs_node_key buf i) (btrfs_node_key buf (i + 1)) \<ge> 0 then False
      else check_node_loop buf (Suc i) n)"

definition check_node_status :: "btrfs_fs_info \<Rightarrow> btrfs_key option \<Rightarrow> extent_buffer \<Rightarrow> btrfs_tree_block_status" where
  "check_node_status fs parent_key buf =
     (let nritems = hdr_nritems buf in
      if nritems = 0 \<or> nritems > BTRFS_NODEPTRS_PER_BLOCK fs then BTRFS_TREE_BLOCK_INVALID_NRITEMS
      else if parent_key_bad parent_key (btrfs_node_key buf 0) then BTRFS_TREE_BLOCK_INVALID_PARENT_KEY
      else if nritems > 1 \<and> \<not> check_node_loop buf 0 (nritems - 2) then BTRFS_TREE_BLOCK_BAD_KEY_ORDER
      else BTRFS_TREE_BLOCK_CLEAN)"

definition btrfs_check_node ::
    "bool \<Rightarrow> u64 \<Rightarrow> btrfs_fs_info \<Rightarrow> corrupt_blocks option \<Rightarrow> btrfs_key option \<Rightarrow> extent_buffer \<Rightarrow>
     (btrfs_tree_block_status \<times> corrupt_blocks option) option" where
  "btrfs_check_node mem garbage fs info parent_key buf =
     (let ret = check_node_status fs parent_key buf in
      if ret = BTRFS_TREE_BLOCK_CLEAN \<or> hdr_owner buf \<noteq> BTRFS_EXTENT_TREE_OBJECTID then Some (ret, info)
      else
        let cpukey = (case parent_key of Some k \<Rightarrow> k | None \<Rightarrow> btrfs_node_key buf 0) in
        map_option (\<lambda>(_, info'). (ret, info'))
          (btrfs_add_corrupt_extent_record mem garbage info cpukey (eb_start buf) (of_nat (eb_len buf)) (hdr_level buf)))"

text \<open>The first loop of \<open>btrfs_check_leaf\<close>: \<open>None\<close> when it runs to its end.\<close>

fun check_leaf_loop :: "btrfs_fs_info \<Rightarrow> extent_buffer \<Rightarrow> nat \<Rightarrow> nat \<Rightarrow> btrfs_tree_block_status option" where
  "check_leaf_loop fs buf i 0 = None"
| "check_leaf_loop fs buf i (Suc n) =
     (if btrfs_comp_keys (btrfs_item_key buf i) (btrfs_item_key buf (i + 1)) \<ge> 0
      then Some BTRFS_TREE_BLOCK_BAD_KEY_ORDER
      else if btrfs_item_offset_nr buf i \<noteq> btrfs_item_end_nr buf (i + 1)
      then Some BTRFS_TREE_BLOCK_INVALID_OFFSETS
      else if i = 0 \<and> btrfs_item_end_nr buf i \<noteq> BTRFS_LEAF_DATA_SIZE fs
      then Some BTRFS_TREE_BLOCK_INVALID_OFFSETS
      else check_leaf_loop fs buf (Suc i) n)"

definition check_leaf_status :: "btrfs_fs_info \<Rightarrow> btrfs_key option \<Rightarrow> extent_buffer \<Rightarrow> btrfs_tree_block_status" where
  "check_leaf_status fs parent_key buf =
     (let nritems = hdr_nritems buf in
      if nritems * sizeof_item > eb_len buf then BTRFS_TREE_BLOCK_INVALID_NRITEMS
      else if hdr_level buf \<noteq> 0 then BTRFS_TREE_BLOCK_INVALID_LEVEL
      else if btrfs_leaf_free_space fs buf < 0 then BTRFS_TREE_BLOCK_INVALID_FREE_SPACE
      else if nritems = 0 then BTRFS_TREE_BLOCK_CLEAN
      else if parent_key_bad parent_key (btrfs_item_key buf 0) then BTRFS_TREE_BLOCK_INVALID_PARENT_KEY
      else
        (case (if nritems > 1 then check_leaf_loop fs buf 0 (nritems - 1) else None) of
           Some status \<Rightarrow> status
         | None \<Rightarrow>
             if list_ex (\<lambda>i. btrfs_item_end_nr buf i > BTRFS_LEAF_DATA_SIZE fs) [0..<nritems]
             then BTRFS_TREE_BLOCK_INVALID_OFFSETS
             else BTRFS_TREE_BLOCK_CLEAN))"

definition btrfs_check_leaf ::
    "bool \<Rightarrow> u64 \<Rightarrow> btrfs_fs_info \<Rightarrow> corrupt_blocks option \<Rightarrow> btrfs_key option \<Rightarrow> extent_buffer \<Rightarrow>
     (btrfs_tree_block_status \<times> corrupt_blocks option) option" where
  "btrfs_check_leaf mem garbage fs info parent_key buf =
     (let ret = check_leaf_status fs parent_key buf in
      if ret = BTRFS_TREE_BLOCK_CLEAN \<or> hdr_owner buf \<noteq> BTRFS_EXTENT_TREE_OBJECTID then Some (ret, info)
      else
        let cpukey = (case parent_key of Some k \<Rightarrow> k | None \<Rightarrow> btrfs_item_key buf 0) in
        map_option (\<lambda>(_, info'). (ret, info'))
          (btrfs_add_corrupt_extent_record mem garbage info cpukey (eb_start buf) (of_nat (eb_len buf)) 0))"

section \<open>Binary search\<close>

function generic_bin_search :: "(nat \<Rightarrow> btrfs_key) \<Rightarrow> btrfs_key \<Rightarrow> nat \<Rightarrow> nat \<Rightarrow> int \<times> nat" where
  "generic_bin_search keys key low high =
     (if low < high then
        let mid = (low + high) div 2;
            ret = btrfs_comp_keys (keys mid) key
        in if ret < 0 then generic_bin_search keys key (mid + 1) high
           else if ret > 0 then generic_bin_search keys key low mid
           else (0, mid)
      else (1, low))"
  by pat_completeness auto

termination
  by (relation "measure (\<lambda>(_, _, low, high). high - low)") auto

declare generic_bin_search.simps [simp del]

definition bin_search :: "extent_buffer \<Rightarrow> btrfs_key \<Rightarrow> nat \<Rightarrow> int \<times> nat" where
  "bin_search eb key level =
     (if level = 0 then generic_bin_search (btrfs_item_key eb) key 0 (hdr_nritems eb)
      else generic_bin_search (btrfs_node_key eb) key 0 (hdr_nritems eb))"

section \<open>What the checks establish\<close>

lemma check_node_loop_iff:
  "check_node_loop buf i n \<longleftrightarrow> (\<forall>j<n. btrfs_node_key buf (i + j) < btrfs_node_key buf (Suc (i + j)))"
  by (induction buf i n rule: check_node_loop.induct) (auto simp: less_Suc_eq_0_disj not_le)

definition node_keys :: "extent_buffer \<Rightarrow> btrfs_key list" where
  "node_keys eb = map (btrfs_node_key eb) [0..<hdr_nritems eb]"

lemma check_node_clean_iff:
  "check_node_status fs parent_key buf = BTRFS_TREE_BLOCK_CLEAN \<longleftrightarrow>
     0 < hdr_nritems buf \<and> hdr_nritems buf \<le> BTRFS_NODEPTRS_PER_BLOCK fs \<and>
     \<not> parent_key_bad parent_key (btrfs_node_key buf 0) \<and> sorted_wrt (<) (butlast (node_keys buf))"
proof -
  have "butlast (node_keys buf) = map (btrfs_node_key buf) [0..<hdr_nritems buf - 1]"
    by (cases "hdr_nritems buf") (simp_all add: node_keys_def)
  moreover have "j < n - 2 \<longleftrightarrow> Suc j < n - 1" for j n :: nat by linarith
  ultimately show ?thesis
    by (auto simp: check_node_status_def Let_def check_node_loop_iff adjacent_sorted)
qed

lemma check_leaf_loop_None:
  "check_leaf_loop fs buf i n = None \<longleftrightarrow>
     (\<forall>j<n. btrfs_item_key buf (i + j) < btrfs_item_key buf (Suc (i + j)) \<and>
            btrfs_item_offset_nr buf (i + j) = btrfs_item_end_nr buf (Suc (i + j))) \<and>
     (i = 0 \<and> 0 < n \<longrightarrow> btrfs_item_end_nr buf 0 = BTRFS_LEAF_DATA_SIZE fs)"
  by (induction fs buf i n rule: check_leaf_loop.induct) (auto simp: less_Suc_eq_0_disj not_le)

lemma check_leaf_loop_bad:
  "check_leaf_loop fs buf i n = Some st \<Longrightarrow> st \<noteq> BTRFS_TREE_BLOCK_CLEAN"
  by (induction fs buf i n rule: check_leaf_loop.induct) (auto split: if_splits)

lemma check_leaf_clean_iff:
  "check_leaf_status fs parent_key buf = BTRFS_TREE_BLOCK_CLEAN \<longleftrightarrow>
     hdr_nritems buf * sizeof_item \<le> eb_len buf \<and> hdr_level buf = 0 \<and> 0 \<le> btrfs_leaf_free_space fs buf \<and>
     (0 < hdr_nritems buf \<longrightarrow>
        \<not> parent_key_bad parent_key (btrfs_item_key buf 0) \<and>
        (\<forall>i. Suc i < hdr_nritems buf \<longrightarrow> btrfs_item_key buf i < btrfs_item_key buf (Suc i) \<and>
             btrfs_item_offset_nr buf i = btrfs_item_end_nr buf (Suc i)) \<and>
        (1 < hdr_nritems buf \<longrightarrow> btrfs_item_end_nr buf 0 = BTRFS_LEAF_DATA_SIZE fs) \<and>
        (\<forall>i<hdr_nritems buf. btrfs_item_end_nr buf i \<le> BTRFS_LEAF_DATA_SIZE fs))"
proof (cases "check_leaf_loop fs buf 0 (hdr_nritems buf - 1)")
  case None
  then have "(\<forall>i. Suc i < hdr_nritems buf \<longrightarrow> btrfs_item_key buf i < btrfs_item_key buf (Suc i) \<and>
             btrfs_item_offset_nr buf i = btrfs_item_end_nr buf (Suc i)) \<and>
        (1 < hdr_nritems buf \<longrightarrow> btrfs_item_end_nr buf 0 = BTRFS_LEAF_DATA_SIZE fs)"
    by (auto simp: check_leaf_loop_None)
  with None show ?thesis
    by (auto simp: check_leaf_status_def Let_def list_ex_iff not_le not_less)
next
  case (Some st)
  then have "hdr_nritems buf > 1" by (cases "hdr_nritems buf - 1") auto
  moreover have "\<not> ((\<forall>i. Suc i < hdr_nritems buf \<longrightarrow> btrfs_item_key buf i < btrfs_item_key buf (Suc i) \<and>
             btrfs_item_offset_nr buf i = btrfs_item_end_nr buf (Suc i)) \<and>
        btrfs_item_end_nr buf 0 = BTRFS_LEAF_DATA_SIZE fs)"
    using Some check_leaf_loop_None [of fs buf 0 "hdr_nritems buf - 1"] by auto
  ultimately show ?thesis
    using Some check_leaf_loop_bad [OF Some] by (auto simp: check_leaf_status_def Let_def)
qed

lemma map_fst_leaf_items: "map fst (leaf_items buf) = map (btrfs_item_key buf) [0..<hdr_nritems buf]"
  by (simp add: leaf_items_def btrfs_item_key_def)

text \<open>No item of the block wraps around.\<close>

definition no_wrap :: "extent_buffer \<Rightarrow> bool" where
  "no_wrap buf \<longleftrightarrow>
     (\<forall>i<hdr_nritems buf. it_offset (eb_items buf i) + it_size (eb_items buf i) < 2 ^ 32)"

lemma free_space_raw:
  assumes "0 < hdr_nritems buf" "hdr_nritems buf \<le> 2 ^ 20" "fs_ok fs"
    "btrfs_item_end_nr buf 0 \<le> BTRFS_LEAF_DATA_SIZE fs" "btrfs_item_offset_nr buf (hdr_nritems buf - 1) \<le> BTRFS_LEAF_DATA_SIZE fs"
  shows "btrfs_leaf_free_space fs buf =
     int (BTRFS_LEAF_DATA_SIZE fs) - int (btrfs_item_end_nr buf 0) +
     int (btrfs_item_offset_nr buf (hdr_nritems buf - 1)) - int (sizeof_item * hdr_nritems buf)"
  using assms leaf_data_size_small [of fs]
  by (simp add: btrfs_leaf_free_space_def leaf_space_used_def)

lemma check_leaf_sound:
  assumes clean: "check_leaf_status fs parent_key buf = BTRFS_TREE_BLOCK_CLEAN"
    and fs: "fs_ok fs" and len: "eb_len buf \<le> 65536" and wrap: "no_wrap buf" and n: "hdr_nritems buf \<noteq> 1"
  shows "leaf_inv fs buf"
proof (cases "hdr_nritems buf = 0")
  case True
  then show ?thesis
    using clean by (simp add: check_leaf_clean_iff leaf_inv_def leaf_layout_def leaf_items_def)
next
  case False
  let ?n = "hdr_nritems buf" and ?L = "BTRFS_LEAF_DATA_SIZE fs"
  note c = clean [unfolded check_leaf_clean_iff]
  have ends: "btrfs_item_end_nr buf i = it_offset (eb_items buf i) + it_size (eb_items buf i)" if "i < ?n" for i
    using wrap that by (simp add: no_wrap_def eb_simps)
  have adj: "it_offset (eb_items buf i) + it_size (eb_items buf i) = data_limit fs buf i" if "i < ?n" for i
    using c ends [OF that] that n False
    by (cases i) (auto simp: data_limit_def btrfs_item_offset_nr_def)
  have "btrfs_item_end_nr buf (?n - 1) \<le> ?L" using c False by simp
  with ends [of "?n - 1"] False have off: "btrfs_item_offset_nr buf (?n - 1) \<le> ?L"
    by (simp add: btrfs_item_offset_nr_def)
  have "int (sizeof_item * ?n) \<le> int (btrfs_item_offset_nr buf (?n - 1))"
    using free_space_raw [of buf fs] c False n len off fs by auto
  then have "leaf_layout fs buf"
    using adj False by (simp add: leaf_layout_def data_limit_def btrfs_item_offset_nr_def)
  with c False show ?thesis
    by (auto simp: leaf_inv_def map_fst_leaf_items adjacent_sorted)
qed

lemma check_leaf_complete:
  assumes inv: "leaf_inv fs buf" and fs: "fs_ok fs" and len: "nodesize fs \<le> eb_len buf"
    and parent: "parent_key = None \<or> leaf_items buf = [] \<or> parent_key = Some (fst (hd (leaf_items buf)))"
  shows "check_leaf_status fs parent_key buf = BTRFS_TREE_BLOCK_CLEAN"
proof -
  let ?xs = "leaf_items buf"
  have h: "leaf_ctx fs buf ?xs" using inv fs by (simp add: leaf_inv_def leaf_ctxI)
  note b = leaf_basic [OF h] and nr = leaf_items_nr [OF h] and sp = leaf_space [OF h]
  have "hdr_nritems buf * sizeof_item \<le> eb_len buf"
    using b(1,2) len by (simp add: leaf_data_size [OF fs])
  moreover have "btrfs_item_key buf i < btrfs_item_key buf (Suc i)" if "Suc i < hdr_nritems buf" for i
    using inv that by (simp add: leaf_inv_def map_fst_leaf_items adjacent_sorted)
  moreover have "\<not> parent_key_bad parent_key (btrfs_item_key buf 0)" if "0 < hdr_nritems buf"
    using parent that b(1) nr(3) [of 0] by (auto simp: parent_key_bad_def hd_conv_nth split: option.splits)
  ultimately show ?thesis
    using inv by (auto simp: check_leaf_clean_iff leaf_inv_def b(1) nr sp(3))
qed

section \<open>What the search finds\<close>

text \<open>The place of a key among \<open>n\<close> keys: the result of a search.\<close>

definition search_result :: "(nat \<Rightarrow> btrfs_key) \<Rightarrow> nat \<Rightarrow> btrfs_key \<Rightarrow> int \<times> nat \<Rightarrow> bool" where
  "search_result keys n key r \<longleftrightarrow>
     (case r of (ret, slot) \<Rightarrow>
        slot \<le> n \<and> (\<forall>i < slot. keys i < key) \<and>
        (if ret = 0 then slot < n \<and> keys slot = key
         else ret = 1 \<and> (\<forall>i. slot \<le> i \<and> i < n \<longrightarrow> key < keys i)))"

lemma generic_bin_search_ok:
  assumes sorted: "\<And>i j. i < j \<Longrightarrow> j < n \<Longrightarrow> keys i < keys j"
    and "high \<le> n" and "low \<le> high"
    and "\<And>i. i < low \<Longrightarrow> keys i < key" and "\<And>i. high \<le> i \<Longrightarrow> i < n \<Longrightarrow> key < keys i"
  shows "search_result keys n key (generic_bin_search keys key low high)"
  using assms
proof (induction keys key low high rule: generic_bin_search.induct)
  case (1 keys key low high)
  let ?mid = "(low + high) div 2"
  show ?case
  proof (cases "low < high")
    case True
    then have mid: "low \<le> ?mid" "?mid < high" "?mid < n" using "1.prems"(2) by auto
    consider "keys ?mid < key" | "key < keys ?mid" | "keys ?mid = key" by fastforce
    then show ?thesis
    proof cases
      case 1
      have "keys i < key" if "i < ?mid + 1" for i
        using that 1 mid "1.prems"(1) [of i ?mid] by (cases "i = ?mid") (auto intro: less_trans)
      with 1 True mid "1.IH"(1) [OF True refl refl] "1.prems" show ?thesis
        by (subst generic_bin_search.simps) (simp add: Let_def)
    next
      case 2
      have "key < keys i" if "?mid \<le> i" "i < n" for i
        using that 2 "1.prems"(1) [of ?mid i] by (cases "i = ?mid") (auto intro: less_trans)
      with 2 True mid "1.IH"(2) [OF True refl refl] "1.prems" show ?thesis
        by (subst generic_bin_search.simps) (simp add: Let_def less_not_sym)
    next
      case 3
      then have "keys i < key" if "i < ?mid" for i using "1.prems"(1) [of i ?mid] that mid by simp
      with 3 True mid show ?thesis
        by (subst generic_bin_search.simps) (simp add: Let_def search_result_def)
    qed
  next
    case False
    with "1.prems" show ?thesis
      by (subst generic_bin_search.simps) (auto simp: search_result_def)
  qed
qed

lemma sorted_nth_keys:
  "sorted_wrt (<) (map f [0..<n]) \<Longrightarrow> i < j \<Longrightarrow> j < n \<Longrightarrow> f i < f j"
  using sorted_wrt_nth_less [of "(<)" "map f [0..<n]" i j] by simp

lemma sorted_bin_search_ok:
  "sorted_wrt (<) (map keys [0..<n]) \<Longrightarrow> search_result keys n key (generic_bin_search keys key 0 n)"
  by (rule generic_bin_search_ok) (simp_all add: sorted_nth_keys)

lemma bin_search_leaf:
  "leaf_inv fs eb \<Longrightarrow> search_result (btrfs_item_key eb) (hdr_nritems eb) key (bin_search eb key 0)"
  by (simp add: bin_search_def leaf_inv_def map_fst_leaf_items sorted_bin_search_ok)

lemma bin_search_node:
  "sorted_wrt (<) (node_keys eb) \<Longrightarrow> level \<noteq> 0 \<Longrightarrow>
     search_result (btrfs_node_key eb) (hdr_nritems eb) key (bin_search eb key level)"
  by (simp add: bin_search_def node_keys_def sorted_bin_search_ok)

end
