(* ===== verification/TreeSearch.thy ===== *)
theory TreeSearch
  imports BlockCheck
begin

text \<open>
  Reading a tree (\<open>ctree.c\<close>): \<open>btrfs_search_slot\<close> as it runs without a transaction
  (\<open>cow = 0\<close>, \<open>ins_len = 0\<close>), \<open>btrfs_find_item\<close> and the walks to the next and the
  previous leaf and item.

  \<open>rd bytenr transid\<close> stands for \<open>read_tree_block\<close> (\<open>disk-io.c\<close>): the block read, or
  \<open>None\<close> when no up-to-date buffer could be had. A path holds the blocks themselves, since
  nothing here changes a block. Read-ahead has no effect on the result and is left out.

  A path is a position in the sequence \<open>tree_items\<close> of all items of the tree:
  \<open>items_before\<close> and \<open>items_after\<close> are the two parts. The lemmas state each walk by what it
  does to that position.
\<close>

abbreviation BTRFS_MAX_LEVEL :: nat where "BTRFS_MAX_LEVEL \<equiv> 8"

record btrfs_path =
  nodes :: "nat \<Rightarrow> extent_buffer option"
  slots :: "nat \<Rightarrow> nat"
  lowest_level :: nat
  skip_check_block :: bool

type_synonym reader = "u64 \<Rightarrow> u64 \<Rightarrow> extent_buffer option"

section \<open>Search\<close>

definition check_block ::
    "bool \<Rightarrow> u64 \<Rightarrow> btrfs_fs_info \<Rightarrow> corrupt_blocks option \<Rightarrow> btrfs_path \<Rightarrow> nat \<Rightarrow> (int \<times> corrupt_blocks option) option" where
  "check_block mem garbage fs info path level =
     (if skip_check_block path then Some (0, info)
      else
        let key_ptr = map_option (\<lambda>parent. btrfs_node_key parent (slots path (level + 1))) (nodes path (level + 1)) in
        case nodes path level of
          None \<Rightarrow> None
        | Some b \<Rightarrow>
            map_option (\<lambda>(ret, info'). (if ret = BTRFS_TREE_BLOCK_CLEAN then 0 else -EIO, info'))
              (if level = 0 then btrfs_check_leaf mem garbage fs info key_ptr b
               else btrfs_check_node mem garbage fs info key_ptr b))"

text \<open>The result is \<open>Inl 0\<close> for a null pointer and \<open>Inl (-EIO)\<close> for \<open>ERR_PTR(-EIO)\<close>.\<close>

definition read_node_slot :: "reader \<Rightarrow> extent_buffer \<Rightarrow> int \<Rightarrow> int + extent_buffer" where
  "read_node_slot rd parent slot =
     (let level = hdr_level parent in
      if slot < 0 then Inl 0
      else if slot \<ge> int (hdr_nritems parent) then Inl 0
      else if level = 0 then Inl 0
      else
        case rd (btrfs_node_blockptr parent (nat slot)) (btrfs_node_ptr_generation parent (nat slot)) of
          None \<Rightarrow> Inl (-EIO)
        | Some ret \<Rightarrow> if int (hdr_level ret) \<noteq> int level - 1 then Inl (-EIO) else Inr ret)"

lemma read_node_slot_level: "read_node_slot rd b slot = Inr c \<Longrightarrow> hdr_level b = Suc (hdr_level c)"
  by (auto simp: read_node_slot_def Let_def split: if_splits option.splits)

text \<open>
  The loop of \<open>btrfs_search_slot\<close>. A block of level 8 or more would be stored behind the end of
  the array in the path.
\<close>

function search_slot_loop ::
    "bool \<Rightarrow> u64 \<Rightarrow> btrfs_fs_info \<Rightarrow> reader \<Rightarrow> btrfs_key \<Rightarrow> btrfs_path \<Rightarrow> corrupt_blocks option \<Rightarrow> extent_buffer \<Rightarrow>
     (int \<times> btrfs_path \<times> corrupt_blocks option) option" where
  "search_slot_loop mem garbage fs rd key p info b =
     (let level = hdr_level b in
      if level \<ge> BTRFS_MAX_LEVEL then None
      else
        let p1 = p\<lparr>nodes := (nodes p)(level := Some b)\<rparr> in
        case check_block mem garbage fs info p1 level of
          None \<Rightarrow> None
        | Some (ret, info1) \<Rightarrow>
            if ret \<noteq> 0 then Some (-1, p1, info1)
            else
              let r = bin_search b key level;
                  slot = (if level \<noteq> 0 \<and> fst r \<noteq> 0 \<and> snd r > 0 then snd r - 1 else snd r);
                  p2 = p1\<lparr>slots := (slots p1)(level := slot)\<rparr>
              in if level \<noteq> 0 then
                   if level = lowest_level p then Some (1, p2, info1)
                   else
                     (case read_node_slot rd b (int slot) of
                        Inl _ \<Rightarrow> Some (-EIO, p2, info1)
                      | Inr c \<Rightarrow> search_slot_loop mem garbage fs rd key p2 info1 c)
                 else Some (fst r, p2, info1))"
  by pat_completeness auto

termination
  by (relation "measure (\<lambda>(_, _, _, _, _, _, _, b). hdr_level b)") (auto dest: read_node_slot_level)

declare search_slot_loop.simps [simp del]

definition btrfs_search_slot ::
    "bool \<Rightarrow> u64 \<Rightarrow> btrfs_fs_info \<Rightarrow> reader \<Rightarrow> extent_buffer \<Rightarrow> btrfs_key \<Rightarrow> btrfs_path \<Rightarrow> corrupt_blocks option \<Rightarrow>
     (int \<times> btrfs_path \<times> corrupt_blocks option) option" where
  "btrfs_search_slot mem garbage fs rd root_node key p info =
     search_slot_loop mem garbage fs rd key p info root_node"

section \<open>Walking from leaf to leaf\<close>

text \<open>
  The first loop of \<open>btrfs_next_leaf\<close> looks for a level whose slot is not the last one:
  \<open>Inl\<close> is a return value, \<open>Inr\<close> the level and the slot.
\<close>

function next_leaf_up :: "btrfs_path \<Rightarrow> nat \<Rightarrow> int + nat \<times> nat \<times> extent_buffer" where
  "next_leaf_up path level =
     (if level \<ge> BTRFS_MAX_LEVEL then Inl 1
      else
        case nodes path level of
          None \<Rightarrow> Inl 1
        | Some c \<Rightarrow>
            let slot = slots path level + 1 in
            if slot \<ge> hdr_nritems c then next_leaf_up path (level + 1)
            else Inr (level, slot, c))"
  by pat_completeness auto

termination
  by (relation "measure (\<lambda>(_, level). BTRFS_MAX_LEVEL - level)") auto

text \<open>The second loop goes down to the first leaf below; the slot of a new block is \<open>first_slot\<close>.\<close>

fun leaf_down :: "reader \<Rightarrow> (extent_buffer \<Rightarrow> nat) \<Rightarrow> btrfs_path \<Rightarrow> nat \<Rightarrow> extent_buffer \<Rightarrow> int \<times> btrfs_path" where
  "leaf_down rd first_slot path 0 next = (0, path)"
| "leaf_down rd first_slot path (Suc level) next =
     (let path1 = path\<lparr>nodes := (nodes path)(level := Some next),
                       slots := (slots path)(level := first_slot next)\<rparr>
      in if level = 0 then (0, path1)
         else
           case read_node_slot rd next (int (first_slot next)) of
             Inl _ \<Rightarrow> (-EIO, path1)
           | Inr next' \<Rightarrow> leaf_down rd first_slot path1 level next')"

definition btrfs_next_leaf :: "reader \<Rightarrow> btrfs_path \<Rightarrow> int \<times> btrfs_path" where
  "btrfs_next_leaf rd path =
     (case next_leaf_up path 1 of
        Inl ret \<Rightarrow> (ret, path)
      | Inr (level, slot, c) \<Rightarrow>
          (case read_node_slot rd c (int slot) of
             Inl _ \<Rightarrow> (-EIO, path)
           | Inr next \<Rightarrow>
               leaf_down rd (\<lambda>_. 0) (path\<lparr>slots := (slots path)(level := slot)\<rparr>) level next))"

function prev_leaf_up :: "btrfs_path \<Rightarrow> nat \<Rightarrow> int + nat \<times> nat \<times> extent_buffer" where
  "prev_leaf_up path level =
     (if level \<ge> BTRFS_MAX_LEVEL then Inl 1
      else
        case nodes path level of
          None \<Rightarrow> Inl 1
        | Some c \<Rightarrow>
            let slot = slots path level in
            if slot = 0 then prev_leaf_up path (level + 1)
            else Inr (level, slot - 1, c))"
  by pat_completeness auto

termination
  by (relation "measure (\<lambda>(_, level). BTRFS_MAX_LEVEL - level)") auto

definition btrfs_prev_leaf :: "reader \<Rightarrow> btrfs_path \<Rightarrow> int \<times> btrfs_path" where
  "btrfs_prev_leaf rd path =
     (case prev_leaf_up path 1 of
        Inl ret \<Rightarrow> (ret, path)
      | Inr (level, slot, c) \<Rightarrow>
          (case read_node_slot rd c (int slot) of
             Inl _ \<Rightarrow> (-EIO, path)
           | Inr next \<Rightarrow>
               leaf_down rd (\<lambda>eb. hdr_nritems eb - 1) (path\<lparr>slots := (slots path)(level := slot)\<rparr>) level next))"

definition btrfs_next_item :: "reader \<Rightarrow> btrfs_path \<Rightarrow> (int \<times> btrfs_path) option" where
  "btrfs_next_item rd p =
     (let p1 = p\<lparr>slots := (slots p)(0 := slots p 0 + 1)\<rparr> in
      case nodes p 0 of
        None \<Rightarrow> None
      | Some leaf \<Rightarrow> Some (if slots p1 0 \<ge> hdr_nritems leaf then btrfs_next_leaf rd p1 else (0, p1)))"

declare next_leaf_up.simps [simp del] prev_leaf_up.simps [simp del]

section \<open>Looking for an item\<close>

text \<open>
  \<open>btrfs_find_item\<close>. The arguments \<open>want_path\<close> and \<open>want_key\<close> say whether the caller
  passed a path and a place for the key found; \<open>mem\<close> also covers the allocation of the path.
\<close>

definition btrfs_find_item ::
    "bool \<Rightarrow> u64 \<Rightarrow> btrfs_fs_info \<Rightarrow> reader \<Rightarrow> extent_buffer \<Rightarrow> btrfs_path option \<Rightarrow> u64 \<Rightarrow> u64 \<Rightarrow> u8 \<Rightarrow> bool \<Rightarrow>
     corrupt_blocks option \<Rightarrow> (int \<times> btrfs_path option \<times> btrfs_key option \<times> corrupt_blocks option) option" where
  "btrfs_find_item mem garbage fs rd root_node found_path iobjectid ioff ktype want_key info =
     (let key = Key iobjectid ktype ioff in
      if found_path = None \<and> \<not> mem then Some (-ENOMEM, None, None, info)
      else
        let path = (case found_path of Some p \<Rightarrow> p
                    | None \<Rightarrow> \<lparr>nodes = \<lambda>_. None, slots = \<lambda>_. 0, lowest_level = 0, skip_check_block = False\<rparr>);
            out = (\<lambda>p. if found_path = None then None else Some p)
        in case btrfs_search_slot mem garbage fs rd root_node key path info of
             None \<Rightarrow> None
           | Some (ret, p1, info1) \<Rightarrow>
               if ret < 0 \<or> \<not> want_key then Some (ret, out p1, None, info1)
               else
                 case nodes p1 0 of
                   None \<Rightarrow> None
                 | Some eb \<Rightarrow>
                     let (ret2, p2) = (if ret \<noteq> 0 \<and> slots p1 0 \<ge> hdr_nritems eb then btrfs_next_leaf rd p1 else (ret, p1)) in
                     if ret \<noteq> 0 \<and> slots p1 0 \<ge> hdr_nritems eb \<and> ret2 \<noteq> 0 then Some (ret2, out p2, None, info1)
                     else
                       case nodes p2 0 of
                         None \<Rightarrow> None
                       | Some eb2 \<Rightarrow>
                           let found_key = btrfs_item_key eb2 (slots p2 0) in
                           Some (if key_type found_key \<noteq> ktype \<or> objectid found_key \<noteq> iobjectid then 1 else ret2,
                                 out p2, Some found_key, info1))"

text \<open>The loops of \<open>btrfs_previous_item\<close>, \<open>btrfs_previous_extent_item\<close> and \<open>btrfs_next_extent_item\<close>.\<close>

partial_function (option) btrfs_previous_item :: "reader \<Rightarrow> btrfs_path \<Rightarrow> u64 \<Rightarrow> u8 \<Rightarrow> (int \<times> btrfs_path) option" where
  "btrfs_previous_item rd path min_objectid type =
     (let (ret, p1) = (if slots path 0 = 0 then btrfs_prev_leaf rd path
                       else (0, path\<lparr>slots := (slots path)(0 := slots path 0 - 1)\<rparr>)) in
      if ret \<noteq> 0 then Some (ret, p1)
      else
        case nodes p1 0 of
          None \<Rightarrow> None
        | Some leaf \<Rightarrow>
            let nritems = hdr_nritems leaf in
            if nritems = 0 then Some (1, p1)
            else
              let p2 = (if slots p1 0 = nritems then p1\<lparr>slots := (slots p1)(0 := slots p1 0 - 1)\<rparr> else p1);
                  found_key = btrfs_item_key leaf (slots p2 0)
              in if objectid found_key < min_objectid then Some (1, p2)
                 else if key_type found_key = type then Some (0, p2)
                 else if objectid found_key = min_objectid \<and> key_type found_key < type then Some (1, p2)
                 else btrfs_previous_item rd p2 min_objectid type)"

abbreviation BTRFS_EXTENT_ITEM_KEY :: u8 where "BTRFS_EXTENT_ITEM_KEY \<equiv> 168"
abbreviation BTRFS_METADATA_ITEM_KEY :: u8 where "BTRFS_METADATA_ITEM_KEY \<equiv> 169"

partial_function (option) btrfs_previous_extent_item :: "reader \<Rightarrow> btrfs_path \<Rightarrow> u64 \<Rightarrow> (int \<times> btrfs_path) option" where
  "btrfs_previous_extent_item rd path min_objectid =
     (let (ret, p1) = (if slots path 0 = 0 then btrfs_prev_leaf rd path
                       else (0, path\<lparr>slots := (slots path)(0 := slots path 0 - 1)\<rparr>)) in
      if ret \<noteq> 0 then Some (ret, p1)
      else
        case nodes p1 0 of
          None \<Rightarrow> None
        | Some leaf \<Rightarrow>
            let nritems = hdr_nritems leaf in
            if nritems = 0 then Some (1, p1)
            else
              let p2 = (if slots p1 0 = nritems then p1\<lparr>slots := (slots p1)(0 := slots p1 0 - 1)\<rparr> else p1);
                  found_key = btrfs_item_key leaf (slots p2 0)
              in if objectid found_key < min_objectid then Some (1, p2)
                 else if key_type found_key = BTRFS_EXTENT_ITEM_KEY \<or> key_type found_key = BTRFS_METADATA_ITEM_KEY
                 then Some (0, p2)
                 else if objectid found_key = min_objectid \<and> key_type found_key < BTRFS_EXTENT_ITEM_KEY
                 then Some (1, p2)
                 else btrfs_previous_extent_item rd p2 min_objectid)"

partial_function (option) btrfs_next_extent_item :: "reader \<Rightarrow> btrfs_path \<Rightarrow> u64 \<Rightarrow> (int \<times> btrfs_path) option" where
  "btrfs_next_extent_item rd path max_objectid =
     (case btrfs_next_item rd path of
        None \<Rightarrow> None
      | Some (ret, p1) \<Rightarrow>
          if ret \<noteq> 0 then Some (ret, p1)
          else
            case nodes p1 0 of
              None \<Rightarrow> None
            | Some leaf \<Rightarrow>
                let found_key = btrfs_item_key leaf (slots p1 0) in
                if objectid found_key > max_objectid then Some (1, p1)
                else if key_type found_key = BTRFS_EXTENT_ITEM_KEY \<or> key_type found_key = BTRFS_METADATA_ITEM_KEY
                then Some (0, p1)
                else btrfs_next_extent_item rd p1 max_objectid)"

section \<open>Trees as sequences of items\<close>

definition child :: "reader \<Rightarrow> extent_buffer \<Rightarrow> nat \<Rightarrow> extent_buffer option" where
  "child rd b i = rd (btrfs_node_blockptr b i) (btrfs_node_ptr_generation b i)"

fun tree_items :: "reader \<Rightarrow> nat \<Rightarrow> extent_buffer \<Rightarrow> (btrfs_key \<times> u8 list) list" where
  "tree_items rd 0 b = leaf_items b"
| "tree_items rd (Suc l) b =
     concat (map (\<lambda>i. case child rd b i of None \<Rightarrow> [] | Some c \<Rightarrow> tree_items rd l c) [0..<hdr_nritems b])"

definition subtree_items :: "reader \<Rightarrow> nat \<Rightarrow> extent_buffer \<Rightarrow> nat \<Rightarrow> (btrfs_key \<times> u8 list) list" where
  "subtree_items rd l b i = (case child rd b i of None \<Rightarrow> [] | Some c \<Rightarrow> tree_items rd l c)"

lemma tree_items_Suc: "tree_items rd (Suc l) b = concat (map (subtree_items rd l b) [0..<hdr_nritems b])"
  by (simp add: subtree_items_def [abs_def] tree_items.simps)

text \<open>
  A well-formed tree: leaves and nodes are in order, every child can be read, has the level below
  and is not empty, its first key is the key of its pointer, and its keys stay below the key of the
  next pointer.
\<close>

fun tree_ok :: "reader \<Rightarrow> btrfs_fs_info \<Rightarrow> nat \<Rightarrow> extent_buffer \<Rightarrow> bool" where
  "tree_ok rd fs 0 b \<longleftrightarrow> leaf_inv fs b \<and> nodesize fs \<le> eb_len b"
| "tree_ok rd fs (Suc l) b \<longleftrightarrow>
     hdr_level b = Suc l \<and> 0 < hdr_nritems b \<and> hdr_nritems b \<le> BTRFS_NODEPTRS_PER_BLOCK fs \<and>
     sorted_wrt (<) (node_keys b) \<and>
     (\<forall>i<hdr_nritems b.
        (case child rd b i of
           None \<Rightarrow> False
         | Some c \<Rightarrow>
             tree_ok rd fs l c \<and> tree_items rd l c \<noteq> [] \<and>
             btrfs_node_key b i = fst (hd (tree_items rd l c)) \<and>
             (Suc i < hdr_nritems b \<longrightarrow> (\<forall>x\<in>set (tree_items rd l c). fst x < btrfs_node_key b (Suc i)))))"

declare tree_items.simps(2) [simp del] tree_ok.simps(2) [simp del]

lemma tree_ok_level: "tree_ok rd fs l b \<Longrightarrow> hdr_level b = l"
  by (cases l) (auto simp: leaf_inv_def tree_ok.simps)

lemma tree_ok_child:
  assumes "tree_ok rd fs (Suc l) b" and "i < hdr_nritems b"
  obtains c where "child rd b i = Some c" and "tree_ok rd fs l c" and "tree_items rd l c \<noteq> []"
    and "subtree_items rd l b i = tree_items rd l c"
    and "btrfs_node_key b i = fst (hd (tree_items rd l c))"
    and "read_node_slot rd b (int i) = Inr c"
    and "Suc i < hdr_nritems b \<Longrightarrow> \<forall>x\<in>set (tree_items rd l c). fst x < btrfs_node_key b (Suc i)"
proof -
  from assms have lvl: "hdr_level b = Suc l" by (blast dest: tree_ok_level)
  from assms obtain c where c: "child rd b i = Some c" "tree_ok rd fs l c" "tree_items rd l c \<noteq> []"
    "btrfs_node_key b i = fst (hd (tree_items rd l c))"
    "Suc i < hdr_nritems b \<longrightarrow> (\<forall>x\<in>set (tree_items rd l c). fst x < btrfs_node_key b (Suc i))"
    by (auto simp: tree_ok.simps split: option.splits)
  with assms(2) lvl tree_ok_level [OF c(2)] have "read_node_slot rd b (int i) = Inr c"
    by (simp add: read_node_slot_def child_def)
  with c that show thesis by (simp add: subtree_items_def)
qed

lemma tree_ok_below:
  assumes "tree_ok rd fs (Suc l) b" and "i < j" and "j < hdr_nritems b" and "x \<in> set (subtree_items rd l b i)"
  shows "fst x < btrfs_node_key b j"
proof -
  have i: "i < hdr_nritems b" "Suc i < hdr_nritems b" using assms by simp_all
  have "fst x < btrfs_node_key b (Suc i)"
    using tree_ok_child [OF assms(1) i(1)] i(2) assms(4) by metis
  moreover have "btrfs_node_key b (Suc i) \<le> btrfs_node_key b j"
    using sorted_nth_keys [of "btrfs_node_key b" "hdr_nritems b" "Suc i" j] assms
    by (cases "Suc i = j") (auto simp: tree_ok.simps node_keys_def)
  ultimately show ?thesis by simp
qed

lemma tree_sorted: "tree_ok rd fs l b \<Longrightarrow> sorted_wrt (<) (map fst (tree_items rd l b))"
proof (induction l arbitrary: b)
  case (Suc l)
  note tree_IH = Suc.IH and ok = Suc.prems
  have "sorted_wrt (<) (map fst (concat (map (subtree_items rd l b) [0..<n])))" if "n \<le> hdr_nritems b" for n
    using that
  proof (induction n)
    case (Suc n)
    obtain c where c: "tree_ok rd fs l c" "subtree_items rd l b n = tree_items rd l c" "tree_items rd l c \<noteq> []"
      "btrfs_node_key b n = fst (hd (tree_items rd l c))"
      using tree_ok_child [OF ok, of n] Suc.prems by auto
    have first: "btrfs_node_key b n \<le> fst y" if "y \<in> set (tree_items rd l c)" for y
      using that c(3,4) tree_IH [OF c(1)] by (cases "tree_items rd l c") auto
    have "fst x < fst y" if "x \<in> set (subtree_items rd l b i)" "i < n" "y \<in> set (tree_items rd l c)" for x y i
      using tree_ok_below [OF ok, of i n x] first [of y] that Suc.prems by auto
    then show ?case
      using Suc tree_IH [OF c(1)] by (fastforce simp: sorted_wrt_append c(2))
  qed simp
  then show ?case by (simp add: tree_items_Suc)
qed (simp add: leaf_inv_def)

section \<open>Paths as positions\<close>

fun path_ok :: "reader \<Rightarrow> nat \<Rightarrow> btrfs_path \<Rightarrow> extent_buffer \<Rightarrow> bool" where
  "path_ok rd 0 p b \<longleftrightarrow> nodes p 0 = Some b \<and> slots p 0 \<le> hdr_nritems b"
| "path_ok rd (Suc l) p b \<longleftrightarrow>
     nodes p (Suc l) = Some b \<and> slots p (Suc l) < hdr_nritems b \<and>
     (case child rd b (slots p (Suc l)) of None \<Rightarrow> False | Some c \<Rightarrow> path_ok rd l p c)"

fun items_before :: "reader \<Rightarrow> nat \<Rightarrow> btrfs_path \<Rightarrow> extent_buffer \<Rightarrow> (btrfs_key \<times> u8 list) list" where
  "items_before rd 0 p b = take (slots p 0) (leaf_items b)"
| "items_before rd (Suc l) p b =
     concat (map (subtree_items rd l b) [0..<slots p (Suc l)]) @
     (case child rd b (slots p (Suc l)) of None \<Rightarrow> [] | Some c \<Rightarrow> items_before rd l p c)"

fun items_after :: "reader \<Rightarrow> nat \<Rightarrow> btrfs_path \<Rightarrow> extent_buffer \<Rightarrow> (btrfs_key \<times> u8 list) list" where
  "items_after rd 0 p b = drop (slots p 0) (leaf_items b)"
| "items_after rd (Suc l) p b =
     (case child rd b (slots p (Suc l)) of None \<Rightarrow> [] | Some c \<Rightarrow> items_after rd l p c) @
     concat (map (subtree_items rd l b) [Suc (slots p (Suc l))..<hdr_nritems b])"

lemma upt_split_at: "i < n \<Longrightarrow> [0..<n] = [0..<i] @ i # [Suc i..<n]"
  by (induction n) (auto simp: less_Suc_eq)

lemma path_items:
  "path_ok rd l p b \<Longrightarrow> tree_items rd l b = items_before rd l p b @ items_after rd l p b"
proof (induction l arbitrary: b)
  case (Suc l)
  then show ?case
    by (auto simp: tree_items_Suc upt_split_at subtree_items_def [of rd l b "slots p (Suc l)"]
        split: option.splits)
qed simp

text \<open>Only the levels up to \<open>l\<close> of a path matter.\<close>

lemma path_cong:
  assumes "\<And>j. j \<le> l \<Longrightarrow> nodes p' j = nodes p j \<and> slots p' j = slots p j"
  shows "path_ok rd l p' b = path_ok rd l p b"
    and "items_before rd l p' b = items_before rd l p b"
    and "items_after rd l p' b = items_after rd l p b"
  using assms by (induction l arbitrary: b) (auto split: option.splits)

section \<open>Correctness of the search\<close>

lemma tree_first_key:
  assumes "tree_ok rd fs (Suc l) b"
  shows "tree_items rd (Suc l) b \<noteq> []" and "btrfs_node_key b 0 = fst (hd (tree_items rd (Suc l) b))"
proof -
  have n: "0 < hdr_nritems b" using assms by (simp add: tree_ok.simps)
  obtain c where "tree_items rd l c \<noteq> []" "subtree_items rd l b 0 = tree_items rd l c"
    "btrfs_node_key b 0 = fst (hd (tree_items rd l c))"
    using tree_ok_child [OF assms n] by metis
  then show "tree_items rd (Suc l) b \<noteq> []" and "btrfs_node_key b 0 = fst (hd (tree_items rd (Suc l) b))"
    using n by (simp_all add: tree_items_Suc upt_conv_Cons)
qed

definition parent_agrees :: "reader \<Rightarrow> nat \<Rightarrow> btrfs_path \<Rightarrow> extent_buffer \<Rightarrow> bool" where
  "parent_agrees rd l p b \<longleftrightarrow>
     (case nodes p (Suc l) of
        None \<Rightarrow> True
      | Some parent \<Rightarrow> tree_items rd l b \<noteq> [] \<and> btrfs_node_key parent (slots p (Suc l)) = fst (hd (tree_items rd l b)))"

lemma check_block_ok:
  assumes "tree_ok rd fs l b" and "fs_ok fs" and "nodes p l = Some b" and "parent_agrees rd l p b"
  shows "check_block mem garbage fs info p l = Some (0, info)"
proof (cases l)
  case 0
  let ?key = "map_option (\<lambda>parent. btrfs_node_key parent (slots p (l + 1))) (nodes p (l + 1))"
  have "check_leaf_status fs ?key b = BTRFS_TREE_BLOCK_CLEAN"
    using assms 0 by (intro check_leaf_complete) (auto simp: parent_agrees_def split: option.splits)
  with assms 0 show ?thesis by (simp add: check_block_def btrfs_check_leaf_def)
next
  case (Suc l')
  let ?key = "map_option (\<lambda>parent. btrfs_node_key parent (slots p (l + 1))) (nodes p (l + 1))"
  have "sorted_wrt (<) (butlast (node_keys b))"
    using assms(1) unfolding Suc tree_ok.simps
    by (metis append_butlast_last_id butlast.simps(1) sorted_wrt_append)
  moreover have "\<not> parent_key_bad ?key (btrfs_node_key b 0)"
    using assms tree_first_key [of rd fs l' b] Suc
    by (auto simp: parent_agrees_def parent_key_bad_def split: option.splits)
  ultimately have "check_node_status fs ?key b = BTRFS_TREE_BLOCK_CLEAN"
    using assms(1) by (simp add: check_node_clean_iff Suc tree_ok.simps)
  with assms Suc show ?thesis by (simp add: check_block_def btrfs_check_node_def)
qed

text \<open>The path points to an item of its leaf, not behind the last one.\<close>

definition on_item :: "btrfs_path \<Rightarrow> bool" where
  "on_item p \<longleftrightarrow> slots p 0 < hdr_nritems (the (nodes p 0))"

text \<open>What a search leaves behind for the subtree \<open>b\<close> of level \<open>l\<close>.\<close>

definition found_at :: "reader \<Rightarrow> nat \<Rightarrow> btrfs_path \<Rightarrow> extent_buffer \<Rightarrow> btrfs_key \<Rightarrow> int \<Rightarrow> bool" where
  "found_at rd l p b key ret \<longleftrightarrow>
     path_ok rd l p b \<and> (\<forall>x\<in>set (items_before rd l p b). fst x < key) \<and>
     (\<forall>x\<in>set (items_after rd l p b). key \<le> fst x) \<and>
     ret = (if key \<in> fst ` set (tree_items rd l b) then 0 else 1) \<and> (ret = 0 \<longrightarrow> on_item p)"

lemma found_at_leaf:
  assumes "leaf_inv fs b" and "nodes p 0 = Some b" and "bin_search b key 0 = (ret, slots p 0)"
  shows "found_at rd 0 p b key ret"
proof -
  have len: "length (leaf_items b) = hdr_nritems b" by (simp add: leaf_items_def)
  have key: "fst (leaf_items b ! i) = btrfs_item_key b i" if "i < hdr_nritems b" for i
    using that by (simp add: leaf_items_def btrfs_item_key_def)
  have sorted: "btrfs_item_key b i < btrfs_item_key b j" if "i < j" "j < hdr_nritems b" for i j
    using assms(1) that by (auto simp: leaf_inv_def map_fst_leaf_items intro: sorted_nth_keys)
  have r: "search_result (btrfs_item_key b) (hdr_nritems b) key (ret, slots p 0)"
    using bin_search_leaf [OF assms(1), of key] assms(3) by simp
  have before: "\<forall>x\<in>set (take (slots p 0) (leaf_items b)). fst x < key"
  proof
    fix x assume "x \<in> set (take (slots p 0) (leaf_items b))"
    then obtain i where "x = leaf_items b ! i" "i < slots p 0" "i < hdr_nritems b"
      by (rule in_set_takeE) (simp add: len)
    with r key [of i] show "fst x < key" by (simp add: search_result_def)
  qed
  have after: "\<forall>x\<in>set (drop (slots p 0) (leaf_items b)). (if ret = 0 then key \<le> fst x else key < fst x)"
  proof
    fix x assume "x \<in> set (drop (slots p 0) (leaf_items b))"
    then obtain j where j: "x = leaf_items b ! j" "slots p 0 \<le> j" "j < hdr_nritems b"
      by (rule in_set_dropE) (simp add: len)
    with r key [of j] sorted [of "slots p 0" j] show "if ret = 0 then key \<le> fst x else key < fst x"
      by (cases "j = slots p 0") (auto simp: search_result_def split: if_splits)
  qed
  have "set (leaf_items b) = set (take (slots p 0) (leaf_items b)) \<union> set (drop (slots p 0) (leaf_items b))"
    by (metis append_take_drop_id set_append)
  moreover have "ret = 0 \<Longrightarrow> key \<in> fst ` set (leaf_items b)"
    using r key [of "slots p 0"] nth_mem [of "slots p 0" "leaf_items b"]
    by (force simp: search_result_def len)
  ultimately have "ret = (if key \<in> fst ` set (leaf_items b) then 0 else 1)"
    using r before after by (auto simp: search_result_def split: if_splits)
  with assms(2) r before after show ?thesis
    by (auto simp: found_at_def search_result_def on_item_def less_imp_le split: if_splits)
qed

text \<open>The slot that the search enters in a node: the last one whose key is not above the key.\<close>

definition down_slot :: "int \<times> nat \<Rightarrow> nat" where
  "down_slot r = (if fst r \<noteq> 0 \<and> snd r > 0 then snd r - 1 else snd r)"

lemma down_slot_ok:
  assumes "search_result keys n key r" and "0 < n" and "\<forall>i j. i < j \<longrightarrow> j < n \<longrightarrow> keys i < keys j"
  shows "down_slot r < n" and "i < down_slot r \<Longrightarrow> keys (Suc i) \<le> key"
    and "down_slot r < i \<Longrightarrow> i < n \<Longrightarrow> key < keys i"
proof -
  obtain ret slot where r: "r = (ret, slot)" by (cases r)
  note sr = assms(1) [unfolded search_result_def r, simplified]
  show "down_slot r < n" using sr assms(2) by (auto simp: down_slot_def r split: if_splits)
  show "i < down_slot r \<Longrightarrow> keys (Suc i) \<le> key"
    using sr by (cases "Suc i = slot") (auto simp: down_slot_def r less_imp_le split: if_splits)
  show "down_slot r < i \<Longrightarrow> i < n \<Longrightarrow> key < keys i"
    using sr assms(3) by (auto simp: down_slot_def r split: if_splits)
qed

lemma search_slot_step:
  fixes key
  assumes "tree_ok rd fs (Suc l) b" and "fs_ok fs" and "Suc l < BTRFS_MAX_LEVEL" and "lowest_level p = 0"
    and "parent_agrees rd (Suc l) p b"
  defines "slot \<equiv> down_slot (bin_search b key (Suc l))"
  defines "p2 \<equiv> p\<lparr>nodes := (nodes p)(Suc l := Some b), slots := (slots p)(Suc l := slot)\<rparr>"
  obtains c where "search_slot_loop mem garbage fs rd key p info b = search_slot_loop mem garbage fs rd key p2 info c"
    and "child rd b slot = Some c" and "tree_ok rd fs l c" and "parent_agrees rd l p2 c"
    and "\<And>i x. i < slot \<Longrightarrow> x \<in> set (subtree_items rd l b i) \<Longrightarrow> fst x < key"
    and "\<And>i x. slot < i \<Longrightarrow> i < hdr_nritems b \<Longrightarrow> x \<in> set (subtree_items rd l b i) \<Longrightarrow> key < fst x"
    and "slot < hdr_nritems b" and "lowest_level p2 = 0"
proof -
  note ok = assms(1)
  have lvl: "hdr_level b = Suc l" and n: "0 < hdr_nritems b" and sorted: "sorted_wrt (<) (node_keys b)"
    using ok by (simp_all add: tree_ok.simps)
  have keys: "\<forall>i j. i < j \<longrightarrow> j < hdr_nritems b \<longrightarrow> btrfs_node_key b i < btrfs_node_key b j"
    using sorted by (auto simp: node_keys_def intro: sorted_nth_keys)
  have sr: "search_result (btrfs_node_key b) (hdr_nritems b) key (bin_search b key (Suc l))"
    by (rule bin_search_node [OF sorted]) simp
  note ds = down_slot_ok [OF sr n keys, folded slot_def]
  obtain c where c: "child rd b slot = Some c" "tree_ok rd fs l c" "tree_items rd l c \<noteq> []"
    "btrfs_node_key b slot = fst (hd (tree_items rd l c))" "read_node_slot rd b (int slot) = Inr c"
    using tree_ok_child [OF ok ds(1)] by metis
  let ?p1 = "p\<lparr>nodes := (nodes p)(Suc l := Some b)\<rparr>"
  have "check_block mem garbage fs info ?p1 (Suc l) = Some (0, info)"
    using assms(5) by (intro check_block_ok [OF ok assms(2)]) (auto simp: parent_agrees_def split: option.splits)
  then have "search_slot_loop mem garbage fs rd key p info b = search_slot_loop mem garbage fs rd key p2 info c"
    using assms(3,4) c(5)
    by (subst search_slot_loop.simps) (simp add: lvl Let_def p2_def slot_def down_slot_def)
  moreover have "parent_agrees rd l p2 c" using c by (simp add: parent_agrees_def p2_def)
  moreover have "fst x < key" if "i < slot" "x \<in> set (subtree_items rd l b i)" for i x
    using tree_ok_below [OF ok, of i "Suc i" x] ds(1,2) that by fastforce
  moreover have "key < fst x" if i: "slot < i" "i < hdr_nritems b" "x \<in> set (subtree_items rd l b i)" for i x
  proof -
    obtain d where d: "tree_ok rd fs l d" "subtree_items rd l b i = tree_items rd l d"
      "btrfs_node_key b i = fst (hd (tree_items rd l d))"
      using tree_ok_child [OF ok i(2)] by metis
    then have "btrfs_node_key b i \<le> fst x"
      using i(3) tree_sorted [OF d(1)] by (cases "tree_items rd l d") auto
    with ds(3) [OF i(1,2)] show ?thesis by simp
  qed
  ultimately show thesis using that c ds(1) assms(4) by (simp add: p2_def)
qed

lemma search_slot_loop_ok:
  assumes "tree_ok rd fs l b" and "fs_ok fs" and "l < BTRFS_MAX_LEVEL" and "lowest_level p = 0"
    and "parent_agrees rd l p b"
  shows "\<exists>ret p'. search_slot_loop mem garbage fs rd key p info b = Some (ret, p', info) \<and>
           found_at rd l p' b key ret \<and> (\<forall>j>l. nodes p' j = nodes p j \<and> slots p' j = slots p j)"
  using assms
proof (induction l arbitrary: b p)
  case 0
  let ?r = "bin_search b key 0" and ?p1 = "p\<lparr>nodes := (nodes p)(0 := Some b)\<rparr>"
  let ?p2 = "?p1\<lparr>slots := (slots p)(0 := snd ?r)\<rparr>"
  have lvl: "hdr_level b = 0" and inv: "leaf_inv fs b" using "0.prems"(1) by (simp_all add: leaf_inv_def)
  have "check_block mem garbage fs info ?p1 0 = Some (0, info)"
    using "0.prems" by (intro check_block_ok [OF "0.prems"(1,2)]) (auto simp: parent_agrees_def split: option.splits)
  then have "search_slot_loop mem garbage fs rd key p info b = Some (fst ?r, ?p2, info)"
    by (subst search_slot_loop.simps) (simp add: lvl Let_def)
  moreover have "found_at rd 0 ?p2 b key (fst ?r)" using inv by (intro found_at_leaf) simp_all
  ultimately show ?case by (intro exI [of _ "fst ?r"] exI [of _ ?p2]) simp
next
  case (Suc l)
  define slot where "slot = down_slot (bin_search b key (Suc l))"
  define p2 where "p2 = p\<lparr>nodes := (nodes p)(Suc l := Some b), slots := (slots p)(Suc l := slot)\<rparr>"
  obtain c where step: "search_slot_loop mem garbage fs rd key p info b = search_slot_loop mem garbage fs rd key p2 info c"
    and c: "child rd b slot = Some c" "tree_ok rd fs l c" "parent_agrees rd l p2 c"
    and low: "\<And>i x. i < slot \<Longrightarrow> x \<in> set (subtree_items rd l b i) \<Longrightarrow> fst x < key"
    and high: "\<And>i x. slot < i \<Longrightarrow> i < hdr_nritems b \<Longrightarrow> x \<in> set (subtree_items rd l b i) \<Longrightarrow> key < fst x"
    and n: "slot < hdr_nritems b" "lowest_level p2 = 0"
    using search_slot_step [OF Suc.prems, where key = key and mem = mem and garbage = garbage and info = info]
    unfolding slot_def p2_def by metis
  obtain ret p' where p': "search_slot_loop mem garbage fs rd key p2 info c = Some (ret, p', info)"
    "found_at rd l p' c key ret" "\<forall>j>l. nodes p' j = nodes p2 j \<and> slots p' j = slots p2 j"
    using Suc.IH [OF c(2) _ _ _ c(3)] Suc.prems n by auto
  have top: "nodes p' (Suc l) = Some b" "slots p' (Suc l) = slot" using p'(3) by (simp_all add: p2_def)
  have items: "tree_items rd (Suc l) b = concat (map (subtree_items rd l b) [0..<slot]) @ tree_items rd l c @
      concat (map (subtree_items rd l b) [Suc slot..<hdr_nritems b])"
    using n(1) c(1) by (simp add: tree_items_Suc upt_split_at subtree_items_def [of rd l b slot])
  have lo: "fst x < key" if "x \<in> set (concat (map (subtree_items rd l b) [0..<slot]))" for x
    using that by (auto dest: low)
  have hi: "key < fst x" if "x \<in> set (concat (map (subtree_items rd l b) [Suc slot..<hdr_nritems b]))" for x
    using that by (auto simp: Suc_le_eq dest: high)
  have mem: "key \<in> fst ` set (tree_items rd (Suc l) b) \<longleftrightarrow> key \<in> fst ` set (tree_items rd l c)"
    unfolding items set_append image_Un using lo hi by blast
  have parts: "items_before rd (Suc l) p' b = concat (map (subtree_items rd l b) [0..<slot]) @ items_before rd l p' c"
    "items_after rd (Suc l) p' b = items_after rd l p' c @ concat (map (subtree_items rd l b) [Suc slot..<hdr_nritems b])"
    "path_ok rd (Suc l) p' b \<longleftrightarrow> path_ok rd l p' c"
    using top c(1) n(1) by simp_all
  have "found_at rd (Suc l) p' b key ret"
    using p'(2) lo hi unfolding found_at_def mem parts set_append by (auto simp del: set_concat intro: less_imp_le)
  with step p' show ?case by (intro exI [of _ ret] exI [of _ p']) (simp add: p2_def)
qed

section \<open>Correctness of the walks\<close>

definition agree_above :: "nat \<Rightarrow> btrfs_path \<Rightarrow> btrfs_path \<Rightarrow> bool" where
  "agree_above m p' p \<longleftrightarrow> (\<forall>j>m. nodes p' j = nodes p j \<and> slots p' j = slots p j)"

text \<open>Replacing the part of a path at and below level \<open>m\<close>.\<close>

lemma path_graft:
  assumes "path_ok rd l p b" and "m \<le> l" and "tree_ok rd fs l b"
  obtains c pre post where "nodes p m = Some c" and "path_ok rd m p c" and "tree_ok rd fs m c"
    and "\<And>p'. agree_above m p' p \<Longrightarrow> path_ok rd m p' c \<Longrightarrow>
           path_ok rd l p' b \<and> items_before rd l p' b = pre @ items_before rd m p' c \<and>
           items_after rd l p' b = items_after rd m p' c @ post"
  using assms
proof (induction l arbitrary: b thesis)
  case 0
  from "0.prems"(2-) show ?case by (intro "0.prems"(1) [of b "[]" "[]"]) auto
next
  case (Suc l)
  show ?case
  proof (cases "m = Suc l")
    case True
    with Suc.prems(2,4) show ?thesis by (intro Suc.prems(1) [of b "[]" "[]"]) simp_all
  next
    case False
    let ?s = "slots p (Suc l)"
    from Suc.prems have s: "nodes p (Suc l) = Some b" "?s < hdr_nritems b" by simp_all
    obtain d where d: "child rd b ?s = Some d" "tree_ok rd fs l d"
      using tree_ok_child [OF Suc.prems(4) s(2)] by metis
    with Suc.prems(2) have "path_ok rd l p d" by simp
    from Suc.IH [OF _ this _ d(2)] False Suc.prems(3) obtain c pre post where c: "nodes p m = Some c" "path_ok rd m p c"
      "tree_ok rd fs m c"
      and graft: "\<And>p'. agree_above m p' p \<Longrightarrow> path_ok rd m p' c \<Longrightarrow>
           path_ok rd l p' d \<and> items_before rd l p' d = pre @ items_before rd m p' c \<and>
           items_after rd l p' d = items_after rd m p' c @ post"
      by (metis le_SucE)
    show ?thesis
    proof (rule Suc.prems(1) [OF c, of "concat (map (subtree_items rd l b) [0..<?s]) @ pre"
          "post @ concat (map (subtree_items rd l b) [Suc ?s..<hdr_nritems b])"])
      fix p' assume p': "agree_above m p' p" "path_ok rd m p' c"
      then have "nodes p' (Suc l) = Some b" "slots p' (Suc l) = ?s"
        using s Suc.prems(3) False by (simp_all add: agree_above_def)
      with graft [OF p'] d(1) s(2) show "path_ok rd (Suc l) p' b \<and>
         items_before rd (Suc l) p' b = (concat (map (subtree_items rd l b) [0..<?s]) @ pre) @ items_before rd m p' c \<and>
         items_after rd (Suc l) p' b =
           items_after rd m p' c @ post @ concat (map (subtree_items rd l b) [Suc ?s..<hdr_nritems b])"
        by simp
    qed
  qed
qed

lemma leaf_down_step:
  "read_node_slot rd nx (int (f nx)) = Inr d \<Longrightarrow>
   leaf_down rd f p (Suc (Suc l)) nx =
   leaf_down rd f (p\<lparr>nodes := (nodes p)(Suc l := Some nx), slots := (slots p)(Suc l := f nx)\<rparr>) (Suc l) d"
  by (subst leaf_down.simps(2)) (simp add: Let_def del: leaf_down.simps)

lemma leaf_down_first:
  assumes "tree_ok rd fs l nx"
  shows "\<exists>p'. leaf_down rd (\<lambda>_. 0) p (Suc l) nx = (0, p') \<and> path_ok rd l p' nx \<and>
           items_before rd l p' nx = [] \<and> slots p' 0 = 0 \<and> agree_above l p' p \<and>
           (tree_items rd l nx \<noteq> [] \<longrightarrow> 0 < hdr_nritems (the (nodes p' 0)))"
  using assms
proof (induction l arbitrary: nx p)
  case 0
  then show ?case by (auto simp: Let_def agree_above_def leaf_items_def)
next
  case (Suc l)
  let ?p1 = "p\<lparr>nodes := (nodes p)(Suc l := Some nx), slots := (slots p)(Suc l := 0)\<rparr>"
  have n: "0 < hdr_nritems nx" using Suc.prems by (simp add: tree_ok.simps)
  obtain d where d: "child rd nx 0 = Some d" "tree_ok rd fs l d" "read_node_slot rd nx (int 0) = Inr d"
    "tree_items rd l d \<noteq> []"
    using tree_ok_child [OF Suc.prems n] by metis
  obtain p' where p': "leaf_down rd (\<lambda>_. 0) ?p1 (Suc l) d = (0, p')" "path_ok rd l p' d"
    "items_before rd l p' d = []" "slots p' 0 = 0" "agree_above l p' ?p1"
    "0 < hdr_nritems (the (nodes p' 0))"
    using Suc.IH [OF d(2)] d(4) by blast
  then have "nodes p' (Suc l) = Some nx" "slots p' (Suc l) = 0" "agree_above (Suc l) p' p"
    by (simp_all add: agree_above_def)
  with p' d n show ?case
    by (intro exI [of _ p']) (simp add: leaf_down_step [where f = "\<lambda>_. 0"] del: leaf_down.simps)
qed

lemma leaf_down_last:
  assumes "tree_ok rd fs l nx" and "tree_items rd l nx \<noteq> []"
  shows "\<exists>p' x. leaf_down rd (\<lambda>eb. hdr_nritems eb - 1) p (Suc l) nx = (0, p') \<and> path_ok rd l p' nx \<and>
           items_after rd l p' nx = [x] \<and> slots p' 0 < hdr_nritems (the (nodes p' 0)) \<and> agree_above l p' p"
  using assms
proof (induction l arbitrary: nx p)
  case 0
  then have "leaf_items nx \<noteq> []" "hdr_nritems nx = length (leaf_items nx)" by (simp_all add: leaf_items_def)
  moreover from this have "drop (length (leaf_items nx) - 1) (leaf_items nx) = [last (leaf_items nx)]"
    by (metis append_butlast_last_id append_eq_conv_conj length_butlast)
  ultimately show ?case by (simp add: Let_def agree_above_def)
next
  case (Suc l)
  let ?n = "hdr_nritems nx"
  let ?p1 = "p\<lparr>nodes := (nodes p)(Suc l := Some nx), slots := (slots p)(Suc l := ?n - 1)\<rparr>"
  have n: "0 < ?n" "?n - 1 < ?n" using Suc.prems by (simp_all add: tree_ok.simps)
  obtain d where d: "child rd nx (?n - 1) = Some d" "tree_ok rd fs l d" "tree_items rd l d \<noteq> []"
    "read_node_slot rd nx (int (?n - 1)) = Inr d"
    using tree_ok_child [OF Suc.prems(1) n(2)] by metis
  obtain p' x where p': "leaf_down rd (\<lambda>eb. hdr_nritems eb - 1) ?p1 (Suc l) d = (0, p')" "path_ok rd l p' d"
    "items_after rd l p' d = [x]" "slots p' 0 < hdr_nritems (the (nodes p' 0))" "agree_above l p' ?p1"
    using Suc.IH [OF d(2,3)] by blast
  then have "nodes p' (Suc l) = Some nx" "slots p' (Suc l) = ?n - 1" "agree_above (Suc l) p' p"
    by (simp_all add: agree_above_def)
  moreover have "leaf_down rd (\<lambda>eb. hdr_nritems eb - 1) p (Suc (Suc l)) nx = (0, p')"
    using leaf_down_step [where f = "\<lambda>eb. hdr_nritems eb - 1", OF d(4)] p'(1) by (rule trans)
  ultimately show ?case
    using p' d n by (intro exI [of _ p'] exI [of _ x]) (simp del: leaf_down.simps)
qed

text \<open>The items of the leaf under the path from the position on, and those before it.\<close>

definition leaf_rest :: "btrfs_path \<Rightarrow> (btrfs_key \<times> u8 list) list" where
  "leaf_rest p = drop (slots p 0) (leaf_items (the (nodes p 0)))"

definition leaf_front :: "btrfs_path \<Rightarrow> (btrfs_key \<times> u8 list) list" where
  "leaf_front p = take (slots p 0) (leaf_items (the (nodes p 0)))"

definition last_slot :: "btrfs_path \<Rightarrow> nat \<Rightarrow> bool" where
  "last_slot p j \<longleftrightarrow> (\<forall>c. nodes p j = Some c \<longrightarrow> hdr_nritems c \<le> slots p j + 1)"

lemma items_after_last:
  "path_ok rd l p b \<Longrightarrow> (\<And>j. 1 \<le> j \<Longrightarrow> j \<le> l \<Longrightarrow> last_slot p j) \<Longrightarrow> items_after rd l p b = leaf_rest p"
proof (induction l arbitrary: b)
  case (Suc l)
  have "hdr_nritems b \<le> Suc (slots p (Suc l))"
    using Suc.prems(1) Suc.prems(2) [of "Suc l"] by (simp add: last_slot_def)
  with Suc show ?case by (auto split: option.splits)
qed (simp add: leaf_rest_def)

lemma items_before_first:
  "path_ok rd l p b \<Longrightarrow> (\<And>j. 1 \<le> j \<Longrightarrow> j \<le> l \<Longrightarrow> slots p j = 0) \<Longrightarrow> items_before rd l p b = leaf_front p"
  by (induction l arbitrary: b) (auto simp: leaf_front_def split: option.splits)

lemma path_ok_node: "path_ok rd l p b \<Longrightarrow> j \<le> l \<Longrightarrow> \<exists>c. nodes p j = Some c"
  by (induction l arbitrary: b) (auto simp: le_Suc_eq split: option.splits)

lemma next_leaf_up_cases:
  assumes "path_ok rd l p b" and "l < BTRFS_MAX_LEVEL" and "nodes p (Suc l) = None" and "k \<le> Suc l"
  shows "next_leaf_up p k = Inl 1 \<and> (\<forall>j. k \<le> j \<and> j \<le> l \<longrightarrow> last_slot p j) \<or>
    (\<exists>m c. k \<le> m \<and> m \<le> l \<and> next_leaf_up p k = Inr (m, Suc (slots p m), c) \<and> nodes p m = Some c \<and>
       Suc (slots p m) < hdr_nritems c \<and> (\<forall>j. k \<le> j \<and> j < m \<longrightarrow> last_slot p j))"
  using assms(4)
proof (induction "Suc l - k" arbitrary: k)
  case 0
  then have "next_leaf_up p k = Inl 1" using assms(3) by (subst next_leaf_up.simps) simp
  with 0 show ?case by auto
next
  case (Suc n)
  then have k: "k \<le> l" by simp
  then obtain c where c: "nodes p k = Some c" using path_ok_node [OF assms(1)] by blast
  show ?case
  proof (cases "hdr_nritems c \<le> Suc (slots p k)")
    case True
    then have up: "next_leaf_up p k = next_leaf_up p (Suc k)"
      using c k assms(2) by (subst next_leaf_up.simps) (simp add: Let_def)
    have "last_slot p k" using True c by (simp add: last_slot_def)
    then have last: "last_slot p j" if "Suc k \<le> j \<longrightarrow> last_slot p j" "k \<le> j" for j
      using that by (cases "j = k") auto
    have "n = Suc l - Suc k" "Suc k \<le> Suc l" using Suc(2) k by simp_all
    from Suc(1) [OF this] show ?thesis
      unfolding up by (meson last Suc_leD)
  next
    case False
    then have "next_leaf_up p k = Inr (k, Suc (slots p k), c)"
      using c k assms(2) by (subst next_leaf_up.simps) (simp add: Let_def)
    with False c k show ?thesis by (intro disjI2 exI [of _ k] exI [of _ c]) auto
  qed
qed

lemma prev_leaf_up_cases:
  assumes "path_ok rd l p b" and "l < BTRFS_MAX_LEVEL" and "nodes p (Suc l) = None" and "k \<le> Suc l"
  shows "prev_leaf_up p k = Inl 1 \<and> (\<forall>j. k \<le> j \<and> j \<le> l \<longrightarrow> slots p j = 0) \<or>
    (\<exists>m c. k \<le> m \<and> m \<le> l \<and> prev_leaf_up p k = Inr (m, slots p m - 1, c) \<and> nodes p m = Some c \<and>
       0 < slots p m \<and> (\<forall>j. k \<le> j \<and> j < m \<longrightarrow> slots p j = 0))"
  using assms(4)
proof (induction "Suc l - k" arbitrary: k)
  case 0
  then have "prev_leaf_up p k = Inl 1" using assms(3) by (subst prev_leaf_up.simps) simp
  with 0 show ?case by auto
next
  case (Suc n)
  then have k: "k \<le> l" by simp
  then obtain c where c: "nodes p k = Some c" using path_ok_node [OF assms(1)] by blast
  show ?case
  proof (cases "slots p k = 0")
    case True
    then have up: "prev_leaf_up p k = prev_leaf_up p (Suc k)"
      using c k assms(2) by (subst prev_leaf_up.simps) (simp add: Let_def)
    have first: "slots p j = 0" if "Suc k \<le> j \<longrightarrow> slots p j = 0" "k \<le> j" for j
      using that True by (cases "j = k") auto
    have "n = Suc l - Suc k" "Suc k \<le> Suc l" using Suc(2) k by simp_all
    from Suc(1) [OF this] show ?thesis
      unfolding up by (meson first Suc_leD)
  next
    case False
    then have "prev_leaf_up p k = Inr (k, slots p k - 1, c)"
      using c k assms(2) by (subst prev_leaf_up.simps) (simp add: Let_def)
    with False c k show ?thesis by (intro disjI2 exI [of _ k] exI [of _ c]) auto
  qed
qed

definition tree_path :: "reader \<Rightarrow> btrfs_fs_info \<Rightarrow> nat \<Rightarrow> extent_buffer \<Rightarrow> btrfs_path \<Rightarrow> bool" where
  "tree_path rd fs l b p \<longleftrightarrow>
     tree_ok rd fs l b \<and> l < BTRFS_MAX_LEVEL \<and> path_ok rd l p b \<and> nodes p (Suc l) = None"

lemma next_leaf_ok:
  assumes "tree_path rd fs l b p"
  shows "\<exists>ret p'. btrfs_next_leaf rd p = (ret, p') \<and> tree_path rd fs l b p' \<and>
    (if items_after rd l p b = leaf_rest p then ret = 1 \<and> p' = p
     else ret = 0 \<and> slots p' 0 = 0 \<and> 0 < hdr_nritems (the (nodes p' 0)) \<and>
       items_before rd l p' b = items_before rd l p b @ leaf_rest p)"
proof -
  note tp = assms [unfolded tree_path_def]
  then have ok: "tree_ok rd fs l b" and p: "path_ok rd l p b" by simp_all
  consider "next_leaf_up p 1 = Inl 1" "\<forall>j. 1 \<le> j \<and> j \<le> l \<longrightarrow> last_slot p j"
    | m c where "1 \<le> m" "m \<le> l" "next_leaf_up p 1 = Inr (m, Suc (slots p m), c)" "nodes p m = Some c"
      "Suc (slots p m) < hdr_nritems c" "\<forall>j. 1 \<le> j \<and> j < m \<longrightarrow> last_slot p j"
    using next_leaf_up_cases [OF p _ _ , of 1] tp by auto
  then show ?thesis
  proof cases
    case 1
    then have "items_after rd l p b = leaf_rest p" by (intro items_after_last [OF p]) simp
    with 1 assms show ?thesis by (simp add: btrfs_next_leaf_def)
  next
    case 2
    then obtain m' where m: "m = Suc m'" by (cases m) auto
    let ?s = "slots p m"
    obtain pre post where c: "path_ok rd m p c" "tree_ok rd fs m c"
      and graft: "\<And>p'. agree_above m p' p \<Longrightarrow> path_ok rd m p' c \<Longrightarrow>
           path_ok rd l p' b \<and> items_before rd l p' b = pre @ items_before rd m p' c \<and>
           items_after rd l p' b = items_after rd m p' c @ post"
      using path_graft [OF p 2(2) ok] 2(4) by (metis option.inject)
    obtain d where d: "child rd c ?s = Some d" "path_ok rd m' p d" using c(1) by (auto simp: m split: option.splits)
    have rest: "items_after rd m' p d = leaf_rest p"
      using 2(6) by (intro items_after_last [OF d(2)]) (simp add: m)
    obtain e where e: "child rd c (Suc ?s) = Some e" "tree_ok rd fs m' e" "read_node_slot rd c (int (Suc ?s)) = Inr e"
      "tree_items rd m' e \<noteq> []"
      using tree_ok_child [OF c(2) [unfolded m] 2(5)] by metis
    let ?p1 = "p\<lparr>slots := (slots p)(m := Suc ?s)\<rparr>"
    obtain p' where p': "leaf_down rd (\<lambda>_. 0) ?p1 (Suc m') e = (0, p')" "path_ok rd m' p' e"
      "items_before rd m' p' e = []" "slots p' 0 = 0" "agree_above m' p' ?p1"
      "0 < hdr_nritems (the (nodes p' 0))"
      using leaf_down_first [OF e(2)] e(4) by blast
    then have top: "nodes p' m = Some c" "slots p' m = Suc ?s" "agree_above m p' p"
      using 2(4) by (simp_all add: agree_above_def m)
    have pm: "path_ok rd m p' c" using top p'(2) e(1) 2(5) by (simp add: m)
    have "tree_items rd m' d = items_before rd m' p d @ leaf_rest p"
      using path_items [OF d(2)] rest by simp
    then have "items_before rd m p' c = items_before rd m p c @ leaf_rest p"
      using top e(1) p'(3) d(1) by (simp add: m subtree_items_def)
    then have before: "items_before rd l p' b = items_before rd l p b @ leaf_rest p"
      using graft [OF top(3) pm] graft [OF _ c(1)] by (simp add: agree_above_def)
    have ne: "items_after rd l p b \<noteq> leaf_rest p"
    proof -
      have "items_after rd m p c = leaf_rest p @ concat (map (subtree_items rd m' c) [Suc ?s..<hdr_nritems c])"
        using d(1) rest by (simp add: m)
      moreover have "subtree_items rd m' c (Suc ?s) \<noteq> []" using e by (simp add: subtree_items_def)
      ultimately show ?thesis
        using graft [OF _ c(1)] 2(5) by (simp add: agree_above_def upt_conv_Cons)
    qed
    have "nodes p' (Suc l) = None" using top(3) 2(2) tp by (simp add: agree_above_def)
    with tp graft [OF top(3) pm] have "tree_path rd fs l b p'" by (simp add: tree_path_def)
    with 2(3) e(3) p'(1,4,6) before ne show ?thesis
      by (simp add: btrfs_next_leaf_def m del: leaf_down.simps of_nat_Suc)
  qed
qed

lemma prev_leaf_ok:
  assumes "tree_path rd fs l b p"
  shows "\<exists>ret p'. btrfs_prev_leaf rd p = (ret, p') \<and> tree_path rd fs l b p' \<and>
    (if items_before rd l p b = leaf_front p then ret = 1 \<and> p' = p
     else ret = 0 \<and> slots p' 0 < hdr_nritems (the (nodes p' 0)) \<and>
       (\<exists>x. items_before rd l p b = items_before rd l p' b @ x # leaf_front p))"
proof -
  note tp = assms [unfolded tree_path_def]
  then have ok: "tree_ok rd fs l b" and p: "path_ok rd l p b" by simp_all
  consider "prev_leaf_up p 1 = Inl 1" "\<forall>j. 1 \<le> j \<and> j \<le> l \<longrightarrow> slots p j = 0"
    | m c where "1 \<le> m" "m \<le> l" "prev_leaf_up p 1 = Inr (m, slots p m - 1, c)" "nodes p m = Some c"
      "0 < slots p m" "\<forall>j. 1 \<le> j \<and> j < m \<longrightarrow> slots p j = 0"
    using prev_leaf_up_cases [OF p _ _ , of 1] tp by auto
  then show ?thesis
  proof cases
    case 1
    then have "items_before rd l p b = leaf_front p" by (intro items_before_first [OF p]) simp
    with 1 assms show ?thesis by (simp add: btrfs_prev_leaf_def)
  next
    case 2
    then obtain m' where m: "m = Suc m'" by (cases m) auto
    obtain s where s: "slots p m = Suc s" using 2(5) by (cases "slots p m") auto
    obtain pre post where c: "path_ok rd m p c" "tree_ok rd fs m c"
      and graft: "\<And>p'. agree_above m p' p \<Longrightarrow> path_ok rd m p' c \<Longrightarrow>
           path_ok rd l p' b \<and> items_before rd l p' b = pre @ items_before rd m p' c \<and>
           items_after rd l p' b = items_after rd m p' c @ post"
      using path_graft [OF p 2(2) ok] 2(4) by (metis option.inject)
    obtain d where d: "child rd c (Suc s) = Some d" "path_ok rd m' p d" and n: "Suc s < hdr_nritems c"
      using c(1) s by (auto simp: m split: option.splits)
    have front: "items_before rd m' p d = leaf_front p"
      using 2(6) by (intro items_before_first [OF d(2)]) (simp add: m)
    obtain e where e: "child rd c s = Some e" "tree_ok rd fs m' e" "read_node_slot rd c (int s) = Inr e"
      "tree_items rd m' e \<noteq> []"
      using tree_ok_child [OF c(2) [unfolded m], of s] n by (metis Suc_lessD)
    let ?p1 = "p\<lparr>slots := (slots p)(m := s)\<rparr>"
    obtain p' x where p': "leaf_down rd (\<lambda>eb. hdr_nritems eb - 1) ?p1 (Suc m') e = (0, p')" "path_ok rd m' p' e"
      "items_after rd m' p' e = [x]" "slots p' 0 < hdr_nritems (the (nodes p' 0))" "agree_above m' p' ?p1"
      using leaf_down_last [OF e(2,4)] by blast
    then have top: "nodes p' m = Some c" "slots p' m = s" "agree_above m p' p"
      using 2(4) by (simp_all add: agree_above_def m)
    have pm: "path_ok rd m p' c" using top p'(2) e(1) n by (simp add: m)
    have "tree_items rd m' e = items_before rd m' p' e @ [x]"
      using path_items [OF p'(2)] p'(3) by simp
    then have "items_before rd m p c = items_before rd m p' c @ x # leaf_front p"
      using top e(1) d(1) s front by (simp add: m subtree_items_def)
    then have before: "items_before rd l p b = items_before rd l p' b @ x # leaf_front p"
      using graft [OF top(3) pm] graft [OF _ c(1)] by (simp add: agree_above_def)
    have "nodes p' (Suc l) = None" using top(3) 2(2) tp by (simp add: agree_above_def)
    with tp graft [OF top(3) pm] have "tree_path rd fs l b p'" by (simp add: tree_path_def)
    with 2(3) e(3) p'(1,4) before s show ?thesis
      by (simp add: btrfs_prev_leaf_def m del: leaf_down.simps)
  qed
qed

lemma path_leaf:
  assumes "tree_path rd fs l b p"
  obtains leaf pre post where "nodes p 0 = Some leaf" and "slots p 0 \<le> hdr_nritems leaf" and "leaf_inv fs leaf"
    and "\<And>s. s \<le> hdr_nritems leaf \<Longrightarrow> tree_path rd fs l b (p\<lparr>slots := (slots p)(0 := s)\<rparr>) \<and>
      items_before rd l (p\<lparr>slots := (slots p)(0 := s)\<rparr>) b = pre @ take s (leaf_items leaf) \<and>
      items_after rd l (p\<lparr>slots := (slots p)(0 := s)\<rparr>) b = drop s (leaf_items leaf) @ post"
    and "items_before rd l p b = pre @ take (slots p 0) (leaf_items leaf)"
    and "items_after rd l p b = drop (slots p 0) (leaf_items leaf) @ post"
proof -
  note tp = assms [unfolded tree_path_def]
  obtain leaf pre post where leaf: "nodes p 0 = Some leaf" "path_ok rd 0 p leaf" "tree_ok rd fs 0 leaf"
    and graft: "\<And>p'. agree_above 0 p' p \<Longrightarrow> path_ok rd 0 p' leaf \<Longrightarrow>
           path_ok rd l p' b \<and> items_before rd l p' b = pre @ items_before rd 0 p' leaf \<and>
           items_after rd l p' b = items_after rd 0 p' leaf @ post"
    using path_graft [of rd l p b 0 fs] tp by auto
  have "tree_path rd fs l b (p\<lparr>slots := (slots p)(0 := s)\<rparr>) \<and>
      items_before rd l (p\<lparr>slots := (slots p)(0 := s)\<rparr>) b = pre @ take s (leaf_items leaf) \<and>
      items_after rd l (p\<lparr>slots := (slots p)(0 := s)\<rparr>) b = drop s (leaf_items leaf) @ post"
    if "s \<le> hdr_nritems leaf" for s
    using graft [of "p\<lparr>slots := (slots p)(0 := s)\<rparr>"] that leaf tp by (simp add: agree_above_def tree_path_def)
  with leaf graft [of p] that show thesis by (simp add: agree_above_def)
qed

text \<open>One step back, as the loops take it.\<close>

definition step_back :: "reader \<Rightarrow> btrfs_path \<Rightarrow> int \<times> btrfs_path" where
  "step_back rd path =
     (if slots path 0 = 0 then btrfs_prev_leaf rd path
      else (0, path\<lparr>slots := (slots path)(0 := slots path 0 - 1)\<rparr>))"

lemma length_leaf_items [simp]: "length (leaf_items leaf) = hdr_nritems leaf"
  by (simp add: leaf_items_def)

lemma step_back_ok:
  assumes tp: "tree_path rd fs l b p"
  shows "items_before rd l p b = [] \<and> step_back rd p = (1, p) \<or>
    (\<exists>p' leaf x. step_back rd p = (0, p') \<and> tree_path rd fs l b p' \<and> nodes p' 0 = Some leaf \<and>
       slots p' 0 < hdr_nritems leaf \<and> btrfs_item_key leaf (slots p' 0) = fst x \<and>
       items_before rd l p b = items_before rd l p' b @ [x])"
proof (cases "slots p 0")
  case 0
  obtain ret p' where p': "btrfs_prev_leaf rd p = (ret, p')" "tree_path rd fs l b p'"
    "if items_before rd l p b = leaf_front p then ret = 1 \<and> p' = p
     else ret = 0 \<and> slots p' 0 < hdr_nritems (the (nodes p' 0)) \<and>
       (\<exists>x. items_before rd l p b = items_before rd l p' b @ x # leaf_front p)"
    using prev_leaf_ok [OF tp] by blast
  have [simp]: "leaf_front p = []" using 0 by (simp add: leaf_front_def)
  show ?thesis
  proof (cases "items_before rd l p b = []")
    case False
    with p'(3) obtain x where x: "ret = 0" "items_before rd l p b = items_before rd l p' b @ [x]"
      "slots p' 0 < hdr_nritems (the (nodes p' 0))" by auto
    obtain leaf post where leaf: "nodes p' 0 = Some leaf"
      "items_after rd l p' b = drop (slots p' 0) (leaf_items leaf) @ post"
      using path_leaf [OF p'(2)] by metis
    have "items_before rd l p b @ items_after rd l p b = items_before rd l p' b @ items_after rd l p' b"
      using path_items [of rd l p b] path_items [of rd l p' b] tp p'(2) by (simp add: tree_path_def)
    then have "leaf_items leaf ! slots p' 0 = x"
      using x leaf by (simp add: Cons_nth_drop_Suc [symmetric])
    then have "btrfs_item_key leaf (slots p' 0) = fst x"
      using x(3) leaf(1) by (auto simp: leaf_items_def btrfs_item_key_def)
    with x leaf p' 0 show ?thesis
      by (intro disjI2 exI [of _ p'] exI [of _ leaf] exI [of _ x]) (simp add: step_back_def)
  qed (use p' 0 in \<open>simp add: step_back_def\<close>)
next
  case (Suc s)
  obtain leaf pre where leaf: "nodes p 0 = Some leaf" "slots p 0 \<le> hdr_nritems leaf"
    "\<And>s. s \<le> hdr_nritems leaf \<Longrightarrow> tree_path rd fs l b (p\<lparr>slots := (slots p)(0 := s)\<rparr>) \<and>
      items_before rd l (p\<lparr>slots := (slots p)(0 := s)\<rparr>) b = pre @ take s (leaf_items leaf)"
    "items_before rd l p b = pre @ take (slots p 0) (leaf_items leaf)"
    using path_leaf [OF tp] by metis
  have "take (Suc s) (leaf_items leaf) = take s (leaf_items leaf) @ [leaf_items leaf ! s]"
    using leaf(2) Suc by (simp add: take_Suc_conv_app_nth)
  moreover have "btrfs_item_key leaf s = fst (leaf_items leaf ! s)"
    using leaf(2) Suc by (simp add: leaf_items_def btrfs_item_key_def)
  ultimately show ?thesis
    using leaf(1,2,4) leaf(3) [of s] Suc
    by (intro disjI2 exI [of _ "p\<lparr>slots := (slots p)(0 := s)\<rparr>"] exI [of _ leaf] exI [of _ "leaf_items leaf ! s"])
      (simp add: step_back_def)
qed

text \<open>
  The two backward loops are one loop with a different test: \<open>hit\<close> is the key looked for and
  \<open>stop\<close> ends the search in vain.
\<close>

definition back_body :: "reader \<Rightarrow> (btrfs_key \<Rightarrow> bool) \<Rightarrow> (btrfs_key \<Rightarrow> bool) \<Rightarrow> (btrfs_key \<Rightarrow> bool) \<Rightarrow>
    (btrfs_path \<Rightarrow> (int \<times> btrfs_path) option) \<Rightarrow> btrfs_path \<Rightarrow> (int \<times> btrfs_path) option" where
  "back_body rd stop1 hit stop2 again path =
     (let (ret, p1) = step_back rd path in
      if ret \<noteq> 0 then Some (ret, p1)
      else
        case nodes p1 0 of
          None \<Rightarrow> None
        | Some leaf \<Rightarrow>
            let nritems = hdr_nritems leaf in
            if nritems = 0 then Some (1, p1)
            else
              let p2 = (if slots p1 0 = nritems then p1\<lparr>slots := (slots p1)(0 := slots p1 0 - 1)\<rparr> else p1);
                  found_key = btrfs_item_key leaf (slots p2 0)
              in if stop1 found_key then Some (1, p2)
                 else if hit found_key then Some (0, p2)
                 else if stop2 found_key then Some (1, p2)
                 else again p2)"

lemma previous_item_body:
  "btrfs_previous_item rd path min_objectid type =
     back_body rd (\<lambda>k. objectid k < min_objectid) (\<lambda>k. key_type k = type)
       (\<lambda>k. objectid k = min_objectid \<and> key_type k < type)
       (\<lambda>p. btrfs_previous_item rd p min_objectid type) path"
  by (subst btrfs_previous_item.simps) (simp add: back_body_def step_back_def)

lemma previous_extent_item_body:
  "btrfs_previous_extent_item rd path min_objectid =
     back_body rd (\<lambda>k. objectid k < min_objectid)
       (\<lambda>k. key_type k = BTRFS_EXTENT_ITEM_KEY \<or> key_type k = BTRFS_METADATA_ITEM_KEY)
       (\<lambda>k. objectid k = min_objectid \<and> key_type k < BTRFS_EXTENT_ITEM_KEY)
       (\<lambda>p. btrfs_previous_extent_item rd p min_objectid) path"
  by (subst btrfs_previous_extent_item.simps) (simp add: back_body_def step_back_def)

text \<open>
  The loop returns; with 0 it stands on the last item before its start that satisfies \<open>want\<close>, with
  1 there is none. The tests must decide \<open>want\<close> and stop only where nothing smaller satisfies it.
\<close>

definition last_before :: "(btrfs_key \<Rightarrow> bool) \<Rightarrow> (btrfs_key \<times> u8 list) list \<Rightarrow> (btrfs_key \<times> u8 list) list \<Rightarrow> bool" where
  "last_before want before before' \<longleftrightarrow>
     (\<exists>x rest. before = before' @ x # rest \<and> want (fst x) \<and> (\<forall>y\<in>set rest. \<not> want (fst y)))"

locale back_loop =
  fixes loop :: "btrfs_path \<Rightarrow> (int \<times> btrfs_path) option" and rd :: reader
    and stop1 hit stop2 want :: "btrfs_key \<Rightarrow> bool"
  assumes unroll: "loop p = back_body rd stop1 hit stop2 loop p"
    and stops: "stop1 k \<or> \<not> hit k \<and> stop2 k \<Longrightarrow> k' \<le> k \<Longrightarrow> \<not> want k'"
    and hits: "\<not> stop1 k \<Longrightarrow> hit k = want k"
begin

lemma loop_ok:
  assumes "tree_path rd fs l b p"
  shows "\<exists>ret p'. loop p = Some (ret, p') \<and> tree_path rd fs l b p' \<and>
    (ret = 0 \<and> last_before want (items_before rd l p b) (items_before rd l p' b) \<or>
     ret = 1 \<and> (\<forall>y\<in>set (items_before rd l p b). \<not> want (fst y)))"
  using assms
proof (induction "length (items_before rd l p b)" arbitrary: p rule: less_induct)
  case less
  consider "items_before rd l p b = []" "step_back rd p = (1, p)"
    | q leaf x where "step_back rd p = (0, q)" "tree_path rd fs l b q" "nodes q 0 = Some leaf"
      "slots q 0 < hdr_nritems leaf" "btrfs_item_key leaf (slots q 0) = fst x"
      "items_before rd l p b = items_before rd l q b @ [x]"
    using step_back_ok [OF less.prems] by blast
  then show ?case
  proof cases
    case 1
    with less.prems show ?thesis by (subst unroll) (simp add: back_body_def)
  next
    case 2
    have body: "loop p = (if stop1 (fst x) then Some (1, q) else if hit (fst x) then Some (0, q)
        else if stop2 (fst x) then Some (1, q) else loop q)"
      using 2 by (subst unroll) (simp add: back_body_def)
    have "sorted_wrt (<) (map fst (items_before rd l p b))"
      using tree_sorted [of rd fs l b] path_items [of rd l p b] less.prems
      by (simp add: tree_path_def sorted_wrt_append)
    then have below: "fst y \<le> fst x" if "y \<in> set (items_before rd l p b)" for y
      using that by (auto simp: 2(6) sorted_wrt_append less_imp_le)
    show ?thesis
    proof (cases "stop1 (fst x) \<or> \<not> hit (fst x) \<and> stop2 (fst x)")
      case True
      then have "\<forall>y\<in>set (items_before rd l p b). \<not> want (fst y)" using stops below by blast
      with True 2(2) show ?thesis using body by auto
    next
      case stop: False
      show ?thesis
      proof (cases "hit (fst x)")
        case True
        then have "last_before want (items_before rd l p b) (items_before rd l q b)"
          using stop hits [of "fst x"] 2(6) by (auto simp: last_before_def)
        with True stop 2(2) show ?thesis using body by auto
      next
        case False
        obtain ret p' where IH: "loop q = Some (ret, p')" "tree_path rd fs l b p'"
          "ret = 0 \<and> last_before want (items_before rd l q b) (items_before rd l p' b) \<or>
           ret = 1 \<and> (\<forall>y\<in>set (items_before rd l q b). \<not> want (fst y))"
          using less.hyps [OF _ 2(2)] 2(6) by auto
        have "\<not> want (fst x)" using False stop hits [of "fst x"] by simp
        then have "last_before want (items_before rd l q b) bf \<Longrightarrow> last_before want (items_before rd l p b) bf" for bf
          unfolding last_before_def 2(6) by fastforce
        with False stop IH \<open>\<not> want (fst x)\<close> show ?thesis using body 2(6) by auto
      qed
    qed
  qed
qed

end

interpretation previous_item: back_loop "\<lambda>p. btrfs_previous_item rd p min_objectid type" rd
  "\<lambda>k. objectid k < min_objectid" "\<lambda>k. key_type k = type" "\<lambda>k. objectid k = min_objectid \<and> key_type k < type"
  "\<lambda>k. key_type k = type \<and> min_objectid \<le> objectid k"
  for rd min_objectid type
  by unfold_locales (auto simp: previous_item_body [symmetric] less_eq_btrfs_key_def)

interpretation previous_extent_item: back_loop "\<lambda>p. btrfs_previous_extent_item rd p min_objectid" rd
  "\<lambda>k. objectid k < min_objectid"
  "\<lambda>k. key_type k = BTRFS_EXTENT_ITEM_KEY \<or> key_type k = BTRFS_METADATA_ITEM_KEY"
  "\<lambda>k. objectid k = min_objectid \<and> key_type k < BTRFS_EXTENT_ITEM_KEY"
  "\<lambda>k. (key_type k = BTRFS_EXTENT_ITEM_KEY \<or> key_type k = BTRFS_METADATA_ITEM_KEY) \<and> min_objectid \<le> objectid k"
  for rd min_objectid
  by unfold_locales (auto simp: previous_extent_item_body [symmetric] less_eq_btrfs_key_def dest: less_trans)

text \<open>One step forward.\<close>

lemma on_item_key:
  assumes "tree_path rd fs l b p" and "on_item p"
  shows "\<exists>x ys. items_after rd l p b = x # ys \<and> btrfs_item_key (the (nodes p 0)) (slots p 0) = fst x"
proof -
  obtain leaf post where leaf: "nodes p 0 = Some leaf"
    "items_after rd l p b = drop (slots p 0) (leaf_items leaf) @ post"
    using path_leaf [OF assms(1)] by metis
  have "slots p 0 < hdr_nritems leaf" using assms(2) leaf(1) by (simp add: on_item_def)
  then show ?thesis
    by (simp add: leaf Cons_nth_drop_Suc [symmetric]) (simp add: leaf_items_def btrfs_item_key_def)
qed

lemma items_unique:
  assumes "tree_path rd fs l b p" and "tree_path rd fs l b p'"
    and "items_before rd l p' b = items_before rd l p b @ xs"
  shows "items_after rd l p b = xs @ items_after rd l p' b"
  using path_items [of rd l p b] path_items [of rd l p' b] assms by (simp add: tree_path_def)

lemma next_item_ok:
  assumes tp: "tree_path rd fs l b p" and "on_item p" and items: "items_after rd l p b = x # ys"
  shows "\<exists>ret p'. btrfs_next_item rd p = Some (ret, p') \<and> tree_path rd fs l b p' \<and>
    items_before rd l p' b = items_before rd l p b @ [x] \<and> (if ys = [] then ret = 1 else ret = 0 \<and> on_item p')"
proof -
  obtain leaf pre post where leaf: "nodes p 0 = Some leaf"
    "\<And>s. s \<le> hdr_nritems leaf \<Longrightarrow> tree_path rd fs l b (p\<lparr>slots := (slots p)(0 := s)\<rparr>) \<and>
      items_before rd l (p\<lparr>slots := (slots p)(0 := s)\<rparr>) b = pre @ take s (leaf_items leaf) \<and>
      items_after rd l (p\<lparr>slots := (slots p)(0 := s)\<rparr>) b = drop s (leaf_items leaf) @ post"
    "items_before rd l p b = pre @ take (slots p 0) (leaf_items leaf)"
    "items_after rd l p b = drop (slots p 0) (leaf_items leaf) @ post"
    using path_leaf [OF tp] by metis
  let ?s = "slots p 0" and ?q = "p\<lparr>slots := (slots p)(0 := Suc (slots p 0))\<rparr>"
  have s: "?s < hdr_nritems leaf" using assms(2) leaf(1) by (simp add: on_item_def)
  have x: "x = leaf_items leaf ! ?s" and ys: "ys = drop (Suc ?s) (leaf_items leaf) @ post"
    using items leaf(4) s by (simp_all add: Cons_nth_drop_Suc [symmetric])
  have q: "tree_path rd fs l b ?q" "items_before rd l ?q b = items_before rd l p b @ [x]"
    "items_after rd l ?q b = ys"
    using leaf(2) [of "Suc ?s"] s by (simp_all add: leaf(3) x ys take_Suc_conv_app_nth)
  show ?thesis
  proof (cases "Suc ?s < hdr_nritems leaf")
    case True
    with q ys leaf(1) show ?thesis by (simp add: btrfs_next_item_def Let_def on_item_def)
  next
    case False
    then have rest: "leaf_rest ?q = []" by (simp add: leaf_rest_def leaf(1))
    obtain ret p' where p': "btrfs_next_leaf rd ?q = (ret, p')" "tree_path rd fs l b p'"
      "if ys = [] then ret = 1 \<and> p' = ?q
       else ret = 0 \<and> slots p' 0 = 0 \<and> 0 < hdr_nritems (the (nodes p' 0)) \<and>
         items_before rd l p' b = items_before rd l ?q b"
      using next_leaf_ok [OF q(1), unfolded rest q(3)] by auto
    with False q(2) leaf(1) show ?thesis
      by (auto simp: btrfs_next_item_def Let_def on_item_def split: if_splits)
  qed
qed

abbreviation is_extent_key :: "btrfs_key \<Rightarrow> bool" where
  "is_extent_key k \<equiv> key_type k = BTRFS_EXTENT_ITEM_KEY \<or> key_type k = BTRFS_METADATA_ITEM_KEY"

lemma next_extent_item_ok:
  assumes "tree_path rd fs l b p" and "on_item p" and "items_after rd l p b = x # ys"
  shows "\<exists>ret p'. btrfs_next_extent_item rd p max_objectid = Some (ret, p') \<and> tree_path rd fs l b p' \<and>
    (ret = 0 \<and> (\<exists>skip y rest. ys = skip @ y # rest \<and> items_before rd l p' b = items_before rd l p b @ x # skip \<and>
         is_extent_key (fst y) \<and> objectid (fst y) \<le> max_objectid \<and> (\<forall>z\<in>set skip. \<not> is_extent_key (fst z))) \<or>
     ret = 1 \<and> (\<forall>y\<in>set ys. is_extent_key (fst y) \<longrightarrow> max_objectid < objectid (fst y)))"
  using assms
proof (induction ys arbitrary: p x)
  case Nil
  then show ?case
    using next_item_ok [OF Nil] by (subst btrfs_next_extent_item.simps) auto
next
  case (Cons y ys)
  obtain q where q: "btrfs_next_item rd p = Some (0, q)" "tree_path rd fs l b q" "on_item q"
    "items_before rd l q b = items_before rd l p b @ [x]"
    using next_item_ok [OF Cons.prems] by auto
  have after: "items_after rd l q b = y # ys"
    using items_unique [OF Cons.prems(1) q(2,4)] Cons.prems(3) by simp
  obtain leaf where leaf: "nodes q 0 = Some leaf" "btrfs_item_key leaf (slots q 0) = fst y"
    using on_item_key [OF q(2,3)] path_leaf [OF q(2)] after by (metis list.inject option.sel)
  have body: "btrfs_next_extent_item rd p max_objectid =
      (if max_objectid < objectid (fst y) then Some (1, q) else if is_extent_key (fst y) then Some (0, q)
       else btrfs_next_extent_item rd q max_objectid)"
    by (subst btrfs_next_extent_item.simps) (simp add: q(1) leaf Let_def)
  have "sorted_wrt (<) (map fst (items_after rd l q b))"
    using tree_sorted [of rd fs l b] path_items [of rd l q b] q(2) by (simp add: tree_path_def sorted_wrt_append)
  then have above: "objectid (fst y) \<le> objectid (fst z)" if "z \<in> set (y # ys)" for z
    using that by (auto simp: after less_btrfs_key_def)
  consider "max_objectid < objectid (fst y)"
    | "\<not> max_objectid < objectid (fst y)" "is_extent_key (fst y)"
    | "\<not> max_objectid < objectid (fst y)" "\<not> is_extent_key (fst y)" by blast
  then show ?case
  proof cases
    case 1
    then have "\<forall>z\<in>set (y # ys). max_objectid < objectid (fst z)" using above by (blast intro: less_le_trans)
    with 1 q(2) show ?thesis unfolding body by auto
  next
    case 2
    have "\<exists>skip y' rest. y # ys = skip @ y' # rest \<and> items_before rd l q b = items_before rd l p b @ x # skip \<and>
         is_extent_key (fst y') \<and> objectid (fst y') \<le> max_objectid \<and> (\<forall>z\<in>set skip. \<not> is_extent_key (fst z))"
      using 2 q(4) by (intro exI [of _ "[]"] exI [of _ y] exI [of _ ys]) auto
    with 2 q(2) show ?thesis unfolding body by auto
  next
    case 3
    obtain ret p' where IH: "btrfs_next_extent_item rd q max_objectid = Some (ret, p')" "tree_path rd fs l b p'"
      "ret = 0 \<and> (\<exists>skip y' rest. ys = skip @ y' # rest \<and> items_before rd l p' b = items_before rd l q b @ y # skip \<and>
         is_extent_key (fst y') \<and> objectid (fst y') \<le> max_objectid \<and> (\<forall>z\<in>set skip. \<not> is_extent_key (fst z))) \<or>
       ret = 1 \<and> (\<forall>y'\<in>set ys. is_extent_key (fst y') \<longrightarrow> max_objectid < objectid (fst y'))"
      using Cons.IH [OF q(2,3) after] by blast
    from IH(3) show ?thesis
    proof
      assume A: "ret = 1 \<and> (\<forall>y'\<in>set ys. is_extent_key (fst y') \<longrightarrow> max_objectid < objectid (fst y'))"
      with 3 IH(1,2) show ?thesis unfolding body by auto
    next
      assume "ret = 0 \<and> (\<exists>skip y' rest. ys = skip @ y' # rest \<and> items_before rd l p' b = items_before rd l q b @ y # skip \<and>
         is_extent_key (fst y') \<and> objectid (fst y') \<le> max_objectid \<and> (\<forall>z\<in>set skip. \<not> is_extent_key (fst z)))"
      then obtain skip y' rest where A: "ret = 0" "y # ys = (y # skip) @ y' # rest"
        "items_before rd l p' b = items_before rd l p b @ x # (y # skip)" "is_extent_key (fst y')"
        "objectid (fst y') \<le> max_objectid" "\<forall>z\<in>set (y # skip). \<not> is_extent_key (fst z)"
        using q(4) 3(2) by auto
      moreover have "btrfs_next_extent_item rd p max_objectid = Some (ret, p')"
        using 3 IH(1) by (simp add: body)
      ultimately show ?thesis using IH(2) by blast
    qed
  qed
qed

section \<open>Correctness of \<open>btrfs_search_slot\<close> and \<open>btrfs_find_item\<close>\<close>

definition fresh_path :: "btrfs_path \<Rightarrow> bool" where
  "fresh_path p \<longleftrightarrow> nodes p = (\<lambda>_. None) \<and> lowest_level p = 0"

lemma search_slot_ok:
  assumes "tree_ok rd fs l b" and "fs_ok fs" and "l < BTRFS_MAX_LEVEL" and "fresh_path p"
  obtains ret p' where "btrfs_search_slot mem garbage fs rd b key p info = Some (ret, p', info)"
    and "tree_path rd fs l b p'" and "found_at rd l p' b key ret"
proof -
  have "parent_agrees rd l p b" using assms(4) by (simp add: parent_agrees_def fresh_path_def)
  then obtain ret p' where "search_slot_loop mem garbage fs rd key p info b = Some (ret, p', info)"
    "found_at rd l p' b key ret" "\<forall>j>l. nodes p' j = nodes p j"
    using search_slot_loop_ok [OF assms(1-3)] assms(4) unfolding fresh_path_def by metis
  with that assms show thesis
    by (auto simp: btrfs_search_slot_def tree_path_def found_at_def fresh_path_def)
qed

text \<open>
  The least item at or above the key is found. The return value is 0 when the key itself is in the
  tree; when it is not, the item found decides only if it is the first of the next leaf.
\<close>

lemma find_item_ok:
  fixes iobjectid ktype ioff
  assumes ok: "tree_ok rd fs l b" and "fs_ok fs" and "l < BTRFS_MAX_LEVEL" and "fresh_path p"
  defines "key \<equiv> Key iobjectid ktype ioff"
  obtains r p1 ret p' fk where "btrfs_search_slot mem garbage fs rd b key p info = Some (r, p1, info)"
    and "btrfs_find_item mem garbage fs rd b (Some p) iobjectid ioff ktype True info = Some (ret, Some p', fk, info)"
    and "found_at rd l p1 b key r" and "tree_path rd fs l b p1"
    and "tree_path rd fs l b p'" and "items_before rd l p' b = items_before rd l p1 b" and "on_item p' \<longleftrightarrow> fk \<noteq> None"
    and "case items_after rd l p1 b of
           [] \<Rightarrow> fk = None \<and> ret = 1
         | x # _ \<Rightarrow> fk = Some (fst x) \<and>
             ret = (if key_type (fst x) \<noteq> ktype \<or> objectid (fst x) \<noteq> iobjectid \<or> fst x \<noteq> key \<and> on_item p1 then 1 else 0)"
proof -
  obtain ret p1 where s: "btrfs_search_slot mem garbage fs rd b key p info = Some (ret, p1, info)"
    and tp: "tree_path rd fs l b p1" and f: "found_at rd l p1 b key ret"
    using search_slot_ok [OF assms(1-4)] by metis
  obtain leaf post where leaf: "nodes p1 0 = Some leaf" "slots p1 0 \<le> hdr_nritems leaf"
    "items_after rd l p1 b = drop (slots p1 0) (leaf_items leaf) @ post"
    using path_leaf [OF tp] by metis
  have ret: "ret = (if key \<in> fst ` set (tree_items rd l b) then 0 else 1)" using f by (simp add: found_at_def)
  have after: "x \<in> set (items_after rd l p1 b)" if "fst x = key" "x \<in> set (tree_items rd l b)" for x
    using that f path_items [of rd l p1 b] by (auto simp: found_at_def)
  have exact: "ret = 0 \<longleftrightarrow> fst x = key" if "items_after rd l p1 b = x # xs" for x xs
  proof
    assume "ret = 0"
    then obtain y where y: "fst y = key" "y \<in> set (items_after rd l p1 b)"
      using ret after by (auto split: if_splits)
    have "sorted_wrt (<) (map fst (items_after rd l p1 b))"
      using tree_sorted [OF ok] path_items [of rd l p1 b] tp by (simp add: tree_path_def sorted_wrt_append)
    with y that have "fst x \<le> key" by auto
    moreover have "key \<le> fst x" using f that by (auto simp: found_at_def)
    ultimately show "fst x = key" by simp
  next
    assume "fst x = key"
    moreover have "x \<in> set (tree_items rd l b)"
      using that path_items [of rd l p1 b] tp by (simp add: tree_path_def)
    ultimately show "ret = 0" using ret by force
  qed
  show thesis
  proof (cases "on_item p1")
    case True
    obtain x xs where x: "items_after rd l p1 b = x # xs" "btrfs_item_key leaf (slots p1 0) = fst x"
      using on_item_key [OF tp True] leaf(1) by auto
    have "ret = 0 \<or> ret = 1" using ret by simp
    then have find: "btrfs_find_item mem garbage fs rd b (Some p) iobjectid ioff ktype True info =
        Some (if key_type (fst x) \<noteq> ktype \<or> objectid (fst x) \<noteq> iobjectid then 1 else ret, Some p1, Some (fst x), info)"
      using s leaf(1) x(2) True by (auto simp: btrfs_find_item_def key_def on_item_def)
    have "ret = (if fst x = key then 0 else 1)"
      using exact [OF x(1)] \<open>ret = 0 \<or> ret = 1\<close> by auto
    with that [OF s find f tp tp refl] True x(1) show thesis by (auto split: if_splits)
  next
    case False
    then have slot: "slots p1 0 = hdr_nritems leaf" using leaf by (simp add: on_item_def)
    then have rest: "leaf_rest p1 = []" by (simp add: leaf_rest_def leaf(1))
    obtain r2 p2 where n: "btrfs_next_leaf rd p1 = (r2, p2)" "tree_path rd fs l b p2"
      "if items_after rd l p1 b = [] then r2 = 1 \<and> p2 = p1
       else r2 = 0 \<and> slots p2 0 = 0 \<and> 0 < hdr_nritems (the (nodes p2 0)) \<and> items_before rd l p2 b = items_before rd l p1 b"
      using next_leaf_ok [OF tp, unfolded rest] by auto
    have ret1: "ret = 1" using False f ret by (auto simp: found_at_def split: if_splits)
    have find: "btrfs_find_item mem garbage fs rd b (Some p) iobjectid ioff ktype True info =
        (if r2 \<noteq> 0 then Some (r2, Some p2, None, info)
         else case nodes p2 0 of None \<Rightarrow> None
           | Some eb2 \<Rightarrow> let fk = btrfs_item_key eb2 (slots p2 0) in
             Some (if key_type fk \<noteq> ktype \<or> objectid fk \<noteq> iobjectid then 1 else 0, Some p2, Some fk, info))"
      using s leaf(1) slot n(1) ret1 by (cases "r2 = 0") (simp_all add: btrfs_find_item_def key_def)
    show thesis
    proof (cases "items_after rd l p1 b")
      case Nil
      with find n(3) that [OF s, of 1 p2 None] f tp False show thesis by auto
    next
      case (Cons x xs)
      with n(3) have p2: "r2 = 0" "on_item p2" "items_before rd l p2 b = items_before rd l p1 b"
        by (auto simp: on_item_def)
      then have "items_after rd l p2 b = x # xs"
        using items_unique [OF tp n(2), of "[]"] Cons by simp
      then have k: "btrfs_item_key (the (nodes p2 0)) (slots p2 0) = fst x"
        using on_item_key [OF n(2) p2(2)] by auto
      obtain eb2 where eb2: "nodes p2 0 = Some eb2" using path_leaf [OF n(2)] by metis
      have "btrfs_find_item mem garbage fs rd b (Some p) iobjectid ioff ktype True info =
          Some (if key_type (fst x) \<noteq> ktype \<or> objectid (fst x) \<noteq> iobjectid then 1 else 0, Some p2, Some (fst x), info)"
        using find p2(1) eb2 k by simp
      with that [OF s, of _ p2 "Some (fst x)"] f tp n(2) p2(2,3) Cons False show thesis by simp
    qed
  qed
qed

end
