(* ===== verification/Node.thy ===== *)
theory Node
  imports LeafItems
begin

text \<open>
  Nodes of the B-tree (\<open>ctree.c\<close>): moving, inserting and deleting key pointers, and the
  propagation of a changed first key. The functions take the blocks that the C code reads from the
  path; copy-on-write, which replaces a block by a private copy before it is changed, has happened
  before. \<open>node_ptrs\<close> is the sequence of pointers of a node, and every operation is shown to act
  on it as a list operation.
\<close>

definition node_ptrs :: "extent_buffer \<Rightarrow> btrfs_key_ptr list" where
  "node_ptrs eb = map (eb_ptrs eb) [0..<hdr_nritems eb]"

section \<open>Operations\<close>

text \<open>
  \<open>push_node_left\<close>: the result is the return value and the two nodes \<open>dst\<close> and \<open>src\<close>.
  The differences are those of C's \<open>int\<close>.
\<close>

definition push_left_count :: "btrfs_fs_info \<Rightarrow> nat \<Rightarrow> nat \<Rightarrow> bool \<Rightarrow> nat option" where
  "push_left_count fs dst_nritems src_nritems emptying =
     (let push_items = int (BTRFS_NODEPTRS_PER_BLOCK fs) - int dst_nritems;
          src = int src_nritems
      in if \<not> emptying \<and> src \<le> 8 then None
         else if push_items \<le> 0 then None
         else if emptying then
           (let push1 = min src push_items in
            if push1 < src \<and> src - push1 < 8 then
              (if push1 \<le> 8 then None else Some (nat (push1 - 8)))
            else Some (nat push1))
         else Some (nat (min (src - 8) push_items)))"

definition push_node_left :: "btrfs_fs_info \<Rightarrow> extent_buffer \<Rightarrow> extent_buffer \<Rightarrow> bool \<Rightarrow> int \<times> extent_buffer \<times> extent_buffer" where
  "push_node_left fs dst src emptying =
     (let src_nritems = hdr_nritems src;
          dst_nritems = hdr_nritems dst
      in case push_left_count fs dst_nritems src_nritems emptying of
           None \<Rightarrow> (1, dst, src)
         | Some push_items \<Rightarrow>
             let dst1 = copy_ptrs dst src dst_nritems 0 push_items;
                 src1 = (if push_items < src_nritems
                         then memmove_ptrs src 0 push_items (src_nritems - push_items) else src)
             in (0, dst1\<lparr>hdr_nritems := dst_nritems + push_items\<rparr>, src1\<lparr>hdr_nritems := src_nritems - push_items\<rparr>))"

definition balance_node_right :: "btrfs_fs_info \<Rightarrow> extent_buffer \<Rightarrow> extent_buffer \<Rightarrow> int \<times> extent_buffer \<times> extent_buffer" where
  "balance_node_right fs dst src =
     (let src_nritems = hdr_nritems src;
          dst_nritems = hdr_nritems dst;
          room = int (BTRFS_NODEPTRS_PER_BLOCK fs) - int dst_nritems;
          max_push = src_nritems div 2 + 1
      in if room \<le> 0 then (1, dst, src)
         else if src_nritems < 4 then (1, dst, src)
         else if max_push \<ge> src_nritems then (1, dst, src)
         else
           let push_items = (if int max_push < room then max_push else nat room);
               dst1 = memmove_ptrs dst push_items 0 dst_nritems;
               dst2 = copy_ptrs dst1 src 0 (src_nritems - push_items) push_items
           in (0, dst2\<lparr>hdr_nritems := dst_nritems + push_items\<rparr>, src\<lparr>hdr_nritems := src_nritems - push_items\<rparr>))"

text \<open>\<open>insert_ptr\<close> on the node \<open>path->nodes[level]\<close>.\<close>

definition insert_ptr :: "btrfs_fs_info \<Rightarrow> u64 \<Rightarrow> extent_buffer \<Rightarrow> btrfs_key \<Rightarrow> u64 \<Rightarrow> nat \<Rightarrow> extent_buffer option" where
  "insert_ptr fs transid lower key bytenr slot =
     (let nritems = hdr_nritems lower in
      if slot > nritems then None
      else if nritems = BTRFS_NODEPTRS_PER_BLOCK fs then None
      else
        let l1 = (if slot < nritems then memmove_ptrs lower (slot + 1) slot (nritems - slot) else lower);
            l2 = btrfs_set_node_key l1 key slot;
            l3 = btrfs_set_node_blockptr l2 slot bytenr;
            l4 = btrfs_set_node_ptr_generation l3 slot transid
        in Some (l4\<lparr>hdr_nritems := nritems + 1\<rparr>))"

text \<open>The part of \<open>split_node\<close> that moves the upper half of \<open>c\<close> into the new node.\<close>

definition split_node_ptrs :: "extent_buffer \<Rightarrow> extent_buffer \<Rightarrow> extent_buffer \<times> extent_buffer" where
  "split_node_ptrs c split =
     (let c_nritems = hdr_nritems c;
          mid = (c_nritems + 1) div 2;
          split1 = copy_ptrs split c 0 mid (c_nritems - mid)
      in (c\<lparr>hdr_nritems := mid\<rparr>, split1\<lparr>hdr_nritems := c_nritems - mid\<rparr>))"

text \<open>
  \<open>btrfs_fixup_low_keys\<close> on the blocks and slots of the path from \<open>level\<close> upwards, up to
  the first level without a block.
\<close>

fun btrfs_fixup_low_keys :: "btrfs_key \<Rightarrow> (extent_buffer \<times> nat) list \<Rightarrow> (extent_buffer \<times> nat) list" where
  "btrfs_fixup_low_keys key [] = []"
| "btrfs_fixup_low_keys key ((t, tslot) # path) =
     (btrfs_set_node_key t key tslot, tslot) # (if tslot \<noteq> 0 then path else btrfs_fixup_low_keys key path)"

text \<open>
  \<open>btrfs_del_ptr\<close>: the node \<open>parent\<close> and the path above it. \<open>is_root\<close> says whether
  \<open>parent\<close> is \<open>root->node\<close>; a root that loses its last pointer becomes an empty leaf.
\<close>

definition btrfs_del_ptr ::
    "bool \<Rightarrow> extent_buffer \<Rightarrow> nat \<Rightarrow> (extent_buffer \<times> nat) list \<Rightarrow> (extent_buffer \<times> (extent_buffer \<times> nat) list) option" where
  "btrfs_del_ptr is_root parent slot path =
     (let nritems = hdr_nritems parent;
          p1 = (if slot < u32_sub nritems 1 then memmove_ptrs parent slot (slot + 1) (nritems - slot - 1) else parent);
          nritems1 = u32_sub nritems 1;
          p2 = p1\<lparr>hdr_nritems := nritems1\<rparr>
      in if nritems1 = 0 \<and> is_root then
           (if hdr_level p2 \<noteq> 1 then None else Some (p2\<lparr>hdr_level := 0\<rparr>, path))
         else if slot = 0 then Some (p2, btrfs_fixup_low_keys (btrfs_node_key p2 0) path)
         else Some (p2, path))"

text \<open>\<open>btrfs_set_item_key_safe\<close>; the path above the leaf starts at level 1.\<close>

definition btrfs_set_item_key_unsafe ::
    "extent_buffer \<Rightarrow> nat \<Rightarrow> btrfs_key \<Rightarrow> (extent_buffer \<times> nat) list \<Rightarrow> extent_buffer \<times> (extent_buffer \<times> nat) list" where
  "btrfs_set_item_key_unsafe eb slot new_key path =
     (btrfs_set_item_key eb new_key slot, if slot = 0 then btrfs_fixup_low_keys new_key path else path)"

definition btrfs_set_item_key_safe ::
    "extent_buffer \<Rightarrow> nat \<Rightarrow> btrfs_key \<Rightarrow> (extent_buffer \<times> nat) list \<Rightarrow> int \<times> extent_buffer \<times> (extent_buffer \<times> nat) list" where
  "btrfs_set_item_key_safe eb slot new_key path =
     (if slot > 0 \<and> btrfs_comp_keys (btrfs_item_key eb (slot - 1)) new_key \<ge> 0 then (-1, eb, path)
      else if slot < u32_sub (hdr_nritems eb) 1 \<and> btrfs_comp_keys (btrfs_item_key eb (slot + 1)) new_key \<le> 0
      then (-1, eb, path)
      else
        let eb1 = btrfs_set_item_key eb new_key slot
        in (0, eb1, if slot = 0 then btrfs_fixup_low_keys new_key path else path))"

section \<open>Pointers as a list\<close>

lemma length_node_ptrs [simp]: "length (node_ptrs eb) = hdr_nritems eb"
  by (simp add: node_ptrs_def)

lemma node_ptrsI:
  assumes "hdr_nritems eb = length xs" and "\<And>i. i < length xs \<Longrightarrow> eb_ptrs eb i = xs ! i"
  shows "node_ptrs eb = xs"
  by (rule nth_equalityI) (use assms in \<open>simp_all add: node_ptrs_def\<close>)

lemma nth_node_ptrs: "i < hdr_nritems eb \<Longrightarrow> node_ptrs eb ! i = eb_ptrs eb i"
  by (simp add: node_ptrs_def)

lemma ptrs_prefix: "n \<le> hdr_nritems eb \<Longrightarrow> node_ptrs (eb\<lparr>hdr_nritems := n\<rparr>) = take n (node_ptrs eb)"
  by (intro node_ptrsI) (simp_all add: nth_node_ptrs)

lemma push_left_count_bounds:
  assumes "push_left_count fs d s emptying = Some n"
  shows "n \<le> s" and "d + n \<le> BTRFS_NODEPTRS_PER_BLOCK fs" and "0 < s \<Longrightarrow> 0 < n"
    and "\<not> emptying \<Longrightarrow> 8 \<le> s - n" and "n < s \<Longrightarrow> 8 \<le> s - n"
  using assms by (auto simp: push_left_count_def Let_def split: if_splits)

lemma push_node_left_ok:
  assumes "push_node_left fs dst src emptying = (ret, dst', src')"
  shows "ret = 1 \<and> dst' = dst \<and> src' = src \<or>
    ret = 0 \<and> node_ptrs dst' @ node_ptrs src' = node_ptrs dst @ node_ptrs src \<and>
      hdr_nritems dst' \<le> BTRFS_NODEPTRS_PER_BLOCK fs \<and> hdr_nritems dst \<le> hdr_nritems dst' \<and>
      (0 < hdr_nritems src \<longrightarrow> hdr_nritems dst < hdr_nritems dst') \<and> (hdr_nritems src' = 0 \<and> emptying \<or> 8 \<le> hdr_nritems src')"
proof (cases "push_left_count fs (hdr_nritems dst) (hdr_nritems src) emptying")
  case None
  with assms show ?thesis by (simp add: push_node_left_def)
next
  case (Some n)
  note b = push_left_count_bounds [OF Some]
  have r: "ret = 0" "dst' = (copy_ptrs dst src (hdr_nritems dst) 0 n)\<lparr>hdr_nritems := hdr_nritems dst + n\<rparr>"
    "src' = (if n < hdr_nritems src then memmove_ptrs src 0 n (hdr_nritems src - n) else src)
       \<lparr>hdr_nritems := hdr_nritems src - n\<rparr>"
    using assms Some by (simp_all add: push_node_left_def Let_def)
  have "node_ptrs dst' = node_ptrs dst @ take n (node_ptrs src)"
    using b(1) by (intro node_ptrsI) (auto simp: r(2) node_defs mem_copy_def nth_append nth_node_ptrs)
  moreover have "node_ptrs src' = drop n (node_ptrs src)"
    using b(1) by (intro node_ptrsI) (auto simp: r(3) node_defs mem_copy_def nth_node_ptrs)
  moreover have "hdr_nritems dst' = hdr_nritems dst + n" "hdr_nritems src' = hdr_nritems src - n"
    by (simp_all add: r)
  ultimately show ?thesis using b r(1) by (cases "n < hdr_nritems src") auto
qed

lemma balance_node_right_ok:
  assumes "balance_node_right fs dst src = (ret, dst', src')"
  shows "ret = 1 \<and> dst' = dst \<and> src' = src \<or>
    ret = 0 \<and> node_ptrs src' @ node_ptrs dst' = node_ptrs src @ node_ptrs dst \<and>
      hdr_nritems dst' \<le> BTRFS_NODEPTRS_PER_BLOCK fs \<and> 0 < hdr_nritems src' \<and> hdr_nritems src' < hdr_nritems src \<and>
      hdr_nritems src \<le> 2 * (hdr_nritems src' + 1)"
proof (cases "ret = 1")
  case True
  with assms show ?thesis by (auto simp: balance_node_right_def Let_def split: if_splits)
next
  case False
  let ?s = "hdr_nritems src" and ?d = "hdr_nritems dst"
  define n where "n = (if int (?s div 2 + 1) < int (BTRFS_NODEPTRS_PER_BLOCK fs) - int ?d then ?s div 2 + 1
    else nat (int (BTRFS_NODEPTRS_PER_BLOCK fs) - int ?d))"
  have n: "0 < n" "n < ?s" "?d + n \<le> BTRFS_NODEPTRS_PER_BLOCK fs" "n \<le> ?s div 2 + 1"
    and r: "ret = 0" "src' = src\<lparr>hdr_nritems := ?s - n\<rparr>"
      "dst' = (copy_ptrs (memmove_ptrs dst n 0 ?d) src 0 (?s - n) n)\<lparr>hdr_nritems := ?d + n\<rparr>"
    using assms False by (auto simp: balance_node_right_def Let_def n_def split: if_splits)
  have "node_ptrs src' = take (?s - n) (node_ptrs src)" using r(2) by (simp add: ptrs_prefix)
  moreover have "node_ptrs dst' = drop (?s - n) (node_ptrs src) @ node_ptrs dst"
    using n by (intro node_ptrsI) (auto simp: r(3) node_defs mem_copy_def nth_append nth_node_ptrs)
  ultimately show ?thesis using n r by auto
qed

lemma insert_ptr_ok:
  assumes "slot \<le> hdr_nritems lower" and "hdr_nritems lower < BTRFS_NODEPTRS_PER_BLOCK fs"
  shows "\<exists>lower'. insert_ptr fs transid lower key bytenr slot = Some lower' \<and>
    node_ptrs lower' = take slot (node_ptrs lower) @
      \<lparr>kp_key = key, kp_blockptr = bytenr, kp_generation = transid\<rparr> # drop slot (node_ptrs lower)"
  using assms
  by (auto simp: insert_ptr_def Let_def intro!: node_ptrsI)
    (auto simp: node_defs mem_copy_def nth_append nth_node_ptrs nth_Cons' intro!: btrfs_key_ptr.equality)

lemma split_node_ptrs_ok:
  assumes "split_node_ptrs c split = (c', split')"
  shows "node_ptrs c' @ node_ptrs split' = node_ptrs c"
    and "hdr_nritems c' = (hdr_nritems c + 1) div 2" and "hdr_nritems split' = hdr_nritems c div 2"
proof -
  let ?n = "hdr_nritems c" and ?m = "(hdr_nritems c + 1) div 2"
  have "node_ptrs c' = take ?m (node_ptrs c)"
    using assms by (auto simp: split_node_ptrs_def Let_def ptrs_prefix)
  moreover have "node_ptrs split' = drop ?m (node_ptrs c)"
    using assms by (intro node_ptrsI) (auto simp: split_node_ptrs_def Let_def node_defs mem_copy_def nth_node_ptrs)
  ultimately show "node_ptrs c' @ node_ptrs split' = node_ptrs c" by simp
  show "hdr_nritems c' = ?m" and "hdr_nritems split' = ?n div 2"
    using assms by (auto simp: split_node_ptrs_def Let_def)
qed

section \<open>First keys\<close>

text \<open>The key is written into a block exactly when the path reaches that block through slots 0.\<close>

lemma fixup_low_keys_nth:
  "i < length path \<Longrightarrow> btrfs_fixup_low_keys key path ! i =
     (if \<forall>j<i. snd (path ! j) = 0
      then (btrfs_set_node_key (fst (path ! i)) key (snd (path ! i)), snd (path ! i)) else path ! i)"
proof (induction key path arbitrary: i rule: btrfs_fixup_low_keys.induct)
  case (2 key t tslot path)
  show ?case
  proof (cases i)
    case (Suc k)
    have "(\<forall>j<Suc k. snd (((t, tslot) # path) ! j) = 0) \<longleftrightarrow> tslot = 0 \<and> (\<forall>j<k. snd (path ! j) = 0)"
      by (auto simp: less_Suc_eq_0_disj)
    with 2 Suc show ?thesis by auto
  qed simp
qed simp

lemma length_fixup_low_keys [simp]: "length (btrfs_fixup_low_keys key path) = length path"
  by (induction key path rule: btrfs_fixup_low_keys.induct) auto

lemma del_ptr_ok:
  assumes slot: "slot < hdr_nritems parent" and "hdr_nritems parent < 2 ^ 32"
    and root: "is_root \<Longrightarrow> hdr_nritems parent = 1 \<Longrightarrow> hdr_level parent = 1"
  shows "\<exists>parent' path'. btrfs_del_ptr is_root parent slot path = Some (parent', path') \<and>
    node_ptrs parent' = take slot (node_ptrs parent) @ drop (Suc slot) (node_ptrs parent) \<and>
    hdr_level parent' = (if is_root \<and> hdr_nritems parent = 1 then 0 else hdr_level parent) \<and>
    path' = (if slot = 0 \<and> \<not> (is_root \<and> hdr_nritems parent = 1)
             then btrfs_fixup_low_keys (btrfs_node_key parent' 0) path else path)"
proof -
  let ?n = "hdr_nritems parent"
  have u: "u32_sub ?n 1 = ?n - 1" using assms by simp
  define p1 where "p1 = (if slot < ?n - 1 then memmove_ptrs parent slot (slot + 1) (?n - slot - 1) else parent)
      \<lparr>hdr_nritems := ?n - 1\<rparr>"
  have "node_ptrs p1 = take slot (node_ptrs parent) @ drop (Suc slot) (node_ptrs parent)"
    using slot by (intro node_ptrsI) (auto simp: p1_def node_defs mem_copy_def nth_append nth_node_ptrs)
  moreover have "node_ptrs (p1\<lparr>hdr_level := 0\<rparr>) = node_ptrs p1" by (simp add: node_ptrs_def)
  moreover have "hdr_level p1 = hdr_level parent" by (simp add: p1_def node_defs)
  moreover have "?n - 1 = 0 \<longleftrightarrow> ?n = 1" using slot by auto
  moreover have "btrfs_del_ptr is_root parent slot path =
      (if ?n - 1 = 0 \<and> is_root then (if hdr_level p1 \<noteq> 1 then None else Some (p1\<lparr>hdr_level := 0\<rparr>, path))
       else if slot = 0 then Some (p1, btrfs_fixup_low_keys (btrfs_node_key p1 0) path) else Some (p1, path))"
    unfolding btrfs_del_ptr_def Let_def u by (simp add: p1_def)
  ultimately show ?thesis using root by auto
qed

definition item_keys :: "extent_buffer \<Rightarrow> btrfs_key list" where
  "item_keys eb = map (btrfs_item_key eb) [0..<hdr_nritems eb]"

lemma sorted_update_iff:
  fixes keys :: "btrfs_key list"
  assumes "sorted_wrt (<) keys" and "i < length keys"
  shows "sorted_wrt (<) (keys[i := k]) \<longleftrightarrow>
    (0 < i \<longrightarrow> keys ! (i - 1) < k) \<and> (Suc i < length keys \<longrightarrow> k < keys ! Suc i)"
proof -
  have adj: "sorted_wrt (<) xs \<longleftrightarrow> (\<forall>j. Suc j < length xs \<longrightarrow> xs ! j < xs ! Suc j)" for xs :: "btrfs_key list"
    by (subst sorted_wrt_iff_nth_Suc_transp) (auto intro: transpI)
  have old: "Suc j < length keys \<Longrightarrow> keys ! j < keys ! Suc j" for j using assms(1) by (simp add: adj)
  have "(\<forall>j. Suc j < length keys \<longrightarrow> keys[i := k] ! j < keys[i := k] ! Suc j) \<longleftrightarrow>
    (0 < i \<longrightarrow> keys ! (i - 1) < k) \<and> (Suc i < length keys \<longrightarrow> k < keys ! Suc i)"
  proof (intro iffI conjI impI allI)
    assume all: "\<forall>j. Suc j < length keys \<longrightarrow> keys[i := k] ! j < keys[i := k] ! Suc j"
    show "keys ! (i - 1) < k" if "0 < i" using that spec [OF all, of "i - 1"] assms(2) by auto
    show "k < keys ! Suc i" if "Suc i < length keys" using that spec [OF all, of i] by auto
  next
    fix j assume "(0 < i \<longrightarrow> keys ! (i - 1) < k) \<and> (Suc i < length keys \<longrightarrow> k < keys ! Suc i)" "Suc j < length keys"
    then show "keys[i := k] ! j < keys[i := k] ! Suc j"
      using old [of j] by (cases "j = i"; cases "Suc j = i") (auto simp: nth_list_update)
  qed
  then show ?thesis by (simp add: adj)
qed

text \<open>The key is changed exactly when the order of the leaf stays strict.\<close>

lemma set_item_key_safe_ok:
  assumes sorted: "sorted_wrt (<) (item_keys eb)" and slot: "slot < hdr_nritems eb" and n: "hdr_nritems eb < 2 ^ 32"
    and r: "btrfs_set_item_key_safe eb slot new_key path = (ret, eb', path')"
  shows "if sorted_wrt (<) ((item_keys eb)[slot := new_key])
    then ret = 0 \<and> item_keys eb' = (item_keys eb)[slot := new_key] \<and>
      (eb', path') = btrfs_set_item_key_unsafe eb slot new_key path
    else ret = -1 \<and> eb' = eb \<and> path' = path"
proof -
  have u: "u32_sub (hdr_nritems eb) 1 = hdr_nritems eb - 1" using slot n by simp
  have keys: "sorted_wrt (<) ((item_keys eb)[slot := new_key]) \<longleftrightarrow>
      (0 < slot \<longrightarrow> btrfs_item_key eb (slot - 1) < new_key) \<and>
      (slot < hdr_nritems eb - 1 \<longrightarrow> new_key < btrfs_item_key eb (slot + 1))"
    using sorted_update_iff [OF sorted, of slot new_key] slot by (auto simp: item_keys_def)
  have "item_keys (btrfs_set_item_key eb new_key slot) = (item_keys eb)[slot := new_key]"
    using slot by (intro nth_equalityI) (auto simp: item_keys_def eb_simps nth_list_update)
  with r keys show ?thesis
    unfolding btrfs_set_item_key_safe_def u by (auto simp: btrfs_set_item_key_unsafe_def split: if_splits)
qed

end
