(* ===== verification/LeafBalance.thy ===== *)
theory LeafBalance
  imports Node
begin

text \<open>
  Making room in a leaf (\<open>ctree.c\<close>): \<open>push_leaf_right\<close>, \<open>push_leaf_left\<close> from the point
  where the sibling has been read and copied for writing, and the choice of the split point and the
  copy in \<open>split_leaf\<close>. The path is given by its slots at the levels 0 and 1 and by which of the
  two leaves it stands on.

  The lemmas show that the two leaves together hold what they held before, that the key in the
  parent is the first key of the right leaf, that the position of the path among the items does not
  change, and that the leaf with the slot has the room asked for after a split.
\<close>

section \<open>Operations\<close>

record push_result =
  pr_ret :: int
  pr_left :: extent_buffer
  pr_right :: extent_buffer
  pr_upper :: extent_buffer
  pr_slot0 :: nat
  pr_slot1 :: nat
  pr_in_right :: bool

text \<open>The loop that counts the items to push to the right, from item \<open>i\<close> downwards.\<close>

fun push_right_loop :: "extent_buffer \<Rightarrow> nat \<Rightarrow> nat \<Rightarrow> nat \<Rightarrow> nat \<Rightarrow> nat \<Rightarrow> nat \<Rightarrow> nat \<Rightarrow> nat" where
  "push_right_loop left slot data_size free_space nr i push_space push_items =
     (if i < nr then push_items
      else
        let ps = (if slot = i then push_space + data_size + sizeof_item else push_space);
            this_item_size = btrfs_item_size_nr left i
        in if this_item_size + sizeof_item + ps > free_space then push_items
           else
             (case i of
                0 \<Rightarrow> push_items + 1
              | Suc j \<Rightarrow> push_right_loop left slot data_size free_space nr j
                           (ps + this_item_size + sizeof_item) (push_items + 1)))"

declare push_right_loop.simps [simp del]

definition push_leaf_right ::
    "btrfs_fs_info \<Rightarrow> extent_buffer \<Rightarrow> extent_buffer \<Rightarrow> extent_buffer \<Rightarrow> nat \<Rightarrow> nat \<Rightarrow> nat \<Rightarrow> bool \<Rightarrow> push_result" where
  "push_leaf_right fs left right upper slot0 slot1 data_size emptying =
     (let fail = \<lparr>pr_ret = 1, pr_left = left, pr_right = right, pr_upper = upper,
                  pr_slot0 = slot0, pr_slot1 = slot1, pr_in_right = False\<rparr>;
          free_space = btrfs_leaf_free_space fs right
      in if free_space < int data_size then fail
         else if hdr_nritems left = 0 then fail
         else
           let nr = (if emptying then 0 else 1);
               push_items = push_right_loop left slot0 data_size (nat free_space) nr (hdr_nritems left - 1) 0 0
           in if push_items = 0 then fail
              else
                let (left1, right1) = push_right_items fs left right push_items;
                    upper1 = btrfs_set_node_key upper (btrfs_item_key right1 0) (slot1 + 1);
                    left_nritems = hdr_nritems left1
                in if slot0 \<ge> left_nritems
                   then \<lparr>pr_ret = 0, pr_left = left1, pr_right = right1, pr_upper = upper1,
                         pr_slot0 = slot0 - left_nritems, pr_slot1 = slot1 + 1, pr_in_right = True\<rparr>
                   else \<lparr>pr_ret = 0, pr_left = left1, pr_right = right1, pr_upper = upper1,
                         pr_slot0 = slot0, pr_slot1 = slot1, pr_in_right = False\<rparr>)"

text \<open>The loop that counts the items to push to the left; \<open>n\<close> items are left to look at.\<close>

fun push_left_loop :: "extent_buffer \<Rightarrow> nat \<Rightarrow> nat \<Rightarrow> nat \<Rightarrow> nat \<Rightarrow> nat \<Rightarrow> nat \<Rightarrow> nat \<Rightarrow> nat" where
  "push_left_loop right slot data_size free_space i 0 push_space push_items = push_items"
| "push_left_loop right slot data_size free_space i (Suc n) push_space push_items =
     (let ps = (if slot = i then push_space + data_size + sizeof_item else push_space);
          this_item_size = btrfs_item_size_nr right i
      in if this_item_size + sizeof_item + ps > free_space then push_items
         else push_left_loop right slot data_size free_space (Suc i) n
                (ps + this_item_size + sizeof_item) (push_items + 1))"

text \<open>
  \<open>push_leaf_left\<close>. The slot in the parent is not 0, so \<open>btrfs_fixup_low_keys\<close> changes the
  parent only.
\<close>

definition push_leaf_left ::
    "btrfs_fs_info \<Rightarrow> extent_buffer \<Rightarrow> extent_buffer \<Rightarrow> extent_buffer \<Rightarrow> nat \<Rightarrow> nat \<Rightarrow> nat \<Rightarrow> bool \<Rightarrow> push_result option" where
  "push_leaf_left fs left right upper slot0 slot1 data_size emptying =
     (let fail = \<lparr>pr_ret = 1, pr_left = left, pr_right = right, pr_upper = upper,
                  pr_slot0 = slot0, pr_slot1 = slot1, pr_in_right = True\<rparr>;
          right_nritems = hdr_nritems right
      in if slot1 = 0 then Some fail
         else if right_nritems = 0 then Some fail
         else
           let free_space = btrfs_leaf_free_space fs left in
           if free_space < int data_size then Some fail
           else
             let nr = (if emptying then right_nritems else right_nritems - 1);
                 push_items = push_left_loop right slot0 data_size (nat free_space) 0 nr 0 0;
                 old_left_nritems = hdr_nritems left
             in if push_items = 0 then Some fail
                else
                  (case push_left_items fs left right push_items of
                     None \<Rightarrow> None
                   | Some (left1, right1) \<Rightarrow>
                       let disk_key = btrfs_item_key right1 0;
                           upper1 = fst (hd (btrfs_fixup_low_keys disk_key [(upper, slot1)]))
                       in Some (if slot0 < push_items
                          then \<lparr>pr_ret = 0, pr_left = left1, pr_right = right1, pr_upper = upper1,
                                pr_slot0 = slot0 + old_left_nritems, pr_slot1 = slot1 - 1, pr_in_right = False\<rparr>
                          else \<lparr>pr_ret = 0, pr_left = left1, pr_right = right1, pr_upper = upper1,
                                pr_slot0 = slot0 - push_items, pr_slot1 = slot1, pr_in_right = True\<rparr>)))"

text \<open>
  The choice of \<open>split\<close> and \<open>mid\<close> in \<open>split_leaf\<close>: 0 for a new empty leaf, 1 for a split at
  \<open>mid\<close>, 2 for a split that has to be followed by another one. Sums are compared as unsigned.
\<close>

definition split_leaf_point :: "btrfs_fs_info \<Rightarrow> extent_buffer \<Rightarrow> nat \<Rightarrow> nat \<Rightarrow> bool \<Rightarrow> nat \<times> nat" where
  "split_leaf_point fs l slot data_size extending =
     (let nritems = hdr_nritems l;
          mid = (nritems + 1) div 2;
          L = BTRFS_LEAF_DATA_SIZE fs;
          too_big = (\<lambda>start nr. u32_of (leaf_space_used l start nr + int data_size) > L);
          at_slot = (if slot \<noteq> nritems \<and> too_big slot (nritems - slot) then (2, slot) else (1, slot))
      in if mid \<le> slot then
           if nritems = 1 \<or> too_big mid (nritems - mid) then
             (if slot \<ge> nritems then (0, mid) else at_slot)
           else (1, mid)
         else
           if too_big 0 mid then
             (if \<not> extending \<and> data_size \<noteq> 0 \<and> slot = 0 then (0, mid)
              else if (extending \<or> data_size = 0) \<and> slot = 0 then (1, 1)
              else at_slot)
           else (1, mid))"

section \<open>Counting\<close>

abbreviation entry_size :: "btrfs_key \<times> u8 list \<Rightarrow> nat" where
  "entry_size x \<equiv> length (snd x) + sizeof_item"

definition entries_size :: "(btrfs_key \<times> u8 list) list \<Rightarrow> nat" where
  "entries_size xs = data_len xs + sizeof_item * length xs"

lemma entries_size_simps [simp]:
  "entries_size [] = 0" "entries_size (x # xs) = entry_size x + entries_size xs"
  "entries_size (xs @ ys) = entries_size xs + entries_size ys"
  by (simp_all add: entries_size_def)

lemma push_right_loop_ok:
  assumes "i < length xs" and "\<And>j. j \<le> i \<Longrightarrow> btrfs_item_size_nr left j = length (snd (xs ! j))"
  shows "\<exists>m. push_right_loop left slot data_size free nr i ps k = k + m \<and> m + nr \<le> max nr (Suc i) \<and>
    (0 < m \<longrightarrow> ps + entries_size (drop (Suc i - m) (take (Suc i) xs)) \<le> free)"
  using assms
proof (induction i arbitrary: ps k)
  case 0
  then show ?case
    by (subst push_right_loop.simps) (auto simp: Let_def take_Suc_conv_app_nth intro: exI [of _ 0] exI [of _ 1])
next
  case (Suc i)
  let ?ps = "if slot = Suc i then ps + data_size + sizeof_item else ps"
  let ?sz = "length (snd (xs ! Suc i))"
  show ?case
  proof (cases "Suc i < nr \<or> ?sz + sizeof_item + ?ps > free")
    case True
    then have "push_right_loop left slot data_size free nr (Suc i) ps k = k"
      using Suc.prems by (subst push_right_loop.simps) (auto simp: Let_def)
    then show ?thesis by (intro exI [of _ 0]) simp
  next
    case False
    obtain m where m: "push_right_loop left slot data_size free nr i (?ps + ?sz + sizeof_item) (k + 1) = k + 1 + m"
      "m + nr \<le> max nr (Suc i)"
      "0 < m \<longrightarrow> ?ps + ?sz + sizeof_item + entries_size (drop (Suc i - m) (take (Suc i) xs)) \<le> free"
      using Suc.IH [of "?ps + ?sz + sizeof_item" "k + 1"] Suc.prems by auto
    have "push_right_loop left slot data_size free nr (Suc i) ps k = k + Suc m"
      using False Suc.prems m(1) by (subst push_right_loop.simps) (simp add: Let_def)
    moreover have "take (Suc (Suc i)) xs = take (Suc i) xs @ [xs ! Suc i]"
      using Suc.prems(1) by (simp add: take_Suc_conv_app_nth)
    ultimately show ?thesis
      using m False Suc.prems(1)
      by (intro exI [of _ "Suc m"]) (cases "m = 0"; auto simp: max_def split: if_splits)
  qed
qed

lemma push_left_loop_ok:
  assumes "i + n \<le> length xs" and "\<And>j. i \<le> j \<Longrightarrow> j < i + n \<Longrightarrow> btrfs_item_size_nr right j = length (snd (xs ! j))"
  shows "\<exists>m. push_left_loop right slot data_size free i n ps k = k + m \<and> m \<le> n \<and>
    (0 < m \<longrightarrow> ps + entries_size (take m (drop i xs)) \<le> free)"
  using assms
proof (induction n arbitrary: i ps k)
  case 0
  then show ?case by simp
next
  case (Suc n)
  let ?ps = "if slot = i then ps + data_size + sizeof_item else ps"
  let ?sz = "length (snd (xs ! i))"
  have sz: "btrfs_item_size_nr right i = ?sz" using Suc.prems by simp
  show ?case
  proof (cases "?sz + sizeof_item + ?ps > free")
    case True
    with sz show ?thesis by (intro exI [of _ 0]) (simp add: Let_def)
  next
    case False
    obtain m where m: "push_left_loop right slot data_size free (Suc i) n (?ps + ?sz + sizeof_item) (k + 1) = k + 1 + m"
      "m \<le> n" "0 < m \<longrightarrow> ?ps + ?sz + sizeof_item + entries_size (take m (drop (Suc i) xs)) \<le> free"
      using Suc.IH [of "Suc i" "?ps + ?sz + sizeof_item" "k + 1"] Suc.prems by auto
    have "drop i xs = xs ! i # drop (Suc i) xs" using Suc.prems(1) by (simp add: Cons_nth_drop_Suc)
    with m False sz show ?thesis
      by (intro exI [of _ "Suc m"]) (cases "m = 0"; auto simp: Let_def split: if_splits)
  qed
qed

section \<open>Correctness\<close>

text \<open>
  The leaves hold \<open>xs'\<close> and \<open>ys'\<close>, the pointer to the right one carries its first key, and the
  path stands at the \<open>pos\<close>-th of the items of both leaves.
\<close>

definition pushed ::
    "btrfs_fs_info \<Rightarrow> push_result \<Rightarrow> extent_buffer \<Rightarrow> nat \<Rightarrow> nat \<Rightarrow> (btrfs_key \<times> u8 list) list \<Rightarrow>
     (btrfs_key \<times> u8 list) list \<Rightarrow> bool" where
  "pushed fs r upper rslot pos xs' ys' \<longleftrightarrow>
     pr_ret r = 0 \<and> leaf_ctx fs (pr_left r) xs' \<and> leaf_ctx fs (pr_right r) ys' \<and>
     (ys' \<noteq> [] \<longrightarrow> btrfs_node_key (pr_upper r) rslot = fst (hd ys')) \<and>
     (\<forall>i. i \<noteq> rslot \<longrightarrow> eb_ptrs (pr_upper r) i = eb_ptrs upper i) \<and>
     btrfs_node_blockptr (pr_upper r) rslot = btrfs_node_blockptr upper rslot \<and>
     hdr_nritems (pr_upper r) = hdr_nritems upper \<and>
     (if pr_in_right r then pos = length xs' + pr_slot0 r \<and> pr_slot1 r = rslot
      else pos = pr_slot0 r \<and> pos < length xs' \<and> Suc (pr_slot1 r) = rslot)"

lemma first_key:
  assumes "leaf_ctx fs leaf ys" and "ys \<noteq> []"
  shows "btrfs_item_key leaf 0 = fst (hd ys)"
  using leaf_items_nr(3) [OF assms(1), of 0] assms(2) by (simp add: hd_conv_nth)

lemma free_entries:
  assumes h: "leaf_ctx fs leaf xs" and "entries_size P \<le> nat (btrfs_leaf_free_space fs leaf)"
  shows "sizeof_item * (length xs + length P) + data_len xs + data_len P \<le> BTRFS_LEAF_DATA_SIZE fs"
  using assms leaf_basic(2) [OF h] by (simp add: leaf_space(3) [OF h] entries_size_def)

lemma push_leaf_right_ok:
  fixes upper slot0 slot1 data_size emptying
  assumes hl: "leaf_ctx fs left xs" and hr: "leaf_ctx fs right ys"
  defines "r \<equiv> push_leaf_right fs left right upper slot0 slot1 data_size emptying"
  shows "r = \<lparr>pr_ret = 1, pr_left = left, pr_right = right, pr_upper = upper,
              pr_slot0 = slot0, pr_slot1 = slot1, pr_in_right = False\<rparr> \<or>
    (\<exists>X P. xs = X @ P \<and> P \<noteq> [] \<and> (emptying \<or> X \<noteq> []) \<and> pushed fs r upper (Suc slot1) slot0 X (P @ ys))"
proof -
  let ?free = "btrfs_leaf_free_space fs right"
  define n where "n = push_right_loop left slot0 data_size (nat ?free) (if emptying then 0 else 1) (length xs - 1) 0 0"
  have nl: "hdr_nritems left = length xs" by (rule leaf_basic(1) [OF hl])
  show ?thesis
  proof (cases "?free < int data_size \<or> xs = [] \<or> n = 0")
    case True
    then show ?thesis by (auto simp: r_def push_leaf_right_def nl n_def Let_def)
  next
    case False
    then have len: "Suc (length xs - 1) = length xs" by auto
    obtain m where m: "n = m" "m + (if emptying then 0 else 1) \<le> max (if emptying then 0 else 1) (length xs)"
      "0 < m \<longrightarrow> entries_size (drop (length xs - m) xs) \<le> nat ?free"
      using push_right_loop_ok [of "length xs - 1" xs left slot0 data_size "nat ?free" "if emptying then 0 else 1" 0 0]
        leaf_items_nr(2) [OF hl] False len by (auto simp: n_def)
    define X where "X = take (length xs - n) xs"
    define P where "P = drop (length xs - n) xs"
    have XP: "xs = X @ P" "length P = n" "P \<noteq> []" "emptying \<or> X \<noteq> []"
      using m False by (auto simp: X_def P_def split: if_splits)
    have "sizeof_item * (length P + length ys) + data_len P + data_len ys \<le> BTRFS_LEAF_DATA_SIZE fs"
      using free_entries [OF hr, of P] m False by (simp add: P_def add.commute)
    then obtain left1 right1 where p: "push_right_items fs left right n = (left1, right1)"
      "leaf_ctx fs left1 X" "leaf_ctx fs right1 (P @ ys)"
      using push_right_items_ok [OF hl [unfolded XP(1)] hr XP(3)] XP(2) by metis
    have key: "btrfs_item_key right1 0 = fst (hd (P @ ys))" using first_key [OF p(3)] XP(3) by simp
    have r: "r = (let upper1 = btrfs_set_node_key upper (btrfs_item_key right1 0) (slot1 + 1) in
        if slot0 \<ge> length X
        then \<lparr>pr_ret = 0, pr_left = left1, pr_right = right1, pr_upper = upper1,
              pr_slot0 = slot0 - length X, pr_slot1 = slot1 + 1, pr_in_right = True\<rparr>
        else \<lparr>pr_ret = 0, pr_left = left1, pr_right = right1, pr_upper = upper1,
              pr_slot0 = slot0, pr_slot1 = slot1, pr_in_right = False\<rparr>)"
      using False p(1) leaf_basic(1) [OF p(2)]
      unfolding r_def push_leaf_right_def Let_def nl n_def [symmetric] by simp
    have "pushed fs r upper (Suc slot1) slot0 X (P @ ys)"
      using p(2,3) key by (auto simp: r pushed_def Let_def node_defs)
    with XP show ?thesis by blast
  qed
qed

lemma push_leaf_left_ok:
  assumes hl: "leaf_ctx fs left xs" and hr: "leaf_ctx fs right ys" and ne: "xs \<noteq> []"
  shows "push_leaf_left fs left right upper slot0 slot1 data_size emptying =
      Some \<lparr>pr_ret = 1, pr_left = left, pr_right = right, pr_upper = upper,
              pr_slot0 = slot0, pr_slot1 = slot1, pr_in_right = True\<rparr> \<or>
    (\<exists>r P Y. push_leaf_left fs left right upper slot0 slot1 data_size emptying = Some r \<and>
       ys = P @ Y \<and> P \<noteq> [] \<and> (emptying \<or> Y \<noteq> []) \<and> pushed fs r upper slot1 (length xs + slot0) (xs @ P) Y)"
proof -
  let ?free = "btrfs_leaf_free_space fs left"
  let ?nr = "if emptying then length ys else length ys - 1"
  define n where "n = push_left_loop right slot0 data_size (nat ?free) 0 ?nr 0 0"
  have nr: "hdr_nritems right = length ys" "hdr_nritems left = length xs"
    by (rule leaf_basic(1) [OF hr], rule leaf_basic(1) [OF hl])
  show ?thesis
  proof (cases "slot1 = 0 \<or> ys = [] \<or> ?free < int data_size \<or> n = 0")
    case True
    then show ?thesis by (auto simp: push_leaf_left_def nr n_def Let_def)
  next
    case False
    obtain m where m: "n = m" "m \<le> ?nr" "0 < m \<longrightarrow> entries_size (take m ys) \<le> nat ?free"
      using push_left_loop_ok [of 0 ?nr ys right slot0 data_size "nat ?free" 0 0] leaf_items_nr(2) [OF hr]
      by (auto simp: n_def)
    define P where "P = take n ys"
    define Y where "Y = drop n ys"
    have PY: "ys = P @ Y" "length P = n" "P \<noteq> []" "emptying \<or> Y \<noteq> []"
      using m False by (auto simp: P_def Y_def split: if_splits)
    have "sizeof_item * (length xs + length P) + data_len xs + data_len P \<le> BTRFS_LEAF_DATA_SIZE fs"
      using free_entries [OF hl, of P] m False by (simp add: P_def)
    then obtain left1 right1 where p: "push_left_items fs left right n = Some (left1, right1)"
      "leaf_ctx fs left1 (xs @ P)" "leaf_ctx fs right1 Y"
      using push_left_items_ok [OF hl hr [unfolded PY(1)] ne PY(3)] PY(2) by metis
    define r where "r = (let upper1 = btrfs_set_node_key upper (btrfs_item_key right1 0) slot1 in
        if slot0 < n
        then \<lparr>pr_ret = 0, pr_left = left1, pr_right = right1, pr_upper = upper1,
              pr_slot0 = slot0 + length xs, pr_slot1 = slot1 - 1, pr_in_right = False\<rparr>
        else \<lparr>pr_ret = 0, pr_left = left1, pr_right = right1, pr_upper = upper1,
              pr_slot0 = slot0 - n, pr_slot1 = slot1, pr_in_right = True\<rparr>)"
    have "push_leaf_left fs left right upper slot0 slot1 data_size emptying = Some r"
      using False p(1) unfolding push_leaf_left_def Let_def nr n_def [symmetric] r_def by simp
    moreover have "pushed fs r upper slot1 (length xs + slot0) (xs @ P) Y"
      using p(2,3) first_key [OF p(3)] False PY(2) by (auto simp: r_def pushed_def Let_def node_defs)
    ultimately show ?thesis using PY by blast
  qed
qed

section \<open>The split point\<close>

lemma space_used_range:
  assumes h: "leaf_ctx fs l xs" and "a + n \<le> length xs"
  shows "leaf_space_used l a n = int (entries_size (take n (drop a xs)))"
proof (cases "n = 0")
  case False
  note b = leaf_basic [OF h] and nr = leaf_items_nr [OF h]
  have "data_len (take (a + n) xs) = data_len (take a xs) + data_len (take n (drop a xs))"
    by (simp add: take_add)
  moreover have "data_len (take (a + n) xs) \<le> data_len xs" using data_len_take [of "a + n" xs] by simp
  moreover have "min (length xs) (a + n) - 1 < length xs" "Suc (min (length xs) (a + n) - 1) = a + n"
    using False assms(2) by auto
  ultimately show ?thesis
    using False assms(2) b(2,3) nr(1) [of "min (length xs) (a + n) - 1"] nr(4) [of a]
    by (simp add: leaf_space_used_def Let_def b(1) entries_size_def of_nat_diff)
qed (simp add: leaf_space_used_def)

lemma entries_size_sub: "entries_size (take n (drop a xs)) \<le> entries_size xs"
  by (metis append_take_drop_id entries_size_simps(3) le_add1 le_add2 le_trans)

text \<open>
  After a split into the items before and from \<open>mid\<close> on, the leaf that the path is on has
  \<open>data_size\<close> bytes to spare.
\<close>

lemma split_leaf_point_room:
  assumes h: "leaf_ctx fs l xs" and xs: "xs \<noteq> []" and slot: "slot \<le> length xs"
    and ds: "data_size \<le> BTRFS_LEAF_DATA_SIZE fs"
    and ext: "extending \<Longrightarrow> slot < length xs \<and> data_size + entry_size (xs ! slot) \<le> BTRFS_LEAF_DATA_SIZE fs"
    and point: "split_leaf_point fs l slot data_size extending = (1, mid)"
  shows "mid \<le> length xs"
    and "if mid \<le> slot then entries_size (drop mid xs) + data_size \<le> BTRFS_LEAF_DATA_SIZE fs
         else entries_size (take mid xs) + data_size \<le> BTRFS_LEAF_DATA_SIZE fs"
proof -
  let ?L = "BTRFS_LEAF_DATA_SIZE fs" and ?n = "length xs" and ?mid = "(length xs + 1) div 2"
  note b = leaf_basic [OF h]
  have tot: "entries_size xs \<le> ?L" using b(2) by (simp add: entries_size_def)
  define big where "big a n = (u32_of (leaf_space_used l a n + int data_size) > ?L)" for a n
  have big: "big a n \<longleftrightarrow> entries_size (take n (drop a xs)) + data_size > ?L" if "a + n \<le> ?n" for a n
    using space_used_range [OF h that] entries_size_sub [of n a xs] tot ds b(3) by (simp add: big_def nat_int_add)
  have mid: "?mid \<le> ?n" "0 < ?mid" using xs by (cases xs; simp)+
  note point' = point [unfolded split_leaf_point_def Let_def b(1), folded big_def]
  have "1 \<le> ?n" using xs by (cases xs) simp_all
  then show "mid \<le> ?n" using point' mid slot by (auto split: if_splits)
  have one: "entries_size (take 1 xs) = entry_size (xs ! 0)" using xs by (cases xs) simp_all
  show "if mid \<le> slot then entries_size (drop mid xs) + data_size \<le> ?L else entries_size (take mid xs) + data_size \<le> ?L"
  proof (cases "mid \<le> slot")
    case True
    then have "mid = ?n \<or> \<not> big mid (?n - mid)" using point' by (auto split: if_splits)
    with True mid(1) slot ds big [of mid "?n - mid"] show ?thesis by auto
  next
    case False
    then have "\<not> big 0 mid \<and> mid = ?mid \<or> mid = 1 \<and> slot = 0 \<and> (extending \<or> data_size = 0)"
      using point' by (auto split: if_splits)
    then show ?thesis
    proof
      assume "\<not> big 0 mid \<and> mid = ?mid"
      with False mid(1) big [of 0 mid] show ?thesis by auto
    next
      assume A: "mid = 1 \<and> slot = 0 \<and> (extending \<or> data_size = 0)"
      show ?thesis
      proof (cases extending)
        case True
        with A ext one False show ?thesis by simp
      next
        case False
        with A entries_size_sub [of 1 0 xs] tot show ?thesis by simp
      qed
    qed
  qed
qed

end
