(* ===== verification/TreeWrite.thy ===== *)
theory TreeWrite
  imports TreeSearch LeafBalance "HOL-Library.Monad_Syntax"
begin

text \<open>
  Changing a tree (\<open>ctree.c\<close>): copy on write, \<open>btrfs_search_slot\<close> as it runs with a transaction, the splitting and
  balancing of the blocks of a path, and the insertion of items.

  The buffers are kept in a store that maps the address \<open>eb->start\<close> to the block; a pointer to a buffer is its address,
  and a path holds addresses. Reading a block (\<open>read_tree_block\<close>) is a look-up in the store: a block that is in
  memory is accepted whatever its generation (\<open>verify_parent_transid\<close> only marks it). The extent allocator (\<open>extent-tree.c\<close>) is an argument: \<open>ct_pool\<close> are the addresses that it will hand out,
  in order, \<open>-ENOSPC\<close> follows when there is none left, and all calls that are made to it are recorded in \<open>ct_calls\<close>. A
  \<open>BUG\<close>, a \<open>BUG_ON\<close> or a null pointer that is followed is \<open>None\<close>. Reference counts of buffers, dirty flags and
  read-ahead have no effect on the blocks and are left out.
\<close>

unbundle bit_operations_syntax

section \<open>The state\<close>

datatype ext_call =
    AllocBlock u64 nat btrfs_key u64
  | FreeExtent u64 nat nat
  | LookupExtentInfo u64 nat
  | IncRef u64 bool
  | DecRef u64 bool
  | SetBlockFlags u64 nat u64

record ctree =
  ct_bufs :: "u64 \<Rightarrow> extent_buffer option"
  ct_node :: u64
  ct_pool :: "u64 list"
  ct_calls :: "ext_call list"
  ct_info :: "corrupt_blocks option"

text \<open>
  The transaction, the fields of the root that matter, and the answers of the code that is an argument: what a new
  buffer holds, the results of the extent allocator, and whether the allocation of a corrupt record succeeds.
\<close>

record btrfs_trans =
  tr_fs :: btrfs_fs_info
  transid :: u64
  root_objectid :: u64
  ref_cows :: bool
  last_snapshot :: u64
  commit_root :: "u64 option"
  raw_block :: "u64 \<Rightarrow> extent_buffer"
  extent_info :: "ext_call list \<Rightarrow> u64 \<Rightarrow> int \<times> u64 \<times> u64"
  ext_ret :: "ext_call list \<Rightarrow> ext_call \<Rightarrow> int"
  tr_mem :: bool
  tr_garbage :: u64

record wpath =
  w_nodes :: "nat \<Rightarrow> u64 option"
  w_slots :: "nat \<Rightarrow> nat"
  w_lowest :: nat
  w_skip_check :: bool
  w_search_for_split :: bool

definition btrfs_init_path :: wpath where
  "btrfs_init_path = \<lparr>w_nodes = \<lambda>_. None, w_slots = \<lambda>_. 0, w_lowest = 0, w_skip_check = False, w_search_for_split = False\<rparr>"

text \<open>The path with the blocks themselves, as the functions that only read take it.\<close>

definition view_path :: "ctree \<Rightarrow> wpath \<Rightarrow> btrfs_path" where
  "view_path st p = \<lparr>nodes = \<lambda>l. Option.bind (w_nodes p l) (ct_bufs st), slots = w_slots p, lowest_level = w_lowest p,
     skip_check_block = w_skip_check p\<rparr>"

definition put :: "ctree \<Rightarrow> extent_buffer \<Rightarrow> ctree" where
  "put st b = st\<lparr>ct_bufs := (ct_bufs st)(eb_start b \<mapsto> b)\<rparr>"

definition store_reader :: "(u64 \<Rightarrow> extent_buffer option) \<Rightarrow> reader" where
  "store_reader m bytenr gen = m bytenr"

definition set_node :: "wpath \<Rightarrow> nat \<Rightarrow> u64 \<Rightarrow> wpath" where
  "set_node p l a = p\<lparr>w_nodes := (w_nodes p)(l := Some a)\<rparr>"

definition set_slot :: "wpath \<Rightarrow> nat \<Rightarrow> nat \<Rightarrow> wpath" where
  "set_slot p l i = p\<lparr>w_slots := (w_slots p)(l := i)\<rparr>"

text \<open>\<open>read_node_slot\<close> on the store; \<open>Inl 0\<close> is a null pointer.\<close>

definition read_slot :: "ctree \<Rightarrow> extent_buffer \<Rightarrow> int \<Rightarrow> int + u64" where
  "read_slot st parent slot =
     (case read_node_slot (store_reader (ct_bufs st)) parent slot of Inl e \<Rightarrow> Inl e | Inr b \<Rightarrow> Inr (eb_start b))"

text \<open>The calls to the extent allocator. A new buffer is \<open>nodesize\<close> bytes long.\<close>

definition ext_do :: "btrfs_trans \<Rightarrow> ctree \<Rightarrow> ext_call \<Rightarrow> int \<times> ctree" where
  "ext_do tr st c = (ext_ret tr (ct_calls st) c, st\<lparr>ct_calls := ct_calls st @ [c]\<rparr>)"

definition alloc_block :: "btrfs_trans \<Rightarrow> ctree \<Rightarrow> nat \<Rightarrow> btrfs_key \<Rightarrow> u64 \<Rightarrow> (int + extent_buffer) \<times> ctree" where
  "alloc_block tr st level key hint =
     (case ct_pool st of
        [] \<Rightarrow> (Inl (- ENOSPC), st)
      | a # pool \<Rightarrow>
          (Inr ((raw_block tr a)\<lparr>eb_start := a, eb_len := nodesize (tr_fs tr)\<rparr>),
           st\<lparr>ct_pool := pool, ct_calls := ct_calls st @ [AllocBlock a level key hint]\<rparr>))"

section \<open>Header flags\<close>

abbreviation (input) BTRFS_HEADER_FLAG_WRITTEN :: u64 where "BTRFS_HEADER_FLAG_WRITTEN \<equiv> 1"
abbreviation (input) BTRFS_HEADER_FLAG_RELOC :: u64 where "BTRFS_HEADER_FLAG_RELOC \<equiv> 2"
abbreviation (input) BTRFS_BACKREF_REV_SHIFT :: nat where "BTRFS_BACKREF_REV_SHIFT \<equiv> 56"
abbreviation (input) BTRFS_MIXED_BACKREF_REV :: u64 where "BTRFS_MIXED_BACKREF_REV \<equiv> 1"
abbreviation (input) BTRFS_BLOCK_FLAG_FULL_BACKREF :: u64 where "BTRFS_BLOCK_FLAG_FULL_BACKREF \<equiv> 256"
abbreviation (input) BTRFS_TREE_RELOC_OBJECTID :: u64 where "BTRFS_TREE_RELOC_OBJECTID \<equiv> - 8"

definition btrfs_header_flag :: "extent_buffer \<Rightarrow> u64 \<Rightarrow> bool" where
  "btrfs_header_flag eb flag \<longleftrightarrow> hdr_flags eb AND flag = flag"

definition btrfs_set_header_flag :: "extent_buffer \<Rightarrow> u64 \<Rightarrow> extent_buffer" where
  "btrfs_set_header_flag eb flag = eb\<lparr>hdr_flags := hdr_flags eb OR flag\<rparr>"

definition btrfs_clear_header_flag :: "extent_buffer \<Rightarrow> u64 \<Rightarrow> extent_buffer" where
  "btrfs_clear_header_flag eb flag = eb\<lparr>hdr_flags := hdr_flags eb AND NOT flag\<rparr>"

definition btrfs_header_backref_rev :: "extent_buffer \<Rightarrow> u64" where
  "btrfs_header_backref_rev eb = drop_bit BTRFS_BACKREF_REV_SHIFT (hdr_flags eb)"

definition btrfs_set_header_backref_rev :: "extent_buffer \<Rightarrow> u64 \<Rightarrow> extent_buffer" where
  "btrfs_set_header_backref_rev eb r =
     eb\<lparr>hdr_flags := (hdr_flags eb AND NOT (push_bit BTRFS_BACKREF_REV_SHIFT 255)) OR push_bit BTRFS_BACKREF_REV_SHIFT r\<rparr>"

text \<open>A new block with a cleared header, as \<open>insert_new_root\<close>, \<open>split_node\<close> and \<open>split_leaf\<close> set it up.\<close>

definition init_header :: "btrfs_trans \<Rightarrow> extent_buffer \<Rightarrow> nat \<Rightarrow> extent_buffer" where
  "init_header tr b level =
     btrfs_set_header_backref_rev
       (b\<lparr>hdr_nritems := 0, hdr_level := level, hdr_generation := transid tr, hdr_owner := root_objectid tr, hdr_flags := 0\<rparr>)
       BTRFS_MIXED_BACKREF_REV"

section \<open>Copy on write\<close>

definition btrfs_block_can_be_shared :: "btrfs_trans \<Rightarrow> ctree \<Rightarrow> extent_buffer \<Rightarrow> bool" where
  "btrfs_block_can_be_shared tr st buf \<longleftrightarrow>
     (ref_cows tr \<and> eb_start buf \<noteq> ct_node st \<and> Some (eb_start buf) \<noteq> commit_root tr \<and>
      (hdr_generation buf \<le> last_snapshot tr \<or> btrfs_header_flag buf BTRFS_HEADER_FLAG_RELOC)) \<or>
     (ref_cows tr \<and> btrfs_header_backref_rev buf < BTRFS_MIXED_BACKREF_REV)"

text \<open>A call to the extent allocator whose result is followed by \<open>BUG_ON(ret)\<close>.\<close>

definition must :: "int \<times> ctree \<Rightarrow> ctree option" where
  "must r = (if fst r \<noteq> 0 then None else Some (snd r))"

definition update_ref_for_cow :: "btrfs_trans \<Rightarrow> ctree \<Rightarrow> extent_buffer \<Rightarrow> extent_buffer \<Rightarrow> ctree option" where
  "update_ref_for_cow tr st buf cow =
     do {
       (refs, flags, st1) \<leftarrow>
         (if btrfs_block_can_be_shared tr st buf then
            (case extent_info tr (ct_calls st) (eb_start buf) of
               (ret, refs, flags) \<Rightarrow>
                 if ret \<noteq> 0 \<or> refs = 0 then None
                 else Some (refs, flags, st\<lparr>ct_calls := ct_calls st @ [LookupExtentInfo (eb_start buf) (hdr_level buf)]\<rparr>))
          else
            Some (1, if root_objectid tr = BTRFS_TREE_RELOC_OBJECTID \<or> btrfs_header_backref_rev buf < BTRFS_MIXED_BACKREF_REV
                     then BTRFS_BLOCK_FLAG_FULL_BACKREF else 0, st));
       let owner = hdr_owner buf;
           full = (flags AND BTRFS_BLOCK_FLAG_FULL_BACKREF \<noteq> 0);
           reloc = (root_objectid tr = BTRFS_TREE_RELOC_OBJECTID);
           inc_cow = (\<lambda>s. must (ext_do tr s (IncRef (eb_start cow) reloc)))
       in
       if \<not> full \<and> owner = BTRFS_TREE_RELOC_OBJECTID then None
       else if refs > 1 then
         if (owner = root_objectid tr \<or> reloc) \<and> \<not> full then
           do {
             st2 \<leftarrow> must (ext_do tr st1 (IncRef (eb_start buf) True));
             st3 \<leftarrow> (if reloc then
                       do {
                         s \<leftarrow> must (ext_do tr st2 (DecRef (eb_start buf) False));
                         must (ext_do tr s (IncRef (eb_start cow) True))
                       }
                     else Some st2);
             must (ext_do tr st3 (SetBlockFlags (eb_start buf) (hdr_level buf) BTRFS_BLOCK_FLAG_FULL_BACKREF))
           }
         else inc_cow st1
       else if full then
         do { st2 \<leftarrow> inc_cow st1; must (ext_do tr st2 (DecRef (eb_start buf) True)) }
       else Some st1
     }"

text \<open>
  \<open>__btrfs_cow_block\<close>: the return value, the address of the block to go on with, and the state. The result of
  \<open>btrfs_free_extent\<close> is ignored.
\<close>

definition cow_copy :: "btrfs_trans \<Rightarrow> extent_buffer \<Rightarrow> extent_buffer \<Rightarrow> extent_buffer" where
  "cow_copy tr buf new =
     (let c1 = buf\<lparr>eb_start := eb_start new, eb_len := eb_len new, hdr_generation := transid tr\<rparr>;
          c2 = btrfs_set_header_backref_rev c1 BTRFS_MIXED_BACKREF_REV;
          c3 = btrfs_clear_header_flag c2 (BTRFS_HEADER_FLAG_WRITTEN OR BTRFS_HEADER_FLAG_RELOC)
      in if root_objectid tr = BTRFS_TREE_RELOC_OBJECTID then btrfs_set_header_flag c3 BTRFS_HEADER_FLAG_RELOC
         else c3\<lparr>hdr_owner := root_objectid tr\<rparr>)"

definition cow_block :: "btrfs_trans \<Rightarrow> ctree \<Rightarrow> extent_buffer \<Rightarrow> u64 option \<Rightarrow> nat \<Rightarrow> u64 \<Rightarrow> (int \<times> u64 \<times> ctree) option" where
  "cow_block tr st buf parent parent_slot search_start =
     (let level = hdr_level buf;
          disk_key = (if level = 0 then btrfs_item_key buf 0 else btrfs_node_key buf 0)
      in case alloc_block tr st level disk_key search_start of
           (Inl e, st1) \<Rightarrow> Some (e, eb_start buf, st1)
         | (Inr new, st1) \<Rightarrow>
             let cow = cow_copy tr buf new in
             do {
               st2 \<leftarrow> update_ref_for_cow tr (put st1 cow) buf cow;
               if eb_start buf = ct_node st2 then
                 Some (0, eb_start cow, snd (ext_do tr (st2\<lparr>ct_node := eb_start cow\<rparr>) (FreeExtent (eb_start buf) (eb_len buf) level)))
               else
                 do {
                   pa \<leftarrow> parent;
                   pb \<leftarrow> ct_bufs st2 pa;
                   let pb1 = btrfs_set_node_blockptr pb parent_slot (eb_start cow);
                       pb2 = btrfs_set_node_ptr_generation pb1 parent_slot (transid tr)
                   in Some (0, eb_start cow, snd (ext_do tr (put st2 pb2) (FreeExtent (eb_start buf) (eb_len buf) level)))
                 }
             })"

definition should_cow_block :: "btrfs_trans \<Rightarrow> extent_buffer \<Rightarrow> bool" where
  "should_cow_block tr buf \<longleftrightarrow>
     \<not> (hdr_generation buf = transid tr \<and> \<not> btrfs_header_flag buf BTRFS_HEADER_FLAG_WRITTEN \<and>
        \<not> (root_objectid tr \<noteq> BTRFS_TREE_RELOC_OBJECTID \<and> btrfs_header_flag buf BTRFS_HEADER_FLAG_RELOC))"

definition btrfs_cow_block :: "btrfs_trans \<Rightarrow> ctree \<Rightarrow> u64 \<Rightarrow> u64 option \<Rightarrow> nat \<Rightarrow> (int \<times> u64 \<times> ctree) option" where
  "btrfs_cow_block tr st a parent parent_slot =
     do {
       buf \<leftarrow> ct_bufs st a;
       if \<not> should_cow_block tr buf then Some (0, a, st)
       else cow_block tr st buf parent parent_slot (eb_start buf AND NOT (2 ^ 30 - 1))
     }"

section \<open>First keys of a path\<close>

text \<open>\<open>btrfs_fixup_low_keys\<close> on the store, for the \<open>n\<close> levels from \<open>i\<close> on.\<close>

fun fixup_path :: "ctree \<Rightarrow> wpath \<Rightarrow> btrfs_key \<Rightarrow> nat \<Rightarrow> nat \<Rightarrow> ctree option" where
  "fixup_path st p key i 0 = Some st"
| "fixup_path st p key i (Suc n) =
     (case w_nodes p i of
        None \<Rightarrow> Some st
      | Some a \<Rightarrow>
          do {
            t \<leftarrow> ct_bufs st a;
            let st1 = put st (btrfs_set_node_key t key (w_slots p i))
            in if w_slots p i \<noteq> 0 then Some st1 else fixup_path st1 p key (Suc i) n
          })"

definition fixup_low_keys :: "ctree \<Rightarrow> wpath \<Rightarrow> btrfs_key \<Rightarrow> nat \<Rightarrow> ctree option" where
  "fixup_low_keys st p key level = fixup_path st p key level (BTRFS_MAX_LEVEL - level)"

section \<open>Balancing and splitting of nodes\<close>

text \<open>Where the path goes on in the node at \<open>level\<close>: at slot \<open>i\<close> of block \<open>a\<close>, with slot \<open>j\<close> one level up.\<close>

definition move_path :: "wpath \<Rightarrow> nat \<Rightarrow> u64 \<Rightarrow> nat \<Rightarrow> nat \<Rightarrow> wpath" where
  "move_path p level a i j = set_slot (set_slot (set_node p level a) (level + 1) j) level i"

text \<open>
  The two attempts of \<open>push_nodes_for_insert\<close>. \<open>Inr\<close> is the return of 0; \<open>Inl\<close> goes on, with what the copy of the
  sibling has changed.
\<close>

definition push_for_insert_left ::
    "btrfs_trans \<Rightarrow> ctree \<Rightarrow> wpath \<Rightarrow> nat \<Rightarrow> u64 \<Rightarrow> u64 \<Rightarrow> (ctree + ctree \<times> wpath) option" where
  "push_for_insert_left tr st p level mida parenta =
     do {
       parent \<leftarrow> ct_bufs st parenta;
       let pslot = w_slots p (level + 1) in
       case read_slot st parent (int pslot - 1) of
         Inl _ \<Rightarrow> Some (Inl st)
       | Inr la \<Rightarrow>
           do {
             left0 \<leftarrow> ct_bufs st la;
             let left_nr = hdr_nritems left0 in
             if left_nr \<ge> u32_sub (BTRFS_NODEPTRS_PER_BLOCK (tr_fs tr)) 1 then Some (Inl st)
             else
               do {
                 (ret, la1, st1) \<leftarrow> btrfs_cow_block tr st la (Some parenta) (pslot - 1);
                 if ret \<noteq> 0 then Some (Inl st1)
                 else
                   do {
                     left \<leftarrow> ct_bufs st1 la1;
                     mid \<leftarrow> ct_bufs st1 mida;
                     (case push_node_left (tr_fs tr) left mid False of
                        (wret, left1, mid1) \<Rightarrow>
                          if wret \<noteq> 0 then Some (Inl st1)
                          else
                            do {
                              let st2 = put (put st1 left1) mid1;
                              parent2 \<leftarrow> ct_bufs st2 parenta;
                              let st3 = put st2 (btrfs_set_node_key parent2 (btrfs_node_key mid1 0) pslot);
                                  orig_slot = w_slots p level + left_nr
                              in Some (Inr (st3,
                                   if hdr_nritems left1 > orig_slot then move_path p level la1 orig_slot (pslot - 1)
                                   else set_slot p level (orig_slot - hdr_nritems left1)))
                            })
                   }
               }
           }
     }"

definition push_for_insert_right ::
    "btrfs_trans \<Rightarrow> ctree \<Rightarrow> wpath \<Rightarrow> nat \<Rightarrow> u64 \<Rightarrow> u64 \<Rightarrow> (ctree + ctree \<times> wpath) option" where
  "push_for_insert_right tr st p level mida parenta =
     do {
       parent \<leftarrow> ct_bufs st parenta;
       let pslot = w_slots p (level + 1) in
       case read_slot st parent (int pslot + 1) of
         Inl _ \<Rightarrow> Some (Inl st)
       | Inr ra \<Rightarrow>
           do {
             right0 \<leftarrow> ct_bufs st ra;
             let right_nr = hdr_nritems right0 in
             if right_nr \<ge> u32_sub (BTRFS_NODEPTRS_PER_BLOCK (tr_fs tr)) 1 then Some (Inl st)
             else
               do {
                 (ret, ra1, st1) \<leftarrow> btrfs_cow_block tr st ra (Some parenta) (pslot + 1);
                 if ret \<noteq> 0 then Some (Inl st1)
                 else
                   do {
                     right \<leftarrow> ct_bufs st1 ra1;
                     mid \<leftarrow> ct_bufs st1 mida;
                     (case balance_node_right (tr_fs tr) right mid of
                        (wret, right1, mid1) \<Rightarrow>
                          if wret \<noteq> 0 then Some (Inl st1)
                          else
                            do {
                              let st2 = put (put st1 right1) mid1;
                              parent2 \<leftarrow> ct_bufs st2 parenta;
                              let st3 = put st2 (btrfs_set_node_key parent2 (btrfs_node_key right1 0) (pslot + 1));
                                  orig_slot = w_slots p level
                              in Some (Inr (st3,
                                   if hdr_nritems mid1 \<le> orig_slot
                                   then move_path p level ra1 (orig_slot - hdr_nritems mid1) (pslot + 1)
                                   else p))
                            })
                   }
               }
           }
     }"

definition push_nodes_for_insert :: "btrfs_trans \<Rightarrow> ctree \<Rightarrow> wpath \<Rightarrow> nat \<Rightarrow> (int \<times> ctree \<times> wpath) option" where
  "push_nodes_for_insert tr st p level =
     (if level = 0 then Some (1, st, p)
      else
        case (if level < BTRFS_MAX_LEVEL - 1 then w_nodes p (level + 1) else None) of
          None \<Rightarrow> Some (1, st, p)
        | Some parenta \<Rightarrow>
            do {
              mida \<leftarrow> w_nodes p level;
              r \<leftarrow> push_for_insert_left tr st p level mida parenta;
              (case r of
                 Inr (st1, p1) \<Rightarrow> Some (0, st1, p1)
               | Inl st1 \<Rightarrow>
                   do {
                     r1 \<leftarrow> push_for_insert_right tr st1 p level mida parenta;
                     (case r1 of Inr (st2, p2) \<Rightarrow> Some (0, st2, p2) | Inl st2 \<Rightarrow> Some (1, st2, p))
                   })
            })"

definition insert_new_root :: "btrfs_trans \<Rightarrow> ctree \<Rightarrow> wpath \<Rightarrow> nat \<Rightarrow> (int \<times> ctree \<times> wpath) option" where
  "insert_new_root tr st p level =
     (if level \<ge> BTRFS_MAX_LEVEL \<or> w_nodes p level \<noteq> None \<or> w_nodes p (level - 1) \<noteq> Some (ct_node st) then None
      else
        do {
          lower \<leftarrow> ct_bufs st (ct_node st);
          let lower_key = (if level = 1 then btrfs_item_key lower 0 else btrfs_node_key lower 0) in
          case alloc_block tr st level lower_key (ct_node st) of
            (Inl e, st1) \<Rightarrow> Some (e, st1, p)
          | (Inr new, st1) \<Rightarrow>
              let c1 = (init_header tr new level)\<lparr>hdr_nritems := 1\<rparr>;
                  c2 = btrfs_set_node_key c1 lower_key 0;
                  c3 = btrfs_set_node_blockptr c2 0 (eb_start lower);
                  c4 = btrfs_set_node_ptr_generation c3 0 (hdr_generation lower)
              in Some (0, (put st1 c4)\<lparr>ct_node := eb_start c4\<rparr>, set_slot (set_node p level (eb_start c4)) level 0)
        })"

text \<open>\<open>insert_ptr\<close> into the node of the path at \<open>level\<close>.\<close>

definition path_insert_ptr :: "btrfs_trans \<Rightarrow> ctree \<Rightarrow> wpath \<Rightarrow> btrfs_key \<Rightarrow> u64 \<Rightarrow> nat \<Rightarrow> nat \<Rightarrow> ctree option" where
  "path_insert_ptr tr st p key bytenr slot level =
     do {
       a \<leftarrow> (if level < BTRFS_MAX_LEVEL then w_nodes p level else None);
       lower \<leftarrow> ct_bufs st a;
       lower1 \<leftarrow> insert_ptr (tr_fs tr) (transid tr) lower key bytenr slot;
       Some (put st lower1)
     }"

text \<open>The second part of \<open>split_node\<close>: the node of the path is split.\<close>

definition split_node_at :: "btrfs_trans \<Rightarrow> ctree \<Rightarrow> wpath \<Rightarrow> nat \<Rightarrow> (int \<times> ctree \<times> wpath) option" where
  "split_node_at tr st p level =
     do {
       ca \<leftarrow> w_nodes p level;
       c \<leftarrow> ct_bufs st ca;
       let c_nritems = hdr_nritems c;
           mid = (c_nritems + 1) div 2;
           disk_key = btrfs_node_key c mid
       in case alloc_block tr st level disk_key ca of
            (Inl e, st1) \<Rightarrow> Some (e, st1, p)
          | (Inr new, st1) \<Rightarrow>
              (case split_node_ptrs c (init_header tr new (hdr_level c)) of
                 (c1, split1) \<Rightarrow>
                   do {
                     let st2 = put (put st1 c1) split1;
                     st3 \<leftarrow> path_insert_ptr tr st2 p disk_key (eb_start split1) (w_slots p (level + 1) + 1) (level + 1);
                     Some (0, st3,
                       if w_slots p level \<ge> mid
                       then move_path p level (eb_start split1) (w_slots p level - mid) (w_slots p (level + 1) + 1)
                       else p)
                   })
     }"

definition split_node :: "btrfs_trans \<Rightarrow> ctree \<Rightarrow> wpath \<Rightarrow> nat \<Rightarrow> (int \<times> ctree \<times> wpath) option" where
  "split_node tr st p level =
     (if w_nodes p level = Some (ct_node st) then
        do {
          (ret, st1, p1) \<leftarrow> insert_new_root tr st p (level + 1);
          if ret \<noteq> 0 then Some (ret, st1, p1) else split_node_at tr st1 p1 level
        }
      else
        do {
          (ret, st1, p1) \<leftarrow> push_nodes_for_insert tr st p level;
          ca \<leftarrow> w_nodes p1 level;
          c \<leftarrow> ct_bufs st1 ca;
          if ret = 0 \<and> hdr_nritems c < u32_sub (BTRFS_NODEPTRS_PER_BLOCK (tr_fs tr)) 3 then Some (0, st1, p1)
          else if ret < 0 then Some (ret, st1, p1)
          else split_node_at tr st1 p1 level
        })"

section \<open>Making room in a leaf\<close>

text \<open>\<open>push_leaf_right\<close> and \<open>push_leaf_left\<close> on a path: the reading and the copy of the sibling, then the moves.\<close>

definition path_push_right :: "btrfs_trans \<Rightarrow> ctree \<Rightarrow> wpath \<Rightarrow> nat \<Rightarrow> bool \<Rightarrow> (int \<times> ctree \<times> wpath) option" where
  "path_push_right tr st p data_size emptying =
     do {
       lefta \<leftarrow> w_nodes p 0;
       let slot = w_slots p 1 in
       case w_nodes p 1 of
         None \<Rightarrow> Some (1, st, p)
       | Some uppera \<Rightarrow>
           do {
             upper0 \<leftarrow> ct_bufs st uppera;
             if slot \<ge> u32_sub (hdr_nritems upper0) 1 then Some (1, st, p)
             else
               (case read_slot st upper0 (int slot + 1) of
                  Inl e \<Rightarrow> Some (if e \<noteq> 0 then e else - EIO, st, p)
                | Inr ra \<Rightarrow>
                    do {
                      right0 \<leftarrow> ct_bufs st ra;
                      if btrfs_leaf_free_space (tr_fs tr) right0 < int data_size then Some (1, st, p)
                      else
                        do {
                          (ret, ra1, st1) \<leftarrow> btrfs_cow_block tr st ra (Some uppera) (slot + 1);
                          if ret \<noteq> 0 then Some (1, st1, p)
                          else
                            do {
                              right \<leftarrow> ct_bufs st1 ra1;
                              left \<leftarrow> ct_bufs st1 lefta;
                              upper \<leftarrow> ct_bufs st1 uppera;
                              let r = push_leaf_right (tr_fs tr) left right upper (w_slots p 0) slot data_size emptying;
                                  st2 = put (put (put st1 (pr_left r)) (pr_right r)) (pr_upper r)
                              in Some (pr_ret r, st2,
                                   if pr_in_right r then move_path p 0 ra1 (pr_slot0 r) (pr_slot1 r) else p)
                            }
                        }
                    })
           }
     }"

definition path_push_left :: "btrfs_trans \<Rightarrow> ctree \<Rightarrow> wpath \<Rightarrow> nat \<Rightarrow> bool \<Rightarrow> (int \<times> ctree \<times> wpath) option" where
  "path_push_left tr st p data_size emptying =
     do {
       righta \<leftarrow> w_nodes p 0;
       let slot = w_slots p 1 in
       if slot = 0 then Some (1, st, p)
       else
         (case w_nodes p 1 of
            None \<Rightarrow> Some (1, st, p)
          | Some uppera \<Rightarrow>
              do {
                right0 \<leftarrow> ct_bufs st righta;
                if hdr_nritems right0 = 0 then Some (1, st, p)
                else
                  do {
                    upper0 \<leftarrow> ct_bufs st uppera;
                    (case read_slot st upper0 (int slot - 1) of
                       Inl _ \<Rightarrow> None
                     | Inr la \<Rightarrow>
                         do {
                           left0 \<leftarrow> ct_bufs st la;
                           if btrfs_leaf_free_space (tr_fs tr) left0 < int data_size then Some (1, st, p)
                           else
                             do {
                               (ret, la1, st1) \<leftarrow> btrfs_cow_block tr st la (Some uppera) (slot - 1);
                               if ret \<noteq> 0 then Some (1, st1, p)
                               else
                                 do {
                                   left \<leftarrow> ct_bufs st1 la1;
                                   right \<leftarrow> ct_bufs st1 righta;
                                   upper \<leftarrow> ct_bufs st1 uppera;
                                   r \<leftarrow> push_leaf_left (tr_fs tr) left right upper (w_slots p 0) slot data_size emptying;
                                   let st2 = put (put (put st1 (pr_left r)) (pr_right r)) (pr_upper r)
                                   in Some (pr_ret r, st2,
                                        if pr_in_right r then set_slot p 0 (pr_slot0 r)
                                        else move_path p 0 la1 (pr_slot0 r) (pr_slot1 r))
                                 }
                             }
                         })
                  }
              })
     }"

definition copy_for_split :: "btrfs_trans \<Rightarrow> ctree \<Rightarrow> wpath \<Rightarrow> extent_buffer \<Rightarrow> extent_buffer \<Rightarrow> nat \<Rightarrow> nat \<Rightarrow> (ctree \<times> wpath) option" where
  "copy_for_split tr st p l right slot mid =
     (case copy_for_split_items (tr_fs tr) l right mid (hdr_nritems l) of
        (l1, right1) \<Rightarrow>
          do {
            let st1 = put (put st l1) right1;
            st2 \<leftarrow> path_insert_ptr tr st1 p (btrfs_item_key right1 0) (eb_start right1) (w_slots p 1 + 1) 1;
            Some (st2, if mid \<le> slot then move_path p 0 (eb_start right1) (slot - mid) (w_slots p 1 + 1) else p)
          })"

text \<open>The part of \<open>split_leaf\<close> from the label \<open>again\<close> on; \<open>n\<close> more double splits are allowed.\<close>

fun split_leaf_again ::
    "btrfs_trans \<Rightarrow> btrfs_key \<Rightarrow> nat \<Rightarrow> bool \<Rightarrow> nat \<Rightarrow> ctree \<Rightarrow> wpath \<Rightarrow> (int \<times> ctree \<times> wpath) option" where
  "split_leaf_again tr ins_key data_size extending n st p =
     do {
       la \<leftarrow> w_nodes p 0;
       l \<leftarrow> ct_bufs st la;
       let slot = w_slots p 0;
           (split, mid) = split_leaf_point (tr_fs tr) l slot data_size extending;
           disk_key = (if split = 0 then ins_key else btrfs_item_key l mid)
       in case alloc_block tr st 0 disk_key la of
            (Inl _, _) \<Rightarrow> None
          | (Inr new, st1) \<Rightarrow>
              let right = init_header tr new 0 in
              if split = 0 then
                if mid \<le> slot then
                  do {
                    st2 \<leftarrow> path_insert_ptr tr (put st1 right) p disk_key (eb_start right) (w_slots p 1 + 1) 1;
                    Some (0, st2, move_path p 0 (eb_start right) 0 (w_slots p 1 + 1))
                  }
                else
                  do {
                    st2 \<leftarrow> path_insert_ptr tr (put st1 right) p disk_key (eb_start right) (w_slots p 1) 1;
                    let p1 = set_slot (set_node p 0 (eb_start right)) 0 0;
                    st3 \<leftarrow> (if w_slots p 1 = 0 then fixup_low_keys st2 p1 disk_key 1 else Some st2);
                    Some (0, st3, p1)
                  }
              else
                do {
                  (st2, p1) \<leftarrow> copy_for_split tr st1 p l right slot mid;
                  if split = 2 then
                    (case n of 0 \<Rightarrow> None | Suc m \<Rightarrow> split_leaf_again tr ins_key data_size extending m st2 p1)
                  else Some (0, st2, p1)
                }
     }"

declare split_leaf_again.simps [simp del]

abbreviation (input) BTRFS_DIR_ITEM_KEY :: u8 where "BTRFS_DIR_ITEM_KEY \<equiv> 84"

text \<open>The attempts of \<open>split_leaf\<close> to make room by pushing items to the neighbours.\<close>

definition push_for_split :: "btrfs_trans \<Rightarrow> nat \<Rightarrow> ctree \<Rightarrow> wpath \<Rightarrow> (int \<times> ctree \<times> wpath) option" where
  "push_for_split tr data_size st p =
     do {
       (wret, st1, p1) \<leftarrow> path_push_right tr st p data_size False;
       if wret \<le> 0 then Some (wret, st1, p1) else path_push_left tr st1 p1 data_size False
     }"

definition split_leaf ::
    "btrfs_trans \<Rightarrow> btrfs_key \<Rightarrow> nat \<Rightarrow> bool \<Rightarrow> ctree \<Rightarrow> wpath \<Rightarrow> (int \<times> ctree \<times> wpath) option" where
  "split_leaf tr ins_key data_size extending st p =
     do {
       la \<leftarrow> w_nodes p 0;
       l \<leftarrow> ct_bufs st la;
       if extending \<and> u32_add data_size (btrfs_item_size_nr l (w_slots p 0)) + sizeof_item > BTRFS_LEAF_DATA_SIZE (tr_fs tr)
       then Some (- EOVERFLOW, st, p)
       else
         do {
           (wret, st1, p1) \<leftarrow>
             (if data_size \<noteq> 0 \<and> key_type ins_key \<noteq> BTRFS_DIR_ITEM_KEY then push_for_split tr data_size st p
              else Some (1, st, p));
           la1 \<leftarrow> w_nodes p1 0;
           l1 \<leftarrow> ct_bufs st1 la1;
           if wret < 0 then Some (wret, st1, p1)
           else if data_size \<noteq> 0 \<and> key_type ins_key \<noteq> BTRFS_DIR_ITEM_KEY \<and> btrfs_leaf_free_space (tr_fs tr) l1 \<ge> int data_size
           then Some (0, st1, p1)
           else
             do {
               (ret, st2, p2) \<leftarrow> (if w_nodes p1 1 = None then insert_new_root tr st1 p1 1 else Some (0, st1, p1));
               if ret \<noteq> 0 then Some (ret, st2, p2) else split_leaf_again tr ins_key data_size extending 1 st2 p2
             }
         }
     }"

section \<open>Search with a transaction\<close>

text \<open>
  The loop of \<open>btrfs_search_slot\<close> with \<open>cow\<close> set, for \<open>ins_len \<ge> 0\<close>: no deletion is prepared. (An \<open>ins_len\<close> of \<open>2 ^ 31\<close> or
  more, which is negative as an \<open>int\<close>, is outside of the model.) The block at \<open>a\<close> is
  copied first, then it becomes the block of the path at its level.
\<close>

partial_function (option) search_slot_cow_loop ::
    "btrfs_trans \<Rightarrow> btrfs_key \<Rightarrow> nat \<Rightarrow> ctree \<Rightarrow> wpath \<Rightarrow> u64 \<Rightarrow> (int \<times> ctree \<times> wpath) option" where
  "search_slot_cow_loop tr key ins_len st p a =
     Option.bind (ct_bufs st a) (\<lambda>b0. let level0 = hdr_level b0 in
       Option.bind (btrfs_cow_block tr st a (w_nodes p (level0 + 1)) (w_slots p (level0 + 1))) (\<lambda>(wret, a1, st1).
         if wret \<noteq> 0 then Some (wret, st1, p)
         else
           Option.bind (ct_bufs st1 a1) (\<lambda>b. let level = hdr_level b in
             if level \<ge> BTRFS_MAX_LEVEL then None
             else
               let p1 = set_node p level a1 in
               Option.bind (check_block (tr_mem tr) (tr_garbage tr) (tr_fs tr) (ct_info st1) (view_path st1 p1) level) (\<lambda>(ret, info1).
                 let st2 = st1\<lparr>ct_info := info1\<rparr> in
                 if ret \<noteq> 0 then Some (- 1, st2, p1)
                 else
                   let r = bin_search b key level in
                   if level \<noteq> 0 then
                     let p2 = set_slot p1 level (down_slot r) in
                     Option.bind
                       (if (w_search_for_split p \<or> ins_len > 0) \<and>
                           hdr_nritems b \<ge> u32_sub (BTRFS_NODEPTRS_PER_BLOCK (tr_fs tr)) 3
                        then split_node tr st2 p2 level else Some (0, st2, p2)) (\<lambda>(sret, st3, p3).
                       if sret > 0 then None
                       else if sret \<noteq> 0 then Some (sret, st3, p3)
                       else if level = w_lowest p then Some (1, st3, p3)
                       else
                         Option.bind (Option.bind (w_nodes p3 level) (ct_bufs st3)) (\<lambda>b3.
                           case read_slot st3 b3 (int (w_slots p3 level)) of
                             Inl _ \<Rightarrow> Some (- EIO, st3, p3)
                           | Inr c \<Rightarrow> search_slot_cow_loop tr key ins_len st3 p3 c))
                   else
                     let p2 = set_slot p1 0 (snd r) in
                     if ins_len > 0 \<and> int ins_len > btrfs_leaf_free_space (tr_fs tr) b then
                       Option.bind (split_leaf tr key ins_len (fst r = 0) st2 p2) (\<lambda>(sret, st3, p3).
                         if sret > 0 then None
                         else if sret \<noteq> 0 then Some (sret, st3, p3)
                         else Some (fst r, st3, p3))
                     else Some (fst r, st2, p2)))))"

declare search_slot_cow_loop.simps [code]

definition search_slot_cow :: "btrfs_trans \<Rightarrow> btrfs_key \<Rightarrow> nat \<Rightarrow> ctree \<Rightarrow> wpath \<Rightarrow> (int \<times> ctree \<times> wpath) option" where
  "search_slot_cow tr key ins_len st p = search_slot_cow_loop tr key ins_len st p (ct_node st)"

section \<open>Insertion\<close>

definition btrfs_insert_empty_items :: "btrfs_trans \<Rightarrow> ctree \<Rightarrow> wpath \<Rightarrow> (btrfs_key \<times> nat) list \<Rightarrow> (int \<times> ctree \<times> wpath) option" where
  "btrfs_insert_empty_items tr st p new =
     (let total_data = fold (\<lambda>(_, sz) t. u32_add t sz) new 0;
          total_size = u32_add total_data (length new * sizeof_item);
          cpu_key = fst (hd new)
      in do {
           (ret, st1, p1) \<leftarrow> search_slot_cow tr cpu_key total_size st p;
           if ret = 0 then Some (- EEXIST, st1, p1)
           else if ret < 0 then Some (ret, st1, p1)
           else
             do {
               la \<leftarrow> w_nodes p1 0;
               leaf \<leftarrow> ct_bufs st1 la;
               leaf1 \<leftarrow> insert_empty_items (tr_fs tr) leaf (w_slots p1 0) new;
               let st2 = put st1 leaf1;
               st3 \<leftarrow> (if w_slots p1 0 = 0 then fixup_low_keys st2 p1 cpu_key 1 else Some st2);
               Some (0, st3, p1)
             }
         })"

text \<open>\<open>btrfs_insert_item\<close>; \<open>mem\<close> says whether the path can be allocated.\<close>

definition btrfs_insert_item :: "btrfs_trans \<Rightarrow> bool \<Rightarrow> ctree \<Rightarrow> btrfs_key \<Rightarrow> u8 list \<Rightarrow> (int \<times> ctree) option" where
  "btrfs_insert_item tr mem st cpu_key bytes =
     (if \<not> mem then Some (- ENOMEM, st)
      else
        do {
          (ret, st1, p1) \<leftarrow> btrfs_insert_empty_items tr st btrfs_init_path [(cpu_key, length bytes)];
          if ret \<noteq> 0 then Some (ret, st1)
          else
            do {
              la \<leftarrow> w_nodes p1 0;
              leaf \<leftarrow> ct_bufs st1 la;
              Some (0, put st1 (write_data leaf bytes (btrfs_item_offset_nr leaf (w_slots p1 0))))
            }
        })"

end
