(* ===== verification/TreeShape.thy ===== *)
theory TreeShape
  imports TreeWrite "HOL-Library.Multiset"
begin

text \<open>
  The trees that a store holds. An abstract tree has the addresses of the blocks, the keys of the pointers and the items;
  \<open>stored\<close> says that the blocks of a store hold it. A path is a zipper: the frames above the block it stands on, the
  innermost first. The operations of \<open>TreeWrite\<close> are later stated by what they do to the zipper.
\<close>

section \<open>Trees with addresses\<close>

type_synonym items = "(btrfs_key \<times> u8 list) list"

datatype atree = ALeaf u64 items | ANode u64 "(btrfs_key \<times> atree) list"

lemma size_child [termination_simp]: "x \<in> set cs \<Longrightarrow> size (snd x) < Suc (size_list (size_prod f size) cs)"
  by (induction cs) auto

fun t_addr :: "atree \<Rightarrow> u64" where
  "t_addr (ALeaf a xs) = a"
| "t_addr (ANode a cs) = a"

fun t_items :: "atree \<Rightarrow> items" where
  "t_items (ALeaf a xs) = xs"
| "t_items (ANode a cs) = concat (map (\<lambda>x. t_items (snd x)) cs)"

fun t_addrs :: "atree \<Rightarrow> u64 list" where
  "t_addrs (ALeaf a xs) = [a]"
| "t_addrs (ANode a cs) = a # concat (map (\<lambda>x. t_addrs (snd x)) cs)"

fun set_addr :: "u64 \<Rightarrow> atree \<Rightarrow> atree" where
  "set_addr a (ALeaf _ xs) = ALeaf a xs"
| "set_addr a (ANode _ cs) = ANode a cs"

abbreviation cs_items :: "(btrfs_key \<times> atree) list \<Rightarrow> items" where
  "cs_items cs \<equiv> concat (map (\<lambda>x. t_items (snd x)) cs)"

abbreviation cs_addrs :: "(btrfs_key \<times> atree) list \<Rightarrow> u64 list" where
  "cs_addrs cs \<equiv> concat (map (\<lambda>x. t_addrs (snd x)) cs)"

lemma t_addr_in [simp]: "t_addr t \<in> set (t_addrs t)"
  by (cases t) auto

lemma addr_in_cs: "x \<in> set cs \<Longrightarrow> t_addr (snd x) \<in> set (cs_addrs cs)"
  by (auto intro!: bexI [of _ x])

lemma set_addr_simps [simp]:
  "t_addr (set_addr a t) = a" "t_items (set_addr a t) = t_items t" "tl (t_addrs (set_addr a t)) = tl (t_addrs t)"
  "t_addrs (set_addr a t) = a # tl (t_addrs t)"
  by (cases t; simp)+

lemma t_addrs_hd: "t_addrs t = t_addr t # tl (t_addrs t)"
  by (cases t) auto

section \<open>Trees in a store\<close>

definition gen :: "(u64 \<Rightarrow> extent_buffer option) \<Rightarrow> u64 \<Rightarrow> u64" where
  "gen m a = (case m a of None \<Rightarrow> 0 | Some b \<Rightarrow> hdr_generation b)"

definition ptr_to :: "(u64 \<Rightarrow> extent_buffer option) \<Rightarrow> btrfs_key \<times> atree \<Rightarrow> btrfs_key_ptr" where
  "ptr_to m x = \<lparr>kp_key = fst x, kp_blockptr = t_addr (snd x), kp_generation = gen m (t_addr (snd x))\<rparr>"

text \<open>A block of the tree; the blocks of relocation trees are left aside.\<close>

definition block_at :: "btrfs_fs_info \<Rightarrow> (u64 \<Rightarrow> extent_buffer option) \<Rightarrow> nat \<Rightarrow> u64 \<Rightarrow> extent_buffer \<Rightarrow> bool" where
  "block_at fs m l a b \<longleftrightarrow> m a = Some b \<and> eb_start b = a \<and> hdr_level b = l \<and> nodesize fs \<le> eb_len b \<and>
     hdr_owner b \<noteq> BTRFS_TREE_RELOC_OBJECTID"

definition node_at :: "btrfs_fs_info \<Rightarrow> (u64 \<Rightarrow> extent_buffer option) \<Rightarrow> nat \<Rightarrow> u64 \<Rightarrow> (btrfs_key \<times> atree) list \<Rightarrow> bool" where
  "node_at fs m l a cs \<longleftrightarrow> (\<exists>b. block_at fs m l a b \<and> node_ptrs b = map (ptr_to m) cs \<and> length cs \<le> BTRFS_NODEPTRS_PER_BLOCK fs)"

definition leaf_at :: "btrfs_fs_info \<Rightarrow> (u64 \<Rightarrow> extent_buffer option) \<Rightarrow> u64 \<Rightarrow> items \<Rightarrow> bool" where
  "leaf_at fs m a xs \<longleftrightarrow> (\<exists>b. block_at fs m 0 a b \<and> leaf_ctx fs b xs)"

fun stored :: "btrfs_fs_info \<Rightarrow> (u64 \<Rightarrow> extent_buffer option) \<Rightarrow> nat \<Rightarrow> atree \<Rightarrow> bool" where
  "stored fs m 0 (ALeaf a xs) \<longleftrightarrow> leaf_at fs m a xs"
| "stored fs m (Suc l) (ANode a cs) \<longleftrightarrow> node_at fs m (Suc l) a cs \<and> (\<forall>x\<in>set cs. stored fs m l (snd x))"
| "stored fs m l t \<longleftrightarrow> False"

lemma stored_Suc: "stored fs m (Suc l) t \<longleftrightarrow> (\<exists>a cs. t = ANode a cs \<and> node_at fs m (Suc l) a cs \<and> (\<forall>x\<in>set cs. stored fs m l (snd x)))"
  by (cases t) auto

lemma stored_0: "stored fs m 0 t \<longleftrightarrow> (\<exists>a xs. t = ALeaf a xs \<and> leaf_at fs m a xs)"
  by (cases t) auto

lemma stored_block:
  assumes "stored fs m l t"
  obtains b where "block_at fs m l (t_addr t) b"
  using assms by (cases l) (auto simp: stored_0 stored_Suc leaf_at_def node_at_def)

text \<open>A tree depends on its own blocks only.\<close>

lemma block_at_frame: "block_at fs m l a b \<Longrightarrow> m' a = m a \<Longrightarrow> block_at fs m' l a b"
  by (simp add: block_at_def)

lemma leaf_at_frame: "leaf_at fs m a xs \<Longrightarrow> m' a = m a \<Longrightarrow> leaf_at fs m' a xs"
  by (auto simp: leaf_at_def intro: block_at_frame)

lemma node_at_frame:
  assumes "node_at fs m l a cs" and "m' a = m a" and "\<And>x. x \<in> set cs \<Longrightarrow> gen m' (t_addr (snd x)) = gen m (t_addr (snd x))"
  shows "node_at fs m' l a cs"
proof -
  have "map (ptr_to m') cs = map (ptr_to m) cs" using assms(3) by (simp add: ptr_to_def)
  with assms(1,2) show ?thesis unfolding node_at_def by (metis block_at_frame)
qed

lemma gen_cong: "m' a = m a \<Longrightarrow> gen m' a = gen m a"
  by (simp add: gen_def)

lemma stored_frame: "stored fs m l t \<Longrightarrow> (\<And>a. a \<in> set (t_addrs t) \<Longrightarrow> m' a = m a) \<Longrightarrow> stored fs m' l t"
proof (induction l arbitrary: t)
  case 0
  then show ?case by (auto simp: stored_0 intro: leaf_at_frame)
next
  case (Suc l)
  then obtain a cs where t: "t = ANode a cs" "node_at fs m (Suc l) a cs" "\<forall>x\<in>set cs. stored fs m l (snd x)" by (auto simp: stored_Suc)
  have fr: "m' b = m b" if "x \<in> set cs" "b \<in> set (t_addrs (snd x))" for x b using Suc.prems(2) [of b] that t(1) by auto
  have "node_at fs m' (Suc l) a cs"
    using t(2) by (rule node_at_frame) (use Suc.prems(2) [of a] t(1) fr in \<open>auto intro: gen_cong\<close>)
  moreover have "stored fs m' l (snd x)" if "x \<in> set cs" for x
    by (rule Suc.IH) (use t(3) fr that in auto)
  ultimately show ?case by (simp add: t(1))
qed

lemma stored_frame_cs:
  "\<forall>x\<in>set cs. stored fs m l (snd x) \<Longrightarrow> (\<And>a. a \<in> set (cs_addrs cs) \<Longrightarrow> m' a = m a) \<Longrightarrow> \<forall>x\<in>set cs. stored fs m' l (snd x)"
proof
  fix x assume fr: "\<And>a. a \<in> set (cs_addrs cs) \<Longrightarrow> m' a = m a" and x: "x \<in> set cs" "\<forall>x\<in>set cs. stored fs m l (snd x)"
  have "stored fs m l (snd x)" using x by blast
  then show "stored fs m' l (snd x)" by (rule stored_frame) (rule fr, use x in auto)
qed

section \<open>Zippers\<close>

type_synonym frame = "u64 \<times> (btrfs_key \<times> atree) list \<times> btrfs_key \<times> (btrfs_key \<times> atree) list"

fun zip_up :: "frame list \<Rightarrow> atree \<Rightarrow> atree" where
  "zip_up [] t = t"
| "zip_up ((pa, ls, k, rs) # z) t = zip_up z (ANode pa (ls @ (k, t) # rs))"

fun zip_before :: "frame list \<Rightarrow> items" where
  "zip_before [] = []"
| "zip_before ((pa, ls, k, rs) # z) = zip_before z @ cs_items ls"

fun zip_after :: "frame list \<Rightarrow> items" where
  "zip_after [] = []"
| "zip_after ((pa, ls, k, rs) # z) = cs_items rs @ zip_after z"

fun ctx_addrs :: "frame list \<Rightarrow> u64 list" where
  "ctx_addrs [] = []"
| "ctx_addrs ((pa, ls, k, rs) # z) = pa # cs_addrs ls @ cs_addrs rs @ ctx_addrs z"

fun ctx_stored :: "btrfs_fs_info \<Rightarrow> (u64 \<Rightarrow> extent_buffer option) \<Rightarrow> nat \<Rightarrow> frame list \<Rightarrow> atree \<Rightarrow> bool" where
  "ctx_stored fs m l [] t \<longleftrightarrow> True"
| "ctx_stored fs m l ((pa, ls, k, rs) # z) t \<longleftrightarrow>
     node_at fs m (Suc l) pa (ls @ (k, t) # rs) \<and> (\<forall>x\<in>set (ls @ rs). stored fs m l (snd x)) \<and>
     ctx_stored fs m (Suc l) z (ANode pa (ls @ (k, t) # rs))"

lemma zip_up_items: "t_items (zip_up z t) = zip_before z @ t_items t @ zip_after z"
  by (induction z t rule: zip_up.induct) auto

lemma zip_up_addrs: "mset (t_addrs (zip_up z t)) = mset (t_addrs t) + mset (ctx_addrs z)"
  by (induction z t rule: zip_up.induct) auto

lemma zip_up_set: "set (t_addrs (zip_up z t)) = set (t_addrs t) \<union> set (ctx_addrs z)"
  by (metis zip_up_addrs set_mset_mset set_mset_union)

lemma zip_up_distinct: "distinct (t_addrs (zip_up z t) @ xs) \<longleftrightarrow> distinct (t_addrs t @ ctx_addrs z @ xs)"
  by (rule mset_eq_imp_distinct_iff) (simp add: zip_up_addrs)

lemma zip_up_addr: "t_addr (zip_up z t) = (if z = [] then t_addr t else fst (last z))"
  by (induction z t rule: zip_up.induct) auto

lemma stored_zip: "stored fs m (l + length z) (zip_up z t) \<longleftrightarrow> stored fs m l t \<and> ctx_stored fs m l z t"
proof (induction z t arbitrary: l rule: zip_up.induct)
  case (2 pa ls k rs z t)
  show ?case using 2 [of "Suc l"] by auto
qed simp

lemma ctx_stored_cong: "t_addr t' = t_addr t \<Longrightarrow> ctx_stored fs m l z t' = ctx_stored fs m l z t"
proof (induction z arbitrary: t t' l)
  case (Cons f z)
  obtain pa ls k rs where f: "f = (pa, ls, k, rs)" by (cases f)
  have "node_at fs m (Suc l) pa (ls @ (k, t') # rs) = node_at fs m (Suc l) pa (ls @ (k, t) # rs)"
    using Cons.prems by (simp add: node_at_def ptr_to_def)
  then show ?case using Cons.IH [of "ANode pa (ls @ (k, t') # rs)" "ANode pa (ls @ (k, t) # rs)" "Suc l"] by (simp add: f)
qed simp

lemma ctx_stored_frame:
  "ctx_stored fs m l z t \<Longrightarrow> (\<And>a. a \<in> set (ctx_addrs z) \<Longrightarrow> m' a = m a) \<Longrightarrow> gen m' (t_addr t) = gen m (t_addr t) \<Longrightarrow>
   ctx_stored fs m' l z t"
proof (induction z arbitrary: t l)
  case (Cons f z)
  obtain pa ls k rs where f: "f = (pa, ls, k, rs)" by (cases f)
  have fr: "m' a = m a" if "a = pa \<or> a \<in> set (ctx_addrs z) \<or> a \<in> set (cs_addrs ls) \<or> a \<in> set (cs_addrs rs)" for a
    using Cons.prems(2) [of a] that by (auto simp: f)
  have g: "gen m' (t_addr (snd x)) = gen m (t_addr (snd x))" if "x \<in> set (ls @ (k, t) # rs)" for x
    using that Cons.prems(3) fr [of "t_addr (snd x)"] addr_in_cs [of x ls] addr_in_cs [of x rs] by (auto dest: gen_cong)
  note d = Cons.prems(1) [unfolded f ctx_stored.simps]
  have "node_at fs m' (Suc l) pa (ls @ (k, t) # rs)"
    using conjunct1 [OF d] by (rule node_at_frame) (use fr [of pa] g in simp_all)
  moreover have "\<forall>x\<in>set (ls @ rs). stored fs m' l (snd x)"
  proof (rule stored_frame_cs [of _ fs m])
    show "m' a = m a" if "a \<in> set (cs_addrs (ls @ rs))" for a using fr [of a] that by auto
  qed (use d in blast)
  moreover have "ctx_stored fs m' (Suc l) z (ANode pa (ls @ (k, t) # rs))"
  proof (rule Cons.IH)
    show "gen m' (t_addr (ANode pa (ls @ (k, t) # rs))) = gen m (t_addr (ANode pa (ls @ (k, t) # rs)))"
      using fr [of pa] by (simp add: gen_def)
  qed (use d fr in blast)+
  ultimately show ?case by (simp add: f)
qed simp

section \<open>Keys\<close>

fun keyed :: "atree \<Rightarrow> bool" where
  "keyed (ALeaf a xs) \<longleftrightarrow> True"
| "keyed (ANode a cs) \<longleftrightarrow> cs \<noteq> [] \<and> (\<forall>x\<in>set cs. t_items (snd x) \<noteq> [] \<and> fst x = fst (hd (t_items (snd x))) \<and> keyed (snd x))"

definition child_ok :: "btrfs_key \<times> atree \<Rightarrow> bool" where
  "child_ok x \<longleftrightarrow> t_items (snd x) \<noteq> [] \<and> fst x = fst (hd (t_items (snd x))) \<and> keyed (snd x)"

lemma keyed_node: "keyed (ANode a cs) \<longleftrightarrow> cs \<noteq> [] \<and> (\<forall>x\<in>set cs. child_ok x)"
  by (simp add: child_ok_def)

declare keyed.simps(2) [simp del]

text \<open>The context of a block whose first key is \<open>fk\<close>.\<close>

fun ctx_keyed :: "frame list \<Rightarrow> btrfs_key \<Rightarrow> bool" where
  "ctx_keyed [] fk \<longleftrightarrow> True"
| "ctx_keyed ((pa, ls, k, rs) # z) fk \<longleftrightarrow> (\<forall>x\<in>set (ls @ rs). child_ok x) \<and> k = fk \<and> ctx_keyed z (if ls = [] then fk else fst (hd ls))"

lemma cs_items_first: "\<forall>x\<in>set cs. child_ok x \<Longrightarrow> cs \<noteq> [] \<Longrightarrow> cs_items cs \<noteq> [] \<and> fst (hd (cs_items cs)) = fst (hd cs)"
  by (cases cs) (auto simp: child_ok_def)

lemma keyed_zip:
  "keyed (zip_up z t) \<longleftrightarrow> keyed t \<and> (z \<noteq> [] \<longrightarrow> t_items t \<noteq> [] \<and> ctx_keyed z (fst (hd (t_items t))))"
proof (induction z t rule: zip_up.induct)
  case (2 pa ls k rs z t)
  let ?n = "ANode pa (ls @ (k, t) # rs)"
  have n: "keyed ?n \<longleftrightarrow> (\<forall>x\<in>set (ls @ rs). child_ok x) \<and> child_ok (k, t)" by (auto simp: keyed_node)
  have ne: "t_items ?n \<noteq> []" "fst (hd (t_items ?n)) = (if ls = [] then k else fst (hd ls))" if "keyed ?n"
    using that cs_items_first [of "ls @ (k, t) # rs"] by (cases ls; auto simp: keyed_node)+
  show ?case
  proof (cases "keyed ?n")
    case True
    have "k = fst (hd (t_items t))" "t_items t \<noteq> []" "keyed t" using True by (auto simp: n child_ok_def)
    moreover have "\<forall>x\<in>set (ls @ rs). child_ok x" using True n by blast
    ultimately have "(z \<noteq> [] \<longrightarrow> ctx_keyed z (fst (hd (t_items ?n)))) \<longleftrightarrow> ctx_keyed ((pa, ls, k, rs) # z) (fst (hd (t_items t)))"
      using ne [OF True] by (cases z) simp_all
    with \<open>keyed t\<close> \<open>t_items t \<noteq> []\<close> True ne(1) [OF True] show ?thesis using 2 by simp
  next
    case False
    have "keyed (zip_up z ?n) \<longrightarrow> keyed ?n" using 2 by simp
    with False show ?thesis by (auto simp: n child_ok_def)
  qed
qed simp

text \<open>What \<open>btrfs_fixup_low_keys\<close> does to the frames.\<close>

fun fix_ctx :: "btrfs_key \<Rightarrow> frame list \<Rightarrow> frame list" where
  "fix_ctx key [] = []"
| "fix_ctx key ((pa, ls, k, rs) # z) = (pa, ls, key, rs) # (if ls = [] then fix_ctx key z else z)"

lemma fix_ctx_simps [simp]:
  "zip_before (fix_ctx key z) = zip_before z" "zip_after (fix_ctx key z) = zip_after z"
  "ctx_addrs (fix_ctx key z) = ctx_addrs z" "length (fix_ctx key z) = length z" "fix_ctx key z = [] \<longleftrightarrow> z = []"
  by (induction key z rule: fix_ctx.induct) auto

lemma fix_ctx_keyed: "ctx_keyed z fk \<Longrightarrow> ctx_keyed (fix_ctx key z) key"
  by (induction key z arbitrary: fk rule: fix_ctx.induct) auto

lemma fix_ctx_addr: "fst (last (fix_ctx key z)) = fst (last z)" if "z \<noteq> []"
  using that by (induction key z rule: fix_ctx.induct) auto

lemma zip_fix_addr [simp]: "t_addr (zip_up (fix_ctx key z) t) = t_addr (zip_up z t)"
  by (simp add: zip_up_addr fix_ctx_addr)

lemma zip_fix_addrs: "mset (t_addrs (zip_up (fix_ctx key z) t)) = mset (t_addrs (zip_up z t))"
  by (simp add: zip_up_addrs)

section \<open>The state with a zipper\<close>

fun freed :: "ext_call list \<Rightarrow> u64 list" where
  "freed [] = []"
| "freed (FreeExtent a n l # cs) = a # freed cs"
| "freed (c # cs) = freed cs"

lemma freed_append [simp]: "freed (xs @ ys) = freed xs @ freed ys"
  by (induction xs rule: freed.induct) auto

text \<open>All addresses of a tree, of the allocator and of the freed blocks; no operation changes this collection.\<close>

definition uses :: "ctree \<Rightarrow> atree \<Rightarrow> u64 multiset" where
  "uses st t = mset (t_addrs t) + mset (ct_pool st) + mset (freed (ct_calls st))"

definition tree_at :: "btrfs_trans \<Rightarrow> ctree \<Rightarrow> nat \<Rightarrow> frame list \<Rightarrow> atree \<Rightarrow> bool" where
  "tree_at tr st l z t \<longleftrightarrow>
     stored (tr_fs tr) (ct_bufs st) (l + length z) (zip_up z t) \<and> ct_node st = t_addr (zip_up z t) \<and>
     distinct (t_addrs (zip_up z t) @ ct_pool st @ freed (ct_calls st))"

lemma tree_atD:
  assumes "tree_at tr st l z t"
  shows "stored (tr_fs tr) (ct_bufs st) l t" "ctx_stored (tr_fs tr) (ct_bufs st) l z t" "ct_node st = t_addr (zip_up z t)"
    "distinct (t_addrs t @ ctx_addrs z @ ct_pool st @ freed (ct_calls st))"
  using assms zip_up_distinct [of z t "ct_pool st @ freed (ct_calls st)"] by (auto simp: tree_at_def stored_zip)

lemma uses_distinct:
  assumes "uses st' t' = uses st t" and "distinct (t_addrs t @ ct_pool st @ freed (ct_calls st))"
  shows "distinct (t_addrs t' @ ct_pool st' @ freed (ct_calls st'))"
  using assms(2) mset_eq_imp_distinct_iff [of "t_addrs t' @ ct_pool st' @ freed (ct_calls st')" "t_addrs t @ ct_pool st @ freed (ct_calls st)"] assms(1)
  by (simp add: uses_def add.assoc)

lemma root_in_ctx: "z \<noteq> [] \<Longrightarrow> t_addr (zip_up z t) \<in> set (ctx_addrs z)"
proof (induction z t rule: zip_up.induct)
  case (2 pa ls k rs z t)
  then show ?case by (cases z) auto
qed simp

lemma focus_not_root:
  assumes "tree_at tr st l z t" and "z \<noteq> []"
  shows "t_addr t \<noteq> ct_node st"
proof -
  have "set (t_addrs t) \<inter> set (ctx_addrs z) = {}" using tree_atD(4) [OF assms(1)] by auto
  then have "t_addr (zip_up z t) \<notin> set (t_addrs t)" using root_in_ctx [OF assms(2), of t] by blast
  then show ?thesis using tree_atD(3) [OF assms(1)] t_addr_in by metis
qed

text \<open>The block in focus, or a part of the tree below it, is replaced.\<close>

lemma tree_at_replace:
  assumes t: "tree_at tr st l z t" and s: "stored (tr_fs tr) (ct_bufs st') l t'" and a: "t_addr t' = t_addr t"
    and g: "gen (ct_bufs st') (t_addr t) = gen (ct_bufs st) (t_addr t)"
    and fr: "\<And>b. b \<in> set (ctx_addrs z) \<Longrightarrow> ct_bufs st' b = ct_bufs st b"
    and n: "ct_node st' = ct_node st" and u: "uses st' (zip_up z t') = uses st (zip_up z t)"
  shows "tree_at tr st' l z t'"
proof -
  note d = tree_atD [OF t]
  have "ctx_stored (tr_fs tr) (ct_bufs st') l z t" using d(2) fr g by (rule ctx_stored_frame)
  then have "ctx_stored (tr_fs tr) (ct_bufs st') l z t'" using ctx_stored_cong [OF a] by simp
  moreover have "ct_node st' = t_addr (zip_up z t')" using d(3) n a by (simp add: zip_up_addr)
  moreover have "distinct (t_addrs (zip_up z t') @ ct_pool st' @ freed (ct_calls st'))"
    using uses_distinct [OF u] t by (simp add: tree_at_def)
  ultimately show ?thesis using s by (simp add: tree_at_def stored_zip)
qed

lemma uses_zip: "mset (t_addrs t') + mset (ct_pool st') + mset (freed (ct_calls st')) = mset (t_addrs t) + mset (ct_pool st) + mset (freed (ct_calls st)) \<Longrightarrow>
    uses st' (zip_up z t') = uses st (zip_up z t)"
  by (simp add: uses_def zip_up_addrs ac_simps)

end
