(* ===== verification/TreeCow.thy ===== *)
theory TreeCow
  imports TreeShape
begin

text \<open>Copy on write, the reading of a child and the update of first keys, on the zipper.\<close>

section \<open>The transaction\<close>

text \<open>
  What is assumed of a transaction: block sizes of at least 4 KiB, a root that is not a relocation tree, and an extent
  allocator whose calls succeed, apart from the allocation of blocks.
\<close>

definition trans_ok :: "btrfs_trans \<Rightarrow> bool" where
  "trans_ok tr \<longleftrightarrow> fs_ok (tr_fs tr) \<and> 4096 \<le> nodesize (tr_fs tr) \<and> root_objectid tr \<noteq> BTRFS_TREE_RELOC_OBJECTID \<and>
     (\<forall>c x. ext_ret tr c x = 0) \<and> (\<forall>c a. fst (extent_info tr c a) = 0 \<and> fst (snd (extent_info tr c a)) \<noteq> 0)"

lemma trans_okD:
  assumes "trans_ok tr"
  shows "fs_ok (tr_fs tr)" "4096 \<le> nodesize (tr_fs tr)" "root_objectid tr \<noteq> BTRFS_TREE_RELOC_OBJECTID"
    "121 \<le> BTRFS_NODEPTRS_PER_BLOCK (tr_fs tr)"
proof -
  show d: "fs_ok (tr_fs tr)" "4096 \<le> nodesize (tr_fs tr)" "root_objectid tr \<noteq> BTRFS_TREE_RELOC_OBJECTID"
    using assms by (simp_all add: trans_ok_def)
  have "u32_sub (nodesize (tr_fs tr)) sizeof_header = nodesize (tr_fs tr) - sizeof_header" using d(1,2) by (simp add: fs_ok_def)
  then show "121 \<le> BTRFS_NODEPTRS_PER_BLOCK (tr_fs tr)" using d(2) by (simp add: BTRFS_NODEPTRS_PER_BLOCK_def BTRFS_LEAF_DATA_SIZE_def)
qed

lemma node_limit: "trans_ok tr \<Longrightarrow> j \<le> 121 \<Longrightarrow> u32_sub (BTRFS_NODEPTRS_PER_BLOCK (tr_fs tr)) j = BTRFS_NODEPTRS_PER_BLOCK (tr_fs tr) - j"
proof -
  assume tr: "trans_ok tr" and j: "j \<le> 121"
  have "BTRFS_NODEPTRS_PER_BLOCK (tr_fs tr) \<le> BTRFS_LEAF_DATA_SIZE (tr_fs tr)" by (simp add: BTRFS_NODEPTRS_PER_BLOCK_def)
  then show ?thesis using leaf_data_size_small [OF trans_okD(1) [OF tr]] trans_okD(4) [OF tr] j by simp
qed

lemma must_ext: "trans_ok tr \<Longrightarrow> must (ext_do tr st c) = Some (st\<lparr>ct_calls := ct_calls st @ [c]\<rparr>)"
  by (simp add: must_def ext_do_def trans_ok_def)

lemma update_ref_ok:
  assumes tr: "trans_ok tr" and own: "hdr_owner buf \<noteq> BTRFS_TREE_RELOC_OBJECTID"
  shows "\<exists>cs. update_ref_for_cow tr st buf cow = Some (st\<lparr>ct_calls := ct_calls st @ cs\<rparr>) \<and> freed cs = []"
proof -
  obtain refs flags cs1 where s: "(if btrfs_block_can_be_shared tr st buf then
            (case extent_info tr (ct_calls st) (eb_start buf) of
               (ret, refs, flags) \<Rightarrow>
                 if ret \<noteq> 0 \<or> refs = 0 then None
                 else Some (refs, flags, st\<lparr>ct_calls := ct_calls st @ [LookupExtentInfo (eb_start buf) (hdr_level buf)]\<rparr>))
          else
            Some (1, if root_objectid tr = BTRFS_TREE_RELOC_OBJECTID \<or> btrfs_header_backref_rev buf < BTRFS_MIXED_BACKREF_REV
                     then BTRFS_BLOCK_FLAG_FULL_BACKREF else 0, st)) = Some (refs, flags, st\<lparr>ct_calls := ct_calls st @ cs1\<rparr>)" "freed cs1 = []"
  proof (cases "btrfs_block_can_be_shared tr st buf")
    case True
    obtain ret refs flags where e: "extent_info tr (ct_calls st) (eb_start buf) = (ret, refs, flags)" by (metis prod_cases3)
    moreover have "ret = 0" "refs \<noteq> 0" using tr e unfolding trans_ok_def by (metis fst_conv snd_conv)+
    ultimately show ?thesis using True that [of refs flags "[LookupExtentInfo (eb_start buf) (hdr_level buf)]"] by simp
  next
    case False
    then show ?thesis using that [of 1 _ "[]"] by simp
  qed
  show ?thesis
    unfolding update_ref_for_cow_def s(1) using own trans_okD(3) [OF tr] s(2) must_ext [OF tr]
    by (auto simp: Let_def intro!: exI)
qed

section \<open>The copy of a block\<close>

lemma cow_copy_simps:
  assumes "trans_ok tr"
  shows "eb_start (cow_copy tr buf new) = eb_start new" "eb_len (cow_copy tr buf new) = eb_len new"
    "hdr_level (cow_copy tr buf new) = hdr_level buf" "hdr_nritems (cow_copy tr buf new) = hdr_nritems buf"
    "hdr_generation (cow_copy tr buf new) = transid tr" "hdr_owner (cow_copy tr buf new) = root_objectid tr"
    "eb_items (cow_copy tr buf new) = eb_items buf" "eb_data (cow_copy tr buf new) = eb_data buf" "eb_ptrs (cow_copy tr buf new) = eb_ptrs buf"
  using trans_okD(3) [OF assms]
  by (simp_all add: cow_copy_def Let_def btrfs_set_header_backref_rev_def btrfs_clear_header_flag_def)

lemma node_ptrs_cong: "hdr_nritems b' = hdr_nritems b \<Longrightarrow> eb_ptrs b' = eb_ptrs b \<Longrightarrow> node_ptrs b' = node_ptrs b"
  by (simp add: node_ptrs_def)

lemma leaf_ctx_cong:
  "hdr_nritems b' = hdr_nritems b \<Longrightarrow> eb_items b' = eb_items b \<Longrightarrow> eb_data b' = eb_data b \<Longrightarrow> leaf_ctx fs b' xs = leaf_ctx fs b xs"
  by (simp add: leaf_ctx_def leaf_repr_def)

lemma set_addr_same: "a = t_addr t \<Longrightarrow> set_addr a t = t"
  by (cases t) auto

text \<open>The copy at a new address holds the same tree.\<close>

lemma copy_stored:
  assumes tr: "trans_ok tr" and s: "stored (tr_fs tr) m l t" and b: "m (t_addr t) = Some buf"
    and new: "m' (eb_start new) = Some (cow_copy tr buf new)" "nodesize (tr_fs tr) \<le> eb_len new"
    and fr: "\<And>x. x \<in> set (tl (t_addrs t)) \<Longrightarrow> m' x = m x"
  shows "stored (tr_fs tr) m' l (set_addr (eb_start new) t)"
proof (cases l)
  case 0
  with s obtain a xs where t: "t = ALeaf a xs" "leaf_at (tr_fs tr) m a xs" by (auto simp: stored_0)
  then have "leaf_at (tr_fs tr) m' (eb_start new) xs"
    using b new trans_okD(3) [OF tr] leaf_ctx_cong [of "cow_copy tr buf new" buf] by (auto simp: leaf_at_def block_at_def cow_copy_simps [OF tr])
  with 0 t(1) show ?thesis by simp
next
  case (Suc l')
  with s obtain a cs where t: "t = ANode a cs" "node_at (tr_fs tr) m (Suc l') a cs" "\<forall>x\<in>set cs. stored (tr_fs tr) m l' (snd x)"
    by (auto simp: stored_Suc)
  have "map (ptr_to m') cs = map (ptr_to m) cs"
    using fr addr_in_cs [of _ cs] by (auto simp: ptr_to_def t(1) intro!: gen_cong)
  then have "node_at (tr_fs tr) m' (Suc l') (eb_start new) cs"
    using t(1,2) b new trans_okD(3) [OF tr] node_ptrs_cong [of "cow_copy tr buf new" buf]
    by (auto simp: node_at_def block_at_def cow_copy_simps [OF tr])
  moreover have "\<forall>x\<in>set cs. stored (tr_fs tr) m' l' (snd x)"
    using t(3) by (rule stored_frame_cs) (use fr t(1) in simp)
  ultimately show ?thesis by (simp add: Suc t(1))
qed

section \<open>Pointers\<close>

lemma node_ptrs_repoint:
  assumes "i < hdr_nritems b"
  shows "node_ptrs (btrfs_set_node_ptr_generation (btrfs_set_node_blockptr b i a) i g) =
    (node_ptrs b)[i := \<lparr>kp_key = kp_key (node_ptrs b ! i), kp_blockptr = a, kp_generation = g\<rparr>]"
  using assms by (intro node_ptrsI) (auto simp: node_defs nth_list_update nth_node_ptrs intro!: btrfs_key_ptr.equality)

lemma node_ptrs_rekey:
  assumes "i < hdr_nritems b"
  shows "node_ptrs (btrfs_set_node_key b k i) = (node_ptrs b)[i := (node_ptrs b ! i)\<lparr>kp_key := k\<rparr>]"
  using assms by (intro node_ptrsI) (auto simp: node_defs nth_list_update nth_node_ptrs)

lemma set_ptr_frame:
  "btrfs_set_node_key b k i = b\<lparr>eb_ptrs := eb_ptrs (btrfs_set_node_key b k i)\<rparr>"
  "btrfs_set_node_ptr_generation (btrfs_set_node_blockptr b i a) i g =
     b\<lparr>eb_ptrs := eb_ptrs (btrfs_set_node_ptr_generation (btrfs_set_node_blockptr b i a) i g)\<rparr>"
  by (simp_all add: node_defs)

lemma block_at_ptrs: "block_at fs m l a b \<Longrightarrow> m' a = Some (b\<lparr>eb_ptrs := x\<rparr>) \<Longrightarrow> block_at fs m' l a (b\<lparr>eb_ptrs := x\<rparr>)"
  by (simp add: block_at_def)

section \<open>Copy on write in a tree\<close>

text \<open>The pointer of the parent to the block in focus is set to the copy.\<close>

lemma ctx_repoint:
  assumes c: "ctx_stored fs m l ((pa, ls, k, rs) # z) t" and pb: "m pa = Some pb"
    and m': "m' pa = Some (btrfs_set_node_ptr_generation (btrfs_set_node_blockptr pb (length ls) (t_addr t')) (length ls) g)"
    and g: "gen m' (t_addr t') = g" and fr: "\<And>x. x \<in> set (cs_addrs ls @ cs_addrs rs @ ctx_addrs z) \<Longrightarrow> m' x = m x"
  shows "ctx_stored fs m' l ((pa, ls, k, rs) # z) t'"
proof -
  let ?cs = "ls @ (k, t) # rs" and ?cs' = "ls @ (k, t') # rs"
  let ?pb = "btrfs_set_node_ptr_generation (btrfs_set_node_blockptr pb (length ls) (t_addr t')) (length ls) g"
  have n: "block_at fs m (Suc l) pa pb" "node_ptrs pb = map (ptr_to m) ?cs" "length ?cs \<le> BTRFS_NODEPTRS_PER_BLOCK fs"
    using c pb by (auto simp: node_at_def block_at_def)
  have len: "hdr_nritems pb = length ?cs" using arg_cong [OF n(2), of length] by simp
  have "map (ptr_to m') ls = map (ptr_to m) ls" "map (ptr_to m') rs = map (ptr_to m) rs"
    using fr addr_in_cs by (auto simp: ptr_to_def intro!: gen_cong)
  then have "node_ptrs ?pb = map (ptr_to m') ?cs'"
    using node_ptrs_repoint [of "length ls" pb "t_addr t'" g] len g by (simp add: n(2) ptr_to_def nth_append list_update_append)
  moreover have "block_at fs m' (Suc l) pa ?pb" using n(1) m' by (subst set_ptr_frame(2)) (auto simp: block_at_def node_defs)
  ultimately have "node_at fs m' (Suc l) pa ?cs'" using n(3) by (auto simp: node_at_def)
  moreover have "\<forall>x\<in>set (ls @ rs). stored fs m' l (snd x)"
    by (rule stored_frame_cs [of _ fs m]) (use c fr in auto)
  moreover have "ctx_stored fs m (Suc l) z (ANode pa ?cs)" using c by simp
  then have "ctx_stored fs m (Suc l) z (ANode pa ?cs')" using ctx_stored_cong [of "ANode pa ?cs'" "ANode pa ?cs"] by simp
  then have "ctx_stored fs m' (Suc l) z (ANode pa ?cs')"
    by (rule ctx_stored_frame) (use fr pb m' in \<open>auto simp: gen_def node_defs\<close>)
  ultimately show ?thesis by simp
qed

text \<open>The parent and the slot in it, as the arguments of \<open>btrfs_cow_block\<close> are in a tree.\<close>

fun zip_parent :: "frame list \<Rightarrow> u64 option \<Rightarrow> nat \<Rightarrow> bool" where
  "zip_parent [] p i \<longleftrightarrow> True"
| "zip_parent ((pa, ls, k, rs) # z) p i \<longleftrightarrow> p = Some pa \<and> i = length ls"

lemma alloc_Cons:
  assumes "ct_pool st = a # pool"
  shows "alloc_block tr st l key hint =
    (Inr ((raw_block tr a)\<lparr>eb_start := a, eb_len := nodesize (tr_fs tr)\<rparr>),
     st\<lparr>ct_pool := pool, ct_calls := ct_calls st @ [AllocBlock a l key hint]\<rparr>)"
  using assms by (simp add: alloc_block_def)

lemma cow_ok:
  assumes tr: "trans_ok tr" and t: "tree_at tr st l z t" and p: "zip_parent z parent i" and pool: "ct_pool st \<noteq> []"
  shows "\<exists>a st'. btrfs_cow_block tr st (t_addr t) parent i = Some (0, a, st') \<and> tree_at tr st' l z (set_addr a t) \<and>
    uses st' (zip_up z (set_addr a t)) = uses st (zip_up z t) \<and> length (ct_pool st) \<le> Suc (length (ct_pool st')) \<and> ct_info st' = ct_info st"
proof -
  note d = tree_atD [OF t]
  obtain buf where b: "block_at (tr_fs tr) (ct_bufs st) l (t_addr t) buf" using stored_block [OF d(1)] .
  then have b': "ct_bufs st (t_addr t) = Some buf" "eb_start buf = t_addr t" "hdr_level buf = l" "hdr_owner buf \<noteq> BTRFS_TREE_RELOC_OBJECTID"
    by (auto simp: block_at_def)
  show ?thesis
  proof (cases "should_cow_block tr buf")
    case False
    then have "btrfs_cow_block tr st (t_addr t) parent i = Some (0, t_addr t, st)" using b' by (simp add: btrfs_cow_block_def)
    with t show ?thesis by (auto simp: set_addr_same)
  next
    case True
    obtain a pool where pl: "ct_pool st = a # pool" using pool by (cases "ct_pool st") auto
    define new where "new = (raw_block tr a)\<lparr>eb_start := a, eb_len := nodesize (tr_fs tr)\<rparr>"
    define cow where "cow = cow_copy tr buf new"
    have cw: "eb_start cow = a" "hdr_generation cow = transid tr" by (simp_all add: cow_def cow_copy_simps [OF tr] new_def)
    define st1 where "st1 key = st\<lparr>ct_pool := pool, ct_calls := ct_calls st @ [AllocBlock a l key (t_addr t AND NOT (2 ^ 30 - 1))]\<rparr>" for key
    define key where "key = (if l = 0 then btrfs_item_key buf 0 else btrfs_node_key buf 0)"
    obtain cs where cs: "update_ref_for_cow tr (put (st1 key) cow) buf cow = Some ((put (st1 key) cow)\<lparr>ct_calls := ct_calls (st1 key) @ cs\<rparr>)" "freed cs = []"
      using update_ref_ok [OF tr b'(4), of "put (st1 key) cow" cow] by (auto simp: put_def)
    have al: "alloc_block tr st l key (t_addr t AND NOT (2 ^ 30 - 1)) = (Inr new, st1 key)"
      using alloc_Cons [OF pl] by (simp add: new_def st1_def)
    have fresh: "a \<notin> set (t_addrs t)" "a \<notin> set (ctx_addrs z)" using d(4) pl by auto
    have dt: "t_addr t \<notin> set (tl (t_addrs t))" using d(4) t_addrs_hd [of t] by (metis distinct.simps(2) distinct_append)
    have anew: "eb_start new = a" "nodesize (tr_fs tr) \<le> eb_len new" by (simp_all add: new_def)
    define calls where "calls = ct_calls (st1 key) @ cs @ [FreeExtent (t_addr t) (eb_len buf) l]"
    have fc: "freed calls = freed (ct_calls st) @ [t_addr t]" using cs(2) by (simp add: calls_def st1_def)
    obtain below where below: "t_addrs t = t_addr t # below" using t_addrs_hd by metis
    have u: "uses st' (zip_up z (set_addr a t)) = uses st (zip_up z t)" if "ct_pool st' = pool" "ct_calls st' = calls" for st'
      by (rule uses_zip) (simp add: that fc pl below)
    show ?thesis
    proof (cases z)
      case Nil
      define st' where "st' = st\<lparr>ct_bufs := (ct_bufs st)(a \<mapsto> cow), ct_node := a, ct_pool := pool, ct_calls := calls\<rparr>"
      have "btrfs_cow_block tr st (t_addr t) parent i = Some (0, a, st')"
        using True b' al cs(1) d(3) cw(1) Nil
        by (simp add: btrfs_cow_block_def cow_block_def Let_def flip: key_def cow_def)
          (simp add: ext_do_def put_def st1_def st'_def calls_def)
      moreover have "stored (tr_fs tr) (ct_bufs st') l (set_addr a t)"
      proof -
        have "stored (tr_fs tr) (ct_bufs st') l (set_addr (eb_start new) t)"
          by (rule copy_stored [OF tr d(1) b'(1)]) (use anew fresh below in \<open>auto simp: st'_def cow_def [symmetric]\<close>)
        with anew(1) show ?thesis by simp
      qed
      moreover have "distinct (t_addrs (set_addr a t) @ ct_pool st' @ freed (ct_calls st'))"
        using uses_distinct [OF u [of st']] t Nil by (simp add: st'_def tree_at_def)
      ultimately have "tree_at tr st' l z (set_addr a t)" using Nil by (simp add: tree_at_def st'_def)
      with \<open>btrfs_cow_block tr st (t_addr t) parent i = Some (0, a, st')\<close> u [of st'] show ?thesis by (auto simp: st'_def pl)
    next
      case (Cons f z')
      obtain pa ls k rs where f: "f = (pa, ls, k, rs)" by (cases f)
      with p Cons have pp: "parent = Some pa" "i = length ls" by simp_all
      have ctx: "ctx_stored (tr_fs tr) (ct_bufs st) l ((pa, ls, k, rs) # z') t" using d(2) Cons f by simp
      then obtain pb where pb: "ct_bufs st pa = Some pb" "eb_start pb = pa" by (auto simp: node_at_def block_at_def)
      have nr: "t_addr t \<noteq> ct_node st" using focus_not_root [OF t] Cons by simp
      have pf: "pa \<noteq> a" "pa \<notin> set (t_addrs t)" "pa \<notin> set (cs_addrs ls @ cs_addrs rs @ ctx_addrs z')"
        using d(4) fresh by (auto simp: Cons f)
      define pb2 where "pb2 = btrfs_set_node_ptr_generation (btrfs_set_node_blockptr pb i a) i (transid tr)"
      have pb2: "eb_start pb2 = pa" using pb by (simp add: pb2_def node_defs)
      define st' where "st' = st\<lparr>ct_bufs := (ct_bufs st)(a \<mapsto> cow, pa \<mapsto> pb2), ct_pool := pool, ct_calls := calls\<rparr>"
      have ret: "btrfs_cow_block tr st (t_addr t) parent i = Some (0, a, st')"
        using True b' al cs(1) cw(1) pb pb2 pf(1) pp(1) nr
        by (simp add: btrfs_cow_block_def cow_block_def Let_def flip: key_def cow_def)
          (simp add: ext_do_def put_def st1_def st'_def calls_def flip: pb2_def)
      have s: "stored (tr_fs tr) (ct_bufs st') l (set_addr a t)"
      proof -
        have "stored (tr_fs tr) (ct_bufs st') l (set_addr (eb_start new) t)"
        proof (rule copy_stored [OF tr d(1) b'(1)])
          show "ct_bufs st' (eb_start new) = Some (cow_copy tr buf new)" using anew pf by (simp add: st'_def flip: cow_def)
          show "ct_bufs st' x = ct_bufs st x" if "x \<in> set (tl (t_addrs t))" for x
            using that fresh(1) pf(2) below by (auto simp: st'_def)
        qed (rule anew(2))
        with anew(1) show ?thesis by simp
      qed
      have "ctx_stored (tr_fs tr) (ct_bufs st') l ((pa, ls, k, rs) # z') (set_addr a t)"
      proof (rule ctx_repoint [OF ctx pb(1)])
        show "ct_bufs st' pa = Some (btrfs_set_node_ptr_generation (btrfs_set_node_blockptr pb (length ls) (t_addr (set_addr a t))) (length ls) (transid tr))"
          by (simp add: st'_def pb2_def pp)
        show "gen (ct_bufs st') (t_addr (set_addr a t)) = transid tr" using cw pf by (simp add: st'_def gen_def)
        show "ct_bufs st' x = ct_bufs st x" if "x \<in> set (cs_addrs ls @ cs_addrs rs @ ctx_addrs z')" for x
          using that pf(3) fresh(2) by (auto simp: st'_def Cons f)
      qed
      with s have "stored (tr_fs tr) (ct_bufs st') (l + length z) (zip_up z (set_addr a t))"
        using stored_zip [of "tr_fs tr" "ct_bufs st'" l z "set_addr a t"] by (simp add: Cons f)
      moreover have "ct_node st' = t_addr (zip_up z (set_addr a t))" using d(3) by (simp add: st'_def zip_up_addr Cons)
      moreover have "distinct (t_addrs (zip_up z (set_addr a t)) @ ct_pool st' @ freed (ct_calls st'))"
        using uses_distinct [OF u [of st']] t by (simp add: st'_def tree_at_def)
      ultimately have "tree_at tr st' l z (set_addr a t)" by (simp add: tree_at_def)
      with ret u [of st'] show ?thesis by (auto simp: st'_def pl)
    qed
  qed
qed

end
