(* ===== verification/TreeNodes.thy ===== *)
theory TreeNodes
  imports TreeCow
begin

text \<open>Reading and rewriting of the children of a node, and the preparation of a node for an insertion below it.\<close>

section \<open>Paths\<close>

fun on_path :: "wpath \<Rightarrow> nat \<Rightarrow> frame list \<Rightarrow> bool" where
  "on_path p l [] \<longleftrightarrow> (\<forall>i>l. w_nodes p i = None)"
| "on_path p l ((pa, ls, k, rs) # z) \<longleftrightarrow> w_nodes p (Suc l) = Some pa \<and> w_slots p (Suc l) = length ls \<and> on_path p (Suc l) z"

lemma on_path_cong:
  "(\<And>i. l < i \<Longrightarrow> w_nodes p' i = w_nodes p i \<and> w_slots p' i = w_slots p i) \<Longrightarrow> on_path p' l z = on_path p l z"
  by (induction p l z rule: on_path.induct) auto

lemma path_simps [simp]:
  "w_nodes (set_node p l a) = (w_nodes p)(l := Some a)" "w_slots (set_node p l a) = w_slots p"
  "w_nodes (set_slot p l i) = w_nodes p" "w_slots (set_slot p l i) = (w_slots p)(l := i)"
  "w_nodes (move_path p l a i j) = (w_nodes p)(l := Some a)" "w_slots (move_path p l a i j) = (w_slots p)(Suc l := j, l := i)"
  by (simp_all add: set_node_def set_slot_def move_path_def)

text \<open>The settings of a path that no operation changes.\<close>

definition path_set :: "wpath \<Rightarrow> nat \<times> bool \<times> bool" where
  "path_set p = (w_lowest p, w_skip_check p, w_search_for_split p)"

lemma path_set_simps [simp]:
  "path_set (set_node p l a) = path_set p" "path_set (set_slot p l i) = path_set p" "path_set (move_path p l a i j) = path_set p"
  by (simp_all add: path_set_def set_node_def set_slot_def move_path_def)

lemma on_path_below [simp]:
  "l' \<le> l \<Longrightarrow> on_path (set_node p l' a) l z = on_path p l z" "l' \<le> l \<Longrightarrow> on_path (set_slot p l' i) l z = on_path p l z"
  by (auto intro!: on_path_cong)

lemma on_path_move [simp]: "on_path (move_path p l a i j) l ((pa, ls, k, rs) # z) \<longleftrightarrow> w_nodes p (Suc l) = Some pa \<and> j = length ls \<and> on_path p (Suc l) z"
  using on_path_cong [of "Suc l" "move_path p l a i j" p z] by auto

lemma parent_of_path: "on_path p l z \<Longrightarrow> zip_parent z (w_nodes p (Suc l)) (w_slots p (Suc l))"
  by (cases z) auto

section \<open>Children\<close>

lemma node_block:
  assumes "node_at fs m l a cs" and "m a = Some b"
  shows "block_at fs m l a b" "node_ptrs b = map (ptr_to m) cs" "hdr_nritems b = length cs" "length cs \<le> BTRFS_NODEPTRS_PER_BLOCK fs"
proof -
  show n: "block_at fs m l a b" "node_ptrs b = map (ptr_to m) cs" "length cs \<le> BTRFS_NODEPTRS_PER_BLOCK fs"
    using assms by (auto simp: node_at_def block_at_def)
  show "hdr_nritems b = length cs" using arg_cong [OF n(2), of length] by simp
qed

lemma node_key_nth: "node_ptrs b = map (ptr_to m) cs \<Longrightarrow> i < length cs \<Longrightarrow> btrfs_node_key b i = fst (cs ! i)"
proof -
  assume p: "node_ptrs b = map (ptr_to m) cs" "i < length cs"
  then have "hdr_nritems b = length cs" using length_node_ptrs [of b] by simp
  with p have "eb_ptrs b i = ptr_to m (cs ! i)" using nth_node_ptrs [of i b] by simp
  then show ?thesis by (simp add: btrfs_node_key_def ptr_to_def)
qed

lemma read_slot_child:
  assumes n: "node_at fs (ct_bufs st) (Suc l) a cs" "\<forall>x\<in>set cs. stored fs (ct_bufs st) l (snd x)" and b: "ct_bufs st a = Some b"
  shows "i < length cs \<Longrightarrow> read_slot st b (int i) = Inr (t_addr (snd (cs ! i)))" and "j < 0 \<or> int (length cs) \<le> j \<Longrightarrow> read_slot st b j = Inl 0"
proof -
  note nb = node_block [OF n(1) b]
  show "read_slot st b j = Inl 0" if "j < 0 \<or> int (length cs) \<le> j" using that by (auto simp: read_slot_def read_node_slot_def Let_def nb(3))
  assume i: "i < length cs"
  then obtain c where c: "block_at fs (ct_bufs st) l (t_addr (snd (cs ! i))) c" using n(2) stored_block by (metis nth_mem)
  have "eb_ptrs b i = ptr_to (ct_bufs st) (cs ! i)" using nth_node_ptrs [of i b] i nb(2,3) by simp
  with c nb(1,3) i show "read_slot st b (int i) = Inr (t_addr (snd (cs ! i)))"
    by (simp add: read_slot_def read_node_slot_def Let_def block_at_def btrfs_node_blockptr_def btrfs_node_ptr_generation_def ptr_to_def store_reader_def gen_def)
qed

section \<open>Rewriting two neighbours\<close>

lemma put_simps [simp]:
  "ct_bufs (put st b) = (ct_bufs st)(eb_start b \<mapsto> b)" "ct_node (put st b) = ct_node st" "ct_pool (put st b) = ct_pool st"
  "ct_calls (put st b) = ct_calls st" "ct_info (put st b) = ct_info st"
  by (simp_all add: put_def)

lemma rewrite_pair:
  fixes k2'
  assumes t: "tree_at tr st (Suc l) z (ANode pa (A @ (k1, c1) # (k2, c2) # B))" and pb: "ct_bufs st pa = Some pb"
    and b1: "eb_start b1 = t_addr c1" "hdr_generation b1 = gen (ct_bufs st) (t_addr c1)"
    and b2: "eb_start b2 = t_addr c2" "hdr_generation b2 = gen (ct_bufs st) (t_addr c2)"
    and a: "t_addr c1' = t_addr c1" "t_addr c2' = t_addr c2" "mset (t_addrs c1' @ t_addrs c2') = mset (t_addrs c1 @ t_addrs c2)"
  defines "st' \<equiv> put (put (put st b1) b2) (btrfs_set_node_key pb k2' (Suc (length A)))"
  assumes s: "stored (tr_fs tr) (ct_bufs st') l c1'" "stored (tr_fs tr) (ct_bufs st') l c2'"
  shows "tree_at tr st' (Suc l) z (ANode pa (A @ (k1, c1') # (k2', c2') # B))"
    and "uses st' (zip_up z (ANode pa (A @ (k1, c1') # (k2', c2') # B))) = uses st (zip_up z (ANode pa (A @ (k1, c1) # (k2, c2) # B)))"
proof -
  let ?cs = "A @ (k1, c1) # (k2, c2) # B" and ?cs' = "A @ (k1, c1') # (k2', c2') # B" and ?m = "ct_bufs st" and ?m' = "ct_bufs st'"
  let ?pb = "btrfs_set_node_key pb k2' (Suc (length A))"
  note d = tree_atD [OF t]
  have n: "node_at (tr_fs tr) ?m (Suc l) pa ?cs" "\<forall>x\<in>set ?cs. stored (tr_fs tr) ?m l (snd x)" using d(1) by auto
  note nb = node_block [OF n(1) pb]
  have pa: "eb_start pb = pa" "eb_start ?pb = pa" using nb(1) by (simp_all add: block_at_def node_defs)
  have dis: "pa \<notin> set (cs_addrs ?cs)" "set (t_addrs c1) \<inter> set (t_addrs c2) = {}" "set (t_addrs c1 @ t_addrs c2) \<inter> set (cs_addrs A @ cs_addrs B) = {}"
    "set (pa # cs_addrs ?cs) \<inter> set (ctx_addrs z) = {}"
    using d(4) by auto
  have ne: "pa \<noteq> t_addr c1" "pa \<noteq> t_addr c2" using dis(1) by auto
  have ne': "t_addr c1 \<noteq> t_addr c2" using dis(2) by (metis IntI empty_iff t_addr_in)
  have m': "?m' x = (if x = pa then Some ?pb else if x = t_addr c2 then Some b2 else if x = t_addr c1 then Some b1 else ?m x)" for x
    using b1 b2 pa by (simp add: st'_def)
  have g: "gen ?m' x = gen ?m x" if "x = pa \<or> x = t_addr c1 \<or> x = t_addr c2" for x
    using that ne ne' b1(2) b2(2) pb by (auto simp: gen_def m' node_defs)
  have fr: "?m' x = ?m x" if "x \<in> set (cs_addrs A) \<union> set (cs_addrs B) \<union> set (ctx_addrs z)" for x
  proof -
    have "x \<noteq> pa" "x \<notin> set (t_addrs c1)" "x \<notin> set (t_addrs c2)" using that dis by auto
    then have "x \<noteq> pa" "x \<noteq> t_addr c1" "x \<noteq> t_addr c2" by auto
    then show ?thesis by (simp add: m')
  qed
  have p: "map (ptr_to ?m') A = map (ptr_to ?m) A" "map (ptr_to ?m') B = map (ptr_to ?m) B"
    using fr addr_in_cs [of _ A] addr_in_cs [of _ B] by (auto simp: ptr_to_def intro!: gen_cong)
  have "node_ptrs ?pb = map (ptr_to ?m') ?cs'"
    using node_ptrs_rekey [of "Suc (length A)" pb k2'] nb(2,3) p g a(1,2)
    by (simp add: ptr_to_def nth_append list_update_append)
  moreover have "block_at (tr_fs tr) ?m' (Suc l) pa ?pb" using nb(1) m' [of pa] by (auto simp: block_at_def node_defs)
  ultimately have "node_at (tr_fs tr) ?m' (Suc l) pa ?cs'" using nb(4) by (auto simp: node_at_def)
  moreover have "\<forall>x\<in>set (A @ B). stored (tr_fs tr) ?m' l (snd x)"
    by (rule stored_frame_cs [of _ "tr_fs tr" ?m]) (use n(2) fr in auto)
  ultimately have st: "stored (tr_fs tr) ?m' (Suc l) (ANode pa ?cs')" using s by auto
  have c: "ct_pool st' = ct_pool st" "ct_calls st' = ct_calls st" "ct_node st' = ct_node st" by (simp_all add: st'_def)
  show u: "uses st' (zip_up z (ANode pa ?cs')) = uses st (zip_up z (ANode pa ?cs))"
    by (rule uses_zip) (use a(3) c in \<open>simp add: ac_simps\<close>)
  show "tree_at tr st' (Suc l) z (ANode pa ?cs')"
    by (rule tree_at_replace [OF t st]) (use g c(3) fr u in auto)
qed

text \<open>The same for the first keys of all nodes.\<close>

lemma keyed_rewrite:
  assumes "keyed (zip_up z (ANode pa cs))" and "cs_items cs' = cs_items cs" and "cs' \<noteq> []" and "\<forall>x\<in>set cs'. child_ok x"
  shows "keyed (zip_up z (ANode pa cs'))"
  using assms keyed_zip [of z "ANode pa cs"] keyed_zip [of z "ANode pa cs'"] by (auto simp: keyed_node)

lemma keyed_child:
  assumes "keyed (zip_up z (ANode pa cs))"
  shows "\<forall>x\<in>set cs. child_ok x" "cs \<noteq> []"
  using assms keyed_zip [of z "ANode pa cs"] by (auto simp: keyed_node)

lemma child_ok_node: "cs \<noteq> [] \<Longrightarrow> \<forall>x\<in>set cs. child_ok x \<Longrightarrow> child_ok (fst (hd cs), ANode a cs)"
  using cs_items_first [of cs] by (auto simp: child_ok_def keyed_node)

section \<open>Two neighbouring nodes\<close>

text \<open>An operation on a node changes the pointers and their number only.\<close>

definition node_frame :: "extent_buffer \<Rightarrow> extent_buffer \<Rightarrow> bool" where
  "node_frame b b' \<longleftrightarrow> b'\<lparr>hdr_nritems := hdr_nritems b, eb_ptrs := eb_ptrs b\<rparr> = b"

lemma node_frame_simps:
  assumes "node_frame b b'"
  shows "eb_start b' = eb_start b" "eb_len b' = eb_len b" "hdr_level b' = hdr_level b" "hdr_generation b' = hdr_generation b"
    "hdr_owner b' = hdr_owner b" "hdr_flags b' = hdr_flags b"
  using arg_cong [OF assms [unfolded node_frame_def], of eb_start] arg_cong [OF assms [unfolded node_frame_def], of eb_len]
    arg_cong [OF assms [unfolded node_frame_def], of hdr_level] arg_cong [OF assms [unfolded node_frame_def], of hdr_generation]
    arg_cong [OF assms [unfolded node_frame_def], of hdr_owner] arg_cong [OF assms [unfolded node_frame_def], of hdr_flags]
  by simp_all

lemma node_frame_ops:
  "push_node_left fs dst src e = (r, dst', src') \<Longrightarrow> node_frame dst dst' \<and> node_frame src src'"
  "balance_node_right fs dst src = (r, dst', src') \<Longrightarrow> node_frame dst dst' \<and> node_frame src src'"
  "split_node_ptrs c sp = (c', sp') \<Longrightarrow> node_frame c c' \<and> node_frame sp sp'"
  "insert_ptr fs tid low key bytenr slot = Some low' \<Longrightarrow> node_frame low low'"
  "node_frame b (btrfs_set_node_key b k i)"
  by (auto simp: push_node_left_def balance_node_right_def split_node_ptrs_def insert_ptr_def node_frame_def node_defs Let_def
      split: option.splits if_splits)

lemma node_stored:
  assumes b: "block_at fs m (Suc l) a b" and f: "node_frame b b'" and m': "m' a = Some b'"
    and p: "node_ptrs b' = map (ptr_to m) cs" and n: "length cs \<le> BTRFS_NODEPTRS_PER_BLOCK fs"
    and s: "\<forall>x\<in>set cs. stored fs m l (snd x)" and fr: "\<And>x. x \<in> set (cs_addrs cs) \<Longrightarrow> m' x = m x"
  shows "stored fs m' (Suc l) (ANode a cs)"
proof -
  have "map (ptr_to m') cs = map (ptr_to m) cs" using fr addr_in_cs [of _ cs] by (auto simp: ptr_to_def intro!: gen_cong)
  moreover have "block_at fs m' (Suc l) a b'" using b m' node_frame_simps [OF f] by (simp add: block_at_def)
  ultimately have "node_at fs m' (Suc l) a cs" using p n by (auto simp: node_at_def)
  with stored_frame_cs [OF s fr] show ?thesis by simp
qed

lemma node_pair_ok:
  assumes t: "tree_at tr st (Suc (Suc l)) z (ANode pa (A @ (k1, ANode a1 xs) # (k2, ANode a2 ys) # B))"
    and k: "keyed (zip_up z (ANode pa (A @ (k1, ANode a1 xs) # (k2, ANode a2 ys) # B)))"
    and b: "ct_bufs st pa = Some pb" "ct_bufs st a1 = Some b1" "ct_bufs st a2 = Some b2"
    and f: "node_frame b1 b1'" "node_frame b2 b2'"
    and p: "node_ptrs b1' @ node_ptrs b2' = node_ptrs b1 @ node_ptrs b2"
    and n: "0 < hdr_nritems b1'" "0 < hdr_nritems b2'" "hdr_nritems b1' \<le> BTRFS_NODEPTRS_PER_BLOCK (tr_fs tr)"
      "hdr_nritems b2' \<le> BTRFS_NODEPTRS_PER_BLOCK (tr_fs tr)"
  defines "xs' \<equiv> take (hdr_nritems b1') (xs @ ys)" and "ys' \<equiv> drop (hdr_nritems b1') (xs @ ys)"
  defines "st' \<equiv> put (put (put st b1') b2') (btrfs_set_node_key pb (btrfs_node_key b2' 0) (Suc (length A)))"
  shows "tree_at tr st' (Suc (Suc l)) z (ANode pa (A @ (k1, ANode a1 xs') # (fst (hd ys'), ANode a2 ys') # B))"
    and "keyed (zip_up z (ANode pa (A @ (k1, ANode a1 xs') # (fst (hd ys'), ANode a2 ys') # B)))"
    and "uses st' (zip_up z (ANode pa (A @ (k1, ANode a1 xs') # (fst (hd ys'), ANode a2 ys') # B))) =
      uses st (zip_up z (ANode pa (A @ (k1, ANode a1 xs) # (k2, ANode a2 ys) # B)))"
    and "length xs' = hdr_nritems b1'" "length ys' = hdr_nritems b2'" "hdr_nritems b1' \<le> length (xs @ ys)" "ct_bufs st' pa \<noteq> None"
proof -
  let ?m = "ct_bufs st" and ?fs = "tr_fs tr"
  note d = tree_atD [OF t]
  have n1: "node_at ?fs ?m (Suc l) a1 xs" "\<forall>x\<in>set xs. stored ?fs ?m l (snd x)"
    and n2: "node_at ?fs ?m (Suc l) a2 ys" "\<forall>x\<in>set ys. stored ?fs ?m l (snd x)"
    and n0: "node_at ?fs ?m (Suc (Suc l)) pa (A @ (k1, ANode a1 xs) # (k2, ANode a2 ys) # B)"
    using d(1) by auto
  note nb1 = node_block [OF n1(1) b(2)] and nb2 = node_block [OF n2(1) b(3)] and nb0 = node_block [OF n0 b(1)]
  have pt: "node_ptrs b1' @ node_ptrs b2' = map (ptr_to ?m) (xs @ ys)" using p nb1(2) nb2(2) by simp
  have p1: "node_ptrs b1' = map (ptr_to ?m) xs'"
    using arg_cong [OF pt, of "take (hdr_nritems b1')"] by (simp add: xs'_def take_map)
  have p2: "node_ptrs b2' = map (ptr_to ?m) ys'"
    using arg_cong [OF pt, of "drop (hdr_nritems b1')"] by (simp add: ys'_def drop_map)
  show l1: "length xs' = hdr_nritems b1'" using arg_cong [OF p1, of length] by simp
  show l2: "length ys' = hdr_nritems b2'" using arg_cong [OF p2, of length] by simp
  show "hdr_nritems b1' \<le> length (xs @ ys)" using l1 by (simp add: xs'_def)
  have W: "xs' @ ys' = xs @ ys" unfolding xs'_def ys'_def by (rule append_take_drop_id)
  have ne: "xs' \<noteq> []" "ys' \<noteq> []" using n l1 l2 by auto
  have sW: "set xs' \<union> set ys' = set xs \<union> set ys" using arg_cong [OF W, of set] by simp
  have key: "btrfs_node_key b2' 0 = fst (hd ys')" using node_key_nth [OF p2, of 0] ne(2) by (simp add: hd_conv_nth)
  have s: "eb_start b1' = a1" "eb_start b2' = a2" "eb_start pb = pa"
    using node_frame_simps [OF f(1)] node_frame_simps [OF f(2)] nb0(1) nb1(1) nb2(1) by (simp_all add: block_at_def)
  have gs: "hdr_generation b1' = gen ?m a1" "hdr_generation b2' = gen ?m a2"
    using node_frame_simps [OF f(1)] node_frame_simps [OF f(2)] b by (simp_all add: gen_def)
  have dis: "pa \<noteq> a1" "pa \<noteq> a2" "a1 \<noteq> a2" "set (cs_addrs (xs @ ys)) \<inter> {pa, a1, a2} = {}" using d(4) by auto
  have m': "ct_bufs st' x = (if x = pa then Some (btrfs_set_node_key pb (btrfs_node_key b2' 0) (Suc (length A))) else if x = a2 then Some b2' else if x = a1 then Some b1' else ?m x)" for x
    using s dis by (simp add: st'_def node_defs)
  then show "ct_bufs st' pa \<noteq> None" by simp
  have fr: "ct_bufs st' x = ?m x" if "x \<in> set (cs_addrs xs') \<union> set (cs_addrs ys')" for x
  proof -
    have "x \<in> set (cs_addrs (xs @ ys))" using that arg_cong [OF W, of "\<lambda>c. set (cs_addrs c)"] by auto
    then show ?thesis using dis(4) by (auto simp: m')
  qed
  have st1: "stored ?fs (ct_bufs st') (Suc l) (ANode a1 xs')"
    by (rule node_stored [OF nb1(1) f(1)]) (use p1 l1 n(3) n1(2) n2(2) sW fr dis in \<open>auto simp: m'\<close>)
  have st2: "stored ?fs (ct_bufs st') (Suc l) (ANode a2 ys')"
    by (rule node_stored [OF nb2(1) f(2)]) (use p2 l2 n(4) n1(2) n2(2) sW fr dis in \<open>auto simp: m'\<close>)
  have ms: "mset (t_addrs (ANode a1 xs') @ t_addrs (ANode a2 ys')) = mset (t_addrs (ANode a1 xs) @ t_addrs (ANode a2 ys))"
    using arg_cong [OF W, of "\<lambda>c. mset (cs_addrs c)"] by (simp add: ac_simps)
  note rp = rewrite_pair [OF t b(1), where ?b1.0 = b1' and ?b2.0 = b2' and c1' = "ANode a1 xs'" and c2' = "ANode a2 ys'" and k2' = "btrfs_node_key b2' 0"]
  show "tree_at tr st' (Suc (Suc l)) z (ANode pa (A @ (k1, ANode a1 xs') # (fst (hd ys'), ANode a2 ys') # B))"
    using rp(1) s gs ms st1 st2 by (simp add: key st'_def)
  show "uses st' (zip_up z (ANode pa (A @ (k1, ANode a1 xs') # (fst (hd ys'), ANode a2 ys') # B))) =
      uses st (zip_up z (ANode pa (A @ (k1, ANode a1 xs) # (k2, ANode a2 ys) # B)))"
    using rp(2) s gs ms st1 st2 by (simp add: key st'_def)
  note kc = keyed_child(1) [OF k]
  have kx: "child_ok (k1, ANode a1 xs)" "child_ok (k2, ANode a2 ys)" using kc by auto
  then have cx: "\<forall>x\<in>set (xs @ ys). child_ok x" "xs \<noteq> []" "k1 = fst (hd xs)"
    using cs_items_first [of xs] by (auto simp: child_ok_def keyed_node)
  have "hd xs' = hd xs" using ne(1) cx(2) by (cases xs) (auto simp: xs'_def take_Cons')
  moreover have "\<forall>x\<in>set xs'. child_ok x" "\<forall>x\<in>set ys'. child_ok x" using cx(1) sW by auto
  ultimately have "child_ok (k1, ANode a1 xs')" "child_ok (fst (hd ys'), ANode a2 ys')"
    using child_ok_node [OF ne(1)] child_ok_node [OF ne(2)] cx(3) by simp_all
  then show "keyed (zip_up z (ANode pa (A @ (k1, ANode a1 xs') # (fst (hd ys'), ANode a2 ys') # B)))"
    using arg_cong [OF W, of cs_items] kc by (intro keyed_rewrite [OF k]) auto
qed

section \<open>The place of a path in a node\<close>

text \<open>A path at slot \<open>j\<close> of a node: the child is the same and so are the items before and behind it.\<close>

definition same_place :: "frame list \<Rightarrow> (btrfs_key \<times> atree) list \<Rightarrow> nat \<Rightarrow> frame list \<Rightarrow> (btrfs_key \<times> atree) list \<Rightarrow> nat \<Rightarrow> bool" where
  "same_place z cs j z' cs' j' \<longleftrightarrow> j' < length cs' \<and> cs' ! j' = cs ! j \<and>
     zip_before z' @ cs_items (take j' cs') = zip_before z @ cs_items (take j cs) \<and>
     cs_items (drop (Suc j') cs') @ zip_after z' = cs_items (drop (Suc j) cs) @ zip_after z"

lemma same_place_refl: "j < length cs \<Longrightarrow> same_place z cs j z cs j"
  by (simp add: same_place_def)

lemma same_place_trans: "same_place z cs j z1 cs1 j1 \<Longrightarrow> same_place z1 cs1 j1 z2 cs2 j2 \<Longrightarrow> same_place z cs j z2 cs2 j2"
  by (simp add: same_place_def)

text \<open>Slot \<open>i\<close> of two neighbours with the children \<open>W\<close>, split at \<open>n\<close>.\<close>

lemma place_left:
  assumes "i < n" and "n \<le> length W"
  shows "take n W ! i = W ! i"
    "zip_before ((pa, A, k1, (k2, ANode a2 (drop n W)) # B) # z) @ cs_items (take i (take n W)) = zip_before z @ cs_items A @ cs_items (take i W)"
    "cs_items (drop (Suc i) (take n W)) @ zip_after ((pa, A, k1, (k2, ANode a2 (drop n W)) # B) # z) = cs_items (drop (Suc i) W) @ cs_items B @ zip_after z"
proof -
  have "drop (Suc i) (take n W) @ drop n W = drop (Suc i) W"
    using append_take_drop_id [of n W] assms by (metis Suc_leI drop_append drop_0 diff_is_0_eq length_take min.absorb2)
  then have "cs_items (drop (Suc i) W) = cs_items (drop (Suc i) (take n W)) @ cs_items (drop n W)" by (metis concat_append map_append)
  then show "cs_items (drop (Suc i) (take n W)) @ zip_after ((pa, A, k1, (k2, ANode a2 (drop n W)) # B) # z) = cs_items (drop (Suc i) W) @ cs_items B @ zip_after z"
    by simp
qed (use assms in auto)

lemma place_right:
  assumes "n \<le> i" and "i < length W"
  shows "drop n W ! (i - n) = W ! i"
    "zip_before ((pa, A @ [(k1, ANode a1 (take n W))], k2, B) # z) @ cs_items (take (i - n) (drop n W)) = zip_before z @ cs_items A @ cs_items (take i W)"
    "cs_items (drop (Suc (i - n)) (drop n W)) @ zip_after ((pa, A @ [(k1, ANode a1 (take n W))], k2, B) # z) = cs_items (drop (Suc i) W) @ cs_items B @ zip_after z"
proof -
  have "take n W @ take (i - n) (drop n W) = take i W" using assms by (metis le_add_diff_inverse take_add)
  then have "cs_items (take i W) = cs_items (take n W) @ cs_items (take (i - n) (drop n W))" by (metis concat_append map_append)
  then show "zip_before ((pa, A @ [(k1, ANode a1 (take n W))], k2, B) # z) @ cs_items (take (i - n) (drop n W)) = zip_before z @ cs_items A @ cs_items (take i W)"
    by simp
qed (use assms in auto)

text \<open>A path whose block at level \<open>Suc l\<close> is a node of a tree in order.\<close>

definition node_state :: "btrfs_trans \<Rightarrow> ctree \<Rightarrow> wpath \<Rightarrow> nat \<Rightarrow> frame list \<Rightarrow> u64 \<Rightarrow> (btrfs_key \<times> atree) list \<Rightarrow> bool" where
  "node_state tr st p l z a cs \<longleftrightarrow> tree_at tr st (Suc l) z (ANode a cs) \<and> keyed (zip_up z (ANode a cs)) \<and> on_path p (Suc l) z \<and>
     w_nodes p (Suc l) = Some a \<and> w_slots p (Suc l) < length cs"

definition moved ::
    "btrfs_trans \<Rightarrow> nat \<Rightarrow> nat \<Rightarrow> ctree \<Rightarrow> wpath \<Rightarrow> frame list \<Rightarrow> u64 \<Rightarrow> (btrfs_key \<times> atree) list \<Rightarrow>
     ctree \<Rightarrow> wpath \<Rightarrow> frame list \<Rightarrow> u64 \<Rightarrow> (btrfs_key \<times> atree) list \<Rightarrow> bool" where
  "moved tr n l st p z a cs st1 p1 z1 a1 cs1 \<longleftrightarrow>
     node_state tr st1 p1 l z1 a1 cs1 \<and> same_place z cs (w_slots p (Suc l)) z1 cs1 (w_slots p1 (Suc l)) \<and>
     uses st1 (zip_up z1 (ANode a1 cs1)) = uses st (zip_up z (ANode a cs)) \<and> length (ct_pool st) \<le> n + length (ct_pool st1) \<and>
     ct_info st1 = ct_info st \<and> path_set p1 = path_set p"

lemma moved_refl: "node_state tr st p l z a cs \<Longrightarrow> moved tr n l st p z a cs st p z a cs"
  by (simp add: moved_def node_state_def same_place_refl)

lemma moved_trans:
  "moved tr n l st p z a cs st1 p1 z1 a1 cs1 \<Longrightarrow> moved tr n' l st1 p1 z1 a1 cs1 st2 p2 z2 a2 cs2 \<Longrightarrow> n + n' \<le> N \<Longrightarrow>
   moved tr N l st p z a cs st2 p2 z2 a2 cs2"
  unfolding moved_def by (auto intro: same_place_trans)

text \<open>The copy of a neighbour of the node.\<close>

lemma cow_left:
  assumes tr: "trans_ok tr" and s: "node_state tr st p l ((pa, A @ [(k1, t1)], k2, B) # z) a cs" and pool: "ct_pool st \<noteq> []"
  shows "\<exists>a1 st1. btrfs_cow_block tr st (t_addr t1) (Some pa) (length A) = Some (0, a1, st1) \<and>
    moved tr 1 l st p ((pa, A @ [(k1, t1)], k2, B) # z) a cs st1 p ((pa, A @ [(k1, set_addr a1 t1)], k2, B) # z) a cs"
proof -
  let ?z = "(pa, A, k1, (k2, ANode a cs) # B) # z"
  have t: "tree_at tr st (Suc l) ?z t1" using s by (simp add: node_state_def tree_at_def)
  obtain a1 st1 where c: "btrfs_cow_block tr st (t_addr t1) (Some pa) (length A) = Some (0, a1, st1)" "tree_at tr st1 (Suc l) ?z (set_addr a1 t1)"
    "uses st1 (zip_up ?z (set_addr a1 t1)) = uses st (zip_up ?z t1)" "length (ct_pool st) \<le> Suc (length (ct_pool st1))" "ct_info st1 = ct_info st"
    using cow_ok [OF tr t _ pool, of "Some pa" "length A"] by auto
  have k: "keyed (zip_up z (ANode pa (A @ (k1, t1) # (k2, ANode a cs) # B)))" using s by (simp add: node_state_def)
  have kt: "keyed (set_addr a1 t1) = keyed t1" by (cases t1) (auto simp: keyed_node)
  have "keyed (zip_up z (ANode pa (A @ (k1, set_addr a1 t1) # (k2, ANode a cs) # B)))"
    by (rule keyed_rewrite [OF k]) (use keyed_child(1) [OF k] kt in \<open>auto simp: child_ok_def\<close>)
  then have "node_state tr st1 p l ((pa, A @ [(k1, set_addr a1 t1)], k2, B) # z) a cs"
    using s c(2) by (simp add: node_state_def tree_at_def)
  with s c show ?thesis by (auto simp: moved_def same_place_def node_state_def)
qed

lemma cow_right:
  assumes tr: "trans_ok tr" and s: "node_state tr st p l ((pa, A, k1, (k2, t2) # B) # z) a cs" and pool: "ct_pool st \<noteq> []"
  shows "\<exists>a2 st1. btrfs_cow_block tr st (t_addr t2) (Some pa) (Suc (length A)) = Some (0, a2, st1) \<and>
    moved tr 1 l st p ((pa, A, k1, (k2, t2) # B) # z) a cs st1 p ((pa, A, k1, (k2, set_addr a2 t2) # B) # z) a cs"
proof -
  let ?z = "(pa, A @ [(k1, ANode a cs)], k2, B) # z"
  have t: "tree_at tr st (Suc l) ?z t2" using s by (simp add: node_state_def tree_at_def)
  obtain a2 st1 where c: "btrfs_cow_block tr st (t_addr t2) (Some pa) (Suc (length A)) = Some (0, a2, st1)" "tree_at tr st1 (Suc l) ?z (set_addr a2 t2)"
    "uses st1 (zip_up ?z (set_addr a2 t2)) = uses st (zip_up ?z t2)" "length (ct_pool st) \<le> Suc (length (ct_pool st1))" "ct_info st1 = ct_info st"
    using cow_ok [OF tr t _ pool, of "Some pa" "Suc (length A)"] by auto
  have k: "keyed (zip_up z (ANode pa (A @ (k1, ANode a cs) # (k2, t2) # B)))" using s by (simp add: node_state_def)
  have kt: "keyed (set_addr a2 t2) = keyed t2" by (cases t2) (auto simp: keyed_node)
  have "keyed (zip_up z (ANode pa (A @ (k1, ANode a cs) # (k2, set_addr a2 t2) # B)))"
    by (rule keyed_rewrite [OF k]) (use keyed_child(1) [OF k] kt in \<open>auto simp: child_ok_def\<close>)
  then have "node_state tr st1 p l ((pa, A, k1, (k2, set_addr a2 t2) # B) # z) a cs"
    using s c(2) by (simp add: node_state_def tree_at_def)
  with s c show ?thesis by (auto simp: moved_def same_place_def node_state_def)
qed

end
