(* ===== verification/TreePush.thy ===== *)
theory TreePush
  imports TreeNodes
begin

text \<open>Making room in a node: the pushes of pointers to its neighbours.\<close>

section \<open>Pushing pointers to a neighbour\<close>

lemma put_swap: "eb_start b \<noteq> eb_start b' \<Longrightarrow> put (put st b) b' = put (put st b') b"
  by (simp add: put_def fun_upd_twist)

lemma on_path_moved [simp]: "l < l' \<Longrightarrow> on_path (move_path p l a i j) l' z = on_path p l' z"
  by (auto intro!: on_path_cong)

lemma node_state_blocks:
  assumes "node_state tr st p l ((pa, ls, k, rs) # z) a cs"
  shows "tree_at tr st (Suc (Suc l)) z (ANode pa (ls @ (k, ANode a cs) # rs))" "keyed (zip_up z (ANode pa (ls @ (k, ANode a cs) # rs)))"
    "node_at (tr_fs tr) (ct_bufs st) (Suc (Suc l)) pa (ls @ (k, ANode a cs) # rs)" "node_at (tr_fs tr) (ct_bufs st) (Suc l) a cs"
    "\<forall>x\<in>set (ls @ (k, ANode a cs) # rs). stored (tr_fs tr) (ct_bufs st) (Suc l) (snd x)"
    "w_nodes p (Suc (Suc l)) = Some pa" "w_slots p (Suc (Suc l)) = length ls" "on_path p (Suc (Suc l)) z"
  using assms tree_atD(1) [of tr st "Suc (Suc l)" z "ANode pa (ls @ (k, ANode a cs) # rs)"] by (auto simp: node_state_def tree_at_def)

text \<open>The parent of the path keeps its number of pointers.\<close>

definition width :: "frame list \<Rightarrow> nat" where
  "width z = (case z of [] \<Rightarrow> 0 | (pa, ls, k, rs) # _ \<Rightarrow> Suc (length ls + length rs))"

lemma width_simps [simp]: "width [] = 0" "width ((pa, ls, k, rs) # z) = Suc (length ls + length rs)"
  by (simp_all add: width_def)

lemma push_for_insert_left_ok:
  assumes tr: "trans_ok tr" and s: "node_state tr st p l ((pa, ls, k, rs) # z) a cs" and pool: "ct_pool st \<noteq> []"
  shows "\<exists>r. push_for_insert_left tr st p (Suc l) a pa = Some r \<and>
    (case r of
       Inl st1 \<Rightarrow> \<exists>ls1. length ls1 = length ls \<and> moved tr 1 l st p ((pa, ls, k, rs) # z) a cs st1 p ((pa, ls1, k, rs) # z) a cs
     | Inr (st1, p1) \<Rightarrow> \<exists>z1 a1 cs1. length z1 = Suc (length z) \<and> width z1 = Suc (length ls + length rs) \<and>
         moved tr 1 l st p ((pa, ls, k, rs) # z) a cs st1 p1 z1 a1 cs1)"
proof -
  let ?fs = "tr_fs tr"
  note sb = node_state_blocks [OF s]
  obtain pb where pb: "ct_bufs st pa = Some pb" using sb(3) by (auto simp: node_at_def block_at_def)
  note rs = read_slot_child [OF sb(3,5) pb]
  have stay: ?thesis if "push_for_insert_left tr st p (Suc l) a pa = Some (Inl st)"
    using that moved_refl [OF s] by auto
  show ?thesis
  proof (cases ls rule: rev_cases)
    case Nil
    then have "read_slot st pb (int (w_slots p (Suc (Suc l))) - 1) = Inl 0" using rs(2) [of "- 1"] sb(7) by simp
    then show ?thesis by (intro stay) (simp add: push_for_insert_left_def pb)
  next
    case (snoc A x)
    obtain k1 t1 where x: "x = (k1, t1)" by (cases x)
    have "stored ?fs (ct_bufs st) (Suc l) t1" using sb(5) snoc x by simp
    then obtain la xs where t1: "t1 = ANode la xs" "node_at ?fs (ct_bufs st) (Suc l) la xs" by (auto simp: stored_Suc)
    then obtain lb where lb: "ct_bufs st la = Some lb" by (auto simp: node_at_def block_at_def)
    note nl = node_block [OF t1(2) lb]
    have rd: "read_slot st pb (int (w_slots p (Suc (Suc l))) - 1) = Inr la"
      using rs(1) [of "length A"] sb(7) snoc x t1(1) by (simp add: nth_append)
    show ?thesis
    proof (cases "length xs \<ge> u32_sub (BTRFS_NODEPTRS_PER_BLOCK ?fs) 1")
      case True
      then show ?thesis using rd lb nl(3) by (intro stay) (simp add: push_for_insert_left_def pb)
    next
      case False
      obtain a1 st1 where c: "btrfs_cow_block tr st la (Some pa) (length A) = Some (0, a1, st1)"
        and mv: "moved tr 1 l st p ((pa, ls, k, rs) # z) a cs st1 p ((pa, A @ [(k1, ANode a1 xs)], k, rs) # z) a cs"
        using cow_left [OF tr s [unfolded snoc x] pool] t1(1) snoc x by auto
      let ?z1 = "(pa, A @ [(k1, ANode a1 xs)], k, rs) # z"
      have s1: "node_state tr st1 p l ?z1 a cs" using mv by (simp add: moved_def)
      note sb1 = node_state_blocks [OF s1]
      have T: "tree_at tr st1 (Suc (Suc l)) z (ANode pa (A @ (k1, ANode a1 xs) # (k, ANode a cs) # rs))"
        and K: "keyed (zip_up z (ANode pa (A @ (k1, ANode a1 xs) # (k, ANode a cs) # rs)))" using sb1(1,2) by simp_all
      have n1: "node_at ?fs (ct_bufs st1) (Suc l) a1 xs" using sb1(5) by simp
      obtain pb1 left mid where bl: "ct_bufs st1 pa = Some pb1" "ct_bufs st1 a1 = Some left" "ct_bufs st1 a = Some mid"
        using sb1(3,4) n1 by (auto simp: node_at_def block_at_def)
      note nb1 = node_block [OF n1 bl(2)] and nb2 = node_block [OF sb1(4) bl(3)]
      obtain wret left1 mid1 where pu: "push_node_left ?fs left mid False = (wret, left1, mid1)" by (metis prod_cases3)
      have eq: "push_for_insert_left tr st p (Suc l) a pa =
        (if wret \<noteq> 0 then Some (Inl st1)
         else do {
           let st2 = put (put st1 left1) mid1;
           parent2 \<leftarrow> ct_bufs st2 pa;
           let st3 = put st2 (btrfs_set_node_key parent2 (btrfs_node_key mid1 0) (Suc (length A)));
               orig_slot = w_slots p (Suc l) + length xs
           in Some (Inr (st3, if hdr_nritems left1 > orig_slot then move_path p (Suc l) a1 orig_slot (length A)
                              else set_slot p (Suc l) (orig_slot - hdr_nritems left1))) })"
        using rd False lb nl(3) c bl pu sb(7) snoc by (simp add: push_for_insert_left_def pb Let_def)
      show ?thesis
      proof (cases "wret = 0")
        case False
        then show ?thesis using eq mv snoc by (auto intro!: exI [of _ "A @ [(k1, ANode a1 xs)]"])
      next
        case True
        note pl = push_node_left_ok [OF pu]
        have ptrs: "node_ptrs left1 @ node_ptrs mid1 = node_ptrs left @ node_ptrs mid"
          and cnt: "hdr_nritems left1 \<le> BTRFS_NODEPTRS_PER_BLOCK ?fs" "hdr_nritems left \<le> hdr_nritems left1" "8 \<le> hdr_nritems mid1"
          using pl True by auto
        note fr = node_frame_ops(1) [OF pu]
        have xs0: "0 < length xs" using keyed_child(1) [OF K] by (auto simp: child_ok_def)
        have sum: "hdr_nritems left1 + hdr_nritems mid1 = length xs + length cs" using arg_cong [OF ptrs, of length] nb1(3) nb2(3) by simp
        define W n where "W = xs @ cs" and "n = hdr_nritems left1"
        let ?ys = "drop n W" and ?xs = "take n W"
        let ?st3 = "put (put (put st1 left1) mid1) (btrfs_set_node_key pb1 (btrfs_node_key mid1 0) (Suc (length A)))"
        have "hdr_nritems mid1 \<le> BTRFS_NODEPTRS_PER_BLOCK ?fs" using sum cnt(2) nb1(3) nb2(4) by simp
        then have np: "tree_at tr ?st3 (Suc (Suc l)) z (ANode pa (A @ (k1, ANode a1 ?xs) # (fst (hd ?ys), ANode a ?ys) # rs))"
          "keyed (zip_up z (ANode pa (A @ (k1, ANode a1 ?xs) # (fst (hd ?ys), ANode a ?ys) # rs)))"
          "uses ?st3 (zip_up z (ANode pa (A @ (k1, ANode a1 ?xs) # (fst (hd ?ys), ANode a ?ys) # rs))) =
             uses st1 (zip_up z (ANode pa (A @ (k1, ANode a1 xs) # (k, ANode a cs) # rs)))" "length ?ys = hdr_nritems mid1" "n \<le> length W"
          using node_pair_ok [OF T K bl, of left1 mid1] fr ptrs cnt xs0 nb1(3) by (simp_all add: W_def n_def)
        have paneq: "pa \<noteq> a1" "pa \<noteq> a" using tree_atD(4) [OF T] by auto
        have st: "eb_start left1 = a1" "eb_start mid1 = a"
          using node_frame_simps(1) [of left left1] node_frame_simps(1) [of mid mid1] fr nb1(1) nb2(1) by (auto simp: block_at_def)
        let ?i = "w_slots p (Suc l) + length xs"
        have iW: "?i < length W" using s1 by (simp add: W_def node_state_def)
        let ?p1 = "if n > ?i then move_path p (Suc l) a1 ?i (length A) else set_slot p (Suc l) (?i - n)"
        have res: "push_for_insert_left tr st p (Suc l) a pa = Some (Inr (?st3, ?p1))"
          using eq True bl paneq st by (simp add: n_def Let_def)
        have old: "zip_before ?z1 @ cs_items (take (w_slots p (Suc l)) cs) = zip_before z @ cs_items A @ cs_items (take ?i W)"
          "cs_items (drop (Suc (w_slots p (Suc l))) cs) @ zip_after ?z1 = cs_items (drop (Suc ?i) W) @ cs_items rs @ zip_after z"
          "cs ! w_slots p (Suc l) = W ! ?i"
          using place_right(1) [where n = "length xs" and i = ?i and W = W] place_right(2,3) [where n = "length xs" and i = ?i and W = W and pa = pa and A = A and ?k1.0 = k1 and ?a1.0 = a1 and ?k2.0 = k and B = rs and z = z] iW by (simp_all add: W_def nth_append)
        have pool1: "ct_pool ?st3 = ct_pool st1" "ct_info ?st3 = ct_info st1" by simp_all
        have finish: ?thesis if "moved tr 0 l st1 p ?z1 a cs ?st3 ?p1 z2 a' cs'" "length z2 = Suc (length z)" "width z2 = Suc (length ls + length rs)" for z2 a' cs'
        proof (rule exI [of _ "Inr (?st3, ?p1)"], unfold sum.case prod.case, intro conjI exI)
          show "moved tr 1 l st p ((pa, ls, k, rs) # z) a cs ?st3 ?p1 z2 a' cs'" using moved_trans [OF mv that(1)] by simp
        qed (use that res in simp_all)
        show ?thesis
        proof (cases "n > ?i")
          case True
          let ?z2 = "(pa, A, k1, (fst (hd ?ys), ANode a ?ys) # rs) # z"
          have "node_state tr ?st3 ?p1 l ?z2 a1 ?xs"
            using True np(1,2,5) sb1(6,8) by (simp add: node_state_def tree_at_def)
          moreover have "same_place ?z1 cs (w_slots p (Suc l)) ?z2 ?xs (w_slots ?p1 (Suc l))"
            using True place_left(1) [OF True np(5)] place_left(2,3) [OF True np(5), where pa = pa and A = A and ?k1.0 = k1 and ?k2.0 = "fst (hd ?ys)" and ?a2.0 = a and B = rs and z = z] old np(5) by (simp add: same_place_def)
          ultimately have "moved tr 0 l st1 p ?z1 a cs ?st3 ?p1 ?z2 a1 ?xs"
            using np(3) pool1 True by (simp add: moved_def)
          from finish [OF this] snoc show ?thesis by simp
        next
          case False
          let ?z2 = "(pa, A @ [(k1, ANode a1 ?xs)], fst (hd ?ys), rs) # z"
          have "node_state tr ?st3 ?p1 l ?z2 a ?ys"
            using False np(1,2) sb1(6-8) s1 iW on_path_below(2) [of "Suc l" "Suc (Suc l)" p "?i - n" z] by (simp add: node_state_def tree_at_def)
          moreover have "same_place ?z1 cs (w_slots p (Suc l)) ?z2 ?ys (w_slots ?p1 (Suc l))"
            using False place_right(1) [where n = n and i = ?i and W = W] place_right(2,3) [where n = n and i = ?i and W = W and pa = pa and A = A and ?k1.0 = k1 and ?a1.0 = a1 and ?k2.0 = "fst (hd ?ys)" and B = rs and z = z] old iW by (simp add: same_place_def)
          ultimately have "moved tr 0 l st1 p ?z1 a cs ?st3 ?p1 ?z2 a ?ys"
            using np(3) pool1 False by (simp add: moved_def)
          from finish [OF this] snoc show ?thesis by simp
        qed
      qed
    qed
  qed
qed

lemma push_for_insert_right_ok:
  assumes tr: "trans_ok tr" and s: "node_state tr st p l ((pa, ls, k, rs) # z) a cs" and pool: "ct_pool st \<noteq> []"
  shows "\<exists>r. push_for_insert_right tr st p (Suc l) a pa = Some r \<and>
    (case r of
       Inl st1 \<Rightarrow> \<exists>rs1. length rs1 = length rs \<and> moved tr 1 l st p ((pa, ls, k, rs) # z) a cs st1 p ((pa, ls, k, rs1) # z) a cs
     | Inr (st1, p1) \<Rightarrow> \<exists>z1 a1 cs1. length z1 = Suc (length z) \<and> width z1 = Suc (length ls + length rs) \<and>
         moved tr 1 l st p ((pa, ls, k, rs) # z) a cs st1 p1 z1 a1 cs1)"
proof -
  let ?fs = "tr_fs tr"
  note sb = node_state_blocks [OF s]
  obtain pb where pb: "ct_bufs st pa = Some pb" using sb(3) by (auto simp: node_at_def block_at_def)
  note rd0 = read_slot_child [OF sb(3,5) pb]
  have stay: ?thesis if "push_for_insert_right tr st p (Suc l) a pa = Some (Inl st)"
    using that moved_refl [OF s] by auto
  show ?thesis
  proof (cases rs)
    case Nil
    then have "read_slot st pb (int (w_slots p (Suc (Suc l))) + 1) = Inl 0" using rd0(2) [of "int (length ls) + 1"] sb(7) by simp
    then show ?thesis by (intro stay) (simp add: push_for_insert_right_def pb)
  next
    case (Cons x B)
    obtain k2 t2 where x: "x = (k2, t2)" by (cases x)
    have "stored ?fs (ct_bufs st) (Suc l) t2" using sb(5) Cons x by simp
    then obtain ra ys where t2: "t2 = ANode ra ys" "node_at ?fs (ct_bufs st) (Suc l) ra ys" by (auto simp: stored_Suc)
    then obtain rb where rb: "ct_bufs st ra = Some rb" by (auto simp: node_at_def block_at_def)
    note nr = node_block [OF t2(2) rb]
    have rd: "read_slot st pb (int (w_slots p (Suc (Suc l))) + 1) = Inr ra"
      using rd0(1) [of "Suc (length ls)"] sb(7) Cons x t2(1) by (simp add: nth_append add.commute)
    show ?thesis
    proof (cases "length ys \<ge> u32_sub (BTRFS_NODEPTRS_PER_BLOCK ?fs) 1")
      case True
      then show ?thesis using rd rb nr(3) by (intro stay) (simp add: push_for_insert_right_def pb)
    next
      case False
      obtain a2 st1 where c: "btrfs_cow_block tr st ra (Some pa) (Suc (length ls)) = Some (0, a2, st1)"
        and mv: "moved tr 1 l st p ((pa, ls, k, rs) # z) a cs st1 p ((pa, ls, k, (k2, ANode a2 ys) # B) # z) a cs"
        using cow_right [OF tr s [unfolded Cons x] pool] t2(1) Cons x by auto
      let ?z1 = "(pa, ls, k, (k2, ANode a2 ys) # B) # z"
      have s1: "node_state tr st1 p l ?z1 a cs" using mv by (simp add: moved_def)
      note sb1 = node_state_blocks [OF s1]
      note T = sb1(1) and K = sb1(2)
      have n2: "node_at ?fs (ct_bufs st1) (Suc l) a2 ys" using sb1(5) by simp
      obtain pb1 right mid where bl: "ct_bufs st1 pa = Some pb1" "ct_bufs st1 a = Some mid" "ct_bufs st1 a2 = Some right"
        using sb1(3,4) n2 by (auto simp: node_at_def block_at_def)
      note nb1 = node_block [OF sb1(4) bl(2)] and nb2 = node_block [OF n2 bl(3)]
      obtain wret right1 mid1 where pu: "balance_node_right ?fs right mid = (wret, right1, mid1)" by (metis prod_cases3)
      have eq: "push_for_insert_right tr st p (Suc l) a pa =
        (if wret \<noteq> 0 then Some (Inl st1)
         else do {
           let st2 = put (put st1 right1) mid1;
           parent2 \<leftarrow> ct_bufs st2 pa;
           let st3 = put st2 (btrfs_set_node_key parent2 (btrfs_node_key right1 0) (Suc (length ls)));
               orig_slot = w_slots p (Suc l)
           in Some (Inr (st3, if hdr_nritems mid1 \<le> orig_slot then move_path p (Suc l) a2 (orig_slot - hdr_nritems mid1) (Suc (length ls))
                              else p)) })"
        using rd False rb nr(3) c bl pu sb(7) Cons by (simp add: push_for_insert_right_def pb Let_def)
      show ?thesis
      proof (cases "wret = 0")
        case False
        then show ?thesis using eq mv Cons by (auto intro!: exI [of _ "(k2, ANode a2 ys) # B"])
      next
        case True
        note pl = balance_node_right_ok [OF pu]
        have ptrs: "node_ptrs mid1 @ node_ptrs right1 = node_ptrs mid @ node_ptrs right"
          and cnt: "hdr_nritems right1 \<le> BTRFS_NODEPTRS_PER_BLOCK ?fs" "0 < hdr_nritems mid1" "hdr_nritems mid1 < hdr_nritems mid"
          using pl True by auto
        note fr = node_frame_ops(2) [OF pu]
        have sum: "hdr_nritems mid1 + hdr_nritems right1 = length cs + length ys" using arg_cong [OF ptrs, of length] nb1(3) nb2(3) by simp
        define W n where "W = cs @ ys" and "n = hdr_nritems mid1"
        let ?ys = "drop n W" and ?xs = "take n W"
        have paneq: "pa \<noteq> a2" "pa \<noteq> a" "a \<noteq> a2" using tree_atD(4) [OF T] by auto
        have st: "eb_start right1 = a2" "eb_start mid1 = a"
          using node_frame_simps(1) [of right right1] node_frame_simps(1) [of mid mid1] fr nb1(1) nb2(1) by (auto simp: block_at_def)
        let ?st3 = "put (put (put st1 mid1) right1) (btrfs_set_node_key pb1 (btrfs_node_key right1 0) (Suc (length ls)))"
        have "0 < hdr_nritems right1" "hdr_nritems mid1 \<le> BTRFS_NODEPTRS_PER_BLOCK ?fs" using sum cnt nb1(3,4) by simp_all
        then have np: "tree_at tr ?st3 (Suc (Suc l)) z (ANode pa (ls @ (k, ANode a ?xs) # (fst (hd ?ys), ANode a2 ?ys) # B))"
          "keyed (zip_up z (ANode pa (ls @ (k, ANode a ?xs) # (fst (hd ?ys), ANode a2 ?ys) # B)))"
          "uses ?st3 (zip_up z (ANode pa (ls @ (k, ANode a ?xs) # (fst (hd ?ys), ANode a2 ?ys) # B))) =
             uses st1 (zip_up z (ANode pa (ls @ (k, ANode a cs) # (k2, ANode a2 ys) # B)))" "length ?ys = hdr_nritems right1" "n \<le> length W"
          using node_pair_ok [OF T K bl, of mid1 right1] fr ptrs cnt by (simp_all add: W_def n_def)
        let ?i = "w_slots p (Suc l)"
        have iW: "?i < length cs" "?i < length W" using s1 by (simp_all add: W_def node_state_def)
        let ?p1 = "if n \<le> ?i then move_path p (Suc l) a2 (?i - n) (Suc (length ls)) else p"
        have res: "push_for_insert_right tr st p (Suc l) a pa = Some (Inr (?st3, ?p1))"
          using eq True bl paneq st put_swap [of right1 mid1 st1] by (simp add: n_def Let_def)
        have old: "zip_before ?z1 @ cs_items (take ?i cs) = zip_before z @ cs_items ls @ cs_items (take ?i W)"
          "cs_items (drop (Suc ?i) cs) @ zip_after ?z1 = cs_items (drop (Suc ?i) W) @ cs_items B @ zip_after z" "cs ! ?i = W ! ?i"
          using place_left(1) [where n = "length cs" and i = ?i and W = W] place_left(2,3) [where n = "length cs" and i = ?i and W = W and pa = pa and A = ls and ?k1.0 = k and ?a2.0 = a2 and ?k2.0 = k2 and B = B and z = z] iW by (simp_all add: W_def nth_append)
        have pool1: "ct_pool ?st3 = ct_pool st1" "ct_info ?st3 = ct_info st1" by simp_all
        have finish: ?thesis if "moved tr 0 l st1 p ?z1 a cs ?st3 ?p1 z2 a' cs'" "length z2 = Suc (length z)" "width z2 = Suc (length ls + length rs)" for z2 a' cs'
        proof (rule exI [of _ "Inr (?st3, ?p1)"], unfold sum.case prod.case, intro conjI exI)
          show "moved tr 1 l st p ((pa, ls, k, rs) # z) a cs ?st3 ?p1 z2 a' cs'" using moved_trans [OF mv that(1)] by simp
        qed (use that res in simp_all)
        show ?thesis
        proof (cases "n \<le> ?i")
          case True
          let ?z2 = "(pa, ls @ [(k, ANode a ?xs)], fst (hd ?ys), B) # z"
          have "node_state tr ?st3 ?p1 l ?z2 a2 ?ys"
            using True np(1,2) sb1(6,8) iW by (simp add: node_state_def tree_at_def)
          moreover have "same_place ?z1 cs ?i ?z2 ?ys (w_slots ?p1 (Suc l))"
            using True place_right(1) [where n = n and i = ?i and W = W] place_right(2,3) [where n = n and i = ?i and W = W and pa = pa and A = ls and ?k1.0 = k and ?a1.0 = a and ?k2.0 = "fst (hd ?ys)" and B = B and z = z] old iW by (simp add: same_place_def)
          ultimately have "moved tr 0 l st1 p ?z1 a cs ?st3 ?p1 ?z2 a2 ?ys"
            using np(3) pool1 True by (simp add: moved_def)
          from finish [OF this] Cons show ?thesis by simp
        next
          case False
          let ?z2 = "(pa, ls, k, (fst (hd ?ys), ANode a2 ?ys) # B) # z"
          have "node_state tr ?st3 ?p1 l ?z2 a ?xs"
            using False np(1,2,5) sb1(6-8) s1 by (simp add: node_state_def tree_at_def)
          moreover have "same_place ?z1 cs ?i ?z2 ?xs (w_slots ?p1 (Suc l))"
            using False place_left(1) [where n = n and i = ?i and W = W] place_left(2,3) [where n = n and i = ?i and W = W and pa = pa and A = ls and ?k1.0 = k and ?a2.0 = a2 and ?k2.0 = "fst (hd ?ys)" and B = B and z = z] np(5) old by (simp add: same_place_def)
          ultimately have "moved tr 0 l st1 p ?z1 a cs ?st3 ?p1 ?z2 a ?xs"
            using np(3) pool1 False by (simp add: moved_def)
          from finish [OF this] Cons show ?thesis by simp
        qed
      qed
    qed
  qed
qed

end
