(* ===== verification/TreeSplit.thy ===== *)
theory TreeSplit
  imports TreePush
begin

text \<open>Making room in a node: a new root, a new neighbour, and \<open>split_node\<close> as a whole.\<close>

section \<open>New blocks\<close>

lemma init_header_simps [simp]:
  "eb_start (init_header tr b l) = eb_start b" "eb_len (init_header tr b l) = eb_len b" "hdr_level (init_header tr b l) = l"
  "hdr_generation (init_header tr b l) = transid tr" "hdr_owner (init_header tr b l) = root_objectid tr" "hdr_nritems (init_header tr b l) = 0"
  by (simp_all add: init_header_def btrfs_set_header_backref_rev_def)

text \<open>A pointer to a new child goes into the node that the path has at level \<open>Suc l\<close>.\<close>

lemma insert_child:
  assumes t: "tree_at tr st (Suc l) z (ANode pa (A @ B))" and pool: "ct_pool st = x # ct_pool st2"
    and pb: "ct_bufs st pa = Some pb" "ct_bufs st2 pa = Some pb"
    and calls: "freed (ct_calls st2) = freed (ct_calls st)" "ct_node st2 = ct_node st"
    and fr: "\<And>y. y \<in> set (ctx_addrs z) \<Longrightarrow> ct_bufs st2 y = ct_bufs st y"
    and p: "map (ptr_to (ct_bufs st2)) A' = map (ptr_to (ct_bufs st)) A" "map (ptr_to (ct_bufs st2)) B' = map (ptr_to (ct_bufs st)) B"
    and c: "t_addr c = x" "gen (ct_bufs st2) x = transid tr"
    and s: "\<forall>y\<in>set (A' @ (k, c) # B'). stored (tr_fs tr) (ct_bufs st2) l (snd y)"
    and a: "mset (cs_addrs (A' @ (k, c) # B')) = add_mset x (mset (cs_addrs (A @ B)))"
    and n: "length (A @ B) < BTRFS_NODEPTRS_PER_BLOCK (tr_fs tr)" and q: "w_nodes q (Suc l) = Some pa" "Suc l < BTRFS_MAX_LEVEL"
  shows "\<exists>st3. path_insert_ptr tr st2 q k x (length A) (Suc l) = Some st3 \<and> tree_at tr st3 (Suc l) z (ANode pa (A' @ (k, c) # B')) \<and>
    uses st3 (zip_up z (ANode pa (A' @ (k, c) # B'))) = uses st (zip_up z (ANode pa (A @ B))) \<and> ct_pool st3 = ct_pool st2 \<and> ct_info st3 = ct_info st2"
proof -
  let ?fs = "tr_fs tr" and ?m = "ct_bufs st" and ?cs = "A' @ (k, c) # B'"
  note d = tree_atD [OF t]
  have n0: "node_at ?fs ?m (Suc l) pa (A @ B)" using d(1) by simp
  note nb = node_block [OF n0 pb(1)]
  obtain pb1 where i: "insert_ptr ?fs (transid tr) pb k x (length A) = Some pb1"
    "node_ptrs pb1 = take (length A) (node_ptrs pb) @ \<lparr>kp_key = k, kp_blockptr = x, kp_generation = transid tr\<rparr> # drop (length A) (node_ptrs pb)"
    using insert_ptr_ok [of "length A" pb ?fs "transid tr" k x] nb(3) n by auto
  note f = node_frame_ops(4) [OF i(1)]
  have st1: "eb_start pb1 = pa" "hdr_generation pb1 = hdr_generation pb" using node_frame_simps [OF f] nb(1) by (simp_all add: block_at_def)
  have len: "length A' = length A" "length B' = length B" using arg_cong [OF p(1), of length] arg_cong [OF p(2), of length] by simp_all
  have ptrs: "node_ptrs pb1 = map (ptr_to (ct_bufs st2)) ?cs" using i(2) nb(2) p c by (simp add: ptr_to_def)
  have "pa \<noteq> x" "pa \<notin> set (cs_addrs (A @ B))" using d(4) pool by auto
  then have pan: "pa \<notin> set (cs_addrs ?cs)" using arg_cong [OF a, of set_mset] by auto
  let ?st3 = "put st2 pb1"
  have "block_at ?fs (ct_bufs st2) (Suc l) pa pb" using nb(1) pb(2) by (simp add: block_at_def)
  then have sto: "stored ?fs (ct_bufs ?st3) (Suc l) (ANode pa ?cs)"
  proof (rule node_stored [OF _ f])
    show "ct_bufs ?st3 y = ct_bufs st2 y" if "y \<in> set (cs_addrs ?cs)" for y using that pan st1(1) by auto
  qed (use ptrs s n len st1 in auto)
  have u: "uses ?st3 (zip_up z (ANode pa ?cs)) = uses st (zip_up z (ANode pa (A @ B)))"
  proof (rule uses_zip)
    have "mset (t_addrs (ANode pa ?cs)) = add_mset pa (add_mset x (mset (cs_addrs (A @ B))))" using a by simp
    then show "mset (t_addrs (ANode pa ?cs)) + mset (ct_pool ?st3) + mset (freed (ct_calls ?st3)) =
        mset (t_addrs (ANode pa (A @ B))) + mset (ct_pool st) + mset (freed (ct_calls st))"
      using pool calls by simp
  qed
  have "tree_at tr ?st3 (Suc l) z (ANode pa ?cs)"
  proof (rule tree_at_replace [OF t sto])
    show "gen (ct_bufs ?st3) (t_addr (ANode pa (A @ B))) = gen ?m (t_addr (ANode pa (A @ B)))" using st1 pb(1) by (simp add: gen_def)
    show "ct_bufs ?st3 b = ?m b" if "b \<in> set (ctx_addrs z)" for b
    proof -
      have "b \<noteq> pa" using that d(4) by auto
      then show ?thesis using fr [OF that] st1 by simp
    qed
  qed (use calls u in simp_all)
  moreover have "path_insert_ptr tr st2 q k x (length A) (Suc l) = Some ?st3" using i(1) q pb(2) by (simp add: path_insert_ptr_def)
  ultimately show ?thesis using u by auto
qed

section \<open>A new root\<close>

lemma first_key_block:
  assumes s: "stored fs (ct_bufs st) l t" and b: "ct_bufs st (t_addr t) = Some b" and k: "keyed t" and ne: "t_items t \<noteq> []"
  shows "(if l = 0 then btrfs_item_key b 0 else btrfs_node_key b 0) = fst (hd (t_items t))"
proof (cases l)
  case 0
  then obtain a xs where t: "t = ALeaf a xs" "leaf_at fs (ct_bufs st) a xs" using s by (auto simp: stored_0)
  then have "leaf_ctx fs b xs" using b by (auto simp: leaf_at_def block_at_def)
  then show ?thesis using first_key [of fs b xs] ne t(1) 0 by simp
next
  case (Suc l')
  then obtain a cs where t: "t = ANode a cs" "node_at fs (ct_bufs st) l a cs" using s by (auto simp: stored_Suc)
  then have p: "node_ptrs b = map (ptr_to (ct_bufs st)) cs" using b node_block(2) by simp
  have "cs \<noteq> []" "\<forall>x\<in>set cs. child_ok x" using k t(1) by (auto simp: keyed_node)
  moreover then have "btrfs_node_key b 0 = fst (hd cs)" using node_key_nth [OF p, of 0] by (simp add: hd_conv_nth)
  ultimately show ?thesis using cs_items_first [of cs] Suc t(1) by simp
qed

lemma insert_new_root_ok:
  assumes tr: "trans_ok tr" and t: "tree_at tr st l [] t" and k: "keyed t" and ne: "t_items t \<noteq> []" and pool: "ct_pool st = x # pool"
    and p: "on_path p l []" "w_nodes p l = Some (t_addr t)" and l: "Suc l < BTRFS_MAX_LEVEL"
  shows "\<exists>st1. insert_new_root tr st p (Suc l) = Some (0, st1, set_slot (set_node p (Suc l) x) (Suc l) 0) \<and>
    tree_at tr st1 l [(x, [], fst (hd (t_items t)), [])] t \<and> keyed (zip_up [(x, [], fst (hd (t_items t)), [])] t) \<and>
    uses st1 (zip_up [(x, [], fst (hd (t_items t)), [])] t) = uses st t \<and> ct_pool st1 = pool \<and> ct_info st1 = ct_info st"
proof -
  let ?fs = "tr_fs tr" and ?m = "ct_bufs st" and ?k = "fst (hd (t_items t))"
  note d = tree_atD [OF t]
  obtain b where b: "block_at ?fs ?m l (t_addr t) b" using stored_block [OF d(1)] .
  then have b': "?m (t_addr t) = Some b" "eb_start b = t_addr t" by (auto simp: block_at_def)
  have key: "(if Suc l = 1 then btrfs_item_key b 0 else btrfs_node_key b 0) = ?k" using first_key_block [OF d(1) b'(1) k ne] by simp
  have root: "ct_node st = t_addr t" using d(3) by simp
  define new where "new = (raw_block tr x)\<lparr>eb_start := x, eb_len := nodesize ?fs\<rparr>"
  define st1 where "st1 = st\<lparr>ct_pool := pool, ct_calls := ct_calls st @ [AllocBlock x (Suc l) ?k (t_addr t)]\<rparr>"
  define c4 where "c4 = btrfs_set_node_ptr_generation (btrfs_set_node_blockptr (btrfs_set_node_key ((init_header tr new (Suc l))\<lparr>hdr_nritems := Suc 0\<rparr>) ?k 0) 0 (t_addr t)) 0 (hdr_generation b)"
  let ?st = "(put st1 c4)\<lparr>ct_node := x\<rparr>"
  have al: "alloc_block tr st (Suc l) ?k (t_addr t) = (Inr new, st1)" using alloc_Cons [OF pool] by (simp add: new_def st1_def)
  have x: "eb_start c4 = x" "hdr_level c4 = Suc l" "eb_len c4 = nodesize ?fs" "hdr_owner c4 = root_objectid tr" by (simp_all add: c4_def node_defs new_def)
  have res: "insert_new_root tr st p (Suc l) = Some (0, ?st, set_slot (set_node p (Suc l) x) (Suc l) 0)"
    using p l b' key al root x(1) by (simp add: insert_new_root_def Let_def flip: c4_def)
  have xn: "x \<notin> set (t_addrs t)" using d(4) pool by auto
  then have "x \<noteq> t_addr t" using t_addr_in by metis
  have fr: "ct_bufs ?st y = ?m y" if "y \<in> set (t_addrs t)" for y
  proof -
    have "y \<noteq> x" using that xn by auto
    then show ?thesis using x(1) by (simp add: st1_def)
  qed
  have "node_ptrs c4 = [ptr_to (ct_bufs ?st) (?k, t)]"
    using b' fr [of "t_addr t"] by (intro node_ptrsI) (auto simp: c4_def node_defs ptr_to_def gen_def)
  moreover have "block_at ?fs (ct_bufs ?st) (Suc l) x c4" using x trans_okD(3) [OF tr] by (simp add: block_at_def)
  ultimately have "node_at ?fs (ct_bufs ?st) (Suc l) x [(?k, t)]" using trans_okD(4) [OF tr] by (auto simp: node_at_def)
  moreover have "stored ?fs (ct_bufs ?st) l t" using d(1) fr by (rule stored_frame)
  ultimately have sto: "stored ?fs (ct_bufs ?st) (Suc l) (ANode x [(?k, t)])" by simp
  have u: "uses ?st (zip_up [(x, [], ?k, [])] t) = uses st t" using pool by (simp add: uses_def st1_def)
  have "tree_at tr ?st l [(x, [], ?k, [])] t"
    using sto uses_distinct [OF u] t by (simp add: tree_at_def)
  moreover have "keyed (zip_up [(x, [], ?k, [])] t)" using k ne by (simp add: keyed_node child_ok_def)
  ultimately show ?thesis using res u by (auto simp: st1_def)
qed

section \<open>Splitting a node\<close>

lemma cs_split: "cs_addrs (take n cs) @ cs_addrs (drop n cs) = cs_addrs cs" "cs_items (take n cs) @ cs_items (drop n cs) = cs_items cs"
  by (metis append_take_drop_id concat_append map_append)+

lemma split_children:
  assumes "child_ok (k, ANode a cs)" and "0 < n" and "n < length cs"
  shows "child_ok (k, ANode a' (take n cs))" "child_ok (fst (cs ! n), ANode b (drop n cs))"
proof -
  have c: "cs \<noteq> []" "\<forall>x\<in>set cs. child_ok x" "k = fst (hd cs)" using assms(1) cs_items_first [of cs] by (auto simp: child_ok_def keyed_node)
  have "take n cs \<noteq> []" "drop n cs \<noteq> []" using assms(2,3) c(1) by auto
  moreover have "\<forall>x\<in>set (take n cs). child_ok x" "\<forall>x\<in>set (drop n cs). child_ok x" using c(2) by (auto dest: in_set_takeD in_set_dropD)
  ultimately show "child_ok (k, ANode a' (take n cs))" "child_ok (fst (cs ! n), ANode b (drop n cs))"
    using child_ok_node [of "take n cs" a'] child_ok_node [of "drop n cs" b] c(3) assms(2,3) by (simp_all add: hd_drop_conv_nth)
qed

lemma split_node_at_ok:
  assumes tr: "trans_ok tr" and s: "node_state tr st p l ((pa, ls, k, rs) # z) a cs" and pool: "ct_pool st \<noteq> []"
    and n: "2 \<le> length cs" and w: "Suc (length ls + length rs) < BTRFS_NODEPTRS_PER_BLOCK (tr_fs tr)" and l: "Suc (Suc l) < BTRFS_MAX_LEVEL"
  shows "\<exists>st1 p1 z1 a1 cs1. split_node_at tr st p (Suc l) = Some (0, st1, p1) \<and> moved tr 1 l st p ((pa, ls, k, rs) # z) a cs st1 p1 z1 a1 cs1 \<and>
    length z1 = Suc (length z) \<and> width z1 = Suc (Suc (length ls + length rs)) \<and> length cs1 \<le> (length cs + 1) div 2"
proof -
  let ?fs = "tr_fs tr" and ?m = "ct_bufs st"
  note sb = node_state_blocks [OF s]
  obtain x pool' where pl: "ct_pool st = x # pool'" using pool by (cases "ct_pool st") auto
  obtain pb c where bl: "?m pa = Some pb" "?m a = Some c" using sb(3,4) by (auto simp: node_at_def block_at_def)
  note nb = node_block [OF sb(4) bl(2)]
  define mid where "mid = (length cs + 1) div 2"
  have mid: "0 < mid" "mid < length cs" using n by (auto simp: mid_def)
  let ?xs = "take mid cs" and ?ys = "drop mid cs" and ?k = "fst (cs ! mid)"
  have key: "btrfs_node_key c mid = ?k" using node_key_nth [OF nb(2) mid(2)] .
  define new where "new = (raw_block tr x)\<lparr>eb_start := x, eb_len := nodesize ?fs\<rparr>"
  define st1 where "st1 = st\<lparr>ct_pool := pool', ct_calls := ct_calls st @ [AllocBlock x (Suc l) ?k a]\<rparr>"
  have al: "alloc_block tr st (Suc l) ?k a = (Inr new, st1)" using alloc_Cons [OF pl] by (simp add: new_def st1_def)
  let ?new = "init_header tr new (Suc l)"
  obtain c1 sp1 where sp: "split_node_ptrs c ?new = (c1, sp1)" by fastforce
  note so = split_node_ptrs_ok [OF sp, unfolded nb(3)] and fr = node_frame_ops(3) [OF sp]
  note f1 = node_frame_simps [OF conjunct1 [OF fr]] and f2 = node_frame_simps [OF conjunct2 [OF fr]]
  have p1: "node_ptrs c1 = map (ptr_to ?m) ?xs"
    using arg_cong [OF so(1), of "take mid"] so(2) nb(2) by (simp add: take_map mid_def)
  have p2: "node_ptrs sp1 = map (ptr_to ?m) ?ys"
    using arg_cong [OF so(1), of "drop mid"] so(2) nb(2) by (simp add: drop_map mid_def)
  have st: "eb_start c1 = a" "eb_start sp1 = x" "hdr_generation c1 = hdr_generation c" using f1 f2 nb(1) by (simp_all add: block_at_def new_def)
  note d = tree_atD [OF sb(1)]
  have dis: "x \<noteq> a" "x \<noteq> pa" "pa \<noteq> a" "x \<notin> set (cs_addrs cs @ cs_addrs ls @ cs_addrs rs @ ctx_addrs z)"
    "a \<notin> set (cs_addrs cs @ cs_addrs ls @ cs_addrs rs @ ctx_addrs z)"
    using d(4) pl by auto
  define st2 where "st2 = put (put st1 c1) sp1"
  have m2: "ct_bufs st2 y = (if y = x then Some sp1 else if y = a then Some c1 else ?m y)" for y using st by (simp add: st2_def st1_def)
  have fr2: "ct_bufs st2 y = ?m y" if "y \<in> set (cs_addrs cs @ cs_addrs ls @ cs_addrs rs @ ctx_addrs z)" for y
    using that dis(4,5) by (metis m2)
  have sub: "set (cs_addrs ?xs) \<subseteq> set (cs_addrs cs)" "set (cs_addrs ?ys) \<subseteq> set (cs_addrs cs)" by (auto dest: in_set_takeD in_set_dropD)
  have ch: "\<forall>y\<in>set cs. stored ?fs ?m l (snd y)" using sb(5) by simp
  have s1: "stored ?fs (ct_bufs st2) (Suc l) (ANode a ?xs)"
  proof (rule node_stored [OF nb(1) conjunct1 [OF fr]])
    show "ct_bufs st2 y = ?m y" if "y \<in> set (cs_addrs ?xs)" for y
      by (rule fr2) (use that sub(1) in simp, blast)
  qed (use p1 nb(4) mid ch dis in \<open>auto simp: m2 dest: in_set_takeD\<close>)
  have s2: "stored ?fs (ct_bufs st2) (Suc l) (ANode x ?ys)"
  proof -
    have "map (ptr_to (ct_bufs st2)) ?ys = map (ptr_to ?m) ?ys"
      using fr2 sub addr_in_cs [of _ ?ys] by (fastforce simp: ptr_to_def intro!: gen_cong)
    moreover have "block_at ?fs (ct_bufs st2) (Suc l) x sp1" using f2 st(2) trans_okD(3) [OF tr] by (simp add: block_at_def m2 new_def)
    ultimately have "node_at ?fs (ct_bufs st2) (Suc l) x ?ys" using p2 nb(4) by (auto simp: node_at_def)
    moreover have "\<forall>y\<in>set ?ys. stored ?fs (ct_bufs st2) l (snd y)"
    proof (rule stored_frame_cs)
      show "\<forall>y\<in>set ?ys. stored ?fs ?m l (snd y)" using ch by (auto dest: in_set_dropD)
      show "ct_bufs st2 y = ?m y" if "y \<in> set (cs_addrs ?ys)" for y
        by (rule fr2) (use that sub(2) in simp, blast)
    qed
    ultimately show ?thesis by simp
  qed
  have pm: "map (ptr_to (ct_bufs st2)) (ls @ [(k, ANode a ?xs)]) = map (ptr_to ?m) (ls @ [(k, ANode a cs)])" "map (ptr_to (ct_bufs st2)) rs = map (ptr_to ?m) rs"
  proof -
    have "gen (ct_bufs st2) a = gen ?m a" using st(3) dis(1) bl(2) by (simp add: gen_def m2)
    moreover have "ct_bufs st2 (t_addr (snd y)) = ?m (t_addr (snd y))" if "y \<in> set ls \<or> y \<in> set rs" for y
      using that addr_in_cs [of y ls] addr_in_cs [of y rs] fr2 [of "t_addr (snd y)"] by auto
    ultimately show "map (ptr_to (ct_bufs st2)) (ls @ [(k, ANode a ?xs)]) = map (ptr_to ?m) (ls @ [(k, ANode a cs)])" "map (ptr_to (ct_bufs st2)) rs = map (ptr_to ?m) rs"
      by (auto simp: ptr_to_def intro!: gen_cong)
  qed
  have ms: "mset (cs_addrs ((ls @ [(k, ANode a ?xs)]) @ (?k, ANode x ?ys) # rs)) = add_mset x (mset (cs_addrs ((ls @ [(k, ANode a cs)]) @ rs)))"
    using arg_cong [OF cs_split(1) [of mid cs], of mset] by (simp add: ac_simps)
  have "\<exists>st3. path_insert_ptr tr st2 p ?k x (length (ls @ [(k, ANode a cs)])) (Suc (Suc l)) = Some st3 \<and>
      tree_at tr st3 (Suc (Suc l)) z (ANode pa ((ls @ [(k, ANode a ?xs)]) @ (?k, ANode x ?ys) # rs)) \<and>
      uses st3 (zip_up z (ANode pa ((ls @ [(k, ANode a ?xs)]) @ (?k, ANode x ?ys) # rs))) = uses st (zip_up z (ANode pa ((ls @ [(k, ANode a cs)]) @ rs))) \<and>
      ct_pool st3 = ct_pool st2 \<and> ct_info st3 = ct_info st2"
  proof (rule insert_child)
    show "\<forall>y\<in>set ((ls @ [(k, ANode a ?xs)]) @ (?k, ANode x ?ys) # rs). stored ?fs (ct_bufs st2) (Suc l) (snd y)"
    proof -
      have "\<forall>y\<in>set (ls @ rs). stored ?fs (ct_bufs st2) (Suc l) (snd y)"
        by (rule stored_frame_cs [of _ ?fs ?m]) (use sb(5) fr2 in auto)
      with s1 s2 show ?thesis by auto
    qed
    show "ct_bufs st2 y = ?m y" if "y \<in> set (ctx_addrs z)" for y using fr2 [of y] that by simp
    show "gen (ct_bufs st2) x = transid tr" using f2 by (simp add: gen_def m2 new_def)
  qed (use pl sb pm ms l w bl dis in \<open>simp_all add: m2, simp_all add: st2_def st1_def\<close>)
  then obtain st3 where st3: "path_insert_ptr tr st2 p ?k x (Suc (length ls)) (Suc (Suc l)) = Some st3"
    "tree_at tr st3 (Suc (Suc l)) z (ANode pa (ls @ (k, ANode a ?xs) # (?k, ANode x ?ys) # rs))"
    "uses st3 (zip_up z (ANode pa (ls @ (k, ANode a ?xs) # (?k, ANode x ?ys) # rs))) = uses st (zip_up z (ANode pa (ls @ (k, ANode a cs) # rs)))"
    "ct_pool st3 = pool'" "ct_info st3 = ct_info st" by (auto simp: st2_def st1_def)
  have ky: "keyed (zip_up z (ANode pa (ls @ (k, ANode a ?xs) # (?k, ANode x ?ys) # rs)))"
  proof (rule keyed_rewrite [OF sb(2)])
    show "cs_items (ls @ (k, ANode a ?xs) # (?k, ANode x ?ys) # rs) = cs_items (ls @ (k, ANode a cs) # rs)"
      using cs_split(2) [of mid cs] by simp
  qed (use keyed_child(1) [OF sb(2)] split_children(1) [of k a cs mid a] split_children(2) [of k a cs mid x] mid in auto)
  let ?i = "w_slots p (Suc l)"
  let ?p1 = "if mid \<le> ?i then move_path p (Suc l) x (?i - mid) (Suc (length ls)) else p"
  have i: "?i < length cs" and na: "w_nodes p (Suc l) = Some a" using s by (simp_all add: node_state_def)
  have res: "split_node_at tr st p (Suc l) = Some (0, st3, ?p1)"
  proof -
    have "Suc (length cs) div 2 = mid" "hdr_level c = Suc l" using nb(1) by (simp_all add: mid_def block_at_def)
    then show ?thesis using na bl(2) nb(3) key al sp st3(1) sb(7) st by (simp add: split_node_at_def Let_def st2_def)
  qed
  show ?thesis
  proof (cases "mid \<le> ?i")
    case True
    let ?z1 = "(pa, ls @ [(k, ANode a ?xs)], ?k, rs) # z"
    have "node_state tr st3 ?p1 l ?z1 x ?ys" using True st3(2) ky sb(6,8) i by (simp add: node_state_def tree_at_def)
    moreover have "same_place ((pa, ls, k, rs) # z) cs ?i ?z1 ?ys (w_slots ?p1 (Suc l))"
      using True place_right(1) [OF True i] place_right(2,3) [OF True i, where pa = pa and A = ls and ?k1.0 = k and ?a1.0 = a and ?k2.0 = ?k and B = rs and z = z] i
      by (simp add: same_place_def)
    ultimately have "moved tr 1 l st p ((pa, ls, k, rs) # z) a cs st3 ?p1 ?z1 x ?ys" using st3(3-5) True pl by (simp add: moved_def)
    with res show ?thesis by (intro exI [of _ st3] exI [of _ ?p1] exI [of _ ?z1] exI [of _ x] exI [of _ ?ys]) (simp add: mid_def)
  next
    case False
    then have lt: "?i < mid" "mid \<le> length cs" using mid by simp_all
    let ?z1 = "(pa, ls, k, (?k, ANode x ?ys) # rs) # z"
    have "node_state tr st3 ?p1 l ?z1 a ?xs" using False st3(2) ky sb(6-8) i na by (simp add: node_state_def tree_at_def)
    moreover have "same_place ((pa, ls, k, rs) # z) cs ?i ?z1 ?xs (w_slots ?p1 (Suc l))"
      using False place_left(1) [OF lt] place_left(2,3) [OF lt, where pa = pa and A = ls and ?k1.0 = k and ?a2.0 = x and ?k2.0 = ?k and B = rs and z = z] i
      by (simp add: same_place_def)
    ultimately have "moved tr 1 l st p ((pa, ls, k, rs) # z) a cs st3 ?p1 ?z1 a ?xs" using st3(3-5) False pl by (simp add: moved_def)
    with res show ?thesis by (intro exI [of _ st3] exI [of _ ?p1] exI [of _ ?z1] exI [of _ a] exI [of _ ?xs]) (simp add: mid_def)
  qed
qed

section \<open>Room for one more pointer\<close>

lemma node_state_stored: "node_state tr st p l z a cs \<Longrightarrow> stored (tr_fs tr) (ct_bufs st) (Suc l) (ANode a cs)"
  unfolding node_state_def by (blast intro: tree_atD(1))

lemma push_nodes_for_insert_ok:
  assumes tr: "trans_ok tr" and s: "node_state tr st p l ((pa, ls, k, rs) # z) a cs" and pool: "2 \<le> length (ct_pool st)"
  shows "\<exists>r st1 p1 z1 a1 cs1. push_nodes_for_insert tr st p (Suc l) = Some (r, st1, p1) \<and> (r = 0 \<or> r = 1 \<and> cs1 = cs) \<and>
    moved tr 2 l st p ((pa, ls, k, rs) # z) a cs st1 p1 z1 a1 cs1 \<and> length z1 = Suc (length z) \<and> width z1 = Suc (length ls + length rs)"
proof (cases "Suc l < BTRFS_MAX_LEVEL - 1")
  case False
  then show ?thesis using moved_refl [OF s, of 2] s
    by (intro exI [of _ 1] exI [of _ st] exI [of _ p] exI [of _ "(pa, ls, k, rs) # z"] exI [of _ a] exI [of _ cs]) (simp add: push_nodes_for_insert_def)
next
  case True
  note sb = node_state_blocks [OF s]
  have na: "w_nodes p (Suc l) = Some a" using s by (simp add: node_state_def)
  have eq: "push_nodes_for_insert tr st p (Suc l) =
      do { r \<leftarrow> push_for_insert_left tr st p (Suc l) a pa;
           (case r of
              Inr (st1, p1) \<Rightarrow> Some (0, st1, p1)
            | Inl st1 \<Rightarrow>
                do { r1 \<leftarrow> push_for_insert_right tr st1 p (Suc l) a pa;
                     (case r1 of Inr (st2, p2) \<Rightarrow> Some (0, st2, p2) | Inl st2 \<Rightarrow> Some (1, st2, p)) }) }"
    using True na sb(6) by (simp add: push_nodes_for_insert_def)
  have "ct_pool st \<noteq> []" using pool by auto
  from push_for_insert_left_ok [OF tr s this] obtain r where r: "push_for_insert_left tr st p (Suc l) a pa = Some r"
    "case r of
       Inl st1 \<Rightarrow> \<exists>ls1. length ls1 = length ls \<and> moved tr 1 l st p ((pa, ls, k, rs) # z) a cs st1 p ((pa, ls1, k, rs) # z) a cs
     | Inr (st1, p1) \<Rightarrow> \<exists>z1 a1 cs1. length z1 = Suc (length z) \<and> width z1 = Suc (length ls + length rs) \<and>
         moved tr 1 l st p ((pa, ls, k, rs) # z) a cs st1 p1 z1 a1 cs1" by auto
  show ?thesis
  proof (cases r)
    case (Inr x)
    obtain st1 p1 where "x = (st1, p1)" by (cases x)
    with Inr r obtain z1 a1 cs1 where "push_nodes_for_insert tr st p (Suc l) = Some (0, st1, p1)" "length z1 = Suc (length z)"
      "width z1 = Suc (length ls + length rs)" "moved tr 1 l st p ((pa, ls, k, rs) # z) a cs st1 p1 z1 a1 cs1" by (auto simp: eq)
    moreover then have "moved tr 2 l st p ((pa, ls, k, rs) # z) a cs st1 p1 z1 a1 cs1" by (simp add: moved_def)
    ultimately show ?thesis by blast
  next
    case (Inl st1)
    with r obtain ls1 where ls1: "length ls1 = length ls" "moved tr 1 l st p ((pa, ls, k, rs) # z) a cs st1 p ((pa, ls1, k, rs) # z) a cs" by auto
    then have s1: "node_state tr st1 p l ((pa, ls1, k, rs) # z) a cs" "ct_pool st1 \<noteq> []" using pool by (auto simp: moved_def)
    from push_for_insert_right_ok [OF tr s1] obtain r1 where r1: "push_for_insert_right tr st1 p (Suc l) a pa = Some r1"
      "case r1 of
         Inl st2 \<Rightarrow> \<exists>rs1. length rs1 = length rs \<and> moved tr 1 l st1 p ((pa, ls1, k, rs) # z) a cs st2 p ((pa, ls1, k, rs1) # z) a cs
       | Inr (st2, p2) \<Rightarrow> \<exists>z1 a1 cs1. length z1 = Suc (length z) \<and> width z1 = Suc (length ls1 + length rs) \<and>
           moved tr 1 l st1 p ((pa, ls1, k, rs) # z) a cs st2 p2 z1 a1 cs1" by auto
    have step: "moved tr 2 l st p ((pa, ls, k, rs) # z) a cs st2 p2 z1 a1 cs1"
      if "moved tr 1 l st1 p ((pa, ls1, k, rs) # z) a cs st2 p2 z1 a1 cs1" for st2 p2 z1 a1 cs1
      using moved_trans [OF ls1(2) that] by simp
    show ?thesis
    proof (cases r1)
      case (Inr x)
      obtain st2 p2 where x: "x = (st2, p2)" by (cases x)
      have "push_nodes_for_insert tr st p (Suc l) = Some (0, st2, p2)" using Inr x Inl r(1) r1(1) by (simp add: eq)
      moreover obtain z1 a1 cs1 where "length z1 = Suc (length z)" "width z1 = Suc (length ls + length rs)"
        "moved tr 1 l st1 p ((pa, ls1, k, rs) # z) a cs st2 p2 z1 a1 cs1" using Inr x r1(2) ls1(1) by auto
      ultimately show ?thesis using step by blast
    next
      case (Inl st2)
      then have "push_nodes_for_insert tr st p (Suc l) = Some (1, st2, p)" using \<open>r = Inl st1\<close> r(1) r1(1) by (simp add: eq)
      moreover obtain rs1 where "length rs1 = length rs" "moved tr 1 l st1 p ((pa, ls1, k, rs) # z) a cs st2 p ((pa, ls1, k, rs1) # z) a cs"
        using Inl r1(2) by auto
      moreover then have "width ((pa, ls1, k, rs1) # z) = Suc (length ls + length rs)" "length ((pa, ls1, k, rs1) # z) = Suc (length z)"
        using ls1(1) by simp_all
      ultimately show ?thesis using step by blast
    qed
  qed
qed

text \<open>The node that the path stands on after \<open>split_node\<close> has room for three more pointers.\<close>

lemma split_node_ok:
  assumes tr: "trans_ok tr" and s: "node_state tr st p l z a cs" and pool: "3 \<le> length (ct_pool st)"
    and n: "2 \<le> length cs" and w: "width z < BTRFS_NODEPTRS_PER_BLOCK (tr_fs tr)" and l: "Suc (Suc l) < BTRFS_MAX_LEVEL"
  shows "\<exists>st1 p1 z1 a1 cs1. split_node tr st p (Suc l) = Some (0, st1, p1) \<and> moved tr 3 l st p z a cs st1 p1 z1 a1 cs1 \<and>
    length z1 = max 1 (length z) \<and> width z1 \<le> max 2 (Suc (width z)) \<and> int (length cs1) < int (BTRFS_NODEPTRS_PER_BLOCK (tr_fs tr)) - 3"
proof -
  let ?N = "BTRFS_NODEPTRS_PER_BLOCK (tr_fs tr)"
  have t: "tree_at tr st (Suc l) z (ANode a cs)" and na: "w_nodes p (Suc l) = Some a" using s by (simp_all add: node_state_def)
  note N = trans_okD(4) [OF tr]
  have N3: "u32_sub ?N 3 = ?N - 3" using node_limit [OF tr, of 3] by simp
  have le: "length cs \<le> ?N" if "node_state tr st p l z a cs" for st p z a cs
    using node_state_stored [OF that] by (auto simp: node_at_def)
  show ?thesis
  proof (cases z)
    case Nil
    obtain x pool' where pl: "ct_pool st = x # pool'" using pool by (cases "ct_pool st") auto
    have "keyed (ANode a cs)" using s Nil by (simp add: node_state_def)
    then have ne: "t_items (ANode a cs) \<noteq> []" using cs_items_first [of cs] by (auto simp: keyed_node)
    let ?z0 = "[(x, [], fst (hd (t_items (ANode a cs))), [])]" and ?p0 = "set_slot (set_node p (Suc (Suc l)) x) (Suc (Suc l)) 0"
    obtain st0 where r: "insert_new_root tr st p (Suc (Suc l)) = Some (0, st0, ?p0)" "tree_at tr st0 (Suc l) ?z0 (ANode a cs)"
      "keyed (zip_up ?z0 (ANode a cs))" "uses st0 (zip_up ?z0 (ANode a cs)) = uses st (ANode a cs)" "ct_pool st0 = pool'" "ct_info st0 = ct_info st"
      using insert_new_root_ok [OF tr, of st "Suc l" "ANode a cs" x pool' p] t s ne pl l Nil by (auto simp: node_state_def simp del: t_items.simps)
    have s0: "node_state tr st0 ?p0 l ?z0 a cs" using s r(2,3) Nil by (auto simp: node_state_def)
    then have m0: "moved tr 1 l st p z a cs st0 ?p0 ?z0 a cs" using r(4-6) Nil pl by (simp add: moved_def same_place_def node_state_def)
    have "ct_pool st0 \<noteq> []" using r(5) pl pool by auto
    from split_node_at_ok [OF tr s0 this] obtain st1 p1 z1 a1 cs1 where
      "split_node_at tr st0 ?p0 (Suc l) = Some (0, st1, p1)" "length z1 = 1" "width z1 = 2" "length cs1 \<le> (length cs + 1) div 2"
      "moved tr 1 l st0 ?p0 ?z0 a cs st1 p1 z1 a1 cs1" using n l N by auto
    moreover then have "moved tr 3 l st p z a cs st1 p1 z1 a1 cs1" using moved_trans [OF m0] by simp
    moreover have "ct_node st = a" using tree_atD(3) [OF t] Nil by simp
    ultimately show ?thesis using le [OF s] N na r(1) Nil
      by (intro exI [of _ st1] exI [of _ p1] exI [of _ z1] exI [of _ a1] exI [of _ cs1]) (auto simp: split_node_def)
  next
    case (Cons f z0)
    obtain pa ls k rs where f: "f = (pa, ls, k, rs)" by (cases f)
    note s0 = s [unfolded Cons f]
    obtain r st1 p1 z1 a1 cs1 where r: "push_nodes_for_insert tr st p (Suc l) = Some (r, st1, p1)" "r = 0 \<or> r = 1 \<and> cs1 = cs"
      "moved tr 2 l st p z a cs st1 p1 z1 a1 cs1" "length z1 = Suc (length z0)" "width z1 = Suc (length ls + length rs)"
      using push_nodes_for_insert_ok [OF tr s0] pool Cons f by auto
    have s1: "node_state tr st1 p1 l z1 a1 cs1" using r(3) by (simp add: moved_def)
    then have nb: "node_at (tr_fs tr) (ct_bufs st1) (Suc l) a1 cs1" using node_state_stored [OF s1] by simp
    then obtain c where c: "ct_bufs st1 a1 = Some c" by (auto simp: node_at_def block_at_def)
    have nc: "hdr_nritems c = length cs1" using node_block(3) [OF nb c] .
    have na1: "w_nodes p1 (Suc l) = Some a1" using s1 by (simp add: node_state_def)
    have nr: "w_nodes p (Suc l) \<noteq> Some (ct_node st)" using focus_not_root [OF t] Cons na by simp
    have eq: "split_node tr st p (Suc l) = (if r = 0 \<and> length cs1 < u32_sub ?N 3 then Some (0, st1, p1) else split_node_at tr st1 p1 (Suc l))"
      using nr r(1,2) na1 c nc by (auto simp: split_node_def)
    show ?thesis
    proof (cases "r = 0 \<and> length cs1 < u32_sub ?N 3")
      case True
      moreover have "moved tr 3 l st p z a cs st1 p1 z1 a1 cs1" using r(3) by (simp add: moved_def)
      ultimately show ?thesis using eq r(4,5) Cons f N3
        by (intro exI [of _ st1] exI [of _ p1] exI [of _ z1] exI [of _ a1] exI [of _ cs1]) auto
    next
      case False
      obtain pa' ls' k' rs' z0' where z1: "z1 = (pa', ls', k', rs') # z0'" using r(4) by (cases z1) auto
      have "2 \<le> length cs1" using False r(2) n N N3 by auto
      moreover have "ct_pool st1 \<noteq> []" using r(3) pool by (auto simp: moved_def)
      ultimately obtain st2 p2 z2 a2 cs2 where q: "split_node_at tr st1 p1 (Suc l) = Some (0, st2, p2)" "moved tr 1 l st1 p1 z1 a1 cs1 st2 p2 z2 a2 cs2"
        "length z2 = Suc (length z0')" "width z2 = Suc (width z1)" "length cs2 \<le> (length cs1 + 1) div 2"
        using split_node_at_ok [OF tr s1 [unfolded z1]] l w r(5) by (auto simp: z1 Cons f)
      have "moved tr 3 l st p z a cs st2 p2 z2 a2 cs2" using moved_trans [OF r(3) q(2)] by simp
      then show ?thesis using q False eq r(4,5) z1 Cons f le [OF s1] N
        by (intro exI [of _ st2] exI [of _ p2] exI [of _ z2] exI [of _ a2] exI [of _ cs2]) auto
    qed
  qed
qed

end
