(* ===== verification/TreeLeaf.thy ===== *)
theory TreeLeaf
  imports TreeSplit
begin

text \<open>Making room in the leaf of a path by pushes of items to its neighbours, on the zipper.\<close>

section \<open>Frames of the operations on leaves\<close>

lemma leaf_frame_simps:
  assumes "leaf_frame b b'"
  shows "eb_start b' = eb_start b" "eb_len b' = eb_len b" "hdr_level b' = hdr_level b" "hdr_generation b' = hdr_generation b"
    "hdr_owner b' = hdr_owner b" "hdr_flags b' = hdr_flags b"
  using arg_cong [OF assms [unfolded leaf_frame_def], of eb_start] arg_cong [OF assms [unfolded leaf_frame_def], of eb_len]
    arg_cong [OF assms [unfolded leaf_frame_def], of hdr_level] arg_cong [OF assms [unfolded leaf_frame_def], of hdr_generation]
    arg_cong [OF assms [unfolded leaf_frame_def], of hdr_owner] arg_cong [OF assms [unfolded leaf_frame_def], of hdr_flags]
  by simp_all

lemma leaf_frame_refl [simp]: "leaf_frame b b"
  by (simp add: leaf_frame_def)

lemma push_items_frame:
  "push_right_items fs left right n = (left', right') \<Longrightarrow> leaf_frame left left' \<and> leaf_frame right right'"
  "push_left_items fs left right n = Some (left', right') \<Longrightarrow> leaf_frame left left' \<and> leaf_frame right right'"
  by (auto simp: push_right_items_def push_left_items_def Let_def leaf_frame_def eb_simps shift_offsets_items split: if_splits
      intro!: reset_offsets_leaf_frame [unfolded leaf_frame_def])

lemma push_leaf_frame:
  "leaf_frame left (pr_left (push_leaf_right fs left right upper s0 s1 ds e)) \<and>
   leaf_frame right (pr_right (push_leaf_right fs left right upper s0 s1 ds e)) \<and>
   (pr_ret (push_leaf_right fs left right upper s0 s1 ds e) = 0 \<longrightarrow>
      (\<exists>k. pr_upper (push_leaf_right fs left right upper s0 s1 ds e) = btrfs_set_node_key upper k (Suc s1)))"
  "push_leaf_left fs left right upper s0 s1 ds e = Some r \<Longrightarrow>
     leaf_frame left (pr_left r) \<and> leaf_frame right (pr_right r) \<and> (pr_ret r = 0 \<longrightarrow> (\<exists>k. pr_upper r = btrfs_set_node_key upper k s1))"
  by (auto simp: push_leaf_right_def push_leaf_left_def Let_def dest: push_items_frame split: if_splits option.splits prod.splits)

section \<open>The place of a path in a leaf\<close>

text \<open>A path whose leaf is part of a tree; a leaf may be empty for the time of an insertion.\<close>

definition leaf_focus :: "btrfs_trans \<Rightarrow> ctree \<Rightarrow> wpath \<Rightarrow> frame list \<Rightarrow> u64 \<Rightarrow> items \<Rightarrow> bool" where
  "leaf_focus tr st p z a xs \<longleftrightarrow> tree_at tr st 0 z (ALeaf a xs) \<and> (\<exists>fk. ctx_keyed z fk \<and> (xs \<noteq> [] \<longrightarrow> fk = fst (hd xs))) \<and>
     on_path p 0 z \<and> w_nodes p 0 = Some a \<and> w_slots p 0 \<le> length xs"

lemma leaf_focus_keyed: "leaf_focus tr st p z a xs \<Longrightarrow> xs \<noteq> [] \<Longrightarrow> keyed (zip_up z (ALeaf a xs))"
  by (auto simp: leaf_focus_def keyed_zip)

lemma leaf_focusI:
  "tree_at tr st 0 z (ALeaf a xs) \<Longrightarrow> keyed (zip_up z (ALeaf a xs)) \<Longrightarrow> on_path p 0 z \<Longrightarrow> w_nodes p 0 = Some a \<Longrightarrow> w_slots p 0 \<le> length xs \<Longrightarrow>
   leaf_focus tr st p z a xs"
  by (cases z) (auto simp: leaf_focus_def keyed_zip)

definition leaf_place :: "frame list \<Rightarrow> items \<Rightarrow> nat \<Rightarrow> items \<times> items" where
  "leaf_place z xs i = (zip_before z @ take i xs, drop i xs @ zip_after z)"

lemma leaf_place_left:
  "i \<le> length xs \<Longrightarrow> leaf_place ((pa, A, k1, (k2, ALeaf a2 ys) # B) # z) xs i =
     (zip_before z @ cs_items A @ take i (xs @ ys), drop i (xs @ ys) @ cs_items B @ zip_after z)"
  by (simp add: leaf_place_def)

lemma leaf_place_right:
  "leaf_place ((pa, A @ [(k1, ALeaf a1 xs)], k2, B) # z) ys i =
     (zip_before z @ cs_items A @ take (length xs + i) (xs @ ys), drop (length xs + i) (xs @ ys) @ cs_items B @ zip_after z)"
  by (simp add: leaf_place_def)

definition leaf_moved ::
    "btrfs_trans \<Rightarrow> nat \<Rightarrow> ctree \<Rightarrow> wpath \<Rightarrow> frame list \<Rightarrow> u64 \<Rightarrow> items \<Rightarrow> ctree \<Rightarrow> wpath \<Rightarrow> frame list \<Rightarrow> u64 \<Rightarrow> items \<Rightarrow> bool" where
  "leaf_moved tr n st p z a xs st1 p1 z1 a1 xs1 \<longleftrightarrow>
     leaf_focus tr st1 p1 z1 a1 xs1 \<and> leaf_place z1 xs1 (w_slots p1 0) = leaf_place z xs (w_slots p 0) \<and>
     uses st1 (zip_up z1 (ALeaf a1 xs1)) = uses st (zip_up z (ALeaf a xs)) \<and> length (ct_pool st) \<le> n + length (ct_pool st1) \<and>
     ct_info st1 = ct_info st \<and> path_set p1 = path_set p"

lemma leaf_moved_refl: "leaf_focus tr st p z a xs \<Longrightarrow> leaf_moved tr n st p z a xs st p z a xs"
  by (simp add: leaf_moved_def)

lemma leaf_moved_trans:
  "leaf_moved tr n st p z a xs st1 p1 z1 a1 xs1 \<Longrightarrow> leaf_moved tr n' st1 p1 z1 a1 xs1 st2 p2 z2 a2 xs2 \<Longrightarrow> n + n' \<le> N \<Longrightarrow>
   leaf_moved tr N st p z a xs st2 p2 z2 a2 xs2"
  unfolding leaf_moved_def by auto

lemma leaf_focus_block:
  assumes "leaf_focus tr st p z a xs"
  obtains b where "ct_bufs st a = Some b" "block_at (tr_fs tr) (ct_bufs st) 0 a b" "leaf_ctx (tr_fs tr) b xs"
proof -
  have "stored (tr_fs tr) (ct_bufs st) 0 (ALeaf a xs)" using assms tree_atD(1) unfolding leaf_focus_def by blast
  then show ?thesis using that by (auto simp: leaf_at_def block_at_def)
qed

section \<open>Two neighbouring leaves\<close>

lemma leaf_stored:
  "block_at fs m 0 a b \<Longrightarrow> leaf_frame b b' \<Longrightarrow> m' a = Some b' \<Longrightarrow> leaf_ctx fs b' xs \<Longrightarrow> stored fs m' 0 (ALeaf a xs)"
  using leaf_frame_simps [of b b'] by (auto simp: leaf_at_def block_at_def)

lemma leaf_pair_ok:
  assumes t: "tree_at tr st (Suc 0) z (ANode pa (A @ (k1, ALeaf a1 xs) # (k2, ALeaf a2 ys) # B))"
    and k: "keyed (zip_up z (ANode pa (A @ (k1, ALeaf a1 xs) # (k2, ALeaf a2 ys) # B)))"
    and b: "ct_bufs st pa = Some pb" "ct_bufs st a1 = Some b1" "ct_bufs st a2 = Some b2"
    and f: "leaf_frame b1 b1'" "leaf_frame b2 b2'" and c: "leaf_ctx (tr_fs tr) b1' xs'" "leaf_ctx (tr_fs tr) b2' ys'"
    and W: "xs' @ ys' = xs @ ys" and ne: "xs' \<noteq> []" "ys' \<noteq> []"
  defines "st' \<equiv> put (put (put st b1') b2') (btrfs_set_node_key pb (fst (hd ys')) (Suc (length A)))"
  shows "tree_at tr st' (Suc 0) z (ANode pa (A @ (k1, ALeaf a1 xs') # (fst (hd ys'), ALeaf a2 ys') # B))"
    and "keyed (zip_up z (ANode pa (A @ (k1, ALeaf a1 xs') # (fst (hd ys'), ALeaf a2 ys') # B)))"
    and "uses st' (zip_up z (ANode pa (A @ (k1, ALeaf a1 xs') # (fst (hd ys'), ALeaf a2 ys') # B))) =
      uses st (zip_up z (ANode pa (A @ (k1, ALeaf a1 xs) # (k2, ALeaf a2 ys) # B)))"
proof -
  let ?m = "ct_bufs st" and ?fs = "tr_fs tr"
  note d = tree_atD [OF t]
  have n: "leaf_at ?fs ?m a1 xs" "leaf_at ?fs ?m a2 ys" "node_at ?fs ?m (Suc 0) pa (A @ (k1, ALeaf a1 xs) # (k2, ALeaf a2 ys) # B)" using d(1) by auto
  have ba: "block_at ?fs ?m 0 a1 b1" "block_at ?fs ?m 0 a2 b2" using n b by (auto simp: leaf_at_def block_at_def)
  note nb0 = node_block [OF n(3) b(1)]
  have s: "eb_start b1' = a1" "eb_start b2' = a2" "eb_start pb = pa"
    using leaf_frame_simps [OF f(1)] leaf_frame_simps [OF f(2)] nb0(1) ba by (simp_all add: block_at_def)
  have gs: "hdr_generation b1' = gen ?m a1" "hdr_generation b2' = gen ?m a2"
    using leaf_frame_simps [OF f(1)] leaf_frame_simps [OF f(2)] b by (simp_all add: gen_def)
  have dis: "pa \<noteq> a1" "pa \<noteq> a2" "a1 \<noteq> a2" using d(4) by auto
  have m': "ct_bufs st' a1 = Some b1'" "ct_bufs st' a2 = Some b2'" using s dis by (simp_all add: st'_def node_defs)
  have st1: "stored ?fs (ct_bufs st') 0 (ALeaf a1 xs')" "stored ?fs (ct_bufs st') 0 (ALeaf a2 ys')"
    by (rule leaf_stored [OF ba(1) f(1) _ c(1)], rule m'(1)) (rule leaf_stored [OF ba(2) f(2) _ c(2)], rule m'(2))
  note rp = rewrite_pair [OF t b(1), where ?b1.0 = b1' and ?b2.0 = b2' and c1' = "ALeaf a1 xs'" and c2' = "ALeaf a2 ys'" and k2' = "fst (hd ys')"]
  show "tree_at tr st' (Suc 0) z (ANode pa (A @ (k1, ALeaf a1 xs') # (fst (hd ys'), ALeaf a2 ys') # B))"
    using rp(1) s gs st1 by (simp add: st'_def)
  show "uses st' (zip_up z (ANode pa (A @ (k1, ALeaf a1 xs') # (fst (hd ys'), ALeaf a2 ys') # B))) =
      uses st (zip_up z (ANode pa (A @ (k1, ALeaf a1 xs) # (k2, ALeaf a2 ys) # B)))"
    using rp(2) s gs st1 by (simp add: st'_def)
  note kc = keyed_child(1) [OF k]
  have "xs \<noteq> []" "k1 = fst (hd xs)" using kc by (auto simp: child_ok_def)
  moreover then have "hd xs' = hd xs" using W ne(1) by (metis hd_append2)
  ultimately have "child_ok (k1, ALeaf a1 xs')" "child_ok (fst (hd ys'), ALeaf a2 ys')" using ne by (simp_all add: child_ok_def)
  then show "keyed (zip_up z (ANode pa (A @ (k1, ALeaf a1 xs') # (fst (hd ys'), ALeaf a2 ys') # B)))"
    using W kc by (intro keyed_rewrite [OF k]) auto
qed

section \<open>Pushing items to a neighbour\<close>

lemma put_same: "ct_bufs st (eb_start b) = Some b \<Longrightarrow> put st b = st"
  by (simp add: put_def fun_upd_idem)

lemma set_slot_same [simp]: "set_slot p l (w_slots p l) = p"
  by (simp add: set_slot_def)

text \<open>The copy of a neighbour of the leaf.\<close>

lemma cow_neighbour:
  assumes tr: "trans_ok tr" and t: "tree_at tr st (Suc 0) z (ANode pa (A @ (k, c) # B))" and k: "keyed (zip_up z (ANode pa (A @ (k, c) # B)))"
    and pool: "ct_pool st \<noteq> []"
  shows "\<exists>c' st'. btrfs_cow_block tr st (t_addr c) (Some pa) (length A) = Some (0, c', st') \<and>
    tree_at tr st' (Suc 0) z (ANode pa (A @ (k, set_addr c' c) # B)) \<and> keyed (zip_up z (ANode pa (A @ (k, set_addr c' c) # B))) \<and>
    uses st' (zip_up z (ANode pa (A @ (k, set_addr c' c) # B))) = uses st (zip_up z (ANode pa (A @ (k, c) # B))) \<and>
    length (ct_pool st) \<le> Suc (length (ct_pool st')) \<and> ct_info st' = ct_info st"
proof -
  have "tree_at tr st 0 ((pa, A, k, B) # z) c" using t by (simp add: tree_at_def)
  from cow_ok [OF tr this _ pool, of "Some pa" "length A"] obtain c' st' where
    c: "btrfs_cow_block tr st (t_addr c) (Some pa) (length A) = Some (0, c', st')" "tree_at tr st' 0 ((pa, A, k, B) # z) (set_addr c' c)"
    "uses st' (zip_up ((pa, A, k, B) # z) (set_addr c' c)) = uses st (zip_up ((pa, A, k, B) # z) c)"
    "length (ct_pool st) \<le> Suc (length (ct_pool st'))" "ct_info st' = ct_info st" by auto
  have "keyed (set_addr c' c) = keyed c" by (cases c) (auto simp: keyed_node)
  then have "keyed (zip_up z (ANode pa (A @ (k, set_addr c' c) # B)))"
    using keyed_child(1) [OF k] by (intro keyed_rewrite [OF k]) (auto simp: child_ok_def)
  with c show ?thesis by (auto simp: tree_at_def)
qed

text \<open>The parts of the node above two neighbouring leaves.\<close>

lemma leaf_parent:
  assumes "tree_at tr st (Suc 0) z (ANode pa cs)" and tr: "trans_ok tr"
  obtains pb where "ct_bufs st pa = Some pb" "eb_start pb = pa" "hdr_nritems pb = length cs" "length cs < 65536"
    "\<And>i. i < length cs \<Longrightarrow> read_slot st pb (int i) = Inr (t_addr (snd (cs ! i)))"
    "\<And>c. c \<in> set cs \<Longrightarrow> \<exists>a xs b. snd c = ALeaf a xs \<and> ct_bufs st a = Some b \<and> eb_start b = a \<and> leaf_ctx (tr_fs tr) b xs"
proof -
  have s: "node_at (tr_fs tr) (ct_bufs st) (Suc 0) pa cs" "\<forall>x\<in>set cs. stored (tr_fs tr) (ct_bufs st) 0 (snd x)"
    using tree_atD(1) [OF assms(1)] by simp_all
  then obtain pb where pb: "ct_bufs st pa = Some pb" by (auto simp: node_at_def block_at_def)
  note nb = node_block [OF s(1) pb]
  have "BTRFS_NODEPTRS_PER_BLOCK (tr_fs tr) \<le> BTRFS_LEAF_DATA_SIZE (tr_fs tr)" by (simp add: BTRFS_NODEPTRS_PER_BLOCK_def)
  then have small: "length cs < 65536" using leaf_data_size_small [OF trans_okD(1) [OF tr]] nb(4) by linarith
  show ?thesis
  proof (rule that [OF pb])
    show "\<exists>a xs b. snd c = ALeaf a xs \<and> ct_bufs st a = Some b \<and> eb_start b = a \<and> leaf_ctx (tr_fs tr) b xs" if "c \<in> set cs" for c
      using s(2) that by (fastforce simp: stored_0 leaf_at_def block_at_def)
  qed (use nb(1,3) small read_slot_child(1) [OF s pb] in \<open>simp_all add: block_at_def\<close>)
qed

lemma path_push_right_ok:
  assumes tr: "trans_ok tr" and s: "leaf_focus tr st p z a xs" and xs: "xs \<noteq> []" and pool: "ct_pool st \<noteq> []"
  shows "\<exists>r st1 p1 z1 a1 xs1. path_push_right tr st p ds False = Some (r, st1, p1) \<and> (r = 0 \<or> r = 1) \<and> leaf_moved tr 1 st p z a xs st1 p1 z1 a1 xs1 \<and>
    xs1 \<noteq> [] \<and> length z1 = length z \<and> width z1 = width z \<and> (w_slots p 0 < length xs \<longrightarrow> w_slots p1 0 < length xs1)"
proof -
  let ?fs = "tr_fs tr" and ?i = "w_slots p 0"
  have stay: ?thesis if "path_push_right tr st p ds False = Some (1, st, p)"
    using that leaf_moved_refl [OF s, of 1] xs by blast
  have na: "w_nodes p 0 = Some a" "?i \<le> length xs" using s by (simp_all add: leaf_focus_def)
  show ?thesis
  proof (cases z)
    case Nil
    then have "w_nodes p 1 = None" using s by (simp add: leaf_focus_def)
    then show ?thesis using na by (intro stay) (simp add: path_push_right_def)
  next
    case (Cons fr z0)
    obtain pa ls k rs where fr: "fr = (pa, ls, k, rs)" by (cases fr)
    have pth: "w_nodes p 1 = Some pa" "w_slots p 1 = length ls" "on_path p 1 z0" using s Cons fr by (simp_all add: leaf_focus_def)
    have T: "tree_at tr st (Suc 0) z0 (ANode pa (ls @ (k, ALeaf a xs) # rs))" using s Cons fr by (simp add: leaf_focus_def tree_at_def)
    have K: "keyed (zip_up z0 (ANode pa (ls @ (k, ALeaf a xs) # rs)))" using leaf_focus_keyed [OF s xs] Cons fr by simp
    obtain pb where pb: "ct_bufs st pa = Some pb" "eb_start pb = pa" "hdr_nritems pb = length (ls @ (k, ALeaf a xs) # rs)" "length (ls @ (k, ALeaf a xs) # rs) < 65536"
      "\<And>i. i < length (ls @ (k, ALeaf a xs) # rs) \<Longrightarrow> read_slot st pb (int i) = Inr (t_addr (snd ((ls @ (k, ALeaf a xs) # rs) ! i)))"
      "\<And>c. c \<in> set (ls @ (k, ALeaf a xs) # rs) \<Longrightarrow> \<exists>a xs b. snd c = ALeaf a xs \<and> ct_bufs st a = Some b \<and> eb_start b = a \<and> leaf_ctx ?fs b xs"
      using leaf_parent [OF T tr] by blast
    have nz: "u32_sub (hdr_nritems pb) 1 = length ls + length rs" using pb(3,4) by simp
    show ?thesis
    proof (cases rs)
      case Nil
      then show ?thesis using na pth pb(1) nz by (intro stay) (simp add: path_push_right_def)
    next
      case (Cons x B)
      obtain k2 t2 where x: "x = (k2, t2)" by (cases x)
      obtain ra ys right0 where t2: "t2 = ALeaf ra ys" "ct_bufs st ra = Some right0" using pb(6) [of x] x Cons by auto
      have rd: "read_slot st pb (int (length ls) + 1) = Inr ra"
        using pb(5) [of "Suc (length ls)"] Cons x t2(1) by (simp add: nth_append add.commute)
      let ?eq = "if btrfs_leaf_free_space ?fs right0 < int ds then Some (1, st, p)
        else
          do {
            (ret, ra1, st1) \<leftarrow> btrfs_cow_block tr st ra (Some pa) (Suc (length ls));
            if ret \<noteq> 0 then Some (1, st1, p)
            else
              do {
                right \<leftarrow> ct_bufs st1 ra1;
                left \<leftarrow> ct_bufs st1 a;
                upper \<leftarrow> ct_bufs st1 pa;
                let r = push_leaf_right ?fs left right upper ?i (length ls) ds False;
                    st2 = put (put (put st1 (pr_left r)) (pr_right r)) (pr_upper r)
                in Some (pr_ret r, st2, if pr_in_right r then move_path p 0 ra1 (pr_slot0 r) (pr_slot1 r) else p)
              }
          }"
      have eq: "path_push_right tr st p ds False = ?eq"
        using na pth pb(1) nz rd t2(2) Cons by (simp add: path_push_right_def Let_def)
      show ?thesis
      proof (cases "btrfs_leaf_free_space ?fs right0 < int ds")
        case True
        then show ?thesis using eq by (intro stay) simp
      next
        case False
        have T2: "tree_at tr st (Suc 0) z0 (ANode pa ((ls @ [(k, ALeaf a xs)]) @ (k2, ALeaf ra ys) # B))"
          and K2: "keyed (zip_up z0 (ANode pa ((ls @ [(k, ALeaf a xs)]) @ (k2, ALeaf ra ys) # B)))" using T K Cons x t2(1) by simp_all
        from cow_neighbour [OF tr T2 K2 pool] obtain ra1 st1 where cw: "btrfs_cow_block tr st ra (Some pa) (Suc (length ls)) = Some (0, ra1, st1)"
          "tree_at tr st1 (Suc 0) z0 (ANode pa (ls @ (k, ALeaf a xs) # (k2, ALeaf ra1 ys) # B))"
          "keyed (zip_up z0 (ANode pa (ls @ (k, ALeaf a xs) # (k2, ALeaf ra1 ys) # B)))"
          "uses st1 (zip_up z0 (ANode pa (ls @ (k, ALeaf a xs) # (k2, ALeaf ra1 ys) # B))) = uses st (zip_up z0 (ANode pa (ls @ (k, ALeaf a xs) # (k2, ALeaf ra ys) # B)))"
          "length (ct_pool st) \<le> Suc (length (ct_pool st1))" "ct_info st1 = ct_info st" by auto
        let ?z1 = "(pa, ls, k, (k2, ALeaf ra1 ys) # B) # z0"
        obtain upper where up: "ct_bufs st1 pa = Some upper" "eb_start upper = pa"
          "\<And>c. c \<in> set (ls @ (k, ALeaf a xs) # (k2, ALeaf ra1 ys) # B) \<Longrightarrow> \<exists>a xs b. snd c = ALeaf a xs \<and> ct_bufs st1 a = Some b \<and> eb_start b = a \<and> leaf_ctx ?fs b xs"
          using leaf_parent [OF cw(2) tr] by blast
        obtain left right where bl: "ct_bufs st1 a = Some left" "eb_start left = a" "leaf_ctx ?fs left xs"
          "ct_bufs st1 ra1 = Some right" "eb_start right = ra1" "leaf_ctx ?fs right ys"
          using up(3) [of "(k, ALeaf a xs)"] up(3) [of "(k2, ALeaf ra1 ys)"] by auto
        define r where "r = push_leaf_right ?fs left right upper ?i (length ls) ds False"
        let ?st2 = "put (put (put st1 (pr_left r)) (pr_right r)) (pr_upper r)"
        let ?p2 = "if pr_in_right r then move_path p 0 ra1 (pr_slot0 r) (pr_slot1 r) else p"
        have res: "path_push_right tr st p ds False = Some (pr_ret r, ?st2, ?p2)"
          using eq False cw(1) bl up by (simp add: r_def Let_def)
        have mv1: "leaf_moved tr 1 st p z a xs st1 p ?z1 a xs"
          using cw(2-6) s pth na \<open>z = fr # z0\<close> fr Cons x t2(1)
          by (auto simp: leaf_moved_def leaf_place_def tree_at_def intro!: leaf_focusI)
        consider "r = \<lparr>pr_ret = 1, pr_left = left, pr_right = right, pr_upper = upper, pr_slot0 = ?i, pr_slot1 = length ls, pr_in_right = False\<rparr>"
          | X P where "xs = X @ P" "P \<noteq> []" "X \<noteq> []" "pushed ?fs r upper (Suc (length ls)) ?i X (P @ ys)"
          using push_leaf_right_ok [OF bl(3,6), of upper ?i "length ls" ds False] unfolding r_def by blast
        then show ?thesis
        proof cases
          case 1
          then have "path_push_right tr st p ds False = Some (1, st1, p)" using res bl up put_same [of st1] by simp
          with mv1 xs \<open>z = fr # z0\<close> fr Cons show ?thesis by (intro exI [of _ 1] exI [of _ st1] exI [of _ p] exI [of _ ?z1] exI [of _ a] exI [of _ xs]) simp
        next
          case 2
          note pu = 2(4) [unfolded pushed_def]
          note fm = push_leaf_frame(1) [of left ?fs right upper ?i "length ls" ds False, folded r_def]
          then obtain kk where kk: "pr_upper r = btrfs_set_node_key upper kk (Suc (length ls))" using pu by blast
          then have "btrfs_node_key (pr_upper r) (Suc (length ls)) = kk" by (simp add: node_defs)
          then have uk: "pr_upper r = btrfs_set_node_key upper (fst (hd (P @ ys))) (Suc (length ls))" using pu 2(2) kk by simp
          have lc: "leaf_ctx ?fs (pr_left r) X" "leaf_ctx ?fs (pr_right r) (P @ ys)" "X @ P @ ys = xs @ ys" "P @ ys \<noteq> []" using pu 2 by auto
          note lp = leaf_pair_ok [OF cw(2,3) up(1) bl(1,4) conjunct1 [OF fm] conjunct1 [OF conjunct2 [OF fm]] lc(1-3) 2(3) lc(4), folded uk]
          let ?z2 = "if pr_in_right r then (pa, ls @ [(k, ALeaf a X)], fst (hd (P @ ys)), B) # z0 else (pa, ls, k, (fst (hd (P @ ys)), ALeaf ra1 (P @ ys)) # B) # z0"
          let ?a2 = "if pr_in_right r then ra1 else a" and ?xs2 = "if pr_in_right r then P @ ys else X"
          have pos: "w_slots ?p2 0 \<le> length ?xs2" "w_slots p 0 < length xs \<Longrightarrow> w_slots ?p2 0 < length ?xs2"
            using pu na 2(1) by (auto split: if_splits)
          have "leaf_place ?z2 ?xs2 (w_slots ?p2 0) = (zip_before z0 @ cs_items ls @ take ?i (xs @ ys), drop ?i (xs @ ys) @ cs_items B @ zip_after z0)"
            using pu 2(1) leaf_place_right [of pa ls k a X _ B z0 "P @ ys"] leaf_place_left [of _ X pa ls k _ ra1 "P @ ys" B z0]
            by (auto split: if_splits)
          also have "\<dots> = leaf_place z xs ?i" using na(2) \<open>z = fr # z0\<close> fr Cons x t2(1) leaf_place_left [of ?i xs pa ls k k2 ra ys B z0] by simp
          finally have pl: "leaf_place ?z2 ?xs2 (w_slots ?p2 0) = leaf_place z xs ?i" .
          have "leaf_focus tr ?st2 ?p2 ?z2 ?a2 ?xs2"
            using lp(1,2) pos(1) pth na pu by (intro leaf_focusI) (auto simp: tree_at_def)
          moreover have "uses ?st2 (zip_up ?z2 (ALeaf ?a2 ?xs2)) = uses st (zip_up z (ALeaf a xs))"
            using lp(3) cw(4) \<open>z = fr # z0\<close> fr Cons x t2(1) by auto
          ultimately have "leaf_moved tr 1 st p z a xs ?st2 ?p2 ?z2 ?a2 ?xs2" using pl cw(5,6) by (simp add: leaf_moved_def)
          moreover have "pr_ret r = 0" "?xs2 \<noteq> []" "length ?z2 = length z" "width ?z2 = width z" using pu 2 \<open>z = fr # z0\<close> fr Cons by auto
          ultimately show ?thesis using res pos(2) by blast
        qed
      qed
    qed
  qed
qed

lemma path_push_left_ok:
  assumes tr: "trans_ok tr" and s: "leaf_focus tr st p z a ys" and ys: "ys \<noteq> []" and pool: "ct_pool st \<noteq> []"
  shows "\<exists>r st1 p1 z1 a1 xs1. path_push_left tr st p ds False = Some (r, st1, p1) \<and> (r = 0 \<or> r = 1) \<and> leaf_moved tr 1 st p z a ys st1 p1 z1 a1 xs1 \<and>
    xs1 \<noteq> [] \<and> length z1 = length z \<and> width z1 = width z \<and> (w_slots p 0 < length ys \<longrightarrow> w_slots p1 0 < length xs1)"
proof -
  let ?fs = "tr_fs tr" and ?i = "w_slots p 0"
  have stay: ?thesis if "path_push_left tr st p ds False = Some (1, st, p)"
    using that leaf_moved_refl [OF s, of 1] ys by blast
  have na: "w_nodes p 0 = Some a" "?i \<le> length ys" using s by (simp_all add: leaf_focus_def)
  obtain b where b: "ct_bufs st a = Some b" "hdr_nritems b = length ys" using leaf_focus_block [OF s] leaf_basic(1) by metis
  show ?thesis
  proof (cases z)
    case Nil
    then have "w_nodes p 1 = None" using s by (simp add: leaf_focus_def)
    then show ?thesis using na by (intro stay) (simp add: path_push_left_def Let_def)
  next
    case (Cons fr z0)
    obtain pa ls k rs where fr: "fr = (pa, ls, k, rs)" by (cases fr)
    have pth: "w_nodes p 1 = Some pa" "w_slots p 1 = length ls" "on_path p 1 z0" using s Cons fr by (simp_all add: leaf_focus_def)
    have T: "tree_at tr st (Suc 0) z0 (ANode pa (ls @ (k, ALeaf a ys) # rs))" using s Cons fr by (simp add: leaf_focus_def tree_at_def)
    have K: "keyed (zip_up z0 (ANode pa (ls @ (k, ALeaf a ys) # rs)))" using leaf_focus_keyed [OF s ys] Cons fr by simp
    obtain pb where pb: "ct_bufs st pa = Some pb" "eb_start pb = pa"
      "\<And>i. i < length (ls @ (k, ALeaf a ys) # rs) \<Longrightarrow> read_slot st pb (int i) = Inr (t_addr (snd ((ls @ (k, ALeaf a ys) # rs) ! i)))"
      "\<And>c. c \<in> set (ls @ (k, ALeaf a ys) # rs) \<Longrightarrow> \<exists>a xs b. snd c = ALeaf a xs \<and> ct_bufs st a = Some b \<and> eb_start b = a \<and> leaf_ctx ?fs b xs"
      using leaf_parent [OF T tr] by blast
    show ?thesis
    proof (cases ls rule: rev_cases)
      case Nil
      then show ?thesis using na pth by (intro stay) (simp add: path_push_left_def Let_def)
    next
      case (snoc A x)
      obtain k1 t1 where x: "x = (k1, t1)" by (cases x)
      obtain la xs left0 where t1: "t1 = ALeaf la xs" "ct_bufs st la = Some left0" using pb(4) [of x] x snoc by auto
      have rd: "read_slot st pb (int (length A)) = Inr la"
        using pb(3) [of "length A"] snoc x t1(1) by (simp add: nth_append)
      let ?eq = "if btrfs_leaf_free_space ?fs left0 < int ds then Some (1, st, p)
        else
          do {
            (ret, la1, st1) \<leftarrow> btrfs_cow_block tr st la (Some pa) (length A);
            if ret \<noteq> 0 then Some (1, st1, p)
            else
              do {
                left \<leftarrow> ct_bufs st1 la1;
                right \<leftarrow> ct_bufs st1 a;
                upper \<leftarrow> ct_bufs st1 pa;
                r \<leftarrow> push_leaf_left ?fs left right upper ?i (Suc (length A)) ds False;
                let st2 = put (put (put st1 (pr_left r)) (pr_right r)) (pr_upper r)
                in Some (pr_ret r, st2,
                     if pr_in_right r then set_slot p 0 (pr_slot0 r) else move_path p 0 la1 (pr_slot0 r) (pr_slot1 r))
              }
          }"
      have eq: "path_push_left tr st p ds False = ?eq"
        using na b ys pth pb(1) rd t1(2) snoc by (simp add: path_push_left_def Let_def)
      show ?thesis
      proof (cases "btrfs_leaf_free_space ?fs left0 < int ds")
        case True
        then show ?thesis using eq by (intro stay) simp
      next
        case False
        have T2: "tree_at tr st (Suc 0) z0 (ANode pa (A @ (k1, ALeaf la xs) # (k, ALeaf a ys) # rs))"
          and K2: "keyed (zip_up z0 (ANode pa (A @ (k1, ALeaf la xs) # (k, ALeaf a ys) # rs)))" using T K snoc x t1(1) by simp_all
        from cow_neighbour [OF tr T2 K2 pool] obtain la1 st1 where cw: "btrfs_cow_block tr st la (Some pa) (length A) = Some (0, la1, st1)"
          "tree_at tr st1 (Suc 0) z0 (ANode pa (A @ (k1, ALeaf la1 xs) # (k, ALeaf a ys) # rs))"
          "keyed (zip_up z0 (ANode pa (A @ (k1, ALeaf la1 xs) # (k, ALeaf a ys) # rs)))"
          "uses st1 (zip_up z0 (ANode pa (A @ (k1, ALeaf la1 xs) # (k, ALeaf a ys) # rs))) = uses st (zip_up z0 (ANode pa (A @ (k1, ALeaf la xs) # (k, ALeaf a ys) # rs)))"
          "length (ct_pool st) \<le> Suc (length (ct_pool st1))" "ct_info st1 = ct_info st" by auto
        let ?z1 = "(pa, A @ [(k1, ALeaf la1 xs)], k, rs) # z0"
        obtain upper where up: "ct_bufs st1 pa = Some upper" "eb_start upper = pa"
          "\<And>c. c \<in> set (A @ (k1, ALeaf la1 xs) # (k, ALeaf a ys) # rs) \<Longrightarrow> \<exists>a xs b. snd c = ALeaf a xs \<and> ct_bufs st1 a = Some b \<and> eb_start b = a \<and> leaf_ctx ?fs b xs"
          using leaf_parent [OF cw(2) tr] by blast
        obtain left right where bl: "ct_bufs st1 la1 = Some left" "eb_start left = la1" "leaf_ctx ?fs left xs"
          "ct_bufs st1 a = Some right" "eb_start right = a" "leaf_ctx ?fs right ys"
          using up(3) [of "(k1, ALeaf la1 xs)"] up(3) [of "(k, ALeaf a ys)"] by auto
        have xs: "xs \<noteq> []" using keyed_child(1) [OF cw(3)] by (auto simp: child_ok_def)
        have mv1: "leaf_moved tr 1 st p z a ys st1 p ?z1 a ys"
          using cw(2-6) s pth na \<open>z = fr # z0\<close> fr snoc x t1(1)
          by (auto simp: leaf_moved_def leaf_place_def tree_at_def intro!: leaf_focusI)
        let ?st2 = "\<lambda>r. put (put (put st1 (pr_left r)) (pr_right r)) (pr_upper r)"
        let ?p2 = "\<lambda>r. if pr_in_right r then set_slot p 0 (pr_slot0 r) else move_path p 0 la1 (pr_slot0 r) (pr_slot1 r)"
        have res: "path_push_left tr st p ds False = Some (pr_ret r, ?st2 r, ?p2 r)"
          if "push_leaf_left ?fs left right upper ?i (Suc (length A)) ds False = Some r" for r
          using eq False cw(1) bl up that by (simp add: Let_def)
        consider "push_leaf_left ?fs left right upper ?i (Suc (length A)) ds False =
            Some \<lparr>pr_ret = 1, pr_left = left, pr_right = right, pr_upper = upper, pr_slot0 = ?i, pr_slot1 = Suc (length A), pr_in_right = True\<rparr>"
          | r P Y where "push_leaf_left ?fs left right upper ?i (Suc (length A)) ds False = Some r" "ys = P @ Y" "P \<noteq> []" "Y \<noteq> []"
            "pushed ?fs r upper (Suc (length A)) (length xs + ?i) (xs @ P) Y"
          using push_leaf_left_ok [OF bl(3,6) xs, of upper ?i "Suc (length A)" ds False] by blast
        then show ?thesis
        proof cases
          case 1
          then have "path_push_left tr st p ds False = Some (1, st1, p)" using res [OF 1] bl up put_same [of st1] by simp
          with mv1 ys \<open>z = fr # z0\<close> fr snoc show ?thesis by (intro exI [of _ 1] exI [of _ st1] exI [of _ p] exI [of _ ?z1] exI [of _ a] exI [of _ ys]) simp
        next
          case (2 r P Y)
          note pu = 2(5) [unfolded pushed_def] and fm = push_leaf_frame(2) [OF 2(1)]
          obtain kk where kk: "pr_upper r = btrfs_set_node_key upper kk (Suc (length A))" using fm pu by blast
          then have "btrfs_node_key (pr_upper r) (Suc (length A)) = kk" by (simp add: node_defs)
          then have uk: "pr_upper r = btrfs_set_node_key upper (fst (hd Y)) (Suc (length A))" using pu 2(4) kk by simp
          have lc: "leaf_ctx ?fs (pr_left r) (xs @ P)" "leaf_ctx ?fs (pr_right r) Y" "(xs @ P) @ Y = xs @ ys" "xs @ P \<noteq> []" using pu 2 by auto
          note lp = leaf_pair_ok [OF cw(2,3) up(1) bl(1,4) conjunct1 [OF fm] conjunct1 [OF conjunct2 [OF fm]] lc 2(4), folded uk]
          let ?z2 = "if pr_in_right r then (pa, A @ [(k1, ALeaf la1 (xs @ P))], fst (hd Y), rs) # z0 else (pa, A, k1, (fst (hd Y), ALeaf a Y) # rs) # z0"
          let ?a2 = "if pr_in_right r then a else la1" and ?xs2 = "if pr_in_right r then Y else xs @ P"
          have pos: "w_slots (?p2 r) 0 \<le> length ?xs2" "w_slots p 0 < length ys \<Longrightarrow> w_slots (?p2 r) 0 < length ?xs2"
            using pu na 2(2) by (auto split: if_splits)
          have pp: "if pr_in_right r then length xs + ?i = length (xs @ P) + pr_slot0 r else length xs + ?i = pr_slot0 r \<and> pr_slot0 r < length (xs @ P)"
            using pu by (auto split: if_splits)
          have "leaf_place ?z2 ?xs2 (w_slots (?p2 r) 0) =
              (zip_before z0 @ cs_items A @ take (length xs + ?i) (xs @ ys), drop (length xs + ?i) (xs @ ys) @ cs_items rs @ zip_after z0)"
          proof (cases "pr_in_right r")
            case True
            then show ?thesis using pp leaf_place_right [of pa A k1 la1 "xs @ P" "fst (hd Y)" rs z0 Y "pr_slot0 r"] 2(2) by simp
          next
            case False
            then show ?thesis using pp leaf_place_left [of "pr_slot0 r" "xs @ P" pa A k1 "fst (hd Y)" a Y rs z0] 2(2) by simp
          qed
          also have "\<dots> = leaf_place z ys ?i" using \<open>z = fr # z0\<close> fr snoc x t1(1) leaf_place_right [of pa A k1 la xs k rs z0 ys ?i] by simp
          finally have pl: "leaf_place ?z2 ?xs2 (w_slots (?p2 r) 0) = leaf_place z ys ?i" .
          have "leaf_focus tr (?st2 r) (?p2 r) ?z2 ?a2 ?xs2"
            using lp(1,2) pos(1) pth na pu snoc by (intro leaf_focusI) (auto simp: tree_at_def)
          moreover have "uses (?st2 r) (zip_up ?z2 (ALeaf ?a2 ?xs2)) = uses st (zip_up z (ALeaf a ys))"
            using lp(3) cw(4) \<open>z = fr # z0\<close> fr snoc x t1(1) by auto
          ultimately have "leaf_moved tr 1 st p z a ys (?st2 r) (?p2 r) ?z2 ?a2 ?xs2" using pl cw(5,6) by (simp add: leaf_moved_def)
          moreover have "pr_ret r = 0" "?xs2 \<noteq> []" "length ?z2 = length z" "width ?z2 = width z" using pu 2 \<open>z = fr # z0\<close> fr snoc by auto
          ultimately show ?thesis using res [OF 2(1)] pos(2) by blast
        qed
      qed
    qed
  qed
qed

text \<open>Both attempts of \<open>split_leaf\<close>.\<close>

lemma push_for_split_ok:
  assumes tr: "trans_ok tr" and s: "leaf_focus tr st p z a xs" and xs: "xs \<noteq> []" and pool: "2 \<le> length (ct_pool st)"
  shows "\<exists>r st1 p1 z1 a1 xs1. push_for_split tr ds st p = Some (r, st1, p1) \<and> (r = 0 \<or> r = 1) \<and> leaf_moved tr 2 st p z a xs st1 p1 z1 a1 xs1 \<and>
    xs1 \<noteq> [] \<and> length z1 = length z \<and> width z1 = width z \<and> (w_slots p 0 < length xs \<longrightarrow> w_slots p1 0 < length xs1)"
proof -
  have "ct_pool st \<noteq> []" using pool by auto
  from path_push_right_ok [OF tr s xs this] obtain r st1 p1 z1 a1 xs1 where r: "path_push_right tr st p ds False = Some (r, st1, p1)" "r = 0 \<or> r = 1"
    "leaf_moved tr 1 st p z a xs st1 p1 z1 a1 xs1" "xs1 \<noteq> []" "length z1 = length z" "width z1 = width z" "w_slots p 0 < length xs \<longrightarrow> w_slots p1 0 < length xs1"
    by blast
  show ?thesis
  proof (cases "r = 0")
    case True
    then have "push_for_split tr ds st p = Some (0, st1, p1)" using r(1) by (simp add: push_for_split_def)
    moreover have "leaf_moved tr 2 st p z a xs st1 p1 z1 a1 xs1" using r(3) by (simp add: leaf_moved_def)
    ultimately show ?thesis using r(4-7) by blast
  next
    case False
    then have eq: "push_for_split tr ds st p = path_push_left tr st1 p1 ds False" using r(1,2) by (simp add: push_for_split_def)
    have "leaf_focus tr st1 p1 z1 a1 xs1" "ct_pool st1 \<noteq> []" using r(3) pool by (auto simp: leaf_moved_def)
    from path_push_left_ok [OF tr this(1) r(4) this(2)] obtain r2 st2 p2 z2 a2 xs2 where q: "path_push_left tr st1 p1 ds False = Some (r2, st2, p2)" "r2 = 0 \<or> r2 = 1"
      "leaf_moved tr 1 st1 p1 z1 a1 xs1 st2 p2 z2 a2 xs2" "xs2 \<noteq> []" "length z2 = length z1" "width z2 = width z1" "w_slots p1 0 < length xs1 \<longrightarrow> w_slots p2 0 < length xs2"
      by blast
    have "leaf_moved tr 2 st p z a xs st2 p2 z2 a2 xs2" using leaf_moved_trans [OF r(3) q(3)] by simp
    then show ?thesis using eq q r(5-7)
      by (intro exI [of _ r2] exI [of _ st2] exI [of _ p2] exI [of _ z2] exI [of _ a2] exI [of _ xs2]) simp
  qed
qed

end
