(* ===== verification/TreeLeafSplit.thy ===== *)
theory TreeLeafSplit
  imports TreeLeaf
begin

text \<open>Splitting of the leaf of a path: the update of first keys, the new leaf, and \<open>split_leaf\<close> as a whole.\<close>

section \<open>First keys\<close>

lemma fixup_step:
  fixes key
  assumes t: "tree_at tr st l ((pa, ls, k, rs) # z) t" and pb: "ct_bufs st pa = Some pb"
  defines "st' \<equiv> put st (btrfs_set_node_key pb key (length ls))"
  shows "tree_at tr st' l ((pa, ls, key, rs) # z) t"
    and "uses st' (zip_up ((pa, ls, key, rs) # z) t) = uses st (zip_up ((pa, ls, k, rs) # z) t)"
proof -
  let ?fs = "tr_fs tr" and ?m = "ct_bufs st" and ?cs = "ls @ (k, t) # rs" and ?cs' = "ls @ (key, t) # rs"
  let ?pb = "btrfs_set_node_key pb key (length ls)"
  have t': "tree_at tr st (Suc l) z (ANode pa ?cs)" using t by (simp add: tree_at_def)
  note d = tree_atD [OF t']
  have n: "node_at ?fs ?m (Suc l) pa ?cs" "\<forall>x\<in>set ?cs. stored ?fs ?m l (snd x)" using d(1) by auto
  note nb = node_block [OF n(1) pb]
  note f = node_frame_ops(5) [of pb key "length ls"]
  have s: "eb_start ?pb = pa" using node_frame_simps(1) [OF f] nb(1) by (simp add: block_at_def)
  have pan: "pa \<notin> set (cs_addrs ?cs)" "pa \<notin> set (ctx_addrs z)" using d(4) by auto
  have sto: "stored ?fs (ct_bufs st') (Suc l) (ANode pa ?cs')"
  proof (rule node_stored [OF nb(1) f])
    show "node_ptrs ?pb = map (ptr_to ?m) ?cs'"
      using node_ptrs_rekey [of "length ls" pb key] nb(2,3) by (simp add: ptr_to_def nth_append list_update_append)
    show "ct_bufs st' x = ?m x" if "x \<in> set (cs_addrs ?cs')" for x using that pan(1) s by (auto simp: st'_def)
  qed (use n nb(4) s in \<open>auto simp: st'_def\<close>)
  have u: "uses st' (zip_up z (ANode pa ?cs')) = uses st (zip_up z (ANode pa ?cs))" by (rule uses_zip) (simp add: st'_def)
  then show "uses st' (zip_up ((pa, ls, key, rs) # z) t) = uses st (zip_up ((pa, ls, k, rs) # z) t)" by simp
  have "tree_at tr st' (Suc l) z (ANode pa ?cs')"
  proof (rule tree_at_replace [OF t' sto])
    show "gen (ct_bufs st') (t_addr (ANode pa ?cs)) = gen ?m (t_addr (ANode pa ?cs))"
      using s pb node_frame_simps(4) [OF f] by (simp add: st'_def gen_def)
    show "ct_bufs st' b = ?m b" if "b \<in> set (ctx_addrs z)" for b
    proof -
      have "b \<noteq> pa" using that pan(2) by auto
      then show ?thesis using s by (simp add: st'_def)
    qed
  qed (use u in \<open>simp_all add: st'_def\<close>)
  then show "tree_at tr st' l ((pa, ls, key, rs) # z) t" by (simp add: tree_at_def)
qed

lemma fixup_path_ok:
  assumes "tree_at tr st l z t" and "on_path p l z" and "length z \<le> n"
  shows "\<exists>st'. fixup_path st p key (Suc l) n = Some st' \<and> tree_at tr st' l (fix_ctx key z) t \<and>
    uses st' (zip_up (fix_ctx key z) t) = uses st (zip_up z t) \<and> ct_pool st' = ct_pool st \<and> ct_info st' = ct_info st"
  using assms
proof (induction z arbitrary: st l t n)
  case Nil
  then show ?case by (cases n) auto
next
  case (Cons f z)
  obtain pa ls k rs where f: "f = (pa, ls, k, rs)" by (cases f)
  obtain m where n: "n = Suc m" "length z \<le> m" using Cons.prems(3) by (cases n) auto
  have pth: "w_nodes p (Suc l) = Some pa" "w_slots p (Suc l) = length ls" "on_path p (Suc l) z" using Cons.prems(2) f by simp_all
  note t = Cons.prems(1) [unfolded f]
  obtain pb where pb: "ct_bufs st pa = Some pb" using tree_atD(2) [OF t] by (auto simp: node_at_def block_at_def)
  note fs = fixup_step [OF t pb, of key]
  let ?st = "put st (btrfs_set_node_key pb key (length ls))"
  show ?case
  proof (cases "ls = []")
    case False
    then show ?thesis using fs pth pb by (intro exI [of _ ?st]) (simp add: f n(1))
  next
    case True
    have "tree_at tr ?st (Suc l) z (ANode pa (ls @ (key, t) # rs))" using fs(1) by (simp add: tree_at_def)
    from Cons.IH [OF this pth(3) n(2)] obtain st' where
      "fixup_path ?st p key (Suc (Suc l)) m = Some st'" "tree_at tr st' (Suc l) (fix_ctx key z) (ANode pa (ls @ (key, t) # rs))"
      "uses st' (zip_up (fix_ctx key z) (ANode pa (ls @ (key, t) # rs))) = uses ?st (zip_up z (ANode pa (ls @ (key, t) # rs)))"
      "ct_pool st' = ct_pool st" "ct_info st' = ct_info st" by auto
    moreover then have "tree_at tr st' l (fix_ctx key (f # z)) t" using True by (simp add: f tree_at_def)
    ultimately show ?thesis using True fs(2) pth pb by (intro exI [of _ st']) (simp add: f n(1) Let_def)
  qed
qed

lemma fixup_low_keys_ok:
  assumes "tree_at tr st 0 z t" and "on_path p 0 z" and "length z < BTRFS_MAX_LEVEL"
  shows "\<exists>st'. fixup_low_keys st p key 1 = Some st' \<and> tree_at tr st' 0 (fix_ctx key z) t \<and>
    uses st' (zip_up (fix_ctx key z) t) = uses st (zip_up z t) \<and> ct_pool st' = ct_pool st \<and> ct_info st' = ct_info st"
  using fixup_path_ok [OF assms(1,2), of "BTRFS_MAX_LEVEL - 1" key] assms(3) by (simp add: fixup_low_keys_def)

section \<open>The split point\<close>

lemma split_point_cases:
  assumes h: "leaf_ctx fs l xs" and xs: "xs \<noteq> []" and slot: "slot \<le> length xs"
    and ds: "ds \<le> BTRFS_LEAF_DATA_SIZE fs" "BTRFS_LEAF_DATA_SIZE fs < entries_size xs + ds"
    and ext: "extending \<Longrightarrow> slot < length xs \<and> ds + entry_size (xs ! slot) \<le> BTRFS_LEAF_DATA_SIZE fs"
  obtains mid where "split_leaf_point fs l slot ds extending = (0, mid)" "\<not> extending" "slot = length xs" "mid \<le> slot"
  | mid where "split_leaf_point fs l slot ds extending = (0, mid)" "\<not> extending" "slot = 0" "slot < mid"
  | mid where "split_leaf_point fs l slot ds extending = (1, mid)" "0 < mid" "mid < length xs"
  | "split_leaf_point fs l slot ds extending = (2, slot)" "0 < slot" "slot < length xs" "BTRFS_LEAF_DATA_SIZE fs < entries_size (drop slot xs) + ds"
proof -
  let ?L = "BTRFS_LEAF_DATA_SIZE fs" and ?n = "length xs" and ?mid = "(length xs + 1) div 2"
  note b = leaf_basic [OF h]
  have tot: "entries_size xs \<le> ?L" using b(2) by (simp add: entries_size_def)
  define big where "big a n = (u32_of (leaf_space_used l a n + int ds) > ?L)" for a n
  have big: "big a n \<longleftrightarrow> entries_size (take n (drop a xs)) + ds > ?L" if "a + n \<le> ?n" for a n
    using space_used_range [OF h that] entries_size_sub [of n a xs] tot ds b(3) by (simp add: big_def nat_int_add)
  have n: "0 < ?n" using xs by simp
  have d0: "ds \<noteq> 0" using ds(2) tot by simp
  let ?at = "if slot \<noteq> ?n \<and> big slot (?n - slot) then (2, slot) else (1, slot)"
  have pt: "split_leaf_point fs l slot ds extending =
     (if ?mid \<le> slot then
        if ?n = 1 \<or> big ?mid (?n - ?mid) then (if slot \<ge> ?n then (0, ?mid) else ?at) else (1, ?mid)
      else
        if big 0 ?mid then
          (if \<not> extending \<and> ds \<noteq> 0 \<and> slot = 0 then (0, ?mid) else if (extending \<or> ds = 0) \<and> slot = 0 then (1, 1) else ?at)
        else (1, ?mid))"
    by (simp add: split_leaf_point_def Let_def b(1) big_def)
  have one: "\<not> big 0 1 \<Longrightarrow> ?n \<noteq> 1" "extending \<Longrightarrow> slot = 0 \<Longrightarrow> ?n \<noteq> 1"
  proof -
    show "\<not> big 0 1 \<Longrightarrow> ?n \<noteq> 1" using big [of 0 1] ds(2) by auto
    show "extending \<Longrightarrow> slot = 0 \<Longrightarrow> ?n \<noteq> 1" using ext ds(2) by (auto simp: length_Suc_conv)
  qed
  note c1 = that(1) and c2 = that(2) and c3 = that(3) and c4 = that(4)
  have at: thesis if s: "0 < slot" "slot < ?n" and eq: "split_leaf_point fs l slot ds extending = ?at"
  proof (cases "big slot (?n - slot)")
    case True
    then show ?thesis using s eq big [of slot "?n - slot"] by (intro c4) simp_all
  next
    case False
    then show ?thesis using s eq by (intro c3 [of slot]) simp_all
  qed
  have mid: "0 < ?mid" "?n \<noteq> 1 \<Longrightarrow> ?mid < ?n" using n by presburger+
  show thesis
  proof (cases "?mid \<le> slot")
    case True
    show ?thesis
    proof (cases "?n = 1 \<or> big ?mid (?n - ?mid)")
      case big: True
      show ?thesis
      proof (cases "slot \<ge> ?n")
        case ge: True
        then have "slot = ?n" using slot by simp
        moreover then have "\<not> extending" using ext by auto
        ultimately show ?thesis using pt True big by (intro c1 [of ?mid]) simp_all
      next
        case False
        then show ?thesis using pt True big mid(1) by (intro at) simp_all
      qed
    next
      case False
      then show ?thesis using pt True mid by (intro c3 [of ?mid]) simp_all
    qed
  next
    case False
    show ?thesis
    proof (cases "big 0 ?mid")
      case True
      consider "\<not> extending" "slot = 0" | "extending" "slot = 0" | "0 < slot" by auto
      then show ?thesis
      proof cases
        case 1
        then show ?thesis using pt False True d0 by (intro c2 [of ?mid]) simp_all
      next
        case 2
        then have "1 < ?n" using one(2) n by linarith
        then show ?thesis using pt False True 2 by (intro c3 [of 1]) simp_all
      next
        case 3
        have "slot < ?n" using False by simp
        then show ?thesis using pt False True 3 by (intro at) simp_all
      qed
    next
      case nb: False
      then have "?n \<noteq> 1" using one(1) by auto
      then show ?thesis using pt False nb mid by (intro c3 [of ?mid]) simp_all
    qed
  qed
qed

section \<open>A new leaf\<close>

abbreviation alloc_state :: "ctree \<Rightarrow> u64 list \<Rightarrow> ext_call \<Rightarrow> ctree" where
  "alloc_state st pool c \<equiv> st\<lparr>ct_pool := pool, ct_calls := ct_calls st @ [c]\<rparr>"

text \<open>What is known of a new leaf.\<close>

definition new_leaf :: "btrfs_trans \<Rightarrow> u64 \<Rightarrow> extent_buffer \<Rightarrow> items \<Rightarrow> bool" where
  "new_leaf tr x b ys \<longleftrightarrow> eb_start b = x \<and> hdr_level b = 0 \<and> nodesize (tr_fs tr) \<le> eb_len b \<and> hdr_owner b \<noteq> BTRFS_TREE_RELOC_OBJECTID \<and>
     hdr_generation b = transid tr \<and> leaf_ctx (tr_fs tr) b ys"

lemma new_leaf_stored: "new_leaf tr x b ys \<Longrightarrow> m x = Some b \<Longrightarrow> stored (tr_fs tr) m 0 (ALeaf x ys) \<and> gen m x = transid tr"
  by (auto simp: new_leaf_def leaf_at_def block_at_def gen_def)

lemma new_leaf_frame: "new_leaf tr x b ys \<Longrightarrow> leaf_frame b b' \<Longrightarrow> leaf_ctx (tr_fs tr) b' ys' \<Longrightarrow> new_leaf tr x b' ys'"
  using leaf_frame_simps [of b b'] by (simp add: new_leaf_def)

lemma new_leaf_empty:
  assumes "trans_ok tr"
  shows "new_leaf tr x (init_header tr ((raw_block tr x)\<lparr>eb_start := x, eb_len := nodesize (tr_fs tr)\<rparr>) 0) []"
  using trans_okD(1,3) [OF assms] by (simp add: new_leaf_def leaf_ctx_def leaf_repr_def)

lemma sibling_after:
  assumes tr: "trans_ok tr" and t: "tree_at tr st (Suc 0) z (ANode pa (ls @ (k, ALeaf a xs) # rs))" and pl: "ct_pool st = x # pool"
    and b: "ct_bufs st a = Some b" "leaf_frame b b'" "leaf_ctx (tr_fs tr) b' X" and right: "new_leaf tr x right Y"
    and w: "Suc (length ls + length rs) < BTRFS_NODEPTRS_PER_BLOCK (tr_fs tr)" and q: "w_nodes q 1 = Some pa" and c: "freed [c] = []"
  shows "\<exists>st3. path_insert_ptr tr (put (put (alloc_state st pool c) b') right) q k2 x (Suc (length ls)) 1 = Some st3 \<and>
    tree_at tr st3 (Suc 0) z (ANode pa (ls @ (k, ALeaf a X) # (k2, ALeaf x Y) # rs)) \<and>
    uses st3 (zip_up z (ANode pa (ls @ (k, ALeaf a X) # (k2, ALeaf x Y) # rs))) = uses st (zip_up z (ANode pa (ls @ (k, ALeaf a xs) # rs))) \<and>
    ct_pool st3 = pool \<and> ct_info st3 = ct_info st"
proof -
  let ?fs = "tr_fs tr" and ?m = "ct_bufs st"
  define st2 where "st2 = put (put (alloc_state st pool c) b') right"
  note d = tree_atD [OF t]
  obtain pb where pb: "?m pa = Some pb" using leaf_parent [OF t tr] by metis
  have "leaf_at ?fs ?m a xs" using d(1) by simp
  then have ba: "block_at ?fs ?m 0 a b" using b(1) by (auto simp: leaf_at_def block_at_def)
  have st: "eb_start b' = a" "eb_start right = x" "hdr_generation b' = hdr_generation b"
    using leaf_frame_simps [OF b(2)] ba right by (simp_all add: block_at_def new_leaf_def)
  have dis: "x \<noteq> a" "x \<noteq> pa" "pa \<noteq> a" "x \<notin> set (cs_addrs ls @ cs_addrs rs @ ctx_addrs z)" "a \<notin> set (cs_addrs ls @ cs_addrs rs @ ctx_addrs z)"
    using d(4) pl by auto
  have m2: "ct_bufs st2 y = (if y = x then Some right else if y = a then Some b' else ?m y)" for y using st by (simp add: st2_def)
  have fr2: "ct_bufs st2 y = ?m y" if "y \<in> set (cs_addrs ls @ cs_addrs rs @ ctx_addrs z)" for y using that dis(4,5) by (metis m2)
  have s1: "stored ?fs (ct_bufs st2) 0 (ALeaf a X)" using b ba dis(1) by (intro leaf_stored [of ?fs ?m]) (auto simp: m2)
  have s2: "stored ?fs (ct_bufs st2) 0 (ALeaf x Y)" "gen (ct_bufs st2) x = transid tr" using new_leaf_stored [OF right] by (simp_all add: m2)
  have fg: "gen (ct_bufs st2) (t_addr (snd y)) = gen ?m (t_addr (snd y))" if "y \<in> set ls \<or> y \<in> set rs" for y
    using that addr_in_cs [of y ls] addr_in_cs [of y rs] fr2 [of "t_addr (snd y)"] by (auto intro: gen_cong)
  have ga: "gen (ct_bufs st2) a = gen ?m a" using st(3) dis(1) b(1) by (simp add: gen_def m2)
  have "\<exists>st3. path_insert_ptr tr st2 q k2 x (length (ls @ [(k, ALeaf a xs)])) (Suc 0) = Some st3 \<and>
      tree_at tr st3 (Suc 0) z (ANode pa ((ls @ [(k, ALeaf a X)]) @ (k2, ALeaf x Y) # rs)) \<and>
      uses st3 (zip_up z (ANode pa ((ls @ [(k, ALeaf a X)]) @ (k2, ALeaf x Y) # rs))) = uses st (zip_up z (ANode pa ((ls @ [(k, ALeaf a xs)]) @ rs))) \<and>
      ct_pool st3 = ct_pool st2 \<and> ct_info st3 = ct_info st2"
  proof (rule insert_child)
    show "\<forall>y\<in>set ((ls @ [(k, ALeaf a X)]) @ (k2, ALeaf x Y) # rs). stored ?fs (ct_bufs st2) 0 (snd y)"
    proof -
      have "\<forall>y\<in>set (ls @ rs). stored ?fs (ct_bufs st2) 0 (snd y)"
        by (rule stored_frame_cs [of _ ?fs ?m]) (use d(1) fr2 in auto)
      with s1 s2 show ?thesis by auto
    qed
    show "ct_bufs st2 y = ?m y" if "y \<in> set (ctx_addrs z)" for y using fr2 [of y] that by simp
    show "map (ptr_to (ct_bufs st2)) (ls @ [(k, ALeaf a X)]) = map (ptr_to ?m) (ls @ [(k, ALeaf a xs)])" "map (ptr_to (ct_bufs st2)) rs = map (ptr_to ?m) rs"
      using fg ga by (simp_all add: ptr_to_def)
    show "ct_bufs st2 pa = Some pb" using pb dis by (simp add: m2)
    show "freed (ct_calls st2) = freed (ct_calls st)" using c by (simp add: st2_def)
  qed (use pl pb s2(2) w q t in \<open>simp_all add: st2_def\<close>)
  then show ?thesis by (simp add: st2_def)
qed

lemma sibling_before:
  assumes tr: "trans_ok tr" and t: "tree_at tr st (Suc 0) z (ANode pa (ls @ rs))" and pl: "ct_pool st = x # pool"
    and right: "new_leaf tr x right Y"
    and w: "length ls + length rs < BTRFS_NODEPTRS_PER_BLOCK (tr_fs tr)" and q: "w_nodes q 1 = Some pa" and c: "freed [c] = []"
  shows "\<exists>st3. path_insert_ptr tr (put (alloc_state st pool c) right) q k2 x (length ls) 1 = Some st3 \<and>
    tree_at tr st3 (Suc 0) z (ANode pa (ls @ (k2, ALeaf x Y) # rs)) \<and>
    uses st3 (zip_up z (ANode pa (ls @ (k2, ALeaf x Y) # rs))) = uses st (zip_up z (ANode pa (ls @ rs))) \<and>
    ct_pool st3 = pool \<and> ct_info st3 = ct_info st"
proof -
  let ?fs = "tr_fs tr" and ?m = "ct_bufs st"
  define st2 where "st2 = put (alloc_state st pool c) right"
  note d = tree_atD [OF t]
  obtain pb where pb: "?m pa = Some pb" using leaf_parent [OF t tr] by metis
  have st: "eb_start right = x" using right by (simp add: new_leaf_def)
  have dis: "x \<noteq> pa" "x \<notin> set (cs_addrs ls @ cs_addrs rs @ ctx_addrs z)" using d(4) pl by auto
  have m2: "ct_bufs st2 y = (if y = x then Some right else ?m y)" for y using st by (simp add: st2_def)
  have fr2: "ct_bufs st2 y = ?m y" if "y \<in> set (cs_addrs ls @ cs_addrs rs @ ctx_addrs z)" for y using that dis(2) by (metis m2)
  have s2: "stored ?fs (ct_bufs st2) 0 (ALeaf x Y)" "gen (ct_bufs st2) x = transid tr" using new_leaf_stored [OF right] by (simp_all add: m2)
  have fg: "gen (ct_bufs st2) (t_addr (snd y)) = gen ?m (t_addr (snd y))" if "y \<in> set ls \<or> y \<in> set rs" for y
    using that addr_in_cs [of y ls] addr_in_cs [of y rs] fr2 [of "t_addr (snd y)"] by (auto intro: gen_cong)
  have "\<exists>st3. path_insert_ptr tr st2 q k2 x (length ls) (Suc 0) = Some st3 \<and>
      tree_at tr st3 (Suc 0) z (ANode pa (ls @ (k2, ALeaf x Y) # rs)) \<and>
      uses st3 (zip_up z (ANode pa (ls @ (k2, ALeaf x Y) # rs))) = uses st (zip_up z (ANode pa (ls @ rs))) \<and>
      ct_pool st3 = ct_pool st2 \<and> ct_info st3 = ct_info st2"
  proof (rule insert_child [OF t])
    show "\<forall>y\<in>set (ls @ (k2, ALeaf x Y) # rs). stored ?fs (ct_bufs st2) 0 (snd y)"
    proof -
      have "\<forall>y\<in>set (ls @ rs). stored ?fs (ct_bufs st2) 0 (snd y)"
        by (rule stored_frame_cs [of _ ?fs ?m]) (use d(1) fr2 in auto)
      with s2 show ?thesis by auto
    qed
    show "ct_bufs st2 y = ?m y" if "y \<in> set (ctx_addrs z)" for y using fr2 [of y] that by simp
    show "map (ptr_to (ct_bufs st2)) ls = map (ptr_to ?m) ls" "map (ptr_to (ct_bufs st2)) rs = map (ptr_to ?m) rs"
      using fg by (simp_all add: ptr_to_def)
    show "ct_bufs st2 pa = Some pb" using pb dis by (simp add: m2)
    show "freed (ct_calls st2) = freed (ct_calls st)" using c by (simp add: st2_def)
  qed (use pl pb s2(2) w q in \<open>simp_all add: st2_def\<close>)
  then show ?thesis by (simp add: st2_def)
qed

section \<open>Splitting the leaf\<close>

lemma leaf_focus_node:
  assumes s: "leaf_focus tr st p ((pa, ls, k, rs) # z) a xs" and xs: "xs \<noteq> []"
  shows "tree_at tr st (Suc 0) z (ANode pa (ls @ (k, ALeaf a xs) # rs))" "keyed (zip_up z (ANode pa (ls @ (k, ALeaf a xs) # rs)))"
    "w_nodes p 1 = Some pa" "w_slots p 1 = length ls" "on_path p 1 z" "w_nodes p 0 = Some a" "w_slots p 0 \<le> length xs"
  using s leaf_focus_keyed [OF s xs] by (simp_all add: leaf_focus_def tree_at_def)

lemma copy_for_split_ok:
  assumes tr: "trans_ok tr" and s: "leaf_focus tr st p ((pa, ls, k, rs) # z) a xs" and mid: "0 < mid" "mid < length xs"
    and l: "ct_bufs st a = Some l" and pl: "ct_pool st = x # pool" and w: "Suc (length ls + length rs) < BTRFS_NODEPTRS_PER_BLOCK (tr_fs tr)"
    and right: "new_leaf tr x right []" and c: "freed [c] = []"
  shows "\<exists>st1 p1 z1 a1 xs1. copy_for_split tr (alloc_state st pool c) p l right (w_slots p 0) mid = Some (st1, p1) \<and>
    leaf_moved tr 1 st p ((pa, ls, k, rs) # z) a xs st1 p1 z1 a1 xs1 \<and> length z1 = Suc (length z) \<and> width z1 = Suc (Suc (length ls + length rs)) \<and>
    (if mid \<le> w_slots p 0 then xs1 = drop mid xs \<and> w_slots p1 0 = w_slots p 0 - mid else xs1 = take mid xs \<and> w_slots p1 0 = w_slots p 0)"
proof -
  let ?fs = "tr_fs tr" and ?X = "take mid xs" and ?Y = "drop mid xs" and ?i = "w_slots p 0"
  have xs: "xs \<noteq> []" "?X \<noteq> []" "?Y \<noteq> []" using mid by auto
  note n = leaf_focus_node [OF s xs(1)]
  have lc: "leaf_ctx ?fs l xs" using leaf_focus_block [OF s] l by (metis option.inject)
  have mid': "length ?X = mid" using mid by simp
  obtain l1 right1 where cp: "copy_for_split_items ?fs l right mid (hdr_nritems l) = (l1, right1)" "leaf_ctx ?fs l1 ?X" "leaf_ctx ?fs right1 ?Y"
    "leaf_frame l l1" "leaf_frame right right1"
    using copy_for_split_items_ok [of ?fs l ?X ?Y right] lc xs(3) mid' leaf_basic(1) [OF lc] by auto
  have nr: "new_leaf tr x right1 ?Y" using new_leaf_frame [OF right cp(5,3)] .
  have key: "btrfs_item_key right1 0 = fst (hd ?Y)" using first_key [OF cp(3) xs(3)] .
  from sibling_after [OF tr n(1) pl l cp(4,2) nr w n(3) c, of "fst (hd ?Y)"] obtain st3 where
    st3: "path_insert_ptr tr (put (put (alloc_state st pool c) l1) right1) p (fst (hd ?Y)) x (Suc (length ls)) 1 = Some st3"
    "tree_at tr st3 (Suc 0) z (ANode pa (ls @ (k, ALeaf a ?X) # (fst (hd ?Y), ALeaf x ?Y) # rs))"
    "uses st3 (zip_up z (ANode pa (ls @ (k, ALeaf a ?X) # (fst (hd ?Y), ALeaf x ?Y) # rs))) = uses st (zip_up z (ANode pa (ls @ (k, ALeaf a xs) # rs)))"
    "ct_pool st3 = pool" "ct_info st3 = ct_info st" by auto
  let ?p1 = "if mid \<le> ?i then move_path p 0 x (?i - mid) (Suc (length ls)) else p"
  let ?z1 = "if mid \<le> ?i then (pa, ls @ [(k, ALeaf a ?X)], fst (hd ?Y), rs) # z else (pa, ls, k, (fst (hd ?Y), ALeaf x ?Y) # rs) # z"
  let ?a1 = "if mid \<le> ?i then x else a" and ?xs1 = "if mid \<le> ?i then ?Y else ?X"
  have "eb_start right1 = x" using nr by (simp add: new_leaf_def)
  then have res: "copy_for_split tr (alloc_state st pool c) p l right ?i mid = Some (st3, ?p1)"
    using cp(1) st3(1) n(4) key by (simp add: copy_for_split_def Let_def)
  note kc = keyed_child(1) [OF n(2)]
  have "k = fst (hd xs)" "hd ?X = hd xs" using kc mid(1) xs by (auto simp: child_ok_def)
  then have "child_ok (k, ALeaf a ?X)" "child_ok (fst (hd ?Y), ALeaf x ?Y)" using xs by (simp_all add: child_ok_def)
  then have ky: "keyed (zip_up z (ANode pa (ls @ (k, ALeaf a ?X) # (fst (hd ?Y), ALeaf x ?Y) # rs)))"
    using kc by (intro keyed_rewrite [OF n(2)]) auto
  have "leaf_focus tr st3 ?p1 ?z1 ?a1 ?xs1"
    using st3(2) ky n(3-7) by (intro leaf_focusI) (auto simp: tree_at_def)
  moreover have "leaf_place ?z1 ?xs1 (w_slots ?p1 0) = leaf_place ((pa, ls, k, rs) # z) xs ?i"
  proof (cases "mid \<le> ?i")
    case True
    then show ?thesis using leaf_place_right [of pa ls k a ?X "fst (hd ?Y)" rs z ?Y "?i - mid"] mid by (simp add: leaf_place_def)
  next
    case False
    then show ?thesis using leaf_place_left [of ?i ?X pa ls k "fst (hd ?Y)" x ?Y rs z] mid by (simp add: leaf_place_def)
  qed
  moreover have "uses st3 (zip_up ?z1 (ALeaf ?a1 ?xs1)) = uses st (zip_up ((pa, ls, k, rs) # z) (ALeaf a xs))" using st3(3) by simp
  ultimately have "leaf_moved tr 1 st p ((pa, ls, k, rs) # z) a xs st3 ?p1 ?z1 ?a1 ?xs1" using st3(4,5) pl by (simp add: leaf_moved_def)
  with res show ?thesis
    by (intro exI [of _ st3] exI [of _ ?p1] exI [of _ ?z1] exI [of _ ?a1] exI [of _ ?xs1]) simp
qed

text \<open>The leaf of the path has \<open>ds\<close> bytes to spare, and the path is where it was.\<close>

definition leaf_split ::
    "btrfs_trans \<Rightarrow> nat \<Rightarrow> nat \<Rightarrow> bool \<Rightarrow> ctree \<Rightarrow> wpath \<Rightarrow> frame list \<Rightarrow> u64 \<Rightarrow> items \<Rightarrow> (int \<times> ctree \<times> wpath) option \<Rightarrow> bool" where
  "leaf_split tr N ds ext st p z a xs R \<longleftrightarrow>
     (\<exists>st1 p1 z1 a1 xs1. R = Some (0, st1, p1) \<and> leaf_moved tr N st p z a xs st1 p1 z1 a1 xs1 \<and> length z1 \<le> max 1 (length z) \<and>
        entries_size xs1 + ds \<le> BTRFS_LEAF_DATA_SIZE (tr_fs tr) \<and> (ext \<longrightarrow> w_slots p1 0 < length xs1))"

lemma leaf_split_after:
  "leaf_moved tr n st p z a xs st1 p1 z1 a1 xs1 \<Longrightarrow> leaf_split tr n' ds ext st1 p1 z1 a1 xs1 R \<Longrightarrow> n + n' \<le> N \<Longrightarrow> length z1 \<le> max 1 (length z) \<Longrightarrow>
   leaf_split tr N ds ext st p z a xs R"
  unfolding leaf_split_def by (fastforce intro: leaf_moved_trans)

lemma split_again_step:
  assumes tr: "trans_ok tr" and s: "leaf_focus tr st p ((pa, ls, k, rs) # z) a xs" and xs: "xs \<noteq> []" and pool: "ct_pool st \<noteq> []"
    and w: "Suc (length ls + length rs) < BTRFS_NODEPTRS_PER_BLOCK (tr_fs tr)" and z: "Suc (length z) < BTRFS_MAX_LEVEL"
    and ds: "ds \<le> BTRFS_LEAF_DATA_SIZE (tr_fs tr)" "BTRFS_LEAF_DATA_SIZE (tr_fs tr) < entries_size xs + ds"
    and ext: "extending \<longrightarrow> w_slots p 0 < length xs \<and> ds + entry_size (xs ! w_slots p 0) \<le> BTRFS_LEAF_DATA_SIZE (tr_fs tr)"
  shows "leaf_split tr 1 ds extending st p ((pa, ls, k, rs) # z) a xs (split_leaf_again tr key ds extending n st p) \<or>
    (0 < w_slots p 0 \<and> (\<exists>st1 p1 z1 a1 xs1.
       split_leaf_again tr key ds extending n st p = (case n of 0 \<Rightarrow> None | Suc m \<Rightarrow> split_leaf_again tr key ds extending m st1 p1) \<and>
       leaf_moved tr 1 st p ((pa, ls, k, rs) # z) a xs st1 p1 z1 a1 xs1 \<and> length z1 = Suc (length z) \<and> width z1 = Suc (Suc (length ls + length rs)) \<and>
       xs1 = drop (w_slots p 0) xs \<and> w_slots p 0 < length xs \<and> w_slots p1 0 = 0 \<and> BTRFS_LEAF_DATA_SIZE (tr_fs tr) < entries_size xs1 + ds))"
    (is "?A \<or> ?B")
proof -
  let ?fs = "tr_fs tr" and ?L = "BTRFS_LEAF_DATA_SIZE (tr_fs tr)" and ?i = "w_slots p 0"
  note nd = leaf_focus_node [OF s xs]
  obtain l where l: "ct_bufs st a = Some l" "leaf_ctx ?fs l xs" using leaf_focus_block [OF s] by metis
  obtain x pool' where pl: "ct_pool st = x # pool'" using pool by (cases "ct_pool st") auto
  let ?new = "init_header tr ((raw_block tr x)\<lparr>eb_start := x, eb_len := nodesize ?fs\<rparr>) 0"
  have new: "new_leaf tr x ?new []" using new_leaf_empty [OF tr] .
  then have nst: "eb_start ?new = x" by (simp add: new_leaf_def)
  note kc = keyed_child(1) [OF nd(2)]
  have ck: "\<forall>y\<in>set (ls @ rs). child_ok y" "child_ok (k, ALeaf a xs)" "ctx_keyed z (if ls = [] then k else fst (hd ls))"
    using kc nd(2) s xs by (auto simp: leaf_focus_def)
  have al: "alloc_block tr st 0 dk a = (Inr ((raw_block tr x)\<lparr>eb_start := x, eb_len := nodesize ?fs\<rparr>), alloc_state st pool' (AllocBlock x 0 dk a))" for dk
    using alloc_Cons [OF pl] by simp
  have finish: ?A if "split_leaf_again tr key ds extending n st p = Some (0, st1, p1)" "leaf_focus tr st1 p1 z1 x []" "w_slots p1 0 = 0" "\<not> extending"
      "leaf_place z1 [] 0 = leaf_place ((pa, ls, k, rs) # z) xs ?i" "uses st1 (zip_up z1 (ALeaf x [])) = uses st (zip_up ((pa, ls, k, rs) # z) (ALeaf a xs))"
      "ct_pool st1 = pool'" "ct_info st1 = ct_info st" "path_set p1 = path_set p" "length z1 = Suc (length z)" for st1 p1 z1
    unfolding leaf_split_def
    by (rule exI [of _ st1], rule exI [of _ p1], rule exI [of _ z1], rule exI [of _ x], rule exI [of _ "[]"])
      (use that ds(1) pl in \<open>simp add: leaf_moved_def\<close>)
  show ?thesis
  proof (rule split_point_cases [OF l(2) xs nd(7) ds ext [rule_format]])
    fix mid assume pt: "split_leaf_point ?fs l ?i ds extending = (0, mid)" "\<not> extending" "?i = length xs" "mid \<le> ?i"
    let ?c = "AllocBlock x 0 key a"
    have "put (alloc_state st pool' ?c) l = alloc_state st pool' ?c"
      using l(1) leaf_focus_block [OF s] by (intro put_same) (auto simp: block_at_def)
    with sibling_after [OF tr nd(1) pl l(1) leaf_frame_refl l(2) new w nd(3), of ?c key] obtain st3 where
      st3: "path_insert_ptr tr (put (alloc_state st pool' ?c) ?new) p key x (Suc (length ls)) 1 = Some st3"
      "tree_at tr st3 (Suc 0) z (ANode pa (ls @ (k, ALeaf a xs) # (key, ALeaf x []) # rs))"
      "uses st3 (zip_up z (ANode pa (ls @ (k, ALeaf a xs) # (key, ALeaf x []) # rs))) = uses st (zip_up z (ANode pa (ls @ (k, ALeaf a xs) # rs)))"
      "ct_pool st3 = pool'" "ct_info st3 = ct_info st" by auto
    let ?p1 = "move_path p 0 x 0 (Suc (length ls))" and ?z1 = "(pa, ls @ [(k, ALeaf a xs)], key, rs) # z"
    have "split_leaf_again tr key ds extending n st p = Some (0, st3, ?p1)"
      using pt(1,4) nd(3,4,6) l(1) al st3(1) nst by (subst split_leaf_again.simps) (simp add: Let_def)
    moreover have "leaf_focus tr st3 ?p1 ?z1 x []"
      using st3(2) nd(3-5) ck by (cases ls) (auto simp: leaf_focus_def tree_at_def)
    ultimately have ?A using st3(3-5) pt(2,3) by (intro finish [of st3 ?p1 ?z1]) (simp_all add: leaf_place_def)
    then show ?thesis ..
  next
    fix mid assume pt: "split_leaf_point ?fs l ?i ds extending = (0, mid)" "\<not> extending" "?i = 0" "?i < mid"
    let ?c = "AllocBlock x 0 key a"
    from sibling_before [OF tr nd(1) pl new _ nd(3), of ?c key] w obtain st3 where
      st3: "path_insert_ptr tr (put (alloc_state st pool' ?c) ?new) p key x (length ls) 1 = Some st3"
      "tree_at tr st3 (Suc 0) z (ANode pa (ls @ (key, ALeaf x []) # (k, ALeaf a xs) # rs))"
      "uses st3 (zip_up z (ANode pa (ls @ (key, ALeaf x []) # (k, ALeaf a xs) # rs))) = uses st (zip_up z (ANode pa (ls @ (k, ALeaf a xs) # rs)))"
      "ct_pool st3 = pool'" "ct_info st3 = ct_info st" by auto
    let ?p1 = "set_slot (set_node p 0 x) 0 0" and ?z1 = "(pa, ls, key, (k, ALeaf a xs) # rs) # z"
    have t1: "tree_at tr st3 0 ?z1 (ALeaf x [])" and op: "on_path ?p1 0 ?z1" using st3(2) nd(3-5) by (simp_all add: tree_at_def)
    from fixup_low_keys_ok [OF t1 op, of key] z obtain st4 where
      st4: "fixup_low_keys st3 ?p1 key 1 = Some st4" "tree_at tr st4 0 (fix_ctx key ?z1) (ALeaf x [])"
      "uses st4 (zip_up (fix_ctx key ?z1) (ALeaf x [])) = uses st3 (zip_up ?z1 (ALeaf x []))" "ct_pool st4 = pool'" "ct_info st4 = ct_info st"
      using st3(4,5) by auto
    let ?z2 = "if ls = [] then fix_ctx key ?z1 else ?z1" and ?st2 = "if ls = [] then st4 else st3"
    have r2: "split_leaf_again tr key ds extending n st p = Some (0, ?st2, ?p1)"
      using pt(1,4) nd(3,4,6) l(1) al st3(1) nst st4(1) by (subst split_leaf_again.simps) (simp add: Let_def)
    have f2: "leaf_focus tr ?st2 ?p1 ?z2 x []"
    proof -
      have "ctx_keyed (fix_ctx key ((pa, ls, k, rs) # z)) key" using ck by (intro fix_ctx_keyed [of _ k]) simp
      then have "ctx_keyed ?z2 key" using ck by auto
      moreover have "on_path ?p1 0 (fix_ctx key ?z1)"
      proof -
        have "on_path q m (fix_ctx key y) = on_path q m y" for q m y by (induction key y arbitrary: m rule: fix_ctx.induct) auto
        then show ?thesis using op by simp
      qed
      ultimately show ?thesis using t1 op st4(2) by (auto simp: leaf_focus_def)
    qed
    have u2: "uses ?st2 (zip_up ?z2 (ALeaf x [])) = uses st (zip_up ((pa, ls, k, rs) # z) (ALeaf a xs))"
      using st3(3) st4(3) by (cases "ls = []") simp_all
    have ?A
    proof (rule finish [OF r2 f2 _ _ _ u2])
      show "leaf_place ?z2 [] 0 = leaf_place ((pa, ls, k, rs) # z) xs ?i" using pt(3) by (simp add: leaf_place_def)
    qed (use st3(4,5) st4(4,5) pt(2) in simp_all)
    then show ?thesis ..
  next
    fix mid assume pt: "split_leaf_point ?fs l ?i ds extending = (1, mid)" "0 < mid" "mid < length xs"
    let ?c = "AllocBlock x 0 (btrfs_item_key l mid) a"
    from copy_for_split_ok [OF tr s pt(2,3) l(1) pl w new, of ?c] obtain st1 p1 z1 a1 xs1 where
      c: "copy_for_split tr (alloc_state st pool' ?c) p l ?new ?i mid = Some (st1, p1)" "leaf_moved tr 1 st p ((pa, ls, k, rs) # z) a xs st1 p1 z1 a1 xs1"
      "length z1 = Suc (length z)" "if mid \<le> ?i then xs1 = drop mid xs \<and> w_slots p1 0 = ?i - mid else xs1 = take mid xs \<and> w_slots p1 0 = ?i" by auto
    have "split_leaf_again tr key ds extending n st p = Some (0, st1, p1)"
      using pt(1) nd(6) l(1) al c(1) by (subst split_leaf_again.simps) (simp add: Let_def)
    moreover have "entries_size xs1 + ds \<le> ?L"
      using split_leaf_point_room(2) [OF l(2) xs nd(7) ds(1) ext [rule_format] pt(1)] c(4) by (auto split: if_splits)
    moreover have "extending \<longrightarrow> w_slots p1 0 < length xs1" using ext c(4) pt(3) by (auto split: if_splits)
    ultimately have ?A using c(2,3) unfolding leaf_split_def by fastforce
    then show ?thesis ..
  next
    assume pt: "split_leaf_point ?fs l ?i ds extending = (2, ?i)" "0 < ?i" "?i < length xs" "?L < entries_size (drop ?i xs) + ds"
    let ?c = "AllocBlock x 0 (btrfs_item_key l ?i) a"
    from copy_for_split_ok [OF tr s pt(2,3) l(1) pl w new, of ?c] obtain st1 p1 z1 a1 where
      c: "copy_for_split tr (alloc_state st pool' ?c) p l ?new ?i ?i = Some (st1, p1)" "leaf_moved tr 1 st p ((pa, ls, k, rs) # z) a xs st1 p1 z1 a1 (drop ?i xs)"
      "length z1 = Suc (length z)" "width z1 = Suc (Suc (length ls + length rs))" "w_slots p1 0 = 0" by auto
    have "split_leaf_again tr key ds extending n st p = (case n of 0 \<Rightarrow> None | Suc m \<Rightarrow> split_leaf_again tr key ds extending m st1 p1)"
      using pt(1) nd(6) l(1) al c(1) by (subst split_leaf_again.simps) (simp add: Let_def)
    then have ?B using pt c by blast
    then show ?thesis ..
  qed
qed

lemma split_again_ok:
  assumes tr: "trans_ok tr" and s: "leaf_focus tr st p z a xs" and xs: "xs \<noteq> []" and pool: "2 \<le> length (ct_pool st)"
    and w: "z \<noteq> []" "Suc (width z) < BTRFS_NODEPTRS_PER_BLOCK (tr_fs tr)" and z: "length z < BTRFS_MAX_LEVEL"
    and ds: "ds \<le> BTRFS_LEAF_DATA_SIZE (tr_fs tr)" "BTRFS_LEAF_DATA_SIZE (tr_fs tr) < entries_size xs + ds"
    and ext: "extending \<longrightarrow> w_slots p 0 < length xs \<and> ds + entry_size (xs ! w_slots p 0) \<le> BTRFS_LEAF_DATA_SIZE (tr_fs tr)"
  shows "leaf_split tr 2 ds extending st p z a xs (split_leaf_again tr key ds extending 1 st p)"
proof -
  let ?L = "BTRFS_LEAF_DATA_SIZE (tr_fs tr)"
  obtain pa ls k rs z0 where Z: "z = (pa, ls, k, rs) # z0" using w(1) by (cases z) auto
  note s0 = s [unfolded Z]
  have p0: "ct_pool st \<noteq> []" using pool by auto
  have w0: "Suc (length ls + length rs) < BTRFS_NODEPTRS_PER_BLOCK (tr_fs tr)" "Suc (length z0) < BTRFS_MAX_LEVEL" using w(2) z Z by simp_all
  have mono: "leaf_split tr 2 ds extending st p z a xs R" if "leaf_split tr 1 ds extending st p z a xs R" for R
    using that leaf_split_after [OF leaf_moved_refl [OF s, of 0]] by simp
  from split_again_step [OF tr s0 xs p0 w0 ds ext, where key = key and n = 1] show ?thesis
  proof (elim disjE conjE exE)
    assume "leaf_split tr 1 ds extending st p ((pa, ls, k, rs) # z0) a xs (split_leaf_again tr key ds extending 1 st p)"
    then show ?thesis using mono Z by simp
  next
    fix st1 p1 z1 a1 xs1
    assume 2: "split_leaf_again tr key ds extending 1 st p = (case 1 of 0 \<Rightarrow> None | Suc m \<Rightarrow> split_leaf_again tr key ds extending m st1 p1)"
      "leaf_moved tr 1 st p ((pa, ls, k, rs) # z0) a xs st1 p1 z1 a1 xs1" "length z1 = Suc (length z0)" "width z1 = Suc (Suc (length ls + length rs))"
      "xs1 = drop (w_slots p 0) xs" "w_slots p 0 < length xs" "w_slots p1 0 = 0" "?L < entries_size xs1 + ds"
    obtain pa' ls' k' rs' z0' where Z1: "z1 = (pa', ls', k', rs') # z0'" using 2(3) by (cases z1) auto
    have f1: "leaf_focus tr st1 p1 z1 a1 xs1" "xs1 \<noteq> []" "ct_pool st1 \<noteq> []" using 2 pool by (auto simp: leaf_moved_def)
    have e1: "extending \<longrightarrow> w_slots p1 0 < length xs1 \<and> ds + entry_size (xs1 ! w_slots p1 0) \<le> ?L" using ext 2(5-7) by simp
    have "leaf_split tr 1 ds extending st1 p1 z1 a1 xs1 (split_leaf_again tr key ds extending 0 st1 p1)"
      using split_again_step [OF tr f1(1) [unfolded Z1] f1(2,3) _ _ ds(1) 2(8) e1, where key = key and n = 0] 2(3,4,7) w(2) w0(2) Z by (simp add: Z1)
    then show ?thesis using leaf_split_after [OF 2(2)] 2(1,3) Z by simp
  qed
qed

lemma leaf_split_room: "leaf_ctx fs b xs \<Longrightarrow> int ds \<le> btrfs_leaf_free_space fs b \<longleftrightarrow> entries_size xs + ds \<le> BTRFS_LEAF_DATA_SIZE fs"
  using leaf_space(3) [of fs b xs] leaf_basic(2) [of fs b xs] by (auto simp: entries_size_def)

lemma leaf_place_nth:
  assumes "leaf_place z1 xs1 i1 = leaf_place z xs i" and "i < length xs" and "i1 < length xs1"
  shows "xs1 ! i1 = xs ! i"
proof -
  have "drop i1 xs1 @ zip_after z1 = drop i xs @ zip_after z" using assms(1) by (simp add: leaf_place_def)
  then have "hd (drop i1 xs1) = hd (drop i xs)" using assms(2,3) by (metis hd_append2 drop_eq_Nil linorder_not_le)
  then show ?thesis using assms(2,3) by (simp add: hd_drop_conv_nth)
qed

lemma split_leaf_ok:
  assumes tr: "trans_ok tr" and s: "leaf_focus tr st p z a xs" and pool: "5 \<le> length (ct_pool st)"
    and w: "Suc (width z) < BTRFS_NODEPTRS_PER_BLOCK (tr_fs tr)" and z: "length z < BTRFS_MAX_LEVEL"
    and ds: "ds \<le> BTRFS_LEAF_DATA_SIZE (tr_fs tr)" "BTRFS_LEAF_DATA_SIZE (tr_fs tr) < entries_size xs + ds"
    and ext: "extending \<Longrightarrow> w_slots p 0 < length xs"
  shows "if extending \<and> BTRFS_LEAF_DATA_SIZE (tr_fs tr) < ds + entry_size (xs ! w_slots p 0)
    then split_leaf tr key ds extending st p = Some (- EOVERFLOW, st, p)
    else leaf_split tr 5 ds extending st p z a xs (split_leaf tr key ds extending st p)"
proof -
  let ?fs = "tr_fs tr" and ?L = "BTRFS_LEAF_DATA_SIZE (tr_fs tr)" and ?i = "w_slots p 0"
  obtain l where l: "ct_bufs st a = Some l" "leaf_ctx ?fs l xs" using leaf_focus_block [OF s] by metis
  have na: "w_nodes p 0 = Some a" using s by (simp add: leaf_focus_def)
  have xs: "xs \<noteq> []" using ds by auto
  have sz: "u32_add ds (btrfs_item_size_nr l ?i) = ds + length (snd (xs ! ?i))" if extending
  proof -
    have "length (snd (xs ! ?i)) \<le> data_len xs" using ext [OF that] unfolding data_len_def by (intro member_le_sum_list) auto
    then show ?thesis using leaf_items_nr(2) [OF l(2)] ext [OF that] l(2) ds(1) leaf_data_size_small [OF trans_okD(1) [OF tr]]
      by (simp add: leaf_ctx_def leaf_repr_def)
  qed
  show ?thesis
  proof (cases "extending \<and> ?L < ds + entry_size (xs ! ?i)")
    case True
    then show ?thesis using na l(1) sz by (simp add: split_leaf_def)
  next
    case False
    let ?push = "ds \<noteq> 0 \<and> key_type key \<noteq> BTRFS_DIR_ITEM_KEY"
    obtain r st1 p1 z1 a1 xs1 where r: "(if ?push then push_for_split tr ds st p else Some (1, st, p)) = Some (r, st1, p1)" "r = 0 \<or> r = 1"
      "leaf_moved tr 2 st p z a xs st1 p1 z1 a1 xs1" "xs1 \<noteq> []" "length z1 = length z" "width z1 = width z" "?i < length xs \<longrightarrow> w_slots p1 0 < length xs1"
      "\<not> ?push \<longrightarrow> xs1 = xs"
    proof (cases ?push)
      case True
      have "2 \<le> length (ct_pool st)" using pool by simp
      from push_for_split_ok [OF tr s xs this, of ds] True that show ?thesis by auto
    next
      case False
      then show ?thesis using that [of 1 st p z a xs] leaf_moved_refl [OF s] xs by auto
    qed
    have f1: "leaf_focus tr st1 p1 z1 a1 xs1" and pl1: "3 \<le> length (ct_pool st1)" using r(3) pool by (auto simp: leaf_moved_def)
    obtain l1 where l1: "ct_bufs st1 a1 = Some l1" "leaf_ctx ?fs l1 xs1" using leaf_focus_block [OF f1] by metis
    have na1: "w_nodes p1 0 = Some a1" using f1 by (simp add: leaf_focus_def)
    let ?R = "do { (ret, st2, p2) \<leftarrow> (if w_nodes p1 1 = None then insert_new_root tr st1 p1 1 else Some (0, st1, p1));
                   if ret \<noteq> 0 then Some (ret, st2, p2) else split_leaf_again tr key ds extending 1 st2 p2 }"
    have eq: "split_leaf tr key ds extending st p = (if ?push \<and> entries_size xs1 + ds \<le> ?L then Some (0, st1, p1) else ?R)"
    proof -
      have "\<not> (extending \<and> u32_add ds (btrfs_item_size_nr l ?i) + sizeof_item > ?L)" "\<not> r < 0" using False sz r(2) by auto
      then show ?thesis
        unfolding split_leaf_def na l(1) r(1) na1 l1(1) prod.case leaf_split_room [OF l1(2)] Option.bind.simps by (simp only: if_False simp_thms conj_assoc)
    qed
    have e1: "w_slots p1 0 < length xs1 \<and> ds + entry_size (xs1 ! w_slots p1 0) \<le> ?L" if extending
    proof -
      have "w_slots p1 0 < length xs1" using r(7) ext [OF that] by simp
      moreover then have "xs1 ! w_slots p1 0 = xs ! ?i" using r(3) ext [OF that] by (intro leaf_place_nth [of z1 _ _ z]) (auto simp: leaf_moved_def)
      ultimately show ?thesis using False that by simp
    qed
    show ?thesis
    proof (cases "?push \<and> entries_size xs1 + ds \<le> ?L")
      case True
      have "leaf_moved tr 5 st p z a xs st1 p1 z1 a1 xs1" using r(3) by (simp add: leaf_moved_def)
      then have "leaf_split tr 5 ds extending st p z a xs (split_leaf tr key ds extending st p)"
        using True eq r(5) e1 unfolding leaf_split_def by fastforce
      then show ?thesis unfolding if_not_P [OF False] .
    next
      case full: False
      then have full': "?L < entries_size xs1 + ds" using r(8) ds(2) by auto
      have "leaf_split tr 3 ds extending st1 p1 z1 a1 xs1 ?R"
      proof (cases z1)
        case Nil
        obtain x pool' where pl: "ct_pool st1 = x # pool'" using pl1 by (cases "ct_pool st1") auto
        have t1: "tree_at tr st1 0 [] (ALeaf a1 xs1)" "on_path p1 0 []" using f1 Nil by (simp_all add: leaf_focus_def)
        let ?z2 = "[(x, [], fst (hd xs1), [])]" and ?p2 = "set_slot (set_node p1 (Suc 0) x) (Suc 0) 0"
        from insert_new_root_ok [OF tr t1(1) _ _ pl t1(2)] obtain st2 where
          st2: "insert_new_root tr st1 p1 (Suc 0) = Some (0, st2, ?p2)" "tree_at tr st2 0 ?z2 (ALeaf a1 xs1)" "keyed (zip_up ?z2 (ALeaf a1 xs1))"
          "uses st2 (zip_up ?z2 (ALeaf a1 xs1)) = uses st1 (ALeaf a1 xs1)" "ct_pool st2 = pool'" "ct_info st2 = ct_info st1"
          using na1 r(4) by auto
        have f2: "leaf_focus tr st2 ?p2 ?z2 a1 xs1" using st2(2,3) f1 Nil by (intro leaf_focusI) (auto simp: leaf_focus_def)
        have mv: "leaf_moved tr 1 st1 p1 z1 a1 xs1 st2 ?p2 ?z2 a1 xs1" using f2 st2(4-6) pl Nil by (simp add: leaf_moved_def leaf_place_def)
        have "leaf_split tr 2 ds extending st2 ?p2 ?z2 a1 xs1 (split_leaf_again tr key ds extending 1 st2 ?p2)"
          by (rule split_again_ok [OF tr f2 r(4)]) (use pl pl1 st2(5) ds(1) full' e1 trans_okD(4) [OF tr] in auto)
        moreover have "?R = split_leaf_again tr key ds extending 1 st2 ?p2" using st2(1) t1(2) by simp
        ultimately show ?thesis using leaf_split_after [OF mv] Nil by simp
      next
        case (Cons f z0)
        then have "w_nodes p1 1 \<noteq> None" using f1 by (cases f) (simp add: leaf_focus_def)
        then have "?R = split_leaf_again tr key ds extending 1 st1 p1" by auto
        moreover have "leaf_split tr 2 ds extending st1 p1 z1 a1 xs1 (split_leaf_again tr key ds extending 1 st1 p1)"
          by (rule split_again_ok [OF tr f1 r(4)]) (use pl1 Cons r(5,6) w z ds(1) full' e1 in auto)
        ultimately show ?thesis using leaf_split_after [OF leaf_moved_refl [OF f1, of 0]] by simp
      qed
      then have "leaf_split tr 5 ds extending st p z a xs (split_leaf tr key ds extending st p)"
        using leaf_split_after [OF r(3)] r(5) unfolding eq if_not_P [OF full] by simp
      then show ?thesis unfolding if_not_P [OF False] .
    qed
  qed
qed

end
