(* ===== verification/TreeDescent.thy ===== *)
theory TreeDescent
  imports TreeLeafSplit
begin

text \<open>
  The way down of \<open>btrfs_search_slot\<close> with a transaction. A tree that is stored, has its keys in the nodes and its items
  in order is a well-formed tree for the functions that only read.
\<close>

section \<open>Stored trees are well-formed\<close>

lemma leaf_ctx_inv:
  assumes "leaf_ctx fs b xs" and "hdr_level b = 0" and "sorted_wrt (<) (map fst xs)"
  shows "leaf_inv fs b" "leaf_items b = xs"
  using assms leaf_reprD [of fs b xs] by (auto simp: leaf_ctx_def leaf_inv_def)

lemma sorted_parts:
  assumes "sorted_wrt (<) (map fst (cs_items cs))" and "i < j" and "j < length cs" and "x \<in> set (t_items (snd (cs ! i)))" and "y \<in> set (t_items (snd (cs ! j)))"
  shows "fst x < fst y"
proof -
  have "sorted_wrt (<) (map fst (cs_items (take j cs)) @ map fst (cs_items (drop j cs)))"
    using assms(1) unfolding map_append [symmetric] cs_split(2) .
  then have s: "\<forall>x\<in>set (map fst (cs_items (take j cs))). \<forall>y\<in>set (map fst (cs_items (drop j cs))). x < y"
    unfolding sorted_wrt_append by blast
  have "cs ! i \<in> set (take j cs)" using assms(2,3) by (auto simp: in_set_conv_nth)
  moreover have "cs ! j \<in> set (drop j cs)" using assms(3) by (metis Cons_nth_drop_Suc list.set_intros(1))
  ultimately have "fst x \<in> set (map fst (cs_items (take j cs)))" "fst y \<in> set (map fst (cs_items (drop j cs)))" using assms(4,5) by auto
  with s show ?thesis by blast
qed

lemma sorted_part: "sorted_wrt (<) (map fst (cs_items cs)) \<Longrightarrow> x \<in> set cs \<Longrightarrow> sorted_wrt (<) (map fst (t_items (snd x)))"
  by (auto dest!: split_list simp: sorted_wrt_append)

lemma stored_tree_ok:
  assumes "stored fs m l t" and "m (t_addr t) = Some b" and "keyed t" and "sorted_wrt (<) (map fst (t_items t))" and "fs_ok fs"
  shows "tree_ok (store_reader m) fs l b \<and> tree_items (store_reader m) l b = t_items t"
  using assms
proof (induction l arbitrary: t b)
  case 0
  then obtain a xs where t: "t = ALeaf a xs" "leaf_at fs m a xs" by (auto simp: stored_0)
  then have "leaf_ctx fs b xs" "hdr_level b = 0" "nodesize fs \<le> eb_len b" using 0 by (auto simp: leaf_at_def block_at_def)
  then show ?case using leaf_ctx_inv [of fs b xs] 0 t(1) by simp
next
  case (Suc l)
  let ?rd = "store_reader m"
  obtain a cs where t: "t = ANode a cs" "node_at fs m (Suc l) a cs" "\<forall>x\<in>set cs. stored fs m l (snd x)" using Suc.prems(1) by (auto simp: stored_Suc)
  have mb: "m a = Some b" using Suc.prems(2) t(1) by simp
  note nb = node_block [OF t(2) mb]
  have srt: "sorted_wrt (<) (map fst (cs_items cs))" using Suc.prems(4) t(1) by simp
  have ck: "cs \<noteq> []" "\<forall>x\<in>set cs. child_ok x" using Suc.prems(3) t(1) by (auto simp: keyed_node)
  have ch: "\<exists>c. child ?rd b i = Some c \<and> tree_ok ?rd fs l c \<and> tree_items ?rd l c = t_items (snd (cs ! i))" if i: "i < length cs" for i
  proof -
    have in_cs: "cs ! i \<in> set cs" using i by simp
    obtain c where c: "block_at fs m l (t_addr (snd (cs ! i))) c" using stored_block t(3) in_cs by metis
    have "eb_ptrs b i = ptr_to m (cs ! i)" using nth_node_ptrs [of i b] i nb(2,3) by simp
    then have "child ?rd b i = Some c"
      using c by (simp add: child_def store_reader_def btrfs_node_blockptr_def btrfs_node_ptr_generation_def ptr_to_def gen_def block_at_def)
    moreover have "tree_ok ?rd fs l c \<and> tree_items ?rd l c = t_items (snd (cs ! i))"
      by (rule Suc.IH) (use t(3) in_cs c ck(2) sorted_part [OF srt in_cs] Suc.prems(5) in \<open>auto simp: block_at_def child_ok_def\<close>)
    ultimately show ?thesis by blast
  qed
  have key: "btrfs_node_key b i = fst (cs ! i)" "t_items (snd (cs ! i)) \<noteq> []" "fst (cs ! i) = fst (hd (t_items (snd (cs ! i))))" if "i < length cs" for i
    using node_key_nth [OF nb(2) that] ck(2) that by (simp_all add: child_ok_def)
  have below: "fst x < fst (cs ! j)" if "i < j" "j < length cs" "x \<in> set (t_items (snd (cs ! i)))" for i j x
    using sorted_parts [OF srt that(1,2,3), of "hd (t_items (snd (cs ! j)))"] key(2,3) [OF that(2)] by simp
  have "node_keys b = map fst cs" using key(1) nb(3) by (auto simp: node_keys_def intro: nth_equalityI)
  moreover have "sorted_wrt (<) (map fst cs)"
    unfolding sorted_wrt_iff_nth_less
  proof (intro allI impI)
    fix i j assume "i < j" "j < length (map fst cs)"
    then show "map fst cs ! i < map fst cs ! j" using below [of i j "hd (t_items (snd (cs ! i)))"] key(2,3) [of i] by simp
  qed
  ultimately have "tree_ok ?rd fs (Suc l) b"
    unfolding tree_ok.simps nb(3)
  proof (intro conjI allI impI)
    fix i assume i: "i < length cs"
    obtain c where c: "child ?rd b i = Some c" "tree_ok ?rd fs l c" "tree_items ?rd l c = t_items (snd (cs ! i))" using ch [OF i] by blast
    have "fst x < btrfs_node_key b (Suc i)" if "Suc i < length cs" "x \<in> set (t_items (snd (cs ! i)))" for x
      using below [OF _ that] key(1) [OF that(1)] by simp
    then show "case child ?rd b i of None \<Rightarrow> False
       | Some c \<Rightarrow> tree_ok ?rd fs l c \<and> tree_items ?rd l c \<noteq> [] \<and> btrfs_node_key b i = fst (hd (tree_items ?rd l c)) \<and>
           (Suc i < length cs \<longrightarrow> (\<forall>x\<in>set (tree_items ?rd l c). fst x < btrfs_node_key b (Suc i)))"
      using c key [OF i] by simp
  qed (use nb ck(1) in \<open>simp_all add: block_at_def\<close>)
  moreover have "tree_items ?rd (Suc l) b = cs_items cs"
  proof -
    have "map (subtree_items ?rd l b) [0..<length cs] = map (\<lambda>x. t_items (snd x)) cs"
      by (intro nth_equalityI) (auto simp: subtree_items_def dest!: ch)
    then show ?thesis by (simp add: tree_items_Suc nb(3))
  qed
  ultimately show ?case by (simp add: t(1))
qed

section \<open>One level\<close>

text \<open>What is known when the loop comes to a block: the tree, the path above it and the place of the key.\<close>

definition descent :: "btrfs_trans \<Rightarrow> btrfs_key \<Rightarrow> ctree \<Rightarrow> wpath \<Rightarrow> nat \<Rightarrow> frame list \<Rightarrow> atree \<Rightarrow> bool" where
  "descent tr key st p l z t \<longleftrightarrow>
     tree_at tr st l z t \<and> keyed (zip_up z t) \<and> sorted_wrt (<) (map fst (t_items (zip_up z t))) \<and> on_path p l z \<and>
     (\<forall>x\<in>set (zip_before z). fst x < key) \<and> (\<forall>x\<in>set (zip_after z). key < fst x)"

lemma parent_key:
  assumes t: "tree_at tr st l z t" and k: "keyed (zip_up z t)" and p: "on_path p l z" and b: "tree_items rd l b = t_items t"
  shows "parent_agrees rd l (view_path st (set_node p l a)) b"
proof (cases z)
  case Nil
  then show ?thesis using p by (simp add: parent_agrees_def view_path_def)
next
  case (Cons f z0)
  obtain pa ls kk rs where f: "f = (pa, ls, kk, rs)" by (cases f)
  have n: "node_at (tr_fs tr) (ct_bufs st) (Suc l) pa (ls @ (kk, t) # rs)" using tree_atD(2) [OF t] Cons f by simp
  then obtain pb where pb: "ct_bufs st pa = Some pb" by (auto simp: node_at_def block_at_def)
  have "btrfs_node_key pb (length ls) = kk" using node_key_nth [OF node_block(2) [OF n pb], of "length ls"] by simp
  moreover have "t_items t \<noteq> []" "kk = fst (hd (t_items t))" using k [unfolded keyed_zip] Cons f by auto
  ultimately show ?thesis using p Cons f pb b by (simp add: parent_agrees_def view_path_def)
qed

lemma cow_check:
  assumes tr: "trans_ok tr" and d: "descent tr key st p l z t" and pool: "ct_pool st \<noteq> []"
  obtains a1 st1 b0 b where "ct_bufs st (t_addr t) = Some b0" "hdr_level b0 = l"
    "btrfs_cow_block tr st (t_addr t) (w_nodes p (Suc l)) (w_slots p (Suc l)) = Some (0, a1, st1)"
    "ct_bufs st1 a1 = Some b" "hdr_level b = l" "descent tr key st1 (set_node p l a1) l z (set_addr a1 t)"
    "uses st1 (zip_up z (set_addr a1 t)) = uses st (zip_up z t)" "length (ct_pool st) \<le> Suc (length (ct_pool st1))" "ct_info st1 = ct_info st"
    "check_block (tr_mem tr) (tr_garbage tr) (tr_fs tr) (ct_info st1) (view_path st1 (set_node p l a1)) l = Some (0, ct_info st1)"
    "tree_ok (store_reader (ct_bufs st1)) (tr_fs tr) l b"
proof -
  note d0 = d [unfolded descent_def]
  have t: "tree_at tr st l z t" and p: "on_path p l z" using d0 by auto
  obtain b0 where b0: "block_at (tr_fs tr) (ct_bufs st) l (t_addr t) b0" using stored_block [OF tree_atD(1) [OF t]] .
  from cow_ok [OF tr t parent_of_path [OF p] pool] obtain a1 st1 where
    c: "btrfs_cow_block tr st (t_addr t) (w_nodes p (Suc l)) (w_slots p (Suc l)) = Some (0, a1, st1)" "tree_at tr st1 l z (set_addr a1 t)"
    "uses st1 (zip_up z (set_addr a1 t)) = uses st (zip_up z t)" "length (ct_pool st) \<le> Suc (length (ct_pool st1))" "ct_info st1 = ct_info st" by blast
  note t1 = tree_atD(1) [OF c(2)]
  obtain b where b: "block_at (tr_fs tr) (ct_bufs st1) l a1 b" using stored_block [OF t1] by auto
  have kk: "keyed (set_addr a1 t) = keyed t" by (cases t) (auto simp: keyed_node)
  have k1: "keyed (zip_up z (set_addr a1 t))" using d0 kk by (auto simp: keyed_zip)
  have items: "t_items (zip_up z (set_addr a1 t)) = t_items (zip_up z t)" by (simp add: zip_up_items)
  have "sorted_wrt (<) (map fst (t_items t))" using d0 by (simp add: zip_up_items sorted_wrt_append)
  then have ok: "tree_ok (store_reader (ct_bufs st1)) (tr_fs tr) l b" "tree_items (store_reader (ct_bufs st1)) l b = t_items t"
    using stored_tree_ok [OF t1, of b] b kk k1 trans_okD(1) [OF tr] by (auto simp: block_at_def keyed_zip)
  have d1: "descent tr key st1 (set_node p l a1) l z (set_addr a1 t)" using d0 c(2) k1 items by (simp add: descent_def)
  have "parent_agrees (store_reader (ct_bufs st1)) l (view_path st1 (set_node p l a1)) b"
    using parent_key [OF c(2) k1 p, of "store_reader (ct_bufs st1)" b a1] ok(2) by simp
  then have ch: "check_block (tr_mem tr) (tr_garbage tr) (tr_fs tr) (ct_info st1) (view_path st1 (set_node p l a1)) l = Some (0, ct_info st1)"
    using b by (intro check_block_ok [OF ok(1) trans_okD(1) [OF tr]]) (simp_all add: view_path_def block_at_def)
  show thesis by (rule that [OF _ _ c(1) _ _ d1 c(3-5) ch ok(1)]) (use b0 b in \<open>auto simp: block_at_def\<close>)
qed

section \<open>The leaf\<close>

text \<open>
  The end of the search: the position of the key among all items. Without an exact match the leaf has room for \<open>ins_len\<close>
  bytes; with one, the search may have given up because the item at the key could not grow by \<open>ins_len\<close>.
\<close>

definition search_end ::
    "btrfs_trans \<Rightarrow> btrfs_key \<Rightarrow> nat \<Rightarrow> u64 multiset \<Rightarrow> items \<Rightarrow> wpath \<Rightarrow> ctree \<Rightarrow> (int \<times> ctree \<times> wpath) option \<Rightarrow> bool" where
  "search_end tr key ins_len U items p st R \<longleftrightarrow>
     (\<exists>ret st1 p1 z1 a1 xs1. R = Some (ret, st1, p1) \<and> leaf_focus tr st1 p1 z1 a1 xs1 \<and> length z1 < BTRFS_MAX_LEVEL \<and>
        uses st1 (zip_up z1 (ALeaf a1 xs1)) = U \<and> path_set p1 = path_set p \<and> ct_info st1 = ct_info st \<and>
        (case leaf_place z1 xs1 (w_slots p1 0) of (bef, aft) \<Rightarrow>
           bef @ aft = items \<and> (\<forall>x\<in>set bef. fst x < key) \<and> (\<forall>x\<in>set aft. key \<le> fst x)) \<and>
        (if key \<in> fst ` set items
         then w_slots p1 0 < length xs1 \<and> fst (xs1 ! w_slots p1 0) = key \<and>
           (ret = 0 \<or> ret = - EOVERFLOW \<and> BTRFS_LEAF_DATA_SIZE (tr_fs tr) < ins_len + entry_size (xs1 ! w_slots p1 0))
         else ret = 1 \<and> entries_size xs1 + ins_len \<le> BTRFS_LEAF_DATA_SIZE (tr_fs tr)))"

lemma leaf_end:
  assumes tr: "trans_ok tr" and d: "descent tr key st p 0 z t" and pool: "6 \<le> length (ct_pool st)"
    and ins: "ins_len \<le> BTRFS_LEAF_DATA_SIZE (tr_fs tr)"
    and w: "0 < ins_len \<longrightarrow> Suc (width z) < BTRFS_NODEPTRS_PER_BLOCK (tr_fs tr)" and z: "length z < BTRFS_MAX_LEVEL"
  shows "search_end tr key ins_len (uses st (zip_up z t)) (t_items (zip_up z t)) p st (search_slot_cow_loop tr key ins_len st p (t_addr t))"
proof -
  let ?fs = "tr_fs tr" and ?L = "BTRFS_LEAF_DATA_SIZE (tr_fs tr)" and ?items = "t_items (zip_up z t)"
  have "ct_pool st \<noteq> []" using pool by auto
  obtain a1 st1 b0 b where c: "ct_bufs st (t_addr t) = Some b0" "hdr_level b0 = 0"
    "btrfs_cow_block tr st (t_addr t) (w_nodes p (Suc 0)) (w_slots p (Suc 0)) = Some (0, a1, st1)"
    "ct_bufs st1 a1 = Some b" "hdr_level b = 0" "descent tr key st1 (set_node p 0 a1) 0 z (set_addr a1 t)"
    "uses st1 (zip_up z (set_addr a1 t)) = uses st (zip_up z t)" "length (ct_pool st) \<le> Suc (length (ct_pool st1))" "ct_info st1 = ct_info st"
    "check_block (tr_mem tr) (tr_garbage tr) ?fs (ct_info st1) (view_path st1 (set_node p 0 a1)) 0 = Some (0, ct_info st1)"
    "tree_ok (store_reader (ct_bufs st1)) ?fs 0 b" by (rule cow_check [OF tr d \<open>ct_pool st \<noteq> []\<close>])
  have "stored ?fs (ct_bufs st) 0 t" using d tree_atD(1) unfolding descent_def by blast
  then obtain a xs where t: "t = ALeaf a xs" by (auto simp: stored_0)
  obtain ret slot where r: "bin_search b key 0 = (ret, slot)" by fastforce
  define p2 where "p2 = set_slot (set_node p 0 a1) 0 slot"
  note d1 = c(6) [unfolded descent_def t set_addr.simps]
  have "leaf_at ?fs (ct_bufs st1) a1 xs" using tree_atD(1) [of tr st1 0 z "ALeaf a1 xs"] d1 by simp
  then have lc: "leaf_ctx ?fs b xs" using c(4) by (auto simp: leaf_at_def block_at_def)
  have srt: "sorted_wrt (<) (map fst xs)" using d1 by (simp add: zip_up_items sorted_wrt_append)
  note li = leaf_ctx_inv [OF lc c(5) srt]
  let ?vp = "view_path st1 p2"
  have "found_at (store_reader (ct_bufs st1)) 0 ?vp b key ret"
    by (rule found_at_leaf [OF li(1)]) (use r c(4) in \<open>simp_all add: view_path_def p2_def\<close>)
  then have fd: "slot \<le> length xs" "\<forall>x\<in>set (take slot xs). fst x < key" "\<forall>x\<in>set (drop slot xs). key \<le> fst x"
    "ret = (if key \<in> fst ` set xs then 0 else 1)" "ret = 0 \<longrightarrow> slot < length xs"
    using li(2) leaf_basic(1) [OF lc] c(4) by (auto simp: found_at_def on_item_def view_path_def p2_def)
  have hit: "fst (xs ! slot) = key" if "ret = 0"
    using bin_search_leaf [OF li(1), of key] r that leaf_items_nr(3) [OF lc, of slot] fd(5) by (simp add: search_result_def)
  have items: "?items = zip_before z @ xs @ zip_after z" by (simp add: zip_up_items t)
  have kin: "key \<in> fst ` set ?items \<longleftrightarrow> key \<in> fst ` set xs" using d1 by (auto simp: items)
  have foc: "leaf_focus tr st1 p2 z a1 xs" using d1 fd(1) by (intro leaf_focusI) (simp_all add: p2_def)
  have pl: "leaf_place z xs slot = (zip_before z @ take slot xs, drop slot xs @ zip_after z)" by (simp add: leaf_place_def)
  have mid: "case leaf_place z xs slot of (bef, aft) \<Rightarrow> bef @ aft = ?items \<and> (\<forall>x\<in>set bef. fst x < key) \<and> (\<forall>x\<in>set aft. key \<le> fst x)"
    using d1 fd(2,3) by (auto simp: leaf_place_def items less_imp_le)
  have ps: "w_slots p2 0 = slot" "path_set p2 = path_set p" by (simp_all add: p2_def)
  let ?big = "0 < ins_len \<and> int ins_len > btrfs_leaf_free_space ?fs b"
  have eq: "search_slot_cow_loop tr key ins_len st p (t_addr t) =
      (if ?big then
         Option.bind (split_leaf tr key ins_len (ret = 0) st1 p2) (\<lambda>(sret, st3, p3).
           if sret > 0 then None else if sret \<noteq> 0 then Some (sret, st3, p3) else Some (ret, st3, p3))
       else Some (ret, st1, p2))"
  proof -
    have "search_slot_cow_loop tr key ins_len st p (t_addr t) =
      (let r = bin_search b key 0; q = set_slot (set_node p 0 a1) 0 (snd r) in
       if ?big then
         Option.bind (split_leaf tr key ins_len (fst r = 0) st1 q) (\<lambda>(sret, st3, p3).
           if sret > 0 then None else if sret \<noteq> 0 then Some (sret, st3, p3) else Some (fst r, st3, p3))
       else Some (fst r, st1, q))"
      by (subst search_slot_cow_loop.simps) (use c(1-5,10) in \<open>simp add: Let_def\<close>)
    then show ?thesis unfolding r Let_def fst_conv snd_conv p2_def [symmetric] .
  qed
  show ?thesis
  proof (cases ?big)
    case False
    then have room: "entries_size xs + ins_len \<le> ?L" using leaf_split_room [OF lc, of ins_len] leaf_basic(2) [OF lc] by (auto simp: entries_size_def)
    show ?thesis unfolding search_end_def eq if_not_P [OF False]
    proof (intro exI conjI)
      show "leaf_focus tr st1 p2 z a1 xs" by (rule foc)
      show "case leaf_place z xs (w_slots p2 0) of (bef, aft) \<Rightarrow> bef @ aft = ?items \<and> (\<forall>x\<in>set bef. fst x < key) \<and> (\<forall>x\<in>set aft. key \<le> fst x)"
        using mid ps by simp
      show "if key \<in> fst ` set ?items
         then w_slots p2 0 < length xs \<and> fst (xs ! w_slots p2 0) = key \<and> (ret = 0 \<or> ret = - EOVERFLOW \<and> ?L < ins_len + entry_size (xs ! w_slots p2 0))
         else ret = 1 \<and> entries_size xs + ins_len \<le> ?L"
        using kin fd(4,5) hit room ps by simp
    qed (use c(7,9) z ps t in simp_all)
  next
    case True
    then have full: "?L < entries_size xs + ins_len" using leaf_split_room [OF lc, of ins_len] by auto
    have "5 \<le> length (ct_pool st1)" "Suc (width z) < BTRFS_NODEPTRS_PER_BLOCK ?fs" "ret = 0 \<Longrightarrow> w_slots p2 0 < length xs"
      using c(8) pool w True fd(5) ps by auto
    note sl = split_leaf_ok [OF tr foc this(1,2) z ins full this(3), where key = key]
    show ?thesis
    proof (cases "ret = 0 \<and> ?L < ins_len + entry_size (xs ! slot)")
      case over: True
      then have R: "search_slot_cow_loop tr key ins_len st p (t_addr t) = Some (- EOVERFLOW, st1, p2)"
        using sl eq True ps by simp
      show ?thesis unfolding search_end_def R
      proof (intro exI conjI)
        show "leaf_focus tr st1 p2 z a1 xs" by (rule foc)
        show "case leaf_place z xs (w_slots p2 0) of (bef, aft) \<Rightarrow> bef @ aft = ?items \<and> (\<forall>x\<in>set bef. fst x < key) \<and> (\<forall>x\<in>set aft. key \<le> fst x)"
          using mid ps by simp
        show "if key \<in> fst ` set ?items
           then w_slots p2 0 < length xs \<and> fst (xs ! w_slots p2 0) = key \<and> (- EOVERFLOW = (0::int) \<or> - EOVERFLOW = (- EOVERFLOW::int) \<and> ?L < ins_len + entry_size (xs ! w_slots p2 0))
           else - EOVERFLOW = (1::int) \<and> entries_size xs + ins_len \<le> ?L"
          using kin fd(4,5) hit over ps by (auto split: if_splits)
      qed (use c(7,9) z ps t in simp_all)
    next
      case fits: False
      then have "leaf_split tr 5 ins_len (ret = 0) st1 p2 z a1 xs (split_leaf tr key ins_len (ret = 0) st1 p2)" using sl ps by auto
      then obtain st2 p3 z2 a2 xs2 where sp: "split_leaf tr key ins_len (ret = 0) st1 p2 = Some (0, st2, p3)" "leaf_moved tr 5 st1 p2 z a1 xs st2 p3 z2 a2 xs2"
        "length z2 \<le> max 1 (length z)" "entries_size xs2 + ins_len \<le> ?L" "ret = 0 \<longrightarrow> w_slots p3 0 < length xs2" by (auto simp: leaf_split_def)
      have R: "search_slot_cow_loop tr key ins_len st p (t_addr t) = Some (ret, st2, p3)" using eq True sp(1) by simp
      note mv = sp(2) [unfolded leaf_moved_def]
      have hit2: "fst (xs2 ! w_slots p3 0) = key" if "ret = 0"
        using leaf_place_nth [of z2 xs2 "w_slots p3 0" z xs slot] mv ps hit that fd(5) sp(5) by simp
      show ?thesis unfolding search_end_def R
      proof (intro exI conjI)
        show "leaf_focus tr st2 p3 z2 a2 xs2" using mv by simp
        show "case leaf_place z2 xs2 (w_slots p3 0) of (bef, aft) \<Rightarrow> bef @ aft = ?items \<and> (\<forall>x\<in>set bef. fst x < key) \<and> (\<forall>x\<in>set aft. key \<le> fst x)"
          using mid mv ps by simp
        show "if key \<in> fst ` set ?items
           then w_slots p3 0 < length xs2 \<and> fst (xs2 ! w_slots p3 0) = key \<and> (ret = 0 \<or> ret = - EOVERFLOW \<and> ?L < ins_len + entry_size (xs2 ! w_slots p3 0))
           else ret = 1 \<and> entries_size xs2 + ins_len \<le> ?L"
          using kin fd(4) hit2 sp(4,5) by simp
      qed (use c(7,9) z ps t mv sp(3) in simp_all)
    qed
  qed
qed

section \<open>A node\<close>

text \<open>The child that is entered: all items before it are below the key, all behind it are above.\<close>

lemma enter_child:
  fixes key
  assumes ok: "tree_ok rd fs (Suc l) b" and p: "node_ptrs b = map (ptr_to m) cs" and k: "\<forall>x\<in>set cs. child_ok x" "cs \<noteq> []"
    and srt: "sorted_wrt (<) (map fst (cs_items cs))"
  defines "j \<equiv> down_slot (bin_search b key (Suc l))"
  shows "j < length cs" "\<forall>x\<in>set (cs_items (take j cs)). fst x < key" "\<forall>x\<in>set (cs_items (drop (Suc j) cs)). key < fst x"
proof -
  have n: "hdr_nritems b = length cs" using arg_cong [OF p, of length] by simp
  have sorted: "sorted_wrt (<) (node_keys b)" using ok by (simp add: tree_ok.simps)
  have keys: "\<forall>i j. i < j \<longrightarrow> j < hdr_nritems b \<longrightarrow> btrfs_node_key b i < btrfs_node_key b j"
    using sorted by (auto simp: node_keys_def intro: sorted_nth_keys)
  have sr: "search_result (btrfs_node_key b) (hdr_nritems b) key (bin_search b key (Suc l))"
    by (rule bin_search_node [OF sorted]) simp
  have "0 < hdr_nritems b" using k(2) n by simp
  note ds = down_slot_ok [OF sr this keys, folded j_def, unfolded n]
  show j: "j < length cs" by (rule ds(1))
  have key: "btrfs_node_key b i = fst (cs ! i)" "fst (cs ! i) = fst (hd (t_items (snd (cs ! i))))" "t_items (snd (cs ! i)) \<noteq> []" if "i < length cs" for i
    using node_key_nth [OF p that] k(1) that by (simp_all add: child_ok_def)
  show "\<forall>x\<in>set (cs_items (take j cs)). fst x < key"
  proof
    fix x assume "x \<in> set (cs_items (take j cs))"
    then obtain c where c: "c \<in> set (take j cs)" "x \<in> set (t_items (snd c))" by auto
    obtain i where i: "i < j" "x \<in> set (t_items (snd (cs ! i)))" using in_set_takeE [OF c(1)] c(2) by metis
    have "fst x < fst (cs ! Suc i)"
      using sorted_parts [OF srt, of i "Suc i" x "hd (t_items (snd (cs ! Suc i)))"] i j key(2,3) [of "Suc i"] by simp
    with ds(2) [OF i(1)] key(1) [of "Suc i"] i(1) j show "fst x < key" by simp
  qed
  show "\<forall>x\<in>set (cs_items (drop (Suc j) cs)). key < fst x"
  proof
    fix x assume "x \<in> set (cs_items (drop (Suc j) cs))"
    then obtain c where c: "c \<in> set (drop (Suc j) cs)" "x \<in> set (t_items (snd c))" by auto
    obtain i where i: "j < i" "i < length cs" "x \<in> set (t_items (snd (cs ! i)))" using in_set_dropE [OF c(1)] c(2) by (metis Suc_le_eq)
    have "sorted_wrt (<) (map fst (t_items (snd (cs ! i))))" using sorted_part [OF srt] i(2) by simp
    then have "fst (hd (t_items (snd (cs ! i)))) \<le> fst x" using i(3) by (cases "t_items (snd (cs ! i))") (auto simp: less_imp_le)
    with ds(3) [OF i(1,2)] key [OF i(2)] show "key < fst x" by simp
  qed
qed

lemma node_step:
  assumes tr: "trans_ok tr" and d: "descent tr key st p (Suc l) z t" and pool: "4 \<le> length (ct_pool st)"
    and p: "path_set p = (0, sk, False)" and w: "0 < ins_len \<longrightarrow> width z + 3 < BTRFS_NODEPTRS_PER_BLOCK (tr_fs tr)"
    and lv: "Suc l + max 1 (length z) < BTRFS_MAX_LEVEL"
  shows "\<exists>st1 p1 z1 t1. search_slot_cow_loop tr key ins_len st p (t_addr t) = search_slot_cow_loop tr key ins_len st1 p1 (t_addr t1) \<and>
    descent tr key st1 p1 l z1 t1 \<and> uses st1 (zip_up z1 t1) = uses st (zip_up z t) \<and> t_items (zip_up z1 t1) = t_items (zip_up z t) \<and>
    path_set p1 = path_set p \<and> ct_info st1 = ct_info st \<and> length (ct_pool st) \<le> 4 + length (ct_pool st1) \<and>
    length z1 \<le> Suc (max 1 (length z)) \<and> (0 < ins_len \<longrightarrow> width z1 + 3 < BTRFS_NODEPTRS_PER_BLOCK (tr_fs tr))"
proof -
  let ?fs = "tr_fs tr" and ?N = "BTRFS_NODEPTRS_PER_BLOCK (tr_fs tr)"
  have np: "ct_pool st \<noteq> []" using pool by auto
  obtain a1 st1 b0 b where c: "ct_bufs st (t_addr t) = Some b0" "hdr_level b0 = Suc l"
    "btrfs_cow_block tr st (t_addr t) (w_nodes p (Suc (Suc l))) (w_slots p (Suc (Suc l))) = Some (0, a1, st1)"
    "ct_bufs st1 a1 = Some b" "hdr_level b = Suc l" "descent tr key st1 (set_node p (Suc l) a1) (Suc l) z (set_addr a1 t)"
    "uses st1 (zip_up z (set_addr a1 t)) = uses st (zip_up z t)" "length (ct_pool st) \<le> Suc (length (ct_pool st1))" "ct_info st1 = ct_info st"
    "check_block (tr_mem tr) (tr_garbage tr) ?fs (ct_info st1) (view_path st1 (set_node p (Suc l) a1)) (Suc l) = Some (0, ct_info st1)"
    "tree_ok (store_reader (ct_bufs st1)) ?fs (Suc l) b" by (rule cow_check [OF tr d np])
  have "stored ?fs (ct_bufs st) (Suc l) t" using d tree_atD(1) unfolding descent_def by blast
  then obtain a cs where t: "t = ANode a cs" by (auto simp: stored_Suc)
  note d1 = c(6) [unfolded descent_def t set_addr.simps]
  have "node_at ?fs (ct_bufs st1) (Suc l) a1 cs" using tree_atD(1) [of tr st1 "Suc l" z "ANode a1 cs"] d1 by simp
  note nb = node_block [OF this c(4)]
  have ck: "\<forall>x\<in>set cs. child_ok x" "cs \<noteq> []" using keyed_child d1 by blast+
  have srt: "sorted_wrt (<) (map fst (cs_items cs))" using d1 by (simp add: zip_up_items sorted_wrt_append)
  define j where "j = down_slot (bin_search b key (Suc l))"
  note ec = enter_child [OF c(11) nb(2) ck srt, of key, folded j_def]
  define p2 where "p2 = set_slot (set_node p (Suc l) a1) (Suc l) j"
  have s2: "node_state tr st1 p2 l z a1 cs" using d1 ec(1) by (simp add: node_state_def p2_def)
  have N3: "u32_sub ?N 3 = ?N - 3" using node_limit [OF tr, of 3] by simp
  let ?split = "0 < ins_len \<and> length cs \<ge> u32_sub ?N 3"
  define R where "R = (if ?split then split_node tr st1 p2 (Suc l) else Some (0, st1, p2))"
  have "w_lowest p = 0" "\<not> w_search_for_split p" using p by (simp_all add: path_set_def)
  then have eq: "search_slot_cow_loop tr key ins_len st p (t_addr t) =
      Option.bind R (\<lambda>(sret, st3, p3).
        if sret > 0 then None
        else if sret \<noteq> 0 then Some (sret, st3, p3)
        else
          Option.bind (Option.bind (w_nodes p3 (Suc l)) (ct_bufs st3)) (\<lambda>b3.
            case read_slot st3 b3 (int (w_slots p3 (Suc l))) of
              Inl _ \<Rightarrow> Some (- EIO, st3, p3)
            | Inr c \<Rightarrow> search_slot_cow_loop tr key ins_len st3 p3 c))"
    using lv by (subst search_slot_cow_loop.simps) (use c(1-5,10) in \<open>simp add: Let_def nb(3) p2_def j_def R_def case_prod_unfold cong: if_cong\<close>)
  obtain st3 p3 z3 a3 cs3 where R: "R = Some (0, st3, p3)" and mv: "moved tr 3 l st1 p2 z a1 cs st3 p3 z3 a3 cs3"
    and z3: "length z3 \<le> max 1 (length z)" and w3: "0 < ins_len \<longrightarrow> length cs3 + 3 < ?N"
  proof (cases ?split)
    case True
    have "3 \<le> length (ct_pool st1)" "2 \<le> length cs" "width z < ?N" "Suc (Suc l) < BTRFS_MAX_LEVEL"
      using c(8) pool True trans_okD(4) [OF tr] N3 w lv by auto
    from split_node_ok [OF tr s2 this] obtain st3 p3 z3 a3 cs3 where "split_node tr st1 p2 (Suc l) = Some (0, st3, p3)"
      "moved tr 3 l st1 p2 z a1 cs st3 p3 z3 a3 cs3" "length z3 = max 1 (length z)" "int (length cs3) < int ?N - 3" by blast
    then show ?thesis using that [of st3 p3 z3 a3 cs3] True by (simp add: R_def)
  next
    case False
    then have "0 < ins_len \<longrightarrow> length cs + 3 < ?N" using N3 trans_okD(4) [OF tr] by auto
    with False show ?thesis using that [of st1 p2 z a1 cs] moved_refl [OF s2, of 3] by (auto simp: R_def)
  qed
  note m3 = mv [unfolded moved_def]
  have s3: "node_state tr st3 p3 l z3 a3 cs3" and sp: "same_place z cs j z3 cs3 (w_slots p3 (Suc l))" using m3 by (simp_all add: p2_def)
  define j3 where "j3 = w_slots p3 (Suc l)"
  obtain kk t' where kt: "cs ! j = (kk, t')" by fastforce
  have pl: "j3 < length cs3" "cs3 ! j3 = (kk, t')" "zip_before z3 @ cs_items (take j3 cs3) = zip_before z @ cs_items (take j cs)"
    "cs_items (drop (Suc j3) cs3) @ zip_after z3 = cs_items (drop (Suc j) cs) @ zip_after z"
    using sp kt by (simp_all add: same_place_def j3_def)
  let ?z' = "(a3, take j3 cs3, kk, drop (Suc j3) cs3) # z3"
  have cs3: "take j3 cs3 @ (kk, t') # drop (Suc j3) cs3 = cs3" using id_take_nth_drop [OF pl(1)] pl(2) by simp
  note n3 = node_state_stored [OF s3]
  obtain b3 where b3: "ct_bufs st3 a3 = Some b3" using n3 by (auto simp: node_at_def block_at_def)
  have rd: "read_slot st3 b3 (int j3) = Inr (t_addr t')" using read_slot_child(1) [of ?fs st3 l a3 cs3 b3 j3] n3 b3 pl(1,2) by simp
  have "w_nodes p3 (Suc l) = Some a3" using s3 by (simp add: node_state_def)
  then have "search_slot_cow_loop tr key ins_len st p (t_addr t) = search_slot_cow_loop tr key ins_len st3 p3 (t_addr t')"
    using eq R b3 rd by (simp add: j3_def)
  moreover have z': "zip_up ?z' t' = zip_up z3 (ANode a3 cs3)" by (simp add: cs3)
  moreover have items: "t_items (zip_up ?z' t') = t_items (zip_up z t)"
  proof -
    have "cs_items cs = cs_items (take j cs) @ t_items t' @ cs_items (drop (Suc j) cs)"
      using arg_cong [OF id_take_nth_drop [OF ec(1)], of cs_items] kt by simp
    then have "t_items (zip_up z t) = (zip_before z @ cs_items (take j cs)) @ t_items t' @ cs_items (drop (Suc j) cs) @ zip_after z"
      by (simp add: zip_up_items t)
    then show ?thesis using pl(3,4) by (simp add: zip_up_items)
  qed
  moreover have "descent tr key st3 p3 l ?z' t'"
  proof -
    have "zip_before ?z' = zip_before z @ cs_items (take j cs)" "zip_after ?z' = cs_items (drop (Suc j) cs) @ zip_after z" using pl(3,4) by simp_all
    then have "\<forall>x\<in>set (zip_before ?z'). fst x < key" "\<forall>x\<in>set (zip_after ?z'). key < fst x" using d1 ec(2,3) by auto
    moreover have "tree_at tr st3 l ?z' t'" "on_path p3 l ?z'" "keyed (zip_up ?z' t')"
      using s3 pl(1) z' by (simp_all add: node_state_def tree_at_def j3_def)
    moreover have "sorted_wrt (<) (map fst (t_items (zip_up ?z' t')))" using items d unfolding descent_def by metis
    ultimately show ?thesis unfolding descent_def by blast
  qed
  moreover have "uses st3 (zip_up ?z' t') = uses st (zip_up z t)" using m3 c(7) z' t by simp
  moreover have "path_set p3 = path_set p" "ct_info st3 = ct_info st" "length (ct_pool st) \<le> 4 + length (ct_pool st3)" using m3 c(8,9) by (simp_all add: p2_def)
  moreover have "length ?z' \<le> Suc (max 1 (length z))" using z3 by simp
  moreover have "0 < ins_len \<longrightarrow> width ?z' + 3 < ?N" using w3 pl(1) by auto
  ultimately show ?thesis by blast
qed

section \<open>The whole search\<close>

lemma search_slot_cow_loop_ok:
  assumes tr: "trans_ok tr" and "descent tr key st p l z t" and "4 * l + 6 \<le> length (ct_pool st)"
    and "path_set p = (0, sk, False)" and ins: "ins_len \<le> BTRFS_LEAF_DATA_SIZE (tr_fs tr)"
    and "0 < ins_len \<longrightarrow> width z + 3 < BTRFS_NODEPTRS_PER_BLOCK (tr_fs tr)" and "l + max 1 (length z) < BTRFS_MAX_LEVEL"
  shows "search_end tr key ins_len (uses st (zip_up z t)) (t_items (zip_up z t)) p st (search_slot_cow_loop tr key ins_len st p (t_addr t))"
  using assms(2-4,6,7)
proof (induction l arbitrary: st p z t)
  case 0
  then show ?case by (intro leaf_end [OF tr _ _ ins]) auto
next
  case (Suc l)
  have "4 \<le> length (ct_pool st)" using Suc.prems(2) by simp
  from node_step [OF tr Suc.prems(1) this Suc.prems(3-5)] obtain st1 p1 z1 t1 where
    s: "search_slot_cow_loop tr key ins_len st p (t_addr t) = search_slot_cow_loop tr key ins_len st1 p1 (t_addr t1)"
    "descent tr key st1 p1 l z1 t1" "uses st1 (zip_up z1 t1) = uses st (zip_up z t)" "t_items (zip_up z1 t1) = t_items (zip_up z t)"
    "path_set p1 = path_set p" "ct_info st1 = ct_info st" "length (ct_pool st) \<le> 4 + length (ct_pool st1)"
    "length z1 \<le> Suc (max 1 (length z))" "0 < ins_len \<longrightarrow> width z1 + 3 < BTRFS_NODEPTRS_PER_BLOCK (tr_fs tr)" by blast
  have "search_end tr key ins_len (uses st1 (zip_up z1 t1)) (t_items (zip_up z1 t1)) p1 st1 (search_slot_cow_loop tr key ins_len st1 p1 (t_addr t1))"
    by (rule Suc.IH) (use s Suc.prems in auto)
  then show ?case using s by (simp add: search_end_def)
qed

end
