(* ===== verification/TreeInsert.thy ===== *)
theory TreeInsert
  imports TreeDescent
begin

text \<open>
  Insertion into a tree. \<open>btrfs_insert_empty_items\<close> and \<open>btrfs_insert_item\<close> are insertions into the sorted sequence of
  the items of the tree; no block is lost or used twice, and the new tree is one that the functions that read accept.
\<close>

section \<open>Trees at their root\<close>

text \<open>A tree of the transaction whose root is at level \<open>l\<close>.\<close>

definition root_tree :: "btrfs_trans \<Rightarrow> ctree \<Rightarrow> nat \<Rightarrow> atree \<Rightarrow> bool" where
  "root_tree tr st l t \<longleftrightarrow> tree_at tr st l [] t \<and> keyed t \<and> sorted_wrt (<) (map fst (t_items t))"

text \<open>The place of a key in a sorted sequence of items.\<close>

abbreviation lower_items :: "btrfs_key \<Rightarrow> items \<Rightarrow> items" where "lower_items key \<equiv> takeWhile (\<lambda>x. fst x < key)"
abbreviation upper_items :: "btrfs_key \<Rightarrow> items \<Rightarrow> items" where "upper_items key \<equiv> dropWhile (\<lambda>x. fst x < key)"

lemma split_at_key:
  assumes "bef @ aft = items" and "\<forall>x\<in>set bef. fst x < key" and "\<forall>x\<in>set aft. key \<le> fst x"
  shows "bef = lower_items key items" "aft = upper_items key items"
  using takeWhile_split [of bef aft items "\<lambda>x. fst x < key"] assms by (metis not_less)+

lemma zip_root: "leaf_focus tr st p z a xs \<Longrightarrow> xs \<noteq> [] \<Longrightarrow> sorted_wrt (<) (map fst (t_items (zip_up z (ALeaf a xs)))) \<Longrightarrow>
    root_tree tr st (length z) (zip_up z (ALeaf a xs))"
  using leaf_focus_keyed [of tr st p z a xs] by (auto simp: root_tree_def leaf_focus_def tree_at_def)

section \<open>Changing the leaf of a path\<close>

lemma leaf_rewrite:
  assumes s: "leaf_focus tr st p z a xs" and b: "ct_bufs st a = Some b" and f: "leaf_frame b b'" and c: "leaf_ctx (tr_fs tr) b' xs'"
  shows "tree_at tr (put st b') 0 z (ALeaf a xs')" "uses (put st b') (zip_up z (ALeaf a xs')) = uses st (zip_up z (ALeaf a xs))"
proof -
  let ?fs = "tr_fs tr" and ?m = "ct_bufs st"
  have t: "tree_at tr st 0 z (ALeaf a xs)" using s by (simp add: leaf_focus_def)
  note d = tree_atD [OF t]
  have "leaf_at ?fs ?m a xs" using d(1) by simp
  then have ba: "block_at ?fs ?m 0 a b" using b by (auto simp: leaf_at_def block_at_def)
  have sb: "eb_start b' = a" "hdr_generation b' = hdr_generation b" using leaf_frame_simps [OF f] ba by (simp_all add: block_at_def)
  have sto: "stored ?fs (ct_bufs (put st b')) 0 (ALeaf a xs')" using leaf_stored [OF ba f _ c, of "ct_bufs (put st b')"] sb by simp
  show u: "uses (put st b') (zip_up z (ALeaf a xs')) = uses st (zip_up z (ALeaf a xs))" by (rule uses_zip) simp
  show "tree_at tr (put st b') 0 z (ALeaf a xs')"
  proof (rule tree_at_replace [OF t sto])
    show "gen (ct_bufs (put st b')) (t_addr (ALeaf a xs)) = gen ?m (t_addr (ALeaf a xs))" using sb b by (simp add: gen_def)
    show "ct_bufs (put st b') y = ?m y" if "y \<in> set (ctx_addrs z)" for y
    proof -
      have "y \<noteq> a" using that d(4) by auto
      then show ?thesis using sb by simp
    qed
  qed (use u in simp_all)
qed

lemma fix_ctx_path: "on_path q m (fix_ctx key y) = on_path q m y"
  by (induction key y arbitrary: m rule: fix_ctx.induct) auto

lemma fixup_frame:
  assumes "tree_at tr st l z t" and "on_path p l z" and "fixup_path st p key (Suc l) n = Some st'" and "y \<in> set (t_addrs t)"
  shows "ct_bufs st' y = ct_bufs st y"
  using assms
proof (induction n arbitrary: st l z t)
  case (Suc n)
  show ?case
  proof (cases z)
    case Nil
    then show ?thesis using Suc.prems by simp
  next
    case (Cons f z0)
    obtain pa ls k rs where f: "f = (pa, ls, k, rs)" by (cases f)
    have pth: "w_nodes p (Suc l) = Some pa" "w_slots p (Suc l) = length ls" "on_path p (Suc l) z0" using Suc.prems(2) Cons f by simp_all
    note t = Suc.prems(1) [unfolded Cons f]
    obtain pb where pb: "ct_bufs st pa = Some pb" "eb_start pb = pa" using tree_atD(2) [OF t] by (auto simp: node_at_def block_at_def)
    let ?st = "put st (btrfs_set_node_key pb key (length ls))"
    have "y \<noteq> pa" using tree_atD(4) [OF t] Suc.prems(4) by auto
    then have y: "ct_bufs ?st y = ct_bufs st y" using pb(2) by (simp add: node_defs)
    show ?thesis
    proof (cases "ls = []")
      case False
      then show ?thesis using Suc.prems(3) pth pb y by (simp add: Let_def)
    next
      case True
      have "tree_at tr ?st (Suc l) z0 (ANode pa (ls @ (key, t) # rs))" using fixup_step(1) [OF t pb(1), of key] by (simp add: tree_at_def)
      moreover have "fixup_path ?st p key (Suc (Suc l)) n = Some st'" using Suc.prems(3) pth pb True by (simp add: Let_def)
      ultimately show ?thesis using Suc.IH [of ?st "Suc l" z0 "ANode pa (ls @ (key, t) # rs)"] pth(3) Suc.prems(4) y by simp
    qed
  qed
qed simp

text \<open>The items \<open>N\<close> go into the leaf at the slot of the path.\<close>

lemma leaf_insert:
  assumes s: "leaf_focus tr st p z a xs" and z: "length z < BTRFS_MAX_LEVEL" and b: "ct_bufs st a = Some b" and f: "leaf_frame b b'"
    and c: "leaf_ctx (tr_fs tr) b' (take (w_slots p 0) xs @ N @ drop (w_slots p 0) xs)" and N: "N \<noteq> []"
  defines "R \<equiv> (if w_slots p 0 = 0 then fixup_low_keys (put st b') p (fst (hd N)) 1 else Some (put st b'))"
  shows "\<exists>st1 z1. R = Some st1 \<and> leaf_focus tr st1 p z1 a (take (w_slots p 0) xs @ N @ drop (w_slots p 0) xs) \<and> ct_bufs st1 a = Some b' \<and>
    uses st1 (zip_up z1 (ALeaf a (take (w_slots p 0) xs @ N @ drop (w_slots p 0) xs))) = uses st (zip_up z (ALeaf a xs)) \<and>
    zip_before z1 = zip_before z \<and> zip_after z1 = zip_after z \<and> length z1 = length z \<and> ct_info st1 = ct_info st"
proof -
  let ?i = "w_slots p 0" and ?xs = "take (w_slots p 0) xs @ N @ drop (w_slots p 0) xs"
  note rw = leaf_rewrite [OF s b f c]
  obtain fk where fk: "ctx_keyed z fk" "xs \<noteq> [] \<longrightarrow> fk = fst (hd xs)" using s by (auto simp: leaf_focus_def)
  have i: "?i \<le> length xs" and p: "on_path p 0 z" "w_nodes p 0 = Some a" using s by (simp_all add: leaf_focus_def)
  have ba: "eb_start b' = a"
  proof -
    have "leaf_at (tr_fs tr) (ct_bufs st) a xs" using s tree_atD(1) [of tr st 0 z "ALeaf a xs"] by (simp add: leaf_focus_def)
    then show ?thesis using b leaf_frame_simps(1) [OF f] by (auto simp: leaf_at_def block_at_def)
  qed
  show ?thesis
  proof (cases "?i = 0")
    case False
    then have "hd ?xs = hd xs" "xs \<noteq> []" using i by (cases xs; simp)+
    then have "leaf_focus tr (put st b') p z a ?xs" using rw(1) fk p i by (auto simp: leaf_focus_def)
    then show ?thesis using False rw(2) ba by (intro exI [of _ "put st b'"] exI [of _ z]) (simp add: R_def)
  next
    case True
    let ?k = "fst (hd N)"
    from fixup_low_keys_ok [OF rw(1) p(1) z, of ?k] obtain st1 where
      st1: "fixup_low_keys (put st b') p ?k 1 = Some st1" "tree_at tr st1 0 (fix_ctx ?k z) (ALeaf a ?xs)"
      "uses st1 (zip_up (fix_ctx ?k z) (ALeaf a ?xs)) = uses (put st b') (zip_up z (ALeaf a ?xs))" "ct_info st1 = ct_info st" by auto
    have "ct_bufs st1 a = ct_bufs (put st b') a"
      using fixup_frame [OF rw(1) p(1), of ?k "BTRFS_MAX_LEVEL - 1" st1 a] st1(1) by (simp add: fixup_low_keys_def)
    moreover have "hd ?xs = hd N" using True N by simp
    then have "leaf_focus tr st1 p (fix_ctx ?k z) a ?xs"
      using st1(2) fix_ctx_keyed [OF fk(1), of ?k] p i by (auto simp: leaf_focus_def fix_ctx_path)
    ultimately show ?thesis using True rw(2) ba st1 by (intro exI [of _ st1] exI [of _ "fix_ctx ?k z"]) (simp add: R_def)
  qed
qed

section \<open>\<open>btrfs_search_slot\<close> and \<open>btrfs_insert_empty_items\<close>\<close>

text \<open>A path as \<open>btrfs_init_path\<close> leaves it.\<close>

definition init_path :: "wpath \<Rightarrow> bool" where
  "init_path p \<longleftrightarrow> w_nodes p = (\<lambda>_. None) \<and> w_lowest p = 0 \<and> \<not> w_search_for_split p"

text \<open>The blocks that the search and the insertion may need.\<close>

definition pool_ok :: "ctree \<Rightarrow> nat \<Rightarrow> bool" where
  "pool_ok st l \<longleftrightarrow> 4 * l + 6 \<le> length (ct_pool st)"

lemma search_slot_cow_ok:
  assumes tr: "trans_ok tr" and t: "root_tree tr st l t" and l: "l < 7" and pool: "pool_ok st l" and p: "init_path p"
    and ins: "ins_len \<le> BTRFS_LEAF_DATA_SIZE (tr_fs tr)"
  shows "search_end tr key ins_len (uses st t) (t_items t) p st (search_slot_cow tr key ins_len st p)"
proof -
  have d: "descent tr key st p l [] t" using t p by (simp add: root_tree_def descent_def init_path_def)
  have "ct_node st = t_addr t" using t by (simp add: root_tree_def tree_at_def)
  moreover have "path_set p = (0, w_skip_check p, False)" using p by (simp add: path_set_def init_path_def)
  then have "search_end tr key ins_len (uses st (zip_up [] t)) (t_items (zip_up [] t)) p st (search_slot_cow_loop tr key ins_len st p (t_addr t))"
    using tr d pool l ins trans_okD(4) [OF tr] by (intro search_slot_cow_loop_ok) (auto simp: pool_ok_def)
  ultimately show ?thesis by (simp add: search_slot_cow_def)
qed

lemma search_endE:
  assumes "search_end tr key n U items p st R"
  obtains ret st1 p1 z1 a1 xs1 where "R = Some (ret, st1, p1)" "leaf_focus tr st1 p1 z1 a1 xs1" "length z1 < BTRFS_MAX_LEVEL"
    "uses st1 (zip_up z1 (ALeaf a1 xs1)) = U" "ct_info st1 = ct_info st"
    "case leaf_place z1 xs1 (w_slots p1 0) of (bef, aft) \<Rightarrow> bef @ aft = items \<and> (\<forall>x\<in>set bef. fst x < key) \<and> (\<forall>x\<in>set aft. key \<le> fst x)"
    "if key \<in> fst ` set items
     then w_slots p1 0 < length xs1 \<and> fst (xs1 ! w_slots p1 0) = key \<and>
       (ret = 0 \<or> ret = - EOVERFLOW \<and> BTRFS_LEAF_DATA_SIZE (tr_fs tr) < n + entry_size (xs1 ! w_slots p1 0))
     else ret = 1 \<and> entries_size xs1 + n \<le> BTRFS_LEAF_DATA_SIZE (tr_fs tr)"
  using assms unfolding search_end_def by (elim exE conjE) (rule that)

text \<open>What an insertion returns for a key that is there: \<open>-EOVERFLOW\<close> only if one leaf could not hold the item grown by \<open>n\<close> bytes.\<close>

definition exists_error :: "btrfs_trans \<Rightarrow> btrfs_key \<Rightarrow> nat \<Rightarrow> items \<Rightarrow> int \<Rightarrow> bool" where
  "exists_error tr key n items ret \<longleftrightarrow> ret = - EEXIST \<or>
     ret = - EOVERFLOW \<and> (\<exists>x\<in>set items. fst x = key \<and> BTRFS_LEAF_DATA_SIZE (tr_fs tr) < n + entry_size x)"

text \<open>The leaf has gained the new items \<open>N\<close>, at the place of their first key among all items.\<close>

definition gained ::
    "btrfs_trans \<Rightarrow> (btrfs_key \<times> nat) list \<Rightarrow> items \<Rightarrow> extent_buffer option \<Rightarrow> nat \<Rightarrow> frame list \<Rightarrow> items \<Rightarrow> bool" where
  "gained tr new items b i z xs1 \<longleftrightarrow>
     (\<exists>leaf leaf1 N A B. xs1 = A @ N @ B \<and> i = length A \<and> leaf_ctx (tr_fs tr) leaf (A @ B) \<and>
       insert_empty_items (tr_fs tr) leaf (length A) new = Some leaf1 \<and> b = Some leaf1 \<and> leaf_frame leaf leaf1 \<and>
       entries_size (A @ B) + (sum_list (map snd new) + sizeof_item * length new) \<le> BTRFS_LEAF_DATA_SIZE (tr_fs tr) \<and>
       map fst N = map fst new \<and> map (length \<circ> snd) N = map snd new \<and>
       zip_before z @ A = lower_items (fst (hd new)) items \<and> B @ zip_after z = upper_items (fst (hd new)) items)"

lemma insert_empty_items_tree:
  fixes new :: "(btrfs_key \<times> nat) list"
  assumes tr: "trans_ok tr" and t: "root_tree tr st l t" and l: "l < 7" and pool: "pool_ok st l" and p: "init_path p" and new: "new \<noteq> []"
    and size: "sum_list (map snd new) + sizeof_item * length new \<le> BTRFS_LEAF_DATA_SIZE (tr_fs tr)"
  defines "key \<equiv> fst (hd new)"
  shows "\<exists>ret st1 p1 z1 a1 xs1. btrfs_insert_empty_items tr st p new = Some (ret, st1, p1) \<and> leaf_focus tr st1 p1 z1 a1 xs1 \<and> xs1 \<noteq> [] \<and>
    uses st1 (zip_up z1 (ALeaf a1 xs1)) = uses st t \<and> ct_info st1 = ct_info st \<and> length z1 < BTRFS_MAX_LEVEL \<and>
    (if key \<in> fst ` set (t_items t)
     then exists_error tr key (sum_list (map snd new) + sizeof_item * length new) (t_items t) ret \<and> t_items (zip_up z1 (ALeaf a1 xs1)) = t_items t
     else ret = 0 \<and> gained tr new (t_items t) (ct_bufs st1 a1) (w_slots p1 0) z1 xs1)"
proof -
  let ?fs = "tr_fs tr" and ?L = "BTRFS_LEAF_DATA_SIZE (tr_fs tr)" and ?T = "sum_list (map snd new)"
  have L: "?L < 65536" by (rule leaf_data_size_small [OF trans_okD(1) [OF tr]])
  have "fold (\<lambda>(_, sz) t. u32_add t sz) new 0 = ?T" using total_data [of 0 new] size L by simp
  moreover have "u32_add ?T (length new * sizeof_item) = ?T + sizeof_item * length new" using size L by (simp add: ac_simps)
  ultimately have total: "u32_add (fold (\<lambda>(_, sz) t. u32_add t sz) new 0) (length new * sizeof_item) = ?T + sizeof_item * length new" by simp
  let ?n = "?T + sizeof_item * length new"
  obtain ret st1 p1 z1 a1 xs1 where
    s: "search_slot_cow tr key ?n st p = Some (ret, st1, p1)" "leaf_focus tr st1 p1 z1 a1 xs1" "length z1 < BTRFS_MAX_LEVEL"
    "uses st1 (zip_up z1 (ALeaf a1 xs1)) = uses st t" "ct_info st1 = ct_info st"
    "case leaf_place z1 xs1 (w_slots p1 0) of (bef, aft) \<Rightarrow> bef @ aft = t_items t \<and> (\<forall>x\<in>set bef. fst x < key) \<and> (\<forall>x\<in>set aft. key \<le> fst x)"
    "if key \<in> fst ` set (t_items t)
     then w_slots p1 0 < length xs1 \<and> fst (xs1 ! w_slots p1 0) = key \<and>
       (ret = 0 \<or> ret = - EOVERFLOW \<and> ?L < ?n + entry_size (xs1 ! w_slots p1 0))
     else ret = 1 \<and> entries_size xs1 + ?n \<le> ?L"
    by (rule search_endE [OF search_slot_cow_ok [OF tr t l pool p size, of key]])
  let ?i = "w_slots p1 0" and ?bef = "zip_before z1 @ take (w_slots p1 0) xs1" and ?aft = "drop (w_slots p1 0) xs1 @ zip_after z1"
  have place: "?bef @ ?aft = t_items t" "\<forall>x\<in>set ?bef. fst x < key" "\<forall>x\<in>set ?aft. key \<le> fst x" using s(6) by (auto simp: leaf_place_def)
  note at = split_at_key [OF place]
  have items: "t_items (zip_up z1 (ALeaf a1 xs1)) = t_items t"
    using place(1) unfolding zip_up_items t_items.simps by (metis append.assoc append_take_drop_id)
  have eq: "btrfs_insert_empty_items tr st p new =
      (if ret = 0 then Some (- EEXIST, st1, p1)
       else if ret < 0 then Some (ret, st1, p1)
       else
         do {
           la \<leftarrow> w_nodes p1 0;
           leaf \<leftarrow> ct_bufs st1 la;
           leaf1 \<leftarrow> insert_empty_items ?fs leaf ?i new;
           let st2 = put st1 leaf1;
           st3 \<leftarrow> (if ?i = 0 then fixup_low_keys st2 p1 key 1 else Some st2);
           Some (0, st3, p1)
         })"
    using s(1) unfolding btrfs_insert_empty_items_def Let_def total key_def [symmetric] by simp
  show ?thesis
  proof (cases "key \<in> fst ` set (t_items t)")
    case True
    then have x: "xs1 \<noteq> []" "xs1 ! ?i \<in> set xs1" "fst (xs1 ! ?i) = key" and r: "ret = 0 \<or> ret = - EOVERFLOW \<and> ?L < ?n + entry_size (xs1 ! ?i)"
      using s(7) by auto
    have "xs1 ! ?i \<in> set (t_items t)" using x(2) by (simp flip: items add: zip_up_items)
    let ?r = "if ret = 0 then - EEXIST else - EOVERFLOW"
    have "btrfs_insert_empty_items tr st p new = Some (?r, st1, p1)" using eq r by (elim disjE) simp_all
    moreover have "exists_error tr key ?n (t_items t) ?r" using r x(3) \<open>xs1 ! ?i \<in> set (t_items t)\<close> by (auto simp: exists_error_def)
    ultimately show ?thesis using True s(2-5) items x(1)
      by (intro exI [of _ ?r] exI [of _ st1] exI [of _ p1] exI [of _ z1] exI [of _ a1] exI [of _ xs1]) (simp only: if_True simp_thms)
  next
    case False
    then have r: "ret = 1" "entries_size xs1 + ?n \<le> ?L" using s(7) by auto
    obtain leaf where leaf: "ct_bufs st1 a1 = Some leaf" "leaf_ctx ?fs leaf xs1" using leaf_focus_block [OF s(2)] by metis
    have i: "?i \<le> length xs1" "w_nodes p1 0 = Some a1" using s(2) by (simp_all add: leaf_focus_def)
    obtain leaf1 N where ins: "insert_empty_items ?fs leaf ?i new = Some leaf1" "leaf_ctx ?fs leaf1 (take ?i xs1 @ N @ drop ?i xs1)"
      "map fst N = map fst new" "map (length \<circ> snd) N = map snd new" "leaf_frame leaf leaf1"
      by (rule insert_empty_items_ok [OF leaf(2) i(1), of new]) (use r(2) in \<open>simp_all add: entries_size_def algebra_simps\<close>)
    have N: "N \<noteq> []" "fst (hd N) = key" using ins(3) new by (auto simp: key_def) (metis list.map_disc_iff list.map_sel(1))
    from leaf_insert [OF s(2,3) leaf(1) ins(5,2) N(1), unfolded N(2)] obtain st3 z3 where
      st3: "(if ?i = 0 then fixup_low_keys (put st1 leaf1) p1 key 1 else Some (put st1 leaf1)) = Some st3"
      "leaf_focus tr st3 p1 z3 a1 (take ?i xs1 @ N @ drop ?i xs1)" "ct_bufs st3 a1 = Some leaf1"
      "uses st3 (zip_up z3 (ALeaf a1 (take ?i xs1 @ N @ drop ?i xs1))) = uses st1 (zip_up z1 (ALeaf a1 xs1))"
      "zip_before z3 = zip_before z1" "zip_after z3 = zip_after z1" "length z3 = length z1" "ct_info st3 = ct_info st1" by blast
    have res: "btrfs_insert_empty_items tr st p new = Some (0, st3, p1)"
      unfolding eq r(1) i(2) Option.bind.simps leaf(1) ins(1) Let_def st3(1) by simp
    have len: "length (take ?i xs1) = ?i" using i(1) by simp
    show ?thesis
    proof (rule exI [of _ 0], rule exI [of _ st3], rule exI [of _ p1], rule exI [of _ z3], rule exI [of _ a1],
        rule exI [of _ "take ?i xs1 @ N @ drop ?i xs1"], intro conjI)
      have "gained tr new (t_items t) (ct_bufs st3 a1) ?i z3 (take ?i xs1 @ N @ drop ?i xs1)"
        unfolding gained_def
        by (rule exI [of _ leaf], rule exI [of _ leaf1], rule exI [of _ N], rule exI [of _ "take ?i xs1"], rule exI [of _ "drop ?i xs1"])
          (use len leaf ins(1,3-5) r(2) st3(3,5,6) at in \<open>simp add: key_def\<close>)
      then show "if key \<in> fst ` set (t_items t)
        then exists_error tr key ?n (t_items t) 0 \<and> t_items (zip_up z3 (ALeaf a1 (take ?i xs1 @ N @ drop ?i xs1))) = t_items t
        else (0::int) = 0 \<and> gained tr new (t_items t) (ct_bufs st3 a1) ?i z3 (take ?i xs1 @ N @ drop ?i xs1)"
        unfolding if_not_P [OF False] by simp
    qed (use res st3(2,4,7,8) s(3-5) N(1) in simp_all)
  qed
qed

section \<open>\<open>btrfs_insert_item\<close>\<close>

lemma sorted_insert:
  assumes "sorted_wrt (<) (map fst items)" and "key \<notin> fst ` set items"
  shows "sorted_wrt (<) (map fst (lower_items key items @ (key, bytes) # upper_items key items))"
proof -
  have s: "sorted_wrt (<) (map fst (lower_items key items) @ map fst (upper_items key items))"
    using assms(1) unfolding map_append [symmetric] takeWhile_dropWhile_id .
  have lo: "\<forall>x\<in>set (lower_items key items). fst x < key" by (auto dest: set_takeWhileD)
  have "key < fst x" if x: "x \<in> set (upper_items key items)" for x
  proof -
    obtain y ys where y: "upper_items key items = y # ys" using x by (cases "upper_items key items") auto
    have "\<not> fst y < key" using hd_dropWhile [of "\<lambda>x. fst x < key" items] y by simp
    moreover have "y \<in> set items" using y set_dropWhileD [of y "\<lambda>x. fst x < key" items] by simp
    ultimately have "key < fst y" using assms(2) by force
    moreover have "fst y \<le> fst x" using x y s by (auto simp: sorted_wrt_append less_imp_le)
    ultimately show ?thesis by simp
  qed
  with lo s show ?thesis by (auto simp: sorted_wrt_append)
qed

lemma insert_item_tree:
  assumes tr: "trans_ok tr" and t: "root_tree tr st l t" and l: "l < 7" and pool: "pool_ok st l"
    and size: "length bytes + sizeof_item \<le> BTRFS_LEAF_DATA_SIZE (tr_fs tr)"
  shows "\<exists>ret st1 l1 t1. btrfs_insert_item tr True st key bytes = Some (ret, st1) \<and> root_tree tr st1 l1 t1 \<and> l1 < BTRFS_MAX_LEVEL \<and> uses st1 t1 = uses st t \<and>
    (if key \<in> fst ` set (t_items t) then exists_error tr key (length bytes + sizeof_item) (t_items t) ret \<and> t_items t1 = t_items t
     else ret = 0 \<and> t_items t1 = lower_items key (t_items t) @ (key, bytes) # upper_items key (t_items t))"
proof -
  let ?fs = "tr_fs tr" and ?L = "BTRFS_LEAF_DATA_SIZE (tr_fs tr)" and ?new = "[(key, length bytes)]"
  have p: "init_path btrfs_init_path" by (simp add: init_path_def btrfs_init_path_def)
  have sz: "sum_list (map snd ?new) + sizeof_item * length ?new \<le> ?L" using size by simp
  have srt: "sorted_wrt (<) (map fst (t_items t))" using t by (simp add: root_tree_def)
  from insert_empty_items_tree [OF tr t l pool p list.distinct(2) sz, unfolded list.sel fst_conv] obtain ret st1 p1 z1 a1 xs1 where
    s: "btrfs_insert_empty_items tr st btrfs_init_path ?new = Some (ret, st1, p1)" "leaf_focus tr st1 p1 z1 a1 xs1" "xs1 \<noteq> []"
    "uses st1 (zip_up z1 (ALeaf a1 xs1)) = uses st t" "length z1 < BTRFS_MAX_LEVEL" and
    c: "if key \<in> fst ` set (t_items t)
     then exists_error tr key (sum_list (map snd ?new) + sizeof_item * length ?new) (t_items t) ret \<and> t_items (zip_up z1 (ALeaf a1 xs1)) = t_items t
     else ret = 0 \<and> gained tr ?new (t_items t) (ct_bufs st1 a1) (w_slots p1 0) z1 xs1"
    by (elim exE conjE)
  show ?thesis
  proof (cases "key \<in> fst ` set (t_items t)")
    case True
    then have r: "exists_error tr key (length bytes + sizeof_item) (t_items t) ret" "t_items (zip_up z1 (ALeaf a1 xs1)) = t_items t" using c by simp_all
    then have "btrfs_insert_item tr True st key bytes = Some (ret, st1)" using s(1) by (auto simp: btrfs_insert_item_def exists_error_def)
    moreover have "root_tree tr st1 (length z1) (zip_up z1 (ALeaf a1 xs1))" using zip_root [OF s(2,3)] r(2) srt by simp
    ultimately show ?thesis using True r s(4,5)
      by (intro exI [of _ ret] exI [of _ st1] exI [of _ "length z1"] exI [of _ "zip_up z1 (ALeaf a1 xs1)"]) simp
  next
    case False
    from c False have ret: "ret = 0" and "gained tr ?new (t_items t) (ct_bufs st1 a1) (w_slots p1 0) z1 xs1" by auto
    then obtain leaf leaf1 N A B where n0: "xs1 = A @ N @ B" "w_slots p1 0 = length A"
      "leaf_ctx ?fs leaf (A @ B)" "insert_empty_items ?fs leaf (length A) ?new = Some leaf1" "ct_bufs st1 a1 = Some leaf1" "leaf_frame leaf leaf1"
      "entries_size (A @ B) + (sum_list (map snd ?new) + sizeof_item * length ?new) \<le> ?L" "map fst N = map fst ?new"
      "map (length \<circ> snd) N = map snd ?new" "zip_before z1 @ A = lower_items (fst (hd ?new)) (t_items t)"
      "B @ zip_after z1 = upper_items (fst (hd ?new)) (t_items t)" unfolding gained_def by blast
    have "entries_size (A @ B) + (length bytes + sizeof_item) \<le> ?L" "map fst N = [key]" "map (length \<circ> snd) N = [length bytes]"
      "zip_before z1 @ A = lower_items key (t_items t)" "B @ zip_after z1 = upper_items key (t_items t)" using n0(7-11) by simp_all
    note n = ret n0(1-6) this
    obtain leaf2 where i2: "insert_item ?fs leaf (length A) key bytes = Some leaf2" "leaf_ctx ?fs leaf2 (A @ (key, bytes) # B)" "leaf_frame leaf leaf2"
      using insert_item_ok [OF n(4), of "length A" bytes key] n(8) by (auto simp: entries_size_def)
    then have l2: "leaf2 = write_data leaf1 bytes (btrfs_item_offset_nr leaf1 (length A))" using n(5) by (simp add: insert_item_def)
    have fr: "leaf_frame leaf1 leaf2" by (simp add: l2 leaf_frame_def write_data_def)
    let ?st = "put st1 leaf2" and ?xs = "A @ (key, bytes) # B"
    have na: "w_nodes p1 0 = Some a1" using s(2) by (simp add: leaf_focus_def)
    have res: "btrfs_insert_item tr True st key bytes = Some (0, ?st)"
      using s(1) n(1,3,6) na by (simp add: btrfs_insert_item_def l2)
    obtain b where N: "N = [(key, b)]" using n(9) by auto
    note rw = leaf_rewrite [OF s(2) n(6) fr i2(2)]
    have "fst (hd ?xs) = fst (hd xs1)" unfolding n(2) N by (cases A) simp_all
    then have "leaf_focus tr ?st p1 z1 a1 ?xs" using s(2,3) rw(1) n(2) N by (auto simp: leaf_focus_def)
    moreover have items: "t_items (zip_up z1 (ALeaf a1 ?xs)) = lower_items key (t_items t) @ (key, bytes) # upper_items key (t_items t)"
      by (simp add: zip_up_items flip: n(11,12))
    moreover have "sorted_wrt (<) (map fst (t_items (zip_up z1 (ALeaf a1 ?xs))))" unfolding items by (rule sorted_insert [OF srt False])
    ultimately have "root_tree tr ?st (length z1) (zip_up z1 (ALeaf a1 ?xs))" by (intro zip_root) simp_all
    then show ?thesis using False res items rw(2) s(4,5)
      by (intro exI [of _ 0] exI [of _ ?st] exI [of _ "length z1"] exI [of _ "zip_up z1 (ALeaf a1 ?xs)"]) simp
  qed
qed

section \<open>Reading what is stored\<close>

text \<open>The search that only reads finds every item of a stored tree, and nothing else.\<close>

definition lookup_item :: "btrfs_trans \<Rightarrow> ctree \<Rightarrow> btrfs_key \<Rightarrow> u8 list option" where
  "lookup_item tr st key =
     do {
       b \<leftarrow> ct_bufs st (ct_node st);
       (ret, p, _) \<leftarrow> btrfs_search_slot (tr_mem tr) (tr_garbage tr) (tr_fs tr) (store_reader (ct_bufs st)) b key (view_path st btrfs_init_path) (ct_info st);
       leaf \<leftarrow> nodes p 0;
       if ret = 0 then Some (snd (leaf_items leaf ! slots p 0)) else None
     }"

lemma root_tree_lookup:
  assumes t: "root_tree tr st l t" and tr: "trans_ok tr" and l: "l < BTRFS_MAX_LEVEL"
  shows "lookup_item tr st key = map_of (t_items t) key"
proof -
  let ?fs = "tr_fs tr" and ?m = "ct_bufs st"
  note r = t [unfolded root_tree_def]
  have ta: "tree_at tr st l [] t" using r by simp
  note d = tree_atD [OF ta]
  obtain b where b: "block_at ?fs ?m l (t_addr t) b" using stored_block [OF d(1)] .
  then have mb: "?m (t_addr t) = Some b" by (simp add: block_at_def)
  have ok: "tree_ok (store_reader ?m) ?fs l b" "tree_items (store_reader ?m) l b = t_items t"
    using stored_tree_ok [OF d(1) mb] r trans_okD(1) [OF tr] by auto
  have p: "fresh_path (view_path st btrfs_init_path)" by (simp add: fresh_path_def view_path_def btrfs_init_path_def)
  obtain ret p' where s: "btrfs_search_slot (tr_mem tr) (tr_garbage tr) ?fs (store_reader ?m) b key (view_path st btrfs_init_path) (ct_info st) = Some (ret, p', ct_info st)"
    "tree_path (store_reader ?m) ?fs l b p'" "found_at (store_reader ?m) l p' b key ret"
    using search_slot_ok [OF ok(1) trans_okD(1) [OF tr] l p] by metis
  obtain leaf post where leaf: "nodes p' 0 = Some leaf" "items_after (store_reader ?m) l p' b = drop (slots p' 0) (leaf_items leaf) @ post"
    using path_leaf [OF s(2)] by metis
  have eq: "lookup_item tr st key = (if ret = 0 then Some (snd (leaf_items leaf ! slots p' 0)) else None)"
    using mb d(3) s(1) leaf(1) by (simp add: lookup_item_def)
  have ret: "ret = (if key \<in> fst ` set (t_items t) then 0 else 1)" "ret = 0 \<Longrightarrow> on_item p'" using s(3) ok(2) by (simp_all add: found_at_def)
  show ?thesis
  proof (cases "key \<in> fst ` set (t_items t)")
    case False
    then show ?thesis using eq ret(1) map_of_eq_None_iff [of "t_items t" key] by simp
  next
    case True
    then obtain bytes where x: "(key, bytes) \<in> set (t_items t)" by auto
    have on: "on_item p'" using True ret by simp
    obtain y ys where y: "items_after (store_reader ?m) l p' b = y # ys" using on_item_key [OF s(2) on] by blast
    have "slots p' 0 < hdr_nritems leaf" using on leaf(1) by (simp add: on_item_def)
    then have yn: "leaf_items leaf ! slots p' 0 = y"
      using y leaf(2) by (metis Cons_nth_drop_Suc append_Cons length_leaf_items list.inject)
    have pi: "t_items t = items_before (store_reader ?m) l p' b @ y # ys"
      using path_items [of "store_reader ?m" l p' b] s(2) y(1) ok(2) by (simp add: tree_path_def)
    have srt: "sorted_wrt (<) (map fst (t_items t))" using r by simp
    have "(key, bytes) \<in> set (y # ys)" using x pi s(3) by (auto simp: found_at_def)
    moreover have "key \<le> fst y" using s(3) y by (simp add: found_at_def)
    moreover have "fst y < fst w" if "w \<in> set ys" for w using srt that pi by (auto simp: sorted_wrt_append)
    ultimately have "y = (key, bytes)" by fastforce
    moreover have "distinct (map fst (t_items t))" using srt by (simp add: strict_sorted_iff)
    ultimately show ?thesis using eq ret(1) True yn x by simp
  qed
qed

end
