(* ===== verification/TreeFrozen.thy ===== *)
theory TreeFrozen
  imports TreeLeaf
begin

text \<open>
  Copy on write is safe: a search or an insertion, whatever it finds in the blocks and whatever the extent allocator answers,
  never changes a block that the transaction does not own. This is a matter of the order of the copies and the changes, so
  nothing is assumed about the tree.
\<close>

section \<open>Blocks of the transaction\<close>

text \<open>A block that belongs to the transaction: \<open>should_cow_block\<close> says that it may be changed in place.\<close>

definition own :: "btrfs_trans \<Rightarrow> ctree \<Rightarrow> u64 \<Rightarrow> bool" where
  "own tr st a \<longleftrightarrow> (\<exists>b. ct_bufs st a = Some b \<and> \<not> should_cow_block tr b)"

definition buffers_ok :: "ctree \<Rightarrow> bool" where
  "buffers_ok st \<longleftrightarrow> (\<forall>a b. ct_bufs st a = Some b \<longrightarrow> eb_start b = a)"

text \<open>From \<open>st\<close> to \<open>st'\<close> the blocks of earlier transactions stay as they are, unless the allocator has handed out their address.\<close>

definition frozen :: "btrfs_trans \<Rightarrow> ctree \<Rightarrow> ctree \<Rightarrow> bool" where
  "frozen tr st st' \<longleftrightarrow> buffers_ok st' \<and> set (ct_pool st') \<subseteq> set (ct_pool st) \<and> (\<forall>a. own tr st a \<longrightarrow> own tr st' a) \<and>
     (\<forall>a b. ct_bufs st a = Some b \<longrightarrow> should_cow_block tr b \<longrightarrow> a \<notin> set (ct_pool st) \<longrightarrow> ct_bufs st' a = Some b)"

lemma frozen_refl: "buffers_ok st \<Longrightarrow> frozen tr st st"
  by (simp add: frozen_def)

lemma frozen_trans [trans]: "frozen tr st st1 \<Longrightarrow> frozen tr st1 st2 \<Longrightarrow> frozen tr st st2"
  unfolding frozen_def by blast

lemma frozenD: "frozen tr st st' \<Longrightarrow> buffers_ok st'" "frozen tr st st' \<Longrightarrow> own tr st a \<Longrightarrow> own tr st' a"
  by (simp_all add: frozen_def)

lemma frozen_calls [simp]: "frozen tr st (st'\<lparr>ct_calls := c\<rparr>) = frozen tr st st'" "frozen tr st (st'\<lparr>ct_info := i\<rparr>) = frozen tr st st'"
    "frozen tr st (st'\<lparr>ct_node := x\<rparr>) = frozen tr st st'"
  by (simp_all add: frozen_def buffers_ok_def own_def)

lemma own_calls [simp]: "own tr (st\<lparr>ct_calls := c\<rparr>) = own tr st" "own tr (st\<lparr>ct_info := i\<rparr>) = own tr st" "own tr (st\<lparr>ct_node := x\<rparr>) = own tr st"
    "own tr (st\<lparr>ct_pool := q\<rparr>) = own tr st"
    "buffers_ok (st\<lparr>ct_calls := c\<rparr>) = buffers_ok st" "buffers_ok (st\<lparr>ct_info := i\<rparr>) = buffers_ok st" "buffers_ok (st\<lparr>ct_pool := q\<rparr>) = buffers_ok st"
  by (simp_all add: own_def buffers_ok_def fun_eq_iff)

text \<open>A change in place.\<close>

lemma frozen_put:
  assumes "buffers_ok st" and "own tr st (eb_start b)" and "\<not> should_cow_block tr b"
  shows "frozen tr st (put st b)" "own tr (put st b) (eb_start b)"
  using assms by (auto simp: frozen_def buffers_ok_def own_def)

text \<open>A new block.\<close>

lemma frozen_alloc:
  assumes "buffers_ok st" and "alloc_block tr st l key hint = (Inr new, st1)" and "eb_start b = eb_start new" and "\<not> should_cow_block tr b"
  shows "frozen tr st (put st1 b)" "own tr (put st1 b) (eb_start b)"
  using assms by (auto simp: alloc_block_def frozen_def buffers_ok_def own_def split: list.splits)

lemma alloc_fails: "alloc_block tr st l key hint = (Inl e, st1) \<Longrightarrow> st1 = st"
  by (auto simp: alloc_block_def split: list.splits)

text \<open>Whether a block is owned depends on its generation and its flags.\<close>

lemma should_cow_cong: "hdr_generation b' = hdr_generation b \<Longrightarrow> hdr_flags b' = hdr_flags b \<Longrightarrow> should_cow_block tr b' = should_cow_block tr b"
  by (simp add: should_cow_block_def btrfs_header_flag_def)

lemma should_cow_frames:
  "node_frame b b' \<Longrightarrow> should_cow_block tr b' = should_cow_block tr b" "leaf_frame b b' \<Longrightarrow> should_cow_block tr b' = should_cow_block tr b"
  using should_cow_cong [of b' b] node_frame_simps [of b b'] leaf_frame_simps [of b b'] by auto

lemma new_block_owned:
  "\<not> should_cow_block tr (init_header tr b l)" "\<not> should_cow_block tr (cow_copy tr buf new)"
proof -
  show "\<not> should_cow_block tr (init_header tr b l)"
    by (simp add: should_cow_block_def btrfs_header_flag_def init_header_def btrfs_set_header_backref_rev_def)
  have f: "(x AND NOT 3) AND 1 = 0" "(x AND NOT 3) AND 2 = 0" for x :: u64 by (simp_all add: and.assoc)
  have g: "((x AND NOT 3) OR 2) AND 1 = 0" for x :: u64 by (simp add: and.assoc bit.conj_disj_distrib2)
  show "\<not> should_cow_block tr (cow_copy tr buf new)"
    using f g by (auto simp: should_cow_block_def btrfs_header_flag_def cow_copy_def Let_def btrfs_set_header_backref_rev_def
        btrfs_clear_header_flag_def btrfs_set_header_flag_def)
qed

section \<open>Copy on write\<close>

lemma must_state: "must (ext_do tr st c) = Some st' \<Longrightarrow> \<exists>cs. st' = st\<lparr>ct_calls := cs\<rparr>"
  by (auto simp: must_def ext_do_def split: if_splits)

lemma update_ref_state: "update_ref_for_cow tr st buf cow = Some st' \<Longrightarrow> \<exists>cs. st' = st\<lparr>ct_calls := cs\<rparr>"
  by (auto simp: update_ref_for_cow_def Let_def must_def ext_do_def bind_eq_Some_conv split: if_splits prod.splits intro: exI [of _ "ct_calls st"])

lemma cow_frozen:
  assumes ok: "buffers_ok st" and par: "\<forall>pa. parent = Some pa \<longrightarrow> own tr st pa"
    and r: "btrfs_cow_block tr st a parent slot = Some (ret, a', st')"
  shows "frozen tr st st'" "ret = 0 \<Longrightarrow> own tr st' a'"
proof -
  from r obtain buf where buf: "ct_bufs st a = Some buf"
    and r': "(if \<not> should_cow_block tr buf then Some (0, a, st) else cow_block tr st buf parent slot (eb_start buf AND NOT (2 ^ 30 - 1))) = Some (ret, a', st')"
    by (auto simp: btrfs_cow_block_def bind_eq_Some_conv)
  have "frozen tr st st' \<and> (ret = 0 \<longrightarrow> own tr st' a')"
  proof (cases "should_cow_block tr buf")
    case False
    with r' buf ok show ?thesis by (auto simp: frozen_refl own_def)
  next
    case True
    let ?key = "if hdr_level buf = 0 then btrfs_item_key buf 0 else btrfs_node_key buf 0" and ?hint = "eb_start buf AND NOT (2 ^ 30 - 1)"
    obtain x st1 where al: "alloc_block tr st (hdr_level buf) ?key ?hint = (x, st1)" by fastforce
    show ?thesis
    proof (cases x)
      case (Inl e)
      with r' True al have "st' = st1" "ret = e" by (simp_all add: cow_block_def Let_def)
      moreover have "e \<noteq> 0" using al Inl by (auto simp: alloc_block_def split: list.splits)
      moreover have "st1 = st" using alloc_fails al Inl by blast
      ultimately show ?thesis using ok by (simp add: frozen_refl)
    next
      case (Inr new)
      define cow where "cow = cow_copy tr buf new"
      define st1' where "st1' = put st1 cow"
      have cs: "eb_start cow = eb_start new" by (simp add: cow_def cow_copy_def Let_def btrfs_set_header_backref_rev_def btrfs_clear_header_flag_def btrfs_set_header_flag_def)
      note fa = frozen_alloc [OF ok al [unfolded Inr] cs, folded st1'_def]
      have f1: "frozen tr st st1'" "own tr st1' (eb_start cow)" using fa new_block_owned(2) by (simp_all add: cow_def)
      let ?K = "\<lambda>st2. if eb_start buf = ct_node st2 then
                 Some (0, eb_start cow, snd (ext_do tr (st2\<lparr>ct_node := eb_start cow\<rparr>) (FreeExtent (eb_start buf) (eb_len buf) (hdr_level buf))))
               else
                 do {
                   pa \<leftarrow> parent;
                   pb \<leftarrow> ct_bufs st2 pa;
                   Some (0, eb_start cow,
                     snd (ext_do tr (put st2 (btrfs_set_node_ptr_generation (btrfs_set_node_blockptr pb slot (eb_start cow)) slot (transid tr)))
                       (FreeExtent (eb_start buf) (eb_len buf) (hdr_level buf))))
                 }"
      have "cow_block tr st buf parent slot ?hint = Option.bind (update_ref_for_cow tr st1' buf cow) ?K"
        unfolding cow_block_def Let_def al Inr prod.case sum.case st1'_def cow_def by (rule refl)
      then obtain st2 where u: "update_ref_for_cow tr st1' buf cow = Some st2" and r2: "?K st2 = Some (ret, a', st')"
        using r' True by (auto simp: bind_eq_Some_conv)
      from update_ref_state [OF u] obtain cs where st2: "st2 = st1'\<lparr>ct_calls := cs\<rparr>" by blast
      show ?thesis
      proof (cases "eb_start buf = ct_node st2")
        case True
        with r2 st2 f1 show ?thesis by (auto simp: ext_do_def)
      next
        case False
        with r2 obtain pa pb where pa: "parent = Some pa" "ct_bufs st2 pa = Some pb" "a' = eb_start cow"
          "st' = snd (ext_do tr (put st2 (btrfs_set_node_ptr_generation (btrfs_set_node_blockptr pb slot (eb_start cow)) slot (transid tr)))
             (FreeExtent (eb_start buf) (eb_len buf) (hdr_level buf)))" by (auto simp: bind_eq_Some_conv)
        let ?pb = "btrfs_set_node_ptr_generation (btrfs_set_node_blockptr pb slot (eb_start cow)) slot (transid tr)"
        have "own tr st2 pa" using par pa(1) frozenD(2) [OF f1(1)] st2 by simp
        moreover have "eb_start ?pb = pa" using frozenD(1) [OF f1(1)] pa(2) st2 by (auto simp: buffers_ok_def node_defs)
        moreover have "\<not> should_cow_block tr ?pb" using \<open>own tr st2 pa\<close> pa(2) should_cow_cong [of ?pb pb] by (auto simp: own_def node_defs)
        ultimately have f2: "frozen tr st2 (put st2 ?pb)" using frozen_put [of st2 tr ?pb] frozenD(1) [OF f1(1)] st2 by simp
        have "frozen tr st st2" using f1(1) st2 by simp
        then have "frozen tr st (put st2 ?pb)" using f2 by (rule frozen_trans)
        moreover have "own tr (put st2 ?pb) (eb_start cow)" using frozenD(2) [OF f2] f1(2) st2 by simp
        ultimately show ?thesis using pa(3,4) by (simp add: ext_do_def)
      qed
    qed
  qed
  then show "frozen tr st st'" "ret = 0 \<Longrightarrow> own tr st' a'" by simp_all
qed

section \<open>Paths\<close>

definition path_own :: "btrfs_trans \<Rightarrow> ctree \<Rightarrow> wpath \<Rightarrow> bool" where
  "path_own tr st p \<longleftrightarrow> (\<forall>l a. w_nodes p l = Some a \<longrightarrow> own tr st a)"

lemma path_own_frozen: "frozen tr st st' \<Longrightarrow> path_own tr st p \<Longrightarrow> path_own tr st' p"
  by (simp add: path_own_def frozen_def)

lemma path_own_simps [simp]:
  "path_own tr st (set_slot p l i) = path_own tr st p" "own tr st a \<Longrightarrow> path_own tr st p \<Longrightarrow> path_own tr st (set_node p l a)"
  "own tr st a \<Longrightarrow> path_own tr st p \<Longrightarrow> path_own tr st (move_path p l a i j)"
  by (auto simp: path_own_def)

lemma path_own_state [simp]:
  "path_own tr (st\<lparr>ct_calls := c\<rparr>) = path_own tr st" "path_own tr (st\<lparr>ct_info := i\<rparr>) = path_own tr st" "path_own tr (st\<lparr>ct_node := x\<rparr>) = path_own tr st"
  by (simp_all add: path_own_def fun_eq_iff)

text \<open>What an operation on the path keeps.\<close>

definition keeps :: "btrfs_trans \<Rightarrow> ctree \<Rightarrow> ctree \<Rightarrow> wpath \<Rightarrow> bool" where
  "keeps tr st st' p' \<longleftrightarrow> frozen tr st st' \<and> path_own tr st' p'"

lemma keeps_trans: "keeps tr st st1 p1 \<Longrightarrow> keeps tr st1 st2 p2 \<Longrightarrow> keeps tr st st2 p2"
  unfolding keeps_def using frozen_trans by blast

lemma keeps_refl: "buffers_ok st \<Longrightarrow> path_own tr st p \<Longrightarrow> keeps tr st st p"
  by (simp add: keeps_def frozen_refl)

text \<open>The block at \<open>x\<close> is read in state \<open>s0\<close> and written back in a later state.\<close>

lemma write_back:
  assumes "frozen tr s0 s" and "buffers_ok s0" and "ct_bufs s0 x = Some b" and "own tr s0 x" and "node_frame b b' \<or> leaf_frame b b'"
  shows "frozen tr s0 (put s b')"
proof -
  have e: "eb_start b' = x" "should_cow_block tr b' = should_cow_block tr b"
    using assms(2,3,5) node_frame_simps(1) [of b b'] leaf_frame_simps(1) [of b b'] should_cow_frames [of b b'] by (auto simp: buffers_ok_def)
  have "\<not> should_cow_block tr b'" using assms(3,4) e(2) by (auto simp: own_def)
  moreover have "own tr s (eb_start b')" using frozenD(2) [OF assms(1,4)] e(1) by simp
  ultimately have "frozen tr s (put s b')" using frozenD(1) [OF assms(1)] by (intro frozen_put(1))
  with assms(1) show ?thesis by (rule frozen_trans)
qed

lemma fixup_frozen: "buffers_ok st \<Longrightarrow> path_own tr st p \<Longrightarrow> fixup_path st p key i n = Some st' \<Longrightarrow> frozen tr st st'"
proof (induction n arbitrary: st i)
  case 0
  then show ?case by (simp add: frozen_refl)
next
  case (Suc n)
  show ?case
  proof (cases "w_nodes p i")
    case None
    then show ?thesis using Suc.prems by (simp add: frozen_refl)
  next
    case (Some a)
    then obtain t where t: "ct_bufs st a = Some t"
      "(if w_slots p i \<noteq> 0 then Some (put st (btrfs_set_node_key t key (w_slots p i)))
        else fixup_path (put st (btrfs_set_node_key t key (w_slots p i))) p key (Suc i) n) = Some st'"
      using Suc.prems(3) by (auto simp: bind_eq_Some_conv Let_def)
    have "own tr st a" using Suc.prems(2) Some by (simp add: path_own_def)
    then have f: "frozen tr st (put st (btrfs_set_node_key t key (w_slots p i)))"
      using write_back [OF frozen_refl [OF Suc.prems(1)] Suc.prems(1) t(1)] node_frame_ops(5) by simp
    show ?thesis
    proof (cases "w_slots p i = 0")
      case False
      then show ?thesis using t(2) f by simp
    next
      case True
      then have "fixup_path (put st (btrfs_set_node_key t key (w_slots p i))) p key (Suc i) n = Some st'" using t(2) by simp
      from Suc.IH [OF frozenD(1) [OF f] path_own_frozen [OF f Suc.prems(2)] this] f show ?thesis by (blast intro: frozen_trans)
    qed
  qed
qed

section \<open>Results of partial operations\<close>

text \<open>If the operation returns, its result has the property \<open>Q\<close>. The rules follow the program text.\<close>

definition post :: "('a \<Rightarrow> bool) \<Rightarrow> 'a option \<Rightarrow> bool" where
  "post Q R \<longleftrightarrow> (\<forall>y. R = Some y \<longrightarrow> Q y)"

lemma post_Some: "Q y \<Longrightarrow> post Q (Some y)"
  by (simp add: post_def)

lemma post_None: "post Q None"
  by (simp add: post_def)

lemma post_bind: "(\<And>y. x = Some y \<Longrightarrow> post Q (f y)) \<Longrightarrow> post Q (Option.bind x f)"
  by (auto simp: post_def bind_eq_Some_conv)

lemma post_if: "(c \<Longrightarrow> post Q a) \<Longrightarrow> (\<not> c \<Longrightarrow> post Q b) \<Longrightarrow> post Q (if c then a else b)"
  by simp

lemma post_let: "post Q (f x) \<Longrightarrow> post Q (Let x f)"
  by (simp add: Let_def)

lemma post_prod: "(\<And>x y. u = (x, y) \<Longrightarrow> post Q (f x y)) \<Longrightarrow> post Q (case u of (x, y) \<Rightarrow> f x y)"
  by (cases u) simp

lemma post_sum: "(\<And>x. u = Inl x \<Longrightarrow> post Q (f x)) \<Longrightarrow> (\<And>y. u = Inr y \<Longrightarrow> post Q (g y)) \<Longrightarrow> post Q (case u of Inl x \<Rightarrow> f x | Inr y \<Rightarrow> g y)"
  by (cases u) simp_all

lemma post_option: "(u = None \<Longrightarrow> post Q a) \<Longrightarrow> (\<And>y. u = Some y \<Longrightarrow> post Q (g y)) \<Longrightarrow> post Q (case u of None \<Rightarrow> a | Some y \<Rightarrow> g y)"
  by (cases u) simp_all

lemma post_nat: "(u = 0 \<Longrightarrow> post Q a) \<Longrightarrow> (\<And>y. u = Suc y \<Longrightarrow> post Q (g y)) \<Longrightarrow> post Q (case u of 0 \<Rightarrow> a | Suc y \<Rightarrow> g y)"
  by (cases u) simp_all

lemmas post_rules = post_Some post_None post_bind post_if post_let post_prod post_sum post_option post_nat

lemma postD: "post Q R \<Longrightarrow> R = Some y \<Longrightarrow> Q y"
  by (simp add: post_def)

lemma post_mono: "post P R \<Longrightarrow> (\<And>y. P y \<Longrightarrow> Q y) \<Longrightarrow> post Q R"
  by (simp add: post_def)

section \<open>Writing back\<close>

abbreviation framed :: "extent_buffer \<Rightarrow> extent_buffer \<Rightarrow> bool" where
  "framed b b' \<equiv> node_frame b b' \<or> leaf_frame b b'"

lemma frozen_write1:
  assumes "buffers_ok s" and "ct_bufs s x = Some b" and "own tr s x" and "framed b b'"
  shows "frozen tr s (put s b')"
  using write_back [OF frozen_refl [OF assms(1)] assms] .

lemma frozen_write2:
  assumes "buffers_ok s" and "ct_bufs s x = Some b" and "own tr s x" and "framed b b'" and "ct_bufs s y = Some c" and "own tr s y" and "framed c c'"
  shows "frozen tr s (put (put s b') c')"
  using write_back [OF frozen_write1 [OF assms(1-4)] assms(1,5,6,7)] .

lemma frozen_write3:
  assumes "buffers_ok s" and "ct_bufs s x = Some b" and "own tr s x" and "framed b b'" and "ct_bufs s y = Some c" and "own tr s y" and "framed c c'"
    and "ct_bufs s z = Some d" and "own tr s z" and "framed d d'"
  shows "frozen tr s (put (put (put s b') c') d')"
  using write_back [OF frozen_write2 [OF assms(1-7)] assms(1,8,9,10)] .

lemma keepsI: "frozen tr st st' \<Longrightarrow> path_own tr st p \<Longrightarrow> keeps tr st st' p"
  by (simp add: keeps_def path_own_frozen)

lemma keeps_move: "frozen tr st st' \<Longrightarrow> path_own tr st p \<Longrightarrow> own tr st' a \<Longrightarrow> keeps tr st st' (move_path p l a i j)"
  by (simp add: keeps_def path_own_frozen)

section \<open>Nodes\<close>

text \<open>The neighbour and the node are written back, then the key of the parent.\<close>

lemma node_pair_frozen:
  assumes f: "frozen tr st st1" and ok: "buffers_ok st" and o: "own tr st mida" "own tr st parenta" "own tr st1 a" and po: "path_own tr st p"
    and b: "ct_bufs st1 a = Some b" "ct_bufs st1 mida = Some mid" "framed b b1" "framed mid mid1" "ct_bufs (put (put st1 b1) mid1) parenta = Some parent2"
  shows "frozen tr st (put (put (put st1 b1) mid1) (btrfs_set_node_key parent2 k j))"
    and "own tr (put (put (put st1 b1) mid1) (btrfs_set_node_key parent2 k j)) a"
proof -
  have b1: "buffers_ok st1" using frozenD(1) [OF f] .
  have o1: "own tr st1 mida" "own tr st1 parenta" using frozenD(2) [OF f] o by auto
  note f2 = frozen_write2 [OF b1 b(1) o(3) b(3) b(2) o1(1) b(4)]
  have f3: "frozen tr (put (put st1 b1) mid1) (put (put (put st1 b1) mid1) (btrfs_set_node_key parent2 k j))"
    by (rule frozen_write1 [OF frozenD(1) [OF f2] b(5) frozenD(2) [OF f2 o1(2)]]) (simp add: node_frame_ops(5))
  show "frozen tr st (put (put (put st1 b1) mid1) (btrfs_set_node_key parent2 k j))" using f f2 f3 by (blast intro: frozen_trans)
  show "own tr (put (put (put st1 b1) mid1) (btrfs_set_node_key parent2 k j)) a" using f2 f3 o(3) by (blast intro: frozenD(2))
qed

lemma push_for_insert_frozen:
  assumes ok: "buffers_ok st" and po: "path_own tr st p" and o: "own tr st mida" "own tr st parenta"
  shows "post (\<lambda>r. case r of Inl st1 \<Rightarrow> frozen tr st st1 | Inr (st1, p1) \<Rightarrow> keeps tr st st1 p1) (push_for_insert_left tr st p level mida parenta)"
    (is "post ?Q ?L")
    and "post (\<lambda>r. case r of Inl st1 \<Rightarrow> frozen tr st st1 | Inr (st1, p1) \<Rightarrow> keeps tr st st1 p1) (push_for_insert_right tr st p level mida parenta)"
      (is "post ?Q ?R")
proof -
  have cow: "frozen tr st st1 \<and> (ret = 0 \<longrightarrow> own tr st1 a1)" if "btrfs_cow_block tr st a (Some parenta) j = Some (ret, a1, st1)" for a j ret a1 st1
    using cow_frozen [OF ok, of "Some parenta" tr a j ret a1 st1] that o(2) by simp
  note pair = node_pair_frozen [OF _ ok o _ po]
  have fin: "keeps tr st (put (put (put st1 b1) mid1) (btrfs_set_node_key parent2 k j)) (move_path p l a i i')"
      "keeps tr st (put (put (put st1 b1) mid1) (btrfs_set_node_key parent2 k j)) (set_slot p l i)"
      "keeps tr st (put (put (put st1 b1) mid1) (btrfs_set_node_key parent2 k j)) p"
    if "frozen tr st st1" "own tr st1 a" "ct_bufs st1 a = Some b" "ct_bufs st1 mida = Some mid" "node_frame b b1 \<and> node_frame mid mid1"
      "ct_bufs (put (put st1 b1) mid1) parenta = Some parent2" for st1 a b mid b1 mid1 parent2 k j l i i'
    using pair [OF that(1-4) _ _ that(6), of k j] that(5) po by (simp_all add: keeps_def path_own_frozen)
  show "post ?Q ?L"
    unfolding push_for_insert_left_def
    by (intro post_rules) (auto simp: frozen_refl ok simp del: put_simps dest!: cow dest: node_frame_ops(1) intro!: fin)
  show "post ?Q ?R"
    unfolding push_for_insert_right_def
    by (intro post_rules) (auto simp: frozen_refl ok simp del: put_simps dest!: cow dest: node_frame_ops(2) intro!: fin)
qed

lemma push_nodes_frozen:
  assumes ok: "buffers_ok st" and po: "path_own tr st p"
  shows "post (\<lambda>(ret, st1, p1). keeps tr st st1 p1) (push_nodes_for_insert tr st p level)"
proof -
  have l: "case r of Inl st1 \<Rightarrow> frozen tr st st1 | Inr (st1, p1) \<Rightarrow> keeps tr st st1 p1"
    if "push_for_insert_left tr st p level mida parenta = Some r" "w_nodes p level = Some mida" "w_nodes p (level + 1) = Some parenta" for r mida parenta
  proof -
    have "own tr st mida" "own tr st parenta" using po that by (auto simp: path_own_def)
    from postD [OF push_for_insert_frozen(1) [OF ok po this] that(1)] show ?thesis .
  qed
  have r: "case r of Inl st2 \<Rightarrow> frozen tr st st2 | Inr (st2, p2) \<Rightarrow> keeps tr st st2 p2"
    if "push_for_insert_right tr st1 p level mida parenta = Some r" "w_nodes p level = Some mida" "w_nodes p (level + 1) = Some parenta" "frozen tr st st1" for r mida parenta st1
  proof -
    note po1 = path_own_frozen [OF that(4) po]
    have "own tr st1 mida" "own tr st1 parenta" using po1 that by (auto simp: path_own_def)
    from postD [OF push_for_insert_frozen(2) [OF frozenD(1) [OF that(4)] po1 this] that(1)]
    have "case r of Inl st2 \<Rightarrow> frozen tr st1 st2 | Inr (st2, p2) \<Rightarrow> keeps tr st1 st2 p2" .
    then show ?thesis using that(4) by (auto simp: keeps_def split: sum.splits intro: frozen_trans)
  qed
  show ?thesis
    unfolding push_nodes_for_insert_def
    by (intro post_rules) (auto simp: keeps_refl ok po keepsI split: if_splits dest!: l dest: r)
qed

lemma new_block_frozen:
  assumes ok: "buffers_ok st" and po: "path_own tr st p" and al: "alloc_block tr st l key hint = (Inr new, st1)" and n: "eb_start n = eb_start new" "\<not> should_cow_block tr n"
  shows "frozen tr st (put st1 n)" "own tr (put st1 n) (eb_start n)" "path_own tr (put st1 n) p"
    and "ct_bufs st x = Some b \<Longrightarrow> own tr st x \<Longrightarrow> framed b b' \<Longrightarrow>
      frozen tr st (put (put st1 b') n) \<and> own tr (put (put st1 b') n) (eb_start n) \<and> path_own tr (put (put st1 b') n) p"
proof -
  show f: "frozen tr st (put st1 n)" "own tr (put st1 n) (eb_start n)" using frozen_alloc [OF ok al n] .
  show "path_own tr (put st1 n) p" using path_own_frozen [OF f(1) po] .
  assume b: "ct_bufs st x = Some b" "own tr st x" "framed b b'"
  have e: "eb_start b' = x" "\<not> should_cow_block tr b'"
    using ok b node_frame_simps(1) [of b b'] leaf_frame_simps(1) [of b b'] should_cow_frames [of b b'] by (auto simp: buffers_ok_def own_def)
  have st1: "ct_bufs st1 = ct_bufs st" "set (ct_pool st1) \<subseteq> set (ct_pool st)" "eb_start new \<in> set (ct_pool st)"
    using al by (auto simp: alloc_block_def split: list.splits)
  have "frozen tr st (put (put st1 b') n)" using ok b e n st1 by (auto simp: frozen_def buffers_ok_def own_def)
  then show "frozen tr st (put (put st1 b') n) \<and> own tr (put (put st1 b') n) (eb_start n) \<and> path_own tr (put (put st1 b') n) p"
    using path_own_frozen [OF _ po] n(2) by (auto simp: own_def)
qed

lemma insert_new_root_frozen:
  assumes ok: "buffers_ok st" and po: "path_own tr st p"
  shows "post (\<lambda>(ret, st1, p1). keeps tr st st1 p1) (insert_new_root tr st p level)"
proof -
  have n: "\<not> should_cow_block tr (btrfs_set_node_ptr_generation (btrfs_set_node_blockptr (btrfs_set_node_key ((init_header tr new l)\<lparr>hdr_nritems := m\<rparr>) k 0) 0 a) 0 g)"
    "eb_start (btrfs_set_node_ptr_generation (btrfs_set_node_blockptr (btrfs_set_node_key ((init_header tr new l)\<lparr>hdr_nritems := m\<rparr>) k 0) 0 a) 0 g) = eb_start new" for new l m k a g
    using should_cow_cong [of "btrfs_set_node_ptr_generation (btrfs_set_node_blockptr (btrfs_set_node_key ((init_header tr new l)\<lparr>hdr_nritems := m\<rparr>) k 0) 0 a) 0 g" "init_header tr new l" tr]
      new_block_owned(1) [of tr new l] by (simp_all add: node_defs)
  note nb = new_block_frozen [OF ok po _ n(2,1)]
  show ?thesis
    unfolding insert_new_root_def Let_def
  proof (intro post_rules, goal_cases)
    case (1 lower u v e)
    then have "v = st" using alloc_fails by blast
    then show ?case using keeps_refl [OF ok po] by simp
  next
    case (2 lower u v new)
    then have al: "alloc_block tr st level (if level = 1 then btrfs_item_key lower 0 else btrfs_node_key lower 0) (ct_node st) = (Inr new, v)" by simp
    show ?case using nb(1-3) [OF al] by (simp add: keeps_def del: put_simps)
  qed
qed

lemma path_insert_frozen:
  assumes ok: "buffers_ok st" and po: "path_own tr st p"
  shows "post (frozen tr st) (path_insert_ptr tr st p key bytenr slot level)"
proof -
  have "frozen tr st (put st b')" if "w_nodes p level = Some a" "ct_bufs st a = Some b" "insert_ptr (tr_fs tr) (transid tr) b key bytenr slot = Some b'" for a b b'
    using frozen_write1 [OF ok that(2)] node_frame_ops(4) [OF that(3)] po that(1) by (simp add: path_own_def)
  then show ?thesis unfolding path_insert_ptr_def by (intro post_rules) (auto simp del: put_simps split: if_splits)
qed

lemma split_node_at_frozen:
  assumes ok: "buffers_ok st" and po: "path_own tr st p"
  shows "post (\<lambda>(ret, st1, p1). keeps tr st st1 p1) (split_node_at tr st p level)"
  unfolding split_node_at_def Let_def
proof (intro post_rules, goal_cases)
  case (1 ca c u v e)
  then have "v = st" using alloc_fails by blast
  then show ?case using keeps_refl [OF ok po] by simp
next
  case (2 ca c u v new c1 sp1 st3)
  have fr: "node_frame c c1" "node_frame (init_header tr new (hdr_level c)) sp1" using node_frame_ops(3) [OF 2(5)] by simp_all
  have n: "eb_start sp1 = eb_start new" "\<not> should_cow_block tr sp1"
    using node_frame_simps(1) [OF fr(2)] should_cow_frames(1) [OF fr(2)] new_block_owned(1) by simp_all
  have "own tr st ca" using po 2(1) by (simp add: path_own_def)
  then have s2: "frozen tr st (put (put v c1) sp1)" "own tr (put (put v c1) sp1) (eb_start sp1)" "path_own tr (put (put v c1) sp1) p"
    using new_block_frozen(4) [OF ok po _ n 2(2), of _ _ _ v c1] 2(3,4) fr(1) by simp_all
  have s3: "frozen tr (put (put v c1) sp1) st3" using postD [OF path_insert_frozen [OF frozenD(1) [OF s2(1)] s2(3)] 2(6)] .
  then have "frozen tr st st3" "own tr st3 (eb_start sp1)" "path_own tr st3 p" using s2 frozen_trans frozenD(2) path_own_frozen by blast+
  then show ?case by (simp add: keeps_def)
qed

lemma keeps_bind:
  assumes "post (\<lambda>(ret, st1, p1). keeps tr st st1 p1) R" and "\<And>ret st1 p1. keeps tr st st1 p1 \<Longrightarrow> R = Some (ret, st1, p1) \<Longrightarrow> post (\<lambda>(ret', st2, p2). keeps tr st1 st2 p2) (f (ret, st1, p1))"
  shows "post (\<lambda>(ret, st1, p1). keeps tr st st1 p1) (Option.bind R f)"
proof (rule post_bind)
  fix y assume y: "R = Some y"
  obtain ret st1 p1 where yy: "y = (ret, st1, p1)" by (metis prod_cases3)
  have k: "keeps tr st st1 p1" using postD [OF assms(1) y] yy by simp
  from assms(2) [OF k] y yy have "post (\<lambda>(ret', st2, p2). keeps tr st1 st2 p2) (f y)" by simp
  then show "post (\<lambda>(ret, st1, p1). keeps tr st st1 p1) (f y)" by (rule post_mono) (use k in \<open>auto intro: keeps_trans\<close>)
qed

lemma keepsD: "keeps tr st st1 p1 \<Longrightarrow> buffers_ok st1" "keeps tr st st1 p1 \<Longrightarrow> path_own tr st1 p1" "keeps tr st st1 p1 \<Longrightarrow> frozen tr st st1"
  by (simp_all add: keeps_def frozen_def)

lemma split_node_frozen:
  assumes ok: "buffers_ok st" and po: "path_own tr st p"
  shows "post (\<lambda>(ret, st1, p1). keeps tr st st1 p1) (split_node tr st p level)"
  unfolding split_node_def
  by (intro post_if keeps_bind insert_new_root_frozen push_nodes_frozen ok po)
    (auto intro!: post_rules split_node_at_frozen keeps_refl dest: keepsD)

section \<open>Leaves\<close>

lemma push_leaf_upper: "framed upper (pr_upper (push_leaf_right fs left right upper s0 s1 ds e))"
  "push_leaf_left fs left right upper s0 s1 ds e = Some r \<Longrightarrow> framed upper (pr_upper r)"
  by (auto simp: push_leaf_right_def push_leaf_left_def Let_def node_frame_ops(5) split: if_splits option.splits prod.splits)

lemma push_leaf_frozen:
  assumes ok: "buffers_ok st" and po: "path_own tr st p"
  shows "post (\<lambda>(ret, st1, p1). keeps tr st st1 p1) (path_push_right tr st p ds e)"
    and "post (\<lambda>(ret, st1, p1). keeps tr st st1 p1) (path_push_left tr st p ds e)"
proof -
  have cow: "frozen tr st st1 \<and> (ret = 0 \<longrightarrow> own tr st1 a1)"
    if "btrfs_cow_block tr st a (Some u) j = Some (ret, a1, st1)" "w_nodes p 1 = Some u" for a u j ret a1 st1
    using cow_frozen [OF ok, of "Some u" tr a j ret a1 st1] that po by (simp add: path_own_def)
  have fin: "keeps tr st (put (put (put st1 (pr_left r)) (pr_right r)) (pr_upper r)) (move_path p l x i j)"
    "keeps tr st (put (put (put st1 (pr_left r)) (pr_right r)) (pr_upper r)) (set_slot p l i)"
    "keeps tr st (put (put (put st1 (pr_left r)) (pr_right r)) (pr_upper r)) p"
    if "frozen tr st st1" "own tr st1 x" "own tr st1 a1" "own tr st1 a2" "own tr st1 u" "ct_bufs st1 a1 = Some left" "ct_bufs st1 a2 = Some right" "ct_bufs st1 u = Some upper"
      "framed left (pr_left r)" "framed right (pr_right r)" "framed upper (pr_upper r)" for st1 r l x i j a1 a2 u left right upper
  proof -
    note f = frozen_write3 [OF frozenD(1) [OF that(1)] that(6,3,9,7,4,10,8,5,11)]
    have "frozen tr st (put (put (put st1 (pr_left r)) (pr_right r)) (pr_upper r))" using that(1) f by (rule frozen_trans)
    moreover have "own tr (put (put (put st1 (pr_left r)) (pr_right r)) (pr_upper r)) x" using frozenD(2) [OF f that(2)] .
    ultimately show "keeps tr st (put (put (put st1 (pr_left r)) (pr_right r)) (pr_upper r)) (move_path p l x i j)"
      "keeps tr st (put (put (put st1 (pr_left r)) (pr_right r)) (pr_upper r)) (set_slot p l i)"
      "keeps tr st (put (put (put st1 (pr_left r)) (pr_right r)) (pr_upper r)) p"
      using po by (simp_all add: keeps_def path_own_frozen)
  qed
  show "post (\<lambda>(ret, st1, p1). keeps tr st st1 p1) (path_push_right tr st p ds e)"
    unfolding path_push_right_def Let_def
  proof (intro post_rules, goal_cases)
    case (6 lefta uppera upper0 ra right0 y ret z ra1 st1 right left upper)
    have c: "frozen tr st st1" "own tr st1 ra1" using cow [of ra uppera _ ret ra1 st1] 6 by auto
    have o: "own tr st1 lefta" "own tr st1 uppera" using po 6 frozenD(2) [OF c(1)] by (auto simp: path_own_def)
    have fr: "framed left (pr_left (push_leaf_right (tr_fs tr) left right upper (w_slots p 0) (w_slots p 1) ds e))"
      "framed right (pr_right (push_leaf_right (tr_fs tr) left right upper (w_slots p 0) (w_slots p 1) ds e))"
      using push_leaf_frame(1) by blast+
    show ?case using fin [OF c(1,2) o(1) c(2) o(2) _ _ _ fr push_leaf_upper(1)] 6 by (auto simp del: put_simps)
  qed (use cow keeps_refl [OF ok po] po in \<open>auto intro: keepsI\<close>)
  show "post (\<lambda>(ret, st1, p1). keeps tr st st1 p1) (path_push_left tr st p ds e)"
    unfolding path_push_left_def Let_def
  proof (intro post_rules, goal_cases)
    case (6 righta uppera right0 upper0 la left0 y ret z la1 st1 left right upper r)
    have c: "frozen tr st st1" "own tr st1 la1" using cow [of la uppera _ ret la1 st1] 6 by auto
    have o: "own tr st1 righta" "own tr st1 uppera" using po 6 frozenD(2) [OF c(1)] by (auto simp: path_own_def)
    have fr: "framed left (pr_left r)" "framed right (pr_right r)" "framed upper (pr_upper r)"
      using push_leaf_frame(2) [of "tr_fs tr" left right upper] push_leaf_upper(2) [of "tr_fs tr" left right upper] 6 by blast+
    show ?case using fin [OF c(1,2) c(2) o _ _ _ fr] 6 by (auto simp del: put_simps)
  qed (use cow keeps_refl [OF ok po] po in \<open>auto intro: keepsI\<close>)
qed

lemma copy_for_split_frame: "copy_for_split_items fs l right mid n = (l1, right1) \<Longrightarrow> leaf_frame l l1 \<and> leaf_frame right right1"
  by (auto simp: copy_for_split_items_def Let_def leaf_frame_def eb_simps shift_offsets_items)

lemma split_again_frozen:
  "buffers_ok st \<Longrightarrow> path_own tr st p \<Longrightarrow> post (\<lambda>(ret, st1, p1). keeps tr st st1 p1) (split_leaf_again tr key ds ext n st p)"
proof (induction n arbitrary: st p)
  have step: "post (\<lambda>(ret, st1, p1). keeps tr st st1 p1) (split_leaf_again tr key ds ext n st p)"
    if ok: "buffers_ok st" and po: "path_own tr st p"
      and IH: "\<And>m st2 p1. n = Suc m \<Longrightarrow> keeps tr st st2 p1 \<Longrightarrow> post (\<lambda>(ret, st1, p1). keeps tr st st1 p1) (split_leaf_again tr key ds ext m st2 p1)"
    for st p n
  proof -
    have ins: "frozen tr st st2 \<and> own tr st2 (eb_start b) \<and> path_own tr st2 p"
      if "path_insert_ptr tr s q k x i 1 = Some st2" "frozen tr st s" "own tr s (eb_start b)" "path_own tr s q" "q = p" for s q k x i b st2
      using postD [OF path_insert_frozen [OF frozenD(1) [OF that(2)] that(4)] that(1)] that(2-5) frozen_trans frozenD(2) path_own_frozen by blast
    have new: "frozen tr st (put v (init_header tr nw 0))" "own tr (put v (init_header tr nw 0)) (eb_start (init_header tr nw 0))" "path_own tr (put v (init_header tr nw 0)) p"
      if "alloc_block tr st 0 k a = (Inr nw, v)" for k a nw v
      using new_block_frozen(1-3) [OF ok po that, of "init_header tr nw 0"] new_block_owned(1) by simp_all
    have copy: "post (\<lambda>(st2, p1). keeps tr st st2 p1) (copy_for_split tr v p l (init_header tr nw 0) slot mid)"
      if al: "alloc_block tr st 0 k a = (Inr nw, v)" and l: "w_nodes p 0 = Some a" "ct_bufs st a = Some l" for k a nw v l slot mid
      unfolding copy_for_split_def Let_def
    proof (intro post_rules, goal_cases)
      case (1 l1 right1 st2)
      note fr = copy_for_split_frame [OF 1(1)]
      have n: "eb_start right1 = eb_start nw" "\<not> should_cow_block tr right1"
        using leaf_frame_simps(1) [OF conjunct2 [OF fr]] should_cow_frames(2) [OF conjunct2 [OF fr]] new_block_owned(1) by simp_all
      have "own tr st a" using po l(1) by (simp add: path_own_def)
      then have "frozen tr st (put (put v l1) right1)" "own tr (put (put v l1) right1) (eb_start right1)" "path_own tr (put (put v l1) right1) p"
        using new_block_frozen(4) [OF ok po al n l(2)] fr by simp_all
      from ins [OF 1(2) this refl] show ?case by (simp add: keeps_def)
    qed
    show ?thesis
      unfolding split_leaf_again.simps [of tr key ds ext n st p] Let_def
    proof (intro post_rules, goal_cases)
      case (1 la l split mid u v nw st2)
      then have al: "alloc_block tr st 0 (if split = 0 then key else btrfs_item_key l mid) la = (Inr nw, v)" by simp
      from ins [OF 1(8) new [OF al] refl] show ?case by (simp add: keeps_def)
    next
      case (2 la l split mid u v nw st2 st3)
      then have al: "alloc_block tr st 0 (if split = 0 then key else btrfs_item_key l mid) la = (Inr nw, v)" by simp
      let ?p1 = "set_slot (set_node p 0 (eb_start (init_header tr nw 0))) 0 0"
      from ins [OF 2(8) new [OF al] refl] have f2: "frozen tr st st2" "path_own tr st2 ?p1" by simp_all
      have "frozen tr st2 st3" using 2(9) fixup_frozen [OF frozenD(1) [OF f2(1)] f2(2)] frozen_refl [OF frozenD(1) [OF f2(1)]]
        by (auto simp: fixup_low_keys_def split: if_splits)
      then show ?case using f2 frozen_trans path_own_frozen unfolding keeps_def by blast
    next
      case (3 la l split mid u v nw y st2 p1 m)
      then have al: "alloc_block tr st 0 (if split = 0 then key else btrfs_item_key l mid) la = (Inr nw, v)" by simp
      have "keeps tr st st2 p1" using postD [OF copy [OF al 3(1,2)] 3(7)] 3(8) by simp
      then show ?case using IH 3(10) by blast
    next
      case (4 la l split mid u v nw y st2 p1)
      then have al: "alloc_block tr st 0 (if split = 0 then key else btrfs_item_key l mid) la = (Inr nw, v)" by simp
      show ?case using postD [OF copy [OF al 4(1,2)] 4(7)] 4(8) by simp
    qed
  qed
  {
    case 0
    then show ?case by (intro step) simp_all
  next
    case (Suc n)
    show ?case
    proof (rule step [OF Suc.prems])
      fix m st2 p1 assume "Suc n = Suc m" and k: "keeps tr st st2 p1"
      then have "post (\<lambda>(ret, st1, p1). keeps tr st2 st1 p1) (split_leaf_again tr key ds ext m st2 p1)" using Suc.IH [OF keepsD(1,2) [OF k]] by simp
      then show "post (\<lambda>(ret, st1, p1). keeps tr st st1 p1) (split_leaf_again tr key ds ext m st2 p1)"
        by (rule post_mono) (use k in \<open>auto intro: keeps_trans\<close>)
    qed
  }
qed

lemma push_for_split_frozen:
  assumes ok: "buffers_ok st" and po: "path_own tr st p"
  shows "post (\<lambda>(ret, st1, p1). keeps tr st st1 p1) (push_for_split tr ds st p)"
  unfolding push_for_split_def
  by (intro keeps_bind push_leaf_frozen(1) ok po) (auto intro!: post_rules push_leaf_frozen(2) keeps_refl dest: keepsD)

lemma split_leaf_frozen:
  assumes ok: "buffers_ok st" and po: "path_own tr st p"
  shows "post (\<lambda>(ret, st1, p1). keeps tr st st1 p1) (split_leaf tr key ds ext st p)"
proof -
  have push: "post (\<lambda>(ret, st1, p1). keeps tr st st1 p1) (if c then push_for_split tr ds st p else Some (1, st, p))" for c
    using push_for_split_frozen [OF ok po] keeps_refl [OF ok po] by (simp add: post_Some)
  have root: "post (\<lambda>(ret, st2, p2). keeps tr st1 st2 p2) (if c then insert_new_root tr st1 p1 1 else Some (0, st1, p1))"
    if "keeps tr st st1 p1" for st1 p1 c
    using insert_new_root_frozen [of st1 tr p1 1] keepsD [OF that] keeps_refl [of st1 tr p1] by (simp add: post_Some)
  have rest: "post (\<lambda>(ret, st2, p2). keeps tr st1 st2 p2) (do {
       (ret, st2, p2) \<leftarrow> (if w_nodes p1 1 = None then insert_new_root tr st1 p1 1 else Some (0, st1, p1));
       if ret \<noteq> 0 then Some (ret, st2, p2) else split_leaf_again tr key ds ext 1 st2 p2
     })" if "keeps tr st st1 p1" for st1 p1
    by (rule keeps_bind [OF root [OF that]]) (auto intro!: post_rules split_again_frozen keeps_refl dest: keepsD)
  show ?thesis
    unfolding split_leaf_def
  proof (rule post_bind, rule post_bind, rule post_if)
    show "post (\<lambda>(ret, st1, p1). keeps tr st st1 p1) (Some (- EOVERFLOW, st, p))" using keeps_refl [OF ok po] by (simp add: post_Some)
  next
    fix la l
    let ?c = "ds \<noteq> 0 \<and> key_type key \<noteq> BTRFS_DIR_ITEM_KEY"
    show "post (\<lambda>(ret, st1, p1). keeps tr st st1 p1) (do {
           (wret, st1, p1) \<leftarrow> (if ?c then push_for_split tr ds st p else Some (1, st, p));
           la1 \<leftarrow> w_nodes p1 0;
           l1 \<leftarrow> ct_bufs st1 la1;
           if wret < 0 then Some (wret, st1, p1)
           else if ds \<noteq> 0 \<and> key_type key \<noteq> BTRFS_DIR_ITEM_KEY \<and> btrfs_leaf_free_space (tr_fs tr) l1 \<ge> int ds then Some (0, st1, p1)
           else
             do {
               (ret, st2, p2) \<leftarrow> (if w_nodes p1 1 = None then insert_new_root tr st1 p1 1 else Some (0, st1, p1));
               if ret \<noteq> 0 then Some (ret, st2, p2) else split_leaf_again tr key ds ext 1 st2 p2
             }
         })"
    proof (rule keeps_bind [OF push], unfold prod.case, rule post_bind, rule post_bind)
      fix wret st1 p1 la1 l1 assume k: "keeps tr st st1 p1"
      show "post (\<lambda>(ret, st1', p1). keeps tr st1 st1' p1)
         (if wret < 0 then Some (wret, st1, p1)
          else if ds \<noteq> 0 \<and> key_type key \<noteq> BTRFS_DIR_ITEM_KEY \<and> btrfs_leaf_free_space (tr_fs tr) l1 \<ge> int ds then Some (0, st1, p1)
          else
             do {
               (ret, st2, p2) \<leftarrow> (if w_nodes p1 1 = None then insert_new_root tr st1 p1 1 else Some (0, st1, p1));
               if ret \<noteq> 0 then Some (ret, st2, p2) else split_leaf_again tr key ds ext 1 st2 p2
             })"
        using keeps_refl [OF keepsD(1,2) [OF k]] rest [OF k] by (simp add: post_Some)
    qed
  qed
qed

section \<open>Search and insertion\<close>

lemma search_slot_cow_loop_frozen:
  assumes "search_slot_cow_loop tr key n st p a = Some (ret, st1, p1)" and "buffers_ok st" and "path_own tr st p"
  shows "keeps tr st st1 p1"
proof -
  have "buffers_ok st \<longrightarrow> path_own tr st p \<longrightarrow> (\<lambda>(ret, st1, p1). keeps tr st st1 p1) (ret, st1, p1)"
  proof (rule search_slot_cow_loop.raw_induct [OF _ assms(1),
        where P = "\<lambda>tr key n st p a r. buffers_ok st \<longrightarrow> path_own tr st p \<longrightarrow> (\<lambda>(ret, st1, p1). keeps tr st st1 p1) r"], intro impI, goal_cases)
    case (1 loop tr key n st p a r)
    note ok = 1(3) and po = 1(4)
    have IH: "post (\<lambda>(ret, st1, p1). keeps tr s st1 p1) (loop tr key n s q c)" if "buffers_ok s" "path_own tr s q" for s q c
      using 1(1) that unfolding post_def by blast
    have cow: "frozen tr st s1 \<and> (w = 0 \<longrightarrow> path_own tr s1 (set_node p l a1))"
      if "btrfs_cow_block tr st a (w_nodes p j) i = Some (w, a1, s1)" for j i w a1 s1 l
    proof -
      have "\<forall>pa. w_nodes p j = Some pa \<longrightarrow> own tr st pa" using po by (simp add: path_own_def)
      note c = cow_frozen [OF ok this that]
      show ?thesis using c path_own_frozen [OF c(1) po] by simp
    qed
    have node: "keeps tr st st3 p3"
      if "(if c then split_node tr s q l else Some (0, s, q)) = Some (sret, st3, p3)" "keeps tr st s q" for c s q l sret st3 p3
      using that keeps_trans [OF that(2)] postD [OF split_node_frozen [of s tr q l, OF keepsD(1,2) [OF that(2)]]] by (auto split: if_splits)
    have leaf: "keeps tr st st3 p3" if "split_leaf tr key n e s q = Some (sret, st3, p3)" "keeps tr st s q" for e s q sret st3 p3
      using keeps_trans [OF that(2)] postD [OF split_leaf_frozen [of s tr q key n e, OF keepsD(1,2) [OF that(2)]] that(1)] by auto
    have entered: "keeps tr st (s1\<lparr>ct_info := i\<rparr>) (set_node p l a1)" "keeps tr st (s1\<lparr>ct_info := i\<rparr>) (set_slot (set_node p l a1) l' k)"
      if "btrfs_cow_block tr st a (w_nodes p j) i' = Some (0, a1, s1)" for j i' a1 s1 l i l' k
      using cow [OF that, of l] by (simp_all add: keeps_def)
    show ?case
    proof (rule postD [OF _ 1(2)], intro post_rules, goal_cases)
      case (6 y ya wret yb a1 st1 yc yd ret info1 ye sret yf st3 p3 yg c)
      then have k: "keeps tr st st3 p3" using node [OF _ entered(2)] by (simp only: not_not)
      show ?case by (rule post_mono [OF IH [OF keepsD(1,2) [OF k]]]) (use k in \<open>auto intro: keeps_trans\<close>)
    qed (use cow keepsI [OF _ po] entered node [OF _ entered(2)] leaf [OF _ entered(2)] in \<open>simp only: not_not prod.case; blast\<close>)+
  qed
  then show ?thesis using assms by simp
qed

lemma insert_empty_items_frame: "insert_empty_items fs leaf slot new = Some leaf1 \<Longrightarrow> leaf_frame leaf leaf1"
proof -
  assume "insert_empty_items fs leaf slot new = Some leaf1"
  then obtain x e n where "leaf1 = (setup_new_items x slot new e)\<lparr>hdr_nritems := n\<rparr>" "leaf_frame leaf x"
    by (auto simp: insert_empty_items_def Let_def leaf_frame_def eb_simps shift_offsets_items split: if_splits)
  then show ?thesis using setup_new_items_leaf_frame [of leaf x slot new e] by (simp add: leaf_frame_def)
qed

lemma write_data_frame: "leaf_frame leaf (write_data leaf bs off)"
  by (simp add: leaf_frame_def write_data_def)

lemma path_leaf_frozen:
  assumes "buffers_ok st" and "path_own tr st p" and "w_nodes p 0 = Some a" and "ct_bufs st a = Some l" and "leaf_frame l l1"
  shows "keeps tr st (put st l1) p"
  using frozen_write1 [OF assms(1,4), of tr l1] assms(2,3,5) keepsI by (simp add: path_own_def)

lemma insert_empty_items_frozen:
  assumes ok: "buffers_ok st" and po: "path_own tr st p"
  shows "post (\<lambda>(ret, st1, p1). keeps tr st st1 p1) (btrfs_insert_empty_items tr st p new)"
  unfolding btrfs_insert_empty_items_def Let_def
proof (rule keeps_bind)
  show "post (\<lambda>(ret, st1, p1). keeps tr st st1 p1)
     (search_slot_cow tr (fst (hd new)) (u32_add (fold (\<lambda>(_, sz) t. u32_add t sz) new 0) (length new * sizeof_item)) st p)"
    using search_slot_cow_loop_frozen ok po by (auto simp: post_def search_slot_cow_def)
next
  fix ret st1 p1 assume k: "keeps tr st st1 p1"
  note ok1 = keepsD(1,2) [OF k]
  have "keeps tr st1 st3 p1" if l: "w_nodes p1 0 = Some la" "ct_bufs st1 la = Some leaf" "insert_empty_items (tr_fs tr) leaf (w_slots p1 0) new = Some leaf1"
    and st3: "(if w_slots p1 0 = 0 then fixup_low_keys (put st1 leaf1) p1 (fst (hd new)) 1 else Some (put st1 leaf1)) = Some st3" for la leaf leaf1 st3
  proof -
    have k2: "keeps tr st1 (put st1 leaf1) p1" using path_leaf_frozen [OF ok1 l(1,2) insert_empty_items_frame [OF l(3)]] .
    have "frozen tr (put st1 leaf1) st3"
      using st3 fixup_frozen [OF keepsD(1,2) [OF k2]] frozen_refl [OF keepsD(1) [OF k2]] by (auto simp: fixup_low_keys_def simp del: put_simps split: if_splits)
    then show ?thesis using k2 keepsI keepsD(2) keeps_trans by blast
  qed
  then show "post (\<lambda>(ret', st2, p2). keeps tr st1 st2 p2) (case (ret, st1, p1) of (ret, st1, p1) \<Rightarrow>
      if ret = 0 then Some (- EEXIST, st1, p1)
      else if ret < 0 then Some (ret, st1, p1)
      else
        do {
          la \<leftarrow> w_nodes p1 0;
          leaf \<leftarrow> ct_bufs st1 la;
          leaf1 \<leftarrow> insert_empty_items (tr_fs tr) leaf (w_slots p1 0) new;
          st3 \<leftarrow> (if w_slots p1 0 = 0 then fixup_low_keys (put st1 leaf1) p1 (fst (hd new)) 1 else Some (put st1 leaf1));
          Some (0, st3, p1)
        })"
    using keeps_refl [OF ok1] by (auto intro!: post_rules simp del: put_simps)
qed

lemma insert_item_frozen:
  assumes ok: "buffers_ok st" and r: "btrfs_insert_item tr mem st key bytes = Some (ret, st')"
  shows "frozen tr st st'"
proof -
  have "path_own tr st btrfs_init_path" by (simp add: path_own_def btrfs_init_path_def)
  note ins = postD [OF insert_empty_items_frozen [OF ok this, of "[(key, length bytes)]"]]
  have "post (\<lambda>(ret, st1). frozen tr st st1) (btrfs_insert_item tr mem st key bytes)"
    unfolding btrfs_insert_item_def
  proof (intro post_rules, goal_cases)
    case 1
    show ?case using frozen_refl [OF ok] by simp
  next
    case (2 y a ya st1 p1)
    then show ?case using ins [OF 2(2)] keepsD(3) by auto
  next
    case (3 y a ya st1 p1 la leaf)
    from ins [OF 3(2)] 3 have k: "keeps tr st st1 p1" by simp
    show ?case using frozen_trans [OF keepsD(3) [OF k] keepsD(3) [OF path_leaf_frozen [OF keepsD(1,2) [OF k] 3(6,7) write_data_frame]]]
      unfolding prod.case .
  qed
  from postD [OF this r] show ?thesis by simp
qed

end
