(* ===== verification/LeafProps.thy ===== *)
theory LeafProps
  imports LeafBalance BlockCheck
begin

text \<open>
  The properties of leaves and nodes. Each is stated over the layout invariant and the sequence
  \<open>leaf_items\<close> (or \<open>node_ptrs\<close>) only, with the condition the code tests as its hypothesis, and
  is followed by an application to a concrete block.
\<close>

section \<open>The contract of a leaf\<close>

text \<open>
  What the tree code relies on: an item store whose contents are a list, with insertion and
  deletion by position. The clients' facts are derived from the two laws.
\<close>

locale item_store =
  fixes inv :: "'s \<Rightarrow> bool" and contents :: "'s \<Rightarrow> ('k \<times> 'b list) list" and room :: "'s \<Rightarrow> int"
    and ins :: "'s \<Rightarrow> nat \<Rightarrow> 'k \<Rightarrow> 'b list \<Rightarrow> 's option" and del :: "'s \<Rightarrow> nat \<Rightarrow> nat \<Rightarrow> 's option"
  assumes ins_law: "inv s \<Longrightarrow> i \<le> length (contents s) \<Longrightarrow> int (length v + sizeof_item) \<le> room s \<Longrightarrow>
      \<exists>s'. ins s i k v = Some s' \<and> inv s' \<and> contents s' = take i (contents s) @ (k, v) # drop i (contents s) \<and>
        room s' = room s - int (length v + sizeof_item)"
    and del_law: "inv s \<Longrightarrow> 0 < n \<Longrightarrow> i + n \<le> length (contents s) \<Longrightarrow>
      \<exists>s'. del s i n = Some s' \<and> inv s' \<and> contents s' = take i (contents s) @ drop (i + n) (contents s)"
begin

lemma ins_then_del:
  assumes "inv s" and "i \<le> length (contents s)" and "int (length v + sizeof_item) \<le> room s"
  shows "\<exists>s1 s2. ins s i k v = Some s1 \<and> del s1 i 1 = Some s2 \<and> inv s2 \<and> contents s2 = contents s"
proof -
  obtain s1 where s1: "ins s i k v = Some s1" "inv s1"
    "contents s1 = take i (contents s) @ (k, v) # drop i (contents s)"
    using ins_law [OF assms] by blast
  obtain s2 where s2: "del s1 i 1 = Some s2" "inv s2" "contents s2 = take i (contents s1) @ drop (i + 1) (contents s1)"
    using del_law [OF s1(2), of 1 i] assms(2) s1(3) by auto
  have "contents s2 = contents s" using s2(3) assms(2) by (simp add: s1(3))
  with s1 s2 show ?thesis by blast
qed

lemma ins_sorted:
  fixes cmp :: "'k \<Rightarrow> 'k \<Rightarrow> bool"
  assumes "inv s" and "i \<le> length (contents s)" and "int (length v + sizeof_item) \<le> room s"
    and "sorted_wrt cmp (map fst (contents s))"
    and "\<forall>x\<in>set (take i (contents s)). cmp (fst x) k" and "\<forall>x\<in>set (drop i (contents s)). cmp k (fst x)"
  shows "\<exists>s'. ins s i k v = Some s' \<and> inv s' \<and> sorted_wrt cmp (map fst (contents s'))"
proof -
  obtain s' where s': "ins s i k v = Some s'" "inv s'"
    "contents s' = take i (contents s) @ (k, v) # drop i (contents s)"
    using ins_law [OF assms(1-3)] by blast
  have "sorted_wrt cmp (map fst (take i (contents s) @ drop i (contents s)))" using assms(4) by simp
  then have "sorted_wrt cmp (map fst (contents s'))"
    using assms(5,6) unfolding s'(3) map_append sorted_wrt_append by auto
  with s' show ?thesis by blast
qed

end

lemma leaf_room:
  assumes h: "leaf_ctx fs leaf xs"
  shows "int n \<le> btrfs_leaf_free_space fs leaf \<longleftrightarrow> n + sizeof_item * length xs + data_len xs \<le> BTRFS_LEAF_DATA_SIZE fs"
  using leaf_basic(2) [OF h] by (auto simp: leaf_space(3) [OF h])

lemma leaf_ctxD: "leaf_ctx fs leaf xs \<Longrightarrow> leaf_layout fs leaf \<and> leaf_items leaf = xs"
  using leaf_reprD by (auto simp: leaf_ctx_def)

lemma split_at_slot:
  "i < length xs \<Longrightarrow> xs = take i xs @ (fst (xs ! i), snd (xs ! i)) # drop (Suc i) xs"
  by (simp add: id_take_nth_drop)

lemma slot_ctx:
  assumes "fs_ok fs" and "leaf_layout fs leaf" and "slot < length (leaf_items leaf)"
  shows "leaf_ctx fs leaf (take slot (leaf_items leaf) @
    (fst (leaf_items leaf ! slot), snd (leaf_items leaf ! slot)) # drop (Suc slot) (leaf_items leaf))"
  using leaf_ctxI [OF assms(1,2)] split_at_slot [OF assms(3)] by simp

interpretation leaf_store: item_store "\<lambda>leaf. fs_ok fs \<and> leaf_layout fs leaf" leaf_items "btrfs_leaf_free_space fs"
  "insert_item fs" "del_items fs"
  for fs
proof unfold_locales
  fix leaf and i :: nat and v :: "u8 list" and k :: btrfs_key
  assume "fs_ok fs \<and> leaf_layout fs leaf" and i: "i \<le> length (leaf_items leaf)"
    and room: "int (length v + sizeof_item) \<le> btrfs_leaf_free_space fs leaf"
  then have h: "leaf_ctx fs leaf (leaf_items leaf)" by (simp add: leaf_ctxI)
  obtain leaf' where l: "insert_item fs leaf i k v = Some leaf'"
    "leaf_ctx fs leaf' (take i (leaf_items leaf) @ (k, v) # drop i (leaf_items leaf))"
    by (rule insert_item_ok [OF h i, of v k]) (use room leaf_room [OF h, of "length v + sizeof_item"] in simp_all)
  have "data_len (take i (leaf_items leaf)) + data_len (drop i (leaf_items leaf)) = data_len (leaf_items leaf)"
    by (rule data_len_take)
  then have "btrfs_leaf_free_space fs leaf' = btrfs_leaf_free_space fs leaf - int (length v + sizeof_item)"
    using room i leaf_basic(2) [OF h] by (simp add: leaf_space(3) [OF h] leaf_space(3) [OF l(2)] of_nat_diff)
  with l leaf_ctxD [OF l(2)] h show "\<exists>s'. insert_item fs leaf i k v = Some s' \<and> (fs_ok fs \<and> leaf_layout fs s') \<and>
      leaf_items s' = take i (leaf_items leaf) @ (k, v) # drop i (leaf_items leaf) \<and>
      btrfs_leaf_free_space fs s' = btrfs_leaf_free_space fs leaf - int (length v + sizeof_item)"
    by (simp add: leaf_ctx_def)
next
  fix leaf and n i :: nat
  let ?xs = "leaf_items leaf"
  assume a: "fs_ok fs \<and> leaf_layout fs leaf" "0 < n" "i + n \<le> length ?xs"
  have xs: "?xs = take i ?xs @ take n (drop i ?xs) @ drop (i + n) ?xs"
    by (metis add.commute append_take_drop_id drop_drop)
  have h: "leaf_ctx fs leaf (take i ?xs @ take n (drop i ?xs) @ drop (i + n) ?xs)"
    using a(1) by (simp add: leaf_ctxI flip: xs)
  obtain leaf' where "del_items fs leaf i n = Some leaf'" "leaf_ctx fs leaf' (take i ?xs @ drop (i + n) ?xs)"
    using del_items_ok [OF h] a by auto
  with leaf_ctxD show "\<exists>s'. del_items fs leaf i n = Some s' \<and> (fs_ok fs \<and> leaf_layout fs s') \<and>
      leaf_items s' = take i ?xs @ drop (i + n) ?xs"
    by (metis leaf_ctx_def)
qed

section \<open>Example blocks\<close>

definition ex_fs :: btrfs_fs_info where
  "ex_fs = \<lparr>nodesize = 4096\<rparr>"

definition ex_leaf :: extent_buffer where
  "ex_leaf = \<lparr>eb_start = 8192, eb_len = 4096, hdr_nritems = 2, hdr_level = 0, hdr_generation = 7, hdr_owner = 5, hdr_flags = 0,
     eb_items = (\<lambda>i. if i = 0 then \<lparr>it_key = Key 256 1 0, it_offset = 3993, it_size = 2\<rparr>
                     else \<lparr>it_key = Key 256 12 256, it_offset = 3990, it_size = 3\<rparr>),
     eb_data = (\<lambda>i. of_nat i), eb_ptrs = (\<lambda>_. \<lparr>kp_key = Key 0 0 0, kp_blockptr = 0, kp_generation = 0\<rparr>)\<rparr>"

lemma ex_leaf_ok:
  "fs_ok ex_fs" "leaf_layout ex_fs ex_leaf" "BTRFS_LEAF_DATA_SIZE ex_fs = 3995"
  "leaf_items ex_leaf = [(Key 256 1 0, [153, 154]), (Key 256 12 256, [150, 151, 152])]"
  "btrfs_leaf_free_space ex_fs ex_leaf = 3940"
proof -
  show fs: "fs_ok ex_fs" by (simp add: fs_ok_def ex_fs_def)
  show L: "BTRFS_LEAF_DATA_SIZE ex_fs = 3995" by (simp add: leaf_data_size [OF fs]) (simp add: ex_fs_def)
  show lay: "leaf_layout ex_fs ex_leaf"
    by (simp add: leaf_layout_def data_limit_def L) (simp add: ex_leaf_def less_2_cases_iff)
  show items: "leaf_items ex_leaf = [(Key 256 1 0, [153, 154]), (Key 256 12 256, [150, 151, 152])]"
    by (simp add: leaf_items_def item_bytes_def read_data_def ex_leaf_def upt_rec)
  show "btrfs_leaf_free_space ex_fs ex_leaf = 3940"
    using leaf_space(3) [OF leaf_ctxI [OF fs lay]] by (simp add: items L)
qed

section \<open>Properties\<close>

text \<open>
  Inserting an item into a leaf with enough free space succeeds (no \<open>BUG\<close>), keeps the
  layout, puts the new key and its bytes at the slot and moves nothing else, and the free space
  shrinks by the item header and the data.
\<close>
theorem insert_item_refines:
  assumes "fs_ok fs" and "leaf_layout fs leaf" and "slot \<le> length (leaf_items leaf)"
    and "int (length bytes + sizeof_item) \<le> btrfs_leaf_free_space fs leaf"
  shows "\<exists>leaf'. insert_item fs leaf slot key bytes = Some leaf' \<and> leaf_layout fs leaf' \<and>
    leaf_items leaf' = take slot (leaf_items leaf) @ (key, bytes) # drop slot (leaf_items leaf) \<and>
    btrfs_leaf_free_space fs leaf' = btrfs_leaf_free_space fs leaf - int (length bytes + sizeof_item)"
  using leaf_store.ins_law [of fs leaf slot bytes key] assms by auto

theorem insert_item_refines_witness:
  "\<exists>leaf'. insert_item ex_fs ex_leaf 1 (Key 256 2 0) [1, 2, 3, 4] = Some leaf' \<and> leaf_layout ex_fs leaf' \<and>
    leaf_items leaf' = [(Key 256 1 0, [153, 154]), (Key 256 2 0, [1, 2, 3, 4]), (Key 256 12 256, [150, 151, 152])]"
  using insert_item_refines [of ex_fs ex_leaf 1 "[1, 2, 3, 4]" "Key 256 2 0"] by (auto simp: ex_leaf_ok)

text \<open>
  C21. Deleting a run of items takes exactly these items out, closes the gaps in the item array and in
  the data area, and leaves every other key and its bytes as they were.
\<close>
theorem del_items_refines:
  assumes "fs_ok fs" and "leaf_layout fs leaf" and "0 < nr" and "slot + nr \<le> length (leaf_items leaf)"
  shows "\<exists>leaf'. del_items fs leaf slot nr = Some leaf' \<and> leaf_layout fs leaf' \<and>
    leaf_items leaf' = take slot (leaf_items leaf) @ drop (slot + nr) (leaf_items leaf)"
  using leaf_store.del_law [of fs leaf nr slot] assms by auto

theorem del_items_refines_witness:
  "\<exists>leaf'. del_items ex_fs ex_leaf 0 1 = Some leaf' \<and> leaf_items leaf' = [(Key 256 12 256, [150, 151, 152])]"
  using del_items_refines [of ex_fs ex_leaf 1 0] by (auto simp: ex_leaf_ok)

text \<open>
  An insertion followed by the deletion of the same slot gives back the items of the leaf.
\<close>
theorem insert_del_roundtrip:
  assumes "fs_ok fs" and "leaf_layout fs leaf" and "slot \<le> length (leaf_items leaf)"
    and "int (length bytes + sizeof_item) \<le> btrfs_leaf_free_space fs leaf"
  shows "\<exists>leaf1 leaf2. insert_item fs leaf slot key bytes = Some leaf1 \<and> del_items fs leaf1 slot 1 = Some leaf2 \<and>
    leaf_layout fs leaf2 \<and> leaf_items leaf2 = leaf_items leaf"
  using leaf_store.ins_then_del [of fs leaf slot bytes key] assms by auto

theorem insert_del_roundtrip_witness:
  "\<exists>leaf1 leaf2. insert_item ex_fs ex_leaf 0 (Key 1 2 3) [9] = Some leaf1 \<and> del_items ex_fs leaf1 0 1 = Some leaf2 \<and>
    leaf_items leaf2 = leaf_items ex_leaf"
  using insert_del_roundtrip [of ex_fs ex_leaf 0 "[9]" "Key 1 2 3"] by (auto simp: ex_leaf_ok)

text \<open>
  Growing an item keeps its bytes as a prefix of the grown item, whose length is the old one plus
  the requested size; all other items are unchanged.
\<close>
theorem extend_item_refines:
  assumes "fs_ok fs" and "leaf_layout fs leaf" and "slot < length (leaf_items leaf)"
    and "int data_size \<le> btrfs_leaf_free_space fs leaf"
  shows "\<exists>leaf' more. btrfs_extend_item fs leaf slot data_size = Some leaf' \<and> leaf_layout fs leaf' \<and>
    length more = data_size \<and>
    leaf_items leaf' =
      (leaf_items leaf)[slot := (fst (leaf_items leaf ! slot), snd (leaf_items leaf ! slot) @ more)]"
proof -
  note h = slot_ctx [OF assms(1-3)]
  obtain leaf' g where "btrfs_extend_item fs leaf slot data_size = Some leaf'"
    "leaf_ctx fs leaf' (take slot (leaf_items leaf) @ (fst (leaf_items leaf ! slot), snd (leaf_items leaf ! slot) @ g) #
       drop (Suc slot) (leaf_items leaf))" "length g = data_size"
    by (rule extend_item_ok [OF h, of data_size]) (use leaf_room [OF h, of data_size] assms(3,4) in auto)
  with leaf_ctxD show ?thesis using assms(3) by (metis upd_conv_take_nth_drop)
qed

theorem extend_item_refines_witness:
  "\<exists>leaf' more. btrfs_extend_item ex_fs ex_leaf 1 100 = Some leaf' \<and> length more = 100 \<and>
    leaf_items leaf' = [(Key 256 1 0, [153, 154]), (Key 256 12 256, [150, 151, 152] @ more)]"
  using extend_item_refines [of ex_fs ex_leaf 1 100] by (auto simp: ex_leaf_ok)

text \<open>
  Shrinking an item at its end keeps the first \<open>new_size\<close> bytes of it and every other item.
\<close>
theorem truncate_item_end_refines:
  assumes "fs_ok fs" and "leaf_layout fs leaf" and "slot < length (leaf_items leaf)"
    and "new_size \<le> length (snd (leaf_items leaf ! slot))"
  shows "\<exists>leaf'. btrfs_truncate_item fs leaf slot new_size True = Some leaf' \<and> leaf_layout fs leaf' \<and>
    leaf_items leaf' =
      (leaf_items leaf)[slot := (fst (leaf_items leaf ! slot), take new_size (snd (leaf_items leaf ! slot)))]"
proof -
  note h = slot_ctx [OF assms(1-3)]
  obtain leaf' where "btrfs_truncate_item fs leaf slot new_size True = Some leaf'"
    "leaf_ctx fs leaf' (take slot (leaf_items leaf) @ (fst (leaf_items leaf ! slot), take new_size (snd (leaf_items leaf ! slot))) #
       drop (Suc slot) (leaf_items leaf))"
    using truncate_end_ok [OF h assms(4)] assms(3) by auto
  with leaf_ctxD show ?thesis using assms(3) by (metis upd_conv_take_nth_drop)
qed

theorem truncate_item_end_refines_witness:
  "\<exists>leaf'. btrfs_truncate_item ex_fs ex_leaf 0 1 True = Some leaf' \<and>
    leaf_items leaf' = [(Key 256 1 0, [153]), (Key 256 12 256, [150, 151, 152])]"
  using truncate_item_end_refines [of ex_fs ex_leaf 0 1] by (auto simp: ex_leaf_ok)

text \<open>
  Shrinking an item at its front drops its first bytes and advances the offset of its key by the
  same amount; of an inline file extent it is the data behind the 21 bytes of header that is cut,
  and the header stays. The item must keep its header if it is a file extent.
\<close>
theorem truncate_item_front_refines:
  assumes "fs_ok fs" and "leaf_layout fs leaf" and "slot < length (leaf_items leaf)"
    and "leaf_items leaf ! slot = (k, b)" and "new_size < length b"
    and "key_type k = BTRFS_EXTENT_DATA_KEY \<longrightarrow> 21 \<le> new_size"
  shows "\<exists>leaf'. btrfs_truncate_item fs leaf slot new_size False = Some leaf' \<and> leaf_layout fs leaf' \<and>
    leaf_items leaf' = (leaf_items leaf)[slot :=
      (key_advance k (length b - new_size), front_cut k b (length b - new_size))]"
proof -
  have h: "leaf_ctx fs leaf (take slot (leaf_items leaf) @ (k, b) # drop (Suc slot) (leaf_items leaf))"
    using slot_ctx [OF assms(1-3)] assms(4) by simp
  obtain leaf' where "btrfs_truncate_item fs leaf slot new_size False = Some leaf'"
    "leaf_ctx fs leaf' (take slot (leaf_items leaf) @ (key_advance k (length b - new_size), front_cut k b (length b - new_size)) #
       drop (Suc slot) (leaf_items leaf))"
    using truncate_front_ok [OF h, of new_size "length b - new_size"] assms(3,5,6) by auto
  with leaf_ctxD show ?thesis using assms(3) by (metis upd_conv_take_nth_drop)
qed

theorem truncate_item_front_refines_witness:
  "\<exists>leaf'. btrfs_truncate_item ex_fs ex_leaf 1 2 False = Some leaf' \<and>
    leaf_items leaf' = [(Key 256 1 0, [153, 154]), (Key 256 12 257, [151, 152])]"
  using truncate_item_front_refines [of ex_fs ex_leaf 1 "Key 256 12 256" "[150, 151, 152]" 2]
  by (auto simp: ex_leaf_ok key_advance_def front_cut_def is_inline_def)

text \<open>
  Splitting an item at an offset replaces it by two adjacent items, the first with the old key and
  the bytes before the offset, the second with the new key and the bytes from it on.
\<close>
theorem split_item_refines:
  assumes "fs_ok fs" and "leaf_layout fs leaf" and "slot < length (leaf_items leaf)"
    and "split_offset \<le> length (snd (leaf_items leaf ! slot))"
    and "int sizeof_item \<le> btrfs_leaf_free_space fs leaf"
  shows "\<exists>leaf'. split_item fs leaf slot new_key split_offset = Some leaf' \<and> leaf_layout fs leaf' \<and>
    leaf_items leaf' = take slot (leaf_items leaf) @
      (fst (leaf_items leaf ! slot), take split_offset (snd (leaf_items leaf ! slot))) #
      (new_key, drop split_offset (snd (leaf_items leaf ! slot))) # drop (Suc slot) (leaf_items leaf)"
proof -
  note h = slot_ctx [OF assms(1-3)]
  obtain leaf' where "split_item fs leaf slot new_key split_offset = Some leaf'"
    "leaf_ctx fs leaf' (take slot (leaf_items leaf) @ (fst (leaf_items leaf ! slot), take split_offset (snd (leaf_items leaf ! slot))) #
      (new_key, drop split_offset (snd (leaf_items leaf ! slot))) # drop (Suc slot) (leaf_items leaf))"
    using split_item_ok [OF h assms(4), of new_key] leaf_room [OF h, of sizeof_item] assms(3,5) by auto
  with leaf_ctxD show ?thesis by blast
qed

theorem split_item_refines_witness:
  "\<exists>leaf'. split_item ex_fs ex_leaf 1 (Key 256 12 257) 1 = Some leaf' \<and>
    leaf_items leaf' = [(Key 256 1 0, [153, 154]), (Key 256 12 256, [150]), (Key 256 12 257, [151, 152])]"
  using split_item_refines [of ex_fs ex_leaf 1 1 "Key 256 12 257"] by (auto simp: ex_leaf_ok)

end
