(* ===== verification/BlockProps.thy ===== *)
theory BlockProps
  imports LeafProps
begin

text \<open>
  The properties of the balancing of leaves, of nodes, of the block checkers and of the binary
  search, in the style of \<open>LeafProps\<close>.
\<close>

section \<open>When items are pushed\<close>

lemma push_right_loop_mono: "k \<le> push_right_loop left slot data_size free nr i ps k"
proof (induction i arbitrary: ps k)
  case 0
  then show ?case by (subst push_right_loop.simps) (simp add: Let_def)
next
  case (Suc i)
  have "k \<le> push_right_loop left slot data_size free nr i ps' (k + 1)" for ps'
    using Suc.IH [of "k + 1" ps'] by simp
  then show ?case by (subst push_right_loop.simps) (simp add: Let_def)
qed

lemma push_right_loop_pos:
  "0 < push_right_loop left slot data_size free nr i 0 0 \<longleftrightarrow>
     nr \<le> i \<and> btrfs_item_size_nr left i + sizeof_item + (if slot = i then data_size + sizeof_item else 0) \<le> free"
proof -
  have "0 < push_right_loop left slot data_size free nr j ps (Suc 0)" for j ps
    using push_right_loop_mono [of "Suc 0" left slot data_size free nr j ps] by simp
  then show ?thesis by (subst push_right_loop.simps) (auto simp: Let_def not_less split: nat.split)
qed

lemma push_left_loop_mono: "k \<le> push_left_loop right slot data_size free i n ps k"
proof (induction n arbitrary: i ps k)
  case (Suc n)
  have "k \<le> push_left_loop right slot data_size free (Suc i) n ps' (k + 1)" for ps'
    using Suc.IH [of "k + 1" "Suc i" ps'] by simp
  then show ?case by (simp add: Let_def)
qed simp

lemma push_left_loop_pos:
  "0 < push_left_loop right slot data_size free 0 n 0 0 \<longleftrightarrow>
     0 < n \<and> btrfs_item_size_nr right 0 + sizeof_item + (if slot = 0 then data_size + sizeof_item else 0) \<le> free"
proof -
  have "0 < push_left_loop right slot data_size free j m ps (Suc 0)" for j m ps
    using push_left_loop_mono [of "Suc 0" right slot data_size free j m ps] by simp
  then show ?thesis by (cases n) (auto simp: Let_def not_less)
qed

lemma push_right_ret:
  assumes h: "leaf_ctx fs left xs"
  shows "pr_ret (push_leaf_right fs left right upper slot0 slot1 data_size emptying) = 0 \<longleftrightarrow>
    xs \<noteq> [] \<and> (emptying \<or> 2 \<le> length xs) \<and> int data_size \<le> btrfs_leaf_free_space fs right \<and>
    int (entry_size (last xs) + (if slot0 = length xs - 1 then data_size + sizeof_item else 0))
      \<le> btrfs_leaf_free_space fs right"
proof (cases "xs = []")
  case False
  then have "btrfs_item_size_nr left (length xs - 1) = length (snd (last xs))"
    using leaf_items_nr(2) [OF h, of "length xs - 1"] by (simp add: last_conv_nth)
  then have "0 < push_right_loop left slot0 data_size (nat (btrfs_leaf_free_space fs right)) (if emptying then 0 else 1)
      (length xs - 1) 0 0 \<longleftrightarrow> (emptying \<or> 2 \<le> length xs) \<and>
      entry_size (last xs) + (if slot0 = length xs - 1 then data_size + sizeof_item else 0) \<le> nat (btrfs_leaf_free_space fs right)"
    by (auto simp: push_right_loop_pos)
  then show ?thesis
    using False leaf_basic(1) [OF h] by (auto simp: push_leaf_right_def Let_def split: prod.splits)
qed (use leaf_basic(1) [OF h] in \<open>simp add: push_leaf_right_def Let_def\<close>)

lemma push_left_ret:
  assumes h: "leaf_ctx fs right ys" and r: "push_leaf_left fs left right upper slot0 slot1 data_size emptying = Some r"
  shows "pr_ret r = 0 \<longleftrightarrow>
    slot1 \<noteq> 0 \<and> ys \<noteq> [] \<and> (emptying \<or> 2 \<le> length ys) \<and> int data_size \<le> btrfs_leaf_free_space fs left \<and>
    int (entry_size (hd ys) + (if slot0 = 0 then data_size + sizeof_item else 0)) \<le> btrfs_leaf_free_space fs left"
proof (cases "ys = []")
  case False
  then have "btrfs_item_size_nr right 0 = length (snd (hd ys))"
    using leaf_items_nr(2) [OF h, of 0] by (simp add: hd_conv_nth)
  then have "0 < push_left_loop right slot0 data_size (nat (btrfs_leaf_free_space fs left)) 0
      (if emptying then length ys else length ys - 1) 0 0 \<longleftrightarrow> (emptying \<or> 2 \<le> length ys) \<and>
      entry_size (hd ys) + (if slot0 = 0 then data_size + sizeof_item else 0) \<le> nat (btrfs_leaf_free_space fs left)"
    using False by (auto simp: push_left_loop_pos)
  then show ?thesis
    using False r leaf_basic(1) [OF h] by (auto simp: push_leaf_left_def Let_def split: prod.splits if_splits option.splits)
qed (use r leaf_basic(1) [OF h] in \<open>auto simp: push_leaf_left_def Let_def split: if_splits\<close>)

section \<open>Example blocks\<close>

definition ex_right :: extent_buffer where
  "ex_right = ex_leaf\<lparr>hdr_nritems := 1, eb_items := (\<lambda>i. \<lparr>it_key = Key 300 1 0, it_offset = 3994, it_size = 1\<rparr>)\<rparr>"

definition ex_upper :: extent_buffer where
  "ex_upper = ex_leaf\<lparr>hdr_level := 1, hdr_nritems := 2,
     eb_ptrs := (\<lambda>i. \<lparr>kp_key = if i = 0 then Key 256 1 0 else Key 300 1 0, kp_blockptr = of_nat i, kp_generation = 7\<rparr>)\<rparr>"

definition ex_bad_leaf :: extent_buffer where
  "ex_bad_leaf = ex_leaf\<lparr>hdr_nritems := 1,
     eb_items := (\<lambda>_. \<lparr>it_key = Key 256 1 0, it_offset = 3996, it_size = 0xFFFFFFFF\<rparr>)\<rparr>"

definition ex_node :: "nat \<Rightarrow> extent_buffer" where
  "ex_node n = ex_upper\<lparr>hdr_nritems := n\<rparr>"

lemma ex_right_ok:
  "leaf_layout ex_fs ex_right" "leaf_items ex_right = [(Key 300 1 0, [154])]"
  "btrfs_leaf_free_space ex_fs ex_right = 3969"
proof -
  show lay: "leaf_layout ex_fs ex_right" by (simp add: leaf_layout_def data_limit_def ex_leaf_ok(3)) (simp add: ex_right_def)
  show items: "leaf_items ex_right = [(Key 300 1 0, [154])]"
    by (simp add: leaf_items_def item_bytes_def read_data_def ex_right_def ex_leaf_def upt_rec)
  show "btrfs_leaf_free_space ex_fs ex_right = 3969"
    using leaf_space(3) [OF leaf_ctxI [OF ex_leaf_ok(1) lay]] by (simp add: items ex_leaf_ok(3))
qed

section \<open>Balancing leaves\<close>

text \<open>
  C22. \<open>push_leaf_right\<close> moves a suffix of the left leaf to the front of its right neighbour. It does so
  exactly if the right leaf has room for the new item and for the last item of the left one (with
  the new item, if that goes in front of it) and, unless it may be emptied, the left leaf has two
  items; otherwise it returns 1 and changes nothing. After a push both leaves are well laid out, the
  concatenation of their items is unchanged, the parent's key for the right leaf is its first key,
  and the path points at the same place of the concatenation.
\<close>
theorem push_leaf_right_refines:
  fixes left right upper slot0 slot1 data_size emptying
  assumes "fs_ok fs" and "leaf_layout fs left" and "leaf_layout fs right"
  defines "xs \<equiv> leaf_items left" and "ys \<equiv> leaf_items right"
    and "r \<equiv> push_leaf_right fs left right upper slot0 slot1 data_size emptying"
  shows "if xs \<noteq> [] \<and> (emptying \<or> 2 \<le> length xs) \<and> int data_size \<le> btrfs_leaf_free_space fs right \<and>
      int (entry_size (last xs) + (if slot0 = length xs - 1 then data_size + sizeof_item else 0))
        \<le> btrfs_leaf_free_space fs right
    then pr_ret r = 0 \<and> leaf_layout fs (pr_left r) \<and> leaf_layout fs (pr_right r) \<and>
      leaf_items (pr_left r) @ leaf_items (pr_right r) = xs @ ys \<and>
      length ys < length (leaf_items (pr_right r)) \<and> (emptying \<or> leaf_items (pr_left r) \<noteq> []) \<and>
      btrfs_node_key (pr_upper r) (Suc slot1) = fst (hd (leaf_items (pr_right r))) \<and>
      (if pr_in_right r then slot0 = length (leaf_items (pr_left r)) + pr_slot0 r \<and> pr_slot1 r = Suc slot1
       else slot0 = pr_slot0 r \<and> slot0 < length (leaf_items (pr_left r)) \<and> pr_slot1 r = slot1)
    else r = \<lparr>pr_ret = 1, pr_left = left, pr_right = right, pr_upper = upper,
              pr_slot0 = slot0, pr_slot1 = slot1, pr_in_right = False\<rparr>"
proof -
  have hl: "leaf_ctx fs left xs" and hr: "leaf_ctx fs right ys" using assms(1-3) by (simp_all add: leaf_ctxI xs_def ys_def)
  note ret = push_right_ret [OF hl, of right upper slot0 slot1 data_size emptying, folded r_def]
  from push_leaf_right_ok [OF hl hr, of upper slot0 slot1 data_size emptying, folded r_def] show ?thesis
  proof (rule disjE)
    assume "\<exists>X P. xs = X @ P \<and> P \<noteq> [] \<and> (emptying \<or> X \<noteq> []) \<and> pushed fs r upper (Suc slot1) slot0 X (P @ ys)"
    then obtain X P where "xs = X @ P" "P \<noteq> []" "emptying \<or> X \<noteq> []" and p: "pushed fs r upper (Suc slot1) slot0 X (P @ ys)"
      by blast
    moreover from p have "leaf_layout fs (pr_left r)" "leaf_items (pr_left r) = X"
      "leaf_layout fs (pr_right r)" "leaf_items (pr_right r) = P @ ys" using leaf_ctxD by (auto simp: pushed_def)
    ultimately show ?thesis using ret by (auto simp: pushed_def)
  qed (use ret in auto)
qed

theorem push_leaf_right_refines_witness:
  "pr_ret (push_leaf_right ex_fs ex_leaf ex_right ex_upper 2 0 10 False) = 0"
  using push_leaf_right_refines [OF ex_leaf_ok(1,2) ex_right_ok(1), of False 10 2 ex_upper 0]
  by (simp add: ex_leaf_ok ex_right_ok)

text \<open>
  C23. \<open>push_leaf_left\<close> moves a prefix of the right leaf to the end of its (not empty) left neighbour,
  under the mirrored conditions and only if there is a left neighbour, and never hits its \<open>BUG\<close>.
\<close>
theorem push_leaf_left_refines:
  fixes upper slot0 slot1 data_size emptying
  assumes "fs_ok fs" and "leaf_layout fs left" and "leaf_layout fs right" and "leaf_items left \<noteq> []"
  defines "xs \<equiv> leaf_items left" and "ys \<equiv> leaf_items right"
  shows "\<exists>r. push_leaf_left fs left right upper slot0 slot1 data_size emptying = Some r \<and>
   (if slot1 \<noteq> 0 \<and> ys \<noteq> [] \<and> (emptying \<or> 2 \<le> length ys) \<and> int data_size \<le> btrfs_leaf_free_space fs left \<and>
      int (entry_size (hd ys) + (if slot0 = 0 then data_size + sizeof_item else 0)) \<le> btrfs_leaf_free_space fs left
    then pr_ret r = 0 \<and> leaf_layout fs (pr_left r) \<and> leaf_layout fs (pr_right r) \<and>
      leaf_items (pr_left r) @ leaf_items (pr_right r) = xs @ ys \<and>
      length xs < length (leaf_items (pr_left r)) \<and> (emptying \<or> leaf_items (pr_right r) \<noteq> []) \<and>
      (leaf_items (pr_right r) \<noteq> [] \<longrightarrow> btrfs_node_key (pr_upper r) slot1 = fst (hd (leaf_items (pr_right r)))) \<and>
      (if pr_in_right r then length xs + slot0 = length (leaf_items (pr_left r)) + pr_slot0 r \<and> pr_slot1 r = slot1
       else length xs + slot0 = pr_slot0 r \<and> pr_slot0 r < length (leaf_items (pr_left r)) \<and> Suc (pr_slot1 r) = slot1)
    else r = \<lparr>pr_ret = 1, pr_left = left, pr_right = right, pr_upper = upper,
              pr_slot0 = slot0, pr_slot1 = slot1, pr_in_right = True\<rparr>)"
proof -
  have hl: "leaf_ctx fs left xs" and hr: "leaf_ctx fs right ys" using assms(1-3) by (simp_all add: leaf_ctxI xs_def ys_def)
  note ret = push_left_ret [OF hr, of left upper slot0 slot1 data_size emptying]
  from push_leaf_left_ok [OF hl hr assms(4) [folded xs_def], of upper slot0 slot1 data_size emptying] show ?thesis
  proof (rule disjE)
    assume "\<exists>r P Y. push_leaf_left fs left right upper slot0 slot1 data_size emptying = Some r \<and>
       ys = P @ Y \<and> P \<noteq> [] \<and> (emptying \<or> Y \<noteq> []) \<and> pushed fs r upper slot1 (length xs + slot0) (xs @ P) Y"
    then obtain r P Y where r: "push_leaf_left fs left right upper slot0 slot1 data_size emptying = Some r"
      and "ys = P @ Y" "P \<noteq> []" "emptying \<or> Y \<noteq> []" and p: "pushed fs r upper slot1 (length xs + slot0) (xs @ P) Y"
      by blast
    moreover from p have "leaf_layout fs (pr_left r)" "leaf_items (pr_left r) = xs @ P"
      "leaf_layout fs (pr_right r)" "leaf_items (pr_right r) = Y" using leaf_ctxD by (auto simp: pushed_def)
    ultimately show ?thesis using ret [OF r] by (auto simp: pushed_def)
  qed (use ret in auto)
qed

theorem push_leaf_left_refines_witness:
  "\<exists>r. push_leaf_left ex_fs ex_right ex_leaf ex_upper 2 1 10 False = Some r \<and> pr_ret r = 0 \<and>
    leaf_items (pr_left r) @ leaf_items (pr_right r) = leaf_items ex_right @ leaf_items ex_leaf"
  using push_leaf_left_refines [OF ex_leaf_ok(1) ex_right_ok(1) ex_leaf_ok(2), of ex_upper 2 1 10 False]
  by (auto simp: ex_leaf_ok ex_right_ok)

text \<open>
  The split of a full leaf: at the point the code chooses without a second split, the leaf keeps
  the items before it and the new leaf gets the others, and the leaf the new item goes to has room
  for it, if the item fits into a leaf at all.
\<close>
theorem split_leaf_makes_room:
  assumes "fs_ok fs" and "leaf_layout fs l" and "slot \<le> length (leaf_items l)"
    and "data_size \<le> BTRFS_LEAF_DATA_SIZE fs"
    and "extending \<longrightarrow> slot < length (leaf_items l) \<and>
      data_size + entry_size (leaf_items l ! slot) \<le> BTRFS_LEAF_DATA_SIZE fs"
    and "split_leaf_point fs l slot data_size extending = (1, mid)" and "mid < length (leaf_items l)"
  shows "\<exists>l' right'. copy_for_split_items fs l right mid (length (leaf_items l)) = (l', right') \<and>
    leaf_layout fs l' \<and> leaf_layout fs right' \<and>
    leaf_items l' = take mid (leaf_items l) \<and> leaf_items right' = drop mid (leaf_items l) \<and>
    int data_size \<le> btrfs_leaf_free_space fs (if mid \<le> slot then right' else l')"
proof -
  let ?xs = "leaf_items l"
  have h: "leaf_ctx fs l ?xs" using assms(1,2) by (rule leaf_ctxI)
  have room: "if mid \<le> slot then entries_size (drop mid ?xs) + data_size \<le> BTRFS_LEAF_DATA_SIZE fs
      else entries_size (take mid ?xs) + data_size \<le> BTRFS_LEAF_DATA_SIZE fs"
    using split_leaf_point_room(2) [OF h _ assms(3,4) _ assms(6)] assms(5,7) by fastforce
  obtain l' right' where c: "copy_for_split_items fs l right mid (length ?xs) = (l', right')"
    and l': "leaf_ctx fs l' (take mid ?xs)" and r': "leaf_ctx fs right' (drop mid ?xs)"
    by (rule copy_for_split_items_ok [of fs l "take mid ?xs" "drop mid ?xs" right]) (use h assms(7) in auto)
  have "int data_size \<le> btrfs_leaf_free_space fs (if mid \<le> slot then right' else l')"
    using room leaf_room [OF l', of data_size] leaf_room [OF r', of data_size] by (auto simp: entries_size_def)
  with c leaf_ctxD [OF l'] leaf_ctxD [OF r'] show ?thesis by auto
qed

theorem split_leaf_makes_room_witness:
  "\<exists>l' right'. copy_for_split_items ex_fs ex_leaf ex_right 1 2 = (l', right') \<and>
    leaf_items l' = [(Key 256 1 0, [153, 154])] \<and> leaf_items right' = [(Key 256 12 256, [150, 151, 152])] \<and>
    3960 \<le> btrfs_leaf_free_space ex_fs right'"
proof -
  have "split_leaf_point ex_fs ex_leaf 1 3960 False = (1, 1)"
    by (simp add: split_leaf_point_def Let_def ex_leaf_ok(3))
      (simp add: ex_leaf_def leaf_space_used_def btrfs_item_end_nr_def btrfs_item_offset_nr_def btrfs_item_size_nr_def
        u32_add_def s32_def u32_of_def)
  then show ?thesis
    using split_leaf_makes_room [of ex_fs ex_leaf 1 3960 False 1 ex_right] by (auto simp: ex_leaf_ok numeral_2_eq_2)
qed

section \<open>The checks of a block\<close>

text \<open>
  C27. A leaf that \<open>btrfs_check_leaf\<close> calls clean, other than one with exactly one item, and in which no
  item's offset and size add up to \<open>2 ^ 32\<close> or more, has the layout every leaf operation relies on,
  and its keys are strictly increasing.
\<close>
theorem check_leaf_clean_sound:
  assumes "btrfs_check_leaf mem garbage fs info parent_key buf = Some (BTRFS_TREE_BLOCK_CLEAN, info')"
    and "fs_ok fs" and "eb_len buf \<le> 65536" and "no_wrap buf" and "hdr_nritems buf \<noteq> 1"
  shows "leaf_inv fs buf \<and> info' = info"
proof -
  have "check_leaf_status fs parent_key buf = BTRFS_TREE_BLOCK_CLEAN" and i: "info' = info"
    using assms(1) by (auto simp: btrfs_check_leaf_def Let_def split: if_splits)
  from check_leaf_sound [OF this(1) assms(2-5)] i show ?thesis by simp
qed

lemma ex_leaf_inv: "leaf_inv ex_fs ex_leaf" "no_wrap ex_leaf" "eb_len ex_leaf = 4096" "hdr_nritems ex_leaf = 2"
proof -
  show "leaf_inv ex_fs ex_leaf" by (simp add: leaf_inv_def ex_leaf_ok) (simp add: ex_leaf_def less_btrfs_key_def)
qed (simp_all add: no_wrap_def ex_leaf_def)

text \<open>
  Every well-formed leaf passes the check, whatever its number of items, when the parent's key is
  its first key or is not known; no record of a corrupt block is made.
\<close>
theorem check_leaf_accepts:
  assumes "leaf_inv fs buf" and "fs_ok fs" and "nodesize fs \<le> eb_len buf"
    and "parent_key = None \<or> leaf_items buf = [] \<or> parent_key = Some (fst (hd (leaf_items buf)))"
  shows "btrfs_check_leaf mem garbage fs info parent_key buf = Some (BTRFS_TREE_BLOCK_CLEAN, info)"
  using check_leaf_complete [OF assms] by (simp add: btrfs_check_leaf_def)

theorem check_leaf_accepts_witness:
  "btrfs_check_leaf True 0 ex_fs None (Some (Key 256 1 0)) ex_leaf = Some (BTRFS_TREE_BLOCK_CLEAN, None)"
  by (rule check_leaf_accepts) (simp_all add: ex_leaf_inv ex_leaf_ok, simp add: ex_fs_def)

theorem check_leaf_clean_sound_witness:
  "leaf_inv ex_fs ex_leaf \<and> (None :: corrupt_blocks option) = None"
proof (rule check_leaf_clean_sound [of True 0 ex_fs None "Some (Key 256 1 0)" ex_leaf None])
  show "btrfs_check_leaf True 0 ex_fs None (Some (Key 256 1 0)) ex_leaf = Some (BTRFS_TREE_BLOCK_CLEAN, None)"
    using check_leaf_complete [OF ex_leaf_inv(1) ex_leaf_ok(1), of "Some (Key 256 1 0)"]
    by (simp add: btrfs_check_leaf_def ex_leaf_inv ex_leaf_ok) (simp add: ex_fs_def)
qed (simp_all add: ex_leaf_ok ex_leaf_inv)

text \<open>
  The check accepts a leaf whose only item starts behind the end of the data area with a size of
  4 GiB: the sum wraps around, and the end of a single item is not compared with the end of the area.
\<close>
theorem check_leaf_accepts_wrapped_item:
  "check_leaf_status ex_fs None ex_bad_leaf = BTRFS_TREE_BLOCK_CLEAN \<and> \<not> leaf_layout ex_fs ex_bad_leaf \<and>
    BTRFS_LEAF_DATA_SIZE ex_fs < btrfs_item_offset_nr ex_bad_leaf 0"
proof -
  have e: "btrfs_item_end_nr ex_bad_leaf i = 3995" "btrfs_item_offset_nr ex_bad_leaf i = 3996" for i
    by (simp_all add: ex_bad_leaf_def btrfs_item_end_nr_def btrfs_item_offset_nr_def btrfs_item_size_nr_def u32_add_def)
  have n: "hdr_nritems ex_bad_leaf = 1" "hdr_level ex_bad_leaf = 0" "eb_len ex_bad_leaf = 4096"
    by (simp_all add: ex_bad_leaf_def ex_leaf_def)
  have free: "btrfs_leaf_free_space ex_fs ex_bad_leaf = 3971"
    by (simp add: btrfs_leaf_free_space_def leaf_space_used_def n e ex_leaf_ok(3) s32_def)
  have "check_leaf_status ex_fs None ex_bad_leaf = BTRFS_TREE_BLOCK_CLEAN"
    by (simp add: check_leaf_status_def Let_def n e free ex_leaf_ok(3) parent_key_bad_def)
  moreover have "\<not> leaf_layout ex_fs ex_bad_leaf"
    by (simp add: leaf_layout_def n data_limit_def ex_leaf_ok(3)) (simp add: ex_bad_leaf_def)
  ultimately show ?thesis by (simp add: e ex_leaf_ok(3))
qed

text \<open>
  What \<open>btrfs_check_node\<close> establishes, exactly: the number of pointers is between 1 and the capacity
  of a node, the first key is the parent's (if that has a type), and all keys but the last are
  strictly increasing. The last pair of keys is not compared.
\<close>
theorem check_node_clean_exact:
  "check_node_status fs parent_key buf = BTRFS_TREE_BLOCK_CLEAN \<longleftrightarrow>
     0 < hdr_nritems buf \<and> hdr_nritems buf \<le> BTRFS_NODEPTRS_PER_BLOCK fs \<and>
     \<not> parent_key_bad parent_key (btrfs_node_key buf 0) \<and> sorted_wrt (<) (butlast (node_keys buf))"
  by (rule check_node_clean_iff)

text \<open>
  A block of the extent tree that fails the check is recorded, with the parent's key (or its own
  first key), in the tree of corrupt blocks unless its range overlaps a recorded one; the tree stays
  a search tree of disjoint ranges, and the status is that of the check either way.
\<close>
lemma check_leaf_records:
  fixes buf garbage
  assumes "cache_inv (cb_tree cb)" and "ce_ok \<lparr>ce_objectid = garbage, ce_start = eb_start buf, ce_size = of_nat (eb_len buf)\<rparr>"
    and "hdr_owner buf = BTRFS_EXTENT_TREE_OBJECTID"
    and "check_leaf_status fs parent_key buf = status" and "status \<noteq> BTRFS_TREE_BLOCK_CLEAN"
  defines "e \<equiv> \<lparr>ce_objectid = garbage, ce_start = eb_start buf, ce_size = of_nat (eb_len buf)\<rparr>"
  shows "\<exists>cb'. btrfs_check_leaf True garbage fs (Some cb) parent_key buf = Some (status, Some cb') \<and>
    cache_inv (cb_tree cb') \<and>
    (if ce_bytes e \<inter> cache_bytes (cb_tree cb) = {}
     then set (inorder (cb_tree cb')) = insert e (set (inorder (cb_tree cb))) \<and>
       cb_payload cb' (eb_start buf) = Some (case parent_key of Some k \<Rightarrow> k | None \<Rightarrow> btrfs_item_key buf 0, 0)
     else cb' = cb)"
  using insert_cache_extent_spec [OF assms(1) assms(2)] assms(1,3-5)
  by (cases "ce_bytes e \<inter> cache_bytes (cb_tree cb) = {}")
    (auto simp: btrfs_check_leaf_def btrfs_add_corrupt_extent_record_def e_def Let_def)

section \<open>Binary search\<close>

text \<open>
  In a well-formed leaf the binary search finds the slot of the key and returns 0, or returns 1 with
  the slot at which the key has to be inserted to keep the order.
\<close>
theorem bin_search_leaf_correct:
  assumes "leaf_inv fs eb"
  shows "case bin_search eb key 0 of (ret, slot) \<Rightarrow>
    slot \<le> length (leaf_items eb) \<and> (\<forall>x\<in>set (take slot (leaf_items eb)). fst x < key) \<and>
    (if ret = 0 then slot < length (leaf_items eb) \<and> fst (leaf_items eb ! slot) = key
     else ret = 1 \<and> (\<forall>x\<in>set (drop slot (leaf_items eb)). key < fst x))"
proof -
  obtain ret slot where r: "bin_search eb key 0 = (ret, slot)" by force
  have k: "fst (leaf_items eb ! i) = btrfs_item_key eb i" if "i < hdr_nritems eb" for i
    using that by (simp add: leaf_items_def btrfs_item_key_def)
  have "length (leaf_items eb) = hdr_nritems eb" by (simp add: leaf_items_def)
  then show ?thesis using bin_search_leaf [OF assms, of key] unfolding r search_result_def
    by (auto simp: all_set_conv_all_nth k split: if_splits)
qed

theorem bin_search_leaf_correct_witness:
  "case bin_search ex_leaf (Key 256 12 256) 0 of (ret, slot) \<Rightarrow> slot \<le> 2"
  using bin_search_leaf_correct [OF ex_leaf_inv(1), of "Key 256 12 256"] by (auto simp: ex_leaf_ok split: prod.splits)

section \<open>Nodes\<close>

text \<open>
  \<open>push_node_left\<close> moves a prefix of the pointers of a node to the end of its left neighbour, or
  returns 1 and changes nothing. The sequence of pointers of both is unchanged, no node overflows,
  and the source keeps at least 8 pointers unless it is emptied. It moves something whenever the
  destination has room and the source has more than 8 pointers, or may be emptied and fits.
\<close>
theorem push_node_left_refines:
  assumes "push_node_left fs dst src emptying = (ret, dst', src')"
  shows "(if ret = 0 then node_ptrs dst' @ node_ptrs src' = node_ptrs dst @ node_ptrs src \<and>
      hdr_nritems dst' \<le> BTRFS_NODEPTRS_PER_BLOCK fs \<and>
      (hdr_nritems src' = 0 \<and> emptying \<or> 8 \<le> hdr_nritems src')
    else ret = 1 \<and> dst' = dst \<and> src' = src) \<and>
    (hdr_nritems dst < BTRFS_NODEPTRS_PER_BLOCK fs \<and> 0 < hdr_nritems src \<and>
      (if emptying then hdr_nritems dst + hdr_nritems src \<le> BTRFS_NODEPTRS_PER_BLOCK fs else 8 < hdr_nritems src) \<longrightarrow>
     ret = 0 \<and> length (node_ptrs dst) < length (node_ptrs dst'))"
proof -
  have "ret = 0" if "hdr_nritems dst < BTRFS_NODEPTRS_PER_BLOCK fs"
    "if emptying then hdr_nritems dst + hdr_nritems src \<le> BTRFS_NODEPTRS_PER_BLOCK fs else 8 < hdr_nritems src"
    using assms that by (auto simp: push_node_left_def push_left_count_def Let_def split: if_splits)
  with push_node_left_ok [OF assms] show ?thesis by (auto simp: node_ptrs_def)
qed

lemma ex_node_ok: "BTRFS_NODEPTRS_PER_BLOCK ex_fs = 121" "hdr_nritems (ex_node n) = n"
  by (simp_all add: BTRFS_NODEPTRS_PER_BLOCK_def ex_leaf_ok(3) ex_node_def)

theorem push_node_left_refines_witness:
  "fst (push_node_left ex_fs (ex_node 2) (ex_node 20) False) = 0"
  using push_node_left_refines [of ex_fs "ex_node 2" "ex_node 20" False "fst (push_node_left ex_fs (ex_node 2) (ex_node 20) False)"
      "fst (snd (push_node_left ex_fs (ex_node 2) (ex_node 20) False))"
      "snd (snd (push_node_left ex_fs (ex_node 2) (ex_node 20) False))"]
  by (simp add: ex_node_ok)

text \<open>
  \<open>balance_node_right\<close> moves a suffix of the pointers of a node to the front of its right neighbour
  exactly if that has room and the node has at least 4 pointers; the node keeps about half of them,
  and the sequence of the pointers of both is unchanged.
\<close>
theorem balance_node_right_refines:
  assumes "balance_node_right fs dst src = (ret, dst', src')"
  shows "if hdr_nritems dst < BTRFS_NODEPTRS_PER_BLOCK fs \<and> 4 \<le> hdr_nritems src
    then ret = 0 \<and> node_ptrs src' @ node_ptrs dst' = node_ptrs src @ node_ptrs dst \<and>
      hdr_nritems dst' \<le> BTRFS_NODEPTRS_PER_BLOCK fs \<and> 0 < hdr_nritems src' \<and> hdr_nritems src' < hdr_nritems src \<and>
      hdr_nritems src \<le> 2 * (hdr_nritems src' + 1)
    else ret = 1 \<and> dst' = dst \<and> src' = src"
proof -
  have "ret = 0 \<longleftrightarrow> hdr_nritems dst < BTRFS_NODEPTRS_PER_BLOCK fs \<and> 4 \<le> hdr_nritems src"
    using assms by (auto simp: balance_node_right_def Let_def split: if_splits)
  with balance_node_right_ok [OF assms] show ?thesis by auto
qed

theorem balance_node_right_refines_witness:
  "fst (balance_node_right ex_fs (ex_node 2) (ex_node 20)) = 0"
  using balance_node_right_refines [of ex_fs "ex_node 2" "ex_node 20" "fst (balance_node_right ex_fs (ex_node 2) (ex_node 20))"
      "fst (snd (balance_node_right ex_fs (ex_node 2) (ex_node 20)))" "snd (snd (balance_node_right ex_fs (ex_node 2) (ex_node 20)))"]
  by (simp add: ex_node_ok)

text \<open>
  A full node that is split can take the new pointer: the halves hold the pointers in order, and
  inserting a pointer at a place of either half then succeeds and puts it there.
\<close>
theorem split_node_insert:
  assumes "split_node_ptrs c split = (c', split')" and "2 \<le> hdr_nritems c"
    and "hdr_nritems c \<le> BTRFS_NODEPTRS_PER_BLOCK fs" and "b \<in> {c', split'}" and "slot \<le> hdr_nritems b"
  shows "node_ptrs c' @ node_ptrs split' = node_ptrs c \<and> 0 < hdr_nritems c' \<and> 0 < hdr_nritems split' \<and>
    (\<exists>b'. insert_ptr fs transid b key bytenr slot = Some b' \<and>
      node_ptrs b' = take slot (node_ptrs b) @
        \<lparr>kp_key = key, kp_blockptr = bytenr, kp_generation = transid\<rparr> # drop slot (node_ptrs b))"
proof -
  note s = split_node_ptrs_ok [OF assms(1)]
  have "hdr_nritems b < BTRFS_NODEPTRS_PER_BLOCK fs" using s(2,3) assms(2-4) by auto
  with insert_ptr_ok [OF assms(5)] s assms(2) show ?thesis by auto
qed

theorem split_node_insert_witness:
  "\<exists>b'. insert_ptr ex_fs 7 (fst (split_node_ptrs (ex_node 121) ex_upper)) (Key 1 1 1) 4096 0 = Some b'"
  using split_node_insert [of "ex_node 121" ex_upper "fst (split_node_ptrs (ex_node 121) ex_upper)"
      "snd (split_node_ptrs (ex_node 121) ex_upper)" ex_fs "fst (split_node_ptrs (ex_node 121) ex_upper)" 0 7 "Key 1 1 1" 4096]
  by (auto simp: ex_node_ok)

text \<open>
  Deleting a pointer takes exactly that one out; a root that loses its last pointer becomes a leaf,
  and if the first pointer goes, the new first key is carried into the parents.
\<close>
theorem del_ptr_refines:
  assumes "slot < hdr_nritems parent" and "hdr_nritems parent < 2 ^ 32"
    and "is_root \<and> hdr_nritems parent = 1 \<longrightarrow> hdr_level parent = 1"
  shows "\<exists>parent' path'. btrfs_del_ptr is_root parent slot path = Some (parent', path') \<and>
    node_ptrs parent' = take slot (node_ptrs parent) @ drop (Suc slot) (node_ptrs parent) \<and>
    hdr_level parent' = (if is_root \<and> hdr_nritems parent = 1 then 0 else hdr_level parent) \<and>
    path' = (if slot = 0 \<and> \<not> (is_root \<and> hdr_nritems parent = 1)
             then btrfs_fixup_low_keys (btrfs_node_key parent' 0) path else path)"
  using del_ptr_ok [OF assms(1,2), of is_root path] assms(3) by blast

theorem del_ptr_refines_witness:
  "\<exists>parent' path'. btrfs_del_ptr True (ex_node 2) 0 [] = Some (parent', path') \<and>
    node_ptrs parent' = drop 1 (node_ptrs (ex_node 2))"
  using del_ptr_refines [of 0 "ex_node 2" True "[]"] by (auto simp: ex_node_ok)

text \<open>
  \<open>btrfs_set_item_key_safe\<close> changes a key of a sorted leaf exactly if the keys stay strictly increasing,
  and otherwise returns -1 and changes nothing.
\<close>
theorem set_item_key_safe_exact:
  assumes "sorted_wrt (<) (item_keys eb)" and "slot < hdr_nritems eb" and "hdr_nritems eb < 2 ^ 32"
    and "btrfs_set_item_key_safe eb slot new_key path = (ret, eb', path')"
  shows "if sorted_wrt (<) ((item_keys eb)[slot := new_key])
    then ret = 0 \<and> item_keys eb' = (item_keys eb)[slot := new_key] \<and>
      path' = (if slot = 0 then btrfs_fixup_low_keys new_key path else path)
    else ret = -1 \<and> eb' = eb \<and> path' = path"
  using set_item_key_safe_ok [OF assms] by (auto simp: btrfs_set_item_key_unsafe_def)

theorem set_item_key_safe_exact_witness:
  "fst (btrfs_set_item_key_safe ex_leaf 0 (Key 256 2 0) []) = 0"
proof -
  have "item_keys ex_leaf = [Key 256 1 0, Key 256 12 256]" by (simp add: item_keys_def ex_leaf_def upt_rec btrfs_item_key_def)
  then show ?thesis
    using set_item_key_safe_exact [of ex_leaf 0 "Key 256 2 0" "[]" "fst (btrfs_set_item_key_safe ex_leaf 0 (Key 256 2 0) [])"
        "fst (snd (btrfs_set_item_key_safe ex_leaf 0 (Key 256 2 0) []))" "snd (snd (btrfs_set_item_key_safe ex_leaf 0 (Key 256 2 0) []))"]
    by (simp add: less_btrfs_key_def) (simp add: ex_leaf_def)
qed

end
