(* ===== verification/TreeProps.thy ===== *)
theory TreeProps
  imports TreeSearch BlockProps
begin

text \<open>
  The properties of searching and walking a tree, over the sequence \<open>tree_items\<close> of the items of all
  leaves and the position of a path in it, with an example tree of two leaves.
\<close>

section \<open>An example tree\<close>

definition ex_rd :: reader where
  "ex_rd bytenr transid = (if bytenr = 0 then Some ex_leaf else Some ex_right)"

definition ex_path :: btrfs_path where
  "ex_path = \<lparr>nodes = (\<lambda>j. if j = 0 then Some ex_leaf else if j = 1 then Some ex_upper else None), slots = (\<lambda>_. 0),
     lowest_level = 0, skip_check_block = False\<rparr>"

definition ex_fresh :: btrfs_path where
  "ex_fresh = \<lparr>nodes = (\<lambda>_. None), slots = (\<lambda>_. 0), lowest_level = 0, skip_check_block = False\<rparr>"

definition ex_level :: nat where
  "ex_level = 1"

lemma ex_child: "child ex_rd ex_upper 0 = Some ex_leaf" "child ex_rd ex_upper (Suc 0) = Some ex_right"
  by (simp_all add: child_def ex_rd_def btrfs_node_blockptr_def ex_upper_def)

lemma ex_tree_items:
  "tree_items ex_rd ex_level ex_upper = [(Key 256 1 0, [153, 154]), (Key 256 12 256, [150, 151, 152]), (Key 300 1 0, [154])]"
proof -
  have "hdr_nritems ex_upper = Suc (Suc 0)" by (simp add: ex_upper_def)
  then show ?thesis by (simp add: ex_level_def tree_items.simps(2) ex_child ex_leaf_ok ex_right_ok)
qed

lemma ex_tree_ok: "tree_ok ex_rd ex_fs ex_level ex_upper"
proof -
  have k: "btrfs_node_key ex_upper 0 = Key 256 1 0" "btrfs_node_key ex_upper (Suc 0) = Key 300 1 0"
    by (simp_all add: btrfs_node_key_def ex_upper_def)
  have n: "hdr_nritems ex_upper = Suc (Suc 0)" "hdr_level ex_upper = Suc 0" by (simp_all add: ex_upper_def)
  have r: "leaf_inv ex_fs ex_right" "nodesize ex_fs \<le> eb_len ex_right" "nodesize ex_fs \<le> eb_len ex_leaf"
    by (simp_all add: leaf_inv_def ex_right_ok) (simp_all add: ex_right_def ex_leaf_def ex_fs_def)
  have cap: "BTRFS_NODEPTRS_PER_BLOCK ex_fs = 121" by (rule ex_node_ok)
  show ?thesis
    using r ex_leaf_inv(1)
    by (simp add: ex_level_def tree_ok.simps(2) n cap node_keys_def k less_btrfs_key_def All_less_Suc ex_child ex_leaf_ok ex_right_ok)
qed

lemma ex_tree_path: "tree_path ex_rd ex_fs ex_level ex_upper ex_path"
  using ex_tree_ok by (simp add: tree_path_def ex_level_def ex_path_def ex_child) (simp add: ex_upper_def)

lemma ex_items_path:
  "items_before ex_rd ex_level ex_path ex_upper = []"
  "items_after ex_rd ex_level ex_path ex_upper = [(Key 256 1 0, [153, 154]), (Key 256 12 256, [150, 151, 152]), (Key 300 1 0, [154])]"
proof -
  show b: "items_before ex_rd ex_level ex_path ex_upper = []" by (simp add: ex_level_def ex_path_def ex_child)
  show "items_after ex_rd ex_level ex_path ex_upper = [(Key 256 1 0, [153, 154]), (Key 256 12 256, [150, 151, 152]), (Key 300 1 0, [154])]"
    using path_items [of ex_rd ex_level ex_path ex_upper] ex_tree_path b ex_tree_items by (simp add: tree_path_def)
qed

lemma ex_fresh_ok: "ex_level < BTRFS_MAX_LEVEL" "fresh_path ex_fresh"
  by (simp_all add: ex_level_def fresh_path_def ex_fresh_def)

section \<open>Properties\<close>

text \<open>
  C1. In a well-formed tree the search (without a transaction) always returns; it returns 0 with the path
  at the item with the key if there is one, and 1 with the path at the place where the key has to be
  inserted if there is none. No block is recorded as corrupt.
\<close>
theorem search_slot_correct:
  assumes "tree_ok rd fs l b" and "fs_ok fs" and "l < BTRFS_MAX_LEVEL" and "fresh_path p"
  shows "\<exists>ret p'. btrfs_search_slot mem garbage fs rd b key p info = Some (ret, p', info) \<and> tree_path rd fs l b p' \<and>
    (\<forall>x\<in>set (items_before rd l p' b). fst x < key) \<and> (\<forall>x\<in>set (items_after rd l p' b). key \<le> fst x) \<and>
    items_before rd l p' b @ items_after rd l p' b = tree_items rd l b \<and>
    ret = (if key \<in> fst ` set (tree_items rd l b) then 0 else 1)"
proof -
  obtain ret p' where p': "btrfs_search_slot mem garbage fs rd b key p info = Some (ret, p', info)"
    "tree_path rd fs l b p'" "found_at rd l p' b key ret"
    by (rule search_slot_ok [OF assms])
  moreover have "path_ok rd l p' b" using p'(2) by (simp add: tree_path_def)
  ultimately show ?thesis by (auto simp: found_at_def simp flip: path_items)
qed

theorem search_slot_correct_witness:
  "\<exists>ret p'. btrfs_search_slot True 0 ex_fs ex_rd ex_upper (Key 256 12 256) ex_fresh None = Some (ret, p', None) \<and> ret = 0"
  using search_slot_correct [OF ex_tree_ok ex_leaf_ok(1) ex_fresh_ok, of True 0 "Key 256 12 256" None]
  by (auto simp: ex_tree_items)

text \<open>
  \<open>btrfs_next_leaf\<close> moves the path to the first item of the next leaf, skipping exactly the rest of the
  current one, and returns 1 with the path unchanged if there is no later leaf.
\<close>
theorem next_leaf_correct:
  assumes "tree_path rd fs l b p"
  shows "\<exists>ret p'. btrfs_next_leaf rd p = (ret, p') \<and> tree_path rd fs l b p' \<and>
    (if items_after rd l p b = leaf_rest p then ret = 1 \<and> p' = p
     else ret = 0 \<and> slots p' 0 = 0 \<and> items_before rd l p' b = items_before rd l p b @ leaf_rest p)"
  using next_leaf_ok [OF assms] by (auto split: if_splits)

theorem next_leaf_correct_witness:
  "\<exists>ret p'. btrfs_next_leaf ex_rd ex_path = (ret, p') \<and> ret = 0 \<and>
    items_before ex_rd ex_level p' ex_upper = [(Key 256 1 0, [153, 154]), (Key 256 12 256, [150, 151, 152])]"
proof -
  have "leaf_rest ex_path = [(Key 256 1 0, [153, 154]), (Key 256 12 256, [150, 151, 152])]"
    by (simp add: leaf_rest_def ex_path_def ex_leaf_ok)
  then show ?thesis using next_leaf_correct [OF ex_tree_path] by (auto simp: ex_items_path)
qed

text \<open>
  C31. The loop of \<open>btrfs_previous_item\<close> ends. It returns 0 at the last item before the path's position that
  has the type and an objectid of at least the given one, and 1 only if there is no such item.
\<close>
theorem previous_item_correct:
  assumes "tree_path rd fs l b p"
  shows "\<exists>ret p'. btrfs_previous_item rd p min_objectid type = Some (ret, p') \<and> tree_path rd fs l b p' \<and>
    (ret = 0 \<and> last_before (\<lambda>k. key_type k = type \<and> min_objectid \<le> objectid k) (items_before rd l p b) (items_before rd l p' b) \<or>
     ret = 1 \<and> (\<forall>y\<in>set (items_before rd l p b). \<not> (key_type (fst y) = type \<and> min_objectid \<le> objectid (fst y))))"
  using previous_item.loop_ok [OF assms] .

theorem previous_item_correct_witness:
  "\<exists>p'. btrfs_previous_item ex_rd ex_path 256 1 = Some (1, p')"
  using previous_item_correct [OF ex_tree_path, of 256 1] by (auto simp: ex_items_path last_before_def)

text \<open>
  The loop of \<open>btrfs_next_extent_item\<close> ends: it stops at the next extent or metadata item after the
  current one if its objectid is not above the limit, and returns 1 only if every later one is.
\<close>
theorem next_extent_item_correct:
  assumes "tree_path rd fs l b p" and "on_item p" and "items_after rd l p b = x # ys"
  shows "\<exists>ret p'. btrfs_next_extent_item rd p max_objectid = Some (ret, p') \<and> tree_path rd fs l b p' \<and>
    (ret = 0 \<and> (\<exists>skip y rest. ys = skip @ y # rest \<and> items_before rd l p' b = items_before rd l p b @ x # skip \<and>
         is_extent_key (fst y) \<and> objectid (fst y) \<le> max_objectid \<and> (\<forall>z\<in>set skip. \<not> is_extent_key (fst z))) \<or>
     ret = 1 \<and> (\<forall>y\<in>set ys. is_extent_key (fst y) \<longrightarrow> max_objectid < objectid (fst y)))"
  using assms by (rule next_extent_item_ok)

theorem next_extent_item_correct_witness:
  "\<exists>p'. btrfs_next_extent_item ex_rd ex_path 1000 = Some (1, p')"
proof -
  have "on_item ex_path" by (simp add: on_item_def ex_path_def ex_leaf_inv)
  from next_extent_item_correct [OF ex_tree_path this ex_items_path(2), of 1000] show ?thesis
    by (auto simp: append_eq_Cons_conv Cons_eq_append_conv)
qed

text \<open>
  C32. \<open>btrfs_find_item\<close> ends at the first item whose key is not below the requested one (moving on to
  the next leaf if need be) and reports its key, or gives 1 and no key if there is none. The value is 0 for the
  requested key and 1 for one with another objectid or type. If the item is not the requested
  one but has its objectid and type, the value is 1 when the path of \<open>btrfs_search_slot\<close> ends on an item, the
  one that is reported, and 0 when it ends behind the last item of a leaf, so that the item is the first one of the next leaf.
\<close>
theorem find_item_correct:
  fixes iobjectid ktype ioff
  assumes "tree_ok rd fs l b" and "fs_ok fs" and "l < BTRFS_MAX_LEVEL" and "fresh_path p"
  defines "key \<equiv> Key iobjectid ktype ioff"
  shows "\<exists>r p1 ret p' fk. btrfs_search_slot mem garbage fs rd b key p info = Some (r, p1, info) \<and>
    btrfs_find_item mem garbage fs rd b (Some p) iobjectid ioff ktype True info = Some (ret, Some p', fk, info) \<and>
    tree_path rd fs l b p' \<and> items_before rd l p' b = takeWhile (\<lambda>x. fst x < key) (tree_items rd l b) \<and>
    (on_item p' \<longleftrightarrow> fk \<noteq> None) \<and>
    (case dropWhile (\<lambda>x. fst x < key) (tree_items rd l b) of
       [] \<Rightarrow> fk = None \<and> ret = 1
     | x # _ \<Rightarrow> fk = Some (fst x) \<and>
         ret = (if key_type (fst x) \<noteq> ktype \<or> objectid (fst x) \<noteq> iobjectid \<or> fst x \<noteq> key \<and> on_item p1 then 1 else 0))"
proof -
  obtain r p1 ret p' fk where f: "btrfs_search_slot mem garbage fs rd b key p info = Some (r, p1, info)"
    "btrfs_find_item mem garbage fs rd b (Some p) iobjectid ioff ktype True info = Some (ret, Some p', fk, info)"
    "found_at rd l p1 b key r" "tree_path rd fs l b p1" "tree_path rd fs l b p'" "items_before rd l p' b = items_before rd l p1 b"
    "on_item p' \<longleftrightarrow> fk \<noteq> None"
    "case items_after rd l p1 b of [] \<Rightarrow> fk = None \<and> ret = 1
     | x # _ \<Rightarrow> fk = Some (fst x) \<and>
         ret = (if key_type (fst x) \<noteq> ktype \<or> objectid (fst x) \<noteq> iobjectid \<or> fst x \<noteq> key \<and> on_item p1 then 1 else 0)"
    using find_item_ok [OF assms(1-4), of mem garbage iobjectid ktype ioff info, folded key_def] .
  have "items_before rd l p1 b @ items_after rd l p1 b = tree_items rd l b"
    using path_items [of rd l p1 b] f(4) by (simp add: tree_path_def)
  then have at: "takeWhile (\<lambda>x. fst x < key) (tree_items rd l b) = items_before rd l p1 b"
    "dropWhile (\<lambda>x. fst x < key) (tree_items rd l b) = items_after rd l p1 b"
    using takeWhile_split [of "items_before rd l p1 b" "items_after rd l p1 b" "tree_items rd l b" "\<lambda>x. fst x < key"] f(3)
    by (auto simp: found_at_def not_less)
  show ?thesis unfolding at using f(1,2,5-8) by (intro exI conjI)
qed

text \<open>
  An example where the item behind the place of the key is in the next leaf and has the objectid and the type of the key.
\<close>

definition ex_right2 :: extent_buffer where
  "ex_right2 = ex_right\<lparr>eb_items := (\<lambda>i. \<lparr>it_key = Key 256 12 300, it_offset = 3994, it_size = 1\<rparr>)\<rparr>"

definition ex_upper2 :: extent_buffer where
  "ex_upper2 = ex_upper\<lparr>eb_ptrs :=
     (\<lambda>i. \<lparr>kp_key = if i = 0 then Key 256 1 0 else Key 256 12 300, kp_blockptr = of_nat i, kp_generation = 7\<rparr>)\<rparr>"

definition ex_rd2 :: reader where
  "ex_rd2 bytenr transid = (if bytenr = 0 then Some ex_leaf else Some ex_right2)"

lemma ex_right2_ok: "leaf_layout ex_fs ex_right2" "leaf_items ex_right2 = [(Key 256 12 300, [154])]"
proof -
  show lay: "leaf_layout ex_fs ex_right2"
    by (simp add: leaf_layout_def data_limit_def ex_leaf_ok(3)) (simp add: ex_right2_def ex_right_def)
  show items: "leaf_items ex_right2 = [(Key 256 12 300, [154])]"
    by (simp add: leaf_items_def item_bytes_def read_data_def ex_right2_def ex_right_def ex_leaf_def upt_rec)
qed

lemma ex_child2: "child ex_rd2 ex_upper2 0 = Some ex_leaf" "child ex_rd2 ex_upper2 (Suc 0) = Some ex_right2"
  by (simp_all add: child_def ex_rd2_def btrfs_node_blockptr_def ex_upper2_def ex_upper_def)

lemma ex_upper2_ok: "hdr_nritems ex_upper2 = Suc (Suc 0)" "hdr_level ex_upper2 = Suc 0"
  "btrfs_node_key ex_upper2 0 = Key 256 1 0" "btrfs_node_key ex_upper2 (Suc 0) = Key 256 12 300"
  by (simp_all add: btrfs_node_key_def ex_upper2_def ex_upper_def)

lemma ex_tree2_ok: "tree_ok ex_rd2 ex_fs ex_level ex_upper2"
  "tree_items ex_rd2 ex_level ex_upper2 = [(Key 256 1 0, [153, 154]), (Key 256 12 256, [150, 151, 152]), (Key 256 12 300, [154])]"
proof -
  have r: "leaf_inv ex_fs ex_right2" "nodesize ex_fs \<le> eb_len ex_right2" "nodesize ex_fs \<le> eb_len ex_leaf"
    by (simp_all add: leaf_inv_def ex_right2_ok) (simp_all add: ex_right2_def ex_right_def ex_leaf_def ex_fs_def)
  show "tree_ok ex_rd2 ex_fs ex_level ex_upper2"
    using r ex_leaf_inv(1)
    by (simp add: ex_level_def tree_ok.simps(2) ex_upper2_ok ex_node_ok(1) node_keys_def less_btrfs_key_def All_less_Suc ex_child2 ex_leaf_ok ex_right2_ok)
  show "tree_items ex_rd2 ex_level ex_upper2 = [(Key 256 1 0, [153, 154]), (Key 256 12 256, [150, 151, 152]), (Key 256 12 300, [154])]"
    by (simp add: ex_level_def tree_items.simps(2) ex_upper2_ok ex_child2 ex_leaf_ok ex_right2_ok)
qed

lemma ex_bin_search: "bin_search ex_upper2 (Key 256 12 299) (Suc 0) = (1, 1)" "bin_search ex_leaf (Key 256 12 299) 0 = (1, 2)"
  by (simp_all add: bin_search_def ex_upper2_ok ex_leaf_inv generic_bin_search.simps btrfs_comp_keys_def btrfs_comp_cpu_keys_def btrfs_item_key_def ex_leaf_def)

text \<open>The search for a key between the two leaves ends behind the last item of the first one.\<close>

lemma ex_search2: "\<exists>p1. btrfs_search_slot True 0 ex_fs ex_rd2 ex_upper2 (Key 256 12 299) ex_fresh None = Some (1, p1, None) \<and> \<not> on_item p1"
proof -
  have p: "parent_agrees ex_rd2 (Suc 0) ex_fresh ex_upper2" by (simp add: parent_agrees_def ex_fresh_def)
  define p2 where "p2 = ex_fresh\<lparr>nodes := (nodes ex_fresh)(Suc 0 := Some ex_upper2), slots := (slots ex_fresh)(Suc 0 := 0)\<rparr>"
  have ds: "down_slot (bin_search ex_upper2 (Key 256 12 299) (Suc 0)) = 0" by (simp add: ex_bin_search down_slot_def)
  obtain c where c: "search_slot_loop True 0 ex_fs ex_rd2 (Key 256 12 299) ex_fresh None ex_upper2 =
      search_slot_loop True 0 ex_fs ex_rd2 (Key 256 12 299) p2 None c" "child ex_rd2 ex_upper2 0 = Some c" "tree_ok ex_rd2 ex_fs 0 c" "parent_agrees ex_rd2 0 p2 c"
    by (rule search_slot_step [OF ex_tree2_ok(1) [unfolded ex_level_def One_nat_def] ex_leaf_ok(1) _ _ p,
          where key = "Key 256 12 299" and mem = True and garbage = 0 and info = None, unfolded ds, folded p2_def])
      (simp_all add: ex_fresh_def)
  then have cl: "c = ex_leaf" by (simp add: ex_child2)
  have "check_block True 0 ex_fs None (p2\<lparr>nodes := (nodes p2)(0 := Some ex_leaf)\<rparr>) 0 = Some (0, None)"
    using c(3,4) cl by (intro check_block_ok [of ex_rd2 _ _ ex_leaf, OF _ ex_leaf_ok(1)]) (auto simp: parent_agrees_def split: option.splits)
  then have "search_slot_loop True 0 ex_fs ex_rd2 (Key 256 12 299) p2 None ex_leaf =
      Some (1, p2\<lparr>nodes := (nodes p2)(0 := Some ex_leaf), slots := (slots p2)(0 := 2)\<rparr>, None)"
    using c(3) cl by (subst search_slot_loop.simps) (simp add: leaf_inv_def Let_def ex_bin_search)
  then show ?thesis using c(1) cl by (simp add: btrfs_search_slot_def on_item_def ex_leaf_inv)
qed

theorem find_item_correct_witness:
  "(\<exists>p'. btrfs_find_item True 0 ex_fs ex_rd ex_upper (Some ex_fresh) 256 256 12 True None = Some (0, Some p', Some (Key 256 12 256), None)) \<and>
   (\<exists>p'. btrfs_find_item True 0 ex_fs ex_rd ex_upper (Some ex_fresh) 257 0 1 True None = Some (1, Some p', Some (Key 300 1 0), None)) \<and>
   (\<exists>p'. btrfs_find_item True 0 ex_fs ex_rd2 ex_upper2 (Some ex_fresh) 256 299 12 True None = Some (0, Some p', Some (Key 256 12 300), None))"
proof (intro conjI)
  show "\<exists>p'. btrfs_find_item True 0 ex_fs ex_rd ex_upper (Some ex_fresh) 256 256 12 True None = Some (0, Some p', Some (Key 256 12 256), None)"
    using find_item_correct [OF ex_tree_ok ex_leaf_ok(1) ex_fresh_ok, of True 0 256 12 256 None]
    by (auto simp: ex_tree_items less_btrfs_key_def)
  show "\<exists>p'. btrfs_find_item True 0 ex_fs ex_rd ex_upper (Some ex_fresh) 257 0 1 True None = Some (1, Some p', Some (Key 300 1 0), None)"
    using find_item_correct [OF ex_tree_ok ex_leaf_ok(1) ex_fresh_ok, of True 0 257 1 0 None]
    by (auto simp: ex_tree_items less_btrfs_key_def)
  show "\<exists>p'. btrfs_find_item True 0 ex_fs ex_rd2 ex_upper2 (Some ex_fresh) 256 299 12 True None = Some (0, Some p', Some (Key 256 12 300), None)"
    using find_item_correct [OF ex_tree2_ok(1) ex_leaf_ok(1) ex_fresh_ok, of True 0 256 12 299 None] ex_search2
    by (auto simp: ex_tree2_ok less_btrfs_key_def)
qed

end
