(* ===== verification/TreeInsertProps.thy ===== *)
theory TreeInsertProps
  imports TreeInsert TreeFrozen TreeProps
begin

text \<open>
  The properties of the functions that change a tree: an insertion refines the insertion into the sorted sequence of all
  items, a tree is a map from keys to data for its clients, no block is lost, and no block of an earlier transaction is
  changed. The example is a tree of two leaves of transaction 7 that transaction 8 changes.
\<close>

lemma if_forward: "(if c then A else B) \<Longrightarrow> (A \<Longrightarrow> A') \<Longrightarrow> (B \<Longrightarrow> B') \<Longrightarrow> if c then A' else B'"
  by simp

section \<open>A tree as a map\<close>

lemma map_of_middle: "map_of A k = None \<Longrightarrow> map_of (A @ (k, v) # B) = (map_of (A @ B))(k \<mapsto> v)"
  by (auto simp: fun_eq_iff map_add_def split: option.splits)

lemma map_of_inserted: "k \<notin> fst ` set xs \<Longrightarrow> map_of (lower_items k xs @ (k, v) # upper_items k xs) = (map_of xs)(k \<mapsto> v)"
  using map_of_middle [of "lower_items k xs" k v "upper_items k xs"]
  by (auto simp: map_of_eq_None_iff dest: set_takeWhileD simp flip: map_of_append)

text \<open>
  What the code above the trees relies on: \<open>holds s xs\<close> says that the state stores the items \<open>xs\<close>, \<open>ready s\<close> that an
  insertion has the blocks it may need, and \<open>fits v\<close> that the data is not too big for an item.
\<close>

locale item_map =
  fixes holds :: "'s \<Rightarrow> items \<Rightarrow> bool" and ready :: "'s \<Rightarrow> bool" and fits :: "u8 list \<Rightarrow> bool"
    and ins :: "'s \<Rightarrow> btrfs_key \<Rightarrow> u8 list \<Rightarrow> (int \<times> 's) option" and find :: "'s \<Rightarrow> btrfs_key \<Rightarrow> u8 list option"
  assumes ins_new: "holds s xs \<Longrightarrow> ready s \<Longrightarrow> fits v \<Longrightarrow> k \<notin> fst ` set xs \<Longrightarrow>
      \<exists>s'. ins s k v = Some (0, s') \<and> holds s' (lower_items k xs @ (k, v) # upper_items k xs)"
    and ins_old: "holds s xs \<Longrightarrow> ready s \<Longrightarrow> fits v \<Longrightarrow> k \<in> fst ` set xs \<Longrightarrow> \<exists>e s'. ins s k v = Some (e, s') \<and> e < 0 \<and> holds s' xs"
    and find_law: "holds s xs \<Longrightarrow> find s k = map_of xs k"
begin

lemma ins_find:
  assumes "holds s xs" and "ready s" and "fits v" and "find s k = None"
  shows "\<exists>s'. ins s k v = Some (0, s') \<and> find s' = (find s)(k \<mapsto> v)"
proof -
  have k: "k \<notin> fst ` set xs" using assms(1,4) by (simp add: find_law map_of_eq_None_iff)
  from ins_new [OF assms(1-3) k] obtain s' where s': "ins s k v = Some (0, s')" "holds s' (lower_items k xs @ (k, v) # upper_items k xs)" by blast
  have "find s' = (find s)(k \<mapsto> v)" using find_law [OF s'(2)] find_law [OF assms(1)] map_of_inserted [OF k, of v] by (simp add: fun_eq_iff)
  with s'(1) show ?thesis by blast
qed

lemma ins_found:
  assumes "holds s xs" and "ready s" and "fits v" and "find s k = Some w"
  shows "\<exists>e s'. ins s k v = Some (e, s') \<and> e < 0 \<and> find s' = find s"
proof -
  have "k \<in> fst ` set xs" using assms(1,4) by (force simp: find_law dest: map_of_SomeD)
  from ins_old [OF assms(1-3) this] obtain e s' where s': "ins s k v = Some (e, s')" "e < 0" "holds s' xs" by blast
  then have "find s' = find s" using find_law [OF s'(3)] find_law [OF assms(1)] by (simp add: fun_eq_iff)
  with s' show ?thesis by blast
qed

end

text \<open>The map of a tree of a transaction.\<close>

definition tree_holds :: "btrfs_trans \<Rightarrow> ctree \<Rightarrow> items \<Rightarrow> bool" where
  "tree_holds tr st xs \<longleftrightarrow> trans_ok tr \<and> (\<exists>l t. root_tree tr st l t \<and> l < BTRFS_MAX_LEVEL \<and> t_items t = xs)"

definition tree_ready :: "ctree \<Rightarrow> bool" where
  "tree_ready st \<longleftrightarrow> (case ct_bufs st (ct_node st) of None \<Rightarrow> False | Some b \<Rightarrow> hdr_level b < 7 \<and> pool_ok st (hdr_level b))"

lemma root_tree_ready: "root_tree tr st l t \<Longrightarrow> tree_ready st \<longleftrightarrow> l < 7 \<and> pool_ok st l"
proof -
  assume "root_tree tr st l t"
  then have s: "stored (tr_fs tr) (ct_bufs st) l t" "ct_node st = t_addr t" by (simp_all add: root_tree_def tree_at_def)
  obtain b where "block_at (tr_fs tr) (ct_bufs st) l (t_addr t) b" using stored_block [OF s(1)] .
  then show ?thesis using s(2) by (simp add: tree_ready_def block_at_def)
qed

interpretation tree_map: item_map "tree_holds tr" tree_ready "\<lambda>v. length v + sizeof_item \<le> BTRFS_LEAF_DATA_SIZE (tr_fs tr)"
  "btrfs_insert_item tr True" "lookup_item tr" for tr
proof (unfold_locales, goal_cases)
  case (1 s xs v k)
  then obtain l t where t: "trans_ok tr" "root_tree tr s l t" "t_items t = xs" by (auto simp: tree_holds_def)
  have "l < 7" "pool_ok s l" using root_tree_ready [OF t(2)] 1(2) by simp_all
  from insert_item_tree [OF t(1,2) this 1(3), of k] show ?case using 1(4) t by (fastforce simp: tree_holds_def)
next
  case (2 s xs v k)
  then obtain l t where t: "trans_ok tr" "root_tree tr s l t" "t_items t = xs" by (auto simp: tree_holds_def)
  have "l < 7" "pool_ok s l" using root_tree_ready [OF t(2)] 2(2) by simp_all
  from insert_item_tree [OF t(1,2) this 2(3), of k] obtain ret st1 l1 t1 where
    "btrfs_insert_item tr True s k v = Some (ret, st1)" "root_tree tr st1 l1 t1" "l1 < BTRFS_MAX_LEVEL" "exists_error tr k (length v + sizeof_item) (t_items t) ret"
    "t_items t1 = t_items t" using 2(4) t(3) by auto
  then show ?case using t by (auto simp: tree_holds_def exists_error_def)
next
  case (3 s xs k)
  then show ?case using root_tree_lookup [of tr s] by (auto simp: tree_holds_def)
qed

section \<open>An example\<close>

definition ex_trans :: btrfs_trans where
  "ex_trans = \<lparr>tr_fs = ex_fs, transid = 8, root_objectid = 5, ref_cows = True, last_snapshot = 0, commit_root = None,
     raw_block = \<lambda>_. ex_leaf, extent_info = \<lambda>_ _. (0, 1, 0), ext_ret = \<lambda>_ _. 0, tr_mem = True, tr_garbage = 0\<rparr>"

definition ex_root :: extent_buffer where
  "ex_root = ex_leaf\<lparr>eb_start := 16384, hdr_level := 1,
     eb_ptrs := (\<lambda>i. \<lparr>kp_key = if i = 0 then Key 256 1 0 else Key 300 1 0, kp_blockptr = if i = 0 then 8192 else 12288, kp_generation = 7\<rparr>)\<rparr>"

definition ex_store :: ctree where
  "ex_store = \<lparr>ct_bufs = [8192 \<mapsto> ex_leaf, 12288 \<mapsto> ex_right\<lparr>eb_start := 12288\<rparr>, 16384 \<mapsto> ex_root], ct_node = 16384,
     ct_pool = [20480, 24576, 28672, 32768, 36864, 40960, 45056, 49152, 53248, 57344], ct_calls = [], ct_info = None\<rparr>"

definition ex_atree :: atree where
  "ex_atree = ANode 16384 [(Key 256 1 0, ALeaf 8192 (leaf_items ex_leaf)), (Key 300 1 0, ALeaf 12288 (leaf_items ex_right))]"

lemma ex_atree_items: "t_items ex_atree = [(Key 256 1 0, [153, 154]), (Key 256 12 256, [150, 151, 152]), (Key 300 1 0, [154])]"
  by (simp add: ex_atree_def ex_leaf_ok ex_right_ok)

lemma ex_trans_ok: "trans_ok ex_trans" "tr_fs ex_trans = ex_fs"
  by (simp_all add: trans_ok_def ex_trans_def ex_leaf_ok) (simp add: ex_fs_def)

lemma ex_buffers: "ct_bufs ex_store 8192 = Some ex_leaf" "ct_bufs ex_store 12288 = Some (ex_right\<lparr>eb_start := 12288\<rparr>)" "ct_bufs ex_store 16384 = Some ex_root"
  by (simp_all add: ex_store_def)

lemma ex_leaf_at: "leaf_at ex_fs (ct_bufs ex_store) 8192 (leaf_items ex_leaf)" "leaf_at ex_fs (ct_bufs ex_store) 12288 (leaf_items ex_right)"
proof -
  have "leaf_ctx ex_fs (ex_right\<lparr>eb_start := 12288\<rparr>) (leaf_items ex_right)"
    using leaf_ctxI [OF ex_leaf_ok(1) ex_right_ok(1)] by (simp add: leaf_ctx_def leaf_repr_def)
  then show "leaf_at ex_fs (ct_bufs ex_store) 12288 (leaf_items ex_right)"
    by (simp add: leaf_at_def block_at_def ex_buffers) (simp add: ex_right_def ex_leaf_def ex_fs_def)
  show "leaf_at ex_fs (ct_bufs ex_store) 8192 (leaf_items ex_leaf)"
    using leaf_ctxI [OF ex_leaf_ok(1,2)] by (simp add: leaf_at_def block_at_def ex_buffers) (simp add: ex_leaf_def ex_fs_def)
qed

lemma ex_stored: "stored ex_fs (ct_bufs ex_store) 1 ex_atree"
proof -
  have g: "gen (ct_bufs ex_store) 8192 = 7" "gen (ct_bufs ex_store) 12288 = 7" by (simp_all add: gen_def ex_buffers ex_right_def ex_leaf_def)
  have "node_ptrs ex_root = map (ptr_to (ct_bufs ex_store)) [(Key 256 1 0, ALeaf 8192 (leaf_items ex_leaf)), (Key 300 1 0, ALeaf 12288 (leaf_items ex_right))]"
    by (simp add: ptr_to_def g node_ptrs_def) (simp add: ex_root_def ex_leaf_def upt_rec)
  then have "node_at ex_fs (ct_bufs ex_store) (Suc 0) 16384 [(Key 256 1 0, ALeaf 8192 (leaf_items ex_leaf)), (Key 300 1 0, ALeaf 12288 (leaf_items ex_right))]"
    by (simp add: node_at_def block_at_def ex_buffers ex_node_ok) (simp add: ex_root_def ex_leaf_def ex_fs_def)
  then show ?thesis using ex_leaf_at by (simp add: ex_atree_def)
qed

lemma ex_root_tree: "root_tree ex_trans ex_store 1 ex_atree" "buffers_ok ex_store" "pool_ok ex_store 1"
proof -
  have "keyed ex_atree" by (simp add: ex_atree_def keyed_node child_ok_def ex_leaf_ok ex_right_ok)
  moreover have "sorted_wrt (<) (map fst (t_items ex_atree))" by (simp add: ex_atree_items less_btrfs_key_def)
  moreover have "ct_node ex_store = t_addr ex_atree" "distinct (t_addrs ex_atree @ ct_pool ex_store @ freed (ct_calls ex_store))"
    by (simp_all add: ex_store_def ex_atree_def)
  ultimately show "root_tree ex_trans ex_store 1 ex_atree" using ex_stored by (simp add: root_tree_def tree_at_def ex_trans_ok)
  show "buffers_ok ex_store" by (simp add: buffers_ok_def ex_store_def) (simp add: ex_leaf_def ex_root_def)
  show "pool_ok ex_store 1" by (simp add: pool_ok_def ex_store_def)
qed

lemma ex_lookup: "lookup_item ex_trans ex_store = [Key 256 1 0 \<mapsto> [153, 154], Key 256 12 256 \<mapsto> [150, 151, 152], Key 300 1 0 \<mapsto> [154]]"
  using root_tree_lookup [OF ex_root_tree(1) ex_trans_ok(1)] by (auto simp: ex_atree_items fun_eq_iff)

text \<open>The blocks of a tree that belong to earlier transactions and are not free.\<close>

definition settled :: "btrfs_trans \<Rightarrow> ctree \<Rightarrow> atree \<Rightarrow> bool" where
  "settled tr st t \<longleftrightarrow> (\<forall>a\<in>set (t_addrs t). a \<notin> set (ct_pool st) \<and> (\<exists>b. ct_bufs st a = Some b \<and> should_cow_block tr b))"

lemma ex_settled: "settled ex_trans ex_store ex_atree"
  by (simp add: settled_def ex_atree_def ex_buffers should_cow_block_def)
    (simp add: ex_store_def ex_trans_def ex_leaf_def ex_right_def ex_root_def)

section \<open>Properties\<close>

text \<open>
  C2. Inserting an item with a new key into a tree of less than seven levels above the leaves, with enough free blocks,
  returns 0. The items of the new tree are those of the old one with the new item at its place in the order of the keys:
  the copies, the balancing with the neighbours and the splits lose, change and reorder nothing.
\<close>
theorem tree_insert_refines:
  assumes "trans_ok tr" and "root_tree tr st l t" and "l < 7" and "pool_ok st l"
    and "length bytes + sizeof_item \<le> BTRFS_LEAF_DATA_SIZE (tr_fs tr)" and "key \<notin> fst ` set (t_items t)"
  shows "\<exists>st1 l1 t1. btrfs_insert_item tr True st key bytes = Some (0, st1) \<and> root_tree tr st1 l1 t1 \<and> l1 < BTRFS_MAX_LEVEL \<and>
    t_items t1 = takeWhile (\<lambda>x. fst x < key) (t_items t) @ (key, bytes) # dropWhile (\<lambda>x. fst x < key) (t_items t)"
  using insert_item_tree [OF assms(1-5), of key] assms(6) by auto

theorem tree_insert_refines_witness:
  "\<exists>st1 l1 t1. btrfs_insert_item ex_trans True ex_store (Key 256 2 0) [1, 2, 3] = Some (0, st1) \<and> root_tree ex_trans st1 l1 t1 \<and>
    t_items t1 = [(Key 256 1 0, [153, 154]), (Key 256 2 0, [1, 2, 3]), (Key 256 12 256, [150, 151, 152]), (Key 300 1 0, [154])]"
  using tree_insert_refines [OF ex_trans_ok(1) ex_root_tree(1) _ ex_root_tree(3), of "[1, 2, 3]" "Key 256 2 0"]
  by (auto simp: ex_trans_ok ex_leaf_ok ex_atree_items less_btrfs_key_def)

text \<open>
  C6. Inserting an item whose key is in the tree fails with \<open>-EEXIST\<close>, or with \<open>-EOVERFLOW\<close>, which is possible only if a leaf
  cannot hold the item of the tree grown by the new one. The items stay as they were, though blocks may have been copied and split.
\<close>
theorem tree_insert_exists:
  assumes "trans_ok tr" and "root_tree tr st l t" and "l < 7" and "pool_ok st l"
    and "length bytes + sizeof_item \<le> BTRFS_LEAF_DATA_SIZE (tr_fs tr)" and "(key, old) \<in> set (t_items t)"
  shows "\<exists>ret st1 l1 t1. btrfs_insert_item tr True st key bytes = Some (ret, st1) \<and> root_tree tr st1 l1 t1 \<and> t_items t1 = t_items t \<and>
    (ret = - EEXIST \<or> ret = - EOVERFLOW \<and> BTRFS_LEAF_DATA_SIZE (tr_fs tr) < length bytes + length old + 2 * sizeof_item)"
proof -
  have key: "key \<in> fst ` set (t_items t)" using assms(6) by force
  with insert_item_tree [OF assms(1-5), of key] obtain ret st1 l1 t1 where r: "btrfs_insert_item tr True st key bytes = Some (ret, st1)"
    "root_tree tr st1 l1 t1" "exists_error tr key (length bytes + sizeof_item) (t_items t) ret" "t_items t1 = t_items t" by auto
  have "inj_on fst (set (t_items t))" using assms(2) by (simp add: root_tree_def strict_sorted_iff distinct_map)
  then have "x = (key, old)" if "x \<in> set (t_items t)" "fst x = key" for x
    using that assms(6) inj_onD [of fst "set (t_items t)" x "(key, old)"] by auto
  then have "ret = - EEXIST \<or> ret = - EOVERFLOW \<and> BTRFS_LEAF_DATA_SIZE (tr_fs tr) < length bytes + length old + 2 * sizeof_item"
    using r(3) by (auto simp: exists_error_def)
  with r show ?thesis by blast
qed

theorem tree_insert_exists_witness:
  "\<exists>st1. btrfs_insert_item ex_trans True ex_store (Key 300 1 0) [7] = Some (- EEXIST, st1)"
  using tree_insert_exists [OF ex_trans_ok(1) ex_root_tree(1) _ ex_root_tree(3), of "[7]" "Key 300 1 0" "[154]"]
  by (auto simp: ex_trans_ok ex_leaf_ok ex_atree_items)

text \<open>
  C4. For the searches that follow, an insertion is the update of a map: the data of a new key is found under it by
  \<open>btrfs_search_slot\<close>, and what is found under every other key does not change.
\<close>
theorem tree_insert_lookup:
  assumes "trans_ok tr" and "root_tree tr st l t" and "l < 7" and "pool_ok st l"
    and "length bytes + sizeof_item \<le> BTRFS_LEAF_DATA_SIZE (tr_fs tr)" and "lookup_item tr st key = None"
  shows "\<exists>st1. btrfs_insert_item tr True st key bytes = Some (0, st1) \<and> lookup_item tr st1 = (lookup_item tr st)(key \<mapsto> bytes)"
proof (rule tree_map.ins_find)
  have "l < BTRFS_MAX_LEVEL" using assms(3) by simp
  with assms(1,2) show "tree_holds tr st (t_items t)" unfolding tree_holds_def by blast
  show "tree_ready st" using root_tree_ready [OF assms(2)] assms(3,4) by simp
qed (use assms(5,6) in simp_all)

theorem tree_insert_lookup_witness:
  "\<exists>st1. btrfs_insert_item ex_trans True ex_store (Key 280 1 0) [5] = Some (0, st1) \<and>
    lookup_item ex_trans st1 (Key 280 1 0) = Some [5] \<and> lookup_item ex_trans st1 (Key 300 1 0) = Some [154]"
  using tree_insert_lookup [OF ex_trans_ok(1) ex_root_tree(1) _ ex_root_tree(3), of "[5]" "Key 280 1 0"]
  by (auto simp: ex_trans_ok ex_leaf_ok ex_lookup)

text \<open>
  C3. Copy on write: whatever the state of the tree, the answers of the allocator and the result of the insertion, a tree
  all of whose blocks were written by earlier transactions, say a snapshot or the tree on the disk, is there unchanged
  afterwards, provided that the allocator hands out none of its blocks.
\<close>
theorem tree_insert_keeps_snapshots:
  assumes "buffers_ok st" and "btrfs_insert_item tr mem st key bytes = Some (ret, st1)"
    and "settled tr st t" and "stored fs (ct_bufs st) l t"
  shows "stored fs (ct_bufs st1) l t"
proof (rule stored_frame [OF assms(4)])
  fix a assume "a \<in> set (t_addrs t)"
  then obtain b where "a \<notin> set (ct_pool st)" "ct_bufs st a = Some b" "should_cow_block tr b" using assms(3) by (auto simp: settled_def)
  then show "ct_bufs st1 a = ct_bufs st a" using insert_item_frozen [OF assms(1,2)] by (simp add: frozen_def)
qed

theorem tree_insert_keeps_snapshots_witness:
  "\<exists>st1. btrfs_insert_item ex_trans True ex_store (Key 256 2 0) [1, 2, 3] = Some (0, st1) \<and> stored ex_fs (ct_bufs st1) 1 ex_atree"
proof -
  from insert_item_tree [OF ex_trans_ok(1) ex_root_tree(1) _ ex_root_tree(3), of "[1, 2, 3]" "Key 256 2 0"]
  obtain st1 where st1: "btrfs_insert_item ex_trans True ex_store (Key 256 2 0) [1, 2, 3] = Some (0, st1)"
    by (auto simp: ex_trans_ok ex_leaf_ok ex_atree_items)
  from tree_insert_keeps_snapshots [OF ex_root_tree(2) st1 ex_settled ex_stored] st1 show ?thesis by blast
qed

text \<open>
  C5. No block is lost and none is used twice: the blocks of the tree, the blocks the allocator has left and the blocks given
  back to it are together always the same, each of them once, whether the insertion succeeds or not.
\<close>
theorem tree_insert_no_leak:
  assumes "trans_ok tr" and "root_tree tr st l t" and "l < 7" and "pool_ok st l"
    and "length bytes + sizeof_item \<le> BTRFS_LEAF_DATA_SIZE (tr_fs tr)"
  shows "\<exists>ret st1 l1 t1. btrfs_insert_item tr True st key bytes = Some (ret, st1) \<and> stored (tr_fs tr) (ct_bufs st1) l1 t1 \<and> ct_node st1 = t_addr t1 \<and>
    distinct (t_addrs t1 @ ct_pool st1 @ freed (ct_calls st1)) \<and>
    mset (t_addrs t1 @ ct_pool st1 @ freed (ct_calls st1)) = mset (t_addrs t @ ct_pool st @ freed (ct_calls st))"
proof -
  from insert_item_tree [OF assms, of key] obtain ret st1 l1 t1 where r: "btrfs_insert_item tr True st key bytes = Some (ret, st1)"
    "root_tree tr st1 l1 t1" "uses st1 t1 = uses st t" by blast
  then have "tree_at tr st1 l1 [] t1" by (simp add: root_tree_def)
  with r show ?thesis
    by (intro exI [of _ ret] exI [of _ st1] exI [of _ l1] exI [of _ t1]) (simp add: tree_at_def uses_def ac_simps)
qed

theorem tree_insert_no_leak_witness:
  "\<exists>ret st1 t1. btrfs_insert_item ex_trans True ex_store (Key 256 2 0) [1, 2, 3] = Some (ret, st1) \<and>
    distinct (t_addrs t1 @ ct_pool st1 @ freed (ct_calls st1)) \<and>
    mset (t_addrs t1 @ ct_pool st1 @ freed (ct_calls st1)) = mset (t_addrs ex_atree @ ct_pool ex_store @ freed (ct_calls ex_store))"
  using tree_insert_no_leak [OF ex_trans_ok(1) ex_root_tree(1) _ ex_root_tree(3), of "[1, 2, 3]" "Key 256 2 0"]
  by (simp add: ex_trans_ok ex_leaf_ok) blast

text \<open>
  C7. \<open>btrfs_search_slot\<close> in a transaction, before an insertion of \<open>ins_len\<close> bytes: the path ends at the place of the key
  among all items, every block of the path belongs to the transaction, and if the key is new the return value is 1
  and the leaf has room for the bytes.
\<close>
theorem search_slot_cow_correct:
  assumes "trans_ok tr" and "root_tree tr st l t" and "l < 7" and "pool_ok st l" and "buffers_ok st"
    and "ins_len \<le> BTRFS_LEAF_DATA_SIZE (tr_fs tr)"
  shows "\<exists>ret st1 p1 z a xs. search_slot_cow tr key ins_len st btrfs_init_path = Some (ret, st1, p1) \<and> leaf_focus tr st1 p1 z a xs \<and>
    path_own tr st1 p1 \<and>
    zip_before z @ take (w_slots p1 0) xs = takeWhile (\<lambda>x. fst x < key) (t_items t) \<and>
    drop (w_slots p1 0) xs @ zip_after z = dropWhile (\<lambda>x. fst x < key) (t_items t) \<and>
    (if key \<in> fst ` set (t_items t)
     then w_slots p1 0 < length xs \<and> fst (xs ! w_slots p1 0) = key \<and>
       (ret = 0 \<or> ret = - EOVERFLOW \<and> BTRFS_LEAF_DATA_SIZE (tr_fs tr) < ins_len + entry_size (xs ! w_slots p1 0))
     else ret = 1 \<and> entries_size xs + ins_len \<le> BTRFS_LEAF_DATA_SIZE (tr_fs tr))"
proof -
  have p: "init_path btrfs_init_path" "path_own tr st btrfs_init_path" by (simp_all add: init_path_def path_own_def btrfs_init_path_def)
  obtain ret st1 p1 z a xs where s: "search_slot_cow tr key ins_len st btrfs_init_path = Some (ret, st1, p1)" "leaf_focus tr st1 p1 z a xs"
    "case leaf_place z xs (w_slots p1 0) of (bef, aft) \<Rightarrow> bef @ aft = t_items t \<and> (\<forall>x\<in>set bef. fst x < key) \<and> (\<forall>x\<in>set aft. key \<le> fst x)"
    "if key \<in> fst ` set (t_items t)
     then w_slots p1 0 < length xs \<and> fst (xs ! w_slots p1 0) = key \<and>
       (ret = 0 \<or> ret = - EOVERFLOW \<and> BTRFS_LEAF_DATA_SIZE (tr_fs tr) < ins_len + entry_size (xs ! w_slots p1 0))
     else ret = 1 \<and> entries_size xs + ins_len \<le> BTRFS_LEAF_DATA_SIZE (tr_fs tr)"
    by (rule search_endE [OF search_slot_cow_ok [OF assms(1-4) p(1) assms(6), of key]])
  have "path_own tr st1 p1" using search_slot_cow_loop_frozen [OF s(1) [unfolded search_slot_cow_def] assms(5) p(2)] by (simp add: keeps_def)
  moreover have pl: "(zip_before z @ take (w_slots p1 0) xs) @ (drop (w_slots p1 0) xs @ zip_after z) = t_items t"
    "\<forall>x\<in>set (zip_before z @ take (w_slots p1 0) xs). fst x < key" "\<forall>x\<in>set (drop (w_slots p1 0) xs @ zip_after z). key \<le> fst x"
    using s(3) by (simp_all add: leaf_place_def)
  moreover note split_at_key [OF pl]
  ultimately show ?thesis using s(1,2,4) by blast
qed

theorem search_slot_cow_correct_witness:
  "\<exists>st1 p1 z a xs. search_slot_cow ex_trans (Key 256 2 0) 100 ex_store btrfs_init_path = Some (1, st1, p1) \<and> leaf_focus ex_trans st1 p1 z a xs \<and>
    zip_before z @ take (w_slots p1 0) xs = [(Key 256 1 0, [153, 154])] \<and> path_own ex_trans st1 p1 \<and> entries_size xs + 100 \<le> 3995"
  using search_slot_cow_correct [OF ex_trans_ok(1) ex_root_tree(1) _ ex_root_tree(3,2), of 100 "Key 256 2 0"]
  by (simp add: ex_trans_ok ex_leaf_ok ex_atree_items less_btrfs_key_def) blast

text \<open>
  C8. \<open>btrfs_insert_empty_items\<close> puts all the new items, with their sizes, side by side at the place of the first key,
  and leaves the path at the first of them.
\<close>
theorem insert_empty_items_correct:
  fixes new :: "(btrfs_key \<times> nat) list"
  assumes "trans_ok tr" and "root_tree tr st l t" and "l < 7" and "pool_ok st l" and "new \<noteq> []"
    and "sum_list (map snd new) + sizeof_item * length new \<le> BTRFS_LEAF_DATA_SIZE (tr_fs tr)" and "fst (hd new) \<notin> fst ` set (t_items t)"
  shows "\<exists>st1 p1 z a A N B. btrfs_insert_empty_items tr st btrfs_init_path new = Some (0, st1, p1) \<and> leaf_focus tr st1 p1 z a (A @ N @ B) \<and>
    w_slots p1 0 = length A \<and> map fst N = map fst new \<and> map (length \<circ> snd) N = map snd new \<and>
    zip_before z @ A = takeWhile (\<lambda>x. fst x < fst (hd new)) (t_items t) \<and> B @ zip_after z = dropWhile (\<lambda>x. fst x < fst (hd new)) (t_items t)"
proof -
  have p: "init_path btrfs_init_path" by (simp add: init_path_def btrfs_init_path_def)
  from insert_empty_items_tree [OF assms(1-4) p assms(5,6), unfolded if_not_P [OF assms(7)]] obtain st1 p1 z a xs where
    s: "btrfs_insert_empty_items tr st btrfs_init_path new = Some (0, st1, p1)" "leaf_focus tr st1 p1 z a xs"
    "gained tr new (t_items t) (ct_bufs st1 a) (w_slots p1 0) z xs" by blast
  obtain N A B where "xs = A @ N @ B" "w_slots p1 0 = length A" "map fst N = map fst new" "map (length \<circ> snd) N = map snd new"
    "zip_before z @ A = lower_items (fst (hd new)) (t_items t)" "B @ zip_after z = upper_items (fst (hd new)) (t_items t)"
    using s(3) unfolding gained_def by blast
  with s(1,2) show ?thesis by blast
qed

theorem insert_empty_items_correct_witness:
  "\<exists>st1 p1 z a A N B. btrfs_insert_empty_items ex_trans ex_store btrfs_init_path [(Key 280 1 0, 10), (Key 281 1 0, 20)] = Some (0, st1, p1) \<and>
    leaf_focus ex_trans st1 p1 z a (A @ N @ B) \<and> map fst N = [Key 280 1 0, Key 281 1 0]"
  (is "\<exists>st1 p1 z a A N B. ?P st1 p1 z a A N B")
proof -
  let ?new = "[(Key 280 1 0, 10), (Key 281 1 0, 20)] :: (btrfs_key \<times> nat) list"
  have h: "?new \<noteq> []" "sum_list (map snd ?new) + sizeof_item * length ?new \<le> BTRFS_LEAF_DATA_SIZE (tr_fs ex_trans)"
    "fst (hd ?new) \<notin> fst ` set (t_items ex_atree)" by (simp_all add: ex_trans_ok ex_leaf_ok ex_atree_items)
  have "(1::nat) < 7" by simp
  from insert_empty_items_correct [OF ex_trans_ok(1) ex_root_tree(1) this ex_root_tree(3) h] obtain st1 p1 z a A N B where
    "btrfs_insert_empty_items ex_trans ex_store btrfs_init_path ?new = Some (0, st1, p1)" "leaf_focus ex_trans st1 p1 z a (A @ N @ B)"
    "map fst N = map fst ?new" by (elim exE conjE)
  then have "?P st1 p1 z a A N B" by simp
  then show ?thesis by (intro exI)
qed

text \<open>
  C9. \<open>btrfs_cow_block\<close> at any place of a tree whose parent block belongs to the transaction: the block stays where it is
  exactly if it belongs to the transaction already. Otherwise the tree is the same with the block at a new address, which belongs
  to the transaction and to which the parent points, the old block is given back, and no block of an earlier transaction is changed.
\<close>
theorem cow_block_correct:
  assumes "trans_ok tr" and "tree_at tr st l z t" and "zip_parent z parent i" and "ct_pool st \<noteq> []" and "buffers_ok st"
    and "\<forall>pa. parent = Some pa \<longrightarrow> own tr st pa"
  shows "\<exists>a st1. btrfs_cow_block tr st (t_addr t) parent i = Some (0, a, st1) \<and> (a = t_addr t \<longleftrightarrow> own tr st (t_addr t)) \<and>
    tree_at tr st1 l z (set_addr a t) \<and> own tr st1 a \<and> frozen tr st st1 \<and> uses st1 (zip_up z (set_addr a t)) = uses st (zip_up z t)"
proof -
  from cow_ok [OF assms(1-4)] obtain a st1 where r: "btrfs_cow_block tr st (t_addr t) parent i = Some (0, a, st1)"
    "tree_at tr st1 l z (set_addr a t)" "uses st1 (zip_up z (set_addr a t)) = uses st (zip_up z t)" by blast
  note f = cow_frozen [OF assms(5,6) r(1)]
  have o: "own tr st1 a" using f(2) by simp
  have "stored (tr_fs tr) (ct_bufs st) l t" "t_addr t \<notin> set (ct_pool st)"
    using tree_atD(1,4) [OF assms(2)] t_addr_in [of t] by (auto simp del: t_addr_in)
  then obtain b where b: "ct_bufs st (t_addr t) = Some b" using stored_block [of "tr_fs tr" "ct_bufs st" l t] by (auto simp: block_at_def)
  have "a = t_addr t" if "own tr st (t_addr t)" using that b r(1) by (simp add: own_def btrfs_cow_block_def)
  moreover have "own tr st (t_addr t)" if "a = t_addr t"
    using that o b f(1) \<open>t_addr t \<notin> set (ct_pool st)\<close> by (auto simp: own_def frozen_def)
  ultimately show ?thesis using r o f(1) by blast
qed

theorem cow_block_correct_witness:
  "\<exists>a st1. btrfs_cow_block ex_trans ex_store 16384 None 0 = Some (0, a, st1) \<and> tree_at ex_trans st1 1 [] (set_addr a ex_atree) \<and> own ex_trans st1 a \<and> a \<noteq> 16384"
proof -
  have "tree_at ex_trans ex_store 1 [] ex_atree" using ex_root_tree(1) by (simp add: root_tree_def)
  moreover have "ct_pool ex_store \<noteq> []" "t_addr ex_atree = 16384" by (simp_all add: ex_store_def ex_atree_def)
  moreover have "\<not> own ex_trans ex_store 16384" using ex_settled by (auto simp: settled_def own_def ex_atree_def)
  ultimately show ?thesis using cow_block_correct [OF ex_trans_ok(1) _ _ _ ex_root_tree(2), of 1 "[]" ex_atree None 0] by fastforce
qed

text \<open>
  C10. \<open>split_leaf\<close> on a leaf without room for \<open>ds\<close> bytes: with \<open>-EOVERFLOW\<close> it refuses to make room next to an item that with these
  bytes is too big for a leaf; otherwise, after pushing items to the neighbours or splitting the leaf once or twice, the path is at
  the same place of the sequence of all items, in a leaf with room for the bytes, and the tree keeps its items and its blocks.
\<close>
theorem split_leaf_correct:
  assumes "trans_ok tr" and "leaf_focus tr st p z a xs" and "5 \<le> length (ct_pool st)" and "Suc (width z) < BTRFS_NODEPTRS_PER_BLOCK (tr_fs tr)"
    and "length z < BTRFS_MAX_LEVEL" and "ds \<le> BTRFS_LEAF_DATA_SIZE (tr_fs tr)" and "BTRFS_LEAF_DATA_SIZE (tr_fs tr) < entries_size xs + ds"
    and "extending \<longrightarrow> w_slots p 0 < length xs"
  shows "if extending \<and> BTRFS_LEAF_DATA_SIZE (tr_fs tr) < ds + entry_size (xs ! w_slots p 0)
    then split_leaf tr key ds extending st p = Some (- EOVERFLOW, st, p)
    else \<exists>st1 p1 z1 a1 xs1. split_leaf tr key ds extending st p = Some (0, st1, p1) \<and> leaf_focus tr st1 p1 z1 a1 xs1 \<and>
      entries_size xs1 + ds \<le> BTRFS_LEAF_DATA_SIZE (tr_fs tr) \<and>
      zip_before z1 @ take (w_slots p1 0) xs1 = zip_before z @ take (w_slots p 0) xs \<and>
      drop (w_slots p1 0) xs1 @ zip_after z1 = drop (w_slots p 0) xs @ zip_after z \<and>
      uses st1 (zip_up z1 (ALeaf a1 xs1)) = uses st (zip_up z (ALeaf a xs)) \<and> length (ct_pool st) \<le> 5 + length (ct_pool st1)"
proof -
  have "if extending \<and> BTRFS_LEAF_DATA_SIZE (tr_fs tr) < ds + entry_size (xs ! w_slots p 0)
    then split_leaf tr key ds extending st p = Some (- EOVERFLOW, st, p)
    else leaf_split tr 5 ds extending st p z a xs (split_leaf tr key ds extending st p)"
    by (rule split_leaf_ok [OF assms(1-7)]) (use assms(8) in simp)
  then show ?thesis unfolding leaf_split_def leaf_moved_def leaf_place_def prod.inject by (rule if_forward) blast+
qed

definition ex_wpath :: wpath where
  "ex_wpath = set_slot (set_node btrfs_init_path 0 8192) 0 1"

lemma ex_leaf_focus: "leaf_focus ex_trans (ex_store\<lparr>ct_node := 8192\<rparr>) ex_wpath [] 8192 (leaf_items ex_leaf)"
proof -
  have "tree_at ex_trans (ex_store\<lparr>ct_node := 8192\<rparr>) 0 [] (ALeaf 8192 (leaf_items ex_leaf))"
    using ex_leaf_at(1) by (simp add: tree_at_def ex_trans_ok) (simp add: ex_store_def)
  then show ?thesis by (simp add: leaf_focus_def ex_wpath_def btrfs_init_path_def set_slot_def set_node_def ex_leaf_ok)
qed

theorem split_leaf_correct_witness:
  "\<exists>st1 p1 z1 a1 xs1. split_leaf ex_trans (Key 256 2 0) 3960 False (ex_store\<lparr>ct_node := 8192\<rparr>) ex_wpath = Some (0, st1, p1) \<and>
    leaf_focus ex_trans st1 p1 z1 a1 xs1 \<and> entries_size xs1 + 3960 \<le> 3995 \<and> zip_before z1 @ take (w_slots p1 0) xs1 = [(Key 256 1 0, [153, 154])]"
proof -
  have "5 \<le> length (ct_pool (ex_store\<lparr>ct_node := 8192\<rparr>))" "w_slots ex_wpath 0 = 1" by (simp_all add: ex_store_def ex_wpath_def set_slot_def)
  then show ?thesis
    using split_leaf_correct [OF ex_trans_ok(1) ex_leaf_focus, of 3960 False "Key 256 2 0"]
    by (simp add: ex_trans_ok ex_leaf_ok ex_node_ok width_def entries_size_def) blast
qed

end
