(* ===== verification/Crc32c.thy ===== *)
theory Crc32c
  imports Prelude
begin

unbundle bit_operations_syntax

text \<open>
  The CRC-32C checksum (\<open>kernel-lib/crc32c.c\<close>): the table and the byte-wise loop, which is
  what \<open>crc_function\<close> points to unless the processor has an instruction for it. The checksum is
  shown to be the remainder that the polynomial defines bit by bit.
\<close>

definition crc32c_table :: "u32 list" where
  "crc32c_table = [
    0x00000000, 0xF26B8303, 0xE13B70F7, 0x1350F3F4, 0xC79A971F, 0x35F1141C, 0x26A1E7E8, 0xD4CA64EB,
    0x8AD958CF, 0x78B2DBCC, 0x6BE22838, 0x9989AB3B, 0x4D43CFD0, 0xBF284CD3, 0xAC78BF27, 0x5E133C24,
    0x105EC76F, 0xE235446C, 0xF165B798, 0x030E349B, 0xD7C45070, 0x25AFD373, 0x36FF2087, 0xC494A384,
    0x9A879FA0, 0x68EC1CA3, 0x7BBCEF57, 0x89D76C54, 0x5D1D08BF, 0xAF768BBC, 0xBC267848, 0x4E4DFB4B,
    0x20BD8EDE, 0xD2D60DDD, 0xC186FE29, 0x33ED7D2A, 0xE72719C1, 0x154C9AC2, 0x061C6936, 0xF477EA35,
    0xAA64D611, 0x580F5512, 0x4B5FA6E6, 0xB93425E5, 0x6DFE410E, 0x9F95C20D, 0x8CC531F9, 0x7EAEB2FA,
    0x30E349B1, 0xC288CAB2, 0xD1D83946, 0x23B3BA45, 0xF779DEAE, 0x05125DAD, 0x1642AE59, 0xE4292D5A,
    0xBA3A117E, 0x4851927D, 0x5B016189, 0xA96AE28A, 0x7DA08661, 0x8FCB0562, 0x9C9BF696, 0x6EF07595,
    0x417B1DBC, 0xB3109EBF, 0xA0406D4B, 0x522BEE48, 0x86E18AA3, 0x748A09A0, 0x67DAFA54, 0x95B17957,
    0xCBA24573, 0x39C9C670, 0x2A993584, 0xD8F2B687, 0x0C38D26C, 0xFE53516F, 0xED03A29B, 0x1F682198,
    0x5125DAD3, 0xA34E59D0, 0xB01EAA24, 0x42752927, 0x96BF4DCC, 0x64D4CECF, 0x77843D3B, 0x85EFBE38,
    0xDBFC821C, 0x2997011F, 0x3AC7F2EB, 0xC8AC71E8, 0x1C661503, 0xEE0D9600, 0xFD5D65F4, 0x0F36E6F7,
    0x61C69362, 0x93AD1061, 0x80FDE395, 0x72966096, 0xA65C047D, 0x5437877E, 0x4767748A, 0xB50CF789,
    0xEB1FCBAD, 0x197448AE, 0x0A24BB5A, 0xF84F3859, 0x2C855CB2, 0xDEEEDFB1, 0xCDBE2C45, 0x3FD5AF46,
    0x7198540D, 0x83F3D70E, 0x90A324FA, 0x62C8A7F9, 0xB602C312, 0x44694011, 0x5739B3E5, 0xA55230E6,
    0xFB410CC2, 0x092A8FC1, 0x1A7A7C35, 0xE811FF36, 0x3CDB9BDD, 0xCEB018DE, 0xDDE0EB2A, 0x2F8B6829,
    0x82F63B78, 0x709DB87B, 0x63CD4B8F, 0x91A6C88C, 0x456CAC67, 0xB7072F64, 0xA457DC90, 0x563C5F93,
    0x082F63B7, 0xFA44E0B4, 0xE9141340, 0x1B7F9043, 0xCFB5F4A8, 0x3DDE77AB, 0x2E8E845F, 0xDCE5075C,
    0x92A8FC17, 0x60C37F14, 0x73938CE0, 0x81F80FE3, 0x55326B08, 0xA759E80B, 0xB4091BFF, 0x466298FC,
    0x1871A4D8, 0xEA1A27DB, 0xF94AD42F, 0x0B21572C, 0xDFEB33C7, 0x2D80B0C4, 0x3ED04330, 0xCCBBC033,
    0xA24BB5A6, 0x502036A5, 0x4370C551, 0xB11B4652, 0x65D122B9, 0x97BAA1BA, 0x84EA524E, 0x7681D14D,
    0x2892ED69, 0xDAF96E6A, 0xC9A99D9E, 0x3BC21E9D, 0xEF087A76, 0x1D63F975, 0x0E330A81, 0xFC588982,
    0xB21572C9, 0x407EF1CA, 0x532E023E, 0xA145813D, 0x758FE5D6, 0x87E466D5, 0x94B49521, 0x66DF1622,
    0x38CC2A06, 0xCAA7A905, 0xD9F75AF1, 0x2B9CD9F2, 0xFF56BD19, 0x0D3D3E1A, 0x1E6DCDEE, 0xEC064EED,
    0xC38D26C4, 0x31E6A5C7, 0x22B65633, 0xD0DDD530, 0x0417B1DB, 0xF67C32D8, 0xE52CC12C, 0x1747422F,
    0x49547E0B, 0xBB3FFD08, 0xA86F0EFC, 0x5A048DFF, 0x8ECEE914, 0x7CA56A17, 0x6FF599E3, 0x9D9E1AE0,
    0xD3D3E1AB, 0x21B862A8, 0x32E8915C, 0xC083125F, 0x144976B4, 0xE622F5B7, 0xF5720643, 0x07198540,
    0x590AB964, 0xAB613A67, 0xB831C993, 0x4A5A4A90, 0x9E902E7B, 0x6CFBAD78, 0x7FAB5E8C, 0x8DC0DD8F,
    0xE330A81A, 0x115B2B19, 0x020BD8ED, 0xF0605BEE, 0x24AA3F05, 0xD6C1BC06, 0xC5914FF2, 0x37FACCF1,
    0x69E9F0D5, 0x9B8273D6, 0x88D28022, 0x7AB90321, 0xAE7367CA, 0x5C18E4C9, 0x4F48173D, 0xBD23943E,
    0xF36E6F75, 0x0105EC76, 0x12551F82, 0xE03E9C81, 0x34F4F86A, 0xC69F7B69, 0xD5CF889D, 0x27A40B9E,
    0x79B737BA, 0x8BDCB4B9, 0x988C474D, 0x6AE7C44E, 0xBE2DA0A5, 0x4C4623A6, 0x5F16D052, 0xAD7D5351]"

fun crc32c_le :: "u32 \<Rightarrow> u8 list \<Rightarrow> u32" where
  "crc32c_le crc [] = crc"
| "crc32c_le crc (b # data) =
     crc32c_le (crc32c_table ! unat ((crc XOR ucast b) AND 0xFF) XOR drop_bit 8 crc) data"

section \<open>The bit-wise definition\<close>

definition crc_bit :: "u32 \<Rightarrow> u32" where
  "crc_bit c = drop_bit 1 c XOR (if bit c 0 then 0x82F63B78 else 0)"

fun crc_bits :: "nat \<Rightarrow> u32 \<Rightarrow> u32" where
  "crc_bits 0 c = c"
| "crc_bits (Suc n) c = crc_bits n (crc_bit c)"

fun crc32c_ref :: "u32 \<Rightarrow> u8 list \<Rightarrow> u32" where
  "crc32c_ref crc [] = crc"
| "crc32c_ref crc (b # data) = crc32c_ref (crc_bits 8 (crc XOR ucast b)) data"

lemma crc_bit_xor: "crc_bit (a XOR b) = crc_bit a XOR crc_bit b"
  by (auto simp: crc_bit_def bit_xor_iff ac_simps xor.assoc)

lemma crc_bits_xor: "crc_bits n (a XOR b) = crc_bits n a XOR crc_bits n b"
  by (induction n arbitrary: a b) (simp_all add: crc_bit_xor)

lemma crc_bits_high: "(\<And>i. i < n \<Longrightarrow> \<not> bit c i) \<Longrightarrow> crc_bits n c = drop_bit n c"
proof (induction n arbitrary: c)
  case (Suc n)
  have "crc_bit c = drop_bit 1 c" using Suc.prems [of 0] by (simp add: crc_bit_def)
  moreover have "\<not> bit (drop_bit 1 c) i" if "i < n" for i
    using Suc.prems [of "Suc i"] that by (simp add: bit_drop_bit_eq)
  ultimately show ?case using Suc.IH [of "drop_bit 1 c"] by simp
qed simp

text \<open>The table is checked by a computation on integers.\<close>

definition int_crc_bit :: "int \<Rightarrow> int" where
  "int_crc_bit c = c div 2 XOR (if odd c then 0x82F63B78 else 0)"

definition int_crc_byte :: "int \<Rightarrow> int" where
  "int_crc_byte c = int_crc_bit (int_crc_bit (int_crc_bit (int_crc_bit
     (int_crc_bit (int_crc_bit (int_crc_bit (int_crc_bit c)))))))"

lemma int_crc_bit_simps:
  "int_crc_bit 0 = 0" "int_crc_bit 1 = 0x82F63B78"
  "int_crc_bit (numeral (Num.Bit0 n)) = numeral n"
  "int_crc_bit (numeral (Num.Bit1 n)) = numeral n XOR 0x82F63B78"
  by (simp_all add: int_crc_bit_def)

lemma int_crc_table:
  "map int_crc_byte (map int [0..<256]) = map uint crc32c_table"
  by (simp add: crc32c_table_def int_crc_byte_def int_crc_bit_simps upt_conv_Cons)

lemma uint_crc_bit: "uint (crc_bit c) = int_crc_bit (uint c)"
proof -
  have "uint (drop_bit 1 c) = uint c div 2"
    by (simp add: drop_bit_Suc uint_div)
  moreover have "bit c 0 \<longleftrightarrow> odd (uint c)"
    using bit_uint_iff [of c 0] by (simp add: bit_0)
  ultimately show ?thesis
    by (simp add: crc_bit_def int_crc_bit_def unsigned_xor_eq)
qed

lemma crc32c_table_bits: "crc32c_table = map (\<lambda>i. crc_bits 8 (of_nat i)) [0..<256]"
proof (rule map_injective [of uint])
  have "crc_bits 8 c = crc_bit (crc_bit (crc_bit (crc_bit (crc_bit (crc_bit (crc_bit (crc_bit c)))))))" for c
    by (simp add: eval_nat_numeral)
  then have "int_crc_byte (uint c) = uint (crc_bits 8 c)" for c
    by (simp add: int_crc_byte_def uint_crc_bit)
  moreover have "uint (of_nat i :: u32) = int i" if "i < 256" for i
    using that by (simp add: unsigned_of_nat take_bit_nat_eq_self)
  ultimately have "int_crc_byte (int i) = uint (crc_bits 8 (of_nat i))" if "i < 256" for i
    using that by metis
  then show "map uint crc32c_table = map uint (map (\<lambda>i. crc_bits 8 (of_nat i)) [0..<256])"
    using int_crc_table by (auto simp flip: int_crc_table)
qed (rule inj_unsigned)

lemma crc32c_table_nth:
  fixes x :: u32
  shows "crc32c_table ! unat (x AND 0xFF) = crc_bits 8 (x AND 0xFF)"
proof -
  have "x AND 0xFF \<le> 0xFF" by (rule word_and_le1)
  then have "unat (x AND 0xFF) < 256" by (simp add: word_le_nat_alt)
  then show ?thesis by (simp add: crc32c_table_bits)
qed

lemma crc32c_step:
  fixes c :: u32 and b :: u8
  shows "crc32c_table ! unat ((c XOR ucast b) AND 0xFF) XOR drop_bit 8 c = crc_bits 8 (c XOR ucast b)"
proof -
  let ?x = "c XOR ucast b :: u32"
  have m: "?x AND 0xFF = take_bit 8 ?x" by (simp add: take_bit_eq_mask mask_eq_exp_minus_1)
  define hi where "hi = ?x XOR take_bit 8 ?x"
  have "?x = take_bit 8 ?x XOR hi" by (simp add: hi_def ac_simps)
  then have "crc_bits 8 ?x = crc_bits 8 (take_bit 8 ?x) XOR crc_bits 8 hi" by (metis crc_bits_xor)
  moreover have "crc_bits 8 hi = drop_bit 8 hi"
    by (rule crc_bits_high) (auto simp: hi_def bit_simps)
  moreover have "drop_bit 8 hi = drop_bit 8 c"
    by (intro bit_eqI) (auto simp: hi_def bit_simps dest: bit_imp_le_length)
  ultimately show ?thesis using crc32c_table_nth [of ?x] by (simp add: m)
qed

lemma crc32c_le_ref: "crc32c_le crc data = crc32c_ref crc data"
  by (induction crc data rule: crc32c_le.induct) (simp_all only: crc32c_le.simps crc32c_ref.simps crc32c_step)

text \<open>
  C30. The checksum computed with the table of 256 entries is the CRC-32C: the remainder computed bit by bit
  with the reflected polynomial 0x82F63B78, for every start value and every sequence of bytes.
\<close>
theorem crc32c_table_correct: "crc32c_le crc data = crc32c_ref crc data"
  by (rule crc32c_le_ref)

end
