(* ===== verification/SendStream.thy ===== *)
theory SendStream
  imports Crc32c
begin

text \<open>
  The reader of a send stream (\<open>send-stream.c\<close>, \<open>send.h\<close>).

  The file descriptor is the sequence of results that its \<open>read\<close> calls can deliver: an error
  number, or a non-empty piece of data, of which a call takes as much as it asks for; an empty piece
  and the end of the sequence are the end of the file. The buffer of the context is a function from
  positions to bytes, of which only the first 64 KiB exist: a read behind them is a crash
  (\<open>None\<close>, or \<open>RCrash\<close> inside a command). The callbacks of \<open>struct btrfs_send_ops\<close> are
  one function \<open>ops\<close> from a call, with its arguments, and the user state to a return value and a
  new user state. \<open>mem attr\<close> says whether the allocation of the string for an attribute succeeds.
\<close>

abbreviation BTRFS_SEND_BUF_SIZE :: nat where "BTRFS_SEND_BUF_SIZE \<equiv> 65536"
abbreviation sizeof_cmd_header :: nat where "sizeof_cmd_header \<equiv> 10"
abbreviation sizeof_tlv_header :: nat where "sizeof_tlv_header \<equiv> 4"
abbreviation BTRFS_SEND_STREAM_VERSION :: u32 where "BTRFS_SEND_STREAM_VERSION \<equiv> 1"

text \<open>\<open>btrfs-stream\<close> with its terminating zero.\<close>

definition BTRFS_SEND_STREAM_MAGIC :: "u8 list" where
  "BTRFS_SEND_STREAM_MAGIC = [98, 116, 114, 102, 115, 45, 115, 116, 114, 101, 97, 109, 0]"

abbreviation BTRFS_SEND_A_MAX :: nat where "BTRFS_SEND_A_MAX \<equiv> 24"

abbreviation (input) "A_UUID \<equiv> 1 :: nat"
abbreviation (input) "A_CTRANSID \<equiv> 2 :: nat"
abbreviation (input) "A_SIZE \<equiv> 4 :: nat"
abbreviation (input) "A_MODE \<equiv> 5 :: nat"
abbreviation (input) "A_UID \<equiv> 6 :: nat"
abbreviation (input) "A_GID \<equiv> 7 :: nat"
abbreviation (input) "A_RDEV \<equiv> 8 :: nat"
abbreviation (input) "A_CTIME \<equiv> 9 :: nat"
abbreviation (input) "A_MTIME \<equiv> 10 :: nat"
abbreviation (input) "A_ATIME \<equiv> 11 :: nat"
abbreviation (input) "A_XATTR_NAME \<equiv> 13 :: nat"
abbreviation (input) "A_XATTR_DATA \<equiv> 14 :: nat"
abbreviation (input) "A_PATH \<equiv> 15 :: nat"
abbreviation (input) "A_PATH_TO \<equiv> 16 :: nat"
abbreviation (input) "A_PATH_LINK \<equiv> 17 :: nat"
abbreviation (input) "A_FILE_OFFSET \<equiv> 18 :: nat"
abbreviation (input) "A_DATA \<equiv> 19 :: nat"
abbreviation (input) "A_CLONE_UUID \<equiv> 20 :: nat"
abbreviation (input) "A_CLONE_CTRANSID \<equiv> 21 :: nat"
abbreviation (input) "A_CLONE_PATH \<equiv> 22 :: nat"
abbreviation (input) "A_CLONE_OFFSET \<equiv> 23 :: nat"
abbreviation (input) "A_CLONE_LEN \<equiv> 24 :: nat"

section \<open>The context\<close>

type_synonym stream_fd = "(int + u8 list) list"

record 'u btrfs_send_stream =
  fd :: stream_fd
  rbuf :: "nat \<Rightarrow> u8"
  cmd :: nat
  cmd_attrs :: "nat \<Rightarrow> nat option"
  version :: u32
  stream_pos :: nat
  user :: 'u

text \<open>A C string as its bytes before the first zero.\<close>

type_synonym cstring = "u8 list"

record timespec =
  tv_sec :: u64
  tv_nsec :: u32

datatype send_call =
    Subvol cstring "u8 list" u64
  | Snapshot cstring "u8 list" u64 "u8 list" u64
  | Mkfile cstring
  | Mkdir cstring
  | Mknod cstring u64 u64
  | Mkfifo cstring
  | Mksock cstring
  | Symlink cstring cstring
  | Rename cstring cstring
  | Link cstring cstring
  | Unlink cstring
  | Rmdir cstring
  | Write cstring "u8 list" u64 nat
  | Clone cstring u64 u64 "u8 list" u64 cstring u64
  | SetXattr cstring cstring "u8 list" nat
  | RemoveXattr cstring cstring
  | Truncate cstring u64
  | Chmod cstring u64
  | Chown cstring u64 u64
  | Utimes cstring timespec timespec timespec
  | UpdateExtent cstring u64 u64

section \<open>Reading bytes\<close>

text \<open>
  The loop of \<open>read_buf\<close>: the bytes still to be read are \<open>len\<close>, those read so far \<open>got\<close>.
  The first result is \<open>Inl ret\<close> for \<open>goto out\<close> and \<open>Inr ret\<close> for the label \<open>out_eof\<close>.
\<close>

fun read_buf_loop :: "stream_fd \<Rightarrow> nat \<Rightarrow> u8 list \<Rightarrow> (int + int) \<times> u8 list \<times> stream_fd" where
  "read_buf_loop f 0 got = (Inr 0, got, f)"
| "read_buf_loop [] (Suc len) got = (Inr 1, got, [])"
| "read_buf_loop (Inl e # f) (Suc len) got = (Inl (- e), got, f)"
| "read_buf_loop (Inr bs # f) (Suc len) got =
     (if bs = [] then (Inr 1, got, f)
      else if length bs \<le> Suc len then read_buf_loop f (Suc len - length bs) (got @ bs)
      else (Inr 0, got @ take (Suc len) bs, Inr (drop (Suc len) bs) # f))"

definition store_bytes :: "(nat \<Rightarrow> u8) \<Rightarrow> nat \<Rightarrow> u8 list \<Rightarrow> nat \<Rightarrow> u8" where
  "store_bytes buf pos bs = (\<lambda>i. if pos \<le> i \<and> i < pos + length bs then bs ! (i - pos) else buf i)"

text \<open>\<open>read_buf\<close>; the bytes read are part of the result.\<close>

definition read_buf :: "'u btrfs_send_stream \<Rightarrow> nat \<Rightarrow> int \<times> u8 list \<times> 'u btrfs_send_stream" where
  "read_buf sctx len =
     (case read_buf_loop (fd sctx) len [] of
        (Inl ret, got, f) \<Rightarrow> (ret, got, sctx\<lparr>fd := f\<rparr>)
      | (Inr ret, got, f) \<Rightarrow>
          if 0 < length got \<and> length got < len then (-EIO, got, sctx\<lparr>fd := f\<rparr>)
          else (ret, got, sctx\<lparr>fd := f, stream_pos := stream_pos sctx + length got\<rparr>))"

text \<open>Little-endian numbers in the buffer.\<close>

fun le_bytes :: "u8 list \<Rightarrow> nat" where
  "le_bytes [] = 0"
| "le_bytes (b # bs) = unat b + 256 * le_bytes bs"

definition buf_slice :: "(nat \<Rightarrow> u8) \<Rightarrow> nat \<Rightarrow> nat \<Rightarrow> u8 list" where
  "buf_slice buf pos n = map (\<lambda>i. buf (pos + i)) [0..<n]"

section \<open>Reading a command\<close>

text \<open>
  The loop over the attributes of a command, from \<open>pos\<close> on. \<open>None\<close> is a read behind the end of
  the buffer. The test \<open>tlv_len > BTRFS_SEND_BUF_SIZE\<close> never holds for a 16-bit length.
\<close>

function tlv_loop :: "(nat \<Rightarrow> u8) \<Rightarrow> nat \<Rightarrow> nat \<Rightarrow> (nat \<Rightarrow> nat option) \<Rightarrow> (int \<times> (nat \<Rightarrow> nat option)) option" where
  "tlv_loop buf cmd_len pos attrs =
     (if pos < cmd_len then
        let tlv_hdr = sizeof_cmd_header + pos in
        if tlv_hdr + sizeof_tlv_header > BTRFS_SEND_BUF_SIZE then None
        else
          let tlv_type = le_bytes (buf_slice buf tlv_hdr 2);
              tlv_len = le_bytes (buf_slice buf (tlv_hdr + 2) 2)
          in if tlv_type = 0 \<or> tlv_type > BTRFS_SEND_A_MAX \<or> tlv_len > BTRFS_SEND_BUF_SIZE
             then Some (-EINVAL, attrs)
             else tlv_loop buf cmd_len (pos + sizeof_tlv_header + tlv_len) (attrs(tlv_type := Some tlv_hdr))
      else Some (0, attrs))"
  by pat_completeness auto

termination
  by (relation "measure (\<lambda>(_, cmd_len, pos, _). cmd_len - pos)") auto

declare tlv_loop.simps [simp del]

definition read_cmd :: "'u btrfs_send_stream \<Rightarrow> (int \<times> 'u btrfs_send_stream) option" where
  "read_cmd sctx0 =
     (let sctx = sctx0\<lparr>cmd_attrs := \<lambda>_. None\<rparr>;
          (ret, hdr, s1) = read_buf sctx sizeof_cmd_header;
          s2 = s1\<lparr>rbuf := store_bytes (rbuf s1) 0 hdr\<rparr>
      in if ret < 0 then Some (ret, s2)
         else if ret \<noteq> 0 then Some (-EINVAL, s2)
         else
           let cmd_len = le_bytes (buf_slice (rbuf s2) 0 4);
               command = le_bytes (buf_slice (rbuf s2) 4 2)
           in if cmd_len + sizeof_cmd_header \<ge> BTRFS_SEND_BUF_SIZE then Some (-EINVAL, s2)
              else
                let (ret2, data, s3) = read_buf s2 cmd_len;
                    s4 = s3\<lparr>rbuf := store_bytes (rbuf s3) sizeof_cmd_header data\<rparr>
                in if ret2 < 0 then Some (ret2, s4)
                   else if ret2 \<noteq> 0 then Some (-EINVAL, s4)
                   else
                     let crc = of_nat (le_bytes (buf_slice (rbuf s4) 6 4)) :: u32;
                         s5 = s4\<lparr>rbuf := store_bytes (rbuf s4) 6 [0, 0, 0, 0]\<rparr>;
                         crc2 = crc32c_le 0 (buf_slice (rbuf s5) 0 (sizeof_cmd_header + cmd_len))
                     in if crc \<noteq> crc2 then Some (-EINVAL, s5)
                        else
                          (case tlv_loop (rbuf s5) cmd_len 0 (cmd_attrs s5) of
                             None \<Rightarrow> None
                           | Some (ret3, attrs) \<Rightarrow>
                               if ret3 \<noteq> 0 then Some (ret3, s5\<lparr>cmd_attrs := attrs\<rparr>)
                               else Some (0, s5\<lparr>cmd_attrs := attrs, cmd := command\<rparr>)))"

section \<open>Attributes\<close>

datatype 'a res = RCrash | RErr int | ROk 'a

fun res_bind :: "'a res \<Rightarrow> ('a \<Rightarrow> 'b res) \<Rightarrow> 'b res" where
  "res_bind RCrash f = RCrash"
| "res_bind (RErr e) f = RErr e"
| "res_bind (ROk x) f = f x"

text \<open>\<open>tlv_get\<close>: the position and the length of the data of an attribute.\<close>

definition tlv_get :: "'u btrfs_send_stream \<Rightarrow> nat \<Rightarrow> (nat \<times> nat) res" where
  "tlv_get sctx attr =
     (if attr = 0 \<or> attr > BTRFS_SEND_A_MAX then RErr (-EINVAL)
      else
        case cmd_attrs sctx attr of
          None \<Rightarrow> RErr (-ENOENT)
        | Some hdr \<Rightarrow> ROk (hdr + sizeof_tlv_header, le_bytes (buf_slice (rbuf sctx) (hdr + 2) 2)))"

text \<open>Reading the data through the pointer.\<close>

definition tlv_data :: "'u btrfs_send_stream \<Rightarrow> nat \<times> nat \<Rightarrow> u8 list res" where
  "tlv_data sctx d =
     (if fst d + snd d > BTRFS_SEND_BUF_SIZE then RCrash else ROk (buf_slice (rbuf sctx) (fst d) (snd d)))"

definition TLV_CHECK_LEN :: "nat \<Rightarrow> nat \<times> nat \<Rightarrow> (nat \<times> nat) res" where
  "TLV_CHECK_LEN expected d = (if expected \<noteq> snd d then RErr (-EINVAL) else ROk d)"

definition TLV_GET_U64 :: "'u btrfs_send_stream \<Rightarrow> nat \<Rightarrow> u64 res" where
  "TLV_GET_U64 sctx attr =
     res_bind (tlv_get sctx attr) (\<lambda>d. res_bind (TLV_CHECK_LEN 8 d) (\<lambda>d.
       res_bind (tlv_data sctx d) (\<lambda>bs. ROk (of_nat (le_bytes bs)))))"

definition cstr :: "u8 list \<Rightarrow> cstring" where
  "cstr bs = takeWhile (\<lambda>b. b \<noteq> 0) bs"

definition tlv_get_string :: "(nat \<Rightarrow> bool) \<Rightarrow> 'u btrfs_send_stream \<Rightarrow> nat \<Rightarrow> cstring res" where
  "tlv_get_string mem sctx attr =
     res_bind (tlv_get sctx attr) (\<lambda>d. if \<not> mem attr then RErr (-ENOMEM)
       else res_bind (tlv_data sctx d) (\<lambda>bs. ROk (cstr bs)))"

definition tlv_get_timespec :: "'u btrfs_send_stream \<Rightarrow> nat \<Rightarrow> timespec res" where
  "tlv_get_timespec sctx attr =
     res_bind (tlv_get sctx attr) (\<lambda>d. res_bind (TLV_CHECK_LEN 12 d) (\<lambda>d.
       res_bind (tlv_data sctx d) (\<lambda>bs.
         ROk \<lparr>tv_sec = of_nat (le_bytes (take 8 bs)), tv_nsec = of_nat (le_bytes (drop 8 bs))\<rparr>)))"

definition tlv_get_uuid :: "'u btrfs_send_stream \<Rightarrow> nat \<Rightarrow> u8 list res" where
  "tlv_get_uuid sctx attr =
     res_bind (tlv_get sctx attr) (\<lambda>d. res_bind (TLV_CHECK_LEN 16 d) (tlv_data sctx))"

section \<open>Dispatch\<close>

text \<open>A \<open>u64\<close> stored into an \<open>int\<close> and passed on as a \<open>u64\<close>, as \<open>len\<close> of a clone is.\<close>

definition through_int :: "u64 \<Rightarrow> u64" where
  "through_int v = scast (ucast v :: u32)"

text \<open>
  The arguments of the callback for a command. A command without a case in the switch makes no
  call (\<open>None\<close>); the end command is handled by \<open>read_and_process_cmd\<close>.
\<close>

definition decode_call :: "(nat \<Rightarrow> bool) \<Rightarrow> 'u btrfs_send_stream \<Rightarrow> send_call option res" where
  "decode_call mem s =
     (let str = tlv_get_string mem s; u64 = TLV_GET_U64 s; uuid = tlv_get_uuid s; ts = tlv_get_timespec s;
          dat = (\<lambda>a. res_bind (tlv_get s a) (tlv_data s));
          path = str A_PATH;
          one = (\<lambda>f. res_bind path (\<lambda>p. ROk (Some (f p))))
      in if cmd s = 1 then res_bind path (\<lambda>p. res_bind (uuid A_UUID) (\<lambda>u. res_bind (u64 A_CTRANSID) (\<lambda>c.
           ROk (Some (Subvol p u c)))))
         else if cmd s = 2 then res_bind path (\<lambda>p. res_bind (uuid A_UUID) (\<lambda>u. res_bind (u64 A_CTRANSID) (\<lambda>c.
           res_bind (uuid A_CLONE_UUID) (\<lambda>cu. res_bind (u64 A_CLONE_CTRANSID) (\<lambda>cc. ROk (Some (Snapshot p u c cu cc)))))))
         else if cmd s = 3 then one Mkfile
         else if cmd s = 4 then one Mkdir
         else if cmd s = 5 then res_bind path (\<lambda>p. res_bind (u64 A_MODE) (\<lambda>m. res_bind (u64 A_RDEV) (\<lambda>d.
           ROk (Some (Mknod p m d)))))
         else if cmd s = 6 then one Mkfifo
         else if cmd s = 7 then one Mksock
         else if cmd s = 8 then res_bind path (\<lambda>p. res_bind (str A_PATH_LINK) (\<lambda>t. ROk (Some (Symlink p t))))
         else if cmd s = 9 then res_bind path (\<lambda>p. res_bind (str A_PATH_TO) (\<lambda>t. ROk (Some (Rename p t))))
         else if cmd s = 10 then res_bind path (\<lambda>p. res_bind (str A_PATH_LINK) (\<lambda>t. ROk (Some (Link p t))))
         else if cmd s = 11 then one Unlink
         else if cmd s = 12 then one Rmdir
         else if cmd s = 13 then res_bind path (\<lambda>p. res_bind (str A_XATTR_NAME) (\<lambda>n.
           res_bind (dat A_XATTR_DATA) (\<lambda>d. ROk (Some (SetXattr p n d (length d))))))
         else if cmd s = 14 then res_bind path (\<lambda>p. res_bind (str A_XATTR_NAME) (\<lambda>n. ROk (Some (RemoveXattr p n))))
         else if cmd s = 15 then res_bind path (\<lambda>p. res_bind (u64 A_FILE_OFFSET) (\<lambda>off.
           res_bind (dat A_DATA) (\<lambda>d. ROk (Some (Write p d off (length d))))))
         else if cmd s = 16 then res_bind path (\<lambda>p. res_bind (u64 A_FILE_OFFSET) (\<lambda>off.
           res_bind (u64 A_CLONE_LEN) (\<lambda>len. res_bind (uuid A_CLONE_UUID) (\<lambda>cu.
           res_bind (u64 A_CLONE_CTRANSID) (\<lambda>cc. res_bind (str A_CLONE_PATH) (\<lambda>cp.
           res_bind (u64 A_CLONE_OFFSET) (\<lambda>co. ROk (Some (Clone p off (through_int len) cu cc cp co)))))))))
         else if cmd s = 17 then res_bind path (\<lambda>p. res_bind (u64 A_SIZE) (\<lambda>v. ROk (Some (Truncate p v))))
         else if cmd s = 18 then res_bind path (\<lambda>p. res_bind (u64 A_MODE) (\<lambda>v. ROk (Some (Chmod p v))))
         else if cmd s = 19 then res_bind path (\<lambda>p. res_bind (u64 A_UID) (\<lambda>u. res_bind (u64 A_GID) (\<lambda>g.
           ROk (Some (Chown p u g)))))
         else if cmd s = 20 then res_bind path (\<lambda>p. res_bind (ts A_ATIME) (\<lambda>a. res_bind (ts A_MTIME) (\<lambda>m.
           res_bind (ts A_CTIME) (\<lambda>c. ROk (Some (Utimes p a m c))))))
         else if cmd s = 22 then res_bind path (\<lambda>p. res_bind (u64 A_FILE_OFFSET) (\<lambda>off. res_bind (u64 A_SIZE) (\<lambda>v.
           ROk (Some (UpdateExtent p off v)))))
         else ROk None)"

definition read_and_process_cmd ::
    "(send_call \<Rightarrow> 'u \<Rightarrow> int \<times> 'u) \<Rightarrow> (nat \<Rightarrow> bool) \<Rightarrow> 'u btrfs_send_stream \<Rightarrow> (int \<times> 'u btrfs_send_stream) option" where
  "read_and_process_cmd ops mem sctx =
     (case read_cmd sctx of
        None \<Rightarrow> None
      | Some (ret, s) \<Rightarrow>
          if ret \<noteq> 0 then Some (ret, s)
          else if cmd s = 21 then Some (1, s)
          else
            (case decode_call mem s of
               RCrash \<Rightarrow> None
             | RErr e \<Rightarrow> Some (e, s)
             | ROk None \<Rightarrow> Some (0, s)
             | ROk (Some call) \<Rightarrow> let (r, u) = ops call (user s) in Some (r, s\<lparr>user := u\<rparr>)))"

section \<open>The stream\<close>

datatype 'a run = Crashed | Returned 'a

text \<open>
  The loop of \<open>btrfs_read_and_process_send_stream\<close>: \<open>None\<close> when it does not end. The result
  is the value returned at the label \<open>out\<close>.
\<close>

definition stream_out :: "int \<Rightarrow> int \<Rightarrow> int" where
  "stream_out ret last_err = (if last_err \<noteq> 0 \<and> ret = 0 then last_err else ret)"

partial_function (option) stream_loop ::
    "(send_call \<Rightarrow> 'u \<Rightarrow> int \<times> 'u) \<Rightarrow> (nat \<Rightarrow> bool) \<Rightarrow> bool \<Rightarrow> u64 \<Rightarrow> 'u btrfs_send_stream \<Rightarrow> u64 \<Rightarrow> int \<Rightarrow>
     (int \<times> 'u btrfs_send_stream) run option" where
  "stream_loop ops mem honor_end_cmd max_errors sctx errors last_err =
     (case read_and_process_cmd ops mem sctx of
        None \<Rightarrow> Some Crashed
      | Some (ret, s) \<Rightarrow>
          if ret < 0 then
            (if max_errors > 0 \<and> errors + 1 \<ge> max_errors then Some (Returned (stream_out ret ret, s))
             else stream_loop ops mem honor_end_cmd max_errors s (errors + 1) ret)
          else if ret > 0 then
            Some (Returned (stream_out (if honor_end_cmd then ret else 0) last_err, s))
          else stream_loop ops mem honor_end_cmd max_errors s errors last_err)"

definition btrfs_read_and_process_send_stream ::
    "(send_call \<Rightarrow> 'u \<Rightarrow> int \<times> 'u) \<Rightarrow> (nat \<Rightarrow> bool) \<Rightarrow> 'u btrfs_send_stream \<Rightarrow> bool \<Rightarrow> u64 \<Rightarrow>
     (int \<times> 'u btrfs_send_stream) run option" where
  "btrfs_read_and_process_send_stream ops mem sctx0 honor_end_cmd max_errors =
     (let (ret, hdr, sctx) = read_buf (sctx0\<lparr>stream_pos := 0\<rparr>) 17 in
      if ret < 0 then Some (Returned (ret, sctx))
      else if ret \<noteq> 0 then Some (Returned (-ENODATA, sctx))
      else if take 13 hdr \<noteq> BTRFS_SEND_STREAM_MAGIC then Some (Returned (-EINVAL, sctx))
      else
        let ver = of_nat (le_bytes (drop 13 hdr)) :: u32;
            s1 = sctx\<lparr>version := ver\<rparr>
        in if ver > BTRFS_SEND_STREAM_VERSION then Some (Returned (-EINVAL, s1))
           else stream_loop ops mem honor_end_cmd max_errors s1 0 0)"

end
