(* ===== verification/SendStreamSpec.thy ===== *)
theory SendStreamSpec
  imports SendStream
begin

text \<open>
  What the stream reader of \<open>SendStream\<close> does: it does not depend on how the bytes arrive, it
  decodes what an encoder of the format produces, it accepts a command only if the checksum is
  right, and it ends when the number of errors is limited.
\<close>

section \<open>Arrival of the bytes\<close>

definition plain_fd :: "stream_fd \<Rightarrow> bool" where
  "plain_fd f \<longleftrightarrow> (\<forall>x\<in>set f. \<exists>bs. x = Inr bs \<and> bs \<noteq> [])"

fun fd_bytes :: "stream_fd \<Rightarrow> u8 list" where
  "fd_bytes [] = []"
| "fd_bytes (Inl e # f) = []"
| "fd_bytes (Inr bs # f) = bs @ fd_bytes f"

lemma plain_fd_simps [simp]:
  "plain_fd []" "plain_fd (Inr bs # f) \<longleftrightarrow> bs \<noteq> [] \<and> plain_fd f" "\<not> plain_fd (Inl e # f)"
  by (auto simp: plain_fd_def)

lemma read_buf_loop_plain:
  "plain_fd f \<Longrightarrow> \<exists>f'. plain_fd f' \<and> fd_bytes f' = drop len (fd_bytes f) \<and>
     read_buf_loop f len got =
       (Inr (if len \<le> length (fd_bytes f) then 0 else 1), got @ take len (fd_bytes f), f')"
proof (induction f len got rule: read_buf_loop.induct)
  case (4 bs f len got)
  show ?case
  proof (cases "length bs \<le> Suc len")
    case True
    then show ?thesis using 4 by (auto simp: Suc_diff_le)
  next
    case False
    then show ?thesis using "4.prems" by (intro exI [of _ "Inr (drop (Suc len) bs) # f"]) simp
  qed
qed auto

lemma read_buf_plain:
  assumes "plain_fd (fd s)"
  shows "\<exists>f'. plain_fd f' \<and> fd_bytes f' = drop len (fd_bytes (fd s)) \<and>
    read_buf s len =
      (if len \<le> length (fd_bytes (fd s)) then 0 else if fd_bytes (fd s) = [] then 1 else -EIO,
       take len (fd_bytes (fd s)),
       s\<lparr>fd := f', stream_pos := stream_pos s +
          (if len \<le> length (fd_bytes (fd s)) then len else 0)\<rparr>)"
proof -
  obtain f' where f': "plain_fd f'" "fd_bytes f' = drop len (fd_bytes (fd s))"
    "read_buf_loop (fd s) len [] = (Inr (if len \<le> length (fd_bytes (fd s)) then 0 else 1), take len (fd_bytes (fd s)), f')"
    using read_buf_loop_plain [OF assms, of len "[]"] by auto
  then show ?thesis
    by (intro exI [of _ f']) (auto simp: read_buf_def min_def)
qed

section \<open>The format\<close>

fun le_enc :: "nat \<Rightarrow> nat \<Rightarrow> u8 list" where
  "le_enc 0 v = []"
| "le_enc (Suc n) v = of_nat (v mod 256) # le_enc n (v div 256)"

lemma length_le_enc [simp]: "length (le_enc n v) = n"
  by (induction n arbitrary: v) auto

lemma le_bytes_enc [simp]: "v < 256 ^ n \<Longrightarrow> le_bytes (le_enc n v) = v"
proof (induction n arbitrary: v)
  case (Suc n)
  have "unat (of_nat (v mod 256) :: u8) = v mod 256" by (simp add: unsigned_of_nat take_bit_nat_eq_self)
  moreover have "v div 256 < 256 ^ n" using Suc.prems by (simp add: less_mult_imp_div_less mult.commute)
  ultimately show ?case using Suc.IH by simp
qed simp

lemma le_bytes_bound: "le_bytes bs < 256 ^ length bs"
proof (induction bs)
  case (Cons b bs)
  have "unat b < 256" using unsigned_less [of b] by simp
  with Cons show ?case by simp
qed simp

definition enc_tlv :: "nat \<times> u8 list \<Rightarrow> u8 list" where
  "enc_tlv a = le_enc 2 (fst a) @ le_enc 2 (length (snd a)) @ snd a"

definition enc_body :: "(nat \<times> u8 list) list \<Rightarrow> u8 list" where
  "enc_body attrs = concat (map enc_tlv attrs)"

definition enc_frame :: "nat \<Rightarrow> u8 list \<Rightarrow> u8 list" where
  "enc_frame c body =
     (let pre = le_enc 4 (length body) @ le_enc 2 c;
          crc = crc32c_le 0 (pre @ [0, 0, 0, 0] @ body)
      in pre @ le_enc 4 (unat crc) @ body)"

definition enc_cmd :: "nat \<Rightarrow> (nat \<times> u8 list) list \<Rightarrow> u8 list" where
  "enc_cmd c attrs = enc_frame c (enc_body attrs)"

definition attrs_ok :: "(nat \<times> u8 list) list \<Rightarrow> bool" where
  "attrs_ok attrs \<longleftrightarrow>
     (\<forall>(t, bs)\<in>set attrs. 0 < t \<and> t \<le> BTRFS_SEND_A_MAX \<and> length bs < 65536) \<and>
     length (enc_body attrs) + sizeof_cmd_header < BTRFS_SEND_BUF_SIZE"

section \<open>The buffer\<close>

lemma length_buf_slice [simp]: "length (buf_slice buf pos n) = n"
  by (simp add: buf_slice_def)

lemma buf_slice_add: "buf_slice buf pos (m + n) = buf_slice buf pos m @ buf_slice buf (pos + m) n"
  by (rule nth_equalityI) (auto simp: buf_slice_def nth_append)

lemma buf_slice_appendD:
  assumes "buf_slice buf pos (length xs + n) = xs @ ys"
  shows "buf_slice buf pos (length xs) = xs" and "buf_slice buf (pos + length xs) n = ys"
  using assms by (simp_all add: buf_slice_add)

lemma buf_slice_store:
  "buf_slice (store_bytes buf pos bs) pos (length bs) = bs"
  by (rule nth_equalityI) (simp_all add: buf_slice_def store_bytes_def)

lemma buf_slice_store_other:
  "pos' + n \<le> pos \<or> pos + length bs \<le> pos' \<Longrightarrow> buf_slice (store_bytes buf pos bs) pos' n = buf_slice buf pos' n"
  by (rule nth_equalityI) (auto simp: buf_slice_def store_bytes_def)

text \<open>The attribute table describes a map from types to data.\<close>

definition attr_at :: "(nat \<Rightarrow> u8) \<Rightarrow> nat option \<Rightarrow> u8 list option \<Rightarrow> bool" where
  "attr_at buf h d \<longleftrightarrow>
     (case (h, d) of
        (None, None) \<Rightarrow> True
      | (Some p, Some bs) \<Rightarrow>
          le_bytes (buf_slice buf (p + 2) 2) = length bs \<and> p + sizeof_tlv_header + length bs \<le> BTRFS_SEND_BUF_SIZE \<and>
          buf_slice buf (p + sizeof_tlv_header) (length bs) = bs
      | _ \<Rightarrow> False)"

lemma enc_tlv_slice:
  assumes "buf_slice buf p (length (enc_tlv (t, bs))) = enc_tlv (t, bs)" and "t < 65536" and "length bs < 65536"
  shows "le_bytes (buf_slice buf p 2) = t" and "le_bytes (buf_slice buf (p + 2) 2) = length bs"
    and "buf_slice buf (p + sizeof_tlv_header) (length bs) = bs"
proof -
  have "buf_slice buf p (2 + (2 + length bs)) = le_enc 2 t @ le_enc 2 (length bs) @ bs"
    using assms(1) by (simp add: enc_tlv_def add.assoc del: le_enc.simps)
  then have "buf_slice buf p 2 = le_enc 2 t \<and> buf_slice buf (p + 2) 2 = le_enc 2 (length bs) \<and>
    buf_slice buf (p + 2 + 2) (length bs) = bs"
    unfolding buf_slice_add by (simp only: append_eq_append_conv length_buf_slice length_le_enc simp_thms)
  moreover have "p + 2 + 2 = p + sizeof_tlv_header" by simp
  ultimately have e: "buf_slice buf p 2 = le_enc 2 t" "buf_slice buf (p + 2) 2 = le_enc 2 (length bs)"
    "buf_slice buf (p + sizeof_tlv_header) (length bs) = bs" by metis+
  show "le_bytes (buf_slice buf p 2) = t" unfolding e(1) by (rule le_bytes_enc) (use assms(2) in simp)
  show "le_bytes (buf_slice buf (p + 2) 2) = length bs" unfolding e(2) by (rule le_bytes_enc) (use assms(3) in simp)
  show "buf_slice buf (p + sizeof_tlv_header) (length bs) = bs" by (rule e(3))
qed

lemma length_enc_tlv [simp]: "length (enc_tlv a) = sizeof_tlv_header + length (snd a)"
  by (simp add: enc_tlv_def)

lemma enc_body_simps [simp]: "enc_body [] = []" "enc_body (a # attrs) = enc_tlv a @ enc_body attrs"
  by (simp_all add: enc_body_def)

lemma tlv_loop_ok:
  assumes "\<And>t. attr_at buf (tab t) (m t)"
    and "buf_slice buf (sizeof_cmd_header + pos) (length (enc_body attrs)) = enc_body attrs"
    and "cmd_len = pos + length (enc_body attrs)" and "sizeof_cmd_header + cmd_len < BTRFS_SEND_BUF_SIZE"
    and "\<forall>(t, bs)\<in>set attrs. 0 < t \<and> t \<le> BTRFS_SEND_A_MAX \<and> length bs < 65536"
  shows "\<exists>tab'. tlv_loop buf cmd_len pos tab = Some (0, tab') \<and> (\<forall>t. attr_at buf (tab' t) ((m ++ map_of (rev attrs)) t))"
  using assms
proof (induction attrs arbitrary: tab m pos)
  case Nil
  then show ?case by (simp add: tlv_loop.simps [of _ _ pos])
next
  case (Cons a attrs)
  obtain t bs where a: "a = (t, bs)" by force
  have s: "buf_slice buf (sizeof_cmd_header + pos) (length (enc_tlv a)) = enc_tlv a"
    "buf_slice buf (sizeof_cmd_header + pos + length (enc_tlv a)) (length (enc_body attrs)) = enc_body attrs"
    using buf_slice_appendD [of buf "sizeof_cmd_header + pos" "enc_tlv a" "length (enc_body attrs)" "enc_body attrs"]
      Cons.prems(2) unfolding enc_body_simps length_append by blast+
  have t: "0 < t" "t \<le> BTRFS_SEND_A_MAX" "t < 65536" "length bs < 65536" using Cons.prems(5) a by auto
  note e = enc_tlv_slice [OF s(1) [unfolded a] t(3,4)]
  let ?hdr = "sizeof_cmd_header + pos"
  have room: "?hdr + sizeof_tlv_header + length bs \<le> BTRFS_SEND_BUF_SIZE" "pos < cmd_len"
    using Cons.prems(3,4) a by simp_all
  have step: "tlv_loop buf cmd_len pos tab =
      tlv_loop buf cmd_len (pos + sizeof_tlv_header + length bs) (tab(t := Some ?hdr))"
    using room t e by (subst tlv_loop.simps) (simp add: Let_def)
  let ?tab = "tab(t := Some ?hdr)" and ?m = "m(t \<mapsto> bs)"
  have m: "m ++ map_of (rev (a # attrs)) = ?m ++ map_of (rev attrs)"
    by (rule ext) (simp add: a map_add_def split: option.splits)
  have "\<exists>tab'. tlv_loop buf cmd_len (pos + sizeof_tlv_header + length bs) ?tab = Some (0, tab') \<and>
      (\<forall>t. attr_at buf (tab' t) ((?m ++ map_of (rev attrs)) t))"
  proof (rule Cons.IH)
    show "attr_at buf (?tab t') (?m t')" for t' using Cons.prems(1) [of t'] e room by (simp add: attr_at_def)
  qed (use Cons.prems(3,4,5) s(2) in \<open>simp_all add: a add.assoc\<close>)
  then show ?case unfolding step m .
qed

section \<open>A command\<close>

text \<open>The command at the start of the bytes: its length field, and the bytes its checksum is over.\<close>

definition frame_len :: "u8 list \<Rightarrow> nat" where
  "frame_len bytes = le_bytes (take 4 bytes)"

definition frame_crc :: "u8 list \<Rightarrow> u32" where
  "frame_crc bytes = of_nat (le_bytes (take 4 (drop 6 bytes)))"

definition frame_summed :: "u8 list \<Rightarrow> u8 list" where
  "frame_summed bytes = take 6 bytes @ [0, 0, 0, 0] @ take (frame_len bytes) (drop sizeof_cmd_header bytes)"

definition frame_complete :: "u8 list \<Rightarrow> bool" where
  "frame_complete bytes \<longleftrightarrow>
     sizeof_cmd_header \<le> length bytes \<and> frame_len bytes + sizeof_cmd_header < BTRFS_SEND_BUF_SIZE \<and>
     sizeof_cmd_header + frame_len bytes \<le> length bytes"

lemma store_bytes_nth: "store_bytes buf pos bs i = (if pos \<le> i \<and> i < pos + length bs then bs ! (i - pos) else buf i)"
  by (simp add: store_bytes_def)

lemma buf_slice_nth [simp]: "i < n \<Longrightarrow> buf_slice buf pos n ! i = buf (pos + i)"
  by (simp add: buf_slice_def)

lemma buf_slice_take_drop:
  assumes "\<And>i. i < n \<Longrightarrow> buf (pos + i) = bytes ! (k + i)" and "k + n \<le> length bytes"
  shows "buf_slice buf pos n = take n (drop k bytes)"
  by (rule nth_equalityI) (use assms in auto)

lemma read_cmd_frame:
  assumes pl: "plain_fd (fd s)" and fc: "frame_complete (fd_bytes (fd s))"
  defines "bytes \<equiv> fd_bytes (fd s)" and "n \<equiv> frame_len (fd_bytes (fd s))"
  obtains f buf where "plain_fd f" and "fd_bytes f = drop (sizeof_cmd_header + n) bytes"
    and "buf_slice buf 0 (sizeof_cmd_header + n) = frame_summed bytes"
    and "read_cmd s =
      (let s5 = s\<lparr>fd := f, rbuf := buf, cmd_attrs := \<lambda>_. None, stream_pos := stream_pos s + (sizeof_cmd_header + n)\<rparr> in
       if frame_crc bytes \<noteq> crc32c_le 0 (frame_summed bytes) then Some (-EINVAL, s5)
       else case tlv_loop buf n 0 (\<lambda>_. None) of None \<Rightarrow> None
         | Some (r, attrs) \<Rightarrow> if r \<noteq> 0 then Some (r, s5\<lparr>cmd_attrs := attrs\<rparr>)
             else Some (0, s5\<lparr>cmd_attrs := attrs, cmd := le_bytes (take 2 (drop 4 bytes))\<rparr>))"
proof -
  let ?s = "s\<lparr>cmd_attrs := \<lambda>_. None\<rparr>"
  have len: "sizeof_cmd_header \<le> length bytes" "n + sizeof_cmd_header < BTRFS_SEND_BUF_SIZE" "sizeof_cmd_header + n \<le> length bytes"
    using fc by (simp_all add: frame_complete_def bytes_def n_def)
  have n: "n = le_bytes (take 4 bytes)" by (simp add: n_def bytes_def frame_len_def)
  obtain f1 where f1: "plain_fd f1" "fd_bytes f1 = drop sizeof_cmd_header bytes"
    "read_buf ?s sizeof_cmd_header = (0, take sizeof_cmd_header bytes, ?s\<lparr>fd := f1, stream_pos := stream_pos s + sizeof_cmd_header\<rparr>)"
    using read_buf_plain [of ?s sizeof_cmd_header] pl len(1) unfolding bytes_def by auto
  let ?b1 = "store_bytes (rbuf s) 0 (take sizeof_cmd_header bytes)"
  let ?s2 = "?s\<lparr>fd := f1, stream_pos := stream_pos s + sizeof_cmd_header, rbuf := ?b1\<rparr>"
  obtain f2 where f2: "plain_fd f2" "fd_bytes f2 = drop (sizeof_cmd_header + n) bytes"
    "read_buf ?s2 n = (0, take n (drop sizeof_cmd_header bytes), ?s2\<lparr>fd := f2, stream_pos := stream_pos s + sizeof_cmd_header + n\<rparr>)"
    using read_buf_plain [of ?s2 n] f1(1,2) len(3) by (auto simp: add.commute)
  let ?b2 = "store_bytes ?b1 sizeof_cmd_header (take n (drop sizeof_cmd_header bytes))"
  let ?b3 = "store_bytes ?b2 6 [0, 0, 0, 0]"
  have h: "buf_slice ?b1 0 4 = take 4 bytes" "buf_slice ?b1 4 2 = take 2 (drop 4 bytes)" "buf_slice ?b2 6 4 = take 4 (drop 6 bytes)"
    using len(1) buf_slice_take_drop [of 4 ?b1 0 bytes 0] buf_slice_take_drop [of 2 ?b1 4 bytes 4] buf_slice_take_drop [of 4 ?b2 6 bytes 6]
    by (simp_all add: store_bytes_nth)
  have sum: "buf_slice ?b3 0 (sizeof_cmd_header + n) = frame_summed bytes"
  proof (rule nth_equalityI)
    fix i assume "i < length (buf_slice ?b3 0 (sizeof_cmd_header + n))"
    then have i: "i < sizeof_cmd_header + n" by simp
    have z: "(0 # 0 # 0 # 0 # xs) ! j = (0 :: u8)" if "j < 4" for j xs using that by (auto simp: numeral_eq_Suc less_Suc_eq)
    show "buf_slice ?b3 0 (sizeof_cmd_header + n) ! i = frame_summed bytes ! i"
      using i len z [of "i - 6" "take n (drop sizeof_cmd_header bytes)"] z [of "i - 6" "[]"] unfolding frame_summed_def n_def [symmetric] bytes_def [symmetric] frame_len_def n [symmetric]
      by (auto simp: store_bytes_nth nth_append)
  qed (use len in \<open>simp add: frame_summed_def frame_len_def n [symmetric]\<close>)
  show thesis
  proof (rule that [of f2 ?b3])
    show "plain_fd f2" by (rule f2(1))
    show "fd_bytes f2 = drop (sizeof_cmd_header + n) bytes" by (rule f2(2))
    show "buf_slice ?b3 0 (sizeof_cmd_header + n) = frame_summed bytes" by (rule sum)
  next
    let ?s5 = "s\<lparr>fd := f2, rbuf := ?b3, cmd_attrs := \<lambda>_. None, stream_pos := stream_pos s + (sizeof_cmd_header + n)\<rparr>"
    show "read_cmd s = (let s5 = ?s5 in
       if frame_crc bytes \<noteq> crc32c_le 0 (frame_summed bytes) then Some (-EINVAL, s5)
       else case tlv_loop ?b3 n 0 (\<lambda>_. None) of None \<Rightarrow> None
         | Some (r, attrs) \<Rightarrow> if r \<noteq> 0 then Some (r, s5\<lparr>cmd_attrs := attrs\<rparr>)
             else Some (0, s5\<lparr>cmd_attrs := attrs, cmd := le_bytes (take 2 (drop 4 bytes))\<rparr>))"
      using len(2) unfolding read_cmd_def Let_def f1(3) split_conv
      by (simp add: h n [symmetric] f2(3) sum frame_crc_def add.assoc split: option.split)
  qed
qed

text \<open>Without a complete command there is an error.\<close>

lemma read_cmd_short:
  assumes pl: "plain_fd (fd s)" and fc: "\<not> frame_complete (fd_bytes (fd s))"
  shows "\<exists>e s'. read_cmd s = Some (e, s') \<and> e < 0"
proof (cases "sizeof_cmd_header \<le> length (fd_bytes (fd s))")
  case False
  then show ?thesis using read_buf_plain [of "s\<lparr>cmd_attrs := \<lambda>_. None\<rparr>" sizeof_cmd_header] pl
    by (auto simp: read_cmd_def)
next
  case True
  let ?s = "s\<lparr>cmd_attrs := \<lambda>_. None\<rparr>" and ?bytes = "fd_bytes (fd s)"
  obtain f1 where f1: "plain_fd f1" "fd_bytes f1 = drop sizeof_cmd_header ?bytes"
    "read_buf ?s sizeof_cmd_header = (0, take sizeof_cmd_header ?bytes, ?s\<lparr>fd := f1, stream_pos := stream_pos s + sizeof_cmd_header\<rparr>)"
    using read_buf_plain [of ?s sizeof_cmd_header] pl True by auto
  let ?b1 = "store_bytes (rbuf s) 0 (take sizeof_cmd_header ?bytes)"
  let ?s2 = "?s\<lparr>fd := f1, stream_pos := stream_pos s + sizeof_cmd_header, rbuf := ?b1\<rparr>"
  have h: "le_bytes (buf_slice ?b1 0 4) = frame_len ?bytes"
    using True buf_slice_take_drop [of 4 ?b1 0 ?bytes 0] by (simp add: store_bytes_nth frame_len_def)
  show ?thesis
  proof (cases "frame_len ?bytes + sizeof_cmd_header < BTRFS_SEND_BUF_SIZE")
    case False
    then show ?thesis by (simp add: read_cmd_def f1(3) h)
  next
    case fits: True
    then have "\<not> frame_len ?bytes \<le> length (fd_bytes f1)" using fc True f1(2) by (auto simp: frame_complete_def)
    then obtain e s3 where "read_buf ?s2 (frame_len ?bytes) = (e, fd_bytes f1, s3)" "e < 0 \<or> e = 1"
      using read_buf_plain [of ?s2 "frame_len ?bytes"] f1(1) by auto
    then show ?thesis using fits by (auto simp: read_cmd_def f1(3) h)
  qed
qed

lemma read_cmd_accepts:
  assumes "plain_fd (fd s)" and "read_cmd s = Some (0, s')"
  shows "frame_complete (fd_bytes (fd s)) \<and>
    frame_crc (fd_bytes (fd s)) = crc32c_le 0 (frame_summed (fd_bytes (fd s))) \<and>
    fd_bytes (fd s') = drop (sizeof_cmd_header + frame_len (fd_bytes (fd s))) (fd_bytes (fd s)) \<and>
    cmd s' = le_bytes (take 2 (drop 4 (fd_bytes (fd s))))"
proof -
  have fc: "frame_complete (fd_bytes (fd s))" using read_cmd_short [of s] assms by fastforce
  from assms(1) fc show ?thesis
    by (rule read_cmd_frame) (use assms(2) fc in \<open>auto simp: Let_def split: if_splits option.splits\<close>)
qed

section \<open>Round trip\<close>

lemma frame_enc:
  fixes body rest :: "u8 list"
  assumes lb: "length body + sizeof_cmd_header < BTRFS_SEND_BUF_SIZE" and "c < 65536"
  defines "bytes \<equiv> enc_frame c body @ rest"
  shows "frame_len bytes = length body" and "frame_complete bytes"
    and "frame_crc bytes = crc32c_le 0 (frame_summed bytes)" and "le_bytes (take 2 (drop 4 bytes)) = c"
    and "drop (sizeof_cmd_header + frame_len bytes) bytes = rest"
    and "take (frame_len bytes) (drop sizeof_cmd_header bytes) = body"
proof -
  let ?crc = "crc32c_le 0 (le_enc 4 (length body) @ le_enc 2 c @ [0, 0, 0, 0] @ body)"
  have b: "bytes = le_enc 4 (length body) @ le_enc 2 c @ le_enc 4 (unat ?crc) @ body @ rest"
    by (simp add: bytes_def enc_frame_def Let_def)
  show len: "frame_len bytes = length body" using lb by (simp add: frame_len_def b)
  show "frame_complete bytes" using lb by (simp add: frame_complete_def len) (simp add: b)
  show body: "take (frame_len bytes) (drop sizeof_cmd_header bytes) = body" by (simp add: len) (simp add: b)
  show "drop (sizeof_cmd_header + frame_len bytes) bytes = rest" by (simp add: len) (simp add: b)
  show "le_bytes (take 2 (drop 4 bytes)) = c" using assms(2) by (simp add: b)
  have "unat ?crc < 256 ^ 4" using unsigned_less [where 'a = nat, of ?crc] by simp
  then have "frame_crc bytes = ?crc" by (simp add: frame_crc_def b)
  moreover have "frame_summed bytes = le_enc 4 (length body) @ le_enc 2 c @ [0, 0, 0, 0] @ body"
    unfolding frame_summed_def body by (simp add: b)
  ultimately show "frame_crc bytes = crc32c_le 0 (frame_summed bytes)" by simp
qed

lemma read_cmd_enc_frame:
  assumes pl: "plain_fd (fd s)" and len: "length body + sizeof_cmd_header < BTRFS_SEND_BUF_SIZE" and c: "c < 65536"
    and b: "fd_bytes (fd s) = enc_frame c body @ rest"
  obtains s5 where "plain_fd (fd s5)" and "fd_bytes (fd s5) = rest" and "user s5 = user s"
    and "buf_slice (rbuf s5) sizeof_cmd_header (length body) = body"
    and "read_cmd s = (case tlv_loop (rbuf s5) (length body) 0 (\<lambda>_. None) of None \<Rightarrow> None
         | Some (r, attrs) \<Rightarrow> if r \<noteq> 0 then Some (r, s5\<lparr>cmd_attrs := attrs\<rparr>)
             else Some (0, s5\<lparr>cmd_attrs := attrs, cmd := c\<rparr>))"
proof -
  note e = frame_enc [OF len c, of rest, folded b]
  let ?n = "length body"
  obtain f buf where f: "plain_fd f" "fd_bytes f = drop (sizeof_cmd_header + ?n) (fd_bytes (fd s))"
      "buf_slice buf 0 (sizeof_cmd_header + ?n) = frame_summed (fd_bytes (fd s))"
    and r: "read_cmd s =
      (let s5 = s\<lparr>fd := f, rbuf := buf, cmd_attrs := \<lambda>_. None, stream_pos := stream_pos s + (sizeof_cmd_header + ?n)\<rparr> in
       if frame_crc (fd_bytes (fd s)) \<noteq> crc32c_le 0 (frame_summed (fd_bytes (fd s))) then Some (-EINVAL, s5)
       else case tlv_loop buf ?n 0 (\<lambda>_. None) of None \<Rightarrow> None
         | Some (r, attrs) \<Rightarrow> if r \<noteq> 0 then Some (r, s5\<lparr>cmd_attrs := attrs\<rparr>)
             else Some (0, s5\<lparr>cmd_attrs := attrs, cmd := le_bytes (take 2 (drop 4 (fd_bytes (fd s))))\<rparr>))"
    by (rule read_cmd_frame [OF pl e(2), unfolded e(1)])
  let ?s5 = "s\<lparr>fd := f, rbuf := buf, cmd_attrs := \<lambda>_. None, stream_pos := stream_pos s + (sizeof_cmd_header + ?n)\<rparr>"
  have rest: "fd_bytes f = rest" using f(2) e(5) unfolding e(1) by simp
  have "buf_slice buf 0 sizeof_cmd_header @ buf_slice buf sizeof_cmd_header ?n =
      (take 6 (fd_bytes (fd s)) @ [0, 0, 0, 0]) @ body"
    using f(3) unfolding buf_slice_add frame_summed_def e(6) by simp
  then have "buf_slice buf sizeof_cmd_header ?n = body"
    by (simp only: append_eq_append_conv length_buf_slice simp_thms)
  then show thesis
    using f(1) rest r unfolding e(3,4) by (intro that [of ?s5]) (simp_all add: Let_def split: option.split)
qed

text \<open>The attributes of the command in the context.\<close>

definition holds :: "'u btrfs_send_stream \<Rightarrow> (nat \<rightharpoonup> u8 list) \<Rightarrow> bool" where
  "holds s m \<longleftrightarrow> (\<forall>t. attr_at (rbuf s) (cmd_attrs s t) (m t))"

lemma read_cmd_enc:
  assumes pl: "plain_fd (fd s)" and ok: "attrs_ok attrs" and c: "c < 65536"
    and b: "fd_bytes (fd s) = enc_cmd c attrs @ rest"
  shows "\<exists>s'. read_cmd s = Some (0, s') \<and> cmd s' = c \<and> plain_fd (fd s') \<and> fd_bytes (fd s') = rest \<and>
    user s' = user s \<and> holds s' (map_of (rev attrs))"
proof -
  let ?n = "length (enc_body attrs)"
  have n: "?n + sizeof_cmd_header < BTRFS_SEND_BUF_SIZE" using ok by (simp add: attrs_ok_def)
  obtain s5 where s5: "plain_fd (fd s5)" "fd_bytes (fd s5) = rest" "user s5 = user s"
      "buf_slice (rbuf s5) sizeof_cmd_header ?n = enc_body attrs"
    and r: "read_cmd s = (case tlv_loop (rbuf s5) ?n 0 (\<lambda>_. None) of None \<Rightarrow> None
         | Some (r, attrs) \<Rightarrow> if r \<noteq> 0 then Some (r, s5\<lparr>cmd_attrs := attrs\<rparr>)
             else Some (0, s5\<lparr>cmd_attrs := attrs, cmd := c\<rparr>))"
    by (rule read_cmd_enc_frame [OF pl n c b [unfolded enc_cmd_def]])
  obtain tab where "tlv_loop (rbuf s5) ?n 0 (\<lambda>_. None) = Some (0, tab)"
      "\<forall>t. attr_at (rbuf s5) (tab t) ((Map.empty ++ map_of (rev attrs)) t)"
    using tlv_loop_ok [of "rbuf s5" "\<lambda>_. None" Map.empty 0 attrs ?n] ok s5(4) by (auto simp: attrs_ok_def attr_at_def)
  then show ?thesis using s5 r by (simp add: holds_def)
qed

text \<open>What the readers of single attributes find.\<close>

lemma holdsE:
  assumes "holds s m" and "m a = Some bs" and "0 < a" and "a \<le> BTRFS_SEND_A_MAX"
  obtains p where "tlv_get s a = ROk (p, length bs)" and "tlv_data s (p, length bs) = ROk bs"
proof -
  have "attr_at (rbuf s) (cmd_attrs s a) (Some bs)" using assms(1,2) by (metis holds_def)
  then obtain h where "cmd_attrs s a = Some h" "le_bytes (buf_slice (rbuf s) (h + 2) 2) = length bs"
    "h + sizeof_tlv_header + length bs \<le> BTRFS_SEND_BUF_SIZE"
    "buf_slice (rbuf s) (h + sizeof_tlv_header) (length bs) = bs"
    by (auto simp: attr_at_def split: option.splits)
  then show thesis using assms(3,4) by (intro that [of "h + sizeof_tlv_header"]) (simp_all add: tlv_get_def tlv_data_def)
qed

lemma attr_data:
  "\<lbrakk>holds s m; m a = Some bs; 0 < a; a \<le> BTRFS_SEND_A_MAX\<rbrakk> \<Longrightarrow> res_bind (tlv_get s a) (tlv_data s) = ROk bs"
  by (erule (3) holdsE) simp

lemma attr_missing:
  "\<lbrakk>holds s m; m a = None; 0 < a; a \<le> BTRFS_SEND_A_MAX\<rbrakk> \<Longrightarrow> tlv_get s a = RErr (-ENOENT)"
proof -
  assume "holds s m" and a: "m a = None" "0 < a" "a \<le> BTRFS_SEND_A_MAX"
  then have "attr_at (rbuf s) (cmd_attrs s a) None" by (metis holds_def)
  then show ?thesis using a by (simp add: tlv_get_def attr_at_def split: option.splits)
qed

lemma attr_string:
  "\<lbrakk>holds s m; m a = Some bs; 0 < a; a \<le> BTRFS_SEND_A_MAX; mem a\<rbrakk> \<Longrightarrow> tlv_get_string mem s a = ROk (cstr bs)"
  by (erule (3) holdsE) (simp add: tlv_get_string_def)

lemma attr_u64:
  assumes "holds s m" and "m a = Some (le_enc 8 (unat v))" and "0 < a" and "a \<le> BTRFS_SEND_A_MAX"
  shows "TLV_GET_U64 s a = ROk v"
proof -
  have "unat v < 256 ^ 8" using unsigned_less [of v] by simp
  with assms show ?thesis by (elim holdsE) (auto simp: TLV_GET_U64_def TLV_CHECK_LEN_def)
qed

lemma attr_uuid:
  "\<lbrakk>holds s m; m a = Some bs; length bs = 16; 0 < a; a \<le> BTRFS_SEND_A_MAX\<rbrakk> \<Longrightarrow> tlv_get_uuid s a = ROk bs"
  by (erule (1) holdsE) (simp_all add: tlv_get_uuid_def TLV_CHECK_LEN_def)

definition enc_ts :: "timespec \<Rightarrow> u8 list" where
  "enc_ts t = le_enc 8 (unat (tv_sec t)) @ le_enc 4 (unat (tv_nsec t))"

lemma attr_timespec:
  assumes "holds s m" and "m a = Some (enc_ts t)" and "0 < a" and "a \<le> BTRFS_SEND_A_MAX"
  shows "tlv_get_timespec s a = ROk t"
proof -
  have "unat (tv_sec t) < 256 ^ 8" "unat (tv_nsec t) < 256 ^ 4"
    using unsigned_less [of "tv_sec t"] unsigned_less [of "tv_nsec t"] by simp_all
  with assms show ?thesis
    by (elim holdsE) (auto simp: tlv_get_timespec_def TLV_CHECK_LEN_def enc_ts_def)
qed

text \<open>The command and the attributes that stand for a call.\<close>

fun enc_call :: "send_call \<Rightarrow> nat \<times> (nat \<times> u8 list) list" where
  "enc_call (Subvol p u c) = (1, [(A_PATH, p), (A_UUID, u), (A_CTRANSID, le_enc 8 (unat c))])"
| "enc_call (Snapshot p u c cu cc) = (2, [(A_PATH, p), (A_UUID, u), (A_CTRANSID, le_enc 8 (unat c)),
     (A_CLONE_UUID, cu), (A_CLONE_CTRANSID, le_enc 8 (unat cc))])"
| "enc_call (Mkfile p) = (3, [(A_PATH, p)])"
| "enc_call (Mkdir p) = (4, [(A_PATH, p)])"
| "enc_call (Mknod p m d) = (5, [(A_PATH, p), (A_MODE, le_enc 8 (unat m)), (A_RDEV, le_enc 8 (unat d))])"
| "enc_call (Mkfifo p) = (6, [(A_PATH, p)])"
| "enc_call (Mksock p) = (7, [(A_PATH, p)])"
| "enc_call (Symlink p t) = (8, [(A_PATH, p), (A_PATH_LINK, t)])"
| "enc_call (Rename p t) = (9, [(A_PATH, p), (A_PATH_TO, t)])"
| "enc_call (Link p t) = (10, [(A_PATH, p), (A_PATH_LINK, t)])"
| "enc_call (Unlink p) = (11, [(A_PATH, p)])"
| "enc_call (Rmdir p) = (12, [(A_PATH, p)])"
| "enc_call (SetXattr p n d len) = (13, [(A_PATH, p), (A_XATTR_NAME, n), (A_XATTR_DATA, d)])"
| "enc_call (RemoveXattr p n) = (14, [(A_PATH, p), (A_XATTR_NAME, n)])"
| "enc_call (Write p d off len) = (15, [(A_PATH, p), (A_FILE_OFFSET, le_enc 8 (unat off)), (A_DATA, d)])"
| "enc_call (Clone p off len cu cc cp co) = (16, [(A_PATH, p), (A_FILE_OFFSET, le_enc 8 (unat off)),
     (A_CLONE_LEN, le_enc 8 (unat len)), (A_CLONE_UUID, cu), (A_CLONE_CTRANSID, le_enc 8 (unat cc)),
     (A_CLONE_PATH, cp), (A_CLONE_OFFSET, le_enc 8 (unat co))])"
| "enc_call (Truncate p v) = (17, [(A_PATH, p), (A_SIZE, le_enc 8 (unat v))])"
| "enc_call (Chmod p v) = (18, [(A_PATH, p), (A_MODE, le_enc 8 (unat v))])"
| "enc_call (Chown p u g) = (19, [(A_PATH, p), (A_UID, le_enc 8 (unat u)), (A_GID, le_enc 8 (unat g))])"
| "enc_call (Utimes p a m c) = (20, [(A_PATH, p), (A_ATIME, enc_ts a), (A_MTIME, enc_ts m), (A_CTIME, enc_ts c)])"
| "enc_call (UpdateExtent p off v) = (22, [(A_PATH, p), (A_FILE_OFFSET, le_enc 8 (unat off)), (A_SIZE, le_enc 8 (unat v))])"

text \<open>
  What the format can express: strings without zero bytes, identifiers of 16 bytes, the length
  argument of a data block, and, as the reader keeps the length of a clone in an \<open>int\<close>, a clone of
  less than 2 GiB.
\<close>

fun call_args_ok :: "send_call \<Rightarrow> bool" where
  "call_args_ok (Subvol p u c) \<longleftrightarrow> 0 \<notin> set p \<and> length u = 16"
| "call_args_ok (Snapshot p u c cu cc) \<longleftrightarrow> 0 \<notin> set p \<and> length u = 16 \<and> length cu = 16"
| "call_args_ok (Mkfile p) \<longleftrightarrow> 0 \<notin> set p"
| "call_args_ok (Mkdir p) \<longleftrightarrow> 0 \<notin> set p"
| "call_args_ok (Mknod p m d) \<longleftrightarrow> 0 \<notin> set p"
| "call_args_ok (Mkfifo p) \<longleftrightarrow> 0 \<notin> set p"
| "call_args_ok (Mksock p) \<longleftrightarrow> 0 \<notin> set p"
| "call_args_ok (Symlink p t) \<longleftrightarrow> 0 \<notin> set p \<and> 0 \<notin> set t"
| "call_args_ok (Rename p t) \<longleftrightarrow> 0 \<notin> set p \<and> 0 \<notin> set t"
| "call_args_ok (Link p t) \<longleftrightarrow> 0 \<notin> set p \<and> 0 \<notin> set t"
| "call_args_ok (Unlink p) \<longleftrightarrow> 0 \<notin> set p"
| "call_args_ok (Rmdir p) \<longleftrightarrow> 0 \<notin> set p"
| "call_args_ok (SetXattr p n d len) \<longleftrightarrow> 0 \<notin> set p \<and> 0 \<notin> set n \<and> len = length d"
| "call_args_ok (RemoveXattr p n) \<longleftrightarrow> 0 \<notin> set p \<and> 0 \<notin> set n"
| "call_args_ok (Write p d off len) \<longleftrightarrow> 0 \<notin> set p \<and> len = length d"
| "call_args_ok (Clone p off len cu cc cp co) \<longleftrightarrow> 0 \<notin> set p \<and> 0 \<notin> set cp \<and> length cu = 16 \<and> len < 0x80000000"
| "call_args_ok (Truncate p v) \<longleftrightarrow> 0 \<notin> set p"
| "call_args_ok (Chmod p v) \<longleftrightarrow> 0 \<notin> set p"
| "call_args_ok (Chown p u g) \<longleftrightarrow> 0 \<notin> set p"
| "call_args_ok (Utimes p a m c) \<longleftrightarrow> 0 \<notin> set p"
| "call_args_ok (UpdateExtent p off v) \<longleftrightarrow> 0 \<notin> set p"

definition call_ok :: "send_call \<Rightarrow> bool" where
  "call_ok call \<longleftrightarrow> call_args_ok call \<and> attrs_ok (snd (enc_call call))"

lemma cstr_id [simp]: "0 \<notin> set p \<Longrightarrow> cstr p = p"
  by (auto simp: cstr_def takeWhile_eq_all_conv)

lemma sint_cases:
  fixes v :: u64
  shows "sint v = (if uint v < 2 ^ 63 then uint v else uint v - 2 ^ 64)"
proof -
  have b: "0 \<le> uint v" "uint v < 2 ^ 64" using unsigned_less [where 'a = int, of v] by simp_all
  have "sint v = (uint v + 2 ^ 63) mod 2 ^ 64 - 2 ^ 63" by (simp add: sint_uint signed_take_bit_eq_take_bit_shift take_bit_eq_mod)
  moreover have "(uint v + 2 ^ 63) mod 2 ^ 64 = uint v - 2 ^ 63" if "2 ^ 63 \<le> uint v"
    using b that mod_add_self2 [of "uint v - 2 ^ 63" "2 ^ 64"] by (simp add: add.commute)
  ultimately show ?thesis using b by (simp add: not_less)
qed

lemma through_int_exact: "through_int v = v \<longleftrightarrow> v < 0x80000000 \<or> 0xFFFFFFFF80000000 \<le> v"
proof -
  have "sint (through_int v) = sint (ucast v :: u32)" by (simp add: through_int_def sint_up_scast is_up)
  also have "\<dots> = signed_take_bit 31 (uint v)" by (simp add: sint_uint unsigned_ucast_eq signed_take_bit_take_bit)
  also have "\<dots> = signed_take_bit 31 (sint v)" by (simp add: sint_uint)
  finally have "through_int v = v \<longleftrightarrow> signed_take_bit 31 (sint v) = sint v" by (metis signed_word_eqI)
  also have "\<dots> \<longleftrightarrow> - (2 ^ 31) \<le> sint v \<and> sint v < 2 ^ 31" by (rule signed_take_bit_int_eq_self_iff)
  also have "\<dots> \<longleftrightarrow> v < 0x80000000 \<or> 0xFFFFFFFF80000000 \<le> v"
    using unsigned_less [where 'a = int, of v] order_trans [of "- (2 ^ 31)" 0 "uint v"]
    by (simp add: sint_cases word_less_def word_le_def)
  finally show ?thesis .
qed

lemma through_int_small: "v < 0x80000000 \<Longrightarrow> through_int v = v"
  by (simp add: through_int_exact)

text \<open>A clone of any length; only a length that survives the conversion to \<open>int\<close> is passed on unchanged.\<close>

lemma decode_enc_clone:
  assumes "holds s (map_of (rev (snd (enc_call (Clone p off len cu cc cp co)))))" and "cmd s = 16"
    and "0 \<notin> set p" and "0 \<notin> set cp" and "length cu = 16" and "\<forall>a. mem a"
  shows "decode_call mem s = ROk (Some (Clone p off (through_int len) cu cc cp co))"
  using assms by (auto simp: decode_call_def Let_def attr_string attr_u64 attr_uuid)

lemma decode_enc_call:
  assumes "holds s (map_of (rev (snd (enc_call call))))" and "cmd s = fst (enc_call call)"
    and "call_args_ok call" and "\<forall>a. mem a"
  shows "decode_call mem s = ROk (Some call)"
  using assms
  by (cases call) (auto simp: decode_call_def Let_def attr_string attr_u64 attr_uuid attr_timespec attr_data through_int_small)

section \<open>The loop over the commands\<close>

lemma process_enc:
  assumes "plain_fd (fd s)" and "call_ok call" and "\<forall>a. mem a"
    and "fd_bytes (fd s) = enc_cmd (fst (enc_call call)) (snd (enc_call call)) @ rest"
  shows "\<exists>s'. read_and_process_cmd ops mem s = Some (fst (ops call (user s)), s') \<and> plain_fd (fd s') \<and>
    fd_bytes (fd s') = rest \<and> user s' = snd (ops call (user s))"
proof -
  have c: "fst (enc_call call) < 65536" "fst (enc_call call) \<noteq> 21" by (cases call; simp)+
  obtain s' where s': "read_cmd s = Some (0, s')" "cmd s' = fst (enc_call call)" "plain_fd (fd s')" "fd_bytes (fd s') = rest"
    "user s' = user s" "holds s' (map_of (rev (snd (enc_call call))))"
    using read_cmd_enc [OF assms(1) _ c(1) assms(4)] assms(2) by (auto simp: call_ok_def)
  have "decode_call mem s' = ROk (Some call)"
    using decode_enc_call [OF s'(6,2)] assms(2,3) by (simp add: call_ok_def)
  then show ?thesis using s' c(2) by (simp add: read_and_process_cmd_def case_prod_unfold Let_def)
qed

definition enc_end :: "u8 list" where
  "enc_end = enc_cmd 21 []"

definition enc_calls :: "send_call list \<Rightarrow> u8 list" where
  "enc_calls calls = concat (map (\<lambda>call. enc_cmd (fst (enc_call call)) (snd (enc_call call))) calls)"

definition enc_header :: "u32 \<Rightarrow> u8 list" where
  "enc_header ver = BTRFS_SEND_STREAM_MAGIC @ le_enc 4 (unat ver)"

text \<open>The user state after a sequence of callbacks that all return zero.\<close>

definition run_calls :: "(send_call \<Rightarrow> 'u \<Rightarrow> int \<times> 'u) \<Rightarrow> send_call list \<Rightarrow> 'u \<Rightarrow> 'u" where
  "run_calls ops calls u = fold (\<lambda>call u. snd (ops call u)) calls u"

lemma stream_loop_calls:
  assumes "plain_fd (fd s)" and "\<forall>call\<in>set calls. call_ok call \<and> (\<forall>u. fst (ops call u) = 0)" and "\<forall>a. mem a"
    and "fd_bytes (fd s) = enc_calls calls @ rest"
  shows "\<exists>s'. stream_loop ops mem h mx s e l = stream_loop ops mem h mx s' e l \<and> plain_fd (fd s') \<and>
    fd_bytes (fd s') = rest \<and> user s' = run_calls ops calls (user s)"
  using assms
proof (induction calls arbitrary: s)
  case Nil
  then show ?case by (auto simp: enc_calls_def run_calls_def)
next
  case (Cons call calls)
  obtain s1 where s1: "read_and_process_cmd ops mem s = Some (0, s1)" "plain_fd (fd s1)"
    "fd_bytes (fd s1) = enc_calls calls @ rest" "user s1 = snd (ops call (user s))"
    using process_enc [of s call mem "enc_calls calls @ rest" ops] Cons.prems by (auto simp: enc_calls_def)
  have "stream_loop ops mem h mx s e l = stream_loop ops mem h mx s1 e l"
    by (subst stream_loop.simps) (simp add: s1(1))
  moreover obtain s' where "stream_loop ops mem h mx s1 e l = stream_loop ops mem h mx s' e l" "plain_fd (fd s')"
    "fd_bytes (fd s') = rest" "user s' = run_calls ops calls (user s1)"
    using Cons.IH [OF s1(2) _ Cons.prems(3) s1(3)] Cons.prems(2) by auto
  ultimately show ?case using s1(4) by (auto simp: run_calls_def)
qed

lemma stream_loop_end:
  assumes "plain_fd (fd s)" and "fd_bytes (fd s) = enc_end @ rest"
  shows "\<exists>s'. stream_loop ops mem h mx s e l = Some (Returned (stream_out (if h then 1 else 0) l, s')) \<and>
    fd_bytes (fd s') = rest \<and> user s' = user s"
proof -
  obtain s' where "read_cmd s = Some (0, s')" "cmd s' = 21" "fd_bytes (fd s') = rest" "user s' = user s"
    using read_cmd_enc [of s "[]" 21 rest] assms by (auto simp: attrs_ok_def enc_end_def)
  then show ?thesis by (subst stream_loop.simps) (simp add: read_and_process_cmd_def)
qed

lemma plain_fd_empty: "plain_fd f \<Longrightarrow> fd_bytes f = [] \<Longrightarrow> f = []"
  by (cases f rule: fd_bytes.cases) auto

lemma stream_header:
  assumes "plain_fd (fd s)" and "ver \<le> 1" and "fd_bytes (fd s) = enc_header ver @ rest"
  shows "\<exists>s'. btrfs_read_and_process_send_stream ops mem s h mx = stream_loop ops mem h mx s' 0 0 \<and>
    plain_fd (fd s') \<and> fd_bytes (fd s') = rest \<and> user s' = user s"
proof -
  have len: "length (enc_header ver) = 17" by (simp add: enc_header_def BTRFS_SEND_STREAM_MAGIC_def)
  obtain f where f: "plain_fd f" "fd_bytes f = rest"
    "read_buf (s\<lparr>stream_pos := 0\<rparr>) 17 = (0, enc_header ver, s\<lparr>fd := f, stream_pos := 17\<rparr>)"
    using read_buf_plain [of "s\<lparr>stream_pos := 0\<rparr>" 17] assms len by auto
  have "unat ver < 256 ^ 4" using unsigned_less [where 'a = nat, of ver] by simp
  then have "take 13 (enc_header ver) = BTRFS_SEND_STREAM_MAGIC" "of_nat (le_bytes (drop 13 (enc_header ver))) = ver"
    by (simp_all add: enc_header_def BTRFS_SEND_STREAM_MAGIC_def)
  then show ?thesis using f leD [OF assms(2)]
    by (intro exI [of _ "s\<lparr>fd := f, stream_pos := 17, version := ver\<rparr>"])
      (simp add: btrfs_read_and_process_send_stream_def Let_def)
qed

text \<open>At the end of the file every command fails and nothing changes, so without a limit the loop goes on.\<close>

lemma read_at_eof:
  assumes "fd s = []"
  shows "\<exists>s'. read_and_process_cmd ops mem s = Some (-EINVAL, s') \<and> fd s' = []"
  using assms by (auto simp: read_and_process_cmd_def read_cmd_def read_buf_def numeral_eq_Suc)

lemma stream_loop_eof:
  assumes "stream_loop ops mem h mx s e l = Some r" and "mx = 0"
  shows "fd s \<noteq> []"
proof -
  have "mx = 0 \<longrightarrow> fd s \<noteq> []"
  proof (rule stream_loop.raw_induct [OF _ assms(1), where P = "\<lambda>ops mem h mx s e l r. mx = 0 \<longrightarrow> fd s \<noteq> []"])
    fix loop :: "(send_call \<Rightarrow> 'a \<Rightarrow> int \<times> 'a) \<Rightarrow> (nat \<Rightarrow> bool) \<Rightarrow> bool \<Rightarrow> u64 \<Rightarrow> 'a btrfs_send_stream \<Rightarrow> u64 \<Rightarrow> int \<Rightarrow>
      (int \<times> 'a btrfs_send_stream) run option"
    fix ops :: "send_call \<Rightarrow> 'a \<Rightarrow> int \<times> 'a" and mem h mx e l r and s :: "'a btrfs_send_stream"
    assume IH: "\<And>ops mem h mx s e l r. loop ops mem h mx s e l = Some r \<Longrightarrow> mx = 0 \<longrightarrow> fd s \<noteq> []"
      and r: "(case read_and_process_cmd ops mem s of None \<Rightarrow> Some Crashed
        | Some (ret, s) \<Rightarrow>
            if ret < 0 then
              (if 0 < mx \<and> mx \<le> e + 1 then Some (Returned (stream_out ret ret, s)) else loop ops mem h mx s (e + 1) ret)
            else if 0 < ret then Some (Returned (stream_out (if h then ret else 0) l, s)) else loop ops mem h mx s e l) = Some r"
    show "mx = 0 \<longrightarrow> fd s \<noteq> []"
    proof (intro impI notI)
      assume "mx = 0" and "fd s = []"
      with r read_at_eof [of s ops mem] IH show False by fastforce
    qed
  qed
  with assms(2) show ?thesis by simp
qed

text \<open>Every command takes something out of the file, so that with a limit on the errors the loop ends.\<close>

fun fd_size :: "stream_fd \<Rightarrow> nat" where
  "fd_size [] = 0"
| "fd_size (Inl e # f) = Suc (fd_size f)"
| "fd_size (Inr bs # f) = Suc (length bs + fd_size f)"

lemma read_buf_loop_size:
  "read_buf_loop f len got = (r, got', f') \<Longrightarrow>
     fd_size f' \<le> fd_size f \<and> (isl r \<or> r = Inr 0 \<and> 0 < len \<longrightarrow> fd_size f' < fd_size f)"
proof (induction f len got rule: read_buf_loop.induct)
  case (4 bs f len got)
  then show ?case by (fastforce split: if_splits)
qed auto

lemma read_buf_size:
  assumes "read_buf s len = (r, got, s')"
  shows "fd_size (fd s') \<le> fd_size (fd s)" and "r = 0 \<Longrightarrow> 0 < len \<Longrightarrow> fd_size (fd s') < fd_size (fd s)"
  using read_buf_loop_size [of "fd s" len "[]"] assms
  by (auto simp: read_buf_def split: sum.splits if_splits prod.splits)

lemma read_cmd_size:
  assumes "read_cmd s = Some (r, s')"
  shows "fd_size (fd s') \<le> fd_size (fd s)" and "r = 0 \<Longrightarrow> fd_size (fd s') < fd_size (fd s)"
proof -
  let ?s = "s\<lparr>cmd_attrs := \<lambda>_. None\<rparr>"
  obtain r1 hdr s1 where 1: "read_buf ?s sizeof_cmd_header = (r1, hdr, s1)" by (metis prod_cases3)
  let ?s2 = "s1\<lparr>rbuf := store_bytes (rbuf s1) 0 hdr\<rparr>" and ?n = "le_bytes (buf_slice (store_bytes (rbuf s1) 0 hdr) 0 4)"
  obtain r2 dat s3 where 2: "read_buf ?s2 ?n = (r2, dat, s3)" by (metis prod_cases3)
  note sz = read_buf_size [OF 1] read_buf_size [OF 2]
  have "fd s' = fd s1 \<and> r \<noteq> 0 \<or> fd s' = fd s3 \<and> r1 = 0"
    using assms by (auto simp: read_cmd_def 1 2 Let_def split: if_splits option.splits)
  then show "fd_size (fd s') \<le> fd_size (fd s)" and "r = 0 \<Longrightarrow> fd_size (fd s') < fd_size (fd s)" using sz by auto
qed

lemma process_size:
  assumes "read_and_process_cmd ops mem s = Some (r, s')"
  shows "fd_size (fd s') \<le> fd_size (fd s)" and "r = 0 \<Longrightarrow> fd_size (fd s') < fd_size (fd s)"
  using assms read_cmd_size [of s]
  by (fastforce simp: read_and_process_cmd_def Let_def split: option.splits if_splits res.splits prod.splits)+

lemma stream_loop_ends:
  assumes "e < mx"
  shows "\<exists>r. stream_loop ops mem h mx s e l = Some r"
  using assms
proof (induction "unat mx - unat e + fd_size (fd s)" arbitrary: s e l rule: less_induct)
  case less
  show ?case
  proof (cases "read_and_process_cmd ops mem s")
    case None
    then show ?thesis by (subst stream_loop.simps) simp
  next
    case (Some a)
    obtain ret s' where a: "a = (ret, s')" by force
    note sz = process_size [OF Some [unfolded a]]
    have e: "unat e < unat mx" using less.prems by (simp add: word_less_nat_alt)
    then have e1: "unat (e + 1) = Suc (unat e)" using unsigned_less [where 'a = nat, of mx]
      by (simp add: unat_word_ariths)
    consider "ret < 0" "mx \<le> e + 1" | "ret < 0" "e + 1 < mx" | "ret = 0" | "0 < ret" by fastforce
    then show ?thesis
    proof cases
      case 2
      then have "\<exists>r. stream_loop ops mem h mx s' (e + 1) ret = Some r"
        using sz e e1 by (intro less.hyps) auto
      then show ?thesis using 2 by (subst stream_loop.simps) (simp add: Some a)
    next
      case 3
      then have "\<exists>r. stream_loop ops mem h mx s' e l = Some r" using sz e less.prems by (intro less.hyps) auto
      then show ?thesis using 3 by (subst stream_loop.simps) (simp add: Some a)
    next
      case 1
      moreover have "0 < mx" using less.prems by (metis word_gt_0 word_not_simps(1))
      ultimately show ?thesis by (subst stream_loop.simps) (simp add: Some a)
    next
      case 4
      then show ?thesis by (subst stream_loop.simps) (simp add: Some a)
    qed
  qed
qed

section \<open>Properties\<close>

text \<open>
  C26. A stream that consists of the header (version 0 or 1), the encodings of well-formed calls and
  the end command, read in pieces of whatever size, calls the callbacks exactly once for each
  encoded call, in the order of the stream and with the encoded arguments, as long as they return
  zero; it then returns 1 if the end command is honoured and 0 if not, and has read nothing of what
  follows the end command.
\<close>

theorem send_stream_roundtrip:
  assumes "plain_fd (fd s)" and "ver \<le> 1" and "\<forall>a. mem a"
    and "\<forall>call\<in>set calls. call_ok call \<and> (\<forall>u. fst (ops call u) = 0)"
    and "fd_bytes (fd s) = enc_header ver @ enc_calls calls @ enc_end @ rest"
  shows "\<exists>s'. btrfs_read_and_process_send_stream ops mem s honor max_errors =
      Some (Returned (if honor then 1 else 0, s')) \<and>
    user s' = run_calls ops calls (user s) \<and> fd_bytes (fd s') = rest"
proof -
  obtain s1 where s1: "plain_fd (fd s1)" "fd_bytes (fd s1) = enc_calls calls @ enc_end @ rest" "user s1 = user s"
    "btrfs_read_and_process_send_stream ops mem s honor max_errors = stream_loop ops mem honor max_errors s1 0 0"
    using stream_header [OF assms(1,2,5)] by blast
  from stream_loop_calls [OF s1(1) assms(4,3) s1(2), of honor max_errors 0 0] obtain s2 where s2: "plain_fd (fd s2)" "fd_bytes (fd s2) = enc_end @ rest"
    "user s2 = run_calls ops calls (user s1)"
    "stream_loop ops mem honor max_errors s1 0 0 = stream_loop ops mem honor max_errors s2 0 0"
    by blast
  from stream_loop_end [OF s2(1,2), of ops mem honor max_errors 0 0] show ?thesis using s1 s2 by (auto simp: stream_out_def)
qed

text \<open>
  C40. A stream that ends after complete commands but without an end command, as a truncated one does,
  is never left when the number of errors is not limited: the call does not return.
\<close>

theorem send_stream_truncated_hangs:
  assumes "plain_fd (fd s)" and "ver \<le> 1" and "\<forall>a. mem a"
    and "\<forall>call\<in>set calls. call_ok call \<and> (\<forall>u. fst (ops call u) = 0)"
    and "fd_bytes (fd s) = enc_header ver @ enc_calls calls"
  shows "btrfs_read_and_process_send_stream ops mem s honor 0 = None"
proof -
  obtain s1 where s1: "plain_fd (fd s1)" "fd_bytes (fd s1) = enc_calls calls"
    "btrfs_read_and_process_send_stream ops mem s honor 0 = stream_loop ops mem honor 0 s1 0 0"
    using stream_header [OF assms(1,2,5)] by blast
  from stream_loop_calls [OF s1(1) assms(4,3), of "[]" honor 0 0 0] s1(2) obtain s2 where "plain_fd (fd s2)" "fd_bytes (fd s2) = []"
    "stream_loop ops mem honor 0 s1 0 0 = stream_loop ops mem honor 0 s2 0 0"
    by auto
  moreover from this(1,2) have "fd s2 = []" by (rule plain_fd_empty)
  ultimately show ?thesis using s1(3) stream_loop_eof [of ops mem honor 0 s2 0 0] by (cases "stream_loop ops mem honor 0 s2 0 0") auto
qed

text \<open>
  C29. With a limit on the number of errors the call always returns (or stops at a read outside of the
  buffer), whatever the file, the callbacks and the allocator do.
\<close>

theorem send_stream_terminates:
  assumes "0 < max_errors"
  shows "\<exists>r. btrfs_read_and_process_send_stream ops mem s honor max_errors = Some r"
  using stream_loop_ends [OF assms] by (auto simp: btrfs_read_and_process_send_stream_def Let_def split: prod.splits)

text \<open>
  A command is accepted only if it is complete, fits into the buffer and its checksum is the
  bitwise CRC-32C of the command with a zeroed checksum field; exactly its bytes are consumed.
\<close>

theorem read_cmd_checksum:
  assumes "plain_fd (fd s)" and "read_cmd s = Some (0, s')"
  shows "frame_complete (fd_bytes (fd s)) \<and>
    frame_crc (fd_bytes (fd s)) = crc32c_ref 0 (frame_summed (fd_bytes (fd s))) \<and>
    fd_bytes (fd s') = drop (sizeof_cmd_header + frame_len (fd_bytes (fd s))) (fd_bytes (fd s))"
  using read_cmd_accepts [OF assms] by (simp add: crc32c_le_ref)

definition ex_stream :: "u8 list \<Rightarrow> send_call list btrfs_send_stream" where
  "ex_stream bytes = \<lparr>fd = [Inr (take 3 bytes), Inr (drop 3 bytes)], rbuf = \<lambda>_. 0, cmd = 0, cmd_attrs = \<lambda>_. None,
     version = 0, stream_pos = 0, user = []\<rparr>"

definition ex_calls :: "send_call list" where
  "ex_calls = [Mkfile [97], Write [97] [1, 2, 3] 0 3, Truncate [97] 2]"

definition log_call :: "send_call \<Rightarrow> send_call list \<Rightarrow> int \<times> send_call list" where
  "log_call call u = (0, u @ [call])"

lemma ex_calls_ok: "\<forall>call\<in>set ex_calls. call_ok call \<and> (\<forall>u. fst (log_call call u) = 0)"
  by (simp add: ex_calls_def call_ok_def attrs_ok_def log_call_def)

lemma ex_stream_ok: "3 < length bytes \<Longrightarrow> plain_fd (fd (ex_stream bytes)) \<and> fd_bytes (fd (ex_stream bytes)) = bytes"
  by (auto simp: ex_stream_def)

lemma length_enc_header [simp]: "length (enc_header ver) = 17"
  by (simp add: enc_header_def BTRFS_SEND_STREAM_MAGIC_def)

theorem send_stream_roundtrip_witness:
  "\<exists>s'. btrfs_read_and_process_send_stream log_call (\<lambda>_. True)
      (ex_stream (enc_header 1 @ enc_calls ex_calls @ enc_end @ [])) True 1 = Some (Returned (1, s')) \<and> user s' = ex_calls"
proof -
  let ?s = "ex_stream (enc_header 1 @ enc_calls ex_calls @ enc_end @ [])"
  have "run_calls log_call ex_calls [] = ex_calls" by (simp add: run_calls_def log_call_def ex_calls_def)
  then show ?thesis
    using send_stream_roundtrip [of ?s 1 "\<lambda>_. True" ex_calls log_call "[]" True 1] ex_calls_ok
      ex_stream_ok [of "enc_header 1 @ enc_calls ex_calls @ enc_end @ []"]
    by (auto simp: ex_stream_def)
qed

theorem send_stream_truncated_hangs_witness:
  "btrfs_read_and_process_send_stream log_call (\<lambda>_. True) (ex_stream (enc_header 1 @ enc_calls ex_calls)) True 0 = None"
  using send_stream_truncated_hangs [of _ 1 "\<lambda>_. True" ex_calls log_call] ex_calls_ok
    ex_stream_ok [of "enc_header 1 @ enc_calls ex_calls"] by auto

theorem send_stream_terminates_witness:
  "\<exists>r. btrfs_read_and_process_send_stream log_call (\<lambda>_. True) (ex_stream (enc_header 1)) True 1 = Some r"
  by (rule send_stream_terminates) simp

theorem read_cmd_checksum_witness:
  "\<exists>s'. read_cmd (ex_stream enc_end) = Some (0, s') \<and> frame_crc enc_end = crc32c_ref 0 (frame_summed enc_end)"
proof -
  have b: "plain_fd (fd (ex_stream enc_end))" "fd_bytes (fd (ex_stream enc_end)) = enc_end"
    using ex_stream_ok [of enc_end] by (simp_all add: enc_end_def enc_cmd_def enc_frame_def Let_def)
  obtain s' where s': "read_cmd (ex_stream enc_end) = Some (0, s')"
    using read_cmd_enc [of "ex_stream enc_end" "[]" 21 "[]"] b by (auto simp: attrs_ok_def enc_end_def)
  with read_cmd_checksum [OF b(1) s'] show ?thesis by (simp add: b(2))
qed

text \<open>
  The length of an attribute is not compared with the end of the command or of the buffer: a
  command with a correct checksum makes the reader copy a path from behind its buffer.
\<close>

theorem read_cmd_overrun:
  assumes "plain_fd (fd s)" and "fd_bytes (fd s) = enc_frame 3 [15, 0, 255, 255] @ rest" and "mem A_PATH"
  shows "read_and_process_cmd ops mem s = None"
proof -
  have "length [15, 0, 255, 255 :: u8] + sizeof_cmd_header < BTRFS_SEND_BUF_SIZE" "(3 :: nat) < 65536" by simp_all
  from read_cmd_enc_frame [OF assms(1) this assms(2)] obtain s5 where
    s5: "buf_slice (rbuf s5) sizeof_cmd_header 4 = [15, 0, 255, 255]"
    and r: "read_cmd s = (case tlv_loop (rbuf s5) 4 0 (\<lambda>_. None) of None \<Rightarrow> None
         | Some (r, attrs) \<Rightarrow> if r \<noteq> 0 then Some (r, s5\<lparr>cmd_attrs := attrs\<rparr>)
             else Some (0, s5\<lparr>cmd_attrs := attrs, cmd := 3\<rparr>))"
    by (auto simp: eval_nat_numeral)
  have sl: "buf_slice (rbuf s5) sizeof_cmd_header 2 = [15, 0]" "buf_slice (rbuf s5) 12 2 = [255, 255]"
    using s5 buf_slice_add [of "rbuf s5" sizeof_cmd_header 2 2] by (auto simp: buf_slice_def eval_nat_numeral)
  have t: "tlv_loop (rbuf s5) 4 0 (\<lambda>_. None) = Some (0, (\<lambda>_. None)(15 := Some sizeof_cmd_header))"
    by (subst tlv_loop.simps, simp add: sl) (subst tlv_loop.simps, simp)
  show ?thesis using assms(3) sl(2)
    by (simp add: read_and_process_cmd_def r t decode_call_def tlv_get_string_def tlv_get_def tlv_data_def Let_def)
qed

theorem read_cmd_overrun_witness:
  "read_and_process_cmd log_call (\<lambda>_. True) (ex_stream (enc_frame 3 [15, 0, 255, 255])) = None"
proof (rule read_cmd_overrun)
  show "plain_fd (fd (ex_stream (enc_frame 3 [15, 0, 255, 255])))"
    "fd_bytes (fd (ex_stream (enc_frame 3 [15, 0, 255, 255]))) = enc_frame 3 [15, 0, 255, 255] @ []"
    using ex_stream_ok [of "enc_frame 3 [15, 0, 255, 255]"] by (simp_all add: enc_frame_def Let_def)
qed simp

text \<open>
  The length of a clone goes through a 32-bit \<open>int\<close>: whatever length \<open>len\<close> the stream says, the
  callback gets \<open>through_int len\<close>, and that is \<open>len\<close> exactly if \<open>len\<close> is below 2 GiB or is the sign
  extension of a negative \<open>int\<close>.
\<close>

theorem clone_length_truncated:
  assumes "plain_fd (fd s)" and "\<forall>a. mem a" and "0 \<notin> set p" and "0 \<notin> set cp" and "length cu = 16"
    and "attrs_ok (snd (enc_call (Clone p off len cu cc cp co)))"
    and "fd_bytes (fd s) = enc_cmd 16 (snd (enc_call (Clone p off len cu cc cp co))) @ rest"
  shows "\<exists>s'. read_and_process_cmd ops mem s =
      Some (fst (ops (Clone p off (through_int len) cu cc cp co) (user s)), s') \<and>
    (through_int len = len \<longleftrightarrow> len < 0x80000000 \<or> 0xFFFFFFFF80000000 \<le> len)"
proof -
  obtain s' where s': "read_cmd s = Some (0, s')" "cmd s' = 16" "user s' = user s"
    "holds s' (map_of (rev (snd (enc_call (Clone p off len cu cc cp co)))))"
    using read_cmd_enc [OF assms(1,6) _ assms(7)] by auto
  with decode_enc_clone [OF s'(4,2) assms(3-5,2)] show ?thesis
    by (simp add: read_and_process_cmd_def case_prod_unfold Let_def through_int_exact)
qed

theorem clone_length_truncated_witness:
  "\<exists>s'. read_and_process_cmd (\<lambda>call u. (case call of Clone _ _ len _ _ _ _ \<Rightarrow> uint len | _ \<Rightarrow> -1, u)) (\<lambda>_. True)
      (ex_stream (enc_cmd 16 (snd (enc_call (Clone [97] 0 0x100000001 (replicate 16 0) 0 [98] 0))))) = Some (1, s')"
proof -
  let ?call = "Clone [97] 0 0x100000001 (replicate 16 0) 0 [98] 0"
  let ?bytes = "enc_cmd 16 (snd (enc_call ?call))"
  have b: "plain_fd (fd (ex_stream ?bytes))" "fd_bytes (fd (ex_stream ?bytes)) = ?bytes @ []"
    using ex_stream_ok [of ?bytes] by (simp_all add: enc_cmd_def enc_frame_def Let_def)
  have "through_int 0x100000001 = 1" by (simp add: through_int_def)
  then show ?thesis
    using clone_length_truncated [OF b(1) _ _ _ _ _ b(2),
        of "\<lambda>_. True" "\<lambda>call u. (case call of Clone _ _ len _ _ _ _ \<Rightarrow> uint len | _ \<Rightarrow> -1, u)"]
    by (simp add: attrs_ok_def)
qed

end
