(* ===== verification/Gf256.thy ===== *)
theory Gf256
  imports Prelude
begin

unbundle bit_operations_syntax

text \<open>
  The field with 256 elements behind RAID-6: \<open>kernel-lib/mktables.c\<close>, which computes the tables, and
  the tables of powers and inverses of \<open>kernel-lib/tables.c\<close>, its output. The table of products
  \<open>raid6_gfmul\<close> (65536 entries) is the function \<open>gfmul\<close> that fills it.

  Shown: \<open>gfmul\<close> is the product of a field in which addition is \<open>XOR\<close>, 2 generates the nonzero
  elements, and the tables hold what \<open>main\<close> of \<open>mktables.c\<close> computes.
\<close>

section \<open>The generator of the tables\<close>

lemma drop_bit_1_less: "b \<noteq> 0 \<Longrightarrow> unat (drop_bit 1 b) < unat (b :: u8)"
  by (simp add: drop_bit_Suc unat_div unat_eq_zero unat_gt_0)

function gfmul_loop :: "u8 \<Rightarrow> u8 \<Rightarrow> u8 \<Rightarrow> u8" where
  "gfmul_loop v a b =
     (if b \<noteq> 0 then
        let v' = (if b AND 1 \<noteq> 0 then v XOR a else v);
            a' = push_bit 1 a XOR (if a AND 0x80 \<noteq> 0 then 0x1d else 0)
        in gfmul_loop v' a' (drop_bit 1 b)
      else v)"
  by pat_completeness auto

termination
  by (relation "measure (\<lambda>(_, _, b). unat b)") (use drop_bit_1_less in auto)

declare gfmul_loop.simps [simp del]

definition gfmul :: "u8 \<Rightarrow> u8 \<Rightarrow> u8" where
  "gfmul a b = gfmul_loop 0 a b"

function gfpow_loop :: "u8 \<Rightarrow> u8 \<Rightarrow> nat \<Rightarrow> u8" where
  "gfpow_loop v a b =
     (if b \<noteq> 0 then gfpow_loop (if odd b then gfmul v a else v) (gfmul a a) (b div 2) else v)"
  by pat_completeness auto

termination
  by (relation "measure (\<lambda>(_, _, b). b)") auto

declare gfpow_loop.simps [simp del]

text \<open>\<open>b %= 255; if (b < 0) b += 255\<close> is the remainder that \<open>mod\<close> gives on integers.\<close>

definition gfpow :: "u8 \<Rightarrow> int \<Rightarrow> u8" where
  "gfpow a b = gfpow_loop 1 a (nat (b mod 255))"

text \<open>The tables that \<open>main\<close> prints.\<close>

fun exptbl_from :: "nat \<Rightarrow> u8 \<Rightarrow> u8 list" where
  "exptbl_from 0 v = []"
| "exptbl_from (Suc n) v = v # exptbl_from n (let w = gfmul v 2 in if w = 1 then 0 else w)"

definition exptbl :: "u8 list" where
  "exptbl = exptbl_from 256 1"

definition invtbl :: "u8 list" where
  "invtbl = map (\<lambda>i. gfpow (of_nat i) 254) [0..<256]"

definition exitbl :: "u8 list" where
  "exitbl = map (\<lambda>i. invtbl ! unat (exptbl ! i XOR 1)) [0..<256]"

section \<open>The tables in the source\<close>

definition raid6_gfexp :: "u8 list" where
  "raid6_gfexp = [
    0x01, 0x02, 0x04, 0x08, 0x10, 0x20, 0x40, 0x80, 0x1d, 0x3a, 0x74, 0xe8, 0xcd, 0x87, 0x13, 0x26,
    0x4c, 0x98, 0x2d, 0x5a, 0xb4, 0x75, 0xea, 0xc9, 0x8f, 0x03, 0x06, 0x0c, 0x18, 0x30, 0x60, 0xc0,
    0x9d, 0x27, 0x4e, 0x9c, 0x25, 0x4a, 0x94, 0x35, 0x6a, 0xd4, 0xb5, 0x77, 0xee, 0xc1, 0x9f, 0x23,
    0x46, 0x8c, 0x05, 0x0a, 0x14, 0x28, 0x50, 0xa0, 0x5d, 0xba, 0x69, 0xd2, 0xb9, 0x6f, 0xde, 0xa1,
    0x5f, 0xbe, 0x61, 0xc2, 0x99, 0x2f, 0x5e, 0xbc, 0x65, 0xca, 0x89, 0x0f, 0x1e, 0x3c, 0x78, 0xf0,
    0xfd, 0xe7, 0xd3, 0xbb, 0x6b, 0xd6, 0xb1, 0x7f, 0xfe, 0xe1, 0xdf, 0xa3, 0x5b, 0xb6, 0x71, 0xe2,
    0xd9, 0xaf, 0x43, 0x86, 0x11, 0x22, 0x44, 0x88, 0x0d, 0x1a, 0x34, 0x68, 0xd0, 0xbd, 0x67, 0xce,
    0x81, 0x1f, 0x3e, 0x7c, 0xf8, 0xed, 0xc7, 0x93, 0x3b, 0x76, 0xec, 0xc5, 0x97, 0x33, 0x66, 0xcc,
    0x85, 0x17, 0x2e, 0x5c, 0xb8, 0x6d, 0xda, 0xa9, 0x4f, 0x9e, 0x21, 0x42, 0x84, 0x15, 0x2a, 0x54,
    0xa8, 0x4d, 0x9a, 0x29, 0x52, 0xa4, 0x55, 0xaa, 0x49, 0x92, 0x39, 0x72, 0xe4, 0xd5, 0xb7, 0x73,
    0xe6, 0xd1, 0xbf, 0x63, 0xc6, 0x91, 0x3f, 0x7e, 0xfc, 0xe5, 0xd7, 0xb3, 0x7b, 0xf6, 0xf1, 0xff,
    0xe3, 0xdb, 0xab, 0x4b, 0x96, 0x31, 0x62, 0xc4, 0x95, 0x37, 0x6e, 0xdc, 0xa5, 0x57, 0xae, 0x41,
    0x82, 0x19, 0x32, 0x64, 0xc8, 0x8d, 0x07, 0x0e, 0x1c, 0x38, 0x70, 0xe0, 0xdd, 0xa7, 0x53, 0xa6,
    0x51, 0xa2, 0x59, 0xb2, 0x79, 0xf2, 0xf9, 0xef, 0xc3, 0x9b, 0x2b, 0x56, 0xac, 0x45, 0x8a, 0x09,
    0x12, 0x24, 0x48, 0x90, 0x3d, 0x7a, 0xf4, 0xf5, 0xf7, 0xf3, 0xfb, 0xeb, 0xcb, 0x8b, 0x0b, 0x16,
    0x2c, 0x58, 0xb0, 0x7d, 0xfa, 0xe9, 0xcf, 0x83, 0x1b, 0x36, 0x6c, 0xd8, 0xad, 0x47, 0x8e, 0x00]"

definition raid6_gfinv :: "u8 list" where
  "raid6_gfinv = [
    0x00, 0x01, 0x8e, 0xf4, 0x47, 0xa7, 0x7a, 0xba, 0xad, 0x9d, 0xdd, 0x98, 0x3d, 0xaa, 0x5d, 0x96,
    0xd8, 0x72, 0xc0, 0x58, 0xe0, 0x3e, 0x4c, 0x66, 0x90, 0xde, 0x55, 0x80, 0xa0, 0x83, 0x4b, 0x2a,
    0x6c, 0xed, 0x39, 0x51, 0x60, 0x56, 0x2c, 0x8a, 0x70, 0xd0, 0x1f, 0x4a, 0x26, 0x8b, 0x33, 0x6e,
    0x48, 0x89, 0x6f, 0x2e, 0xa4, 0xc3, 0x40, 0x5e, 0x50, 0x22, 0xcf, 0xa9, 0xab, 0x0c, 0x15, 0xe1,
    0x36, 0x5f, 0xf8, 0xd5, 0x92, 0x4e, 0xa6, 0x04, 0x30, 0x88, 0x2b, 0x1e, 0x16, 0x67, 0x45, 0x93,
    0x38, 0x23, 0x68, 0x8c, 0x81, 0x1a, 0x25, 0x61, 0x13, 0xc1, 0xcb, 0x63, 0x97, 0x0e, 0x37, 0x41,
    0x24, 0x57, 0xca, 0x5b, 0xb9, 0xc4, 0x17, 0x4d, 0x52, 0x8d, 0xef, 0xb3, 0x20, 0xec, 0x2f, 0x32,
    0x28, 0xd1, 0x11, 0xd9, 0xe9, 0xfb, 0xda, 0x79, 0xdb, 0x77, 0x06, 0xbb, 0x84, 0xcd, 0xfe, 0xfc,
    0x1b, 0x54, 0xa1, 0x1d, 0x7c, 0xcc, 0xe4, 0xb0, 0x49, 0x31, 0x27, 0x2d, 0x53, 0x69, 0x02, 0xf5,
    0x18, 0xdf, 0x44, 0x4f, 0x9b, 0xbc, 0x0f, 0x5c, 0x0b, 0xdc, 0xbd, 0x94, 0xac, 0x09, 0xc7, 0xa2,
    0x1c, 0x82, 0x9f, 0xc6, 0x34, 0xc2, 0x46, 0x05, 0xce, 0x3b, 0x0d, 0x3c, 0x9c, 0x08, 0xbe, 0xb7,
    0x87, 0xe5, 0xee, 0x6b, 0xeb, 0xf2, 0xbf, 0xaf, 0xc5, 0x64, 0x07, 0x7b, 0x95, 0x9a, 0xae, 0xb6,
    0x12, 0x59, 0xa5, 0x35, 0x65, 0xb8, 0xa3, 0x9e, 0xd2, 0xf7, 0x62, 0x5a, 0x85, 0x7d, 0xa8, 0x3a,
    0x29, 0x71, 0xc8, 0xf6, 0xf9, 0x43, 0xd7, 0xd6, 0x10, 0x73, 0x76, 0x78, 0x99, 0x0a, 0x19, 0x91,
    0x14, 0x3f, 0xe6, 0xf0, 0x86, 0xb1, 0xe2, 0xf1, 0xfa, 0x74, 0xf3, 0xb4, 0x6d, 0x21, 0xb2, 0x6a,
    0xe3, 0xe7, 0xb5, 0xea, 0x03, 0x8f, 0xd3, 0xc9, 0x42, 0xd4, 0xe8, 0x75, 0x7f, 0xff, 0x7e, 0xfd]"

definition raid6_gfexi :: "u8 list" where
  "raid6_gfexi = [
    0x00, 0xf4, 0xa7, 0x9d, 0x72, 0xed, 0x5f, 0x54, 0xa0, 0xa9, 0xfb, 0x74, 0x85, 0xe4, 0xc0, 0x8a,
    0x67, 0xdc, 0x26, 0x63, 0xf2, 0xe9, 0xb4, 0xd2, 0x02, 0x8e, 0xba, 0xaa, 0xde, 0x89, 0x57, 0x59,
    0xac, 0x2c, 0x93, 0x09, 0x60, 0x1e, 0xbc, 0xa4, 0xb3, 0x43, 0xeb, 0xda, 0x6a, 0x12, 0xc7, 0x39,
    0x04, 0x69, 0x47, 0x98, 0x3e, 0xd0, 0x23, 0x82, 0x97, 0x7b, 0x52, 0xf6, 0xc5, 0x2f, 0x91, 0x1c,
    0x37, 0xb6, 0x24, 0x35, 0x0b, 0x33, 0x41, 0x9a, 0xb9, 0x5a, 0x49, 0x5d, 0x2a, 0x0c, 0x77, 0xe7,
    0x7f, 0xe2, 0xc8, 0x07, 0xef, 0xd6, 0x87, 0xfe, 0xfd, 0x14, 0x19, 0x9f, 0xcb, 0xaf, 0x28, 0xf0,
    0x10, 0xbe, 0xf8, 0xb0, 0xd8, 0x51, 0x4e, 0x31, 0x3d, 0x80, 0xc3, 0x8d, 0x71, 0x95, 0x17, 0x3a,
    0x1b, 0x4b, 0xe1, 0xcd, 0xd4, 0x6d, 0xa3, 0x44, 0xcf, 0x79, 0x21, 0x65, 0x0f, 0x6f, 0x4d, 0x7d,
    0x7c, 0x4c, 0x6e, 0x0e, 0x64, 0x20, 0x78, 0xce, 0x45, 0xa2, 0x6c, 0xd5, 0xcc, 0xe0, 0x4a, 0x1a,
    0x3b, 0x16, 0x94, 0x70, 0x8c, 0xc2, 0x81, 0x3c, 0x30, 0x4f, 0x50, 0xd9, 0xb1, 0xf9, 0xbf, 0x11,
    0xf1, 0x29, 0xae, 0xca, 0x9e, 0x18, 0x15, 0xfc, 0xff, 0x86, 0xd7, 0xee, 0x06, 0xc9, 0xe3, 0x7e,
    0xe6, 0x76, 0x0d, 0x2b, 0x5c, 0x48, 0x5b, 0xb8, 0x9b, 0x40, 0x32, 0x0a, 0x34, 0x25, 0xb7, 0x36,
    0x1d, 0x90, 0x2e, 0xc4, 0xf7, 0x53, 0x7a, 0x96, 0x83, 0x22, 0xd1, 0x3f, 0x99, 0x46, 0x68, 0x05,
    0x38, 0xc6, 0x13, 0x6b, 0xdb, 0xea, 0x42, 0xb2, 0xa5, 0xbd, 0x1f, 0x61, 0x08, 0x92, 0x2d, 0xad,
    0x58, 0x56, 0x88, 0xdf, 0xab, 0xbb, 0x8f, 0x03, 0xd3, 0xb5, 0xe8, 0xf3, 0x62, 0x27, 0xdd, 0x66,
    0x8b, 0xc1, 0xe5, 0x84, 0x75, 0xfa, 0xa8, 0xa1, 0x55, 0x5e, 0xec, 0x73, 0x9c, 0xa6, 0xf5, 0x01]"

section \<open>Multiplication as a sum over bits\<close>

definition xtime :: "u8 \<Rightarrow> u8" where
  "xtime a = push_bit 1 a XOR (if bit a 7 then 0x1d else 0)"

fun gfm :: "nat \<Rightarrow> u8 \<Rightarrow> u8 \<Rightarrow> u8" where
  "gfm 0 a b = 0"
| "gfm (Suc n) a b = (if bit b 0 then a else 0) XOR gfm n (xtime a) (drop_bit 1 b)"

lemma xtime_xor: "xtime (a XOR b) = xtime a XOR xtime b"
  by (auto simp: xtime_def bit_xor_iff ac_simps push_bit_xor xor.assoc)

lemma xtime_0 [simp]: "xtime 0 = 0"
  by (simp add: xtime_def)

lemma gfm_xor_left: "gfm n (a XOR a') b = gfm n a b XOR gfm n a' b"
  by (induction n arbitrary: a a' b) (auto simp: xtime_xor ac_simps xor.assoc)

lemma gfm_xor_right: "gfm n a (b XOR b') = gfm n a b XOR gfm n a b'"
  by (induction n arbitrary: a b b') (auto simp: bit_xor_iff drop_bit_xor ac_simps xor.assoc)

lemma gfm_0_left [simp]: "gfm n 0 b = 0"
  by (induction n arbitrary: b) auto

lemma gfm_0_right [simp]: "gfm n a 0 = 0"
  by (induction n arbitrary: a) auto

lemma xtime_gfm: "xtime (gfm n a b) = gfm n (xtime a) b"
  by (induction n arbitrary: a b) (auto simp: xtime_xor)

lemma gfm_swap: "gfm n (gfm m c a) b = gfm m (gfm n c b) a"
  by (induction m arbitrary: a c) (auto simp: gfm_xor_left xtime_gfm)

lemma gfm_power:
  "k + n \<le> 8 \<Longrightarrow> gfm n (push_bit k 1) b = push_bit k (take_bit n b)"
proof (induction n arbitrary: k b)
  case (Suc n)
  have step: "gfm n (xtime (push_bit k 1)) (drop_bit 1 b) = push_bit (Suc k) (take_bit n (drop_bit 1 b))"
  proof (cases n)
    case (Suc m)
    then have "k < 7" using Suc.prems by simp
    then have "xtime (push_bit k 1) = push_bit (Suc k) 1"
      by (simp add: xtime_def bit_simps flip: push_bit_push_bit)
    then show ?thesis using Suc.IH [of "Suc k"] Suc.prems by simp
  qed simp
  show ?case
    unfolding gfm.simps step
  proof (intro bit_eqI)
    fix i assume "possible_bit TYPE(8 word) i"
    then have "i < 8" by simp
    show "bit ((if bit b 0 then push_bit k 1 else 0) XOR push_bit (Suc k) (take_bit n (drop_bit 1 b))) i \<longleftrightarrow>
        bit (push_bit k (take_bit (Suc n) b)) i"
      by (cases "i \<le> k") (use \<open>i < 8\<close> in \<open>auto simp: bit_simps Suc_diff_Suc simp del: push_bit_Suc\<close>)
  qed
qed simp

lemma gfmul_loop_gfm: "unat b < 2 ^ n \<Longrightarrow> gfmul_loop v a b = v XOR gfm n a b"
proof (induction n arbitrary: v a b)
  case 0
  then show ?case by (simp add: gfmul_loop.simps unat_eq_zero)
next
  case (Suc n)
  have x: "push_bit 1 a XOR (if a AND 0x80 \<noteq> 0 then 0x1d else 0) = xtime a"
  proof -
    have "a AND 0x80 \<noteq> 0 \<longleftrightarrow> bit a 7"
      using bit_iff_and_push_bit_not_eq_0 [of a 7] by simp
    then show ?thesis by (simp add: xtime_def)
  qed
  have "unat (drop_bit 1 b) < 2 ^ n"
    using Suc.prems by (simp add: drop_bit_Suc unat_div)
  then have "gfmul_loop w (xtime a) (drop_bit 1 b) = w XOR gfm n (xtime a) (drop_bit 1 b)" for w
    by (rule Suc.IH)
  moreover have "b AND 1 \<noteq> 0 \<longleftrightarrow> bit b 0"
    by (simp add: and_one_eq bit_0 mod_2_eq_odd)
  ultimately show ?case
    by (subst gfmul_loop.simps, unfold x Let_def) (auto simp: xor.assoc)
qed

lemma gfmul_gfm: "gfmul a b = gfm 8 a b"
proof -
  have "unat b < 2 ^ 8" using unsigned_less [where 'a = nat, of b] by simp
  then have "gfmul_loop 0 a b = 0 XOR gfm 8 a b" by (rule gfmul_loop_gfm)
  then show ?thesis by (simp add: gfmul_def)
qed


section \<open>The field\<close>

lemma gfmul_1_left [simp]: "gfmul 1 a = a"
  using gfm_power [of 0 8 a] by (simp add: gfmul_gfm take_bit_word_eq_self)

lemma gfmul_comm: "gfmul a b = gfmul b a"
proof -
  have "gfmul a b = gfm 8 (gfm 8 1 a) b" using gfmul_1_left [of a] by (simp add: gfmul_gfm)
  also have "\<dots> = gfm 8 (gfm 8 1 b) a" by (rule gfm_swap)
  also have "\<dots> = gfmul b a" using gfmul_1_left [of b] by (simp add: gfmul_gfm)
  finally show ?thesis .
qed

lemma gfmul_assoc: "gfmul (gfmul a b) c = gfmul a (gfmul b c)"
proof -
  have "gfmul (gfmul a b) c = gfmul (gfmul b a) c" by (simp add: gfmul_comm)
  also have "\<dots> = gfmul (gfmul b c) a" by (simp add: gfmul_gfm gfm_swap)
  finally show ?thesis by (simp add: gfmul_comm)
qed

lemma gfmul_left_comm: "gfmul a (gfmul b c) = gfmul b (gfmul a c)"
  by (metis gfmul_assoc gfmul_comm)

lemmas gf_ac = gfmul_assoc gfmul_comm gfmul_left_comm

lemma gfmul_1_right [simp]: "gfmul a 1 = a"
  by (subst gfmul_comm) simp

lemma gfmul_0 [simp]: "gfmul 0 a = 0" "gfmul a 0 = 0"
  by (simp_all add: gfmul_gfm)

lemma gf_distrib:
  "gfmul (a XOR b) c = gfmul a c XOR gfmul b c" "gfmul c (a XOR b) = gfmul c a XOR gfmul c b"
  by (simp_all add: gfmul_gfm gfm_xor_left gfm_xor_right)

lemma gfmul_2: "gfmul v 2 = xtime v"
proof -
  have "gfm 8 v 2 = gfm 8 v (push_bit 1 1)" by simp
  also have "\<dots> = xtime v"
    by (simp add: eval_nat_numeral bit_0 drop_bit_Suc)
  finally show ?thesis by (simp add: gfmul_gfm)
qed

section \<open>Powers\<close>

primrec gf_power :: "u8 \<Rightarrow> nat \<Rightarrow> u8" where
  "gf_power a 0 = 1"
| "gf_power a (Suc n) = gfmul a (gf_power a n)"

lemma gf_power_add: "gf_power a (m + n) = gfmul (gf_power a m) (gf_power a n)"
  by (induction m) (simp_all add: gfmul_assoc)

lemma gf_power_one [simp]: "gf_power 1 n = 1"
  by (induction n) simp_all

lemma gf_power_mult: "gf_power (gf_power a m) n = gf_power a (m * n)"
  by (induction n) (simp_all add: gf_power_add)

lemma gfpow_loop_power: "gfpow_loop v a n = gfmul v (gf_power a n)"
proof (induction v a n rule: gfpow_loop.induct)
  case (1 v a n)
  have sq: "gf_power (gfmul a a) k = gf_power a (2 * k)" for k
    using gf_power_mult [of a 2 k] by (simp add: eval_nat_numeral)
  show ?case
  proof (cases "n = 0")
    case True
    then show ?thesis by (simp add: gfpow_loop.simps)
  next
    case False
    have n: "n = 2 * (n div 2) + n mod 2" by simp
    show ?thesis
    proof (cases "odd n")
      case True
      then have "gf_power a n = gfmul a (gf_power a (2 * (n div 2)))"
        by (metis gf_power.simps(2) odd_two_times_div_two_succ Suc_eq_plus1)
      then show ?thesis
        using 1 [OF False] True by (subst gfpow_loop.simps) (simp add: False sq gfmul_assoc)
    next
      case even: False
      then show ?thesis
        using 1 [OF False] by (subst gfpow_loop.simps) (simp add: False sq)
    qed
  qed
qed

text \<open>Ground terms are evaluated on integers.\<close>

definition int_xtime :: "int \<Rightarrow> int" where
  "int_xtime a = (if a < 128 then 2 * a else (2 * a - 256) XOR 0x1d)"

lemma uint_xtime: "uint (xtime a) = int_xtime (uint a)"
proof -
  have b: "bit a 7 \<longleftrightarrow> 128 \<le> uint a"
  proof -
    have "uint a < 256" using unsigned_less [where 'a = int, of a] by simp
    moreover have "bit a 7 \<longleftrightarrow> odd (uint a div 128)"
      using bit_uint_iff [of a 7] by (simp add: bit_iff_odd)
    moreover have "odd (u div 128) \<longleftrightarrow> 128 \<le> u" if "0 \<le> u" "u < 256" for u :: int
    proof (cases "u < 128")
      case False
      then have "u div 128 = 1" using that by (intro int_div_pos_eq [where r = "u - 128"]) auto
      then show ?thesis using False by simp
    qed (use that in \<open>simp add: div_pos_pos_trivial\<close>)
    ultimately show ?thesis by simp
  qed
  have "uint (push_bit 1 a) = (2 * uint a) mod 256"
    by (simp add: uint_word_ariths ac_simps)
  moreover have "uint a < 256" "0 \<le> uint a" using unsigned_less [where 'a = int, of a] by simp_all
  moreover have "(2 * u) mod 256 = (if u < 128 then 2 * u else 2 * u - 256)" if "0 \<le> u" "u < 256" for u :: int
    using that minus_mod_self2 [of "2 * u" 256] mod_pos_pos_trivial [of "2 * u - 256" 256] by auto
  ultimately have "uint (push_bit 1 a) = (if uint a < 128 then 2 * uint a else 2 * uint a - 256)" by metis
  then show ?thesis using b by (auto simp: xtime_def int_xtime_def unsigned_xor_eq simp del: push_bit_Suc)
qed

lemma int_gfexp_check:
  "map (\<lambda>v. int_xtime (uint v)) (take 254 raid6_gfexp) = map uint (take 254 (tl raid6_gfexp))"
  by (simp add: raid6_gfexp_def int_xtime_def)

lemma gfexp_power: "i < 255 \<Longrightarrow> raid6_gfexp ! i = gf_power 2 i"
proof (induction i)
  case 0
  then show ?case by (simp add: raid6_gfexp_def)
next
  case (Suc i)
  have len: "length raid6_gfexp = 256" by (simp add: raid6_gfexp_def)
  have "uint (raid6_gfexp ! Suc i) = int_xtime (uint (raid6_gfexp ! i))"
    using arg_cong [OF int_gfexp_check, of "\<lambda>xs. xs ! i"] Suc.prems len by (simp add: nth_tl)
  then have "raid6_gfexp ! Suc i = xtime (raid6_gfexp ! i)" by (simp add: word_uint_eq_iff uint_xtime)
  then show ?case using Suc by (simp add: gfmul_comm [of 2] gfmul_2)
qed

lemma gf_power_values:
  "gf_power 2 15 \<noteq> 1" "gf_power 2 51 \<noteq> 1" "gf_power 2 85 \<noteq> 1" "gf_power 2 255 = 1"
proof -
  have "raid6_gfexp ! 15 = 38" "raid6_gfexp ! 51 = 10" "raid6_gfexp ! 85 = 214" "raid6_gfexp ! 254 = 142"
    by (simp_all add: raid6_gfexp_def)
  then show "gf_power 2 15 \<noteq> 1" "gf_power 2 51 \<noteq> 1" "gf_power 2 85 \<noteq> 1"
    by (simp_all flip: gfexp_power)
  have "gf_power 2 (Suc 254) = gfmul 2 142"
    using \<open>raid6_gfexp ! 254 = 142\<close> gfexp_power [of 254] by (simp only: gf_power.simps(2) simp_thms)
  also have "\<dots> = 1"
    by (simp add: gfmul_comm [of 2] gfmul_2 word_uint_eq_iff uint_xtime int_xtime_def)
  finally show "gf_power 2 255 = 1" by simp
qed

lemma gf_power_255_mult [simp]: "gf_power 2 (255 * k) = 1"
  using gf_power_mult [of 2 255 k] by (simp add: gf_power_values)

lemma gf_power_mod: "gf_power 2 (n mod 255) = gf_power 2 n"
proof -
  have "gf_power 2 n = gf_power 2 (255 * (n div 255) + n mod 255)" by simp
  also have "\<dots> = gf_power 2 (n mod 255)" by (subst gf_power_add) simp
  finally show ?thesis ..
qed

text \<open>The order of 2 is 255: it divides 255 and none of the maximal proper divisors.\<close>

lemma gf_order:
  assumes "gf_power 2 d = 1"
  shows "255 dvd d"
proof -
  define g where "g = gcd d 255"
  obtain x y where "255 * x = d * y + g"
    using bezout_nat [of 255 d] by (auto simp: g_def gcd.commute)
  then have "gf_power 2 (d * y + g) = 1" by (metis gf_power_255_mult)
  then have "gf_power 2 g = 1" using assms by (simp add: gf_power_add flip: gf_power_mult)
  then have mult: "gf_power 2 (g * k) = 1" for k by (metis gf_power_mult gf_power_one)
  have "g dvd 255" by (simp add: g_def)
  moreover have "\<not> g dvd 15" "\<not> g dvd 51" "\<not> g dvd 85"
    using mult gf_power_values(1-3) by (auto elim!: dvdE)
  ultimately have "g = 255"
  proof -
    have "g \<in> set (filter (\<lambda>k. k dvd 255) [1..<256])"
      using \<open>g dvd 255\<close> dvd_imp_le [of g 255] by (auto simp: Suc_le_eq intro: dvd_pos_nat [of 255])
    moreover have "filter (\<lambda>k. k dvd 255) [1..<256] = [1, 3, 5, 15, 17, 51, 85, 255::nat]"
      by code_simp
    ultimately show ?thesis
      using \<open>\<not> g dvd 15\<close> \<open>\<not> g dvd 51\<close> \<open>\<not> g dvd 85\<close> by (auto simp del: set_filter)
  qed
  then show ?thesis by (metis g_def gcd_dvd1)
qed

lemma gf_power_unit: "gfmul (gf_power 2 n) (gf_power 2 (254 * n)) = 1"
  using gf_power_add [of 2 n "254 * n"] by (simp flip: mult_Suc)

lemma gf_power_nonzero: "gf_power 2 n \<noteq> 0"
  using gf_power_unit [of n] by auto

lemma gf_power_inj: "inj_on (gf_power 2) {..<255}"
proof -
  have "i = j" if "gf_power 2 i = gf_power 2 j" "i \<le> j" "j < 255" for i j
  proof -
    have "gf_power 2 (j - i) = gfmul (gfmul (gf_power 2 i) (gf_power 2 (254 * i))) (gf_power 2 (j - i))"
      by (simp add: gf_power_unit)
    also have "\<dots> = gfmul (gf_power 2 (254 * i)) (gf_power 2 (i + (j - i)))"
      by (simp only: gf_power_add gf_ac)
    also have "\<dots> = 1" using that gf_power_unit [of i] by (simp add: gfmul_comm)
    finally have "255 dvd j - i" by (rule gf_order)
    moreover have "j - i < 255" using that by simp
    ultimately have "j - i = 0" by (metis nat_dvd_not_less neq0_conv)
    then show ?thesis using that by simp
  qed
  then show ?thesis by (intro inj_onI) (metis lessThan_iff linear)
qed

lemma gf_generator: "a \<noteq> 0 \<Longrightarrow> \<exists>n<255. a = gf_power 2 n"
proof -
  have "gf_power 2 ` {..<255} = UNIV - {0}"
  proof (rule card_subset_eq)
    show "card (gf_power 2 ` {..<255}) = card (UNIV - {0 :: u8})"
      by (simp add: card_image gf_power_inj card_Diff_singleton card_word)
  qed (auto simp: gf_power_nonzero)
  then show "a \<noteq> 0 \<Longrightarrow> \<exists>n<255. a = gf_power 2 n" by blast
qed

lemma gfpow_inverse:
  assumes "a \<noteq> 0"
  shows "gfmul a (gfpow a 254) = 1"
proof -
  from assms obtain n where "a = gf_power 2 n" using gf_generator by blast
  then show ?thesis using gf_power_unit [of n] by (simp add: gfpow_def gfpow_loop_power gf_power_mult ac_simps)
qed

lemma gf_cancel:
  assumes "gfmul a b = gfmul a c" and "a \<noteq> 0"
  shows "b = c"
proof -
  have "gfmul (gfmul a (gfpow a 254)) b = gfmul (gfmul a (gfpow a 254)) c"
    using assms(1) by (simp add: gfmul_assoc gfmul_left_comm [of a])
  then show ?thesis using gfpow_inverse [OF assms(2)] by simp
qed


section \<open>The tables are what the generator prints\<close>

definition exp_step :: "u8 \<Rightarrow> u8" where
  "exp_step v = (let w = gfmul v 2 in if w = 1 then 0 else w)"

lemma exptbl_from_funpow: "exptbl_from n v = map (\<lambda>i. (exp_step ^^ i) v) [0..<n]"
  by (induction n arbitrary: v)
    (simp_all add: map_upt_Suc funpow_swap1 flip: exp_step_def del: upt_Suc)

lemma exp_step_power: "n < 255 \<Longrightarrow> (exp_step ^^ n) 1 = gf_power 2 n"
proof (induction n)
  case (Suc n)
  have "gf_power 2 (Suc n) \<noteq> 1"
    using gf_order [of "Suc n"] Suc.prems dvd_imp_le [of 255 "Suc n"] by linarith
  then show ?case using Suc by (simp add: exp_step_def Let_def gfmul_comm [of _ 2])
qed simp

lemma exptbl_powers: "exptbl = map (gf_power 2) [0..<255] @ [0]"
proof -
  have "(exp_step ^^ Suc 254) 1 = exp_step (gf_power 2 254)"
    by (simp only: funpow.simps comp_apply exp_step_power)
  also have "\<dots> = 0"
    using gf_power_values(4) gf_power.simps(2) [of 2 254] by (simp add: exp_step_def Let_def gfmul_comm [of _ 2])
  finally have last: "(exp_step ^^ 255) 1 = 0" by simp
  have "[0..<256] = [0..<255] @ [255::nat]"
    using upt_Suc_append [of 0 255] by simp
  then show ?thesis
    by (simp add: exptbl_def exptbl_from_funpow exp_step_power last)
qed

fun int_gfm :: "nat \<Rightarrow> int \<Rightarrow> int \<Rightarrow> int" where
  "int_gfm 0 a b = 0"
| "int_gfm (Suc n) a b = (if odd b then a else 0) XOR int_gfm n (int_xtime a) (b div 2)"

lemma uint_gfm: "uint (gfm n a b) = int_gfm n (uint a) (uint b)"
proof (induction n arbitrary: a b)
  case (Suc n)
  have "bit b 0 \<longleftrightarrow> odd (uint b)" using bit_uint_iff [of b 0] by (simp add: bit_0)
  moreover have "uint (drop_bit 1 b) = uint b div 2" by (simp add: drop_bit_Suc uint_div)
  ultimately show ?case using Suc.IH [of "xtime a" "drop_bit 1 b"] by (auto simp: unsigned_xor_eq uint_xtime)
qed simp

lemma int_gfm_numeral:
  "int_gfm n a 0 = 0"
  "int_gfm (Suc n) a 1 = a"
  "int_gfm (Suc n) a (numeral (Num.Bit0 m)) = int_gfm n (int_xtime a) (numeral m)"
  "int_gfm (Suc n) a (numeral (Num.Bit1 m)) = a XOR int_gfm n (int_xtime a) (numeral m)"
proof -
  show z: "int_gfm n a 0 = 0" for n a by (induction n arbitrary: a) auto
  show "int_gfm (Suc n) a 1 = a" by (simp add: z)
qed simp_all

lemma int_gfm_8: "int_gfm 8 = int_gfm (Suc (Suc (Suc (Suc (Suc (Suc (Suc (Suc 0))))))))"
  by (simp add: eval_nat_numeral)

lemma int_gfexi_check:
  "list_all (\<lambda>(v, e). int_gfm 8 (uint v XOR 1) (uint e) = 1) (tl (zip raid6_gfexp raid6_gfexi))"
  by (simp add: raid6_gfexp_def raid6_gfexi_def int_xtime_def int_gfm_8 int_gfm_numeral del: int_gfm.simps)


lemma int_gfinv_check:
  "list_all (\<lambda>(i, v). int_gfm 8 i (uint v) = 1) (tl (zip (map int [0..<256]) raid6_gfinv))"
  by (simp add: raid6_gfinv_def int_xtime_def upt_conv_Cons int_gfm_8 int_gfm_numeral del: int_gfm.simps)


lemma length_tables [simp]:
  "length raid6_gfexp = 256" "length raid6_gfinv = 256" "length raid6_gfexi = 256"
  by (simp_all add: raid6_gfexp_def raid6_gfinv_def raid6_gfexi_def)

lemma gfexp_exptbl: "raid6_gfexp = exptbl"
proof (rule nth_equalityI)
  fix i assume "i < length raid6_gfexp"
  moreover have "raid6_gfexp ! 255 = 0" by (simp add: raid6_gfexp_def)
  ultimately show "raid6_gfexp ! i = exptbl ! i"
    by (cases "i = 255") (auto simp: exptbl_powers nth_append gfexp_power)
qed (simp add: exptbl_powers)

lemma gfmul_int_check: "int_gfm 8 (uint a) (uint b) = 1 \<Longrightarrow> gfmul a b = 1"
  using uint_gfm [of 8 a b] by (simp add: gfmul_gfm word_uint_eq_iff)

lemma gf_inverse_unique: "gfmul a b = 1 \<Longrightarrow> gfpow a 254 = b"
  by (rule gf_cancel [of a]) (auto simp: gfpow_inverse intro!: gfpow_inverse)

lemma gfpow_0 [simp]: "gfpow 0 254 = 0"
proof -
  have "gf_power 0 (Suc n) = 0" for n by simp
  from this [of 253] show ?thesis by (simp add: gfpow_def gfpow_loop_power)
qed

lemma gfinv_invtbl: "raid6_gfinv = invtbl"
proof (rule nth_equalityI)
  fix i assume i: "i < length raid6_gfinv"
  show "raid6_gfinv ! i = invtbl ! i"
  proof (cases i)
    case 0
    then show ?thesis by (simp add: invtbl_def raid6_gfinv_def)
  next
    case (Suc j)
    have "int_gfm 8 (int i) (uint (raid6_gfinv ! i)) = 1"
      using int_gfinv_check i Suc by (auto simp: list_all_length nth_tl dest!: spec [of _ j])
    then have "gfmul (of_nat i) (raid6_gfinv ! i) = 1"
      using i by (intro gfmul_int_check) (simp add: unsigned_of_nat take_bit_nat_eq_self)
    then show ?thesis using i by (simp add: invtbl_def gf_inverse_unique)
  qed
qed (simp add: invtbl_def)

lemma invtbl_nth: "invtbl ! unat a = gfpow a 254"
  using unsigned_less [where 'a = nat, of a] by (simp add: invtbl_def)

lemma gfexi_exitbl: "raid6_gfexi = exitbl"
proof (rule nth_equalityI)
  fix i assume i: "i < length raid6_gfexi"
  show "raid6_gfexi ! i = exitbl ! i"
  proof (cases i)
    case 0
    then show ?thesis by (simp add: exitbl_def invtbl_nth exptbl_powers nth_append raid6_gfexi_def)
  next
    case (Suc j)
    have "int_gfm 8 (uint (raid6_gfexp ! i XOR 1)) (uint (raid6_gfexi ! i)) = 1"
      using int_gfexi_check i Suc by (auto simp: list_all_length nth_tl unsigned_xor_eq dest!: spec [of _ j])
    then have "gfpow (raid6_gfexp ! i XOR 1) 254 = raid6_gfexi ! i"
      by (intro gf_inverse_unique gfmul_int_check)
    then show ?thesis using i by (simp add: exitbl_def invtbl_nth gfexp_exptbl)
  qed
qed (simp add: exitbl_def)

section \<open>Inverses\<close>

definition gf_inv :: "u8 \<Rightarrow> u8" where
  "gf_inv a = raid6_gfinv ! unat a"

lemma gf_inv_mult: "a \<noteq> 0 \<Longrightarrow> gfmul a (gf_inv a) = 1"
  by (simp add: gf_inv_def gfinv_invtbl invtbl_nth gfpow_inverse)

lemma gfexi_inv: "i < 255 \<Longrightarrow> raid6_gfexi ! i = gf_inv (gf_power 2 i XOR 1)"
  by (simp add: gfexi_exitbl exitbl_def gf_inv_def gfinv_invtbl exptbl_powers nth_append)

lemma xor_eq_0: "a XOR b = 0 \<longleftrightarrow> a = (b :: 'a::len word)"
proof
  assume "a XOR b = 0"
  then have "(a XOR b) XOR b = 0 XOR b" by simp
  then show "a = b" by (simp add: xor.assoc)
qed simp

lemma gf_power_distinct: "i < j \<Longrightarrow> j < 255 \<Longrightarrow> gf_power 2 i XOR gf_power 2 j \<noteq> 0"
  using gf_power_inj by (auto simp: inj_on_def xor_eq_0)

end
