(* ===== verification/Raid56.thy ===== *)
theory Raid56
  imports Gf256 "HOL-Library.Monad_Syntax"
begin

unbundle bit_operations_syntax

text \<open>
  Parity of RAID-5 and RAID-6 (\<open>kernel-lib/raid56.c\<close>): the computation of P and Q eight bytes at a
  time and the recovery of lost stripes.

  Buffers are the values of a store, an array of pointers is the list of their names, so that the
  code's exchange of pointers is visible. \<open>None\<close> is an access outside of a buffer or of a table.
  \<open>calloc\<close> is an argument: the name of the new buffer, or \<open>None\<close> when there is no memory. The host is
  taken to be a 64-bit little-endian one; on a big-endian one the bytes of a word are in the opposite
  order, and every operation here treats them alike.
\<close>

type_synonym store = "nat \<Rightarrow> u8 list"

definition BTRFS_STRIPE_LEN :: nat where
  "BTRFS_STRIPE_LEN = 65536"

section \<open>Words of eight bytes\<close>

fun le_word :: "u8 list \<Rightarrow> u64" where
  "le_word [] = 0"
| "le_word (b # bs) = ucast b OR push_bit 8 (le_word bs)"

fun word_bytes :: "nat \<Rightarrow> u64 \<Rightarrow> u8 list" where
  "word_bytes 0 w = []"
| "word_bytes (Suc n) w = ucast w # word_bytes n (drop_bit 8 w)"

definition get_unaligned_native :: "u8 list \<Rightarrow> nat \<Rightarrow> u64 option" where
  "get_unaligned_native buf d = (if d + 8 \<le> length buf then Some (le_word (take 8 (drop d buf))) else None)"

definition put_unaligned_native :: "u64 \<Rightarrow> u8 list \<Rightarrow> nat \<Rightarrow> u8 list option" where
  "put_unaligned_native v buf d =
     (if d + 8 \<le> length buf then Some (take d buf @ word_bytes 8 v @ drop (d + 8) buf) else None)"

definition NBYTES :: "u64 \<Rightarrow> u64" where
  "NBYTES x = x * 0x0101010101010101"

definition SHLBYTE :: "u64 \<Rightarrow> u64" where
  "SHLBYTE v = push_bit 1 v AND NBYTES 0xfe"

definition MASK :: "u64 \<Rightarrow> u64" where
  "MASK v = (let vv = v AND NBYTES 0x80 in push_bit 1 vv - drop_bit 7 vv)"

section \<open>P and Q\<close>

text \<open>The inner loop, from \<open>z - 1\<close> down to 0.\<close>

fun syndrome_words :: "store \<Rightarrow> nat list \<Rightarrow> nat \<Rightarrow> nat \<Rightarrow> u64 \<Rightarrow> u64 \<Rightarrow> (u64 \<times> u64) option" where
  "syndrome_words mem dptr d 0 wp0 wq0 = Some (wp0, wq0)"
| "syndrome_words mem dptr d (Suc z) wp0 wq0 =
     do {
       wd0 \<leftarrow> get_unaligned_native (mem (dptr ! z)) d;
       let w20 = MASK wq0 AND NBYTES 0x1d;
       let w10 = SHLBYTE wq0 XOR w20;
       syndrome_words mem dptr d z (wp0 XOR wd0) (w10 XOR wd0)
     }"

function gen_syndrome_loop :: "store \<Rightarrow> nat list \<Rightarrow> nat \<Rightarrow> nat \<Rightarrow> nat \<Rightarrow> nat \<Rightarrow> nat \<Rightarrow> store option" where
  "gen_syndrome_loop mem dptr z0 p q d bytes =
     (if d < bytes then
        do {
          w \<leftarrow> get_unaligned_native (mem (dptr ! z0)) d;
          (wp0, wq0) \<leftarrow> syndrome_words mem dptr d z0 w w;
          pb \<leftarrow> put_unaligned_native wp0 (mem p) d;
          let mem1 = mem(p := pb);
          qb \<leftarrow> put_unaligned_native wq0 (mem1 q) d;
          gen_syndrome_loop (mem1(q := qb)) dptr z0 p q (d + 8) bytes
        }
      else Some mem)"
  by pat_completeness auto

termination
  by (relation "measure (\<lambda>(_, _, _, _, _, d, bytes). bytes - d)") auto

declare gen_syndrome_loop.simps [simp del]

definition raid6_gen_syndrome :: "store \<Rightarrow> int \<Rightarrow> nat \<Rightarrow> nat list \<Rightarrow> store option" where
  "raid6_gen_syndrome mem disks bytes dptr =
     (let z0 = disks - 3 in
      if z0 < 0 then None
      else gen_syndrome_loop mem dptr (nat z0) (dptr ! (nat z0 + 1)) (dptr ! (nat z0 + 2)) 0 bytes)"

section \<open>RAID-5\<close>

text \<open>
  \<open>xor_range\<close>: the bytes up to an address with bit 3 clear, whole words, the remaining bytes. \<open>a\<close> is the
  address of byte \<open>i\<close> of the destination.
\<close>

definition xor_byte :: "u8 list \<Rightarrow> u8 list \<Rightarrow> nat \<Rightarrow> u8 list option" where
  "xor_byte dst src i =
     (if i < length dst \<and> i < length src then Some (dst[i := dst ! i XOR src ! i]) else None)"

fun xor_head :: "u64 \<Rightarrow> u8 list \<Rightarrow> u8 list \<Rightarrow> nat \<Rightarrow> nat \<Rightarrow> (u8 list \<times> nat \<times> nat) option" where
  "xor_head a dst src i 0 = Some (dst, i, 0)"
| "xor_head a dst src i (Suc n) =
     (if a AND 8 \<noteq> 0 then
        do { dst1 \<leftarrow> xor_byte dst src i; xor_head (a + 1) dst1 src (Suc i) n }
      else Some (dst, i, Suc n))"

function xor_words :: "u8 list \<Rightarrow> u8 list \<Rightarrow> nat \<Rightarrow> nat \<Rightarrow> (u8 list \<times> nat \<times> nat) option" where
  "xor_words dst src i n =
     (if n \<ge> 8 then
        do {
          a \<leftarrow> get_unaligned_native dst i;
          b \<leftarrow> get_unaligned_native src i;
          dst1 \<leftarrow> put_unaligned_native (a XOR b) dst i;
          xor_words dst1 src (i + 8) (n - 8)
        }
      else Some (dst, i, n))"
  by pat_completeness auto

termination
  by (relation "measure (\<lambda>(_, _, _, n). n)") auto

declare xor_words.simps [simp del]

fun xor_tail :: "u8 list \<Rightarrow> u8 list \<Rightarrow> nat \<Rightarrow> nat \<Rightarrow> u8 list option" where
  "xor_tail dst src i 0 = Some dst"
| "xor_tail dst src i (Suc n) = do { dst1 \<leftarrow> xor_byte dst src i; xor_tail dst1 src (Suc i) n }"

definition xor_range :: "u64 \<Rightarrow> u8 list \<Rightarrow> u8 list \<Rightarrow> nat \<Rightarrow> u8 list option" where
  "xor_range a dst src n =
     do {
       (dst1, i1, n1) \<leftarrow> xor_head a dst src 0 n;
       (dst2, i2, n2) \<leftarrow> xor_words dst1 src i1 n1;
       xor_tail dst2 src i2 n2
     }"

fun xor_others :: "(nat \<Rightarrow> u64) \<Rightarrow> store \<Rightarrow> nat list \<Rightarrow> nat \<Rightarrow> nat \<Rightarrow> nat list \<Rightarrow> store option" where
  "xor_others addr mem data stripe_len dest [] = Some mem"
| "xor_others addr mem data stripe_len dest (i # is) =
     (if i = dest then xor_others addr mem data stripe_len dest is
      else
        do {
          buf \<leftarrow> xor_range (addr (data ! dest)) (mem (data ! dest)) (mem (data ! i)) stripe_len;
          xor_others addr (mem(data ! dest := buf)) data stripe_len dest is
        })"

text \<open>
  \<open>memcpy\<close> and \<open>memset\<close> over \<open>stripe_len\<close> bytes. The length is an unsigned 64-bit number, so the test
  \<open>stripe_len <= 0\<close> is subsumed by the other one. A negative \<open>dest\<close> is not refused: the access that
  follows is outside of the array.
\<close>

definition raid5_gen_result :: "(nat \<Rightarrow> u64) \<Rightarrow> store \<Rightarrow> int \<Rightarrow> nat \<Rightarrow> int \<Rightarrow> nat list \<Rightarrow> (int \<times> store) option" where
  "raid5_gen_result addr mem nr_devs stripe_len dest data =
     (if stripe_len \<noteq> BTRFS_STRIPE_LEN then Some (- EINVAL, mem)
      else if dest \<ge> nr_devs \<or> nr_devs < 2 then Some (- EINVAL, mem)
      else if dest < 0 then None
      else
        let d = nat dest; buf = mem (data ! d) in
        if length buf < stripe_len then None
        else if nr_devs = 2 then
          let src = mem (data ! (1 - d)) in
          if length src < stripe_len then None
          else Some (0, mem(data ! d := take stripe_len src @ drop stripe_len buf))
        else
          map_option (Pair 0)
            (xor_others addr (mem(data ! d := replicate stripe_len 0 @ drop stripe_len buf))
               data stripe_len d [0..<nat nr_devs]))"

section \<open>RAID-6\<close>

definition table_get :: "u8 list \<Rightarrow> nat \<Rightarrow> u8 option" where
  "table_get t i = (if i < length t then Some (t ! i) else None)"

fun recov_data2_loop :: "u8 \<Rightarrow> u8 \<Rightarrow> store \<Rightarrow> nat \<Rightarrow> nat \<Rightarrow> nat \<Rightarrow> nat \<Rightarrow> nat \<Rightarrow> nat \<Rightarrow> store option" where
  "recov_data2_loop pbmul qmul mem p q dp dq i 0 = Some mem"
| "recov_data2_loop pbmul qmul mem p q dp dq i (Suc n) =
     do {
       pv \<leftarrow> table_get (mem p) i;
       dpv \<leftarrow> table_get (mem dp) i;
       qv \<leftarrow> table_get (mem q) i;
       dqv \<leftarrow> table_get (mem dq) i;
       let px = pv XOR dpv;
       let qx = gfmul qmul (qv XOR dqv);
       let db = gfmul pbmul px XOR qx;
       let mem1 = mem(dq := (mem dq)[i := db]);
       let mem2 = mem1(dp := (mem1 dp)[i := db XOR px]);
       recov_data2_loop pbmul qmul mem2 p q dp dq (Suc i) n
     }"

definition raid6_recov_data2 ::
    "nat option \<Rightarrow> nat option \<Rightarrow> store \<Rightarrow> int \<Rightarrow> nat \<Rightarrow> int \<Rightarrow> int \<Rightarrow> nat list \<Rightarrow> (int \<times> store) option" where
  "raid6_recov_data2 calloc1 calloc2 mem nr_devs stripe_len dest1 dest2 data =
     (if dest1 < 0 \<or> dest1 \<ge> nr_devs - 2 \<or> dest2 < 0 \<or> dest2 \<ge> nr_devs - 2 \<or> dest1 \<ge> dest2
      then Some (- EINVAL, mem)
      else
        (case (calloc1, calloc2) of
           (Some zero_mem1, Some zero_mem2) \<Rightarrow>
             let mem0 = mem(zero_mem1 := replicate stripe_len 0, zero_mem2 := replicate stripe_len 0);
                 d1 = nat dest1; d2 = nat dest2;
                 ip = nat nr_devs - 2; iq = nat nr_devs - 1;
                 p = data ! ip; q = data ! iq; dp = data ! d1; dq = data ! d2;
                 data1 = data[d1 := zero_mem1, ip := dp, d2 := zero_mem2, iq := dq]
             in do {
               mem1 \<leftarrow> raid6_gen_syndrome mem0 nr_devs stripe_len data1;
               pb \<leftarrow> table_get raid6_gfexi (d2 - d1);
               e1 \<leftarrow> table_get raid6_gfexp d1;
               e2 \<leftarrow> table_get raid6_gfexp d2;
               qm \<leftarrow> table_get raid6_gfinv (unat (e1 XOR e2));
               mem2 \<leftarrow> recov_data2_loop pb qm mem1 p q dp dq 0 stripe_len;
               Some (0, mem2)
             }
         | _ \<Rightarrow> Some (- ENOMEM, mem)))"

fun recov_datap_loop :: "u8 \<Rightarrow> store \<Rightarrow> nat \<Rightarrow> nat \<Rightarrow> nat \<Rightarrow> nat \<Rightarrow> nat \<Rightarrow> store option" where
  "recov_datap_loop qmul mem p q dq i 0 = Some mem"
| "recov_datap_loop qmul mem p q dq i (Suc n) =
     do {
       qv \<leftarrow> table_get (mem q) i;
       dqv \<leftarrow> table_get (mem dq) i;
       let d = gfmul qmul (qv XOR dqv);
       let mem1 = mem(dq := (mem dq)[i := d]);
       pv \<leftarrow> table_get (mem1 p) i;
       recov_datap_loop qmul (mem1(p := (mem1 p)[i := pv XOR d])) p q dq (Suc i) n
     }"

definition raid6_recov_datap ::
    "nat option \<Rightarrow> store \<Rightarrow> int \<Rightarrow> nat \<Rightarrow> int \<Rightarrow> nat list \<Rightarrow> (int \<times> store) option" where
  "raid6_recov_datap calloc mem nr_devs stripe_len dest1 data =
     (if nr_devs < 2 \<or> dest1 < 0 then None
      else
        (case calloc of
           None \<Rightarrow> Some (- ENOMEM, mem)
         | Some zero_mem \<Rightarrow>
             let mem0 = mem(zero_mem := replicate stripe_len 0);
                 d1 = nat dest1; ip = nat nr_devs - 2; iq = nat nr_devs - 1;
                 p = data ! ip; q = data ! iq; dq = data ! d1;
                 data1 = data[d1 := zero_mem, iq := dq]
             in do {
               mem1 \<leftarrow> raid6_gen_syndrome mem0 nr_devs stripe_len data1;
               e1 \<leftarrow> table_get raid6_gfexp d1;
               qm \<leftarrow> table_get raid6_gfinv (unat e1);
               mem2 \<leftarrow> recov_datap_loop qm mem1 p q dq 0 stripe_len;
               Some (0, mem2)
             }))"

abbreviation (input) BTRFS_BLOCK_GROUP_RAID5 :: u64 where "BTRFS_BLOCK_GROUP_RAID5 \<equiv> 0x80"
abbreviation (input) BTRFS_BLOCK_GROUP_RAID6 :: u64 where "BTRFS_BLOCK_GROUP_RAID6 \<equiv> 0x100"

definition raid56_recov ::
    "(nat \<Rightarrow> u64) \<Rightarrow> nat option \<Rightarrow> nat option \<Rightarrow> store \<Rightarrow> int \<Rightarrow> nat \<Rightarrow> u64 \<Rightarrow> int \<Rightarrow> int \<Rightarrow> nat list \<Rightarrow> (int \<times> store) option" where
  "raid56_recov addr calloc1 calloc2 mem nr_devs stripe_len profile dest1 dest2 data =
     (let raid5 = profile AND BTRFS_BLOCK_GROUP_RAID5 \<noteq> 0;
          raid6 = profile AND BTRFS_BLOCK_GROUP_RAID6 \<noteq> 0
      in if \<not> raid5 \<and> \<not> raid6 then Some (- EINVAL, mem)
      else if nr_devs < (if raid5 then 2 else 3) then Some (- EINVAL, mem)
      else if dest1 = -1 \<and> dest2 = -1 then Some (0, mem)
      else
        let (d1, d2) = (if dest1 = -1 then (dest2, -1)
                        else if dest2 \<noteq> -1 \<and> dest1 > dest2 then (dest2, dest1) else (dest1, dest2))
        in if raid5 then
             (if d2 \<noteq> -1 then Some (1, mem) else raid5_gen_result addr mem nr_devs stripe_len d1 data)
           else if d2 = -1 then
             (if d1 = nr_devs - 1 \<or> d1 = nr_devs - 2
              then map_option (Pair 0) (raid6_gen_syndrome mem nr_devs stripe_len data)
              else raid5_gen_result addr mem (nr_devs - 1) stripe_len d1 data)
           else if d1 = nr_devs - 2 \<and> d2 = nr_devs - 1
           then map_option (Pair 0) (raid6_gen_syndrome mem nr_devs stripe_len data)
           else if d2 < nr_devs - 2
           then raid6_recov_data2 calloc1 calloc2 mem nr_devs stripe_len d1 d2 data
           else if d2 = nr_devs - 1
           then raid6_recov_datap calloc1 mem nr_devs stripe_len d1 data
           else
             (case raid5_gen_result addr mem (nr_devs - 1) stripe_len d1 data of
                None \<Rightarrow> None
              | Some (ret, mem1) \<Rightarrow>
                  if ret < 0 then Some (ret, mem1)
                  else map_option (Pair 0) (raid6_gen_syndrome mem1 nr_devs stripe_len data)))"


section \<open>Bytes of words\<close>

lemma bit_le_word:
  "bit (le_word bs) n \<longleftrightarrow> n < 64 \<and> n div 8 < length bs \<and> bit (bs ! (n div 8)) (n mod 8)"
proof (induction bs arbitrary: n)
  case (Cons b bs)
  show ?case
  proof (cases "n < 8")
    case True
    then show ?thesis by (auto simp: bit_simps)
  next
    case False
    then obtain m where m: "n = m + 8" by (metis add.commute le_add_diff_inverse not_less)
    then have "bit (le_word (b # bs)) n \<longleftrightarrow> n < 64 \<and> bit (le_word bs) m"
      by (auto simp: bit_simps dest: bit_imp_le_length)
    then show ?thesis using m by (auto simp: Cons.IH div_add_self2 mod_add_self2)
  qed
qed simp

lemma le_word_eqI:
  assumes "length bs = 8" and "\<And>i k. i < 8 \<Longrightarrow> k < 8 \<Longrightarrow> bit w (8 * i + k) \<longleftrightarrow> bit (bs ! i) k"
  shows "w = le_word bs"
proof (rule bit_word_eqI)
  fix n assume "n < LENGTH(64)"
  then have "n div 8 < 8" "n mod 8 < 8" "n < 64" by simp_all
  then have "bit w (8 * (n div 8) + n mod 8) \<longleftrightarrow> bit (bs ! (n div 8)) (n mod 8)" using assms(2) by blast
  then show "bit w n \<longleftrightarrow> bit (le_word bs) n"
    using \<open>n < 64\<close> \<open>n div 8 < 8\<close> assms(1) by (simp add: bit_le_word)
qed

lemma bit_le_word_byte:
  "length bs = 8 \<Longrightarrow> i < 8 \<Longrightarrow> k < 8 \<Longrightarrow> bit (le_word bs) (8 * i + k) \<longleftrightarrow> bit (bs ! i) k"
  by (simp add: bit_le_word)

lemma le_word_bytes: "length bs = 8 \<Longrightarrow> word_bytes 8 (le_word bs) = bs"
proof -
  have "word_bytes n (le_word bs) = bs" if "length bs = n" "n \<le> 8" for n
    using that
  proof (induction bs arbitrary: n)
    case (Cons b bs)
    have "ucast (le_word (b # bs)) = b"
      by (rule bit_word_eqI) (auto simp: bit_simps bit_le_word)
    moreover have "drop_bit 8 (le_word (b # bs)) = le_word bs"
    proof (rule bit_word_eqI)
      fix i assume "i < LENGTH(64)"
      have "i < 56" if "i div 8 < length bs" using that Cons.prems by simp
      then show "bit (drop_bit 8 (le_word (b # bs))) i \<longleftrightarrow> bit (le_word bs) i"
        by (auto simp: bit_simps bit_le_word div_add_self1 mod_add_self1 simp del: le_word.simps)
    qed
    ultimately show ?case using Cons by (cases n) (auto simp del: le_word.simps)
  qed simp
  then show "length bs = 8 \<Longrightarrow> ?thesis" by blast
qed

lemma le_word_xor:
  "length as = 8 \<Longrightarrow> length bs = 8 \<Longrightarrow> le_word as XOR le_word bs = le_word (map2 (XOR) as bs)"
  by (rule le_word_eqI) (simp_all add: bit_simps bit_le_word_byte)

lemma replicate_8: "replicate 8 x = [x, x, x, x, x, x, x, x]"
  by (simp add: eval_nat_numeral)

lemma NBYTES_le_word:
  "NBYTES 0xfe = le_word (replicate 8 0xfe)" "NBYTES 0x80 = le_word (replicate 8 0x80)"
  "NBYTES 0x1d = le_word (replicate 8 0x1d)"
  by (simp_all add: NBYTES_def replicate_8)

lemma le_word_and:
  "length bs = 8 \<Longrightarrow> le_word bs AND le_word (replicate 8 c) = le_word (map (\<lambda>b. b AND c) bs)"
  by (rule le_word_eqI) (simp_all add: bit_simps bit_le_word_byte)

lemma SHLBYTE_le_word:
  assumes "length bs = 8"
  shows "SHLBYTE (le_word bs) = le_word (map (push_bit 1) bs)"
proof (rule le_word_eqI)
  fix i k :: nat assume i: "i < 8" and k: "k < 8"
  have fe: "bit (0xfe :: u8) k \<longleftrightarrow> k \<noteq> 0"
  proof -
    have "(0xfe :: u8) = NOT 1" by simp
    then show ?thesis using k by (simp only: bit_not_iff bit_1_iff possible_bit_word) auto
  qed
  show "bit (SHLBYTE (le_word bs)) (8 * i + k) \<longleftrightarrow> bit (map (push_bit 1) bs ! i) k"
  proof (cases k)
    case 0
    then show ?thesis using assms i fe by (simp add: SHLBYTE_def NBYTES_le_word bit_simps bit_le_word del: push_bit_Suc)
  next
    case (Suc j)
    have "8 * i + k - 1 = 8 * i + j" using Suc by simp
    then show ?thesis
      using assms i k Suc fe bit_le_word_byte [of bs i j] bit_le_word_byte [of "replicate 8 0xfe" i k]
      by (auto simp: SHLBYTE_def NBYTES_le_word bit_simps simp del: push_bit_Suc)
  qed
qed (simp add: assms)

lemma le_word_Cons_sum: "le_word (b # bs) = ucast b + 256 * le_word bs"
proof -
  have "ucast b OR push_bit 8 (le_word bs) = ucast b + push_bit 8 (le_word bs)"
    by (rule disjunctive_add [symmetric]) (auto simp: bit_simps dest: bit_imp_le_length)
  then show ?thesis by (simp add: push_bit_eq_mult)
qed

definition high_mask :: "u8 \<Rightarrow> u8" where
  "high_mask b = (if bit b 7 then 0xff else 0)"

lemma MASK_le_word:
  assumes "length bs = 8"
  shows "MASK (le_word bs) = le_word (map high_mask bs)"
proof -
  define m where "m = le_word (map (\<lambda>b. of_bool (bit b 7)) bs)"
  have vv: "le_word bs AND NBYTES 0x80 = push_bit 7 m"
  proof -
    have "push_bit 7 m = le_word (map (\<lambda>b. b AND 0x80) bs)"
    proof (rule le_word_eqI)
      fix i k :: nat assume i: "i < 8" and k: "k < 8"
      have b80: "bit (0x80 :: u8) k \<longleftrightarrow> k = 7"
      proof -
        have "(0x80 :: u8) = 2 ^ 7" by simp
        then show ?thesis using k by (simp only: bit_exp_iff) auto
      qed
      show "bit (push_bit 7 m) (8 * i + k) \<longleftrightarrow> bit (map (\<lambda>b. b AND 0x80) bs ! i) k"
      proof (cases "k = 7")
        case True
        then show ?thesis
          using assms i b80 bit_le_word_byte [of "map (\<lambda>b. of_bool (bit b 7)) bs" i 0]
          by (simp add: m_def bit_simps bit_0)
      next
        case False
        have "\<not> bit m (8 * i + k - 7)" if "7 \<le> 8 * i + k"
        proof -
          have "8 * i + k - 7 = 8 * (i - 1) + (k + 1)" using that False k by (cases i) auto
          then show ?thesis
            using assms i k False bit_le_word_byte [of "map (\<lambda>b. of_bool (bit b 7)) bs" "i - 1" "k + 1"]
            by (auto simp: m_def bit_simps)
        qed
        then show ?thesis using assms i False b80 by (auto simp: bit_simps)
      qed
    qed (simp add: assms)
    then show ?thesis using assms by (simp add: NBYTES_le_word le_word_and)
  qed
  have small: "\<not> bit m n" if "57 \<le> n" for n
    using that assms by (cases "n = 56 + n mod 8") (auto simp: m_def bit_le_word bit_simps)
  then have "n < 57" if "bit m n" for n using that by (meson not_le)
  then have a: "drop_bit 7 (push_bit 7 m) = m"
    by (intro bit_word_eqI) (auto simp: bit_simps)
  have b: "push_bit 1 (push_bit 7 m) = 256 * m"
    by (simp add: push_bit_eq_mult ac_simps)
  have "MASK (le_word bs) = 256 * m - m"
    by (simp only: MASK_def Let_def vv a b)
  also have "\<dots> = 255 * m" by (simp add: algebra_simps)
  also have "255 * m = le_word (map high_mask bs)"
    unfolding m_def
  proof (induction bs)
    case (Cons b bs)
    have h: "255 * ucast (of_bool (bit b 7) :: u8) = (ucast (high_mask b) :: u64)" by (simp add: high_mask_def)
    have d: "255 * (x + 256 * y) = 255 * x + 256 * (255 * y)" for x y :: u64 by (simp add: distrib_left)
    show ?case by (simp only: list.map le_word_Cons_sum d h Cons.IH)
  qed simp
  finally show ?thesis .
qed

lemma syndrome_step:
  assumes "length bs = 8"
  shows "SHLBYTE (le_word bs) XOR (MASK (le_word bs) AND NBYTES 0x1d) = le_word (map xtime bs)"
proof -
  have "map2 (XOR) (map (push_bit 1) bs) (map (\<lambda>b. high_mask b AND 0x1d) bs) = map xtime bs"
    by (induction bs) (auto simp: xtime_def high_mask_def)
  then show ?thesis
    using assms by (simp add: SHLBYTE_le_word MASK_le_word NBYTES_le_word le_word_and le_word_xor comp_def)
qed


section \<open>The stripes P and Q\<close>

definition p_col :: "u8 list \<Rightarrow> u8" where
  "p_col ds = foldr (XOR) ds 0"

definition q_col :: "u8 list \<Rightarrow> u8" where
  "q_col ds = foldr (\<lambda>d q. d XOR gfmul 2 q) ds 0"

definition col :: "store \<Rightarrow> nat list \<Rightarrow> nat \<Rightarrow> nat \<Rightarrow> u8 list" where
  "col mem ptrs n i = map (\<lambda>j. mem (ptrs ! j) ! i) [0..<n]"

definition p_stripe :: "store \<Rightarrow> nat list \<Rightarrow> nat \<Rightarrow> nat \<Rightarrow> u8 list" where
  "p_stripe mem ptrs n len = map (\<lambda>i. p_col (col mem ptrs n i)) [0..<len]"

definition q_stripe :: "store \<Rightarrow> nat list \<Rightarrow> nat \<Rightarrow> nat \<Rightarrow> u8 list" where
  "q_stripe mem ptrs n len = map (\<lambda>i. q_col (col mem ptrs n i)) [0..<len]"

lemma length_stripes [simp]:
  "length (p_stripe mem ptrs n len) = len" "length (q_stripe mem ptrs n len) = len"
  by (simp_all add: p_stripe_def q_stripe_def)

lemma get_unaligned_slice:
  "d + 8 \<le> length buf \<Longrightarrow> get_unaligned_native buf d = Some (le_word (map (\<lambda>k. buf ! (d + k)) [0..<8]))"
  by (auto simp: get_unaligned_native_def intro!: arg_cong [where f = le_word] nth_equalityI)

lemma put_unaligned_bytes:
  "length bs = 8 \<Longrightarrow> d + 8 \<le> length buf \<Longrightarrow>
     put_unaligned_native (le_word bs) buf d = Some (take d buf @ bs @ drop (d + 8) buf)"
  by (simp add: put_unaligned_native_def le_word_bytes)

lemma syndrome_words_ok:
  assumes "\<forall>j<z. d + 8 \<le> length (mem (ptrs ! j))" and "length ps = 8" and "length qs = 8"
  shows "syndrome_words mem ptrs d z (le_word ps) (le_word qs) =
    Some (le_word (map (\<lambda>k. foldr (\<lambda>j a. mem (ptrs ! j) ! (d + k) XOR a) [0..<z] (ps ! k)) [0..<8]),
          le_word (map (\<lambda>k. foldr (\<lambda>j a. mem (ptrs ! j) ! (d + k) XOR gfmul 2 a) [0..<z] (qs ! k)) [0..<8]))"
  using assms
proof (induction z arbitrary: ps qs)
  case 0
  have "map (\<lambda>k. xs ! k) [0..<8] = xs" if "length xs = 8" for xs :: "u8 list"
    using that map_nth [of xs] by simp
  then show ?case using 0 by simp
next
  case (Suc z)
  let ?sl = "map (\<lambda>k. mem (ptrs ! z) ! (d + k)) [0..<8]"
  have "get_unaligned_native (mem (ptrs ! z)) d = Some (le_word ?sl)"
    using Suc.prems by (intro get_unaligned_slice) simp
  moreover have "le_word ps XOR le_word ?sl = le_word (map2 (XOR) ps ?sl)"
    using Suc.prems by (intro le_word_xor) simp_all
  moreover have "(SHLBYTE (le_word qs) XOR (MASK (le_word qs) AND NBYTES 0x1d)) XOR le_word ?sl =
      le_word (map2 (XOR) (map xtime qs) ?sl)"
    using Suc.prems by (simp add: syndrome_step le_word_xor)
  ultimately have "syndrome_words mem ptrs d (Suc z) (le_word ps) (le_word qs) =
      syndrome_words mem ptrs d z (le_word (map2 (XOR) ps ?sl)) (le_word (map2 (XOR) (map xtime qs) ?sl))"
    by (simp add: Let_def)
  also have "\<dots> = Some (le_word (map (\<lambda>k. foldr (\<lambda>j a. mem (ptrs ! j) ! (d + k) XOR a) [0..<z]
              (map2 (XOR) ps ?sl ! k)) [0..<8]),
          le_word (map (\<lambda>k. foldr (\<lambda>j a. mem (ptrs ! j) ! (d + k) XOR gfmul 2 a) [0..<z]
              (map2 (XOR) (map xtime qs) ?sl ! k)) [0..<8]))"
    using Suc.prems by (intro Suc.IH) simp_all
  also have "\<dots> = Some (le_word (map (\<lambda>k. foldr (\<lambda>j a. mem (ptrs ! j) ! (d + k) XOR a) [0..<Suc z] (ps ! k)) [0..<8]),
      le_word (map (\<lambda>k. foldr (\<lambda>j a. mem (ptrs ! j) ! (d + k) XOR gfmul 2 a) [0..<Suc z] (qs ! k)) [0..<8]))"
    using Suc.prems
    by (auto simp: xor.commute gfmul_comm [of 2] gfmul_2 intro!: arg_cong [where f = le_word])
  finally show ?case .
qed

lemma syndrome_slice:
  assumes "\<forall>j\<le>z. length (mem (ptrs ! j)) = bytes" and "d + 8 \<le> bytes"
  shows "\<exists>w. get_unaligned_native (mem (ptrs ! z)) d = Some w \<and>
    syndrome_words mem ptrs d z w w =
      Some (le_word (take 8 (drop d (p_stripe mem ptrs (Suc z) bytes))),
            le_word (take 8 (drop d (q_stripe mem ptrs (Suc z) bytes))))"
proof -
  let ?sl = "map (\<lambda>k. mem (ptrs ! z) ! (d + k)) [0..<8]"
  have "take 8 (drop d (p_stripe mem ptrs (Suc z) bytes)) =
      map (\<lambda>k. foldr (\<lambda>j a. mem (ptrs ! j) ! (d + k) XOR a) [0..<z] (?sl ! k)) [0..<8]"
    using assms(2)
    by (intro nth_equalityI) (auto simp: p_stripe_def p_col_def col_def foldr_map comp_def)
  moreover have "take 8 (drop d (q_stripe mem ptrs (Suc z) bytes)) =
      map (\<lambda>k. foldr (\<lambda>j a. mem (ptrs ! j) ! (d + k) XOR gfmul 2 a) [0..<z] (?sl ! k)) [0..<8]"
    using assms(2)
    by (intro nth_equalityI) (auto simp: q_stripe_def q_col_def col_def foldr_map comp_def)
  moreover have "get_unaligned_native (mem (ptrs ! z)) d = Some (le_word ?sl)"
    using assms by (intro get_unaligned_slice) simp
  ultimately show ?thesis using syndrome_words_ok [of z d mem ptrs ?sl ?sl] assms by simp
qed

text \<open>The two outputs after \<open>d\<close> bytes.\<close>

definition parity_upto :: "store \<Rightarrow> nat list \<Rightarrow> nat \<Rightarrow> nat \<Rightarrow> nat \<Rightarrow> nat \<Rightarrow> nat \<Rightarrow> store" where
  "parity_upto mem ptrs z p q bytes d =
     mem(p := take d (p_stripe mem ptrs (Suc z) bytes) @ drop d (mem p),
         q := take d (q_stripe mem ptrs (Suc z) bytes) @ drop d (mem q))"

lemma gen_syndrome_loop_ok:
  assumes "\<forall>j\<le>z. length (mem (ptrs ! j)) = bytes \<and> ptrs ! j \<noteq> p \<and> ptrs ! j \<noteq> q"
    and "p \<noteq> q" and "length (mem p) = bytes" and "length (mem q) = bytes" and "bytes = d + 8 * k"
  shows "gen_syndrome_loop (parity_upto mem ptrs z p q bytes d) ptrs z p q d bytes =
    Some (parity_upto mem ptrs z p q bytes bytes)"
  using assms(5)
proof (induction k arbitrary: d)
  case 0
  then show ?case by (subst gen_syndrome_loop.simps) simp
next
  case (Suc k)
  let ?M = "parity_upto mem ptrs z p q bytes"
  let ?P = "p_stripe mem ptrs (Suc z) bytes" and ?Q = "q_stripe mem ptrs (Suc z) bytes"
  have d: "d + 8 \<le> bytes" using Suc.prems by simp
  have same: "?M d (ptrs ! j) = mem (ptrs ! j)" if "j \<le> z" for j
    using that assms(1) by (simp add: parity_upto_def)
  have "col (?M d) ptrs (Suc z) i = col mem ptrs (Suc z) i" for i
    by (auto simp: col_def same)
  then have pq: "p_stripe (?M d) ptrs (Suc z) bytes = ?P" "q_stripe (?M d) ptrs (Suc z) bytes = ?Q"
    by (simp_all add: p_stripe_def q_stripe_def)
  obtain w where w: "get_unaligned_native (?M d (ptrs ! z)) d = Some w"
      "syndrome_words (?M d) ptrs d z w w = Some (le_word (take 8 (drop d ?P)), le_word (take 8 (drop d ?Q)))"
    using syndrome_slice [of z "?M d" ptrs bytes d] d assms(1) by (auto simp: same pq)
  have put: "put_unaligned_native (le_word (take 8 (drop d S))) (take d S @ drop d b) d =
      Some (take (d + 8) S @ drop (d + 8) b)" if "length S = bytes" "length b = bytes" for S b
    using that d by (subst put_unaligned_bytes) (simp_all add: take_add add.commute)
  have step: "(?M d)(p := take (d + 8) ?P @ drop (d + 8) (mem p), q := take (d + 8) ?Q @ drop (d + 8) (mem q)) =
      ?M (d + 8)"
    using assms(2) by (auto simp: parity_upto_def)
  have "gen_syndrome_loop (?M d) ptrs z p q d bytes = gen_syndrome_loop (?M (d + 8)) ptrs z p q (d + 8) bytes"
    using d w put [of ?P "mem p"] put [of ?Q "mem q"] assms(2-4)
    by (subst gen_syndrome_loop.simps) (simp add: Let_def step [symmetric], simp add: parity_upto_def)
  then show ?case using Suc.IH [of "d + 8"] Suc.prems by simp
qed


section \<open>Arrays of stripes\<close>

definition stripes_ok :: "store \<Rightarrow> nat list \<Rightarrow> nat \<Rightarrow> nat \<Rightarrow> bool" where
  "stripes_ok mem ptrs n len \<longleftrightarrow> length ptrs = n \<and> distinct ptrs \<and> (\<forall>j<n. length (mem (ptrs ! j)) = len)"

definition raid5_ok :: "store \<Rightarrow> nat list \<Rightarrow> nat \<Rightarrow> nat \<Rightarrow> bool" where
  "raid5_ok mem ptrs n len \<longleftrightarrow>
     stripes_ok mem ptrs n len \<and> 2 \<le> n \<and> mem (ptrs ! (n - 1)) = p_stripe mem ptrs (n - 1) len"

definition raid6_ok :: "store \<Rightarrow> nat list \<Rightarrow> nat \<Rightarrow> nat \<Rightarrow> bool" where
  "raid6_ok mem ptrs n len \<longleftrightarrow>
     stripes_ok mem ptrs n len \<and> 3 \<le> n \<and> mem (ptrs ! (n - 2)) = p_stripe mem ptrs (n - 2) len \<and>
     mem (ptrs ! (n - 1)) = q_stripe mem ptrs (n - 2) len"

text \<open>\<open>damaged mem mem' ptrs D\<close>: only the stripes with a number in \<open>D\<close> differ, and not in length.\<close>

definition damaged :: "store \<Rightarrow> store \<Rightarrow> nat list \<Rightarrow> nat set \<Rightarrow> bool" where
  "damaged mem mem' ptrs D \<longleftrightarrow>
     (\<forall>j<length ptrs. length (mem' (ptrs ! j)) = length (mem (ptrs ! j)) \<and>
        (j \<notin> D \<longrightarrow> mem' (ptrs ! j) = mem (ptrs ! j)))"

definition restored :: "store \<Rightarrow> store \<Rightarrow> nat list \<Rightarrow> bool" where
  "restored mem mem' ptrs \<longleftrightarrow> (\<forall>j<length ptrs. mem' (ptrs ! j) = mem (ptrs ! j))"

lemma stripes_nth_eq:
  "stripes_ok mem ptrs n len \<Longrightarrow> i < n \<Longrightarrow> j < n \<Longrightarrow> ptrs ! i = ptrs ! j \<longleftrightarrow> i = j"
  by (simp add: stripes_ok_def nth_eq_iff_index_eq)

lemma stripes_damaged: "stripes_ok mem ptrs n len \<Longrightarrow> damaged mem mem' ptrs D \<Longrightarrow> stripes_ok mem' ptrs n len"
  by (simp add: stripes_ok_def damaged_def)

lemma col_cong: "(\<And>j. j < n \<Longrightarrow> mem (ptrs ! j) = mem' (ptrs' ! j)) \<Longrightarrow> col mem ptrs n i = col mem' ptrs' n i"
  by (simp add: col_def)

lemma stripe_cong:
  "(\<And>j. j < n \<Longrightarrow> mem (ptrs ! j) = mem' (ptrs' ! j)) \<Longrightarrow>
     p_stripe mem ptrs n len = p_stripe mem' ptrs' n len \<and> q_stripe mem ptrs n len = q_stripe mem' ptrs' n len"
  using col_cong [of n mem ptrs mem' ptrs'] by (simp add: p_stripe_def q_stripe_def)

lemma gen_syndrome_general:
  assumes "length ptrs = n" and "3 \<le> n" and "8 dvd len" and "\<forall>j<n. length (mem (ptrs ! j)) = len"
    and "\<forall>j<n - 2. ptrs ! j \<noteq> ptrs ! (n - 2) \<and> ptrs ! j \<noteq> ptrs ! (n - 1)" and "ptrs ! (n - 2) \<noteq> ptrs ! (n - 1)"
  shows "raid6_gen_syndrome mem (int n) len ptrs =
    Some (mem(ptrs ! (n - 2) := p_stripe mem ptrs (n - 2) len, ptrs ! (n - 1) := q_stripe mem ptrs (n - 2) len))"
proof -
  obtain z where z: "n = z + 3" using assms(2) by (metis add.commute le_Suc_ex)
  let ?p = "ptrs ! (n - 2)" and ?q = "ptrs ! (n - 1)"
  obtain k where "len = 0 + 8 * k" using assms(3) by auto
  moreover have "\<forall>j\<le>z. length (mem (ptrs ! j)) = len \<and> ptrs ! j \<noteq> ?p \<and> ptrs ! j \<noteq> ?q"
    using assms(4,5) z by auto
  ultimately have "gen_syndrome_loop (parity_upto mem ptrs z ?p ?q len 0) ptrs z ?p ?q 0 len =
      Some (parity_upto mem ptrs z ?p ?q len len)"
    using assms(4,6) z by (intro gen_syndrome_loop_ok) auto
  moreover have "parity_upto mem ptrs z ?p ?q len 0 = mem" by (simp add: parity_upto_def)
  moreover have "parity_upto mem ptrs z ?p ?q len len =
      mem(?p := p_stripe mem ptrs (n - 2) len, ?q := q_stripe mem ptrs (n - 2) len)"
    using assms(4) z by (simp add: parity_upto_def)
  ultimately show ?thesis using z by (simp add: raid6_gen_syndrome_def Let_def)
qed

lemma gen_syndrome_ok:
  assumes "stripes_ok mem ptrs n len" and "3 \<le> n" and "8 dvd len"
  shows "raid6_gen_syndrome mem (int n) len ptrs =
    Some (mem(ptrs ! (n - 2) := p_stripe mem ptrs (n - 2) len, ptrs ! (n - 1) := q_stripe mem ptrs (n - 2) len))"
  using assms by (intro gen_syndrome_general) (auto simp: stripes_ok_def nth_eq_iff_index_eq)

section \<open>Sums of columns\<close>

lemma p_col_append: "p_col (xs @ ys) = p_col xs XOR p_col ys"
  by (induction xs) (simp_all add: p_col_def xor.assoc)

lemma p_col_simps [simp]: "p_col [] = 0" "p_col (x # xs) = x XOR p_col xs"
  by (simp_all add: p_col_def)

lemma p_col_update: "i < length xs \<Longrightarrow> p_col (xs[i := x]) = p_col xs XOR xs ! i XOR x"
  by (induction xs arbitrary: i) (auto simp: ac_simps xor.assoc split: nat.splits)

lemma p_col_remove: "j < n \<Longrightarrow> p_col (map f [0..<n]) = f j XOR p_col (map f (filter (\<lambda>i. i \<noteq> j) [0..<n]))"
proof (induction n)
  case (Suc n)
  show ?case
  proof (cases "j = n")
    case True
    then have "filter (\<lambda>i. i \<noteq> j) [0..<n] = [0..<n]" by (auto simp: filter_id_conv)
    then show ?thesis using True by (simp add: p_col_append xor.commute)
  next
    case False
    then show ?thesis using Suc by (simp add: p_col_append xor.assoc)
  qed
qed simp

lemma q_col_simps [simp]: "q_col [] = 0" "q_col (x # xs) = x XOR gfmul 2 (q_col xs)"
  by (simp_all add: q_col_def)

lemma q_col_update:
  "i < length xs \<Longrightarrow> q_col (xs[i := x]) = q_col xs XOR gfmul (gf_power 2 i) (xs ! i XOR x)"
proof (induction xs arbitrary: i)
  case (Cons y ys)
  then show ?case
    by (cases i) (simp_all add: gf_distrib gfmul_assoc ac_simps xor.assoc)
qed simp


section \<open>Recovery from P\<close>

lemma partial_xor_byte:
  assumes "length d = length src" and "i < length d"
  shows "xor_byte (take i (map2 (XOR) d src) @ drop i d) src i = Some (take (Suc i) (map2 (XOR) d src) @ drop (Suc i) d)"
  using assms by (simp add: xor_byte_def nth_append take_Suc_conv_app_nth list_update_append flip: Cons_nth_drop_Suc)

lemma xor_head_ok:
  assumes "length d = length src" and "i + n = length d"
  shows "\<exists>j. xor_head a (take i (map2 (XOR) d src) @ drop i d) src i n =
      Some (take j (map2 (XOR) d src) @ drop j d, j, length d - j) \<and> j \<le> length d"
  using assms
proof (induction n arbitrary: i a)
  case 0
  then show ?case by (intro exI [of _ i]) simp
next
  case (Suc n)
  show ?case
  proof (cases "a AND 8 \<noteq> 0")
    case True
    have "xor_byte (take i (map2 (XOR) d src) @ drop i d) src i = Some (take (Suc i) (map2 (XOR) d src) @ drop (Suc i) d)"
      using Suc.prems by (intro partial_xor_byte) simp_all
    then show ?thesis using True Suc.IH [of "Suc i" "a + 1"] Suc.prems by simp
  next
    case False
    moreover have "length d - i = Suc n" "i \<le> length d" using Suc.prems by simp_all
    ultimately show ?thesis by (intro exI [of _ i]) simp
  qed
qed

lemma xor_words_ok:
  assumes "length d = length src" and "i + n = length d"
  shows "\<exists>j. xor_words (take i (map2 (XOR) d src) @ drop i d) src i n =
      Some (take j (map2 (XOR) d src) @ drop j d, j, length d - j) \<and> j \<le> length d"
  using assms
proof (induction n arbitrary: i rule: less_induct)
  case (less n)
  let ?X = "map2 (XOR) d src"
  show ?case
  proof (cases "n \<ge> 8")
    case True
    let ?D = "take i ?X @ drop i d"
    have bound: "i + 8 \<le> length d" using True less.prems by simp
    have "get_unaligned_native ?D i = Some (le_word (map (\<lambda>k. d ! (i + k)) [0..<8]))"
      using bound less.prems by (subst get_unaligned_slice) (auto simp: nth_append intro!: arg_cong [where f = le_word])
    moreover have "get_unaligned_native src i = Some (le_word (map (\<lambda>k. src ! (i + k)) [0..<8]))"
      using bound less.prems by (intro get_unaligned_slice) simp
    moreover have "le_word (map (\<lambda>k. d ! (i + k)) [0..<8]) XOR le_word (map (\<lambda>k. src ! (i + k)) [0..<8]) =
        le_word (take 8 (drop i ?X))"
      using bound less.prems
      by (subst le_word_xor) (auto intro!: arg_cong [where f = le_word] nth_equalityI)
    moreover have "put_unaligned_native (le_word (take 8 (drop i ?X))) ?D i = Some (take (i + 8) ?X @ drop (i + 8) d)"
      using bound less.prems by (subst put_unaligned_bytes) (simp_all add: take_add add.commute [of 8 i])
    ultimately have "xor_words ?D src i n = xor_words (take (i + 8) ?X @ drop (i + 8) d) src (i + 8) (n - 8)"
      using True by (subst xor_words.simps) simp
    then show ?thesis using less.IH [of "n - 8" "i + 8"] True less.prems by simp
  next
    case False
    moreover have "length d - i = n" "i \<le> length d" using less.prems by simp_all
    ultimately show ?thesis by (intro exI [of _ i], subst xor_words.simps) simp
  qed
qed

lemma xor_tail_ok:
  assumes "length d = length src" and "i + n = length d"
  shows "xor_tail (take i (map2 (XOR) d src) @ drop i d) src i n = Some (map2 (XOR) d src)"
  using assms
proof (induction n arbitrary: i)
  case (Suc n)
  have "xor_byte (take i (map2 (XOR) d src) @ drop i d) src i = Some (take (Suc i) (map2 (XOR) d src) @ drop (Suc i) d)"
    using Suc.prems by (intro partial_xor_byte) simp_all
  then show ?case using Suc.IH [of "Suc i"] Suc.prems by simp
qed simp

lemma xor_range_ok:
  assumes "length d = n" and "length src = n"
  shows "xor_range a d src n = Some (map2 (XOR) d src)"
proof -
  obtain j where j: "xor_head a d src 0 n = Some (take j (map2 (XOR) d src) @ drop j d, j, n - j)" "j \<le> n"
    using xor_head_ok [of d src 0 n a] assms by auto
  obtain k where k: "xor_words (take j (map2 (XOR) d src) @ drop j d) src j (n - j) =
      Some (take k (map2 (XOR) d src) @ drop k d, k, n - k)" "k \<le> n"
    using xor_words_ok [of d src j "n - j"] assms j(2) by auto
  show ?thesis
    using j(1) k(1) xor_tail_ok [of d src k "n - k"] assms k(2) by (simp add: xor_range_def)
qed

lemma map_others_update:
  assumes "stripes_ok mem ptrs n len" and "set is \<subseteq> {..<n}" and "d < n"
  shows "map (\<lambda>j. (mem(ptrs ! d := b)) (ptrs ! j) ! i) (filter (\<lambda>j. j \<noteq> d) is) =
    map (\<lambda>j. mem (ptrs ! j) ! i) (filter (\<lambda>j. j \<noteq> d) is)"
  using assms by (intro map_cong) (auto simp: stripes_nth_eq [OF assms(1)])

lemma xor_others_ok:
  assumes "stripes_ok mem ptrs n len" and "set is \<subseteq> {..<n}" and "d < n"
  shows "xor_others addr mem ptrs len d is =
    Some (mem(ptrs ! d := map (\<lambda>i. mem (ptrs ! d) ! i XOR p_col (map (\<lambda>j. mem (ptrs ! j) ! i) (filter (\<lambda>j. j \<noteq> d) is))) [0..<len]))"
  using assms
proof (induction "is" arbitrary: mem)
  case Nil
  then have "map (\<lambda>i. mem (ptrs ! d) ! i) [0..<len] = mem (ptrs ! d)"
    using map_nth [of "mem (ptrs ! d)"] by (simp add: stripes_ok_def)
  then show ?case by simp
next
  case (Cons j "is")
  show ?case
  proof (cases "j = d")
    case True
    then show ?thesis using Cons by simp
  next
    case False
    let ?m = "mem(ptrs ! d := map2 (XOR) (mem (ptrs ! d)) (mem (ptrs ! j)))"
    have len: "length (mem (ptrs ! d)) = len" "length (mem (ptrs ! j)) = len"
      using Cons.prems by (auto simp: stripes_ok_def)
    have "stripes_ok ?m ptrs n len" using Cons.prems(1) len by (simp add: stripes_ok_def)
    then have "xor_others addr ?m ptrs len d is =
        Some (?m(ptrs ! d := map (\<lambda>i. ?m (ptrs ! d) ! i XOR p_col (map (\<lambda>j. ?m (ptrs ! j) ! i) (filter (\<lambda>j. j \<noteq> d) is))) [0..<len]))"
      by (rule Cons.IH) (use Cons.prems in simp_all)
    moreover have "set is \<subseteq> {..<n}" using Cons.prems by simp
    ultimately have "xor_others addr ?m ptrs len d is =
        Some (mem(ptrs ! d := map (\<lambda>i. map2 (XOR) (mem (ptrs ! d)) (mem (ptrs ! j)) ! i XOR
          p_col (map (\<lambda>j. mem (ptrs ! j) ! i) (filter (\<lambda>j. j \<noteq> d) is))) [0..<len]))"
      using Cons.prems by (simp only: map_others_update fun_upd_same fun_upd_upd)
    moreover have "map (\<lambda>i. map2 (XOR) (mem (ptrs ! d)) (mem (ptrs ! j)) ! i XOR
          p_col (map (\<lambda>j. mem (ptrs ! j) ! i) (filter (\<lambda>j. j \<noteq> d) is))) [0..<len] =
        map (\<lambda>i. mem (ptrs ! d) ! i XOR p_col (map (\<lambda>j. mem (ptrs ! j) ! i) (filter (\<lambda>j. j \<noteq> d) (j # is)))) [0..<len]"
      using len False by (simp add: xor.assoc)
    ultimately show ?thesis
      using False xor_range_ok [OF len, of "addr (ptrs ! d)"] by (simp only: xor_others.simps if_False Option.bind.bind_lunit)
  qed
qed

text \<open>Stripe \<open>d\<close> of the first \<open>m\<close> is recovered from the others if the last of them is their parity.\<close>

lemma raid5_gen_result_ok:
  assumes "stripes_ok mem ptrs n BTRFS_STRIPE_LEN" and "2 \<le> m" and "m \<le> n" and "d < m"
  shows "raid5_gen_result addr mem (int m) BTRFS_STRIPE_LEN (int d) ptrs =
    Some (0, mem(ptrs ! d := map (\<lambda>i. p_col (map (\<lambda>j. mem (ptrs ! j) ! i) (filter (\<lambda>j. j \<noteq> d) [0..<m]))) [0..<BTRFS_STRIPE_LEN]))"
proof (cases "m = 2")
  case True
  then have f: "filter (\<lambda>j. j \<noteq> d) [0..<m] = [1 - d]"
    using assms(4) by (cases d) (auto simp: eval_nat_numeral)
  have "length (mem (ptrs ! d)) = BTRFS_STRIPE_LEN" "length (mem (ptrs ! (1 - d))) = BTRFS_STRIPE_LEN"
    using assms True by (auto simp: stripes_ok_def)
  then show ?thesis
    using True assms(4) map_nth [of "mem (ptrs ! (1 - d))"] by (simp add: raid5_gen_result_def Let_def f [unfolded True])
next
  case False
  let ?z = "mem(ptrs ! d := replicate BTRFS_STRIPE_LEN 0)"
  have len: "length (mem (ptrs ! d)) = BTRFS_STRIPE_LEN" using assms by (simp add: stripes_ok_def)
  have ok: "stripes_ok ?z ptrs n BTRFS_STRIPE_LEN" using assms(1) by (simp add: stripes_ok_def)
  have "set [0..<m] \<subseteq> {..<n}" using assms(3) by auto
  then have "xor_others addr ?z ptrs BTRFS_STRIPE_LEN d [0..<m] =
      Some (mem(ptrs ! d := map (\<lambda>i. replicate BTRFS_STRIPE_LEN 0 ! i XOR
        p_col (map (\<lambda>j. mem (ptrs ! j) ! i) (filter (\<lambda>j. j \<noteq> d) [0..<m]))) [0..<BTRFS_STRIPE_LEN]))"
    using xor_others_ok [OF ok, of "[0..<m]" d addr] assms(3,4)
    by (simp only: map_others_update [OF assms(1)] fun_upd_same fun_upd_upd less_le_trans)
  also have "map (\<lambda>i. replicate BTRFS_STRIPE_LEN 0 ! i XOR
        p_col (map (\<lambda>j. mem (ptrs ! j) ! i) (filter (\<lambda>j. j \<noteq> d) [0..<m]))) [0..<BTRFS_STRIPE_LEN] =
      map (\<lambda>i. p_col (map (\<lambda>j. mem (ptrs ! j) ! i) (filter (\<lambda>j. j \<noteq> d) [0..<m]))) [0..<BTRFS_STRIPE_LEN]"
    by simp
  finally have x: "xor_others addr ?z ptrs BTRFS_STRIPE_LEN d [0..<m] =
      Some (mem(ptrs ! d := map (\<lambda>i. p_col (map (\<lambda>j. mem (ptrs ! j) ! i) (filter (\<lambda>j. j \<noteq> d) [0..<m]))) [0..<BTRFS_STRIPE_LEN]))" .
  have "raid5_gen_result addr mem (int m) BTRFS_STRIPE_LEN (int d) ptrs =
      map_option (Pair 0) (xor_others addr ?z ptrs BTRFS_STRIPE_LEN d [0..<m])"
    using False assms(2-4) len by (simp add: raid5_gen_result_def Let_def)
  then show ?thesis by (simp only: x option.map)
qed


section \<open>Recovery from P and Q\<close>

lemma recov_data2_algebra:
  assumes "d1 < d2" and "d2 < 255"
  defines "e1 \<equiv> gf_power 2 d1" and "e2 \<equiv> gf_power 2 d2"
  shows "gfmul (gf_inv (gf_power 2 (d2 - d1) XOR 1)) (a XOR b) XOR
      gfmul (gf_inv (e1 XOR e2)) (gfmul e1 a XOR gfmul e2 b) = b"
proof -
  define t y where "t = gf_power 2 (d2 - d1)" and "y = gf_inv (e1 XOR e2)"
  have e2: "e2 = gfmul e1 t"
    using assms(1) gf_power_add [of 2 d1 "d2 - d1"] by (simp add: e1_def e2_def t_def)
  have s: "gfmul (e1 XOR e2) y = 1"
    unfolding y_def e1_def e2_def by (intro gf_inv_mult gf_power_distinct assms)
  have "gfmul (t XOR 1) (gfmul y e1) = gfmul (e1 XOR e2) y"
    by (simp add: e2 gf_distrib gf_ac xor.commute)
  then have ty: "gfmul (t XOR 1) (gfmul y e1) = 1" using s by simp
  then have "t XOR 1 \<noteq> 0" by auto
  then have x: "gf_inv (t XOR 1) = gfmul y e1"
    using gf_cancel [of "t XOR 1"] gf_inv_mult ty by metis
  have "gfmul (gfmul y e1) (a XOR b) XOR gfmul y (gfmul e1 a XOR gfmul e2 b) = gfmul (gfmul (e1 XOR e2) y) b"
    by (simp add: gf_distrib gf_ac ac_simps xor.assoc)
  then show ?thesis using s by (simp add: x flip: t_def y_def)
qed

lemma table_get_Some [simp]: "i < length t \<Longrightarrow> table_get t i = Some (t ! i)"
  by (simp add: table_get_def)

lemma take_step: "i < length xs \<Longrightarrow> length ys = length xs \<Longrightarrow> x = xs ! i \<Longrightarrow>
    (take i xs @ drop i ys)[i := x] = take (Suc i) xs @ drop (Suc i) ys"
  by (simp add: take_Suc_conv_app_nth list_update_append flip: Cons_nth_drop_Suc)

lemma recov_data2_step:
  assumes "table_get (m p) i = Some pv" and "table_get (m dp) i = Some dpv" and "table_get (m q) i = Some qv"
    and "table_get (m dq) i = Some dqv" and "dp \<noteq> dq" and "px = pv XOR dpv"
    and "db = gfmul pb px XOR gfmul qm (qv XOR dqv)"
  shows "recov_data2_loop pb qm m p q dp dq i (Suc n) =
    recov_data2_loop pb qm (m(dq := (m dq)[i := db], dp := (m dp)[i := db XOR px])) p q dp dq (Suc i) n"
  using assms by (simp add: Let_def)

lemma recov_datap_step:
  assumes "table_get (m p) i = Some pv" and "table_get (m q) i = Some qv" and "table_get (m dq) i = Some dqv"
    and "p \<noteq> dq" and "d = gfmul qm (qv XOR dqv)"
  shows "recov_datap_loop qm m p q dq i (Suc n) =
    recov_datap_loop qm (m(dq := (m dq)[i := d], p := (m p)[i := pv XOR d])) p q dq (Suc i) n"
  using assms by (simp add: Let_def)

lemma table_get_mixed:
  "i < n \<Longrightarrow> length a = n \<Longrightarrow> length b = n \<Longrightarrow> table_get (take i a @ drop i b) i = Some (b ! i)"
  by (simp add: table_get_def nth_append)

lemma recov_data2_loop_ok:
  fixes mem :: store and pb qm :: u8
  assumes "distinct [p, q, dp, dq]" and "length (mem p) = len" and "length (mem q) = len"
    and "length (mem dp) = len" and "length (mem dq) = len"
  defines "px \<equiv> \<lambda>i. mem p ! i XOR mem dp ! i"
  defines "db \<equiv> \<lambda>i. gfmul pb (px i) XOR gfmul qm (mem q ! i XOR mem dq ! i)"
  defines "B \<equiv> map db [0..<len]" and "A \<equiv> map (\<lambda>i. db i XOR px i) [0..<len]"
  shows "recov_data2_loop pb qm mem p q dp dq 0 len = Some (mem(dq := B, dp := A))"
proof -
  define m where "m i = mem(dq := take i B @ drop i (mem dq), dp := take i A @ drop i (mem dp))" for i
  have lens: "length B = len" "length A = len" by (simp_all add: A_def B_def)
  have ne: "dp \<noteq> dq" "p \<noteq> dp" "p \<noteq> dq" "q \<noteq> dp" "q \<noteq> dq" using assms(1) by auto
  have "recov_data2_loop pb qm (m i) p q dp dq i n = Some (m len)" if "i + n = len" for i n
    using that
  proof (induction n arbitrary: i)
    case (Suc n)
    then have i: "i < len" by simp
    have v: "table_get (m i p) i = Some (mem p ! i)" "table_get (m i dp) i = Some (mem dp ! i)"
      "table_get (m i q) i = Some (mem q ! i)" "table_get (m i dq) i = Some (mem dq ! i)"
      unfolding m_def using ne assms(2-5) i table_get_mixed [OF i lens(1) assms(5)] table_get_mixed [OF i lens(2) assms(4)]
      by (simp_all only: fun_upd_same fun_upd_other not_False_eq_True table_get_Some)
    have "recov_data2_loop pb qm (m i) p q dp dq i (Suc n) =
        recov_data2_loop pb qm ((m i)(dq := (m i dq)[i := db i], dp := (m i dp)[i := db i XOR px i])) p q dp dq (Suc i) n"
      by (rule recov_data2_step [OF v ne(1)]) (simp_all only: px_def db_def)
    moreover have "(take i B @ drop i (mem dq))[i := db i] = take (Suc i) B @ drop (Suc i) (mem dq)"
      "(take i A @ drop i (mem dp))[i := db i XOR px i] = take (Suc i) A @ drop (Suc i) (mem dp)"
      using i assms(4,5) by (simp_all add: take_step A_def B_def)
    then have "(m i)(dq := (m i dq)[i := db i], dp := (m i dp)[i := db i XOR px i]) = m (Suc i)"
      using ne by (auto simp: m_def)
    ultimately show ?case using Suc.IH [of "Suc i"] Suc.prems by simp
  qed simp
  from this [of 0 len] show ?thesis using lens assms(4,5) by (simp add: m_def)
qed

lemma recov_datap_loop_ok:
  fixes mem :: store and qm :: u8
  assumes "distinct [p, q, dq]" and "length (mem p) = len" and "length (mem q) = len" and "length (mem dq) = len"
  defines "d \<equiv> \<lambda>i. gfmul qm (mem q ! i XOR mem dq ! i)"
  defines "A \<equiv> map d [0..<len]" and "P \<equiv> map (\<lambda>i. mem p ! i XOR d i) [0..<len]"
  shows "recov_datap_loop qm mem p q dq 0 len = Some (mem(dq := A, p := P))"
proof -
  define m where "m i = mem(dq := take i A @ drop i (mem dq), p := take i P @ drop i (mem p))" for i
  have lens: "length A = len" "length P = len" by (simp_all add: A_def P_def)
  have ne: "p \<noteq> dq" "p \<noteq> q" "q \<noteq> dq" using assms(1) by auto
  have "recov_datap_loop qm (m i) p q dq i n = Some (m len)" if "i + n = len" for i n
    using that
  proof (induction n arbitrary: i)
    case (Suc n)
    then have i: "i < len" by simp
    have v: "table_get (m i p) i = Some (mem p ! i)" "table_get (m i q) i = Some (mem q ! i)"
      "table_get (m i dq) i = Some (mem dq ! i)"
      unfolding m_def using ne assms(2-4) i table_get_mixed [OF i lens(1) assms(4)] table_get_mixed [OF i lens(2) assms(2)]
      by (simp_all only: fun_upd_same fun_upd_other not_False_eq_True table_get_Some)
    have "recov_datap_loop qm (m i) p q dq i (Suc n) =
        recov_datap_loop qm ((m i)(dq := (m i dq)[i := d i], p := (m i p)[i := mem p ! i XOR d i])) p q dq (Suc i) n"
      by (rule recov_datap_step [OF v ne(1)]) (simp only: d_def)
    moreover have "(take i A @ drop i (mem dq))[i := d i] = take (Suc i) A @ drop (Suc i) (mem dq)"
      "(take i P @ drop i (mem p))[i := mem p ! i XOR d i] = take (Suc i) P @ drop (Suc i) (mem p)"
      using i assms(2,4) by (simp_all add: take_step A_def P_def)
    then have "(m i)(dq := (m i dq)[i := d i], p := (m i p)[i := mem p ! i XOR d i]) = m (Suc i)"
      using ne by (auto simp: m_def)
    ultimately show ?case using Suc.IH [of "Suc i"] Suc.prems by simp
  qed simp
  from this [of 0 len] show ?thesis using lens assms(2,4) by (simp add: m_def)
qed


lemma stripe_nth [simp]:
  "i < len \<Longrightarrow> p_stripe mem ptrs n len ! i = p_col (col mem ptrs n i)"
  "i < len \<Longrightarrow> q_stripe mem ptrs n len ! i = q_col (col mem ptrs n i)"
  by (simp_all add: p_stripe_def q_stripe_def)

lemma length_col [simp]: "length (col mem ptrs n i) = n"
  by (simp add: col_def)

lemma col_nth [simp]: "j < n \<Longrightarrow> col mem ptrs n i ! j = mem (ptrs ! j) ! i"
  by (simp add: col_def)

lemma raid6_okD:
  assumes "raid6_ok mem ptrs n len"
  shows "stripes_ok mem ptrs n len" "3 \<le> n" "length ptrs = n"
    "mem (ptrs ! (n - 2)) = p_stripe mem ptrs (n - 2) len" "mem (ptrs ! (n - 1)) = q_stripe mem ptrs (n - 2) len"
  using assms by (auto simp: raid6_ok_def stripes_ok_def)

text \<open>
  The syndromes with zeros for two lost stripes, written over these stripes, differ from P and Q by
  the contributions of the two.
\<close>

lemma syndrome_without_two:
  assumes ok: "raid6_ok mem ptrs n len" and dmg: "damaged mem mem' ptrs {d1, d2}"
    and d: "d1 < d2" "d2 < n - 2" and len8: "8 dvd len"
    and z: "z1 \<notin> set ptrs" "z2 \<notin> set ptrs" "z1 \<noteq> z2"
  defines "dp \<equiv> ptrs ! d1" and "dq \<equiv> ptrs ! d2"
  shows "\<exists>mem1. raid6_gen_syndrome (mem'(z1 := replicate len 0, z2 := replicate len 0)) (int n) len
        (ptrs[d1 := z1, n - 2 := dp, d2 := z2, n - 1 := dq]) = Some mem1 \<and>
    (\<forall>j<n. j \<noteq> d1 \<and> j \<noteq> d2 \<longrightarrow> mem1 (ptrs ! j) = mem (ptrs ! j)) \<and>
    length (mem1 dp) = len \<and> length (mem1 dq) = len \<and>
    (\<forall>i<len. mem1 dp ! i = mem (ptrs ! (n - 2)) ! i XOR mem dp ! i XOR mem dq ! i \<and>
      mem1 dq ! i = mem (ptrs ! (n - 1)) ! i XOR gfmul (gf_power 2 d1) (mem dp ! i) XOR gfmul (gf_power 2 d2) (mem dq ! i))"
proof -
  let ?ip = "n - 2" and ?iq = "n - 1"
  define mem0 where "mem0 = mem'(z1 := replicate len 0, z2 := replicate len 0)"
  define data1 where "data1 = ptrs[d1 := z1, ?ip := dp, d2 := z2, ?iq := dq]"
  define mem1 where "mem1 = mem0(dp := p_stripe mem0 data1 ?ip len, dq := q_stripe mem0 data1 ?ip len)"
  note s = raid6_okD [OF ok] and idx = stripes_nth_eq [OF raid6_okD(1) [OF ok]]
  have zp: "ptrs ! j \<noteq> z1" "ptrs ! j \<noteq> z2" if "j < n" for j
    using z that s(3) by (metis nth_mem)+
  have mem0: "length (mem0 (ptrs ! j)) = len" "j \<noteq> d1 \<and> j \<noteq> d2 \<longrightarrow> mem0 (ptrs ! j) = mem (ptrs ! j)" if "j < n" for j
    using that dmg zp [of j] s(1,3) by (simp_all add: mem0_def damaged_def stripes_ok_def)
  have data1_nth: "data1 ! j = (if j = d1 then z1 else if j = d2 then z2 else if j = ?ip then dp else if j = ?iq then dq else ptrs ! j)"
    if "j < n" for j
    using that d s(2,3) by (auto simp: data1_def nth_list_update)
  have ne: "dp \<noteq> dq" using d by (simp add: dp_def dq_def idx)
  have cols: "col mem0 data1 ?ip i = (col mem ptrs ?ip i)[d1 := 0, d2 := 0]" if "i < len" for i
  proof (rule nth_equalityI)
    fix j assume "j < length (col mem0 data1 ?ip i)"
    then have "j < ?ip" "j < n" by simp_all
    moreover have "mem0 z1 ! i = 0" "mem0 z2 ! i = 0" using that by (simp_all add: mem0_def)
    ultimately show "col mem0 data1 ?ip i ! j = (col mem ptrs ?ip i)[d1 := 0, d2 := 0] ! j"
      using d mem0(2) [of j] by (auto simp: data1_nth nth_list_update)
  qed simp
  have "data1 ! ?ip = dp" "data1 ! ?iq = dq" using d s(2) by (auto simp: data1_nth)
  moreover have "length (mem0 z1) = len" "length (mem0 z2) = len" by (simp_all add: mem0_def)
  then have "\<forall>j<n. length (mem0 (data1 ! j)) = len"
    using mem0(1) d by (auto simp: data1_nth dp_def dq_def)
  moreover have "\<forall>j<?ip. data1 ! j \<noteq> dp \<and> data1 ! j \<noteq> dq"
  proof (intro allI impI)
    fix j assume "j < ?ip"
    moreover have "d1 < n" "d2 < n" using d by simp_all
    ultimately show "data1 ! j \<noteq> dp \<and> data1 ! j \<noteq> dq"
      using d zp [of d1] zp [of d2] idx [of j d1] idx [of j d2] by (auto simp: data1_nth dp_def dq_def)
  qed
  ultimately have "raid6_gen_syndrome mem0 (int n) len data1 = Some mem1"
    using gen_syndrome_general [of data1 n len mem0] s(2,3) len8 ne by (simp add: data1_def mem1_def)
  moreover have "mem1 (ptrs ! j) = mem (ptrs ! j)" if "j < n" "j \<noteq> d1" "j \<noteq> d2" for j
    using that d mem0(2) [of j] idx [of j d1] idx [of j d2] by (simp add: mem1_def dp_def dq_def)
  moreover have "mem1 dp ! i = mem (ptrs ! ?ip) ! i XOR mem dp ! i XOR mem dq ! i"
    "mem1 dq ! i = mem (ptrs ! ?iq) ! i XOR gfmul (gf_power 2 d1) (mem dp ! i) XOR gfmul (gf_power 2 d2) (mem dq ! i)"
    if "i < len" for i
    using that ne d s(2,4,5)
    by (simp_all add: mem1_def cols p_col_update q_col_update dp_def dq_def ac_simps xor.assoc)
  ultimately show ?thesis
    using ne unfolding mem0_def data1_def by (intro exI [of _ mem1]) (simp add: mem1_def)
qed

lemma raid6_recov_data2_ok:
  assumes ok: "raid6_ok mem ptrs n len" and dmg: "damaged mem mem' ptrs {d1, d2}"
    and d: "d1 < d2" "d2 < n - 2" and n: "n \<le> 257" and len8: "8 dvd len"
    and z: "z1 \<notin> set ptrs" "z2 \<notin> set ptrs" "z1 \<noteq> z2"
  shows "\<exists>mem''. raid6_recov_data2 (Some z1) (Some z2) mem' (int n) len (int d1) (int d2) ptrs = Some (0, mem'') \<and>
    restored mem mem'' ptrs"
proof -
  define p q dp dq where "p = ptrs ! (n - 2)" and "q = ptrs ! (n - 1)" and "dp = ptrs ! d1" and "dq = ptrs ! d2"
  note s = raid6_okD [OF ok] and idx = stripes_nth_eq [OF raid6_okD(1) [OF ok]]
  have dist: "distinct [p, q, dp, dq]"
    using d s(2) by (simp add: p_def q_def dp_def dq_def idx) arith
  obtain mem1 where gen: "raid6_gen_syndrome (mem'(z1 := replicate len 0, z2 := replicate len 0)) (int n) len
        (ptrs[d1 := z1, n - 2 := dp, d2 := z2, n - 1 := dq]) = Some mem1"
    and others: "\<And>j. j < n \<Longrightarrow> j \<noteq> d1 \<Longrightarrow> j \<noteq> d2 \<Longrightarrow> mem1 (ptrs ! j) = mem (ptrs ! j)"
    and lm: "length (mem1 dp) = len" "length (mem1 dq) = len"
    and dpq: "\<And>i. i < len \<Longrightarrow> mem1 dp ! i = mem p ! i XOR mem dp ! i XOR mem dq ! i"
      "\<And>i. i < len \<Longrightarrow> mem1 dq ! i = mem q ! i XOR gfmul (gf_power 2 d1) (mem dp ! i) XOR gfmul (gf_power 2 d2) (mem dq ! i)"
    using syndrome_without_two [OF ok dmg d len8 z] unfolding p_def q_def dp_def dq_def by metis
  have m1: "mem1 p = mem p" "mem1 q = mem q"
    using others [of "n - 2"] others [of "n - 1"] d s(2) by (simp_all add: p_def q_def)
  let ?pb = "gf_inv (gf_power 2 (d2 - d1) XOR 1)" and ?qm = "gf_inv (gf_power 2 d1 XOR gf_power 2 d2)"
  have px: "mem1 p ! i XOR mem1 dp ! i = mem dp ! i XOR mem dq ! i"
    and db: "gfmul ?pb (mem1 p ! i XOR mem1 dp ! i) XOR gfmul ?qm (mem1 q ! i XOR mem1 dq ! i) = mem dq ! i" if "i < len" for i
    using recov_data2_algebra [OF d(1), of "mem dp ! i" "mem dq ! i"] that d n by (simp_all add: m1 dpq)
  have da: "mem dq ! i XOR (mem1 p ! i XOR mem1 dp ! i) = mem dp ! i" if "i < len" for i
    using px [OF that] by (simp add: ac_simps)
  have "length (mem1 p) = len" "length (mem1 q) = len" unfolding m1 by (simp_all add: p_def q_def s(4,5) del: One_nat_def)
  moreover have "length (mem dp) = len" "length (mem dq) = len"
    using s(1) d by (simp_all add: stripes_ok_def dp_def dq_def)
  then have "map (\<lambda>i. gfmul ?pb (mem1 p ! i XOR mem1 dp ! i) XOR gfmul ?qm (mem1 q ! i XOR mem1 dq ! i)) [0..<len] = mem dq"
    "map (\<lambda>i. (gfmul ?pb (mem1 p ! i XOR mem1 dp ! i) XOR gfmul ?qm (mem1 q ! i XOR mem1 dq ! i)) XOR
      (mem1 p ! i XOR mem1 dp ! i)) [0..<len] = mem dp"
    by (auto intro!: nth_equalityI simp only: length_map length_upt nth_map_upt diff_zero add_0 db da)
  ultimately have loop: "recov_data2_loop ?pb ?qm mem1 p q dp dq 0 len = Some (mem1(dq := mem dq, dp := mem dp))"
    using recov_data2_loop_ok [OF dist _ _ lm, of ?pb ?qm] by (simp only:)
  have "table_get raid6_gfexi (d2 - d1) = Some ?pb" "table_get raid6_gfexp d1 = Some (gf_power 2 d1)"
    "table_get raid6_gfexp d2 = Some (gf_power 2 d2)"
    "table_get raid6_gfinv (unat (gf_power 2 d1 XOR gf_power 2 d2)) = Some ?qm"
    using d n unsigned_less [where 'a = nat, of "gf_power 2 d1 XOR gf_power 2 d2"]
    by (simp_all add: gfexi_inv gfexp_power gf_inv_def)
  moreover have "int d1 < int n - 2" "int d2 < int n - 2" using d by simp_all
  ultimately have "raid6_recov_data2 (Some z1) (Some z2) mem' (int n) len (int d1) (int d2) ptrs =
      Some (0, mem1(dq := mem dq, dp := mem dp))"
    using d(1) gen loop by (simp add: raid6_recov_data2_def Let_def flip: p_def q_def [unfolded One_nat_def] dp_def dq_def)
  moreover have "restored mem (mem1(dq := mem dq, dp := mem dp)) ptrs"
    using others s(3) by (auto simp: restored_def dp_def dq_def)
  ultimately show ?thesis by blast
qed


lemma syndrome_without_one:
  assumes ok: "raid6_ok mem ptrs n len" and dmg: "damaged mem mem' ptrs {d1, n - 2, n - 1}"
    and d: "d1 < n - 2" and len8: "8 dvd len" and z: "z \<notin> set ptrs"
  defines "dq \<equiv> ptrs ! d1" and "p \<equiv> ptrs ! (n - 2)" and "q \<equiv> ptrs ! (n - 1)"
  shows "\<exists>mem1. raid6_gen_syndrome (mem'(z := replicate len 0)) (int n) len (ptrs[d1 := z, n - 1 := dq]) = Some mem1 \<and>
    (\<forall>j<n - 2. j \<noteq> d1 \<longrightarrow> mem1 (ptrs ! j) = mem (ptrs ! j)) \<and> mem1 q = mem' q \<and>
    length (mem1 p) = len \<and> length (mem1 dq) = len \<and>
    (\<forall>i<len. mem1 p ! i = mem p ! i XOR mem dq ! i \<and> mem1 dq ! i = mem q ! i XOR gfmul (gf_power 2 d1) (mem dq ! i))"
proof -
  let ?ip = "n - 2" and ?iq = "n - 1"
  define mem0 where "mem0 = mem'(z := replicate len 0)"
  define data1 where "data1 = ptrs[d1 := z, ?iq := dq]"
  define mem1 where "mem1 = mem0(p := p_stripe mem0 data1 ?ip len, dq := q_stripe mem0 data1 ?ip len)"
  note s = raid6_okD [OF ok] and idx = stripes_nth_eq [OF raid6_okD(1) [OF ok]]
  have zp: "ptrs ! j \<noteq> z" if "j < n" for j
    using z that s(3) by (metis nth_mem)
  have mem0: "length (mem0 (ptrs ! j)) = len" "j < ?ip \<and> j \<noteq> d1 \<longrightarrow> mem0 (ptrs ! j) = mem (ptrs ! j)" if "j < n" for j
    using that dmg zp [of j] s(1,3) by (auto simp: mem0_def damaged_def stripes_ok_def)
  have data1_nth: "data1 ! j = (if j = d1 then z else if j = ?iq then dq else ptrs ! j)" if "j < n" for j
    using that d s(2,3) by (auto simp: data1_def nth_list_update)
  have d1: "d1 < n" "d1 \<noteq> ?ip" "d1 \<noteq> ?iq" "?ip \<noteq> ?iq" "?ip < n" "?iq < n" using d s(2) by auto
  then have ne: "p \<noteq> dq" "q \<noteq> dq" "p \<noteq> q" by (simp_all add: p_def q_def dq_def idx del: One_nat_def)
  have cols: "col mem0 data1 ?ip i = (col mem ptrs ?ip i)[d1 := 0]" if "i < len" for i
  proof (rule nth_equalityI)
    fix j assume "j < length (col mem0 data1 ?ip i)"
    then have "j < ?ip" "j < n" by simp_all
    moreover have "mem0 z ! i = 0" using that by (simp add: mem0_def)
    ultimately show "col mem0 data1 ?ip i ! j = (col mem ptrs ?ip i)[d1 := 0] ! j"
      using d mem0(2) [of j] by (auto simp: data1_nth nth_list_update)
  qed simp
  have "data1 ! ?ip = p" "data1 ! ?iq = dq" using d1 by (simp_all add: data1_nth p_def del: One_nat_def)
  moreover have "length (mem0 z) = len" by (simp add: mem0_def)
  then have "\<forall>j<n. length (mem0 (data1 ! j)) = len"
    using mem0(1) d1 by (auto simp: data1_nth dq_def)
  moreover have "\<forall>j<?ip. data1 ! j \<noteq> p \<and> data1 ! j \<noteq> dq"
  proof (intro allI impI)
    fix j assume "j < ?ip"
    then show "data1 ! j \<noteq> p \<and> data1 ! j \<noteq> dq"
      using d1 zp [of d1] zp [of ?ip] idx [of j d1] idx [of j ?ip] by (auto simp: data1_nth dq_def p_def)
  qed
  ultimately have "raid6_gen_syndrome mem0 (int n) len data1 = Some mem1"
    using gen_syndrome_general [of data1 n len mem0] s(2,3) len8 ne by (simp add: data1_def mem1_def)
  moreover have "mem1 (ptrs ! j) = mem (ptrs ! j)" if "j < ?ip" "j \<noteq> d1" for j
    using that d1 mem0(2) [of j] idx [of j d1] idx [of j ?ip] by (simp add: mem1_def dq_def p_def)
  moreover have "mem1 q = mem' q" using ne zp [of ?iq] d1 by (simp add: mem1_def mem0_def q_def)
  moreover have "mem1 p ! i = mem p ! i XOR mem dq ! i" "mem1 dq ! i = mem q ! i XOR gfmul (gf_power 2 d1) (mem dq ! i)"
    if "i < len" for i
    using that ne d s(4,5) by (simp_all add: mem1_def cols p_col_update q_col_update dq_def p_def q_def)
  ultimately show ?thesis
    using ne unfolding mem0_def data1_def by (intro exI [of _ mem1]) (simp add: mem1_def)
qed

text \<open>
  What \<open>raid6_recov_datap\<close> writes over stripe \<open>d1\<close>: the lost stripe, plus a multiple of the damage
  of Q.
\<close>

lemma raid6_recov_datap_general:
  assumes ok: "raid6_ok mem ptrs n len" and dmg: "damaged mem mem' ptrs {d1, n - 2, n - 1}"
    and d: "d1 < n - 2" and n: "n \<le> 257" and len8: "8 dvd len" and z: "z \<notin> set ptrs"
  shows "\<exists>mem''. raid6_recov_datap (Some z) mem' (int n) len (int d1) ptrs = Some (0, mem'') \<and>
    (\<forall>j<n - 2. j \<noteq> d1 \<longrightarrow> mem'' (ptrs ! j) = mem (ptrs ! j)) \<and> mem'' (ptrs ! (n - 1)) = mem' (ptrs ! (n - 1)) \<and>
    mem'' (ptrs ! d1) = map (\<lambda>i. mem (ptrs ! d1) ! i XOR
      gfmul (gf_inv (gf_power 2 d1)) (mem' (ptrs ! (n - 1)) ! i XOR mem (ptrs ! (n - 1)) ! i)) [0..<len] \<and>
    mem'' (ptrs ! (n - 2)) = map (\<lambda>i. mem (ptrs ! (n - 2)) ! i XOR
      gfmul (gf_inv (gf_power 2 d1)) (mem' (ptrs ! (n - 1)) ! i XOR mem (ptrs ! (n - 1)) ! i)) [0..<len]"
proof -
  define p q dq where "p = ptrs ! (n - 2)" and "q = ptrs ! (n - 1)" and "dq = ptrs ! d1"
  note s = raid6_okD [OF ok] and idx = stripes_nth_eq [OF raid6_okD(1) [OF ok]]
  have ix: "d1 < n" "d1 \<noteq> n - 2" "d1 \<noteq> n - 1" "n - 2 \<noteq> n - 1" "n - 2 < n" "n - 1 < n" using d s(2) by auto
  then have dist: "distinct [p, q, dq]" by (auto simp: p_def q_def dq_def idx simp del: One_nat_def)
  obtain mem1 where gen: "raid6_gen_syndrome (mem'(z := replicate len 0)) (int n) len (ptrs[d1 := z, n - 1 := dq]) = Some mem1"
    and others: "\<And>j. j < n - 2 \<Longrightarrow> j \<noteq> d1 \<Longrightarrow> mem1 (ptrs ! j) = mem (ptrs ! j)" and m1: "mem1 q = mem' q"
    and lm: "length (mem1 p) = len" "length (mem1 dq) = len"
    and dpq: "\<And>i. i < len \<Longrightarrow> mem1 p ! i = mem p ! i XOR mem dq ! i"
      "\<And>i. i < len \<Longrightarrow> mem1 dq ! i = mem q ! i XOR gfmul (gf_power 2 d1) (mem dq ! i)"
    using syndrome_without_one [OF ok dmg d len8 z] unfolding p_def q_def dq_def by metis
  let ?qm = "gf_inv (gf_power 2 d1)"
  let ?err = "\<lambda>i. gfmul ?qm (mem' q ! i XOR mem q ! i)"
  have inv: "gfmul ?qm (gfmul (gf_power 2 d1) x) = x" for x
    by (metis gf_inv_mult gf_power_nonzero gfmul_1_left gfmul_assoc gfmul_comm)
  have dv: "gfmul ?qm (mem1 q ! i XOR mem1 dq ! i) = mem dq ! i XOR ?err i" if "i < len" for i
    using that by (simp add: m1 dpq gf_distrib inv ac_simps)
  have pv: "mem1 p ! i XOR (mem dq ! i XOR ?err i) = mem p ! i XOR ?err i" if "i < len" for i
    using that by (simp add: dpq xor.assoc)
  have "length (mem1 q) = len"
    unfolding m1 unfolding q_def using dmg [unfolded damaged_def, rule_format, of "n - 1"] s(3,5) ix(6) by simp
  moreover have "map (\<lambda>i. gfmul ?qm (mem1 q ! i XOR mem1 dq ! i)) [0..<len] = map (\<lambda>i. mem dq ! i XOR ?err i) [0..<len]"
    "map (\<lambda>i. mem1 p ! i XOR gfmul ?qm (mem1 q ! i XOR mem1 dq ! i)) [0..<len] = map (\<lambda>i. mem p ! i XOR ?err i) [0..<len]"
    by (intro map_cong refl; simp only: set_upt atLeastLessThan_iff dv pv)+
  ultimately have "recov_datap_loop ?qm mem1 p q dq 0 len =
      Some (mem1(dq := map (\<lambda>i. mem dq ! i XOR ?err i) [0..<len], p := map (\<lambda>i. mem p ! i XOR ?err i) [0..<len]))"
    using recov_datap_loop_ok [OF dist lm(1) _ lm(2), of ?qm] by (simp only:)
  moreover have "table_get raid6_gfexp d1 = Some (gf_power 2 d1)" "table_get raid6_gfinv (unat (gf_power 2 d1)) = Some ?qm"
    using d n unsigned_less [where 'a = nat, of "gf_power 2 d1"] by (simp_all add: gfexp_power gf_inv_def)
  ultimately have "raid6_recov_datap (Some z) mem' (int n) len (int d1) ptrs = Some (0, mem1(dq := map (\<lambda>i. mem dq ! i XOR ?err i) [0..<len],
      p := map (\<lambda>i. mem p ! i XOR ?err i) [0..<len]))"
    using d s(2) gen by (simp add: raid6_recov_datap_def Let_def flip: p_def q_def [unfolded One_nat_def] dq_def)
  moreover have "ptrs ! j \<noteq> dq \<and> ptrs ! j \<noteq> p" if "j < n - 2" "j \<noteq> d1" for j
    using that ix idx [of j d1] idx [of j "n - 2"] by (simp add: p_def dq_def)
  ultimately show ?thesis
    using others m1 dist unfolding p_def q_def dq_def by (intro exI conjI) (assumption | simp)+
qed

end
