(* ===== verification/Volumes.thy ===== *)
theory Volumes
  imports ExtentCache Raid56 "HOL-Library.Monad_Syntax" "HOL-Library.Multiset"
begin

text \<open>
  Chunks and the mapping of logical addresses to places on the devices (\<open>volumes.c\<close>, \<open>volumes.h\<close>).

  A \<open>struct map_lookup\<close> is a record with its \<open>cache_extent\<close> in it. The mapping tree is the cache tree
  of these extents; \<open>container_of\<close>, which turns a pointer to the extent into one to the \<open>map_lookup\<close>
  around it, is the function \<open>mt_map\<close>. Devices are named by their addresses.

  The fields that are \<open>int\<close> in C are integers; the product of two of them is \<open>None\<close> when it
  overflows, and so is a division by zero. Where an \<open>int\<close> meets a \<open>u64\<close> it is converted, and a \<open>u64\<close>
  that is assigned to an \<open>int\<close> keeps its low 32 bits. The result of the allocations that a call makes
  is an argument.
\<close>

unbundle bit_operations_syntax

section \<open>Conversions\<close>

definition c_mul :: "int \<Rightarrow> int \<Rightarrow> int option" where
  "c_mul a b = (if - (2 ^ 31) \<le> a * b \<and> a * b < 2 ^ 31 then Some (a * b) else None)"

definition c_div :: "int \<Rightarrow> int \<Rightarrow> int option" where
  "c_div a b = (if b = 0 then None else Some (sgn a * sgn b * (\<bar>a\<bar> div \<bar>b\<bar>)))"

definition u_div :: "u64 \<Rightarrow> u64 \<Rightarrow> u64 option" where
  "u_div a b = (if b = 0 then None else Some (a div b))"

definition u_mod :: "u64 \<Rightarrow> u64 \<Rightarrow> u64 option" where
  "u_mod a b = (if b = 0 then None else Some (a mod b))"

section \<open>Flags and attributes of a profile\<close>

definition BLOCK_GROUP_DATA :: u64 where "BLOCK_GROUP_DATA = 1"
definition BLOCK_GROUP_SYSTEM :: u64 where "BLOCK_GROUP_SYSTEM = 2"
definition BLOCK_GROUP_METADATA :: u64 where "BLOCK_GROUP_METADATA = 4"
definition BLOCK_GROUP_RAID0 :: u64 where "BLOCK_GROUP_RAID0 = 8"
definition BLOCK_GROUP_RAID1 :: u64 where "BLOCK_GROUP_RAID1 = 16"
definition BLOCK_GROUP_DUP :: u64 where "BLOCK_GROUP_DUP = 32"
definition BLOCK_GROUP_RAID10 :: u64 where "BLOCK_GROUP_RAID10 = 64"
definition BLOCK_GROUP_RAID5 :: u64 where "BLOCK_GROUP_RAID5 = 128"
definition BLOCK_GROUP_RAID6 :: u64 where "BLOCK_GROUP_RAID6 = 256"

definition BLOCK_GROUP_TYPE_MASK :: u64 where
  "BLOCK_GROUP_TYPE_MASK = BLOCK_GROUP_DATA OR BLOCK_GROUP_SYSTEM OR BLOCK_GROUP_METADATA"

definition BLOCK_GROUP_PROFILE_MASK :: u64 where
  "BLOCK_GROUP_PROFILE_MASK =
     BLOCK_GROUP_RAID0 OR BLOCK_GROUP_RAID1 OR BLOCK_GROUP_RAID5 OR BLOCK_GROUP_RAID6 OR
     BLOCK_GROUP_DUP OR BLOCK_GROUP_RAID10"

lemmas block_group_defs =
  BLOCK_GROUP_DATA_def BLOCK_GROUP_SYSTEM_def BLOCK_GROUP_METADATA_def BLOCK_GROUP_RAID0_def
  BLOCK_GROUP_RAID1_def BLOCK_GROUP_DUP_def BLOCK_GROUP_RAID10_def BLOCK_GROUP_RAID5_def
  BLOCK_GROUP_RAID6_def BLOCK_GROUP_TYPE_MASK_def BLOCK_GROUP_PROFILE_MASK_def

definition has_flag :: "u64 \<Rightarrow> u64 \<Rightarrow> bool" where
  "has_flag ty f \<longleftrightarrow> ty AND f \<noteq> 0"

datatype btrfs_raid_types =
  BTRFS_RAID_RAID10 | BTRFS_RAID_RAID1 | BTRFS_RAID_DUP | BTRFS_RAID_RAID0 | BTRFS_RAID_SINGLE |
  BTRFS_RAID_RAID5 | BTRFS_RAID_RAID6

record btrfs_raid_attr =
  ra_sub_stripes :: int
  ra_dev_stripes :: int
  ra_devs_max :: int
  ra_devs_min :: int
  ra_tolerated_failures :: int
  ra_devs_increment :: int
  ra_ncopies :: int

fun btrfs_raid_array :: "btrfs_raid_types \<Rightarrow> btrfs_raid_attr" where
  "btrfs_raid_array BTRFS_RAID_RAID10 =
     \<lparr>ra_sub_stripes = 2, ra_dev_stripes = 1, ra_devs_max = 0, ra_devs_min = 4,
      ra_tolerated_failures = 1, ra_devs_increment = 2, ra_ncopies = 2\<rparr>"
| "btrfs_raid_array BTRFS_RAID_RAID1 =
     \<lparr>ra_sub_stripes = 1, ra_dev_stripes = 1, ra_devs_max = 2, ra_devs_min = 2,
      ra_tolerated_failures = 1, ra_devs_increment = 2, ra_ncopies = 2\<rparr>"
| "btrfs_raid_array BTRFS_RAID_DUP =
     \<lparr>ra_sub_stripes = 1, ra_dev_stripes = 2, ra_devs_max = 1, ra_devs_min = 1,
      ra_tolerated_failures = 0, ra_devs_increment = 1, ra_ncopies = 2\<rparr>"
| "btrfs_raid_array BTRFS_RAID_RAID0 =
     \<lparr>ra_sub_stripes = 1, ra_dev_stripes = 1, ra_devs_max = 0, ra_devs_min = 2,
      ra_tolerated_failures = 0, ra_devs_increment = 1, ra_ncopies = 1\<rparr>"
| "btrfs_raid_array BTRFS_RAID_SINGLE =
     \<lparr>ra_sub_stripes = 1, ra_dev_stripes = 1, ra_devs_max = 1, ra_devs_min = 1,
      ra_tolerated_failures = 0, ra_devs_increment = 1, ra_ncopies = 1\<rparr>"
| "btrfs_raid_array BTRFS_RAID_RAID5 =
     \<lparr>ra_sub_stripes = 1, ra_dev_stripes = 1, ra_devs_max = 0, ra_devs_min = 2,
      ra_tolerated_failures = 1, ra_devs_increment = 1, ra_ncopies = 2\<rparr>"
| "btrfs_raid_array BTRFS_RAID_RAID6 =
     \<lparr>ra_sub_stripes = 1, ra_dev_stripes = 1, ra_devs_max = 0, ra_devs_min = 3,
      ra_tolerated_failures = 2, ra_devs_increment = 1, ra_ncopies = 3\<rparr>"

definition btrfs_bg_flags_to_raid_index :: "u64 \<Rightarrow> btrfs_raid_types" where
  "btrfs_bg_flags_to_raid_index flags =
     (if has_flag flags BLOCK_GROUP_RAID10 then BTRFS_RAID_RAID10
      else if has_flag flags BLOCK_GROUP_RAID1 then BTRFS_RAID_RAID1
      else if has_flag flags BLOCK_GROUP_DUP then BTRFS_RAID_DUP
      else if has_flag flags BLOCK_GROUP_RAID0 then BTRFS_RAID_RAID0
      else if has_flag flags BLOCK_GROUP_RAID5 then BTRFS_RAID_RAID5
      else if has_flag flags BLOCK_GROUP_RAID6 then BTRFS_RAID_RAID6
      else BTRFS_RAID_SINGLE)"

section \<open>Devices, chunks and the mapping tree\<close>

record btrfs_device =
  dev_devid :: u64
  dev_uuid :: "u8 list"
  dev_fd :: int
  dev_writeable :: bool

record btrfs_bio_stripe =
  bs_dev :: nat
  bs_physical :: u64

record btrfs_multi_bio =
  mb_num_stripes :: int
  mb_stripes :: "btrfs_bio_stripe list"

record map_lookup =
  ml_ce :: cache_extent
  ml_type :: u64
  ml_io_align :: int
  ml_io_width :: int
  ml_stripe_len :: int
  ml_sector_size :: int
  ml_num_stripes :: int
  ml_sub_stripes :: int
  ml_stripes :: "btrfs_bio_stripe list"

record btrfs_mapping_tree =
  mt_cache :: cache_tree
  mt_map :: "cache_extent \<Rightarrow> map_lookup"

definition nr_parity_stripes :: "map_lookup \<Rightarrow> int" where
  "nr_parity_stripes m =
     (if has_flag (ml_type m) BLOCK_GROUP_RAID5 then 1
      else if has_flag (ml_type m) BLOCK_GROUP_RAID6 then 2
      else 0)"

definition nr_data_stripes :: "map_lookup \<Rightarrow> int" where
  "nr_data_stripes m = ml_num_stripes m - nr_parity_stripes m"

definition chunk_bytes_by_type :: "u64 \<Rightarrow> u64 \<Rightarrow> int \<Rightarrow> int \<Rightarrow> u64 option" where
  "chunk_bytes_by_type ty calc_size num_stripes sub_stripes =
     (if has_flag ty (BLOCK_GROUP_RAID1 OR BLOCK_GROUP_DUP) then Some calc_size
      else if has_flag ty BLOCK_GROUP_RAID10 then
        do { n \<leftarrow> c_div num_stripes sub_stripes; Some (calc_size * u64_of_int n) }
      else if has_flag ty BLOCK_GROUP_RAID5 then Some (calc_size * u64_of_int (num_stripes - 1))
      else if has_flag ty BLOCK_GROUP_RAID6 then Some (calc_size * u64_of_int (num_stripes - 2))
      else Some (calc_size * u64_of_int num_stripes))"

definition calc_stripe_length :: "u64 \<Rightarrow> u64 \<Rightarrow> int \<Rightarrow> u64 option" where
  "calc_stripe_length ty len num_stripes =
     (if has_flag ty BLOCK_GROUP_RAID0 then u_div len (u64_of_int num_stripes)
      else if has_flag ty BLOCK_GROUP_RAID10 then u_div (len * 2) (u64_of_int num_stripes)
      else if has_flag ty BLOCK_GROUP_RAID5 then u_div len (u64_of_int (num_stripes - 1))
      else if has_flag ty BLOCK_GROUP_RAID6 then u_div len (u64_of_int (num_stripes - 2))
      else Some len)"

section \<open>Looking at the mapping\<close>

text \<open>
  \<open>btrfs_num_copies\<close>. The second test compares with \<open><\<close>; the search never returns an extent that ends
  before the address.
\<close>

definition btrfs_num_copies :: "btrfs_mapping_tree \<Rightarrow> u64 \<Rightarrow> int" where
  "btrfs_num_copies mt logical =
     (case search_cache_extent (mt_cache mt) logical of
        None \<Rightarrow> 1
      | Some p \<Rightarrow>
          let ce = cur_entry p in
          if ce_start ce > logical \<or> ce_start ce + ce_size ce < logical then 1
          else
            let m = mt_map mt ce in
            if has_flag (ml_type m) (BLOCK_GROUP_DUP OR BLOCK_GROUP_RAID1) then ml_num_stripes m
            else if has_flag (ml_type m) BLOCK_GROUP_RAID10 then ml_sub_stripes m
            else if has_flag (ml_type m) BLOCK_GROUP_RAID5 then 2
            else if has_flag (ml_type m) BLOCK_GROUP_RAID6 then 3
            else 1)"

text \<open>
  \<open>btrfs_next_bg\<close>: the result is the value returned with \<open>*logical\<close> and \<open>*size\<close> when they are set.
  \<open>next_bg_at\<close> is the test of the loop with the step at the start of its body; both ways out return
  \<open>-ENOENT\<close>.
\<close>

definition next_bg_at :: "u64 \<Rightarrow> cache_ptr option \<Rightarrow> cache_ptr option" where
  "next_bg_at cur ce =
     (case ce of None \<Rightarrow> None | Some p \<Rightarrow> if cur \<noteq> 0 then next_cache_extent p else Some p)"

partial_function (option) next_bg_loop ::
  "btrfs_mapping_tree \<Rightarrow> u64 \<Rightarrow> u64 \<Rightarrow> cache_ptr option \<Rightarrow> (int \<times> (u64 \<times> u64) option) option" where
  "next_bg_loop mt ty cur ce =
     (case next_bg_at cur ce of
        None \<Rightarrow> Some (- ENOENT, None)
      | Some q \<Rightarrow>
          let cur1 = ce_start (cur_entry q) in
          if has_flag (ml_type (mt_map mt (cur_entry q))) ty
          then Some (0, Some (cur1, ce_size (cur_entry q)))
          else next_bg_loop mt ty cur1 (if cur1 = 0 then next_cache_extent q else Some q))"

definition btrfs_next_bg :: "btrfs_mapping_tree \<Rightarrow> u64 \<Rightarrow> u64 \<Rightarrow> (int \<times> (u64 \<times> u64) option) option" where
  "btrfs_next_bg mt logical ty = next_bg_loop mt ty logical (search_cache_extent (mt_cache mt) logical)"

section \<open>From a device to logical addresses\<close>

definition rmap_stripe_nr :: "map_lookup \<Rightarrow> u64 \<Rightarrow> nat \<Rightarrow> u64 option" where
  "rmap_stripe_nr m physical i =
     do {
       nr \<leftarrow> u_div (physical - bs_physical (ml_stripes m ! i)) (u64_of_int (ml_stripe_len m));
       if has_flag (ml_type m) BLOCK_GROUP_RAID10 then
         u_div (nr * u64_of_int (ml_num_stripes m) + of_nat i) (u64_of_int (ml_sub_stripes m))
       else if has_flag (ml_type m) BLOCK_GROUP_RAID0 then
         Some (nr * u64_of_int (ml_num_stripes m) + of_nat i)
       else Some nr
     }"

text \<open>The loop over the stripes; the list holds the first \<open>nr\<close> entries of \<open>buf\<close>.\<close>

fun rmap_loop ::
  "(nat \<Rightarrow> btrfs_device) \<Rightarrow> map_lookup \<Rightarrow> u64 \<Rightarrow> u64 \<Rightarrow> u64 \<Rightarrow> u64 \<Rightarrow> nat list \<Rightarrow> u64 list \<Rightarrow> u64 list option" where
  "rmap_loop devs m physical devid len rmap_len [] buf = Some buf"
| "rmap_loop devs m physical devid len rmap_len (i # is) buf =
     (if i \<ge> length (ml_stripes m) then None
      else
        let s = ml_stripes m ! i in
        if devid \<noteq> 0 \<and> dev_devid (devs (bs_dev s)) \<noteq> devid then
          rmap_loop devs m physical devid len rmap_len is buf
        else if bs_physical s > physical \<or> bs_physical s + len \<le> physical then
          rmap_loop devs m physical devid len rmap_len is buf
        else
          do {
            stripe_nr \<leftarrow> rmap_stripe_nr m physical i;
            let bytenr = ce_start (ml_ce m) + stripe_nr * rmap_len;
            rmap_loop devs m physical devid len rmap_len is
              (if bytenr \<in> set buf then buf else buf @ [bytenr])
          })"

definition rmap_lengths :: "map_lookup \<Rightarrow> (u64 \<times> u64) option" where
  "rmap_lengths m =
     (let sz = ce_size (ml_ce m) in
      if has_flag (ml_type m) BLOCK_GROUP_RAID10 then
        do {
          n \<leftarrow> c_div (ml_num_stripes m) (ml_sub_stripes m);
          len \<leftarrow> u_div sz (u64_of_int n);
          Some (len, u64_of_int (ml_stripe_len m))
        }
      else if has_flag (ml_type m) BLOCK_GROUP_RAID0 then
        do {
          len \<leftarrow> u_div sz (u64_of_int (ml_num_stripes m));
          Some (len, u64_of_int (ml_stripe_len m))
        }
      else if has_flag (ml_type m) (BLOCK_GROUP_RAID5 OR BLOCK_GROUP_RAID6) then
        do {
          len \<leftarrow> u_div sz (u64_of_int (nr_data_stripes m));
          rmap_len \<leftarrow> c_mul (ml_stripe_len m) (nr_data_stripes m);
          Some (len, u64_of_int rmap_len)
        }
      else Some (sz, u64_of_int (ml_stripe_len m)))"

text \<open>
  \<open>btrfs_rmap_block\<close>: the addresses and the value stored in \<open>*stripe_len\<close>. \<open>mem\<close> says whether
  \<open>kzalloc\<close> gives memory, which the code does not ask.
\<close>

definition btrfs_rmap_block ::
  "bool \<Rightarrow> (nat \<Rightarrow> btrfs_device) \<Rightarrow> btrfs_mapping_tree \<Rightarrow> u64 \<Rightarrow> u64 \<Rightarrow> u64 \<Rightarrow> (u64 list \<times> int) option" where
  "btrfs_rmap_block mem devs mt chunk_start physical devid =
     (case search_cache_extent (mt_cache mt) chunk_start of
        None \<Rightarrow> None
      | Some p \<Rightarrow>
          let m = mt_map mt (cur_entry p) in
          do {
            (len, rmap_len) \<leftarrow> rmap_lengths m;
            buf \<leftarrow> rmap_loop devs m physical devid len rmap_len [0..<nat (ml_num_stripes m)] [];
            if \<not> mem \<and> buf \<noteq> [] then None else Some (buf, int_of_u64 rmap_len)
          })"

section \<open>Sorting the stripes of a parity write\<close>

text \<open>
  \<open>sort_parity_stripes\<close> exchanges entries of the two arrays \<open>raid_map\<close> and \<open>bbio->stripes\<close> together:
  the two are one list of pairs here.
\<close>

definition parity_smaller :: "u64 \<Rightarrow> u64 \<Rightarrow> bool" where
  "parity_smaller a b \<longleftrightarrow> a > b"

fun sort_parity_pass :: "(u64 \<times> 'a) list \<Rightarrow> bool \<times> (u64 \<times> 'a) list" where
  "sort_parity_pass (x # y # r) =
     (if parity_smaller (fst x) (fst y) then
        let p = sort_parity_pass (x # r) in (True, y # snd p)
      else
        let p = sort_parity_pass (y # r) in (fst p, x # snd p))"
| "sort_parity_pass xs = (False, xs)"

text \<open>The number of pairs in the wrong order, which every pass that exchanges something lowers.\<close>

fun inversions :: "(u64 \<times> 'a) list \<Rightarrow> nat" where
  "inversions [] = 0"
| "inversions (x # xs) = length (filter (\<lambda>y. fst y < fst x) xs) + inversions xs"

lemma mset_sort_parity_pass [simp]: "mset (snd (sort_parity_pass xs)) = mset xs"
  by (induction xs rule: sort_parity_pass.induct) (auto simp: Let_def)

lemma filter_sort_parity_pass [simp]:
  "length (filter P (snd (sort_parity_pass xs))) = length (filter P xs)"
  using mset_sort_parity_pass [of xs] by (metis mset_filter size_mset)

lemma inversions_pass:
  "inversions (snd (sort_parity_pass xs)) \<le> inversions xs"
  "fst (sort_parity_pass xs) \<Longrightarrow> inversions (snd (sort_parity_pass xs)) < inversions xs"
  by (induction xs rule: sort_parity_pass.induct)
    (auto simp: Let_def parity_smaller_def simp del: less_Suc_eq_le intro: le_imp_less_Suc)

function sort_parity_stripes :: "(u64 \<times> 'a) list \<Rightarrow> (u64 \<times> 'a) list" where
  "sort_parity_stripes xs =
     (let (again, ys) = sort_parity_pass xs in if again then sort_parity_stripes ys else ys)"
  by pat_completeness auto

termination
proof (relation "measure inversions", goal_cases)
  case (2 xs p again ys)
  then have "fst (sort_parity_pass xs)" "ys = snd (sort_parity_pass xs)" by (metis fst_conv snd_conv)+
  then show ?case using inversions_pass(2) [of xs] by simp
qed simp

declare sort_parity_stripes.simps [simp del]

section \<open>From a logical address to the devices\<close>

definition READ :: int where "READ = 0"
definition WRITE :: int where "WRITE = 1"

definition BTRFS_RAID5_P_STRIPE :: u64 where "BTRFS_RAID5_P_STRIPE = - 2"
definition BTRFS_RAID6_Q_STRIPE :: u64 where "BTRFS_RAID6_Q_STRIPE = - 1"

text \<open>
  What the allocations of a call give: whether there is memory for the \<open>multi_bio\<close> and for the
  \<open>raid_map\<close>, and what the latter, which is not cleared, contains.
\<close>

record map_mem =
  mm_multi :: bool
  mm_raid_map :: bool
  mm_junk :: "nat \<Rightarrow> u64"

text \<open>
  The results: the value returned, what is stored in \<open>*length\<close>, in \<open>*type\<close> if that is asked for, in
  \<open>*multi_ret\<close> and in \<open>*raid_map_ret\<close>; \<open>None\<close> where nothing is stored.
\<close>

record map_result =
  mr_ret :: int
  mr_length :: "u64 option"
  mr_type :: "u64 option"
  mr_multi :: "btrfs_multi_bio option"
  mr_raid_map :: "u64 list option"

definition wants_raid_map :: "map_lookup \<Rightarrow> int \<Rightarrow> bool \<Rightarrow> int \<Rightarrow> bool \<Rightarrow> bool" where
  "wants_raid_map m rw multi_ret mirror_num raid_map_ret \<longleftrightarrow>
     has_flag (ml_type m) (BLOCK_GROUP_RAID5 OR BLOCK_GROUP_RAID6) \<and>
     multi_ret \<and> (rw AND WRITE \<noteq> 0 \<or> mirror_num > 1) \<and> raid_map_ret"

definition stripes_required :: "map_lookup \<Rightarrow> int \<Rightarrow> bool \<Rightarrow> int \<Rightarrow> bool \<Rightarrow> int" where
  "stripes_required m rw multi_ret mirror_num raid_map_ret =
     (if wants_raid_map m rw multi_ret mirror_num raid_map_ret then ml_num_stripes m
      else if rw = WRITE \<and> has_flag (ml_type m) (BLOCK_GROUP_RAID1 OR BLOCK_GROUP_DUP) then ml_num_stripes m
      else if rw = WRITE \<and> has_flag (ml_type m) BLOCK_GROUP_RAID10 then ml_sub_stripes m
      else 1)"

text \<open>
  The number of stripes there is room for. The first attempt is made with 8 of them, or with one for a
  read; if that is not enough the code jumps back to \<open>again\<close> and allocates what is required, and
  the second attempt finds the same extent and the same requirement.
\<close>

definition stripes_allocated :: "int \<Rightarrow> bool \<Rightarrow> int \<Rightarrow> int" where
  "stripes_allocated rw multi_ret required =
     (let allocated = (if multi_ret \<and> rw = READ then 1 else 8)
      in if multi_ret \<and> allocated < required then required else allocated)"

text \<open>
  Where the data is: the number of the stripe in \<open>map->stripes\<close>, the number of stripes to walk
  on its device, the number of stripes to return.
\<close>

definition map_block_index :: "map_lookup \<Rightarrow> int \<Rightarrow> int \<Rightarrow> u64 \<Rightarrow> (int \<times> u64 \<times> int) option" where
  "map_block_index m rw mirror_num stripe_nr =
     (let num = ml_num_stripes m in
      if has_flag (ml_type m) BLOCK_GROUP_RAID1 then
        (if rw = WRITE then Some (0, stripe_nr, num)
         else if mirror_num \<noteq> 0 then Some (mirror_num - 1, stripe_nr, 1)
         else do { i \<leftarrow> u_mod stripe_nr (u64_of_int num); Some (int_of_u64 i, stripe_nr, 1) })
      else if has_flag (ml_type m) BLOCK_GROUP_RAID10 then
        do {
          factor \<leftarrow> c_div num (ml_sub_stripes m);
          i \<leftarrow> u_mod stripe_nr (u64_of_int factor);
          index \<leftarrow> c_mul (int_of_u64 i) (ml_sub_stripes m);
          nr \<leftarrow> u_div stripe_nr (u64_of_int factor);
          if rw = WRITE then Some (index, nr, ml_sub_stripes m)
          else if mirror_num \<noteq> 0 then Some (index + (mirror_num - 1), nr, 1)
          else Some (index, nr, 1)
        }
      else if has_flag (ml_type m) BLOCK_GROUP_DUP then
        (if rw = WRITE then Some (0, stripe_nr, num)
         else if mirror_num \<noteq> 0 then Some (mirror_num - 1, stripe_nr, 1)
         else Some (0, stripe_nr, 1))
      else if has_flag (ml_type m) (BLOCK_GROUP_RAID5 OR BLOCK_GROUP_RAID6) then
        do {
          i \<leftarrow> u_mod stripe_nr (u64_of_int (nr_data_stripes m));
          nr \<leftarrow> u_div stripe_nr (u64_of_int (nr_data_stripes m));
          let index = (if mirror_num > 1 then nr_data_stripes m + mirror_num - 2 else int_of_u64 i);
          j \<leftarrow> u_mod (nr + u64_of_int index) (u64_of_int num);
          Some (int_of_u64 j, nr, 1)
        }
      else
        do {
          i \<leftarrow> u_mod stripe_nr (u64_of_int num);
          nr \<leftarrow> u_div stripe_nr (u64_of_int num);
          Some (int_of_u64 i, nr, 1)
        })"

text \<open>The loop that stores the logical addresses, for \<open>i\<close> counting up.\<close>

fun raid_map_loop :: "map_lookup \<Rightarrow> u64 \<Rightarrow> nat \<Rightarrow> nat list \<Rightarrow> u64 list \<Rightarrow> u64 list option" where
  "raid_map_loop m tmp rot [] rmap = Some rmap"
| "raid_map_loop m tmp rot (i # is) rmap =
     (let j = (i + rot) mod nat (ml_num_stripes m) in
      if j < length rmap then
        raid_map_loop m tmp rot is
          (rmap[j := ce_start (ml_ce m) + (tmp + of_nat i) * u64_of_int (ml_stripe_len m)])
      else None)"

text \<open>The \<open>raid_map\<close> of the full stripe around an offset, with the number of that stripe.\<close>

definition full_stripe_map :: "map_lookup \<Rightarrow> u64 \<Rightarrow> (nat \<Rightarrow> u64) \<Rightarrow> (u64 \<times> u64 list) option" where
  "full_stripe_map m offset junk =
     do {
       len \<leftarrow> c_mul (nr_data_stripes m) (ml_stripe_len m);
       full \<leftarrow> u_div offset (u64_of_int len);
       let start = full * u64_of_int len;
       nr1 \<leftarrow> u_div start (u64_of_int (ml_stripe_len m));
       nr \<leftarrow> u_div nr1 (u64_of_int (nr_data_stripes m));
       r \<leftarrow> u_mod nr (u64_of_int (ml_num_stripes m));
       let rot = nat (int_of_u64 r);
       let num = nat (ml_num_stripes m);
       let n = nat (nr_data_stripes m);
       rmap \<leftarrow> raid_map_loop m (nr * u64_of_int (nr_data_stripes m)) rot [0..<n] (map junk [0..<num]);
       let rmap1 = rmap[(n + rot) mod num := BTRFS_RAID5_P_STRIPE];
       let rmap2 = (if has_flag (ml_type m) BLOCK_GROUP_RAID6
                    then rmap1[(n + rot + 1) mod num := BTRFS_RAID6_Q_STRIPE] else rmap1);
       Some (nr, rmap2)
     }"

fun fill_stripes :: "map_lookup \<Rightarrow> u64 \<Rightarrow> u64 \<Rightarrow> int \<Rightarrow> nat \<Rightarrow> btrfs_bio_stripe list option" where
  "fill_stripes m stripe_offset stripe_nr stripe_index 0 = Some []"
| "fill_stripes m stripe_offset stripe_nr stripe_index (Suc n) =
     (if 0 \<le> stripe_index \<and> nat stripe_index < length (ml_stripes m) then
        let s = ml_stripes m ! nat stripe_index in
        do {
          ss \<leftarrow> fill_stripes m stripe_offset stripe_nr (stripe_index + 1) n;
          Some (\<lparr>bs_dev = bs_dev s,
                 bs_physical = bs_physical s + stripe_offset + stripe_nr * u64_of_int (ml_stripe_len m)\<rparr> # ss)
        }
      else None)"

text \<open>The length that is mapped, from the offset in the chunk and in the stripe.\<close>

definition map_block_length :: "map_lookup \<Rightarrow> u64 \<Rightarrow> u64 \<Rightarrow> u64" where
  "map_block_length m offset stripe_offset =
     (if has_flag (ml_type m)
           (BLOCK_GROUP_RAID0 OR BLOCK_GROUP_RAID1 OR BLOCK_GROUP_RAID5 OR BLOCK_GROUP_RAID6 OR
            BLOCK_GROUP_RAID10 OR BLOCK_GROUP_DUP)
      then min (ce_size (ml_ce m) - offset) (u64_of_int (ml_stripe_len m) - stripe_offset)
      else ce_size (ml_ce m) - offset)"

text \<open>
  The second half of \<open>__btrfs_map_block\<close>, from the computation of \<open>stripe_nr\<close> on. With the flags of two
  profiles at once the code may sort a \<open>raid_map\<close> that it never filled, which is \<open>None\<close> here.
\<close>

definition map_chunk ::
  "map_mem \<Rightarrow> map_lookup \<Rightarrow> int \<Rightarrow> u64 \<Rightarrow> bool \<Rightarrow> int \<Rightarrow> bool \<Rightarrow> int \<Rightarrow> map_result option" where
  "map_chunk mem m rw offset multi_ret mirror_num raid_map allocated =
     do {
       stripe_nr \<leftarrow> u_div offset (u64_of_int (ml_stripe_len m));
       let stripe_start = stripe_nr * u64_of_int (ml_stripe_len m);
       if offset < stripe_start then None else
       let stripe_offset = offset - stripe_start;
           len = map_block_length m offset stripe_offset
       in if \<not> multi_ret then
         Some \<lparr>mr_ret = 0, mr_length = Some len, mr_type = None, mr_multi = None, mr_raid_map = None\<rparr>
       else if raid_map \<and> has_flag (ml_type m) (BLOCK_GROUP_RAID1 OR BLOCK_GROUP_RAID10 OR BLOCK_GROUP_DUP)
       then None
       else if raid_map then
         do {
           (nr, rmap) \<leftarrow> full_stripe_map m offset (mm_junk mem);
           if 0 \<ge> ml_num_stripes m \<or> ml_num_stripes m > allocated then None else
           do {
             ss \<leftarrow> fill_stripes m 0 nr 0 (nat (ml_num_stripes m));
             let sorted = sort_parity_stripes (zip rmap ss);
             Some \<lparr>mr_ret = 0, mr_length = Some (u64_of_int (ml_stripe_len m)), mr_type = Some (ml_type m),
                   mr_multi = Some \<lparr>mb_num_stripes = ml_num_stripes m, mb_stripes = map snd sorted\<rparr>,
                   mr_raid_map = Some (map fst sorted)\<rparr>
           }
         }
       else
         do {
           (index, nr, num) \<leftarrow> map_block_index m rw mirror_num stripe_nr;
           if index \<ge> ml_num_stripes m \<or> num > allocated then None else
           do {
             ss \<leftarrow> fill_stripes m stripe_offset nr index (nat num);
             Some \<lparr>mr_ret = 0, mr_length = Some len, mr_type = Some (ml_type m),
                   mr_multi = Some \<lparr>mb_num_stripes = num, mb_stripes = ss\<rparr>, mr_raid_map = None\<rparr>
           }
         }
     }"

abbreviation map_error :: "int \<Rightarrow> u64 option \<Rightarrow> map_result" where
  "map_error ret len \<equiv>
     \<lparr>mr_ret = ret, mr_length = len, mr_type = None, mr_multi = None, mr_raid_map = None\<rparr>"

definition map_block ::
  "map_mem \<Rightarrow> btrfs_mapping_tree \<Rightarrow> int \<Rightarrow> u64 \<Rightarrow> bool \<Rightarrow> int \<Rightarrow> bool \<Rightarrow> map_result option" where
  "map_block mem mt rw logical multi_ret mirror_num raid_map_ret =
     (case search_cache_extent (mt_cache mt) logical of
        None \<Rightarrow> Some (map_error (- ENOENT) (Some (- 1)))
      | Some p \<Rightarrow>
          let ce = cur_entry p in
          if ce_start ce > logical then Some (map_error (- ENOENT) (Some (ce_start ce - logical)))
          else if multi_ret \<and> \<not> mm_multi mem then Some (map_error (- ENOMEM) None)
          else
            let m = mt_map mt ce;
                raid_map = wants_raid_map m rw multi_ret mirror_num raid_map_ret
            in if raid_map \<and> \<not> mm_raid_map mem then Some (map_error (- ENOMEM) None)
            else map_chunk mem m rw (logical - ce_start ce) multi_ret mirror_num raid_map
                   (stripes_allocated rw multi_ret
                      (stripes_required m rw multi_ret mirror_num raid_map_ret)))"

section \<open>Chunk items\<close>

record btrfs_stripe =
  st_devid :: u64
  st_offset :: u64
  st_dev_uuid :: "u8 list"

record btrfs_chunk =
  ck_length :: u64
  ck_owner :: u64
  ck_stripe_len :: u64
  ck_type :: u64
  ck_io_align :: u32
  ck_io_width :: u32
  ck_sector_size :: u32
  ck_num_stripes :: u16
  ck_sub_stripes :: u16
  ck_stripes :: "btrfs_stripe list"

text \<open>\<open>BUG_ON (num_stripes == 0)\<close>; a chunk takes 80 bytes with its first stripe, each other stripe 32.\<close>

definition btrfs_chunk_item_size :: "nat \<Rightarrow> nat option" where
  "btrfs_chunk_item_size num_stripes = (if num_stripes = 0 then None else Some (80 + 32 * (num_stripes - 1)))"

abbreviation (input) BTRFS_SYSTEM_CHUNK_ARRAY_SIZE :: nat where "BTRFS_SYSTEM_CHUNK_ARRAY_SIZE \<equiv> 2048"

definition is_aligned :: "'a::len word \<Rightarrow> 'a word \<Rightarrow> bool" where
  "is_aligned x a \<longleftrightarrow> x AND (a - 1) = 0"

definition is_power_of_2 :: "u64 \<Rightarrow> bool" where
  "is_power_of_2 n \<longleftrightarrow> n \<noteq> 0 \<and> n AND (n - 1) = 0"

text \<open>
  \<open>btrfs_check_chunk_valid\<close>; \<open>item_size\<close> is the size of the item in the leaf, which is used for
  \<open>slot >= 0\<close> only.
\<close>

definition btrfs_check_chunk_valid :: "u32 \<Rightarrow> btrfs_chunk \<Rightarrow> int \<Rightarrow> nat \<Rightarrow> u64 \<Rightarrow> int option" where
  "btrfs_check_chunk_valid sectorsize chunk slot item_size logical =
     (let ty = ck_type chunk; num = ck_num_stripes chunk; sub = ck_sub_stripes chunk;
          profile = ty AND BLOCK_GROUP_PROFILE_MASK
      in if \<not> is_aligned logical (ucast sectorsize) then Some (- EIO)
      else if ck_sector_size chunk \<noteq> sectorsize then Some (- EIO)
      else if ck_length chunk = 0 \<or> \<not> is_aligned (ck_length chunk) (ucast sectorsize) then Some (- EIO)
      else if ck_stripe_len chunk \<noteq> of_nat BTRFS_STRIPE_LEN then Some (- EIO)
      else if slot = -1 \<and> ty AND BLOCK_GROUP_SYSTEM = 0 then Some (- EIO)
      else if ty AND NOT (BLOCK_GROUP_TYPE_MASK OR BLOCK_GROUP_PROFILE_MASK) \<noteq> 0 then Some (- EIO)
      else if \<not> has_flag ty BLOCK_GROUP_TYPE_MASK then Some (- EIO)
      else if \<not> (is_power_of_2 profile \<or> profile = 0) then Some (- EIO)
      else if profile \<noteq> 0 \<and> \<not> is_power_of_2 profile then Some (- EIO)
      else
        do {
          ondisk \<leftarrow> btrfs_chunk_item_size (unat num);
          if num < 1 \<or> slot = -1 \<and> ondisk > BTRFS_SYSTEM_CHUNK_ARRAY_SIZE \<or> slot \<ge> 0 \<and> ondisk > item_size
          then Some (- EIO)
          else if has_flag ty BLOCK_GROUP_RAID10 \<and> (sub \<noteq> 2 \<or> \<not> is_aligned num sub) \<or>
                  has_flag ty BLOCK_GROUP_RAID1 \<and> num < 1 \<or>
                  has_flag ty BLOCK_GROUP_RAID5 \<and> num < 2 \<or>
                  has_flag ty BLOCK_GROUP_RAID6 \<and> num < 3 \<or>
                  has_flag ty BLOCK_GROUP_DUP \<and> num > 2 \<or>
                  profile = 0 \<and> num \<noteq> 1
          then Some (- EIO)
          else Some 0
        })"

text \<open>
  \<open>btrfs_stripe_length\<close>: the length of the device extents of a chunk. The number of stripes is a \<open>u32\<close>
  there.
\<close>

definition btrfs_stripe_length :: "btrfs_chunk \<Rightarrow> u64 option" where
  "btrfs_stripe_length chunk =
     (let num = ucast (ck_num_stripes chunk) :: u32;
          profile = ck_type chunk AND BLOCK_GROUP_PROFILE_MASK;
          len = ck_length chunk
      in if profile = 0 \<or> profile = BLOCK_GROUP_RAID1 \<or> profile = BLOCK_GROUP_DUP then Some len
      else if profile = BLOCK_GROUP_RAID0 then u_div len (ucast num)
      else if profile = BLOCK_GROUP_RAID5 then u_div len (ucast (num - 1))
      else if profile = BLOCK_GROUP_RAID6 then u_div len (ucast (num - 2))
      else if profile = BLOCK_GROUP_RAID10 then
        (if ck_sub_stripes chunk = 0 then None else u_div len (ucast (num div ucast (ck_sub_stripes chunk))))
      else None)"

section \<open>Reading a chunk item into the mapping tree\<close>

record btrfs_fs_devices =
  fd_fsid :: "u8 list"
  fd_devices :: "nat list"

text \<open>
  The devices by their addresses, the chain of \<open>fs_devices\<close> linked by \<open>seed\<close>, the mapping tree.
\<close>

record volume_info =
  vi_devs :: "nat \<Rightarrow> btrfs_device"
  vi_fs_devices :: "btrfs_fs_devices list"
  vi_ignore_fsid_mismatch :: bool
  vi_is_chunk_recover :: bool
  vi_on_restoring :: bool
  vi_sectorsize :: u32
  vi_nodesize :: u32
  vi_mapping :: btrfs_mapping_tree

definition find_device :: "(nat \<Rightarrow> btrfs_device) \<Rightarrow> nat list \<Rightarrow> u64 \<Rightarrow> u8 list \<Rightarrow> nat option" where
  "find_device devs head devid uuid =
     find (\<lambda>d. dev_devid (devs d) = devid \<and> dev_uuid (devs d) = uuid) head"

fun find_device_in ::
  "(nat \<Rightarrow> btrfs_device) \<Rightarrow> bool \<Rightarrow> btrfs_fs_devices list \<Rightarrow> u64 \<Rightarrow> u8 list \<Rightarrow> u8 list option \<Rightarrow> nat option" where
  "find_device_in devs ignore [] devid uuid fsid = None"
| "find_device_in devs ignore (cur # seeds) devid uuid fsid =
     (case (if fsid = None \<or> Some (fd_fsid cur) = fsid \<or> ignore
            then find_device devs (fd_devices cur) devid uuid else None) of
        Some d \<Rightarrow> Some d
      | None \<Rightarrow> find_device_in devs ignore seeds devid uuid fsid)"

definition btrfs_find_device :: "volume_info \<Rightarrow> u64 \<Rightarrow> u8 list \<Rightarrow> u8 list option \<Rightarrow> nat option" where
  "btrfs_find_device vi devid uuid fsid =
     find_device_in (vi_devs vi) (vi_ignore_fsid_mismatch vi) (vi_fs_devices vi) devid uuid fsid"

fun find_devid_loop :: "(nat \<Rightarrow> btrfs_device) \<Rightarrow> u64 \<Rightarrow> int \<Rightarrow> int \<Rightarrow> nat list \<Rightarrow> nat option" where
  "find_devid_loop devs devid inst num_found [] = None"
| "find_devid_loop devs devid inst num_found (d # ds) =
     (if dev_devid (devs d) = devid then
        (if num_found = inst then Some d else find_devid_loop devs devid inst (num_found + 1) ds)
      else find_devid_loop devs devid inst num_found ds)"

definition btrfs_find_device_by_devid :: "(nat \<Rightarrow> btrfs_device) \<Rightarrow> btrfs_fs_devices \<Rightarrow> u64 \<Rightarrow> int \<Rightarrow> nat option" where
  "btrfs_find_device_by_devid devs fs_devices devid inst = find_devid_loop devs devid inst 0 (fd_devices fs_devices)"

text \<open>\<open>fill_missing_device\<close>; the memory is cleared.\<close>

definition fill_missing_device :: "u64 \<Rightarrow> btrfs_device" where
  "fill_missing_device devid =
     \<lparr>dev_devid = devid, dev_uuid = replicate 16 0, dev_fd = -1, dev_writeable = False\<rparr>"

definition add_missing :: "volume_info \<Rightarrow> nat \<Rightarrow> u64 \<Rightarrow> volume_info option" where
  "add_missing vi d devid =
     (case vi_fs_devices vi of
        [] \<Rightarrow> None
      | f # fs \<Rightarrow>
          Some (vi\<lparr>vi_devs := (vi_devs vi)(d := fill_missing_device devid),
                   vi_fs_devices := f\<lparr>fd_devices := d # fd_devices f\<rparr> # fs\<rparr>))"

text \<open>
  The loop over the stripes of a chunk item. \<open>kzalloc i\<close> is the address of a device that is allocated
  for stripe \<open>i\<close>, if there is memory; the code does not ask.
\<close>

fun read_stripes ::
  "(nat \<Rightarrow> nat option) \<Rightarrow> btrfs_chunk \<Rightarrow> nat list \<Rightarrow> volume_info \<Rightarrow> (btrfs_bio_stripe list \<times> volume_info) option" where
  "read_stripes kzalloc chunk [] vi = Some ([], vi)"
| "read_stripes kzalloc chunk (i # is) vi =
     (if i \<ge> length (ck_stripes chunk) then None
      else
        let s = ck_stripes chunk ! i in
        do {
          (d, vi1) \<leftarrow>
            (case btrfs_find_device vi (st_devid s) (st_dev_uuid s) None of
               Some d \<Rightarrow> Some (d, vi)
             | None \<Rightarrow>
                 do {
                   d \<leftarrow> kzalloc i;
                   vi1 \<leftarrow> add_missing vi d (st_devid s);
                   Some (d, vi1)
                 });
          (ss, vi2) \<leftarrow> read_stripes kzalloc chunk is vi1;
          Some (\<lparr>bs_dev = d, bs_physical = st_offset s\<rparr> # ss, vi2)
        })"

definition new_map :: "btrfs_chunk \<Rightarrow> u64 \<Rightarrow> btrfs_bio_stripe list \<Rightarrow> map_lookup" where
  "new_map chunk logical ss =
     \<lparr>ml_ce = \<lparr>ce_objectid = 0, ce_start = logical, ce_size = ck_length chunk\<rparr>,
      ml_type = ck_type chunk,
      ml_io_align = sint (ck_io_align chunk),
      ml_io_width = sint (ck_io_width chunk),
      ml_stripe_len = int_of_u64 (ck_stripe_len chunk),
      ml_sector_size = sint (ck_sector_size chunk),
      ml_num_stripes = uint (ck_num_stripes chunk),
      ml_sub_stripes = uint (ck_sub_stripes chunk),
      ml_stripes = ss\<rparr>"

text \<open>
  \<open>read_one_chunk\<close>; \<open>mem\<close> says whether \<open>kmalloc\<close> gives memory for the \<open>map_lookup\<close>. Its \<open>objectid\<close> is
  not set and not used.
\<close>

definition read_one_chunk ::
  "bool \<Rightarrow> (nat \<Rightarrow> nat option) \<Rightarrow> volume_info \<Rightarrow> u64 \<Rightarrow> btrfs_chunk \<Rightarrow> int \<Rightarrow> nat \<Rightarrow> (int \<times> volume_info) option" where
  "read_one_chunk mem kzalloc vi logical chunk slot item_size =
     do {
       ret \<leftarrow> btrfs_check_chunk_valid (vi_sectorsize vi) chunk slot item_size logical;
       if ret \<noteq> 0 then Some (ret, vi)
       else if (case search_cache_extent (mt_cache (vi_mapping vi)) logical of
                  None \<Rightarrow> False
                | Some p \<Rightarrow> ce_start (cur_entry p) \<le> logical \<and>
                            ce_start (cur_entry p) + ce_size (cur_entry p) > logical)
       then Some (0, vi)
       else if \<not> mem then Some (- ENOMEM, vi)
       else
         do {
           (ss, vi1) \<leftarrow> read_stripes kzalloc chunk [0..<unat (ck_num_stripes chunk)] vi;
           let m = new_map chunk logical ss;
           (ret1, t) \<leftarrow> insert_cache_extent (mt_cache (vi_mapping vi1)) (ml_ce m);
           if ret1 \<noteq> 0 then None
           else Some (0, vi1\<lparr>vi_mapping := \<lparr>mt_cache = t, mt_map = (mt_map (vi_mapping vi1))(ml_ce m := m)\<rparr>\<rparr>)
         }
     }"

text \<open>\<open>btrfs_chunk_readonly\<close>.\<close>

fun readonly_loop :: "(nat \<Rightarrow> btrfs_device) \<Rightarrow> map_lookup \<Rightarrow> nat list \<Rightarrow> bool option" where
  "readonly_loop devs m [] = Some False"
| "readonly_loop devs m (i # is) =
     (if i \<ge> length (ml_stripes m) then None
      else if \<not> dev_writeable (devs (bs_dev (ml_stripes m ! i))) then Some True
      else readonly_loop devs m is)"

definition btrfs_chunk_readonly :: "volume_info \<Rightarrow> u64 \<Rightarrow> bool option" where
  "btrfs_chunk_readonly vi chunk_offset =
     (let ce = search_cache_extent (mt_cache (vi_mapping vi)) chunk_offset in
      if vi_is_chunk_recover vi then Some False
      else
        case ce of
          None \<Rightarrow> None
        | Some p \<Rightarrow>
            let m = mt_map (vi_mapping vi) (cur_entry p)
            in readonly_loop (vi_devs vi) m [0..<nat (ml_num_stripes m)])"

end
