(* ===== verification/ChunkMap.thy ===== *)
theory ChunkMap
  imports Volumes
begin

text \<open>
  What the mapping of \<open>volumes.c\<close> computes, on natural numbers: a chunk is an array of device extents,
  and \<open>place\<close> says in which of them and in which row of stripes each copy of a stripe of the chunk is.
\<close>

section \<open>Words that stand for natural numbers\<close>

lemma u64_of_int_nat [simp]: "u64_of_int (int n) = of_nat n"
  by (simp add: u64_of_int_def)

lemma unat_of_nat_u64: "k < 2 ^ 64 \<Longrightarrow> unat (of_nat k :: u64) = k"
  by (simp add: unat_of_nat)

lemma of_nat_u64_eq_0: "n < 2 ^ 64 \<Longrightarrow> of_nat n = (0 :: u64) \<longleftrightarrow> n = 0"
  by (simp add: word_unat_eq_iff unat_of_nat)

lemma unat_u64: "unat (w :: u64) < 2 ^ 64"
  using unsigned_less [of w] by simp

lemma u_div_nat:
  assumes "k < 2 ^ 64" "n < 2 ^ 64" "0 < n"
  shows "u_div (of_nat k) (of_nat n) = Some (of_nat (k div n))"
proof -
  have "k div n < 2 ^ 64" using assms by (meson div_le_dividend le_less_trans)
  with assms show ?thesis
    by (simp add: u_div_def of_nat_u64_eq_0 word_unat_eq_iff unat_div_distrib unat_of_nat)
qed

lemma u_mod_nat:
  assumes "k < 2 ^ 64" "n < 2 ^ 64" "0 < n"
  shows "u_mod (of_nat k) (of_nat n) = Some (of_nat (k mod n))"
proof -
  have "k mod n < 2 ^ 64" using assms by (meson mod_less_eq_dividend le_less_trans)
  with assms show ?thesis
    by (simp add: u_mod_def of_nat_u64_eq_0 word_unat_eq_iff unat_mod_distrib unat_of_nat)
qed

lemma int_of_u64_nat:
  assumes "k < 2 ^ 31"
  shows "int_of_u64 (of_nat k) = int k"
proof -
  have "(ucast (of_nat k :: u64) :: u32) = of_nat k"
    using assms by (simp add: word_unat_eq_iff unat_of_nat unsigned_ucast_eq take_bit_eq_mod)
  then show ?thesis
    using assms by (simp add: int_of_u64_def signed_of_nat signed_take_bit_int_eq_self)
qed

lemma c_mul_nat: "a * b < 2 ^ 31 \<Longrightarrow> c_mul (int a) (int b) = Some (int (a * b))"
  by (simp add: c_mul_def flip: of_nat_mult)

lemma c_div_nat: "0 < b \<Longrightarrow> c_div (int a) (int b) = Some (int (a div b))"
  by (simp add: c_div_def zdiv_int sgn_if)

section \<open>Profiles\<close>

lemma has_flag_or [simp]: "has_flag t (a OR b) \<longleftrightarrow> has_flag t a \<or> has_flag t b"
  by (auto simp: has_flag_def bit_eq_iff bit_simps)

definition single_profile :: "u64 \<Rightarrow> bool" where
  "single_profile ty \<longleftrightarrow> ty AND BLOCK_GROUP_PROFILE_MASK \<in>
     {0, BLOCK_GROUP_RAID0, BLOCK_GROUP_RAID1, BLOCK_GROUP_DUP, BLOCK_GROUP_RAID10, BLOCK_GROUP_RAID5,
      BLOCK_GROUP_RAID6}"

abbreviation profile :: "map_lookup \<Rightarrow> btrfs_raid_types" where
  "profile m \<equiv> btrfs_bg_flags_to_raid_index (ml_type m)"

lemma has_flag_masked: "f AND BLOCK_GROUP_PROFILE_MASK = f \<Longrightarrow> has_flag ty f \<longleftrightarrow> has_flag (ty AND BLOCK_GROUP_PROFILE_MASK) f"
  unfolding has_flag_def by (metis and.assoc and.commute)

lemma has_flag_profile:
  "has_flag ty BLOCK_GROUP_RAID0 \<longleftrightarrow> has_flag (ty AND BLOCK_GROUP_PROFILE_MASK) BLOCK_GROUP_RAID0"
  "has_flag ty BLOCK_GROUP_RAID1 \<longleftrightarrow> has_flag (ty AND BLOCK_GROUP_PROFILE_MASK) BLOCK_GROUP_RAID1"
  "has_flag ty BLOCK_GROUP_DUP \<longleftrightarrow> has_flag (ty AND BLOCK_GROUP_PROFILE_MASK) BLOCK_GROUP_DUP"
  "has_flag ty BLOCK_GROUP_RAID10 \<longleftrightarrow> has_flag (ty AND BLOCK_GROUP_PROFILE_MASK) BLOCK_GROUP_RAID10"
  "has_flag ty BLOCK_GROUP_RAID5 \<longleftrightarrow> has_flag (ty AND BLOCK_GROUP_PROFILE_MASK) BLOCK_GROUP_RAID5"
  "has_flag ty BLOCK_GROUP_RAID6 \<longleftrightarrow> has_flag (ty AND BLOCK_GROUP_PROFILE_MASK) BLOCK_GROUP_RAID6"
  by (rule has_flag_masked; simp add: block_group_defs)+

lemma profile_flags:
  assumes "single_profile ty"
  shows "has_flag ty BLOCK_GROUP_RAID0 \<longleftrightarrow> btrfs_bg_flags_to_raid_index ty = BTRFS_RAID_RAID0"
    and "has_flag ty BLOCK_GROUP_RAID1 \<longleftrightarrow> btrfs_bg_flags_to_raid_index ty = BTRFS_RAID_RAID1"
    and "has_flag ty BLOCK_GROUP_DUP \<longleftrightarrow> btrfs_bg_flags_to_raid_index ty = BTRFS_RAID_DUP"
    and "has_flag ty BLOCK_GROUP_RAID10 \<longleftrightarrow> btrfs_bg_flags_to_raid_index ty = BTRFS_RAID_RAID10"
    and "has_flag ty BLOCK_GROUP_RAID5 \<longleftrightarrow> btrfs_bg_flags_to_raid_index ty = BTRFS_RAID_RAID5"
    and "has_flag ty BLOCK_GROUP_RAID6 \<longleftrightarrow> btrfs_bg_flags_to_raid_index ty = BTRFS_RAID_RAID6"
    and "ty AND BLOCK_GROUP_PROFILE_MASK = 0 \<longleftrightarrow> btrfs_bg_flags_to_raid_index ty = BTRFS_RAID_SINGLE"
  using assms [unfolded single_profile_def]
  by (elim insertE emptyE; simp only: btrfs_bg_flags_to_raid_index_def has_flag_profile [of ty];
      simp add: has_flag_def block_group_defs)+

section \<open>The layout of a chunk\<close>

definition profile_ok :: "btrfs_raid_types \<Rightarrow> int \<Rightarrow> int \<Rightarrow> bool" where
  "profile_ok prof num sub \<longleftrightarrow>
     (case prof of
        BTRFS_RAID_RAID10 \<Rightarrow> sub = 2 \<and> even num
      | BTRFS_RAID_RAID5 \<Rightarrow> 2 \<le> num
      | BTRFS_RAID_RAID6 \<Rightarrow> 3 \<le> num
      | BTRFS_RAID_DUP \<Rightarrow> num \<le> 2
      | BTRFS_RAID_SINGLE \<Rightarrow> num = 1
      | _ \<Rightarrow> True)"

definition chunk_ok :: "map_lookup \<Rightarrow> bool" where
  "chunk_ok m \<longleftrightarrow> single_profile (ml_type m) \<and> ce_ok (ml_ce m) \<and> ml_stripe_len m = 65536 \<and>
     1 \<le> ml_num_stripes m \<and> ml_num_stripes m < 32768 \<and> length (ml_stripes m) = nat (ml_num_stripes m) \<and>
     profile_ok (profile m) (ml_num_stripes m) (ml_sub_stripes m)"

abbreviation n_stripes :: "map_lookup \<Rightarrow> nat" where
  "n_stripes m \<equiv> length (ml_stripes m)"

text \<open>The number of stripes of data in a row, and of copies of each.\<close>

definition data_cols :: "map_lookup \<Rightarrow> nat" where
  "data_cols m =
     (case profile m of
        BTRFS_RAID_RAID10 \<Rightarrow> n_stripes m div 2
      | BTRFS_RAID_RAID1 \<Rightarrow> 1
      | BTRFS_RAID_DUP \<Rightarrow> 1
      | BTRFS_RAID_RAID5 \<Rightarrow> n_stripes m - 1
      | BTRFS_RAID_RAID6 \<Rightarrow> n_stripes m - 2
      | _ \<Rightarrow> n_stripes m)"

definition copies :: "map_lookup \<Rightarrow> nat" where
  "copies m =
     (case profile m of
        BTRFS_RAID_RAID10 \<Rightarrow> 2
      | BTRFS_RAID_RAID1 \<Rightarrow> n_stripes m
      | BTRFS_RAID_DUP \<Rightarrow> n_stripes m
      | BTRFS_RAID_RAID5 \<Rightarrow> 2
      | BTRFS_RAID_RAID6 \<Rightarrow> 3
      | _ \<Rightarrow> 1)"

abbreviation has_parity :: "map_lookup \<Rightarrow> bool" where
  "has_parity m \<equiv> profile m \<in> {BTRFS_RAID_RAID5, BTRFS_RAID_RAID6}"

text \<open>
  The device extent of copy \<open>c\<close> of stripe \<open>k\<close> of the chunk; its row is \<open>k div data_cols m\<close>. With parity,
  copy 1 is P and copy 2 is Q, and the extents rotate from row to row.
\<close>

definition place :: "map_lookup \<Rightarrow> nat \<Rightarrow> nat \<Rightarrow> nat" where
  "place m k c =
     (let n = data_cols m in
      case profile m of
        BTRFS_RAID_RAID10 \<Rightarrow> 2 * (k mod n) + c
      | BTRFS_RAID_RAID1 \<Rightarrow> c
      | BTRFS_RAID_DUP \<Rightarrow> c
      | BTRFS_RAID_RAID5 \<Rightarrow> (k div n + (if c = 0 then k mod n else n + c - 1)) mod n_stripes m
      | BTRFS_RAID_RAID6 \<Rightarrow> (k div n + (if c = 0 then k mod n else n + c - 1)) mod n_stripes m
      | _ \<Rightarrow> k mod n)"

text \<open>The copy that is read for a mirror number; 0 leaves the choice to the code.\<close>

definition mirror_copy :: "map_lookup \<Rightarrow> nat \<Rightarrow> nat \<Rightarrow> nat" where
  "mirror_copy m k q =
     (if q = 0 then (if profile m = BTRFS_RAID_RAID1 then k mod n_stripes m else 0) else q - 1)"

lemma chunk_okD:
  assumes "chunk_ok m"
  shows "ml_num_stripes m = int (n_stripes m)" "0 < n_stripes m" "n_stripes m < 32768"
    "single_profile (ml_type m)" "ml_stripe_len m = int 65536" "ce_ok (ml_ce m)"
    "0 < data_cols m" "data_cols m \<le> n_stripes m" "0 < copies m"
  using assms unfolding chunk_ok_def
  by (auto simp: data_cols_def copies_def profile_ok_def nat_mult_distrib elim!: evenE split: btrfs_raid_types.splits)

lemma profile_okD:
  assumes "chunk_ok m"
  shows "profile m = BTRFS_RAID_RAID10 \<Longrightarrow> ml_sub_stripes m = int 2 \<and> n_stripes m = 2 * data_cols m"
    and "profile m = BTRFS_RAID_RAID5 \<Longrightarrow> n_stripes m = data_cols m + 1"
    and "profile m = BTRFS_RAID_RAID6 \<Longrightarrow> n_stripes m = data_cols m + 2"
    and "profile m = BTRFS_RAID_DUP \<Longrightarrow> n_stripes m \<le> 2"
    and "profile m = BTRFS_RAID_SINGLE \<Longrightarrow> n_stripes m = 1"
  using assms by (auto simp: chunk_ok_def data_cols_def profile_ok_def even_nat_iff)

lemma stripe_len_u64: "chunk_ok m \<Longrightarrow> u64_of_int (ml_stripe_len m) = of_nat 65536"
  using u64_of_int_nat [of 65536] by (simp add: chunk_okD(5))

lemma nr_data_stripes_ok: "chunk_ok m \<Longrightarrow> has_parity m \<Longrightarrow> nr_data_stripes m = int (data_cols m)"
  using profile_okD [of m] chunk_okD(1,4) [of m]
  by (auto simp: nr_data_stripes_def nr_parity_stripes_def profile_flags)

lemma mod_cols: "chunk_ok m \<Longrightarrow> k mod data_cols m < data_cols m" "chunk_ok m \<Longrightarrow> k mod data_cols m < n_stripes m"
  using chunk_okD(7,8) [of m] mod_less_divisor less_le_trans by blast+

lemma pair_inj: "2 * a + c = 2 * b + d \<Longrightarrow> c < 2 \<Longrightarrow> d < 2 \<Longrightarrow> a = b \<and> c = (d :: nat)"
  by presburger

lemma pair_less: "a < b \<Longrightarrow> c < 2 \<Longrightarrow> 2 * a + c < 2 * (b :: nat)"
  by simp

lemma place_less: "chunk_ok m \<Longrightarrow> c < copies m \<Longrightarrow> place m k c < n_stripes m"
  using chunk_okD(2) [of m] profile_okD [of m] mod_cols [of m k] pair_less [OF mod_cols(1), of m c k]
  by (cases "profile m") (auto simp: place_def copies_def Let_def)

lemma mirror_copy_less: "chunk_ok m \<Longrightarrow> q \<le> copies m \<Longrightarrow> mirror_copy m k q < copies m"
  using chunk_okD(2,9) [of m] by (auto simp: mirror_copy_def copies_def)

section \<open>The place that the code computes\<close>

lemmas chunk_flags = profile_flags [OF chunk_okD(4)]

lemma raid10_arith:
  assumes "chunk_ok m" and "profile m = BTRFS_RAID_RAID10"
  shows "c_div (ml_num_stripes m) (ml_sub_stripes m) = Some (int (data_cols m))"
    and "c_mul (int (k mod data_cols m)) (ml_sub_stripes m) = Some (int (2 * (k mod data_cols m)))"
proof -
  note d = chunk_okD [OF assms(1)] and p = profile_okD(1) [OF assms]
  show "c_div (ml_num_stripes m) (ml_sub_stripes m) = Some (int (data_cols m))"
    using p by (simp only: d(1) p c_div_nat) simp
  have "k mod data_cols m * 2 < 2 ^ 31"
    using mod_cols(2) [OF assms(1), of k] d(3) by simp
  then show "c_mul (int (k mod data_cols m)) (ml_sub_stripes m) = Some (int (2 * (k mod data_cols m)))"
    by (simp only: p c_mul_nat mult.commute)
qed

lemma sum_less64: "a \<le> k \<Longrightarrow> k < 2 ^ 48 \<Longrightarrow> i < n \<Longrightarrow> n < 32768 \<Longrightarrow> a + i < (2 :: nat) ^ 64"
  by simp

lemma map_block_index_read:
  assumes m: "chunk_ok m" and k48: "k < 2 ^ 48" and q: "q \<le> copies m"
  shows "map_block_index m READ (int q) (of_nat k) =
    Some (int (place m k (mirror_copy m k q)), of_nat (k div data_cols m), 1)"
proof -
  note d = chunk_okD [OF m] and f = chunk_flags [OF m] and p = profile_okD [OF m]
  have n: "data_cols m < 2 ^ 64" "n_stripes m < 2 ^ 64" and k: "k < 2 ^ 64" using d(3,8) k48 by simp_all
  note ops = u_div_nat [OF k n(1) d(7)] u_mod_nat [OF k n(1) d(7)] u_mod_nat [OF k n(2) d(2)] u_div_nat [OF k n(2) d(2)]
  have small: "i < n_stripes m \<Longrightarrow> int_of_u64 (of_nat i) = int i" for i
    using d(3) by (simp add: int_of_u64_nat)
  have lt: "k mod data_cols m < n_stripes m" "k mod n_stripes m < n_stripes m"
    using d(2) mod_cols(2) [OF m] by simp_all
  have raid56: ?thesis if par: "has_parity m"
  proof -
    let ?i = "if q \<le> 1 then k mod data_cols m else data_cols m + q - 2"
    have c: "place m k (mirror_copy m k q) = (k div data_cols m + ?i) mod n_stripes m"
      using par by (auto simp: place_def mirror_copy_def Let_def numeral_2_eq_2)
    have i: "?i < n_stripes m" using lt(1) par q p(2,3) by (auto simp: copies_def)
    have s: "k div data_cols m + ?i < 2 ^ 64"
      using div_le_dividend k48 i d(3) by (rule sum_less64)
    have nr: "nr_data_stripes m = int (data_cols m)" using m par by (rule nr_data_stripes_ok)
    have flags: "\<not> has_flag (ml_type m) BLOCK_GROUP_RAID1" "\<not> has_flag (ml_type m) BLOCK_GROUP_RAID10"
        "\<not> has_flag (ml_type m) BLOCK_GROUP_DUP" "has_flag (ml_type m) (BLOCK_GROUP_RAID5 OR BLOCK_GROUP_RAID6)"
      using par by (auto simp: f)
    have ix: "(if 1 < int q then int (data_cols m) + int q - 2 else int (k mod data_cols m)) = int ?i"
      by auto
    show ?thesis
      by (simp only: map_block_index_def Let_def flags if_False if_True nr u64_of_int_nat ops d(1) bind.simps
          small [OF lt(1)] ix c)
        (simp only: of_nat_add [symmetric] u_mod_nat [OF s n(2) d(2)] bind.simps small mod_less_divisor d(2))
  qed
  show ?thesis
  proof (cases "profile m")
    case BTRFS_RAID_RAID10
    with lt(1) show ?thesis
      by (simp add: map_block_index_def f ops raid10_arith [OF m] small READ_def WRITE_def place_def
          mirror_copy_def Let_def)
  next
    case BTRFS_RAID_RAID1
    with lt(2) show ?thesis
      by (simp add: map_block_index_def f ops d(1) small READ_def WRITE_def place_def mirror_copy_def data_cols_def)
  next
    case BTRFS_RAID_DUP
    then show ?thesis
      by (simp add: map_block_index_def f READ_def WRITE_def place_def mirror_copy_def data_cols_def)
  next
    case BTRFS_RAID_RAID0
    with lt(2) show ?thesis
      by (simp add: map_block_index_def f ops d(1) small place_def data_cols_def)
  next
    case BTRFS_RAID_SINGLE
    with lt(2) show ?thesis
      by (simp add: map_block_index_def f ops d(1) small place_def data_cols_def)
  next
    case BTRFS_RAID_RAID5
    then show ?thesis using raid56 by simp
  next
    case BTRFS_RAID_RAID6
    then show ?thesis using raid56 by simp
  qed
qed

text \<open>A write goes to all copies, which are neighbours in the array of stripes; without parity.\<close>

lemma map_block_index_write:
  assumes m: "chunk_ok m" and k48: "k < 2 ^ 48" and par: "\<not> has_parity m"
  shows "map_block_index m WRITE mirror (of_nat k) = Some (int (place m k 0), of_nat (k div data_cols m), int (copies m))"
proof -
  note d = chunk_okD [OF m] and f = chunk_flags [OF m] and p = profile_okD [OF m]
  have n: "data_cols m < 2 ^ 64" "n_stripes m < 2 ^ 64" and k: "k < 2 ^ 64" using d(3,8) k48 by simp_all
  note ops = u_div_nat [OF k n(1) d(7)] u_mod_nat [OF k n(1) d(7)] u_mod_nat [OF k n(2) d(2)] u_div_nat [OF k n(2) d(2)]
  have small: "int_of_u64 (of_nat (k mod data_cols m)) = int (k mod data_cols m)"
    using d(3) mod_cols(2) [OF m, of k] by (simp add: int_of_u64_nat)
  show ?thesis
  proof (cases "profile m")
    case BTRFS_RAID_RAID10
    then have "map_block_index m WRITE mirror (of_nat k) =
        Some (int (place m k 0), of_nat (k div data_cols m), ml_sub_stripes m)"
      by (simp add: map_block_index_def f ops raid10_arith [OF m] small place_def Let_def)
    with p(1) BTRFS_RAID_RAID10 show ?thesis by (simp add: copies_def)
  next
    case BTRFS_RAID_RAID1
    then show ?thesis
      by (simp add: map_block_index_def f d(1) place_def copies_def data_cols_def)
  next
    case BTRFS_RAID_DUP
    then show ?thesis
      by (simp add: map_block_index_def f d(1) place_def copies_def data_cols_def)
  next
    case BTRFS_RAID_RAID0
    with small ops show ?thesis
      by (simp add: map_block_index_def f d(1) place_def copies_def data_cols_def)
  next
    case BTRFS_RAID_SINGLE
    with small ops show ?thesis
      by (simp add: map_block_index_def f d(1) place_def copies_def data_cols_def)
  qed (use par in auto)
qed

lemma place_copy: "\<not> has_parity m \<Longrightarrow> c < copies m \<Longrightarrow> place m k c = place m k 0 + c"
  by (cases "profile m") (auto simp: place_def copies_def Let_def)

definition stripe_at :: "map_lookup \<Rightarrow> nat \<Rightarrow> nat \<Rightarrow> btrfs_bio_stripe" where
  "stripe_at m i d =
     \<lparr>bs_dev = bs_dev (ml_stripes m ! i), bs_physical = bs_physical (ml_stripes m ! i) + of_nat d\<rparr>"

lemma fill_stripes_ok:
  assumes "chunk_ok m" and "i + n \<le> n_stripes m"
  shows "fill_stripes m (of_nat x) (of_nat r) (int i) n = Some (map (\<lambda>c. stripe_at m (i + c) (r * 65536 + x)) [0..<n])"
  using assms(2)
proof (induction n arbitrary: i)
  case (Suc n)
  have "int i + 1 = int (i + 1)" by simp
  with Suc.IH [of "i + 1"] Suc.prems show ?case
    by (simp add: stripe_len_u64 [OF assms(1)] stripe_at_def upt_conv_Cons map_Suc_upt [symmetric] comp_def
        Let_def algebra_simps del: upt_Suc)
qed simp

section \<open>The mapping of a block\<close>

text \<open>The length that is mapped at offset \<open>x\<close> of a chunk: up to the end of the stripe, or of the chunk.\<close>

definition span :: "map_lookup \<Rightarrow> nat \<Rightarrow> nat" where
  "span m x =
     (if profile m = BTRFS_RAID_SINGLE then unat (ce_size (ml_ce m)) - x
      else min (unat (ce_size (ml_ce m)) - x) (65536 - x mod 65536))"

lemma map_block_length_ok:
  assumes m: "chunk_ok m" and x: "x < unat (ce_size (ml_ce m))"
  shows "map_block_length m (of_nat x) (of_nat (x mod 65536)) = of_nat (span m x)"
proof -
  have b: "x < 2 ^ 64" using x unat_u64 [of "ce_size (ml_ce m)"] by simp
  have s: "ce_size (ml_ce m) - of_nat x = of_nat (unat (ce_size (ml_ce m)) - x)"
    using x by (simp add: of_nat_diff)
  have t: "(of_nat 65536 :: u64) - of_nat (x mod 65536) = of_nat (65536 - x mod 65536)"
    by (simp add: of_nat_diff)
  have min: "min (of_nat a) (of_nat b :: u64) = of_nat (min a b)" if "a < 2 ^ 64" "b < 2 ^ 64" for a b
    using that by (simp add: min_def word_le_nat_alt unat_of_nat)
  have "unat (ce_size (ml_ce m)) - x < 2 ^ 64" using unat_u64 [of "ce_size (ml_ce m)"] by simp
  moreover have "65536 - x mod 65536 < (2::nat) ^ 64" by (simp add: less_imp_diff_less)
  ultimately have mm: "min (of_nat (unat (ce_size (ml_ce m)) - x)) (of_nat (65536 - x mod 65536) :: u64) =
      of_nat (min (unat (ce_size (ml_ce m)) - x) (65536 - x mod 65536))"
    by (rule min)
  have flag: "has_flag (ml_type m)
           (BLOCK_GROUP_RAID0 OR BLOCK_GROUP_RAID1 OR BLOCK_GROUP_RAID5 OR BLOCK_GROUP_RAID6 OR
            BLOCK_GROUP_RAID10 OR BLOCK_GROUP_DUP) \<longleftrightarrow> profile m \<noteq> BTRFS_RAID_SINGLE"
    by (cases "profile m") (simp_all add: chunk_flags [OF m])
  show ?thesis
    by (simp only: map_block_length_def flag s stripe_len_u64 [OF m] t mm span_def if_distrib [of of_nat] if_not_P split: if_split) simp
qed

text \<open>A read of one copy, and a write of all copies of a profile without parity.\<close>

lemma map_chunk_simple:
  assumes m: "chunk_ok m" and x: "x < unat (ce_size (ml_ce m))" and a: "int n \<le> a"
    and ix: "map_block_index m rw mirror (of_nat (x div 65536)) = Some (int i, of_nat r, int n)"
    and i: "i + n \<le> n_stripes m" "0 < n"
  shows "map_chunk mem m rw (of_nat x) True mirror False a =
    Some \<lparr>mr_ret = 0, mr_length = Some (of_nat (span m x)), mr_type = Some (ml_type m),
      mr_multi = Some \<lparr>mb_num_stripes = int n,
        mb_stripes = map (\<lambda>c. stripe_at m (i + c) (r * 65536 + x mod 65536)) [0..<n]\<rparr>,
      mr_raid_map = None\<rparr>"
proof -
  have b: "x < 2 ^ 64" using x unat_u64 [of "ce_size (ml_ce m)"] by simp
  have dv: "u_div (of_nat x) (of_nat 65536) = Some (of_nat (x div 65536))"
    by (rule u_div_nat [OF b]) simp_all
  have st: "(of_nat (x div 65536) :: u64) * of_nat 65536 = of_nat (x div 65536 * 65536)"
    by (simp only: of_nat_mult)
  have le: "\<not> (of_nat x :: u64) < of_nat (x div 65536 * 65536)"
    using b div_times_less_eq_dividend [of x 65536] by (simp add: word_less_nat_alt unat_of_nat_u64 not_less del: of_nat_mult)
  have off: "(of_nat x :: u64) - of_nat (x div 65536 * 65536) = of_nat (x mod 65536)"
    by (metis add_diff_cancel_left' div_mult_mod_eq of_nat_add)
  have num: "\<not> int i \<ge> ml_num_stripes m" "\<not> int n > a" using i a chunk_okD(1) [OF m] by simp_all
  show ?thesis
    by (simp only: map_chunk_def stripe_len_u64 [OF m] dv bind.simps Let_def st le off
        map_block_length_ok [OF m x] ix num fill_stripes_ok [OF m i(1)] nat_int if_False if_True simp_thms
        prod.case split_conv)
qed

definition mapping_ok :: "btrfs_mapping_tree \<Rightarrow> bool" where
  "mapping_ok mt \<longleftrightarrow> cache_inv (mt_cache mt) \<and>
     (\<forall>ce\<in>set (inorder (mt_cache mt)). ml_ce (mt_map mt ce) = ce \<and> chunk_ok (mt_map mt ce))"

definition chunks :: "btrfs_mapping_tree \<Rightarrow> map_lookup set" where
  "chunks mt = mt_map mt ` set (inorder (mt_cache mt))"

text \<open>The offset of an address in a chunk.\<close>

definition in_chunk :: "map_lookup \<Rightarrow> u64 \<Rightarrow> bool" where
  "in_chunk m logical \<longleftrightarrow> unat logical \<in> ce_bytes (ml_ce m)"

definition chunk_offset :: "map_lookup \<Rightarrow> u64 \<Rightarrow> nat" where
  "chunk_offset m logical = unat logical - unat (ce_start (ml_ce m))"

lemma in_chunkD:
  assumes "in_chunk m logical"
  shows "chunk_offset m logical < unat (ce_size (ml_ce m))" "\<not> ce_start (ml_ce m) > logical"
    "logical - ce_start (ml_ce m) = of_nat (chunk_offset m logical)"
  using assms by (auto simp: in_chunk_def chunk_offset_def ce_bytes_def word_less_nat_alt of_nat_diff)

lemma chunks_ok: "mapping_ok mt \<Longrightarrow> m \<in> chunks mt \<Longrightarrow> chunk_ok m"
  by (auto simp: mapping_ok_def chunks_def)

lemma search_chunk:
  assumes mt: "mapping_ok mt" and m: "m \<in> chunks mt" and l: "in_chunk m logical"
  shows "\<exists>p. search_cache_extent (mt_cache mt) logical = Some p \<and> cur_entry p = ml_ce m \<and> mt_map mt (ml_ce m) = m"
proof -
  let ?t = "mt_cache mt"
  have inv: "cache_inv ?t" and ce: "ml_ce m \<in> set (inorder ?t)" "mt_map mt (ml_ce m) = m"
    using mt m by (auto simp: mapping_ok_def chunks_def)
  have b: "unat (ce_start (ml_ce m)) \<le> unat logical" "unat logical < unat (ce_start (ml_ce m)) + unat (ce_size (ml_ce m))"
    using l by (auto simp: in_chunk_def ce_bytes_def)
  have "unat logical + 1 < 2 ^ 64"
    using b chunk_okD(6) [OF chunks_ok [OF mt m]] by (simp add: ce_ok_def)
  from search_cache_extent_spec [OF inv this] obtain xs ys where
    s: "inorder ?t = xs @ ys" "cur_at ?t xs (search_cache_extent ?t logical)"
      "\<forall>x\<in>set xs. unat (ce_start x) + unat (ce_size x) \<le> unat logical"
      "\<forall>y\<in>set ys. unat logical < unat (ce_start y) + unat (ce_size y)" by blast
  have ys: "ml_ce m \<in> set ys" using ce s(1,3) b by fastforce
  then obtain y ys' where y: "ys = y # ys'" by (cases ys) auto
  have "y = ml_ce m"
    using inv ys s(4) b unfolding s(1) y index_inv_def
    by (fastforce simp: s(1) y sorted_wrt_append ce_lt_def)
  moreover obtain p where p: "search_cache_extent ?t logical = Some p" "fst p \<noteq> Null" "cur_tree p = ?t" "cur_before p = xs"
    using s(1,2) y by (auto simp: cur_at_def split: option.splits)
  moreover have "cur_entry p = y"
    using inorder_cur [OF p(2)] p s(1) y by simp
  ultimately show ?thesis using ce(2) by simp
qed

lemma stripe_nr_less:
  assumes "in_chunk m logical"
  shows "chunk_offset m logical div 65536 < 2 ^ 48"
  using in_chunkD(1) [OF assms] unat_u64 [of "ce_size (ml_ce m)"] by (simp add: less_mult_imp_div_less)

lemma wants_raid_map_iff:
  assumes "chunk_ok m"
  shows "wants_raid_map m READ True (int q) rm \<longleftrightarrow> has_parity m \<and> q > 1 \<and> rm"
    "wants_raid_map m WRITE True mirror rm \<longleftrightarrow> has_parity m \<and> rm"
  by (auto simp: wants_raid_map_def chunk_flags [OF assms] READ_def WRITE_def)

lemma stripes_allocated_ge: "stripes_required m rw True mirror rm \<le> stripes_allocated rw True (stripes_required m rw True mirror rm)"
  by (simp add: stripes_allocated_def Let_def)

abbreviation row_of :: "map_lookup \<Rightarrow> nat \<Rightarrow> nat" where
  "row_of m x \<equiv> x div 65536 div data_cols m"

text \<open>Where byte \<open>x\<close> of a chunk is in the device extents.\<close>

abbreviation extent_offset :: "map_lookup \<Rightarrow> nat \<Rightarrow> nat" where
  "extent_offset m x \<equiv> row_of m x * 65536 + x mod 65536"

lemma map_block_read:
  assumes mt: "mapping_ok mt" "m \<in> chunks mt" "in_chunk m logical" and mem: "mm_multi mem"
    and q: "q \<le> copies m" and rm: "\<not> (has_parity m \<and> q > 1 \<and> rm)"
    and x: "x = chunk_offset m logical" and c: "c = mirror_copy m (x div 65536) q"
  shows "map_block mem mt READ logical True (int q) rm =
    Some \<lparr>mr_ret = 0, mr_length = Some (of_nat (span m x)), mr_type = Some (ml_type m),
      mr_multi = Some \<lparr>mb_num_stripes = 1,
        mb_stripes = [stripe_at m (place m (x div 65536) c) (extent_offset m x)]\<rparr>,
      mr_raid_map = None\<rparr>"
proof -
  have m: "chunk_ok m" using chunks_ok mt by blast
  obtain p where p: "search_cache_extent (mt_cache mt) logical = Some p" "cur_entry p = ml_ce m" "mt_map mt (ml_ce m) = m"
    using search_chunk [OF mt] by blast
  have w: "\<not> wants_raid_map m READ True (int q) rm" using rm by (simp add: wants_raid_map_iff [OF m])
  have a: "int 1 \<le> stripes_allocated READ True (stripes_required m READ True (int q) rm)"
    by (simp add: stripes_allocated_def Let_def)
  have i: "place m (x div 65536) c + 1 \<le> n_stripes m"
    using place_less [OF m mirror_copy_less [OF m q]] by (simp add: c Suc_le_eq)
  have ix: "map_block_index m READ (int q) (of_nat (x div 65536)) =
      Some (int (place m (x div 65536) c), of_nat (row_of m x), int 1)"
    using map_block_index_read [OF m stripe_nr_less [OF mt(3)] q] by (simp add: x c)
  note in_chunk = in_chunkD [OF mt(3), folded x]
  show ?thesis
    using map_chunk_simple [OF m in_chunk(1) a ix i]
    by (simp add: map_block_def p Let_def in_chunk(2,3) w mem)
qed

lemma map_block_write:
  assumes mt: "mapping_ok mt" "m \<in> chunks mt" "in_chunk m logical" and mem: "mm_multi mem"
    and par: "\<not> has_parity m" and x: "x = chunk_offset m logical"
  shows "map_block mem mt WRITE logical True mirror rm =
    Some \<lparr>mr_ret = 0, mr_length = Some (of_nat (span m x)), mr_type = Some (ml_type m),
      mr_multi = Some \<lparr>mb_num_stripes = int (copies m),
        mb_stripes = map (\<lambda>c. stripe_at m (place m (x div 65536) c) (extent_offset m x)) [0..<copies m]\<rparr>,
      mr_raid_map = None\<rparr>"
proof -
  have m: "chunk_ok m" using chunks_ok mt by blast
  obtain p where p: "search_cache_extent (mt_cache mt) logical = Some p" "cur_entry p = ml_ce m" "mt_map mt (ml_ce m) = m"
    using search_chunk [OF mt] by blast
  have w: "\<not> wants_raid_map m WRITE True mirror rm" using par by (simp add: wants_raid_map_iff [OF m])
  have "stripes_required m WRITE True mirror rm = int (copies m)"
    using par chunk_okD(1) [OF m] profile_okD(1) [OF m]
    by (cases "profile m") (simp_all add: stripes_required_def w chunk_flags [OF m] copies_def)
  then have a: "int (copies m) \<le> stripes_allocated WRITE True (stripes_required m WRITE True mirror rm)"
    using stripes_allocated_ge [of m WRITE mirror rm] by simp
  have i: "place m (x div 65536) 0 + copies m \<le> n_stripes m" "0 < copies m"
    using place_less [OF m, of "copies m - 1" "x div 65536"] place_copy [OF par, of "copies m - 1" "x div 65536"] chunk_okD(9) [OF m]
    by linarith+
  have ix: "map_block_index m WRITE mirror (of_nat (x div 65536)) =
      Some (int (place m (x div 65536) 0), of_nat (row_of m x), int (copies m))"
    using map_block_index_write [OF m stripe_nr_less [OF mt(3)] par] by (simp add: x)
  have cs: "map (\<lambda>c. stripe_at m (place m (x div 65536) 0 + c) (extent_offset m x)) [0..<copies m] =
      map (\<lambda>c. stripe_at m (place m (x div 65536) c) (extent_offset m x)) [0..<copies m]"
    by (rule map_cong) (simp_all only: place_copy [OF par] set_upt atLeastLessThan_iff)
  note in_chunk = in_chunkD [OF mt(3), folded x]
  show ?thesis
    by (simp only: map_block_def p option.case Let_def in_chunk(2,3) w mem if_False simp_thms cs
        map_chunk_simple [OF m in_chunk(1) a ix i])
qed

section \<open>The map of a full stripe\<close>

lemma rot_inj:
  fixes i j r N :: nat
  assumes "i < N" "j < N" "(i + r) mod N = (j + r) mod N"
  shows "i = j"
proof -
  have *: "i = j" if "i \<le> j" "i < N" "j < N" "(i + r) mod N = (j + r) mod N" for i j
  proof -
    have "N dvd (j + r) - (i + r)" using that by (metis add_le_mono1 mod_eq_dvd_iff_nat)
    then have "N dvd j - i" by simp
    then show ?thesis using that by (auto dest: dvd_imp_le)
  qed
  show ?thesis using * [of i j] * [of j i] assms by (cases "i \<le> j") auto
qed

lemma mset_rotate: "mset (rotate r xs) = mset xs"
  by (simp add: rotate_drop_take) (metis append_take_drop_id mset_append union_commute)

lemma sort_parity_stripes_sorted:
  "mset (sort_parity_stripes xs) = mset xs \<and> sorted (map fst (sort_parity_stripes xs))"
proof (induction xs rule: sort_parity_stripes.induct)
  case (1 xs)
  have *: "\<not> fst (sort_parity_pass ys) \<Longrightarrow> snd (sort_parity_pass ys) = ys \<and> sorted (map fst ys)" for ys :: "(u64 \<times> 'a) list"
    by (induction ys rule: sort_parity_pass.induct) (auto simp: Let_def parity_smaller_def split: if_splits)
  show ?case
  proof (cases "fst (sort_parity_pass xs)")
    case True
    with 1 [of "sort_parity_pass xs" True "snd (sort_parity_pass xs)"] show ?thesis
      by (subst (1 2) sort_parity_stripes.simps) (simp add: case_prod_unfold Let_def prod_eq_iff)
  next
    case False
    with * [OF False] show ?thesis
      by (subst (1 2) sort_parity_stripes.simps) (simp add: case_prod_unfold Let_def)
  qed
qed

lemma sort_parity_stripes_unique:
  assumes "mset ys = mset xs" and "sorted_wrt (<) (map fst ys)"
  shows "sort_parity_stripes xs = ys"
proof -
  have inj: "inj_on fst (set ys)" and srt: "sorted (map fst ys)"
    using assms(2) by (auto simp: strict_sorted_iff distinct_map)
  note s = sort_parity_stripes_sorted [of xs]
  have "sort_key fst ys = sort_parity_stripes xs" "sort_key fst ys = ys"
    using s assms(1) inj srt by (auto intro!: sort_key_inj_key_eq)
  then show ?thesis by simp
qed

text \<open>The logical address of stripe \<open>k\<close> of a chunk, and what \<open>raid_map\<close> holds for column \<open>i\<close> of a row.\<close>

definition stripe_logical :: "map_lookup \<Rightarrow> nat \<Rightarrow> u64" where
  "stripe_logical m k = ce_start (ml_ce m) + of_nat (k * 65536)"

definition column_name :: "map_lookup \<Rightarrow> nat \<Rightarrow> nat \<Rightarrow> u64" where
  "column_name m r i =
     (if i < data_cols m then stripe_logical m (r * data_cols m + i)
      else if i = data_cols m then BTRFS_RAID5_P_STRIPE else BTRFS_RAID6_Q_STRIPE)"

lemma raid_map_loop_ok:
  assumes m: "chunk_ok m" and rmap: "length rmap = n_stripes m" and n: "n \<le> n_stripes m"
  shows "\<exists>rmap'. raid_map_loop m (of_nat t) rot [0..<n] rmap = Some rmap' \<and> length rmap' = n_stripes m \<and>
    (\<forall>i<n_stripes m. rmap' ! ((i + rot) mod n_stripes m) =
       (if i < n then stripe_logical m (t + i) else rmap ! ((i + rot) mod n_stripes m)))"
  using n
proof (induction n)
  case 0
  then show ?case using rmap by simp
next
  case (Suc n)
  have app: "raid_map_loop m tmp rot (is @ js) r = Option.bind (raid_map_loop m tmp rot is r) (raid_map_loop m tmp rot js)" for tmp "is" js r
    by (induction "is" arbitrary: r) (simp_all add: Let_def)
  from Suc obtain r where r: "raid_map_loop m (of_nat t) rot [0..<n] rmap = Some r" "length r = n_stripes m"
    "\<forall>i<n_stripes m. r ! ((i + rot) mod n_stripes m) =
       (if i < n then stripe_logical m (t + i) else rmap ! ((i + rot) mod n_stripes m))" by auto
  let ?j = "(n + rot) mod n_stripes m" and ?v = "stripe_logical m (t + n)"
  have j: "?j < n_stripes m" using chunk_okD(2) [OF m] by simp
  have v: "ce_start (ml_ce m) + (of_nat t + of_nat n) * of_nat 65536 = ?v"
    by (simp add: stripe_logical_def)
  have num: "nat (ml_num_stripes m) = n_stripes m" using chunk_okD(1) [OF m] by simp
  have "raid_map_loop m (of_nat t) rot [0..<Suc n] rmap = Some (r[?j := ?v])"
    using j by (simp only: upt_Suc_append le0 app r bind.simps raid_map_loop.simps num Let_def stripe_len_u64 [OF m] v if_True)
  moreover have "r[?j := ?v] ! ((i + rot) mod n_stripes m) =
      (if i < Suc n then stripe_logical m (t + i) else rmap ! ((i + rot) mod n_stripes m))" if "i < n_stripes m" for i
    using that r(2,3) j Suc.prems rot_inj [of i "n_stripes m" n rot] by (auto simp: less_Suc_eq nth_list_update)
  ultimately show ?case using r(2) by simp
qed

lemma parity_columns:
  fixes n s N :: nat
  assumes "length rmap = N" and "\<forall>i<N. rmap ! ((i + s) mod N) = (if i < n then v i else w i)" and i: "i < N"
  shows "N = n + 1 \<Longrightarrow> rmap[(n + s) mod N := p] ! ((i + s) mod N) = (if i < n then v i else p)"
    and "N = n + 2 \<Longrightarrow> rmap[(n + s) mod N := p, (n + s + 1) mod N := q] ! ((i + s) mod N) =
      (if i < n then v i else if i = n then p else q)"
proof -
  have h: "(i + s) mod N = (j + s) mod N \<longleftrightarrow> i = j" if "j < N" for j
    using rot_inj [OF i that] by auto
  have l: "(j + s) mod N < length rmap" for j using assms(1) i by simp
  note upd = nth_list_update [OF l] assms(2) [rule_format, OF i]
  have "rmap[(n + s) mod N := p] ! ((i + s) mod N) =
      (if (n + s) mod N = (i + s) mod N then p else (if i < n then v i else w i))"
    by (simp only: upd)
  then show "N = n + 1 \<Longrightarrow> rmap[(n + s) mod N := p] ! ((i + s) mod N) = (if i < n then v i else p)"
    using i h [of n] by auto
  assume N: "N = n + 2"
  have e: "(n + 1 + s) mod N = (i + s) mod N \<longleftrightarrow> i = n + 1" "(n + s) mod N = (i + s) mod N \<longleftrightarrow> i = n"
  proof -
    have l: "n < N" "n + 1 < N" using N by simp_all
    from h [OF l(1)] h [OF l(2)] show "(n + 1 + s) mod N = (i + s) mod N \<longleftrightarrow> i = n + 1" "(n + s) mod N = (i + s) mod N \<longleftrightarrow> i = n"
      by metis+
  qed
  have "n + s + 1 = (n + 1) + s" by simp
  then have "rmap[(n + s) mod N := p, (n + s + 1) mod N := q] ! ((i + s) mod N) =
      (if (n + 1 + s) mod N = (i + s) mod N then q else if (n + s) mod N = (i + s) mod N then p else (if i < n then v i else w i))"
    using l by (simp only: nth_list_update length_list_update upd)
  also have "\<dots> = (if i = n + 1 then q else if i = n then p else if i < n then v i else w i)"
    by (simp only: e)
  finally show "rmap[(n + s) mod N := p, (n + s + 1) mod N := q] ! ((i + s) mod N) =
      (if i < n then v i else if i = n then p else q)"
    using i N by auto
qed

lemma full_stripe_map_ok:
  assumes m: "chunk_ok m" and par: "has_parity m" and x: "x < 2 ^ 64"
  shows "\<exists>rmap. full_stripe_map m (of_nat x) junk = Some (of_nat (row_of m x), rmap) \<and> length rmap = n_stripes m \<and>
    (\<forall>i<n_stripes m. rmap ! ((i + row_of m x) mod n_stripes m) = column_name m (row_of m x) i)"
proof -
  note d = chunk_okD [OF m] and f = chunk_flags [OF m] and p = profile_okD [OF m]
  let ?N = "n_stripes m" and ?n = "data_cols m" and ?r = "row_of m x"
  have nr: "nr_data_stripes m = int ?n" using m par by (rule nr_data_stripes_ok)
  have n: "?n < 2 ^ 64" "?N < 2 ^ 64" "?n * 65536 < 2 ^ 31" using d(3,8) p(2,3) par by auto
  have mul: "c_mul (int ?n) (int 65536) = Some (int (?n * 65536))" using n(3) by (rule c_mul_nat)
  have pos: "0 < ?n * 65536" "?n * 65536 < 2 ^ 64" using n(3) d(7) by simp_all
  have full: "x div (?n * 65536) = ?r" by (metis div_mult2_eq mult.commute)
  have le: "?r * (?n * 65536) \<le> x" unfolding full [symmetric] by (rule div_times_less_eq_dividend)
  then have lt: "?r * (?n * 65536) < 2 ^ 64" using x by (rule le_less_trans)
  have nr1: "?r * (?n * 65536) div 65536 = ?r * ?n" by (simp flip: mult.assoc)
  have lt2: "?r * ?n < 2 ^ 64" using lt by (rule le_less_trans [rotated]) simp
  have lt3: "?r < 2 ^ 64" using x by (meson div_le_dividend le_less_trans)
  have "?r mod ?N < 2 ^ 31" using mod_less_divisor [OF d(2), of ?r] d(3) by simp
  then have rot: "nat (int_of_u64 (of_nat (?r mod ?N))) = ?r mod ?N" by (simp add: int_of_u64_nat)
  obtain rmap where rmap: "raid_map_loop m (of_nat (?r * ?n)) (?r mod ?N) [0..<?n] (map junk [0..<?N]) = Some rmap"
    "length rmap = ?N"
    "\<forall>i<?N. rmap ! ((i + ?r mod ?N) mod ?N) =
       (if i < ?n then stripe_logical m (?r * ?n + i) else map junk [0..<?N] ! ((i + ?r mod ?N) mod ?N))"
    using raid_map_loop_ok [OF m _ d(8), of "map junk [0..<?N]" "?r * ?n" "?r mod ?N"] by auto
  let ?r1 = "rmap[(?n + ?r mod ?N) mod ?N := BTRFS_RAID5_P_STRIPE]"
  let ?r2 = "if has_flag (ml_type m) BLOCK_GROUP_RAID6 then ?r1[(?n + ?r mod ?N + 1) mod ?N := BTRFS_RAID6_Q_STRIPE] else ?r1"
  have u: "(of_nat ?r :: u64) * of_nat (?n * 65536) = of_nat (?r * (?n * 65536))" "(of_nat ?r :: u64) * of_nat ?n = of_nat (?r * ?n)"
    by (simp_all only: of_nat_mult)
  have num: "nat (ml_num_stripes m) = ?N" "nat (nr_data_stripes m) = ?n" using d(1) nr by simp_all
  have divs: "u_div (of_nat x) (of_nat (?n * 65536)) = Some (of_nat ?r)"
    "u_div (of_nat (?r * (?n * 65536))) (of_nat 65536) = Some (of_nat (?r * ?n))"
    "u_div (of_nat (?r * ?n)) (of_nat ?n) = Some (of_nat ?r)"
    "u_mod (of_nat ?r) (of_nat ?N) = Some (of_nat (?r mod ?N))"
    using u_div_nat [OF x pos(2,1)] u_div_nat [OF lt, of 65536] u_div_nat [OF lt2 n(1) d(7)] u_mod_nat [OF lt3 n(2) d(2)] d(7)
    by (simp_all only: full nr1 nonzero_mult_div_cancel_right) simp_all
  have eq: "full_stripe_map m (of_nat x) junk = Some (of_nat ?r, ?r2)"
    by (simp only: full_stripe_map_def nr d(1,5) mul u64_of_int_nat bind.simps Let_def divs u rot nat_int rmap(1))
  have col: "?r2 ! ((i + ?r) mod ?N) = column_name m ?r i" if i: "i < ?N" for i
  proof -
    have j: "?r2 ! ((i + ?r mod ?N) mod ?N) = column_name m ?r i"
    proof (cases "profile m")
      case BTRFS_RAID_RAID5
      with parity_columns(1) [OF rmap(2,3) i] p(2) i show ?thesis by (simp add: f column_name_def)
    next
      case BTRFS_RAID_RAID6
      with parity_columns(2) [OF rmap(2,3) i] p(3) show ?thesis by (simp add: f column_name_def)
    qed (use par in auto)
    then show ?thesis by (simp only: mod_add_right_eq)
  qed
  show ?thesis using eq col rmap(2) by auto
qed

text \<open>Device extents of whole rows of stripes; the length of each.\<close>

definition whole_rows :: "map_lookup \<Rightarrow> bool" where
  "whole_rows m \<longleftrightarrow> profile m \<in> {BTRFS_RAID_RAID1, BTRFS_RAID_DUP, BTRFS_RAID_SINGLE} \<or>
     data_cols m * 65536 dvd unat (ce_size (ml_ce m))"

definition extent_len :: "map_lookup \<Rightarrow> nat" where
  "extent_len m = unat (ce_size (ml_ce m)) div data_cols m"

lemma extent_rows:
  assumes "chunk_ok m" and "data_cols m * 65536 dvd unat (ce_size (ml_ce m))" and "x < unat (ce_size (ml_ce m))"
  shows "(row_of m x + 1) * 65536 \<le> extent_len m"
    and "(row_of m x + 1) * data_cols m * 65536 \<le> unat (ce_size (ml_ce m))"
proof -
  let ?n = "data_cols m"
  obtain R where R: "unat (ce_size (ml_ce m)) = ?n * 65536 * R" using assms(2) by (rule dvdE)
  have "row_of m x = x div (65536 * ?n)" by (simp add: div_mult2_eq)
  also have "\<dots> < R" using assms(3) R by (simp add: less_mult_imp_div_less mult_ac)
  finally have r: "row_of m x + 1 \<le> R" by simp
  then have "(row_of m x + 1) * 65536 \<le> R * 65536" by (rule mult_le_mono1)
  moreover have "extent_len m = R * 65536" using R chunk_okD(7) [OF assms(1)] by (simp add: extent_len_def)
  ultimately show "(row_of m x + 1) * 65536 \<le> extent_len m" by simp
  show "(row_of m x + 1) * data_cols m * 65536 \<le> unat (ce_size (ml_ce m))"
    using mult_le_mono1 [OF r, of "?n * 65536"] R by (simp only: ac_simps)
qed

text \<open>What is mapped lies in the device extents.\<close>

lemma extent_bound:
  assumes m: "chunk_ok m" and w: "whole_rows m" and x: "x < unat (ce_size (ml_ce m))"
  shows "extent_offset m x + span m x \<le> extent_len m" "0 < span m x"
proof -
  show "0 < span m x" using x by (simp add: span_def)
  show "extent_offset m x + span m x \<le> extent_len m"
  proof (cases "data_cols m * 65536 dvd unat (ce_size (ml_ce m)) \<and> profile m \<noteq> BTRFS_RAID_SINGLE")
    case True
    then have "span m x \<le> 65536 - x mod 65536" by (simp add: span_def)
    then have "extent_offset m x + span m x \<le> (row_of m x + 1) * 65536" by simp
    also have "\<dots> \<le> extent_len m" using extent_rows(1) [OF m _ x] True by blast
    finally show ?thesis .
  next
    case False
    then have "data_cols m = 1" using w profile_okD(5) [OF m] by (auto simp: whole_rows_def data_cols_def)
    moreover have "span m x \<le> unat (ce_size (ml_ce m)) - x" by (simp add: span_def)
    ultimately show ?thesis using x by (simp add: extent_len_def)
  qed
qed

text \<open>Different bytes, and different copies, are in different places; parity is shared by a row.\<close>

lemma column_inj:
  fixes a b n :: nat
  assumes "(if c = 0 then a else n + c - 1) = (if d = 0 then b else n + d - 1)" "a < n" "b < n"
  shows "c = d \<and> (0 < c \<or> a = b)"
  using assms by (auto split: if_splits)

lemma place_inj:
  assumes m: "chunk_ok m" and c: "c < copies m" "d < copies m" and r: "k div data_cols m = l div data_cols m"
    and eq: "place m k c = place m l d"
  shows "c = d" "has_parity m \<and> 0 < c \<or> k = l"
proof -
  note p = profile_okD [OF m]
  have kl: "k = l" if "k mod data_cols m = l mod data_cols m" using that r by (metis div_mult_mod_eq)
  have goal: "c = d \<and> (has_parity m \<and> 0 < c \<or> k = l)"
  proof (cases "has_parity m")
    case True
    let ?i = "\<lambda>k c. if c = 0 then k mod data_cols m else data_cols m + c - 1"
    have i: "?i k c < n_stripes m" "?i l d < n_stripes m"
      using True c p(2,3) mod_cols(2) [OF m] by (auto simp: copies_def)
    have "(?i k c + k div data_cols m) mod n_stripes m = (?i l d + k div data_cols m) mod n_stripes m"
      using eq True r by (auto simp: place_def Let_def add.commute)
    from column_inj [OF rot_inj [OF i this] mod_cols(1) [OF m] mod_cols(1) [OF m]] show ?thesis
      using True kl by blast
  next
    case False
    show ?thesis
    proof (cases "profile m")
      case BTRFS_RAID_RAID10
      with eq c have e: "2 * (k mod data_cols m) + c = 2 * (l mod data_cols m) + d" "c < 2" "d < 2"
        by (auto simp: place_def copies_def Let_def)
      from pair_inj [OF e] kl show ?thesis by simp
    qed (use False eq c r kl in \<open>auto simp: place_def copies_def data_cols_def\<close>)
  qed
  then show "c = d" "has_parity m \<and> 0 < c \<or> k = l" by blast+
qed

text \<open>The mapping of a full stripe for a write or for a recovery.\<close>

definition column_extent :: "map_lookup \<Rightarrow> nat \<Rightarrow> nat \<Rightarrow> nat" where
  "column_extent m r i = (i + r) mod n_stripes m"

lemma column_extent_place:
  assumes "has_parity m"
  shows "i < data_cols m \<Longrightarrow> column_extent m r i = place m (r * data_cols m + i) 0"
    and "0 < c \<Longrightarrow> column_extent m (k div data_cols m) (data_cols m + c - 1) = place m k c"
  using assms by (auto simp: column_extent_def place_def Let_def add.commute)

lemma stripe_logical_less:
  assumes "chunk_ok m" and "k * 65536 < unat (ce_size (ml_ce m))"
  shows "unat (stripe_logical m k) = unat (ce_start (ml_ce m)) + k * 65536"
proof -
  have s: "unat (ce_start (ml_ce m)) + k * 65536 < 2 ^ 64" using assms chunk_okD(6) [OF assms(1)] by (simp add: ce_ok_def)
  have "stripe_logical m k = of_nat (unat (ce_start (ml_ce m)) + k * 65536)"
    by (simp add: stripe_logical_def)
  with unat_of_nat_u64 [OF s] show ?thesis by simp
qed

lemma column_names_sorted:
  assumes m: "chunk_ok m" and par: "has_parity m" and r: "(r + 1) * data_cols m * 65536 \<le> unat (ce_size (ml_ce m))"
  shows "sorted_wrt (<) (map (column_name m r) [0..<n_stripes m])"
proof -
  let ?n = "data_cols m"
  have l: "(r * ?n + i) * 65536 < unat (ce_size (ml_ce m))" if "i < ?n" for i
  proof -
    have "r * ?n + i < (r + 1) * ?n" using that by simp
    then have "(r * ?n + i) * 65536 < (r + 1) * ?n * 65536" by simp
    then show ?thesis using r by (rule less_le_trans)
  qed
  have u: "unat (column_name m r i) = unat (ce_start (ml_ce m)) + (r * ?n + i) * 65536" if "i < ?n" for i
    using stripe_logical_less [OF m l [OF that]] that by (simp add: column_name_def)
  have b: "unat (column_name m r i) < 2 ^ 64 - 2" if "i < ?n" for i
  proof -
    have "unat (ce_start (ml_ce m)) + unat (ce_size (ml_ce m)) < 2 ^ 64" using chunk_okD(6) [OF m] by (simp add: ce_ok_def)
    moreover have "(r * ?n + i) * 65536 + 65536 \<le> unat (ce_size (ml_ce m))"
    proof -
      have "r * ?n + i + 1 \<le> (r + 1) * ?n" using that by simp
      then have "(r * ?n + i + 1) * 65536 \<le> (r + 1) * ?n * 65536" by (rule mult_le_mono1)
      then show ?thesis using r by simp
    qed
    ultimately show ?thesis using u [OF that] by simp
  qed
  have pq: "unat BTRFS_RAID5_P_STRIPE = 2 ^ 64 - 2" "unat BTRFS_RAID6_Q_STRIPE = 2 ^ 64 - 1"
    by (simp_all add: BTRFS_RAID5_P_STRIPE_def BTRFS_RAID6_Q_STRIPE_def unsigned_minus_1_eq_mask mask_eq_exp_minus_1)
  have "column_name m r i < column_name m r (Suc i)" if "Suc i < n_stripes m" for i
  proof -
    note si = that
    have "n_stripes m \<le> ?n + 2" using profile_okD(2,3) [OF m] par by auto
    then consider "Suc i < ?n" | "Suc i = ?n" | "i = ?n" using si by linarith
    then show ?thesis
    proof cases
      case 1
      with u [of i] u [of "Suc i"] show ?thesis by (simp add: word_less_nat_alt)
    next
      case 2
      with b [of i] pq show ?thesis by (simp add: word_less_nat_alt column_name_def)
    next
      case 3
      with pq show ?thesis by (simp add: word_less_nat_alt column_name_def)
    qed
  qed
  then show ?thesis by (simp add: adjacent_sorted)
qed

lemma map_chunk_full_stripe:
  assumes m: "chunk_ok m" and par: "has_parity m" and x: "x < unat (ce_size (ml_ce m))" and w: "whole_rows m"
    and a: "ml_num_stripes m \<le> a" and r: "r = row_of m x"
  shows "map_chunk mem m rw (of_nat x) True mirror True a =
    Some \<lparr>mr_ret = 0, mr_length = Some 65536, mr_type = Some (ml_type m),
      mr_multi = Some \<lparr>mb_num_stripes = int (n_stripes m),
        mb_stripes = map (\<lambda>i. stripe_at m (column_extent m r i) (r * 65536)) [0..<n_stripes m]\<rparr>,
      mr_raid_map = Some (map (column_name m r) [0..<n_stripes m])\<rparr>"
proof -
  let ?N = "n_stripes m"
  have b: "x < 2 ^ 64" using x unat_u64 [of "ce_size (ml_ce m)"] by simp
  have dvd: "data_cols m * 65536 dvd unat (ce_size (ml_ce m))" using w par by (auto simp: whole_rows_def)
  obtain rmap where rmap: "full_stripe_map m (of_nat x) (mm_junk mem) = Some (of_nat r, rmap)" "length rmap = ?N"
    "\<forall>i<?N. rmap ! ((i + r) mod ?N) = column_name m r i"
    using full_stripe_map_ok [OF m par b] unfolding r by blast
  let ?ss = "map (\<lambda>j. stripe_at m j (r * 65536)) [0..<?N]"
  have fill: "fill_stripes m 0 (of_nat r) 0 ?N = Some ?ss"
    using fill_stripes_ok [OF m, of 0 ?N 0 r] by simp
  let ?z = "map (\<lambda>i. (column_name m r i, stripe_at m (column_extent m r i) (r * 65536))) [0..<?N]"
  have "rotate r (zip rmap ?ss) = ?z"
    using rmap(2,3) chunk_okD(2) [OF m]
    by (intro nth_equalityI) (simp_all add: nth_rotate column_extent_def add.commute)
  then have "mset ?z = mset (zip rmap ?ss)" by (metis mset_rotate)
  moreover have "sorted_wrt (<) (map fst ?z)"
    using column_names_sorted [OF m par extent_rows(2) [OF m dvd x]] by (simp add: r comp_def)
  ultimately have sorted: "sort_parity_stripes (zip rmap ?ss) = ?z"
    by (rule sort_parity_stripes_unique)
  have dv: "u_div (of_nat x) (of_nat 65536) = Some (of_nat (x div 65536))"
    by (rule u_div_nat [OF b]) simp_all
  have le: "\<not> (of_nat x :: u64) < of_nat (x div 65536) * of_nat 65536"
    unfolding of_nat_mult [symmetric]
    using b div_times_less_eq_dividend [of x 65536] by (simp add: word_less_nat_alt unat_of_nat_u64 not_less del: of_nat_mult)
  have flags: "\<not> has_flag (ml_type m) (BLOCK_GROUP_RAID1 OR BLOCK_GROUP_RAID10 OR BLOCK_GROUP_DUP)"
    using par by (auto simp: chunk_flags [OF m])
  have num: "\<not> (0 \<ge> ml_num_stripes m \<or> ml_num_stripes m > a)" "nat (ml_num_stripes m) = ?N"
    using chunk_okD(1,2) [OF m] a by auto
  show ?thesis
    by (simp only: map_chunk_def stripe_len_u64 [OF m] dv bind.simps Let_def le rmap(1) flags num fill sorted
        if_False if_True simp_thms prod.case split_conv) (simp add: comp_def chunk_okD(1) [OF m])
qed

lemma map_block_full_stripe:
  assumes mt: "mapping_ok mt" "m \<in> chunks mt" "in_chunk m logical" and mem: "mm_multi mem" "mm_raid_map mem"
    and par: "has_parity m" and w: "whole_rows m" and rw: "rw = WRITE \<or> rw = READ \<and> mirror > 1"
    and r: "r = row_of m (chunk_offset m logical)"
  shows "map_block mem mt rw logical True mirror True =
    Some \<lparr>mr_ret = 0, mr_length = Some 65536, mr_type = Some (ml_type m),
      mr_multi = Some \<lparr>mb_num_stripes = int (n_stripes m),
        mb_stripes = map (\<lambda>i. stripe_at m (column_extent m r i) (r * 65536)) [0..<n_stripes m]\<rparr>,
      mr_raid_map = Some (map (column_name m r) [0..<n_stripes m])\<rparr>"
proof -
  have m: "chunk_ok m" using chunks_ok mt by blast
  obtain p where p: "search_cache_extent (mt_cache mt) logical = Some p" "cur_entry p = ml_ce m" "mt_map mt (ml_ce m) = m"
    using search_chunk [OF mt] by blast
  have wm: "wants_raid_map m rw True mirror True"
    using rw par by (auto simp: wants_raid_map_def chunk_flags [OF m] READ_def WRITE_def)
  have a: "ml_num_stripes m \<le> stripes_allocated rw True (stripes_required m rw True mirror True)"
    using stripes_allocated_ge [of m rw mirror True] wm by (simp add: stripes_required_def)
  note in_chunk = in_chunkD [OF mt(3)]
  show ?thesis
    by (simp only: map_block_def p option.case Let_def in_chunk(2,3) wm mem if_False simp_thms
        map_chunk_full_stripe [OF m par in_chunk(1) w a r])
qed

end
