(* ===== verification/ChunkRmap.thy ===== *)
theory ChunkRmap
  imports ChunkMap
begin

text \<open>
  The way back from a device to logical addresses (\<open>btrfs_rmap_block\<close>), the iteration over block groups
  and the reading of chunk items, against the layout of \<open>ChunkMap\<close>.
\<close>

section \<open>The stripes at a physical address\<close>

definition extents_ok :: "map_lookup \<Rightarrow> bool" where
  "extents_ok m \<longleftrightarrow> (\<forall>s\<in>set (ml_stripes m). unat (bs_physical s) + extent_len m < 2 ^ 64)"

lemma chunk_places_distinct:
  assumes "chunk_ok m" and "c < copies m" and "d < copies m"
    and "place m (x div 65536) c = place m (y div 65536) d" and "extent_offset m x = extent_offset m y"
  shows "c = d \<and> (x = y \<or> has_parity m \<and> 0 < c \<and> row_of m x = row_of m y)"
proof -
  have "row_of m x = extent_offset m x div 65536" "row_of m y = extent_offset m y div 65536"
       "x mod 65536 = extent_offset m x mod 65536" "y mod 65536 = extent_offset m y mod 65536"
    by simp_all
  then have row: "row_of m x = row_of m y" and off: "x mod 65536 = y mod 65536" using assms(5) by simp_all
  have "x = y" if "x div 65536 = y div 65536" using that off by (metis div_mult_mod_eq)
  with place_inj [OF assms(1-3) row assms(4)] row show ?thesis by blast
qed

text \<open>The device extents of a chunk do not overlap.\<close>

definition extents_disjoint :: "map_lookup \<Rightarrow> bool" where
  "extents_disjoint m \<longleftrightarrow> (\<forall>i<n_stripes m. \<forall>j<n_stripes m. i \<noteq> j \<longrightarrow>
     bs_dev (ml_stripes m ! i) \<noteq> bs_dev (ml_stripes m ! j) \<or>
     unat (bs_physical (ml_stripes m ! i)) + extent_len m \<le> unat (bs_physical (ml_stripes m ! j)) \<or>
     unat (bs_physical (ml_stripes m ! j)) + extent_len m \<le> unat (bs_physical (ml_stripes m ! i)))"

lemma stripe_at_inj:
  assumes "extents_ok m" and "extents_disjoint m" and "i < n_stripes m" and "j < n_stripes m"
    and "x < extent_len m" and "y < extent_len m" and "stripe_at m i x = stripe_at m j y"
  shows "i = j \<and> x = y"
proof -
  let ?p = "\<lambda>i. unat (bs_physical (ml_stripes m ! i))"
  have u: "unat (bs_physical (stripe_at m i x)) = ?p i + x" if "i < n_stripes m" "x < extent_len m" for i x
  proof -
    have "?p i + extent_len m < 2 ^ 64" using assms(1) that(1) by (simp add: extents_ok_def)
    then have "?p i + x < 2 ^ 64" using that(2) by linarith
    moreover have "bs_physical (stripe_at m i x) = of_nat (?p i + x)" by (simp add: stripe_at_def)
    ultimately show ?thesis by (simp only: unat_of_nat_u64)
  qed
  have e: "?p i + x = ?p j + y" using u [OF assms(3,5)] u [OF assms(4,6)] assms(7) by simp
  have dev: "bs_dev (ml_stripes m ! i) = bs_dev (ml_stripes m ! j)"
    using arg_cong [OF assms(7), of bs_dev] by (simp add: stripe_at_def)
  have "i = j"
  proof (rule ccontr)
    assume "i \<noteq> j"
    with assms(2-4) dev have "?p i + extent_len m \<le> ?p j \<or> ?p j + extent_len m \<le> ?p i"
      unfolding extents_disjoint_def by blast
    with e assms(5,6) show False by linarith
  qed
  with e show ?thesis by simp
qed

text \<open>The column of data that the reverse mapping assumes in extent \<open>i\<close>.\<close>

definition stripe_column :: "map_lookup \<Rightarrow> nat \<Rightarrow> nat" where
  "stripe_column m i =
     (case profile m of BTRFS_RAID_RAID10 \<Rightarrow> i div 2 | BTRFS_RAID_RAID0 \<Rightarrow> i | _ \<Rightarrow> 0)"

definition rmap_len :: "map_lookup \<Rightarrow> nat" where
  "rmap_len m = (if has_parity m then data_cols m * 65536 else 65536)"

lemma rmap_lengths_ok:
  assumes m: "chunk_ok m"
  shows "rmap_lengths m = Some (of_nat (extent_len m), of_nat (rmap_len m))"
proof -
  note d = chunk_okD [OF m] and f = chunk_flags [OF m] and p = profile_okD [OF m]
  have n: "data_cols m < 2 ^ 64" using d(3,8) by simp
  have sz: "ce_size (ml_ce m) = of_nat (unat (ce_size (ml_ce m)))" by simp
  have len: "u_div (ce_size (ml_ce m)) (of_nat (data_cols m)) = Some (of_nat (extent_len m))"
    by (subst sz, subst u_div_nat [OF unat_u64 n d(7)]) (simp add: extent_len_def)
  have mul: "c_mul (ml_stripe_len m) (int (data_cols m)) = Some (int (data_cols m * 65536))" if "has_parity m"
  proof -
    have "65536 * data_cols m < 2 ^ 31" using d(3) p(2,3) that by auto
    then show ?thesis using c_mul_nat [of 65536 "data_cols m"] by (simp add: d(5) mult.commute)
  qed
  show ?thesis
  proof (cases "profile m")
    case BTRFS_RAID_RAID10
    then show ?thesis
      by (simp add: rmap_lengths_def f raid10_arith [OF m] len stripe_len_u64 [OF m] rmap_len_def Let_def)
  next
    case BTRFS_RAID_RAID0
    moreover from this have "data_cols m = n_stripes m" by (simp add: data_cols_def)
    ultimately show ?thesis
      using len by (simp add: rmap_lengths_def f d(1) stripe_len_u64 [OF m] rmap_len_def Let_def)
  next
    case BTRFS_RAID_RAID5
    then show ?thesis
      using len mul nr_data_stripes_ok [OF m] u64_of_int_nat [of "data_cols m * 65536"]
      by (simp add: rmap_lengths_def f rmap_len_def Let_def)
  next
    case BTRFS_RAID_RAID6
    then show ?thesis
      using len mul nr_data_stripes_ok [OF m] u64_of_int_nat [of "data_cols m * 65536"]
      by (simp add: rmap_lengths_def f rmap_len_def Let_def)
  qed (simp_all add: rmap_lengths_def f stripe_len_u64 [OF m] rmap_len_def Let_def extent_len_def data_cols_def p(5))
qed

lemma rmap_stripe_ok:
  assumes m: "chunk_ok m" and i: "i < n_stripes m" and y: "unat (bs_physical (ml_stripes m ! i)) + y = unat physical"
  shows "\<exists>nr. rmap_stripe_nr m physical i = Some nr \<and>
    ce_start (ml_ce m) + nr * of_nat (rmap_len m) = stripe_logical m (y div 65536 * data_cols m + stripe_column m i)"
proof -
  note d = chunk_okD [OF m] and f = chunk_flags [OF m] and p = profile_okD [OF m]
  let ?t = "y div 65536"
  have y64: "y < 2 ^ 64" using y unat_u64 [of physical] by simp
  then have t: "?t < 2 ^ 48" by (simp add: less_mult_imp_div_less)
  have "of_nat (unat (bs_physical (ml_stripes m ! i)) + y) = (of_nat (unat physical) :: u64)" by (simp only: y)
  then have sub: "physical - bs_physical (ml_stripes m ! i) = of_nat y" by (simp add: algebra_simps)
  have dv: "u_div (of_nat y) (of_nat 65536) = Some (of_nat ?t)" by (rule u_div_nat [OF y64]) simp_all
  have tn: "?t * n_stripes m + i < 2 ^ 64"
  proof -
    have "?t * n_stripes m \<le> 2 ^ 48 * 32768" using t d(3) by (intro mult_le_mono) simp_all
    then show ?thesis using i d(3) by simp
  qed
  note base = rmap_stripe_nr_def sub stripe_len_u64 [OF m, unfolded of_nat_numeral] dv [unfolded of_nat_numeral] f d(1) rmap_len_def stripe_column_def stripe_logical_def
  show ?thesis
  proof (cases "profile m")
    case BTRFS_RAID_RAID10
    have e: "(?t * n_stripes m + i) div 2 = ?t * data_cols m + i div 2"
      using p(1) [OF BTRFS_RAID_RAID10] by (simp flip: mult.assoc add: mult.commute mult.left_commute)
    have "(of_nat ?t :: u64) * of_nat (n_stripes m) + of_nat i = of_nat (?t * n_stripes m + i)" by simp
    moreover have "u64_of_int (ml_sub_stripes m) = of_nat 2"
      using p(1) [OF BTRFS_RAID_RAID10] by (simp only: u64_of_int_nat)
    ultimately have "rmap_stripe_nr m physical i = Some (of_nat (?t * data_cols m + i div 2))"
      using u_div_nat [OF tn, of 2] BTRFS_RAID_RAID10
      by (simp add: base e del: of_nat_add of_nat_mult)
    then show ?thesis using BTRFS_RAID_RAID10 by (simp add: base)
  next
    case BTRFS_RAID_RAID0
    then show ?thesis by (simp add: base data_cols_def algebra_simps)
  qed (simp_all add: base data_cols_def p(5) mult.assoc)
qed

text \<open>
  The device extents that hold \<open>physical\<close>, on the device \<open>devid\<close> unless that is 0, and the address
  that the code computes for one.
\<close>

definition extent_hit :: "(nat \<Rightarrow> btrfs_device) \<Rightarrow> map_lookup \<Rightarrow> u64 \<Rightarrow> u64 \<Rightarrow> nat \<Rightarrow> bool" where
  "extent_hit devs m physical devid i \<longleftrightarrow>
     (let s = ml_stripes m ! i in
      (devid = 0 \<or> dev_devid (devs (bs_dev s)) = devid) \<and>
      unat physical \<in> {unat (bs_physical s) ..< unat (bs_physical s) + extent_len m})"

definition hit_address :: "map_lookup \<Rightarrow> u64 \<Rightarrow> nat \<Rightarrow> u64" where
  "hit_address m physical i =
     stripe_logical m ((unat physical - unat (bs_physical (ml_stripes m ! i))) div 65536 * data_cols m + stripe_column m i)"

lemma rmap_loop_ok:
  assumes m: "chunk_ok m" "extents_ok m" and "set is \<subseteq> {..<n_stripes m}" and "distinct buf"
  shows "\<exists>buf'. rmap_loop devs m physical devid (of_nat (extent_len m)) (of_nat (rmap_len m)) is buf = Some buf' \<and>
    distinct buf' \<and> set buf' = set buf \<union> hit_address m physical ` {i \<in> set is. extent_hit devs m physical devid i}"
  using assms(3,4)
proof (induction "is" arbitrary: buf)
  case Nil
  then show ?case by simp
next
  case (Cons i "is")
  let ?s = "ml_stripes m ! i"
  let ?loop = "rmap_loop devs m physical devid (of_nat (extent_len m)) (of_nat (rmap_len m))"
  have i: "i < n_stripes m" using Cons.prems by simp
  have e: "unat (bs_physical ?s) + extent_len m < 2 ^ 64" using m(2) i by (simp add: extents_ok_def)
  then have el: "unat (of_nat (extent_len m) :: u64) = extent_len m" by (simp add: unat_of_nat_u64)
  have "bs_physical ?s + of_nat (extent_len m) \<le> physical \<longleftrightarrow> unat (bs_physical ?s) + extent_len m \<le> unat physical"
    using u64_add_le_iff(1) [of "bs_physical ?s" "of_nat (extent_len m)" physical] e by (simp only: el)
  then have hit: "extent_hit devs m physical devid i \<longleftrightarrow> \<not> (devid \<noteq> 0 \<and> dev_devid (devs (bs_dev ?s)) \<noteq> devid) \<and>
      \<not> (bs_physical ?s > physical \<or> bs_physical ?s + of_nat (extent_len m) \<le> physical)"
    by (auto simp: extent_hit_def Let_def word_less_nat_alt)
  show ?case
  proof (cases "extent_hit devs m physical devid i")
    case False
    then have "?loop (i # is) buf = ?loop is buf"
      using i by (simp add: hit Let_def) blast
    with False Cons.IH [of buf] Cons.prems show ?thesis by auto
  next
    case True
    then have "unat (bs_physical ?s) + (unat physical - unat (bs_physical ?s)) = unat physical"
      by (auto simp: extent_hit_def Let_def)
    from rmap_stripe_ok [OF m(1) i this] obtain nr where nr: "rmap_stripe_nr m physical i = Some nr"
      "ce_start (ml_ce m) + nr * of_nat (rmap_len m) = hit_address m physical i" by (auto simp: hit_address_def)
    let ?buf = "if hit_address m physical i \<in> set buf then buf else buf @ [hit_address m physical i]"
    have "?loop (i # is) buf = ?loop is ?buf"
      using True i nr by (simp add: hit Let_def) blast
    moreover have "distinct ?buf" "set ?buf = insert (hit_address m physical i) (set buf)" using Cons.prems by auto
    ultimately show ?thesis using True Cons.IH [of ?buf] Cons.prems by auto
  qed
qed

text \<open>Copy \<open>c\<close> of stripe \<open>k\<close> holds the byte at \<open>physical\<close>.\<close>

definition stripe_covers :: "(nat \<Rightarrow> btrfs_device) \<Rightarrow> map_lookup \<Rightarrow> u64 \<Rightarrow> u64 \<Rightarrow> nat \<Rightarrow> nat \<Rightarrow> bool" where
  "stripe_covers devs m physical devid k c \<longleftrightarrow>
     c < copies m \<and> extent_hit devs m physical devid (place m k c) \<and>
     (unat physical - unat (bs_physical (ml_stripes m ! place m k c))) div 65536 = k div data_cols m"

lemma place_column: "chunk_ok m \<Longrightarrow> c < copies m \<Longrightarrow> \<not> has_parity m \<Longrightarrow> stripe_column m (place m k c) = k mod data_cols m"
  using profile_okD(5) [of m]
  by (cases "profile m") (auto simp: stripe_column_def place_def copies_def data_cols_def Let_def)

lemma rot_surj:
  fixes N t i :: nat
  assumes "i < N"
  shows "\<exists>j<N. (t + j) mod N = i"
proof (intro exI conjI)
  have "t + (i + N - t mod N) = t div N * N + t mod N + (i + N - t mod N)" by simp
  also have "\<dots> = t div N * N + (i + N)"
    using assms mod_less_divisor [of N t] by linarith
  finally have "(t + (i + N - t mod N)) mod N = i" using assms by simp
  then show "(t + (i + N - t mod N) mod N) mod N = i" by (simp only: mod_add_right_eq)
  show "(i + N - t mod N) mod N < N" using assms by simp
qed

lemma place_surj:
  assumes m: "chunk_ok m" and i: "i < n_stripes m"
  shows "\<exists>k c. c < copies m \<and> place m k c = i \<and> k div data_cols m = t \<and>
    (\<not> has_parity m \<longrightarrow> k = t * data_cols m + stripe_column m i)"
proof -
  let ?n = "data_cols m"
  note p = profile_okD [OF m] and n = chunk_okD(7) [OF m]
  have km: "(t * ?n + j) mod ?n = j" "(t * ?n + j) div ?n = t" if "j < ?n" for j using that n by simp_all
  have sol: ?thesis if "c < copies m" "place m k c = i" "k div ?n = t" "k = t * ?n + stripe_column m i" for c k
    using that by blast
  have parity: ?thesis if par: "has_parity m"
  proof -
    obtain j where j: "j < n_stripes m" "(t + j) mod n_stripes m = i" using rot_surj [OF i] by blast
    show ?thesis
    proof (cases "j < ?n")
      case True
      with km [OF True] j par show ?thesis
        by (intro exI [of _ "t * ?n + j"] exI [of _ "0 :: nat"]) (auto simp: place_def copies_def Let_def)
    next
      case False
      have c: "j - ?n + 1 < copies m" using j(1) par p(2,3) False by (auto simp: copies_def)
      have "place m (t * ?n) (j - ?n + 1) = (t + j) mod n_stripes m"
        using par False km(2) [OF n] by (auto simp: place_def Let_def)
      with c j(2) km(2) [OF n] par show ?thesis by (intro exI [of _ "t * ?n"] exI [of _ "j - ?n + 1"]) simp
    qed
  qed
  show ?thesis
  proof (cases "profile m")
    case BTRFS_RAID_RAID10
    then have "i div 2 < ?n" using i p(1) by (simp add: less_mult_imp_div_less mult.commute)
    with km [of "i div 2"] BTRFS_RAID_RAID10 show ?thesis
      by (intro sol [of "i mod 2" "t * ?n + i div 2"]) (simp_all add: place_def copies_def stripe_column_def Let_def)
  next
    case BTRFS_RAID_RAID1
    with i show ?thesis
      by (intro sol [of i t]) (simp_all add: place_def copies_def stripe_column_def data_cols_def)
  next
    case BTRFS_RAID_DUP
    with i show ?thesis
      by (intro sol [of i t]) (simp_all add: place_def copies_def stripe_column_def data_cols_def)
  next
    case BTRFS_RAID_RAID0
    moreover from this have "i < ?n" using i by (simp add: data_cols_def)
    ultimately show ?thesis using km [of i]
      by (intro sol [of 0 "t * ?n + i"]) (simp_all add: place_def copies_def stripe_column_def)
  next
    case BTRFS_RAID_SINGLE
    with i p(5) show ?thesis
      by (intro sol [of 0 t]) (simp_all add: place_def copies_def stripe_column_def data_cols_def)
  next
    case BTRFS_RAID_RAID5
    then show ?thesis using parity by simp
  next
    case BTRFS_RAID_RAID6
    then show ?thesis using parity by simp
  qed
qed

lemma hits_are_stripes:
  assumes m: "chunk_ok m"
  shows "hit_address m physical ` {i \<in> {..<n_stripes m}. extent_hit devs m physical devid i} =
    {stripe_logical m (if has_parity m then k div data_cols m * data_cols m else k) |k c. stripe_covers devs m physical devid k c}"
    (is "?L = ?R")
proof -
  let ?t = "\<lambda>i. (unat physical - unat (bs_physical (ml_stripes m ! i))) div 65536"
  have par: "stripe_column m i = 0" if "has_parity m" for i using that by (auto simp: stripe_column_def)
  have "hit_address m physical i \<in> ?R" if i: "i < n_stripes m" "extent_hit devs m physical devid i" for i
  proof -
    from place_surj [OF m i(1), of "?t i"] obtain k c where k: "c < copies m" "place m k c = i" "k div data_cols m = ?t i"
      "\<not> has_parity m \<longrightarrow> k = ?t i * data_cols m + stripe_column m i" by blast
    then have "stripe_covers devs m physical devid k c" using i by (simp add: stripe_covers_def)
    moreover have "hit_address m physical i = stripe_logical m (if has_parity m then k div data_cols m * data_cols m else k)"
    proof (cases "has_parity m")
      case True
      with k(3) par [OF True] show ?thesis by (simp only: hit_address_def if_True add_0_right)
    next
      case False
      then have "hit_address m physical i = stripe_logical m k" using k(4) by (simp only: hit_address_def simp_thms)
      with False show ?thesis by (simp only: if_False)
    qed
    ultimately show ?thesis by blast
  qed
  moreover have "stripe_logical m (if has_parity m then k div data_cols m * data_cols m else k) \<in> ?L"
    if c: "stripe_covers devs m physical devid k c" for k c
  proof -
    let ?i = "place m k c"
    have i: "c < copies m" "extent_hit devs m physical devid ?i" "?t ?i = k div data_cols m"
      using c by (simp_all only: stripe_covers_def)
    have "hit_address m physical ?i = stripe_logical m (if has_parity m then k div data_cols m * data_cols m else k)"
    proof (cases "has_parity m")
      case True
      with i(3) par [OF True] show ?thesis by (simp only: hit_address_def if_True add_0_right)
    next
      case False
      with i(3) place_column [OF m i(1) False, of k] show ?thesis by (simp only: hit_address_def if_False div_mult_mod_eq)
    qed
    with i(2) place_less [OF m i(1), of k] show ?thesis by (force simp: image_iff)
  qed
  ultimately show ?thesis by blast
qed

lemma rmap_block_ok:
  assumes mt: "mapping_ok mt" "m \<in> chunks mt" "in_chunk m chunk_start" and e: "extents_ok m"
  shows "\<exists>buf. btrfs_rmap_block True devs mt chunk_start physical devid = Some (buf, int (rmap_len m)) \<and> distinct buf \<and>
    set buf = {stripe_logical m (if has_parity m then k div data_cols m * data_cols m else k) |k c.
                 stripe_covers devs m physical devid k c}"
proof -
  have m: "chunk_ok m" using chunks_ok mt by blast
  obtain p where p: "search_cache_extent (mt_cache mt) chunk_start = Some p" "cur_entry p = ml_ce m" "mt_map mt (ml_ce m) = m"
    using search_chunk [OF mt] by blast
  have "rmap_len m < 2 ^ 31" using chunk_okD(3) [OF m] profile_okD(2,3) [OF m] by (auto simp: rmap_len_def)
  then have len: "int_of_u64 (of_nat (rmap_len m)) = int (rmap_len m)" by (rule int_of_u64_nat)
  have num: "nat (ml_num_stripes m) = n_stripes m" using chunk_okD(1) [OF m] by simp
  have s: "set [0..<n_stripes m] \<subseteq> {..<n_stripes m}" by auto
  obtain buf where buf: "rmap_loop devs m physical devid (of_nat (extent_len m)) (of_nat (rmap_len m)) [0..<n_stripes m] [] = Some buf"
    "distinct buf" "set buf = set [] \<union> hit_address m physical ` {i \<in> set [0..<n_stripes m]. extent_hit devs m physical devid i}"
    using rmap_loop_ok [OF m e s distinct.simps(1) [THEN iffD2, OF TrueI]] by blast
  have "set buf = {stripe_logical m (if has_parity m then k div data_cols m * data_cols m else k) |k c.
                 stripe_covers devs m physical devid k c}"
    using buf(3) hits_are_stripes [OF m, of physical devs devid] by (simp only: set_upt atLeast0LessThan list.set Un_empty_left)
  moreover have "btrfs_rmap_block True devs mt chunk_start physical devid = Some (buf, int (rmap_len m))"
    by (simp only: btrfs_rmap_block_def p option.case Let_def rmap_lengths_ok [OF m] bind.simps prod.case num buf(1) len simp_thms if_False split_conv)
  ultimately show ?thesis using buf(2) by blast
qed

section \<open>Copies and block groups\<close>

lemma num_copies_chunk:
  assumes mt: "mapping_ok mt" "m \<in> chunks mt" "in_chunk m logical"
  shows "btrfs_num_copies mt logical = int (copies m)"
proof -
  have m: "chunk_ok m" using chunks_ok mt by blast
  obtain p where p: "search_cache_extent (mt_cache mt) logical = Some p" "cur_entry p = ml_ce m" "mt_map mt (ml_ce m) = m"
    using search_chunk [OF mt] by blast
  have "unat (ce_start (ml_ce m)) + unat (ce_size (ml_ce m)) < 2 ^ 64" using chunk_okD(6) [OF m] by (simp add: ce_ok_def)
  then have "\<not> ce_start (ml_ce m) + ce_size (ml_ce m) < logical"
    using mt(3) by (simp add: u64_add_le_iff in_chunk_def ce_bytes_def)
  with in_chunkD(2) [OF mt(3)] p chunk_okD(1) [OF m] profile_okD(1) [OF m] show ?thesis
    by (cases "profile m") (simp_all add: btrfs_num_copies_def Let_def chunk_flags [OF m] copies_def)
qed

text \<open>The entries that the loop of \<open>btrfs_next_bg\<close> still looks at.\<close>

definition bg_rest :: "u64 \<Rightarrow> cache_ptr option \<Rightarrow> cache_extent list" where
  "bg_rest cur ce =
     (case ce of None \<Rightarrow> [] | Some p \<Rightarrow> if cur \<noteq> 0 then cur_after p else cur_entry p # cur_after p)"

definition bg_cursor :: "cache_ptr option \<Rightarrow> bool" where
  "bg_cursor ce \<longleftrightarrow> (case ce of None \<Rightarrow> True | Some p \<Rightarrow> fst p \<noteq> Null)"

lemma next_cursor:
  assumes "fst p \<noteq> Null"
  shows "case next_cache_extent p of None \<Rightarrow> cur_after p = []
    | Some q \<Rightarrow> fst q \<noteq> Null \<and> cur_after p = cur_entry q # cur_after q"
proof (cases "rb_next p")
  case None
  with rb_next_at [OF assms] inorder_cur [OF assms] show ?thesis by (simp add: next_cache_extent_def cur_at_def)
next
  case (Some q)
  with rb_next_at [OF assms] inorder_cur [OF assms] inorder_cur [of q] show ?thesis
    by (simp add: next_cache_extent_def cur_at_def)
qed

lemma next_bg_at_rest:
  assumes "bg_cursor ce"
  shows "case next_bg_at cur ce of None \<Rightarrow> bg_rest cur ce = []
    | Some q \<Rightarrow> fst q \<noteq> Null \<and> bg_rest cur ce = cur_entry q # cur_after q"
proof (cases ce)
  case None
  then show ?thesis by (simp add: next_bg_at_def bg_rest_def)
next
  case (Some p)
  with assms next_cursor [of p] show ?thesis
    by (cases "cur = 0"; cases "next_cache_extent p") (simp_all add: next_bg_at_def bg_rest_def bg_cursor_def)
qed

definition first_bg :: "btrfs_mapping_tree \<Rightarrow> u64 \<Rightarrow> cache_extent list \<Rightarrow> int \<times> (u64 \<times> u64) option" where
  "first_bg mt ty ces =
     (case find (\<lambda>ce. has_flag (ml_type (mt_map mt ce)) ty) ces of
        None \<Rightarrow> (- ENOENT, None)
      | Some ce \<Rightarrow> (0, Some (ce_start ce, ce_size ce)))"

lemma next_bg_loop_ok:
  assumes "bg_cursor ce"
  shows "next_bg_loop mt ty cur ce = Some (first_bg mt ty (bg_rest cur ce))"
  using assms
proof (induction "length (bg_rest cur ce)" arbitrary: cur ce rule: less_induct)
  case less
  note rest = next_bg_at_rest [OF less.prems, of cur]
  show ?case
  proof (cases "next_bg_at cur ce")
    case None
    with rest show ?thesis by (subst next_bg_loop.simps) (simp add: first_bg_def)
  next
    case (Some q)
    then have q: "fst q \<noteq> Null" "bg_rest cur ce = cur_entry q # cur_after q" using rest by simp_all
    let ?cur = "ce_start (cur_entry q)" and ?ce = "if ce_start (cur_entry q) = 0 then next_cache_extent q else Some q"
    have r: "bg_cursor ?ce" "bg_rest ?cur ?ce = cur_after q"
      using q(1) next_cursor [OF q(1)] by (auto simp: bg_cursor_def bg_rest_def split: option.splits)
    have "next_bg_loop mt ty ?cur ?ce = Some (first_bg mt ty (cur_after q))"
      using less.hyps [OF _ r(1), of ?cur] r(2) q(2) by simp
    then show ?thesis
      using Some q(2) by (subst next_bg_loop.simps) (simp add: first_bg_def Let_def)
  qed
qed

text \<open>
  From 0 the iteration starts at the first chunk, from an address of a chunk at the chunk behind it.
\<close>

lemma next_bg_ok:
  assumes mt: "mapping_ok mt" and l: "logical = 0 \<or> (\<exists>m\<in>chunks mt. in_chunk m logical)"
  shows "btrfs_next_bg mt logical ty =
    Some (first_bg mt ty (filter (\<lambda>ce. logical = 0 \<or> ce_start ce > logical) (inorder (mt_cache mt))))"
proof -
  let ?t = "mt_cache mt"
  have inv: "cache_inv ?t" using mt by (simp add: mapping_ok_def)
  then have ok: "\<forall>e\<in>set (inorder ?t). ce_ok e" and srt: "sorted_wrt ce_lt (inorder ?t)" by (simp_all add: index_inv_def)
  have lt: "unat logical + 1 < 2 ^ 64"
    using l chunks_ok [OF mt] chunk_okD(6) by (fastforce simp: in_chunk_def ce_bytes_def ce_ok_def)
  from search_cache_extent_spec [OF inv lt] obtain xs ys where
    s: "inorder ?t = xs @ ys" "cur_at ?t xs (search_cache_extent ?t logical)"
      "\<forall>x\<in>set xs. unat (ce_start x) + unat (ce_size x) \<le> unat logical"
      "\<forall>y\<in>set ys. unat logical < unat (ce_start y) + unat (ce_size y)" by blast
  have cur: "bg_cursor (search_cache_extent ?t logical)"
    using s(2) by (auto simp: bg_cursor_def cur_at_def split: option.splits)
  have before: "filter (\<lambda>ce. ce_start ce > logical) xs = []"
    using s(3) by (auto simp: filter_empty_conv word_less_nat_alt)
  have "bg_rest logical (search_cache_extent ?t logical) =
      filter (\<lambda>ce. logical = 0 \<or> ce_start ce > logical) (inorder ?t)"
  proof (cases "logical = 0")
    case True
    have "xs = []" using s(1,3) ok True by (cases xs) (auto simp: ce_ok_def)
    with s(1,2) True show ?thesis
      using inorder_cur [of "the (search_cache_extent ?t logical)"]
      by (cases "search_cache_extent ?t logical") (simp_all add: bg_rest_def cur_at_def)
  next
    case False
    with l obtain m where m: "m \<in> chunks mt" "in_chunk m logical" by blast
    from search_chunk [OF mt m] obtain p where p: "search_cache_extent ?t logical = Some p" "cur_entry p = ml_ce m" by blast
    with s(2) have pc: "fst p \<noteq> Null" "cur_tree p = ?t" "cur_before p = xs" by (simp_all add: cur_at_def)
    with inorder_cur [OF pc(1)] p s(1) have ys: "ys = ml_ce m # cur_after p" by simp
    have b: "unat (ce_start (ml_ce m)) \<le> unat logical" "unat logical < unat (ce_start (ml_ce m)) + unat (ce_size (ml_ce m))"
      using m(2) by (auto simp: in_chunk_def ce_bytes_def)
    have "\<forall>y\<in>set (cur_after p). ce_start y > logical"
      using srt b unfolding s(1) ys by (auto simp: sorted_wrt_append ce_lt_def word_less_nat_alt)
    then have "filter (\<lambda>ce. ce_start ce > logical) ys = cur_after p"
      using b ys by (simp add: word_less_nat_alt)
    with False before p show ?thesis by (simp add: s(1) bg_rest_def)
  qed
  with next_bg_loop_ok [OF cur, of mt ty logical] show ?thesis by (simp add: btrfs_next_bg_def)
qed

end
