(* ===== verification/ChunkItems.thy ===== *)
theory ChunkItems
  imports ChunkRmap
begin

text \<open>
  Chunk items: what \<open>btrfs_check_chunk_valid\<close> guarantees, the three computations of the length of a
  device extent, and the reading of an item into the mapping tree.
\<close>

section \<open>The check of a chunk item\<close>

lemma single_profile_values:
  "list_all (\<lambda>k. is_power_of_2 (of_nat (8 * k)) \<longrightarrow> of_nat (8 * k) \<in> {8, 16, 32, 64, 128, 256 :: u64}) [0..<64]"
  by (simp add: upt_rec is_power_of_2_def)

lemma single_profileI:
  assumes "is_power_of_2 (ty AND BLOCK_GROUP_PROFILE_MASK) \<or> ty AND BLOCK_GROUP_PROFILE_MASK = 0"
  shows "single_profile ty"
proof (cases "ty AND BLOCK_GROUP_PROFILE_MASK = 0")
  case True
  then show ?thesis by (simp add: single_profile_def)
next
  case False
  have mask: "BLOCK_GROUP_PROFILE_MASK = 504" by (simp add: block_group_defs)
  let ?p = "ty AND 504 :: u64" and ?k = "unat (drop_bit 3 (ty AND 504))"
  have e1: "push_bit 3 (drop_bit 3 ?p) = ?p"
  proof -
    have "take_bit 3 ?p = take_bit 3 ty AND take_bit 3 504" by (simp only: take_bit_and)
    also have "take_bit 3 (504 :: u64) = 0" by (simp add: take_bit_eq_mod)
    finally show ?thesis using bits_ident [of 3 ?p] by simp
  qed
  have "push_bit 3 (of_nat ?k :: u64) = of_nat (8 * ?k)" by (simp add: push_bit_eq_mult)
  then have e2: "push_bit 3 (drop_bit 3 ?p) = of_nat (8 * ?k)" by (simp only: of_nat_unat ucast_id)
  have p: "?p = of_nat (8 * ?k)" by (rule trans [OF e1 [symmetric] e2])
  have "unat ?p \<le> unat (504 :: u64)" by (rule word_and_le1 [THEN word_le_nat_alt [THEN iffD1]])
  then have "unat ?p div 8 < 64" by simp
  then have k: "?k < 64" by (simp add: drop_bit_eq_div unat_div_distrib)
  have "of_nat (8 * ?k) \<in> {8, 16, 32, 64, 128, 256 :: u64}"
    using single_profile_values k assms False p unfolding mask list_all_iff by (metis atLeastLessThan_iff le0 set_upt)
  then show ?thesis unfolding single_profile_def mask p [symmetric] by (auto simp: block_group_defs)
qed

text \<open>
  An item that the check accepts gives a good chunk, except that the check does not compare the end of
  the chunk with the end of the address space. The size of an item is limited by the size of a leaf.
\<close>

lemma check_chunk_sound:
  assumes ok: "btrfs_check_chunk_valid sectorsize chunk slot item_size logical = Some 0"
    and slot: "slot = -1 \<or> 0 \<le> slot" and size: "item_size \<le> 65536"
    and len: "unat logical + unat (ck_length chunk) < 2 ^ 64" and ss: "length ss = unat (ck_num_stripes chunk)"
  shows "chunk_ok (new_map chunk logical ss)"
proof -
  let ?ty = "ck_type chunk" and ?num = "ck_num_stripes chunk" and ?sub = "ck_sub_stripes chunk"
  let ?prof = "btrfs_bg_flags_to_raid_index ?ty"
  note ok = ok [unfolded btrfs_check_chunk_valid_def Let_def]
  have c: "ck_length chunk \<noteq> 0" "ck_stripe_len chunk = of_nat BTRFS_STRIPE_LEN"
    "is_power_of_2 (?ty AND BLOCK_GROUP_PROFILE_MASK) \<or> ?ty AND BLOCK_GROUP_PROFILE_MASK = 0"
    using ok by (auto split: if_splits)
  from ok obtain ondisk where o: "btrfs_chunk_item_size (unat ?num) = Some ondisk"
    "\<not> (?num < 1 \<or> slot = -1 \<and> ondisk > 2048 \<or> slot \<ge> 0 \<and> ondisk > item_size)"
    "\<not> (has_flag ?ty BLOCK_GROUP_RAID10 \<and> (?sub \<noteq> 2 \<or> \<not> is_aligned ?num ?sub) \<or>
       has_flag ?ty BLOCK_GROUP_RAID1 \<and> ?num < 1 \<or> has_flag ?ty BLOCK_GROUP_RAID5 \<and> ?num < 2 \<or>
       has_flag ?ty BLOCK_GROUP_RAID6 \<and> ?num < 3 \<or> has_flag ?ty BLOCK_GROUP_DUP \<and> ?num > 2 \<or>
       ?ty AND BLOCK_GROUP_PROFILE_MASK = 0 \<and> ?num \<noteq> 1)"
    by (cases "btrfs_chunk_item_size (unat ?num)") (auto split: if_splits)
  have sp: "single_profile ?ty" using c(3) by (rule single_profileI)
  note f = profile_flags [OF sp]
  have num: "1 \<le> unat ?num" "unat ?num < 32768"
    using o(1,2) slot size by (auto simp: btrfs_chunk_item_size_def split: if_splits)
  have stripe_len: "int_of_u64 (ck_stripe_len chunk) = 65536"
    using int_of_u64_nat [of 65536] by (simp add: c(2) BTRFS_STRIPE_LEN_def)
  have even: "even (uint ?num)" if "is_aligned ?num 2"
  proof -
    have "uint (?num mod 2) = 0" using that by (simp add: is_aligned_def and_one_eq)
    then show ?thesis by (simp add: uint_mod_distrib even_iff_mod_2_eq_zero)
  qed
  have "profile_ok ?prof (uint ?num) (uint ?sub)"
    using o(3) even by (cases ?prof) (auto simp: profile_ok_def f word_less_def)
  moreover have "ce_ok \<lparr>ce_objectid = 0, ce_start = logical, ce_size = ck_length chunk\<rparr>"
    using c(1) len by (simp add: ce_ok_def unat_gt_0)
  moreover have "int (unat ?num) = uint ?num" by simp
  then have "1 \<le> uint ?num" "uint ?num < 32768" using num by linarith+
  moreover have "nat (uint ?num) = unat ?num" by (rule unat_eq_nat_uint [symmetric])
  ultimately show ?thesis
    using sp stripe_len ss by (simp add: chunk_ok_def new_map_def)
qed

section \<open>Device extents\<close>

lemma chunk_bytes_ok:
  assumes m: "chunk_ok m" and len: "sz * data_cols m < 2 ^ 64"
  shows "chunk_bytes_by_type (ml_type m) (of_nat sz) (ml_num_stripes m) (ml_sub_stripes m) = Some (of_nat (sz * data_cols m))"
proof -
  note d = chunk_okD [OF m] and f = chunk_flags [OF m] and p = profile_okD [OF m]
  show ?thesis
  proof (cases "profile m")
    case BTRFS_RAID_RAID10
    then show ?thesis by (simp add: chunk_bytes_by_type_def f raid10_arith [OF m])
  next
    case BTRFS_RAID_RAID5
    then have "ml_num_stripes m - 1 = int (data_cols m)" using p(2) d(1) by simp
    with BTRFS_RAID_RAID5 show ?thesis by (simp add: chunk_bytes_by_type_def f)
  next
    case BTRFS_RAID_RAID6
    then have "ml_num_stripes m - 2 = int (data_cols m)" using p(3) d(1) by simp
    with BTRFS_RAID_RAID6 show ?thesis by (simp add: chunk_bytes_by_type_def f)
  qed (simp_all add: chunk_bytes_by_type_def f d(1) data_cols_def p(5) u64_of_int_def)
qed

lemma calc_stripe_length_ok:
  assumes m: "chunk_ok m" and len: "unat (ce_size (ml_ce m)) < 2 ^ 63"
  shows "calc_stripe_length (ml_type m) (ce_size (ml_ce m)) (ml_num_stripes m) = Some (of_nat (extent_len m))"
proof -
  note d = chunk_okD [OF m] and f = chunk_flags [OF m] and p = profile_okD [OF m]
  let ?s = "unat (ce_size (ml_ce m))"
  have n: "data_cols m < 2 ^ 64" "n_stripes m < 2 ^ 64" using d(3,8) by simp_all
  have "u_div (of_nat ?s) (of_nat (data_cols m)) = Some (of_nat (extent_len m))"
    by (subst u_div_nat [OF unat_u64 n(1) d(7)]) (simp add: extent_len_def)
  then have div: "u_div (ce_size (ml_ce m)) (of_nat (data_cols m)) = Some (of_nat (extent_len m))" by simp
  show ?thesis
  proof (cases "profile m")
    case BTRFS_RAID_RAID10
    have "?s * 2 div n_stripes m = extent_len m"
      using p(1) [OF BTRFS_RAID_RAID10] by (simp add: extent_len_def mult.commute)
    moreover have "u_div (of_nat (?s * 2)) (of_nat (n_stripes m)) = Some (of_nat (?s * 2 div n_stripes m))"
      using len n(2) d(2) by (intro u_div_nat) simp_all
    ultimately show ?thesis using BTRFS_RAID_RAID10 by (simp add: calc_stripe_length_def f d(1))
  next
    case BTRFS_RAID_RAID0
    moreover from this have "data_cols m = n_stripes m" by (simp add: data_cols_def)
    ultimately show ?thesis using div by (simp add: calc_stripe_length_def f d(1))
  next
    case BTRFS_RAID_RAID5
    then have "ml_num_stripes m - 1 = int (data_cols m)" using p(2) d(1) by simp
    with BTRFS_RAID_RAID5 div show ?thesis by (simp add: calc_stripe_length_def f)
  next
    case BTRFS_RAID_RAID6
    then have "ml_num_stripes m - 2 = int (data_cols m)" using p(3) d(1) by simp
    with BTRFS_RAID_RAID6 div show ?thesis by (simp add: calc_stripe_length_def f)
  qed (simp_all add: calc_stripe_length_def f extent_len_def data_cols_def p(5))
qed

lemma profile_value:
  assumes "single_profile ty"
  shows "ty AND BLOCK_GROUP_PROFILE_MASK =
    (case btrfs_bg_flags_to_raid_index ty of
       BTRFS_RAID_RAID10 \<Rightarrow> BLOCK_GROUP_RAID10 | BTRFS_RAID_RAID1 \<Rightarrow> BLOCK_GROUP_RAID1
     | BTRFS_RAID_DUP \<Rightarrow> BLOCK_GROUP_DUP | BTRFS_RAID_RAID0 \<Rightarrow> BLOCK_GROUP_RAID0 | BTRFS_RAID_SINGLE \<Rightarrow> 0
     | BTRFS_RAID_RAID5 \<Rightarrow> BLOCK_GROUP_RAID5 | BTRFS_RAID_RAID6 \<Rightarrow> BLOCK_GROUP_RAID6)"
  using assms [unfolded single_profile_def]
  by (elim insertE emptyE; simp only: btrfs_bg_flags_to_raid_index_def has_flag_profile [of ty];
      simp add: has_flag_def block_group_defs)

lemma ucast_u32_nat: "k < 2 ^ 32 \<Longrightarrow> (ucast (of_nat k :: u32) :: u64) = of_nat k"
  by (simp add: word_unat_eq_iff unat_of_nat unsigned_ucast_eq take_bit_eq_mod)

lemma stripe_length_ok:
  assumes m: "chunk_ok (new_map chunk logical ss)"
  shows "btrfs_stripe_length chunk = Some (of_nat (extent_len (new_map chunk logical ss)))"
proof -
  let ?m = "new_map chunk logical ss"
  note d = chunk_okD [OF m] and p = profile_okD [OF m]
  let ?N = "n_stripes ?m" and ?n = "data_cols ?m" and ?prof = "btrfs_bg_flags_to_raid_index (ck_type chunk)"
  have ty: "ml_type ?m = ck_type chunk" "ce_size (ml_ce ?m) = ck_length chunk" by (simp_all add: new_map_def)
  have "unat (ck_num_stripes chunk) = ?N" using d(1) by (simp add: new_map_def unat_eq_nat_uint)
  then have num: "(ucast (ck_num_stripes chunk) :: u32) = of_nat ?N"
    using d(3) by (simp add: word_unat_eq_iff unat_of_nat unsigned_ucast_eq take_bit_nat_eq_self)
  have n: "?n < 2 ^ 32" "?n < 2 ^ 64" using d(3,8) by simp_all
  have "u_div (of_nat (unat (ck_length chunk))) (of_nat ?n) = Some (of_nat (extent_len ?m))"
    by (subst u_div_nat [OF unat_u64 n(2) d(7)]) (simp add: extent_len_def ty)
  then have div: "u_div (ck_length chunk) (ucast (of_nat ?n :: u32)) = Some (of_nat (extent_len ?m))"
    by (simp add: ucast_u32_nat [OF n(1)])
  note v = profile_value [OF d(4), unfolded ty(1)]
  note base = btrfs_stripe_length_def Let_def num v BLOCK_GROUP_RAID0_def BLOCK_GROUP_RAID1_def BLOCK_GROUP_DUP_def
    BLOCK_GROUP_RAID10_def BLOCK_GROUP_RAID5_def BLOCK_GROUP_RAID6_def
  have len1: "?n = 1 \<Longrightarrow> extent_len ?m = unat (ck_length chunk)" by (simp add: extent_len_def ty)
  show ?thesis
  proof (cases ?prof)
    case BTRFS_RAID_RAID10
    have "ml_sub_stripes ?m = 2" "?N = 2 * ?n" using p(1) BTRFS_RAID_RAID10 by (simp_all add: ty)
    then have sub: "ck_sub_stripes chunk = 2" "?N div 2 = ?n" by (simp_all add: new_map_def word_uint_eq_iff)
    have "(of_nat ?N :: u32) div 2 = of_nat (?N div 2)"
      using d(3) by (simp add: word_unat_eq_iff unat_div_distrib unat_of_nat)
    then show ?thesis using BTRFS_RAID_RAID10 div by (simp add: base sub)
  next
    case BTRFS_RAID_RAID0
    then have "?N = ?n" by (simp add: data_cols_def ty)
    then show ?thesis using BTRFS_RAID_RAID0 div by (simp add: base)
  next
    case BTRFS_RAID_RAID5
    then have "(of_nat ?N :: u32) - 1 = of_nat ?n" using p(2) by (simp add: ty)
    then show ?thesis using BTRFS_RAID_RAID5 div by (simp add: base)
  next
    case BTRFS_RAID_RAID6
    then have "(of_nat ?N :: u32) - 2 = of_nat ?n" using p(3) by (simp add: ty)
    then show ?thesis using BTRFS_RAID_RAID6 div by (simp add: base)
  qed (use len1 p(5) in \<open>simp_all add: base data_cols_def ty\<close>)
qed

section \<open>Reading a chunk item\<close>

definition known_devices :: "volume_info \<Rightarrow> nat set" where
  "known_devices vi = (\<Union>f\<in>set (vi_fs_devices vi). set (fd_devices f))"

lemma find_device_in_known:
  assumes "find_device_in devs ignore fs devid uuid fsid = Some d"
  shows "d \<in> (\<Union>f\<in>set fs. set (fd_devices f)) \<and> dev_devid (devs d) = devid \<and> dev_uuid (devs d) = uuid"
  using assms
  by (induction fs) (auto simp: find_device_def find_Some_iff in_set_conv_nth split: option.splits if_splits)

definition same_volume :: "volume_info \<Rightarrow> volume_info \<Rightarrow> bool" where
  "same_volume vi vi' \<longleftrightarrow> vi_mapping vi' = vi_mapping vi \<and> vi_sectorsize vi' = vi_sectorsize vi \<and>
     vi_fs_devices vi' \<noteq> [] \<and> known_devices vi \<subseteq> known_devices vi' \<and>
     (\<forall>d\<in>known_devices vi. vi_devs vi' d = vi_devs vi d)"

lemma same_volume_trans: "same_volume a b \<Longrightarrow> same_volume b c \<Longrightarrow> same_volume a c"
  by (auto simp: same_volume_def)

text \<open>Each missing device is allocated at an address that no known device has.\<close>

definition fresh_devices :: "(nat \<Rightarrow> nat option) \<Rightarrow> nat list \<Rightarrow> volume_info \<Rightarrow> bool" where
  "fresh_devices kzalloc is vi \<longleftrightarrow> (\<forall>i\<in>set is. \<exists>d. kzalloc i = Some d \<and> d \<notin> known_devices vi) \<and> inj_on kzalloc (set is)"

definition stripe_read :: "volume_info \<Rightarrow> btrfs_stripe \<Rightarrow> btrfs_bio_stripe \<Rightarrow> bool" where
  "stripe_read vi s b \<longleftrightarrow> bs_physical b = st_offset s \<and> bs_dev b \<in> known_devices vi \<and>
     dev_devid (vi_devs vi (bs_dev b)) = st_devid s"

lemma read_stripes_ok:
  assumes "set is \<subseteq> {..<length (ck_stripes chunk)}" and "distinct is" and "vi_fs_devices vi \<noteq> []"
    and "fresh_devices kzalloc is vi"
  shows "\<exists>ss vi'. read_stripes kzalloc chunk is vi = Some (ss, vi') \<and> same_volume vi vi' \<and>
    list_all2 (\<lambda>i b. stripe_read vi' (ck_stripes chunk ! i) b) is ss"
  using assms
proof (induction "is" arbitrary: vi)
  case Nil
  then show ?case by (simp add: same_volume_def)
next
  case (Cons i "is")
  let ?s = "ck_stripes chunk ! i"
  obtain d0 where d0: "kzalloc i = Some d0" "d0 \<notin> known_devices vi" using Cons.prems(4) by (auto simp: fresh_devices_def)
  have fresh: "\<exists>d. kzalloc j = Some d \<and> d \<notin> known_devices vi \<and> d \<noteq> d0" if "j \<in> set is" for j
    using that Cons.prems(2,4) d0(1) unfolding fresh_devices_def inj_on_def by (metis distinct.simps(2) list.set_intros)
  obtain d vi1 where d: "(case btrfs_find_device vi (st_devid ?s) (st_dev_uuid ?s) None of
               Some d \<Rightarrow> Some (d, vi)
             | None \<Rightarrow> do { d \<leftarrow> kzalloc i; vi1 \<leftarrow> add_missing vi d (st_devid ?s); Some (d, vi1) }) = Some (d, vi1)"
      "same_volume vi vi1" "d \<in> known_devices vi1" "dev_devid (vi_devs vi1 d) = st_devid ?s"
      "known_devices vi1 \<subseteq> insert d0 (known_devices vi)"
  proof (cases "btrfs_find_device vi (st_devid ?s) (st_dev_uuid ?s) None")
    case (Some d)
    with find_device_in_known [of "vi_devs vi" _ "vi_fs_devices vi"] show ?thesis
      using Cons.prems(3) by (intro that [of d vi]) (fastforce simp: btrfs_find_device_def known_devices_def same_volume_def)+
  next
    case None
    obtain f fs where fs: "vi_fs_devices vi = f # fs" using Cons.prems(3) by (cases "vi_fs_devices vi") auto
    let ?vi = "vi\<lparr>vi_devs := (vi_devs vi)(d0 := fill_missing_device (st_devid ?s)),
                   vi_fs_devices := f\<lparr>fd_devices := d0 # fd_devices f\<rparr> # fs\<rparr>"
    have "known_devices ?vi = insert d0 (known_devices vi)" by (auto simp: known_devices_def fs)
    then show ?thesis
      using None d0 fs by (intro that [of d0 ?vi]) (auto simp: add_missing_def same_volume_def fill_missing_device_def)
  qed
  have "fresh_devices kzalloc is vi1"
    using fresh d(5) Cons.prems(4) unfolding fresh_devices_def by (fastforce simp: inj_on_def)
  moreover have "vi_fs_devices vi1 \<noteq> []" using d(2) by (simp add: same_volume_def)
  ultimately obtain ss vi2 where r: "read_stripes kzalloc chunk is vi1 = Some (ss, vi2)" "same_volume vi1 vi2"
    "list_all2 (\<lambda>i b. stripe_read vi2 (ck_stripes chunk ! i) b) is ss"
    using Cons.IH [of vi1] Cons.prems(1,2) by auto
  let ?b = "\<lparr>bs_dev = d, bs_physical = st_offset ?s\<rparr>"
  have "read_stripes kzalloc chunk (i # is) vi = Some (?b # ss, vi2)"
    using Cons.prems(1) by (simp add: d(1) r(1) Let_def)
  moreover have "stripe_read vi2 ?s ?b"
    using d(3,4) r(2) by (auto simp: stripe_read_def same_volume_def)
  ultimately show ?case using same_volume_trans [OF d(2) r(2)] r(3) by auto
qed

lemma not_mapped:
  assumes mt: "mapping_ok mt" and lt: "unat logical + 1 < 2 ^ 64" and free: "unat logical \<notin> cache_bytes (mt_cache mt)"
  shows "\<not> (case search_cache_extent (mt_cache mt) logical of
              None \<Rightarrow> False
            | Some p \<Rightarrow> ce_start (cur_entry p) \<le> logical \<and> ce_start (cur_entry p) + ce_size (cur_entry p) > logical)"
proof (cases "search_cache_extent (mt_cache mt) logical")
  case (Some p)
  have inv: "cache_inv (mt_cache mt)" using mt by (simp add: mapping_ok_def)
  from search_cache_extent_spec [OF inv lt] Some have p: "fst p \<noteq> Null" "cur_tree p = mt_cache mt"
    by (auto simp: cur_at_def)
  then have e: "cur_entry p \<in> set (inorder (mt_cache mt))" using inorder_cur [OF p(1)] by simp
  then have "ce_ok (cur_entry p)" using inv by (simp add: index_inv_def)
  moreover have "unat logical \<notin> ce_bytes (cur_entry p)" using free e by (auto simp: cache_bytes_def)
  ultimately show ?thesis
    using Some by (auto simp: ce_bytes_def ce_ok_def u64_add_le_iff word_le_nat_alt)
qed simp

lemma mapping_insert:
  assumes mt: "mapping_ok mt" and m: "chunk_ok m" and free: "ce_bytes (ml_ce m) \<inter> cache_bytes (mt_cache mt) = {}"
  shows "\<exists>t. insert_cache_extent (mt_cache mt) (ml_ce m) = Some (0, t) \<and>
    mapping_ok \<lparr>mt_cache = t, mt_map = (mt_map mt)(ml_ce m := m)\<rparr> \<and>
    chunks \<lparr>mt_cache = t, mt_map = (mt_map mt)(ml_ce m := m)\<rparr> = insert m (chunks mt)"
proof -
  have inv: "cache_inv (mt_cache mt)" using mt by (simp add: mapping_ok_def)
  have ce: "ce_ok (ml_ce m)" using chunk_okD(6) [OF m] .
  from insert_cache_extent_spec [OF inv ce] free obtain t xs ys where
    t: "insert_cache_extent (mt_cache mt) (ml_ce m) = Some (0, t)" "cache_inv t" "inorder (mt_cache mt) = xs @ ys"
      "inorder t = xs @ ml_ce m # ys" by auto
  have "ml_ce m \<notin> set (inorder (mt_cache mt))"
  proof
    assume "ml_ce m \<in> set (inorder (mt_cache mt))"
    then have "ce_bytes (ml_ce m) \<subseteq> cache_bytes (mt_cache mt)" by (auto simp: cache_bytes_def)
    moreover have "ce_bytes (ml_ce m) \<noteq> {}" using ce by (auto simp: ce_bytes_def ce_ok_def)
    ultimately show False using free by auto
  qed
  then have "e \<noteq> ml_ce m" if "e \<in> set xs \<union> set ys" for e using that t(3) by auto
  then show ?thesis using t mt m by (auto simp: mapping_ok_def chunks_def)
qed

lemma read_one_chunk_ok:
  assumes mt: "mapping_ok (vi_mapping vi)" and chk: "btrfs_check_chunk_valid (vi_sectorsize vi) chunk slot item_size logical = Some 0"
    and slot: "slot = -1 \<or> 0 \<le> slot" and size: "item_size \<le> 65536" and len: "unat logical + unat (ck_length chunk) < 2 ^ 64"
    and free: "range_bytes logical (ck_length chunk) \<inter> cache_bytes (mt_cache (vi_mapping vi)) = {}"
    and dev: "vi_fs_devices vi \<noteq> []" "fresh_devices kzalloc [0..<unat (ck_num_stripes chunk)] vi"
    and stripes: "length (ck_stripes chunk) = unat (ck_num_stripes chunk)"
  shows "\<exists>ss vi'. read_one_chunk True kzalloc vi logical chunk slot item_size = Some (0, vi') \<and> mapping_ok (vi_mapping vi') \<and>
    chunks (vi_mapping vi') = insert (new_map chunk logical ss) (chunks (vi_mapping vi)) \<and>
    list_all2 (stripe_read vi') (ck_stripes chunk) ss"
proof -
  let ?mt = "vi_mapping vi" and ?num = "unat (ck_num_stripes chunk)"
  have "set [0..<?num] \<subseteq> {..<length (ck_stripes chunk)}" using stripes by auto
  then obtain ss vi1 where r: "read_stripes kzalloc chunk [0..<?num] vi = Some (ss, vi1)" "same_volume vi vi1"
    "list_all2 (\<lambda>i b. stripe_read vi1 (ck_stripes chunk ! i) b) [0..<?num] ss"
    using read_stripes_ok [OF _ distinct_upt dev] by blast
  let ?m = "new_map chunk logical ss"
  have ss: "length ss = ?num" using list_all2_lengthD [OF r(3)] by simp
  have m: "chunk_ok ?m" using check_chunk_sound [OF chk slot size len ss] .
  have ce: "ce_bytes (ml_ce ?m) = range_bytes logical (ck_length chunk)" by (simp add: new_map_def)
  have m1: "vi_mapping vi1 = ?mt" using r(2) by (simp add: same_volume_def)
  obtain t where t: "insert_cache_extent (mt_cache ?mt) (ml_ce ?m) = Some (0, t)"
    "mapping_ok \<lparr>mt_cache = t, mt_map = (mt_map ?mt)(ml_ce ?m := ?m)\<rparr>"
    "chunks \<lparr>mt_cache = t, mt_map = (mt_map ?mt)(ml_ce ?m := ?m)\<rparr> = insert ?m (chunks ?mt)"
    using mapping_insert [OF mt m] free unfolding ce by blast
  have sz: "0 < unat (ck_length chunk)" using chunk_okD(6) [OF m] by (simp add: ce_ok_def new_map_def)
  then have "unat logical \<notin> cache_bytes (mt_cache ?mt)" "unat logical + 1 < 2 ^ 64"
    using free len by (auto simp: range_bytes_def disjoint_iff)
  note new = not_mapped [OF mt this(2,1)]
  let ?vi = "vi1\<lparr>vi_mapping := \<lparr>mt_cache = t, mt_map = (mt_map ?mt)(ml_ce ?m := ?m)\<rparr>\<rparr>"
  have "read_one_chunk True kzalloc vi logical chunk slot item_size = Some (0, ?vi)"
    by (simp only: read_one_chunk_def chk bind.simps new r(1) prod.case Let_def m1 t(1) simp_thms if_False if_True split_conv)
  moreover have "list_all2 (stripe_read ?vi) (ck_stripes chunk) ss"
    using r(3) ss stripes by (simp add: list_all2_conv_all_nth stripe_read_def known_devices_def)
  ultimately show ?thesis using t(2,3) by auto
qed

text \<open>
  A chunk that begins outside of all chunks and overlaps one of them runs into \<open>BUG_ON\<close>.
\<close>

lemma add_missing_mapping: "add_missing vi d devid = Some vi1 \<Longrightarrow> vi_mapping vi1 = vi_mapping vi"
  by (auto simp: add_missing_def split: list.splits)

lemma read_stripes_mapping:
  "read_stripes kzalloc chunk is vi = Some (ss, vi1) \<Longrightarrow> vi_mapping vi1 = vi_mapping vi \<and> length ss = length is"
proof (induction "is" arbitrary: vi ss)
  case (Cons i "is")
  then obtain vi2 b ss' where "read_stripes kzalloc chunk is vi2 = Some (ss', vi1)" "vi_mapping vi2 = vi_mapping vi" "ss = b # ss'"
    by (auto simp: Let_def bind_eq_Some_conv dest: add_missing_mapping split: if_splits option.splits)
  with Cons.IH show ?case by auto
qed simp

lemma read_one_chunk_overlap:
  assumes mt: "mapping_ok (vi_mapping vi)" and chk: "btrfs_check_chunk_valid (vi_sectorsize vi) chunk slot item_size logical = Some 0"
    and slot: "slot = -1 \<or> 0 \<le> slot" and size: "item_size \<le> 65536" and len: "unat logical + unat (ck_length chunk) < 2 ^ 64"
    and over: "range_bytes logical (ck_length chunk) \<inter> cache_bytes (mt_cache (vi_mapping vi)) \<noteq> {}"
      "unat logical \<notin> cache_bytes (mt_cache (vi_mapping vi))"
  shows "read_one_chunk True kzalloc vi logical chunk slot item_size = None"
proof -
  let ?mt = "vi_mapping vi" and ?num = "unat (ck_num_stripes chunk)"
  have lt: "unat logical + 1 < 2 ^ 64"
  proof -
    have "0 < unat (ck_length chunk)"
      using check_chunk_sound [OF chk slot size len, of "replicate ?num undefined"] chunk_okD(6) by (fastforce simp: ce_ok_def new_map_def)
    then show ?thesis using len by simp
  qed
  note new = not_mapped [OF mt lt over(2)]
  show ?thesis
  proof (cases "read_stripes kzalloc chunk [0..<?num] vi")
    case None
    then show ?thesis by (simp add: read_one_chunk_def chk new)
  next
    case (Some r)
    obtain ss vi1 where r: "r = (ss, vi1)" by (cases r)
    with read_stripes_mapping Some have m1: "vi_mapping vi1 = ?mt" and ss: "length ss = ?num" by fastforce+
    let ?m = "new_map chunk logical ss"
    have m: "chunk_ok ?m" using check_chunk_sound [OF chk slot size len ss] .
    have inv: "cache_inv (mt_cache ?mt)" using mt by (simp add: mapping_ok_def)
    have "insert_cache_extent (mt_cache ?mt) (ml_ce ?m) = Some (- EEXIST, mt_cache ?mt)"
      using insert_cache_extent_spec [OF inv chunk_okD(6) [OF m]] over(1) by (simp add: new_map_def)
    then show ?thesis
      using Some by (simp add: read_one_chunk_def chk new r m1 Let_def)
  qed
qed

end
