(* ===== verification/DiskIo.thy ===== *)
theory DiskIo
  imports ChunkItems
begin

text \<open>
  Reading and writing of data through the chunk mapping: \<open>read_data_from_disk\<close> and
  \<open>write_data_to_disk\<close> of \<open>extent_io.c\<close>, \<open>read_whole_eb\<close>, \<open>read_extent_data\<close> and \<open>write_and_map_eb\<close> of
  \<open>disk-io.c\<close>, and the write of a full stripe with parity of \<open>volumes.c\<close>.

  A device is a list of bytes behind a file descriptor; it is \<open>None\<close> when accesses fail (with \<open>EIO\<close>).
  A read at the end of a device is short, and so is a write, as on a block device.
  The counters of accesses are left out. The results of the allocations of \<open>map_block\<close> are the same in
  every call of a loop; a \<open>partial_function\<close> that is \<open>None\<close> does not return or runs into a \<open>BUG_ON\<close>.
\<close>

section \<open>Devices\<close>

type_synonym disks = "int \<Rightarrow> u8 list option"

definition pread :: "disks \<Rightarrow> int \<Rightarrow> nat \<Rightarrow> nat \<Rightarrow> u8 list option" where
  "pread dk fd len off = map_option (\<lambda>bs. take len (drop off bs)) (dk fd)"

definition pwrite :: "disks \<Rightarrow> int \<Rightarrow> u8 list \<Rightarrow> nat \<Rightarrow> (nat \<times> disks) option" where
  "pwrite dk fd bytes off =
     map_option (\<lambda>bs. let n = min (length bytes) (length bs - off)
                       in (n, dk(fd \<mapsto> take off bs @ take n bytes @ drop (off + n) bs))) (dk fd)"

section \<open>Reading\<close>

text \<open>One turn of the loop of \<open>read_data_from_disk\<close>: the value to return, or the bytes read.\<close>

definition first_stripe :: "map_result \<Rightarrow> btrfs_bio_stripe option" where
  "first_stripe r =
     (case mr_multi r of Some multi \<Rightarrow> (case mb_stripes multi of s # _ \<Rightarrow> Some s | [] \<Rightarrow> None) | None \<Rightarrow> None)"

definition read_data_step ::
  "map_mem \<Rightarrow> volume_info \<Rightarrow> disks \<Rightarrow> u64 \<Rightarrow> u64 \<Rightarrow> int \<Rightarrow> (int + u8 list) option" where
  "read_data_step mem vi dk offset bytes_left mirror =
     do {
       r \<leftarrow> map_block mem (vi_mapping vi) READ offset True mirror False;
       if mr_ret r \<noteq> 0 then Some (Inl (- EIO))
       else
         do {
           s \<leftarrow> first_stripe r;
           len \<leftarrow> mr_length r;
           let device = vi_devs vi (bs_dev s);
           let read_len = min bytes_left len;
           if dev_fd device \<le> 0 then Some (Inl (- EIO))
           else
             (case pread dk (dev_fd device) (unat read_len) (unat (bs_physical s)) of
                None \<Rightarrow> Some (Inl (- 1))
              | Some bs \<Rightarrow>
                  let ret = int_of_u64 (of_nat (length bs)) in
                  if ret < 0 then Some (Inl ret)
                  else if u64_of_int ret \<noteq> read_len then Some (Inl (- EIO))
                  else Some (Inr bs))
         }
     }"

partial_function (option) read_data_loop ::
  "map_mem \<Rightarrow> volume_info \<Rightarrow> disks \<Rightarrow> u64 \<Rightarrow> u64 \<Rightarrow> int \<Rightarrow> u8 list \<Rightarrow> (int \<times> u8 list) option" where
  "read_data_loop mem vi dk offset bytes_left mirror buf =
     (if bytes_left = 0 then Some (0, buf)
      else
        Option.bind (read_data_step mem vi dk offset bytes_left mirror)
          (\<lambda>r. case r of
             Inl ret \<Rightarrow> Some (ret, buf)
           | Inr bs \<Rightarrow> read_data_loop mem vi dk (offset + of_nat (length bs)) (bytes_left - of_nat (length bs)) mirror
                        (buf @ bs)))"

definition read_data_from_disk ::
  "map_mem \<Rightarrow> volume_info \<Rightarrow> disks \<Rightarrow> u64 \<Rightarrow> u64 \<Rightarrow> int \<Rightarrow> (int \<times> u8 list) option" where
  "read_data_from_disk mem vi dk offset bytes mirror = read_data_loop mem vi dk offset bytes mirror []"

text \<open>
  A block as bytes with its address; the length is that of the bytes. \<open>BTRFS_SUPER_INFO_OFFSET\<close> is 64 KiB.
\<close>

record disk_eb =
  eb_start :: u64
  eb_data :: "u8 list"

definition read_extent_from_disk :: "disks \<Rightarrow> int \<Rightarrow> nat \<Rightarrow> nat \<Rightarrow> int \<times> u8 list" where
  "read_extent_from_disk dk fd dev_bytenr len =
     (case pread dk fd len dev_bytenr of
        None \<Rightarrow> (- EIO, [])
      | Some bs \<Rightarrow>
          let ret = int_of_u64 (of_nat (length bs)) in
          if ret < 0 then (- EIO, [])
          else if u64_of_int ret \<noteq> of_nat len then (- EIO, [])
          else (0, bs))"

definition find_device_one :: "volume_info \<Rightarrow> nat option" where
  "find_device_one vi =
     (case vi_fs_devices vi of
        [] \<Rightarrow> None
      | f # _ \<Rightarrow> find (\<lambda>d. dev_devid (vi_devs vi d) = 1) (fd_devices f))"

text \<open>
  One turn of the loop of \<open>read_whole_eb\<close>. If no device has number 1 the special case uses the head of the
  list as a device, which is \<open>None\<close>.
\<close>

definition read_eb_step :: "map_mem \<Rightarrow> volume_info \<Rightarrow> disks \<Rightarrow> u64 \<Rightarrow> nat \<Rightarrow> nat \<Rightarrow> int \<Rightarrow> (int + u8 list) option" where
  "read_eb_step mem vi dk start offset bytes_left mirror =
     (if \<not> vi_on_restoring vi \<and> start \<noteq> 65536 then
        do {
          r \<leftarrow> map_block mem (vi_mapping vi) READ (start + of_nat offset) True mirror False;
          if mr_ret r \<noteq> 0 then Some (Inl (- EIO))
          else
            do {
              s \<leftarrow> first_stripe r;
              len \<leftarrow> mr_length r;
              let device = vi_devs vi (bs_dev s);
              if dev_fd device \<le> 0 then Some (Inl (- EIO))
              else
                let (ret, bs) = read_extent_from_disk dk (dev_fd device) (unat (bs_physical s)) (min (unat len) bytes_left)
                in Some (if ret \<noteq> 0 then Inl (- EIO) else Inr bs)
            }
        }
      else
        do {
          d \<leftarrow> find_device_one vi;
          let (ret, bs) = read_extent_from_disk dk (dev_fd (vi_devs vi d)) (unat start) bytes_left;
          Some (if ret \<noteq> 0 then Inl (- EIO) else Inr bs)
        })"

partial_function (option) read_eb_loop ::
  "map_mem \<Rightarrow> volume_info \<Rightarrow> disks \<Rightarrow> u64 \<Rightarrow> nat \<Rightarrow> nat \<Rightarrow> int \<Rightarrow> u8 list \<Rightarrow> (int \<times> u8 list) option" where
  "read_eb_loop mem vi dk start offset bytes_left mirror buf =
     (if bytes_left = 0 then Some (0, buf)
      else
        Option.bind (read_eb_step mem vi dk start offset bytes_left mirror)
          (\<lambda>r. case r of
             Inl ret \<Rightarrow> Some (ret, buf)
           | Inr bs \<Rightarrow> read_eb_loop mem vi dk start (offset + length bs) (bytes_left - length bs) mirror (buf @ bs)))"

definition read_whole_eb :: "map_mem \<Rightarrow> volume_info \<Rightarrow> disks \<Rightarrow> u64 \<Rightarrow> nat \<Rightarrow> int \<Rightarrow> (int \<times> u8 list) option" where
  "read_whole_eb mem vi dk start len mirror = read_eb_loop mem vi dk start 0 len mirror []"

section \<open>Writing a full stripe with parity\<close>

text \<open>\<open>rmw_eb\<close>: the old contents of a stripe with the part that is written laid over it.\<close>

definition rmw_eb ::
  "map_mem \<Rightarrow> volume_info \<Rightarrow> disks \<Rightarrow> u64 \<Rightarrow> nat \<Rightarrow> disk_eb \<Rightarrow> (int \<times> u8 list) option" where
  "rmw_eb mem vi dk start len orig =
     do {
       (ret, old) \<leftarrow> read_whole_eb mem vi dk start len 0;
       let ostart = eb_start orig;
       let olen = length (eb_data orig);
       if ret \<noteq> 0 then Some (ret, old)
       else if start + of_nat len \<le> ostart \<or> start \<ge> ostart + of_nat olen then Some (0, old)
       else
         let orig_off = (if start > ostart then unat (start - ostart) else 0);
             dest_off = (if ostart > start then unat (ostart - start) else 0);
             copy1 = (if len > olen - orig_off then olen - orig_off else len);
             copy_len = (if copy1 > len - dest_off then len - dest_off else copy1)
         in Some (0, take dest_off old @ take copy_len (drop orig_off (eb_data orig)) @ drop (dest_off + copy_len) old)
     }"

text \<open>
  \<open>split_eb_for_raid56\<close>: the contents of the data stripes, which come first in the \<open>raid_map\<close>. \<open>mem2\<close>
  says whether there is memory for the buffers.
\<close>

fun split_eb_loop ::
  "map_mem \<Rightarrow> volume_info \<Rightarrow> disks \<Rightarrow> disk_eb \<Rightarrow> nat \<Rightarrow> u64 list \<Rightarrow> (int \<times> u8 list list) option" where
  "split_eb_loop mem vi dk orig stripe_len [] = Some (0, [])"
| "split_eb_loop mem vi dk orig stripe_len (a # rmap) =
     (if a \<ge> BTRFS_RAID5_P_STRIPE then Some (0, [])
      else
        do {
          (ret, bs) \<leftarrow>
            (if eb_start orig > a \<or> eb_start orig + of_nat (length (eb_data orig)) < a + of_nat stripe_len
             then rmw_eb mem vi dk a stripe_len orig
             else Some (0, take stripe_len (drop (unat (a - eb_start orig)) (eb_data orig))));
          if ret \<noteq> 0 then Some (ret, [])
          else
            do {
              (ret', bss) \<leftarrow> split_eb_loop mem vi dk orig stripe_len rmap;
              Some (ret', bs # bss)
            }
        })"

definition split_eb_for_raid56 ::
  "bool \<Rightarrow> map_mem \<Rightarrow> volume_info \<Rightarrow> disks \<Rightarrow> disk_eb \<Rightarrow> nat \<Rightarrow> u64 list \<Rightarrow> (int \<times> u8 list list) option" where
  "split_eb_for_raid56 mem2 mem vi dk orig stripe_len rmap =
     (if mem2 then split_eb_loop mem vi dk orig stripe_len rmap else Some (- ENOMEM, []))"

text \<open>\<open>write_extent_to_disk\<close> for a stripe, and the loop over the stripes; the first error ends it.\<close>

definition write_extent_to_disk :: "disks \<Rightarrow> int \<Rightarrow> u8 list \<Rightarrow> nat \<Rightarrow> int \<times> disks" where
  "write_extent_to_disk dk fd bytes dev_bytenr =
     (case pwrite dk fd bytes dev_bytenr of
        None \<Rightarrow> (- 1, dk)
      | Some (n, dk1) \<Rightarrow>
          let ret = int_of_u64 (of_nat n) in
          (if ret < 0 then ret else if ret \<noteq> int (length bytes) then - EIO else 0, dk1))"

fun write_stripes :: "volume_info \<Rightarrow> disks \<Rightarrow> (btrfs_bio_stripe \<times> u8 list) list \<Rightarrow> int \<times> disks" where
  "write_stripes vi dk [] = (0, dk)"
| "write_stripes vi dk ((s, bytes) # ss) =
     (let (ret, dk1) = write_extent_to_disk dk (dev_fd (vi_devs vi (bs_dev s))) bytes (unat (bs_physical s))
      in if ret < 0 then (ret, dk1) else write_stripes vi dk1 ss)"

text \<open>
  \<open>write_raid56_with_parity\<close>. The buffers are numbered as in the array \<open>ebs\<close>: data, P, Q. The
  contents of the new buffers for P and Q are \<open>junk\<close>, their size is \<open>alloc_size\<close>, the addresses of the
  buffers are \<open>addr\<close>. The test that
  a stripe's start is that of the \<open>raid_map\<close> never fails, since it was set from there.
\<close>

definition parity_buffers :: "u8 list list \<Rightarrow> (nat \<Rightarrow> nat \<Rightarrow> u8) \<Rightarrow> nat \<Rightarrow> store" where
  "parity_buffers bss junk alloc_size =
     (\<lambda>i. if i < length bss then bss ! i else map (junk i) [0..<alloc_size])"

definition write_raid56_with_parity ::
  "bool \<Rightarrow> (nat \<Rightarrow> u64) \<Rightarrow> (nat \<Rightarrow> nat \<Rightarrow> u8) \<Rightarrow> map_mem \<Rightarrow> volume_info \<Rightarrow> disks \<Rightarrow> disk_eb \<Rightarrow>
   btrfs_multi_bio \<Rightarrow> nat \<Rightarrow> u64 list \<Rightarrow> (int \<times> disks) option" where
  "write_raid56_with_parity mem2 addr junk mem vi dk eb multi stripe_len rmap =
     (if \<not> mem2 then Some (- ENOMEM, dk)
      else
        do {
          (ret, bss) \<leftarrow> split_eb_for_raid56 mem2 mem vi dk eb stripe_len rmap;
          if ret \<noteq> 0 then Some (ret, dk)
          else
            let n = mb_num_stripes multi; ptrs = [0..<nat n];
                bufs = parity_buffers bss junk (max (length (eb_data eb)) stripe_len) in
            do {
              (ret1, bufs1) \<leftarrow>
                (if BTRFS_RAID6_Q_STRIPE \<in> set rmap
                 then map_option (Pair 0) (raid6_gen_syndrome bufs n stripe_len ptrs)
                 else raid5_gen_result addr bufs n stripe_len (n - 1) ptrs);
              if ret1 < 0 then Some (ret1, dk)
              else Some (write_stripes vi dk (zip (mb_stripes multi) (map (\<lambda>i. take stripe_len (bufs1 i)) ptrs)))
            }
        })"

section \<open>Writing\<close>

text \<open>The loop of \<open>write_data_to_disk\<close> over the copies of a piece of data.\<close>

fun write_copies :: "volume_info \<Rightarrow> disks \<Rightarrow> u8 list \<Rightarrow> btrfs_bio_stripe list \<Rightarrow> int \<times> disks" where
  "write_copies vi dk bytes [] = (0, dk)"
| "write_copies vi dk bytes (s # ss) =
     (let device = vi_devs vi (bs_dev s) in
      if dev_fd device \<le> 0 then (- EIO, dk)
      else
        (case pwrite dk (dev_fd device) bytes (unat (bs_physical s)) of
           None \<Rightarrow> (EIO, dk)
         | Some (n, dk1) \<Rightarrow>
             if u64_of_int (int_of_u64 (of_nat n)) \<noteq> of_nat (length bytes) then
               (if int_of_u64 (of_nat n) < 0 then (EIO, dk1) else (- EIO, dk1))
             else write_copies vi dk1 bytes ss))"

text \<open>
  What the allocations of a write give: for the mapping, for the buffers of a stripe write, the addresses
  and the contents of these buffers.
\<close>

record write_mem =
  wm_map :: map_mem
  wm_bufs :: bool
  wm_addr :: "nat \<Rightarrow> u64"
  wm_junk :: "nat \<Rightarrow> nat \<Rightarrow> u8"

text \<open>
  One turn of the loop of \<open>write_data_to_disk\<close>: the value to return, or the number of bytes written, with
  the devices.
\<close>

definition write_data_step ::
  "write_mem \<Rightarrow> volume_info \<Rightarrow> disks \<Rightarrow> u8 list \<Rightarrow> u64 \<Rightarrow> int \<Rightarrow> ((int + nat) \<times> disks) option" where
  "write_data_step wm vi dk buf offset mirror =
     (let bytes_left = of_nat (length buf) :: u64 in
      do {
        r \<leftarrow> map_block (wm_map wm) (vi_mapping vi) WRITE offset True mirror True;
        if mr_ret r \<noteq> 0 then Some (Inl (- EIO), dk)
        else
          do {
            multi \<leftarrow> mr_multi r;
            len \<leftarrow> mr_length r;
            (case mr_raid_map r of
               Some rmap \<Rightarrow>
                 let this_len = unat (min (min len bytes_left) (ucast (vi_nodesize vi))) in
                 if \<not> wm_bufs wm then Some (Inl (- ENOMEM), dk)
                 else
                   do {
                     (ret, dk1) \<leftarrow> write_raid56_with_parity (wm_bufs wm) (wm_addr wm) (wm_junk wm) (wm_map wm) vi dk
                       \<lparr>eb_start = offset, eb_data = take this_len buf\<rparr> multi (unat len) rmap;
                     if ret \<noteq> 0 then None else Some (Inr this_len, dk1)
                   }
             | None \<Rightarrow>
                 let this_len = unat (min len bytes_left);
                     (ret, dk1) = write_copies vi dk (take this_len buf) (mb_stripes multi)
                 in Some (if ret \<noteq> 0 then Inl ret else Inr this_len, dk1))
          }
      })"

partial_function (option) write_data_loop ::
  "write_mem \<Rightarrow> volume_info \<Rightarrow> disks \<Rightarrow> u8 list \<Rightarrow> u64 \<Rightarrow> int \<Rightarrow> (int \<times> disks) option" where
  "write_data_loop wm vi dk buf offset mirror =
     (if buf = [] then Some (0, dk)
      else
        Option.bind (write_data_step wm vi dk buf offset mirror)
          (\<lambda>(r, dk1). case r of
             Inl ret \<Rightarrow> Some (ret, dk1)
           | Inr n \<Rightarrow> write_data_loop wm vi dk1 (drop n buf) (offset + of_nat n) mirror))"

definition write_data_to_disk ::
  "write_mem \<Rightarrow> volume_info \<Rightarrow> disks \<Rightarrow> u8 list \<Rightarrow> u64 \<Rightarrow> int \<Rightarrow> (int \<times> disks) option" where
  "write_data_to_disk wm vi dk buf offset mirror = write_data_loop wm vi dk buf offset mirror"

text \<open>
  \<open>write_and_map_eb\<close>. The result of the mapping is tested in the loop over the copies only; without a
  mapping, \<open>multi\<close> is a null pointer. Every error of the writes runs into a \<open>BUG_ON\<close>.
\<close>

fun write_eb_copies :: "volume_info \<Rightarrow> disks \<Rightarrow> u8 list \<Rightarrow> btrfs_bio_stripe list \<Rightarrow> disks option" where
  "write_eb_copies vi dk bytes [] = Some dk"
| "write_eb_copies vi dk bytes (s # ss) =
     (let (ret, dk1) = write_extent_to_disk dk (dev_fd (vi_devs vi (bs_dev s))) bytes (unat (bs_physical s))
      in if ret \<noteq> 0 then None else write_eb_copies vi dk1 bytes ss)"

definition write_and_map_eb :: "write_mem \<Rightarrow> volume_info \<Rightarrow> disks \<Rightarrow> disk_eb \<Rightarrow> (int \<times> disks) option" where
  "write_and_map_eb wm vi dk eb =
     do {
       r \<leftarrow> map_block (wm_map wm) (vi_mapping vi) WRITE (eb_start eb) True 0 True;
       multi \<leftarrow> mr_multi r;
       (case mr_raid_map r of
          Some rmap \<Rightarrow>
            do {
              len \<leftarrow> mr_length r;
              (ret, dk1) \<leftarrow> write_raid56_with_parity (wm_bufs wm) (wm_addr wm) (wm_junk wm) (wm_map wm) vi dk eb multi (unat len) rmap;
              if ret \<noteq> 0 then None else Some (0, dk1)
            }
        | None \<Rightarrow> map_option (Pair 0) (write_eb_copies vi dk (eb_data eb) (mb_stripes multi)))
     }"

text \<open>\<open>read_extent_data\<close>: one read of at most \<open>*len\<close> bytes; the result has the length that was read.\<close>

definition read_extent_data ::
  "map_mem \<Rightarrow> volume_info \<Rightarrow> disks \<Rightarrow> u64 \<Rightarrow> u64 \<Rightarrow> int \<Rightarrow> (int \<times> u64 \<times> u8 list) option" where
  "read_extent_data mem vi dk logical max_len mirror =
     do {
       r \<leftarrow> map_block mem (vi_mapping vi) READ logical True mirror False;
       if mr_ret r \<noteq> 0 then Some (mr_ret r, case mr_length r of None \<Rightarrow> max_len | Some len \<Rightarrow> len, [])
       else
         do {
           s \<leftarrow> first_stripe r;
           len0 \<leftarrow> mr_length r;
           let len = min len0 max_len;
           let device = vi_devs vi (bs_dev s);
           if dev_fd device < 0 then Some (- EIO, len, [])
           else
             (case pread dk (dev_fd device) (unat len) (unat (bs_physical s)) of
                None \<Rightarrow> Some (- EIO, len, [])
              | Some bs \<Rightarrow> Some (if u64_of_int (int_of_u64 (of_nat (length bs))) \<noteq> len then - EIO else 0, len, bs))
         }
     }"

end
