(* ===== verification/DiskSpec.thy ===== *)
theory DiskSpec
  imports DiskIo
begin

text \<open>
  What is on the devices of a volume, seen through the layout of the chunks: bytes of device extents, copies
  of the bytes of a chunk, rows with parity. The locale \<open>extent_array\<close> is the interface of the device extents
  for what is written to them, \<open>piece_reader\<close> that of a loop that reads a range in pieces.
\<close>

section \<open>Interfaces\<close>

text \<open>Extents that hold bytes; a write to a part of one changes that part only.\<close>

locale extent_array =
  fixes ok :: "'s \<Rightarrow> bool" and extent :: "'e \<Rightarrow> bool" and size :: "'e \<Rightarrow> nat"
    and get :: "'s \<Rightarrow> 'e \<Rightarrow> nat \<Rightarrow> 'b" and put :: "'s \<Rightarrow> 'e \<Rightarrow> nat \<Rightarrow> 'b list \<Rightarrow> 's"
  assumes put_ok: "ok s \<Longrightarrow> extent e \<Longrightarrow> off + length bs \<le> size e \<Longrightarrow> ok (put s e off bs)"
    and get_put: "ok s \<Longrightarrow> extent e \<Longrightarrow> off + length bs \<le> size e \<Longrightarrow> extent f \<Longrightarrow> i < size f \<Longrightarrow>
      get (put s e off bs) f i = (if f = e \<and> off \<le> i \<and> i < off + length bs then bs ! (i - off) else get s f i)"
begin

lemma puts_ok:
  "ok s \<Longrightarrow> \<forall>(e, bs)\<in>set ws. extent e \<and> off + length bs \<le> size e \<Longrightarrow> ok (fold (\<lambda>(e, bs) s. put s e off bs) ws s)"
  by (induction ws arbitrary: s) (auto simp: put_ok)

lemma get_puts:
  assumes "ok s" and "\<forall>(e, bs)\<in>set ws. extent e \<and> off + length bs \<le> size e" and "distinct (map fst ws)"
    and "extent f" and "i < size f"
  shows "get (fold (\<lambda>(e, bs) s. put s e off bs) ws s) f i =
    (case map_of ws f of
       Some bs \<Rightarrow> if off \<le> i \<and> i < off + length bs then bs ! (i - off) else get s f i
     | None \<Rightarrow> get s f i)"
  using assms
proof (induction ws arbitrary: s)
  case (Cons w ws)
  obtain e bs where w: "w = (e, bs)" by fastforce
  have e: "extent e" "off + length bs \<le> size e" using Cons.prems(2) by (auto simp: w)
  have "map_of ws e = None" using Cons.prems(3) by (simp add: w map_of_eq_None_iff)
  then show ?case
    using Cons.IH [of "put s e off bs"] Cons.prems e
    by (auto simp: w put_ok get_put split: option.split)
qed simp

end

text \<open>A loop that reads a range piece by piece.\<close>

locale piece_reader =
  fixes readable :: "nat \<Rightarrow> nat \<Rightarrow> bool" and step :: "nat \<Rightarrow> nat \<Rightarrow> (int + 'b list) option"
    and loop :: "nat \<Rightarrow> nat \<Rightarrow> 'b list \<Rightarrow> (int \<times> 'b list) option" and byte :: "nat \<Rightarrow> 'b"
  assumes step: "readable a n \<Longrightarrow> 0 < n \<Longrightarrow>
      \<exists>k. 0 < k \<and> k \<le> n \<and> step a n = Some (Inr (map byte [a..<a + k])) \<and> readable (a + k) (n - k)"
    and loop_end: "loop a 0 buf = Some (0, buf)"
    and loop_step: "readable a n \<Longrightarrow> 0 < n \<Longrightarrow> step a n = Some (Inr bs) \<Longrightarrow> length bs \<le> n \<Longrightarrow>
      loop a n buf = loop (a + length bs) (n - length bs) (buf @ bs)"
begin

lemma reads: "readable a n \<Longrightarrow> loop a n buf = Some (0, buf @ map byte [a..<a + n])"
proof (induction n arbitrary: a buf rule: less_induct)
  case (less n)
  show ?case
  proof (cases "n = 0")
    case False
    then obtain k where k: "0 < k" "k \<le> n" "step a n = Some (Inr (map byte [a..<a + k]))" "readable (a + k) (n - k)"
      using step [OF less.prems] by blast
    have "[a..<a + n] = [a..<a + k] @ [a + k..<a + n]" using k(2) upt_add_eq_append [of a "a + k" "n - k"] by simp
    then show ?thesis
      using less.IH [OF _ k(4)] loop_step [OF less.prems _ k(3)] k by simp
  qed (simp add: loop_end)
qed

end

section \<open>Device extents\<close>

type_synonym dev_extent = "map_lookup \<times> nat"

definition ext_fd :: "volume_info \<Rightarrow> dev_extent \<Rightarrow> int" where
  "ext_fd vi e = dev_fd (vi_devs vi (bs_dev (ml_stripes (fst e) ! snd e)))"

definition ext_start :: "dev_extent \<Rightarrow> nat" where
  "ext_start e = unat (bs_physical (ml_stripes (fst e) ! snd e))"

definition ext_len :: "dev_extent \<Rightarrow> nat" where
  "ext_len e = extent_len (fst e)"

definition vol_extent :: "volume_info \<Rightarrow> dev_extent \<Rightarrow> bool" where
  "vol_extent vi e \<longleftrightarrow> fst e \<in> chunks (vi_mapping vi) \<and> snd e < n_stripes (fst e)"

definition ext_byte :: "volume_info \<Rightarrow> disks \<Rightarrow> dev_extent \<Rightarrow> nat \<Rightarrow> u8" where
  "ext_byte vi dk e i = (case dk (ext_fd vi e) of Some bs \<Rightarrow> bs ! (ext_start e + i) | None \<Rightarrow> 0)"

definition ext_put :: "volume_info \<Rightarrow> disks \<Rightarrow> dev_extent \<Rightarrow> nat \<Rightarrow> u8 list \<Rightarrow> disks" where
  "ext_put vi dk e off bytes =
     (case dk (ext_fd vi e) of
        Some bs \<Rightarrow> dk(ext_fd vi e \<mapsto> take (ext_start e + off) bs @ bytes @ drop (ext_start e + off + length bytes) bs)
      | None \<Rightarrow> dk)"

text \<open>
  The devices hold the extents of all chunks, and no two extents meet. The address of the super block is not in
  a chunk (chunks start above the first megabyte).
\<close>

definition chunk_on_disk :: "map_lookup \<Rightarrow> bool" where
  "chunk_on_disk m \<longleftrightarrow> whole_rows m \<and> extents_ok m \<and> \<not> in_chunk m 65536"

definition extent_on_disk :: "volume_info \<Rightarrow> disks \<Rightarrow> dev_extent \<Rightarrow> bool" where
  "extent_on_disk vi dk e \<longleftrightarrow> 0 < ext_fd vi e \<and>
     (case dk (ext_fd vi e) of Some bs \<Rightarrow> ext_start e + ext_len e \<le> length bs | None \<Rightarrow> False)"

definition apart :: "volume_info \<Rightarrow> dev_extent \<Rightarrow> dev_extent \<Rightarrow> bool" where
  "apart vi e f \<longleftrightarrow> ext_fd vi e \<noteq> ext_fd vi f \<or> ext_start e + ext_len e \<le> ext_start f \<or>
     ext_start f + ext_len f \<le> ext_start e"

definition volume_ok :: "volume_info \<Rightarrow> disks \<Rightarrow> bool" where
  "volume_ok vi dk \<longleftrightarrow> mapping_ok (vi_mapping vi) \<and> (\<forall>m\<in>chunks (vi_mapping vi). chunk_on_disk m) \<and>
     (\<forall>e. vol_extent vi e \<longrightarrow> extent_on_disk vi dk e) \<and>
     (\<forall>e f. vol_extent vi e \<longrightarrow> vol_extent vi f \<longrightarrow> e \<noteq> f \<longrightarrow> apart vi e f)"

lemma volume_okD:
  assumes "volume_ok vi dk"
  shows "mapping_ok (vi_mapping vi)" "m \<in> chunks (vi_mapping vi) \<Longrightarrow> chunk_on_disk m"
    "vol_extent vi e \<Longrightarrow> extent_on_disk vi dk e" "vol_extent vi e \<Longrightarrow> vol_extent vi f \<Longrightarrow> e = f \<or> apart vi e f"
  using assms unfolding volume_ok_def by blast+

lemma vol_extentD:
  assumes "volume_ok vi dk" and "vol_extent vi e"
  shows "0 < ext_fd vi e" "\<exists>bs. dk (ext_fd vi e) = Some bs \<and> ext_start e + ext_len e \<le> length bs"
  using volume_okD(3) [OF assms] by (auto simp: extent_on_disk_def split: option.splits)

lemma splice_nth:
  assumes "p + length b \<le> length bs" and "i < length bs"
  shows "(take p bs @ b @ drop (p + length b) bs) ! i = (if p \<le> i \<and> i < p + length b then b ! (i - p) else bs ! i)"
  using assms by (auto simp: nth_append)

interpretation exts: extent_array "volume_ok vi" "vol_extent vi" ext_len "ext_byte vi" "ext_put vi" for vi
proof
  fix s e off and bs :: "u8 list"
  assume a: "volume_ok vi s" "vol_extent vi e" "off + length bs \<le> ext_len e"
  obtain d where d: "s (ext_fd vi e) = Some d" "ext_start e + ext_len e \<le> length d"
    using vol_extentD(2) [OF a(1,2)] by blast
  have "length (take (ext_start e + off) d @ bs @ drop (ext_start e + off + length bs) d) = length d"
    using a(3) d(2) by simp
  then have "extent_on_disk vi (ext_put vi s e off bs) f \<longleftrightarrow> extent_on_disk vi s f" for f
    by (auto simp: extent_on_disk_def ext_put_def d(1))
  then show "volume_ok vi (ext_put vi s e off bs)" using a(1) by (simp add: volume_ok_def)
  fix f i assume f: "vol_extent vi f" "i < ext_len f"
  obtain df where df: "s (ext_fd vi f) = Some df" "ext_start f + ext_len f \<le> length df"
    using vol_extentD(2) [OF a(1) f(1)] by blast
  have ap: "f = e \<or> apart vi e f" using volume_okD(4) [OF a(1,2) f(1)] by blast
  have "ext_start e + off + length bs \<le> length d" using a(3) d(2) by simp
  note sp = splice_nth [OF this]
  show "ext_byte vi (ext_put vi s e off bs) f i =
      (if f = e \<and> off \<le> i \<and> i < off + length bs then bs ! (i - off) else ext_byte vi s f i)"
  proof (cases "ext_fd vi f = ext_fd vi e")
    case True
    then have "df = d" using d df by simp
    then show ?thesis
      using ap sp [of "ext_start f + i"] True df(2) f(2) a(3) d(1)
      by (auto simp: ext_byte_def ext_put_def apart_def)
  next
    case False
    then show ?thesis by (auto simp: ext_byte_def ext_put_def d(1))
  qed
qed

section \<open>The bytes of a chunk\<close>

text \<open>Copy \<open>c\<close> of byte \<open>x\<close> of a chunk; copy 0 is the data.\<close>

definition copy_byte :: "volume_info \<Rightarrow> disks \<Rightarrow> map_lookup \<Rightarrow> nat \<Rightarrow> nat \<Rightarrow> u8" where
  "copy_byte vi dk m c x = ext_byte vi dk (m, place m (x div 65536) c) (extent_offset m x)"

definition data_byte :: "volume_info \<Rightarrow> disks \<Rightarrow> map_lookup \<Rightarrow> nat \<Rightarrow> u8" where
  "data_byte vi dk m x = copy_byte vi dk m 0 x"

text \<open>The byte that a read with mirror \<open>q\<close> returns.\<close>

definition mirror_byte :: "volume_info \<Rightarrow> disks \<Rightarrow> map_lookup \<Rightarrow> nat \<Rightarrow> nat \<Rightarrow> u8" where
  "mirror_byte vi dk m q x = copy_byte vi dk m (mirror_copy m (x div 65536) q) x"

text \<open>The bytes that are mapped at once are neighbours in each copy.\<close>

lemma span_le: "span m x \<le> unat (ce_size (ml_ce m)) - x"
  by (simp add: span_def)

lemma same_block:
  fixes x j n :: nat
  assumes "x mod n + j < n"
  shows "(x + j) div n = x div n" "(x + j) mod n = x mod n + j"
proof -
  have "x + j = (x mod n + j) + x div n * n" by (metis add.assoc add.commute mod_div_mult_eq)
  moreover have "0 < n" using assms by simp
  ultimately show "(x + j) div n = x div n" "(x + j) mod n = x mod n + j"
    using assms by (metis div_mult_self1 div_less add.right_neutral less_numeral_extra(3) add_0)
      (metis \<open>x + j = (x mod n + j) + x div n * n\<close> assms mod_less mod_mult_self1)
qed

lemma span_stripe:
  assumes "chunk_ok m" and "j < span m x"
  shows "place m ((x + j) div 65536) c = place m (x div 65536) c"
    and "extent_offset m (x + j) = extent_offset m x + j"
    and "mirror_copy m ((x + j) div 65536) q = mirror_copy m (x div 65536) q"
proof -
  have *: "place m ((x + j) div 65536) c = place m (x div 65536) c \<and> extent_offset m (x + j) = extent_offset m x + j \<and>
      mirror_copy m ((x + j) div 65536) q = mirror_copy m (x div 65536) q"
  proof (cases "profile m = BTRFS_RAID_SINGLE")
    case True
    then have "data_cols m = 1" using profile_okD(5) [OF assms(1)] by (simp add: data_cols_def)
    with True show ?thesis by (simp add: place_def mirror_copy_def Let_def)
  next
    case False
    then have "x mod 65536 + j < 65536" using assms(2) by (simp add: span_def less_diff_conv add.commute)
    then have "(x + j) div 65536 = x div 65536" "(x + j) mod 65536 = x mod 65536 + j"
      by (rule same_block)+
    then show ?thesis by simp
  qed
  then show "place m ((x + j) div 65536) c = place m (x div 65536) c"
    "extent_offset m (x + j) = extent_offset m x + j"
    "mirror_copy m ((x + j) div 65536) q = mirror_copy m (x div 65536) q" by blast+
qed

lemma stripe_at_simps:
  assumes "extents_ok m" and "i < n_stripes m" and "o' \<le> extent_len m"
  shows "dev_fd (vi_devs vi (bs_dev (stripe_at m i o'))) = ext_fd vi (m, i)"
    "unat (bs_physical (stripe_at m i o')) = ext_start (m, i) + o'"
proof -
  have "ml_stripes m ! i \<in> set (ml_stripes m)" using assms(2) by simp
  then have l: "unat (bs_physical (ml_stripes m ! i)) + o' < 2 ^ 64"
    using assms(1,3) by (fastforce simp: extents_ok_def)
  have "bs_physical (stripe_at m i o') = of_nat (unat (bs_physical (ml_stripes m ! i)) + o')"
    by (simp add: stripe_at_def)
  with unat_of_nat_u64 [OF l] show "unat (bs_physical (stripe_at m i o')) = ext_start (m, i) + o'"
    by (simp add: ext_start_def)
qed (simp add: stripe_at_def ext_fd_def)

lemma pread_extent:
  assumes "volume_ok vi dk" and "vol_extent vi e" and "off + n \<le> ext_len e"
  shows "pread dk (ext_fd vi e) n (ext_start e + off) = Some (map (\<lambda>j. ext_byte vi dk e (off + j)) [0..<n])"
proof -
  obtain bs where bs: "dk (ext_fd vi e) = Some bs" "ext_start e + ext_len e \<le> length bs"
    using vol_extentD(2) [OF assms(1,2)] by blast
  then have "take n (drop (ext_start e + off) bs) = map (\<lambda>j. ext_byte vi dk e (off + j)) [0..<n]"
    using assms(3) by (intro nth_equalityI) (auto simp: ext_byte_def add.assoc)
  then show ?thesis by (simp add: pread_def bs(1))
qed

lemma pwrite_extent:
  assumes "volume_ok vi dk" and "vol_extent vi e" and "off + length bytes \<le> ext_len e"
  shows "pwrite dk (ext_fd vi e) bytes (ext_start e + off) = Some (length bytes, ext_put vi dk e off bytes)"
proof -
  obtain bs where bs: "dk (ext_fd vi e) = Some bs" "ext_start e + ext_len e \<le> length bs"
    using vol_extentD(2) [OF assms(1,2)] by blast
  then have "min (length bytes) (length bs - (ext_start e + off)) = length bytes" using assms(3) by simp
  with bs(1) show ?thesis by (simp add: pwrite_def ext_put_def Let_def)
qed

section \<open>Reading a range of a chunk\<close>

abbreviation chunk_size :: "map_lookup \<Rightarrow> nat" where
  "chunk_size m \<equiv> unat (ce_size (ml_ce m))"

definition chunk_addr :: "map_lookup \<Rightarrow> nat \<Rightarrow> u64" where
  "chunk_addr m x = ce_start (ml_ce m) + of_nat x"

lemma unat_chunk_addr:
  assumes "chunk_ok m" and "x \<le> chunk_size m"
  shows "unat (chunk_addr m x) = unat (ce_start (ml_ce m)) + x"
proof -
  have l: "unat (ce_start (ml_ce m)) + x < 2 ^ 64" using assms chunk_okD(6) [OF assms(1)] by (simp add: ce_ok_def)
  have "chunk_addr m x = of_nat (unat (ce_start (ml_ce m)) + x)" by (simp add: chunk_addr_def)
  with unat_of_nat_u64 [OF l] show ?thesis by simp
qed

lemma chunk_addr_in:
  assumes "chunk_ok m" and "x < chunk_size m"
  shows "in_chunk m (chunk_addr m x)" "chunk_offset m (chunk_addr m x) = x"
  using unat_chunk_addr [OF assms(1), of x] assms(2) by (simp_all add: in_chunk_def chunk_offset_def ce_bytes_def)

lemma chunk_addr_offset: "in_chunk m a \<Longrightarrow> chunk_addr m (chunk_offset m a) = a"
  using in_chunkD(3) [of m a] by (simp add: chunk_addr_def flip: in_chunkD(3))

lemma chunk_addr_add: "chunk_addr m (x + j) = chunk_addr m x + of_nat j"
  by (simp add: chunk_addr_def)

definition range_of :: "volume_info \<Rightarrow> disks \<Rightarrow> map_lookup \<Rightarrow> nat \<Rightarrow> nat \<Rightarrow> bool" where
  "range_of vi dk m x n \<longleftrightarrow> volume_ok vi dk \<and> m \<in> chunks (vi_mapping vi) \<and> x + n \<le> chunk_size m \<and> n < 2 ^ 31"

lemma range_ofD:
  assumes "range_of vi dk m x n"
  shows "chunk_ok m" "whole_rows m" "extents_ok m" "\<not> in_chunk m 65536" "mapping_ok (vi_mapping vi)"
    "i < n_stripes m \<Longrightarrow> vol_extent vi (m, i)" "volume_ok vi dk"
proof -
  have v: "volume_ok vi dk" "m \<in> chunks (vi_mapping vi)" using assms by (auto simp: range_of_def)
  then show "chunk_ok m" "whole_rows m" "extents_ok m" "\<not> in_chunk m 65536" "mapping_ok (vi_mapping vi)" "volume_ok vi dk"
    using volume_okD(1,2) [OF v(1)] chunks_ok by (auto simp: chunk_on_disk_def)
  show "vol_extent vi (m, i)" if "i < n_stripes m" using v(2) that by (simp add: vol_extent_def)
qed

lemma read_piece:
  assumes r: "range_of vi dk m x n" "0 < n" and mem: "mm_multi mem" and q: "q \<le> copies m" and k: "k = min n (span m x)"
  shows "\<exists>s r. map_block mem (vi_mapping vi) READ (chunk_addr m x) True (int q) False = Some r \<and> mr_ret r = 0 \<and>
    first_stripe r = Some s \<and> mr_length r = Some (of_nat (span m x)) \<and> 0 < dev_fd (vi_devs vi (bs_dev s)) \<and>
    pread dk (dev_fd (vi_devs vi (bs_dev s))) k (unat (bs_physical s)) =
      Some (map (mirror_byte vi dk m q) [x..<x + k]) \<and> 0 < k \<and> k \<le> n \<and> k \<le> span m x"
proof -
  note d = range_ofD [OF r(1)]
  let ?c = "mirror_copy m (x div 65536) q"
  let ?i = "place m (x div 65536) ?c"
  have x: "x < chunk_size m" using r by (simp add: range_of_def)
  have i: "?i < n_stripes m" using place_less [OF d(1) mirror_copy_less [OF d(1) q]] .
  note b = extent_bound [OF d(1,2) x]
  have "extent_offset m x \<le> extent_len m" using b(1) by linarith
  note st = stripe_at_simps [OF d(3) i this]
  have e: "vol_extent vi (m, ?i)" using d(6) i by blast
  have m: "m \<in> chunks (vi_mapping vi)" using r(1) by (simp add: range_of_def)
  note map = map_block_read [OF d(5) m chunk_addr_in(1) [OF d(1) x] mem q, of False, unfolded chunk_addr_in(2) [OF d(1) x],
      OF _ refl refl, simplified]
  have "extent_offset m x + k \<le> ext_len (m, ?i)" using b(1) unfolding k ext_len_def by simp
  note rd = pread_extent [OF d(7) e this]
  have bytes: "map (\<lambda>j. ext_byte vi dk (m, ?i) (extent_offset m x + j)) [0..<k] = map (mirror_byte vi dk m q) [x..<x + k]"
  proof (intro nth_equalityI)
    fix j assume "j < length (map (\<lambda>j. ext_byte vi dk (m, ?i) (extent_offset m x + j)) [0..<k])"
    then have j: "j < k" "j < span m x" using k by simp_all
    have "mirror_byte vi dk m q (x + j) = ext_byte vi dk (m, ?i) (extent_offset m x + j)"
      unfolding mirror_byte_def copy_byte_def by (simp only: span_stripe [OF d(1) j(2)])
    with j(1) show "map (\<lambda>j. ext_byte vi dk (m, ?i) (extent_offset m x + j)) [0..<k] ! j = map (mirror_byte vi dk m q) [x..<x + k] ! j"
      by simp
  qed simp
  show ?thesis
    using map rd [unfolded bytes] vol_extentD(1) [OF d(7) e] st b(2) r(2) k by (auto simp: first_stripe_def)
qed

lemma u64_min_nat: "a < 2 ^ 64 \<Longrightarrow> b < 2 ^ 64 \<Longrightarrow> min (of_nat a) (of_nat b :: u64) = of_nat (min a b)"
  by (simp add: min_def word_le_nat_alt unat_of_nat)

lemma span_u64: "span m x < 2 ^ 64"
  using span_le [of m x] unat_u64 [of "ce_size (ml_ce m)"] by simp

lemma range_of_tail:
  "range_of vi dk m x n \<Longrightarrow> k \<le> n \<Longrightarrow> range_of vi dk m (x + k) (n - k)"
  by (auto simp: range_of_def)

interpretation data_read: piece_reader "\<lambda>x n. range_of vi dk m x n \<and> mm_multi mem \<and> q \<le> copies m"
  "\<lambda>x n. read_data_step mem vi dk (chunk_addr m x) (of_nat n) (int q)"
  "\<lambda>x n buf. read_data_loop mem vi dk (chunk_addr m x) (of_nat n) (int q) buf" "mirror_byte vi dk m q" for mem vi dk m q
proof
  fix x n assume a: "range_of vi dk m x n \<and> mm_multi mem \<and> q \<le> copies m" "0 < n"
  let ?k = "min n (span m x)"
  obtain s r where p: "map_block mem (vi_mapping vi) READ (chunk_addr m x) True (int q) False = Some r" "mr_ret r = 0"
    "first_stripe r = Some s" "mr_length r = Some (of_nat (span m x))" "0 < dev_fd (vi_devs vi (bs_dev s))"
    "pread dk (dev_fd (vi_devs vi (bs_dev s))) ?k (unat (bs_physical s)) = Some (map (mirror_byte vi dk m q) [x..<x + ?k])"
    and k: "0 < ?k" "?k \<le> n" "?k \<le> span m x"
    using read_piece [OF _ a(2) _ _ refl, of vi dk m x mem q] a(1) by blast
  have n: "n < 2 ^ 31" "n < 2 ^ 64" "?k < 2 ^ 31" "?k < 2 ^ 64" using a(1) by (auto simp: range_of_def)
  have "read_data_step mem vi dk (chunk_addr m x) (of_nat n) (int q) = Some (Inr (map (mirror_byte vi dk m q) [x..<x + ?k]))"
    using p(5) by (simp add: read_data_step_def p(1-4) u64_min_nat [OF n(2) span_u64] unat_of_nat_u64 [OF n(4)] p(6)
        int_of_u64_nat [OF n(3)] Let_def del: of_nat_min)
  with k a(1) range_of_tail [of vi dk m x n ?k]
  show "\<exists>k. 0 < k \<and> k \<le> n \<and> read_data_step mem vi dk (chunk_addr m x) (of_nat n) (int q) =
      Some (Inr (map (mirror_byte vi dk m q) [x..<x + k])) \<and> (range_of vi dk m (x + k) (n - k) \<and> mm_multi mem \<and> q \<le> copies m)"
    by blast
next
  fix x n buf and bs :: "u8 list"
  show "read_data_loop mem vi dk (chunk_addr m x) (of_nat 0) (int q) buf = Some (0, buf)"
    by (subst read_data_loop.simps) simp
  assume a: "range_of vi dk m x n \<and> mm_multi mem \<and> q \<le> copies m" "0 < n"
    "read_data_step mem vi dk (chunk_addr m x) (of_nat n) (int q) = Some (Inr bs)" "length bs \<le> n"
  then have "(of_nat n :: u64) \<noteq> 0" by (auto simp: of_nat_u64_eq_0 range_of_def)
  with a(3,4) show "read_data_loop mem vi dk (chunk_addr m x) (of_nat n) (int q) buf =
      read_data_loop mem vi dk (chunk_addr m (x + length bs)) (of_nat (n - length bs)) (int q) (buf @ bs)"
    by (subst read_data_loop.simps) (simp add: chunk_addr_add of_nat_diff)
qed

lemma read_data_from_disk_ok:
  assumes "range_of vi dk m x n" and "mm_multi mem" and "q \<le> copies m"
  shows "read_data_from_disk mem vi dk (chunk_addr m x) (of_nat n) (int q) = Some (0, map (mirror_byte vi dk m q) [x..<x + n])"
  using data_read.reads [of vi dk m x n mem q "[]"] assms by (simp add: read_data_from_disk_def)

text \<open>The same for a block; the block does not start at the address of the super block.\<close>

interpretation eb_read: piece_reader
  "\<lambda>x n. range_of vi dk m x n \<and> mm_multi mem \<and> q \<le> copies m \<and> \<not> vi_on_restoring vi \<and> x0 \<le> x \<and> chunk_addr m x0 \<noteq> 65536"
  "\<lambda>x n. read_eb_step mem vi dk (chunk_addr m x0) (x - x0) n (int q)"
  "\<lambda>x n buf. read_eb_loop mem vi dk (chunk_addr m x0) (x - x0) n (int q) buf" "mirror_byte vi dk m q" for mem vi dk m q x0
proof
  fix x n
  assume a: "range_of vi dk m x n \<and> mm_multi mem \<and> q \<le> copies m \<and> \<not> vi_on_restoring vi \<and> x0 \<le> x \<and> chunk_addr m x0 \<noteq> 65536" "0 < n"
  let ?k = "min n (span m x)"
  obtain s r where p: "map_block mem (vi_mapping vi) READ (chunk_addr m x) True (int q) False = Some r" "mr_ret r = 0"
    "first_stripe r = Some s" "mr_length r = Some (of_nat (span m x))" "0 < dev_fd (vi_devs vi (bs_dev s))"
    "pread dk (dev_fd (vi_devs vi (bs_dev s))) ?k (unat (bs_physical s)) = Some (map (mirror_byte vi dk m q) [x..<x + ?k])"
    and k: "0 < ?k" "?k \<le> n" "?k \<le> span m x"
    using read_piece [OF _ a(2) _ _ refl, of vi dk m x mem q] a(1) by blast
  have n: "?k < 2 ^ 31" using a(1) by (auto simp: range_of_def)
  have addr: "chunk_addr m x0 + of_nat (x - x0) = chunk_addr m x" using chunk_addr_add [of m x0 "x - x0"] a(1) by simp
  have sp: "min (unat (of_nat (span m x) :: u64)) n = ?k" by (simp only: unat_of_nat_u64 [OF span_u64] min.commute)
  have rd: "read_extent_from_disk dk (dev_fd (vi_devs vi (bs_dev s))) (unat (bs_physical s)) ?k =
      (0, map (mirror_byte vi dk m q) [x..<x + ?k])"
    by (simp add: read_extent_from_disk_def p(6) int_of_u64_nat [OF n] del: of_nat_min)
  have "read_eb_step mem vi dk (chunk_addr m x0) (x - x0) n (int q) = Some (Inr (map (mirror_byte vi dk m q) [x..<x + ?k]))"
    using p(5) a(1) by (simp add: read_eb_step_def addr p(1-4) sp rd del: of_nat_diff)
  with k a(1) range_of_tail [of vi dk m x n ?k]
  show "\<exists>k. 0 < k \<and> k \<le> n \<and> read_eb_step mem vi dk (chunk_addr m x0) (x - x0) n (int q) =
      Some (Inr (map (mirror_byte vi dk m q) [x..<x + k])) \<and>
      (range_of vi dk m (x + k) (n - k) \<and> mm_multi mem \<and> q \<le> copies m \<and> \<not> vi_on_restoring vi \<and> x0 \<le> x + k \<and> chunk_addr m x0 \<noteq> 65536)"
    by (intro exI [of _ ?k]) auto
next
  fix x n buf and bs :: "u8 list"
  show "read_eb_loop mem vi dk (chunk_addr m x0) (x - x0) 0 (int q) buf = Some (0, buf)"
    by (subst read_eb_loop.simps) simp
  assume a: "range_of vi dk m x n \<and> mm_multi mem \<and> q \<le> copies m \<and> \<not> vi_on_restoring vi \<and> x0 \<le> x \<and> chunk_addr m x0 \<noteq> 65536"
    "0 < n" "read_eb_step mem vi dk (chunk_addr m x0) (x - x0) n (int q) = Some (Inr bs)" "length bs \<le> n"
  then have "x - x0 + length bs = x + length bs - x0" by simp
  with a(2,3) show "read_eb_loop mem vi dk (chunk_addr m x0) (x - x0) n (int q) buf =
      read_eb_loop mem vi dk (chunk_addr m x0) (x + length bs - x0) (n - length bs) (int q) (buf @ bs)"
    by (subst read_eb_loop.simps) simp
qed

lemma read_whole_eb_ok:
  assumes "range_of vi dk m x n" and "mm_multi mem" and "q \<le> copies m" and "\<not> vi_on_restoring vi" and "chunk_addr m x \<noteq> 65536"
  shows "read_whole_eb mem vi dk (chunk_addr m x) n (int q) = Some (0, map (mirror_byte vi dk m q) [x..<x + n])"
  using eb_read.reads [of vi dk m x n mem q x "[]"] assms by (simp add: read_whole_eb_def)

end
