(* ===== verification/DiskWrite.thy ===== *)
theory DiskWrite
  imports DiskSpec
begin

text \<open>
  Writes through the chunk mapping: what a write changes in the bytes of the chunks, and that it keeps the
  copies of a chunk equal and the parity of its rows right.
\<close>

section \<open>Redundancy\<close>

text \<open>The stripes of a row, data first, then P and Q.\<close>

definition row_store :: "volume_info \<Rightarrow> disks \<Rightarrow> map_lookup \<Rightarrow> nat \<Rightarrow> store" where
  "row_store vi dk m r = (\<lambda>i. map (\<lambda>j. ext_byte vi dk (m, column_extent m r i) (r * 65536 + j)) [0..<65536])"

definition row_ok :: "map_lookup \<Rightarrow> store \<Rightarrow> bool" where
  "row_ok m st \<longleftrightarrow>
     (if profile m = BTRFS_RAID_RAID6 then raid6_ok st [0..<n_stripes m] (n_stripes m) BTRFS_STRIPE_LEN
      else raid5_ok st [0..<n_stripes m] (n_stripes m) BTRFS_STRIPE_LEN)"

definition redundant :: "volume_info \<Rightarrow> disks \<Rightarrow> map_lookup \<Rightarrow> bool" where
  "redundant vi dk m \<longleftrightarrow>
     (if has_parity m then \<forall>r<extent_len m div 65536. row_ok m (row_store vi dk m r)
      else \<forall>x<chunk_size m. \<forall>c<copies m. copy_byte vi dk m c x = data_byte vi dk m x)"

lemma redundant_copies:
  assumes "\<not> has_parity m"
  shows "redundant vi dk m \<Longrightarrow> x < chunk_size m \<Longrightarrow> c < copies m \<Longrightarrow> copy_byte vi dk m c x = data_byte vi dk m x"
    and "(\<And>x c. x < chunk_size m \<Longrightarrow> c < copies m \<Longrightarrow> copy_byte vi dk m c x = data_byte vi dk m x) \<Longrightarrow> redundant vi dk m"
  unfolding redundant_def if_not_P [OF assms] by blast+

text \<open>\<open>bs\<close> was written at offset \<open>x\<close> of chunk \<open>m\<close>.\<close>

definition written :: "volume_info \<Rightarrow> disks \<Rightarrow> disks \<Rightarrow> map_lookup \<Rightarrow> nat \<Rightarrow> u8 list \<Rightarrow> bool" where
  "written vi dk dk1 m x bs \<longleftrightarrow> volume_ok vi dk1 \<and>
     (\<forall>m'\<in>chunks (vi_mapping vi). (redundant vi dk m' \<longrightarrow> redundant vi dk1 m') \<and>
        (\<forall>y<chunk_size m'. data_byte vi dk1 m' y =
           (if m' = m \<and> x \<le> y \<and> y < x + length bs then bs ! (y - x) else data_byte vi dk m' y)))"

lemma written_nil: "volume_ok vi dk \<Longrightarrow> written vi dk dk m x []"
  by (auto simp: written_def)

lemma written_append:
  assumes "written vi dk dk1 m x bs" and "written vi dk1 dk2 m (x + length bs) cs"
  shows "written vi dk dk2 m x (bs @ cs)"
proof -
  have "data_byte vi dk2 m' y = (if m' = m \<and> x \<le> y \<and> y < x + length (bs @ cs) then (bs @ cs) ! (y - x) else data_byte vi dk m' y)"
    if "m' \<in> chunks (vi_mapping vi)" "y < chunk_size m'" for m' y
  proof -
    have "data_byte vi dk1 m' y = (if m' = m \<and> x \<le> y \<and> y < x + length bs then bs ! (y - x) else data_byte vi dk m' y)"
      "data_byte vi dk2 m' y = (if m' = m \<and> x + length bs \<le> y \<and> y < x + length bs + length cs then cs ! (y - (x + length bs))
         else data_byte vi dk1 m' y)"
      using assms that unfolding written_def by blast+
    then show ?thesis by (auto simp: nth_append)
  qed
  then show ?thesis using assms unfolding written_def by blast
qed

text \<open>What is not touched.\<close>

lemma unchanged_extents:
  assumes "volume_ok vi dk" and "m \<in> chunks (vi_mapping vi)"
    and same: "\<And>i j. i < n_stripes m \<Longrightarrow> j < extent_len m \<Longrightarrow> ext_byte vi dk1 (m, i) j = ext_byte vi dk (m, i) j"
  shows "redundant vi dk1 m \<longleftrightarrow> redundant vi dk m" "x < chunk_size m \<Longrightarrow> data_byte vi dk1 m x = data_byte vi dk m x"
proof -
  have m: "chunk_ok m" "whole_rows m" using volume_okD(1,2) [OF assms(1)] assms(2) chunks_ok by (auto simp: chunk_on_disk_def)
  have copy: "copy_byte vi dk1 m c x = copy_byte vi dk m c x" if "x < chunk_size m" "c < copies m" for c x
    using same [OF place_less [OF m(1) that(2)]] extent_bound [OF m that(1)] by (simp add: copy_byte_def)
  then show data: "x < chunk_size m \<Longrightarrow> data_byte vi dk1 m x = data_byte vi dk m x" for x
    using chunk_okD(9) [OF m(1)] by (simp add: data_byte_def)
  have rows: "row_store vi dk1 m r = row_store vi dk m r" if "r < extent_len m div 65536" for r
  proof -
    have "r * 65536 + j < extent_len m" if "j < 65536" for j
      using that \<open>r < extent_len m div 65536\<close> by (simp add: less_eq_div_iff_mult_less_eq Suc_le_eq flip: Suc_le_eq)
    moreover have "column_extent m r i < n_stripes m" for i using chunk_okD(2) [OF m(1)] by (simp add: column_extent_def)
    ultimately show ?thesis using same unfolding row_store_def by (intro ext map_cong refl) simp
  qed
  show "redundant vi dk1 m \<longleftrightarrow> redundant vi dk m"
    using copy data rows by (simp add: redundant_def)
qed

section \<open>Writes to extents\<close>

definition ext_puts :: "volume_info \<Rightarrow> nat \<Rightarrow> (dev_extent \<times> u8 list) list \<Rightarrow> disks \<Rightarrow> disks" where
  "ext_puts vi off ws dk = fold (\<lambda>(e, bs) s. ext_put vi s e off bs) ws dk"

definition puts_fit :: "volume_info \<Rightarrow> nat \<Rightarrow> (dev_extent \<times> u8 list) list \<Rightarrow> bool" where
  "puts_fit vi off ws \<longleftrightarrow> (\<forall>(e, bs)\<in>set ws. vol_extent vi e \<and> off + length bs \<le> ext_len e \<and> length bs < 2 ^ 31)"

lemma ext_puts_ok: "volume_ok vi dk \<Longrightarrow> puts_fit vi off ws \<Longrightarrow> volume_ok vi (ext_puts vi off ws dk)"
  unfolding ext_puts_def puts_fit_def by (rule exts.puts_ok) auto

lemma ext_byte_puts:
  assumes "volume_ok vi dk" and "puts_fit vi off ws" and "distinct (map fst ws)" and "vol_extent vi f" and "i < ext_len f"
  shows "ext_byte vi (ext_puts vi off ws dk) f i =
    (case map_of ws f of
       Some bs \<Rightarrow> if off \<le> i \<and> i < off + length bs then bs ! (i - off) else ext_byte vi dk f i
     | None \<Rightarrow> ext_byte vi dk f i)"
  unfolding ext_puts_def by (rule exts.get_puts) (use assms in \<open>auto simp: puts_fit_def\<close>)

text \<open>The stripe of an extent, and the three loops that write.\<close>

abbreviation put_stripe :: "nat \<Rightarrow> dev_extent \<times> u8 list \<Rightarrow> btrfs_bio_stripe" where
  "put_stripe off w \<equiv> stripe_at (fst (fst w)) (snd (fst w)) off"

lemma pwrite_stripe:
  assumes v: "volume_ok vi dk" and f: "puts_fit vi off (w # ws)"
  shows "0 < dev_fd (vi_devs vi (bs_dev (put_stripe off w)))"
    and "pwrite dk (dev_fd (vi_devs vi (bs_dev (put_stripe off w)))) (snd w) (unat (bs_physical (put_stripe off w))) =
      Some (length (snd w), ext_put vi dk (fst w) off (snd w))"
    and "volume_ok vi (ext_put vi dk (fst w) off (snd w))" and "length (snd w) < 2 ^ 31" and "puts_fit vi off ws"
proof -
  obtain m i bs where w: "w = ((m, i), bs)" by (metis prod.exhaust)
  have e: "vol_extent vi (m, i)" "off + length bs \<le> ext_len (m, i)" "length bs < 2 ^ 31" using f by (auto simp: puts_fit_def w)
  have "extents_ok m" using volume_okD(2) [OF v] e(1) by (auto simp: vol_extent_def chunk_on_disk_def)
  moreover have "i < n_stripes m" "off \<le> extent_len m" using e by (auto simp: vol_extent_def ext_len_def)
  ultimately have st: "dev_fd (vi_devs vi (bs_dev (stripe_at m i off))) = ext_fd vi (m, i)"
    "unat (bs_physical (stripe_at m i off)) = ext_start (m, i) + off" by (rule stripe_at_simps)+
  show "0 < dev_fd (vi_devs vi (bs_dev (put_stripe off w)))" using vol_extentD(1) [OF v e(1)] st by (simp add: w)
  show "pwrite dk (dev_fd (vi_devs vi (bs_dev (put_stripe off w)))) (snd w) (unat (bs_physical (put_stripe off w))) =
      Some (length (snd w), ext_put vi dk (fst w) off (snd w))"
    using pwrite_extent [OF v e(1,2)] st by (simp add: w)
  show "volume_ok vi (ext_put vi dk (fst w) off (snd w))" using exts.put_ok [OF v e(1,2)] by (simp add: w)
  show "length (snd w) < 2 ^ 31" "puts_fit vi off ws" using f by (auto simp: w puts_fit_def)
qed

lemma write_extent_stripe:
  assumes "volume_ok vi dk" and "puts_fit vi off (w # ws)"
  shows "write_extent_to_disk dk (dev_fd (vi_devs vi (bs_dev (put_stripe off w)))) (snd w) (unat (bs_physical (put_stripe off w))) =
    (0, ext_put vi dk (fst w) off (snd w))"
  using pwrite_stripe [OF assms] by (simp add: write_extent_to_disk_def int_of_u64_nat)

lemma write_copies_ok:
  assumes "volume_ok vi dk" and "puts_fit vi off ws" and "\<forall>w\<in>set ws. snd w = bytes"
  shows "write_copies vi dk bytes (map (put_stripe off) ws) = (0, ext_puts vi off ws dk)"
  using assms
proof (induction ws arbitrary: dk)
  case (Cons w ws)
  note p = pwrite_stripe [OF Cons.prems(1,2)]
  have "snd w = bytes" using Cons.prems(3) by simp
  with Cons.IH [OF p(3,5)] Cons.prems(3) p(1,2,4) show ?case
    by (simp add: ext_puts_def case_prod_unfold Let_def int_of_u64_nat)
qed (simp add: ext_puts_def)

lemma write_eb_copies_ok:
  assumes "volume_ok vi dk" and "puts_fit vi off ws" and "\<forall>w\<in>set ws. snd w = bytes"
  shows "write_eb_copies vi dk bytes (map (put_stripe off) ws) = Some (ext_puts vi off ws dk)"
  using assms
proof (induction ws arbitrary: dk)
  case (Cons w ws)
  have "snd w = bytes" using Cons.prems(3) by simp
  with Cons.IH [OF pwrite_stripe(3,5) [OF Cons.prems(1,2)]] Cons.prems(3) write_extent_stripe [OF Cons.prems(1,2)] show ?case
    by (simp add: ext_puts_def case_prod_unfold)
qed (simp add: ext_puts_def)

lemma write_stripes_ok:
  assumes "volume_ok vi dk" and "puts_fit vi off ws"
  shows "write_stripes vi dk (map (\<lambda>w. (put_stripe off w, snd w)) ws) = (0, ext_puts vi off ws dk)"
  using assms
proof (induction ws arbitrary: dk)
  case (Cons w ws)
  with Cons.IH [OF pwrite_stripe(3,5) [OF Cons.prems]] write_extent_stripe [OF Cons.prems] show ?case
    by (simp add: ext_puts_def case_prod_unfold)
qed (simp add: ext_puts_def)

section \<open>A piece of a chunk without parity\<close>

lemma range_of_start: "range_of vi dk m x (length bs) \<Longrightarrow> bs \<noteq> [] \<Longrightarrow> x < chunk_size m"
  by (cases bs) (auto simp: range_of_def)

lemma distinct_places: "chunk_ok m \<Longrightarrow> distinct (map (place m k) [0..<copies m])"
  by (auto simp: distinct_map inj_on_def intro: place_inj(1))

abbreviation copy_puts :: "map_lookup \<Rightarrow> nat \<Rightarrow> u8 list \<Rightarrow> (dev_extent \<times> u8 list) list" where
  "copy_puts m x bs \<equiv> map (\<lambda>c. ((m, place m (x div 65536) c), bs)) [0..<copies m]"

lemma map_of_const: "map_of (map (\<lambda>c. (f c, b)) xs) e = (if e \<in> f ` set xs then Some b else None)"
  by (induction xs) auto

lemma copy_puts_fit:
  assumes "range_of vi dk m x (length bs)" and "bs \<noteq> []" and "length bs \<le> span m x"
  shows "puts_fit vi (extent_offset m x) (copy_puts m x bs)"
proof -
  note d = range_ofD [OF assms(1)]
  have l: "length bs < 2 ^ 31" using assms(1) by (simp add: range_of_def)
  have "x < chunk_size m" using assms(1,2) by (rule range_of_start)
  then have "extent_offset m x + span m x \<le> extent_len m" using extent_bound [OF d(1,2)] by blast
  then have "extent_offset m x + length bs \<le> extent_len m" using assms(3) by linarith
  with l show ?thesis using d(6) place_less [OF d(1)] by (auto simp: puts_fit_def ext_len_def)
qed

lemma copies_written:
  assumes r: "range_of vi dk m x (length bs)" and bs: "bs \<noteq> []" "length bs \<le> span m x" and par: "\<not> has_parity m"
  shows "written vi dk (ext_puts vi (extent_offset m x) (copy_puts m x bs) dk) m x bs"
proof -
  note d = range_ofD [OF r] and fit = copy_puts_fit [OF r bs]
  let ?off = "extent_offset m x" and ?dk = "ext_puts vi (extent_offset m x) (copy_puts m x bs) dk" and ?k = "x div 65536"
  have dis: "distinct (map fst (copy_puts m x bs))"
    using distinct_places [OF d(1)] by (simp add: comp_def distinct_map inj_on_def)
  have byte: "ext_byte vi ?dk f i = (if f \<in> (\<lambda>c. (m, place m ?k c)) ` {..<copies m} \<and> ?off \<le> i \<and> i < ?off + length bs
      then bs ! (i - ?off) else ext_byte vi dk f i)" if "vol_extent vi f" "i < ext_len f" for f i
    using ext_byte_puts [OF d(7) fit dis that] by (simp add: map_of_const atLeast0LessThan)
  have copy: "copy_byte vi ?dk m c y = (if x \<le> y \<and> y < x + length bs then bs ! (y - x) else copy_byte vi dk m c y)"
    if y: "y < chunk_size m" and c: "c < copies m" for y c
  proof -
    let ?f = "(m, place m (y div 65536) c)" and ?i = "extent_offset m y"
    have f: "vol_extent vi ?f" using d(6) place_less [OF d(1) c] by blast
    have i: "?i < ext_len ?f" using extent_bound [OF d(1,2) y] by (simp add: ext_len_def)
    show ?thesis
    proof (cases "x \<le> y \<and> y < x + length bs")
      case True
      define j where "j = y - x"
      have j: "y = x + j" "j < span m x" "j < length bs" using True bs(2) by (auto simp: j_def)
      note sp = span_stripe [OF d(1) j(2), folded j(1)]
      have "?f = (m, place m ?k c)" "?i = ?off + j" using sp(1,2) by simp_all
      then show ?thesis unfolding copy_byte_def byte [OF f i] using c j True by auto
    next
      case False
      have "\<not> (?f \<in> (\<lambda>c. (m, place m ?k c)) ` {..<copies m} \<and> ?off \<le> ?i \<and> ?i < ?off + length bs)"
      proof
        assume h: "?f \<in> (\<lambda>c. (m, place m ?k c)) ` {..<copies m} \<and> ?off \<le> ?i \<and> ?i < ?off + length bs"
        then obtain c' where c': "c' < copies m" "place m (y div 65536) c = place m ?k c'" by auto
        define j where "j = ?i - ?off"
        have j: "?i = ?off + j" "j < length bs" "j < span m x" using h bs(2) unfolding j_def by linarith+
        note sp = span_stripe [OF d(1) j(3)]
        have "extent_offset m (x + j) = extent_offset m y" "place m ((x + j) div 65536) c' = place m (y div 65536) c"
          using sp(1,2) j(1) c'(2) by simp_all
        from chunk_places_distinct [OF d(1) c'(1) c this(2,1)] have "x + j = y" using par by auto
        with False j(2) show False by auto
      qed
      then show ?thesis unfolding copy_byte_def byte [OF f i] using False by auto
    qed
  qed
  have other: "ext_byte vi ?dk (m', i) j = ext_byte vi dk (m', i) j"
    if "m' \<noteq> m" "m' \<in> chunks (vi_mapping vi)" "i < n_stripes m'" "j < extent_len m'" for m' i j
    using byte [of "(m', i)" j] that by (auto simp: vol_extent_def ext_len_def)
  have c0: "0 < copies m" using chunk_okD(9) [OF d(1)] .
  show ?thesis
    unfolding written_def
  proof (intro conjI ballI allI impI)
    show "volume_ok vi ?dk" using d(7) fit by (rule ext_puts_ok)
    fix m' assume m': "m' \<in> chunks (vi_mapping vi)"
    show "redundant vi ?dk m'" if "redundant vi dk m'"
    proof (cases "m' = m")
      case True
      with that have red: "redundant vi dk m" by simp
      have "copy_byte vi ?dk m c y = data_byte vi ?dk m y" if "y < chunk_size m" "c < copies m" for y c
        unfolding data_byte_def copy [OF that] copy [OF that(1) c0]
        using redundant_copies(1) [OF par red that] by (simp only: data_byte_def)
      then show ?thesis unfolding True by (intro redundant_copies(2) [OF par]) blast
    next
      case False
      from unchanged_extents(1) [OF d(7) m' other [OF False m']] that show ?thesis by simp
    qed
    show "data_byte vi ?dk m' y = (if m' = m \<and> x \<le> y \<and> y < x + length bs then bs ! (y - x) else data_byte vi dk m' y)"
      if "y < chunk_size m'" for y
    proof (cases "m' = m")
      case True
      with that show ?thesis unfolding data_byte_def by (simp only: copy c0 simp_thms)
    next
      case False
      from unchanged_extents(2) [OF d(7) m' other [OF False m'] that] False show ?thesis by simp
    qed
  qed
qed

lemma write_data_step_copies:
  assumes r: "range_of vi dk m x (length buf)" and "buf \<noteq> []" and par: "\<not> has_parity m" and mem: "mm_multi (wm_map wm)"
  shows "\<exists>k dk1. 0 < k \<and> k \<le> length buf \<and> write_data_step wm vi dk buf (chunk_addr m x) mirror = Some (Inr k, dk1) \<and>
    written vi dk dk1 m x (take k buf)"
proof -
  note d = range_ofD [OF r]
  have x: "x < chunk_size m" using r \<open>buf \<noteq> []\<close> by (rule range_of_start)
  have m: "m \<in> chunks (vi_mapping vi)" and l: "length buf < 2 ^ 31" using r by (auto simp: range_of_def)
  let ?k = "min (length buf) (span m x)"
  have k: "0 < ?k" "?k < 2 ^ 64" using extent_bound(2) [OF d(1,2) x] \<open>buf \<noteq> []\<close> l by auto
  have rk: "range_of vi dk m x (length (take ?k buf))" using r by (auto simp: range_of_def)
  have bk: "take ?k buf \<noteq> []" "length (take ?k buf) \<le> span m x" using k(1) by auto
  note map = map_block_write [OF d(5) m chunk_addr_in(1) [OF d(1) x] mem par refl, of mirror True, unfolded chunk_addr_in(2) [OF d(1) x]]
  have "map (\<lambda>c. stripe_at m (place m (x div 65536) c) (extent_offset m x)) [0..<copies m] =
      map (put_stripe (extent_offset m x)) (copy_puts m x (take ?k buf))" by simp
  then have wr: "write_copies vi dk (take ?k buf) (map (\<lambda>c. stripe_at m (place m (x div 65536) c) (extent_offset m x)) [0..<copies m]) =
      (0, ext_puts vi (extent_offset m x) (copy_puts m x (take ?k buf)) dk)"
    using write_copies_ok [OF d(7) copy_puts_fit [OF rk bk], of "take ?k buf"] by (simp only:) auto
  have len: "unat (min (of_nat (span m x)) (of_nat (length buf) :: u64)) = ?k"
  proof -
    have "length buf < 2 ^ 64" using l by simp
    from u64_min_nat [OF span_u64 this, of m x] unat_of_nat_u64 [OF k(2)] show ?thesis by (simp only: min.commute)
  qed
  have "write_data_step wm vi dk buf (chunk_addr m x) mirror =
      Some (Inr ?k, ext_puts vi (extent_offset m x) (copy_puts m x (take ?k buf)) dk)"
    by (simp add: write_data_step_def map Let_def len wr del: of_nat_min)
  with copies_written [OF rk bk par] k(1) show ?thesis by (intro exI conjI) auto
qed

end
