(* ===== verification/DiskParity.thy ===== *)
theory DiskParity
  imports DiskWrite
begin

text \<open>
  The write of a piece of a row with parity: the data stripes of the row are read, the piece is laid over them,
  P and Q are computed and the whole row is written.
\<close>

section \<open>The new data stripes\<close>

text \<open>\<open>bs\<close> at offset \<open>x\<close>, laid over \<open>n\<close> bytes of \<open>f\<close> from \<open>y\<close> on.\<close>

definition overlay :: "nat \<Rightarrow> u8 list \<Rightarrow> (nat \<Rightarrow> u8) \<Rightarrow> nat \<Rightarrow> nat \<Rightarrow> u8 list" where
  "overlay x bs f y n = map (\<lambda>a. if x \<le> a \<and> a < x + length bs then bs ! (a - x) else f a) [y..<y + n]"

lemma length_overlay [simp]: "length (overlay x bs f y n) = n"
  by (simp add: overlay_def)

lemma overlay_none: "y + n \<le> x \<or> x + length bs \<le> y \<Longrightarrow> overlay x bs f y n = map f [y..<y + n]"
  by (auto simp: overlay_def)

lemma overlay_all: "x \<le> y \<Longrightarrow> y + n \<le> x + length bs \<Longrightarrow> overlay x bs f y n = take n (drop (y - x) bs)"
  by (intro nth_equalityI) (auto simp: overlay_def)

lemma overlay_splice:
  assumes "x < y + n" and "y < x + length bs" and src: "src = y - x" and dst: "dst = x - y"
    and len: "len = min (min n (length bs - src)) (n - dst)"
  shows "take dst (map f [y..<y + n]) @ take len (drop src bs) @ drop (dst + len) (map f [y..<y + n]) = overlay x bs f y n"
proof (intro nth_equalityI)
  have l: "dst + len \<le> n" "len \<le> length bs - src"
    using assms(1) unfolding len dst by linarith+
  then show "length (take dst (map f [y..<y + n]) @ take len (drop src bs) @ drop (dst + len) (map f [y..<y + n])) =
      length (overlay x bs f y n)" by simp
  fix i assume "i < length (take dst (map f [y..<y + n]) @ take len (drop src bs) @ drop (dst + len) (map f [y..<y + n]))"
  then have i: "i < n" using l by simp
  consider "i < dst" | "dst \<le> i" "i < dst + len" | "dst + len \<le> i" by linarith
  then show "(take dst (map f [y..<y + n]) @ take len (drop src bs) @ drop (dst + len) (map f [y..<y + n])) ! i = overlay x bs f y n ! i"
  proof cases
    case 1
    moreover have "\<not> x \<le> y + i" using 1 unfolding dst by linarith
    ultimately show ?thesis using i by (simp add: nth_append overlay_def)
  next
    case 2
    have "x \<le> y + i" "y + i < x + length bs" "src + (i - dst) = y + i - x"
      using 2 assms(2) unfolding len src dst by linarith+
    moreover have "i - dst < len" using 2 by linarith
    ultimately show ?thesis using 2 i l by (simp add: nth_append overlay_def)
  next
    case 3
    have "\<not> y + i < x + length bs" using 3 i unfolding len src dst by linarith
    moreover have "\<not> i < dst" "\<not> i - dst < len" "dst + len + (i - dst - len) = i" using 3 by linarith+
    ultimately show ?thesis using i l by (simp add: nth_append overlay_def add.assoc)
  qed
qed

lemma chunk_addr_order:
  assumes "chunk_ok m" and "x \<le> chunk_size m" and "y \<le> chunk_size m"
  shows "chunk_addr m x \<le> chunk_addr m y \<longleftrightarrow> x \<le> y" "chunk_addr m x < chunk_addr m y \<longleftrightarrow> x < y"
    "y \<le> x \<Longrightarrow> unat (chunk_addr m x - chunk_addr m y) = x - y"
proof -
  note u = unat_chunk_addr [OF assms(1,2)] unat_chunk_addr [OF assms(1,3)]
  show "chunk_addr m x \<le> chunk_addr m y \<longleftrightarrow> x \<le> y" "chunk_addr m x < chunk_addr m y \<longleftrightarrow> x < y"
    using u by (simp_all add: word_le_nat_alt word_less_nat_alt)
  assume "y \<le> x"
  then have "chunk_addr m y \<le> chunk_addr m x" using u by (simp add: word_le_nat_alt)
  then show "unat (chunk_addr m x - chunk_addr m y) = x - y" using u by (simp add: unat_sub)
qed

lemma mirror_0_parity: "has_parity m \<Longrightarrow> mirror_byte vi dk m 0 = data_byte vi dk m"
  by (auto simp: mirror_byte_def data_byte_def mirror_copy_def)

definition piece_ok :: "volume_info \<Rightarrow> disks \<Rightarrow> map_lookup \<Rightarrow> nat \<Rightarrow> u8 list \<Rightarrow> bool" where
  "piece_ok vi dk m x bs \<longleftrightarrow> range_of vi dk m x (length bs) \<and> has_parity m \<and> bs \<noteq> [] \<and> length bs \<le> 65536 \<and>
     \<not> vi_on_restoring vi"

text \<open>The bytes from \<open>x\<close> to the end of its row.\<close>

definition row_room :: "map_lookup \<Rightarrow> nat \<Rightarrow> nat" where
  "row_room m x = data_cols m * 65536 - x mod (data_cols m * 65536)"

lemma row_room_iff:
  assumes "chunk_ok m" and "x \<le> y"
  shows "row_of m y = row_of m x \<longleftrightarrow> y < x + row_room m x"
proof -
  let ?w = "data_cols m * 65536"
  have w: "0 < ?w" using chunk_okD(7) [OF assms(1)] by simp
  have row: "row_of m z = z div ?w" for z by (metis div_mult2_eq mult.commute)
  have r: "x mod ?w < ?w" using w by simp
  show ?thesis
  proof
    assume "row_of m y = row_of m x"
    then have "y div ?w = x div ?w" by (simp only: row)
    moreover have "y mod ?w < ?w" using w by simp
    ultimately have "y < x div ?w * ?w + ?w" by (metis add_strict_left_mono div_mult_mod_eq)
    also have "\<dots> = x + row_room m x" using r div_mult_mod_eq [of x ?w] by (simp add: row_room_def)
    finally show "y < x + row_room m x" .
  next
    assume "y < x + row_room m x"
    then have "x mod ?w + (y - x) < ?w" using r assms(2) by (simp add: row_room_def)
    from same_block(1) [OF this] assms(2) show "row_of m y = row_of m x" by (simp add: row)
  qed
qed

lemma rmw_eb_ok:
  assumes p: "piece_ok vi dk m x bs" and mem: "mm_multi mem" and y: "y + 65536 \<le> chunk_size m"
  shows "rmw_eb mem vi dk (chunk_addr m y) 65536 \<lparr>eb_start = chunk_addr m x, eb_data = bs\<rparr> =
    Some (0, overlay x bs (data_byte vi dk m) y 65536)"
proof -
  have r: "range_of vi dk m x (length bs)" and par: "has_parity m" and res: "\<not> vi_on_restoring vi"
    using p by (auto simp: piece_ok_def)
  note d = range_ofD [OF r]
  have ry: "range_of vi dk m y 65536" using r y by (simp add: range_of_def)
  have "chunk_addr m y \<noteq> 65536" using chunk_addr_in(1) [OF d(1), of y] d(4) y by force
  then have rd: "read_whole_eb mem vi dk (chunk_addr m y) 65536 0 = Some (0, map (data_byte vi dk m) [y..<y + 65536])"
    using read_whole_eb_ok [OF ry mem, of 0] res mirror_0_parity [OF par] by simp
  have b: "x \<le> chunk_size m" "y \<le> chunk_size m" "x + length bs \<le> chunk_size m" "y + 65536 \<le> chunk_size m"
    using r y by (auto simp: range_of_def)
  note o = chunk_addr_order [OF d(1)]
  note cmp = o(1) [OF b(4,1)] o(1) [OF b(3,2)] o(2) [OF b(1,2)] o(2) [OF b(2,1)]
  have sub: "x < y \<Longrightarrow> unat (chunk_addr m y - chunk_addr m x) = y - x" "y < x \<Longrightarrow> unat (chunk_addr m x - chunk_addr m y) = x - y"
    using o(3) [OF b(2,1)] o(3) [OF b(1,2)] by simp_all
  let ?src = "if x < y then unat (chunk_addr m y - chunk_addr m x) else 0"
  let ?dst = "if y < x then unat (chunk_addr m x - chunk_addr m y) else 0"
  have src: "?src = y - x" and dst: "?dst = x - y" using sub by auto
  have add: "chunk_addr m y + 65536 = chunk_addr m (y + 65536)" "chunk_addr m x + of_nat (length bs) = chunk_addr m (x + length bs)"
    by (simp_all add: chunk_addr_add)
  show ?thesis
  proof (cases "y + 65536 \<le> x \<or> x + length bs \<le> y")
    case True
    with overlay_none [OF True] show ?thesis by (simp add: rmw_eb_def rd Let_def add cmp)
  next
    case False
    let ?c1 = "if 65536 > length bs - (y - x) then length bs - (y - x) else 65536"
    have len: "(if ?c1 > 65536 - (x - y) then 65536 - (x - y) else ?c1) = min (min 65536 (length bs - (y - x))) (65536 - (x - y))"
      by auto
    from False have "x < y + 65536" "y < x + length bs" by auto
    from overlay_splice [OF this refl refl refl, of "data_byte vi dk m"] False show ?thesis
      by (simp only: rmw_eb_def rd Let_def add cmp src dst len of_nat_numeral bind.simps prod.case split_conv disk_eb.simps simp_thms if_False)
  qed
qed

lemma in_row:
  assumes "chunk_ok m" and "has_parity m" and "whole_rows m" and "x < chunk_size m" and "i < data_cols m"
  shows "(row_of m x * data_cols m + i) * 65536 + 65536 \<le> chunk_size m"
proof -
  have "data_cols m * 65536 dvd chunk_size m" using assms(2,3) by (auto simp: whole_rows_def)
  from extent_rows(2) [OF assms(1) this assms(4)] have "(row_of m x + 1) * data_cols m * 65536 \<le> chunk_size m" .
  moreover have "(row_of m x * data_cols m + i + 1) * 65536 \<le> (row_of m x + 1) * data_cols m * 65536"
    using assms(5) by (intro mult_le_mono1) simp
  ultimately show ?thesis by simp
qed

lemma column_addr: "i < data_cols m \<Longrightarrow> column_name m r i = chunk_addr m ((r * data_cols m + i) * 65536)"
  by (simp add: column_name_def stripe_logical_def chunk_addr_def)

lemma column_kinds:
  assumes "chunk_ok m" and "has_parity m" and "whole_rows m" and "x < chunk_size m"
  shows "i < data_cols m \<Longrightarrow> column_name m (row_of m x) i < BTRFS_RAID5_P_STRIPE"
    and "column_name m r (data_cols m) = BTRFS_RAID5_P_STRIPE"
    and "BTRFS_RAID6_Q_STRIPE \<in> set (map (column_name m (row_of m x)) [0..<n_stripes m]) \<longleftrightarrow> profile m = BTRFS_RAID_RAID6"
proof -
  have "data_cols m * 65536 dvd chunk_size m" using assms(2,3) by (auto simp: whole_rows_def)
  from column_names_sorted [OF assms(1,2) extent_rows(2) [OF assms(1) this assms(4)]]
  have srt: "i < j \<Longrightarrow> j < n_stripes m \<Longrightarrow> column_name m (row_of m x) i < column_name m (row_of m x) j" for i j
    by (simp add: sorted_wrt_iff_nth_less)
  have n: "data_cols m < n_stripes m" using profile_okD(2,3) [OF assms(1)] assms(2) by auto
  show p: "column_name m r (data_cols m) = BTRFS_RAID5_P_STRIPE" for r by (simp add: column_name_def)
  show lt: "column_name m (row_of m x) i < BTRFS_RAID5_P_STRIPE" if "i < data_cols m" for i
    using srt [OF that n] p by simp
  have pq: "BTRFS_RAID5_P_STRIPE < BTRFS_RAID6_Q_STRIPE" by (simp add: BTRFS_RAID5_P_STRIPE_def BTRFS_RAID6_Q_STRIPE_def)
  show "BTRFS_RAID6_Q_STRIPE \<in> set (map (column_name m (row_of m x)) [0..<n_stripes m]) \<longleftrightarrow> profile m = BTRFS_RAID_RAID6"
  proof
    assume "profile m = BTRFS_RAID_RAID6"
    then have "data_cols m + 1 < n_stripes m" "column_name m (row_of m x) (data_cols m + 1) = BTRFS_RAID6_Q_STRIPE"
      using profile_okD(3) [OF assms(1)] by (simp_all add: column_name_def)
    then show "BTRFS_RAID6_Q_STRIPE \<in> set (map (column_name m (row_of m x)) [0..<n_stripes m])" by force
  next
    assume "BTRFS_RAID6_Q_STRIPE \<in> set (map (column_name m (row_of m x)) [0..<n_stripes m])"
    then obtain i where i: "i < n_stripes m" "column_name m (row_of m x) i = BTRFS_RAID6_Q_STRIPE" by auto
    have "\<not> i \<le> data_cols m" using lt [of i] p i pq by (auto simp: le_less)
    then show "profile m = BTRFS_RAID_RAID6" using i(1) profile_okD(2) [OF assms(1)] assms(2) by auto
  qed
qed

definition new_stripe :: "volume_info \<Rightarrow> disks \<Rightarrow> map_lookup \<Rightarrow> nat \<Rightarrow> u8 list \<Rightarrow> nat \<Rightarrow> u8 list" where
  "new_stripe vi dk m x bs i = overlay x bs (data_byte vi dk m) ((row_of m x * data_cols m + i) * 65536) 65536"

lemma split_eb_loop_ok:
  assumes p: "piece_ok vi dk m x bs" and mem: "mm_multi mem" and k: "k + j = data_cols m"
  shows "split_eb_loop mem vi dk \<lparr>eb_start = chunk_addr m x, eb_data = bs\<rparr> 65536
      (map (column_name m (row_of m x)) [j..<n_stripes m]) = Some (0, map (new_stripe vi dk m x bs) [j..<data_cols m])"
  using k
proof (induction k arbitrary: j)
  case 0
  have r: "range_of vi dk m x (length bs)" and par: "has_parity m" using p by (auto simp: piece_ok_def)
  have "j < n_stripes m" using 0 profile_okD(2,3) [OF range_ofD(1) [OF r]] par by auto
  with 0 show ?case by (simp add: upt_conv_Cons column_name_def)
next
  case (Suc k)
  have r: "range_of vi dk m x (length bs)" and par: "has_parity m" and bs: "bs \<noteq> []" using p by (auto simp: piece_ok_def)
  note d = range_ofD [OF r]
  have x: "x < chunk_size m" using r bs by (rule range_of_start)
  let ?y = "(row_of m x * data_cols m + j) * 65536"
  have j: "j < data_cols m" "j < n_stripes m" using Suc.prems chunk_okD(8) [OF d(1)] by simp_all
  have y: "?y + 65536 \<le> chunk_size m" using in_row [OF d(1) par d(2) x j(1)] .
  have kind: "\<not> column_name m (row_of m x) j \<ge> BTRFS_RAID5_P_STRIPE" using column_kinds(1) [OF d(1) par d(2) x j(1)] by simp
  have b: "x \<le> chunk_size m" "?y \<le> chunk_size m" "x + length bs \<le> chunk_size m" "?y + 65536 \<le> chunk_size m"
    using r y x by (auto simp: range_of_def)
  note o = chunk_addr_order [OF d(1)]
  have add: "chunk_addr m ?y + of_nat 65536 = chunk_addr m (?y + 65536)" "chunk_addr m x + of_nat (length bs) = chunk_addr m (x + length bs)"
    by (simp_all only: chunk_addr_add)
  have st: "(if chunk_addr m x > chunk_addr m ?y \<or> chunk_addr m x + of_nat (length bs) < chunk_addr m ?y + of_nat 65536
      then rmw_eb mem vi dk (chunk_addr m ?y) 65536 \<lparr>eb_start = chunk_addr m x, eb_data = bs\<rparr>
      else Some (0, take 65536 (drop (unat (chunk_addr m ?y - chunk_addr m x)) bs))) = Some (0, new_stripe vi dk m x bs j)"
  proof (cases "x > ?y \<or> x + length bs < ?y + 65536")
    case True
    then show ?thesis
      unfolding add o(2) [OF b(2,1)] o(2) [OF b(3,4)] rmw_eb_ok [OF p mem y] new_stripe_def by simp
  next
    case False
    then have "x \<le> ?y" "?y + 65536 \<le> x + length bs" by auto
    from overlay_all [OF this] False o(3) [OF b(2,1) this(1)] show ?thesis
      unfolding add o(2) [OF b(2,1)] o(2) [OF b(3,4)] new_stripe_def by simp
  qed
  have "[j..<n_stripes m] = j # [Suc j..<n_stripes m]" "[j..<data_cols m] = j # [Suc j..<data_cols m]" "k + Suc j = data_cols m"
    using j Suc.prems by (simp_all add: upt_conv_Cons)
  with Suc.IH [of "Suc j"] kind show ?case
    by (simp only: list.map split_eb_loop.simps if_False column_addr [OF j(1)] disk_eb.simps st bind.simps prod.case split_conv) simp
qed

section \<open>Parity\<close>

lemma filter_upt_last: "filter (\<lambda>j. j \<noteq> n) [0..<Suc n] = [0..<n]"
  by (auto intro: filter_True)

lemma p_stripe_upt: "m \<le> n \<Longrightarrow> p_stripe st [0..<n] m len = map (\<lambda>i. p_col (map (\<lambda>j. st j ! i) [0..<m])) [0..<len]"
  unfolding p_stripe_def col_def by (auto intro!: map_cong arg_cong [where f = p_col])

lemma row_cong:
  assumes "chunk_ok m" and "has_parity m" and "\<And>i. i < n_stripes m \<Longrightarrow> st' i = st i"
  shows "row_ok m st' \<longleftrightarrow> row_ok m st"
proof -
  let ?N = "n_stripes m"
  have "p_stripe st' [0..<?N] k 65536 = p_stripe st [0..<?N] k 65536" "q_stripe st' [0..<?N] k 65536 = q_stripe st [0..<?N] k 65536"
    if "k \<le> ?N" for k
    using that assms(3) unfolding p_stripe_def q_stripe_def col_def
    by (auto intro!: map_cong arg_cong [where f = p_col] arg_cong [where f = q_col])
  moreover have "0 < ?N" using chunk_okD(2) [OF assms(1)] .
  ultimately show ?thesis
    using assms(3) by (simp add: row_ok_def raid5_ok_def raid6_ok_def stripes_ok_def BTRFS_STRIPE_LEN_def cong: conj_cong)
qed

lemma parity_generated:
  assumes m: "chunk_ok m" and par: "has_parity m" and len: "\<forall>i<n_stripes m. length (bufs i) = 65536" and N: "N = n_stripes m"
  shows "\<exists>bufs1. (if profile m = BTRFS_RAID_RAID6
        then map_option (Pair 0) (raid6_gen_syndrome bufs (int N) 65536 [0..<N])
        else raid5_gen_result addr bufs (int N) 65536 (int N - 1) [0..<N]) = Some (0, bufs1) \<and>
      row_ok m bufs1 \<and> (\<forall>i<data_cols m. bufs1 i = bufs i) \<and> (\<forall>i<N. length (bufs1 i) = 65536)"
proof -
  have st: "stripes_ok bufs [0..<N] N BTRFS_STRIPE_LEN" using len by (simp add: stripes_ok_def N BTRFS_STRIPE_LEN_def)
  show ?thesis
  proof (cases "profile m = BTRFS_RAID_RAID6")
    case True
    then have n: "N = data_cols m + 2" "3 \<le> N" using profile_okD(3) [OF m] chunk_okD(7) [OF m] N by simp_all
    let ?b = "bufs(N - 2 := p_stripe bufs [0..<N] (N - 2) 65536, N - 1 := q_stripe bufs [0..<N] (N - 2) 65536)"
    have gen: "raid6_gen_syndrome bufs (int N) 65536 [0..<N] = Some ?b"
      using gen_syndrome_ok [OF st [unfolded BTRFS_STRIPE_LEN_def] n(2)] n(2) by simp
    have "p_stripe ?b [0..<N] (N - 2) 65536 = p_stripe bufs [0..<N] (N - 2) 65536"
      "q_stripe ?b [0..<N] (N - 2) 65536 = q_stripe bufs [0..<N] (N - 2) 65536"
      unfolding p_stripe_def q_stripe_def col_def
      by (auto intro!: map_cong arg_cong [where f = p_col] arg_cong [where f = q_col])
    moreover have "N - 2 \<noteq> N - 1" using n(2) by simp
    ultimately have "raid6_ok ?b [0..<N] N 65536" using n(2) len [folded N] by (simp add: raid6_ok_def stripes_ok_def)
    then have "row_ok m ?b" using True N by (simp add: row_ok_def BTRFS_STRIPE_LEN_def)
    with gen show ?thesis using True n len N by auto
  next
    case False
    then have n: "N = data_cols m + 1" "2 \<le> N" using profile_okD(2) [OF m] chunk_okD(7) [OF m] N par by auto
    let ?p = "p_stripe bufs [0..<N] (N - 1) 65536"
    let ?b = "bufs(N - 1 := ?p)"
    have "int N - 1 = int (N - 1)" using n(2) by simp
    moreover have "filter (\<lambda>j. j \<noteq> N - 1) [0..<N] = [0..<N - 1]" using filter_upt_last [of "N - 1"] n(2) by simp
    then have "map (\<lambda>i. p_col (map (\<lambda>j. bufs ([0..<N] ! j) ! i) (filter (\<lambda>j. j \<noteq> N - 1) [0..<N]))) [0..<65536] = ?p"
      by (simp only: p_stripe_def col_def)
    ultimately have "raid5_gen_result addr bufs (int N) 65536 (int N - 1) [0..<N] = Some (0, ?b)"
      using raid5_gen_result_ok [OF st n(2) le_refl, of "N - 1" addr] n(2) by (simp add: BTRFS_STRIPE_LEN_def)
    moreover have "p_stripe ?b [0..<N] (N - 1) 65536 = ?p"
      unfolding p_stripe_def col_def by (auto intro!: map_cong arg_cong [where f = p_col])
    then have "raid5_ok ?b [0..<N] N 65536" using n(2) len N by (simp add: raid5_ok_def stripes_ok_def)
    then have "row_ok m ?b" using False N by (simp add: row_ok_def BTRFS_STRIPE_LEN_def)
    ultimately show ?thesis using False n len N by auto
  qed
qed

section \<open>The row on the devices\<close>

abbreviation row_puts :: "map_lookup \<Rightarrow> nat \<Rightarrow> store \<Rightarrow> (dev_extent \<times> u8 list) list" where
  "row_puts m r st \<equiv> map (\<lambda>i. ((m, column_extent m r i), st i)) [0..<n_stripes m]"

lemma map_of_row: "inj_on f (set xs) \<Longrightarrow> i \<in> set xs \<Longrightarrow> map_of (map (\<lambda>i. (f i, st i)) xs) (f i) = Some (st i)"
  by (induction xs) (auto simp: inj_on_def)

lemma row_written:
  assumes v: "volume_ok vi dk" "m \<in> chunks (vi_mapping vi)" and par: "has_parity m" and r: "r < extent_len m div 65536"
    and st: "row_ok m st" "\<forall>i<n_stripes m. length (st i) = 65536"
    and bs: "\<And>y. y < chunk_size m \<Longrightarrow> row_of m y = r \<Longrightarrow> st (y div 65536 mod data_cols m) ! (y mod 65536) =
      (if x \<le> y \<and> y < x + length bs then bs ! (y - x) else data_byte vi dk m y)"
    and row: "\<And>y. x \<le> y \<Longrightarrow> y < x + length bs \<Longrightarrow> row_of m y = r"
  shows "puts_fit vi (r * 65536) (row_puts m r st)"
    and "written vi dk (ext_puts vi (r * 65536) (row_puts m r st) dk) m x bs"
proof -
  let ?dk = "ext_puts vi (r * 65536) (row_puts m r st) dk" and ?N = "n_stripes m"
  have m: "chunk_ok m" "whole_rows m" using volume_okD(1,2) [OF v(1)] v(2) chunks_ok by (auto simp: chunk_on_disk_def)
  have in_ext: "r' * 65536 + j < extent_len m" if "j < 65536" "r' < extent_len m div 65536" for r' j
    using that by (simp add: less_eq_div_iff_mult_less_eq Suc_le_eq flip: Suc_le_eq)
  have N: "0 < ?N" using chunk_okD(2) [OF m(1)] .
  then have col: "column_extent m r i < ?N" for r i by (simp add: column_extent_def)
  show fit: "puts_fit vi (r * 65536) (row_puts m r st)"
    using col v(2) st(2) in_ext [of 65535 r] r by (auto simp: puts_fit_def vol_extent_def ext_len_def)
  have inj: "inj_on (\<lambda>i. (m, column_extent m r i)) (set [0..<?N])"
    using rot_inj [of _ ?N _ r] by (auto simp: inj_on_def column_extent_def)
  then have dis: "distinct (map fst (row_puts m r st))" by (simp add: comp_def distinct_map)
  note byte = ext_byte_puts [OF v(1) fit dis]
  have here: "ext_byte vi ?dk (m, column_extent m r i) (r' * 65536 + j) =
      (if r' = r then st i ! j else ext_byte vi dk (m, column_extent m r i) (r' * 65536 + j))"
    if "i < ?N" "j < 65536" "r' < extent_len m div 65536" for i j r'
  proof -
    have "map_of (row_puts m r st) (m, column_extent m r i) = Some (st i)"
      using map_of_row [OF inj, of i st] that(1) by simp
    moreover have "r * 65536 \<le> r' * 65536 + j \<and> r' * 65536 + j < r * 65536 + 65536 \<longleftrightarrow> r' = r" using that(2) by auto
    ultimately show ?thesis
      using byte [of "(m, column_extent m r i)" "r' * 65536 + j"] col v(2) in_ext [OF that(2,3)] st(2) that(1)
      by (simp add: vol_extent_def ext_len_def)
  qed
  have surj: "\<exists>i<?N. column_extent m r i = k" if "k < ?N" for k
    using rot_surj [OF that, of r] by (auto simp: column_extent_def add.commute)
  have ext: "ext_byte vi ?dk (m, k) (r' * 65536 + j) = ext_byte vi dk (m, k) (r' * 65536 + j)"
    if k: "k < ?N" and "j < 65536" "r' < extent_len m div 65536" "r' \<noteq> r" for k j r'
    using surj [OF k] here [OF _ that(2,3)] that(4) by auto
  have row_lt: "row_of m y < extent_len m div 65536" if "y < chunk_size m" for y
  proof -
    have "data_cols m * 65536 dvd chunk_size m" using m(2) par by (auto simp: whole_rows_def)
    from extent_rows(1) [OF m(1) this that] show ?thesis
      by (simp add: less_eq_div_iff_mult_less_eq Suc_le_eq flip: Suc_le_eq)
  qed
  have data: "data_byte vi ?dk m y = (if x \<le> y \<and> y < x + length bs then bs ! (y - x) else data_byte vi dk m y)"
    if y: "y < chunk_size m" for y
  proof (cases "row_of m y = r")
    case True
    have i: "y div 65536 mod data_cols m < data_cols m" using chunk_okD(7) [OF m(1)] by simp
    have "place m (y div 65536) 0 = column_extent m r (y div 65536 mod data_cols m)"
      using column_extent_place(1) [OF par i, of r] True by (metis div_mult_mod_eq)
    then have "data_byte vi ?dk m y = st (y div 65536 mod data_cols m) ! (y mod 65536)"
      using here [of "y div 65536 mod data_cols m" "y mod 65536" r] i chunk_okD(8) [OF m(1)] r True
      by (simp add: data_byte_def copy_byte_def)
    with bs [OF y True] show ?thesis by simp
  next
    case False
    then have "data_byte vi ?dk m y = data_byte vi dk m y"
      using ext [OF place_less [OF m(1) chunk_okD(9) [OF m(1)]] _ row_lt [OF y]] by (simp add: data_byte_def copy_byte_def)
    with False row show ?thesis by auto
  qed
  have red: "redundant vi ?dk m" if "redundant vi dk m"
  proof -
    have "row_ok m (row_store vi ?dk m r')" if r': "r' < extent_len m div 65536" for r'
    proof (cases "r' = r")
      case True
      have "row_store vi ?dk m r i = st i" if "i < ?N" for i
        using here [OF that _ r] st(2) that by (intro nth_equalityI) (simp_all add: row_store_def)
      then show ?thesis using row_cong [OF m(1) par] st(1) True by blast
    next
      case False
      then have "row_store vi ?dk m r' = row_store vi dk m r'"
        using ext [OF col _ r' False] unfolding row_store_def by (intro HOL.ext map_cong refl) simp
      then show ?thesis using that par \<open>redundant vi dk m\<close> by (simp add: redundant_def)
    qed
    then show ?thesis using par by (simp add: redundant_def)
  qed
  have other: "ext_byte vi ?dk (m', i) j = ext_byte vi dk (m', i) j"
    if "m' \<noteq> m" "m' \<in> chunks (vi_mapping vi)" "i < n_stripes m'" "j < extent_len m'" for m' i j
  proof -
    have "map_of (row_puts m r st) (m', i) = None" using that(1) by (auto simp: map_of_eq_None_iff)
    with byte [of "(m', i)" j] that show ?thesis by (simp add: vol_extent_def ext_len_def)
  qed
  show "written vi dk ?dk m x bs"
    unfolding written_def
  proof (intro conjI ballI allI impI)
    show "volume_ok vi ?dk" using v(1) fit by (rule ext_puts_ok)
    fix m' assume m': "m' \<in> chunks (vi_mapping vi)"
    show "redundant vi ?dk m'" if "redundant vi dk m'"
      using that red unchanged_extents(1) [OF v(1) m' other [OF _ m']] by (cases "m' = m") simp_all
    show "data_byte vi ?dk m' y = (if m' = m \<and> x \<le> y \<and> y < x + length bs then bs ! (y - x) else data_byte vi dk m' y)"
      if "y < chunk_size m'" for y
      using that data unchanged_extents(2) [OF v(1) m' other [OF _ m']] by (cases "m' = m") simp_all
  qed
qed

lemma write_raid56_ok:
  assumes p: "piece_ok vi dk m x bs" and mem: "mm_multi mem" and r: "r = row_of m x"
  shows "\<exists>dk1. write_raid56_with_parity True addr junk mem vi dk \<lparr>eb_start = chunk_addr m x, eb_data = bs\<rparr>
      \<lparr>mb_num_stripes = int (n_stripes m),
        mb_stripes = map (\<lambda>i. stripe_at m (column_extent m r i) (r * 65536)) [0..<n_stripes m]\<rparr>
      65536 (map (column_name m r) [0..<n_stripes m]) = Some (0, dk1) \<and>
      written vi dk dk1 m x (take (row_room m x) bs)"
proof -
  have rg: "range_of vi dk m x (length bs)" and par: "has_parity m" and bs: "bs \<noteq> []" "length bs \<le> 65536"
    using p by (auto simp: piece_ok_def)
  note d = range_ofD [OF rg]
  have x: "x < chunk_size m" using rg bs(1) by (rule range_of_start)
  let ?N = "n_stripes m" and ?eb = "\<lparr>eb_start = chunk_addr m x, eb_data = bs\<rparr>"
  let ?new = "map (new_stripe vi dk m x bs) [0..<data_cols m]"
  let ?bufs = "parity_buffers ?new junk (max (length bs) 65536)"
  have split: "split_eb_for_raid56 True mem vi dk ?eb 65536 (map (column_name m r) [0..<?N]) = Some (0, ?new)"
    using split_eb_loop_ok [OF p mem, of "data_cols m" 0] by (simp add: split_eb_for_raid56_def r)
  have "\<forall>i<?N. length (?bufs i) = 65536" using bs(2) by (auto simp: parity_buffers_def new_stripe_def)
  from parity_generated [OF d(1) par this refl, of addr] obtain st where
    gen: "(if profile m = BTRFS_RAID_RAID6 then map_option (Pair 0) (raid6_gen_syndrome ?bufs (int ?N) 65536 [0..<?N])
        else raid5_gen_result addr ?bufs (int ?N) 65536 (int ?N - 1) [0..<?N]) = Some (0, st)"
    and st: "row_ok m st" "\<forall>i<data_cols m. st i = ?bufs i" "\<forall>i<?N. length (st i) = 65536" by blast
  have m: "m \<in> chunks (vi_mapping vi)" using rg by (simp add: range_of_def)
  have "data_cols m * 65536 dvd chunk_size m" using d(2) par by (auto simp: whole_rows_def)
  from extent_rows(1) [OF d(1) this x] have rl: "r < extent_len m div 65536"
    by (simp add: r less_eq_div_iff_mult_less_eq Suc_le_eq flip: Suc_le_eq)
  let ?bs = "take (row_room m x) bs"
  have bytes: "st (y div 65536 mod data_cols m) ! (y mod 65536) =
      (if x \<le> y \<and> y < x + length ?bs then ?bs ! (y - x) else data_byte vi dk m y)" if "row_of m y = r" for y
  proof -
    let ?i = "y div 65536 mod data_cols m"
    have i: "?i < data_cols m" using chunk_okD(7) [OF d(1)] by simp
    have "r * data_cols m + ?i = y div 65536" using that by (metis div_mult_mod_eq)
    then have y: "(r * data_cols m + ?i) * 65536 + y mod 65536 = y" by (simp only: div_mult_mod_eq)
    have "st ?i ! (y mod 65536) = new_stripe vi dk m x bs ?i ! (y mod 65536)" using st(2) i by (simp add: parity_buffers_def)
    also have "\<dots> = (if x \<le> y \<and> y < x + length bs then bs ! (y - x) else data_byte vi dk m y)"
      using y by (simp add: new_stripe_def overlay_def flip: r)
    also have "\<dots> = (if x \<le> y \<and> y < x + length ?bs then ?bs ! (y - x) else data_byte vi dk m y)"
      using row_room_iff [OF d(1), of x y] that r by auto
    finally show ?thesis .
  qed
  have row: "row_of m y = r" if "x \<le> y" "y < x + length ?bs" for y
    using row_room_iff [OF d(1) that(1)] that(2) by (simp add: r)
  note w = row_written [OF d(7) m par rl st(1,3) bytes row]
  have "zip (map (\<lambda>i. stripe_at m (column_extent m r i) (r * 65536)) [0..<?N]) (map (\<lambda>i. take 65536 (st i)) [0..<?N]) =
      map (\<lambda>w. (put_stripe (r * 65536) w, snd w)) (row_puts m r st)"
    using st(3) by (intro nth_equalityI) auto
  with write_stripes_ok [OF d(7) w(1)]
  have wr: "write_stripes vi dk (zip (map (\<lambda>i. stripe_at m (column_extent m r i) (r * 65536)) [0..<?N])
      (map (\<lambda>i. take 65536 (st i)) [0..<?N])) = (0, ext_puts vi (r * 65536) (row_puts m r st) dk)" by simp
  have "write_raid56_with_parity True addr junk mem vi dk ?eb \<lparr>mb_num_stripes = int ?N,
        mb_stripes = map (\<lambda>i. stripe_at m (column_extent m r i) (r * 65536)) [0..<?N]\<rparr>
      65536 (map (column_name m r) [0..<?N]) = Some (0, ext_puts vi (r * 65536) (row_puts m r st) dk)"
    by (simp only: write_raid56_with_parity_def split bind.simps prod.case split_conv Let_def btrfs_multi_bio.simps nat_int
        disk_eb.simps column_kinds(3) [OF d(1) par d(2) x, folded r] gen wr simp_thms if_False) simp
  with w(2) show ?thesis by blast
qed

text \<open>A turn of the loop of \<open>write_data_to_disk\<close>, when nodes and the address are aligned.\<close>

definition aligned_piece :: "volume_info \<Rightarrow> map_lookup \<Rightarrow> nat \<Rightarrow> bool" where
  "aligned_piece vi m x \<longleftrightarrow> unat (vi_nodesize vi) dvd 65536 \<and> unat (vi_nodesize vi) dvd x \<and> \<not> vi_on_restoring vi"

lemma aligned_fits:
  fixes x n w :: nat
  assumes "n dvd w" and "n dvd x" and "k \<le> n" and "0 < w"
  shows "x mod w + k \<le> w"
proof -
  obtain a b where w: "w = n * a" and x: "x = n * b" using assms(1,2) by (auto elim!: dvdE)
  have "x mod w = n * (b mod a)" by (simp add: w x)
  moreover have "b mod a + 1 \<le> a" using assms(4) w by (cases a) (auto simp: Suc_le_eq)
  then have "n * (b mod a + 1) \<le> n * a" by (rule mult_le_mono2)
  ultimately show ?thesis using assms(3) w by simp
qed

lemma write_data_step_parity:
  assumes r: "range_of vi dk m x (length buf)" and buf: "buf \<noteq> []" and par: "has_parity m" and res: "\<not> vi_on_restoring vi"
    and ns: "0 < unat (vi_nodesize vi)" "unat (vi_nodesize vi) \<le> 65536"
    and mem: "mm_multi (wm_map wm)" "mm_raid_map (wm_map wm)" "wm_bufs wm" and k': "k = min (length buf) (unat (vi_nodesize vi))"
  shows "\<exists>dk1. write_data_step wm vi dk buf (chunk_addr m x) mirror = Some (Inr k, dk1) \<and>
    written vi dk dk1 m x (take (row_room m x) (take k buf))"
proof -
  note d = range_ofD [OF r]
  have x: "x < chunk_size m" using r buf by (rule range_of_start)
  have m: "m \<in> chunks (vi_mapping vi)" and l: "length buf < 2 ^ 31" using r by (auto simp: range_of_def)
  let ?ns = "unat (vi_nodesize vi)" and ?k = "min (length buf) (unat (vi_nodesize vi))" and ?r = "row_of m x"
  have k: "0 < ?k" "?k < 2 ^ 64" using buf ns(1) l by auto
  have p: "piece_ok vi dk m x (take ?k buf)"
    using r par buf ns res by (auto simp: piece_ok_def range_of_def)
  note map = map_block_full_stripe [OF d(5) m chunk_addr_in(1) [OF d(1) x] mem(1,2) par d(2), of WRITE mirror ?r,
      unfolded chunk_addr_in(2) [OF d(1) x], OF disjI1 [OF refl] refl]
  have len: "unat (min (min 65536 (of_nat (length buf))) (ucast (vi_nodesize vi) :: u64)) = ?k"
  proof -
    have b: "(65536 :: nat) < 2 ^ 64" "length buf < 2 ^ 64" "?ns < 2 ^ 64" "min 65536 (length buf) < 2 ^ 64" using l ns(2) by auto
    have "(ucast (vi_nodesize vi) :: u64) = of_nat ?ns" by (simp add: unsigned_of_nat word_unat_eq_iff unsigned_ucast_eq)
    moreover have "min (min 65536 (length buf)) ?ns = ?k" using ns(2) by auto
    ultimately show ?thesis
      using u64_min_nat [OF b(1,2)] u64_min_nat [OF b(4,3)] unat_of_nat_u64 [OF k(2)] by (simp del: of_nat_min)
  qed
  obtain dk1 where w: "write_raid56_with_parity True (wm_addr wm) (wm_junk wm) (wm_map wm) vi dk
      \<lparr>eb_start = chunk_addr m x, eb_data = take ?k buf\<rparr>
      \<lparr>mb_num_stripes = int (n_stripes m),
        mb_stripes = map (\<lambda>i. stripe_at m (column_extent m ?r i) (?r * 65536)) [0..<n_stripes m]\<rparr>
      65536 (map (column_name m ?r) [0..<n_stripes m]) = Some (0, dk1)"
    "written vi dk dk1 m x (take (row_room m x) (take ?k buf))"
    using write_raid56_ok [OF p mem(1) refl] by blast
  have "write_data_step wm vi dk buf (chunk_addr m x) mirror = Some (Inr ?k, dk1)"
    using w(1) mem(3) by (simp add: write_data_step_def map Let_def len)
  with w(2) show ?thesis unfolding k' by blast
qed

lemma write_data_step_aligned:
  assumes r: "range_of vi dk m x (length buf)" and buf: "buf \<noteq> []" and par: "has_parity m" and al: "aligned_piece vi m x"
    and mem: "mm_multi (wm_map wm)" "mm_raid_map (wm_map wm)" "wm_bufs wm"
  shows "\<exists>k dk1. 0 < k \<and> k \<le> length buf \<and> write_data_step wm vi dk buf (chunk_addr m x) mirror = Some (Inr k, dk1) \<and>
    written vi dk dk1 m x (take k buf) \<and> (k = length buf \<or> k = unat (vi_nodesize vi))"
proof -
  let ?ns = "unat (vi_nodesize vi)" and ?k = "min (length buf) (unat (vi_nodesize vi))"
  have ns: "?ns dvd 65536" "?ns dvd x" "0 < ?ns" "?ns \<le> 65536" "\<not> vi_on_restoring vi"
    using al by (auto simp: aligned_piece_def dest: dvd_imp_le intro: Nat.gr0I)
  have "?ns dvd data_cols m * 65536" using ns(1) by simp
  moreover have "0 < data_cols m * 65536" using chunk_okD(7) [OF range_ofD(1) [OF r]] by simp
  ultimately have "x mod (data_cols m * 65536) + ?k \<le> data_cols m * 65536"
    using ns(2) by (intro aligned_fits [of ?ns]) simp_all
  then have "?k \<le> row_room m x" unfolding row_room_def by linarith
  then have "take (row_room m x) (take ?k buf) = take ?k buf" by (intro take_all) simp
  with write_data_step_parity [OF r buf par ns(5,3,4) mem refl, of mirror] buf ns(3) show ?thesis
    by (intro exI [of _ ?k]) auto
qed

section \<open>The loop\<close>

lemma write_data_loop_ok:
  assumes "range_of vi dk m x (length buf)" and "mm_multi (wm_map wm)"
    and "has_parity m \<Longrightarrow> aligned_piece vi m x \<and> mm_raid_map (wm_map wm) \<and> wm_bufs wm"
  shows "\<exists>dk1. write_data_loop wm vi dk buf (chunk_addr m x) mirror = Some (0, dk1) \<and> written vi dk dk1 m x buf"
  using assms(1,3)
proof (induction "length buf" arbitrary: dk x buf rule: less_induct)
  case less
  note r = less.prems(1)
  show ?case
  proof (cases "buf = []")
    case True
    then show ?thesis using written_nil range_ofD(7) [OF r] by (subst write_data_loop.simps) auto
  next
    case False
    obtain k dk1 where k: "0 < k" "k \<le> length buf" "write_data_step wm vi dk buf (chunk_addr m x) mirror = Some (Inr k, dk1)"
      "written vi dk dk1 m x (take k buf)" "has_parity m \<Longrightarrow> k = length buf \<or> k = unat (vi_nodesize vi)"
      using write_data_step_copies [OF r False _ assms(2)] write_data_step_aligned [OF r False _ _ assms(2)] less.prems(2)
      by (cases "has_parity m") blast+
    have "range_of vi dk1 m (x + k) (length (drop k buf))" using r k(2,4) by (auto simp: range_of_def written_def)
    then have "\<exists>dk2. write_data_loop wm vi dk1 (drop k buf) (chunk_addr m (x + k)) mirror = Some (0, dk2) \<and>
      written vi dk1 dk2 m (x + k) (drop k buf)"
    proof (cases "drop k buf = []")
      case True
      moreover have "volume_ok vi dk1" using k(4) by (simp add: written_def)
      ultimately show ?thesis using written_nil by (subst write_data_loop.simps) simp
    next
      case False
      then have "has_parity m \<Longrightarrow> aligned_piece vi m (x + k) \<and> mm_raid_map (wm_map wm) \<and> wm_bufs wm"
        using less.prems(2) k(5) by (auto simp: aligned_piece_def)
      moreover have "length (drop k buf) < length buf" using k(1,2) by simp
      ultimately show ?thesis
        using less.hyps \<open>range_of vi dk1 m (x + k) (length (drop k buf))\<close> by blast
    qed
    then obtain dk2 where dk2: "write_data_loop wm vi dk1 (drop k buf) (chunk_addr m (x + k)) mirror = Some (0, dk2)"
      "written vi dk1 dk2 m (x + k) (drop k buf)" by blast
    from written_append [OF k(4), of dk2 "drop k buf"] dk2(2) k(2) have "written vi dk dk2 m x buf" by simp
    moreover have "write_data_loop wm vi dk buf (chunk_addr m x) mirror = Some (0, dk2)"
      using False k(3) dk2(1) by (subst write_data_loop.simps) (simp add: chunk_addr_add)
    ultimately show ?thesis by blast
  qed
qed

section \<open>Blocks\<close>

lemma write_and_map_eb_copies:
  assumes r: "range_of vi dk m x (length bs)" and bs: "bs \<noteq> []" "length bs \<le> span m x" and par: "\<not> has_parity m"
    and mem: "mm_multi (wm_map wm)"
  shows "\<exists>dk1. write_and_map_eb wm vi dk \<lparr>eb_start = chunk_addr m x, eb_data = bs\<rparr> = Some (0, dk1) \<and> written vi dk dk1 m x bs"
proof -
  note d = range_ofD [OF r]
  have x: "x < chunk_size m" using r bs(1) by (rule range_of_start)
  have m: "m \<in> chunks (vi_mapping vi)" using r by (simp add: range_of_def)
  note map = map_block_write [OF d(5) m chunk_addr_in(1) [OF d(1) x] mem par refl, of 0 True, unfolded chunk_addr_in(2) [OF d(1) x]]
  have "map (\<lambda>c. stripe_at m (place m (x div 65536) c) (extent_offset m x)) [0..<copies m] =
      map (put_stripe (extent_offset m x)) (copy_puts m x bs)" by simp
  then have "write_eb_copies vi dk bs (map (\<lambda>c. stripe_at m (place m (x div 65536) c) (extent_offset m x)) [0..<copies m]) =
      Some (ext_puts vi (extent_offset m x) (copy_puts m x bs) dk)"
    using write_eb_copies_ok [OF d(7) copy_puts_fit [OF r bs], of bs] by (simp only:) auto
  with copies_written [OF r bs par] show ?thesis by (simp add: write_and_map_eb_def map)
qed

lemma write_and_map_eb_parity:
  assumes p: "piece_ok vi dk m x bs" and fit: "length bs \<le> row_room m x"
    and mem: "mm_multi (wm_map wm)" "mm_raid_map (wm_map wm)" "wm_bufs wm"
  shows "\<exists>dk1. write_and_map_eb wm vi dk \<lparr>eb_start = chunk_addr m x, eb_data = bs\<rparr> = Some (0, dk1) \<and> written vi dk dk1 m x bs"
proof -
  have r: "range_of vi dk m x (length bs)" and par: "has_parity m" and bs: "bs \<noteq> []" using p by (auto simp: piece_ok_def)
  note d = range_ofD [OF r]
  have x: "x < chunk_size m" using r bs by (rule range_of_start)
  have m: "m \<in> chunks (vi_mapping vi)" using r by (simp add: range_of_def)
  note map = map_block_full_stripe [OF d(5) m chunk_addr_in(1) [OF d(1) x] mem(1,2) par d(2), of WRITE 0 "row_of m x",
      unfolded chunk_addr_in(2) [OF d(1) x], OF disjI1 [OF refl] refl]
  from write_raid56_ok [OF p mem(1) refl, of "wm_addr wm" "wm_junk wm"] fit mem(3) show ?thesis
    by (auto simp: write_and_map_eb_def map)
qed

lemma read_extent_data_ok:
  assumes r: "range_of vi dk m x n" "0 < n" and mem: "mm_multi mem" and q: "q \<le> copies m" and k: "k = min n (span m x)"
  shows "read_extent_data mem vi dk (chunk_addr m x) (of_nat n) (int q) =
    Some (0, of_nat k, map (mirror_byte vi dk m q) [x..<x + k])"
proof -
  obtain s r where p: "map_block mem (vi_mapping vi) READ (chunk_addr m x) True (int q) False = Some r" "mr_ret r = 0"
    "first_stripe r = Some s" "mr_length r = Some (of_nat (span m x))" "0 < dev_fd (vi_devs vi (bs_dev s))"
    "pread dk (dev_fd (vi_devs vi (bs_dev s))) k (unat (bs_physical s)) = Some (map (mirror_byte vi dk m q) [x..<x + k])"
    using read_piece [OF assms] by blast
  have n: "n < 2 ^ 64" "k < 2 ^ 31" "k < 2 ^ 64" using r by (auto simp: range_of_def k)
  have "min (of_nat (span m x)) (of_nat n :: u64) = of_nat k"
    using u64_min_nat [OF span_u64 n(1)] by (simp only: k min.commute)
  then show ?thesis
    using p(5) by (simp add: read_extent_data_def p(1-4,6) unat_of_nat_u64 [OF n(3)] int_of_u64_nat [OF n(2)] Let_def)
qed

section \<open>Reading what was written\<close>

lemma mirror_data:
  assumes "volume_ok vi dk" and "m \<in> chunks (vi_mapping vi)" and "redundant vi dk m" and "x < chunk_size m"
    and "q \<le> (if has_parity m then 1 else copies m)"
  shows "mirror_byte vi dk m q x = data_byte vi dk m x"
proof (cases "has_parity m")
  case True
  with assms(5) show ?thesis by (auto simp: mirror_byte_def data_byte_def mirror_copy_def)
next
  case False
  have m: "chunk_ok m" using volume_okD(1) [OF assms(1)] assms(2) by (rule chunks_ok)
  have "q \<le> copies m" using assms(5) by (simp only: if_not_P [OF False])
  from redundant_copies(1) [OF False assms(3,4) mirror_copy_less [OF m this]] show ?thesis by (simp add: mirror_byte_def)
qed

lemma written_bytes:
  assumes "written vi dk dk1 m x bs" and "range_of vi dk m x (length bs)" and "redundant vi dk m"
    and "q \<le> (if has_parity m then 1 else copies m)"
  shows "map (mirror_byte vi dk1 m q) [x..<x + length bs] = bs" "range_of vi dk1 m x (length bs)"
proof -
  have m: "m \<in> chunks (vi_mapping vi)" "x + length bs \<le> chunk_size m" and v: "volume_ok vi dk1" "redundant vi dk1 m"
    using assms by (auto simp: range_of_def written_def)
  have "mirror_byte vi dk1 m q y = bs ! (y - x)" if "x \<le> y" "y < x + length bs" for y
  proof -
    have y: "y < chunk_size m" using that m(2) by simp
    then have "data_byte vi dk1 m y = bs ! (y - x)" using assms(1) m(1) that unfolding written_def by auto
    with mirror_data [OF v(1) m(1) v(2) y assms(4)] show ?thesis by simp
  qed
  then show "map (mirror_byte vi dk1 m q) [x..<x + length bs] = bs" by (intro nth_equalityI) auto
  show "range_of vi dk1 m x (length bs)" using assms(2) v(1) by (simp add: range_of_def)
qed

text \<open>The data of a row is in its data stripes.\<close>

lemma data_in_row:
  assumes "has_parity m" and "chunk_ok m"
  shows "data_byte vi dk m y = row_store vi dk m (row_of m y) (y div 65536 mod data_cols m) ! (y mod 65536)"
proof -
  have i: "y div 65536 mod data_cols m < data_cols m" using chunk_okD(7) [OF assms(2)] by simp
  have "place m (y div 65536) 0 = column_extent m (row_of m y) (y div 65536 mod data_cols m)"
    using column_extent_place(1) [OF assms(1) i, of "row_of m y"] by (metis div_mult_mod_eq)
  then show ?thesis by (simp add: data_byte_def copy_byte_def row_store_def)
qed

end
