(* ===== verification/FindRoot.thy ===== *)
theory FindRoot
  imports ChunkRmap
begin

text \<open>
  The search for the roots of a tree (\<open>find-root.c\<close>): all blocks of all block groups that may hold metadata
  are read, and those of the tree looked for are collected by generation, each generation with the blocks of the highest
  level found in it. \<open>rd offset\<close> stands for \<open>read_tree_block(fs_info, offset, 0)\<close>: the header of the
  block, or \<open>None\<close> for a null pointer or an error. \<open>None\<close> of an operation is a \<open>BUG_ON\<close> or the exit on a
  failed allocation (\<open>mem\<close> says whether it succeeds), or a loop that does not end.
\<close>

section \<open>Data\<close>

record found_eb =
  fe_start :: u64
  fe_generation :: u64
  fe_level :: u8
  fe_owner :: u64

record btrfs_find_root_filter =
  fl_objectid :: u64
  fl_generation :: u64
  fl_level :: u8
  fl_match_level :: u8
  fl_match_gen :: u64
  fl_search_all :: bool

record btrfs_find_root_gen_cache =
  gc_highest_level :: u64
  gc_eb_tree :: cache_tree

text \<open>The tree of generations with the structures around its entries (\<open>container_of\<close>), and \<open>*match\<close>.\<close>

record find_root_result =
  fr_cache :: cache_tree
  fr_gen :: "cache_extent \<Rightarrow> btrfs_find_root_gen_cache"
  fr_match :: "cache_ptr option"

section \<open>Collecting a block\<close>

text \<open>The entry of a generation, which is created when there is none.\<close>

definition new_gen_cache :: "bool \<Rightarrow> find_root_result \<Rightarrow> u64 \<Rightarrow> (int \<times> cache_extent \<times> find_root_result) option" where
  "new_gen_cache mem r generation =
     (if \<not> mem then None
      else
        let cache = \<lparr>ce_objectid = 0, ce_start = generation, ce_size = 1\<rparr> in
        Option.bind (insert_cache_extent (fr_cache r) cache) (\<lambda>(ret, t).
          if ret < 0 then Some (ret, cache, r)
          else Some (ret, cache, r\<lparr>fr_cache := t,
            fr_gen := (fr_gen r)(cache := \<lparr>gc_highest_level = 0, gc_eb_tree = cache_tree_init\<rparr>)\<rparr>)))"

definition get_gen_cache :: "bool \<Rightarrow> find_root_result \<Rightarrow> u64 \<Rightarrow> (int \<times> cache_extent \<times> find_root_result) option" where
  "get_gen_cache mem r generation =
     (case search_cache_extent (fr_cache r) generation of
        None \<Rightarrow> new_gen_cache mem r generation
      | Some p \<Rightarrow>
          if ce_start (cur_entry p) \<noteq> generation then new_gen_cache mem r generation else Some (0, cur_entry p, r))"

text \<open>A higher level empties the tree of blocks; then a block of the highest level is inserted.\<close>

definition raise_level :: "u64 \<Rightarrow> btrfs_find_root_gen_cache \<Rightarrow> btrfs_find_root_gen_cache option" where
  "raise_level level g =
     (if level > gc_highest_level g then
        Option.bind (cache_tree_free_extents (gc_eb_tree g) [])
          (\<lambda>(_, t). Some (g\<lparr>gc_eb_tree := t, gc_highest_level := level\<rparr>))
      else Some g)"

text \<open>\<open>ptr\<close> says whether the caller passes a pointer \<open>match\<close>.\<close>

definition add_eb_to_result ::
  "bool \<Rightarrow> u32 \<Rightarrow> btrfs_find_root_filter \<Rightarrow> bool \<Rightarrow> found_eb \<Rightarrow> find_root_result \<Rightarrow> (int \<times> find_root_result) option" where
  "add_eb_to_result mem nodesize flt ptr eb r =
     (let level = ucast (fe_level eb) :: u64 in
      if fe_owner eb \<noteq> fl_objectid flt \<or> level < ucast (fl_level flt) \<or> fe_generation eb < fl_generation flt
      then Some (0, r)
      else
        Option.bind (get_gen_cache mem r (fe_generation eb)) (\<lambda>(ret, cache, r1).
          if ret < 0 then Some (ret, r1)
          else
            Option.bind (raise_level level (fr_gen r1 cache)) (\<lambda>g.
            Option.bind
              (if level = gc_highest_level g then add_cache_extent mem (gc_eb_tree g) (fe_start eb) (ucast nodesize)
               else Some (0, gc_eb_tree g)) (\<lambda>(ret, t).
              let r2 = r1\<lparr>fr_gen := (fr_gen r1)(cache := g\<lparr>gc_eb_tree := t\<rparr>)\<rparr> in
              if ret < 0 \<and> ret \<noteq> - EEXIST then Some (ret, r2)
              else if fe_generation eb = fl_match_gen flt \<and> level = ucast (fl_match_level flt) \<and> \<not> fl_search_all flt
              then Some (1, if ptr then r2\<lparr>fr_match := search_cache_extent t (fe_start eb)\<rparr> else r2)
              else Some (0, r2)))))"

section \<open>The search\<close>

text \<open>The loop over the blocks of one block group, which ends at \<open>stop\<close>, and the loop over the block groups.\<close>

partial_function (option) find_root_scan ::
  "(u64 \<Rightarrow> found_eb option) \<Rightarrow> (found_eb \<Rightarrow> 's \<Rightarrow> (int \<times> 's) option) \<Rightarrow> u64 \<Rightarrow> u64 \<Rightarrow> u64 \<Rightarrow> 's \<Rightarrow> (int \<times> 's) option" where
  "find_root_scan rd add nodesize stop offset s =
     (if offset < stop then
        (case rd offset of
           None \<Rightarrow> find_root_scan rd add nodesize stop (offset + nodesize) s
         | Some eb \<Rightarrow>
             Option.bind (add eb s) (\<lambda>(ret, s1).
               if ret \<noteq> 0 then Some (ret, s1) else find_root_scan rd add nodesize stop (offset + nodesize) s1))
      else Some (0, s))"

partial_function (option) find_root_loop ::
  "btrfs_mapping_tree \<Rightarrow> u64 \<Rightarrow> (u64 \<times> u64 \<Rightarrow> 's \<Rightarrow> (int \<times> 's) option) \<Rightarrow> u64 \<Rightarrow> 's \<Rightarrow> (int \<times> 's) option" where
  "find_root_loop mt ty scan logical s =
     Option.bind (btrfs_next_bg mt logical ty) (\<lambda>(ret, bg).
       if ret \<noteq> 0 then Some (if ret = - ENOENT then 0 else ret, s)
       else
         Option.bind bg (\<lambda>(offset, sz).
           Option.bind (scan (offset, sz) s) (\<lambda>(ret, s1).
             if ret \<noteq> 0 then Some (ret, s1) else find_root_loop mt ty scan offset s1)))"

abbreviation (input) BTRFS_CHUNK_TREE_OBJECTID :: u64 where "BTRFS_CHUNK_TREE_OBJECTID \<equiv> 3"

definition btrfs_find_root_search ::
  "bool \<Rightarrow> btrfs_mapping_tree \<Rightarrow> (u64 \<Rightarrow> found_eb option) \<Rightarrow> u32 \<Rightarrow> btrfs_find_root_filter \<Rightarrow> bool \<Rightarrow>
   find_root_result \<Rightarrow> (int \<times> find_root_result) option" where
  "btrfs_find_root_search mem mt rd nodesize flt ptr r =
     find_root_loop mt
       (if fl_objectid flt \<noteq> BTRFS_CHUNK_TREE_OBJECTID then BLOCK_GROUP_METADATA else BLOCK_GROUP_SYSTEM)
       (\<lambda>(offset, sz). find_root_scan rd (add_eb_to_result mem nodesize flt ptr) (ucast nodesize) (offset + sz) offset)
       0 r"

text \<open>A number that is widened keeps its value.\<close>

lemma unat_widen: "unat (ucast (x :: u8) :: u64) = unat x" "unat (ucast (y :: u32) :: u64) = unat y"
  using unsigned_less [where ?'a = nat, of x] unsigned_less [where ?'a = nat, of y]
  by (simp_all add: unsigned_ucast_eq take_bit_nat_eq_self)

section \<open>What has been collected\<close>

text \<open>
  What a result says of a generation: nothing, or the highest level of a block found and the addresses of the blocks of this
  level.
\<close>

definition gen_entry :: "u64 \<Rightarrow> cache_extent" where
  "gen_entry generation = \<lparr>ce_objectid = 0, ce_start = generation, ce_size = 1\<rparr>"

lemma gen_entry_simps [simp]:
  "ce_start (gen_entry generation) = generation" "ce_size (gen_entry generation) = 1"
  "ce_bytes (gen_entry generation) = {unat generation}"
  "gen_entry x = gen_entry y \<longleftrightarrow> x = y"
  by (auto simp: gen_entry_def range_bytes_def)

definition result_ok :: "find_root_result \<Rightarrow> bool" where
  "result_ok r \<longleftrightarrow> cache_inv (fr_cache r) \<and>
     (\<forall>e\<in>set (inorder (fr_cache r)). e = gen_entry (ce_start e) \<and> cache_inv (gc_eb_tree (fr_gen r e)))"

definition collected :: "find_root_result \<Rightarrow> u64 \<Rightarrow> (u64 \<times> u64 set) option" where
  "collected r generation =
     (if gen_entry generation \<in> set (inorder (fr_cache r))
      then let g = fr_gen r (gen_entry generation) in Some (gc_highest_level g, ce_start ` set (inorder (gc_eb_tree g)))
      else None)"

definition collect :: "u64 \<Rightarrow> u64 \<Rightarrow> (u64 \<times> u64 set) option \<Rightarrow> u64 \<times> u64 set" where
  "collect level start c =
     (case c of
        None \<Rightarrow> (level, {start})
      | Some (h, bs) \<Rightarrow> if level > h then (level, {start}) else if level = h then (h, insert start bs) else (h, bs))"

lemma new_gen_cache_ok:
  assumes r: "result_ok r" and gen: "unat generation + 1 < 2 ^ 64" and fresh: "gen_entry generation \<notin> set (inorder (fr_cache r))"
  shows "\<exists>r1. new_gen_cache True r generation = Some (0, gen_entry generation, r1) \<and> result_ok r1 \<and>
    gen_entry generation \<in> set (inorder (fr_cache r1)) \<and> fr_match r1 = fr_match r \<and>
    collected r1 = (collected r)(generation \<mapsto> (0, {})) \<and> inorder (gc_eb_tree (fr_gen r1 (gen_entry generation))) = []"
proof -
  have inv: "cache_inv (fr_cache r)" and ent: "\<forall>e\<in>set (inorder (fr_cache r)). e = gen_entry (ce_start e)"
    using r by (simp_all add: result_ok_def)
  have ok: "ce_ok (gen_entry generation)" using gen by (simp add: gen_entry_def ce_ok_def)
  have "unat generation \<noteq> unat (ce_start e)" if "e \<in> set (inorder (fr_cache r))" for e
    using that ent fresh by (metis word_unat_eq_iff)
  moreover have "ce_bytes e = {unat (ce_start e)}" if "e = gen_entry (ce_start e)" for e
    using that gen_entry_simps(3) by metis
  ultimately have "ce_bytes (gen_entry generation) \<inter> cache_bytes (fr_cache r) = {}"
    using ent by (auto simp: cache_bytes_def)
  with insert_cache_extent_spec [OF inv ok] obtain t xs ys where
    t: "insert_cache_extent (fr_cache r) (gen_entry generation) = Some (0, t)" "cache_inv t" "inorder (fr_cache r) = xs @ ys"
      "inorder t = xs @ gen_entry generation # ys" by auto
  have set_t: "set (inorder t) = insert (gen_entry generation) (set (inorder (fr_cache r)))" using t(3,4) by auto
  have null: "inorder cache_tree_init = []" "cache_inv cache_tree_init" by (simp_all add: cache_tree_init_def index_inv_def is_rbt_def)
  let ?r1 = "r\<lparr>fr_cache := t, fr_gen := (fr_gen r)(gen_entry generation := \<lparr>gc_highest_level = 0, gc_eb_tree = cache_tree_init\<rparr>)\<rparr>"
  have "new_gen_cache True r generation = Some (0, gen_entry generation, ?r1)"
    using t(1) by (simp add: new_gen_cache_def gen_entry_def Let_def)
  moreover have "result_ok ?r1" using r t(2) set_t null by (auto simp: result_ok_def)
  moreover have "collected ?r1 = (collected r)(generation \<mapsto> (0, {}))"
    using set_t null by (auto simp: collected_def Let_def fun_eq_iff)
  ultimately show ?thesis using set_t null(1) by simp
qed

lemma get_gen_cache_ok:
  assumes r: "result_ok r" and gen: "unat generation + 1 < 2 ^ 64"
  shows "\<exists>r1. get_gen_cache True r generation = Some (0, gen_entry generation, r1) \<and> result_ok r1 \<and>
    gen_entry generation \<in> set (inorder (fr_cache r1)) \<and> fr_match r1 = fr_match r \<and>
    collected r1 = (collected r)(generation \<mapsto> (case collected r generation of None \<Rightarrow> (0, {}) | Some c \<Rightarrow> c)) \<and>
    (inorder (gc_eb_tree (fr_gen r1 (gen_entry generation))) = [] \<or> fr_gen r1 = fr_gen r)"
proof -
  have inv: "cache_inv (fr_cache r)" and ent: "\<forall>e\<in>set (inorder (fr_cache r)). e = gen_entry (ce_start e)"
    using r by (simp_all add: result_ok_def)
  from search_cache_extent_spec [OF inv gen] obtain xs ys where
    s: "inorder (fr_cache r) = xs @ ys" "cur_at (fr_cache r) xs (search_cache_extent (fr_cache r) generation)"
      "\<forall>x\<in>set xs. unat (ce_start x) + unat (ce_size x) \<le> unat generation"
      "\<forall>y\<in>set ys. unat generation < unat (ce_start y) + unat (ce_size y)" by blast
  show ?thesis
  proof (cases "\<exists>p. search_cache_extent (fr_cache r) generation = Some p \<and> ce_start (cur_entry p) = generation")
    case True
    then obtain p where p: "search_cache_extent (fr_cache r) generation = Some p" "ce_start (cur_entry p) = generation" by blast
    with s(2) have "cur_entry p \<in> set (inorder (fr_cache r))" using inorder_cur [of p] by (auto simp: cur_at_def)
    with ent p(2) have e: "cur_entry p = gen_entry generation" "gen_entry generation \<in> set (inorder (fr_cache r))" by metis+
    then obtain c where "collected r generation = Some c" by (simp add: collected_def Let_def)
    then show ?thesis using p e r by (simp add: get_gen_cache_def fun_upd_idem)
  next
    case False
    have "gen_entry generation \<notin> set (inorder (fr_cache r))"
    proof
      assume g: "gen_entry generation \<in> set (inorder (fr_cache r))"
      then have "gen_entry generation \<in> set ys" using s(1,3) by auto
      then obtain q qs where ys: "ys = q # qs" by (cases ys) auto
      moreover have "sorted_wrt ce_lt (q # qs)" using inv s(1) ys by (simp add: index_inv_def sorted_wrt_append)
      ultimately have "q = gen_entry generation" using \<open>gen_entry generation \<in> set ys\<close> s(4) by (fastforce simp: ce_lt_def)
      with False s(1,2) ys show False
      proof (cases "search_cache_extent (fr_cache r) generation")
        case (Some p)
        with s(2) have "fst p \<noteq> Null" "cur_tree p = fr_cache r" "cur_before p = xs" by (simp_all add: cur_at_def)
        with inorder_cur [of p] s(1) ys have "cur_entry p = q" by simp
        with \<open>q = gen_entry generation\<close> False Some show False by simp
      qed (simp add: cur_at_def)
    qed
    moreover from this have "collected r generation = None" by (simp add: collected_def)
    moreover have "get_gen_cache True r generation = new_gen_cache True r generation"
      using False by (auto simp: get_gen_cache_def split: option.splits)
    ultimately show ?thesis using new_gen_cache_ok [OF r gen] by auto
  qed
qed


lemma raise_level_ok:
  assumes "cache_inv (gc_eb_tree g)"
  shows "raise_level level g =
    Some (if level > gc_highest_level g then \<lparr>gc_highest_level = level, gc_eb_tree = Null\<rparr> else g)"
  using cache_tree_free_extents_all [OF assms, of "[]"] by (cases g) (simp add: raise_level_def)

lemma add_block_ok:
  assumes inv: "cache_inv t" and blk: "0 < unat sz" "unat start + unat sz < 2 ^ 64"
    and free: "\<And>e. e \<in> set (inorder t) \<Longrightarrow> ce_start e = start \<or> ce_bytes e \<inter> range_bytes start sz = {}"
  shows "\<exists>ret t'. add_cache_extent True t start sz = Some (ret, t') \<and> (ret = 0 \<or> ret = - EEXIST) \<and> cache_inv t' \<and>
    ce_start ` set (inorder t') = insert start (ce_start ` set (inorder t))"
proof -
  let ?e = "\<lparr>ce_objectid = 0, ce_start = start, ce_size = sz\<rparr>"
  have ok: "ce_ok ?e" using blk by (simp add: ce_ok_def)
  have add: "add_cache_extent True t start sz = insert_cache_extent t ?e"
    by (simp add: add_cache_extent_def add_cache_extent'_def alloc_cache_extent_def)
  show ?thesis
  proof (cases "ce_bytes ?e \<inter> cache_bytes t = {}")
    case True
    with insert_cache_extent_spec [OF inv ok] obtain t' xs ys where "insert_cache_extent t ?e = Some (0, t')" "cache_inv t'"
      "inorder t = xs @ ys" "inorder t' = xs @ ?e # ys" by auto
    with add show ?thesis by auto
  next
    case False
    then obtain e where "e \<in> set (inorder t)" "ce_start e = start" using free by (force simp: cache_bytes_def)
    then have "insert start (ce_start ` set (inorder t)) = ce_start ` set (inorder t)" by auto
    with False insert_cache_extent_spec [OF inv ok] add inv show ?thesis by auto
  qed
qed

lemma collected_update:
  assumes "result_ok r" and "gen_entry generation \<in> set (inorder (fr_cache r))" and "cache_inv t"
  shows "result_ok (r\<lparr>fr_gen := (fr_gen r)(gen_entry generation := \<lparr>gc_highest_level = h, gc_eb_tree = t\<rparr>)\<rparr>)"
    and "collected (r\<lparr>fr_gen := (fr_gen r)(gen_entry generation := \<lparr>gc_highest_level = h, gc_eb_tree = t\<rparr>)\<rparr>) =
      (collected r)(generation \<mapsto> (h, ce_start ` set (inorder t)))"
  using assms by (auto simp: result_ok_def collected_def Let_def fun_eq_iff)

lemma match_irrelevant [simp]: "result_ok (r\<lparr>fr_match := m\<rparr>) = result_ok r" "collected (r\<lparr>fr_match := m\<rparr>) = collected r"
  by (simp_all add: result_ok_def collected_def fun_eq_iff)

text \<open>
  A block that passes the filter is collected: it starts its generation, replaces the blocks of a lower level, joins those of its
  level or is left out. The result is 1 for the block looked for.
\<close>

lemma add_eb_ok:
  assumes r: "result_ok r" and gen: "unat (fe_generation eb) + 1 < 2 ^ 64"
    and flt: "fe_owner eb = fl_objectid flt" "(ucast (fl_level flt) :: u64) \<le> ucast (fe_level eb)" "fl_generation flt \<le> fe_generation eb"
    and blk: "0 < unat nodesize" "unat (fe_start eb) + unat nodesize < 2 ^ 64"
    and free: "\<And>e. e \<in> set (inorder (gc_eb_tree (fr_gen r (gen_entry (fe_generation eb))))) \<Longrightarrow>
      ce_start e = fe_start eb \<or> ce_bytes e \<inter> range_bytes (fe_start eb) (ucast nodesize) = {}"
  shows "\<exists>r'. add_eb_to_result True nodesize flt ptr eb r =
      Some (if fe_generation eb = fl_match_gen flt \<and> fe_level eb = fl_match_level flt \<and> \<not> fl_search_all flt then 1 else 0, r') \<and>
    result_ok r' \<and>
    collected r' = (collected r)(fe_generation eb \<mapsto> collect (ucast (fe_level eb)) (fe_start eb) (collected r (fe_generation eb)))"
proof -
  let ?gen = "fe_generation eb" and ?level = "ucast (fe_level eb) :: u64" and ?E = "gen_entry (fe_generation eb)"
  from get_gen_cache_ok [OF r gen] obtain r1 where
    r1: "get_gen_cache True r ?gen = Some (0, ?E, r1)" "result_ok r1" "?E \<in> set (inorder (fr_cache r1))"
      "collected r1 = (collected r)(?gen \<mapsto> (case collected r ?gen of None \<Rightarrow> (0, {}) | Some c \<Rightarrow> c))"
      "inorder (gc_eb_tree (fr_gen r1 ?E)) = [] \<or> fr_gen r1 = fr_gen r" by blast
  define g where "g = (if ?level > gc_highest_level (fr_gen r1 ?E) then \<lparr>gc_highest_level = ?level, gc_eb_tree = Null\<rparr> else fr_gen r1 ?E)"
  have inv1: "cache_inv (gc_eb_tree (fr_gen r1 ?E))" using r1(2,3) by (simp add: result_ok_def)
  then have inv: "cache_inv (gc_eb_tree g)" by (simp add: g_def index_inv_def is_rbt_def)
  have ns: "unat (ucast nodesize :: u64) = unat nodesize" by (simp add: unat_widen)
  have fr: "ce_start e = fe_start eb \<or> ce_bytes e \<inter> range_bytes (fe_start eb) (ucast nodesize) = {}"
    if "e \<in> set (inorder (gc_eb_tree g))" for e
    using that free [of e] r1(5) by (auto simp: g_def split: if_splits)
  obtain ret t where t: "(if ?level = gc_highest_level g then add_cache_extent True (gc_eb_tree g) (fe_start eb) (ucast nodesize)
      else Some (0, gc_eb_tree g)) = Some (ret, t)" "ret = 0 \<or> ret = - EEXIST" "cache_inv t"
    "ce_start ` set (inorder t) = (if ?level = gc_highest_level g then {fe_start eb} else {}) \<union> ce_start ` set (inorder (gc_eb_tree g))"
    using add_block_ok [OF inv _ _ fr] blk ns inv by (cases "?level = gc_highest_level g") auto
  let ?r2 = "r1\<lparr>fr_gen := (fr_gen r1)(?E := \<lparr>gc_highest_level = gc_highest_level g, gc_eb_tree = t\<rparr>)\<rparr>"
  have g': "g\<lparr>gc_eb_tree := t\<rparr> = \<lparr>gc_highest_level = gc_highest_level g, gc_eb_tree = t\<rparr>" by simp
  have lvl: "?level = ucast (fl_match_level flt) \<longleftrightarrow> fe_level eb = fl_match_level flt"
    by (simp add: word_unat_eq_iff unat_widen)
  have res: "add_eb_to_result True nodesize flt ptr eb r =
      (if ?gen = fl_match_gen flt \<and> fe_level eb = fl_match_level flt \<and> \<not> fl_search_all flt
       then Some (1, if ptr then ?r2\<lparr>fr_match := search_cache_extent t (fe_start eb)\<rparr> else ?r2) else Some (0, ?r2))"
    using flt t(1,2) by (simp only: add_eb_to_result_def Let_def lvl r1(1) raise_level_ok [OF inv1, of ?level, folded g_def] bind.bind_lunit prod.case g') auto
  have col: "collected ?r2 = (collected r)(?gen \<mapsto> collect ?level (fe_start eb) (collected r ?gen))"
  proof -
    have "collected r1 ?gen = Some (gc_highest_level (fr_gen r1 ?E), ce_start ` set (inorder (gc_eb_tree (fr_gen r1 ?E))))"
      using r1(3) by (simp add: collected_def Let_def)
    then have "collect ?level (fe_start eb) (collected r ?gen) = (gc_highest_level g, ce_start ` set (inorder t))"
      using r1(4) t(4) by (auto simp: collect_def g_def word_gt_0 split: option.splits if_splits)
    then show ?thesis using collected_update(2) [OF r1(2,3) t(3)] r1(4) by simp
  qed
  define c where "c \<longleftrightarrow> ?gen = fl_match_gen flt \<and> fe_level eb = fl_match_level flt \<and> \<not> fl_search_all flt"
  have ok: "result_ok ?r2" by (rule collected_update(1) [OF r1(2,3) t(3)])
  show ?thesis unfolding res c_def [symmetric] by (cases c; cases ptr) (simp_all add: ok col)
qed

section \<open>All elements of a list in turn\<close>

text \<open>What the loops come to: an action on all elements of a list, until one ends it.\<close>

fun visit :: "('a \<Rightarrow> 's \<Rightarrow> (int \<times> 's) option) \<Rightarrow> 'a list \<Rightarrow> 's \<Rightarrow> (int \<times> 's) option" where
  "visit f [] s = Some (0, s)"
| "visit f (x # xs) s = Option.bind (f x s) (\<lambda>(ret, s1). if ret \<noteq> 0 then Some (ret, s1) else visit f xs s1)"

lemma visit_append:
  "visit f (xs @ ys) s = Option.bind (visit f xs s) (\<lambda>(ret, s1). if ret \<noteq> 0 then Some (ret, s1) else visit f ys s1)"
  by (induction xs arbitrary: s) (auto split: Option.bind_splits prod.splits)

lemma visit_concat: "visit f (concat xss) s = visit (visit f) xss s"
  by (induction xss arbitrary: s) (simp_all add: visit_append cong: if_cong)

lemma visit_map: "visit f (map g xs) s = visit (\<lambda>x. f (g x)) xs s"
  by (induction xs arbitrary: s) (auto split: Option.bind_splits prod.splits)

lemma visit_cong: "(\<And>x s. x \<in> set xs \<Longrightarrow> f x s = g x s) \<Longrightarrow> visit f xs s = visit g xs s"
  by (induction xs arbitrary: s) (auto split: Option.bind_splits prod.splits)

text \<open>The addresses of the blocks of a group, and the action on one of them.\<close>

fun block_addrs :: "u64 \<Rightarrow> nat \<Rightarrow> u64 \<Rightarrow> u64 list" where
  "block_addrs nodesize 0 offset = []"
| "block_addrs nodesize (Suc n) offset = offset # block_addrs nodesize n (offset + nodesize)"

definition group_blocks :: "u64 \<Rightarrow> u64 \<times> u64 \<Rightarrow> u64 list" where
  "group_blocks nodesize g = block_addrs nodesize ((unat (snd g) + unat nodesize - 1) div unat nodesize) (fst g)"

definition read_and_add :: "(u64 \<Rightarrow> found_eb option) \<Rightarrow> (found_eb \<Rightarrow> 's \<Rightarrow> (int \<times> 's) option) \<Rightarrow> u64 \<Rightarrow> 's \<Rightarrow> (int \<times> 's) option" where
  "read_and_add rd add offset s = (case rd offset of None \<Rightarrow> Some (0, s) | Some eb \<Rightarrow> add eb s)"

lemma find_root_scan_blocks:
  assumes fit: "unat stop + unat nodesize \<le> 2 ^ 64" and hi: "unat stop \<le> unat offset + n * unat nodesize"
    and lo: "n = 0 \<or> unat offset + (n - 1) * unat nodesize < unat stop"
  shows "find_root_scan rd add nodesize stop offset s = visit (read_and_add rd add) (block_addrs nodesize n offset) s"
  using hi lo
proof (induction n arbitrary: offset s)
  case 0
  then have "\<not> offset < stop" by (simp add: word_less_nat_alt)
  then show ?case by (subst find_root_scan.simps) simp
next
  case (Suc n)
  have lt: "unat offset < unat stop" using Suc.prems(2) by simp
  then have next_off: "unat (offset + nodesize) = unat offset + unat nodesize" using fit by (simp add: unat_add_lem [THEN iffD1])
  have "n = 0 \<or> unat (offset + nodesize) + (n - 1) * unat nodesize < unat stop"
    using Suc.prems(2) next_off by (cases n) simp_all
  then have "find_root_scan rd add nodesize stop (offset + nodesize) s1 =
      visit (read_and_add rd add) (block_addrs nodesize n (offset + nodesize)) s1" for s1
    using Suc.IH [of "offset + nodesize" s1] Suc.prems(1) next_off by (simp add: algebra_simps)
  with lt show ?case
    by (subst find_root_scan.simps) (auto simp: read_and_add_def word_less_nat_alt split: option.splits cong: if_cong)
qed

lemma find_root_scan_ok:
  assumes ns: "0 < unat nodesize" and fit: "unat offset + unat sz + unat nodesize \<le> 2 ^ 64"
  shows "find_root_scan rd add nodesize (offset + sz) offset s =
    visit (read_and_add rd add) (group_blocks nodesize (offset, sz)) s"
proof -
  let ?n = "(unat sz + unat nodesize - 1) div unat nodesize"
  have stop: "unat (offset + sz) = unat offset + unat sz" using fit ns by (simp add: unat_add_lem [THEN iffD1])
  have "?n * unat nodesize + (unat sz + unat nodesize - 1) mod unat nodesize = unat sz + unat nodesize - 1"
    by (rule div_mult_mod_eq)
  moreover have "(unat sz + unat nodesize - 1) mod unat nodesize < unat nodesize" using ns by simp
  ultimately have n: "unat sz \<le> ?n * unat nodesize" "?n * unat nodesize < unat sz + unat nodesize" using ns by linarith+
  from n(2) have "?n = 0 \<or> (?n - 1) * unat nodesize < unat sz" by (cases ?n) simp_all
  with n(1) stop fit show ?thesis unfolding group_blocks_def fst_conv snd_conv
    by (intro find_root_scan_blocks) auto
qed

section \<open>The iteration over the block groups\<close>

text \<open>The block groups with one of the flags, in the order of their addresses.\<close>

definition groups :: "btrfs_mapping_tree \<Rightarrow> u64 \<Rightarrow> cache_extent list \<Rightarrow> (u64 \<times> u64) list" where
  "groups mt ty ces = map (\<lambda>ce. (ce_start ce, ce_size ce)) (filter (\<lambda>ce. has_flag (ml_type (mt_map mt ce)) ty) ces)"

lemma first_bg_cases:
  obtains (none) "first_bg mt ty ces = (- ENOENT, None)" "groups mt ty ces = []"
    | (found) us ce vs where "ces = us @ ce # vs" "first_bg mt ty ces = (0, Some (ce_start ce, ce_size ce))"
      "groups mt ty ces = (ce_start ce, ce_size ce) # groups mt ty vs" "has_flag (ml_type (mt_map mt ce)) ty"
proof (cases "find (\<lambda>ce. has_flag (ml_type (mt_map mt ce)) ty) ces")
  case None
  then have "\<forall>ce\<in>set ces. \<not> has_flag (ml_type (mt_map mt ce)) ty" by (simp add: find_None_iff)
  then show thesis using None none by (simp add: first_bg_def groups_def filter_empty_conv)
next
  case (Some ce)
  then obtain i where i: "i < length ces" "has_flag (ml_type (mt_map mt ce)) ty" "ce = ces ! i"
    "\<forall>j<i. \<not> has_flag (ml_type (mt_map mt (ces ! j))) ty" by (auto simp: find_Some_iff)
  have ces: "ces = take i ces @ ce # drop (Suc i) ces" using id_take_nth_drop [OF i(1)] i(3) by simp
  have "filter (\<lambda>ce. has_flag (ml_type (mt_map mt ce)) ty) (take i ces) = []" using i(4) by (auto simp: filter_empty_conv elim: in_set_takeE)
  then have "groups mt ty ces = (ce_start ce, ce_size ce) # groups mt ty (drop (Suc i) ces)" by (subst ces) (simp add: groups_def i(2))
  then show thesis using found [OF ces] Some i(2) by (simp add: first_bg_def)
qed

lemma mapping_order:
  assumes mt: "mapping_ok mt" and o: "inorder (mt_cache mt) = xs @ ce # ys"
  shows "filter (\<lambda>c. ce_start c > ce_start ce) (inorder (mt_cache mt)) = ys" "\<exists>m\<in>chunks mt. in_chunk m (ce_start ce)"
    "ce_start ce = 0 \<Longrightarrow> xs = []"
proof -
  have inv: "cache_inv (mt_cache mt)" using mt by (simp add: mapping_ok_def)
  then have ok: "\<forall>e\<in>set (inorder (mt_cache mt)). ce_ok e" and srt: "sorted_wrt ce_lt (xs @ ce # ys)" using o by (simp_all add: index_inv_def)
  have lo: "unat (ce_start x) + unat (ce_size x) \<le> unat (ce_start ce)" "0 < unat (ce_size x)" if "x \<in> set xs" for x
    using srt ok that o by (auto simp: sorted_wrt_append ce_lt_def ce_ok_def)
  have hi: "ce_start y > ce_start ce" if "y \<in> set ys" for y
    using srt ok that o by (fastforce simp: sorted_wrt_append ce_lt_def ce_ok_def word_less_nat_alt)
  show "filter (\<lambda>c. ce_start c > ce_start ce) (inorder (mt_cache mt)) = ys"
    using lo(1) hi unfolding o by (fastforce simp: filter_empty_conv word_less_nat_alt)
  show "xs = []" if "ce_start ce = 0" using lo that by (cases xs) fastforce+
  have c: "ce \<in> set (inorder (mt_cache mt))" using o by simp
  then have "ml_ce (mt_map mt ce) = ce" using mt by (simp add: mapping_ok_def)
  moreover have "0 < unat (ce_size ce)" using ok c by (simp add: ce_ok_def)
  ultimately show "\<exists>m\<in>chunks mt. in_chunk m (ce_start ce)" using c by (force simp: chunks_def in_chunk_def ce_bytes_def)
qed

lemma find_root_from:
  assumes mt: "mapping_ok mt" and "inorder (mt_cache mt) = xs @ ce # ys" and "ce_start ce \<noteq> 0"
  shows "find_root_loop mt ty scan (ce_start ce) s = visit scan (groups mt ty ys) s"
  using assms(2,3)
proof (induction ys arbitrary: xs ce s rule: length_induct)
  case (1 ys)
  note o = mapping_order [OF mt 1(2)]
  have nx: "btrfs_next_bg mt (ce_start ce) ty = Some (first_bg mt ty ys)" using next_bg_ok [OF mt, of "ce_start ce" ty] o(1,2) 1(3) by simp
  show ?case
  proof (cases rule: first_bg_cases [of mt ty ys])
    case none
    then show ?thesis using nx by (subst find_root_loop.simps) simp
  next
    case (found us c vs)
    have "ce_start c > ce_start ce" using o(1) found(1) by (metis (no_types, lifting) filter_id_conv filter_filter filter_set in_set_conv_decomp mem_Collect_eq set_filter)
    then have c: "ce_start c \<noteq> 0" by auto
    have "inorder (mt_cache mt) = (xs @ ce # us) @ c # vs" using 1(2) found(1) by simp
    then have "find_root_loop mt ty scan (ce_start c) s1 = visit scan (groups mt ty vs) s1" for s1
      using 1(1) found(1) c by simp
    then show ?thesis using nx found(2,3) by (subst find_root_loop.simps) (simp cong: if_cong)
  qed
qed

lemma find_root_ok:
  assumes mt: "mapping_ok mt" and z: "\<forall>ce\<in>set (inorder (mt_cache mt)). ce_start ce = 0 \<longrightarrow> \<not> has_flag (ml_type (mt_map mt ce)) ty"
  shows "find_root_loop mt ty scan 0 s = visit scan (groups mt ty (inorder (mt_cache mt))) s"
proof -
  have nx: "btrfs_next_bg mt 0 ty = Some (first_bg mt ty (inorder (mt_cache mt)))" using next_bg_ok [OF mt, of 0 ty] by simp
  show ?thesis
  proof (cases rule: first_bg_cases [of mt ty "inorder (mt_cache mt)"])
    case none
    then show ?thesis using nx by (subst find_root_loop.simps) simp
  next
    case (found us c vs)
    have "ce_start c \<noteq> 0" using z found(1,4) by auto
    then have "find_root_loop mt ty scan (ce_start c) s1 = visit scan (groups mt ty vs) s1" for s1
      by (rule find_root_from [OF mt found(1)])
    then show ?thesis using nx found(2,3) by (subst find_root_loop.simps) (simp cong: if_cong)
  qed
qed

text \<open>A block group at 0 that has the flag is found again and again.\<close>

lemma find_root_stuck:
  assumes mt: "mapping_ok mt" and ce: "ce \<in> set (inorder (mt_cache mt))" "ce_start ce = 0" "has_flag (ml_type (mt_map mt ce)) ty"
    and scan: "\<And>s r. scan (0, ce_size ce) s = Some r \<Longrightarrow> fst r = 0"
  shows "find_root_loop mt ty scan 0 s = None"
proof (rule ccontr)
  obtain xs ys where o: "inorder (mt_cache mt) = xs @ ce # ys" using ce(1) by (meson split_list)
  have "xs = []" using mapping_order(3) [OF mt o ce(2)] .
  then have nx: "btrfs_next_bg mt 0 ty = Some (0, Some (0, ce_size ce))" using next_bg_ok [OF mt, of 0 ty] o ce(2,3) by (simp add: first_bg_def)
  assume "find_root_loop mt ty scan 0 s \<noteq> None"
  then obtain r where r: "find_root_loop mt ty scan 0 s = Some r" by blast
  have "(mt, ty, scan, 0 :: u64) = (mt, ty, scan, 0) \<longrightarrow> False"
  proof (rule find_root_loop.raw_induct [OF _ r, where P = "\<lambda>mt' ty' scan' x s y. (mt', ty', scan', x) = (mt, ty, scan, 0) \<longrightarrow> False"], intro impI)
    fix loop mt' ty' scan' x s' y
    assume IH: "\<And>mt' ty' scan' x s y. loop mt' ty' scan' x s = Some y \<Longrightarrow> (mt', ty', scan', x) = (mt, ty, scan, 0) \<longrightarrow> False"
      and b: "Option.bind (btrfs_next_bg mt' x ty') (\<lambda>(ret, bg). if ret \<noteq> 0 then Some (if ret = - ENOENT then 0 else ret, s')
        else Option.bind bg (\<lambda>(offset, sz). Option.bind (scan' (offset, sz) s') (\<lambda>(ret, s1).
          if ret \<noteq> 0 then Some (ret, s1) else loop mt' ty' scan' offset s1))) = Some y"
      and x: "(mt', ty', scan', x) = (mt, ty, scan, 0)"
    from b x nx obtain ret s1 where "scan (0, ce_size ce) s' = Some (ret, s1)" "ret \<noteq> 0 \<or> loop mt ty scan 0 s1 = Some y"
      by (auto split: Option.bind_splits if_splits)
    with IH scan show False by fastforce
  qed
  then show False by simp
qed

section \<open>The whole search\<close>

text \<open>
  Unless a block group that has the flag starts at 0 or ends within a block of the end of the address space, the search
  reads all blocks of all groups in turn, and ends.
\<close>

lemma find_root_search_ok:
  assumes mt: "mapping_ok mt" and ns: "0 < unat nodesize"
    and ty: "ty = (if fl_objectid flt \<noteq> BTRFS_CHUNK_TREE_OBJECTID then BLOCK_GROUP_METADATA else BLOCK_GROUP_SYSTEM)"
    and z: "\<forall>ce\<in>set (inorder (mt_cache mt)). ce_start ce = 0 \<longrightarrow> \<not> has_flag (ml_type (mt_map mt ce)) ty"
    and fit: "\<forall>ce\<in>set (inorder (mt_cache mt)). unat (ce_start ce) + unat (ce_size ce) + unat nodesize \<le> 2 ^ 64"
  shows "btrfs_find_root_search mem mt rd nodesize flt ptr r =
    visit (read_and_add rd (add_eb_to_result mem nodesize flt ptr))
      (concat (map (group_blocks (ucast nodesize)) (groups mt ty (inorder (mt_cache mt))))) r"
proof -
  have ns64: "unat (ucast nodesize :: u64) = unat nodesize" by (simp add: unat_widen)
  have "(case g of (offset, sz) \<Rightarrow> find_root_scan rd add (ucast nodesize) (offset + sz) offset) s =
      visit (read_and_add rd add) (group_blocks (ucast nodesize) g) s"
    if "g \<in> set (groups mt ty (inorder (mt_cache mt)))" for g add and s :: find_root_result
    using that fit ns ns64 by (auto simp: groups_def intro!: find_root_scan_ok)
  then show ?thesis unfolding btrfs_find_root_search_def ty [symmetric] find_root_ok [OF mt z] visit_concat visit_map
    by (intro visit_cong) blast
qed

end
