(* ===== verification/VolumeProps.thy ===== *)
theory VolumeProps
  imports ChunkItems FindRoot
begin

text \<open>
  The properties of the chunk mapping: where a block is read and written, that different data never
  share a place, the map of a full stripe with parity, the way back from a device, and the reading of
  chunk items.
\<close>

section \<open>Examples\<close>

text \<open>A chunk of two rows with RAID-5 on three devices, and a mirrored chunk behind it.\<close>

definition ex_extent :: "u64 \<Rightarrow> u64 \<Rightarrow> cache_extent" where
  "ex_extent start sz = \<lparr>ce_objectid = 0, ce_start = start, ce_size = sz\<rparr>"

definition ex_raid5 :: map_lookup where
  "ex_raid5 = \<lparr>ml_ce = ex_extent 1048576 262144, ml_type = 129, ml_io_align = 65536, ml_io_width = 65536,
     ml_stripe_len = 65536, ml_sector_size = 4096, ml_num_stripes = 3, ml_sub_stripes = 1,
     ml_stripes = [\<lparr>bs_dev = 1, bs_physical = 2097152\<rparr>, \<lparr>bs_dev = 2, bs_physical = 1048576\<rparr>,
                   \<lparr>bs_dev = 3, bs_physical = 1048576\<rparr>]\<rparr>"

definition ex_raid1 :: map_lookup where
  "ex_raid1 = \<lparr>ml_ce = ex_extent 2097152 131072, ml_type = 20, ml_io_align = 65536, ml_io_width = 65536,
     ml_stripe_len = 65536, ml_sector_size = 4096, ml_num_stripes = 2, ml_sub_stripes = 1,
     ml_stripes = [\<lparr>bs_dev = 1, bs_physical = 4194304\<rparr>, \<lparr>bs_dev = 2, bs_physical = 4194304\<rparr>]\<rparr>"

definition ex_mapping :: btrfs_mapping_tree where
  "ex_mapping =
     \<lparr>mt_cache = RbNode RB_BLACK Null (ml_ce ex_raid5) (RbNode RB_RED Null (ml_ce ex_raid1) Null),
      mt_map = (\<lambda>ce. if ce = ml_ce ex_raid5 then ex_raid5 else ex_raid1)\<rparr>"

definition ex_mem :: map_mem where
  "ex_mem = \<lparr>mm_multi = True, mm_raid_map = True, mm_junk = (\<lambda>_. 77)\<rparr>"

lemma ex_profiles: "profile ex_raid5 = BTRFS_RAID_RAID5" "profile ex_raid1 = BTRFS_RAID_RAID1"
  by (simp_all add: ex_raid5_def ex_raid1_def btrfs_bg_flags_to_raid_index_def has_flag_def block_group_defs)

lemma ex_chunks_ok: "chunk_ok ex_raid5" "chunk_ok ex_raid1"
  unfolding chunk_ok_def ex_profiles
  by (simp_all add: ex_raid5_def ex_raid1_def ex_extent_def single_profile_def block_group_defs ce_ok_def profile_ok_def)

lemma ex_mapping_ok: "mapping_ok ex_mapping" "chunks ex_mapping = {ex_raid5, ex_raid1}"
proof -
  have ne: "ml_ce ex_raid1 \<noteq> ml_ce ex_raid5" by (simp add: ex_raid1_def ex_raid5_def ex_extent_def)
  have "ce_lt (ml_ce ex_raid5) (ml_ce ex_raid1)" by (simp add: ce_lt_def ex_raid1_def ex_raid5_def ex_extent_def)
  then have "cache_inv (mt_cache ex_mapping)"
    using chunk_okD(6) [OF ex_chunks_ok(1)] chunk_okD(6) [OF ex_chunks_ok(2)]
    by (simp add: ex_mapping_def index_inv_def is_rbt_def)
  then show "mapping_ok ex_mapping" using ne ex_chunks_ok by (simp add: mapping_ok_def ex_mapping_def)
  show "chunks ex_mapping = {ex_raid5, ex_raid1}" using ne by (auto simp: chunks_def ex_mapping_def)
qed

lemma ex_in_chunk: "in_chunk ex_raid5 1253376" "in_chunk ex_raid1 2166784"
  "chunk_offset ex_raid5 1253376 = 204800" "chunk_offset ex_raid1 2166784 = 69632"
  by (simp_all add: in_chunk_def ce_bytes_def chunk_offset_def ex_raid5_def ex_raid1_def ex_extent_def)

lemma ex_shapes:
  "data_cols ex_raid5 = 2" "data_cols ex_raid1 = 1" "copies ex_raid5 = 2" "copies ex_raid1 = 2"
  "n_stripes ex_raid5 = 3" "n_stripes ex_raid1 = 2" "unat (ce_size (ml_ce ex_raid5)) = 262144"
  "whole_rows ex_raid5" "whole_rows ex_raid1" "extent_len ex_raid5 = 131072" "extent_len ex_raid1 = 131072"
  unfolding data_cols_def copies_def whole_rows_def extent_len_def ex_profiles
  by (simp_all add: ex_raid5_def ex_raid1_def ex_extent_def flip: numeral_2_eq_2)

section \<open>From logical addresses to devices\<close>

text \<open>
  C33. A read of any address of a chunk, with any mirror number up to the number of copies, is mapped to
  one stripe: the copy that the layout of the profile assigns to it, at an offset that lies, with the
  whole mapped length, in that device extent. The length is positive.
\<close>
theorem map_block_read_correct:
  assumes "mapping_ok mt" and "m \<in> chunks mt" and "in_chunk m logical" and "whole_rows m" and "mm_multi mem" and "q \<le> copies m"
  shows "let x = chunk_offset m logical; i = place m (x div 65536) (mirror_copy m (x div 65536) q) in
    map_block mem mt READ logical True (int q) False =
      Some \<lparr>mr_ret = 0, mr_length = Some (of_nat (span m x)), mr_type = Some (ml_type m),
        mr_multi = Some \<lparr>mb_num_stripes = 1, mb_stripes = [stripe_at m i (extent_offset m x)]\<rparr>, mr_raid_map = None\<rparr> \<and>
    i < n_stripes m \<and> 0 < span m x \<and> extent_offset m x + span m x \<le> extent_len m"
proof -
  have m: "chunk_ok m" using chunks_ok assms(1,2) by blast
  show ?thesis
    using map_block_read [OF assms(1-3,5,6) _ refl refl, of False] place_less [OF m mirror_copy_less [OF m assms(6)]]
      extent_bound [OF m assms(4) in_chunkD(1) [OF assms(3)]]
    by (simp only: Let_def simp_thms)
qed

theorem map_block_read_correct_witness:
  "\<exists>r. map_block ex_mem ex_mapping READ 1253376 True 2 False = Some r \<and>
     mr_multi r = Some \<lparr>mb_num_stripes = 1, mb_stripes = [\<lparr>bs_dev = 1, bs_physical = 2170880\<rparr>]\<rparr> \<and> mr_length r = Some 57344"
proof -
  have mm: "mm_multi ex_mem" "(2::nat) \<le> copies ex_raid5" "ex_raid5 \<in> chunks ex_mapping"
    by (simp_all add: ex_mem_def ex_shapes ex_mapping_ok)
  have pl: "place ex_raid5 3 (Suc 0) = 0" by (simp add: place_def ex_profiles ex_shapes)
  have sp: "span ex_raid5 204800 = 57344" by (simp add: span_def ex_profiles ex_shapes)
  have st: "stripe_at ex_raid5 0 73728 = \<lparr>bs_dev = 1, bs_physical = 2170880\<rparr>" by (simp add: stripe_at_def ex_raid5_def)
  show ?thesis
    using map_block_read_correct [OF ex_mapping_ok(1) mm(3) ex_in_chunk(1) ex_shapes(8) mm(1,2)]
    by (simp add: Let_def ex_in_chunk mirror_copy_def pl sp st [unfolded One_nat_def] ex_shapes)
qed

text \<open>
  A write to a profile without parity is mapped to all its copies, each where a read with that mirror
  number would look.
\<close>
theorem map_block_write_correct:
  assumes "mapping_ok mt" and "m \<in> chunks mt" and "in_chunk m logical" and "\<not> has_parity m" and "mm_multi mem"
  shows "\<exists>w. map_block mem mt WRITE logical True mirror rm = Some w \<and> mr_ret w = 0 \<and> mr_raid_map w = None \<and>
    (\<forall>c<copies m. \<exists>r. map_block mem mt READ logical True (int c + 1) False = Some r \<and> mr_length r = mr_length w \<and>
       mr_multi r = Some \<lparr>mb_num_stripes = 1, mb_stripes = [mb_stripes (the (mr_multi w)) ! c]\<rparr>) \<and>
    length (mb_stripes (the (mr_multi w))) = copies m"
proof -
  let ?x = "chunk_offset m logical"
  have r: "map_block mem mt READ logical True (int c + 1) False =
      Some \<lparr>mr_ret = 0, mr_length = Some (of_nat (span m ?x)), mr_type = Some (ml_type m),
        mr_multi = Some \<lparr>mb_num_stripes = 1, mb_stripes = [stripe_at m (place m (?x div 65536) c) (extent_offset m ?x)]\<rparr>,
        mr_raid_map = None\<rparr>" if "c < copies m" for c
    using map_block_read [OF assms(1-3,5), of "c + 1" False] that by (simp add: mirror_copy_def add.commute)
  show ?thesis
    by (subst map_block_write [OF assms(1-3,5,4) refl]) (simp add: r)
qed

theorem map_block_write_correct_witness:
  "\<exists>w. map_block ex_mem ex_mapping WRITE 2166784 True 0 True = Some w \<and> mr_ret w = 0 \<and>
     length (mb_stripes (the (mr_multi w))) = 2"
proof -
  have mm: "mm_multi ex_mem" "\<not> has_parity ex_raid1" "ex_raid1 \<in> chunks ex_mapping"
    by (simp_all add: ex_mem_def ex_profiles ex_mapping_ok)
  from map_block_write_correct [OF ex_mapping_ok(1) mm(3) ex_in_chunk(2) mm(2,1)]
  show ?thesis unfolding ex_shapes by blast
qed

text \<open>
  When the device extents of a chunk do not overlap, different addresses of the chunk and different
  mirrors of one address are mapped to different places: two reads that are mapped to the same place
  are of the same mirror of the same address, or both are of the same parity stripe of one row.
\<close>
theorem map_block_places_distinct:
  assumes "mapping_ok mt" and "m \<in> chunks mt" and "in_chunk m l" and "in_chunk m l'" and "whole_rows m"
    and "extents_ok m" and "extents_disjoint m" and "mm_multi mem" and "0 < q" and "q \<le> copies m" and "0 < q'" and "q' \<le> copies m"
    and "map_block mem mt READ l True (int q) False = Some r" and "map_block mem mt READ l' True (int q') False = Some r'"
    and "mr_multi r = mr_multi r'"
  shows "q = q' \<and> (l = l' \<or> has_parity m \<and> 1 < q \<and> row_of m (chunk_offset m l) = row_of m (chunk_offset m l'))"
proof -
  have m: "chunk_ok m" using chunks_ok assms(1,2) by blast
  let ?x = "chunk_offset m l" and ?y = "chunk_offset m l'"
  have c: "mirror_copy m k q = q - 1" "mirror_copy m k q' = q' - 1" for k using assms(9,11) by (simp_all add: mirror_copy_def)
  have e: "stripe_at m (place m (?x div 65536) (q - 1)) (extent_offset m ?x) = stripe_at m (place m (?y div 65536) (q' - 1)) (extent_offset m ?y)"
    using map_block_read [OF assms(1-3,8,10) _ refl refl, of False] map_block_read [OF assms(1,2,4,8,12) _ refl refl, of False]
      assms(13-15) by (auto simp: c)
  have lt: "extent_offset m ?x < extent_len m" "extent_offset m ?y < extent_len m"
    using extent_bound [OF m assms(5) in_chunkD(1) [OF assms(3)]] extent_bound [OF m assms(5) in_chunkD(1) [OF assms(4)]] by linarith+
  have q: "q - 1 < copies m" "q' - 1 < copies m" using assms(9-12) by simp_all
  from stripe_at_inj [OF assms(6,7) place_less [OF m q(1)] place_less [OF m q(2)] lt e]
  have "q - 1 = q' - 1 \<and> (?x = ?y \<or> has_parity m \<and> 0 < q - 1 \<and> row_of m ?x = row_of m ?y)"
    using chunk_places_distinct [OF m q] by blast
  moreover have "l = l'" if "?x = ?y"
    using that assms(3,4) by (auto simp: chunk_offset_def in_chunk_def ce_bytes_def word_unat_eq_iff)
  ultimately show ?thesis using assms(9,11) by fastforce
qed

lemma ex_extents: "extents_ok ex_raid1" "extents_ok ex_raid5" "extents_disjoint ex_raid5"
  unfolding extents_ok_def extents_disjoint_def ex_shapes
  by (simp_all add: ex_raid1_def ex_raid5_def less_Suc_eq numeral_3_eq_3)

theorem map_block_places_distinct_witness:
  "\<exists>r r'. map_block ex_mem ex_mapping READ 1253376 True 1 False = Some r \<and>
     map_block ex_mem ex_mapping READ 1253376 True 2 False = Some r' \<and> mr_multi r \<noteq> mr_multi r'"
proof -
  have mm: "mm_multi ex_mem" "(2::nat) \<le> copies ex_raid5" "(1::nat) \<le> copies ex_raid5" "ex_raid5 \<in> chunks ex_mapping"
    by (simp_all add: ex_mem_def ex_shapes ex_mapping_ok)
  obtain r r' where r: "map_block ex_mem ex_mapping READ 1253376 True (int 1) False = Some r"
      "map_block ex_mem ex_mapping READ 1253376 True (int 2) False = Some r'"
    using map_block_read [OF ex_mapping_ok(1) mm(4) ex_in_chunk(1) mm(1) mm(3) _ refl refl, of False]
      map_block_read [OF ex_mapping_ok(1) mm(4) ex_in_chunk(1) mm(1) mm(2) _ refl refl, of False] by blast
  have "mr_multi r \<noteq> mr_multi r'"
    using map_block_places_distinct [OF ex_mapping_ok(1) mm(4) ex_in_chunk(1,1) ex_shapes(8) ex_extents(2,3) mm(1) _ mm(3) _ mm(2) r] by auto
  with r show ?thesis by auto
qed

section \<open>Full stripes with parity\<close>

text \<open>
  The bubble sort of \<open>sort_parity_stripes\<close> ends with the stripes in the order of their addresses, each
  still with its address.
\<close>
theorem sort_parity_stripes_correct:
  "mset (sort_parity_stripes xs) = mset xs \<and> sorted (map fst (sort_parity_stripes xs))"
  by (rule sort_parity_stripes_sorted)

lemma column_names_list:
  assumes m: "chunk_ok m" and par: "has_parity m"
  shows "map (column_name m r) [0..<n_stripes m] = map (stripe_logical m) [r * data_cols m ..< (r + 1) * data_cols m] @
    [BTRFS_RAID5_P_STRIPE] @ (if profile m = BTRFS_RAID_RAID6 then [BTRFS_RAID6_Q_STRIPE] else [])"
proof -
  let ?n = "data_cols m"
  have "map (column_name m r) [0..<?n] = map (\<lambda>i. stripe_logical m (i + r * ?n)) [0..<?n]"
    by (simp add: column_name_def add.commute)
  also have "\<dots> = map (stripe_logical m) [r * ?n ..< (r + 1) * ?n]"
    using arg_cong [OF map_add_upt [of "r * ?n" ?n], of "map (stripe_logical m)"] by (simp add: comp_def)
  finally have d: "map (column_name m r) [0..<?n] = map (stripe_logical m) [r * ?n ..< (r + 1) * ?n]" .
  show ?thesis
  proof (cases "profile m = BTRFS_RAID_RAID6")
    case True
    then have "[0..<n_stripes m] = [0..<?n] @ [?n, ?n + 1]" using profile_okD(3) [OF m] by simp
    with True d show ?thesis by (simp add: column_name_def)
  next
    case False
    then have "[0..<n_stripes m] = [0..<?n] @ [?n]" using profile_okD(2) [OF m] par by simp
    with False d show ?thesis by (simp add: column_name_def)
  qed
qed

lemma stripe_in_chunk:
  assumes "chunk_ok m" and "k * 65536 < unat (ce_size (ml_ce m))"
  shows "in_chunk m (stripe_logical m k)" "chunk_offset m (stripe_logical m k) = k * 65536"
  using assms(2) by (simp_all add: in_chunk_def ce_bytes_def chunk_offset_def stripe_logical_less [OF assms])

definition stripe_plus :: "btrfs_bio_stripe \<Rightarrow> nat \<Rightarrow> btrfs_bio_stripe" where
  "stripe_plus s d = s\<lparr>bs_physical := bs_physical s + of_nat d\<rparr>"

text \<open>
  A write to a RAID-5 or RAID-6 chunk, or a read of a mirror beyond the data, is mapped to the whole row
  of stripes: first the data stripes by ascending logical address, then P, then Q. Each data stripe is
  where a plain read of its address is mapped to, and P and Q are where reads with mirror numbers 2 and
  3 of any address of the row look, at the offset of that address in its stripe.
\<close>
theorem full_stripe_map_correct:
  assumes "mapping_ok mt" and "m \<in> chunks mt" and "in_chunk m logical" and "has_parity m" and "whole_rows m"
    and "mm_multi mem" and "mm_raid_map mem" and "rw = WRITE \<or> rw = READ \<and> mirror > 1"
  shows "let n = data_cols m; r = row_of m (chunk_offset m logical) in
    \<exists>ss. map_block mem mt rw logical True mirror True =
        Some \<lparr>mr_ret = 0, mr_length = Some 65536, mr_type = Some (ml_type m),
          mr_multi = Some \<lparr>mb_num_stripes = int (n_stripes m), mb_stripes = ss\<rparr>,
          mr_raid_map = Some (map (stripe_logical m) [r * n ..< (r + 1) * n] @ [BTRFS_RAID5_P_STRIPE] @
            (if profile m = BTRFS_RAID_RAID6 then [BTRFS_RAID6_Q_STRIPE] else []))\<rparr> \<and>
      length ss = n_stripes m \<and>
      (\<forall>i<n. \<exists>d. map_block mem mt READ (stripe_logical m (r * n + i)) True 0 False = Some d \<and>
         mr_multi d = Some \<lparr>mb_num_stripes = 1, mb_stripes = [ss ! i]\<rparr>) \<and>
      (\<forall>l c. in_chunk m l \<and> row_of m (chunk_offset m l) = r \<and> 0 < c \<and> c < copies m \<longrightarrow>
         (\<exists>d. map_block mem mt READ l True (int c + 1) False = Some d \<and>
           mr_multi d = Some \<lparr>mb_num_stripes = 1,
             mb_stripes = [stripe_plus (ss ! (n + c - 1)) (chunk_offset m l mod 65536)]\<rparr>))"
proof -
  let ?n = "data_cols m" and ?r = "row_of m (chunk_offset m logical)"
  have m: "chunk_ok m" using chunks_ok assms(1,2) by blast
  have dvd: "?n * 65536 dvd unat (ce_size (ml_ce m))" using assms(4,5) by (auto simp: whole_rows_def)
  define ss where "ss = map (\<lambda>i. stripe_at m (column_extent m ?r i) (?r * 65536)) [0..<n_stripes m]"
  have len: "length ss = n_stripes m" by (simp add: ss_def)
  have data: "\<exists>d. map_block mem mt READ (stripe_logical m (?r * ?n + i)) True 0 False = Some d \<and>
         mr_multi d = Some \<lparr>mb_num_stripes = 1, mb_stripes = [ss ! i]\<rparr>" if i: "i < ?n" for i
  proof -
    let ?k = "?r * ?n + i"
    have "?k < (?r + 1) * ?n" using i by simp
    then have "?k * 65536 < (?r + 1) * ?n * 65536" by simp
    then have k: "?k * 65536 < unat (ce_size (ml_ce m))" using extent_rows(2) [OF m dvd in_chunkD(1) [OF assms(3)]] by simp
    have "?k div ?n = ?r" using i by simp
    with map_block_read [OF assms(1,2) stripe_in_chunk(1) [OF m k] assms(6), of 0 False] stripe_in_chunk(2) [OF m k]
      column_extent_place(1) [OF assms(4) i, of ?r] i chunk_okD(8) [OF m] assms(4)
    show ?thesis by (auto simp: mirror_copy_def ss_def)
  qed
  have parity: "\<exists>d. map_block mem mt READ l True (int c + 1) False = Some d \<and>
           mr_multi d = Some \<lparr>mb_num_stripes = 1, mb_stripes = [stripe_plus (ss ! (?n + c - 1)) (chunk_offset m l mod 65536)]\<rparr>"
    if l: "in_chunk m l" "row_of m (chunk_offset m l) = ?r" and c: "0 < c" "c < copies m" for l c
  proof -
    have j: "?n + c - 1 < n_stripes m" using c profile_okD(2,3) [OF m] assms(4) by (auto simp: copies_def)
    have "stripe_at m (place m (chunk_offset m l div 65536) c) (extent_offset m (chunk_offset m l)) =
        stripe_plus (ss ! (?n + c - 1)) (chunk_offset m l mod 65536)"
      using j column_extent_place(2) [OF assms(4) c(1), of "chunk_offset m l div 65536"]
      by (simp add: ss_def l(2) stripe_at_def stripe_plus_def)
    with map_block_read [OF assms(1,2) l(1) assms(6), of "c + 1" False] c show ?thesis
      by (simp add: mirror_copy_def add.commute)
  qed
  have "map_block mem mt rw logical True mirror True =
      Some \<lparr>mr_ret = 0, mr_length = Some 65536, mr_type = Some (ml_type m),
        mr_multi = Some \<lparr>mb_num_stripes = int (n_stripes m), mb_stripes = ss\<rparr>,
        mr_raid_map = Some (map (column_name m ?r) [0..<n_stripes m])\<rparr>"
    using map_block_full_stripe [OF assms(1-3,6,7,4,5,8) refl] by (simp only: ss_def)
  then show ?thesis
    unfolding Let_def column_names_list [OF m assms(4)] using data parity by (intro exI [of _ ss]) (simp add: len)
qed

theorem full_stripe_map_correct_witness:
  "\<exists>ss r. map_block ex_mem ex_mapping WRITE 1253376 True 0 True = Some r \<and>
     mr_raid_map r = Some [1179648, 1245184, BTRFS_RAID5_P_STRIPE] \<and>
     mr_multi r = Some \<lparr>mb_num_stripes = 3, mb_stripes = ss\<rparr> \<and> length ss = 3"
proof -
  have h: "ex_raid5 \<in> chunks ex_mapping" "has_parity ex_raid5" "mm_multi ex_mem" "mm_raid_map ex_mem"
    "WRITE = WRITE \<or> WRITE = READ \<and> (0 :: int) > 1"
    by (simp_all add: ex_mapping_ok ex_profiles ex_mem_def)
  have l: "map (stripe_logical ex_raid5) [2..<4] = [1179648, 1245184]"
    by (simp add: upt_rec stripe_logical_def ex_raid5_def ex_extent_def)
  show ?thesis
    using full_stripe_map_correct [OF ex_mapping_ok(1) h(1) ex_in_chunk(1) h(2) ex_shapes(8) h(3,4,5)] l
    by (auto simp: Let_def ex_in_chunk ex_shapes ex_profiles)
qed

section \<open>From devices to logical addresses\<close>

text \<open>
  C36. \<open>btrfs_rmap_block\<close> returns, without repetition, exactly the addresses of the stripes one of whose
  copies holds the byte at \<open>physical\<close> of the device: for RAID-5 and RAID-6 the start of the row, since
  the code does not undo the rotation, otherwise the start of the stripe. The third result is the
  length of what starts there.
\<close>
theorem rmap_block_correct:
  assumes "mapping_ok mt" and "m \<in> chunks mt" and "in_chunk m chunk_start" and "extents_ok m"
  shows "\<exists>buf. btrfs_rmap_block True devs mt chunk_start physical devid =
      Some (buf, int (if has_parity m then data_cols m * 65536 else 65536)) \<and> distinct buf \<and>
    set buf = {stripe_logical m (if has_parity m then k div data_cols m * data_cols m else k) |k c.
      stripe_covers devs m physical devid k c}"
  using rmap_block_ok [OF assms, of devs physical devid] unfolding rmap_len_def .

definition ex_devs :: "nat \<Rightarrow> btrfs_device" where
  "ex_devs d = \<lparr>dev_devid = of_nat d, dev_uuid = [], dev_fd = int d + 2, dev_writeable = True\<rparr>"

theorem rmap_block_correct_witness:
  "\<exists>buf. btrfs_rmap_block True ex_devs ex_mapping 2166784 4263936 2 = Some (buf, 65536) \<and> 2162688 \<in> set buf"
proof -
  have h: "ex_raid1 \<in> chunks ex_mapping" "\<not> has_parity ex_raid1" by (simp_all add: ex_mapping_ok ex_profiles)
  have "stripe_covers ex_devs ex_raid1 4263936 2 1 1"
    unfolding stripe_covers_def extent_hit_def Let_def ex_shapes place_def ex_profiles
    by (simp add: ex_raid1_def ex_devs_def)
  moreover have "stripe_logical ex_raid1 1 = 2162688" by (simp add: stripe_logical_def ex_raid1_def ex_extent_def)
  ultimately have "2162688 = stripe_logical ex_raid1 (if has_parity ex_raid1 then 1 div data_cols ex_raid1 * data_cols ex_raid1 else 1) \<and>
      stripe_covers ex_devs ex_raid1 4263936 2 1 1" using h(2) by (simp only: if_False)
  then have "2162688 \<in> {stripe_logical ex_raid1 (if has_parity ex_raid1 then k div data_cols ex_raid1 * data_cols ex_raid1 else k) |k c.
      stripe_covers ex_devs ex_raid1 4263936 2 k c}" by blast
  moreover obtain buf where "btrfs_rmap_block True ex_devs ex_mapping 2166784 4263936 2 =
      Some (buf, int (if has_parity ex_raid1 then data_cols ex_raid1 * 65536 else 65536))"
      "set buf = {stripe_logical ex_raid1 (if has_parity ex_raid1 then k div data_cols ex_raid1 * data_cols ex_raid1 else k) |k c.
      stripe_covers ex_devs ex_raid1 4263936 2 k c}"
    using rmap_block_correct [OF ex_mapping_ok(1) h(1) ex_in_chunk(2) ex_extents(1)] by blast
  ultimately show ?thesis using h(2) by (intro exI [of _ buf]) simp
qed

lemma row_span:
  fixes x n :: nat
  assumes "0 < n"
  shows "x div 65536 div n * n * 65536 \<le> x" "x < x div 65536 div n * n * 65536 + n * 65536"
proof -
  have e: "x div 65536 div n * n * 65536 = x div (n * 65536) * (n * 65536)"
    by (simp only: div_mult2_eq [symmetric] mult.assoc mult.commute [of 65536 n])
  show "x div 65536 div n * n * 65536 \<le> x" unfolding e by (rule div_times_less_eq_dividend)
  show "x < x div 65536 div n * n * 65536 + n * 65536"
    unfolding e using assms dividend_less_div_times [of "n * 65536" x] by (simp add: add.commute)
qed

text \<open>
  Mapping an address for a read of any copy and mapping the place back, on that device, finds the
  stripe again.
\<close>
theorem map_rmap_roundtrip:
  assumes "mapping_ok mt" and "m \<in> chunks mt" and "in_chunk m logical" and "extents_ok m" and "whole_rows m"
    and "mm_multi mem" and "q \<le> copies m"
  shows "\<exists>r s buf len. map_block mem mt READ logical True (int q) False = Some r \<and>
    mr_multi r = Some \<lparr>mb_num_stripes = 1, mb_stripes = [s]\<rparr> \<and>
    btrfs_rmap_block True devs mt logical (bs_physical s) (dev_devid (devs (bs_dev s))) = Some (buf, len) \<and>
    (\<exists>b\<in>set buf. unat b \<le> unat logical \<and> unat logical < unat b + nat len)"
proof -
  let ?x = "chunk_offset m logical" and ?n = "data_cols m"
  let ?k = "?x div 65536" and ?c = "mirror_copy m (chunk_offset m logical div 65536) q"
  let ?i = "place m ?k ?c"
  let ?s = "stripe_at m ?i (extent_offset m ?x)"
  have m: "chunk_ok m" using chunks_ok assms(1,2) by blast
  have i: "?i < n_stripes m" using place_less [OF m mirror_copy_less [OF m assms(7)]] .
  have lt: "extent_offset m ?x < extent_len m"
    using extent_bound [OF m assms(5) in_chunkD(1) [OF assms(3)]] by linarith
  let ?p = "unat (bs_physical (ml_stripes m ! ?i))"
  have e: "?p + extent_len m < 2 ^ 64" using assms(4) i by (simp add: extents_ok_def)
  have "bs_physical ?s = of_nat (?p + extent_offset m ?x)" by (simp add: stripe_at_def)
  then have u: "unat (bs_physical ?s) = ?p + extent_offset m ?x"
    using unat_of_nat_u64 [of "?p + extent_offset m ?x"] e lt by simp
  have cov: "stripe_covers devs m (bs_physical ?s) (dev_devid (devs (bs_dev ?s))) ?k ?c"
    using mirror_copy_less [OF m assms(7)] lt unfolding stripe_covers_def extent_hit_def Let_def u
    by (simp add: stripe_at_def)
  let ?b = "stripe_logical m (if has_parity m then ?k div ?n * ?n else ?k)"
  let ?j = "if has_parity m then ?k div ?n * ?n else ?k"
  obtain buf where buf: "btrfs_rmap_block True devs mt logical (bs_physical ?s) (dev_devid (devs (bs_dev ?s))) =
      Some (buf, int (rmap_len m))" "?b \<in> set buf"
    using rmap_block_ok [OF assms(1-4), of devs "bs_physical ?s" "dev_devid (devs (bs_dev ?s))"] cov by blast
  have j: "?j * 65536 \<le> ?x \<and> ?x < ?j * 65536 + rmap_len m"
    using row_span [OF chunk_okD(7) [OF m], of ?x] row_span [of 1 ?x] by (simp add: rmap_len_def)
  then have "unat ?b = unat (ce_start (ml_ce m)) + ?j * 65536"
    using stripe_logical_less [OF m, of ?j] in_chunkD(1) [OF assms(3)] by linarith
  moreover have "unat logical = unat (ce_start (ml_ce m)) + ?x"
    using assms(3) by (simp add: chunk_offset_def in_chunk_def ce_bytes_def)
  ultimately have b: "\<exists>b\<in>set buf. unat b \<le> unat logical \<and> unat logical < unat b + nat (int (rmap_len m))"
    using j buf(2) unfolding nat_int by (intro bexI [of _ ?b]) linarith+
  show ?thesis
    by (intro exI conjI) (rule map_block_read [OF assms(1-3,6,7) _ refl refl], simp, simp, rule buf(1), rule b)
qed

theorem map_rmap_roundtrip_witness:
  "\<exists>r s buf len. map_block ex_mem ex_mapping READ 1253376 True 2 False = Some r \<and>
    mr_multi r = Some \<lparr>mb_num_stripes = 1, mb_stripes = [s]\<rparr> \<and>
    btrfs_rmap_block True ex_devs ex_mapping 1253376 (bs_physical s) (dev_devid (ex_devs (bs_dev s))) = Some (buf, len)"
proof -
  have mm: "mm_multi ex_mem" "(2::nat) \<le> copies ex_raid5" "ex_raid5 \<in> chunks ex_mapping"
    by (simp_all add: ex_mem_def ex_shapes ex_mapping_ok)
  have "int 2 = 2" by simp
  with map_rmap_roundtrip [OF ex_mapping_ok(1) mm(3) ex_in_chunk(1) ex_extents(2) ex_shapes(8) mm(1,2), of ex_devs]
  show ?thesis by metis
qed

section \<open>Copies and block groups\<close>

text \<open>
  \<open>btrfs_num_copies\<close> is the number of mirror numbers that a read accepts: the attribute \<open>ncopies\<close> of the
  profile, or the number of stripes of a mirrored chunk, and 1 for an address that is not mapped.
\<close>
theorem num_copies_correct:
  assumes "mapping_ok mt"
  shows "(m \<in> chunks mt \<and> in_chunk m logical \<longrightarrow> btrfs_num_copies mt logical = int (copies m) \<and>
      (profile m \<notin> {BTRFS_RAID_RAID1, BTRFS_RAID_DUP} \<longrightarrow> btrfs_num_copies mt logical = ra_ncopies (btrfs_raid_array (profile m)))) \<and>
    (unat logical \<notin> cache_bytes (mt_cache mt) \<and> unat logical + 1 < 2 ^ 64 \<longrightarrow> btrfs_num_copies mt logical = 1)"
proof -
  have "btrfs_num_copies mt logical = 1" if free: "unat logical \<notin> cache_bytes (mt_cache mt)" "unat logical + 1 < 2 ^ 64"
  proof (cases "search_cache_extent (mt_cache mt) logical")
    case (Some p)
    have inv: "cache_inv (mt_cache mt)" using assms by (simp add: mapping_ok_def)
    obtain xs ys where s: "inorder (mt_cache mt) = xs @ ys" "cur_at (mt_cache mt) xs (Some p)"
      "\<forall>y\<in>set ys. unat logical < unat (ce_start y) + unat (ce_size y)"
      using search_cache_extent_spec [OF inv free(2)] Some by auto
    from s(2) have p: "fst p \<noteq> Null" "cur_tree p = mt_cache mt" "cur_before p = xs" by (simp_all add: cur_at_def)
    with inorder_cur [OF p(1)] s(1) have ys: "ys = cur_entry p # cur_after p" by simp
    have "unat logical \<notin> ce_bytes (cur_entry p)" using free(1) s(1) ys by (auto simp: cache_bytes_def)
    then have "ce_start (cur_entry p) > logical" using s(3) ys by (auto simp: ce_bytes_def word_less_nat_alt)
    with Some show ?thesis by (simp add: btrfs_num_copies_def Let_def)
  qed (simp add: btrfs_num_copies_def)
  moreover have "profile m \<notin> {BTRFS_RAID_RAID1, BTRFS_RAID_DUP} \<Longrightarrow> int (copies m) = ra_ncopies (btrfs_raid_array (profile m))"
    by (cases "profile m") (simp_all add: copies_def)
  ultimately show ?thesis using num_copies_chunk [OF assms] by auto
qed

theorem num_copies_correct_witness: "btrfs_num_copies ex_mapping 1253376 = 2"
proof -
  have "ex_raid5 \<in> chunks ex_mapping \<and> in_chunk ex_raid5 1253376" using ex_mapping_ok ex_in_chunk by simp
  with num_copies_correct [OF ex_mapping_ok(1), of ex_raid5 1253376] show ?thesis by (simp add: ex_shapes)
qed

text \<open>
  C37. \<open>btrfs_next_bg\<close> always returns: from 0 with the first block group that has one of the flags, from an
  address of a block group with the first such block group behind it, or with \<open>-ENOENT\<close>. The iteration from 0
  in \<open>btrfs_find_root_search\<close>, whatever is done with a group, thus comes to every block group with the flag
  once, in the order of the addresses, until one ends it, provided that none of them starts at 0. One that
  starts at 0 is returned for ever: unless the work on it ends the iteration, this never returns.
\<close>
theorem next_bg_correct:
  assumes "mapping_ok mt"
  shows "(\<forall>logical. logical = 0 \<or> (\<exists>m\<in>chunks mt. in_chunk m logical) \<longrightarrow> btrfs_next_bg mt logical ty = Some
      (case find (\<lambda>ce. has_flag (ml_type (mt_map mt ce)) ty \<and> (logical = 0 \<or> ce_start ce > logical)) (inorder (mt_cache mt)) of
         None \<Rightarrow> (- ENOENT, None)
       | Some ce \<Rightarrow> (0, Some (ce_start ce, ce_size ce)))) \<and>
    ((\<forall>ce\<in>set (inorder (mt_cache mt)). ce_start ce = 0 \<longrightarrow> \<not> has_flag (ml_type (mt_map mt ce)) ty) \<longrightarrow>
      (\<forall>scan (s :: 's). find_root_loop mt ty scan 0 s = visit scan (groups mt ty (inorder (mt_cache mt))) s)) \<and>
    (\<forall>ce\<in>set (inorder (mt_cache mt)). ce_start ce = 0 \<and> has_flag (ml_type (mt_map mt ce)) ty \<longrightarrow>
      (\<forall>scan. (\<forall>(s :: 's) r. scan (0, ce_size ce) s = Some r \<longrightarrow> fst r = 0) \<longrightarrow> (\<forall>s. find_root_loop mt ty scan 0 s = None)))"
proof -
  have "find P (filter Q xs) = find (\<lambda>x. P x \<and> Q x) xs" for P Q and xs :: "cache_extent list"
    by (induction xs) auto
  then have one: "btrfs_next_bg mt logical ty = Some
      (case find (\<lambda>ce. has_flag (ml_type (mt_map mt ce)) ty \<and> (logical = 0 \<or> ce_start ce > logical)) (inorder (mt_cache mt)) of
         None \<Rightarrow> (- ENOENT, None)
       | Some ce \<Rightarrow> (0, Some (ce_start ce, ce_size ce)))" if "logical = 0 \<or> (\<exists>m\<in>chunks mt. in_chunk m logical)" for logical
    using that by (simp add: next_bg_ok [OF assms] first_bg_def split: option.splits)
  show ?thesis
    by (intro conjI allI impI ballI one find_root_ok [OF assms] find_root_stuck [OF assms]) (assumption | blast)+
qed

text \<open>
  The mapping of the examples has no block group at 0: its groups are visited in turn. In the other one the iteration does
  not come to an end.
\<close>

definition ex_zero :: map_lookup where
  "ex_zero = ex_raid1\<lparr>ml_ce := ex_extent 0 131072\<rparr>"

definition ex_mapping_zero :: btrfs_mapping_tree where
  "ex_mapping_zero = \<lparr>mt_cache = RbNode RB_BLACK Null (ml_ce ex_zero) Null, mt_map = (\<lambda>_. ex_zero)\<rparr>"

lemma ex_mapping_zero_ok: "mapping_ok ex_mapping_zero"
proof -
  have "chunk_ok ex_zero" using ex_chunks_ok(2)
    by (simp add: ex_zero_def chunk_ok_def ex_raid1_def ex_extent_def ce_ok_def)
  then show ?thesis using chunk_okD(6) [of ex_zero]
    by (simp add: mapping_ok_def ex_mapping_zero_def index_inv_def is_rbt_def)
qed

definition ex_scan :: "u64 \<times> u64 \<Rightarrow> u64 list \<Rightarrow> (int \<times> u64 list) option" where
  "ex_scan g visited = Some (0, visited @ [fst g])"

theorem next_bg_correct_witness:
  "btrfs_next_bg ex_mapping 1048576 BLOCK_GROUP_METADATA = Some (0, Some (2097152, 131072)) \<and>
   find_root_loop ex_mapping (BLOCK_GROUP_DATA OR BLOCK_GROUP_METADATA) ex_scan 0 [] = Some (0, [1048576, 2097152]) \<and>
   find_root_loop ex_mapping_zero BLOCK_GROUP_METADATA ex_scan 0 [] = None"
proof -
  have "in_chunk ex_raid5 1048576" by (simp add: in_chunk_def ce_bytes_def ex_raid5_def ex_extent_def)
  then have h: "(1048576 :: u64) = 0 \<or> (\<exists>m\<in>chunks ex_mapping. in_chunk m 1048576)" using ex_mapping_ok by blast
  have one: "btrfs_next_bg ex_mapping 1048576 BLOCK_GROUP_METADATA = Some (0, Some (2097152, 131072))"
    using next_bg_correct [OF ex_mapping_ok(1), of BLOCK_GROUP_METADATA, THEN conjunct1, rule_format, OF h]
    by (simp add: ex_mapping_def ex_raid5_def ex_raid1_def ex_extent_def has_flag_def block_group_defs)
  have g: "groups ex_mapping (BLOCK_GROUP_DATA OR BLOCK_GROUP_METADATA) (inorder (mt_cache ex_mapping)) =
      [(1048576, 262144), (2097152, 131072)]"
    by (simp add: ex_mapping_def ex_raid5_def ex_raid1_def ex_extent_def has_flag_def block_group_defs groups_def)
  have "\<forall>ce\<in>set (inorder (mt_cache ex_mapping)). ce_start ce \<noteq> 0" by (simp add: ex_mapping_def ex_raid5_def ex_raid1_def ex_extent_def)
  then have "find_root_loop ex_mapping (BLOCK_GROUP_DATA OR BLOCK_GROUP_METADATA) ex_scan 0 [] =
      visit ex_scan [(1048576, 262144), (2097152, 131072)] []"
    using next_bg_correct [where ?'s = "u64 list", OF ex_mapping_ok(1), of "BLOCK_GROUP_DATA OR BLOCK_GROUP_METADATA", THEN conjunct2, THEN conjunct1] g
    by simp
  then have "find_root_loop ex_mapping (BLOCK_GROUP_DATA OR BLOCK_GROUP_METADATA) ex_scan 0 [] = Some (0, [1048576, 2097152])"
    by (simp add: ex_scan_def)
  moreover have "find_root_loop ex_mapping_zero BLOCK_GROUP_METADATA ex_scan 0 [] = None"
    using next_bg_correct [where ?'s = "u64 list", OF ex_mapping_zero_ok, of BLOCK_GROUP_METADATA, THEN conjunct2, THEN conjunct2]
    by (simp add: ex_mapping_zero_def ex_zero_def ex_raid1_def ex_extent_def has_flag_def block_group_defs ex_scan_def)
  ultimately show ?thesis using one by blast
qed

section \<open>Chunk items\<close>

text \<open>
  C35. A chunk item that \<open>btrfs_check_chunk_valid\<close> accepts, of at most 64 KiB, gives a chunk on which the mapping
  is defined: one profile, a number of stripes that the profile allows, no overflow in the products of
  the mapping. What the check leaves open is that the chunk ends before the end of the address space.
\<close>
theorem check_chunk_valid_sound:
  assumes "btrfs_check_chunk_valid sectorsize chunk slot item_size logical = Some 0" and "slot = -1 \<or> 0 \<le> slot"
    and "item_size \<le> 65536" and "unat logical + unat (ck_length chunk) < 2 ^ 64" and "length ss = unat (ck_num_stripes chunk)"
  shows "chunk_ok (new_map chunk logical ss)"
  by (rule check_chunk_sound [OF assms])

definition ex_chunk :: "u16 \<Rightarrow> btrfs_chunk" where
  "ex_chunk num = \<lparr>ck_length = 131072, ck_owner = 2, ck_stripe_len = 65536, ck_type = 9, ck_io_align = 65536,
     ck_io_width = 65536, ck_sector_size = 4096, ck_num_stripes = num, ck_sub_stripes = 1,
     ck_stripes = [\<lparr>st_devid = 1, st_offset = 8388608, st_dev_uuid = []\<rparr>, \<lparr>st_devid = 7, st_offset = 8388608, st_dev_uuid = []\<rparr>]\<rparr>"

lemma ex_chunk_valid: "btrfs_check_chunk_valid 4096 (ex_chunk 2) 0 112 4194304 = Some 0"
  by (simp add: btrfs_check_chunk_valid_def ex_chunk_def Let_def is_aligned_def BTRFS_STRIPE_LEN_def has_flag_def
      block_group_defs is_power_of_2_def btrfs_chunk_item_size_def)

theorem check_chunk_valid_sound_witness:
  "chunk_ok (new_map (ex_chunk 2) 4194304
     [\<lparr>bs_dev = 1, bs_physical = 8388608\<rparr>, \<lparr>bs_dev = 2, bs_physical = 8388608\<rparr>])"
  using check_chunk_valid_sound [OF ex_chunk_valid] by (simp add: ex_chunk_def)

text \<open>
  The check does not get to refuse an item without stripes: \<open>btrfs_chunk_item_size\<close>, which it calls first,
  has a \<open>BUG_ON\<close> for it. An item whose other fields are accepted with some other number of stripes
  aborts the program when that number is 0.
\<close>
theorem check_chunk_valid_zero_stripes:
  assumes "btrfs_check_chunk_valid sectorsize chunk slot item_size logical = Some 0"
  shows "btrfs_check_chunk_valid sectorsize (chunk\<lparr>ck_num_stripes := 0\<rparr>) slot item_size logical = None"
  using assms
  by (auto simp: btrfs_check_chunk_valid_def Let_def btrfs_chunk_item_size_def split: if_splits)

theorem check_chunk_valid_zero_stripes_witness:
  "btrfs_check_chunk_valid 4096 ((ex_chunk 2)\<lparr>ck_num_stripes := 0\<rparr>) 0 112 4194304 = None"
  by (rule check_chunk_valid_zero_stripes [OF ex_chunk_valid])

text \<open>
  C34. Reading an accepted item whose range is free adds exactly its chunk to the mapping tree and keeps the
  tree good; every stripe has the offset of the item and a device with its number, which is allocated
  when it is not known.
\<close>
theorem read_one_chunk_correct:
  assumes "mapping_ok (vi_mapping vi)" and "btrfs_check_chunk_valid (vi_sectorsize vi) chunk slot item_size logical = Some 0"
    and "slot = -1 \<or> 0 \<le> slot" and "item_size \<le> 65536" and "unat logical + unat (ck_length chunk) < 2 ^ 64"
    and "range_bytes logical (ck_length chunk) \<inter> cache_bytes (mt_cache (vi_mapping vi)) = {}"
    and "vi_fs_devices vi \<noteq> []" and "fresh_devices kzalloc [0..<unat (ck_num_stripes chunk)] vi"
    and "length (ck_stripes chunk) = unat (ck_num_stripes chunk)"
  shows "\<exists>ss vi'. read_one_chunk True kzalloc vi logical chunk slot item_size = Some (0, vi') \<and> mapping_ok (vi_mapping vi') \<and>
    chunks (vi_mapping vi') = insert (new_map chunk logical ss) (chunks (vi_mapping vi)) \<and>
    list_all2 (stripe_read vi') (ck_stripes chunk) ss"
  by (rule read_one_chunk_ok [OF assms])

definition ex_volume :: volume_info where
  "ex_volume = \<lparr>vi_devs = ex_devs, vi_fs_devices = [\<lparr>fd_fsid = [], fd_devices = [1, 2, 3]\<rparr>],
     vi_ignore_fsid_mismatch = False, vi_is_chunk_recover = False, vi_on_restoring = False, vi_sectorsize = 4096,
     vi_nodesize = 16384, vi_mapping = ex_mapping\<rparr>"

lemma ex_volume_bytes: "cache_bytes (mt_cache (vi_mapping ex_volume)) = {1048576..<1310720} \<union> {2097152..<2228224}"
  by (auto simp: ex_volume_def ex_mapping_def cache_bytes_def ce_bytes_def ex_raid5_def ex_raid1_def ex_extent_def)

lemma ex_volume_ok: "mapping_ok (vi_mapping ex_volume)" "vi_fs_devices ex_volume \<noteq> []"
  "btrfs_check_chunk_valid (vi_sectorsize ex_volume) (ex_chunk 2) 0 112 4194304 = Some 0"
  using ex_mapping_ok ex_chunk_valid by (simp_all add: ex_volume_def)

theorem read_one_chunk_correct_witness:
  "\<exists>ss vi'. read_one_chunk True (\<lambda>i. Some (10 + i)) ex_volume 4194304 (ex_chunk 2) 0 112 = Some (0, vi') \<and>
     chunks (vi_mapping vi') = {new_map (ex_chunk 2) 4194304 ss, ex_raid5, ex_raid1}"
proof -
  have len: "unat (4194304 :: u64) + unat (ck_length (ex_chunk 2)) < 2 ^ 64"
      "range_bytes 4194304 (ck_length (ex_chunk 2)) \<inter> cache_bytes (mt_cache (vi_mapping ex_volume)) = {}"
      "length (ck_stripes (ex_chunk 2)) = unat (ck_num_stripes (ex_chunk 2))"
    by (auto simp: ex_chunk_def ex_volume_bytes range_bytes_def)
  have fresh: "fresh_devices (\<lambda>i. Some (10 + i)) [0..<unat (ck_num_stripes (ex_chunk 2))] ex_volume"
    by (auto simp: fresh_devices_def known_devices_def ex_volume_def ex_chunk_def inj_on_def)
  have "chunks (vi_mapping ex_volume) = {ex_raid5, ex_raid1}" using ex_mapping_ok by (simp add: ex_volume_def)
  with read_one_chunk_correct [OF ex_volume_ok(1,3) _ _ len(1,2) ex_volume_ok(2) fresh len(3)] show ?thesis by auto
qed

text \<open>
  An accepted item that starts outside of all chunks but overlaps one makes the program abort: the
  result of the insertion goes to a \<open>BUG_ON\<close>.
\<close>
theorem read_one_chunk_overlapping:
  assumes "mapping_ok (vi_mapping vi)" and "btrfs_check_chunk_valid (vi_sectorsize vi) chunk slot item_size logical = Some 0"
    and "slot = -1 \<or> 0 \<le> slot" and "item_size \<le> 65536" and "unat logical + unat (ck_length chunk) < 2 ^ 64"
    and "range_bytes logical (ck_length chunk) \<inter> cache_bytes (mt_cache (vi_mapping vi)) \<noteq> {}"
    and "unat logical \<notin> cache_bytes (mt_cache (vi_mapping vi))"
  shows "read_one_chunk True kzalloc vi logical chunk slot item_size = None"
  by (rule read_one_chunk_overlap [OF assms])

theorem read_one_chunk_overlapping_witness:
  "read_one_chunk True (\<lambda>i. Some (10 + i)) ex_volume 2031616 (ex_chunk 2) 0 112 = None"
proof -
  have "btrfs_check_chunk_valid (vi_sectorsize ex_volume) (ex_chunk 2) 0 112 2031616 = Some 0"
    by (simp add: btrfs_check_chunk_valid_def ex_volume_def ex_chunk_def Let_def is_aligned_def BTRFS_STRIPE_LEN_def has_flag_def
      block_group_defs is_power_of_2_def btrfs_chunk_item_size_def)
  moreover have "unat (2031616 :: u64) + unat (ck_length (ex_chunk 2)) < 2 ^ 64"
      "range_bytes 2031616 (ck_length (ex_chunk 2)) \<inter> cache_bytes (mt_cache (vi_mapping ex_volume)) \<noteq> {}"
      "unat (2031616 :: u64) \<notin> cache_bytes (mt_cache (vi_mapping ex_volume))"
    by (auto simp: ex_chunk_def ex_volume_bytes range_bytes_def disjoint_iff intro: exI [of _ 2097152])
  ultimately show ?thesis using read_one_chunk_overlapping [OF ex_volume_ok(1)] by simp
qed

text \<open>
  The three computations of the length of a device extent agree with the layout, and with the size that
  an allocation with extents of that length gives to the chunk.
\<close>
theorem stripe_lengths_agree:
  assumes "chunk_ok (new_map chunk logical ss)" and "unat (ck_length chunk) < 2 ^ 63"
    and "chunk_bytes_by_type (ck_type chunk) (of_nat sz) (uint (ck_num_stripes chunk)) (uint (ck_sub_stripes chunk)) = Some (ck_length chunk)"
    and "sz * data_cols (new_map chunk logical ss) < 2 ^ 64"
  shows "btrfs_stripe_length chunk = Some (of_nat sz) \<and>
    calc_stripe_length (ck_type chunk) (ck_length chunk) (uint (ck_num_stripes chunk)) = Some (of_nat sz) \<and>
    extent_len (new_map chunk logical ss) = sz"
proof -
  let ?m = "new_map chunk logical ss"
  have f: "ml_type ?m = ck_type chunk" "ce_size (ml_ce ?m) = ck_length chunk" "ml_num_stripes ?m = uint (ck_num_stripes chunk)"
    "ml_sub_stripes ?m = uint (ck_sub_stripes chunk)" by (simp_all add: new_map_def)
  have "of_nat (sz * data_cols ?m) = ck_length chunk"
    using chunk_bytes_ok [OF assms(1,4)] assms(3) unfolding f by simp
  then have "unat (ck_length chunk) = sz * data_cols ?m" using unat_of_nat_u64 [OF assms(4)] by metis
  then have e: "extent_len ?m = sz" using chunk_okD(7) [OF assms(1)] by (simp add: extent_len_def f)
  have "unat (ce_size (ml_ce ?m)) < 2 ^ 63" using assms(2) by (simp add: f)
  with e show ?thesis
    using stripe_length_ok [OF assms(1)] calc_stripe_length_ok [OF assms(1)] unfolding f by simp
qed

theorem stripe_lengths_agree_witness:
  "btrfs_stripe_length (ex_chunk 2) = Some 65536"
proof -
  let ?ss = "[\<lparr>bs_dev = 1, bs_physical = 8388608\<rparr>, \<lparr>bs_dev = 2, bs_physical = 8388608\<rparr>]"
  let ?m = "new_map (ex_chunk 2) 4194304 ?ss"
  have m: "chunk_ok ?m" using check_chunk_sound [OF ex_chunk_valid] by (simp add: ex_chunk_def)
  have p: "profile ?m = BTRFS_RAID_RAID0"
    by (simp add: new_map_def ex_chunk_def btrfs_bg_flags_to_raid_index_def has_flag_def block_group_defs)
  have "65536 * data_cols ?m < 2 ^ 64" unfolding data_cols_def p by (simp add: new_map_def)
  moreover have "chunk_bytes_by_type (ck_type (ex_chunk 2)) (of_nat 65536) (uint (ck_num_stripes (ex_chunk 2)))
      (uint (ck_sub_stripes (ex_chunk 2))) = Some (ck_length (ex_chunk 2))"
    by (simp add: chunk_bytes_by_type_def ex_chunk_def has_flag_def block_group_defs u64_of_int_def)
  moreover have "unat (ck_length (ex_chunk 2)) < 2 ^ 63" by (simp add: ex_chunk_def)
  ultimately show ?thesis using stripe_lengths_agree [OF m, of 65536] by simp
qed

end
