(* ===== verification/RaidProps.thy ===== *)
theory RaidProps
  imports Raid56
begin

unbundle bit_operations_syntax

text \<open>
  The properties of the parity code: the tables of the field, the computation of P and Q, and which
  losses of stripes \<open>raid56_recov\<close> repairs.
\<close>

lemma stripe_len_8: "8 dvd BTRFS_STRIPE_LEN"
  by (simp add: BTRFS_STRIPE_LEN_def)

lemma xor_eq_left: "a XOR b = a \<longleftrightarrow> b = (0 :: u8)"
proof
  assume "a XOR b = a"
  then have "a XOR (a XOR b) = a XOR a" by simp
  then show "b = 0" by (simp flip: xor.assoc)
qed simp

text \<open>The stripes that the arguments \<open>dest1\<close> and \<open>dest2\<close> name as lost.\<close>

definition lost :: "int \<Rightarrow> int \<Rightarrow> nat set" where
  "lost dest1 dest2 = {j. int j = dest1 \<or> int j = dest2}"

lemma lost_simps [simp]: "lost d (-1) \<subseteq> {nat d}" "lost (-1) d \<subseteq> {nat d}"
  by (auto simp: lost_def)

lemma q_col_sum: "q_col ds = p_col (map (\<lambda>j. gfmul (gf_power 2 j) (ds ! j)) [0..<length ds])"
proof (induction ds)
  case (Cons d ds)
  have dist: "gfmul 2 (p_col xs) = p_col (map (gfmul 2) xs)" for xs
    by (induction xs) (simp_all add: gf_distrib)
  have "map (\<lambda>j. gfmul (gf_power 2 j) ((d # ds) ! j)) [0..<length (d # ds)] =
      d # map (\<lambda>j. gfmul 2 (gfmul (gf_power 2 j) (ds ! j))) [0..<length ds]"
    by (simp add: map_upt_Suc gfmul_assoc del: upt_Suc)
  then show ?case by (simp add: Cons dist comp_def)
qed simp

lemma stripes_update:
  "stripes_ok mem ptrs n len \<Longrightarrow> j < n \<Longrightarrow> k < n \<Longrightarrow> (mem(ptrs ! k := b)) (ptrs ! j) = (if j = k then b else mem (ptrs ! j))"
  by (simp add: stripes_nth_eq)

lemma restored_update:
  assumes "stripes_ok mem ptrs n len" and "damaged mem mem' ptrs {d}" and "d < n" and "b = mem (ptrs ! d)"
  shows "restored mem (mem'(ptrs ! d := b)) ptrs"
  using assms stripes_damaged [OF assms(1,2)]
  by (auto simp: restored_def damaged_def stripes_update stripes_ok_def nth_eq_iff_index_eq)

text \<open>One stripe that is the sum of the others, among the first \<open>m\<close>.\<close>

lemma raid5_restores:
  assumes s: "stripes_ok mem ptrs n BTRFS_STRIPE_LEN" and m: "2 \<le> m" "m \<le> n" "d < m"
    and P: "mem (ptrs ! (m - 1)) = p_stripe mem ptrs (m - 1) BTRFS_STRIPE_LEN"
    and dmg: "damaged mem mem' ptrs {d}"
  shows "\<exists>mem''. raid5_gen_result addr mem' (int m) BTRFS_STRIPE_LEN (int d) ptrs = Some (0, mem'') \<and>
    restored mem mem'' ptrs"
proof -
  obtain k where k: "m = Suc k" "0 < k" using m(1) by (cases m) auto
  have zero: "p_col (map (\<lambda>j. mem (ptrs ! j) ! i) [0..<m]) = 0" if "i < BTRFS_STRIPE_LEN" for i
    using that P k by (simp add: p_col_append) (simp add: col_def)
  have others: "map (\<lambda>j. mem' (ptrs ! j) ! i) (filter (\<lambda>j. j \<noteq> d) [0..<m]) =
      map (\<lambda>j. mem (ptrs ! j) ! i) (filter (\<lambda>j. j \<noteq> d) [0..<m])" for i
    using dmg m(2) s by (intro map_cong) (auto simp: damaged_def stripes_ok_def)
  have "p_col (map (\<lambda>j. mem' (ptrs ! j) ! i) (filter (\<lambda>j. j \<noteq> d) [0..<m])) = mem (ptrs ! d) ! i"
    if "i < BTRFS_STRIPE_LEN" for i
    unfolding others using p_col_remove [OF m(3), of "\<lambda>j. mem (ptrs ! j) ! i"] zero [OF that] by (simp add: xor_eq_0)
  then have "map (\<lambda>i. p_col (map (\<lambda>j. mem' (ptrs ! j) ! i) (filter (\<lambda>j. j \<noteq> d) [0..<m]))) [0..<BTRFS_STRIPE_LEN] =
      mem (ptrs ! d)"
    using s m by (intro nth_equalityI) (auto simp: stripes_ok_def)
  then show ?thesis
    using raid5_gen_result_ok [OF stripes_damaged [OF s dmg] m, of addr] restored_update [OF s dmg] m by auto
qed

lemma syndrome_restores:
  assumes ok: "raid6_ok mem ptrs n len" and "8 dvd len" and dmg: "damaged mem mem' ptrs {n - 2, n - 1}"
  shows "\<exists>mem''. raid6_gen_syndrome mem' (int n) len ptrs = Some mem'' \<and> restored mem mem'' ptrs"
proof -
  note s = raid6_okD [OF ok] and s' = stripes_damaged [OF raid6_okD(1) [OF ok] dmg]
  have data: "mem' (ptrs ! j) = mem (ptrs ! j)" if "j < n - 2" for j
    using that dmg s(3) by (auto simp: damaged_def)
  then have "p_stripe mem' ptrs (n - 2) len = p_stripe mem ptrs (n - 2) len"
    "q_stripe mem' ptrs (n - 2) len = q_stripe mem ptrs (n - 2) len"
    using stripe_cong [of "n - 2" mem' ptrs mem ptrs len] by auto
  then have "raid6_gen_syndrome mem' (int n) len ptrs =
      Some (mem'(ptrs ! (n - 2) := mem (ptrs ! (n - 2)), ptrs ! (n - 1) := mem (ptrs ! (n - 1))))"
    using gen_syndrome_ok [OF s' s(2) assms(2)] s(4,5) by simp
  moreover have "restored mem (mem'(ptrs ! (n - 2) := mem (ptrs ! (n - 2)), ptrs ! (n - 1) := mem (ptrs ! (n - 1)))) ptrs"
    unfolding restored_def
  proof (intro allI impI)
    fix j assume "j < length ptrs"
    then show "(mem'(ptrs ! (n - 2) := mem (ptrs ! (n - 2)), ptrs ! (n - 1) := mem (ptrs ! (n - 1)))) (ptrs ! j) = mem (ptrs ! j)"
      using data [of j] s(3) by (cases "j < n - 2 \<or> j = n - 2 \<or> j = n - 1") auto
  qed
  ultimately show ?thesis by blast
qed


lemma damaged_mono: "damaged mem mem' ptrs D \<Longrightarrow> D \<inter> {..<length ptrs} \<subseteq> E \<Longrightarrow> damaged mem mem' ptrs E"
  by (auto simp: damaged_def)

text \<open>
  The tables of powers, inverses and inverses of \<open>2^i + 1\<close> in \<open>tables.c\<close> hold what \<open>mktables.c\<close>
  computes, and the entries that the recovery uses are powers of 2 and multiplicative inverses of
  nonzero elements.
\<close>
theorem raid6_tables_correct:
  "raid6_gfexp = exptbl \<and> raid6_gfinv = invtbl \<and> raid6_gfexi = exitbl \<and>
   (\<forall>i. i < 255 \<longrightarrow> raid6_gfexp ! i = gf_power 2 i) \<and>
   (\<forall>a. a \<noteq> 0 \<longrightarrow> gfmul a (raid6_gfinv ! unat a) = 1) \<and>
   (\<forall>i. 0 < i \<and> i < 255 \<longrightarrow> gfmul (raid6_gfexp ! i XOR 1) (raid6_gfexi ! i) = 1)"
proof (intro conjI allI impI)
  fix i :: nat assume "0 < i \<and> i < 255"
  then have "gf_power 2 i XOR 1 \<noteq> 0" using gf_power_distinct [of 0 i] by (simp add: xor.commute)
  then show "gfmul (raid6_gfexp ! i XOR 1) (raid6_gfexi ! i) = 1"
    using \<open>0 < i \<and> i < 255\<close> by (simp add: gfexp_power gfexi_inv gf_inv_mult)
qed (rule gfexp_exptbl gfinv_invtbl gfexi_exitbl gfexp_power gf_inv_mult [unfolded gf_inv_def]; assumption?)+

theorem raid6_tables_correct_witness:
  "raid6_gfexp ! 8 = gf_power 2 8 \<and> gfmul 3 (raid6_gfinv ! unat (3 :: u8)) = 1"
proof -
  have "(8 :: nat) < 255" "(3 :: u8) \<noteq> 0" by simp_all
  then show ?thesis using raid6_tables_correct by blast
qed

text \<open>
  \<open>raid6_gen_syndrome\<close>, which works on eight bytes at a time, writes over the last two stripes the
  sum of the data stripes and the sum of their products with the powers of 2, byte by byte, and
  changes nothing else.
\<close>
theorem raid6_gen_syndrome_correct:
  assumes "stripes_ok mem ptrs n len" and "3 \<le> n" and "8 dvd len"
  shows "\<exists>mem'. raid6_gen_syndrome mem (int n) len ptrs = Some mem' \<and>
    (\<forall>x. x \<noteq> ptrs ! (n - 2) \<and> x \<noteq> ptrs ! (n - 1) \<longrightarrow> mem' x = mem x) \<and>
    mem' (ptrs ! (n - 2)) = map (\<lambda>i. p_col (map (\<lambda>j. mem (ptrs ! j) ! i) [0..<n - 2])) [0..<len] \<and>
    mem' (ptrs ! (n - 1)) = map (\<lambda>i. p_col (map (\<lambda>j. gfmul (gf_power 2 j) (mem (ptrs ! j) ! i)) [0..<n - 2])) [0..<len]"
proof -
  have "ptrs ! (n - 2) \<noteq> ptrs ! (n - 1)"
    using assms(2) by (subst stripes_nth_eq [OF assms(1)]) auto
  moreover have "p_stripe mem ptrs (n - 2) len = map (\<lambda>i. p_col (map (\<lambda>j. mem (ptrs ! j) ! i) [0..<n - 2])) [0..<len]"
    by (simp add: p_stripe_def col_def)
  moreover have "q_stripe mem ptrs (n - 2) len =
      map (\<lambda>i. p_col (map (\<lambda>j. gfmul (gf_power 2 j) (mem (ptrs ! j) ! i)) [0..<n - 2])) [0..<len]"
    by (auto simp: q_stripe_def q_col_sum intro!: arg_cong [where f = p_col])
  ultimately show ?thesis using gen_syndrome_ok [OF assms] by simp
qed

definition ex_stripes :: store where
  "ex_stripes = (\<lambda>_. replicate 16 7)"

theorem raid6_gen_syndrome_correct_witness:
  "\<exists>mem'. raid6_gen_syndrome ex_stripes 4 16 [0, 1, 2, 3] = Some mem' \<and> mem' 0 = ex_stripes 0 \<and>
     mem' 2 = map (\<lambda>i. p_col (map (\<lambda>j. ex_stripes ([0, 1, 2, 3] ! j) ! i) [0..<2])) [0..<16]"
proof -
  have "stripes_ok ex_stripes [0, 1, 2, 3] 4 16" by (simp add: stripes_ok_def ex_stripes_def)
  from raid6_gen_syndrome_correct [OF this] show ?thesis by auto
qed

lemma raid5_recov_ok:
  assumes "raid5_ok mem ptrs n BTRFS_STRIPE_LEN" and "damaged mem mem' ptrs (lost dest1 dest2)"
    and "profile AND BTRFS_BLOCK_GROUP_RAID5 \<noteq> 0" and "dest1 \<in> {-1..<int n}" and "dest2 \<in> {-1..<int n}"
  shows "if dest1 = -1 \<or> dest2 = -1
    then \<exists>mem''. raid56_recov addr calloc1 calloc2 mem' (int n) BTRFS_STRIPE_LEN profile dest1 dest2 ptrs = Some (0, mem'') \<and>
      restored mem mem'' ptrs
    else raid56_recov addr calloc1 calloc2 mem' (int n) BTRFS_STRIPE_LEN profile dest1 dest2 ptrs = Some (1, mem')"
proof -
  have n: "2 \<le> n" "length ptrs = n" "stripes_ok mem ptrs n BTRFS_STRIPE_LEN"
      "mem (ptrs ! (n - 1)) = p_stripe mem ptrs (n - 1) BTRFS_STRIPE_LEN"
    using assms(1) by (auto simp: raid5_ok_def stripes_ok_def)
  have one: "\<exists>mem''. raid5_gen_result addr mem' (int n) BTRFS_STRIPE_LEN d ptrs = Some (0, mem'') \<and> restored mem mem'' ptrs"
    if "d \<noteq> -1" "\<not> d < -1" "d < int n" "lost dest1 dest2 \<subseteq> {nat d}" for d
    using that n raid5_restores [OF n(3) n(1) order_refl, of "nat d" mem' addr] damaged_mono [OF assms(2), of "{nat d}"]
    by (auto simp: nat_less_iff)
  show ?thesis
  proof (cases "dest1 = -1 \<and> dest2 = -1")
    case True
    then have "restored mem mem' ptrs" using assms(2) by (auto simp: restored_def damaged_def lost_def)
    then show ?thesis using True assms(3) n by (simp add: raid56_recov_def)
  next
    case False
    then show ?thesis
      using one [of dest1] one [of dest2] assms(3-5) n by (auto simp: raid56_recov_def Let_def)
  qed
qed

text \<open>
  RAID-5: with one stripe lost, whatever it holds, \<open>raid56_recov\<close> restores all stripes; with two
  lost it returns 1 and changes nothing.
\<close>
theorem raid5_recov_correct:
  assumes "raid5_ok mem ptrs n BTRFS_STRIPE_LEN" and "damaged mem mem' ptrs (lost dest1 dest2)"
    and "profile AND BTRFS_BLOCK_GROUP_RAID5 \<noteq> 0" and "dest1 \<in> {-1..<int n}" and "dest2 \<in> {-1..<int n}"
  shows "if dest1 = -1 \<or> dest2 = -1
    then \<exists>mem''. raid56_recov addr calloc1 calloc2 mem' (int n) BTRFS_STRIPE_LEN profile dest1 dest2 ptrs = Some (0, mem'') \<and>
      restored mem mem'' ptrs
    else raid56_recov addr calloc1 calloc2 mem' (int n) BTRFS_STRIPE_LEN profile dest1 dest2 ptrs = Some (1, mem')"
  using assms by (rule raid5_recov_ok)


definition zero_stripes :: store where
  "zero_stripes = (\<lambda>_. replicate BTRFS_STRIPE_LEN 0)"

lemma zero_cols:
  "p_col (replicate k 0) = 0" "q_col (replicate k 0) = 0"
  by (induction k) simp_all

lemma zero_stripes_ok:
  assumes "distinct ptrs" and "length ptrs = n"
  shows "stripes_ok zero_stripes ptrs n BTRFS_STRIPE_LEN"
    "p_stripe zero_stripes ptrs k BTRFS_STRIPE_LEN = replicate BTRFS_STRIPE_LEN 0"
    "q_stripe zero_stripes ptrs k BTRFS_STRIPE_LEN = replicate BTRFS_STRIPE_LEN 0"
proof -
  have "col zero_stripes ptrs k i = replicate k 0" if "i < BTRFS_STRIPE_LEN" for i
    using that by (intro nth_equalityI) (simp_all add: col_def zero_stripes_def)
  then show "p_stripe zero_stripes ptrs k BTRFS_STRIPE_LEN = replicate BTRFS_STRIPE_LEN 0"
    "q_stripe zero_stripes ptrs k BTRFS_STRIPE_LEN = replicate BTRFS_STRIPE_LEN 0"
    by (auto intro!: nth_equalityI simp: zero_cols zero_stripes_def)
  show "stripes_ok zero_stripes ptrs n BTRFS_STRIPE_LEN"
    using assms by (simp add: stripes_ok_def zero_stripes_def)
qed

lemma zero_stripes_raid:
  "raid5_ok zero_stripes [0, 1, 2] 3 BTRFS_STRIPE_LEN"
  "raid6_ok zero_stripes [0, 1, 2, 3] 4 BTRFS_STRIPE_LEN"
  using zero_stripes_ok [of "[0, 1, 2]" 3] zero_stripes_ok [of "[0, 1, 2, 3]" 4]
  by (simp_all add: raid5_ok_def raid6_ok_def, simp_all add: zero_stripes_def)

definition noise :: "u8 list" where
  "noise = replicate BTRFS_STRIPE_LEN 9"

lemma noise_length [simp]: "length noise = BTRFS_STRIPE_LEN" "length (zero_stripes x) = BTRFS_STRIPE_LEN"
  by (simp_all add: noise_def zero_stripes_def)

theorem raid5_recov_correct_witness:
  "\<exists>mem''. raid56_recov (\<lambda>_. 0) None None (zero_stripes(1 := noise)) 3 BTRFS_STRIPE_LEN BTRFS_BLOCK_GROUP_RAID5
     1 (-1) [0, 1, 2] = Some (0, mem'') \<and> restored zero_stripes mem'' [0, 1, 2]"
proof -
  have "damaged zero_stripes (zero_stripes(1 := noise)) [0, 1, 2] (lost 1 (-1))"
    by (auto simp: damaged_def lost_def less_Suc_eq eval_nat_numeral)
  from raid5_recov_correct [OF zero_stripes_raid(1) this, of BTRFS_BLOCK_GROUP_RAID5] show ?thesis by simp
qed

lemma raid6_recov_ordered:
  assumes ok: "raid6_ok mem ptrs n BTRFS_STRIPE_LEN" and dmg: "damaged mem mem' ptrs {d1, d2}"
    and d: "d1 < d2" "d2 < n" "d2 < n - 2 \<or> n - 2 \<le> d1" and n: "n \<le> 257"
    and z: "z1 \<notin> set ptrs" "z2 \<notin> set ptrs" "z1 \<noteq> z2"
    and profile: "profile AND BTRFS_BLOCK_GROUP_RAID5 = 0" "profile AND BTRFS_BLOCK_GROUP_RAID6 \<noteq> 0"
  shows "\<exists>mem''. raid56_recov addr (Some z1) (Some z2) mem' (int n) BTRFS_STRIPE_LEN profile (int d1) (int d2) ptrs =
      Some (0, mem'') \<and> restored mem mem'' ptrs"
proof (cases "d2 < n - 2")
  case True
  then have "int d2 < int n - 2" "\<not> int d1 = int n - 2" using d(1) by simp_all
  then have "raid56_recov addr (Some z1) (Some z2) mem' (int n) BTRFS_STRIPE_LEN profile (int d1) (int d2) ptrs =
      raid6_recov_data2 (Some z1) (Some z2) mem' (int n) BTRFS_STRIPE_LEN (int d1) (int d2) ptrs"
    using raid6_okD(2) [OF ok] d(1) profile by (simp add: raid56_recov_def Let_def)
  then show ?thesis using raid6_recov_data2_ok [OF ok dmg d(1) True n stripe_len_8 z] by simp
next
  case False
  then have "d1 = n - 2" "d2 = n - 1" using d by auto
  moreover have "int (n - 2) = int n - 2" "int (n - 1) = int n - 1" using raid6_okD(2) [OF ok] by simp_all
  ultimately show ?thesis
    using syndrome_restores [OF ok stripe_len_8] dmg profile raid6_okD(2) [OF ok]
    by (auto simp: raid56_recov_def Let_def)
qed

lemma raid6_recov_single:
  assumes ok: "raid6_ok mem ptrs n BTRFS_STRIPE_LEN" and dmg: "damaged mem mem' ptrs {d}" and d: "d < n"
    and profile: "profile AND BTRFS_BLOCK_GROUP_RAID5 = 0" "profile AND BTRFS_BLOCK_GROUP_RAID6 \<noteq> 0"
    and dest: "(dest1, dest2) = (int d, -1) \<or> (dest1, dest2) = (-1, int d)"
  shows "\<exists>mem''. raid56_recov addr c1 c2 mem' (int n) BTRFS_STRIPE_LEN profile dest1 dest2 ptrs = Some (0, mem'') \<and>
    restored mem mem'' ptrs"
proof (cases "d < n - 2")
  case True
  note s = raid6_okD [OF ok]
  have "int d \<noteq> int n - 1" "int d \<noteq> int n - 2" "int (n - 1) = int n - 1" using True s(2) by simp_all
  then have "raid56_recov addr c1 c2 mem' (int n) BTRFS_STRIPE_LEN profile dest1 dest2 ptrs =
      raid5_gen_result addr mem' (int (n - 1)) BTRFS_STRIPE_LEN (int d) ptrs"
    using s(2) profile dest by (auto simp: raid56_recov_def Let_def)
  moreover have "2 \<le> n - 1" "n - 1 \<le> n" "d < n - 1" and e: "n - 1 - 1 = n - 2" using True s(2) by simp_all
  then have "\<exists>mem''. raid5_gen_result addr mem' (int (n - 1)) BTRFS_STRIPE_LEN (int d) ptrs = Some (0, mem'') \<and>
      restored mem mem'' ptrs"
    by (intro raid5_restores [OF s(1) _ _ _ _ dmg]) (simp_all only: e s(4))
  ultimately show ?thesis by (simp only:)
next
  case False
  then have "d = n - 1 \<or> d = n - 2" "int (n - 2) = int n - 2" "int (n - 1) = int n - 1"
    using d raid6_okD(2) [OF ok] by auto
  then show ?thesis
    using syndrome_restores [OF ok stripe_len_8 damaged_mono [OF dmg]] profile raid6_okD(2) [OF ok] dest
    by (auto simp: raid56_recov_def Let_def)
qed

lemma raid6_recov_ok:
  assumes "raid6_ok mem ptrs n BTRFS_STRIPE_LEN" and "n \<le> 257" and "damaged mem mem' ptrs (lost dest1 dest2)"
    and "profile AND BTRFS_BLOCK_GROUP_RAID5 = 0" and "profile AND BTRFS_BLOCK_GROUP_RAID6 \<noteq> 0"
    and "dest1 \<in> {-1..<int n}" and "dest2 \<in> {-1..<int n}"
    and "dest1 = -1 \<or> dest2 = -1 \<or> dest1 \<noteq> dest2 \<and> (dest1 < int n - 2 \<longleftrightarrow> dest2 < int n - 2)"
    and "z1 \<notin> set ptrs" and "z2 \<notin> set ptrs" and "z1 \<noteq> z2"
  shows "\<exists>mem''. raid56_recov addr (Some z1) (Some z2) mem' (int n) BTRFS_STRIPE_LEN profile dest1 dest2 ptrs = Some (0, mem'') \<and>
    restored mem mem'' ptrs"
proof -
  note ok = assms(1) and n = assms(2) and dmg = assms(3) and z = assms(9-11) and profile = assms(4,5)
  have swap: "raid56_recov addr (Some z1) (Some z2) mem' (int n) BTRFS_STRIPE_LEN profile a b ptrs =
      raid56_recov addr (Some z1) (Some z2) mem' (int n) BTRFS_STRIPE_LEN profile b a ptrs"
    if "a \<noteq> -1" "b \<noteq> -1" "a < b" for a b
    using that by (simp add: raid56_recov_def Let_def)
  have two: "\<exists>mem''. raid56_recov addr (Some z1) (Some z2) mem' (int n) BTRFS_STRIPE_LEN profile a b ptrs = Some (0, mem'') \<and>
      restored mem mem'' ptrs"
    if "0 \<le> a" "a < b" "b < int n" "lost dest1 dest2 = {nat a, nat b}" "a < int n - 2 \<longleftrightarrow> b < int n - 2" for a b
  proof -
    obtain i j where ij: "a = int i" "b = int j" using \<open>0 \<le> a\<close> \<open>a < b\<close> by (metis nonneg_int_cases less_imp_le order_trans)
    then have "j < n - 2 \<or> n - 2 \<le> i" using \<open>a < int n - 2 \<longleftrightarrow> b < int n - 2\<close> by linarith
    then show ?thesis using ij that raid6_recov_ordered [OF ok _ _ _ _ n z profile, of mem' i j addr] dmg by simp
  qed
  show ?thesis
  proof (cases "dest1 = -1 \<or> dest2 = -1")
    case True
    show ?thesis
    proof (cases "dest1 = dest2")
      case True
      then have "restored mem mem' ptrs" using dmg \<open>dest1 = -1 \<or> dest2 = -1\<close> by (auto simp: restored_def damaged_def lost_def)
      then show ?thesis using True \<open>dest1 = -1 \<or> dest2 = -1\<close> profile raid6_okD(2) [OF ok] by (auto simp: raid56_recov_def)
    next
      case False
      define d where "d = nat (if dest1 = -1 then dest2 else dest1)"
      have "lost dest1 dest2 = {d}" "d < n" "(dest1, dest2) = (int d, -1) \<or> (dest1, dest2) = (-1, int d)"
        using False True assms(6,7) by (auto simp: lost_def d_def)
      then show ?thesis using raid6_recov_single [OF ok _ _ profile] dmg by metis
    qed
  next
    case False
    have "lost dest1 dest2 = {nat dest1, nat dest2}"
      using False assms(6,7) by (auto simp: lost_def)
    then show ?thesis
      using False two [of dest1 dest2] two [of dest2 dest1] swap [of dest2 dest1] assms(6-8)
      by (cases "dest1 < dest2") (auto simp: insert_commute)
  qed
qed

text \<open>
  C38. RAID-6: with one stripe lost, or two data stripes, or both parity stripes, in either order of the
  arguments, \<open>raid56_recov\<close> restores all stripes, for up to 255 data stripes.
\<close>
theorem raid6_recov_correct:
  assumes "raid6_ok mem ptrs n BTRFS_STRIPE_LEN" and "n \<le> 257" and "damaged mem mem' ptrs (lost dest1 dest2)"
    and "profile AND BTRFS_BLOCK_GROUP_RAID5 = 0" and "profile AND BTRFS_BLOCK_GROUP_RAID6 \<noteq> 0"
    and "dest1 \<in> {-1..<int n}" and "dest2 \<in> {-1..<int n}"
    and "dest1 = -1 \<or> dest2 = -1 \<or> dest1 \<noteq> dest2 \<and> (dest1 < int n - 2 \<longleftrightarrow> dest2 < int n - 2)"
    and "z1 \<notin> set ptrs" and "z2 \<notin> set ptrs" and "z1 \<noteq> z2"
  shows "\<exists>mem''. raid56_recov addr (Some z1) (Some z2) mem' (int n) BTRFS_STRIPE_LEN profile dest1 dest2 ptrs = Some (0, mem'') \<and>
    restored mem mem'' ptrs"
  using assms by (rule raid6_recov_ok)

theorem raid6_recov_correct_witness:
  "\<exists>mem''. raid56_recov (\<lambda>_. 0) (Some 7) (Some 8) (zero_stripes(1 := noise, 0 := noise)) 4 BTRFS_STRIPE_LEN
     BTRFS_BLOCK_GROUP_RAID6 1 0 [0, 1, 2, 3] = Some (0, mem'') \<and> restored zero_stripes mem'' [0, 1, 2, 3]"
proof -
  have "damaged zero_stripes (zero_stripes(1 := noise, 0 := noise)) [0, 1, 2, 3] (lost 1 0)"
    by (auto simp: damaged_def lost_def less_Suc_eq eval_nat_numeral)
  from raid6_recov_correct [OF zero_stripes_raid(2) _ this, of BTRFS_BLOCK_GROUP_RAID6 7 8] show ?thesis by simp
qed


text \<open>
  \<open>raid6_recov_datap\<close> on its own is right: it restores a lost data stripe and P from Q.
\<close>
theorem raid6_recov_datap_correct:
  assumes "raid6_ok mem ptrs n len" and "n \<le> 257" and "8 dvd len" and "d1 < n - 2" and "z \<notin> set ptrs"
    and "damaged mem mem' ptrs {d1, n - 2}"
  shows "\<exists>mem''. raid6_recov_datap (Some z) mem' (int n) len (int d1) ptrs = Some (0, mem'') \<and> restored mem mem'' ptrs"
proof -
  note s = raid6_okD [OF assms(1)]
  have dmg: "damaged mem mem' ptrs {d1, n - 2, n - 1}" using assms(6) by (rule damaged_mono) auto
  have q: "mem' (ptrs ! (n - 1)) = mem (ptrs ! (n - 1))"
    using assms(6) [unfolded damaged_def, rule_format, of "n - 1"] assms(4) s(2,3) by auto
  have nth: "map ((!) (mem (ptrs ! j))) [0..<len] = mem (ptrs ! j)" if "j < n" for j
    using that s(1) map_nth [of "mem (ptrs ! j)"] by (simp add: stripes_ok_def)
  have "d1 < n" "n - 2 < n" using assms(4) s(2) by simp_all
  then obtain mem'' where "raid6_recov_datap (Some z) mem' (int n) len (int d1) ptrs = Some (0, mem'')"
    and "\<forall>j<n - 2. j \<noteq> d1 \<longrightarrow> mem'' (ptrs ! j) = mem (ptrs ! j)" and "mem'' (ptrs ! (n - 1)) = mem (ptrs ! (n - 1))"
    and "mem'' (ptrs ! d1) = mem (ptrs ! d1)" and "mem'' (ptrs ! (n - 2)) = mem (ptrs ! (n - 2))"
    using raid6_recov_datap_general [OF assms(1) dmg assms(4,2,3,5), unfolded q] by (auto simp: nth)
  moreover from this(2-) have "restored mem mem'' ptrs"
    unfolding restored_def s(3)
  proof (intro allI impI)
    fix j assume "j < n"
    then have "j < n - 2 \<or> j = n - 2 \<or> j = n - 1" by auto
    then show "mem'' (ptrs ! j) = mem (ptrs ! j)"
      using \<open>\<forall>j<n - 2. j \<noteq> d1 \<longrightarrow> mem'' (ptrs ! j) = mem (ptrs ! j)\<close> \<open>mem'' (ptrs ! (n - 1)) = mem (ptrs ! (n - 1))\<close>
        \<open>mem'' (ptrs ! d1) = mem (ptrs ! d1)\<close> \<open>mem'' (ptrs ! (n - 2)) = mem (ptrs ! (n - 2))\<close> by metis
  qed
  ultimately show ?thesis by blast
qed

theorem raid6_recov_datap_correct_witness:
  "\<exists>mem''. raid6_recov_datap (Some 7) (zero_stripes(1 := noise, 2 := noise)) 4 BTRFS_STRIPE_LEN 1 [0, 1, 2, 3] = Some (0, mem'') \<and>
     restored zero_stripes mem'' [0, 1, 2, 3]"
proof -
  have "damaged zero_stripes (zero_stripes(1 := noise, 2 := noise)) [0, 1, 2, 3] {1, 4 - 2}"
    by (auto simp: damaged_def less_Suc_eq eval_nat_numeral)
  from raid6_recov_datap_correct [OF zero_stripes_raid(2) _ stripe_len_8 _ _ this, of 7] show ?thesis by simp
qed

lemma data_parity_column:
  assumes "raid6_ok mem ptrs n len" and "d1 < n - 2" and "damaged mem mem' ptrs {d1, n - 2}" and "i < len"
  shows "p_col (map (\<lambda>j. mem' (ptrs ! j) ! i) (filter (\<lambda>j. j \<noteq> d1) [0..<n - 1])) =
    mem (ptrs ! d1) ! i XOR (mem' (ptrs ! (n - 2)) ! i XOR mem (ptrs ! (n - 2)) ! i)"
proof -
  note s = raid6_okD [OF assms(1)]
  have upt: "[0..<n - 1] = [0..<n - 2] @ [n - 2]"
    using s(2) upt_Suc_append [of 0 "n - 2"] by (simp add: Suc_diff_Suc numeral_2_eq_2)
  have others: "map (\<lambda>j. mem' (ptrs ! j) ! i) (filter (\<lambda>j. j \<noteq> d1) [0..<n - 2]) = map (\<lambda>j. mem (ptrs ! j) ! i) (filter (\<lambda>j. j \<noteq> d1) [0..<n - 2])"
    using assms(3) s(3) by (intro map_cong) (auto simp: damaged_def)
  have "mem (ptrs ! (n - 2)) ! i =
      mem (ptrs ! d1) ! i XOR p_col (map (\<lambda>j. mem (ptrs ! j) ! i) (filter (\<lambda>j. j \<noteq> d1) [0..<n - 2]))"
    using p_col_remove [OF assms(2), of "\<lambda>j. mem (ptrs ! j) ! i"] assms(4) s(4) by (simp add: col_def)
  then show ?thesis
    unfolding upt filter_append map_append others p_col_append using assms(2) by (simp add: ac_simps)
qed

text \<open>
  C39. With a data stripe and one of the parity stripes lost, \<open>raid56_recov\<close> takes the wrong of the two
  ways (the comparison that should select P selects Q): it returns 0, and the data stripe is right
  exactly if the parity stripe that was said to be lost is not damaged at all.
\<close>
theorem raid6_recov_data_parity:
  assumes "raid6_ok mem ptrs n BTRFS_STRIPE_LEN" and "n \<le> 257" and "d1 < n - 2" and "d2 = n - 2 \<or> d2 = n - 1"
    and "damaged mem mem' ptrs {d1, d2}" and "z1 \<notin> set ptrs"
    and "profile AND BTRFS_BLOCK_GROUP_RAID5 = 0" and "profile AND BTRFS_BLOCK_GROUP_RAID6 \<noteq> 0"
  shows "\<exists>mem''. raid56_recov addr (Some z1) calloc2 mem' (int n) BTRFS_STRIPE_LEN profile (int d1) (int d2) ptrs =
      Some (0, mem'') \<and>
    (mem'' (ptrs ! d1) = mem (ptrs ! d1) \<longleftrightarrow> mem' (ptrs ! d2) = mem (ptrs ! d2))"
proof -
  note s = raid6_okD [OF assms(1)] and profile = assms(7,8)
  have n: "int (n - 2) = int n - 2" "int (n - 1) = int n - 1" "int d1 < int n - 2" "d1 < n" "n - 2 < n" "n - 1 < n" "n - 2 \<noteq> n - 1"
    using s(2) assms(3) by simp_all
  have len: "length (mem (ptrs ! j)) = BTRFS_STRIPE_LEN" "length (mem' (ptrs ! j)) = BTRFS_STRIPE_LEN" if "j < n" for j
    using that s(1) stripes_damaged [OF s(1) assms(5)] by (auto simp: stripes_ok_def)
  have err: "map (\<lambda>i. mem (ptrs ! d1) ! i XOR f (mem' (ptrs ! d2) ! i XOR mem (ptrs ! d2) ! i)) [0..<BTRFS_STRIPE_LEN] = mem (ptrs ! d1)
      \<longleftrightarrow> mem' (ptrs ! d2) = mem (ptrs ! d2)" if "\<And>x. f x = 0 \<longleftrightarrow> x = 0" for f
  proof -
    have "d2 < n" using assms(4) n(5,6) by auto
    then show ?thesis using len [of d1] len [of d2] n(4) by (simp add: list_eq_iff_nth_eq xor_eq_left that xor_eq_0)
  qed
  show ?thesis
  proof (cases "d2 = n - 1")
    case True
    have "gfmul (gf_inv (gf_power 2 d1)) x = 0 \<longleftrightarrow> x = 0" for x
      by (metis gf_inv_mult gf_power_nonzero gfmul_0 gfmul_1_left gfmul_assoc)
    note e = err [OF this, unfolded True]
    have dmg: "damaged mem mem' ptrs {d1, n - 2, n - 1}" using assms(5) True by (auto intro: damaged_mono)
    have "raid56_recov addr (Some z1) calloc2 mem' (int n) BTRFS_STRIPE_LEN profile (int d1) (int d2) ptrs =
        raid6_recov_datap (Some z1) mem' (int n) BTRFS_STRIPE_LEN (int d1) ptrs"
      using True n profile s(2) by (simp add: raid56_recov_def Let_def)
    then show ?thesis
      using raid6_recov_datap_general [OF assms(1) dmg assms(3,2) stripe_len_8 assms(6)] e unfolding True by metis
  next
    case False
    then have d2: "d2 = n - 2" using assms(4) by simp
    define b where "b = map (\<lambda>i. p_col (map (\<lambda>j. mem' (ptrs ! j) ! i) (filter (\<lambda>j. j \<noteq> d1) [0..<n - 1]))) [0..<BTRFS_STRIPE_LEN]"
    have m: "2 \<le> n - 1" "n - 1 \<le> n" "d1 < n - 1" "int n - 1 = int (n - 1)" using s(2) assms(3) by simp_all
    note s' = stripes_damaged [OF s(1) assms(5)]
    have r5: "raid5_gen_result addr mem' (int n - 1) BTRFS_STRIPE_LEN (int d1) ptrs = Some (0, mem'(ptrs ! d1 := b))"
      unfolding b_def m(4) by (rule raid5_gen_result_ok [OF s' m(1-3)])
    have "stripes_ok (mem'(ptrs ! d1 := b)) ptrs n BTRFS_STRIPE_LEN"
      using s' by (simp add: stripes_ok_def b_def)
    from gen_syndrome_ok [OF this s(2) stripe_len_8]
    obtain mem2 where gen: "raid6_gen_syndrome (mem'(ptrs ! d1 := b)) (int n) BTRFS_STRIPE_LEN ptrs = Some mem2" "mem2 (ptrs ! d1) = b"
      using stripes_nth_eq [OF s(1), of d1 "n - 2"] stripes_nth_eq [OF s(1), of d1 "n - 1"] assms(3) n by auto
    have "b = map (\<lambda>i. mem (ptrs ! d1) ! i XOR (mem' (ptrs ! d2) ! i XOR mem (ptrs ! d2) ! i)) [0..<BTRFS_STRIPE_LEN]"
      unfolding b_def d2 using data_parity_column [OF assms(1,3)] assms(5) d2 by (intro map_cong) auto
    then show ?thesis
      using err [of "\<lambda>x. x"] gen r5 n d2 profile s(2) by (simp add: raid56_recov_def Let_def)
  qed
qed


theorem raid6_recov_data_parity_witness:
  "\<exists>mem''. raid56_recov (\<lambda>_. 0) (Some 7) (Some 8) (zero_stripes(1 := noise, 3 := noise)) 4 BTRFS_STRIPE_LEN
     BTRFS_BLOCK_GROUP_RAID6 1 3 [0, 1, 2, 3] = Some (0, mem'') \<and> mem'' 1 \<noteq> zero_stripes 1"
proof -
  have "damaged zero_stripes (zero_stripes(1 := noise, 3 := noise)) [0, 1, 2, 3] {1, 3}"
    by (auto simp: damaged_def less_Suc_eq eval_nat_numeral)
  moreover have "noise \<noteq> zero_stripes 3"
    by (simp add: noise_def zero_stripes_def BTRFS_STRIPE_LEN_def)
  ultimately show ?thesis
    using raid6_recov_data_parity [OF zero_stripes_raid(2), of 1 3 "zero_stripes(1 := noise, 3 := noise)" 7 BTRFS_BLOCK_GROUP_RAID6 "\<lambda>_. 0" "Some 8"]
    by simp
qed

end
