(* ===== verification/DiskProps.thy ===== *)
theory DiskProps
  imports DiskParity VolumeProps RaidProps
begin

text \<open>
  The properties of reads and writes through the chunk mapping: a read returns the bytes of the layout, a write
  changes exactly its range and keeps all redundancy, what is written is read back, also after the loss of a
  device of a chunk with parity; and a write of data with parity that crosses the end of a row loses a part of it.
\<close>

section \<open>Examples\<close>

text \<open>The volume of the examples on empty devices.\<close>

definition ex_disks :: disks where
  "ex_disks fd = Some (replicate 8388608 0)"

definition ex_write_mem :: write_mem where
  "ex_write_mem = \<lparr>wm_map = ex_mem, wm_bufs = True, wm_addr = (\<lambda>_. 0), wm_junk = (\<lambda>_ _. 165)\<rparr>"

lemma ex_vol_extents: "vol_extent ex_volume e \<longleftrightarrow> e \<in> {(ex_raid5, 0), (ex_raid5, 1), (ex_raid5, 2), (ex_raid1, 0), (ex_raid1, 1)}"
proof -
  have "chunks (vi_mapping ex_volume) = {ex_raid5, ex_raid1}" using ex_mapping_ok by (simp add: ex_volume_def)
  moreover have "ml_stripes ex_raid5 \<noteq> []" "ml_stripes ex_raid1 \<noteq> []" by (simp_all add: ex_raid5_def ex_raid1_def)
  ultimately show ?thesis
    by (cases e) (auto simp: vol_extent_def ex_shapes less_Suc_eq numeral_3_eq_3 numeral_2_eq_2)
qed

lemma ex_ext_facts:
  "ext_start (ex_raid5, 0) = 2097152" "ext_start (ex_raid5, Suc 0) = 1048576" "ext_start (ex_raid5, 2) = 1048576"
  "ext_start (ex_raid1, 0) = 4194304" "ext_start (ex_raid1, Suc 0) = 4194304" "ext_len (ex_raid5, i) = 131072" "ext_len (ex_raid1, i) = 131072"
  "ext_fd ex_volume (ex_raid5, 0) = 3" "ext_fd ex_volume (ex_raid5, Suc 0) = 4" "ext_fd ex_volume (ex_raid5, 2) = 5"
  "ext_fd ex_volume (ex_raid1, 0) = 3" "ext_fd ex_volume (ex_raid1, Suc 0) = 4"
  by (simp_all add: ext_len_def ex_shapes)
    (simp_all add: ext_start_def ext_fd_def ex_raid5_def ex_raid1_def ex_volume_def ex_devs_def)

lemma ex_volume_chunks: "chunks (vi_mapping ex_volume) = {ex_raid5, ex_raid1}"
  using ex_mapping_ok by (simp add: ex_volume_def)

lemma ex_disks_ok: "volume_ok ex_volume ex_disks"
proof -
  have "mapping_ok (vi_mapping ex_volume)" using ex_volume_ok by simp
  moreover have "\<forall>m\<in>chunks (vi_mapping ex_volume). chunk_on_disk m"
    unfolding ex_volume_chunks chunk_on_disk_def
    using ex_shapes ex_extents by (simp add: in_chunk_def ce_bytes_def ex_raid5_def ex_raid1_def ex_extent_def)
  moreover have "extent_on_disk ex_volume ex_disks e" if "vol_extent ex_volume e" for e
    using that unfolding ex_vol_extents by (auto simp: extent_on_disk_def ex_disks_def ex_ext_facts)
  moreover have "apart ex_volume e f" if "vol_extent ex_volume e" "vol_extent ex_volume f" "e \<noteq> f" for e f
    using that unfolding ex_vol_extents by (auto simp: apart_def ex_ext_facts)
  ultimately show ?thesis unfolding volume_ok_def by blast
qed

lemma ex_zero: "vol_extent ex_volume e \<Longrightarrow> i < ext_len e \<Longrightarrow> ext_byte ex_volume ex_disks e i = 0"
  unfolding ex_vol_extents ext_byte_def ex_disks_def by (auto simp: ex_ext_facts)

lemma ex_redundant: "redundant ex_volume ex_disks ex_raid5" "redundant ex_volume ex_disks ex_raid1"
proof -
  have "copy_byte ex_volume ex_disks ex_raid1 c x = 0" if "x < chunk_size ex_raid1" "c < copies ex_raid1" for x c
    unfolding copy_byte_def
    by (rule ex_zero) (use place_less [OF ex_chunks_ok(2) that(2)] extent_bound [OF ex_chunks_ok(2) ex_shapes(9) that(1)] in
      \<open>simp_all add: vol_extent_def ex_volume_chunks ext_len_def\<close>)
  moreover have p: "\<not> has_parity ex_raid1" by (simp add: ex_profiles)
  ultimately show "redundant ex_volume ex_disks ex_raid1"
    using chunk_okD(9) [OF ex_chunks_ok(2)] by (intro redundant_copies(2) [OF p]) (simp add: data_byte_def)
  have "row_ok ex_raid5 (row_store ex_volume ex_disks ex_raid5 r)" if "r < 2" for r
  proof -
    have z: "row_store ex_volume ex_disks ex_raid5 r i = zero_stripes i" for i
      unfolding row_store_def zero_stripes_def
      by (intro nth_equalityI) (use that in \<open>simp_all add: ex_zero vol_extent_def ex_volume_chunks column_extent_def ex_shapes ext_len_def BTRFS_STRIPE_LEN_def\<close>)
    then have "row_store ex_volume ex_disks ex_raid5 r = zero_stripes" by (rule ext)
    then show ?thesis using zero_stripes_raid(1) by (simp add: row_ok_def ex_profiles ex_shapes upt_conv_Cons numeral_2_eq_2)
  qed
  then show "redundant ex_volume ex_disks ex_raid5" by (simp add: redundant_def ex_profiles ex_shapes)
qed

lemma ex_addresses:
  "in_chunk ex_raid5 1114112" "chunk_offset ex_raid5 1114112 = 65536" "in_chunk ex_raid1 2162686" "chunk_offset ex_raid1 2162686 = 65534"
  "in_chunk ex_raid5 1179646" "chunk_offset ex_raid5 1179646 = 131070" "chunk_size ex_raid1 = 131072"
  by (simp_all add: in_chunk_def ce_bytes_def chunk_offset_def ex_raid5_def ex_raid1_def ex_extent_def)

lemma ex_memory: "mm_multi ex_mem" "mm_multi (wm_map ex_write_mem)" "mm_raid_map (wm_map ex_write_mem)" "wm_bufs ex_write_mem"
  by (simp_all add: ex_write_mem_def ex_mem_def)

lemma rangeI:
  "volume_ok vi dk \<Longrightarrow> m \<in> chunks (vi_mapping vi) \<Longrightarrow> chunk_offset m logical + n \<le> chunk_size m \<Longrightarrow> n < 2 ^ 31 \<Longrightarrow>
     range_of vi dk m (chunk_offset m logical) n"
  by (simp add: range_of_def)

section \<open>Reading and writing data\<close>

text \<open>
  C15. A read of a range of a chunk, with any mirror number up to the number of copies, returns exactly the bytes that
  the layout of the chunk assigns to that mirror, for any profile, across stripes, rows and devices.
\<close>
theorem read_data_correct:
  assumes "volume_ok vi dk" and "m \<in> chunks (vi_mapping vi)" and "in_chunk m logical"
    and "chunk_offset m logical + n \<le> unat (ce_size (ml_ce m))" and "n < 2 ^ 31" and "mm_multi mem" and "q \<le> copies m"
  shows "let x = chunk_offset m logical in
    read_data_from_disk mem vi dk logical (of_nat n) (int q) = Some (0, map (mirror_byte vi dk m q) [x..<x + n])"
  using read_data_from_disk_ok [OF rangeI [OF assms(1,2,4,5)] assms(6,7)] chunk_addr_offset [OF assms(3)] by (simp add: Let_def)

theorem read_data_correct_witness:
  "\<exists>bs. read_data_from_disk ex_mem ex_volume ex_disks 2162686 4 2 = Some (0, bs) \<and> length bs = 4"
proof -
  have h: "ex_raid1 \<in> chunks (vi_mapping ex_volume)" "chunk_offset ex_raid1 2162686 + 4 \<le> chunk_size ex_raid1" "(4::nat) < 2 ^ 31"
    "(2::nat) \<le> copies ex_raid1" by (simp_all add: ex_volume_chunks ex_addresses ex_shapes)
  show ?thesis
    using read_data_correct [OF ex_disks_ok h(1) ex_addresses(3) h(2,3) ex_memory(1) h(4)] by (simp add: Let_def)
qed

text \<open>
  C11. A write of data to a range of a chunk returns 0 and changes exactly these bytes of all chunks. It keeps the
  devices well-formed and the redundancy of every chunk: equal copies stay equal, rows with the right parity keep
  the right parity. With parity, the address and the stripes must be aligned to nodes.
\<close>
theorem write_data_correct:
  assumes "volume_ok vi dk" and "m \<in> chunks (vi_mapping vi)" and "in_chunk m logical"
    and "chunk_offset m logical + length buf \<le> unat (ce_size (ml_ce m))" and "length buf < 2 ^ 31" and "mm_multi (wm_map wm)"
    and "has_parity m \<longrightarrow> aligned_piece vi m (chunk_offset m logical) \<and> mm_raid_map (wm_map wm) \<and> wm_bufs wm"
  shows "let x = chunk_offset m logical in
    \<exists>dk1. write_data_to_disk wm vi dk buf logical mirror = Some (0, dk1) \<and> volume_ok vi dk1 \<and>
      (\<forall>m'\<in>chunks (vi_mapping vi). (redundant vi dk m' \<longrightarrow> redundant vi dk1 m') \<and>
         (\<forall>y<unat (ce_size (ml_ce m')). data_byte vi dk1 m' y =
            (if m' = m \<and> x \<le> y \<and> y < x + length buf then buf ! (y - x) else data_byte vi dk m' y)))"
proof -
  have "has_parity m \<Longrightarrow> aligned_piece vi m (chunk_offset m logical) \<and> mm_raid_map (wm_map wm) \<and> wm_bufs wm"
    using assms(7) by blast
  from write_data_loop_ok [OF rangeI [OF assms(1,2,4,5)] assms(6) this, of mirror] chunk_addr_offset [OF assms(3)] show ?thesis
    by (simp add: Let_def write_data_to_disk_def written_def)
qed

lemma ex_aligned: "aligned_piece ex_volume ex_raid5 65536"
proof -
  have "unat (vi_nodesize ex_volume) = 16384" by (simp add: ex_volume_def)
  moreover have "(16384::nat) dvd 65536" by (rule dvdI [of _ _ 4]) simp
  ultimately show ?thesis by (simp add: aligned_piece_def ex_volume_def)
qed

theorem write_data_correct_witness:
  "\<exists>dk1. write_data_to_disk ex_write_mem ex_volume ex_disks [1, 2, 3] 1114112 0 = Some (0, dk1) \<and>
     redundant ex_volume dk1 ex_raid5 \<and> data_byte ex_volume dk1 ex_raid5 65538 = 3"
proof -
  have h: "ex_raid5 \<in> chunks (vi_mapping ex_volume)" "chunk_offset ex_raid5 1114112 + length [1, 2, 3 :: u8] \<le> chunk_size ex_raid5"
    "length [1, 2, 3 :: u8] < 2 ^ 31"
    "has_parity ex_raid5 \<longrightarrow> aligned_piece ex_volume ex_raid5 (chunk_offset ex_raid5 1114112) \<and> mm_raid_map (wm_map ex_write_mem) \<and> wm_bufs ex_write_mem"
    by (simp_all add: ex_volume_chunks ex_addresses ex_shapes ex_aligned ex_memory)
  have w: "\<exists>dk1. write_data_to_disk ex_write_mem ex_volume ex_disks [1, 2, 3] 1114112 0 = Some (0, dk1) \<and> volume_ok ex_volume dk1 \<and>
      (\<forall>m'\<in>chunks (vi_mapping ex_volume). (redundant ex_volume ex_disks m' \<longrightarrow> redundant ex_volume dk1 m') \<and>
         (\<forall>y<chunk_size m'. data_byte ex_volume dk1 m' y =
            (if m' = ex_raid5 \<and> 65536 \<le> y \<and> y < 65536 + length [1, 2, 3 :: u8] then [1, 2, 3] ! (y - 65536) else data_byte ex_volume ex_disks m' y)))"
    using write_data_correct [OF ex_disks_ok h(1) ex_addresses(1) h(2,3) ex_memory(2) h(4), of 0] unfolding Let_def ex_addresses(2) .
  then obtain dk1 where dk1: "write_data_to_disk ex_write_mem ex_volume ex_disks [1, 2, 3] 1114112 0 = Some (0, dk1)"
    "redundant ex_volume ex_disks ex_raid5 \<longrightarrow> redundant ex_volume dk1 ex_raid5"
    "\<forall>y<chunk_size ex_raid5. data_byte ex_volume dk1 ex_raid5 y =
       (if ex_raid5 = ex_raid5 \<and> 65536 \<le> y \<and> y < 65536 + length [1, 2, 3 :: u8] then [1, 2, 3] ! (y - 65536) else data_byte ex_volume ex_disks ex_raid5 y)"
    using h(1) by blast
  have "data_byte ex_volume dk1 ex_raid5 65538 = 3"
    using dk1(3) [rule_format, of 65538] by (simp add: ex_shapes flip: numeral_2_eq_2)
  with dk1(1,2) ex_redundant(1) show ?thesis by blast
qed

text \<open>
  C12. What is written is read back, with every mirror number that reads data (any copy without parity; 0 and 1
  with parity, where the others name P and Q), when the copies agreed before.
\<close>
theorem write_read_roundtrip:
  assumes "volume_ok vi dk" and "m \<in> chunks (vi_mapping vi)" and "in_chunk m logical"
    and "chunk_offset m logical + length buf \<le> unat (ce_size (ml_ce m))" and "length buf < 2 ^ 31"
    and "mm_multi (wm_map wm)" and "mm_multi mem"
    and "has_parity m \<longrightarrow> aligned_piece vi m (chunk_offset m logical) \<and> mm_raid_map (wm_map wm) \<and> wm_bufs wm"
    and "redundant vi dk m" and "q \<le> (if has_parity m then 1 else copies m)"
  shows "\<exists>dk1. write_data_to_disk wm vi dk buf logical mirror = Some (0, dk1) \<and>
    read_data_from_disk mem vi dk1 logical (of_nat (length buf)) (int q) = Some (0, buf)"
proof -
  let ?x = "chunk_offset m logical"
  note r = rangeI [OF assms(1,2,4,5)] and a = chunk_addr_offset [OF assms(3)]
  have "has_parity m \<Longrightarrow> aligned_piece vi m ?x \<and> mm_raid_map (wm_map wm) \<and> wm_bufs wm" using assms(8) by blast
  from write_data_loop_ok [OF r assms(6) this, of mirror] a obtain dk1 where
    w: "write_data_to_disk wm vi dk buf logical mirror = Some (0, dk1)" "written vi dk dk1 m ?x buf"
    by (auto simp: write_data_to_disk_def)
  note b = written_bytes [OF w(2) r assms(9,10)]
  have "q \<le> copies m" using assms(10) by (cases "has_parity m") (auto simp: copies_def)
  from read_data_from_disk_ok [OF b(2) assms(7) this] a b(1) w(1) show ?thesis by simp
qed

theorem write_read_roundtrip_witness:
  "\<exists>dk1. write_data_to_disk ex_write_mem ex_volume ex_disks [1, 2, 3, 4] 2162686 0 = Some (0, dk1) \<and>
     read_data_from_disk ex_mem ex_volume dk1 2162686 4 2 = Some (0, [1, 2, 3, 4])"
proof -
  have h: "ex_raid1 \<in> chunks (vi_mapping ex_volume)" "chunk_offset ex_raid1 2162686 + length [1, 2, 3, 4 :: u8] \<le> chunk_size ex_raid1"
    "length [1, 2, 3, 4 :: u8] < 2 ^ 31" "(2::nat) \<le> (if has_parity ex_raid1 then 1 else copies ex_raid1)"
    "has_parity ex_raid1 \<longrightarrow> aligned_piece ex_volume ex_raid1 (chunk_offset ex_raid1 2162686) \<and> mm_raid_map (wm_map ex_write_mem) \<and> wm_bufs ex_write_mem"
    by (simp_all add: ex_volume_chunks ex_addresses ex_shapes ex_profiles)
  show ?thesis
    using write_read_roundtrip [OF ex_disks_ok h(1) ex_addresses(3) h(2,3) ex_memory(2,1) h(5) ex_redundant(2) h(4), of 0] by simp
qed

section \<open>Loss of devices\<close>

lemma parity_type:
  assumes "chunk_ok m"
  shows "profile m = BTRFS_RAID_RAID5 \<Longrightarrow> ml_type m AND BTRFS_BLOCK_GROUP_RAID5 \<noteq> 0"
    and "profile m = BTRFS_RAID_RAID6 \<Longrightarrow> ml_type m AND BTRFS_BLOCK_GROUP_RAID5 = 0 \<and> ml_type m AND BTRFS_BLOCK_GROUP_RAID6 \<noteq> 0"
  using chunk_flags(5,6) [OF assms] by (auto simp: has_flag_def block_group_defs)

lemma written_in_row:
  assumes "written vi dk dk1 m x bs" and "range_of vi dk m x (length bs)" and "has_parity m" and "redundant vi dk m"
    and y: "x \<le> y" "y < x + length bs"
  shows "row_ok m (row_store vi dk1 m (row_of m y))" "y div 65536 mod data_cols m < n_stripes m"
    "row_store vi dk1 m (row_of m y) (y div 65536 mod data_cols m) ! (y mod 65536) = bs ! (y - x)"
proof -
  note d = range_ofD [OF assms(2)]
  have m: "m \<in> chunks (vi_mapping vi)" and yc: "y < chunk_size m" using assms(2) y by (auto simp: range_of_def)
  have "redundant vi dk1 m" using assms(1,4) m by (simp add: written_def)
  moreover have "row_of m y < extent_len m div 65536"
  proof -
    have "data_cols m * 65536 dvd chunk_size m" using d(2) assms(3) by (auto simp: whole_rows_def)
    from extent_rows(1) [OF d(1) this yc] show ?thesis
      by (simp add: less_eq_div_iff_mult_less_eq Suc_le_eq flip: Suc_le_eq)
  qed
  ultimately show "row_ok m (row_store vi dk1 m (row_of m y))" using assms(3) by (simp add: redundant_def)
  show "y div 65536 mod data_cols m < n_stripes m" using mod_cols(2) [OF d(1)] .
  show "row_store vi dk1 m (row_of m y) (y div 65536 mod data_cols m) ! (y mod 65536) = bs ! (y - x)"
    using assms(1) m yc y data_in_row [OF assms(3) d(1), of vi dk1 y] by (auto simp: written_def)
qed

text \<open>
  C14. Data written to RAID-5 survives the loss of any one device extent: whatever is read from the lost extent in
  place of its stripe of a row, \<open>raid56_recov\<close> restores the row, and with it the bytes that were written.
\<close>
theorem raid5_write_survives_loss:
  assumes "volume_ok vi dk" and "m \<in> chunks (vi_mapping vi)" and "in_chunk m logical"
    and "chunk_offset m logical + length buf \<le> unat (ce_size (ml_ce m))" and "length buf < 2 ^ 31"
    and "mm_multi (wm_map wm)" and "mm_raid_map (wm_map wm)" and "wm_bufs wm" and "profile m = BTRFS_RAID_RAID5"
    and "aligned_piece vi m (chunk_offset m logical)" and "redundant vi dk m" and "d < n_stripes m"
  shows "\<exists>dk1. write_data_to_disk wm vi dk buf logical mirror = Some (0, dk1) \<and>
    (\<forall>j<length buf. \<forall>row. let y = chunk_offset m logical + j in
       damaged (row_store vi dk1 m (row_of m y)) row [0..<n_stripes m] {d} \<longrightarrow>
       (\<exists>row'. raid56_recov addr c1 c2 row (int (n_stripes m)) BTRFS_STRIPE_LEN (ml_type m) (int d) (-1) [0..<n_stripes m] = Some (0, row') \<and>
          row' (y div 65536 mod data_cols m) ! (y mod 65536) = buf ! j))"
proof -
  let ?x = "chunk_offset m logical" and ?N = "n_stripes m"
  note r = rangeI [OF assms(1,2,4,5)] and a = chunk_addr_offset [OF assms(3)]
  have par: "has_parity m" using assms(9) by simp
  obtain dk1 where w: "write_data_to_disk wm vi dk buf logical mirror = Some (0, dk1)" "written vi dk dk1 m ?x buf"
    using write_data_loop_ok [OF r assms(6), of mirror] assms(7,8,10) a by (auto simp: write_data_to_disk_def)
  have "\<exists>row'. raid56_recov addr c1 c2 row (int ?N) BTRFS_STRIPE_LEN (ml_type m) (int d) (-1) [0..<?N] = Some (0, row') \<and>
      row' ((?x + j) div 65536 mod data_cols m) ! ((?x + j) mod 65536) = buf ! j"
    if j: "j < length buf" and dmg: "damaged (row_store vi dk1 m (row_of m (?x + j))) row [0..<?N] {d}" for j row
  proof -
    note b = written_in_row [OF w(2) r par assms(11), of "?x + j"]
    have ok: "raid5_ok (row_store vi dk1 m (row_of m (?x + j))) [0..<?N] ?N BTRFS_STRIPE_LEN"
      using b(1) j assms(9) by (simp add: row_ok_def)
    have "lost (int d) (-1) = {d}" by (auto simp: lost_def)
    with raid5_recov_ok [OF ok, of row "int d" "-1" "ml_type m" addr c1 c2] dmg parity_type(1) [OF range_ofD(1) [OF r] assms(9)] assms(12)
    obtain row' where "raid56_recov addr c1 c2 row (int ?N) BTRFS_STRIPE_LEN (ml_type m) (int d) (-1) [0..<?N] = Some (0, row')"
      "restored (row_store vi dk1 m (row_of m (?x + j))) row' [0..<?N]" by auto
    with b(2,3) j show ?thesis by (auto simp: restored_def)
  qed
  with w(1) show ?thesis by (auto simp: Let_def)
qed

theorem raid5_write_survives_loss_witness:
  "\<exists>dk1 row'. write_data_to_disk ex_write_mem ex_volume ex_disks [1, 2, 3] 1114112 0 = Some (0, dk1) \<and>
     raid56_recov (\<lambda>_. 0) None None ((row_store ex_volume dk1 ex_raid5 0)(1 := noise)) 3 BTRFS_STRIPE_LEN (ml_type ex_raid5) 1 (-1) [0..<3] =
       Some (0, row') \<and> row' 1 ! 2 = 3"
proof -
  have h: "ex_raid5 \<in> chunks (vi_mapping ex_volume)" "chunk_offset ex_raid5 1114112 + length [1, 2, 3 :: u8] \<le> chunk_size ex_raid5"
    "length [1, 2, 3 :: u8] < 2 ^ 31" "aligned_piece ex_volume ex_raid5 (chunk_offset ex_raid5 1114112)" "1 < n_stripes ex_raid5"
    by (simp_all add: ex_volume_chunks ex_addresses ex_shapes ex_aligned)
  from raid5_write_survives_loss [OF ex_disks_ok h(1) ex_addresses(1) h(2,3) ex_memory(2,3,4) ex_profiles(1) h(4) ex_redundant(1) h(5), of 0
      "\<lambda>_. 0" None None]
  obtain dk1 where dk1: "write_data_to_disk ex_write_mem ex_volume ex_disks [1, 2, 3] 1114112 0 = Some (0, dk1)"
    and rec: "\<And>row. damaged (row_store ex_volume dk1 ex_raid5 0) row [0..<3] {1} \<Longrightarrow>
      \<exists>row'. raid56_recov (\<lambda>_. 0) None None row 3 BTRFS_STRIPE_LEN (ml_type ex_raid5) 1 (-1) [0..<3] = Some (0, row') \<and> row' 1 ! 2 = 3"
    unfolding ex_addresses(2) ex_shapes Let_def by (force simp: ex_shapes dest!: spec [of _ 2] simp flip: numeral_2_eq_2)
  have "damaged (row_store ex_volume dk1 ex_raid5 0) ((row_store ex_volume dk1 ex_raid5 0)(1 := noise)) [0..<3] {1}"
    by (auto simp: damaged_def row_store_def BTRFS_STRIPE_LEN_def)
  from rec [OF this] dk1 show ?thesis by blast
qed

section \<open>Blocks\<close>

text \<open>
  C13. A tree block that lies in one stripe is written by \<open>write_and_map_eb\<close> to all its copies, or with its parity,
  and \<open>read_whole_eb\<close> reads it back with every mirror number that reads data. Nothing else of any chunk changes.
\<close>
theorem block_roundtrip:
  assumes "volume_ok vi dk" and "m \<in> chunks (vi_mapping vi)" and "in_chunk m start" and "bs \<noteq> []"
    and "length bs \<le> span m (chunk_offset m start)" and "length bs \<le> 65536"
    and "mm_multi (wm_map wm)" and "mm_raid_map (wm_map wm)" and "wm_bufs wm" and "mm_multi mem"
    and "\<not> vi_on_restoring vi" and "redundant vi dk m" and "q \<le> (if has_parity m then 1 else copies m)"
  shows "\<exists>dk1. write_and_map_eb wm vi dk \<lparr>eb_start = start, eb_data = bs\<rparr> = Some (0, dk1) \<and>
    read_whole_eb mem vi dk1 start (length bs) (int q) = Some (0, bs) \<and>
    (\<forall>m'\<in>chunks (vi_mapping vi). \<forall>y<unat (ce_size (ml_ce m')).
       m' \<noteq> m \<or> y \<notin> {chunk_offset m start..<chunk_offset m start + length bs} \<longrightarrow> data_byte vi dk1 m' y = data_byte vi dk m' y)"
proof -
  let ?x = "chunk_offset m start"
  have fit: "?x + length bs \<le> chunk_size m" using assms(5) span_le [of m ?x] in_chunkD(1) [OF assms(3)] by simp
  have l: "length bs < 2 ^ 31" using assms(6) by simp
  note r = rangeI [OF assms(1,2) fit l] and a = chunk_addr_offset [OF assms(3)]
  note d = range_ofD [OF r]
  have room: "length bs \<le> row_room m ?x" if "has_parity m"
  proof -
    let ?y = "?x + (length bs - 1)"
    have "length bs - 1 < span m ?x" using assms(4,5) by (cases bs) auto
    from span_stripe(2) [OF d(1) this] have "extent_offset m ?y div 65536 = (extent_offset m ?x + (length bs - 1)) div 65536" by simp
    moreover have "?x mod 65536 + (length bs - 1) < 65536"
    proof -
      have "length bs \<le> 65536 - ?x mod 65536" using assms(5) that by (auto simp: span_def)
      moreover have "?x mod 65536 < 65536" by simp
      moreover have "0 < length bs" using assms(4) by simp
      ultimately show ?thesis by linarith
    qed
    then have "?y div 65536 = ?x div 65536" by (rule same_block(1))
    then have "row_of m ?y = row_of m ?x" by simp
    with row_room_iff [OF d(1), of ?x ?y] show ?thesis by simp
  qed
  have p: "piece_ok vi dk m ?x bs" if "has_parity m" using r that assms(4,6,11) by (simp add: piece_ok_def)
  obtain dk1 where w: "write_and_map_eb wm vi dk \<lparr>eb_start = start, eb_data = bs\<rparr> = Some (0, dk1)" "written vi dk dk1 m ?x bs"
    using write_and_map_eb_copies [OF r assms(4,5) _ assms(7)] write_and_map_eb_parity [OF p room assms(7-9)] a
    by (cases "has_parity m") auto
  note b = written_bytes [OF w(2) r assms(12,13)]
  have "q \<le> copies m" using assms(13) by (cases "has_parity m") (auto simp: copies_def)
  moreover have "chunk_addr m ?x \<noteq> 65536" using a assms(3) d(4) by auto
  ultimately have "read_whole_eb mem vi dk1 start (length bs) (int q) = Some (0, bs)"
    using read_whole_eb_ok [OF b(2) assms(10), of q] b(1) a assms(11) by simp
  moreover have "data_byte vi dk1 m' y = data_byte vi dk m' y"
    if "m' \<in> chunks (vi_mapping vi)" "y < chunk_size m'" "m' \<noteq> m \<or> y \<notin> {?x..<?x + length bs}" for m' y
  proof -
    have "data_byte vi dk1 m' y = (if m' = m \<and> ?x \<le> y \<and> y < ?x + length bs then bs ! (y - ?x) else data_byte vi dk m' y)"
      using w(2) that(1,2) unfolding written_def by blast
    with that(3) show ?thesis by auto
  qed
  ultimately show ?thesis using w(1) by blast
qed

theorem block_roundtrip_witness:
  "\<exists>dk1. write_and_map_eb ex_write_mem ex_volume ex_disks \<lparr>eb_start = 1114112, eb_data = [9, 8, 7]\<rparr> = Some (0, dk1) \<and>
     read_whole_eb ex_mem ex_volume dk1 1114112 3 1 = Some (0, [9, 8, 7])"
proof -
  have h: "ex_raid5 \<in> chunks (vi_mapping ex_volume)" "[9, 8, 7 :: u8] \<noteq> []" "length [9, 8, 7 :: u8] \<le> span ex_raid5 (chunk_offset ex_raid5 1114112)"
    "length [9, 8, 7 :: u8] \<le> 65536" "\<not> vi_on_restoring ex_volume" "(1::nat) \<le> (if has_parity ex_raid5 then 1 else copies ex_raid5)"
    by (simp_all add: ex_volume_chunks ex_addresses ex_shapes ex_profiles span_def) (simp add: ex_volume_def)
  from block_roundtrip [OF ex_disks_ok h(1) ex_addresses(1) h(2-4) ex_memory(2,3,4,1) h(5) ex_redundant(1) h(6)] show ?thesis by (auto simp: numeral_3_eq_3)
qed

section \<open>Errors\<close>

lemma map_block_unmapped:
  assumes "mapping_ok mt" and "unat logical + 1 < 2 ^ 64" and "unat logical \<notin> cache_bytes (mt_cache mt)"
  shows "\<exists>r. map_block mem mt rw logical multi_ret mirror raid_map_ret = Some r \<and> mr_ret r = - ENOENT \<and> mr_multi r = None"
proof -
  have inv: "cache_inv (mt_cache mt)" using assms(1) by (simp add: mapping_ok_def)
  show ?thesis
  proof (cases "search_cache_extent (mt_cache mt) logical")
    case None
    then show ?thesis by (simp add: map_block_def)
  next
    case (Some p)
    from search_cache_extent_spec [OF inv assms(2)] obtain xs ys where
      s: "inorder (mt_cache mt) = xs @ ys" "cur_at (mt_cache mt) xs (Some p)"
        "\<forall>y\<in>set ys. unat logical < unat (ce_start y) + unat (ce_size y)" using Some by auto
    have p: "fst p \<noteq> Null" "cur_tree p = mt_cache mt" "cur_before p = xs" using s(2) by (auto simp: cur_at_def)
    have "cur_entry p \<in> set ys" using inorder_cur [OF p(1)] p s(1) by simp
    then have e: "unat logical < unat (ce_start (cur_entry p)) + unat (ce_size (cur_entry p))" "cur_entry p \<in> set (inorder (mt_cache mt))"
      using s(1,3) by auto
    then have "unat logical \<notin> ce_bytes (cur_entry p)" using assms(3) by (auto simp: cache_bytes_def)
    with e(1) have "ce_start (cur_entry p) > logical" by (simp add: ce_bytes_def word_less_nat_alt not_le)
    with Some show ?thesis by (simp add: map_block_def)
  qed
qed

text \<open>
  C16. At an address that is not mapped, the reads return \<open>-EIO\<close> with nothing read, \<open>write_data_to_disk\<close> returns \<open>-EIO\<close>
  and leaves the devices as they are, and \<open>write_and_map_eb\<close> does not return: it follows the null pointer \<open>multi\<close>
  before the \<open>BUG_ON\<close> that tests the result of the mapping.
\<close>
theorem unmapped_errors:
  assumes "mapping_ok (vi_mapping vi)" and "unat logical + 1 < 2 ^ 64" and "unat logical \<notin> cache_bytes (mt_cache (vi_mapping vi))"
    and "0 < n" and "n < 2 ^ 64" and "buf \<noteq> []"
  shows "read_data_from_disk mem vi dk logical (of_nat n) mirror = Some (- EIO, []) \<and>
    (\<not> vi_on_restoring vi \<and> logical \<noteq> 65536 \<longrightarrow> read_whole_eb mem vi dk logical n mirror = Some (- EIO, [])) \<and>
    write_data_to_disk wm vi dk buf logical mirror = Some (- EIO, dk) \<and>
    write_and_map_eb wm vi dk \<lparr>eb_start = logical, eb_data = buf\<rparr> = None"
proof -
  note u = map_block_unmapped [OF assms(1-3)]
  have n: "(of_nat n :: u64) \<noteq> 0" using assms(4,5) by (simp add: of_nat_u64_eq_0)
  obtain r1 where r1: "map_block mem (vi_mapping vi) READ logical True mirror False = Some r1" "mr_ret r1 = - ENOENT" using u by blast
  obtain r2 where r2: "map_block (wm_map wm) (vi_mapping vi) WRITE logical True mirror True = Some r2" "mr_ret r2 = - ENOENT" using u by blast
  obtain r3 where r3: "map_block (wm_map wm) (vi_mapping vi) WRITE logical True 0 True = Some r3" "mr_multi r3 = None" using u by blast
  have "read_data_from_disk mem vi dk logical (of_nat n) mirror = Some (- EIO, [])"
    using n r1 by (simp add: read_data_from_disk_def read_data_step_def read_data_loop.simps [of mem vi dk logical])
  moreover have "read_whole_eb mem vi dk logical n mirror = Some (- EIO, [])" if "\<not> vi_on_restoring vi \<and> logical \<noteq> 65536"
    using that assms(4) r1 by (simp add: read_whole_eb_def read_eb_step_def read_eb_loop.simps [of mem vi dk logical])
  moreover have "write_data_to_disk wm vi dk buf logical mirror = Some (- EIO, dk)"
    using assms(6) r2 by (simp add: write_data_to_disk_def write_data_step_def write_data_loop.simps [of wm vi dk buf] Let_def)
  moreover have "write_and_map_eb wm vi dk \<lparr>eb_start = logical, eb_data = buf\<rparr> = None"
    using r3 by (simp add: write_and_map_eb_def)
  ultimately show ?thesis by blast
qed

theorem unmapped_errors_witness:
  "read_data_from_disk ex_mem ex_volume ex_disks 4096 1 0 = Some (- EIO, []) \<and>
   write_data_to_disk ex_write_mem ex_volume ex_disks [1] 4096 0 = Some (- EIO, ex_disks)"
proof -
  have "unat (4096 :: u64) + 1 < 2 ^ 64" "unat (4096 :: u64) \<notin> cache_bytes (mt_cache (vi_mapping ex_volume))"
    by (simp_all add: ex_volume_bytes)
  from unmapped_errors [OF ex_volume_ok(1) this, of 1 "[1]" ex_mem ex_disks 0 ex_write_mem] show ?thesis by simp
qed

text \<open>
  C17. A piece of data with parity that crosses the end of its row: the code writes the row, returns 0, and the rest
  of the piece, behind the end of the row, is not written.
\<close>
theorem write_past_row_dropped:
  assumes "volume_ok vi dk" and "m \<in> chunks (vi_mapping vi)" and "in_chunk m logical"
    and "chunk_offset m logical + length buf \<le> unat (ce_size (ml_ce m))" and "buf \<noteq> []" and "has_parity m"
    and "length buf \<le> unat (vi_nodesize vi)" and "unat (vi_nodesize vi) \<le> 65536" and "\<not> vi_on_restoring vi"
    and "mm_multi (wm_map wm)" and "mm_raid_map (wm_map wm)" and "wm_bufs wm"
  shows "let x = chunk_offset m logical; room = data_cols m * 65536 - x mod (data_cols m * 65536) in
    \<exists>dk1. write_data_to_disk wm vi dk buf logical mirror = Some (0, dk1) \<and>
      (\<forall>j<length buf. data_byte vi dk1 m (x + j) = (if j < room then buf ! j else data_byte vi dk m (x + j)))"
proof -
  let ?x = "chunk_offset m logical"
  have "length buf < 2 ^ 31" using assms(7,8) by simp
  note r = rangeI [OF assms(1,2,4) this] and a = chunk_addr_offset [OF assms(3)]
  have ns: "0 < unat (vi_nodesize vi)" "length buf = min (length buf) (unat (vi_nodesize vi))" using assms(5,7) by (cases buf, auto)
  from write_data_step_parity [OF r assms(5,6,9) ns(1) assms(8,10,11,12) ns(2), of mirror] a
  obtain dk1 where w: "write_data_step wm vi dk buf logical mirror = Some (Inr (length buf), dk1)"
    "written vi dk dk1 m ?x (take (row_room m ?x) buf)" by auto
  have e: "write_data_loop wm vi dk1 [] b mirror = Some (0, dk1)" for b by (subst write_data_loop.simps) simp
  have "write_data_to_disk wm vi dk buf logical mirror = Some (0, dk1)"
    unfolding write_data_to_disk_def using assms(5) w(1) e by (subst write_data_loop.simps) simp
  moreover have "data_byte vi dk1 m (?x + j) = (if j < row_room m ?x then buf ! j else data_byte vi dk m (?x + j))" if "j < length buf" for j
    using w(2) assms(2,4) that by (auto simp: written_def)
  ultimately show ?thesis unfolding Let_def row_room_def by blast
qed

theorem write_past_row_dropped_witness:
  "\<exists>dk1. write_data_to_disk ex_write_mem ex_volume ex_disks [1, 2, 3, 4] 1179646 0 = Some (0, dk1) \<and>
     data_byte ex_volume dk1 ex_raid5 131071 = 2 \<and> data_byte ex_volume dk1 ex_raid5 131072 = 0"
proof -
  have h: "ex_raid5 \<in> chunks (vi_mapping ex_volume)" "chunk_offset ex_raid5 1179646 + length [1, 2, 3, 4 :: u8] \<le> chunk_size ex_raid5"
    "[1, 2, 3, 4 :: u8] \<noteq> []" "has_parity ex_raid5" "length [1, 2, 3, 4 :: u8] \<le> unat (vi_nodesize ex_volume)"
    "unat (vi_nodesize ex_volume) \<le> 65536" "\<not> vi_on_restoring ex_volume"
    by (simp_all add: ex_volume_chunks ex_addresses ex_shapes ex_profiles) (simp_all add: ex_volume_def)
  obtain dk1 where "write_data_to_disk ex_write_mem ex_volume ex_disks [1, 2, 3, 4] 1179646 0 = Some (0, dk1)"
    "\<forall>j<4. data_byte ex_volume dk1 ex_raid5 (131070 + j) = (if j < 2 then [1, 2, 3, 4] ! j else data_byte ex_volume ex_disks ex_raid5 (131070 + j))"
    using write_past_row_dropped [OF ex_disks_ok h(1) ex_addresses(5) h(2-7) ex_memory(2,3,4), of 0]
    by (auto simp: Let_def ex_addresses ex_shapes)
  moreover have "data_byte ex_volume ex_disks ex_raid5 131072 = 0"
    unfolding data_byte_def copy_byte_def
    by (rule ex_zero) (use place_less [OF ex_chunks_ok(1), of 0 2] in \<open>simp_all add: vol_extent_def ex_volume_chunks ext_len_def ex_shapes\<close>)
  ultimately show ?thesis by (intro exI [of _ dk1]) (auto dest: spec [of _ 1] spec [of _ 2])
qed

end
