(* ===== verification/ExtentIo.thy ===== *)
theory ExtentIo
  imports ExtentCache "HOL-Library.Monad_Syntax"
begin

text \<open>
  The state tree of \<open>extent_io.c\<close>: ranges of bytes with flags, kept in a cache tree. A \<open>struct extent_state\<close> embeds its
  node of the tree; the map \<open>st_node\<close> gives the state of each node (\<open>container_of\<close>). A pointer to a state is a cursor of
  the tree. Where the code goes on to use a pointer after the tree was changed, \<open>state_ptr\<close> finds the node again by its
  start: the nodes of a tree do not overlap. Reference counts are left out: every state is freed where it leaves the tree.
  The flags, an \<open>unsigned long\<close>, have 64 bits. \<open>BUG_ON\<close> is \<open>None\<close>.
\<close>

unbundle bit_operations_syntax

section \<open>The states\<close>

abbreviation (input) EXTENT_IOBITS :: u64 where "EXTENT_IOBITS \<equiv> 10"

record extent_state =
  es_start :: u64
  es_end :: u64
  es_state :: u64
  es_private :: u64

record extent_io_tree =
  st_cache :: cache_tree
  st_node :: "cache_extent \<Rightarrow> extent_state"

definition extent_io_tree_init :: extent_io_tree where
  "extent_io_tree_init = \<lparr>st_cache = cache_tree_init, st_node = (\<lambda>_. \<lparr>es_start = 0, es_end = 0, es_state = 0, es_private = 0\<rparr>)\<rparr>"

definition update_extent_state :: "extent_state \<Rightarrow> cache_extent" where
  "update_extent_state st = \<lparr>ce_objectid = 0, ce_start = es_start st, ce_size = es_end st + 1 - es_start st\<rparr>"

abbreviation es_at :: "extent_io_tree \<Rightarrow> cache_ptr \<Rightarrow> extent_state" where
  "es_at t p \<equiv> st_node t (cur_entry p)"

definition state_ptr :: "extent_io_tree \<Rightarrow> u64 \<Rightarrow> cache_ptr option" where
  "state_ptr t start = search_cache_extent (st_cache t) start"

text \<open>\<open>alloc_extent_state\<close> with the fields that the callers set.\<close>

definition new_state :: "u64 \<Rightarrow> u64 \<Rightarrow> u64 \<Rightarrow> extent_state" where
  "new_state start endd bits = \<lparr>es_start = start, es_end = endd, es_state = bits, es_private = 0\<rparr>"

section \<open>Merging and splitting\<close>

text \<open>The first half of \<open>merge_state\<close>: the tree and the pointer of the state in it.\<close>

definition merge_prev :: "extent_io_tree \<Rightarrow> cache_ptr \<Rightarrow> (extent_io_tree \<times> cache_ptr) option" where
  "merge_prev t p =
     (case prev_cache_extent p of
        None \<Rightarrow> Some (t, p)
      | Some q \<Rightarrow>
          let other = es_at t q; st = es_at t p in
          if es_end other = es_start st - 1 \<and> es_state other = es_state st then
            let st1 = st\<lparr>es_start := es_start other\<rparr> in
            do {
              q1 \<leftarrow> prev_cache_extent (rb_replace_node p (update_extent_state st1));
              c \<leftarrow> remove_cache_extent q1;
              let t1 = \<lparr>st_cache = c, st_node = (st_node t)(update_extent_state st1 := st1)\<rparr>;
              p1 \<leftarrow> state_ptr t1 (es_start st1);
              Some (t1, p1)
            }
          else Some (t, p))"

definition merge_next :: "extent_io_tree \<Rightarrow> cache_ptr \<Rightarrow> extent_io_tree option" where
  "merge_next t p =
     (case next_cache_extent p of
        None \<Rightarrow> Some t
      | Some q \<Rightarrow>
          let other = es_at t q; st = es_at t p in
          if es_start other = es_end st + 1 \<and> es_state other = es_state st then
            let other1 = other\<lparr>es_start := es_start st\<rparr> in
            do {
              p1 \<leftarrow> prev_cache_extent (rb_replace_node q (update_extent_state other1));
              c \<leftarrow> remove_cache_extent p1;
              Some \<lparr>st_cache = c, st_node = (st_node t)(update_extent_state other1 := other1)\<rparr>
            }
          else Some t)"

definition merge_state :: "extent_io_tree \<Rightarrow> cache_ptr \<Rightarrow> extent_io_tree option" where
  "merge_state t p =
     (if es_state (es_at t p) AND EXTENT_IOBITS \<noteq> 0 then Some t
      else do { (t1, p1) \<leftarrow> merge_prev t p; merge_next t1 p1 })"

definition insert_state :: "extent_io_tree \<Rightarrow> u64 \<Rightarrow> u64 \<Rightarrow> int \<Rightarrow> extent_io_tree option" where
  "insert_state t start endd bits =
     (if endd < start then None
      else
        let st = new_state start endd (u64_of_int bits); ce = update_extent_state st in
        do {
          (ret, c) \<leftarrow> insert_cache_extent (st_cache t) ce;
          if ret \<noteq> 0 then None
          else
            let t1 = \<lparr>st_cache = c, st_node = (st_node t)(ce := st)\<rparr> in
            do { p \<leftarrow> state_ptr t1 start; merge_state t1 p }
        })"

definition split_state :: "extent_io_tree \<Rightarrow> cache_ptr \<Rightarrow> u64 \<Rightarrow> extent_io_tree option" where
  "split_state t p split =
     (let orig = es_at t p;
          prealloc = new_state (es_start orig) (split - 1) (es_state orig);
          orig1 = orig\<lparr>es_start := split\<rparr>
      in do {
           (ret, c) \<leftarrow> insert_cache_extent (cur_tree (rb_replace_node p (update_extent_state orig1))) (update_extent_state prealloc);
           if ret \<noteq> 0 then None
           else Some \<lparr>st_cache = c, st_node = (st_node t)(update_extent_state orig1 := orig1, update_extent_state prealloc := prealloc)\<rparr>
         })"

section \<open>Clearing bits\<close>

text \<open>The assignment \<open>state->state = ...\<close> to the state at a pointer.\<close>

definition set_bits_at :: "extent_io_tree \<Rightarrow> cache_ptr \<Rightarrow> u64 \<Rightarrow> extent_io_tree" where
  "set_bits_at t p v = t\<lparr>st_node := (st_node t)(cur_entry p := (es_at t p)\<lparr>es_state := v\<rparr>)\<rparr>"

definition clear_state_bit :: "extent_io_tree \<Rightarrow> cache_ptr \<Rightarrow> int \<Rightarrow> (int \<times> extent_io_tree) option" where
  "clear_state_bit t p bits =
     (let ret = int_of_u64 (es_state (es_at t p) AND u64_of_int bits);
          v = es_state (es_at t p) AND u64_of_int (NOT bits);
          t1 = set_bits_at t p v
      in if v = 0 then do { c \<leftarrow> remove_cache_extent p; Some (ret, t1\<lparr>st_cache := c\<rparr>) }
         else map_option (Pair ret) (merge_state t1 p))"

text \<open>
  The body of \<open>clear_extent_bits\<close> between the labels \<open>again\<close> and \<open>search_again\<close>: the bits that were cleared, the tree,
  and where to search again with whether \<open>prealloc\<close> is still there; \<open>None\<close> is a jump to \<open>out\<close>.
\<close>

definition clear_extent_step ::
  "extent_io_tree \<Rightarrow> u64 \<Rightarrow> u64 \<Rightarrow> int \<Rightarrow> (int \<times> extent_io_tree \<times> (u64 \<times> bool) option) option" where
  "clear_extent_step t start endd bits =
     (case search_cache_extent (st_cache t) start of
        None \<Rightarrow> Some (0, t, None)
      | Some p \<Rightarrow>
          let st = es_at t p; last_end = es_end st in
          if es_start st > endd then Some (0, t, None)
          else if es_start st < start then
            do {
              t1 \<leftarrow> split_state t p start;
              p1 \<leftarrow> state_ptr t1 start;
              if es_end (es_at t1 p1) \<le> endd then
                do {
                  (b, t2) \<leftarrow> clear_state_bit t1 p1 bits;
                  Some (b, t2, if last_end = - 1 then None else Some (last_end + 1, False))
                }
              else Some (0, t1, Some (es_start (es_at t1 p1), False))
            }
          else if es_start st \<le> endd \<and> es_end st > endd then
            do {
              t1 \<leftarrow> split_state t p (endd + 1);
              p1 \<leftarrow> state_ptr t1 (es_start st);
              (b, t2) \<leftarrow> clear_state_bit t1 p1 bits;
              Some (b, t2, None)
            }
          else
            do {
              (b, t2) \<leftarrow> clear_state_bit t p bits;
              Some (b, t2, if last_end = - 1 then None else Some (last_end + 1, True))
            })"

text \<open>\<open>mem k\<close> says whether the allocation with number \<open>k\<close> succeeds.\<close>

partial_function (option) clear_extent_loop ::
  "(nat \<Rightarrow> bool) \<Rightarrow> nat \<Rightarrow> bool \<Rightarrow> extent_io_tree \<Rightarrow> u64 \<Rightarrow> u64 \<Rightarrow> int \<Rightarrow> int \<Rightarrow> (int \<times> extent_io_tree) option" where
  "clear_extent_loop mem k prealloc t start endd bits cleared =
     (if \<not> prealloc \<and> \<not> mem k then Some (- ENOMEM, t)
      else
        Option.bind (clear_extent_step t start endd bits)
          (\<lambda>(b, t1, nxt). case nxt of
             None \<Rightarrow> Some (cleared OR b, t1)
           | Some (start1, prealloc1) \<Rightarrow>
               if start1 > endd then Some (cleared OR b, t1)
               else clear_extent_loop mem (if prealloc then k else Suc k) prealloc1 t1 start1 endd bits (cleared OR b)))"

definition clear_extent_bits :: "(nat \<Rightarrow> bool) \<Rightarrow> extent_io_tree \<Rightarrow> u64 \<Rightarrow> u64 \<Rightarrow> int \<Rightarrow> (int \<times> extent_io_tree) option" where
  "clear_extent_bits mem t start endd bits = clear_extent_loop mem 0 False t start endd bits 0"

section \<open>Setting bits\<close>

definition set_extent_step ::
  "extent_io_tree \<Rightarrow> u64 \<Rightarrow> u64 \<Rightarrow> int \<Rightarrow> (extent_io_tree \<times> (u64 \<times> bool) option) option" where
  "set_extent_step t start endd bits =
     (case search_cache_extent (st_cache t) start of
        None \<Rightarrow> do { t1 \<leftarrow> insert_state t start endd bits; Some (t1, None) }
      | Some p \<Rightarrow>
          let st = es_at t p; last_start = es_start st; last_end = es_end st in
          if es_start st = start \<and> es_end st \<le> endd then
            do {
              t1 \<leftarrow> merge_state (set_bits_at t p (es_state st OR u64_of_int bits)) p;
              Some (t1, if last_end = - 1 then None else Some (last_end + 1, True))
            }
          else if es_start st < start then
            do {
              t1 \<leftarrow> split_state t p start;
              p1 \<leftarrow> state_ptr t1 start;
              if es_end (es_at t1 p1) \<le> endd then
                do {
                  t2 \<leftarrow> merge_state (set_bits_at t1 p1 (es_state (es_at t1 p1) OR u64_of_int bits)) p1;
                  Some (t2, if last_end = - 1 then None else Some (last_end + 1, False))
                }
              else Some (t1, Some (es_start (es_at t1 p1), False))
            }
          else if es_start st > start then
            let this_end = (if endd < last_start then endd else last_start - 1) in
            do {
              t1 \<leftarrow> insert_state t start this_end bits;
              Some (t1, Some (this_end + 1, False))
            }
          else
            do {
              t1 \<leftarrow> split_state t p (endd + 1);
              p1 \<leftarrow> state_ptr t1 (endd + 1);
              let t2 = set_bits_at t1 p1 (es_state (es_at t1 p1) OR u64_of_int bits);
              p2 \<leftarrow> state_ptr t2 last_start;
              t3 \<leftarrow> merge_state t2 p2;
              Some (t3, None)
            })"

partial_function (option) set_extent_loop ::
  "(nat \<Rightarrow> bool) \<Rightarrow> nat \<Rightarrow> bool \<Rightarrow> extent_io_tree \<Rightarrow> u64 \<Rightarrow> u64 \<Rightarrow> int \<Rightarrow> (int \<times> extent_io_tree) option" where
  "set_extent_loop mem k prealloc t start endd bits =
     (if \<not> prealloc \<and> \<not> mem k then Some (- ENOMEM, t)
      else
        Option.bind (set_extent_step t start endd bits)
          (\<lambda>(t1, nxt). case nxt of
             None \<Rightarrow> Some (0, t1)
           | Some (start1, prealloc1) \<Rightarrow>
               if start1 > endd then Some (0, t1)
               else set_extent_loop mem (if prealloc then k else Suc k) prealloc1 t1 start1 endd bits))"

definition set_extent_bits :: "(nat \<Rightarrow> bool) \<Rightarrow> extent_io_tree \<Rightarrow> u64 \<Rightarrow> u64 \<Rightarrow> int \<Rightarrow> (int \<times> extent_io_tree) option" where
  "set_extent_bits mem t start endd bits = set_extent_loop mem 0 False t start endd bits"

abbreviation (input) EXTENT_DIRTY :: int where "EXTENT_DIRTY \<equiv> 1"

definition set_extent_dirty :: "(nat \<Rightarrow> bool) \<Rightarrow> extent_io_tree \<Rightarrow> u64 \<Rightarrow> u64 \<Rightarrow> (int \<times> extent_io_tree) option" where
  "set_extent_dirty mem t start endd = set_extent_bits mem t start endd EXTENT_DIRTY"

definition clear_extent_dirty :: "(nat \<Rightarrow> bool) \<Rightarrow> extent_io_tree \<Rightarrow> u64 \<Rightarrow> u64 \<Rightarrow> (int \<times> extent_io_tree) option" where
  "clear_extent_dirty mem t start endd = clear_extent_bits mem t start endd EXTENT_DIRTY"

section \<open>Queries\<close>

partial_function (option) find_bit_loop :: "extent_io_tree \<Rightarrow> cache_ptr \<Rightarrow> u64 \<Rightarrow> int \<Rightarrow> (int \<times> (u64 \<times> u64) option) option" where
  "find_bit_loop t node start bits =
     (if es_end (es_at t node) \<ge> start \<and> es_state (es_at t node) AND u64_of_int bits \<noteq> 0
      then Some (0, Some (es_start (es_at t node), es_end (es_at t node)))
      else
        (case next_cache_extent node of
           None \<Rightarrow> Some (1, None)
         | Some nxt \<Rightarrow> find_bit_loop t nxt start bits))"

definition find_first_extent_bit :: "extent_io_tree \<Rightarrow> u64 \<Rightarrow> int \<Rightarrow> (int \<times> (u64 \<times> u64) option) option" where
  "find_first_extent_bit t start bits =
     (case search_cache_extent (st_cache t) start of
        None \<Rightarrow> Some (1, None)
      | Some node \<Rightarrow> find_bit_loop t node start bits)"

text \<open>The loop of \<open>test_range_bit\<close>; its result is \<open>bitset\<close>.\<close>

partial_function (option) test_range_loop ::
  "extent_io_tree \<Rightarrow> cache_ptr \<Rightarrow> u64 \<Rightarrow> u64 \<Rightarrow> int \<Rightarrow> bool \<Rightarrow> bool \<Rightarrow> bool option" where
  "test_range_loop t node start endd bits filled bitset =
     (if \<not> start \<le> endd then Some bitset
      else
        let st = es_at t node; hit = es_state st AND u64_of_int bits \<noteq> 0 in
        if filled \<and> es_start st > start then Some False
        else if es_start st > endd then Some bitset
        else if hit \<and> \<not> filled then Some True
        else if \<not> hit \<and> filled then Some False
        else
          let bitset1 = bitset \<or> hit; start1 = es_end st + 1 in
          if start1 > endd then Some bitset1
          else
            (case next_cache_extent node of
               None \<Rightarrow> Some (bitset1 \<and> \<not> filled)
             | Some nxt \<Rightarrow> test_range_loop t nxt start1 endd bits filled bitset1))"

definition test_range_bit :: "extent_io_tree \<Rightarrow> u64 \<Rightarrow> u64 \<Rightarrow> int \<Rightarrow> bool \<Rightarrow> bool option" where
  "test_range_bit t start endd bits filled =
     (case search_cache_extent (st_cache t) start of
        None \<Rightarrow> Some False
      | Some node \<Rightarrow> test_range_loop t node start endd bits filled False)"

definition state_starting :: "extent_io_tree \<Rightarrow> u64 \<Rightarrow> cache_ptr option" where
  "state_starting t start =
     (case search_cache_extent (st_cache t) start of
        None \<Rightarrow> None
      | Some p \<Rightarrow> if es_start (es_at t p) \<noteq> start then None else Some p)"

definition set_state_private :: "extent_io_tree \<Rightarrow> u64 \<Rightarrow> u64 \<Rightarrow> int \<times> extent_io_tree" where
  "set_state_private t start private =
     (case state_starting t start of
        None \<Rightarrow> (- ENOENT, t)
      | Some p \<Rightarrow> (0, t\<lparr>st_node := (st_node t)(cur_entry p := (es_at t p)\<lparr>es_private := private\<rparr>)\<rparr>))"

definition get_state_private :: "extent_io_tree \<Rightarrow> u64 \<Rightarrow> int \<times> u64 option" where
  "get_state_private t start =
     (case state_starting t start of
        None \<Rightarrow> (- ENOENT, None)
      | Some p \<Rightarrow> (0, Some (es_private (es_at t p))))"

end
