(* ===== verification/ExtentIoSpec.thy ===== *)
theory ExtentIoSpec
  imports ExtentIo
begin

text \<open>
  What the operations of the state tree do to the flags of each byte.
\<close>

section \<open>Extents with their flags\<close>

definition state_inv :: "extent_io_tree \<Rightarrow> bool" where
  "state_inv t \<longleftrightarrow> cache_inv (st_cache t) \<and> (\<forall>ce\<in>set (inorder (st_cache t)). update_extent_state (st_node t ce) = ce)"

definition view :: "extent_io_tree \<Rightarrow> (cache_extent \<times> u64) list" where
  "view t = map (\<lambda>ce. (ce, es_state (st_node t ce))) (inorder (st_cache t))"

definition bits_of :: "(cache_extent \<times> u64) list \<Rightarrow> nat \<Rightarrow> u64" where
  "bits_of xs b = (case find (\<lambda>x. b \<in> ce_bytes (fst x)) xs of None \<Rightarrow> 0 | Some x \<Rightarrow> snd x)"

definition bits_at :: "extent_io_tree \<Rightarrow> nat \<Rightarrow> u64" where
  "bits_at t = bits_of (view t)"

lemma bits_of_simps [simp]:
  "bits_of [] b = 0" "bits_of (x # xs) b = (if b \<in> ce_bytes (fst x) then snd x else bits_of xs b)"
  by (simp_all add: bits_of_def)

lemma bits_of_append:
  "bits_of (xs @ ys) b = (if \<exists>x\<in>set xs. b \<in> ce_bytes (fst x) then bits_of xs b else bits_of ys b)"
  by (induction xs) auto

lemma bits_of_uncovered: "\<forall>x\<in>set xs. b \<notin> ce_bytes (fst x) \<Longrightarrow> bits_of xs b = 0"
  by (induction xs) auto

lemma ce_okD: "ce_ok e \<Longrightarrow> 0 < unat (ce_size e)" "ce_ok e \<Longrightarrow> ce_end e < 2 ^ 64"
  by (simp_all add: ce_ok_def)

lemma ce_adjacent: "ce_start a + ce_size a = x \<Longrightarrow> ce_ok a \<Longrightarrow> ce_end a = unat x"
  by (auto simp: ce_ok_def unat_add_lem [THEN iffD1])

lemma mem_ce: "b \<in> ce_bytes e \<longleftrightarrow> unat (ce_start e) \<le> b \<and> b < ce_end e"
  by (simp add: ce_bytes_def)

text \<open>The end of a state is the last byte of its node.\<close>

lemma state_range:
  assumes "update_extent_state st = ce" and "ce_ok ce"
  shows "es_start st = ce_start ce" "unat (es_end st) + 1 = ce_end ce" "es_end st = ce_start ce + ce_size ce - 1"
proof -
  show s: "es_start st = ce_start ce" using assms(1) by (auto simp: update_extent_state_def)
  show e: "es_end st = ce_start ce + ce_size ce - 1" using assms(1) by (auto simp: update_extent_state_def)
  have "unat (ce_start ce + ce_size ce) = ce_end ce" using ce_okD(2) [OF assms(2)] by (simp add: unat_add_lem [THEN iffD1])
  moreover have "ce_start ce + ce_size ce \<noteq> 0" using calculation ce_okD(1) [OF assms(2)] by auto
  ultimately show "unat (es_end st) + 1 = ce_end ce" using ce_okD(1) [OF assms(2)] by (simp add: e unat_minus_one)
qed

lemma state_of_range:
  assumes "unat start \<le> unat endd" and "unat endd + 1 < 2 ^ 64"
  shows "ce_ok \<lparr>ce_objectid = 0, ce_start = start, ce_size = endd + 1 - start\<rparr>"
    and "unat start + unat (endd + 1 - start) = unat endd + 1"
proof -
  have e: "unat (endd + 1) = unat endd + 1" using assms(2) by (simp add: unat_add_lem [THEN iffD1])
  then have "unat (endd + 1 - start) = unat endd + 1 - unat start" using assms(1) by (simp add: unat_sub word_le_nat_alt)
  then show "unat start + unat (endd + 1 - start) = unat endd + 1"
    "ce_ok \<lparr>ce_objectid = 0, ce_start = start, ce_size = endd + 1 - start\<rparr>"
    using assms by (auto simp: ce_ok_def)
qed

text \<open>A pointer of the tree, with the extents before and behind it.\<close>

definition at_state :: "extent_io_tree \<Rightarrow> cache_ptr \<Rightarrow> cache_extent list \<Rightarrow> cache_extent \<Rightarrow> cache_extent list \<Rightarrow> bool" where
  "at_state t p xs ce ys \<longleftrightarrow> fst p \<noteq> Null \<and> cur_tree p = st_cache t \<and> cur_before p = xs \<and> cur_entry p = ce \<and> cur_after p = ys"

lemma at_stateD:
  assumes "at_state t p xs ce ys"
  shows "inorder (st_cache t) = xs @ ce # ys" "fst p \<noteq> Null" "cur_tree p = st_cache t" "cur_before p = xs" "cur_entry p = ce"
    "cur_after p = ys"
  using assms inorder_cur [of p] by (auto simp: at_state_def)

lemma state_invD:
  assumes "state_inv t" and "inorder (st_cache t) = xs @ ce # ys"
  shows "cache_inv (st_cache t)" "is_rbt (st_cache t)" "ce_ok ce" "update_extent_state (st_node t ce) = ce"
    "\<forall>x\<in>set xs. ce_lt x ce" "\<forall>y\<in>set ys. ce_lt ce y" "\<forall>x\<in>set xs. ce_ok x" "\<forall>y\<in>set ys. ce_ok y"
    "sorted_wrt ce_lt xs" "sorted_wrt ce_lt ys" "\<forall>x\<in>set xs. \<forall>y\<in>set ys. ce_lt x y"
    "\<forall>x\<in>set (xs @ ys). update_extent_state (st_node t x) = x"
  using assms by (auto simp: state_inv_def index_inv_def sorted_wrt_append)

lemma search_state:
  assumes inv: "state_inv t" and s: "unat start + 1 < 2 ^ 64"
  shows "case search_cache_extent (st_cache t) start of
     None \<Rightarrow> \<forall>x\<in>set (inorder (st_cache t)). ce_end x \<le> unat start
   | Some p \<Rightarrow> \<exists>xs ce ys. at_state t p xs ce ys \<and> (\<forall>x\<in>set xs. ce_end x \<le> unat start) \<and> unat start < ce_end ce"
proof -
  have c: "cache_inv (st_cache t)" using inv by (simp add: state_inv_def)
  obtain xs ys where f: "inorder (st_cache t) = xs @ ys" "cur_at (st_cache t) xs (search_cache_extent (st_cache t) start)"
    "\<forall>x\<in>set xs. ce_end x \<le> unat start" "\<forall>y\<in>set ys. unat start < ce_end y"
    using search_cache_extent_spec [OF c s] by blast
  show ?thesis
  proof (cases "search_cache_extent (st_cache t) start")
    case None
    with f show ?thesis by (simp add: cur_at_def)
  next
    case (Some p)
    with f(2) have p: "fst p \<noteq> Null" "cur_tree p = st_cache t" "cur_before p = xs" by (auto simp: cur_at_def)
    then have "ys = cur_entry p # cur_after p" using inorder_cur [OF p(1)] f(1) by simp
    with p f(3,4) Some show ?thesis by (auto simp: at_state_def)
  qed
qed

text \<open>The pointer to an extent is found by its start.\<close>

lemma state_ptr_at:
  assumes inv: "state_inv t" and io: "inorder (st_cache t) = xs @ ce # ys"
  shows "\<exists>p. state_ptr t (ce_start ce) = Some p \<and> at_state t p xs ce ys"
proof -
  note d = state_invD [OF inv io]
  have s: "unat (ce_start ce) + 1 < 2 ^ 64" using ce_okD [OF d(3)] by linarith
  have c: "cache_inv (st_cache t)" by (rule d(1))
  obtain as bs where f: "inorder (st_cache t) = as @ bs" "cur_at (st_cache t) as (search_cache_extent (st_cache t) (ce_start ce))"
    "\<forall>x\<in>set as. ce_end x \<le> unat (ce_start ce)" "\<forall>y\<in>set bs. unat (ce_start ce) < ce_end y"
    using search_cache_extent_spec [OF c s] by blast
  have "as = xs"
  proof (rule split_unique [of as bs xs "ce # ys" "\<lambda>x. ce_end x \<le> unat (ce_start ce)"])
    show "\<forall>y\<in>set (ce # ys). \<not> ce_end y \<le> unat (ce_start ce)"
      using d(3,6,8) by (auto simp: ce_lt_def ce_ok_def)
  qed (use f io d(5) in \<open>auto simp: ce_lt_def\<close>)
  with f(1) io have "bs = ce # ys" by simp
  then have "search_cache_extent (st_cache t) (ce_start ce) \<noteq> None"
    using f(1,2) \<open>as = xs\<close> by (cases "search_cache_extent (st_cache t) (ce_start ce)") (auto simp: cur_at_def)
  then obtain p where p: "search_cache_extent (st_cache t) (ce_start ce) = Some p" by blast
  with f(2) \<open>as = xs\<close> have q: "fst p \<noteq> Null" "cur_tree p = st_cache t" "cur_before p = xs" by (auto simp: cur_at_def)
  with inorder_cur [OF q(1)] io p show ?thesis by (auto simp: at_state_def state_ptr_def)
qed

section \<open>Merging\<close>

abbreviation flagged :: "extent_io_tree \<Rightarrow> cache_extent \<Rightarrow> cache_extent \<times> u64" where
  "flagged t ce \<equiv> (ce, es_state (st_node t ce))"

text \<open>Merging keeps all flags; extents with other flags than \<open>s\<close> stay, and no new ones with other flags appear.\<close>

definition kept :: "u64 \<Rightarrow> extent_io_tree \<Rightarrow> extent_io_tree \<Rightarrow> bool" where
  "kept s t t' \<longleftrightarrow> state_inv t' \<and> bits_at t' = bits_at t \<and>
     (\<forall>x\<in>set (view t'). x \<in> set (view t) \<or> snd x = s) \<and> (\<forall>x\<in>set (view t). snd x \<noteq> s \<longrightarrow> x \<in> set (view t'))"

lemma kept_refl: "state_inv t \<Longrightarrow> kept s t t"
  by (simp add: kept_def)

lemma kept_trans: "kept s t t1 \<Longrightarrow> kept s t1 t2 \<Longrightarrow> kept s t t2"
  by (fastforce simp: kept_def)

lemma join_ok:
  assumes inv: "state_inv t" and io: "inorder (st_cache t) = A @ a # b # B"
    and s: "es_state (st_node t a) = s" "es_state (st_node t b) = s" and adj: "ce_end a = unat (ce_start b)"
    and m: "ce_start m = ce_start a" "ce_end m = ce_end b"
    and c: "is_rbt c" "inorder c = A @ m # B" and st: "update_extent_state st = m" "es_state st = s"
  shows "kept s t \<lparr>st_cache = c, st_node = (st_node t)(m := st)\<rparr>"
proof -
  note da = state_invD [OF inv io]
  have io2: "inorder (st_cache t) = (A @ [a]) @ b # B" using io by simp
  note db = state_invD [OF inv io2]
  have mok: "ce_ok m" using da(3) db(3) m adj by (simp add: ce_ok_def)
  have lt: "\<forall>x\<in>set A. ce_lt x m" "\<forall>y\<in>set B. ce_lt m y"
    using da(5) db(6) m by (auto simp: ce_lt_def)
  then have ne: "m \<notin> set A" "m \<notin> set B" using mok by (auto simp: ce_lt_def ce_ok_def)
  let ?t = "\<lparr>st_cache = c, st_node = (st_node t)(m := st)\<rparr>"
  have v: "view ?t = map (flagged t) A @ (m, s) # map (flagged t) B"
    using ne st(2) c(2) by (auto simp: view_def)
  have v0: "view t = map (flagged t) A @ (a, s) # (b, s) # map (flagged t) B" using io s by (simp add: view_def)
  have "ce_bytes m = ce_bytes a \<union> ce_bytes b" using m adj da(3) db(3) by (auto simp: ce_bytes_def ce_ok_def)
  then have "bits_at ?t = bits_at t" unfolding bits_at_def v v0 by (auto simp: fun_eq_iff bits_of_append)
  moreover have "state_inv ?t"
    unfolding state_inv_def index_inv_def
    using c mok lt ne st(1) da(7,9,12) db(8,10) da(11) by (auto simp: sorted_wrt_append)
  ultimately show ?thesis unfolding kept_def v v0 by auto
qed

lemma merge_prev_ok:
  assumes inv: "state_inv t" and p: "at_state t p xs ce ys" and s: "s = es_state (st_node t ce)"
  shows "\<exists>t1 p1 xs1 ce1. merge_prev t p = Some (t1, p1) \<and> kept s t t1 \<and> at_state t1 p1 xs1 ce1 ys \<and>
    es_state (st_node t1 ce1) = s"
proof -
  note pd = at_stateD [OF p]
  note d = state_invD [OF inv pd(1)]
  show ?thesis
  proof (cases "prev_cache_extent p")
    case None
    then show ?thesis using kept_refl [OF inv] p s by (auto simp: merge_prev_def)
  next
    case (Some q)
    have q: "fst q \<noteq> Null" "cur_tree q = st_cache t" "cur_after q = ce # ys"
      using rb_prev_after [OF pd(2)] Some pd by (auto simp: prev_cache_extent_def)
    define o' where "o' = cur_entry q"
    have io: "inorder (st_cache t) = cur_before q @ o' # ce # ys" using inorder_cur [OF q(1)] q by (simp add: o'_def)
    then have xs: "xs = cur_before q @ [o']" using pd(1) by simp
    note dq = state_invD [OF inv io]
    let ?other = "st_node t o'" and ?st = "st_node t ce"
    note ro = state_range [OF dq(4,3)] and rs = state_range [OF d(4,3)]
    show ?thesis
    proof (cases "es_end ?other = es_start ?st - 1 \<and> es_state ?other = es_state ?st")
      case False
      then have "merge_prev t p = Some (t, p)" using Some by (auto simp: merge_prev_def o'_def pd(5))
      with kept_refl [OF inv] p s show ?thesis by blast
    next
      case True
      have "ce_start o' + ce_size o' = ce_start ce" using True ro(3) rs(1) by (simp add: diff_eq_eq)
      then have adj: "ce_end o' = unat (ce_start ce)" using dq(3) by (rule ce_adjacent)
      let ?st1 = "?st\<lparr>es_start := es_start ?other\<rparr>"
      define m where "m = update_extent_state ?st1"
      have mm: "m = \<lparr>ce_objectid = 0, ce_start = ce_start o', ce_size = es_end ?st + 1 - ce_start o'\<rparr>"
        by (simp add: m_def update_extent_state_def ro(1))
      have "unat (ce_start o') \<le> unat (es_end ?st)" "unat (es_end ?st) + 1 < 2 ^ 64"
        using adj rs(2) ce_okD [OF d(3)] by auto
      from state_of_range(2) [OF this] have me: "ce_start m = ce_start o'" "ce_end m = ce_end ce" using rs(2) by (simp_all add: mm)
      obtain q1 c where c: "prev_cache_extent (rb_replace_node p m) = Some q1" "remove_cache_extent q1 = Some c" "is_rbt c"
        "inorder c = cur_before q @ m # ys"
        using remove_prev_of_replaced [OF pd(2), of "cur_before q" o' m] d(2) pd(3,4,6) xs by auto
      let ?t1 = "\<lparr>st_cache = c, st_node = (st_node t)(m := ?st1)\<rparr>"
      have k: "kept s t ?t1"
        using inv io _ _ adj me c(3,4) by (rule join_ok) (use True s in \<open>simp_all add: m_def\<close>)
      have "state_inv ?t1" using k by (simp add: kept_def)
      from state_ptr_at [OF this, of "cur_before q" m ys] c(4) obtain p1 where
        p1: "state_ptr ?t1 (ce_start m) = Some p1" "at_state ?t1 p1 (cur_before q) m ys" by auto
      have "merge_prev t p = Some (?t1, p1)"
        using Some True c(1,2) p1(1) by (simp add: merge_prev_def pd(5) Let_def ro(1) me(1) flip: o'_def m_def [unfolded ro(1)])
      moreover have "es_state (st_node ?t1 m) = s" using s by simp
      ultimately show ?thesis using k p1(2) by blast
    qed
  qed
qed

lemma merge_next_ok:
  assumes inv: "state_inv t" and p: "at_state t p xs ce ys" and s: "s = es_state (st_node t ce)"
  shows "\<exists>t1. merge_next t p = Some t1 \<and> kept s t t1"
proof -
  note pd = at_stateD [OF p]
  note d = state_invD [OF inv pd(1)]
  show ?thesis
  proof (cases "next_cache_extent p")
    case None
    then show ?thesis using kept_refl [OF inv] by (auto simp: merge_next_def)
  next
    case (Some q)
    have q: "fst q \<noteq> Null" "cur_tree q = st_cache t" "cur_before q = xs @ [ce]"
      using rb_next_at [OF pd(2)] Some pd by (auto simp: next_cache_extent_def cur_at_def)
    define n where "n = cur_entry q"
    have io: "inorder (st_cache t) = xs @ ce # n # cur_after q" using inorder_cur [OF q(1)] q by (simp add: n_def)
    have io2: "inorder (st_cache t) = (xs @ [ce]) @ n # cur_after q" using io by simp
    note dn = state_invD [OF inv io2]
    let ?other = "st_node t n" and ?st = "st_node t ce"
    note ro = state_range [OF dn(4,3)] and rs = state_range [OF d(4,3)]
    show ?thesis
    proof (cases "es_start ?other = es_end ?st + 1 \<and> es_state ?other = es_state ?st")
      case False
      then show ?thesis using Some kept_refl [OF inv] by (auto simp: merge_next_def n_def pd(5))
    next
      case True
      have "ce_start ce + ce_size ce = ce_start n" using True ro(1) rs(3) by simp
      then have adj: "ce_end ce = unat (ce_start n)" using d(3) by (rule ce_adjacent)
      let ?other1 = "?other\<lparr>es_start := es_start ?st\<rparr>"
      define m where "m = update_extent_state ?other1"
      have mm: "m = \<lparr>ce_objectid = 0, ce_start = ce_start ce, ce_size = es_end ?other + 1 - ce_start ce\<rparr>"
        by (simp add: m_def update_extent_state_def rs(1))
      have "unat (ce_start ce) \<le> unat (es_end ?other)" "unat (es_end ?other) + 1 < 2 ^ 64"
        using adj ro(2) ce_okD [OF dn(3)] by auto
      from state_of_range(2) [OF this] have me: "ce_start m = ce_start ce" "ce_end m = ce_end n" using ro(2) by (simp_all add: mm)
      obtain p1 c where c: "prev_cache_extent (rb_replace_node q m) = Some p1" "remove_cache_extent p1 = Some c" "is_rbt c"
        "inorder c = xs @ m # cur_after q"
        using remove_prev_of_replaced [OF q(1), of xs ce m] dn(2) q(2,3) by auto
      have k: "kept s t \<lparr>st_cache = c, st_node = (st_node t)(m := ?other1)\<rparr>"
        using inv io _ _ adj me c(3,4) by (rule join_ok) (use True s in \<open>simp_all add: m_def\<close>)
      have "merge_next t p = Some \<lparr>st_cache = c, st_node = (st_node t)(m := ?other1)\<rparr>"
        using Some True c(1,2) by (simp add: merge_next_def pd(5) Let_def flip: n_def m_def)
      with k show ?thesis by blast
    qed
  qed
qed

lemma merge_state_ok:
  assumes inv: "state_inv t" and p: "at_state t p xs ce ys" and s: "s = es_state (st_node t ce)"
  shows "\<exists>t1. merge_state t p = Some t1 \<and> kept s t t1"
proof (cases "s AND EXTENT_IOBITS \<noteq> 0")
  case True
  then show ?thesis using kept_refl [OF inv] s at_stateD(5) [OF p] by (simp add: merge_state_def)
next
  case False
  obtain t1 p1 xs1 ce1 where m: "merge_prev t p = Some (t1, p1)" "kept s t t1" "at_state t1 p1 xs1 ce1 ys" "es_state (st_node t1 ce1) = s"
    using merge_prev_ok [OF inv p s] by blast
  have "state_inv t1" using m(2) by (simp add: kept_def)
  from merge_next_ok [OF this m(3)] m(4) obtain t2 where "merge_next t1 p1 = Some t2" "kept s t1 t2" by auto
  with m False s at_stateD(5) [OF p] kept_trans show ?thesis by (auto simp: merge_state_def)
qed

section \<open>Changing the flags of an extent\<close>

text \<open>The extent at a pointer gets the flags \<open>v\<close>.\<close>

lemma set_bits_at_ok:
  assumes inv: "state_inv t" and p: "at_state t p xs ce ys"
  shows "state_inv (set_bits_at t p v)" "at_state (set_bits_at t p v) p xs ce ys" "es_state (st_node (set_bits_at t p v) ce) = v"
    "view (set_bits_at t p v) = map (flagged t) xs @ (ce, v) # map (flagged t) ys"
    "bits_at (set_bits_at t p v) b = (if b \<in> ce_bytes ce then v else bits_at t b)"
proof -
  note pd = at_stateD [OF p]
  note d = state_invD [OF inv pd(1)]
  have ne: "ce \<notin> set xs" "ce \<notin> set ys" using d(3,5,6) by (auto simp: ce_lt_def ce_ok_def)
  show "es_state (st_node (set_bits_at t p v) ce) = v" by (simp add: set_bits_at_def pd(5))
  show "at_state (set_bits_at t p v) p xs ce ys" using p by (simp add: at_state_def set_bits_at_def)
  show "state_inv (set_bits_at t p v)" using inv d(4) by (auto simp: state_inv_def set_bits_at_def pd(5) update_extent_state_def)
  show v: "view (set_bits_at t p v) = map (flagged t) xs @ (ce, v) # map (flagged t) ys"
    using ne by (auto simp: view_def set_bits_at_def pd)
  have "\<forall>x\<in>set xs. b \<notin> ce_bytes x" if "b \<in> ce_bytes ce" using that d(5) by (fastforce simp: ce_lt_def mem_ce)
  then show "bits_at (set_bits_at t p v) b = (if b \<in> ce_bytes ce then v else bits_at t b)"
    unfolding bits_at_def v by (auto simp: view_def pd(1) bits_of_append)
qed

lemma state_bits: "state_inv t \<Longrightarrow> at_state t p xs ce ys \<Longrightarrow> b \<in> ce_bytes ce \<Longrightarrow> bits_at t b = es_state (st_node t ce)"
  using set_bits_at_ok(5) [of t p xs ce ys "es_state (st_node t ce)" b] at_stateD(5) [of t p xs ce ys]
  by (simp add: set_bits_at_def)

text \<open>Flags set, then merged.\<close>

lemma set_and_merge_ok:
  assumes inv: "state_inv t" and p: "at_state t p xs ce ys"
  shows "\<exists>t1. merge_state (set_bits_at t p v) p = Some t1 \<and> state_inv t1 \<and>
    (\<forall>b. bits_at t1 b = (if b \<in> ce_bytes ce then v else bits_at t b)) \<and>
    (\<forall>x\<in>set (view t1). x \<in> set (view t) \<or> snd x = v) \<and> (\<forall>x\<in>set (view t). fst x \<noteq> ce \<and> snd x \<noteq> v \<longrightarrow> x \<in> set (view t1))"
proof -
  note sb = set_bits_at_ok [OF inv p, of v]
  obtain t1 where t1: "merge_state (set_bits_at t p v) p = Some t1" "kept v (set_bits_at t p v) t1"
    using merge_state_ok [OF sb(1,2) sb(3) [symmetric]] by blast
  have v: "view t = map (flagged t) xs @ flagged t ce # map (flagged t) ys" by (simp add: view_def at_stateD(1) [OF p])
  from t1(2) have "state_inv t1" "bits_at t1 = bits_at (set_bits_at t p v)"
    "\<forall>x\<in>set (view t1). x \<in> set (view (set_bits_at t p v)) \<or> snd x = v"
    "\<forall>x\<in>set (view (set_bits_at t p v)). snd x \<noteq> v \<longrightarrow> x \<in> set (view t1)" by (simp_all add: kept_def)
  with t1(1) sb(5) show ?thesis unfolding sb(4) v by auto
qed

lemma remove_state_ok:
  assumes inv: "state_inv t" and p: "at_state t p xs ce ys"
  shows "\<exists>c. remove_cache_extent p = Some c \<and> state_inv (t\<lparr>st_cache := c\<rparr>) \<and>
    (\<forall>b. bits_at (t\<lparr>st_cache := c\<rparr>) b = (if b \<in> ce_bytes ce then 0 else bits_at t b))"
proof -
  note pd = at_stateD [OF p]
  note d = state_invD [OF inv pd(1)]
  obtain c where c: "remove_cache_extent p = Some c" "cache_inv c" "inorder c = xs @ ys"
    using remove_cache_extent_spec [of p] d(1) pd by auto
  have "bits_at (t\<lparr>st_cache := c\<rparr>) b = (if b \<in> ce_bytes ce then 0 else bits_at t b)" for b
  proof (cases "b \<in> ce_bytes ce")
    case True
    then have "\<forall>x\<in>set (xs @ ys). b \<notin> ce_bytes x" using d(5,6) by (fastforce simp: ce_lt_def mem_ce)
    then have "bits_of (map (flagged t) (xs @ ys)) b = 0" by (intro bits_of_uncovered) auto
    then show ?thesis using True c(3) by (simp add: bits_at_def view_def)
  next
    case False
    then show ?thesis using c(3) pd(1) by (simp add: bits_at_def view_def bits_of_append)
  qed
  with c d(12) show ?thesis by (auto simp: state_inv_def)
qed

lemma u64_of_not: "u64_of_int (NOT b) = NOT (u64_of_int b)"
  by (simp add: u64_of_int_def of_int_not_eq)

lemma clear_state_bit_ok:
  assumes inv: "state_inv t" and p: "at_state t p xs ce ys"
  shows "\<exists>t1. clear_state_bit t p bits = Some (int_of_u64 (es_state (st_node t ce) AND u64_of_int bits), t1) \<and> state_inv t1 \<and>
    (\<forall>b. bits_at t1 b = (if b \<in> ce_bytes ce then bits_at t b AND NOT (u64_of_int bits) else bits_at t b))"
proof -
  let ?v = "es_state (st_node t ce) AND NOT (u64_of_int bits)"
  note pd = at_stateD [OF p] and sb = set_bits_at_ok [OF inv p, of ?v]
  have bits: "b \<in> ce_bytes ce \<Longrightarrow> bits_at t b AND NOT (u64_of_int bits) = ?v" for b using state_bits [OF inv p] by simp
  show ?thesis
  proof (cases "?v = 0")
    case True
    with remove_state_ok [OF sb(1,2)] sb(5) bits show ?thesis
      by (auto simp: clear_state_bit_def pd(5) u64_of_not Let_def)
  next
    case False
    with set_and_merge_ok [OF inv p, of ?v] bits show ?thesis
      by (auto simp: clear_state_bit_def pd(5) u64_of_not Let_def)
  qed
qed

section \<open>Splitting and inserting\<close>

lemma insert_fresh_state:
  assumes inv: "state_inv t" and io: "inorder (st_cache t) = xs @ ys" and e: "ce_ok e"
    and lt: "\<forall>x\<in>set xs. ce_lt x e" "\<forall>y\<in>set ys. ce_lt e y" and st: "update_extent_state st = e"
  shows "\<exists>c. insert_cache_extent (st_cache t) e = Some (0, c) \<and> inorder c = xs @ e # ys \<and>
    state_inv \<lparr>st_cache = c, st_node = (st_node t)(e := st)\<rparr> \<and>
    view \<lparr>st_cache = c, st_node = (st_node t)(e := st)\<rparr> = map (flagged t) xs @ (e, es_state st) # map (flagged t) ys"
proof -
  have c: "cache_inv (st_cache t)" using inv by (simp add: state_inv_def)
  obtain c' xs' ys' where t': "insert_cache_extent (st_cache t) e = Some (0, c')" "cache_inv c'"
    "inorder (st_cache t) = xs' @ ys'" "inorder c' = xs' @ e # ys'"
    using ct.insert_fresh [OF c e] lt io unfolding insert_cache_extent_def by (metis Un_iff set_append)
  have "\<not> (ce_lt a e \<and> ce_lt e a)" for a using e by (auto simp: ce_lt_def ce_ok_def)
  then have "xs = xs'"
    using lt t' io by (intro split_unique [of xs ys xs' ys' "\<lambda>x. ce_lt x e"]) (auto simp: index_inv_def sorted_wrt_append)
  with t' io have io': "inorder c' = xs @ e # ys" by simp
  have ne: "e \<notin> set xs" "e \<notin> set ys" using lt e by (auto simp: ce_lt_def ce_ok_def)
  have "state_inv \<lparr>st_cache = c', st_node = (st_node t)(e := st)\<rparr>"
    using t'(2) io' inv io ne st by (auto simp: state_inv_def)
  with t'(1) io' ne show ?thesis by (intro exI [of _ c']) (auto simp: view_def)
qed

lemma split_state_ok:
  assumes inv: "state_inv t" and p: "at_state t p xs ce ys" and s: "unat (ce_start ce) < unat split" "unat split < ce_end ce"
  shows "\<exists>t1 l r. split_state t p split = Some t1 \<and> state_inv t1 \<and> inorder (st_cache t1) = xs @ l # r # ys \<and>
    ce_start l = ce_start ce \<and> ce_end l = unat split \<and> ce_start r = split \<and> ce_end r = ce_end ce \<and>
    view t1 = map (flagged t) xs @ (l, es_state (st_node t ce)) # (r, es_state (st_node t ce)) # map (flagged t) ys \<and>
    bits_at t1 = bits_at t"
proof -
  note pd = at_stateD [OF p]
  note d = state_invD [OF inv pd(1)]
  let ?st = "st_node t ce"
  note rs = state_range [OF d(4,3)]
  let ?pre = "new_state (es_start ?st) (split - 1) (es_state ?st)" and ?orig = "?st\<lparr>es_start := split\<rparr>"
  define l where "l = update_extent_state ?pre"
  define r where "r = update_extent_state ?orig"
  have sp: "split \<noteq> 0" using s(1) by auto
  then have s1: "unat (split - 1) + 1 = unat split" using s(1) by (simp add: unat_minus_one)
  have ll: "l = \<lparr>ce_objectid = 0, ce_start = ce_start ce, ce_size = split - 1 + 1 - ce_start ce\<rparr>"
    by (simp add: l_def update_extent_state_def new_state_def rs(1))
  have rr: "r = \<lparr>ce_objectid = 0, ce_start = split, ce_size = es_end ?st + 1 - split\<rparr>"
    by (simp add: r_def update_extent_state_def)
  have b: "unat (ce_start ce) \<le> unat (split - 1)" "unat (split - 1) + 1 < 2 ^ 64" "unat split \<le> unat (es_end ?st)" "unat (es_end ?st) + 1 < 2 ^ 64"
    using s s1 rs(2) ce_okD [OF d(3)] by linarith+
  note okl = state_of_range [OF b(1,2), folded ll] and okr = state_of_range [OF b(3,4), folded rr]
  have le: "ce_start l = ce_start ce" "ce_end l = unat split" using okl(2) s1 by (simp_all add: ll)
  have re: "ce_start r = split" "ce_end r = ce_end ce" using okr(2) rs(2) by (simp_all add: rr)
  let ?p1 = "rb_replace_node p r"
  note rp = rb_replace_node_ok [OF pd(2), of r]
  let ?t0 = "\<lparr>st_cache = cur_tree ?p1, st_node = (st_node t)(r := ?orig)\<rparr>"
  have io0: "inorder (cur_tree ?p1) = xs @ r # ys" using rp(1) pd by simp
  have lt: "\<forall>x\<in>set xs. ce_lt x r" "\<forall>y\<in>set ys. ce_lt r y" using d(5,6) le re s(1) by (auto simp: ce_lt_def)
  then have ner: "r \<notin> set xs" "r \<notin> set ys" using okr(1) by (auto simp: ce_lt_def ce_ok_def)
  have inv0: "state_inv ?t0"
    unfolding state_inv_def index_inv_def
    using rp(2) pd(3) d(2,7-12) lt okr(1) ner io0 by (auto simp: sorted_wrt_append r_def)
  have "\<forall>x\<in>set xs. ce_lt x l" "\<forall>y\<in>set (r # ys). ce_lt l y" using d(5,6) le re s by (auto simp: ce_lt_def)
  from insert_fresh_state [OF inv0 _ okl(1) this, of ?pre] io0 obtain c where
    c: "insert_cache_extent (cur_tree ?p1) l = Some (0, c)" "inorder c = xs @ l # r # ys"
    "state_inv \<lparr>st_cache = c, st_node = (st_node ?t0)(l := ?pre)\<rparr>"
    "view \<lparr>st_cache = c, st_node = (st_node ?t0)(l := ?pre)\<rparr> = map (flagged ?t0) xs @ (l, es_state ?st) # map (flagged ?t0) (r # ys)"
    by (auto simp: l_def new_state_def)
  let ?t1 = "\<lparr>st_cache = c, st_node = (st_node t)(r := ?orig, l := ?pre)\<rparr>"
  have v: "view ?t1 = map (flagged t) xs @ (l, es_state ?st) # (r, es_state ?st) # map (flagged t) ys"
    using c(4) ner by (auto simp: view_def)
  have "ce_bytes ce = ce_bytes l \<union> ce_bytes r" using le re s by (auto simp: ce_bytes_def)
  then have "bits_at ?t1 = bits_at t"
    unfolding bits_at_def v by (auto simp: fun_eq_iff view_def pd(1) bits_of_append)
  moreover have "split_state t p split = Some ?t1"
    using c(1) by (simp add: split_state_def pd(5) Let_def flip: l_def r_def)
  moreover have "inorder (st_cache ?t1) = xs @ l # r # ys" "state_inv ?t1" using c(2,3) by simp_all
  ultimately show ?thesis using v le re by blast
qed

lemma insert_state_ok:
  assumes inv: "state_inv t" and io: "inorder (st_cache t) = xs @ ys" and r: "unat start \<le> unat endd" "unat endd + 1 < 2 ^ 64"
    and gap: "\<forall>x\<in>set xs. ce_end x \<le> unat start" "\<forall>y\<in>set ys. unat endd < unat (ce_start y)"
  shows "\<exists>t1. insert_state t start endd bits = Some t1 \<and> state_inv t1 \<and>
    (\<forall>b. bits_at t1 b = (if unat start \<le> b \<and> b \<le> unat endd then u64_of_int bits else bits_at t b)) \<and>
    (\<forall>x\<in>set (view t1). x \<in> set (view t) \<or> snd x = u64_of_int bits) \<and>
    (\<forall>x\<in>set (view t). snd x \<noteq> u64_of_int bits \<longrightarrow> x \<in> set (view t1))"
proof -
  let ?st = "new_state start endd (u64_of_int bits)"
  define e where "e = update_extent_state ?st"
  have ee: "e = \<lparr>ce_objectid = 0, ce_start = start, ce_size = endd + 1 - start\<rparr>" by (simp add: e_def update_extent_state_def new_state_def)
  note ok = state_of_range [OF r, folded ee]
  have ce: "ce_start e = start" "ce_end e = unat endd + 1" using ok(2) by (simp_all add: ee)
  have lt: "\<forall>x\<in>set xs. ce_lt x e" "\<forall>y\<in>set ys. ce_lt e y" using gap ce by (auto simp: ce_lt_def)
  obtain c where c: "insert_cache_extent (st_cache t) e = Some (0, c)" "inorder c = xs @ e # ys"
    "state_inv \<lparr>st_cache = c, st_node = (st_node t)(e := ?st)\<rparr>"
    "view \<lparr>st_cache = c, st_node = (st_node t)(e := ?st)\<rparr> = map (flagged t) xs @ (e, u64_of_int bits) # map (flagged t) ys"
    using insert_fresh_state [OF inv io ok(1) lt, of ?st] by (auto simp: e_def new_state_def)
  let ?t0 = "\<lparr>st_cache = c, st_node = (st_node t)(e := ?st)\<rparr>"
  obtain p where p: "state_ptr ?t0 start = Some p" "at_state ?t0 p xs e ys"
    using state_ptr_at [OF c(3), of xs e ys] c(2) ce(1) by auto
  obtain t1 where t1: "merge_state ?t0 p = Some t1" "kept (u64_of_int bits) ?t0 t1"
    using merge_state_ok [OF c(3) p(2)] by (auto simp: new_state_def)
  have "insert_state t start endd bits = Some t1"
    using r(1) c(1) p(1) t1(1) by (simp add: insert_state_def Let_def not_less word_le_nat_alt flip: e_def)
  moreover have "view t = map (flagged t) xs @ map (flagged t) ys" by (simp add: view_def io)
  moreover have "bits_at ?t0 b = (if unat start \<le> b \<and> b \<le> unat endd then u64_of_int bits else bits_at t b)" for b
  proof -
    have "b \<in> ce_bytes e \<longleftrightarrow> unat start \<le> b \<and> b \<le> unat endd" using ce by (auto simp: mem_ce)
    moreover have "b \<in> ce_bytes e \<Longrightarrow> \<forall>x\<in>set xs. b \<notin> ce_bytes x" using lt(1) by (fastforce simp: ce_lt_def mem_ce)
    ultimately show ?thesis unfolding bits_at_def c(4) by (auto simp: view_def io bits_of_append)
  qed
  ultimately show ?thesis using t1(2) c(4) by (auto simp: kept_def)
qed

section \<open>Clearing a range\<close>

text \<open>
  \<open>cleared t t1 a b bits r\<close>: the flags of the bytes from \<open>a\<close> up to \<open>b\<close> were cleared, and \<open>r\<close> is the union of those that were set.
\<close>

definition was_set :: "extent_io_tree \<Rightarrow> nat \<Rightarrow> nat \<Rightarrow> int \<Rightarrow> nat \<Rightarrow> bool" where
  "was_set t a b bits i \<longleftrightarrow> (\<exists>x. a \<le> x \<and> x < b \<and> bit (bits_at t x AND u64_of_int bits) i)"

definition cleared :: "extent_io_tree \<Rightarrow> extent_io_tree \<Rightarrow> nat \<Rightarrow> nat \<Rightarrow> int \<Rightarrow> int \<Rightarrow> bool" where
  "cleared t t1 a b bits r \<longleftrightarrow> state_inv t1 \<and>
     (\<forall>x. bits_at t1 x = (if a \<le> x \<and> x < b then bits_at t x AND NOT (u64_of_int bits) else bits_at t x)) \<and>
     (\<forall>i<31. bit r i \<longleftrightarrow> was_set t a b bits i)"

lemma cleared_trans:
  assumes "cleared t t1 a b bits r" and "cleared t1 t2 b c bits r'" and "a \<le> b" and "b \<le> c"
  shows "cleared t t2 a c bits (r OR r')"
proof -
  have "bits_at t1 x = bits_at t x" if "b \<le> x" for x using assms(1) that by (simp add: cleared_def)
  then have "was_set t1 b c bits i = was_set t b c bits i" for i unfolding was_set_def by metis
  moreover have "was_set t a c bits i \<longleftrightarrow> was_set t a b bits i \<or> was_set t b c bits i" for i
    using assms(3,4) unfolding was_set_def by (metis less_le_trans not_le le_trans)
  ultimately show ?thesis using assms by (auto simp: cleared_def bit_or_iff)
qed

lemma cleared_none:
  assumes "state_inv t" and "\<And>x. a \<le> x \<Longrightarrow> x < b \<Longrightarrow> bits_at t x = 0"
  shows "cleared t t a b bits 0"
  using assms by (auto simp: cleared_def was_set_def)

lemma cleared_cong: "bits_at t1 = bits_at t \<Longrightarrow> cleared t1 t2 a b bits r \<Longrightarrow> cleared t t2 a b bits r"
  by (simp add: cleared_def was_set_def)

definition starts_inside :: "extent_io_tree \<Rightarrow> nat \<Rightarrow> bool" where
  "starts_inside t a \<longleftrightarrow> (\<exists>ce\<in>set (inorder (st_cache t)). unat (ce_start ce) < a \<and> a < ce_end ce)"

lemma gap_bits:
  assumes "inorder (st_cache t) = xs @ ys" and "\<forall>x\<in>set xs. ce_end x \<le> b" and "\<forall>y\<in>set ys. b < unat (ce_start y)"
  shows "bits_at t b = 0"
proof -
  have "\<forall>x\<in>set (view t). b \<notin> ce_bytes (fst x)" using assms by (fastforce simp: view_def mem_ce)
  then show ?thesis by (simp add: bits_at_def bits_of_uncovered)
qed

lemma gap_before:
  assumes "state_inv t" and "inorder (st_cache t) = xs @ ce # ys" and "\<forall>x\<in>set xs. ce_end x \<le> a" and "a \<le> x" and "x < unat (ce_start ce)"
  shows "bits_at t x = 0"
proof (rule gap_bits [OF assms(2)])
  show "\<forall>y\<in>set (ce # ys). x < unat (ce_start y)" using assms(5) state_invD(6) [OF assms(1,2)] by (fastforce simp: ce_lt_def)
qed (use assms(3,4) in auto)

lemma bit_int_of_u64: "i < 31 \<Longrightarrow> bit (int_of_u64 w) i = bit w i"
  by (simp add: int_of_u64_def bit_simps)

lemma clear_whole_ok:
  assumes inv: "state_inv t" and p: "at_state t p xs ce ys" and lo: "a \<le> unat (ce_start ce)"
    and before: "\<forall>x\<in>set xs. ce_end x \<le> a" and b: "b = ce_end ce"
  shows "\<exists>r t1. clear_state_bit t p bits = Some (r, t1) \<and> cleared t t1 a b bits r"
proof -
  note pd = at_stateD [OF p]
  note d = state_invD [OF inv pd(1)]
  obtain t1 where t1: "clear_state_bit t p bits = Some (int_of_u64 (es_state (st_node t ce) AND u64_of_int bits), t1)" "state_inv t1"
    "\<forall>x. bits_at t1 x = (if x \<in> ce_bytes ce then bits_at t x AND NOT (u64_of_int bits) else bits_at t x)"
    using clear_state_bit_ok [OF inv p] by blast
  note gap = gap_before [OF inv pd(1) before]
  have in_ce: "unat (ce_start ce) \<in> ce_bytes ce" using ce_okD(1) [OF d(3)] by (simp add: mem_ce)
  have "was_set t a b bits i \<longleftrightarrow> bit (es_state (st_node t ce) AND u64_of_int bits) i" for i
  proof
    assume "was_set t a b bits i"
    then obtain x where x: "a \<le> x" "x < b" "bit (bits_at t x AND u64_of_int bits) i" by (auto simp: was_set_def)
    then have "x \<in> ce_bytes ce" using gap [of x] b by (cases "x < unat (ce_start ce)") (auto simp: mem_ce)
    with x(3) state_bits [OF inv p] show "bit (es_state (st_node t ce) AND u64_of_int bits) i" by simp
  next
    assume "bit (es_state (st_node t ce) AND u64_of_int bits) i"
    with state_bits [OF inv p in_ce] lo b in_ce show "was_set t a b bits i"
      unfolding was_set_def by (intro exI [of _ "unat (ce_start ce)"]) (auto simp: mem_ce)
  qed
  with t1(2,3) lo b gap have "cleared t t1 a b bits (int_of_u64 (es_state (st_node t ce) AND u64_of_int bits))"
    by (auto simp: cleared_def mem_ce bit_int_of_u64)
  with t1(1) show ?thesis by blast
qed

lemma after_state:
  assumes "update_extent_state st = ce" and "ce_ok ce"
  shows "es_end st \<noteq> - 1" "unat (es_end st + 1) = ce_end ce"
proof -
  have e: "unat (es_end st) + 1 < 2 ^ 64" using state_range(2) [OF assms] ce_okD(2) [OF assms(2)] by simp
  then show "es_end st \<noteq> - 1" by (auto simp: unsigned_minus_1_eq_mask mask_eq_exp_minus_1)
  show "unat (es_end st + 1) = ce_end ce" using e state_range(2) [OF assms] by (simp add: unat_add_lem [THEN iffD1])
qed

text \<open>
  One step clears up to where it goes on, or up to the end; when it goes on where it was, an extent begins there.
\<close>

lemma clear_step_ok:
  assumes inv: "state_inv t" and se: "unat start \<le> unat endd" "unat endd + 1 < 2 ^ 64"
  shows "\<exists>r t1 nxt. clear_extent_step t start endd bits = Some (r, t1, nxt) \<and>
    (case nxt of None \<Rightarrow> cleared t t1 (unat start) (unat endd + 1) bits r
     | Some (start1, prealloc) \<Rightarrow> unat start \<le> unat start1 \<and> unat start1 \<le> unat endd + 1 \<and>
         cleared t t1 (unat start) (unat start1) bits r \<and>
         (unat start1 = unat start \<longrightarrow> starts_inside t (unat start) \<and> \<not> starts_inside t1 (unat start)))"
proof -
  let ?s = "unat start" and ?e = "unat endd"
  have s1: "?s + 1 < 2 ^ 64" using se by linarith
  show ?thesis
  proof (cases "search_cache_extent (st_cache t) start")
    case None
    then have "\<forall>x\<in>set (inorder (st_cache t)). ce_end x \<le> ?s" using search_state [OF inv s1] by simp
    then have "cleared t t ?s (?e + 1) bits 0" 
      by (intro cleared_none [OF inv] gap_bits [of t "inorder (st_cache t)" "[]"]) fastforce+
    with None show ?thesis by (simp add: clear_extent_step_def)
  next
    case (Some p)
    then obtain xs ce ys where p: "at_state t p xs ce ys" and before: "\<forall>x\<in>set xs. ce_end x \<le> ?s" and up: "?s < ce_end ce"
      using search_state [OF inv s1] by auto
    note pd = at_stateD [OF p]
    note d = state_invD [OF inv pd(1)]
    let ?st = "st_node t ce"
    note rs = state_range [OF d(4,3)] and af = after_state [OF d(4,3)]
    have cmp: "es_start ?st > endd \<longleftrightarrow> unat (ce_start ce) > ?e" "es_start ?st < start \<longleftrightarrow> unat (ce_start ce) < ?s"
      "es_end ?st > endd \<longleftrightarrow> ce_end ce > ?e + 1" "es_end ?st \<le> endd \<longleftrightarrow> ce_end ce \<le> ?e + 1"
      "es_start ?st \<le> endd \<longleftrightarrow> unat (ce_start ce) \<le> ?e"
      using rs(1,2) by (auto simp: word_less_nat_alt word_le_nat_alt)
    consider (beyond) "unat (ce_start ce) > ?e" | (inside) "unat (ce_start ce) < ?s"
      | (over) "?s \<le> unat (ce_start ce)" "unat (ce_start ce) \<le> ?e" "ce_end ce > ?e + 1"
      | (whole) "?s \<le> unat (ce_start ce)" "unat (ce_start ce) \<le> ?e" "ce_end ce \<le> ?e + 1" by linarith
    then show ?thesis
    proof cases
      case beyond
      then have "cleared t t ?s (?e + 1) bits 0"
        using gap_before [OF inv pd(1) before] by (intro cleared_none [OF inv]) auto
      with Some beyond cmp(1) show ?thesis by (simp add: clear_extent_step_def pd(5) Let_def)
    next
      case inside
      obtain t1 l r where sp: "split_state t p start = Some t1" "state_inv t1" "inorder (st_cache t1) = xs @ l # r # ys"
        "ce_start l = ce_start ce" "ce_end l = ?s" "ce_start r = start" "ce_end r = ce_end ce" "bits_at t1 = bits_at t"
        using split_state_ok [OF inv p inside up] by blast
      obtain p1 where p1: "state_ptr t1 start = Some p1" "at_state t1 p1 (xs @ [l]) r ys"
        using state_ptr_at [OF sp(2), of "xs @ [l]" r ys] sp(3,6) by auto
      note d1 = state_invD [OF sp(2) at_stateD(1) [OF p1(2)]]
      have en: "es_end (st_node t1 r) = es_end ?st" "es_start (st_node t1 r) = start"
        using state_range(1,2) [OF d1(4,3)] rs(2) sp(6,7) by (simp_all add: word_unat_eq_iff)
      show ?thesis
      proof (cases "ce_end ce \<le> ?e + 1")
        case True
        obtain q t2 where c: "clear_state_bit t1 p1 bits = Some (q, t2)" "cleared t1 t2 ?s (ce_end ce) bits q"
          using clear_whole_ok [OF sp(2) p1(2), of ?s "ce_end ce" bits] sp(5-7) before by auto
        with True Some inside cmp sp(1) p1 en af se(1) up cleared_cong [OF sp(8) c(2)] show ?thesis
          by (simp add: clear_extent_step_def pd(5) at_stateD(5) [OF p1(2)] Let_def)
      next
        case False
        have "starts_inside t ?s" using inside up pd(1) by (auto simp: starts_inside_def)
        moreover have "\<not> starts_inside t1 ?s"
          unfolding starts_inside_def sp(3) using before sp(4-7) d(6) up by (auto simp: ce_lt_def)
        moreover have "cleared t t1 ?s ?s bits 0" using sp(2,8) by (auto simp: cleared_def was_set_def)
        ultimately show ?thesis
          using False Some inside cmp sp(1) p1 en se by (simp add: clear_extent_step_def pd(5) at_stateD(5) [OF p1(2)] Let_def)
      qed
    next
      case over
      have e1: "unat (endd + 1) = ?e + 1" using se(2) by (simp add: unat_add_lem [THEN iffD1])
      then have "unat (ce_start ce) < unat (endd + 1)" "unat (endd + 1) < ce_end ce" using over by simp_all
      from split_state_ok [OF inv p this] obtain t1 l r where
        sp: "split_state t p (endd + 1) = Some t1" "state_inv t1" "inorder (st_cache t1) = xs @ l # r # ys"
        "ce_start l = ce_start ce" "ce_end l = ?e + 1" "bits_at t1 = bits_at t" using e1 by auto
      obtain p1 where p1: "state_ptr t1 (ce_start ce) = Some p1" "at_state t1 p1 xs l (r # ys)"
        using state_ptr_at [OF sp(2), of xs l "r # ys"] sp(3,4) by auto
      obtain q t2 where c: "clear_state_bit t1 p1 bits = Some (q, t2)" "cleared t1 t2 ?s (?e + 1) bits q"
        using clear_whole_ok [OF sp(2) p1(2), of ?s "?e + 1" bits] sp(4,5) before over by auto
      with Some over cmp sp(1) p1 rs(1) cleared_cong [OF sp(6) c(2)] show ?thesis
        by (simp add: clear_extent_step_def pd(5) Let_def)
    next
      case whole
      obtain q t2 where c: "clear_state_bit t p bits = Some (q, t2)" "cleared t t2 ?s (ce_end ce) bits q"
        using clear_whole_ok [OF inv p, of ?s "ce_end ce" bits] whole before by auto
      have "\<not> es_start ?st > endd" "\<not> es_start ?st < start" "\<not> es_end ?st > endd" "\<not> ce_end ce = ?s"
        using whole cmp up by auto
      with Some whole c af up show ?thesis by (simp add: clear_extent_step_def pd(5) Let_def)
    qed
  qed
qed

lemma clear_loop_ok:
  assumes "state_inv t" and "unat start \<le> unat endd" and "unat endd + 1 < 2 ^ 64"
  shows "\<exists>r t1 b. clear_extent_loop mem k prealloc t start endd bits c = Some (r, t1) \<and> unat start \<le> b \<and> b \<le> unat endd + 1 \<and>
    (if b = unat endd + 1 then \<exists>q. r = c OR q \<and> cleared t t1 (unat start) b bits q
     else r = - ENOMEM \<and> (\<exists>q. cleared t t1 (unat start) b bits q)) \<and> ((\<forall>i. mem i) \<longrightarrow> b = unat endd + 1)"
  using assms
proof (induction "2 * (unat endd + 1 - unat start) + of_bool (starts_inside t (unat start))" arbitrary: t start k prealloc c rule: less_induct)
  case less
  let ?s = "unat start" and ?e = "unat endd"
  show ?case
  proof (cases "\<not> prealloc \<and> \<not> mem k")
    case True
    have "cleared t t ?s ?s bits 0" using less.prems(1) by (intro cleared_none) auto
    moreover have "clear_extent_loop mem k prealloc t start endd bits c = Some (- ENOMEM, t)"
      using True by (subst clear_extent_loop.simps) simp
    ultimately show ?thesis using True less.prems(2) by (intro exI [of _ "- ENOMEM"] exI [of _ t] exI [of _ ?s]) auto
  next
    case False
    obtain r t1 nxt where st: "clear_extent_step t start endd bits = Some (r, t1, nxt)"
      and n: "case nxt of None \<Rightarrow> cleared t t1 ?s (?e + 1) bits r
       | Some (start1, pre) \<Rightarrow> ?s \<le> unat start1 \<and> unat start1 \<le> ?e + 1 \<and> cleared t t1 ?s (unat start1) bits r \<and>
           (unat start1 = ?s \<longrightarrow> starts_inside t ?s \<and> \<not> starts_inside t1 ?s)"
      using clear_step_ok [OF less.prems] by blast
    show ?thesis
    proof (cases nxt)
      case None
      with n have "cleared t t1 ?s (?e + 1) bits r" by simp
      moreover have "clear_extent_loop mem k prealloc t start endd bits c = Some (c OR r, t1)"
        using False None st by (subst clear_extent_loop.simps) auto
      ultimately show ?thesis using less.prems(2) by (intro exI [of _ "c OR r"] exI [of _ t1] exI [of _ "?e + 1"]) auto
    next
      case (Some sp)
      obtain start1 pre where sp: "sp = (start1, pre)" by fastforce
      have m: "?s \<le> unat start1" "unat start1 \<le> ?e + 1" "cleared t t1 ?s (unat start1) bits r"
        "unat start1 = ?s \<longrightarrow> starts_inside t ?s \<and> \<not> starts_inside t1 ?s" using n by (simp_all add: Some sp)
      show ?thesis
      proof (cases "start1 > endd")
        case True
        then have "unat start1 = ?e + 1" using m(2) by (simp add: word_less_nat_alt)
        with m(3) have "cleared t t1 ?s (?e + 1) bits r" by simp
        moreover have "clear_extent_loop mem k prealloc t start endd bits c = Some (c OR r, t1)"
          using False Some sp True st by (subst clear_extent_loop.simps) auto
        ultimately show ?thesis using less.prems(2) by (intro exI [of _ "c OR r"] exI [of _ t1] exI [of _ "?e + 1"]) auto
      next
        case le: False
        let ?k = "if prealloc then k else Suc k"
        have i1: "state_inv t1" "unat start1 \<le> ?e" using m(3) le by (auto simp: cleared_def word_less_nat_alt)
        have "2 * (?e + 1 - unat start1) + of_bool (starts_inside t1 (unat start1)) < 2 * (?e + 1 - ?s) + of_bool (starts_inside t ?s)"
          using m(1,4) i1(2) less.prems(2) by (cases "unat start1 = ?s") auto
        from less.hyps [OF this i1 less.prems(3), of ?k pre "c OR r"] obtain r2 t2 b where
          ih: "clear_extent_loop mem ?k pre t1 start1 endd bits (c OR r) = Some (r2, t2)" "unat start1 \<le> b" "b \<le> ?e + 1"
          "if b = ?e + 1 then \<exists>q. r2 = (c OR r) OR q \<and> cleared t1 t2 (unat start1) b bits q
           else r2 = - ENOMEM \<and> (\<exists>q. cleared t1 t2 (unat start1) b bits q)" "(\<forall>i. mem i) \<longrightarrow> b = ?e + 1" by blast
        have "clear_extent_loop mem k prealloc t start endd bits c = Some (r2, t2)"
          using False Some sp le st ih(1) by (subst clear_extent_loop.simps) auto
        moreover obtain q where "cleared t1 t2 (unat start1) b bits q" "b = ?e + 1 \<Longrightarrow> r2 = (c OR r) OR q" "b \<noteq> ?e + 1 \<Longrightarrow> r2 = - ENOMEM"
          using ih(4) by (auto split: if_splits)
        moreover have "cleared t t2 ?s b bits (r OR q)" using m(3) calculation(2) m(1) ih(2) by (rule cleared_trans)
        ultimately show ?thesis using ih(2,3,5) m(1)
          by (intro exI [of _ r2] exI [of _ t2] exI [of _ b]) (auto simp: or.assoc)
      qed
    qed
  qed
qed

end
