(* ===== verification/ExtentIoSet.thy ===== *)
theory ExtentIoSet
  imports ExtentIoSpec
begin

text \<open>
  \<open>set_extent_bits\<close>. When no extent reaches over the end of the range, or the one that does has the flags already, the flags
  of the range are set. Otherwise the code sets them on the wrong half of that extent: behind the range instead of in it.
\<close>

definition has_bits :: "int \<Rightarrow> u64 \<Rightarrow> bool" where
  "has_bits bits v \<longleftrightarrow> v OR u64_of_int bits = v"

definition crosses :: "nat \<Rightarrow> cache_extent \<times> u64 \<Rightarrow> bool" where
  "crosses e x \<longleftrightarrow> unat (ce_start (fst x)) \<le> e \<and> e + 1 < ce_end (fst x)"

definition flags_set :: "extent_io_tree \<Rightarrow> extent_io_tree \<Rightarrow> nat set \<Rightarrow> int \<Rightarrow> bool" where
  "flags_set t t1 A bits \<longleftrightarrow> state_inv t1 \<and>
     (\<forall>x. bits_at t1 x = (if x \<in> A then bits_at t x OR u64_of_int bits else bits_at t x))"

lemma has_bits_or [simp]: "has_bits bits (v OR u64_of_int bits)" "has_bits bits (u64_of_int bits)"
  by (simp_all add: has_bits_def or.assoc)

lemma flags_set_trans: "flags_set t t1 A bits \<Longrightarrow> flags_set t1 t2 B bits \<Longrightarrow> flags_set t t2 (A \<union> B) bits"
  by (auto simp: flags_set_def or.assoc)

lemma in_view: "(ce, v) \<in> set (view t) \<longleftrightarrow> ce \<in> set (inorder (st_cache t)) \<and> v = es_state (st_node t ce)"
  by (auto simp: view_def)

lemma view_split:
  assumes "at_state t p xs ce ys"
  shows "view t = map (flagged t) xs @ flagged t ce # map (flagged t) ys"
  by (simp add: view_def at_stateD(1) [OF assms])

lemma crosses_unique:
  assumes "state_inv t" and "x \<in> set (view t)" and "crosses e x" and "ce \<in> set (inorder (st_cache t))"
    and "unat (ce_start ce) \<le> e" and "e < ce_end ce"
  shows "fst x = ce"
proof (rule ccontr)
  assume ne: "fst x \<noteq> ce"
  have "fst x \<in> set (inorder (st_cache t))" using assms(2) by (auto simp: view_def)
  moreover have "sorted_wrt ce_lt (inorder (st_cache t))" using assms(1) by (simp add: state_inv_def index_inv_def)
  ultimately have "ce_lt (fst x) ce \<or> ce_lt ce (fst x)" using sorted_wrt_pair [OF _ _ assms(4) ne] by simp
  with assms(3,5,6) show False by (auto simp: crosses_def ce_lt_def)
qed

text \<open>The flags of a whole extent set, from \<open>a\<close>, where it begins.\<close>

lemma set_whole_ok:
  assumes inv: "state_inv t" and p: "at_state t p xs ce ys" and e: "ce_end ce \<le> e + 1"
  shows "\<exists>t1. merge_state (set_bits_at t p (es_state (st_node t ce) OR u64_of_int bits)) p = Some t1 \<and>
    flags_set t t1 {unat (ce_start ce)..<ce_end ce} bits \<and>
    (\<forall>x\<in>set (view t1). x \<in> set (view t) \<or> has_bits bits (snd x)) \<and>
    (\<forall>x\<in>set (view t). crosses e x \<and> \<not> has_bits bits (snd x) \<longrightarrow> x \<in> set (view t1))"
proof -
  let ?v = "es_state (st_node t ce) OR u64_of_int bits"
  obtain t1 where t1: "merge_state (set_bits_at t p ?v) p = Some t1" "state_inv t1"
    "\<forall>b. bits_at t1 b = (if b \<in> ce_bytes ce then ?v else bits_at t b)" "\<forall>x\<in>set (view t1). x \<in> set (view t) \<or> snd x = ?v"
    "\<forall>x\<in>set (view t). fst x \<noteq> ce \<and> snd x \<noteq> ?v \<longrightarrow> x \<in> set (view t1)"
    using set_and_merge_ok [OF inv p, of ?v] by blast
  have "bits_at t1 b = (if b \<in> {unat (ce_start ce)..<ce_end ce} then bits_at t b OR u64_of_int bits else bits_at t b)" for b
    using t1(3) state_bits [OF inv p, of b] by (auto simp: ce_bytes_def)
  with t1(2) have "flags_set t t1 {unat (ce_start ce)..<ce_end ce} bits" by (simp add: flags_set_def)
  moreover have "\<forall>x\<in>set (view t1). x \<in> set (view t) \<or> has_bits bits (snd x)" using t1(4) by force
  moreover have "x \<in> set (view t1)" if x: "x \<in> set (view t)" "crosses e x" "\<not> has_bits bits (snd x)" for x
  proof -
    have "fst x \<noteq> ce" using x(2) e by (auto simp: crosses_def)
    moreover have "snd x \<noteq> ?v" using x(3) has_bits_or(1) by metis
    ultimately show ?thesis using t1(5) x(1) by blast
  qed
  ultimately show ?thesis using t1(1) by blast
qed

definition step_goes_on :: "extent_io_tree \<Rightarrow> extent_io_tree \<Rightarrow> nat \<Rightarrow> nat \<Rightarrow> nat \<Rightarrow> int \<Rightarrow> bool" where
  "step_goes_on t t1 s s1 e bits \<longleftrightarrow> s \<le> s1 \<and> s1 \<le> e + 1 \<and> flags_set t t1 {s..<s1} bits \<and>
     (s1 = s \<longrightarrow> starts_inside t s \<and> \<not> starts_inside t1 s) \<and>
     (\<forall>x\<in>set (view t1). crosses e x \<longrightarrow> has_bits bits (snd x) \<or> (\<exists>y\<in>set (view t). crosses e y \<and> snd y = snd x)) \<and>
     (\<forall>x\<in>set (view t). crosses e x \<longrightarrow> s1 \<le> max s (unat (ce_start (fst x))) \<and>
        (\<not> has_bits bits (snd x) \<longrightarrow> (\<exists>y\<in>set (view t1). crosses e y \<and> snd y = snd x \<and> ce_end (fst y) = ce_end (fst x) \<and>
           max s1 (unat (ce_start (fst y))) = max s (unat (ce_start (fst x))))))"

lemma goes_onI:
  assumes "s \<le> s1" "s1 \<le> e + 1" "flags_set t t1 {s..<s1} bits" "s < s1"
    and "\<forall>x\<in>set (view t1). crosses e x \<longrightarrow> x \<in> set (view t) \<or> has_bits bits (snd x)"
    and "\<forall>x\<in>set (view t). crosses e x \<longrightarrow> s1 \<le> unat (ce_start (fst x)) \<and> (\<not> has_bits bits (snd x) \<longrightarrow> x \<in> set (view t1))"
  shows "step_goes_on t t1 s s1 e bits"
  unfolding step_goes_on_def
proof (intro conjI ballI impI)
  fix x assume x: "x \<in> set (view t)" "crosses e x"
  with assms(6) have l: "s1 \<le> unat (ce_start (fst x))" by blast
  then show "s1 \<le> max s (unat (ce_start (fst x)))" by simp
  assume "\<not> has_bits bits (snd x)"
  with assms(6) x have "x \<in> set (view t1)" by blast
  with x l assms(4) show "\<exists>y\<in>set (view t1). crosses e y \<and> snd y = snd x \<and> ce_end (fst y) = ce_end (fst x) \<and>
      max s1 (unat (ce_start (fst y))) = max s (unat (ce_start (fst x)))"
    by (intro bexI [of _ x]) auto
qed (use assms in blast)+

lemma later_crosses:
  assumes inv: "state_inv t" and p: "at_state t p xs ce ys" and before: "\<forall>x\<in>set xs. ce_end x \<le> s" and se: "s \<le> e"
    and e: "ce_end ce \<le> e + 1" and x: "x \<in> set (view t)" "crosses e x"
  shows "ce_end ce \<le> unat (ce_start (fst x))" "fst x \<in> set ys"
proof -
  note d = state_invD [OF inv at_stateD(1) [OF p]]
  have "fst x \<noteq> ce" "fst x \<notin> set xs" using x(2) e before se by (auto simp: crosses_def)
  then show "fst x \<in> set ys" using x(1) by (auto simp: view_split [OF p])
  with d(6) show "ce_end ce \<le> unat (ce_start (fst x))" by (auto simp: ce_lt_def)
qed

lemma set_step_ok:
  assumes inv: "state_inv t" and se: "unat start \<le> unat endd" "unat endd + 1 < 2 ^ 64"
  shows "\<exists>t1 nxt. set_extent_step t start endd bits = Some (t1, nxt) \<and>
    (case nxt of
       None \<Rightarrow> flags_set t t1 {unat start..<unat endd + 1} bits \<and> (\<forall>x\<in>set (view t). \<not> crosses (unat endd) x) \<or>
         (\<exists>x\<in>set (view t). crosses (unat endd) x \<and> unat (ce_start (fst x)) = unat start \<and>
            flags_set t t1 {unat endd + 1..<ce_end (fst x)} bits)
     | Some (start1, prealloc) \<Rightarrow> step_goes_on t t1 (unat start) (unat start1) (unat endd) bits)"
proof -
  let ?s = "unat start" and ?e = "unat endd"
  have s1: "?s + 1 < 2 ^ 64" using se by linarith
  show ?thesis
  proof (cases "search_cache_extent (st_cache t) start")
    case None
    then have b: "\<forall>x\<in>set (inorder (st_cache t)). ce_end x \<le> ?s" using search_state [OF inv s1] by simp
    obtain t1 where t1: "insert_state t start endd bits = Some t1" "state_inv t1"
      "\<forall>b. bits_at t1 b = (if ?s \<le> b \<and> b \<le> ?e then u64_of_int bits else bits_at t b)"
      using insert_state_ok [OF inv, of "inorder (st_cache t)" "[]" start endd bits] se b by auto
    have "bits_at t b = 0" if "?s \<le> b" for b
      using b that by (intro gap_bits [of t "inorder (st_cache t)" "[]"]) fastforce+
    then have "flags_set t t1 {?s..<?e + 1} bits" using t1(2,3) by (auto simp: flags_set_def)
    moreover have "\<forall>x\<in>set (view t). \<not> crosses ?e x" using b se by (fastforce simp: view_def crosses_def)
    ultimately show ?thesis using None t1(1) by (simp add: set_extent_step_def)
  next
    case (Some p)
    then obtain xs ce ys where p: "at_state t p xs ce ys" and before: "\<forall>x\<in>set xs. ce_end x \<le> ?s" and up: "?s < ce_end ce"
      using search_state [OF inv s1] by auto
    note pd = at_stateD [OF p]
    note d = state_invD [OF inv pd(1)]
    let ?st = "st_node t ce"
    note rs = state_range [OF d(4,3)] and af = after_state [OF d(4,3)]
    have cmp: "es_start ?st > start \<longleftrightarrow> unat (ce_start ce) > ?s" "es_start ?st < start \<longleftrightarrow> unat (ce_start ce) < ?s"
      "es_start ?st = start \<longleftrightarrow> unat (ce_start ce) = ?s" "es_end ?st \<le> endd \<longleftrightarrow> ce_end ce \<le> ?e + 1"
      "endd < es_start ?st \<longleftrightarrow> ?e < unat (ce_start ce)"
      using rs(1,2) by (auto simp: word_less_nat_alt word_le_nat_alt word_unat_eq_iff)
    consider (whole) "unat (ce_start ce) = ?s" "ce_end ce \<le> ?e + 1" | (inside) "unat (ce_start ce) < ?s"
      | (hole) "unat (ce_start ce) > ?s" | (over) "unat (ce_start ce) = ?s" "ce_end ce > ?e + 1" by linarith
    then show ?thesis
    proof cases
      case whole
      obtain t1 where t1: "merge_state (set_bits_at t p (es_state ?st OR u64_of_int bits)) p = Some t1"
        "flags_set t t1 {?s..<ce_end ce} bits" "\<forall>x\<in>set (view t1). x \<in> set (view t) \<or> has_bits bits (snd x)"
        "\<forall>x\<in>set (view t). crosses ?e x \<and> \<not> has_bits bits (snd x) \<longrightarrow> x \<in> set (view t1)"
        using set_whole_ok [OF inv p whole(2), of bits] whole(1) by auto
      have "step_goes_on t t1 ?s (ce_end ce) ?e bits"
        using t1 whole up later_crosses(1) [OF inv p before se(1) whole(2)] by (intro goes_onI) auto
      with Some whole cmp t1(1) af show ?thesis by (simp add: set_extent_step_def pd(5) Let_def)
    next
      case inside
      obtain t1 l r where sp: "split_state t p start = Some t1" "state_inv t1" "inorder (st_cache t1) = xs @ l # r # ys"
        "ce_start l = ce_start ce" "ce_end l = ?s" "ce_start r = start" "ce_end r = ce_end ce" "bits_at t1 = bits_at t"
        "view t1 = map (flagged t) xs @ (l, es_state ?st) # (r, es_state ?st) # map (flagged t) ys"
        using split_state_ok [OF inv p inside up] by blast
      obtain p1 where p1: "state_ptr t1 start = Some p1" "at_state t1 p1 (xs @ [l]) r ys"
        using state_ptr_at [OF sp(2), of "xs @ [l]" r ys] sp(3,6) by auto
      note d1 = state_invD [OF sp(2) at_stateD(1) [OF p1(2)]]
      have en: "es_end (st_node t1 r) = es_end ?st" "es_start (st_node t1 r) = start"
        using state_range(1,2) [OF d1(4,3)] rs(2) sp(6,7) by (simp_all add: word_unat_eq_iff)
      have lno: "\<not> crosses ?e (l, v)" for v using sp(5) se by (auto simp: crosses_def)
      show ?thesis
      proof (cases "ce_end ce \<le> ?e + 1")
        case True
        have r1: "ce_end r \<le> ?e + 1" using True sp(7) by simp
        obtain t2 where t2: "merge_state (set_bits_at t1 p1 (es_state (st_node t1 r) OR u64_of_int bits)) p1 = Some t2"
          "flags_set t1 t2 {?s..<ce_end ce} bits" "\<forall>x\<in>set (view t2). x \<in> set (view t1) \<or> has_bits bits (snd x)"
          "\<forall>x\<in>set (view t1). crosses ?e x \<and> \<not> has_bits bits (snd x) \<longrightarrow> x \<in> set (view t2)"
          using set_whole_ok [OF sp(2) p1(2) r1, of bits] sp(6,7) by auto
        have rno: "\<not> crosses ?e (r, v)" for v using r1 by (auto simp: crosses_def)
        have fs: "flags_set t t2 {?s..<ce_end ce} bits" using t2(2) sp(8) by (simp add: flags_set_def)
        have a: "\<forall>x\<in>set (view t2). crosses ?e x \<longrightarrow> x \<in> set (view t) \<or> has_bits bits (snd x)"
          using t2(3) lno rno unfolding sp(9) view_split [OF p] by fastforce
        have b: "\<forall>x\<in>set (view t). crosses ?e x \<longrightarrow> ce_end ce \<le> unat (ce_start (fst x)) \<and> (\<not> has_bits bits (snd x) \<longrightarrow> x \<in> set (view t2))"
        proof (intro ballI impI conjI)
          fix x assume x: "x \<in> set (view t)" "crosses ?e x"
          note l = later_crosses [OF inv p before se(1) True x]
          show "ce_end ce \<le> unat (ce_start (fst x))" by (rule l(1))
          assume "\<not> has_bits bits (snd x)"
          moreover have "x \<in> set (view t1)" using x(1) l(2) unfolding sp(9) by (auto simp: view_def)
          ultimately show "x \<in> set (view t2)" using t2(4) x(2) by blast
        qed
        have "step_goes_on t t2 ?s (ce_end ce) ?e bits" using True up fs a b by (intro goes_onI) auto
        with True Some inside cmp sp(1) p1(1) t2(1) en af show ?thesis
          by (simp add: set_extent_step_def pd(5) at_stateD(5) [OF p1(2)] Let_def)
      next
        case False
        have cr: "crosses ?e (r, es_state ?st)" "crosses ?e (flagged t ce)" using False inside se sp(6,7) by (auto simp: crosses_def)
        have "starts_inside t ?s" using inside up pd(1) by (auto simp: starts_inside_def)
        moreover have "\<not> starts_inside t1 ?s"
          unfolding starts_inside_def sp(3) using before sp(4-7) d(6) up by (auto simp: ce_lt_def)
        moreover have "flags_set t t1 {?s..<?s} bits" using sp(2,8) by (simp add: flags_set_def)
        moreover have "fst x = ce" if "x \<in> set (view t)" "crosses ?e x" for x
          using crosses_unique [OF inv that, of ce] inside se False pd(1) by auto
        ultimately have "step_goes_on t t1 ?s ?s ?e bits"
          unfolding step_goes_on_def using cr lno se(1) inside sp(6,7) unfolding sp(9)
          by (fastforce simp: view_split [OF p])
        with False Some inside cmp sp(1) p1(1) en show ?thesis
          by (simp add: set_extent_step_def pd(5) at_stateD(5) [OF p1(2)] Let_def)
      qed
    next
      case hole
      define te where "te = (if endd < es_start ?st then endd else es_start ?st - 1)"
      have te: "unat te + 1 = min (?e + 1) (unat (ce_start ce))"
      proof (cases "endd < es_start ?st")
        case True
        with cmp(5) show ?thesis by (simp add: te_def)
      next
        case False
        have "es_start ?st \<noteq> 0" using hole rs(1) by auto
        then have "unat (es_start ?st - 1) + 1 = unat (ce_start ce)" using hole rs(1) by (simp add: unat_minus_one)
        with False cmp(5) show ?thesis by (simp add: te_def)
      qed
      have te1: "unat te + 1 < 2 ^ 64" "?s \<le> unat te" using te se hole by linarith+
      have gap: "\<forall>y\<in>set (ce # ys). unat te < unat (ce_start y)" using te d(3,6) by (fastforce simp: ce_lt_def)
      obtain t1 where t1: "insert_state t start te bits = Some t1" "state_inv t1"
        "\<forall>b. bits_at t1 b = (if ?s \<le> b \<and> b \<le> unat te then u64_of_int bits else bits_at t b)"
        "\<forall>x\<in>set (view t1). x \<in> set (view t) \<or> snd x = u64_of_int bits"
        "\<forall>x\<in>set (view t). snd x \<noteq> u64_of_int bits \<longrightarrow> x \<in> set (view t1)"
        using insert_state_ok [OF inv pd(1) te1(2,1) before gap] by blast
      have "bits_at t b = 0" if "?s \<le> b" "b < unat (ce_start ce)" for b using gap_before [OF inv pd(1) before that] .
      then have fs: "flags_set t t1 {?s..<unat te + 1} bits" using t1(2,3) te by (auto simp: flags_set_def)
      have "unat te + 1 \<le> unat (ce_start (fst x))" if "x \<in> set (view t)" "crosses ?e x" for x
      proof -
        have "fst x \<notin> set xs" using that(2) before se(1) by (auto simp: crosses_def)
        then have "fst x \<in> set (ce # ys)" using that(1) by (auto simp: view_split [OF p])
        with gap show ?thesis by fastforce
      qed
      moreover have "x \<in> set (view t1)" if "x \<in> set (view t)" "\<not> has_bits bits (snd x)" for x
        using that t1(5) has_bits_or(2) by metis
      moreover have "\<forall>x\<in>set (view t1). x \<in> set (view t) \<or> has_bits bits (snd x)" using t1(4) by force
      ultimately have "step_goes_on t t1 ?s (unat te + 1) ?e bits"
        using fs te te1(2) by (intro goes_onI) auto
      moreover have "unat (te + 1) = unat te + 1" using te1(1) by (simp add: unat_add_lem [THEN iffD1])
      moreover have "set_extent_step t start endd bits = Some (t1, Some (te + 1, False))"
        unfolding set_extent_step_def Some option.case Let_def pd(5) te_def [symmetric]
        using hole cmp(1-3) t1(1) by simp
      ultimately show ?thesis by simp
    next
      case over
      have e1: "unat (endd + 1) = ?e + 1" using se(2) by (simp add: unat_add_lem [THEN iffD1])
      then have "unat (ce_start ce) < unat (endd + 1)" "unat (endd + 1) < ce_end ce" using over se(1) by simp_all
      from split_state_ok [OF inv p this] obtain t1 l r where
        sp: "split_state t p (endd + 1) = Some t1" "state_inv t1" "inorder (st_cache t1) = xs @ l # r # ys"
        "ce_start l = ce_start ce" "ce_start r = endd + 1" "ce_end r = ce_end ce" "bits_at t1 = bits_at t" by blast
      obtain p1 where p1: "state_ptr t1 (endd + 1) = Some p1" "at_state t1 p1 (xs @ [l]) r ys"
        using state_ptr_at [OF sp(2), of "xs @ [l]" r ys] sp(3,5) by auto
      let ?v = "es_state (st_node t1 r) OR u64_of_int bits"
      let ?t2 = "set_bits_at t1 p1 ?v"
      note sb = set_bits_at_ok [OF sp(2) p1(2), of ?v]
      have io2: "inorder (st_cache ?t2) = xs @ l # r # ys" using at_stateD(1) [OF sb(2)] by simp
      obtain p2 where p2: "state_ptr ?t2 (es_start ?st) = Some p2" "at_state ?t2 p2 xs l (r # ys)"
        using state_ptr_at [OF sb(1) io2] sp(4) rs(1) by auto
      obtain t3 where t3: "merge_state ?t2 p2 = Some t3" "state_inv t3" "bits_at t3 = bits_at ?t2"
        using merge_state_ok [OF sb(1) p2(2) refl] by (auto simp: kept_def)
      have "bits_at t3 b = (if b \<in> {?e + 1..<ce_end ce} then bits_at t b OR u64_of_int bits else bits_at t b)" for b
        using t3(3) sb(5) [of b] state_bits [OF sp(2) p1(2), of b] sp(5-7) e1 by (auto simp: mem_ce)
      then have "flags_set t t3 {?e + 1..<ce_end ce} bits" using t3(2) by (simp add: flags_set_def)
      moreover have "flagged t ce \<in> set (view t)" "crosses ?e (flagged t ce)" using over se by (auto simp: view_split [OF p] crosses_def)
      ultimately have "\<exists>x\<in>set (view t). crosses ?e x \<and> unat (ce_start (fst x)) = ?s \<and> flags_set t t3 {?e + 1..<ce_end (fst x)} bits"
        using over(1) by (intro bexI [of _ "flagged t ce"]) auto
      moreover have "set_extent_step t start endd bits = Some (t3, None)"
        using Some over cmp sp(1) p1(1) p2(1) t3(1) by (simp add: set_extent_step_def pd(5) at_stateD(5) [OF p1(2)] Let_def)
      ultimately show ?thesis by auto
    qed
  qed
qed

section \<open>The loop\<close>

lemma set_loop_ok:
  assumes "state_inv t" and "unat start \<le> unat endd" and "unat endd + 1 < 2 ^ 64"
    and "\<forall>x\<in>set (view t). crosses (unat endd) x \<longrightarrow> has_bits bits (snd x)"
  shows "\<exists>r t1 b. set_extent_loop mem k prealloc t start endd bits = Some (r, t1) \<and> unat start \<le> b \<and> b \<le> unat endd + 1 \<and>
    flags_set t t1 {unat start..<b} bits \<and> r = (if b = unat endd + 1 then 0 else - ENOMEM) \<and> ((\<forall>i. mem i) \<longrightarrow> b = unat endd + 1)"
  using assms
proof (induction "2 * (unat endd + 1 - unat start) + of_bool (starts_inside t (unat start))" arbitrary: t start k prealloc rule: less_induct)
  case less
  let ?s = "unat start" and ?e = "unat endd"
  show ?case
  proof (cases "\<not> prealloc \<and> \<not> mem k")
    case True
    moreover have "flags_set t t {?s..<?s} bits" using less.prems(1) by (simp add: flags_set_def)
    moreover have "set_extent_loop mem k prealloc t start endd bits = Some (- ENOMEM, t)"
      using True by (subst set_extent_loop.simps) simp
    ultimately show ?thesis using less.prems(2) by (intro exI [of _ "- ENOMEM"] exI [of _ t] exI [of _ ?s]) auto
  next
    case False
    obtain t1 nxt where st: "set_extent_step t start endd bits = Some (t1, nxt)" and n: "case nxt of
         None \<Rightarrow> flags_set t t1 {?s..<?e + 1} bits \<and> (\<forall>x\<in>set (view t). \<not> crosses ?e x) \<or>
           (\<exists>x\<in>set (view t). crosses ?e x \<and> unat (ce_start (fst x)) = ?s \<and> flags_set t t1 {?e + 1..<ce_end (fst x)} bits)
       | Some (start1, prealloc) \<Rightarrow> step_goes_on t t1 ?s (unat start1) ?e bits"
      using set_step_ok [OF less.prems(1-3)] by blast
    have out: ?thesis if "flags_set t t1 {?s..<?e + 1} bits" "nxt = None \<or> (\<exists>start1 pre. nxt = Some (start1, pre) \<and> start1 > endd)"
    proof -
      have "set_extent_loop mem k prealloc t start endd bits = Some (0, t1)"
        using False that(2) st by (subst set_extent_loop.simps) auto
      with that(1) less.prems(2) show ?thesis by (intro exI [of _ 0] exI [of _ t1] exI [of _ "?e + 1"]) auto
    qed
    show ?thesis
    proof (cases nxt)
      case None
      have "flags_set t t1 {?s..<?e + 1} bits"
      proof (cases "flags_set t t1 {?s..<?e + 1} bits")
        case no: False
        with n None obtain x where x: "x \<in> set (view t)" "crosses ?e x" "unat (ce_start (fst x)) = ?s"
          "flags_set t t1 {?e + 1..<ce_end (fst x)} bits" by auto
        have "has_bits bits (snd x)" using less.prems(4) x by blast
        moreover have "bits_at t b = snd x" if "b \<in> ce_bytes (fst x)" for b
        proof -
          obtain xs ys where io: "inorder (st_cache t) = xs @ fst x # ys" and sx: "snd x = es_state (st_node t (fst x))"
            using x(1) by (auto simp: view_def dest: split_list)
          from state_ptr_at [OF less.prems(1) io] obtain p where "at_state t p xs (fst x) ys" by blast
          from state_bits [OF less.prems(1) this that] sx show ?thesis by simp
        qed
        ultimately have "bits_at t b OR u64_of_int bits = bits_at t b" if "b \<in> ce_bytes (fst x)" for b
          using that by (simp add: has_bits_def)
        then show ?thesis using x(2-4) by (auto simp: flags_set_def crosses_def mem_ce)
      qed
      with out None show ?thesis by blast
    next
      case (Some sp)
      obtain start1 pre where sp: "sp = (start1, pre)" by fastforce
      have g: "step_goes_on t t1 ?s (unat start1) ?e bits" using n by (simp add: Some sp)
      have m: "?s \<le> unat start1" "unat start1 \<le> ?e + 1" "flags_set t t1 {?s..<unat start1} bits" "state_inv t1"
        "unat start1 = ?s \<longrightarrow> starts_inside t ?s \<and> \<not> starts_inside t1 ?s"
        "\<forall>x\<in>set (view t1). crosses ?e x \<longrightarrow> has_bits bits (snd x) \<or> (\<exists>y\<in>set (view t). crosses ?e y \<and> snd y = snd x)"
        using g by (simp_all add: step_goes_on_def flags_set_def)
      show ?thesis
      proof (cases "start1 > endd")
        case True
        then have "unat start1 = ?e + 1" using m(2) by (simp add: word_less_nat_alt)
        with m(3) out Some sp True show ?thesis by auto
      next
        case le: False
        let ?k = "if prealloc then k else Suc k"
        have i1: "unat start1 \<le> ?e" using le by (auto simp: word_less_nat_alt)
        have w: "\<forall>x\<in>set (view t1). crosses ?e x \<longrightarrow> has_bits bits (snd x)" using m(6) less.prems(4) by metis
        have "2 * (?e + 1 - unat start1) + of_bool (starts_inside t1 (unat start1)) < 2 * (?e + 1 - ?s) + of_bool (starts_inside t ?s)"
          using m(1,5) i1 less.prems(2) by (cases "unat start1 = ?s") auto
        from less.hyps [OF this m(4) i1 less.prems(3) w, of ?k pre] obtain r2 t2 b where
          ih: "set_extent_loop mem ?k pre t1 start1 endd bits = Some (r2, t2)" "unat start1 \<le> b" "b \<le> ?e + 1"
          "flags_set t1 t2 {unat start1..<b} bits" "r2 = (if b = ?e + 1 then 0 else - ENOMEM)" "(\<forall>i. mem i) \<longrightarrow> b = ?e + 1" by blast
        have "set_extent_loop mem k prealloc t start endd bits = Some (r2, t2)"
          using False Some sp le st ih(1) by (subst set_extent_loop.simps) auto
        moreover have "flags_set t t2 {?s..<b} bits"
          using flags_set_trans [OF m(3) ih(4)] m(1) ih(2) by (simp add: ivl_disj_un_two)
        ultimately show ?thesis using ih(2,3,5,6) m(1) by (intro exI [of _ r2] exI [of _ t2] exI [of _ b]) auto
      qed
    qed
  qed
qed

text \<open>The flags go to the bytes in front of the extent that crosses the end, and to its bytes behind the end.\<close>

lemma set_loop_wrong:
  assumes "state_inv t" and "unat start \<le> unat endd" and "unat endd + 1 < 2 ^ 64" and "\<forall>i. mem i"
    and "x \<in> set (view t)" and "crosses (unat endd) x" and "\<not> has_bits bits (snd x)"
  shows "\<exists>t1. set_extent_loop mem k prealloc t start endd bits = Some (0, t1) \<and>
    flags_set t t1 ({unat start..<max (unat start) (unat (ce_start (fst x)))} \<union> {unat endd + 1..<ce_end (fst x)}) bits"
  using assms
proof (induction "2 * (unat endd + 1 - unat start) + of_bool (starts_inside t (unat start))" arbitrary: t start k prealloc x rule: less_induct)
  case less
  let ?s = "unat start" and ?e = "unat endd"
  note mem = less.prems(4) and x = less.prems(5-7)
  obtain t1 nxt where st: "set_extent_step t start endd bits = Some (t1, nxt)" and n: "case nxt of
       None \<Rightarrow> flags_set t t1 {?s..<?e + 1} bits \<and> (\<forall>x\<in>set (view t). \<not> crosses ?e x) \<or>
         (\<exists>x\<in>set (view t). crosses ?e x \<and> unat (ce_start (fst x)) = ?s \<and> flags_set t t1 {?e + 1..<ce_end (fst x)} bits)
     | Some (start1, prealloc) \<Rightarrow> step_goes_on t t1 ?s (unat start1) ?e bits"
    using set_step_ok [OF less.prems(1-3)] by blast
  show ?case
  proof (cases nxt)
    case None
    with n x obtain y where y: "y \<in> set (view t)" "crosses ?e y" "unat (ce_start (fst y)) = ?s" "flags_set t t1 {?e + 1..<ce_end (fst y)} bits"
      by auto
    have "fst x = fst y"
      using crosses_unique [OF less.prems(1) x(1,2), of "fst y"] y by (auto simp: view_def crosses_def)
    moreover have "set_extent_loop mem k prealloc t start endd bits = Some (0, t1)"
      using mem None st by (subst set_extent_loop.simps) auto
    ultimately show ?thesis using y(3,4) by auto
  next
    case (Some sp)
    obtain start1 pre where sp: "sp = (start1, pre)" by fastforce
    have g: "step_goes_on t t1 ?s (unat start1) ?e bits" using n by (simp add: Some sp)
    have m: "?s \<le> unat start1" "flags_set t t1 {?s..<unat start1} bits" "state_inv t1"
      "unat start1 = ?s \<longrightarrow> starts_inside t ?s \<and> \<not> starts_inside t1 ?s" "unat start1 \<le> max ?s (unat (ce_start (fst x)))"
      using g x by (auto simp: step_goes_on_def flags_set_def)
    obtain y where y: "y \<in> set (view t1)" "crosses ?e y" "snd y = snd x" "ce_end (fst y) = ce_end (fst x)"
      "max (unat start1) (unat (ce_start (fst y))) = max ?s (unat (ce_start (fst x)))"
      using g x unfolding step_goes_on_def by blast
    let ?k = "if prealloc then k else Suc k"
    have i1: "unat start1 \<le> ?e" using m(5) less.prems(2) x(2) by (auto simp: crosses_def)
    then have le: "\<not> start1 > endd" by (simp add: word_less_nat_alt)
    have "2 * (?e + 1 - unat start1) + of_bool (starts_inside t1 (unat start1)) < 2 * (?e + 1 - ?s) + of_bool (starts_inside t ?s)"
      using m(1,4) i1 less.prems(2) by (cases "unat start1 = ?s") auto
    from less.hyps [OF this m(3) i1 less.prems(3) mem y(1,2), of ?k pre] y(3) x(3) obtain t2 where
      ih: "set_extent_loop mem ?k pre t1 start1 endd bits = Some (0, t2)"
      "flags_set t1 t2 ({unat start1..<max ?s (unat (ce_start (fst x)))} \<union> {?e + 1..<ce_end (fst x)}) bits"
      unfolding y(4,5) by auto
    have "set_extent_loop mem k prealloc t start endd bits = Some (0, t2)"
      using mem Some sp le st ih(1) by (subst set_extent_loop.simps) auto
    moreover have "{?s..<unat start1} \<union> {unat start1..<max ?s (unat (ce_start (fst x)))} = {?s..<max ?s (unat (ce_start (fst x)))}"
      using m(1,5) by (rule ivl_disj_un_two)
    ultimately show ?thesis using flags_set_trans [OF m(2) ih(2)] by (simp add: Un_assoc [symmetric])
  qed
qed

end
