(* ===== verification/ExtentIoProps.thy ===== *)
theory ExtentIoProps
  imports ExtentIoSet
begin

text \<open>
  The queries of the state tree, and the properties of its operations: what they do to the flags of every byte.
\<close>

section \<open>Queries\<close>

definition hit :: "extent_io_tree \<Rightarrow> int \<Rightarrow> nat \<Rightarrow> bool" where
  "hit t bits b \<longleftrightarrow> bits_at t b AND u64_of_int bits \<noteq> 0"

lemma hit_state: "state_inv t \<Longrightarrow> at_state t p xs ce ys \<Longrightarrow> b \<in> ce_bytes ce \<Longrightarrow> hit t bits b \<longleftrightarrow> es_state (st_node t ce) AND u64_of_int bits \<noteq> 0"
  by (simp add: hit_def state_bits)

lemma next_state:
  assumes "at_state t p xs ce ys"
  shows "case next_cache_extent p of None \<Rightarrow> ys = [] | Some q \<Rightarrow> \<exists>n ys'. ys = n # ys' \<and> at_state t q (xs @ [ce]) n ys'"
proof -
  note pd = at_stateD [OF assms]
  show ?thesis
  proof (cases "next_cache_extent p")
    case None
    then have "inorder (st_cache t) = xs @ [ce]" using rb_next_at [OF pd(2)] pd by (simp add: next_cache_extent_def cur_at_def)
    with pd(1) None show ?thesis by simp
  next
    case (Some q)
    then have q: "fst q \<noteq> Null" "cur_tree q = st_cache t" "cur_before q = xs @ [ce]"
      using rb_next_at [OF pd(2)] pd by (auto simp: next_cache_extent_def cur_at_def)
    with inorder_cur [OF q(1)] pd(1) Some show ?thesis by (auto simp: at_state_def)
  qed
qed

lemma no_hit_gap: "bits_at t b = 0 \<Longrightarrow> \<not> hit t bits b"
  by (simp add: hit_def)

lemma gap_behind:
  assumes "state_inv t" and "inorder (st_cache t) = xs @ [ce]" and "ce_end ce \<le> b"
  shows "bits_at t b = 0"
proof (rule gap_bits [of t "xs @ [ce]" "[]"])
  show "\<forall>x\<in>set (xs @ [ce]). ce_end x \<le> b"
    using assms state_invD(5) [OF assms(1), of xs ce "[]"] by (fastforce simp: ce_lt_def)
qed (use assms in auto)

lemma gap_between:
  assumes "state_inv t" and "inorder (st_cache t) = xs @ ce # n # ys" and "ce_end ce \<le> b" and "b < unat (ce_start n)"
  shows "bits_at t b = 0"
proof (rule gap_bits [of t "xs @ [ce]" "n # ys"])
  show "\<forall>x\<in>set (xs @ [ce]). ce_end x \<le> b"
    using assms(3) ce_okD state_invD(3,5) [OF assms(1,2)] by (fastforce simp: ce_lt_def)
  show "\<forall>y\<in>set (n # ys). b < unat (ce_start y)"
    using assms(4) state_invD(6) [OF assms(1), of "xs @ [ce]" n ys] assms(2) by (fastforce simp: ce_lt_def)
qed (use assms in auto)

definition first_hit :: "extent_io_tree \<Rightarrow> int \<Rightarrow> nat \<Rightarrow> int \<times> (u64 \<times> u64) option \<Rightarrow> bool" where
  "first_hit t bits s r \<longleftrightarrow>
     (case r of
        (ret, None) \<Rightarrow> ret = 1 \<and> (\<forall>b\<ge>s. \<not> hit t bits b)
      | (ret, Some (a, z)) \<Rightarrow> ret = 0 \<and> s \<le> unat z \<and> unat a \<le> unat z \<and>
          (\<forall>b. unat a \<le> b \<and> b \<le> unat z \<longrightarrow> hit t bits b \<and> bits_at t b = bits_at t (unat a)) \<and>
          (\<forall>b. s \<le> b \<and> b < unat a \<longrightarrow> \<not> hit t bits b))"

lemma find_bit_loop_ok:
  assumes inv: "state_inv t" and "at_state t p xs ce ys" and "unat start < ce_end ce"
    and "\<And>b. unat start \<le> b \<Longrightarrow> b < unat (ce_start ce) \<Longrightarrow> \<not> hit t bits b"
  shows "\<exists>r. find_bit_loop t p start bits = Some r \<and> first_hit t bits (unat start) r"
  using assms(2-4)
proof (induction ys arbitrary: p xs ce)
  case base: Nil
  note p = base.prems(1)
  note pd = at_stateD [OF p]
  note d = state_invD [OF inv pd(1)]
  note rs = state_range [OF d(4,3)]
  have ge: "es_end (st_node t ce) \<ge> start" using rs(2) base.prems(2) by (simp add: word_le_nat_alt)
  have last: "next_cache_extent p = None" using next_state [OF p] by (auto split: option.splits)
  show ?case
  proof (cases "es_state (st_node t ce) AND u64_of_int bits \<noteq> 0")
    case True
    have "first_hit t bits (unat start) (0, Some (es_start (st_node t ce), es_end (st_node t ce)))"
      using True ge rs base.prems(3) hit_state [OF inv p] state_bits [OF inv p] ce_okD(1) [OF d(3)]
      by (auto simp: first_hit_def mem_ce word_le_nat_alt)
    with True ge show ?thesis by (subst find_bit_loop.simps) (simp add: pd(5))
  next
    case False
    have "\<not> hit t bits b" if "unat start \<le> b" for b
      using that base.prems(3) hit_state [OF inv p, of b bits] False gap_behind [OF inv pd(1), of b] no_hit_gap
      by (cases "b < unat (ce_start ce)"; cases "b < ce_end ce") (auto simp: mem_ce)
    then have "first_hit t bits (unat start) (1, None)" by (simp add: first_hit_def)
    with False last show ?thesis by (subst find_bit_loop.simps) (simp add: pd(5))
  qed
next
  case (Cons n ys)
  note p = Cons.prems(1)
  note pd = at_stateD [OF p]
  note d = state_invD [OF inv pd(1)]
  note rs = state_range [OF d(4,3)]
  have ge: "es_end (st_node t ce) \<ge> start" using rs(2) Cons.prems(2) by (simp add: word_le_nat_alt)
  obtain q where q: "next_cache_extent p = Some q" "at_state t q (xs @ [ce]) n ys"
    using next_state [OF p] by (auto split: option.splits)
  show ?case
  proof (cases "es_state (st_node t ce) AND u64_of_int bits \<noteq> 0")
    case True
    have "first_hit t bits (unat start) (0, Some (es_start (st_node t ce), es_end (st_node t ce)))"
      using True ge rs Cons.prems(3) hit_state [OF inv p] state_bits [OF inv p] ce_okD(1) [OF d(3)]
      by (auto simp: first_hit_def mem_ce word_le_nat_alt)
    with True ge show ?thesis by (subst find_bit_loop.simps) (simp add: pd(5))
  next
    case False
    have no: "\<not> hit t bits b" if "unat start \<le> b" "b < unat (ce_start n)" for b
      using that Cons.prems(3) hit_state [OF inv p, of b bits] False gap_between [OF inv pd(1), of b] no_hit_gap
      by (cases "b < unat (ce_start ce)"; cases "b < ce_end ce") (auto simp: mem_ce)
    have "unat start < ce_end n" using Cons.prems(2) d(6) by (auto simp: ce_lt_def)
    from Cons.IH [OF q(2) this no] obtain r where "find_bit_loop t q start bits = Some r" "first_hit t bits (unat start) r" by blast
    with False q(1) show ?thesis by (subst find_bit_loop.simps) (simp add: pd(5))
  qed
qed

lemma find_first_ok:
  assumes inv: "state_inv t" and s: "unat start + 1 < 2 ^ 64"
  shows "\<exists>r. find_first_extent_bit t start bits = Some r \<and> first_hit t bits (unat start) r"
proof (cases "search_cache_extent (st_cache t) start")
  case None
  then have "\<forall>x\<in>set (inorder (st_cache t)). ce_end x \<le> unat start" using search_state [OF inv s] by simp
  then have "bits_at t b = 0" if "unat start \<le> b" for b using that by (intro gap_bits [of t "inorder (st_cache t)" "[]"]) fastforce+
  with None no_hit_gap show ?thesis by (simp add: find_first_extent_bit_def first_hit_def)
next
  case (Some p)
  then obtain xs ce ys where p: "at_state t p xs ce ys" "\<forall>x\<in>set xs. ce_end x \<le> unat start" "unat start < ce_end ce"
    using search_state [OF inv s] by auto
  have "\<not> hit t bits b" if "unat start \<le> b" "b < unat (ce_start ce)" for b
    using gap_before [OF inv at_stateD(1) [OF p(1)] p(2) that] no_hit_gap by simp
  from find_bit_loop_ok [OF inv p(1,3) this] Some show ?thesis by (simp add: find_first_extent_bit_def)
qed

definition range_answer :: "extent_io_tree \<Rightarrow> nat \<Rightarrow> nat \<Rightarrow> int \<Rightarrow> bool \<Rightarrow> bool" where
  "range_answer t s e bits filled \<longleftrightarrow>
     (if filled then \<forall>b. s \<le> b \<and> b \<le> e \<longrightarrow> hit t bits b else \<exists>b. s \<le> b \<and> b \<le> e \<and> hit t bits b)"

text \<open>The answer after the first extent of a range: \<open>m\<close> is the end of the extent.\<close>

lemma range_answer_split:
  assumes "s < m" and "\<And>b. s \<le> b \<Longrightarrow> b < m \<Longrightarrow> hit t bits b \<longleftrightarrow> h"
  shows "m \<le> e \<Longrightarrow> h = filled \<Longrightarrow> range_answer t s e bits filled = range_answer t m e bits filled"
    and "s \<le> e \<Longrightarrow> h \<noteq> filled \<Longrightarrow> range_answer t s e bits filled = h"
    and "s \<le> e \<Longrightarrow> e < m \<Longrightarrow> range_answer t s e bits filled = h"
proof -
  have s: "hit t bits s \<longleftrightarrow> h" using assms(2) [of s] assms(1) by simp
  show "s \<le> e \<Longrightarrow> h \<noteq> filled \<Longrightarrow> range_answer t s e bits filled = h" using s by (auto simp: range_answer_def)
  show "s \<le> e \<Longrightarrow> e < m \<Longrightarrow> range_answer t s e bits filled = h"
    using s assms(2) by (auto simp: range_answer_def)
  assume m: "m \<le> e" "h = filled"
  have "filled \<Longrightarrow> (s \<le> b \<and> b \<le> e \<longrightarrow> hit t bits b) \<longleftrightarrow> (m \<le> b \<and> b \<le> e \<longrightarrow> hit t bits b)"
    and "\<not> filled \<Longrightarrow> s \<le> b \<and> b \<le> e \<and> hit t bits b \<longleftrightarrow> m \<le> b \<and> b \<le> e \<and> hit t bits b" for b
    using assms m by (cases "b < m"; auto)+
  then show "range_answer t s e bits filled = range_answer t m e bits filled" by (simp add: range_answer_def)
qed

lemma range_answer_none:
  assumes "s \<le> e" and "\<And>b. s \<le> b \<Longrightarrow> b \<le> e \<Longrightarrow> \<not> hit t bits b"
  shows "\<not> range_answer t s e bits filled"
  using assms by (auto simp: range_answer_def)

lemma test_range_loop_ok:
  assumes inv: "state_inv t" and e: "unat endd + 1 < 2 ^ 64"
    and "at_state t p xs ce ys" and "\<forall>x\<in>set xs. ce_end x \<le> unat start" and "unat start < ce_end ce" and "unat start \<le> unat endd"
    and "filled \<or> \<not> bitset"
  shows "test_range_loop t p start endd bits filled bitset = Some (range_answer t (unat start) (unat endd) bits filled)"
  using assms(3-7)
proof (induction "length ys" arbitrary: p xs ce ys start bitset rule: less_induct)
  case less
  note p = less.prems(1)
  note pd = at_stateD [OF p]
  note d = state_invD [OF inv pd(1)]
  note rs = state_range [OF d(4,3)] and af = after_state [OF d(4,3)]
  let ?s = "unat start" and ?e = "unat endd" and ?st = "st_node t ce"
  define h where "h = (es_state ?st AND u64_of_int bits \<noteq> 0)"
  have hit: "hit t bits b \<longleftrightarrow> h" if "b \<in> ce_bytes ce" for b using hit_state [OF inv p that] by (simp add: h_def)
  have gap: "\<not> hit t bits b" if "?s \<le> b" "b < unat (ce_start ce)" for b
    using gap_before [OF inv pd(1) less.prems(2) that] no_hit_gap by simp
  have step: "test_range_loop t p start endd bits filled bitset =
     (if filled \<and> ?s < unat (ce_start ce) then Some False
      else if ?e < unat (ce_start ce) then Some bitset
      else if h \<noteq> filled then Some h
      else if ?e < ce_end ce then Some (bitset \<or> h)
      else case next_cache_extent p of None \<Rightarrow> Some ((bitset \<or> h) \<and> \<not> filled)
           | Some q \<Rightarrow> test_range_loop t q (es_end ?st + 1) endd bits filled (bitset \<or> h))"
    using less.prems(4)
    by (subst test_range_loop.simps) (cases h; cases filled; cases "next_cache_extent p"; simp add: Let_def pd(5) rs(1) af(2) word_le_nat_alt word_less_nat_alt h_def)
  consider (hole) "filled \<and> ?s < unat (ce_start ce)" | (beyond) "\<not> filled" "?e < unat (ce_start ce)"
    | (found) "\<not> filled" "unat (ce_start ce) \<le> ?e" "h" | (inside) "filled \<longrightarrow> unat (ce_start ce) \<le> ?s" "unat (ce_start ce) \<le> ?e" "filled \<or> \<not> h"
    using less.prems(4) by (cases filled; cases h) linarith+
  then show ?case
  proof cases
    case hole
    then have "\<not> range_answer t ?s ?e bits filled" using gap [of ?s] less.prems(4) by (auto simp: range_answer_def)
    with hole step show ?thesis by simp
  next
    case beyond
    have "\<not> range_answer t ?s ?e bits filled" using less.prems(4) gap beyond by (intro range_answer_none) auto
    with beyond less.prems(5) step show ?thesis by simp
  next
    case found
    have m: "max ?s (unat (ce_start ce)) \<in> ce_bytes ce" using less.prems(3) ce_okD(1) [OF d(3)] by (auto simp: mem_ce)
    have "range_answer t ?s ?e bits filled"
      using found hit [OF m] less.prems(4) by (auto simp: range_answer_def intro!: exI [of _ "max ?s (unat (ce_start ce))"])
    with found step show ?thesis by simp
  next
    case inside
    have all: "hit t bits b \<longleftrightarrow> h" if "?s \<le> b" "b < ce_end ce" for b
      using that inside gap [of b] hit [of b] by (cases "b < unat (ce_start ce)") (auto simp: mem_ce)
    note sp = range_answer_split [of ?s "ce_end ce" t bits h, OF less.prems(3) all]
    show ?thesis
    proof (cases "h = filled \<and> ce_end ce \<le> ?e")
      case False
      then have "range_answer t ?s ?e bits filled = h" using sp(2,3) [of ?e filled] less.prems(4) by (cases "h = filled") auto
      with False inside less.prems(5) step show ?thesis by auto
    next
      case True
      have ra: "range_answer t ?s ?e bits filled = range_answer t (ce_end ce) ?e bits filled" using sp(1) True by blast
      show ?thesis
      proof (cases "next_cache_extent p")
        case None
        then have "inorder (st_cache t) = xs @ [ce]" using next_state [OF p] pd(1) by simp
        then have "\<not> range_answer t (ce_end ce) ?e bits filled"
          using True gap_behind [OF inv] no_hit_gap by (intro range_answer_none) auto
        with True None inside less.prems(5) ra step show ?thesis by auto
      next
        case (Some q)
        then obtain n ys' where q: "ys = n # ys'" "at_state t q (xs @ [ce]) n ys'" using next_state [OF p] by auto
        have "\<forall>x\<in>set (xs @ [ce]). ce_end x \<le> ce_end ce" using d(5) ce_okD(1) [OF d(3)] by (fastforce simp: ce_lt_def)
        moreover have "ce_lt ce n" using d(6) q(1) by simp
        then have "ce_end ce < ce_end n" using ce_okD(1) [of n] d(8) q(1) by (simp add: ce_lt_def)
        ultimately have "test_range_loop t q (es_end ?st + 1) endd bits filled (bitset \<or> h) = Some (range_answer t (ce_end ce) ?e bits filled)"
          using less.hyps [OF _ q(2), of "es_end ?st + 1" "bitset \<or> h"] q(1) True inside less.prems(5) af(2) by auto
        with True Some inside ra step show ?thesis by auto
      qed
    qed
  qed
qed

lemma test_range_ok:
  assumes inv: "state_inv t" and e: "unat start \<le> unat endd" "unat endd + 1 < 2 ^ 64"
  shows "test_range_bit t start endd bits filled = Some (range_answer t (unat start) (unat endd) bits filled)"
proof -
  have s: "unat start + 1 < 2 ^ 64" using e by linarith
  show ?thesis
  proof (cases "search_cache_extent (st_cache t) start")
    case None
    then have "\<forall>x\<in>set (inorder (st_cache t)). ce_end x \<le> unat start" using search_state [OF inv s] by simp
    then have "bits_at t b = 0" if "unat start \<le> b" for b using that by (intro gap_bits [of t "inorder (st_cache t)" "[]"]) fastforce+
    then have "\<not> range_answer t (unat start) (unat endd) bits filled" using e(1) no_hit_gap by (intro range_answer_none) auto
    with None show ?thesis by (simp add: test_range_bit_def)
  next
    case (Some p)
    then obtain xs ce ys where p: "at_state t p xs ce ys" "\<forall>x\<in>set xs. ce_end x \<le> unat start" "unat start < ce_end ce"
      using search_state [OF inv s] by auto
    from test_range_loop_ok [OF inv e(2) p e(1), of filled False] Some show ?thesis by (simp add: test_range_bit_def)
  qed
qed

section \<open>A range with flags\<close>

text \<open>
  What a user of the state tree relies on: the flags of bytes can be set and cleared on a range and asked for, and
  \<open>safe\<close> says where setting works.
\<close>

locale range_flags =
  fixes inv :: "'t \<Rightarrow> bool" and flag :: "'t \<Rightarrow> nat \<Rightarrow> bool" and safe :: "'t \<Rightarrow> nat \<Rightarrow> bool"
    and set_range clear_range :: "'t \<Rightarrow> u64 \<Rightarrow> u64 \<Rightarrow> (int \<times> 't) option" and test_range :: "'t \<Rightarrow> u64 \<Rightarrow> u64 \<Rightarrow> bool \<Rightarrow> bool option"
  assumes set_law: "inv t \<Longrightarrow> start \<le> endd \<Longrightarrow> unat endd + 1 < 2 ^ 64 \<Longrightarrow> safe t (unat endd) \<Longrightarrow>
      \<exists>t1. set_range t start endd = Some (0, t1) \<and> inv t1 \<and> (\<forall>b. flag t1 b \<longleftrightarrow> b \<in> {unat start..unat endd} \<or> flag t b)"
    and clear_law: "inv t \<Longrightarrow> start \<le> endd \<Longrightarrow> unat endd + 1 < 2 ^ 64 \<Longrightarrow>
      \<exists>r t1. clear_range t start endd = Some (r, t1) \<and> inv t1 \<and> (\<forall>b. flag t1 b \<longleftrightarrow> b \<notin> {unat start..unat endd} \<and> flag t b)"
    and test_law: "inv t \<Longrightarrow> start \<le> endd \<Longrightarrow> unat endd + 1 < 2 ^ 64 \<Longrightarrow>
      test_range t start endd filled =
        Some (if filled then \<forall>b\<in>{unat start..unat endd}. flag t b else \<exists>b\<in>{unat start..unat endd}. flag t b)"
begin

lemma set_test_clear:
  assumes "inv t" and "start \<le> endd" and "unat endd + 1 < 2 ^ 64" and "safe t (unat endd)"
  shows "\<exists>t1 r t2. set_range t start endd = Some (0, t1) \<and> test_range t1 start endd True = Some True \<and>
    clear_range t1 start endd = Some (r, t2) \<and> test_range t2 start endd False = Some False \<and> inv t1 \<and> inv t2 \<and>
    (\<forall>b. b \<notin> {unat start..unat endd} \<longrightarrow> flag t1 b = flag t b \<and> flag t2 b = flag t b)"
proof -
  obtain t1 where t1: "set_range t start endd = Some (0, t1)" "inv t1" "\<forall>b. flag t1 b \<longleftrightarrow> b \<in> {unat start..unat endd} \<or> flag t b"
    using set_law [OF assms] by blast
  obtain r t2 where t2: "clear_range t1 start endd = Some (r, t2)" "inv t2"
    "\<forall>b. flag t2 b \<longleftrightarrow> b \<notin> {unat start..unat endd} \<and> flag t1 b"
    using clear_law [OF t1(2) assms(2,3)] by blast
  have "test_range t1 start endd True = Some True" "test_range t2 start endd False = Some False"
    using test_law [OF t1(2) assms(2,3), of True] test_law [OF t2(2) assms(2,3), of False] t1(3) t2(3) by auto
  with t1 t2 show ?thesis by auto
qed

end

definition dirty :: "extent_io_tree \<Rightarrow> nat \<Rightarrow> bool" where
  "dirty t b \<longleftrightarrow> bits_at t b AND 1 \<noteq> 0"

text \<open>The extent that goes on behind byte \<open>e\<close>, if there is one, is dirty.\<close>

definition dirty_end :: "extent_io_tree \<Rightarrow> nat \<Rightarrow> bool" where
  "dirty_end t e \<longleftrightarrow> (\<forall>(ce, v)\<in>set (view t). unat (ce_start ce) \<le> e \<and> e + 1 < ce_end ce \<longrightarrow> v AND 1 \<noteq> 0)"

lemma dirty_bit: "v AND 1 \<noteq> 0 \<longleftrightarrow> bit v 0" for v :: u64
  by (simp add: and_one_eq odd_iff_mod_2_eq_one [symmetric] bit_0)

lemma dirty_has_bits: "v AND 1 \<noteq> 0 \<Longrightarrow> has_bits EXTENT_DIRTY v"
  unfolding has_bits_def dirty_bit by (rule bit_word_eqI) (auto simp: u64_of_int_def bit_simps)

interpretation dirty_flags: range_flags state_inv dirty dirty_end "set_extent_dirty (\<lambda>_. True)" "clear_extent_dirty (\<lambda>_. True)"
  "\<lambda>t start endd. test_range_bit t start endd EXTENT_DIRTY"
proof
  have u: "u64_of_int 1 = 1" by (simp add: u64_of_int_def)
  fix t :: extent_io_tree and start endd :: u64 and filled :: bool
  assume a: "state_inv t" "start \<le> endd" "unat endd + 1 < 2 ^ 64"
  then have le: "unat start \<le> unat endd" by (simp add: word_le_nat_alt)
  show "\<exists>t1. set_extent_dirty (\<lambda>_. True) t start endd = Some (0, t1) \<and> state_inv t1 \<and>
    (\<forall>b. dirty t1 b \<longleftrightarrow> b \<in> {unat start..unat endd} \<or> dirty t b)" if "dirty_end t (unat endd)"
  proof -
    have "\<forall>x\<in>set (view t). crosses (unat endd) x \<longrightarrow> has_bits EXTENT_DIRTY (snd x)"
      using that dirty_has_bits by (fastforce simp: dirty_end_def crosses_def)
    from set_loop_ok [OF a(1) le a(3) this, of "\<lambda>_. True" 0 False] show ?thesis
      by (auto simp: set_extent_dirty_def set_extent_bits_def flags_set_def u dirty_def dirty_bit bit_simps)
  qed
  show "\<exists>r t1. clear_extent_dirty (\<lambda>_. True) t start endd = Some (r, t1) \<and> state_inv t1 \<and>
    (\<forall>b. dirty t1 b \<longleftrightarrow> b \<notin> {unat start..unat endd} \<and> dirty t b)"
    using clear_loop_ok [OF a(1) le a(3), of "\<lambda>_. True" 0 False EXTENT_DIRTY 0]
    by (auto simp: clear_extent_dirty_def clear_extent_bits_def cleared_def u dirty_def dirty_bit bit_simps)
  show "test_range_bit t start endd EXTENT_DIRTY filled =
    Some (if filled then \<forall>b\<in>{unat start..unat endd}. dirty t b else \<exists>b\<in>{unat start..unat endd}. dirty t b)"
    using test_range_ok [OF a(1) le a(3), of EXTENT_DIRTY filled] by (auto simp: range_answer_def hit_def dirty_def u)
qed

section \<open>The operations\<close>

text \<open>The extents of an example: bytes 0 to 9 dirty, bytes 20 to 29 up to date.\<close>

definition ex_states :: extent_io_tree where
  "ex_states =
     (let a = new_state 0 9 1; b = new_state 20 29 4 in
      \<lparr>st_cache = RbNode RB_BLACK Null (update_extent_state a) (RbNode RB_RED Null (update_extent_state b) Null),
       st_node = (\<lambda>_. a)(update_extent_state b := b)\<rparr>)"

lemma ex_states_inv: "state_inv ex_states"
  by (auto simp: state_inv_def ex_states_def index_inv_def is_rbt_def Let_def new_state_def update_extent_state_def ce_lt_def ce_ok_def)

lemma ex_states_view:
  "view ex_states = [(\<lparr>ce_objectid = 0, ce_start = 0, ce_size = 10\<rparr>, 1), (\<lparr>ce_objectid = 0, ce_start = 20, ce_size = 10\<rparr>, 4)]"
  by (simp add: view_def ex_states_def Let_def new_state_def update_extent_state_def)

lemma ex_states_bits: "bits_at ex_states b = (if b < 10 then 1 else if 20 \<le> b \<and> b < 30 then 4 else 0)"
  by (simp add: bits_at_def ex_states_view range_bytes_def)

text \<open>
  C19. \<open>clear_extent_bits\<close> clears the flags of exactly the bytes of the range and returns the union of the flags it cleared.
  When an allocation fails it returns -ENOMEM and a first part of the range is cleared. All other bytes keep their flags.
\<close>
theorem clear_extent_bits_correct:
  assumes "state_inv t" and "start \<le> endd" and "unat endd + 1 < 2 ^ 64"
  shows "\<exists>ret t1 n. clear_extent_bits mem t start endd bits = Some (ret, t1) \<and> state_inv t1 \<and>
    unat start \<le> n \<and> n \<le> unat endd + 1 \<and> ((\<forall>k. mem k) \<longrightarrow> n = unat endd + 1) \<and>
    (\<forall>b. bits_at t1 b = (if b \<in> {unat start..<n} then bits_at t b AND NOT (u64_of_int bits) else bits_at t b)) \<and>
    (if n \<le> unat endd then ret = - ENOMEM
     else \<forall>i<31. bit ret i \<longleftrightarrow> (\<exists>b\<in>{unat start..unat endd}. bit (bits_at t b AND u64_of_int bits) i))"
proof -
  obtain r t1 n where c: "clear_extent_bits mem t start endd bits = Some (r, t1)" "unat start \<le> n" "n \<le> unat endd + 1"
    "if n = unat endd + 1 then \<exists>q. r = 0 OR q \<and> cleared t t1 (unat start) n bits q
     else r = - ENOMEM \<and> (\<exists>q. cleared t t1 (unat start) n bits q)" "(\<forall>k. mem k) \<longrightarrow> n = unat endd + 1"
    using clear_loop_ok [of t start endd mem 0 False bits 0] assms by (auto simp: clear_extent_bits_def word_le_nat_alt)
  obtain q where q: "cleared t t1 (unat start) n bits q" using c(4) by (auto split: if_splits)
  have "bit r i \<longleftrightarrow> (\<exists>b\<in>{unat start..unat endd}. bit (bits_at t b AND u64_of_int bits) i)" if "n = unat endd + 1" "i < 31" for i
    using c(4) that by (auto simp: cleared_def was_set_def less_Suc_eq_le)
  with c q show ?thesis by (intro exI [of _ r] exI [of _ t1] exI [of _ n]) (auto simp: cleared_def)
qed

theorem clear_extent_bits_correct_witness:
  "\<exists>ret t1. clear_extent_bits (\<lambda>_. True) ex_states 5 24 5 = Some (ret, t1) \<and> bit ret 0 \<and> \<not> bit ret 1 \<and> bit ret 2 \<and>
     bits_at t1 4 = 1 \<and> bits_at t1 5 = 0 \<and> bits_at t1 24 = 0 \<and> bits_at t1 25 = 4"
proof -
  from clear_extent_bits_correct [OF ex_states_inv, of 5 24 "\<lambda>_. True" 5]
  obtain ret t1 where c: "clear_extent_bits (\<lambda>_. True) ex_states 5 24 5 = Some (ret, t1)"
    and b: "bits_at t1 b = (if b \<in> {5..<25} then bits_at ex_states b AND NOT (u64_of_int 5) else bits_at ex_states b)"
    and r: "\<forall>i<31. bit ret i \<longleftrightarrow> (\<exists>b\<in>{5..24}. bit (bits_at ex_states b AND u64_of_int 5) i)" for b
    by auto
  have "bit ret 0" using r by (auto simp: ex_states_bits u64_of_int_def intro!: bexI [of _ 5])
  moreover have "bit ret 2" using r by (auto simp: ex_states_bits u64_of_int_def bit_simps intro!: bexI [of _ 20])
  moreover have "\<not> bit ret 1" using r by (auto simp: ex_states_bits u64_of_int_def bit_simps)
  ultimately show ?thesis using c by (auto simp: b ex_states_bits u64_of_int_def)
qed

text \<open>
  C18. \<open>set_extent_bits\<close> adds the flags to exactly the bytes of the range, when the extent that begins in or before the
  range and goes on behind it, if there is one, has the flags already. When an allocation fails it returns -ENOMEM and a
  first part of the range has the flags.
\<close>
theorem set_extent_bits_correct:
  assumes "state_inv t" and "start \<le> endd" and "unat endd + 1 < 2 ^ 64"
    and "\<forall>x\<in>set (view t). crosses (unat endd) x \<longrightarrow> has_bits bits (snd x)"
  shows "\<exists>ret t1 n. set_extent_bits mem t start endd bits = Some (ret, t1) \<and> state_inv t1 \<and>
    unat start \<le> n \<and> n \<le> unat endd + 1 \<and> ((\<forall>k. mem k) \<longrightarrow> n = unat endd + 1) \<and>
    (\<forall>b. bits_at t1 b = (if b \<in> {unat start..<n} then bits_at t b OR u64_of_int bits else bits_at t b)) \<and>
    ret = (if n \<le> unat endd then - ENOMEM else 0)"
proof -
  obtain r t1 n where s: "set_extent_bits mem t start endd bits = Some (r, t1)" "unat start \<le> n" "n \<le> unat endd + 1"
    "flags_set t t1 {unat start..<n} bits" "r = (if n = unat endd + 1 then 0 else - ENOMEM)" "(\<forall>i. mem i) \<longrightarrow> n = unat endd + 1"
    using set_loop_ok [of t start endd bits mem 0 False] assms by (auto simp: set_extent_bits_def word_le_nat_alt)
  then show ?thesis by (intro exI [of _ r] exI [of _ t1] exI [of _ n]) (auto simp: flags_set_def)
qed

theorem set_extent_bits_correct_witness:
  "\<exists>t1. set_extent_bits (\<lambda>_. True) ex_states 5 29 2 = Some (0, t1) \<and>
     bits_at t1 4 = 1 \<and> bits_at t1 5 = 3 \<and> bits_at t1 15 = 2 \<and> bits_at t1 29 = 6 \<and> bits_at t1 30 = 0"
proof -
  have "\<forall>x\<in>set (view ex_states). crosses 29 x \<longrightarrow> has_bits 2 (snd x)" by (simp add: ex_states_view crosses_def)
  then show ?thesis
    using set_extent_bits_correct [OF ex_states_inv, of 5 29 2 "\<lambda>_. True"] by (auto simp: ex_states_bits u64_of_int_def)
qed

text \<open>
  C20. \<open>set_extent_bits\<close> when an extent without the flags begins in or before the range and goes on behind it: the part of
  this extent behind the range gets the flags, its part in the range does not, and the result is 0. The code splits the
  extent and then adds the flags to \<open>state\<close>, the second part, where its comment says the first.
\<close>
theorem set_extent_bits_wrong_half:
  assumes "state_inv t" and "start \<le> endd" and "unat endd + 1 < 2 ^ 64" and "\<forall>k. mem k"
    and "(ce, v) \<in> set (view t)" and "unat (ce_start ce) \<le> unat endd" and "unat endd + 1 < ce_end ce"
    and "v OR u64_of_int bits \<noteq> v"
  shows "\<exists>t1. set_extent_bits mem t start endd bits = Some (0, t1) \<and> state_inv t1 \<and>
    (\<forall>b. bits_at t1 b =
       (if b \<in> {unat start..<max (unat start) (unat (ce_start ce))} \<union> {unat endd + 1..<ce_end ce}
        then bits_at t b OR u64_of_int bits else bits_at t b))"
  using set_loop_wrong [of t start endd mem "(ce, v)" bits 0 False] assms
  by (auto simp: set_extent_bits_def flags_set_def crosses_def has_bits_def word_le_nat_alt)

theorem set_extent_bits_wrong_half_witness:
  "\<exists>t1. set_extent_bits (\<lambda>_. True) ex_states 15 24 1 = Some (0, t1) \<and>
     bits_at t1 15 = 1 \<and> bits_at t1 24 = 4 \<and> bits_at t1 25 = 5 \<and> bits_at t1 29 = 5"
  using set_extent_bits_wrong_half [OF ex_states_inv, of 15 24 "\<lambda>_. True" "\<lparr>ce_objectid = 0, ce_start = 20, ce_size = 10\<rparr>" 4 1]
  by (auto simp: ex_states_view ex_states_bits u64_of_int_def)

text \<open>
  \<open>test_range_bit\<close>: with \<open>filled\<close> whether every byte of the range has one of the flags, and else whether some byte has.
\<close>
theorem test_range_bit_correct:
  assumes "state_inv t" and "start \<le> endd" and "unat endd + 1 < 2 ^ 64"
  shows "test_range_bit t start endd bits filled =
    Some (if filled then \<forall>b\<in>{unat start..unat endd}. bits_at t b AND u64_of_int bits \<noteq> 0
          else \<exists>b\<in>{unat start..unat endd}. bits_at t b AND u64_of_int bits \<noteq> 0)"
  using test_range_ok [OF assms(1) _ assms(3), of start bits filled] assms(2)
  by (auto simp: word_le_nat_alt range_answer_def hit_def)

theorem test_range_bit_correct_witness:
  "test_range_bit ex_states 2 9 1 True = Some True \<and> test_range_bit ex_states 2 10 1 True = Some False \<and>
   test_range_bit ex_states 9 12 1 False = Some True \<and> test_range_bit ex_states 10 12 1 False = Some False"
proof -
  have u: "u64_of_int 1 = 1" by (simp add: u64_of_int_def)
  have "test_range_bit ex_states 2 9 1 True = Some True" "test_range_bit ex_states 10 12 1 False = Some False"
    using test_range_bit_correct [OF ex_states_inv, of 2 9 1] test_range_bit_correct [OF ex_states_inv, of 10 12 1]
    by (auto simp: u ex_states_bits)
  moreover have "\<exists>b\<in>{2..10}. bits_at ex_states b AND u64_of_int 1 = 0" "\<exists>b\<in>{9..12}. bits_at ex_states b AND u64_of_int 1 \<noteq> 0"
    by (auto simp: u ex_states_bits intro: bexI [of _ 10] bexI [of _ 9])
  then have "test_range_bit ex_states 2 10 1 True = Some False" "test_range_bit ex_states 9 12 1 False = Some True"
    using test_range_bit_correct [OF ex_states_inv, of 2 10 1] test_range_bit_correct [OF ex_states_inv, of 9 12 1] by auto
  ultimately show ?thesis by blast
qed

text \<open>
  \<open>find_first_extent_bit\<close> returns an extent that ends at or behind \<open>start\<close>, all of whose bytes have the same flags, one of
  \<open>bits\<close> among them, and no byte from \<open>start\<close> up to it has one of them; or 1, when no byte from \<open>start\<close> on has one.
\<close>
theorem find_first_extent_bit_correct:
  assumes "state_inv t" and "unat start + 1 < 2 ^ 64"
  shows "find_first_extent_bit t start bits = Some (1, None) \<and> (\<forall>b\<ge>unat start. bits_at t b AND u64_of_int bits = 0) \<or>
    (\<exists>a z. find_first_extent_bit t start bits = Some (0, Some (a, z)) \<and> start \<le> z \<and> a \<le> z \<and>
       (\<forall>b\<in>{unat a..unat z}. bits_at t b AND u64_of_int bits \<noteq> 0 \<and> bits_at t b = bits_at t (unat a)) \<and>
       (\<forall>b\<in>{unat start..<unat a}. bits_at t b AND u64_of_int bits = 0))"
proof -
  obtain r where r: "find_first_extent_bit t start bits = Some r" "first_hit t bits (unat start) r" using find_first_ok [OF assms] by blast
  show ?thesis
  proof (cases "snd r")
    case None
    then show ?thesis using r by (cases r) (simp add: first_hit_def hit_def)
  next
    case (Some az)
    then obtain c a z where eq: "r = (c, Some (a, z))" by (cases r; cases az) auto
    moreover have "c = 0" using r(2) unfolding eq by (simp add: first_hit_def)
    ultimately have "find_first_extent_bit t start bits = Some (0, Some (a, z))" "first_hit t bits (unat start) (0, Some (a, z))"
      using r by simp_all
    then show ?thesis
      unfolding first_hit_def hit_def word_le_nat_alt prod.case option.case Ball_def atLeastAtMost_iff atLeastLessThan_iff by blast
  qed
qed

theorem find_first_extent_bit_correct_witness:
  "\<exists>a z. find_first_extent_bit ex_states 3 4 = Some (0, Some (a, z)) \<and> 20 \<le> unat a \<and> unat a \<le> unat z \<and> unat z < 30"
proof -
  have u: "u64_of_int 4 = 4" by (simp add: u64_of_int_def)
  have "\<not> (\<forall>b\<ge>3. bits_at ex_states b AND 4 = 0)" by (auto simp: ex_states_bits intro!: exI [of _ 20])
  then obtain a z where f: "find_first_extent_bit ex_states 3 4 = Some (0, Some (a, z))" "a \<le> z"
    "\<forall>b\<in>{unat a..unat z}. bits_at ex_states b AND 4 \<noteq> 0"
    using find_first_extent_bit_correct [OF ex_states_inv, of 3 4] by (auto simp: u)
  then have "bits_at ex_states (unat a) AND 4 \<noteq> 0" "bits_at ex_states (unat z) AND 4 \<noteq> 0"
    by (auto simp: word_le_nat_alt)
  then show ?thesis using f(1,2) by (auto simp: ex_states_bits word_le_nat_alt split: if_splits)
qed

text \<open>The states that \<open>set_state_private\<close> and \<open>get_state_private\<close> find: those that begin at the given byte.\<close>

lemma state_starting_at:
  assumes inv: "state_inv t" and s: "unat start + 1 < 2 ^ 64"
  shows "case state_starting t start of
     None \<Rightarrow> \<forall>ce\<in>set (inorder (st_cache t)). ce_start ce \<noteq> start
   | Some p \<Rightarrow> cur_entry p \<in> set (inorder (st_cache t)) \<and> ce_start (cur_entry p) = start"
proof (cases "\<exists>ce\<in>set (inorder (st_cache t)). ce_start ce = start")
  case True
  then obtain xs ce ys where io: "inorder (st_cache t) = xs @ ce # ys" "ce_start ce = start" by (auto dest!: split_list)
  obtain p where p: "state_ptr t start = Some p" "at_state t p xs ce ys" using state_ptr_at [OF inv io(1)] io(2) by auto
  note pd = at_stateD [OF p(2)]
  have "es_start (st_node t ce) = start" using state_range(1) [OF state_invD(4,3) [OF inv io(1)]] io(2) by simp
  with p(1) pd io show ?thesis by (simp add: state_starting_def state_ptr_def)
next
  case False
  show ?thesis
  proof (cases "search_cache_extent (st_cache t) start")
    case None
    with False show ?thesis by (simp add: state_starting_def)
  next
    case (Some p)
    then obtain xs ce ys where p: "at_state t p xs ce ys" using search_state [OF inv s] by auto
    note pd = at_stateD [OF p]
    have "es_start (st_node t ce) = ce_start ce" using state_range(1) [OF state_invD(4,3) [OF inv pd(1)]] .
    with False Some pd show ?thesis by (auto simp: state_starting_def)
  qed
qed

lemma state_starting_None:
  assumes "state_inv t" and "unat start + 1 < 2 ^ 64"
  shows "state_starting t start = None \<longleftrightarrow> (\<forall>ce\<in>set (inorder (st_cache t)). ce_start ce \<noteq> start)"
  using state_starting_at [OF assms] by (auto split: option.splits)

text \<open>
  The private value of an extent that begins at \<open>start\<close> is the one that was set last, and setting it changes no flag and no
  private value of another extent; with no extent that begins there both operations return -ENOENT.
\<close>
theorem state_private_roundtrip:
  assumes "state_inv t" and "unat start + 1 < 2 ^ 64" and "set_state_private t start v = (ret, t1)"
  shows "state_inv t1 \<and> bits_at t1 = bits_at t \<and>
    (if \<exists>ce\<in>set (inorder (st_cache t)). ce_start ce = start
     then ret = 0 \<and> get_state_private t1 start = (0, Some v)
     else ret = - ENOENT \<and> t1 = t \<and> get_state_private t1 start = (- ENOENT, None)) \<and>
    (\<forall>s. s \<noteq> start \<and> unat s + 1 < 2 ^ 64 \<longrightarrow> get_state_private t1 s = get_state_private t s)"
proof (cases "state_starting t start")
  case None
  with assms(3) have "ret = - ENOENT" "t1 = t" by (simp_all add: set_state_private_def)
  with None assms(1) state_starting_None [OF assms(1,2)] show ?thesis by (auto simp: get_state_private_def)
next
  case (Some p)
  with assms(3) have r: "ret = 0" "t1 = t\<lparr>st_node := (st_node t)(cur_entry p := (es_at t p)\<lparr>es_private := v\<rparr>)\<rparr>"
    by (simp_all add: set_state_private_def)
  have p: "cur_entry p \<in> set (inorder (st_cache t))" "ce_start (cur_entry p) = start" using state_starting_at [OF assms(1,2)] Some by auto
  have same: "es_start (st_node t1 x) = es_start (st_node t x)" "es_state (st_node t1 x) = es_state (st_node t x)"
    "update_extent_state (st_node t1 x) = update_extent_state (st_node t x)" for x
    by (simp_all add: r(2) update_extent_state_def)
  have pr: "es_private (st_node t1 x) = (if x = cur_entry p then v else es_private (st_node t x))" for x by (simp add: r(2))
  have cache: "st_cache t1 = st_cache t" by (simp add: r(2))
  have st: "state_starting t1 s = state_starting t s" for s by (simp add: state_starting_def cache same split: option.split)
  have "state_inv t1" "bits_at t1 = bits_at t"
    using assms(1) by (simp_all add: state_inv_def cache same bits_at_def view_def)
  moreover have "get_state_private t1 s = get_state_private t s" if s: "s \<noteq> start" "unat s + 1 < 2 ^ 64" for s
    using state_starting_at [OF assms(1) s(2)] s(1) p(2) by (auto simp: get_state_private_def st pr split: option.splits)
  moreover have "get_state_private t1 start = (0, Some v)" by (simp add: get_state_private_def st Some) (simp add: r(2))
  ultimately show ?thesis using p r(1) by auto
qed

theorem state_private_roundtrip_witness:
  "fst (set_state_private ex_states 20 7) = 0 \<and> get_state_private (snd (set_state_private ex_states 20 7)) 20 = (0, Some 7) \<and>
   fst (set_state_private ex_states 21 7) = - ENOENT"
proof -
  have i: "inorder (st_cache ex_states) = [\<lparr>ce_objectid = 0, ce_start = 0, ce_size = 10\<rparr>, \<lparr>ce_objectid = 0, ce_start = 20, ce_size = 10\<rparr>]"
    by (simp add: ex_states_def Let_def new_state_def update_extent_state_def)
  show ?thesis
    using state_private_roundtrip [OF ex_states_inv _ surjective_pairing, of 20 7] state_private_roundtrip [OF ex_states_inv _ surjective_pairing, of 21 7]
    by (simp add: i)
qed

text \<open>
  A range that is marked dirty is found dirty, and after it was cleared it is found clean; no other byte changes. This needs
  that the extent that goes on behind the range, if there is one, is dirty already.
\<close>
theorem extent_dirty_roundtrip:
  assumes "state_inv t" and "start \<le> endd" and "unat endd + 1 < 2 ^ 64" and "dirty_end t (unat endd)"
  shows "\<exists>t1 r t2. set_extent_dirty (\<lambda>_. True) t start endd = Some (0, t1) \<and> test_range_bit t1 start endd EXTENT_DIRTY True = Some True \<and>
    clear_extent_dirty (\<lambda>_. True) t1 start endd = Some (r, t2) \<and> test_range_bit t2 start endd EXTENT_DIRTY False = Some False \<and>
    state_inv t1 \<and> state_inv t2 \<and> (\<forall>b. b \<notin> {unat start..unat endd} \<longrightarrow> dirty t1 b = dirty t b \<and> dirty t2 b = dirty t b)"
  by (rule dirty_flags.set_test_clear [OF assms])

theorem extent_dirty_roundtrip_witness:
  "\<exists>t1 r t2. set_extent_dirty (\<lambda>_. True) ex_states 8 40 = Some (0, t1) \<and> test_range_bit t1 8 40 EXTENT_DIRTY True = Some True \<and>
     clear_extent_dirty (\<lambda>_. True) t1 8 40 = Some (r, t2) \<and> dirty t2 7"
proof -
  have "dirty_end ex_states 40" by (simp add: dirty_end_def ex_states_view)
  then show ?thesis using extent_dirty_roundtrip [OF ex_states_inv, of 8 40] by (auto simp: dirty_def ex_states_bits)
qed

end
