(* ===== verification/Spec2Isabelle.thy ===== *)
theory Spec2Isabelle
  imports IndexProps TreeInsertProps SendStreamSpec DiskProps ExtentIoProps
begin

text \<open>
  A verification development for the core of \<open>btrfs-progs\<close>, the user space tools of the btrfs file
  system. Paths are relative to \<open>src/\<close>.

  \<^bold>\<open>The program.\<close> All metadata of a btrfs file system lives in copy-on-write B-trees of blocks
  (\<open>ctree.c\<close>, \<open>ctree.h\<close>): leaves hold items (a key and some bytes), nodes hold keys with the
  addresses of blocks. On top of the trees sit the extent allocator, the directory, inode and file
  items, the checker, \<open>mkfs\<close>, the converter and the commands. Below and beside them are generic
  structures: red-black trees (\<open>kernel-lib/rbtree.c\<close>), sets of byte ranges (\<open>extent-cache.c\<close>),
  lists of unique values (\<open>kernel-shared/ulist.c\<close>), checksums (\<open>kernel-lib/crc32c.c\<close>), parity
  (\<open>kernel-lib/raid56.c\<close>). Addresses in the trees are logical; \<open>volumes.c\<close> maps them through chunks to
  places on the devices. The stream of \<open>btrfs send\<close> is read by \<open>send-stream.c\<close>.

  \<^bold>\<open>Theories.\<close>
  \<^item> \<open>Prelude\<close>: machine types, error numbers, the arithmetic of \<open>u32\<close> values and shared lemmas.
  \<^item> \<open>RbTree\<close>: \<open>rbtree.c\<close> and \<open>rbtree-utils.c\<close>. A node with its parent pointers is a subtree and
    the list of frames above it; following a null pointer is \<open>None\<close>. Shown: insertion and erasure
    keep the rules of a red-black tree and always return, the walks follow the in-order sequence.
    The locale \<open>rb_index\<close> is the interface for a tree kept in the order of a comparison function,
    \<open>rb_keyed\<close> its extension by a search.
  \<^item> \<open>ExtentCache\<close>, \<open>Ulist\<close>: the two clients of the red-black tree, each an interpretation of these
    locales. \<open>IndexProps\<close> states the properties of the three.
  \<^item> \<open>Keys\<close>, \<open>ExtentBuffer\<close>: the order of keys, and a tree block: the header, the array of item
    headers, the data area and the array of key pointers, with the accessors of \<open>ctree.h\<close> and the
    copies of \<open>extent_io.c\<close>. The parts of a block are modelled as separate arrays; the layout
    invariant of a leaf says that the item headers and the data do not meet. Header fields are
    numbers, reduced modulo \<open>2 ^ 32\<close> wherever the code's arithmetic is in \<open>u32\<close>.
  \<^item> \<open>Leaf\<close>, \<open>LeafItems\<close>, \<open>LeafBalance\<close>, \<open>LeafProps\<close>: the operations of \<open>ctree.c\<close> on leaves, refining
    operations on the list \<open>leaf_items\<close> of keys with their bytes. \<open>BUG\<close> and \<open>BUG_ON\<close> are \<open>None\<close>.
    The locale \<open>item_store\<close> is the interface of a leaf for its clients.
  \<^item> \<open>Node\<close>: the same for nodes, refining operations on the list \<open>node_ptrs\<close>.
  \<^item> \<open>BlockCheck\<close>, \<open>BlockProps\<close>: \<open>btrfs_check_node\<close>, \<open>btrfs_check_leaf\<close>, the binary search, and what
    the check of a block guarantees to the operations.
  \<^item> \<open>TreeSearch\<close>, \<open>TreeProps\<close>: \<open>btrfs_search_slot\<close> (without a transaction), \<open>btrfs_find_item\<close> and
    the walks to the next and the previous item, over trees of any height below 8. The function that
    reads a block (\<open>read_tree_block\<close>) is an argument. A path is a position in the sequence of all
    items of the tree. The locale \<open>back_loop\<close> holds the common part of the two backward walks.
  \<^item> \<open>TreeWrite\<close>: the functions of \<open>ctree.c\<close> that change a tree, on a store that maps addresses to blocks:
    \<open>btrfs_cow_block\<close>, \<open>btrfs_search_slot\<close> as it runs before an insertion, the balancing and splitting of nodes and
    leaves, \<open>btrfs_insert_empty_items\<close> and \<open>btrfs_insert_item\<close>. The extent allocator is an argument: the addresses
    it hands out, its answers, and a record of the calls.
  \<^item> \<open>TreeShape\<close>: the tree with addresses that a store holds (\<open>stored\<close>), and a path as a zipper into it. \<open>TreeCow\<close>,
    \<open>TreeNodes\<close>, \<open>TreePush\<close>, \<open>TreeSplit\<close>, \<open>TreeLeaf\<close>, \<open>TreeLeafSplit\<close>: each operation on a path as a step on the zipper
    that keeps the sequence of all items, the place of the path in it and the collection \<open>uses\<close> of all addresses of
    tree, free and freed blocks. \<open>TreeDescent\<close>: the search, level by level; \<open>4 * l + 6\<close> free blocks are enough for
    a tree with \<open>l\<close> levels above the leaves (four for each level, six at the leaf). \<open>TreeInsert\<close>: insertion as insertion
    into a sorted list, and the search that only reads on the new tree.
  \<^item> \<open>TreeFrozen\<close>: copy on write is safe. Nothing is assumed about the blocks, the allocator or the results; by
    rules that follow the program text (\<open>post_rules\<close>) no operation writes to a block that the transaction does not own.
  \<^item> \<open>TreeInsertProps\<close> states the properties; the locale \<open>item_map\<close> is what the code above the trees relies on, a map from
    keys to data.
  \<^item> \<open>Crc32c\<close>: the table and the byte-wise checksum against the bitwise definition.
  \<^item> \<open>SendStream\<close>, \<open>SendStreamSpec\<close>: the reader of a send stream against an encoder written from the
    format. The file is a list of bytes with the sizes of the pieces in which \<open>read\<close> returns them; the
    callbacks and the allocator are arguments.
  \<^item> \<open>Gf256\<close>, \<open>Raid56\<close>, \<open>RaidProps\<close>: the field of 256 elements with the generator and the tables of
    \<open>mktables.c\<close> and \<open>tables.c\<close>, and \<open>raid56.c\<close>: the syndromes against their definition as sums over the
    field, and the recovery of lost stripes: any one, two data stripes or both parity stripes. For a data and a parity
    stripe the code recovers from the wrong one; the result is stated exactly.
  \<^item> \<open>Volumes\<close>: the chunk mapping of \<open>volumes.c\<close> as it is written, at 64 bits: \<open>__btrfs_map_block\<close>,
    \<open>btrfs_rmap_block\<close>, \<open>btrfs_num_copies\<close>, \<open>btrfs_next_bg\<close>, \<open>btrfs_check_chunk_valid\<close>, \<open>read_one_chunk\<close>.
    The chunks are kept in the extent cache of \<open>ExtentCache\<close>.
  \<^item> \<open>ChunkMap\<close>, \<open>ChunkRmap\<close>, \<open>ChunkItems\<close>: the layout of a chunk (rows, columns and copies; \<open>place\<close> and
    \<open>extent_offset\<close>), written from the format and not from the code, the forward and the backward mapping
    against it, and the check and the insertion of chunk items. \<open>FindRoot\<close>: the search for the roots of a tree in
    \<open>find-root.c\<close>, a client of \<open>btrfs_next_bg\<close>: which block groups and blocks it visits, when it ends, and what it
    collects. \<open>VolumeProps\<close> states the properties.
  \<^item> \<open>DiskIo\<close>: the reads and writes of data and of blocks (\<open>extent_io.c\<close>, \<open>disk-io.c\<close>), with the write of a row with
    parity of \<open>volumes.c\<close>, on devices that are lists of bytes.
  \<^item> \<open>DiskSpec\<close>, \<open>DiskWrite\<close>, \<open>DiskParity\<close>: the bytes of a chunk and its copies, as the layout places them on the
    devices, what a write does to them, and the redundancy of a volume (equal copies, right parity), an invariant of
    all writes. The locale \<open>extent_array\<close> is the interface of the device extents for the writes, \<open>piece_reader\<close>
    that of the two loops that read a range in pieces. \<open>DiskProps\<close> composes the mapping, the writes and the recovery
    from parity.
  \<^item> \<open>ExtentIo\<close>, \<open>ExtentIoSpec\<close>, \<open>ExtentIoSet\<close>, \<open>ExtentIoProps\<close>: the tree of extent states of \<open>extent_io.c\<close>, a client of
    the extent cache. Its operations refine operations on a map from bytes to flags, \<open>bits_at\<close>; the one exception, an
    extent that goes on behind a range that is set, is stated exactly. The allocator of states is an argument, so
    that what a failed allocation leaves behind is part of the statements. The locale \<open>range_flags\<close> is what a user of
    the dirty flag relies on.

  \<^bold>\<open>Loops.\<close> All loops but a few are total functions. The loop over a send stream, the descent of a
  search that changes the tree, the loop that follows a path back, the search for the next block group and the search for roots, the loops of the state tree and those that read and write ranges are
  \<open>partial_function (option)\<close> where they may run forever; their termination, or the absence of it, is proved as such.

  \<^bold>\<open>Not modelled.\<close> The search that prepares a deletion and the deletion of items on a path (on the blocks the
  moves are in \<open>Leaf\<close> and \<open>Node\<close>), the start and the commit of a transaction, the extent allocator, the allocation of chunks and the scan for devices; everything that is mostly system calls, terminal output or
  glue (the commands, \<open>mkfs\<close>, the converter, the image tool, \<open>libbtrfsutil\<close>), and the checker. Reference
  counts of buffers, dirty flags, read-ahead and messages have no effect on the results that are
  modelled and are left out. \<open>crc32c_intel\<close>, chosen on processors with the instruction, is not
  modelled.
\<close>

end
